(* ===== verification/Kz_Base.thy ===== *)
theory Kz_Base
  imports Main "HOL-Library.Word" "HOL-Library.Signed_Division"
begin

text \<open>
  The prelude of the Kyuzen OS development.

  It fixes how C integers are read (\<open>u8\<close>, \<open>u16\<close>, \<open>u32\<close>, \<open>u64\<close> reduce a natural number to the
  width of the C type, \<open>sub64\<close> and \<open>sub32\<close> are unsigned subtraction with its wrap-around, \<open>s32\<close>
  is the conversion to \<open>int32_t\<close>; \<open>sdiv\<close> and \<open>smod\<close> of the library are C's truncating division),
  and it holds the facts about bitmaps, scans and fixed-size arrays that several components share.

  The \<open>bitmap\<close> locale is the interface between a byte-array bitmap and the allocators above it: the
  physical memory manager (\<open>kernel/mm/pmm.c\<close>) and the block and inode allocators of the file system
  (\<open>kernel/fs/kfs_balloc.c\<close>) each bring their own bit helpers and interpret it.
\<close>

unbundle bit_operations_syntax

section \<open>C integers\<close>

type_synonym byte = "8 word"

definition u8 :: "nat \<Rightarrow> nat" where
  "u8 x = x mod 256"

definition u16 :: "nat \<Rightarrow> nat" where
  "u16 x = x mod 65536"

definition u32 :: "nat \<Rightarrow> nat" where
  "u32 x = x mod 4294967296"

definition u64 :: "nat \<Rightarrow> nat" where
  "u64 x = x mod 18446744073709551616"

definition sub16 :: "nat \<Rightarrow> nat \<Rightarrow> nat" where
  "sub16 a b = (a + 65536 - b mod 65536) mod 65536"

definition sub32 :: "nat \<Rightarrow> nat \<Rightarrow> nat" where
  "sub32 a b = (a + 4294967296 - b mod 4294967296) mod 4294967296"

definition sub64 :: "nat \<Rightarrow> nat \<Rightarrow> nat" where
  "sub64 a b = (a + 18446744073709551616 - b mod 18446744073709551616) mod 18446744073709551616"

definition s32 :: "int \<Rightarrow> int" where
  "s32 x = signed_take_bit 31 x"

named_theorems c_int \<open>unsigned reductions that are the identity in range\<close>

lemma u8_id [c_int]: "x < 256 \<Longrightarrow> u8 x = x"
  by (simp add: u8_def)

lemma u16_id [c_int]: "x < 65536 \<Longrightarrow> u16 x = x"
  by (simp add: u16_def)

lemma u32_id [c_int]: "x < 4294967296 \<Longrightarrow> u32 x = x"
  by (simp add: u32_def)

lemma u64_id [c_int]: "x < 18446744073709551616 \<Longrightarrow> u64 x = x"
  by (simp add: u64_def)

lemma u64_less [simp]: "u64 x < 18446744073709551616"
  by (simp add: u64_def)

lemma u32_less [simp]: "u32 x < 4294967296"
  by (simp add: u32_def)

lemma wrap_sub_id: "b \<le> a \<Longrightarrow> a < M \<Longrightarrow> (a + M - b mod M) mod M = a - (b :: nat)"
  by (simp add: Nat.diff_add_assoc2 [symmetric] del: Nat.diff_add_assoc2)
    (metis Nat.add_diff_assoc2 less_imp_diff_less mod_add_self2 mod_less)

lemma sub16_id [c_int]: "b \<le> a \<Longrightarrow> a < 65536 \<Longrightarrow> sub16 a b = a - b"
  unfolding sub16_def by (rule wrap_sub_id)

lemma sub32_id [c_int]: "b \<le> a \<Longrightarrow> a < 4294967296 \<Longrightarrow> sub32 a b = a - b"
  unfolding sub32_def by (rule wrap_sub_id)

lemma sub64_id [c_int]: "b \<le> a \<Longrightarrow> a < 18446744073709551616 \<Longrightarrow> sub64 a b = a - b"
  unfolding sub64_def by (rule wrap_sub_id)

lemma s32_id [c_int]: "- 2147483648 \<le> x \<Longrightarrow> x < 2147483648 \<Longrightarrow> s32 x = x"
  unfolding s32_def by (rule signed_take_bit_int_eq_self) simp_all

lemma sdiv_nonneg: "0 \<le> a \<Longrightarrow> 0 < b \<Longrightarrow> a sdiv b = a div (b :: int)"
  by (cases "a = 0") (simp_all add: signed_divide_int_def sgn_if)

lemma smod_nonneg: "0 \<le> a \<Longrightarrow> 0 < b \<Longrightarrow> a smod b = a mod (b :: int)"
  by (cases "a = 0") (simp_all add: signed_modulo_int_def sgn_if)

section \<open>Rounding up\<close>

lemma round_up_le_iff: "0 < p \<Longrightarrow> (a + p - 1) div p * p \<le> b * p \<longleftrightarrow> a \<le> b * (p :: nat)"
proof -
  assume p: "0 < p"
  have "(a + p - 1) div p * p \<le> b * p \<longleftrightarrow> (a + p - 1) div p < Suc b" using p by auto
  also have "\<dots> \<longleftrightarrow> a + p - 1 < Suc b * p" using p by (rule div_less_iff_less_mult)
  also have "\<dots> \<longleftrightarrow> a \<le> b * p" using p by auto
  finally show ?thesis .
qed

lemma round_up_ge: "0 < p \<Longrightarrow> a \<le> (a + p - 1) div p * (p :: nat)"
  using round_up_le_iff [of p a "(a + p - 1) div p"] by simp

section \<open>Scanning for a clear bit\<close>

text \<open>
  The loop \<open>for (i = from; i < to; i++) if (!test(i)) return i;\<close> of every bitmap allocator.
\<close>

function first_clear :: "(nat \<Rightarrow> bool) \<Rightarrow> nat \<Rightarrow> nat \<Rightarrow> nat option" where
  "first_clear t i n = (if i < n then (if \<not> t i then Some i else first_clear t (Suc i) n) else None)"
  by pat_completeness auto
termination
  by (relation "measure (\<lambda>(t, i, n). n - i)") auto

declare first_clear.simps [simp del]

lemma first_clear_SomeD:
  "first_clear t i n = Some k \<Longrightarrow> i \<le> k \<and> k < n \<and> \<not> t k \<and> (\<forall>j. i \<le> j \<and> j < k \<longrightarrow> t j)"
proof (induction t i n rule: first_clear.induct)
  case (1 t i n)
  then show ?case
    by (subst (asm) first_clear.simps)
      (auto split: if_splits simp: Suc_le_eq, metis le_neq_implies_less not_less_eq_eq)
qed

lemma first_clear_NoneD:
  "first_clear t i n = None \<Longrightarrow> i \<le> j \<Longrightarrow> j < n \<Longrightarrow> t j"
proof (induction t i n rule: first_clear.induct)
  case (1 t i n)
  have "t j" if "i \<noteq> j"
    using 1 that by (subst (asm) (2) first_clear.simps) (auto split: if_splits)
  moreover have "t i" if "i < n"
    using "1.prems"(1) that by (subst (asm) first_clear.simps) (auto split: if_splits)
  ultimately show ?case using "1.prems" by blast
qed

lemma first_clear_None_iff: "first_clear t i n = None \<longleftrightarrow> (\<forall>j. i \<le> j \<and> j < n \<longrightarrow> t j)"
  using first_clear_NoneD first_clear_SomeD by (metis not_Some_eq)

lemma first_clear_cong:
  assumes "\<And>j. i \<le> j \<Longrightarrow> j < n \<Longrightarrow> t j = t' j"
  shows "first_clear t i n = first_clear t' i n"
  using assms
proof (induction t i n rule: first_clear.induct)
  case (1 t i n)
  then show ?case
    by (simp add: first_clear.simps [of t i n] first_clear.simps [of t' i n])
qed

lemma find_SomeD: "find P xs = Some x \<Longrightarrow> x \<in> set xs \<and> P x"
  by (induction xs) (auto split: if_splits)

section \<open>Counting set bits\<close>

definition set_bits_below :: "(nat \<Rightarrow> bool) \<Rightarrow> nat \<Rightarrow> nat set" where
  "set_bits_below t n = {i. i < n \<and> t i}"

definition count_set :: "(nat \<Rightarrow> bool) \<Rightarrow> nat \<Rightarrow> nat" where
  "count_set t n = length (filter t [0..<n])"

lemma finite_set_bits_below [simp]: "finite (set_bits_below t n)"
  by (simp add: set_bits_below_def)

lemma count_set_card: "count_set t n = card (set_bits_below t n)"
proof -
  have "set (filter t [0..<n]) = set_bits_below t n"
    by (auto simp: set_bits_below_def)
  moreover have "distinct (filter t [0..<n])" by simp
  ultimately show ?thesis unfolding count_set_def by (metis distinct_card)
qed

lemma count_set_le: "count_set t n \<le> n"
  unfolding count_set_def by (metis length_filter_le length_upt minus_nat.diff_0)

lemma count_set_cong: "(\<And>i. i < n \<Longrightarrow> t i = t' i) \<Longrightarrow> count_set t n = count_set t' n"
  unfolding count_set_card set_bits_below_def by (metis (lifting))

lemma count_set_insert:
  assumes "b < n" and "\<not> t b"
  shows "count_set (\<lambda>i. i = b \<or> t i) n = Suc (count_set t n)"
proof -
  have "set_bits_below (\<lambda>i. i = b \<or> t i) n = insert b (set_bits_below t n)"
    using assms(1) by (auto simp: set_bits_below_def)
  moreover have "b \<notin> set_bits_below t n" using assms(2) by (simp add: set_bits_below_def)
  ultimately show ?thesis by (simp add: count_set_card)
qed

lemma count_set_remove:
  assumes "b < n" and "t b"
  shows "Suc (count_set (\<lambda>i. i \<noteq> b \<and> t i) n) = count_set t n"
proof -
  have "count_set t n = count_set (\<lambda>i. i = b \<or> (i \<noteq> b \<and> t i)) n"
    using assms(2) by (intro count_set_cong) auto
  also have "\<dots> = Suc (count_set (\<lambda>i. i \<noteq> b \<and> t i) n)"
    using assms(1) by (intro count_set_insert) auto
  finally show ?thesis by simp
qed

lemma count_set_less: "b < n \<Longrightarrow> \<not> t b \<Longrightarrow> count_set t n < n"
  using count_set_insert [of b n t] count_set_le [of "\<lambda>i. i = b \<or> t i" n] by simp

lemma count_set_pos: "b < n \<Longrightarrow> t b \<Longrightarrow> 0 < count_set t n"
  using count_set_remove [of b n t] by simp

section \<open>The bitmap interface\<close>

text \<open>
  What an allocator asks of a bitmap kept in a byte array: the length never changes, setting a bit
  sets exactly that bit, clearing a bit clears exactly that bit.
\<close>

locale bitmap =
  fixes test :: "byte list \<Rightarrow> nat \<Rightarrow> bool"
    and mark :: "byte list \<Rightarrow> nat \<Rightarrow> byte list"
    and clear :: "byte list \<Rightarrow> nat \<Rightarrow> byte list"
  assumes length_mark: "length (mark m b) = length m"
    and length_clear: "length (clear m b) = length m"
    and test_mark: "b < 8 * length m \<Longrightarrow> test (mark m b) b' \<longleftrightarrow> b' = b \<or> test m b'"
    and test_clear: "b < 8 * length m \<Longrightarrow> test (clear m b) b' \<longleftrightarrow> b' \<noteq> b \<and> test m b'"
begin

lemma test_mark_fun: "b < 8 * length m \<Longrightarrow> test (mark m b) = (\<lambda>i. i = b \<or> test m i)"
  by (simp add: test_mark fun_eq_iff)

lemma test_clear_fun: "b < 8 * length m \<Longrightarrow> test (clear m b) = (\<lambda>i. i \<noteq> b \<and> test m i)"
  by (simp add: test_clear fun_eq_iff)

lemma count_mark:
  "b < 8 * length m \<Longrightarrow> b < n \<Longrightarrow> \<not> test m b \<Longrightarrow>
   count_set (test (mark m b)) n = Suc (count_set (test m) n)"
  using count_set_insert [of b n "test m"] by (simp add: test_mark_fun)

lemma count_clear:
  "b < 8 * length m \<Longrightarrow> b < n \<Longrightarrow> test m b \<Longrightarrow>
   Suc (count_set (test (clear m b)) n) = count_set (test m) n"
  using count_set_remove [of b n "test m"] by (simp add: test_clear_fun)

lemma length_mark_all: "length (fold (\<lambda>b m. mark m b) bs m) = length m"
  by (induction bs arbitrary: m) (simp_all add: length_mark)

lemma length_clear_all: "length (fold (\<lambda>b m. clear m b) bs m) = length m"
  by (induction bs arbitrary: m) (simp_all add: length_clear)

lemma test_mark_all:
  "(\<And>b. b \<in> set bs \<Longrightarrow> b < 8 * length m) \<Longrightarrow>
   test (fold (\<lambda>b m. mark m b) bs m) b' \<longleftrightarrow> b' \<in> set bs \<or> test m b'"
  by (induction bs arbitrary: m) (auto simp: length_mark test_mark)

lemma test_clear_all:
  "(\<And>b. b \<in> set bs \<Longrightarrow> b < 8 * length m) \<Longrightarrow>
   test (fold (\<lambda>b m. clear m b) bs m) b' \<longleftrightarrow> b' \<notin> set bs \<and> test m b'"
  by (induction bs arbitrary: m) (auto simp: length_clear test_clear)

lemma count_mark_all:
  assumes "\<And>b. b \<in> set bs \<Longrightarrow> b < 8 * length m \<and> b < n \<and> \<not> test m b" and "distinct bs"
  shows "count_set (test (fold (\<lambda>b m. mark m b) bs m)) n = count_set (test m) n + length bs"
  using assms
proof (induction bs arbitrary: m)
  case Nil
  then show ?case by simp
next
  case (Cons b bs)
  have "count_set (test (fold (\<lambda>b m. mark m b) bs (mark m b))) n
      = count_set (test (mark m b)) n + length bs"
    using Cons.prems by (intro Cons.IH) (auto simp: length_mark test_mark)
  then show ?case using Cons.prems by (simp add: count_mark)
qed

end

section \<open>Single bits of a byte\<close>

lemma bit_byte_set: "k < 8 \<Longrightarrow> bit ((w :: byte) OR 2 ^ k) j \<longleftrightarrow> bit w j \<or> j = k"
  by (auto simp: bit_simps)

lemma bit_byte_clear: "k < 8 \<Longrightarrow> bit ((w :: byte) AND NOT (2 ^ k)) j \<longleftrightarrow> bit w j \<and> j \<noteq> k"
  by (auto simp: bit_simps dest: bit_imp_le_length)

lemma and_single_bit_iff: "((w :: byte) AND 2 ^ k \<noteq> 0) \<longleftrightarrow> bit w k"
  by (simp add: bit_iff_and_push_bit_not_eq_0)

lemma shifted_low_bit_iff: "(drop_bit k (w :: byte) AND 1 = 1) \<longleftrightarrow> bit w k"
  by (simp add: and_one_eq odd_iff_mod_2_eq_one [symmetric] bit_iff_odd_drop_bit)

lemma bitpos_eq_iff: "(a :: nat) = b \<longleftrightarrow> a div 8 = b div 8 \<and> a mod 8 = b mod 8"
  by (metis div_mod_decomp)

lemma bitpos_div_less: "b < 8 * n \<Longrightarrow> b div 8 < (n :: nat)"
  by (simp add: less_mult_imp_div_less mult.commute)

section \<open>Little-endian fields and block slices\<close>

text \<open>
  The packed structures of the disk format are read and written as byte ranges of a block: \<open>le_bytes n x\<close> are
  the \<open>n\<close> bytes of a field, \<open>le_val\<close> reads them, \<open>bslice\<close> is a range and \<open>bsplice\<close> overwrites one (\<open>memcpy\<close>
  into a buffer).
\<close>

primrec le_bytes :: "nat \<Rightarrow> nat \<Rightarrow> byte list" where
  "le_bytes 0 x = []"
| "le_bytes (Suc n) x = of_nat x # le_bytes n (x div 256)"

primrec le_val :: "byte list \<Rightarrow> nat" where
  "le_val [] = 0"
| "le_val (b # bs) = unat b + 256 * le_val bs"

definition bslice :: "nat \<Rightarrow> nat \<Rightarrow> byte list \<Rightarrow> byte list" where
  "bslice off n bs = take n (drop off bs)"

definition bsplice :: "nat \<Rightarrow> byte list \<Rightarrow> byte list \<Rightarrow> byte list" where
  "bsplice off new bs = take off bs @ new @ drop (off + length new) bs"

lemma length_le_bytes [simp]: "length (le_bytes n x) = n"
  by (induction n arbitrary: x) simp_all

lemma le_val_le_bytes: "le_val (le_bytes n x) = x mod 256 ^ n"
proof (induction n arbitrary: x)
  case (Suc n)
  have "unat (of_nat x :: byte) = x mod 256" by (simp add: unat_of_nat)
  then show ?case using Suc by (simp add: mod_mult2_eq)
qed simp

lemma le_roundtrip: "x < 256 ^ n \<Longrightarrow> le_val (le_bytes n x) = x"
  by (simp add: le_val_le_bytes)

lemma le_val_less: "le_val bs < 256 ^ length bs"
proof (induction bs)
  case (Cons b bs)
  have "unat b < 256" using unsigned_less [where 'a = nat, of b] by simp
  then have "unat b + 256 * le_val bs < 256 * (le_val bs + 1)" by simp
  also have "\<dots> \<le> 256 * 256 ^ length bs" using Cons by (intro mult_le_mono2) simp
  finally show ?case by simp
qed simp

lemma length_bsplice [simp]: "off + length new \<le> length bs \<Longrightarrow> length (bsplice off new bs) = length bs"
  by (simp add: bsplice_def)

lemma bslice_bsplice_same: "off + length new \<le> length bs \<Longrightarrow> bslice off (length new) (bsplice off new bs) = new"
  by (simp add: bslice_def bsplice_def)

lemma bslice_bsplice_before:
  assumes "o1 + n \<le> off" and "off \<le> length bs"
  shows "bslice o1 n (bsplice off new bs) = bslice o1 n bs"
proof -
  have "take n (drop o1 (take off bs)) = take n (drop o1 bs)"
    using assms(1) by (simp add: drop_take)
  then show ?thesis using assms by (simp add: bslice_def bsplice_def)
qed

lemma bslice_bsplice_after:
  assumes "off + length new \<le> o1" and "off + length new \<le> length bs"
  shows "bslice o1 n (bsplice off new bs) = bslice o1 n bs"
proof -
  have "drop o1 (bsplice off new bs) = drop o1 bs"
    using assms by (simp add: bsplice_def)
  then show ?thesis by (simp add: bslice_def)
qed

lemma length_bslice [simp]: "off + n \<le> length bs \<Longrightarrow> length (bslice off n bs) = n"
  by (simp add: bslice_def)

lemma bslice_append: "bslice 0 n (xs @ ys) = xs" if "length xs = n"
  using that by (simp add: bslice_def)

lemma nth_bsplice:
  assumes "off + length new \<le> length bs" and "k < length bs"
  shows "bsplice off new bs ! k = (if off \<le> k \<and> k < off + length new then new ! (k - off) else bs ! k)"
  using assms by (auto simp: bsplice_def nth_append min_def)

lemma bslice_nth: "off + n \<le> length bs \<Longrightarrow> bslice off n bs = map (\<lambda>k. bs ! k) [off..<off + n]"
  by (rule nth_equalityI) (simp_all add: bslice_def)

section \<open>System limits\<close>

definition MAX_TASKS :: nat where "MAX_TASKS = 16"

end
