(* ===== verification/Pmm.thy ===== *)
theory Pmm
  imports Kz_Base
begin

text \<open>
  The physical memory manager, \<open>kernel/mm/pmm.c\<close>: a bitmap with one bit per 4 KB frame (0 = free,
  1 = used), a next-free hint and a counter of used frames.

  The module's static variables are the record \<open>pmm\<close>; \<open>pmm_bitmap = NULL\<close> before boot is \<open>None\<close>.
  Every operation runs under \<open>pmm_lock\<close> in the source and is one function on the record here. The
  two \<open>hlt\<close> loops of \<open>pmm_init_dynamic\<close> are the \<open>Inl\<close> results. Diagnostic output is not modelled.

  Proved: the allocator invariant \<open>pmm_wf\<close> (the used counter counts the set bits, the kernel zone
  below 72 MB is never free), that it is established by boot and kept by every operation, and that
  \<open>pmm_alloc_page\<close> / \<open>pmm_free_page\<close> refine choosing from, and returning to, a set of free frames.
\<close>

section \<open>Constants and state\<close>

definition PAGE_SIZE :: nat where
  "PAGE_SIZE = 4096"

definition PHYS_NULL :: nat where
  "PHYS_NULL = 0"

definition PMM_KERNEL_ZONE_END :: nat where
  "PMM_KERNEL_ZONE_END = 0x4800000"

record pmm =
  pmm_bitmap :: "byte list option"
  bitmap_bytes :: nat
  bitmap_pages :: nat
  real_total_ram :: nat
  total_pages :: nat
  used_pages :: nat
  next_free_hint :: nat

record limine_memmap_entry =
  base :: nat
  mlength :: nat
  usable :: bool

section \<open>Bitmap helpers\<close>

definition bitmap_set :: "byte list \<Rightarrow> nat \<Rightarrow> byte list" where
  "bitmap_set m b = m[b div 8 := (m ! (b div 8)) OR push_bit (b mod 8) 1]"

definition bitmap_clear_bit :: "byte list \<Rightarrow> nat \<Rightarrow> byte list" where
  "bitmap_clear_bit m b = m[b div 8 := (m ! (b div 8)) AND NOT (push_bit (b mod 8) 1)]"

definition bitmap_test :: "byte list \<Rightarrow> nat \<Rightarrow> bool" where
  "bitmap_test m b \<longleftrightarrow> (m ! (b div 8)) AND push_bit (b mod 8) 1 \<noteq> 0"

section \<open>Boot\<close>

definition page_align_up :: "nat \<Rightarrow> nat" where
  "page_align_up a = (if a mod PAGE_SIZE \<noteq> 0 then u64 (a + PAGE_SIZE - 1) div PAGE_SIZE * PAGE_SIZE else a)"

definition highest_usable :: "limine_memmap_entry list \<Rightarrow> nat" where
  "highest_usable es = fold (\<lambda>e h. let en = u64 (base e + mlength e)
     in if usable e \<and> h < en then en else h) es 0"

text \<open>The first usable region above the kernel zone that can hold the bitmap.\<close>

fun find_bitmap_region :: "limine_memmap_entry list \<Rightarrow> nat \<Rightarrow> nat option" where
  "find_bitmap_region [] bytes = None"
| "find_bitmap_region (e # es) bytes =
     (if \<not> usable e then find_bitmap_region es bytes
      else let b = page_align_up (base e);
               en = u64 (base e + mlength e);
               b' = (if b < PMM_KERNEL_ZONE_END then PMM_KERNEL_ZONE_END else b)
           in if b' < en \<and> bytes \<le> en - b' then Some b'
              else find_bitmap_region es bytes)"

text \<open>
  Step B of phase 3: the frames \<open>start, start + 4096, \<dots>\<close> below \<open>end\<close> of one region are freed.
\<close>

function free_region :: "nat \<Rightarrow> nat \<Rightarrow> nat \<Rightarrow> byte list \<Rightarrow> byte list" where
  "free_region pages a en m =
     (if a < en
      then free_region pages (a + PAGE_SIZE) en
             (if a div PAGE_SIZE < pages then bitmap_clear_bit m (a div PAGE_SIZE) else m)
      else m)"
  by pat_completeness auto
termination
  by (relation "measure (\<lambda>(pages, a, en, m). en - a)") (auto simp: PAGE_SIZE_def)

definition free_usable :: "nat \<Rightarrow> limine_memmap_entry list \<Rightarrow> byte list \<Rightarrow> byte list" where
  "free_usable pages es m = fold (\<lambda>e m. if usable e
     then free_region pages (page_align_up (base e)) (u64 (base e + mlength e)) m else m) es m"

text \<open>The size of the bitmap, rounded up to whole frames.\<close>

definition bitmap_alloc_bytes :: "nat \<Rightarrow> nat" where
  "bitmap_alloc_bytes pages_needed =
    (let needed_bytes = (pages_needed + 7) div 8
     in (needed_bytes + PAGE_SIZE - 1) div PAGE_SIZE * PAGE_SIZE)"

text \<open>Phase 3: lock every frame, free the usable ones, lock the kernel zone and the bitmap itself.\<close>

definition boot_bitmap :: "limine_memmap_entry list \<Rightarrow> nat \<Rightarrow> nat \<Rightarrow> nat \<Rightarrow> byte list" where
  "boot_bitmap es pages alloc_bytes bitmap_phys =
    (let m0 = replicate alloc_bytes 255;
         m1 = free_usable pages es m0;
         kernel_lock_pages = PMM_KERNEL_ZONE_END div PAGE_SIZE;
         m2 = fold (\<lambda>i m. bitmap_set m i) [0..<min kernel_lock_pages pages] m1;
         alloc_pages = alloc_bytes div PAGE_SIZE;
         bmap_start_page = bitmap_phys div PAGE_SIZE
     in fold (\<lambda>i m. bitmap_set m i)
          (filter (\<lambda>i. i < pages) [bmap_start_page..<bmap_start_page + alloc_pages]) m2)"

definition pmm_init_dynamic :: "limine_memmap_entry list \<Rightarrow> string + pmm" where
  "pmm_init_dynamic es =
    (let highest_addr = highest_usable es in
     if highest_addr = 0 then Inl ''[PMM] PANIC: no usable memory reported!''
     else
      let pages_needed = highest_addr div PAGE_SIZE;
          alloc_bytes = bitmap_alloc_bytes pages_needed
      in case find_bitmap_region es alloc_bytes of
           None \<Rightarrow> Inl ''[PMM] PANIC: no usable region for bitmap!''
         | Some bitmap_phys \<Rightarrow>
            let m = boot_bitmap es pages_needed alloc_bytes bitmap_phys;
                tp = min (highest_addr div PAGE_SIZE) pages_needed
            in Inr \<lparr> pmm_bitmap = Some m, bitmap_bytes = alloc_bytes, bitmap_pages = pages_needed,
                     real_total_ram = highest_addr, total_pages = tp,
                     used_pages = count_set (bitmap_test m) tp,
                     next_free_hint = PMM_KERNEL_ZONE_END div PAGE_SIZE \<rparr>)"

section \<open>Allocation and release\<close>

definition take_page :: "pmm \<Rightarrow> byte list \<Rightarrow> nat \<Rightarrow> nat \<times> pmm" where
  "take_page s m i = (i * PAGE_SIZE,
     s\<lparr>pmm_bitmap := Some (bitmap_set m i), used_pages := used_pages s + 1, next_free_hint := i + 1\<rparr>)"

definition pmm_alloc_page :: "pmm \<Rightarrow> nat \<times> pmm" where
  "pmm_alloc_page s =
    (case pmm_bitmap s of
       None \<Rightarrow> (PHYS_NULL, s)
     | Some m \<Rightarrow>
        let mx = total_pages s in
        case first_clear (bitmap_test m) (next_free_hint s) mx of
          Some i \<Rightarrow> take_page s m i
        | None \<Rightarrow>
           let wrap_end = (if next_free_hint s < mx then next_free_hint s else mx) in
           (case first_clear (bitmap_test m) 0 wrap_end of
              Some i \<Rightarrow> take_page s m i
            | None \<Rightarrow> (PHYS_NULL, s)))"

definition pmm_free_page :: "nat \<Rightarrow> pmm \<Rightarrow> pmm" where
  "pmm_free_page addr s =
    (if addr = PHYS_NULL then s
     else if addr mod PAGE_SIZE \<noteq> 0 then s
     else let b = addr div PAGE_SIZE in
       case pmm_bitmap s of
         None \<Rightarrow> s
       | Some m \<Rightarrow>
          if bitmap_pages s \<le> b then s
          else if addr < PMM_KERNEL_ZONE_END then s
          else if \<not> bitmap_test m b then s
          else s\<lparr>pmm_bitmap := Some (bitmap_clear_bit m b),
                 used_pages := (if 0 < used_pages s then used_pages s - 1 else used_pages s),
                 next_free_hint := (if b < next_free_hint s then b else next_free_hint s)\<rparr>)"

definition pmm_owns_page :: "nat \<Rightarrow> pmm \<Rightarrow> bool" where
  "pmm_owns_page addr s =
    (if addr = PHYS_NULL \<or> addr mod PAGE_SIZE \<noteq> 0 then False
     else case pmm_bitmap s of
       None \<Rightarrow> False
     | Some m \<Rightarrow> let b = addr div PAGE_SIZE in
         if bitmap_pages s \<le> b then False else bitmap_test m b)"

section \<open>Statistics\<close>

definition pmm_get_used_pages :: "pmm \<Rightarrow> nat" where
  "pmm_get_used_pages s = used_pages s"

definition pmm_get_total_pages :: "pmm \<Rightarrow> nat" where
  "pmm_get_total_pages s = total_pages s"

definition pmm_get_used_ram :: "pmm \<Rightarrow> nat" where
  "pmm_get_used_ram s = u64 (pmm_get_used_pages s * PAGE_SIZE)"

definition pmm_get_total_ram :: "pmm \<Rightarrow> nat" where
  "pmm_get_total_ram s = real_total_ram s"

definition pmm_get_free_ram :: "pmm \<Rightarrow> nat" where
  "pmm_get_free_ram s = (let total = pmm_get_total_ram s; used = pmm_get_used_ram s
     in if used < total then total - used else 0)"

definition pmm_set_total_ram :: "nat \<Rightarrow> pmm \<Rightarrow> pmm" where
  "pmm_set_total_ram sz s = (let tp = sz div PAGE_SIZE in
     s\<lparr>real_total_ram := sz, total_pages := (if bitmap_pages s < tp then bitmap_pages s else tp)\<rparr>)"

section \<open>The invariant and the abstract allocator\<close>

text \<open>
  \<open>pmm_wf\<close>: the bitmap covers every tracked frame, the used counter is the number of set bits, and
  no frame of the kernel zone is free. \<open>free_pages\<close> is the set the allocator hands out from.
\<close>

definition KERNEL_PAGES :: nat where
  "KERNEL_PAGES = PMM_KERNEL_ZONE_END div PAGE_SIZE"

definition pmm_wf :: "pmm \<Rightarrow> bool" where
  "pmm_wf s = (case pmm_bitmap s of None \<Rightarrow> False | Some m \<Rightarrow>
     bitmap_pages s \<le> 8 * length m \<and> total_pages s = bitmap_pages s
     \<and> used_pages s = count_set (bitmap_test m) (total_pages s)
     \<and> (\<forall>i < min KERNEL_PAGES (bitmap_pages s). bitmap_test m i))"

definition free_pages :: "pmm \<Rightarrow> nat set" where
  "free_pages s = (case pmm_bitmap s of None \<Rightarrow> {} | Some m \<Rightarrow> {i. i < total_pages s \<and> \<not> bitmap_test m i})"


section \<open>The bitmap helpers implement the bitmap interface\<close>

lemma bitmap_test_bit: "bitmap_test m b \<longleftrightarrow> bit (m ! (b div 8)) (b mod 8)"
  by (simp add: bitmap_test_def and_single_bit_iff)

interpretation fb: bitmap bitmap_test bitmap_set bitmap_clear_bit
proof
  fix m b b'
  show "length (bitmap_set m b) = length m" and "length (bitmap_clear_bit m b) = length m"
    by (simp_all add: bitmap_set_def bitmap_clear_bit_def)
  assume "b < 8 * length m"
  then have in_range: "b div 8 < length m" by (rule bitpos_div_less)
  show "bitmap_test (bitmap_set m b) b' \<longleftrightarrow> b' = b \<or> bitmap_test m b'"
    using in_range bitpos_eq_iff [of b' b]
    by (cases "b' div 8 = b div 8") (auto simp: bitmap_test_bit bitmap_set_def bit_byte_set)
  show "bitmap_test (bitmap_clear_bit m b) b' \<longleftrightarrow> b' \<noteq> b \<and> bitmap_test m b'"
    using in_range bitpos_eq_iff [of b' b]
    by (cases "b' div 8 = b div 8") (auto simp: bitmap_test_bit bitmap_clear_bit_def bit_byte_clear)
qed

lemmas fb_simps [simp] = fb.length_mark fb.length_clear fb.length_mark_all

section \<open>Allocation picks a free frame, release returns it\<close>

lemma pmm_wfE:
  assumes "pmm_wf s"
  obtains m where "pmm_bitmap s = Some m" "bitmap_pages s \<le> 8 * length m"
    "total_pages s = bitmap_pages s" "used_pages s = count_set (bitmap_test m) (total_pages s)"
    "\<And>i. i < KERNEL_PAGES \<Longrightarrow> i < bitmap_pages s \<Longrightarrow> bitmap_test m i"
    "free_pages s = {i. i < total_pages s \<and> \<not> bitmap_test m i}"
  using assms unfolding pmm_wf_def free_pages_def by (auto split: option.splits)

lemma pmm_wf_free_above_kernel: "pmm_wf s \<Longrightarrow> i \<in> free_pages s \<Longrightarrow> KERNEL_PAGES \<le> i"
  by (erule pmm_wfE) (metis (mono_tags, lifting) mem_Collect_eq not_le_imp_less)

lemma take_page_spec:
  assumes wf: "pmm_wf s" and m: "pmm_bitmap s = Some m" and i: "i < total_pages s" "\<not> bitmap_test m i"
  shows "\<exists>s'. take_page s m i = (i * PAGE_SIZE, s') \<and> i \<in> free_pages s \<and> pmm_wf s'
    \<and> free_pages s' = free_pages s - {i} \<and> bitmap_pages s' = bitmap_pages s"
proof -
  have range: "i < 8 * length m" and "bitmap_pages s \<le> 8 * length m" "total_pages s = bitmap_pages s"
    using wf m i by (auto elim!: pmm_wfE)
  moreover have "pmm_wf (snd (take_page s m i))"
    using wf m i range
    by (auto simp: take_page_def pmm_wf_def fb.test_mark fb.count_mark)
  moreover have "free_pages (snd (take_page s m i)) = free_pages s - {i}"
    using m range by (auto simp: take_page_def free_pages_def fb.test_mark)
  ultimately show ?thesis using m i by (auto simp: take_page_def free_pages_def)
qed

lemma first_clear_wrap:
  assumes "first_clear t h n = None" and "first_clear t 0 (if h < n then h else n) = None" and "j < n"
  shows "t j"
  using assms first_clear_NoneD [of t h n j] first_clear_NoneD [of t 0 _ j]
  by (cases "h \<le> j") auto

lemma pmm_alloc_page_spec:
  assumes wf: "pmm_wf s"
  shows "(free_pages s = {} \<and> pmm_alloc_page s = (PHYS_NULL, s)) \<or>
    (\<exists>i s'. pmm_alloc_page s = (i * PAGE_SIZE, s') \<and> i \<in> free_pages s \<and> pmm_wf s'
      \<and> free_pages s' = free_pages s - {i} \<and> bitmap_pages s' = bitmap_pages s)"
proof -
  from wf obtain m where m: "pmm_bitmap s = Some m"
    and fr: "free_pages s = {i. i < total_pages s \<and> \<not> bitmap_test m i}"
    by (elim pmm_wfE) simp
  let ?h = "next_free_hint s" and ?mx = "total_pages s"
  let ?wrap = "if ?h < ?mx then ?h else ?mx"
  consider (hint) i where "first_clear (bitmap_test m) ?h ?mx = Some i"
    | (wrap) i where "first_clear (bitmap_test m) ?h ?mx = None"
        "first_clear (bitmap_test m) 0 ?wrap = Some i"
    | (oom) "first_clear (bitmap_test m) ?h ?mx = None" "first_clear (bitmap_test m) 0 ?wrap = None"
    by (metis not_Some_eq)
  then show ?thesis
  proof cases
    case hint
    then have "pmm_alloc_page s = take_page s m i" using m by (simp add: pmm_alloc_page_def)
    moreover have "i < ?mx" "\<not> bitmap_test m i" using first_clear_SomeD [OF hint] by auto
    ultimately show ?thesis using take_page_spec [OF wf m, of i] by auto
  next
    case wrap
    then have "pmm_alloc_page s = take_page s m i" using m by (simp add: pmm_alloc_page_def)
    moreover have "i < ?mx" "\<not> bitmap_test m i"
      using first_clear_SomeD [OF wrap(2)] by (auto split: if_splits)
    ultimately show ?thesis using take_page_spec [OF wf m, of i] by auto
  next
    case oom
    then have "free_pages s = {}" using first_clear_wrap fr by blast
    with oom m show ?thesis by (simp add: pmm_alloc_page_def)
  qed
qed

text \<open>A frame is managed when \<open>pmm_free_page\<close> accepts its address at all.\<close>

definition managed :: "pmm \<Rightarrow> nat \<Rightarrow> bool" where
  "managed s a \<longleftrightarrow> a mod PAGE_SIZE = 0 \<and> PMM_KERNEL_ZONE_END \<le> a \<and> a div PAGE_SIZE < bitmap_pages s"

lemma managed_not_null: "managed s a \<Longrightarrow> a \<noteq> PHYS_NULL"
  by (auto simp: managed_def PMM_KERNEL_ZONE_END_def PHYS_NULL_def)

lemma managed_kernel_page: "managed s a \<Longrightarrow> KERNEL_PAGES \<le> a div PAGE_SIZE"
  unfolding managed_def KERNEL_PAGES_def by (simp add: div_le_mono)

lemma pmm_free_page_ignored: "\<not> managed s a \<Longrightarrow> pmm_free_page a s = s"
  by (auto simp: managed_def pmm_free_page_def Let_def split: option.splits)

lemma pmm_free_page_spec:
  assumes wf: "pmm_wf s"
  shows "pmm_wf (pmm_free_page a s)
    \<and> free_pages (pmm_free_page a s) = (if managed s a then insert (a div PAGE_SIZE) (free_pages s) else free_pages s)
    \<and> bitmap_pages (pmm_free_page a s) = bitmap_pages s"
proof (cases "managed s a")
  case False
  then show ?thesis using wf by (simp add: pmm_free_page_ignored)
next
  case True
  let ?b = "a div PAGE_SIZE"
  from wf obtain m where m: "pmm_bitmap s = Some m" "bitmap_pages s \<le> 8 * length m"
    "total_pages s = bitmap_pages s" "used_pages s = count_set (bitmap_test m) (total_pages s)"
    "\<And>i. i < KERNEL_PAGES \<Longrightarrow> i < bitmap_pages s \<Longrightarrow> bitmap_test m i"
    "free_pages s = {i. i < total_pages s \<and> \<not> bitmap_test m i}"
    by (elim pmm_wfE) blast
  have b: "?b < bitmap_pages s" "?b < 8 * length m" "\<not> ?b < KERNEL_PAGES" "\<not> a < PMM_KERNEL_ZONE_END"
    "a mod PAGE_SIZE = 0"
    using True m(2) managed_kernel_page [OF True] by (auto simp: managed_def)
  show ?thesis
  proof (cases "bitmap_test m ?b")
    case False
    then have "pmm_free_page a s = s" using m(1) by (simp add: pmm_free_page_def Let_def)
    then show ?thesis using wf True False m b by (auto simp: insert_absorb)
  next
    case used: True
    let ?m' = "bitmap_clear_bit m ?b"
    have eq: "pmm_free_page a s = s\<lparr>pmm_bitmap := Some ?m',
        used_pages := (if 0 < used_pages s then used_pages s - 1 else used_pages s),
        next_free_hint := (if ?b < next_free_hint s then ?b else next_free_hint s)\<rparr>"
      using used b m(1) managed_not_null [OF True] by (simp add: pmm_free_page_def Let_def)
    have "Suc (count_set (bitmap_test ?m') (total_pages s)) = used_pages s"
      using fb.count_clear [OF b(2) _ used, of "total_pages s"] b(1) m by simp
    then have "pmm_wf (pmm_free_page a s)"
      unfolding eq pmm_wf_def using m b(2,3) by (auto simp: fb.test_clear)
    moreover have "free_pages (pmm_free_page a s) = insert ?b (free_pages s)"
      unfolding eq free_pages_def using m(1,3) b(1,2) by (auto simp: fb.test_clear)
    ultimately show ?thesis using True eq by simp
  qed
qed


section \<open>Boot establishes the invariant\<close>

declare free_region.simps [simp del]

lemma length_free_region [simp]: "length (free_region pages a en m) = length m"
proof (induction pages a en m rule: free_region.induct)
  case (1 pages a en m)
  then show ?case by (simp add: free_region.simps [of pages a en m])
qed

lemma page_step: "PAGE_SIZE dvd a \<Longrightarrow> a \<le> b * PAGE_SIZE \<longleftrightarrow> b = a div PAGE_SIZE \<or> a + PAGE_SIZE \<le> b * PAGE_SIZE"
proof (elim dvdE)
  fix k assume "a = PAGE_SIZE * k"
  then show ?thesis by (auto simp: PAGE_SIZE_def)
qed

lemma free_region_test:
  assumes "PAGE_SIZE dvd a" and "pages \<le> 8 * length m"
  shows "bitmap_test (free_region pages a en m) b \<longleftrightarrow>
    bitmap_test m b \<and> \<not> (b < pages \<and> a \<le> b * PAGE_SIZE \<and> b * PAGE_SIZE < en)"
  using assms
proof (induction pages a en m rule: free_region.induct)
  case (1 pages a en m)
  let ?f = "a div PAGE_SIZE"
  let ?m' = "if ?f < pages then bitmap_clear_bit m ?f else m"
  show ?case
  proof (cases "a < en")
    case False
    then show ?thesis by (auto simp: free_region.simps [of pages a en m])
  next
    case True
    have fa: "?f * PAGE_SIZE = a" using "1.prems"(1) by simp
    have "bitmap_test (free_region pages (a + PAGE_SIZE) en ?m') b \<longleftrightarrow>
      bitmap_test ?m' b \<and> \<not> (b < pages \<and> a + PAGE_SIZE \<le> b * PAGE_SIZE \<and> b * PAGE_SIZE < en)"
      using True "1.prems" by (intro "1.IH") auto
    moreover have "bitmap_test ?m' b \<longleftrightarrow> bitmap_test m b \<and> \<not> (b < pages \<and> b = ?f)"
      using "1.prems"(2) by (auto simp: fb.test_clear)
    ultimately show ?thesis
      using True fa page_step [OF "1.prems"(1), of b] by (auto simp: free_region.simps [of pages a en m])
  qed
qed

lemma align_up_le_iff:
  assumes "a + PAGE_SIZE \<le> 18446744073709551616"
  shows "page_align_up a \<le> b * PAGE_SIZE \<longleftrightarrow> a \<le> b * PAGE_SIZE"
    and "PAGE_SIZE dvd page_align_up a"
proof -
  have u: "u64 (a + PAGE_SIZE - 1) = a + PAGE_SIZE - 1"
    using assms by (intro u64_id) (simp add: PAGE_SIZE_def)
  show "page_align_up a \<le> b * PAGE_SIZE \<longleftrightarrow> a \<le> b * PAGE_SIZE"
    using round_up_le_iff [of PAGE_SIZE a b] unfolding page_align_up_def u by (auto simp: PAGE_SIZE_def)
  show "PAGE_SIZE dvd page_align_up a"
    unfolding page_align_up_def u by auto
qed

text \<open>The memory map of the boot loader: no region wraps past the end of the address space.\<close>

definition memmap_ok :: "limine_memmap_entry list \<Rightarrow> bool" where
  "memmap_ok es \<longleftrightarrow> (\<forall>e \<in> set es. base e + mlength e + PAGE_SIZE \<le> 18446744073709551616)"

definition usable_frame :: "limine_memmap_entry list \<Rightarrow> nat \<Rightarrow> bool" where
  "usable_frame es i \<longleftrightarrow>
     (\<exists>e \<in> set es. usable e \<and> base e \<le> i * PAGE_SIZE \<and> i * PAGE_SIZE < base e + mlength e)"

lemma free_usable_Cons:
  "free_usable pages (e # es) m = free_usable pages es (if usable e
     then free_region pages (page_align_up (base e)) (u64 (base e + mlength e)) m else m)"
  by (simp add: free_usable_def)

lemma length_free_usable [simp]: "length (free_usable pages es m) = length m"
  by (induction es arbitrary: m) (simp_all add: free_usable_Cons, simp add: free_usable_def)

lemma free_entry_test:
  assumes "base e + mlength e + PAGE_SIZE \<le> 18446744073709551616" and "pages \<le> 8 * length m"
  shows "bitmap_test (free_region pages (page_align_up (base e)) (u64 (base e + mlength e)) m) b \<longleftrightarrow>
    bitmap_test m b \<and> \<not> (b < pages \<and> base e \<le> b * PAGE_SIZE \<and> b * PAGE_SIZE < base e + mlength e)"
proof -
  have "u64 (base e + mlength e) = base e + mlength e"
    using assms(1) by (intro u64_id) (simp add: PAGE_SIZE_def)
  then show ?thesis
    using assms align_up_le_iff(1) [of "base e" b] align_up_le_iff(2) [of "base e"]
    by (simp add: free_region_test)
qed

lemma free_usable_test:
  assumes "memmap_ok es" and "pages \<le> 8 * length m"
  shows "bitmap_test (free_usable pages es m) b \<longleftrightarrow> bitmap_test m b \<and> \<not> (b < pages \<and> usable_frame es b)"
  using assms
proof (induction es arbitrary: m)
  case Nil
  then show ?case by (simp add: free_usable_def usable_frame_def)
next
  case (Cons e es)
  let ?r = "free_region pages (page_align_up (base e)) (u64 (base e + mlength e)) m"
  let ?m' = "if usable e then ?r else m"
  have "bitmap_test (free_usable pages es ?m') b \<longleftrightarrow>
      bitmap_test ?m' b \<and> \<not> (b < pages \<and> usable_frame es b)"
    using Cons.prems by (intro Cons.IH) (auto simp: memmap_ok_def)
  then show ?case
    using Cons.prems free_entry_test [of e pages m b]
    by (auto simp: free_usable_Cons usable_frame_def memmap_ok_def)
qed

lemma bitmap_test_full: "b div 8 < n \<Longrightarrow> bitmap_test (replicate n 255) b"
proof -
  have "bit (255 :: byte) k" if "k < 8" for k
  proof -
    have "(255 :: byte) = - 1" by simp
    then have "bit (255 :: byte) k = bit (- 1 :: byte) k" by (rule arg_cong)
    then show ?thesis using that by (simp only: bit_minus_1_iff) simp
  qed
  then show "b div 8 < n \<Longrightarrow> bitmap_test (replicate n 255) b" by (simp add: bitmap_test_bit)
qed

lemma bitmap_capacity: "p \<le> 8 * bitmap_alloc_bytes p"
proof -
  have "p \<le> 8 * ((p + 7) div 8)" using round_up_ge [of 8 p] by (simp add: mult.commute)
  also have "\<dots> \<le> 8 * bitmap_alloc_bytes p"
    using round_up_ge [of PAGE_SIZE "(p + 7) div 8"]
    by (simp add: bitmap_alloc_bytes_def Let_def PAGE_SIZE_def)
  finally show ?thesis .
qed

lemma boot_bitmap_test:
  assumes ok: "memmap_ok es" and cap: "pages \<le> 8 * bytes"
  shows "length (boot_bitmap es pages bytes p) = bytes"
    and "b < pages \<Longrightarrow> bitmap_test (boot_bitmap es pages bytes p) b \<longleftrightarrow>
      \<not> usable_frame es b \<or> b < KERNEL_PAGES \<or>
      b \<in> {p div PAGE_SIZE..<p div PAGE_SIZE + bytes div PAGE_SIZE}"
proof -
  show "length (boot_bitmap es pages bytes p) = bytes" by (simp add: boot_bitmap_def Let_def)
  assume b: "b < pages"
  let ?m1 = "free_usable pages es (replicate bytes 255)"
  let ?m2 = "fold (\<lambda>i m. bitmap_set m i) [0..<min KERNEL_PAGES pages] ?m1"
  have "bitmap_test ?m1 b \<longleftrightarrow> \<not> usable_frame es b"
    using free_usable_test [OF ok] cap b by (simp add: bitmap_test_full bitpos_div_less)
  moreover have "bitmap_test ?m2 b \<longleftrightarrow> b < KERNEL_PAGES \<or> bitmap_test ?m1 b"
    using cap b by (subst fb.test_mark_all) auto
  moreover have "bitmap_test (boot_bitmap es pages bytes p) b \<longleftrightarrow>
      b \<in> {p div PAGE_SIZE..<p div PAGE_SIZE + bytes div PAGE_SIZE} \<or> bitmap_test ?m2 b"
    unfolding boot_bitmap_def Let_def KERNEL_PAGES_def [symmetric]
    using cap b by (subst fb.test_mark_all) auto
  ultimately show "bitmap_test (boot_bitmap es pages bytes p) b \<longleftrightarrow>
      \<not> usable_frame es b \<or> b < KERNEL_PAGES \<or>
      b \<in> {p div PAGE_SIZE..<p div PAGE_SIZE + bytes div PAGE_SIZE}" by blast
qed

lemma pmm_init_spec:
  assumes init: "pmm_init_dynamic es = Inr s" and ok: "memmap_ok es"
  shows "pmm_wf s \<and> (\<exists>p. find_bitmap_region es (bitmap_bytes s) = Some p \<and>
    free_pages s = {i. i < bitmap_pages s \<and> usable_frame es i \<and> KERNEL_PAGES \<le> i
      \<and> i \<notin> {p div PAGE_SIZE..<p div PAGE_SIZE + bitmap_bytes s div PAGE_SIZE}})"
proof -
  from init obtain p where p: "find_bitmap_region es (bitmap_bytes s) = Some p"
    and s: "bitmap_bytes s = bitmap_alloc_bytes (bitmap_pages s)" "total_pages s = bitmap_pages s"
      "pmm_bitmap s = Some (boot_bitmap es (bitmap_pages s) (bitmap_bytes s) p)"
      "used_pages s = count_set (bitmap_test (boot_bitmap es (bitmap_pages s) (bitmap_bytes s) p)) (total_pages s)"
    unfolding pmm_init_dynamic_def Let_def by (auto split: if_splits option.splits)
  have cap: "bitmap_pages s \<le> 8 * bitmap_bytes s" using s(1) bitmap_capacity by simp
  note t = boot_bitmap_test [OF ok cap, where p = p]
  have "pmm_wf s" using s cap t by (simp add: pmm_wf_def)
  moreover have "free_pages s = {i. i < bitmap_pages s \<and> usable_frame es i \<and> KERNEL_PAGES \<le> i
      \<and> i \<notin> {p div PAGE_SIZE..<p div PAGE_SIZE + bitmap_bytes s div PAGE_SIZE}}"
    using s(2,3) t(2) by (auto simp: free_pages_def not_less)
  ultimately show ?thesis using p by blast
qed


section \<open>The frame allocator interface\<close>

text \<open>
  What the rest of memory management relies on: allocation takes one available frame or reports
  exhaustion and changes nothing, release returns a frame of the pool, both keep the invariant.
\<close>

locale frame_allocator =
  fixes alloc :: "'s \<Rightarrow> nat \<times> 's"
    and release :: "nat \<Rightarrow> 's \<Rightarrow> 's"
    and inv :: "'s \<Rightarrow> bool"
    and avail :: "'s \<Rightarrow> nat set"
    and frame :: "'s \<Rightarrow> nat \<Rightarrow> bool"
  assumes alloc_law: "inv s \<Longrightarrow> (avail s = {} \<and> alloc s = (0, s)) \<or>
      (\<exists>a s'. alloc s = (a, s') \<and> a \<in> avail s \<and> inv s' \<and> avail s' = avail s - {a} \<and> frame s' = frame s)"
    and release_law: "inv s \<Longrightarrow> inv (release a s) \<and> frame (release a s) = frame s \<and>
      avail (release a s) = (if frame s a then insert a (avail s) else avail s)"
    and avail_frame: "inv s \<Longrightarrow> a \<in> avail s \<Longrightarrow> frame s a"
    and frame_nonzero: "frame s a \<Longrightarrow> a \<noteq> 0"
begin

lemma alloc_null: "inv s \<Longrightarrow> alloc s = (0, s') \<Longrightarrow> s' = s \<and> avail s = {}"
  using alloc_law [of s] avail_frame frame_nonzero by fastforce

lemma alloc_some:
  assumes "inv s" and "alloc s = (a, s')" and "a \<noteq> 0"
  shows "a \<in> avail s" and "inv s'" and "avail s' = avail s - {a}" and "frame s' = frame s" and "frame s a"
  using alloc_law [of s] assms avail_frame by auto

lemma release_all:
  assumes "inv s" and "\<And>a. a \<in> set as \<Longrightarrow> frame s a"
  shows "inv (fold release as s) \<and> frame (fold release as s) = frame s
    \<and> avail (fold release as s) = avail s \<union> set as"
  using assms
proof (induction as arbitrary: s)
  case Nil
  then show ?case by simp
next
  case (Cons a as)
  have r: "inv (release a s)" "frame (release a s) = frame s" "avail (release a s) = insert a (avail s)"
    using release_law [OF Cons.prems(1), of a] Cons.prems(2) by auto
  then have "inv (fold release as (release a s)) \<and> frame (fold release as (release a s)) = frame s
    \<and> avail (fold release as (release a s)) = avail (release a s) \<union> set as"
    using Cons.IH [of "release a s"] Cons.prems(2) by auto
  then show ?case using r by auto
qed

end

definition avail_addrs :: "pmm \<Rightarrow> nat set" where
  "avail_addrs s = (\<lambda>i. i * PAGE_SIZE) ` free_pages s"

lemma PAGE_SIZE_pos [simp]: "0 < PAGE_SIZE"
  by (simp add: PAGE_SIZE_def)

lemma managed_addr_eq: "managed s a \<Longrightarrow> a div PAGE_SIZE * PAGE_SIZE = a"
  by (auto simp: managed_def)

lemma free_page_managed:
  assumes "pmm_wf s" and "i \<in> free_pages s"
  shows "managed s (i * PAGE_SIZE)"
proof -
  have "KERNEL_PAGES * PAGE_SIZE = PMM_KERNEL_ZONE_END"
    by (simp add: KERNEL_PAGES_def PMM_KERNEL_ZONE_END_def PAGE_SIZE_def)
  moreover have "KERNEL_PAGES * PAGE_SIZE \<le> i * PAGE_SIZE"
    using pmm_wf_free_above_kernel [OF assms] by (rule mult_le_mono1)
  moreover have "i < bitmap_pages s" using assms by (auto elim!: pmm_wfE)
  ultimately show ?thesis by (simp add: managed_def)
qed

lemma managed_cong: "bitmap_pages s' = bitmap_pages s \<Longrightarrow> managed s' = managed s"
  by (simp add: managed_def fun_eq_iff)

lemma avail_addrs_remove:
  assumes "free_pages s' = free_pages s - {i}"
  shows "avail_addrs s' = avail_addrs s - {i * PAGE_SIZE}"
proof -
  have "inj (\<lambda>i. i * PAGE_SIZE)" by (rule injI) (simp add: PAGE_SIZE_def)
  from image_set_diff [OF this, of "free_pages s" "{i}"] show ?thesis
    unfolding avail_addrs_def assms by simp
qed

lemma avail_addrs_insert:
  "managed s a \<Longrightarrow> free_pages s' = insert (a div PAGE_SIZE) (free_pages s) \<Longrightarrow> avail_addrs s' = insert a (avail_addrs s)"
  by (simp add: avail_addrs_def managed_addr_eq)

interpretation frames: frame_allocator pmm_alloc_page pmm_free_page pmm_wf avail_addrs managed
proof
  fix s assume wf: "pmm_wf s"
  from pmm_alloc_page_spec [OF wf]
  show "(avail_addrs s = {} \<and> pmm_alloc_page s = (0, s)) \<or>
      (\<exists>a s'. pmm_alloc_page s = (a, s') \<and> a \<in> avail_addrs s \<and> pmm_wf s'
        \<and> avail_addrs s' = avail_addrs s - {a} \<and> managed s' = managed s)"
  proof (elim disjE exE conjE)
    assume "free_pages s = {}" "pmm_alloc_page s = (PHYS_NULL, s)"
    then show ?thesis by (simp add: avail_addrs_def PHYS_NULL_def)
  next
    fix i s' assume *: "pmm_alloc_page s = (i * PAGE_SIZE, s')" "i \<in> free_pages s" "pmm_wf s'"
      "free_pages s' = free_pages s - {i}" "bitmap_pages s' = bitmap_pages s"
    have "i * PAGE_SIZE \<in> avail_addrs s" using *(2) by (auto simp: avail_addrs_def)
    with * avail_addrs_remove [OF *(4)] managed_cong [OF *(5)] show ?thesis by blast
  qed
next
  fix s a assume wf: "pmm_wf s"
  note spec = pmm_free_page_spec [OF wf, of a]
  have "avail_addrs (pmm_free_page a s) = (if managed s a then insert a (avail_addrs s) else avail_addrs s)"
  proof (cases "managed s a")
    case True
    then show ?thesis using spec avail_addrs_insert [OF True, of "pmm_free_page a s"] by simp
  next
    case False
    then show ?thesis by (simp add: pmm_free_page_ignored)
  qed
  moreover have "managed (pmm_free_page a s) = managed s" using spec by (intro managed_cong) simp
  ultimately show "pmm_wf (pmm_free_page a s) \<and> managed (pmm_free_page a s) = managed s \<and>
      avail_addrs (pmm_free_page a s) = (if managed s a then insert a (avail_addrs s) else avail_addrs s)"
    using spec by blast
next
  fix s a assume "pmm_wf s" and "a \<in> avail_addrs s"
  then show "managed s a" by (auto simp: avail_addrs_def intro: free_page_managed)
next
  fix s a assume "managed s a"
  then show "a \<noteq> 0" using managed_not_null by (auto simp: PHYS_NULL_def)
qed

section \<open>Properties\<close>


text \<open>\<open>pmm_free_page\<close> returns a frame to the free set when the address is a frame of
  the pool (aligned, above the kernel zone, tracked by the bitmap) and ignores every other address; a
  second release of the same frame changes nothing, and the used counter stays exact.\<close>

theorem pmm_free_page_refines:
  assumes "pmm_wf s"
  shows "pmm_wf (pmm_free_page a s)
    \<and> free_pages (pmm_free_page a s) = (if managed s a then insert (a div PAGE_SIZE) (free_pages s) else free_pages s)
    \<and> pmm_free_page a (pmm_free_page a s) = pmm_free_page a s"
proof -
  note spec = pmm_free_page_spec [OF assms, of a]
  have "pmm_free_page a (pmm_free_page a s) = pmm_free_page a s"
  proof (cases "managed s a")
    case False
    then show ?thesis by (simp add: pmm_free_page_ignored)
  next
    case True
    then have "a div PAGE_SIZE \<in> free_pages (pmm_free_page a s)" using spec by simp
    then obtain m where "pmm_bitmap (pmm_free_page a s) = Some m" "\<not> bitmap_test m (a div PAGE_SIZE)"
      by (auto simp: free_pages_def split: option.splits)
    then show ?thesis by (simp add: pmm_free_page_def [of a "pmm_free_page a s"] Let_def)
  qed
  with spec show ?thesis by blast
qed

text \<open>C17 (invariant). Boot from the loader's memory map establishes the allocator invariant, and the
  frames it makes available are exactly the usable ones that lie above the kernel zone and do not hold
  the bitmap itself.\<close>

theorem pmm_init_dynamic_correct:
  assumes "pmm_init_dynamic es = Inr s" and "memmap_ok es"
  shows "pmm_wf s \<and> (\<exists>p. find_bitmap_region es (bitmap_bytes s) = Some p \<and>
    free_pages s = {i. i < bitmap_pages s \<and> usable_frame es i \<and> KERNEL_PAGES \<le> i
      \<and> i \<notin> {p div PAGE_SIZE..<p div PAGE_SIZE + bitmap_bytes s div PAGE_SIZE}})"
  using assms by (rule pmm_init_spec)

text \<open>
  Runs of the allocator: boot, allocations, and releases of frames the clients hold. \<open>H\<close> is the set of
  addresses handed out and not yet returned.
\<close>

inductive pmm_run :: "limine_memmap_entry list \<Rightarrow> pmm \<Rightarrow> nat set \<Rightarrow> bool" for es where
  boot: "pmm_init_dynamic es = Inr s \<Longrightarrow> pmm_run es s {}"
| alloc: "pmm_run es s H \<Longrightarrow> pmm_alloc_page s = (a, s') \<Longrightarrow>
    pmm_run es s' (if a = PHYS_NULL then H else insert a H)"
| free: "pmm_run es s H \<Longrightarrow> a \<in> H \<Longrightarrow> pmm_run es (pmm_free_page a s) (H - {a})"

definition held_ok :: "limine_memmap_entry list \<Rightarrow> pmm \<Rightarrow> nat set \<Rightarrow> bool" where
  "held_ok es s H \<longleftrightarrow> pmm_wf s \<and> H \<inter> avail_addrs s = {} \<and> (\<forall>a \<in> H. managed s a)
     \<and> (\<forall>a \<in> H \<union> avail_addrs s. usable_frame es (a div PAGE_SIZE))"

lemma held_ok_boot: "pmm_init_dynamic es = Inr s \<Longrightarrow> memmap_ok es \<Longrightarrow> held_ok es s {}"
  using pmm_init_spec [of es s] by (auto simp: held_ok_def avail_addrs_def)

lemma held_ok_alloc:
  assumes "held_ok es s H" and "pmm_alloc_page s = (a, s')"
  shows "held_ok es s' (if a = PHYS_NULL then H else insert a H)"
proof (cases "a = 0")
  case True
  then show ?thesis using assms frames.alloc_null [of s s'] by (auto simp: held_ok_def PHYS_NULL_def)
next
  case False
  then show ?thesis using assms frames.alloc_some [of s a s'] by (auto simp: held_ok_def PHYS_NULL_def)
qed

lemma held_ok_free:
  assumes "held_ok es s H" and "a \<in> H"
  shows "held_ok es (pmm_free_page a s) (H - {a})"
  using assms frames.release_law [of s a] by (auto simp: held_ok_def)

lemma pmm_run_held_ok: "pmm_run es s H \<Longrightarrow> memmap_ok es \<Longrightarrow> held_ok es s H"
  by (induction rule: pmm_run.induct) (blast intro: held_ok_boot held_ok_alloc held_ok_free)+

text \<open>C3 (safety). In every run from boot, the frame an allocation returns is not held by anyone, is
  aligned, lies above the kernel zone and is usable memory of the boot map.\<close>

theorem pmm_never_hands_out_twice:
  assumes "pmm_run es s H" and "memmap_ok es" and "pmm_alloc_page s = (a, s')" and "a \<noteq> PHYS_NULL"
  shows "a \<notin> H \<and> a mod PAGE_SIZE = 0 \<and> PMM_KERNEL_ZONE_END \<le> a \<and> usable_frame es (a div PAGE_SIZE)"
  using pmm_run_held_ok [OF assms(1,2)] frames.alloc_some [of s a s'] assms(3,4)
  by (auto simp: held_ok_def PHYS_NULL_def managed_def)

section \<open>Witnesses\<close>

text \<open>A machine with 80 MB of RAM in one usable region.\<close>

definition ram80 :: "limine_memmap_entry list" where
  "ram80 = [\<lparr>base = 0, mlength = 83886080, usable = True\<rparr>]"

lemma ram80_ok: "memmap_ok ram80"
  by (simp add: memmap_ok_def ram80_def PAGE_SIZE_def)

lemma ram80_free:
  "\<exists>s. pmm_init_dynamic ram80 = Inr s \<and> pmm_wf s \<and> bitmap_pages s = 20480 \<and> {18433..<20480} \<subseteq> free_pages s"
proof -
  have h: "highest_usable ram80 = 83886080"
    by (simp add: highest_usable_def ram80_def u64_def)
  have b: "bitmap_alloc_bytes 20480 = 4096"
    by (simp add: bitmap_alloc_bytes_def PAGE_SIZE_def)
  have f: "find_bitmap_region ram80 4096 = Some 75497472"
    by (simp add: ram80_def page_align_up_def PMM_KERNEL_ZONE_END_def PAGE_SIZE_def u64_def)
  have "\<exists>s. pmm_init_dynamic ram80 = Inr s \<and> bitmap_pages s = 20480 \<and> bitmap_bytes s = 4096"
    unfolding pmm_init_dynamic_def Let_def h using b f by (simp add: PAGE_SIZE_def)
  then obtain s where s: "pmm_init_dynamic ram80 = Inr s" "bitmap_pages s = 20480" "bitmap_bytes s = 4096"
    by blast
  have "usable_frame ram80 i" if "i < 20480" for i using that by (simp add: usable_frame_def ram80_def PAGE_SIZE_def)
  then have "pmm_wf s \<and> {18433..<20480} \<subseteq> free_pages s"
    using pmm_init_spec [OF s(1) ram80_ok] s f
    by (auto simp: KERNEL_PAGES_def PMM_KERNEL_ZONE_END_def PAGE_SIZE_def)
  with s show ?thesis by blast
qed

lemma ram80_boots: "\<exists>s. pmm_init_dynamic ram80 = Inr s \<and> pmm_wf s \<and> 18433 \<in> free_pages s"
  using ram80_free by (elim exE conjE) (rule exI, intro conjI, assumption+, simp add: subset_eq)


theorem pmm_free_page_refines_witness:
  "\<exists>s. pmm_wf s \<and> pmm_wf (pmm_free_page 75501568 s)
     \<and> pmm_free_page 75501568 (pmm_free_page 75501568 s) = pmm_free_page 75501568 s"
proof -
  obtain s where "pmm_wf s" using ram80_boots by blast
  then show ?thesis using pmm_free_page_refines [of s 75501568] by blast
qed

theorem pmm_init_dynamic_correct_witness:
  "\<exists>s. pmm_init_dynamic ram80 = Inr s \<and> pmm_wf s"
proof -
  obtain s where "pmm_init_dynamic ram80 = Inr s" using ram80_boots by blast
  then show ?thesis using pmm_init_dynamic_correct [OF _ ram80_ok, of s] by blast
qed

theorem pmm_never_hands_out_twice_witness:
  "\<exists>s a s'. pmm_run ram80 s {} \<and> pmm_alloc_page s = (a, s') \<and> a \<noteq> PHYS_NULL \<and> a \<notin> {}
     \<and> PMM_KERNEL_ZONE_END \<le> a"
proof -
  obtain s where s: "pmm_init_dynamic ram80 = Inr s" "pmm_wf s" "18433 \<in> free_pages s"
    using ram80_boots by blast
  obtain a s' where a: "pmm_alloc_page s = (a, s')" by (cases "pmm_alloc_page s")
  have "avail_addrs s \<noteq> {}" using s(3) by (auto simp: avail_addrs_def)
  then have a': "a \<noteq> PHYS_NULL"
    using frames.alloc_null [OF s(2), of s'] a by (auto simp: PHYS_NULL_def)
  show ?thesis
    using pmm_never_hands_out_twice [OF pmm_run.boot [OF s(1)] ram80_ok a a'] pmm_run.boot [OF s(1)] a a' by blast
qed

end
