(* ===== verification/Kz_Civil.thy ===== *)
theory Kz_Civil
  imports Kz_Base
begin

text \<open>
  Civil time: the calendar half of \<^verbatim>\<open>libs/time/src/kztime.c\<close>, which the kernel and user space share.

  Integers are mathematical here and every narrowing conversion of the source is written as \<open>s32\<close>;
  \<open>sdiv\<close> and \<open>smod\<close> are C's division towards zero.  The lemmas show that the two era-based
  conversions are mutually inverse on the Gregorian calendar, that consecutive day numbers are
  consecutive dates, and that Unix seconds and broken-down time convert back and forth.
\<close>

section \<open>The calendar functions\<close>

definition kz_is_leap :: "int \<Rightarrow> bool" where
  "kz_is_leap y \<longleftrightarrow> (y smod 4 = 0 \<and> y smod 100 \<noteq> 0) \<or> y smod 400 = 0"

definition month_days :: "int list" where
  "month_days = [31, 28, 31, 30, 31, 30, 31, 31, 30, 31, 30, 31]"

definition kz_days_in_month :: "int \<Rightarrow> int \<Rightarrow> int" where
  "kz_days_in_month y m =
     (if m < 1 \<or> m > 12 then 0
      else if m = 2 \<and> kz_is_leap y then 29
      else month_days ! nat (m - 1))"

definition kz_days_from_civil :: "int \<Rightarrow> int \<Rightarrow> int \<Rightarrow> int" where
  "kz_days_from_civil y m d =
     (let yy = y - (if m \<le> 2 then 1 else 0);
          era = (if yy \<ge> 0 then yy else yy - 399) sdiv 400;
          yoe = s32 (yy - era * 400);
          doy = (153 * (m + (if m > 2 then - 3 else 9)) + 2) sdiv 5 + d - 1;
          doe = yoe * 365 + yoe sdiv 4 - yoe sdiv 100 + doy
      in era * 146097 + doe - 719468)"

definition kz_civil_from_days :: "int \<Rightarrow> int \<times> int \<times> int" where
  "kz_civil_from_days z0 =
     (let z = z0 + 719468;
          era = (if z \<ge> 0 then z else z - 146096) sdiv 146097;
          doe = z - era * 146097;
          yoe = (doe - doe sdiv 1460 + doe sdiv 36524 - doe sdiv 146096) sdiv 365;
          y = yoe + era * 400;
          doy = doe - (365 * yoe + yoe sdiv 4 - yoe sdiv 100);
          mp = (5 * doy + 2) sdiv 153;
          d = doy - (153 * mp + 2) sdiv 5 + 1;
          m = mp + (if mp < 10 then 3 else - 9)
      in (s32 (y + (if m \<le> 2 then 1 else 0)), s32 m, s32 d))"

record kz_civil =
  year :: int
  month :: int
  day :: int
  hour :: int
  minute :: int
  second :: int
  weekday :: int
  yday :: int

definition kz_civil_from_unix :: "int \<Rightarrow> kz_civil" where
  "kz_civil_from_unix unix_sec =
     (let days0 = unix_sec sdiv 86400;
          rem0 = unix_sec smod 86400;
          (rem, days) = (if rem0 < 0 then (rem0 + 86400, days0 - 1) else (rem0, days0));
          (y, m, d) = kz_civil_from_days days;
          wd0 = (days + 4) smod 7;
          wd = (if wd0 < 0 then wd0 + 7 else wd0)
      in \<lparr>year = y, month = m, day = d, hour = s32 (rem sdiv 3600), minute = s32 ((rem smod 3600) sdiv 60),
          second = s32 (rem smod 60), weekday = s32 wd, yday = s32 (days - kz_days_from_civil y 1 1)\<rparr>)"

definition kz_civil_to_unix :: "kz_civil \<Rightarrow> int" where
  "kz_civil_to_unix t =
     kz_days_from_civil (year t) (month t) (day t) * 86400 + hour t * 3600 + minute t * 60 + second t"

section \<open>Reference calendar\<close>

text \<open>A date of the proleptic Gregorian calendar and its successor, by the lengths of the months.\<close>

definition valid_date :: "int \<times> int \<times> int \<Rightarrow> bool" where
  "valid_date = (\<lambda>(y, m, d). 1 \<le> m \<and> m \<le> 12 \<and> 1 \<le> d \<and> d \<le> kz_days_in_month y m)"

definition next_date :: "int \<times> int \<times> int \<Rightarrow> int \<times> int \<times> int" where
  "next_date = (\<lambda>(y, m, d).
     if d < kz_days_in_month y m then (y, m, d + 1)
     else if m < 12 then (y, m + 1, 1) else (y + 1, 1, 1))"

section \<open>Division\<close>

lemma trunc_floor:
  assumes n: "0 < n"
  shows "(if 0 \<le> z then z else z - (n - 1)) sdiv n = z div (n :: int)"
proof (cases "0 \<le> z")
  case True
  then show ?thesis using n by (simp add: sdiv_nonneg)
next
  case False
  define q r where "q = z div n" and "r = z mod n"
  have r: "0 \<le> r" "r < n" "z = q * n + r" using n by (auto simp: q_def r_def)
  have "(n - 1 - z) div n = - q"
    by (rule int_div_pos_eq [of _ _ _ "n - 1 - r"]) (use r in \<open>auto simp: algebra_simps\<close>)
  then show ?thesis using False n q_def by (simp add: signed_divide_int_def sgn_if abs_if)
qed

lemma trunc_floor_mod:
  assumes n: "0 < n"
  shows "(if z smod n < 0 then (z smod n + n, z sdiv n - 1) else (z smod n, z sdiv n)) = (z mod n, z div (n :: int))"
proof -
  have "\<not> z mod n < 0" using pos_mod_sign [OF n, of z] by simp
  with n show ?thesis
    by (auto simp: signed_divide_int_def signed_modulo_int_def sgn_if abs_if zmod_zminus1_eq_if
      zdiv_zminus1_eq_if split: if_splits)
qed

lemma smod_eq_0_iff: "(a :: int) smod b = 0 \<longleftrightarrow> b dvd a"
  by (auto simp: signed_modulo_int_def sgn_if abs_if zmod_zminus1_eq_if mod_eq_0_iff_dvd)

lemma kz_is_leap_iff: "kz_is_leap y \<longleftrightarrow> (4 dvd y \<and> \<not> 100 dvd y) \<or> 400 dvd y"
  by (simp add: kz_is_leap_def smod_eq_0_iff)

lemma div_succ: "0 < (n :: int) \<Longrightarrow> (a + 1) div n = a div n + (if n dvd a + 1 then 1 else 0)"
proof -
  assume n: "0 < n"
  define q r where "q = a div n" and "r = a mod n"
  have r: "0 \<le> r" "r < n" "a = q * n + r" using n by (auto simp: q_def r_def)
  show ?thesis
  proof (cases "r = n - 1")
    case True
    then have "a + 1 = (q + 1) * n" using r by (simp add: algebra_simps)
    then show ?thesis using n by (simp add: q_def)
  next
    case False
    have b: "a + 1 = n * q + (r + 1)" using r(3) by (simp add: mult.commute)
    have b1: "0 \<le> r + 1" using r(1) by simp
    have b2: "r + 1 < n" using r(2) False by linarith
    have "(a + 1) mod n = r + 1" using b b1 b2 by (rule int_mod_pos_eq)
    then have "\<not> n dvd a + 1" using r(1) by (simp add: dvd_eq_mod_eq_0)
    moreover have "(a + 1) div n = a div n" unfolding q_def [symmetric] using b b1 b2 by (rule int_div_pos_eq)
    ultimately show ?thesis by simp
  qed
qed

lemma div_pos_less:
  assumes n: "0 < n" and a: "a < b * n"
  shows "a div n < (b :: int)"
proof (rule ccontr)
  assume "\<not> a div n < b"
  then have "b * n \<le> a div n * n" using n by simp
  then show False using a pos_mod_sign [OF n, of a] div_mult_mod_eq [of a n] by linarith
qed

section \<open>Days before a year\<close>

text \<open>Years here start on 1 March, as in the source; \<open>year_start yy\<close> counts the days before year \<open>yy\<close>.\<close>

definition year_start :: "int \<Rightarrow> int" where
  "year_start yy = 365 * yy + yy div 4 - yy div 100 + yy div 400"

definition month_start :: "int \<Rightarrow> int" where
  "month_start mp = (153 * mp + 2) div 5"

lemma year_start_succ: "year_start (yy + 1) = year_start yy + 365 + (if kz_is_leap (yy + 1) then 1 else 0)"
proof -
  have "400 dvd yy + 1 \<Longrightarrow> 100 dvd yy + 1" "100 dvd yy + 1 \<Longrightarrow> 4 dvd yy + 1"
    by (auto intro: dvd_trans [of 100 400] dvd_trans [of 4 100])
  then show ?thesis by (auto simp: year_start_def kz_is_leap_iff div_succ)
qed

lemma year_start_era:
  "year_start yy = yy div 400 * 146097 + (365 * (yy mod 400) + yy mod 400 div 4 - yy mod 400 div 100)"
proof -
  define e r where "e = yy div 400" and "r = yy mod 400"
  have yy: "yy = 400 * e + r" by (simp add: e_def r_def)
  have "(400 * e + r) div 4 = 100 * e + r div 4" "(400 * e + r) div 100 = 4 * e + r div 100"
    by (simp_all add: div_plus_div_distrib_dvd_left)
  then have "365 * yy + yy div 4 - yy div 100 + e = e * 146097 + (365 * r + r div 4 - r div 100)"
    unfolding yy by simp
  then show ?thesis by (simp add: year_start_def e_def r_def)
qed

text \<open>The day number of a date, in closed form.\<close>

lemma kz_days_from_civil_eq:
  assumes "1 \<le> m" and "m \<le> 12"
  shows "kz_days_from_civil y m d =
    (if m \<le> 2 then year_start (y - 1) + month_start (m + 9) else year_start y + month_start (m - 3)) + d - 719469"
proof -
  define yy where "yy = y - (if m \<le> 2 then 1 else 0)"
  define mp where "mp = m + (if m > 2 then - 3 else 9)"
  have r: "s32 (yy - yy div 400 * 400) = yy mod 400"
    using pos_mod_bound [of 400 yy] pos_mod_sign [of 400 yy]
    by (simp add: minus_div_mult_eq_mod s32_id)
  have nn: "(yy mod 400) sdiv 4 = yy mod 400 div 4" "(yy mod 400) sdiv 100 = yy mod 400 div 100"
    by (simp_all add: sdiv_nonneg)
  have era: "(if yy \<ge> 0 then yy else yy - 399) sdiv 400 = yy div 400"
    using trunc_floor [of 400 yy] by (cases "0 \<le> yy") simp_all
  have "(153 * mp + 2) sdiv 5 = month_start mp"
    using assms by (simp add: sdiv_nonneg month_start_def mp_def)
  then have "kz_days_from_civil y m d = yy div 400 * 146097
      + ((yy mod 400) * 365 + yy mod 400 div 4 - yy mod 400 div 100 + (month_start mp + d - 1)) - 719468"
    unfolding kz_days_from_civil_def Let_def yy_def [symmetric] mp_def [symmetric]
    unfolding era r nn by simp
  also have "\<dots> = year_start yy + month_start mp + d - 719469"
    unfolding year_start_era [of yy] by simp
  finally show ?thesis using assms by (simp add: yy_def mp_def)
qed

section \<open>Recovering the year and the month\<close>

definition yoe_start :: "int \<Rightarrow> int" where
  "yoe_start r = 365 * r + r div 4 - r div 100"

definition yoe_count :: "int \<Rightarrow> int" where
  "yoe_count doe = doe - doe div 1460 + doe div 36524 - doe div 146096"

lemma yoe_count_step: "yoe_count a \<le> yoe_count (a + 1)"
  using dvd_trans [of 36524 146096 "a + 1"] by (simp add: yoe_count_def div_succ)

lemma yoe_count_mono: "a \<le> b \<Longrightarrow> yoe_count a \<le> yoe_count b"
proof (induction "nat (b - a)" arbitrary: b)
  case 0
  then show ?case by simp
next
  case (Suc n)
  then have "n = nat ((b - 1) - a)" "a \<le> b - 1" by simp_all
  then have "yoe_count a \<le> yoe_count (b - 1)" using Suc.hyps(1) [of "b - 1"] by simp
  then show ?case using yoe_count_step [of "b - 1"] by simp
qed

definition yoe_end :: "int \<Rightarrow> int" where
  "yoe_end r = (if r = 399 then 146096 else yoe_start (r + 1) - 1)"

lemma yoe_table:
  "list_all (\<lambda>r. 365 * r \<le> yoe_count (yoe_start r) \<and> yoe_count (yoe_end r) < 365 * (r + 1)) [0..399]"
  by code_simp

lemma yoe_recover:
  assumes "0 \<le> r" and "r < 400" and "yoe_start r \<le> doe" and "doe \<le> yoe_end r"
  shows "yoe_count doe div 365 = r"
proof -
  have "365 * r \<le> yoe_count (yoe_start r)" "yoe_count (yoe_end r) < 365 * (r + 1)"
    using yoe_table assms(1,2) by (auto simp: list_all_iff)
  then have "365 * r \<le> yoe_count doe" "yoe_count doe < 365 * (r + 1)"
    using yoe_count_mono [OF assms(3)] yoe_count_mono [OF assms(4)] by linarith+
  then show ?thesis by (intro int_div_pos_eq [of _ _ _ "yoe_count doe - 365 * r"]) auto
qed

lemma yoe_exists: "0 \<le> doe \<Longrightarrow> doe < yoe_start (int n) \<Longrightarrow>
    \<exists>r. 0 \<le> r \<and> r < int n \<and> yoe_start r \<le> doe \<and> doe < yoe_start (r + 1)"
proof (induction n)
  case 0
  then show ?case by (simp add: yoe_start_def)
next
  case (Suc n)
  show ?case
  proof (cases "doe < yoe_start (int n)")
    case True
    then obtain r where "0 \<le> r" "r < int n" "yoe_start r \<le> doe" "doe < yoe_start (r + 1)"
      using Suc.IH Suc.prems by blast
    then show ?thesis by (intro exI [of _ r]) auto
  next
    case False
    then show ?thesis using Suc.prems by (intro exI [of _ "int n"]) (auto simp: add.commute)
  qed
qed

lemma yoe_end_eq: "0 \<le> r \<Longrightarrow> r < 400 \<Longrightarrow>
    yoe_end r = yoe_start r + 364 + (if kz_is_leap (r + 1) then 1 else 0)"
  using year_start_succ [of r] year_start_era [of r] year_start_era [of "r + 1"]
  by (cases "r = 399") (auto simp: yoe_end_def yoe_start_def kz_is_leap_iff)

lemma month_table:
  "list_all (\<lambda>doy. let mp = (5 * doy + 2) div 153 in
     0 \<le> mp \<and> mp \<le> 11 \<and> month_start mp \<le> doy \<and> doy < month_start (mp + 1)) [0..365]"
  by code_simp

lemma month_recover:
  assumes "0 \<le> mp" and "mp \<le> 11" and "month_start mp \<le> doy" and "doy < month_start (mp + 1)"
  shows "(5 * doy + 2) div 153 = mp"
proof -
  have "153 * mp - 2 \<le> 5 * month_start mp" "5 * month_start (mp + 1) \<le> 153 * (mp + 1) + 2"
    unfolding month_start_def by presburger+
  then have "153 * mp \<le> 5 * doy + 2" "5 * doy + 2 < 153 * (mp + 1)" using assms by linarith+
  then show ?thesis by (intro int_div_pos_eq [of _ _ _ "5 * doy + 2 - 153 * mp"]) auto
qed

lemma yoe_cover:
  assumes "0 \<le> doe" and "doe \<le> 146096"
  shows "\<exists>r. 0 \<le> r \<and> r < 400 \<and> yoe_start r \<le> doe \<and> doe \<le> yoe_end r"
proof (cases "doe = 146096")
  case True
  then show ?thesis by (intro exI [of _ 399]) (simp add: yoe_end_def yoe_start_def)
next
  case False
  then have "doe < yoe_start (int 400)" using assms by (simp add: yoe_start_def)
  then obtain r where "0 \<le> r" "r < 400" "yoe_start r \<le> doe" "doe < yoe_start (r + 1)"
    using yoe_exists [of doe 400] assms by auto
  then show ?thesis using assms by (intro exI [of _ r]) (auto simp: yoe_end_def)
qed

lemma yoe_start_nonneg:
  assumes "0 \<le> r"
  shows "0 \<le> yoe_start r"
proof -
  have "r div 100 \<le> r" using zdiv_mono2 [OF assms, of 1 100] by simp
  then show ?thesis using assms by (simp add: yoe_start_def pos_imp_zdiv_nonneg_iff add_increasing2)
qed

lemma yoe_end_le:
  assumes "0 \<le> r" and "r < 400"
  shows "yoe_end r \<le> 146096"
proof (cases "r = 399")
  case False
  have "(r + 1) div 4 \<le> 399 div 4" "0 div 100 \<le> (r + 1) div 100"
    using assms False by (intro zdiv_mono1; simp)+
  then show ?thesis using assms False by (simp add: yoe_end_def yoe_start_def)
qed (simp add: yoe_end_def)

lemma month_start_bounds: "month_start (mp + 1) \<le> month_start mp + 31"
proof -
  have "(153 * (mp + 1) + 2) div 5 = 153 * mp div 5 + 31"
    using div_mult_self2 [of 5 "153 * mp" 31] by (simp add: algebra_simps)
  moreover have "153 * mp div 5 \<le> (153 * mp + 2) div 5" by (rule zdiv_mono1) simp_all
  ultimately show ?thesis by (simp add: month_start_def)
qed

text \<open>The conversion computes the parts a day number is composed of.\<close>

lemma kz_civil_from_parts:
  assumes r: "0 \<le> r" "r < 400" and doy: "0 \<le> doy" "yoe_start r + doy \<le> yoe_end r"
    and mp: "0 \<le> mp" "mp \<le> 11" "month_start mp \<le> doy" "doy < month_start (mp + 1)"
  shows "kz_civil_from_days (e * 146097 + yoe_start r + doy - 719468) =
    (s32 (r + e * 400 + (if mp < 10 then 0 else 1)), if mp < 10 then mp + 3 else mp - 9, doy - month_start mp + 1)"
proof -
  define z where "z = e * 146097 + yoe_start r + doy"
  define doe where "doe = yoe_start r + doy"
  have doe: "0 \<le> doe" "doe \<le> 146096"
    using yoe_start_nonneg [OF r(1)] yoe_end_le [OF r] doy unfolding doe_def by linarith+
  have z: "z = 146097 * e + doe" by (simp add: z_def doe_def)
  have "z div 146097 = e" using z doe by (intro int_div_pos_eq [of _ _ _ doe]) auto
  then have era: "(if z \<ge> 0 then z else z - 146096) sdiv 146097 = e"
    using trunc_floor [of 146097 z] by (cases "0 \<le> z") simp_all
  have dv: "z - e * 146097 = doe" using z by simp
  have cnt: "doe - doe sdiv 1460 + doe sdiv 36524 - doe sdiv 146096 = yoe_count doe"
    using doe by (simp add: yoe_count_def sdiv_nonneg)
  have "yoe_count doe div 365 = r"
    using r doy by (intro yoe_recover) (auto simp: doe_def)
  moreover have "0 \<le> yoe_count doe" using yoe_count_mono [OF doe(1)] by (simp add: yoe_count_def)
  ultimately have yoe: "yoe_count doe sdiv 365 = r" by (simp add: sdiv_nonneg)
  have dy: "doe - (365 * r + r sdiv 4 - r sdiv 100) = doy"
    using r by (simp add: doe_def yoe_start_def sdiv_nonneg)
  have mq: "(5 * doy + 2) sdiv 153 = mp" using month_recover [OF mp] doy by (simp add: sdiv_nonneg)
  have ms: "(153 * mp + 2) sdiv 5 = month_start mp" using mp by (simp add: month_start_def sdiv_nonneg)
  have s: "s32 (doy - month_start mp + 1) = doy - month_start mp + 1"
    using mp month_start_bounds [of mp] by (intro s32_id) auto
  have "e * 146097 + yoe_start r + doy - 719468 + 719468 = z" by (simp add: z_def)
  then have "kz_civil_from_days (e * 146097 + yoe_start r + doy - 719468) =
      (let m = mp + (if mp < 10 then 3 else - 9) in
        (s32 (r + e * 400 + (if m \<le> 2 then 1 else 0)), s32 m, s32 (doy - month_start mp + 1)))"
    unfolding kz_civil_from_days_def Let_def by (simp only: era dv cnt yoe dy mq ms)
  then show ?thesis using mp s by (auto simp: Let_def s32_id)
qed

section \<open>Dates and day numbers\<close>

definition march_year :: "int \<Rightarrow> int \<Rightarrow> int" where
  "march_year y m = (if m \<le> 2 then y - 1 else y)"

definition march_month :: "int \<Rightarrow> int" where
  "march_month m = (if m \<le> 2 then m + 9 else m - 3)"

lemma month_cases:
  fixes m :: int
  assumes "1 \<le> m" and "m \<le> 12"
  shows "m = 1 \<or> m = 2 \<or> m = 3 \<or> m = 4 \<or> m = 5 \<or> m = 6 \<or> m = 7 \<or> m = 8 \<or> m = 9 \<or> m = 10 \<or> m = 11 \<or> m = 12"
  using assms by arith

lemma month_len:
  assumes "1 \<le> m" and "m \<le> 12"
  shows "kz_days_in_month y m = (if m = 2 then if kz_is_leap y then 29 else 28
    else month_start (march_month m + 1) - month_start (march_month m))"
  using month_cases [OF assms]
  by (elim disjE) (simp_all add: kz_days_in_month_def month_days_def march_month_def month_start_def)

lemma days_from_civil_parts:
  assumes "1 \<le> m" and "m \<le> 12"
  shows "kz_days_from_civil y m d = year_start (march_year y m) + month_start (march_month m) + d - 719469"
  using assms by (simp add: kz_days_from_civil_eq march_year_def march_month_def)

lemma valid_date_parts:
  assumes "valid_date (y, m, d)"
  defines "mp \<equiv> march_month m" and "doy \<equiv> month_start (march_month m) + d - 1"
  shows "0 \<le> mp" "mp \<le> 11" "month_start mp \<le> doy" "doy < month_start (mp + 1)" "0 \<le> doy"
    "doy \<le> 364 + (if kz_is_leap (march_year y m + 1) then 1 else 0)"
proof -
  have v: "1 \<le> m" "m \<le> 12" "1 \<le> d" "d \<le> kz_days_in_month y m"
    using assms(1) by (auto simp: valid_date_def)
  show "0 \<le> mp" "mp \<le> 11" using v by (auto simp: mp_def march_month_def)
  show "month_start mp \<le> doy" using v by (simp add: mp_def doy_def)
  show "doy < month_start (mp + 1)"
    using v month_len [OF v(1,2), of y]
    by (auto simp: mp_def doy_def march_month_def month_start_def split: if_splits)
  show "0 \<le> doy" "doy \<le> 364 + (if kz_is_leap (march_year y m + 1) then 1 else 0)"
    using month_cases [OF v(1,2)] v(3,4)
    by (elim disjE; simp add: doy_def march_month_def march_year_def month_start_def
          kz_days_in_month_def month_days_def split: if_splits)+
qed

lemma kz_is_leap_400: "kz_is_leap (e * 400 + r) \<longleftrightarrow> kz_is_leap r"
proof -
  have "4 dvd e * 400" "100 dvd e * 400" by (auto intro: dvd_mult)
  then show ?thesis by (simp add: kz_is_leap_iff dvd_add_right_iff)
qed

lemma year_start_parts: "year_start yy = yy div 400 * 146097 + yoe_start (yy mod 400)"
  by (simp add: year_start_era [of yy] yoe_start_def)

lemma civil_of_date:
  assumes v: "valid_date (y, m, d)"
  shows "kz_civil_from_days (kz_days_from_civil y m d) = (s32 y, m, d)"
proof -
  define yy r e doy where "yy = march_year y m" and "r = yy mod 400" and "e = yy div 400"
    and "doy = month_start (march_month m) + d - 1"
  note p = valid_date_parts [OF v]
  have m: "1 \<le> m" "m \<le> 12" using v by (auto simp: valid_date_def)
  have r: "0 \<le> r" "r < 400" by (simp_all add: r_def)
  have yy: "yy = e * 400 + r" by (simp add: e_def r_def)
  have "yoe_start r + doy \<le> yoe_end r"
    using p(6) yoe_end_eq [OF r] kz_is_leap_400 [of e "r + 1"] yy
    by (simp add: doy_def yy_def [symmetric] add.assoc)
  then have "kz_civil_from_days (e * 146097 + yoe_start r + doy - 719468) =
    (s32 (r + e * 400 + (if march_month m < 10 then 0 else 1)),
      if march_month m < 10 then march_month m + 3 else march_month m - 9, doy - month_start (march_month m) + 1)"
    using p(1-5) r by (intro kz_civil_from_parts) (simp_all add: doy_def)
  moreover have "kz_days_from_civil y m d = e * 146097 + yoe_start r + doy - 719468"
    using days_from_civil_parts [OF m] year_start_parts [of yy] by (simp add: doy_def yy_def e_def r_def)
  moreover have "r + e * 400 + (if march_month m < 10 then 0 else 1) = y"
    using yy m by (auto simp: yy_def march_year_def march_month_def)
  ultimately show ?thesis using m by (auto simp: doy_def march_month_def)
qed

text \<open>Every day number is the number of a date; within 700 thousand million days of the epoch its year
  fits the 32-bit field.\<close>

definition day_range :: "int \<Rightarrow> bool" where
  "day_range z \<longleftrightarrow> \<bar>z\<bar> \<le> 700000000000"

lemma date_of_day:
  obtains y m d where "valid_date (y, m, d)" and "kz_days_from_civil y m d = z"
    and "day_range z \<longrightarrow> - 2147483648 \<le> y \<and> y < 2147483647"
proof -
  define e doe where "e = (z + 719468) div 146097" and "doe = (z + 719468) mod 146097"
  have z: "z = e * 146097 + doe - 719468" by (simp add: e_def doe_def)
  have "0 \<le> doe" "doe < 146097" unfolding doe_def by simp_all
  then obtain r where r: "0 \<le> r" "r < 400" "yoe_start r \<le> doe" "doe \<le> yoe_end r"
    using yoe_cover [of doe] by auto
  define doy where "doy = doe - yoe_start r"
  have doy: "0 \<le> doy" "doy \<le> 364 + (if kz_is_leap (r + 1) then 1 else 0)"
    using r yoe_end_eq [OF r(1,2)] by (simp_all add: doy_def)
  define mp where "mp = (5 * doy + 2) div 153"
  have "doy \<in> set [0..365]" using doy by (simp split: if_splits)
  then have mp: "0 \<le> mp" "mp \<le> 11" "month_start mp \<le> doy" "doy < month_start (mp + 1)"
    using month_table unfolding list_all_iff Let_def mp_def by blast+
  define m y d where "m = (if mp < 10 then mp + 3 else mp - 9)" and "y = e * 400 + r + (if mp < 10 then 0 else 1)"
    and "d = doy - month_start mp + 1"
  have m: "1 \<le> m" "m \<le> 12" "march_month m = mp" "march_year y m = e * 400 + r"
    using mp by (auto simp: m_def y_def march_month_def march_year_def)
  have "d \<le> kz_days_in_month y m"
    using month_len [OF m(1,2), of y] mp doy m kz_is_leap_400 [of e "r + 1"]
    by (auto simp: m_def d_def y_def month_start_def add.assoc split: if_splits)
  then have v: "valid_date (y, m, d)" using m mp by (simp add: valid_date_def d_def)
  have "kz_days_from_civil y m d = z"
    using days_from_civil_parts [OF m(1,2), of y d] year_start_parts [of "e * 400 + r"] r m
    by (simp add: d_def doy_def z)
  moreover have "day_range z \<longrightarrow> - 4791400 \<le> e \<and> e \<le> 4791400"
    unfolding day_range_def z using \<open>0 \<le> doe\<close> \<open>doe < 146097\<close> by linarith
  then have "day_range z \<longrightarrow> - 2147483648 \<le> y \<and> y < 2147483647"
    using r(1,2) by (auto simp: y_def)
  ultimately show ?thesis using that v by blast
qed

lemma civil_from_days_valid:
  assumes "day_range z" and "kz_civil_from_days z = (y, m, d)"
  shows "valid_date (y, m, d) \<and> kz_days_from_civil y m d = z \<and> - 2147483648 \<le> y \<and> y < 2147483647"
proof -
  obtain y' m' d' where *: "valid_date (y', m', d')" "kz_days_from_civil y' m' d' = z"
    "- 2147483648 \<le> y' \<and> y' < 2147483647"
    using date_of_day [of z] assms(1) by blast
  then have "(y, m, d) = (y', m', d')" using civil_of_date [OF *(1)] assms(2) by (simp add: s32_id)
  then show ?thesis using * by simp
qed

lemma kz_days_in_month_pos: "1 \<le> m \<Longrightarrow> m \<le> 12 \<Longrightarrow> 28 \<le> kz_days_in_month y m"
  by (drule (1) month_cases, elim disjE) (simp_all add: kz_days_in_month_def month_days_def)

lemma next_date_day:
  assumes v: "valid_date (y, m, d)" and n: "next_date (y, m, d) = (y', m', d')"
  shows "valid_date (y', m', d') \<and> kz_days_from_civil y' m' d' = kz_days_from_civil y m d + 1"
proof -
  have m: "1 \<le> m" "m \<le> 12" "1 \<le> d" "d \<le> kz_days_in_month y m" using v by (auto simp: valid_date_def)
  consider (same) "d < kz_days_in_month y m" | (month) "d = kz_days_in_month y m" "m < 12"
    | (year) "d = kz_days_in_month y m" "m = 12"
    using m by linarith
  then show ?thesis
  proof cases
    case same
    then show ?thesis using n m by (auto simp: next_date_def valid_date_def days_from_civil_parts)
  next
    case month
    have n: "y' = y" "m' = m + 1" "d' = 1" using n month by (auto simp: next_date_def)
    have "1 \<le> kz_days_in_month y (m + 1)" using kz_days_in_month_pos [of "m + 1" y] m month by simp
    moreover have "kz_days_from_civil y (m + 1) 1 = kz_days_from_civil y m d + 1"
      using m month month_len [OF m(1,2), of y] year_start_succ [of "y - 1"]
      by (auto simp: days_from_civil_parts march_year_def march_month_def month_start_def)
    ultimately show ?thesis using m month by (simp add: n valid_date_def)
  next
    case year
    then show ?thesis using n
      by (auto simp: next_date_def valid_date_def days_from_civil_parts march_year_def march_month_def
          month_start_def kz_days_in_month_def month_days_def)
  qed
qed

section \<open>Seconds\<close>

definition unix_range :: "int \<Rightarrow> bool" where
  "unix_range t \<longleftrightarrow> day_range (t div 86400)"

definition valid_civil :: "kz_civil \<Rightarrow> bool" where
  "valid_civil t \<longleftrightarrow> valid_date (year t, month t, day t) \<and> 0 \<le> hour t \<and> hour t < 24
     \<and> 0 \<le> minute t \<and> minute t < 60 \<and> 0 \<le> second t \<and> second t < 60"

lemma civil_from_unix_eq:
  assumes "kz_civil_from_days (t div 86400) = (y, m, d)"
  shows "kz_civil_from_unix t = \<lparr>year = y, month = m, day = d, hour = t mod 86400 div 3600,
    minute = t mod 86400 mod 3600 div 60, second = t mod 86400 mod 60, weekday = (t div 86400 + 4) mod 7,
    yday = s32 (t div 86400 - kz_days_from_civil y 1 1)\<rparr>"
proof -
  define r where "r = t mod 86400"
  have r: "0 \<le> r" "r < 86400" by (simp_all add: r_def)
  have h: "s32 (r sdiv 3600) = r div 3600"
    using r zdiv_mono1 [of r 86400 3600] by (simp add: sdiv_nonneg s32_id pos_imp_zdiv_nonneg_iff)
  have mi: "s32 ((r smod 3600) sdiv 60) = r mod 3600 div 60"
    using r zdiv_mono1 [of "r mod 3600" 3600 60]
    by (simp add: sdiv_nonneg smod_nonneg s32_id pos_imp_zdiv_nonneg_iff)
  have se: "s32 (r smod 60) = r mod 60"
    using r pos_mod_bound [of 60 r] pos_mod_sign [of 60 r] by (simp add: smod_nonneg s32_id)
  have wd: "s32 (if (k + 4) smod 7 < 0 then (k + 4) smod 7 + 7 else (k + 4) smod 7) = (k + 4) mod 7" for k
    using trunc_floor_mod [of 7 "k + 4"] pos_mod_bound [of 7 "k + 4"] pos_mod_sign [of 7 "k + 4"]
    by (auto simp: s32_id split: if_splits)
  show ?thesis
    unfolding kz_civil_from_unix_def Let_def trunc_floor_mod [of 86400 t, simplified] case_prod_conv
      r_def [symmetric] assms h mi se wd by simp
qed

lemma day_seconds:
  assumes "0 \<le> (r :: int)"
  shows "r div 3600 * 3600 + r mod 3600 div 60 * 60 + r mod 60 = r"
proof -
  have "r mod 3600 mod 60 = r mod 60" by (rule mod_mod_cancel) simp
  then have "r mod 3600 = r mod 3600 div 60 * 60 + r mod 60" using div_mult_mod_eq [of "r mod 3600" 60] by simp
  then show ?thesis using div_mult_mod_eq [of r 3600] by linarith
qed

section \<open>Properties\<close>

text \<open>Converting a date of the Gregorian calendar to its day number and back gives the date,
  for every year that fits the 32-bit field.\<close>

theorem civil_days_roundtrip:
  assumes "valid_date (y, m, d)" and "- 2147483648 \<le> y" and "y < 2147483648"
  shows "kz_civil_from_days (kz_days_from_civil y m d) = (y, m, d)"
  using civil_of_date [OF assms(1)] assms(2,3) by (simp add: s32_id)

text \<open>\<open>kz_civil_from_days\<close> is the Gregorian calendar: day 0 is 1 January 1970, the day
  after a day is the calendar successor of its date, and the date's day number is the day it came from.\<close>

theorem kz_civil_from_days_calendar:
  assumes "day_range z" and "day_range (z + 1)"
  shows "kz_civil_from_days 0 = (1970, 1, 1)
    \<and> kz_civil_from_days (z + 1) = next_date (kz_civil_from_days z)
    \<and> (case kz_civil_from_days z of (y, m, d) \<Rightarrow> valid_date (y, m, d) \<and> kz_days_from_civil y m d = z)"
proof -
  obtain y m d where c: "kz_civil_from_days z = (y, m, d)" by (cases "kz_civil_from_days z")
  obtain y' m' d' where n: "next_date (y, m, d) = (y', m', d')" by (cases "next_date (y, m, d)")
  note v = civil_from_days_valid [OF assms(1) c]
  note w = next_date_day [OF conjunct1 [OF v] n]
  have "y' = y \<or> y' = y + 1" using n by (auto simp: next_date_def split: if_splits)
  then have "kz_civil_from_days (z + 1) = (y', m', d')"
    using civil_of_date [of y' m' d'] w v by (auto simp: s32_id)
  moreover have "kz_civil_from_days 0 = (1970, 1, 1)"
    using civil_of_date [of 1970 1 1]
    by (simp add: valid_date_def kz_days_in_month_def month_days_def days_from_civil_parts march_year_def
        march_month_def year_start_def month_start_def s32_id)
  ultimately show ?thesis using v c n by simp
qed

text \<open>Breaking Unix seconds down into civil time, before or after the epoch, gives fields in
  range with the right weekday, and composing the fields gives the same instant back.\<close>

theorem kz_civil_unix_roundtrip:
  assumes "unix_range t"
  shows "valid_civil (kz_civil_from_unix t) \<and> kz_civil_to_unix (kz_civil_from_unix t) = t
    \<and> weekday (kz_civil_from_unix t) = (t div 86400 + 4) mod 7"
proof -
  obtain y m d where c: "kz_civil_from_days (t div 86400) = (y, m, d)"
    by (cases "kz_civil_from_days (t div 86400)")
  note v = civil_from_days_valid [OF assms [unfolded unix_range_def] c]
  note e = civil_from_unix_eq [OF c]
  define r where "r = t mod 86400"
  have r: "0 \<le> r" "r < 86400" by (simp_all add: r_def)
  have h: "0 \<le> r div 3600" "r div 3600 < 24" "0 \<le> r mod 3600 div 60" "r mod 3600 div 60 < 60"
    using r by (simp_all add: pos_imp_zdiv_nonneg_iff div_pos_less)
  have "valid_civil (kz_civil_from_unix t)"
    using v h by (simp add: valid_civil_def e r_def [symmetric])
  moreover have "kz_civil_to_unix (kz_civil_from_unix t) = t"
    using v day_seconds [OF r(1)] div_mult_mod_eq [of t 86400]
    by (simp add: kz_civil_to_unix_def e r_def [symmetric])
  ultimately show ?thesis by (simp add: e)
qed

section \<open>Witnesses\<close>

theorem civil_days_roundtrip_witness:
  "valid_date (2024, 2, 29) \<and> kz_civil_from_days (kz_days_from_civil 2024 2 29) = (2024, 2, 29)"
proof -
  have v: "valid_date (2024, 2, 29)" by (simp add: valid_date_def kz_days_in_month_def kz_is_leap_iff)
  then show ?thesis using civil_days_roundtrip [OF v] by simp
qed

theorem kz_civil_from_days_calendar_witness:
  "kz_civil_from_days 19783 = next_date (kz_civil_from_days 19782)"
  using kz_civil_from_days_calendar [of 19782] by (simp add: day_range_def)

theorem kz_civil_unix_roundtrip_witness:
  "kz_civil_to_unix (kz_civil_from_unix (- 1)) = - 1 \<and> weekday (kz_civil_from_unix (- 1)) = 3"
  using kz_civil_unix_roundtrip [of "- 1"] by (simp add: unix_range_def day_range_def)

end
