(* ===== verification/Kz_Tz.thy ===== *)
theory Kz_Tz
  imports Kz_Civil "HOL-Library.Monad_Syntax"
begin

text \<open>
  Time zones, formatting and preferences: the second half of \<^verbatim>\<open>libs/time/src/kztime.c\<close>.

  A C string is the list of its characters before the terminating NUL (\<open>peek\<close> reads NUL at the end), a
  pointer that may be NULL is an \<open>option\<close>, and the parser functions return the value they store together
  with the advanced pointer, or \<open>None\<close> where the source returns 0.  The formatters return the string left
  in the output buffer, or \<open>None\<close> where they do not touch it.
\<close>

section \<open>Zones\<close>

record kz_zone =
  zid :: string
  zlabel :: string
  zrule :: string

definition zone :: "string \<Rightarrow> string \<Rightarrow> string \<Rightarrow> kz_zone" where
  "zone i l r = \<lparr>zid = i, zlabel = l, zrule = r\<rparr>"

definition g_zones :: "kz_zone list" where
  "g_zones =
    [zone ''Asia/Jakarta'' ''Jakarta'' ''WIB-7'',
     zone ''Asia/Makassar'' ''Makassar'' ''WITA-8'',
     zone ''Asia/Jayapura'' ''Jayapura'' ''WIT-9'',
     zone ''Asia/Singapore'' ''Singapore'' ''SGT-8'',
     zone ''Asia/Tokyo'' ''Tokyo'' ''JST-9'',
     zone ''Asia/Seoul'' ''Seoul'' ''KST-9'',
     zone ''Asia/Shanghai'' ''Shanghai'' ''CST-8'',
     zone ''Asia/Kolkata'' ''New Delhi'' ''IST-5:30'',
     zone ''Asia/Dubai'' ''Dubai'' ''GST-4'',
     zone ''Europe/Istanbul'' ''Istanbul'' ''TRT-3'',
     zone ''Europe/Moscow'' ''Moscow'' ''MSK-3'',
     zone ''Europe/Berlin'' ''Berlin'' ''CET-1CEST,M3.5.0,M10.5.0/3'',
     zone ''Europe/Paris'' ''Paris'' ''CET-1CEST,M3.5.0,M10.5.0/3'',
     zone ''Europe/Rome'' ''Rome'' ''CET-1CEST,M3.5.0,M10.5.0/3'',
     zone ''Europe/Madrid'' ''Madrid'' ''CET-1CEST,M3.5.0,M10.5.0/3'',
     zone ''Europe/Amsterdam'' ''Amsterdam'' ''CET-1CEST,M3.5.0,M10.5.0/3'',
     zone ''Europe/London'' ''London'' ''GMT0BST,M3.5.0/1,M10.5.0/2'',
     zone ''Europe/Lisbon'' ''Lisbon'' ''WET0WEST,M3.5.0/1,M10.5.0/2'',
     zone ''America/New_York'' ''New York'' ''EST5EDT,M3.2.0,M11.1.0'',
     zone ''America/Chicago'' ''Chicago'' ''CST6CDT,M3.2.0,M11.1.0'',
     zone ''America/Denver'' ''Denver'' ''MST7MDT,M3.2.0,M11.1.0'',
     zone ''America/Los_Angeles'' ''Los Angeles'' ''PST8PDT,M3.2.0,M11.1.0'',
     zone ''America/Sao_Paulo'' ''Sao Paulo'' ''BRT3'',
     zone ''America/Mexico_City'' ''Mexico City'' ''CST6'',
     zone ''Africa/Cairo'' ''Cairo'' ''EET-2EEST,M4.5.5/0,M10.5.4/24'',
     zone ''Africa/Johannesburg'' ''Johannesburg'' ''SAST-2'',
     zone ''Africa/Lagos'' ''Lagos'' ''WAT-1'',
     zone ''Asia/Karachi'' ''Karachi'' ''PKT-5'',
     zone ''Australia/Sydney'' ''Sydney'' ''AEST-10AEDT,M10.1.0,M4.1.0/3'',
     zone ''Australia/Perth'' ''Perth'' ''AWST-8'',
     zone ''Pacific/Auckland'' ''Auckland'' ''NZST-12NZDT,M9.5.0,M4.1.0/3'',
     zone ''UTC'' ''UTC'' ''UTC0'']"

text \<open>The character-by-character comparison of the source stops at the first difference or at a NUL.\<close>

fun str_same :: "string \<Rightarrow> string \<Rightarrow> bool" where
  "str_same [] [] = True"
| "str_same (a # as) (b # bs) = (if a = b then str_same as bs else False)"
| "str_same _ _ = False"

fun zone_scan :: "kz_zone list \<Rightarrow> string \<Rightarrow> int \<Rightarrow> int" where
  "zone_scan [] s i = - 1"
| "zone_scan (z # zs) s i = (if str_same (zid z) s then i else zone_scan zs s (i + 1))"

definition kz_zone_find :: "string option \<Rightarrow> int" where
  "kz_zone_find q = (case q of None \<Rightarrow> - 1 | Some s \<Rightarrow> zone_scan g_zones s 0)"

definition kz_zone_default :: int where
  "kz_zone_default = 0"

section \<open>POSIX rules\<close>

record tz_rule =
  rkind :: int
  ra :: int
  rb :: int
  rc :: int
  rseconds :: int

record tz_parsed =
  off_std :: int
  off_dst :: int
  has_dst :: bool
  rstart :: tz_rule
  rend :: tz_rule
  abbr_std :: string
  abbr_dst :: string

definition KZ_TZ_ABBR_MAX :: nat where
  "KZ_TZ_ABBR_MAX = 8"

definition peek :: "string \<Rightarrow> char" where
  "peek s = (case s of [] \<Rightarrow> CHR 0x00 | c # _ \<Rightarrow> c)"

definition is_digit :: "char \<Rightarrow> bool" where
  "is_digit c \<longleftrightarrow> (48 :: nat) \<le> of_char c \<and> of_char c \<le> (57 :: nat)"

definition is_alpha :: "char \<Rightarrow> bool" where
  "is_alpha c \<longleftrightarrow> ((65 :: nat) \<le> of_char c \<and> of_char c \<le> (90 :: nat)) \<or> ((97 :: nat) \<le> of_char c \<and> of_char c \<le> (122 :: nat))"

definition digit_val :: "char \<Rightarrow> int" where
  "digit_val c = of_char c - 48"

fun take_alpha :: "nat \<Rightarrow> string \<Rightarrow> string \<times> string" where
  "take_alpha (Suc n) (c # s) =
     (if is_alpha c then (let (a, s') = take_alpha n s in (c # a, s')) else ([], c # s))"
| "take_alpha _ s = ([], s)"

definition tz_take_abbr :: "nat \<Rightarrow> string \<Rightarrow> (string \<times> string) option" where
  "tz_take_abbr cap s = (let (a, s') = take_alpha (cap - 1) s in if length a \<ge> 3 then Some (a, s') else None)"

text \<open>Digit loops: with the source's limit, and without one (there the 32-bit accumulator wraps).\<close>

fun digits_below :: "int \<Rightarrow> int \<Rightarrow> string \<Rightarrow> int \<times> string" where
  "digits_below lim v [] = (v, [])"
| "digits_below lim v (c # s) =
     (if is_digit c \<and> v < lim then digits_below lim (v * 10 + digit_val c) s else (v, c # s))"

fun digits_wrap :: "int \<Rightarrow> string \<Rightarrow> int \<times> string" where
  "digits_wrap v [] = (v, [])"
| "digits_wrap v (c # s) = (if is_digit c then digits_wrap (s32 (v * 10 + digit_val c)) s else (v, c # s))"

text \<open>\<open>:mm[:ss]\<close> after the hours.\<close>

definition take_min_sec :: "string \<Rightarrow> (int \<times> int \<times> string) option" where
  "take_min_sec s =
     (if peek s = CHR '':'' then
        let s1 = tl s in
        if \<not> is_digit (peek s1) then None
        else let (mm, s2) = digits_wrap 0 s1 in
          if peek s2 = CHR '':'' then
            let s3 = tl s2 in
            if \<not> is_digit (peek s3) then None
            else let (ss, s4) = digits_wrap 0 s3 in Some (mm, ss, s4)
          else Some (mm, 0, s2)
      else Some (0, 0, s))"

definition tz_take_offset :: "string \<Rightarrow> (int \<times> string) option" where
  "tz_take_offset s0 =
     (let neg = (peek s0 = CHR ''-'');
          s = (if peek s0 = CHR ''+'' \<or> peek s0 = CHR ''-'' then tl s0 else s0)
      in if \<not> is_digit (peek s) then None
         else let (h, s1) = digits_below 1000 0 s in
           do { (mm, ss, s2) \<leftarrow> take_min_sec s1;
                if mm > 59 \<or> ss > 59 then None
                else let v = h * 3600 + mm * 60 + ss in Some (if neg then - v else v, s2) })"

definition tz_take_int :: "string \<Rightarrow> (int \<times> string) option" where
  "tz_take_int s = (if \<not> is_digit (peek s) then None else Some (digits_below 100000 0 s))"

text \<open>\<open>Mm.w.d\<close> after the letter.\<close>

definition take_mwd :: "string \<Rightarrow> (int \<times> int \<times> int \<times> string) option" where
  "take_mwd s =
     do { (m, s1) \<leftarrow> tz_take_int s;
          if peek s1 \<noteq> CHR ''.'' then None else
          do { (w, s2) \<leftarrow> tz_take_int (tl s1);
               if peek s2 \<noteq> CHR ''.'' then None else
               do { (d, s3) \<leftarrow> tz_take_int (tl s2);
                    if m < 1 \<or> m > 12 \<or> w < 1 \<or> w > 5 \<or> d < 0 \<or> d > 6 then None
                    else Some (m, w, d, s3) } } }"

definition tz_take_rule :: "string \<Rightarrow> (tz_rule \<times> string) option" where
  "tz_take_rule s =
     do { (r, s') \<leftarrow>
            (if peek s = CHR ''J'' then
               do { (n, s1) \<leftarrow> tz_take_int (tl s);
                    if n < 1 \<or> n > 365 then None
                    else Some (\<lparr>rkind = 0, ra = n, rb = 0, rc = 0, rseconds = 2 * 3600\<rparr>, s1) }
             else if peek s = CHR ''M'' then
               do { (m, w, d, s1) \<leftarrow> take_mwd (tl s);
                    Some (\<lparr>rkind = 2, ra = m, rb = w, rc = d, rseconds = 2 * 3600\<rparr>, s1) }
             else if is_digit (peek s) then
               do { (n, s1) \<leftarrow> tz_take_int s;
                    if n > 365 then None
                    else Some (\<lparr>rkind = 1, ra = n, rb = 0, rc = 0, rseconds = 2 * 3600\<rparr>, s1) }
             else None);
          if peek s' = CHR ''/'' then
            do { (sec, s2) \<leftarrow> tz_take_offset (tl s'); Some (r\<lparr>rseconds := sec\<rparr>, s2) }
          else Some (r, s') }"

definition no_rule :: tz_rule where
  "no_rule = \<lparr>rkind = 0, ra = 0, rb = 0, rc = 0, rseconds = 0\<rparr>"

definition tz_parse :: "string option \<Rightarrow> tz_parsed option" where
  "tz_parse rule =
     do { s \<leftarrow> rule;
          (abbr, s1) \<leftarrow> tz_take_abbr KZ_TZ_ABBR_MAX s;
          (off, s2) \<leftarrow> tz_take_offset s1;
          if s2 = [] then Some \<lparr>off_std = off, off_dst = 0, has_dst = False, rstart = no_rule, rend = no_rule,
                                abbr_std = abbr, abbr_dst = []\<rparr>
          else
          do { (abbr2, s3) \<leftarrow> tz_take_abbr KZ_TZ_ABBR_MAX s2;
               (off2, s4) \<leftarrow> (if peek s3 \<noteq> CHR '','' then tz_take_offset s3 else Some (off - 3600, s3));
               if peek s4 \<noteq> CHR '','' then None else
               do { (st, s5) \<leftarrow> tz_take_rule (tl s4);
                    if peek s5 \<noteq> CHR '','' then None else
                    do { (en, s6) \<leftarrow> tz_take_rule (tl s5);
                         if s6 \<noteq> [] then None
                         else Some \<lparr>off_std = off, off_dst = off2, has_dst = True, rstart = st, rend = en,
                                    abbr_std = abbr, abbr_dst = abbr2\<rparr> } } } }"

section \<open>Transitions\<close>

function clamp_dom :: "int \<Rightarrow> int \<Rightarrow> int" where
  "clamp_dom dm dim = (if dm > dim then clamp_dom (dm - 7) dim else dm)"
  by pat_completeness auto
termination
  by (relation "measure (\<lambda>(dm, dim). nat (dm - dim))") auto

declare clamp_dom.simps [simp del]

definition tz_rule_days :: "tz_rule \<Rightarrow> int \<Rightarrow> int" where
  "tz_rule_days r y =
     (if rkind r = 0 then
        let n = (if kz_is_leap y \<and> ra r \<ge> 60 then ra r + 1 else ra r) in kz_days_from_civil y 1 1 + (n - 1)
      else if rkind r = 1 then kz_days_from_civil y 1 1 + ra r
      else
        let m = ra r;
            wd0 = s32 ((kz_days_from_civil y m 1 + 4) smod 7);
            wd_first = (if wd0 < 0 then wd0 + 7 else wd0);
            dm = 1 + ((rc r - wd_first + 7) smod 7) + (rb r - 1) * 7;
            dim = kz_days_in_month y m
        in kz_days_from_civil y m (clamp_dom dm dim))"

definition tz_transition_utc :: "tz_parsed \<Rightarrow> bool \<Rightarrow> int \<Rightarrow> int" where
  "tz_transition_utc p is_start y =
     (let r = (if is_start then rstart p else rend p);
          local = tz_rule_days r y * 86400 + rseconds r
      in local + (if is_start then off_std p else off_dst p))"

definition kz_tz_is_dst :: "string option \<Rightarrow> int \<Rightarrow> bool" where
  "kz_tz_is_dst rule unix_sec =
     (case tz_parse rule of None \<Rightarrow> False
      | Some p \<Rightarrow>
          if \<not> has_dst p then False
          else let approx = unix_sec - off_std p;
                   (y, m, d) = kz_civil_from_days (approx sdiv 86400);
                   s = tz_transition_utc p True y;
                   e = tz_transition_utc p False y
               in if s < e then unix_sec \<ge> s \<and> unix_sec < e else unix_sec \<ge> s \<or> unix_sec < e)"

definition kz_tz_offset :: "string option \<Rightarrow> int \<Rightarrow> int" where
  "kz_tz_offset rule unix_sec =
     (case tz_parse rule of None \<Rightarrow> 0
      | Some p \<Rightarrow> if has_dst p \<and> kz_tz_is_dst rule unix_sec then - off_dst p else - off_std p)"

definition kz_civil_local :: "string option \<Rightarrow> int \<Rightarrow> kz_civil" where
  "kz_civil_local rule unix_sec = kz_civil_from_unix (unix_sec + kz_tz_offset rule unix_sec)"

section \<open>Formatting\<close>

text \<open>The text written so far has length \<open>k\<close>; \<open>put\<close> keeps the last byte for the NUL of \<open>finish\<close>.\<close>

definition put :: "int \<Rightarrow> string \<Rightarrow> char \<Rightarrow> string" where
  "put cap out c = (if int (length out) < cap - 1 then out @ [c] else out)"

definition digit_char :: "int \<Rightarrow> char" where
  "digit_char v = char_of (48 + v)"

definition put2 :: "int \<Rightarrow> string \<Rightarrow> int \<Rightarrow> string" where
  "put2 cap out v = put cap (put cap out (digit_char ((v sdiv 10) smod 10))) (digit_char (v smod 10))"

definition put_str :: "int \<Rightarrow> string \<Rightarrow> string \<Rightarrow> string" where
  "put_str cap out s = foldl (put cap) out s"

definition clock12 :: "int \<Rightarrow> int" where
  "clock12 hh = (let h = hh smod 12 in if h = 0 then 12 else h)"

definition kz_tz_abbr :: "string option \<Rightarrow> int \<Rightarrow> int \<Rightarrow> string option" where
  "kz_tz_abbr rule unix_sec cap =
     (if cap \<le> 0 then None
      else case tz_parse rule of None \<Rightarrow> Some []
        | Some p \<Rightarrow>
            let src = (if has_dst p \<and> kz_tz_is_dst rule unix_sec then abbr_dst p else abbr_std p)
            in Some (take (nat (cap - 1)) src))"

definition kz_fmt_hhmm :: "int \<Rightarrow> int \<Rightarrow> bool \<Rightarrow> int \<Rightarrow> string option" where
  "kz_fmt_hhmm hh mi hour12 cap =
     (if cap \<le> 0 then None
      else if hour12 then
        Some (put_str cap (put2 cap (put cap (put2 cap [] (clock12 hh)) CHR '':'') mi)
               (if hh < 12 then '' AM'' else '' PM''))
      else Some (put2 cap (put cap (put2 cap [] hh) CHR '':'') mi))"

definition kz_fmt_hhmmss :: "int \<Rightarrow> int \<Rightarrow> int \<Rightarrow> bool \<Rightarrow> int \<Rightarrow> string option" where
  "kz_fmt_hhmmss hh mi se hour12 cap =
     (if cap \<le> 0 then None
      else if hour12 then
        Some (put_str cap
               (put2 cap (put cap (put2 cap (put cap (put2 cap [] (clock12 hh)) CHR '':'') mi) CHR '':'') se)
               (if hh < 12 then '' AM'' else '' PM''))
      else Some (put2 cap (put cap (put2 cap (put cap (put2 cap [] hh) CHR '':'') mi) CHR '':'') se))"

definition name_at :: "string list \<Rightarrow> int \<Rightarrow> string" where
  "name_at ns i = (if i \<ge> 0 \<and> i < int (length ns) then ns ! nat i else [])"

definition kz_weekday_name :: "int \<Rightarrow> string" where
  "kz_weekday_name w = name_at [''Sunday'', ''Monday'', ''Tuesday'', ''Wednesday'', ''Thursday'', ''Friday'', ''Saturday''] w"

definition kz_month_name :: "int \<Rightarrow> string" where
  "kz_month_name m = name_at [''January'', ''February'', ''March'', ''April'', ''May'', ''June'', ''July'', ''August'',
     ''September'', ''October'', ''November'', ''December''] (m - 1)"

definition kz_weekday_abbr :: "int \<Rightarrow> string" where
  "kz_weekday_abbr w = name_at [''Sun'', ''Mon'', ''Tue'', ''Wed'', ''Thu'', ''Fri'', ''Sat''] w"

definition kz_month_abbr :: "int \<Rightarrow> string" where
  "kz_month_abbr m = name_at [''Jan'', ''Feb'', ''Mar'', ''Apr'', ''May'', ''Jun'', ''Jul'', ''Aug'', ''Sep'', ''Oct'',
     ''Nov'', ''Dec''] (m - 1)"

definition put_year :: "int \<Rightarrow> string \<Rightarrow> int \<Rightarrow> string" where
  "put_year cap out y =
     put cap (put cap (put cap (put cap out (digit_char ((y sdiv 1000) smod 10))) (digit_char ((y sdiv 100) smod 10)))
       (digit_char ((y sdiv 10) smod 10))) (digit_char (y smod 10))"

definition kz_fmt_date_long :: "kz_civil option \<Rightarrow> int \<Rightarrow> string option" where
  "kz_fmt_date_long q cap =
     (if cap \<le> 0 then None
      else case q of None \<Rightarrow> Some []
        | Some t \<Rightarrow>
            let o1 = put cap (put_str cap (put_str cap (put_str cap [] (kz_weekday_name (weekday t))) '', '')
                       (kz_month_name (month t))) CHR '' '';
                o2 = (if day t \<ge> 10 then put cap o1 (digit_char ((day t sdiv 10) smod 10)) else o1)
            in Some (put cap o2 (digit_char (day t smod 10))))"

definition kz_fmt_date_short :: "kz_civil option \<Rightarrow> int \<Rightarrow> string option" where
  "kz_fmt_date_short q cap =
     (if cap \<le> 0 then None
      else case q of None \<Rightarrow> Some []
        | Some t \<Rightarrow>
            Some (put_year cap
              (put cap (put_str cap (put cap (put cap [] (digit_char (day t smod 10))) CHR '' '') (kz_month_abbr (month t)))
                CHR '' '') (year t)))"

definition kz_fmt_date_iso :: "kz_civil option \<Rightarrow> int \<Rightarrow> string option" where
  "kz_fmt_date_iso q cap =
     (if cap \<le> 0 then None
      else case q of None \<Rightarrow> Some []
        | Some t \<Rightarrow>
            Some (put2 cap (put cap (put2 cap (put cap (put_year cap [] (year t)) CHR ''-'') (month t)) CHR ''-'') (day t)))"

section \<open>Preferences\<close>

record kz_time_cfg =
  czone :: int
  chour12 :: bool

definition kz_time_cfg_default :: kz_time_cfg where
  "kz_time_cfg_default = \<lparr>czone = kz_zone_default, chour12 = False\<rparr>"

definition KZ_TIME_CFG_LEN :: int where
  "KZ_TIME_CFG_LEN = 6"

definition kz_time_cfg_encode :: "kz_time_cfg option \<Rightarrow> char list" where
  "kz_time_cfg_encode q =
     (let cfg = (case q of None \<Rightarrow> kz_time_cfg_default | Some c \<Rightarrow> c)
      in [CHR ''K'', CHR ''Z'', CHR ''T'', CHR ''1'',
          char_of (if czone cfg < 0 then 0 else czone cfg),
          char_of (if chour12 cfg then 1 else 0 :: int)])"

definition kz_time_cfg_decode :: "char list option \<Rightarrow> int \<Rightarrow> kz_time_cfg" where
  "kz_time_cfg_decode buf n =
     (case buf of
        Some (t0 # t1 # t2 # t3 # z # h # _) \<Rightarrow>
          if n \<noteq> KZ_TIME_CFG_LEN \<or> t0 \<noteq> CHR ''K'' \<or> t1 \<noteq> CHR ''Z'' \<or> t2 \<noteq> CHR ''T'' \<or> t3 \<noteq> CHR ''1''
          then kz_time_cfg_default
          else let zi = of_char z :: int in
            \<lparr>czone = (if zi \<ge> 0 \<and> zi < int (length g_zones) then zi else kz_zone_default),
             chour12 = odd (of_char h :: int)\<rparr>
      | _ \<Rightarrow> kz_time_cfg_default)"

section \<open>Bounds of the formatters\<close>

named_theorems fmt_bound \<open>the text stays below the capacity\<close>

lemma put_bound [fmt_bound]: "int (length out) < cap \<Longrightarrow> int (length (put cap out c)) < cap"
  by (simp add: put_def)

lemma put2_bound [fmt_bound]: "int (length out) < cap \<Longrightarrow> int (length (put2 cap out v)) < cap"
  by (simp add: put2_def put_bound)

lemma put_str_bound [fmt_bound]: "int (length out) < cap \<Longrightarrow> int (length (put_str cap out s)) < cap"
  unfolding put_str_def by (induction s arbitrary: out) (simp_all add: put_bound)

lemma put_year_bound [fmt_bound]: "int (length out) < cap \<Longrightarrow> int (length (put_year cap out y)) < cap"
  by (simp add: put_year_def put_bound)

lemma put_fits: "int (length out) < cap - 1 \<Longrightarrow> put cap out c = out @ [c]"
  by (simp add: put_def)

lemma put2_fits: "int (length out) + 1 < cap - 1 \<Longrightarrow>
    put2 cap out v = out @ [digit_char ((v sdiv 10) smod 10), digit_char (v smod 10)]"
  by (simp add: put2_def put_def)

lemma digit_val_char: "0 \<le> v \<Longrightarrow> v < 10 \<Longrightarrow> digit_val (digit_char v) = v"
  by (simp add: digit_val_def digit_char_def of_char_of)

lemma two_digits:
  assumes "0 \<le> v" and "v < 100"
  shows "10 * digit_val (digit_char ((v sdiv 10) smod 10)) + digit_val (digit_char (v smod 10)) = v"
proof -
  have "0 \<le> v div 10" "v div 10 < 10" using assms by (simp_all add: pos_imp_zdiv_nonneg_iff div_pos_less)
  then show ?thesis using assms by (simp add: sdiv_nonneg smod_nonneg digit_val_char)
qed

section \<open>Transition days\<close>

lemma clamp_dom_id: "d \<le> n \<Longrightarrow> clamp_dom d n = d"
  by (subst clamp_dom.simps) simp

lemma clamp_dom_last:
  "n < d + 7 \<Longrightarrow> n < clamp_dom d n + 7 \<and> clamp_dom d n \<le> max n d \<and> (clamp_dom d n \<le> n)
     \<and> clamp_dom d n mod 7 = d mod 7"
proof (induction d n rule: clamp_dom.induct)
  case (1 d n)
  show ?case
  proof (cases "d > n")
    case True
    have "(d - 7) mod 7 = d mod 7" by (metis minus_mod_self2)
    then show ?thesis using 1 True by (subst (1 2 3 4) clamp_dom.simps) auto
  next
    case False
    then show ?thesis using 1 by (simp add: clamp_dom_id)
  qed
qed

lemma weekday_shift:
  fixes a c k :: int
  assumes "0 \<le> c" and "c < 7"
  shows "(a + ((c - a mod 7 + 7) mod 7) + 7 * k) mod 7 = c"
proof -
  have "(a + ((c - a mod 7 + 7) mod 7) + 7 * k) mod 7 = (a + (c - a mod 7 + 7)) mod 7"
    by (simp only: mod_mult_self2 mod_add_right_eq)
  also have "a + (c - a mod 7 + 7) = c + 7 * (a div 7 + 1)"
    by (simp add: minus_mod_eq_mult_div)
  also have "\<dots> mod 7 = c" using assms by (simp only: mod_mult_self2) simp
  finally show ?thesis .
qed

lemma kz_days_in_month_le: "1 \<le> m \<Longrightarrow> m \<le> 12 \<Longrightarrow> kz_days_in_month y m \<le> 31"
  by (drule (1) month_cases, elim disjE) (simp_all add: kz_days_in_month_def month_days_def)

lemma kz_days_from_civil_day: "1 \<le> m \<Longrightarrow> m \<le> 12 \<Longrightarrow> kz_days_from_civil y m d = kz_days_from_civil y m 1 + (d - 1)"
  by (simp add: days_from_civil_parts)

lemma tz_rule_days_mwd:
  assumes "rkind r = 2" and "0 \<le> rc r" and "rc r \<le> 6"
  shows "tz_rule_days r y = kz_days_from_civil y (ra r)
    (clamp_dom (1 + (rc r - (kz_days_from_civil y (ra r) 1 + 4) mod 7 + 7) mod 7 + (rb r - 1) * 7) (kz_days_in_month y (ra r)))"
proof -
  define k where "k = kz_days_from_civil y (ra r) 1 + 4"
  have wd: "(if s32 (k smod 7) < 0 then s32 (k smod 7) + 7 else s32 (k smod 7)) = k mod 7"
    using trunc_floor_mod [of 7 k] pos_mod_bound [of 7 k] pos_mod_sign [of 7 k]
    by (auto simp: s32_id split: if_splits)
  have "(rc r - k mod 7 + 7) smod 7 = (rc r - k mod 7 + 7) mod 7"
    using assms pos_mod_bound [of 7 k] by (intro smod_nonneg) auto
  then show ?thesis
    unfolding tz_rule_days_def Let_def k_def [symmetric] wd using assms(1) by simp
qed

section \<open>Properties\<close>

text \<open>A rule \<open>Mm.w.d\<close> denotes the day the standard says: a day of month \<open>m\<close> that is a
  weekday \<open>d\<close>, the \<open>w\<close>-th such day of the month for \<open>w < 5\<close> and the last one for \<open>w = 5\<close>.\<close>

theorem tz_rule_days_nth_weekday:
  assumes k: "rkind r = 2" and m: "1 \<le> ra r" "ra r \<le> 12" and w: "1 \<le> rb r" "rb r \<le> 5" and c: "0 \<le> rc r" "rc r \<le> 6"
  shows "\<exists>d. tz_rule_days r y = kz_days_from_civil y (ra r) d \<and> valid_date (y, ra r, d)
    \<and> (tz_rule_days r y + 4) mod 7 = rc r
    \<and> (if rb r < 5 then 7 * (rb r - 1) < d \<and> d \<le> 7 * rb r else kz_days_in_month y (ra r) < d + 7)"
proof -
  define a off n where "a = kz_days_from_civil y (ra r) 1 + 4" and "off = (rc r - a mod 7 + 7) mod 7"
    and "n = kz_days_in_month y (ra r)"
  define d0 d where "d0 = 1 + off + (rb r - 1) * 7" and "d = clamp_dom d0 n"
  have off: "0 \<le> off" "off < 7" by (simp_all add: off_def)
  have n: "28 \<le> n" "n \<le> 31"
    using kz_days_in_month_pos [OF m] kz_days_in_month_le [OF m] by (simp_all add: n_def)
  have e: "tz_rule_days r y = kz_days_from_civil y (ra r) d"
    using tz_rule_days_mwd [OF k c] by (simp only: d_def d0_def off_def a_def n_def)
  have d: "1 \<le> d" "d \<le> n" "d mod 7 = d0 mod 7"
    "if rb r < 5 then 7 * (rb r - 1) < d \<and> d \<le> 7 * rb r else n < d + 7"
  proof -
    have "rb r < 5 \<Longrightarrow> d = d0" using n off unfolding d_def by (intro clamp_dom_id) (simp add: d0_def)
    moreover have "rb r = 5 \<Longrightarrow> n < d + 7 \<and> d \<le> n \<and> d mod 7 = d0 mod 7"
      using n off clamp_dom_last [of n d0] by (simp add: d_def d0_def)
    ultimately show "1 \<le> d" "d \<le> n" "d mod 7 = d0 mod 7"
      "if rb r < 5 then 7 * (rb r - 1) < d \<and> d \<le> 7 * rb r else n < d + 7"
      using w off n by (cases "rb r < 5"; simp add: d0_def)+
  qed
  have "(tz_rule_days r y + 4) mod 7 = (a - 1 + d) mod 7"
    using e kz_days_from_civil_day [OF m, of y d] by (simp add: a_def add.commute add.left_commute)
  also have "\<dots> = (a - 1 + d0) mod 7" using d(3) by (rule mod_add_cong [OF refl])
  also have "a - 1 + d0 = a + off + 7 * (rb r - 1)" by (simp add: d0_def)
  also have "\<dots> mod 7 = rc r" unfolding off_def using c by (intro weekday_shift) auto
  finally have "(tz_rule_days r y + 4) mod 7 = rc r" .
  moreover have "valid_date (y, ra r, d)" using d m by (simp add: valid_date_def n_def)
  ultimately show ?thesis using e d(4) n_def by blast
qed

text \<open>Every zone of the built-in table is usable: its identifier is found at its own index,
  its rule parses, both abbreviations are within the buffer, and a rule with daylight saving time uses
  month-week-day transitions.\<close>

theorem zone_table_usable:
  "list_all (\<lambda>i. kz_zone_find (Some (zid (g_zones ! nat i))) = i
     \<and> (case tz_parse (Some (zrule (g_zones ! nat i))) of None \<Rightarrow> False
        | Some p \<Rightarrow> 3 \<le> length (abbr_std p) \<and> length (abbr_std p) < KZ_TZ_ABBR_MAX
            \<and> length (abbr_dst p) < KZ_TZ_ABBR_MAX
            \<and> (if has_dst p then rkind (rstart p) = 2 \<and> rkind (rend p) = 2 else abbr_dst p = [])))
     [0..31] \<and> length g_zones = 32"
  by code_simp

text \<open>No formatter writes past its buffer: the text it leaves, with the terminating NUL, fits
  the capacity it was given.\<close>

theorem formatters_within_capacity:
  assumes "0 < cap"
  shows "(\<exists>s. kz_fmt_hhmm h mi f cap = Some s \<and> int (length s) < cap)
    \<and> (\<exists>s. kz_fmt_hhmmss h mi se f cap = Some s \<and> int (length s) < cap)
    \<and> (\<exists>s. kz_fmt_date_long q cap = Some s \<and> int (length s) < cap)
    \<and> (\<exists>s. kz_fmt_date_short q cap = Some s \<and> int (length s) < cap)
    \<and> (\<exists>s. kz_fmt_date_iso q cap = Some s \<and> int (length s) < cap)
    \<and> (\<exists>s. kz_tz_abbr rule t cap = Some s \<and> int (length s) < cap)"
  using assms
  by (auto simp: kz_fmt_hhmm_def kz_fmt_hhmmss_def kz_fmt_date_long_def kz_fmt_date_short_def kz_fmt_date_iso_def
      kz_tz_abbr_def Let_def fmt_bound min_def split: option.splits)

text \<open>The 24-hour clock text of a time of day has the form \<open>hh:mm\<close> and its digits read back
  as the hour and the minute.\<close>

theorem kz_fmt_hhmm_reads_back:
  assumes "0 \<le> h" and "h < 24" and "0 \<le> mi" and "mi < 60" and "6 \<le> cap"
  shows "\<exists>a b c d. kz_fmt_hhmm h mi False cap = Some [a, b, CHR '':'', c, d]
    \<and> 10 * digit_val a + digit_val b = h \<and> 10 * digit_val c + digit_val d = mi"
  using assms two_digits [of h] two_digits [of mi] by (simp add: kz_fmt_hhmm_def put2_fits put_fits)

text \<open>Decoding an encoded preference gives the preference back when its zone is in the table,
  and every input, however damaged, decodes to a zone of the table.\<close>

theorem kz_time_cfg_roundtrip:
  assumes "0 \<le> czone cfg" and "czone cfg < int (length g_zones)"
  shows "kz_time_cfg_decode (Some (kz_time_cfg_encode (Some cfg))) KZ_TIME_CFG_LEN = cfg
    \<and> 0 \<le> czone (kz_time_cfg_decode buf n) \<and> czone (kz_time_cfg_decode buf n) < int (length g_zones)"
proof -
  have z: "czone cfg < 32" using assms by (simp add: g_zones_def)
  have "(of_char (char_of (czone cfg) :: char) :: int) = czone cfg"
    using assms z by (simp add: of_char_of)
  then have "kz_time_cfg_decode (Some (kz_time_cfg_encode (Some cfg))) KZ_TIME_CFG_LEN = cfg"
    using assms by (cases cfg) (auto simp: kz_time_cfg_decode_def kz_time_cfg_encode_def KZ_TIME_CFG_LEN_def of_char_of)
  moreover have "0 \<le> czone (kz_time_cfg_decode buf n)" "czone (kz_time_cfg_decode buf n) < int (length g_zones)"
    by (auto simp: kz_time_cfg_decode_def kz_time_cfg_default_def kz_zone_default_def g_zones_def Let_def
        split: option.splits list.splits)
  ultimately show ?thesis by blast
qed

text \<open>The short date keeps only the last digit of the day: the 13th prints like the 3rd.\<close>

lemma kz_fmt_date_short_drops_tens:
  "kz_fmt_date_short (Some (t\<lparr>day := 13\<rparr>)) cap = kz_fmt_date_short (Some (t\<lparr>day := 3\<rparr>)) cap"
  by (simp add: kz_fmt_date_short_def smod_nonneg)

section \<open>Witnesses\<close>

theorem tz_rule_days_nth_weekday_witness:
  "\<exists>d. tz_rule_days \<lparr>rkind = 2, ra = 3, rb = 5, rc = 0, rseconds = 7200\<rparr> 2026 = kz_days_from_civil 2026 3 d
     \<and> valid_date (2026, 3, d) \<and> kz_days_in_month 2026 3 < d + 7"
  using tz_rule_days_nth_weekday [of "\<lparr>rkind = 2, ra = 3, rb = 5, rc = 0, rseconds = 7200\<rparr>" 2026] by auto

theorem formatters_within_capacity_witness:
  "\<exists>s. kz_fmt_hhmm 13 15 True 4 = Some s \<and> int (length s) < 4"
  using formatters_within_capacity [of 4 13 15 True 0 None None 0] by simp

theorem kz_fmt_hhmm_reads_back_witness:
  "\<exists>a b c d. kz_fmt_hhmm 13 5 False 6 = Some [a, b, CHR '':'', c, d]
     \<and> 10 * digit_val a + digit_val b = 13 \<and> 10 * digit_val c + digit_val d = 5"
  using kz_fmt_hhmm_reads_back [of 13 5 6] by simp

theorem kz_time_cfg_roundtrip_witness:
  "kz_time_cfg_decode (Some (kz_time_cfg_encode (Some \<lparr>czone = 18, chour12 = True\<rparr>))) KZ_TIME_CFG_LEN
     = \<lparr>czone = 18, chour12 = True\<rparr>"
  using kz_time_cfg_roundtrip [of "\<lparr>czone = 18, chour12 = True\<rparr>"] by (simp add: g_zones_def)

end
