(* ===== verification/Kz_Ring.thy ===== *)
theory Kz_Ring
  imports Kz_Base
begin

text \<open>
  Circular buffers.  The kernel keeps bytes of a pipe and events of a task in arrays that wrap around; this
  theory relates such an array to the list of items it holds, and states the contract of a bounded
  first-in-first-out queue that the clients rely on.
\<close>

section \<open>The items of a circular array\<close>

definition ring_items :: "'a list \<Rightarrow> nat \<Rightarrow> nat \<Rightarrow> 'a list" where
  "ring_items buf r n = map (\<lambda>i. buf ! ((r + i) mod length buf)) [0..<n]"

lemma length_ring_items [simp]: "length (ring_items buf r n) = n"
  by (simp add: ring_items_def)

lemma ring_items_0 [simp]: "ring_items buf r 0 = []"
  by (simp add: ring_items_def)

lemma ring_pos_inj:
  assumes "i < cap" and "j < cap" and "(r + i) mod cap = (r + j) mod (cap :: nat)"
  shows "i = j"
proof -
  obtain a b where ab: "r + i + cap * a = r + j + cap * b" using assms(3) nat_mod_eq_iff by blast
  have "\<not> a < b"
  proof
    assume "a < b"
    then have "cap * Suc a \<le> cap * b" by (intro mult_le_mono2) simp
    then show False using ab assms(1) by simp
  qed
  moreover have "\<not> b < a"
  proof
    assume "b < a"
    then have "cap * Suc b \<le> cap * a" by (intro mult_le_mono2) simp
    then show False using ab assms(2) by simp
  qed
  ultimately show ?thesis using ab by simp
qed

lemma ring_put:
  assumes "n < length buf"
  shows "ring_items (buf[(r + n) mod length buf := x]) r (Suc n) = ring_items buf r n @ [x]"
proof (rule nth_equalityI)
  fix i assume i: "i < length (ring_items (buf[(r + n) mod length buf := x]) r (Suc n))"
  have pos: "0 < length buf" using assms by linarith
  show "ring_items (buf[(r + n) mod length buf := x]) r (Suc n) ! i = (ring_items buf r n @ [x]) ! i"
  proof (cases "i = n")
    case True
    then show ?thesis using pos by (simp add: ring_items_def nth_append del: upt_Suc)
  next
    case False
    then have "i < n" using i by simp
    moreover have "(r + i) mod length buf \<noteq> (r + n) mod length buf"
      using ring_pos_inj [of i "length buf" n r] assms False \<open>i < n\<close> by auto
    ultimately show ?thesis by (simp add: ring_items_def nth_append del: upt_Suc)
  qed
qed simp

lemma ring_get: "ring_items buf r (Suc n) = buf ! (r mod length buf) # ring_items buf (Suc r mod length buf) n"
proof -
  have "(Suc r mod length buf + i) mod length buf = (r + Suc i) mod length buf" for i
    by (simp add: mod_simps)
  then show ?thesis by (simp add: ring_items_def upt_conv_Cons map_Suc_upt [symmetric] del: upt_Suc)
qed

lemma ring_items_cong_mod: "ring_items buf (r mod length buf) n = ring_items buf r n"
  by (simp add: ring_items_def mod_simps)

section \<open>Bounded queues\<close>

locale bounded_fifo =
  fixes put :: "'a \<Rightarrow> 'q \<Rightarrow> 'q"
    and get :: "'q \<Rightarrow> 'a option \<times> 'q"
    and inv :: "'q \<Rightarrow> bool"
    and items :: "'q \<Rightarrow> 'a list"
    and cap :: nat
  assumes room: "inv q \<Longrightarrow> length (items q) \<le> cap"
    and put_law: "inv q \<Longrightarrow> length (items q) < cap \<Longrightarrow> inv (put x q) \<and> items (put x q) = items q @ [x]"
    and get_law: "inv q \<Longrightarrow> get q = (r, q') \<Longrightarrow>
      inv q' \<and> (case items q of [] \<Rightarrow> r = None \<and> q' = q | x # xs \<Rightarrow> r = Some x \<and> items q' = xs)"
begin

text \<open>Filling and draining.\<close>

definition put_all :: "'a list \<Rightarrow> 'q \<Rightarrow> 'q" where
  "put_all xs q = fold put xs q"

fun get_n :: "nat \<Rightarrow> 'q \<Rightarrow> 'a list \<times> 'q" where
  "get_n 0 q = ([], q)"
| "get_n (Suc n) q =
     (case get q of (None, q') \<Rightarrow> ([], q') | (Some x, q') \<Rightarrow> let (xs, q'') = get_n n q' in (x # xs, q''))"

lemma put_all_law:
  assumes "inv q" and "length (items q) + length xs \<le> cap"
  shows "inv (put_all xs q) \<and> items (put_all xs q) = items q @ xs"
  using assms
proof (induction xs arbitrary: q)
  case (Cons x xs)
  then have "inv (put x q)" "items (put x q) = items q @ [x]" using put_law [of q x] by simp_all
  then show ?case using Cons.IH [of "put x q"] Cons.prems by (simp add: put_all_def)
qed (simp add: put_all_def)

lemma get_n_law:
  assumes "inv q" and "get_n n q = (xs, q')"
  shows "inv q' \<and> xs = take n (items q) \<and> items q' = drop n (items q)"
  using assms
proof (induction n arbitrary: q xs q')
  case (Suc n)
  obtain r q1 where g: "get q = (r, q1)" by fastforce
  note l = get_law [OF Suc.prems(1) g]
  show ?case
  proof (cases "items q")
    case Nil
    then show ?thesis using Suc.prems g l by simp
  next
    case (Cons x rest)
    then have r: "r = Some x" "items q1 = rest" "inv q1" using l by simp_all
    obtain ys q2 where n: "get_n n q1 = (ys, q2)" by fastforce
    then show ?thesis using Suc.IH [OF r(3) n] Suc.prems(2) g r Cons by simp
  qed
qed simp

text \<open>What goes in comes out, in order.\<close>

lemma fifo:
  assumes "inv q" and "items q = []" and "length xs \<le> cap"
  shows "fst (get_n (length xs) (put_all xs q)) = xs"
proof -
  obtain ys q' where g: "get_n (length xs) (put_all xs q) = (ys, q')" by fastforce
  have "inv (put_all xs q)" "items (put_all xs q) = xs" using put_all_law [of q xs] assms by simp_all
  then show ?thesis using get_n_law [OF _ g] g by simp
qed

end

text \<open>A queue that makes room by dropping its oldest item.\<close>

locale lossy_fifo = bounded_fifo +
  assumes put_full: "inv q \<Longrightarrow> length (items q) = cap \<Longrightarrow> 0 < cap \<Longrightarrow> inv (put x q) \<and> items (put x q) = tl (items q) @ [x]"
begin

text \<open>After any number of insertions the queue holds the most recent items.\<close>

lemma keeps_latest:
  assumes "inv q" and "0 < cap"
  shows "inv (put_all xs q) \<and> items (put_all xs q) = drop (length (items q) + length xs - cap) (items q @ xs)"
  using assms(1)
proof (induction xs rule: rev_induct)
  case Nil
  then show ?case using room [of q] by (simp add: put_all_def)
next
  case (snoc x xs)
  define p where "p = put_all xs q"
  have p: "inv p" "items p = drop (length (items q) + length xs - cap) (items q @ xs)" using snoc by (simp_all add: p_def)
  have e: "put_all (xs @ [x]) q = put x p" by (simp add: put_all_def p_def)
  show ?case
  proof (cases "length (items p) < cap")
    case True
    then have "length (items q) + length xs < cap" using p(2) by simp
    then show ?thesis using put_law [OF p(1) True, of x] p(2) e by simp
  next
    case False
    then have full: "length (items p) = cap" using room [OF p(1)] by simp
    then have c: "cap \<le> length (items q) + length xs" using p(2) by simp
    define l m where "l = items q @ xs" and "m = length l - cap"
    have "tl (drop m l) = drop (Suc m) l" by (simp add: drop_Suc tl_drop)
    moreover have "Suc m = length (items q) + length (xs @ [x]) - cap" using c by (simp add: m_def l_def)
    moreover have "drop (Suc m) (l @ [x]) = drop (Suc m) l @ [x]" using c assms(2) by (simp add: m_def l_def)
    ultimately show ?thesis using put_full [OF p(1) full assms(2), of x] p(2) e by (simp add: l_def m_def)
  qed
qed

end

end
