(* ===== verification/Event.thy ===== *)
theory Event
  imports Kz_Ring
begin

text \<open>
  The per-task event queues of \<^verbatim>\<open>kernel/sync/event.c\<close>: input events are pushed by interrupt handlers and
  popped by system calls.  Every operation runs under one lock, so each is one step on the queues.
\<close>

section \<open>Queues\<close>

definition EVENT_QUEUE_SIZE :: nat where "EVENT_QUEUE_SIZE = 64"

record kyuzen_event =
  ev_type :: nat
  ev_param1 :: int
  ev_param2 :: int
  ev_param3 :: int
  ev_win_id :: int

record event_queues =
  task_queues :: "nat \<Rightarrow> kyuzen_event list"
  eq_head :: "nat \<Rightarrow> nat"
  eq_tail :: "nat \<Rightarrow> nat"

definition valid_task :: "int \<Rightarrow> bool" where
  "valid_task task_id \<longleftrightarrow> \<not> (task_id < 0 \<or> task_id \<ge> int MAX_TASKS)"

definition push_event_to :: "int \<Rightarrow> kyuzen_event \<Rightarrow> event_queues \<Rightarrow> event_queues" where
  "push_event_to task_id e q =
     (if \<not> valid_task task_id then q
      else
        let t = nat task_id;
            next_head = (eq_head q t + 1) mod EVENT_QUEUE_SIZE;
            q1 = (if next_head = eq_tail q t then q\<lparr>eq_tail := (eq_tail q)(t := (eq_tail q t + 1) mod EVENT_QUEUE_SIZE)\<rparr> else q)
        in q1\<lparr>task_queues := (task_queues q1)(t := (task_queues q1 t)[eq_head q1 t := e]),
              eq_head := (eq_head q1)(t := next_head)\<rparr>)"

definition pop_event :: "int \<Rightarrow> event_queues \<Rightarrow> kyuzen_event option \<times> event_queues" where
  "pop_event task_id q =
     (if \<not> valid_task task_id then (None, q)
      else
        let t = nat task_id in
        if eq_head q t = eq_tail q t then (None, q)
        else (Some (task_queues q t ! eq_tail q t), q\<lparr>eq_tail := (eq_tail q)(t := (eq_tail q t + 1) mod EVENT_QUEUE_SIZE)\<rparr>))"

definition flush_event_queue :: "int \<Rightarrow> event_queues \<Rightarrow> event_queues" where
  "flush_event_queue task_id q =
     (if \<not> valid_task task_id then q
      else let t = nat task_id in q\<lparr>eq_head := (eq_head q)(t := 0), eq_tail := (eq_tail q)(t := 0)\<rparr>)"

section \<open>The queue of a task\<close>

definition ev_used :: "nat \<Rightarrow> event_queues \<Rightarrow> nat" where
  "ev_used t q = (eq_head q t + 64 - eq_tail q t) mod 64"

definition ev_items :: "nat \<Rightarrow> event_queues \<Rightarrow> kyuzen_event list" where
  "ev_items t q = ring_items (task_queues q t) (eq_tail q t) (ev_used t q)"

definition ev_inv :: "nat \<Rightarrow> event_queues \<Rightarrow> bool" where
  "ev_inv t q \<longleftrightarrow> t < MAX_TASKS \<and> length (task_queues q t) = 64 \<and> eq_head q t < 64 \<and> eq_tail q t < 64"

lemma used_step:
  assumes "h < 64" and "l < (64 :: nat)"
  shows "(l + (h + 64 - l) mod 64) mod 64 = h"
    and "(h + 64 - l) mod 64 = 63 \<longleftrightarrow> (h + 1) mod 64 = l"
    and "(h + 64 - l) mod 64 < 63 \<Longrightarrow> ((h + 1) mod 64 + 64 - l) mod 64 = Suc ((h + 64 - l) mod 64)"
    and "h \<noteq> l \<Longrightarrow> (h + 64 - l) mod 64 = Suc ((h + 64 - (l + 1) mod 64) mod 64)"
    and "(h + 64 - l) mod 64 = 0 \<longleftrightarrow> h = l"
proof -
  have d: "(h + 64 - l) mod 64 = (if l \<le> h then h - l else h + 64 - l)"
    using assms by (auto simp: mod_if)
  have s: "(x + 1) mod 64 = (if x = 63 then 0 else x + 1)" if "x < 64" for x :: nat using that by (simp add: mod_Suc)
  show "(l + (h + 64 - l) mod 64) mod 64 = h" using assms unfolding d by (auto simp: mod_if)
  show "(h + 64 - l) mod 64 = 63 \<longleftrightarrow> (h + 1) mod 64 = l" using assms unfolding d s [OF assms(1)] by auto
  show "(h + 64 - l) mod 64 = 0 \<longleftrightarrow> h = l" using assms unfolding d by auto
  show "(h + 64 - l) mod 64 < 63 \<Longrightarrow> ((h + 1) mod 64 + 64 - l) mod 64 = Suc ((h + 64 - l) mod 64)"
    using assms unfolding d s [OF assms(1)] by (auto simp: mod_if split: if_splits)
  show "h \<noteq> l \<Longrightarrow> (h + 64 - l) mod 64 = Suc ((h + 64 - (l + 1) mod 64) mod 64)"
    using assms unfolding d s [OF assms(2)] by (auto simp: mod_if split: if_splits)
qed

lemma valid_nat [simp]: "t < MAX_TASKS \<Longrightarrow> valid_task (int t)"
  by (simp add: valid_task_def)

lemma push_room:
  assumes inv: "ev_inv t q" and room: "ev_used t q < 63"
  shows "ev_inv t (push_event_to (int t) e q) \<and> ev_items t (push_event_to (int t) e q) = ev_items t q @ [e]"
proof -
  define h l b where "h = eq_head q t" and "l = eq_tail q t" and "b = task_queues q t"
  have i: "t < MAX_TASKS" "h < 64" "l < 64" "length b = 64" using inv by (simp_all add: ev_inv_def h_def l_def b_def)
  have nf: "(h + 1) mod 64 \<noteq> l" using used_step(2) [OF i(2,3)] room by (auto simp: ev_used_def h_def l_def)
  define q' where "q' = push_event_to (int t) e q"
  have q': "task_queues q' t = b[h := e]" "eq_head q' t = (h + 1) mod 64" "eq_tail q' t = l"
    using i nf by (simp_all add: q'_def push_event_to_def Let_def EVENT_QUEUE_SIZE_def h_def l_def b_def)
  have u: "ev_used t q = (h + 64 - l) mod 64" by (simp add: ev_used_def h_def l_def)
  have "ev_used t q' = Suc (ev_used t q)" using used_step(3) [OF i(2,3)] room unfolding u by (simp add: ev_used_def q')
  moreover have "(l + ev_used t q) mod length b = h" using used_step(1) [OF i(2,3)] i(4) by (simp add: u)
  ultimately have "ev_items t q' = ev_items t q @ [e]"
    using ring_put [of "ev_used t q" b l e] room i(4) by (simp add: ev_items_def q' b_def [symmetric] l_def [symmetric])
  then show ?thesis using i by (simp add: ev_inv_def q' q'_def [symmetric])
qed

lemma pop_one:
  assumes inv: "ev_inv t q" and p: "pop_event (int t) q = (r, q')"
  shows "ev_inv t q' \<and> (case ev_items t q of [] \<Rightarrow> r = None \<and> q' = q | x # xs \<Rightarrow> r = Some x \<and> ev_items t q' = xs)"
proof -
  define h l b where "h = eq_head q t" and "l = eq_tail q t" and "b = task_queues q t"
  have i: "t < MAX_TASKS" "h < 64" "l < 64" "length b = 64" using inv by (simp_all add: ev_inv_def h_def l_def b_def)
  have u: "ev_used t q = (h + 64 - l) mod 64" by (simp add: ev_used_def h_def l_def)
  have it: "ev_items t q = ring_items b l (ev_used t q)" by (simp add: ev_items_def l_def b_def)
  show ?thesis
  proof (cases "h = l")
    case True
    then have "r = None" "q' = q" using p i by (simp_all add: pop_event_def h_def l_def)
    then show ?thesis using inv True by (simp add: it u)
  next
    case False
    then have r: "r = Some (b ! l)" "q' = q\<lparr>eq_tail := (eq_tail q)(t := (l + 1) mod 64)\<rparr>"
      using p i by (auto simp: pop_event_def Let_def h_def l_def b_def EVENT_QUEUE_SIZE_def)
    have n: "ev_used t q = Suc (ev_used t q')" using used_step(4) [OF i(2,3) False] unfolding u by (simp add: ev_used_def r(2) h_def)
    have "ev_items t q = b ! l # ring_items b ((l + 1) mod 64) (ev_used t q')"
      using ring_get [of b l "ev_used t q'"] i(3,4) by (simp add: it n)
    then show ?thesis using i r by (simp add: ev_items_def ev_inv_def h_def l_def b_def)
  qed
qed

lemma push_full:
  assumes inv: "ev_inv t q" and full: "ev_used t q = 63"
  shows "ev_inv t (push_event_to (int t) e q) \<and> ev_items t (push_event_to (int t) e q) = tl (ev_items t q) @ [e]"
proof -
  obtain r q1 where p: "pop_event (int t) q = (r, q1)" by fastforce
  note po = pop_one [OF inv p]
  have i: "t < MAX_TASKS" "eq_head q t < 64" "eq_tail q t < 64" using inv by (simp_all add: ev_inv_def)
  have ne: "eq_head q t \<noteq> eq_tail q t" using full used_step(5) [OF i(2,3)] by (auto simp: ev_used_def)
  then have q1: "q1 = q\<lparr>eq_tail := (eq_tail q)(t := (eq_tail q t + 1) mod EVENT_QUEUE_SIZE)\<rparr>" using p i by (auto simp: pop_event_def Let_def)
  have len: "length (ev_items t q) = 63" using full by (simp add: ev_items_def)
  then have it: "ev_inv t q1" "ev_items t q1 = tl (ev_items t q)" using po by (auto split: list.splits)
  then have "length (ev_items t q1) = 62" using len by simp
  then have room: "ev_used t q1 < 63" by (simp add: ev_items_def)
  have nx: "(eq_head q t + 1) mod 64 = eq_tail q t" using full used_step(2) [OF i(2,3)] by (simp add: ev_used_def)
  have "(eq_head q t + 1) mod 64 \<noteq> (eq_tail q t + 1) mod 64" using i(2,3) ne by (auto simp: mod_Suc split: if_splits)
  then have "push_event_to (int t) e q = push_event_to (int t) e q1"
    using i nx by (simp add: push_event_to_def Let_def q1 EVENT_QUEUE_SIZE_def)
  then show ?thesis using push_room [OF it(1) room, of e] it(2) by simp
qed

lemma ev_used_bound: "ev_inv t q \<Longrightarrow> ev_used t q \<le> 63"
  using mod_less_divisor [of 64 "eq_head q t + 64 - eq_tail q t"] by (simp add: ev_used_def)

interpretation ev: lossy_fifo "push_event_to (int t)" "pop_event (int t)" "ev_inv t" "ev_items t" 63 for t
proof
  fix q r q' x
  show "ev_inv t q \<Longrightarrow> length (ev_items t q) \<le> 63" using ev_used_bound by (simp add: ev_items_def)
  show "ev_inv t q \<Longrightarrow> length (ev_items t q) < 63 \<Longrightarrow>
      ev_inv t (push_event_to (int t) x q) \<and> ev_items t (push_event_to (int t) x q) = ev_items t q @ [x]"
    using push_room by (simp add: ev_items_def)
  show "ev_inv t q \<Longrightarrow> pop_event (int t) q = (r, q') \<Longrightarrow>
      ev_inv t q' \<and> (case ev_items t q of [] \<Rightarrow> r = None \<and> q' = q | x # xs \<Rightarrow> r = Some x \<and> ev_items t q' = xs)"
    by (rule pop_one)
  show "ev_inv t q \<Longrightarrow> length (ev_items t q) = 63 \<Longrightarrow> 0 < (63 :: nat) \<Longrightarrow>
      ev_inv t (push_event_to (int t) x q) \<and> ev_items t (push_event_to (int t) x q) = tl (ev_items t q) @ [x]"
    using push_full by (simp add: ev_items_def)
qed

section \<open>Properties\<close>

fun pop_n :: "nat \<Rightarrow> nat \<Rightarrow> event_queues \<Rightarrow> kyuzen_event list \<times> event_queues" where
  "pop_n 0 t q = ([], q)"
| "pop_n (Suc n) t q =
     (case pop_event (int t) q of (None, q') \<Rightarrow> ([], q') | (Some e, q') \<Rightarrow> let (es, q'') = pop_n n t q' in (e # es, q''))"

lemma pop_n_get_n: "pop_n n t q = ev.get_n t n q"
  by (induction n arbitrary: q) (auto split: prod.splits option.splits)

lemma push_other: "t' \<noteq> t \<Longrightarrow> ev_items t' (push_event_to (int t) e q) = ev_items t' q"
  by (simp add: push_event_to_def Let_def ev_items_def ev_used_def)

text \<open>The event queue of a task.  After a flush, any sequence of events pushed for the task comes out in
  order, except that when more than 63 are waiting the oldest are dropped; the queues of the other tasks keep their
  events.\<close>

theorem event_queue_keeps_latest:
  assumes "ev_inv t q"
  shows "fst (pop_n 63 t (fold (push_event_to (int t)) es (flush_event_queue (int t) q))) = drop (length es - 63) es
    \<and> (\<forall>t'. t' \<noteq> t \<longrightarrow> ev_items t' (fold (push_event_to (int t)) es (flush_event_queue (int t) q)) = ev_items t' q)"
proof -
  define q0 where "q0 = flush_event_queue (int t) q"
  have t: "t < MAX_TASKS" using assms by (simp add: ev_inv_def)
  have q0: "ev_inv t q0" "ev_items t q0 = []"
    using assms t by (simp_all add: q0_def flush_event_queue_def Let_def ev_inv_def ev_items_def ev_used_def)
  define q1 where "q1 = fold (push_event_to (int t)) es q0"
  have q1: "ev_inv t q1" "ev_items t q1 = drop (length es - 63) es"
    using ev.keeps_latest [OF q0(1), of es] q0(2) by (simp_all add: q1_def ev.put_all_def)
  obtain xs q2 where g: "pop_n 63 t q1 = (xs, q2)" by fastforce
  then have "xs = take 63 (ev_items t q1)" using ev.get_n_law [OF q1(1)] by (simp add: pop_n_get_n)
  moreover have "ev_items t' q1 = ev_items t' q" if "t' \<noteq> t" for t'
  proof -
    have "ev_items t' (fold (push_event_to (int t)) es p) = ev_items t' p" for p
      by (induction es arbitrary: p) (simp_all add: push_other [OF that])
    moreover have "ev_items t' q0 = ev_items t' q"
      using that t by (simp add: q0_def flush_event_queue_def Let_def ev_items_def ev_used_def)
    ultimately show ?thesis by (simp add: q1_def)
  qed
  ultimately show ?thesis using g q1(2) by (simp add: q1_def q0_def)
qed

definition no_event :: kyuzen_event where
  "no_event = \<lparr>ev_type = 0, ev_param1 = 0, ev_param2 = 0, ev_param3 = 0, ev_win_id = 0\<rparr>"

definition empty_queues :: event_queues where
  "empty_queues = \<lparr>task_queues = \<lambda>_. replicate 64 no_event, eq_head = \<lambda>_. 0, eq_tail = \<lambda>_. 0\<rparr>"

theorem event_queue_keeps_latest_witness:
  "fst (pop_n 63 2 (fold (push_event_to 2) [no_event, no_event\<lparr>ev_type := 1\<rparr>] (flush_event_queue 2 empty_queues)))
     = [no_event, no_event\<lparr>ev_type := 1\<rparr>]"
  using event_queue_keeps_latest [of 2 empty_queues "[no_event, no_event\<lparr>ev_type := 1\<rparr>]"]
  by (simp add: ev_inv_def empty_queues_def MAX_TASKS_def)

end
