(* ===== verification/Ata.thy ===== *)
theory Ata
  imports Kz_Base
begin

text \<open>
  The disk driver, \<^verbatim>\<open>drivers/ata.c\<close>.

  The device behind the I/O ports is the record \<open>ata\<close>: the sectors it stores, the status its polling
  loops see (\<open>busy\<close> when BSY never clears, \<open>rd_drq\<close> and \<open>wr_drq\<close> the code \<open>ata_wait_drq\<close> ends with for a
  sector, \<open>flush_ok\<close> whether the cache flush after a write completes) and the answer to IDENTIFY.  The
  driver functions are modelled over it; a command addresses the low 28 bits of the LBA, which is what
  the drive register and the three address registers transfer.
\<close>

section \<open>Device and driver\<close>

record ata =
  sectors :: "nat \<Rightarrow> byte list"
  busy :: bool
  rd_drq :: "nat \<Rightarrow> int"
  wr_drq :: "nat \<Rightarrow> int"
  flush_ok :: "nat \<Rightarrow> bool"
  ident_status :: nat
  ident_words :: "nat \<Rightarrow> nat"
  ident_drq :: int
  batch_path :: bool

definition lba28 :: "nat \<Rightarrow> nat" where
  "lba28 lba = lba mod 268435456"

definition ata_wait_bsy :: "ata \<Rightarrow> int" where
  "ata_wait_bsy d = (if busy d then - 1 else 0)"

definition ata_read_sector :: "nat \<Rightarrow> ata \<Rightarrow> int \<times> byte list" where
  "ata_read_sector lba d =
     (if ata_wait_bsy d \<noteq> 0 then (- 1, [])
      else let drq = rd_drq d (lba28 lba) in
        if drq \<noteq> 0 then (drq, []) else (0, sectors d (lba28 lba)))"

definition ata_write_sector :: "nat \<Rightarrow> byte list \<Rightarrow> ata \<Rightarrow> int \<times> ata" where
  "ata_write_sector lba buf d =
     (if ata_wait_bsy d \<noteq> 0 then (- 1, d)
      else let drq = wr_drq d (lba28 lba) in
        if drq \<noteq> 0 then (drq, d)
        else (if flush_ok d (lba28 lba) then 0 else - 1, d\<lparr>sectors := (sectors d)(lba28 lba := buf)\<rparr>))"

definition ata_get_total_sectors :: "ata \<Rightarrow> nat" where
  "ata_get_total_sectors d =
     (if ident_status d = 0 \<or> ident_status d = 255 then 0
      else if ident_drq d \<noteq> 0 then 0
      else let w = ident_words d in
        if odd (w 83 div 1024) \<and> (w 102 \<noteq> 0 \<or> w 103 \<noteq> 0) then
          let lba48 = w 100 + w 101 * 65536 + w 102 * 4294967296 + w 103 * 281474976710656
          in if lba48 > 4294967295 then 4294967295 else u32 lba48
        else u32 (w 60 + w 61 * 65536))"

definition KZFS_BLOCK_SECTORS :: nat where
  "KZFS_BLOCK_SECTORS = 8"

definition ATA_READ_BATCH_MAX_SECTORS :: nat where
  "ATA_READ_BATCH_MAX_SECTORS = 8"

definition ata_read_path_set :: "bool \<Rightarrow> ata \<Rightarrow> ata" where
  "ata_read_path_set batch d = d\<lparr>batch_path := batch\<rparr>"

text \<open>One command for several sectors: the loop polls before each sector and stops at the first error.\<close>

fun batch_loop :: "nat \<Rightarrow> nat \<Rightarrow> byte list \<Rightarrow> ata \<Rightarrow> int \<times> byte list" where
  "batch_loop lba 0 acc d = (0, acc)"
| "batch_loop lba (Suc n) acc d =
     (let rc = rd_drq d lba in
      if rc \<noteq> 0 then (if rc = - 3 then - 3 else - 2, acc)
      else batch_loop (lba + 1) n (acc @ sectors d lba) d)"

definition ata_read_sectors_batched :: "nat \<Rightarrow> nat \<Rightarrow> ata \<Rightarrow> int \<times> byte list" where
  "ata_read_sectors_batched lba count d =
     (if count = 0 \<or> count > ATA_READ_BATCH_MAX_SECTORS then (- 1, [])
      else if lba > 268435455 \<or> u32 (lba + count - 1) > 268435455 then (- 4, [])
      else if ata_wait_bsy d \<noteq> 0 then (- 3, [])
      else batch_loop lba count [] d)"

text \<open>The sector-at-a-time loop of the legacy path and of the range primitive.\<close>

fun sector_loop :: "nat \<Rightarrow> nat \<Rightarrow> byte list \<Rightarrow> ata \<Rightarrow> int \<times> byte list" where
  "sector_loop lba 0 acc d = (0, acc)"
| "sector_loop lba (Suc n) acc d =
     (let (rc, bs) = ata_read_sector lba d in
      if rc \<noteq> 0 then (rc, acc) else sector_loop (u32 (lba + 1)) n (acc @ bs) d)"

function range_loop :: "nat \<Rightarrow> nat \<Rightarrow> byte list \<Rightarrow> ata \<Rightarrow> int \<times> byte list" where
  "range_loop lba count acc d =
     (if count = 0 then (0, acc)
      else let n = (if count > ATA_READ_BATCH_MAX_SECTORS then ATA_READ_BATCH_MAX_SECTORS else count);
               (rc, bs) = ata_read_sectors_batched lba n d
           in if rc \<noteq> 0 then (rc, acc @ bs) else range_loop (u32 (lba + n)) (count - n) (acc @ bs) d)"
  by pat_completeness auto
termination
  by (relation "measure (\<lambda>(lba, count, acc, d). count)") (auto simp: ATA_READ_BATCH_MAX_SECTORS_def)

declare range_loop.simps [simp del]

definition ata_read_range :: "nat \<Rightarrow> nat \<Rightarrow> ata \<Rightarrow> int \<times> byte list" where
  "ata_read_range lba count d =
     (if count = 0 then (- 1, [])
      else if \<not> batch_path d then sector_loop lba count [] d
      else range_loop lba count [] d)"

definition ata_read_block4k_legacy :: "nat \<Rightarrow> ata \<Rightarrow> int \<times> byte list" where
  "ata_read_block4k_legacy block_num d =
     sector_loop (u32 (block_num * KZFS_BLOCK_SECTORS)) KZFS_BLOCK_SECTORS [] d"

definition ata_read_block4k :: "nat \<Rightarrow> ata \<Rightarrow> int \<times> byte list" where
  "ata_read_block4k block_num d =
     (if batch_path d then ata_read_range (u32 (block_num * KZFS_BLOCK_SECTORS)) KZFS_BLOCK_SECTORS d
      else ata_read_block4k_legacy block_num d)"

fun write_loop :: "nat \<Rightarrow> nat \<Rightarrow> byte list \<Rightarrow> ata \<Rightarrow> int \<times> ata" where
  "write_loop lba 0 p d = (0, d)"
| "write_loop lba (Suc n) p d =
     (let (rc, d') = ata_write_sector lba (take 512 p) d in
      if rc \<noteq> 0 then (rc, d') else write_loop (u32 (lba + 1)) n (drop 512 p) d')"

definition ata_write_block4k :: "nat \<Rightarrow> byte list \<Rightarrow> ata \<Rightarrow> int \<times> ata" where
  "ata_write_block4k block_num buf d =
     write_loop (u32 (block_num * KZFS_BLOCK_SECTORS)) KZFS_BLOCK_SECTORS buf d"

section \<open>Blocks of the device\<close>

text \<open>
  A block number below \<open>2 ^ 25\<close> has all its sectors within 28-bit addressing; there distinct blocks have
  distinct sectors.
\<close>

definition dev_block :: "nat \<Rightarrow> bool" where
  "dev_block b \<longleftrightarrow> b < 33554432"

definition dev_wf :: "ata \<Rightarrow> bool" where
  "dev_wf d \<longleftrightarrow> (\<forall>a. length (sectors d a) = 512)"

definition disk_block :: "ata \<Rightarrow> nat \<Rightarrow> byte list" where
  "disk_block d b = concat (map (\<lambda>s. sectors d (b * 8 + s)) [0..<8])"

lemma length_concat_sectors: "dev_wf d \<Longrightarrow> length (concat (map (\<lambda>s. sectors d (a + s)) [0..<n])) = n * 512"
  by (induction n) (auto simp: dev_wf_def)

lemma length_disk_block [simp]: "dev_wf d \<Longrightarrow> length (disk_block d b) = 4096"
  by (simp add: disk_block_def length_concat_sectors)

lemma sector_concat_shift:
  "sectors d a @ concat (map (\<lambda>s. sectors d (Suc a + s)) [0..<n]) = concat (map (\<lambda>s. sectors d (a + s)) [0..<Suc n])"
proof -
  have "[0..<Suc n] = 0 # map Suc [0..<n]" by (simp add: map_Suc_upt upt_conv_Cons)
  then show ?thesis by (simp add: comp_def)
qed

lemma sector_loop_ok:
  "lba + n \<le> 268435456 \<Longrightarrow> sector_loop lba n acc d = (0, bs) \<Longrightarrow>
     bs = acc @ concat (map (\<lambda>s. sectors d (lba + s)) [0..<n])"
proof (induction n arbitrary: lba acc)
  case 0
  then show ?case by simp
next
  case (Suc n)
  then have r: "ata_read_sector lba d = (0, sectors d lba)" "u32 (lba + 1) = lba + 1"
    by (auto simp: ata_read_sector_def lba28_def Let_def u32_id split: if_splits)
  with Suc.prems(2) have "sector_loop (lba + 1) n (acc @ sectors d lba) d = (0, bs)" by simp
  then have "bs = (acc @ sectors d lba) @ concat (map (\<lambda>s. sectors d (lba + 1 + s)) [0..<n])"
    using Suc.prems(1) by (intro Suc.IH) simp_all
  then show ?case using sector_concat_shift [of d lba n] by simp
qed

lemma batch_loop_ok:
  "batch_loop lba n acc d = (0, bs) \<Longrightarrow> bs = acc @ concat (map (\<lambda>s. sectors d (lba + s)) [0..<n])"
proof (induction n arbitrary: lba acc)
  case 0
  then show ?case by simp
next
  case (Suc n)
  then have "batch_loop (lba + 1) n (acc @ sectors d lba) d = (0, bs)"
    by (auto simp: Let_def split: if_splits)
  then have "bs = (acc @ sectors d lba) @ concat (map (\<lambda>s. sectors d (lba + 1 + s)) [0..<n])" by (rule Suc.IH)
  then show ?case using sector_concat_shift [of d lba n] by simp
qed

text \<open>Both loops succeed on the same devices.\<close>

lemma sector_loop_status:
  "lba + n \<le> 268435456 \<Longrightarrow> fst (sector_loop lba n acc d) = 0 \<longleftrightarrow> n = 0 \<or> (\<not> busy d \<and> (\<forall>s < n. rd_drq d (lba + s) = 0))"
proof (induction n arbitrary: lba acc)
  case 0
  then show ?case by simp
next
  case (Suc n)
  have a: "lba28 lba = lba" "u32 (lba + 1) = lba + 1" using Suc.prems by (simp_all add: lba28_def u32_id)
  have "(\<forall>s < Suc n. rd_drq d (lba + s) = 0) \<longleftrightarrow> rd_drq d lba = 0 \<and> (\<forall>s < n. rd_drq d (lba + 1 + s) = 0)"
    by (auto simp: less_Suc_eq_0_disj)
  then show ?case
    using Suc.IH [of "lba + 1"] Suc.prems a by (auto simp: ata_read_sector_def ata_wait_bsy_def Let_def)
qed

lemma batch_loop_status: "fst (batch_loop lba n acc d) = 0 \<longleftrightarrow> (\<forall>s < n. rd_drq d (lba + s) = 0)"
proof (induction n arbitrary: lba acc)
  case 0
  then show ?case by simp
next
  case (Suc n)
  have "(\<forall>s < Suc n. rd_drq d (lba + s) = 0) \<longleftrightarrow> rd_drq d lba = 0 \<and> (\<forall>s < n. rd_drq d (lba + 1 + s) = 0)"
    by (auto simp: less_Suc_eq_0_disj)
  then show ?case using Suc.IH [of "lba + 1"] by (auto simp: Let_def)
qed

lemma block_lba: "dev_block b \<Longrightarrow> u32 (b * KZFS_BLOCK_SECTORS) = b * 8 \<and> b * 8 + 8 \<le> 268435456"
  by (simp add: dev_block_def KZFS_BLOCK_SECTORS_def u32_id)

lemma range_one_batch:
  "dev_block b \<Longrightarrow> batch_path d \<Longrightarrow>
     ata_read_block4k b d = (if busy d then (- 3, []) else batch_loop (b * 8) 8 [] d)"
  using block_lba [of b]
  by (simp add: ata_read_block4k_def ata_read_range_def KZFS_BLOCK_SECTORS_def range_loop.simps [of _ 8]
      range_loop.simps [of _ 0] ata_read_sectors_batched_def ATA_READ_BATCH_MAX_SECTORS_def ata_wait_bsy_def u32_id
      split: prod.splits)

lemma ata_read_block4k_ok:
  assumes "dev_block b" and "ata_read_block4k b d = (0, bs)"
  shows "bs = disk_block d b"
proof (cases "batch_path d")
  case True
  then show ?thesis
    using assms range_one_batch [OF assms(1) True] batch_loop_ok [of "b * 8" 8 "[]" d bs]
    by (simp add: disk_block_def split: if_splits)
next
  case False
  then show ?thesis
    using assms block_lba [OF assms(1)] sector_loop_ok [of "b * 8" 8 "[]" d bs]
    by (simp add: disk_block_def ata_read_block4k_def ata_read_block4k_legacy_def KZFS_BLOCK_SECTORS_def)
qed

lemma sector_loop_length: "dev_wf d \<Longrightarrow> length (snd (sector_loop lba n acc d)) \<le> length acc + n * 512"
proof (induction n arbitrary: lba acc)
  case (Suc n)
  then show ?case
    using Suc.IH [of "u32 (lba + 1)" "acc @ snd (ata_read_sector lba d)"]
    by (auto simp: ata_read_sector_def Let_def dev_wf_def split: if_splits)
qed simp

lemma batch_loop_length: "dev_wf d \<Longrightarrow> length (snd (batch_loop lba n acc d)) \<le> length acc + n * 512"
proof (induction n arbitrary: lba acc)
  case (Suc n)
  then show ?case using Suc.IH [of "lba + 1" "acc @ sectors d lba"] by (auto simp: Let_def dev_wf_def)
qed simp

lemma read_length:
  assumes "dev_wf d" and "dev_block b" and "ata_read_block4k b d = (rc, bs)"
  shows "length bs \<le> 4096"
proof (cases "batch_path d")
  case True
  then show ?thesis
    using assms range_one_batch [OF assms(2) True] batch_loop_length [of d "b * 8" 8 "[]"]
    by (cases "busy d") (simp_all add: prod_eq_iff)
next
  case False
  then show ?thesis
    using assms sector_loop_length [of d "u32 (b * KZFS_BLOCK_SECTORS)" 8 "[]"]
    by (simp add: ata_read_block4k_def ata_read_block4k_legacy_def KZFS_BLOCK_SECTORS_def)
qed

lemma write_loop_spec:
  assumes "lba + n \<le> 268435456" and "length p = n * 512" and "write_loop lba n p d = (rc, d')"
  shows "(\<forall>a. a < lba \<or> lba + n \<le> a \<longrightarrow> sectors d' a = sectors d a) \<and> (dev_wf d \<longrightarrow> dev_wf d')
    \<and> d' = d\<lparr>sectors := sectors d'\<rparr> \<and> (rc = 0 \<longrightarrow> concat (map (\<lambda>s. sectors d' (lba + s)) [0..<n]) = p)"
  using assms
proof (induction n arbitrary: lba p d)
  case 0
  then show ?case by simp
next
  case (Suc n)
  have a: "lba28 lba = lba" "u32 (lba + 1) = Suc lba" using Suc.prems(1) by (simp_all add: lba28_def u32_id)
  have len: "length (take 512 p) = 512" using Suc.prems(2) by simp
  obtain rc1 d1 where w: "ata_write_sector lba (take 512 p) d = (rc1, d1)" by (cases "ata_write_sector lba (take 512 p) d")
  have d1: "\<forall>a. a \<noteq> lba \<longrightarrow> sectors d1 a = sectors d a" "dev_wf d \<longrightarrow> dev_wf d1" "d1 = d\<lparr>sectors := sectors d1\<rparr>"
    "rc1 = 0 \<longrightarrow> sectors d1 lba = take 512 p"
    using w a len by (auto simp: ata_write_sector_def Let_def dev_wf_def split: if_splits)
  show ?case
  proof (cases "rc1 = 0")
    case False
    then show ?thesis using Suc.prems(3) w d1 by (auto simp: Let_def)
  next
    case True
    then have wl: "write_loop (Suc lba) n (drop 512 p) d1 = (rc, d')" using Suc.prems(3) w a by (simp add: Let_def)
    note ih = Suc.IH [OF _ _ wl]
    have ih: "\<forall>a. a < Suc lba \<or> Suc lba + n \<le> a \<longrightarrow> sectors d' a = sectors d1 a" "dev_wf d1 \<longrightarrow> dev_wf d'"
      "d' = d1\<lparr>sectors := sectors d'\<rparr>" "rc = 0 \<longrightarrow> concat (map (\<lambda>s. sectors d' (Suc lba + s)) [0..<n]) = drop 512 p"
      using ih Suc.prems(1,2) by simp_all
    have "sectors d' lba = take 512 p" using ih(1) d1(4) True by simp
    then have "rc = 0 \<longrightarrow> concat (map (\<lambda>s. sectors d' (lba + s)) [0..<Suc n]) = p"
      using ih(4) sector_concat_shift [of d' lba n] by (metis append_take_drop_id)
    moreover have "d' = d\<lparr>sectors := sectors d'\<rparr>"
      using ih(3) d1(3) by (metis ata.surjective ata.update_convs(1))
    ultimately show ?thesis using ih(1,2) d1(1,2) by auto
  qed
qed

lemma disk_block_other:
  assumes "\<forall>a. a < b * 8 \<or> b * 8 + 8 \<le> a \<longrightarrow> sectors d' a = sectors d a" and "b' \<noteq> b"
  shows "disk_block d' b' = disk_block d b'"
proof -
  have "sectors d' (b' * 8 + s) = sectors d (b' * 8 + s)" if "s < 8" for s
    using assms that by (cases "b' < b") auto
  then show ?thesis unfolding disk_block_def by (intro arg_cong [where f = concat] map_cong) auto
qed

text \<open>What a block write does: other blocks and the status behaviour stay, success stores the data.\<close>

lemma ata_write_block4k_spec:
  assumes "dev_block b" and "length buf = 4096" and "ata_write_block4k b buf d = (rc, d')"
  shows "dev_wf d \<Longrightarrow> dev_wf d'" and "\<And>b'. b' \<noteq> b \<Longrightarrow> disk_block d' b' = disk_block d b'"
    and "rc = 0 \<Longrightarrow> disk_block d' b = buf" and "d' = d\<lparr>sectors := sectors d'\<rparr>"
proof -
  have "write_loop (b * 8) 8 buf d = (rc, d')"
    using assms block_lba [OF assms(1)] by (simp add: ata_write_block4k_def KZFS_BLOCK_SECTORS_def)
  then have *: "(\<forall>a. a < b * 8 \<or> b * 8 + 8 \<le> a \<longrightarrow> sectors d' a = sectors d a) \<and> (dev_wf d \<longrightarrow> dev_wf d')
    \<and> d' = d\<lparr>sectors := sectors d'\<rparr> \<and> (rc = 0 \<longrightarrow> concat (map (\<lambda>s. sectors d' (b * 8 + s)) [0..<8]) = buf)"
    using assms block_lba [OF assms(1)] by (intro write_loop_spec) simp_all
  then show "dev_wf d \<Longrightarrow> dev_wf d'" "rc = 0 \<Longrightarrow> disk_block d' b = buf" "d' = d\<lparr>sectors := sectors d'\<rparr>"
    unfolding disk_block_def by blast+
  show "\<And>b'. b' \<noteq> b \<Longrightarrow> disk_block d' b' = disk_block d b'" using * disk_block_other by blast
qed

text \<open>A device on which every write completes.\<close>

definition dev_writes_ok :: "ata \<Rightarrow> bool" where
  "dev_writes_ok d \<longleftrightarrow> \<not> busy d \<and> wr_drq d = (\<lambda>_. 0) \<and> flush_ok d = (\<lambda>_. True)"

definition dev_reads_ok :: "ata \<Rightarrow> bool" where
  "dev_reads_ok d \<longleftrightarrow> \<not> busy d \<and> rd_drq d = (\<lambda>_. 0)"

lemma write_loop_fields: "busy (snd (write_loop lba n p d)) = busy d \<and> rd_drq (snd (write_loop lba n p d)) = rd_drq d
    \<and> wr_drq (snd (write_loop lba n p d)) = wr_drq d \<and> flush_ok (snd (write_loop lba n p d)) = flush_ok d"
proof (induction n arbitrary: lba p d)
  case (Suc n)
  have "busy (snd (ata_write_sector lba (take 512 p) d)) = busy d" "rd_drq (snd (ata_write_sector lba (take 512 p) d)) = rd_drq d"
    "wr_drq (snd (ata_write_sector lba (take 512 p) d)) = wr_drq d" "flush_ok (snd (ata_write_sector lba (take 512 p) d)) = flush_ok d"
    by (simp_all add: ata_write_sector_def Let_def)
  then show ?case using Suc.IH by (cases "ata_write_sector lba (take 512 p) d") (simp add: Let_def)
qed simp

lemma write_loop_good: "dev_writes_ok d \<Longrightarrow> fst (write_loop lba n p d) = 0 \<and> dev_writes_ok (snd (write_loop lba n p d))
    \<and> dev_reads_ok (snd (write_loop lba n p d)) = dev_reads_ok d"
proof -
  assume d: "dev_writes_ok d"
  have "fst (write_loop lba n p d) = 0"
    using d by (induction n arbitrary: lba p d)
      (simp_all add: ata_write_sector_def ata_wait_bsy_def Let_def dev_writes_ok_def)
  then show ?thesis using d write_loop_fields [of lba n p d] by (simp add: dev_writes_ok_def dev_reads_ok_def)
qed

lemma ata_write_good: "dev_writes_ok d \<Longrightarrow> fst (ata_write_block4k b buf d) = 0 \<and> dev_writes_ok (snd (ata_write_block4k b buf d))"
  by (simp add: ata_write_block4k_def write_loop_good)

lemma ata_read_good: "dev_reads_ok d \<Longrightarrow> dev_block b \<Longrightarrow> fst (ata_read_block4k b d) = 0"
  using sector_loop_status [of "b * 8" 8 "[]" d] batch_loop_status [of "b * 8" 8 "[]" d] block_lba [of b] range_one_batch [of b d]
  by (cases "batch_path d")
    (simp_all add: dev_reads_ok_def ata_read_block4k_def ata_read_block4k_legacy_def KZFS_BLOCK_SECTORS_def)

section \<open>Properties\<close>


text \<open>A block that was written successfully reads back as written whenever the read succeeds,
  and the write changes no other block.\<close>

theorem ata_write_then_read:
  assumes "dev_block b" and "length buf = 4096" and "ata_write_block4k b buf d = (0, d')"
    and "ata_read_block4k b d' = (0, bs)"
  shows "bs = buf \<and> (\<forall>b'. b' \<noteq> b \<longrightarrow> disk_block d' b' = disk_block d b')"
  using ata_write_block4k_spec [OF assms(1-3)] ata_read_block4k_ok [OF assms(1,4)] by simp

section \<open>Witnesses\<close>

definition good_disk :: ata where
  "good_disk = \<lparr>sectors = \<lambda>_. replicate 512 0, busy = False, rd_drq = \<lambda>_. 0, wr_drq = \<lambda>_. 0, flush_ok = \<lambda>_. True,
     ident_status = 80, ident_words = \<lambda>_. 0, ident_drq = 0, batch_path = False\<rparr>"


lemma good_disk_ok: "dev_wf good_disk" "dev_writes_ok good_disk" "dev_reads_ok good_disk"
  by (simp_all add: good_disk_def dev_wf_def dev_writes_ok_def dev_reads_ok_def)

theorem ata_write_then_read_witness:
  "\<exists>d' bs. ata_write_block4k 5 (replicate 4096 7) good_disk = (0, d') \<and> ata_read_block4k 5 d' = (0, bs)
     \<and> bs = replicate 4096 7"
proof -
  obtain rc d' where w: "ata_write_block4k 5 (replicate 4096 7) good_disk = (rc, d')"
    by (cases "ata_write_block4k 5 (replicate 4096 7) good_disk")
  have g: "rc = 0" "dev_reads_ok d'"
    using write_loop_good [OF good_disk_ok(2), of "u32 (5 * KZFS_BLOCK_SECTORS)" KZFS_BLOCK_SECTORS "replicate 4096 7"] w good_disk_ok(3)
    by (simp_all add: ata_write_block4k_def)
  obtain rc2 bs where r: "ata_read_block4k 5 d' = (rc2, bs)" by (cases "ata_read_block4k 5 d'")
  have "rc2 = 0" using ata_read_good [OF g(2), of 5] r by (simp add: dev_block_def)
  then show ?thesis
    using ata_write_then_read [of 5 "replicate 4096 7" good_disk d' bs] w r g by (simp add: dev_block_def)
qed

end
