(* ===== verification/Bcache.thy ===== *)
theory Bcache
  imports Ata
begin

text \<open>
  The block cache, \<^verbatim>\<open>kernel/fs/bcache.c\<close>: a write-back cache of 4 KB blocks over the disk driver.

  The pool is a list of \<open>block_buffer\<close> records; a pointer into it is its index.  The hash chains and the
  doubly linked LRU list are the lists of the indices they link, in order (head of the LRU list is the most
  recently used entry).  The spinlock makes each operation one atomic step.

  \<open>cached_view\<close> is the contract: the content of a block as its users see it, whatever is cached.  The
  \<open>block_store\<close> interface states what the file system relies on, and the cache interprets it.
\<close>

section \<open>State and operations\<close>

definition BCACHE_BLOCK_SIZE :: nat where
  "BCACHE_BLOCK_SIZE = 4096"

definition BCACHE_N_BLOCKS :: nat where
  "BCACHE_N_BLOCKS = 256"

definition BCACHE_HASH_SIZE :: nat where
  "BCACHE_HASH_SIZE = 256"

record block_buffer =
  block_num :: nat
  refcount :: nat
  dirty :: bool
  valid :: bool
  data :: "byte list"

record bcache =
  pool :: "block_buffer list"
  hash_table :: "nat \<Rightarrow> nat list"
  lru :: "nat list"
  stat_hit :: nat
  stat_miss :: nat
  disk :: ata

definition set_buf :: "nat \<Rightarrow> block_buffer \<Rightarrow> bcache \<Rightarrow> bcache" where
  "set_buf i b c = c\<lparr>pool := (pool c)[i := b]\<rparr>"

definition zero_buffer :: block_buffer where
  "zero_buffer = \<lparr>block_num = 0, refcount = 0, dirty = False, valid = False, data = replicate BCACHE_BLOCK_SIZE 0\<rparr>"

definition bcache_init :: "bool \<Rightarrow> bcache \<Rightarrow> int \<times> bcache" where
  "bcache_init kmalloc_ok c =
     (if pool c \<noteq> [] then (0, c)
      else if \<not> kmalloc_ok then (- 1, c)
      else (0, c\<lparr>pool := replicate BCACHE_N_BLOCKS zero_buffer, lru := [], hash_table := (\<lambda>_. [])\<rparr>))"

definition lru_unlink :: "nat \<Rightarrow> bcache \<Rightarrow> bcache" where
  "lru_unlink i c = c\<lparr>lru := remove1 i (lru c)\<rparr>"

definition lru_push_front :: "nat \<Rightarrow> bcache \<Rightarrow> bcache" where
  "lru_push_front i c =
     (let c1 = (if i \<in> set (lru c) then lru_unlink i c else c) in c1\<lparr>lru := i # lru c1\<rparr>)"

definition lru_touch :: "nat \<Rightarrow> bcache \<Rightarrow> bcache" where
  "lru_touch i c =
     (if lru c \<noteq> [] \<and> hd (lru c) = i then c else lru_push_front i (lru_unlink i c))"

definition bhash :: "nat \<Rightarrow> nat" where
  "bhash block = block mod BCACHE_HASH_SIZE"

definition hash_find :: "nat \<Rightarrow> bcache \<Rightarrow> nat option" where
  "hash_find block c =
     find (\<lambda>i. valid (pool c ! i) \<and> block_num (pool c ! i) = block) (hash_table c (bhash block))"

definition hash_insert :: "nat \<Rightarrow> bcache \<Rightarrow> bcache" where
  "hash_insert i c =
     (let h = bhash (block_num (pool c ! i)) in c\<lparr>hash_table := (hash_table c)(h := i # hash_table c h)\<rparr>)"

definition hash_remove :: "nat \<Rightarrow> bcache \<Rightarrow> bcache" where
  "hash_remove i c =
     (let h = bhash (block_num (pool c ! i)) in c\<lparr>hash_table := (hash_table c)(h := remove1 i (hash_table c h))\<rparr>)"

definition free_slot :: "bcache \<Rightarrow> nat option" where
  "free_slot c =
     find (\<lambda>i. \<not> valid (pool c ! i) \<and> \<not> dirty (pool c ! i) \<and> refcount (pool c ! i) = 0) [0..<BCACHE_N_BLOCKS]"

definition evict_entry :: "nat \<Rightarrow> bcache \<Rightarrow> bcache" where
  "evict_entry i c =
     (let c1 = lru_unlink i (hash_remove i c) in set_buf i ((pool c1 ! i)\<lparr>valid := False\<rparr>) c1)"

text \<open>The scan from the LRU tail: skip pinned entries, write dirty ones back, skip those whose write fails.\<close>

fun evict_scan :: "nat list \<Rightarrow> bcache \<Rightarrow> nat option \<times> bcache" where
  "evict_scan [] c = (None, c)"
| "evict_scan (i # is) c =
     (let b = pool c ! i in
      if refcount b > 0 then evict_scan is c
      else if dirty b then
        (let (rc, d') = ata_write_block4k (block_num b) (data b) (disk c);
             c1 = c\<lparr>disk := d'\<rparr>
         in if rc \<noteq> 0 then evict_scan is c1
            else (Some i, evict_entry i (set_buf i (b\<lparr>dirty := False\<rparr>) c1)))
      else (Some i, evict_entry i c))"

definition alloc_entry_locked :: "bcache \<Rightarrow> nat option \<times> bcache" where
  "alloc_entry_locked c =
     (case free_slot c of Some i \<Rightarrow> (Some i, c) | None \<Rightarrow> evict_scan (rev (lru c)) c)"

definition cache_hit :: "nat \<Rightarrow> bcache \<Rightarrow> bcache" where
  "cache_hit i c =
     (let c1 = c\<lparr>stat_hit := u64 (stat_hit c + 1)\<rparr>;
          b = pool c1 ! i
      in lru_touch i (set_buf i (b\<lparr>refcount := u32 (refcount b + 1)\<rparr>) c1))"

definition bcache_get :: "nat \<Rightarrow> bcache \<Rightarrow> nat option \<times> bcache" where
  "bcache_get block c =
     (case hash_find block c of
        Some i \<Rightarrow> (Some i, cache_hit i c)
      | None \<Rightarrow>
          let (r, c1) = alloc_entry_locked (c\<lparr>stat_miss := u64 (stat_miss c + 1)\<rparr>) in
          case r of None \<Rightarrow> (None, c1)
          | Some i \<Rightarrow>
              let b = (pool c1 ! i)\<lparr>block_num := block, refcount := 1, dirty := False, valid := True\<rparr>
              in (Some i, lru_push_front i (hash_insert i (set_buf i b c1))))"

text \<open>The tail of \<open>bcache_read\<close> on a miss: enter the block in the slot, read it, back out on an I/O error.\<close>

definition load_entry :: "nat \<Rightarrow> nat \<Rightarrow> bcache \<Rightarrow> nat option \<times> bcache" where
  "load_entry block i c1 =
     (let b = (pool c1 ! i)\<lparr>block_num := block, refcount := 1, dirty := False, valid := False\<rparr>;
          c2 = lru_push_front i (hash_insert i (set_buf i b c1));
          (rc, bs) = ata_read_block4k block (disk c2);
          b2 = b\<lparr>data := bs @ drop (length bs) (data b)\<rparr>;
          c3 = set_buf i b2 c2
      in if rc \<noteq> 0 then
           (None, set_buf i (b2\<lparr>valid := False, refcount := 0\<rparr>) (lru_unlink i (hash_remove i c3)))
         else (Some i, set_buf i (b2\<lparr>valid := True\<rparr>) c3))"

definition bcache_read :: "nat \<Rightarrow> bcache \<Rightarrow> nat option \<times> bcache" where
  "bcache_read block c =
     (case hash_find block c of
        Some i \<Rightarrow> (Some i, cache_hit i c)
      | None \<Rightarrow>
          let (r, c1) = alloc_entry_locked (c\<lparr>stat_miss := u64 (stat_miss c + 1)\<rparr>) in
          case r of None \<Rightarrow> (None, c1) | Some i \<Rightarrow> load_entry block i c1)"

definition bcache_mark_dirty :: "nat \<Rightarrow> bcache \<Rightarrow> bcache" where
  "bcache_mark_dirty i c = set_buf i ((pool c ! i)\<lparr>dirty := True\<rparr>) c"

definition bcache_sync_block :: "nat option \<Rightarrow> bcache \<Rightarrow> int \<times> bcache" where
  "bcache_sync_block p c =
     (case p of None \<Rightarrow> (- 1, c)
      | Some i \<Rightarrow>
          let b = pool c ! i in
          if dirty b then
            let (rc, d') = ata_write_block4k (block_num b) (data b) (disk c);
                c1 = c\<lparr>disk := d'\<rparr>
            in if rc = 0 then (rc, set_buf i (b\<lparr>dirty := False\<rparr>) c1) else (rc, c1)
          else (0, c))"

definition bcache_release :: "nat \<Rightarrow> bcache \<Rightarrow> bcache" where
  "bcache_release i c =
     (let b = pool c ! i in if refcount b > 0 then set_buf i (b\<lparr>refcount := refcount b - 1\<rparr>) c else c)"

fun flush_list :: "nat list \<Rightarrow> bcache \<Rightarrow> bcache" where
  "flush_list [] c = c"
| "flush_list (i # is) c =
     (let b = pool c ! i in
      if dirty b then
        (let (rc, d') = ata_write_block4k (block_num b) (data b) (disk c);
             c1 = c\<lparr>disk := d'\<rparr>
         in flush_list is (if rc = 0 then set_buf i (b\<lparr>dirty := False\<rparr>) c1 else c1))
      else flush_list is c)"

definition bcache_flush_all :: "bcache \<Rightarrow> bcache" where
  "bcache_flush_all c = flush_list (lru c) c"

definition bcache_flush_all_try :: "bool \<Rightarrow> bcache \<Rightarrow> int \<times> bcache" where
  "bcache_flush_all_try lock_free c = (if \<not> lock_free then (0, c) else (1, flush_list (lru c) c))"

section \<open>How the file system uses a buffer\<close>

text \<open>
  Every access of \<^verbatim>\<open>kernel/fs/kfs_*.c\<close> to a block is one of three sequences: read a block and copy out of it;
  read it, change its data in place and mark it dirty; take its buffer without reading, fill all of it and
  mark it dirty.  Each ends with a release.
\<close>

definition set_data :: "nat \<Rightarrow> byte list \<Rightarrow> bcache \<Rightarrow> bcache" where
  "set_data i bs c = set_buf i ((pool c ! i)\<lparr>data := bs\<rparr>) c"

definition blk_peek :: "nat \<Rightarrow> bcache \<Rightarrow> byte list option \<times> bcache" where
  "blk_peek block c =
     (let (r, c1) = bcache_read block c in
      case r of None \<Rightarrow> (None, c1)
      | Some i \<Rightarrow> (Some (data (pool c1 ! i)), bcache_release i c1))"

definition blk_update :: "(byte list \<Rightarrow> byte list) \<Rightarrow> nat \<Rightarrow> bcache \<Rightarrow> bool \<times> bcache" where
  "blk_update f block c =
     (let (r, c1) = bcache_read block c in
      case r of None \<Rightarrow> (False, c1)
      | Some i \<Rightarrow> (True, bcache_release i (bcache_mark_dirty i (set_data i (f (data (pool c1 ! i))) c1))))"

definition blk_fill :: "byte list \<Rightarrow> nat \<Rightarrow> bcache \<Rightarrow> bool \<times> bcache" where
  "blk_fill bs block c =
     (let (r, c1) = bcache_get block c in
      case r of None \<Rightarrow> (False, c1)
      | Some i \<Rightarrow> (True, bcache_release i (bcache_mark_dirty i (set_data i bs c1))))"

section \<open>Invariant and view\<close>

definition buf_ok :: "block_buffer \<Rightarrow> ata \<Rightarrow> bool" where
  "buf_ok b d \<longleftrightarrow> length (data b) = 4096
     \<and> (valid b \<longrightarrow> dev_block (block_num b) \<and> (\<not> dirty b \<longrightarrow> data b = disk_block d (block_num b)))
     \<and> (\<not> valid b \<longrightarrow> \<not> dirty b)"

definition index_ok :: "bcache \<Rightarrow> bool" where
  "index_ok c \<longleftrightarrow> length (pool c) = BCACHE_N_BLOCKS
     \<and> distinct (lru c) \<and> set (lru c) = {i. i < BCACHE_N_BLOCKS \<and> valid (pool c ! i)}
     \<and> (\<forall>h. distinct (hash_table c h))
     \<and> (\<forall>h. set (hash_table c h) = {i. i < BCACHE_N_BLOCKS \<and> valid (pool c ! i) \<and> bhash (block_num (pool c ! i)) = h})
     \<and> (\<forall>i j. i < BCACHE_N_BLOCKS \<and> j < BCACHE_N_BLOCKS \<and> valid (pool c ! i) \<and> valid (pool c ! j)
            \<and> block_num (pool c ! i) = block_num (pool c ! j) \<longrightarrow> i = j)"

definition bc_inv :: "bcache \<Rightarrow> bool" where
  "bc_inv c \<longleftrightarrow> index_ok c \<and> dev_wf (disk c) \<and> (\<forall>i < BCACHE_N_BLOCKS. buf_ok (pool c ! i) (disk c))"

definition cached_view :: "bcache \<Rightarrow> nat \<Rightarrow> byte list" where
  "cached_view c b = (case hash_find b c of Some i \<Rightarrow> data (pool c ! i) | None \<Rightarrow> disk_block (disk c) b)"

definition holds :: "bcache \<Rightarrow> nat \<Rightarrow> nat \<Rightarrow> bool" where
  "holds c i b \<longleftrightarrow> i < BCACHE_N_BLOCKS \<and> valid (pool c ! i) \<and> block_num (pool c ! i) = b"

lemma index_okD:
  assumes "index_ok c"
  shows "length (pool c) = BCACHE_N_BLOCKS" and "distinct (lru c)" and "i \<in> set (lru c) \<longleftrightarrow> i < BCACHE_N_BLOCKS \<and> valid (pool c ! i)"
    and "distinct (hash_table c h)" and "i \<in> set (hash_table c (bhash b)) \<longleftrightarrow> i < BCACHE_N_BLOCKS \<and> valid (pool c ! i) \<and> bhash (block_num (pool c ! i)) = bhash b"
    and "holds c i b \<Longrightarrow> holds c j b \<Longrightarrow> i = j"
  using assms by (auto simp: index_ok_def holds_def)

lemma index_okI:
  assumes "length (pool c) = BCACHE_N_BLOCKS" and "distinct (lru c)"
    and "\<And>i. i \<in> set (lru c) \<longleftrightarrow> i < BCACHE_N_BLOCKS \<and> valid (pool c ! i)"
    and "\<And>h. distinct (hash_table c h)"
    and "\<And>h i. i \<in> set (hash_table c h) \<longleftrightarrow> i < BCACHE_N_BLOCKS \<and> valid (pool c ! i) \<and> bhash (block_num (pool c ! i)) = h"
    and "\<And>i j b. holds c i b \<Longrightarrow> holds c j b \<Longrightarrow> i = j"
  shows "index_ok c"
  unfolding index_ok_def
proof (intro conjI allI impI)
  show "set (lru c) = {i. i < BCACHE_N_BLOCKS \<and> valid (pool c ! i)}" using assms(3) by blast
  show "set (hash_table c h) = {i. i < BCACHE_N_BLOCKS \<and> valid (pool c ! i) \<and> bhash (block_num (pool c ! i)) = h}" for h
    using assms(5) [of _ h] by blast
  show "i = j" if "i < BCACHE_N_BLOCKS \<and> j < BCACHE_N_BLOCKS \<and> valid (pool c ! i) \<and> valid (pool c ! j)
      \<and> block_num (pool c ! i) = block_num (pool c ! j)" for i j
    using assms(6) [of i "block_num (pool c ! i)" j] that by (simp add: holds_def)
qed (use assms in auto)

lemma in_hash: "index_ok c \<Longrightarrow>
    i \<in> set (hash_table c h) \<longleftrightarrow> i < BCACHE_N_BLOCKS \<and> valid (pool c ! i) \<and> bhash (block_num (pool c ! i)) = h"
  by (simp add: index_ok_def)

lemma hash_find_iff:
  assumes "index_ok c"
  shows "hash_find b c = Some i \<longleftrightarrow> holds c i b"
proof
  assume "hash_find b c = Some i"
  then show "holds c i b"
    using index_okD(5) [OF assms, of i b] unfolding hash_find_def holds_def
    by (metis (mono_tags, lifting) find_Some_iff nth_mem)
next
  assume h: "holds c i b"
  then have "i \<in> set (hash_table c (bhash b))" using index_okD(5) [OF assms] by (simp add: holds_def)
  then have "hash_find b c \<noteq> None" using h unfolding hash_find_def find_None_iff holds_def by blast
  then obtain j where j: "hash_find b c = Some j" by blast
  then have "holds c j b"
    using index_okD(5) [OF assms, of j b] unfolding hash_find_def holds_def
    by (metis (mono_tags, lifting) find_Some_iff nth_mem)
  then show "hash_find b c = Some i" using j index_okD(6) [OF assms] h by blast
qed

lemma hash_find_None: "index_ok c \<Longrightarrow> hash_find b c = None \<longleftrightarrow> (\<forall>i. \<not> holds c i b)"
  using hash_find_iff [of c b] by (cases "hash_find b c") auto

lemma view_hit: "index_ok c \<Longrightarrow> holds c i b \<Longrightarrow> cached_view c b = data (pool c ! i)"
  using hash_find_iff [of c b i] by (simp add: cached_view_def)

lemma view_miss: "index_ok c \<Longrightarrow> (\<And>i. \<not> holds c i b) \<Longrightarrow> cached_view c b = disk_block (disk c) b"
  using hash_find_None [of c b] by (simp add: cached_view_def)

text \<open>Two states with the same entries and the same data show the same content.\<close>

lemma view_cong:
  assumes "index_ok c" and "index_ok c'"
    and "\<And>i b. holds c' i b \<longleftrightarrow> holds c i b" and "\<And>i b. holds c i b \<Longrightarrow> data (pool c' ! i) = data (pool c ! i)"
    and "\<And>b. (\<And>i. \<not> holds c i b) \<Longrightarrow> disk_block (disk c') b = disk_block (disk c) b"
  shows "cached_view c' = cached_view c"
proof
  fix b
  show "cached_view c' b = cached_view c b"
  proof (cases "\<exists>i. holds c i b")
    case True
    then obtain i where "holds c i b" by blast
    then show ?thesis using view_hit [OF assms(1)] view_hit [OF assms(2)] assms(3,4) by metis
  next
    case False
    then show ?thesis using view_miss [OF assms(1)] view_miss [OF assms(2)] assms(3,5) by metis
  qed
qed

section \<open>Preservation\<close>

lemma set_buf_simps [simp]:
  "hash_table (set_buf i b c) = hash_table c" "lru (set_buf i b c) = lru c" "disk (set_buf i b c) = disk c"
  "pool (set_buf i b c) = (pool c)[i := b]" "stat_hit (set_buf i b c) = stat_hit c" "stat_miss (set_buf i b c) = stat_miss c"
  by (simp_all add: set_buf_def)

lemma index_ok_set_buf:
  assumes "index_ok c" and "valid b = valid (pool c ! i)" and "valid b \<Longrightarrow> block_num b = block_num (pool c ! i)"
  shows "index_ok (set_buf i b c)"
proof -
  have "valid ((pool c)[i := b] ! j) = valid (pool c ! j)" for j
    using assms(2) by (cases "i < length (pool c)") (auto simp: nth_list_update list_update_beyond)
  moreover have "valid (pool c ! j) \<Longrightarrow> block_num ((pool c)[i := b] ! j) = block_num (pool c ! j)" for j
    using assms(2,3) by (cases "i < length (pool c)") (auto simp: nth_list_update list_update_beyond)
  ultimately show ?thesis using assms(1) unfolding index_ok_def by (simp cong: conj_cong)
qed

lemma holds_set_buf:
  assumes "valid b = valid (pool c ! i)" and "valid b \<Longrightarrow> block_num b = block_num (pool c ! i)"
  shows "holds (set_buf i b c) j k = holds c j k"
  using assms by (cases "i < length (pool c)") (auto simp: holds_def nth_list_update list_update_beyond)

lemma index_ok_lru:
  assumes "index_ok c" and "distinct l" and "set l = set (lru c)"
  shows "index_ok (c\<lparr>lru := l\<rparr>)"
  using assms by (simp add: index_ok_def)

lemma holds_fields [simp]: "holds (c\<lparr>lru := l\<rparr>) = holds c" "holds (c\<lparr>disk := d\<rparr>) = holds c"
  "holds (c\<lparr>stat_hit := n\<rparr>) = holds c" "holds (c\<lparr>stat_miss := n\<rparr>) = holds c" "holds (c\<lparr>hash_table := t\<rparr>) = holds c"
  by (auto simp: holds_def fun_eq_iff)

lemma index_ok_fields [simp]: "index_ok (c\<lparr>disk := d\<rparr>) = index_ok c"
  "index_ok (c\<lparr>stat_hit := n\<rparr>) = index_ok c" "index_ok (c\<lparr>stat_miss := n\<rparr>) = index_ok c"
  by (simp_all add: index_ok_def)

lemma lru_touch_lru: "i \<in> set (lru c) \<Longrightarrow> distinct (lru c) \<Longrightarrow> \<exists>l. lru_touch i c = c\<lparr>lru := l\<rparr> \<and> distinct l \<and> set l = set (lru c)"
  by (intro exI [of _ "lru (lru_touch i c)"])
    (auto simp: lru_touch_def lru_push_front_def lru_unlink_def Let_def)

lemma bc_inv_set_buf:
  assumes "bc_inv c" and "valid b = valid (pool c ! i)" and "valid b \<Longrightarrow> block_num b = block_num (pool c ! i)"
    and "buf_ok b (disk c)"
  shows "bc_inv (set_buf i b c)"
proof -
  have "buf_ok ((pool c)[i := b] ! j) (disk c)" if "j < BCACHE_N_BLOCKS" for j
    using that assms(1,4) by (cases "i = j") (auto simp: bc_inv_def index_ok_def)
  then show ?thesis using assms index_ok_set_buf [of c b i] by (simp add: bc_inv_def)
qed

lemma view_set_buf:
  assumes "index_ok c" and "valid b = valid (pool c ! i)" and "valid b \<Longrightarrow> block_num b = block_num (pool c ! i)"
    and "valid b \<Longrightarrow> data b = data (pool c ! i)"
  shows "cached_view (set_buf i b c) = cached_view c"
proof (rule view_cong [OF assms(1) index_ok_set_buf [OF assms(1-3)]])
  fix j k
  show "holds (set_buf i b c) j k = holds c j k" using assms(2,3) by (rule holds_set_buf)
  assume "holds c j k"
  then show "data (pool (set_buf i b c) ! j) = data (pool c ! j)"
    using assms index_okD(1) [OF assms(1)] by (cases "i = j") (auto simp: holds_def)
qed simp_all

lemma bc_inv_buf: "bc_inv c \<Longrightarrow> i < BCACHE_N_BLOCKS \<Longrightarrow> buf_ok (pool c ! i) (disk c)"
  by (simp add: bc_inv_def)

lemma bc_invD: "bc_inv c \<Longrightarrow> index_ok c" "bc_inv c \<Longrightarrow> dev_wf (disk c)"
  by (simp_all add: bc_inv_def)

text \<open>Writing a dirty entry back, whether or not the write succeeds, leaves the content visible through the
  cache unchanged.\<close>

lemma write_back:
  assumes inv: "bc_inv c" and i: "i < BCACHE_N_BLOCKS" and d: "dirty (pool c ! i)"
    and w: "ata_write_block4k (block_num (pool c ! i)) (data (pool c ! i)) (disk c) = (rc, d')"
  shows "bc_inv (c\<lparr>disk := d'\<rparr>)" and "cached_view (c\<lparr>disk := d'\<rparr>) = cached_view c"
    and "rc = 0 \<Longrightarrow> bc_inv (set_buf i ((pool c ! i)\<lparr>dirty := False\<rparr>) (c\<lparr>disk := d'\<rparr>))"
    and "cached_view (set_buf i ((pool c ! i)\<lparr>dirty := False\<rparr>) (c\<lparr>disk := d'\<rparr>)) = cached_view c"
proof -
  define b where "b = pool c ! i"
  have ok: "buf_ok b (disk c)" using bc_inv_buf [OF inv i] by (simp add: b_def)
  then have v: "valid b" "dev_block (block_num b)" "length (data b) = 4096"
    using d by (auto simp: buf_ok_def b_def)
  have h: "holds c i (block_num b)" using i v by (simp add: holds_def b_def)
  note ix = bc_invD(1) [OF inv]
  note ws = ata_write_block4k_spec [OF v(2,3) w [folded b_def]]
  have other: "disk_block d' k = disk_block (disk c) k" if "\<not> holds c i k" for k
    using that h ws(2) [of k] by auto
  have "buf_ok (pool c ! j) d'" if j: "j < BCACHE_N_BLOCKS" for j
  proof (cases "j = i")
    case True
    then show ?thesis using v d by (simp add: buf_ok_def b_def)
  next
    case False
    have "valid (pool c ! j) \<Longrightarrow> block_num (pool c ! j) \<noteq> block_num b"
      using False j h index_okD(6) [OF ix, of i "block_num b" j] by (auto simp: holds_def)
    then show ?thesis using bc_inv_buf [OF inv j] ws(2) by (auto simp: buf_ok_def)
  qed
  then show inv1: "bc_inv (c\<lparr>disk := d'\<rparr>)" using inv ws(1) by (simp add: bc_inv_def)
  show vw: "cached_view (c\<lparr>disk := d'\<rparr>) = cached_view c"
    using other by (intro view_cong) (simp_all add: ix)
  show "bc_inv (set_buf i ((pool c ! i)\<lparr>dirty := False\<rparr>) (c\<lparr>disk := d'\<rparr>))" if "rc = 0"
    using v ws(3) [OF that] by (intro bc_inv_set_buf [OF inv1]) (simp_all add: buf_ok_def b_def)
  show "cached_view (set_buf i ((pool c ! i)\<lparr>dirty := False\<rparr>) (c\<lparr>disk := d'\<rparr>)) = cached_view c"
    unfolding vw [symmetric] by (rule view_set_buf) (simp_all add: ix)
qed

lemma evict_entry_fields:
  "pool (evict_entry i c) = (pool c)[i := (pool c ! i)\<lparr>valid := False\<rparr>]"
  "lru (evict_entry i c) = remove1 i (lru c)" "disk (evict_entry i c) = disk c"
  "hash_table (evict_entry i c) = (hash_table c)(bhash (block_num (pool c ! i)) :=
     remove1 i (hash_table c (bhash (block_num (pool c ! i)))))"
  by (simp_all add: evict_entry_def lru_unlink_def hash_remove_def Let_def)

lemma nth_upd: "length xs = n \<Longrightarrow> i < n \<Longrightarrow> xs[i := x] ! j = (if j = i then x else xs ! j)"
  by auto

lemma evict_entry_inv:
  assumes inv: "bc_inv c" and i: "i < BCACHE_N_BLOCKS" and v: "valid (pool c ! i)" and cl: "\<not> dirty (pool c ! i)"
  shows "bc_inv (evict_entry i c)" and "cached_view (evict_entry i c) = cached_view c"
    and "holds (evict_entry i c) j b \<longleftrightarrow> holds c j b \<and> j \<noteq> i"
proof -
  note ix = bc_invD(1) [OF inv]
  note len = index_okD(1) [OF ix]
  note pn = nth_upd [OF len i]
  show h: "holds (evict_entry i c) j b \<longleftrightarrow> holds c j b \<and> j \<noteq> i" for j b
    using i by (auto simp: holds_def evict_entry_fields pn)
  have ix': "index_ok (evict_entry i c)"
  proof (rule index_okI)
    show "j \<in> set (lru (evict_entry i c)) \<longleftrightarrow> j < BCACHE_N_BLOCKS \<and> valid (pool (evict_entry i c) ! j)" for j
      using index_okD(2) [OF ix] index_okD(3) [OF ix, of j] by (simp add: evict_entry_fields pn)
    show "j \<in> set (hash_table (evict_entry i c) k) \<longleftrightarrow> j < BCACHE_N_BLOCKS \<and> valid (pool (evict_entry i c) ! j)
        \<and> bhash (block_num (pool (evict_entry i c) ! j)) = k" for j k
      using index_okD(4) [OF ix] in_hash [OF ix, of j k] by (auto simp: evict_entry_fields pn)
    show "holds (evict_entry i c) j b \<Longrightarrow> holds (evict_entry i c) k b \<Longrightarrow> j = k" for j k b
      using index_okD(6) [OF ix] h by blast
  qed (use index_okD [OF ix] in \<open>simp_all add: evict_entry_fields\<close>)
  have "buf_ok (pool (evict_entry i c) ! j) (disk c)" if "j < BCACHE_N_BLOCKS" for j
    using bc_inv_buf [OF inv that] cl by (auto simp: evict_entry_fields pn buf_ok_def)
  then show "bc_inv (evict_entry i c)" using inv ix' by (simp add: bc_inv_def evict_entry_fields)
  show "cached_view (evict_entry i c) = cached_view c"
  proof
    fix b
    consider (same) "holds c i b" | (other) j where "holds c j b" "j \<noteq> i" | (none) "\<And>j. \<not> holds c j b" by blast
    then show "cached_view (evict_entry i c) b = cached_view c b"
    proof cases
      case same
      have "data (pool c ! i) = disk_block (disk c) b"
        using bc_inv_buf [OF inv i] same cl by (auto simp: buf_ok_def holds_def)
      moreover have "\<not> holds (evict_entry i c) j b" for j using index_okD(6) [OF ix same] h by blast
      ultimately show ?thesis
        using view_hit [OF ix same] view_miss [OF ix'] by (simp add: evict_entry_fields)
    next
      case other
      then have "holds (evict_entry i c) j b" using h by blast
      then show ?thesis
        using view_hit [OF ix other(1)] view_hit [OF ix'] other(2) by (simp add: evict_entry_fields pn)
    next
      case none
      then show ?thesis using view_miss [OF ix none] view_miss [OF ix'] h by (simp add: evict_entry_fields)
    qed
  qed
qed

lemma evict_scan_spec:
  assumes "bc_inv c" and "set is \<subseteq> set (lru c)" and "evict_scan is c = (r, c')"
  shows "bc_inv c' \<and> cached_view c' = cached_view c \<and> (\<forall>j b. holds c' j b \<longrightarrow> holds c j b)
    \<and> (\<forall>i. r = Some i \<longrightarrow> i < BCACHE_N_BLOCKS \<and> \<not> valid (pool c' ! i) \<and> refcount (pool c' ! i) = 0)"
  using assms
proof (induction "is" arbitrary: c)
  case Nil
  then show ?case by simp
next
  case (Cons i "is")
  note inv = Cons.prems(1)
  note ix = bc_invD(1) [OF inv]
  have i: "i < BCACHE_N_BLOCKS" "valid (pool c ! i)" using Cons.prems(2) index_okD(3) [OF ix, of i] by auto
  have len: "length (pool c) = BCACHE_N_BLOCKS" using index_okD(1) [OF ix] .
  obtain rc d' where w: "ata_write_block4k (block_num (pool c ! i)) (data (pool c ! i)) (disk c) = (rc, d')"
    by (cases "ata_write_block4k (block_num (pool c ! i)) (data (pool c ! i)) (disk c)")
  consider (pinned) "refcount (pool c ! i) > 0" | (clean) "refcount (pool c ! i) = 0" "\<not> dirty (pool c ! i)"
    | (failed) "refcount (pool c ! i) = 0" "dirty (pool c ! i)" "rc \<noteq> 0"
    | (written) "refcount (pool c ! i) = 0" "dirty (pool c ! i)" "rc = 0"
    by auto
  then show ?case
  proof cases
    case pinned
    then show ?thesis using Cons.IH [OF inv] Cons.prems(2,3) by (simp add: Let_def)
  next
    case clean
    then have "r = Some i" "c' = evict_entry i c" using Cons.prems(3) by (auto simp: Let_def)
    then show ?thesis
      using evict_entry_inv [OF inv i clean(2)] i clean by (auto simp: evict_entry_fields nth_upd [OF len i(1)])
  next
    case failed
    note wb = write_back [OF inv i(1) failed(2) w]
    have "evict_scan is (c\<lparr>disk := d'\<rparr>) = (r, c')" using Cons.prems(3) failed w by (simp add: Let_def)
    then show ?thesis using Cons.IH [OF wb(1)] Cons.prems(2) wb(2) by simp
  next
    case written
    define c1 where "c1 = set_buf i ((pool c ! i)\<lparr>dirty := False\<rparr>) (c\<lparr>disk := d'\<rparr>)"
    note wb = write_back [OF inv i(1) written(2) w, folded c1_def]
    have r: "r = Some i" "c' = evict_entry i c1" using Cons.prems(3) written w by (auto simp: Let_def c1_def)
    have p: "pool c1 ! i = (pool c ! i)\<lparr>dirty := False\<rparr>" by (simp add: c1_def nth_upd [OF len i(1)])
    have "holds c1 j b = holds c j b" for j b
      using holds_set_buf [of "(pool c ! i)\<lparr>dirty := False\<rparr>" "c\<lparr>disk := d'\<rparr>" i j b] by (simp add: c1_def)
    then show ?thesis
      using evict_entry_inv [OF wb(3) i(1)] i p written wb(4) r
      by (auto simp: evict_entry_fields c1_def nth_upd [OF _ i(1)] len)
  qed
qed

lemma bc_inv_stat [simp]: "bc_inv (c\<lparr>stat_hit := n\<rparr>) = bc_inv c" "bc_inv (c\<lparr>stat_miss := n\<rparr>) = bc_inv c"
  by (simp_all add: bc_inv_def)

lemma view_stat [simp]: "cached_view (c\<lparr>stat_hit := n\<rparr>) = cached_view c" "cached_view (c\<lparr>stat_miss := n\<rparr>) = cached_view c"
  by (simp_all add: cached_view_def hash_find_def fun_eq_iff cong: option.case_cong)

lemma alloc_entry_spec:
  assumes inv: "bc_inv c" and a: "alloc_entry_locked c = (r, c')"
  shows "bc_inv c' \<and> cached_view c' = cached_view c \<and> (\<forall>j b. holds c' j b \<longrightarrow> holds c j b)
    \<and> (\<forall>i. r = Some i \<longrightarrow> i < BCACHE_N_BLOCKS \<and> \<not> valid (pool c' ! i) \<and> refcount (pool c' ! i) = 0)"
proof (cases "free_slot c")
  case None
  then show ?thesis using a evict_scan_spec [OF inv, of "rev (lru c)"] by (simp add: alloc_entry_locked_def)
next
  case (Some i)
  then obtain k where "k < BCACHE_N_BLOCKS" "[0..<BCACHE_N_BLOCKS] ! k = i" "\<not> valid (pool c ! i)" "refcount (pool c ! i) = 0"
    unfolding free_slot_def find_Some_iff by auto
  then show ?thesis using a Some inv by (auto simp: alloc_entry_locked_def)
qed

text \<open>Entering a block into an empty slot.\<close>

lemma insert_entry:
  assumes inv: "bc_inv c" and i: "i < BCACHE_N_BLOCKS" "\<not> valid (pool c ! i)" and n: "\<And>j. \<not> holds c j (block_num b)"
    and v: "valid b"
    and c': "pool c' = (pool c)[i := b]" "lru c' = i # lru c" "disk c' = disk c"
      "hash_table c' = (hash_table c)(bhash (block_num b) := i # hash_table c (bhash (block_num b)))"
  shows "index_ok c'" and "holds c' j k \<longleftrightarrow> (if j = i then k = block_num b else holds c j k)"
    and "cached_view c' = (cached_view c)(block_num b := data b)" and "buf_ok b (disk c) \<Longrightarrow> bc_inv c'"
proof -
  note ix = bc_invD(1) [OF inv]
  note pn = nth_upd [OF index_okD(1) [OF ix] i(1)]
  show h: "holds c' j k \<longleftrightarrow> (if j = i then k = block_num b else holds c j k)" for j k
    using i v by (auto simp: holds_def c' pn)
  have nl: "i \<notin> set (lru c)" using index_okD(3) [OF ix, of i] i by simp
  have nh: "i \<notin> set (hash_table c k)" for k using in_hash [OF ix, of i k] i by simp
  show ix': "index_ok c'"
  proof (rule index_okI)
    show "j \<in> set (lru c') \<longleftrightarrow> j < BCACHE_N_BLOCKS \<and> valid (pool c' ! j)" for j
      using index_okD(3) [OF ix, of j] i v by (auto simp: c' pn)
    show "j \<in> set (hash_table c' k) \<longleftrightarrow> j < BCACHE_N_BLOCKS \<and> valid (pool c' ! j) \<and> bhash (block_num (pool c' ! j)) = k" for j k
      using in_hash [OF ix, of j k] nh i v by (auto simp: c' pn)
    show "holds c' j k \<Longrightarrow> holds c' l k \<Longrightarrow> j = l" for j k l
      using index_okD(6) [OF ix] n unfolding h by (metis (full_types))
    show "distinct (hash_table c' k)" for k using index_okD(4) [OF ix] nh by (simp add: c')
  qed (use index_okD [OF ix] nl in \<open>simp_all add: c'\<close>)
  show "cached_view c' = (cached_view c)(block_num b := data b)"
  proof
    fix k
    show "cached_view c' k = ((cached_view c)(block_num b := data b)) k"
    proof (cases "k = block_num b")
      case True
      then show ?thesis using view_hit [OF ix', of i k] h by (simp add: c' pn)
    next
      case False
      show ?thesis
      proof (cases "\<exists>j. holds c j k")
        case True
        then obtain j where j: "holds c j k" by blast
        then have "j \<noteq> i" using i by (auto simp: holds_def)
        then show ?thesis using j False view_hit [OF ix j] view_hit [OF ix', of j k] h by (simp add: c' pn)
      next
        case none: False
        then show ?thesis using False view_miss [OF ix] view_miss [OF ix', of k] h c' by simp
      qed
    qed
  qed
  show "bc_inv c'" if "buf_ok b (disk c)"
    using that ix' bc_invD(2) [OF inv] bc_inv_buf [OF inv] by (simp add: bc_inv_def c' pn)
qed

lemma cache_hit_spec:
  assumes inv: "bc_inv c" and h: "holds c i b"
  shows "bc_inv (cache_hit i c) \<and> cached_view (cache_hit i c) = cached_view c \<and> holds (cache_hit i c) i b"
proof -
  define r where "r = (pool c ! i)\<lparr>refcount := u32 (refcount (pool c ! i) + 1)\<rparr>"
  define c1 where "c1 = set_buf i r (c\<lparr>stat_hit := u64 (stat_hit c + 1)\<rparr>)"
  have i: "i < BCACHE_N_BLOCKS" using h by (simp add: holds_def)
  have "bc_inv c1" unfolding c1_def
    using inv bc_inv_buf [OF inv i] by (intro bc_inv_set_buf) (simp_all add: r_def buf_ok_def)
  moreover have "cached_view c1 = cached_view c" "holds c1 i b"
    using view_set_buf [of "c\<lparr>stat_hit := u64 (stat_hit c + 1)\<rparr>" r i] bc_invD(1) [OF inv] h
      holds_set_buf [of r "c\<lparr>stat_hit := u64 (stat_hit c + 1)\<rparr>" i i b] by (simp_all add: c1_def r_def)
  moreover have "i \<in> set (lru c1)" "distinct (lru c1)"
    using index_okD [OF bc_invD(1) [OF inv]] h by (simp_all add: c1_def holds_def)
  then obtain l where l: "lru_touch i c1 = c1\<lparr>lru := l\<rparr>" "distinct l" "set l = set (lru c1)"
    using lru_touch_lru [of i c1] by blast
  moreover have "cache_hit i c = lru_touch i c1" by (simp add: cache_hit_def c1_def r_def Let_def)
  moreover have "cached_view (c1\<lparr>lru := l\<rparr>) = cached_view c1"
    by (simp add: cached_view_def hash_find_def fun_eq_iff cong: option.case_cong)
  ultimately show ?thesis using index_ok_lru [of c1 l] by (simp add: bc_inv_def)
qed

section \<open>Reading and taking a block\<close>

lemma push_fields:
  assumes "i \<notin> set (lru c)"
  shows "i < length (pool c) \<Longrightarrow> hash_table (lru_push_front i (hash_insert i (set_buf i b c))) =
      (hash_table c)(bhash (block_num b) := i # hash_table c (bhash (block_num b)))"
    and "lru (lru_push_front i (hash_insert i (set_buf i b c))) = i # lru c"
    and "pool (lru_push_front i (hash_insert i (set_buf i b c))) = (pool c)[i := b]"
    and "disk (lru_push_front i (hash_insert i (set_buf i b c))) = disk c"
    and "stat_hit (lru_push_front i (hash_insert i (set_buf i b c))) = stat_hit c"
    and "stat_miss (lru_push_front i (hash_insert i (set_buf i b c))) = stat_miss c"
  using assms(1) by (simp_all add: lru_push_front_def hash_insert_def Let_def)

lemma bcache_read_spec:
  assumes inv: "bc_inv c" and dev: "dev_block blk" and rd: "bcache_read blk c = (r, c')"
  shows "bc_inv c' \<and> cached_view c' = cached_view c \<and> (\<forall>i. r = Some i \<longrightarrow> holds c' i blk)"
proof (cases "hash_find blk c")
  case (Some i)
  then have "holds c i blk" using hash_find_iff [OF bc_invD(1) [OF inv]] by blast
  then show ?thesis using cache_hit_spec [OF inv] rd Some by (auto simp: bcache_read_def)
next
  case None
  then have none: "\<not> holds c j blk" for j using hash_find_None [OF bc_invD(1) [OF inv]] by blast
  obtain q c1 where a: "alloc_entry_locked (c\<lparr>stat_miss := u64 (stat_miss c + 1)\<rparr>) = (q, c1)" by fastforce
  have "bc_inv (c\<lparr>stat_miss := u64 (stat_miss c + 1)\<rparr>)" using inv by simp
  note al = alloc_entry_spec [OF this a, simplified]
  show ?thesis
  proof (cases q)
    case None
    then show ?thesis using rd a al \<open>hash_find blk c = None\<close> by (simp add: bcache_read_def)
  next
    case (Some i)
    note al = al [unfolded Some, simplified]
    have inv1: "bc_inv c1" and i: "i < BCACHE_N_BLOCKS" "\<not> valid (pool c1 ! i)" using al by blast+
    note ix1 = bc_invD(1) [OF inv1]
    have len: "length (pool c1) = BCACHE_N_BLOCKS" using index_okD(1) [OF ix1] .
    have nl: "i \<notin> set (lru c1)" using index_okD(3) [OF ix1, of i] i by simp
    define b where "b = (pool c1 ! i)\<lparr>block_num := blk, refcount := 1, dirty := False, valid := False\<rparr>"
    define c2 where "c2 = lru_push_front i (hash_insert i (set_buf i b c1))"
    note p2 = push_fields [OF nl, of b, folded c2_def]
    have hb: "block_num b = blk" by (simp add: b_def)
    obtain rc bs where io: "ata_read_block4k blk (disk c1) = (rc, bs)" by fastforce
    define b2 where "b2 = b\<lparr>data := bs @ drop (length bs) (data b)\<rparr>"
    have ld: "(r, c') = (if rc \<noteq> 0
        then (None, set_buf i (b2\<lparr>valid := False, refcount := 0\<rparr>) (lru_unlink i (hash_remove i (set_buf i b2 c2))))
        else (Some i, set_buf i (b2\<lparr>valid := True\<rparr>) (set_buf i b2 c2)))"
    proof -
      have "(r, c') = load_entry blk i c1" using rd a Some None by (simp add: bcache_read_def)
      then show ?thesis
        unfolding load_entry_def Let_def b_def [symmetric] c2_def [symmetric] p2(4) io prod.case b2_def .
    qed
    have lenb: "length (data (pool c1 ! i)) = 4096" using bc_inv_buf [OF inv1 i(1)] by (simp add: buf_ok_def)
    show ?thesis
    proof (cases "rc = 0")
      case True
      have bs: "bs = disk_block (disk c1) blk" using ata_read_block4k_ok [OF dev] io True by simp
      have lbs: "length bs = 4096" using bs bc_invD(2) [OF inv1] by simp
      have r: "r = Some i" "c' = set_buf i (b2\<lparr>valid := True\<rparr>) (set_buf i b2 c2)"
        using ld True by simp_all
      have d: "data (b2\<lparr>valid := True\<rparr>) = bs" "block_num (b2\<lparr>valid := True\<rparr>) = blk" "valid (b2\<lparr>valid := True\<rparr>)"
        using lbs lenb by (simp_all add: b2_def b_def)
      have nh: "\<not> holds c1 j blk" for j using al none by blast
      note ins = insert_entry [OF inv1 i, of "b2\<lparr>valid := True\<rparr>" c', unfolded d(1,2)]
      have f: "pool c' = (pool c1)[i := b2\<lparr>valid := True\<rparr>]" "lru c' = i # lru c1" "disk c' = disk c1"
        "hash_table c' = (hash_table c1)(bhash blk := i # hash_table c1 (bhash blk))"
        using p2 i len hb by (simp_all add: r)
      note ins = ins [OF nh d(3) f]
      have "cached_view c1 blk = bs" using view_miss [OF ix1 nh] bs by simp
      then have "cached_view c' = cached_view c" using ins(3) al by auto
      moreover have "buf_ok (b2\<lparr>valid := True\<rparr>) (disk c1)"
        using d dev bs bc_invD(2) [OF inv1] by (simp add: buf_ok_def b2_def b_def)
      ultimately show ?thesis using ins(2,4) r by simp
    next
      case False
      have r: "r = None" "c' = set_buf i (b2\<lparr>valid := False, refcount := 0\<rparr>) (lru_unlink i (hash_remove i (set_buf i b2 c2)))"
        using ld False by simp_all
      define b3 where "b3 = b2\<lparr>valid := False, refcount := 0\<rparr>"
      have "c' = set_buf i b3 c1"
        using p2 i len hb
        by (intro bcache.equality) (simp_all add: r b3_def lru_unlink_def hash_remove_def Let_def b2_def)
      moreover have "length (data b3) = 4096"
        using lenb read_length [OF bc_invD(2) [OF inv1] dev io] by (simp add: b3_def b2_def b_def)
      then have "bc_inv (set_buf i b3 c1)"
        using i by (intro bc_inv_set_buf [OF inv1]) (simp_all add: buf_ok_def b3_def b2_def b_def)
      moreover have "cached_view (set_buf i b3 c1) = cached_view c1"
        using i by (intro view_set_buf [OF ix1]) (simp_all add: b3_def)
      ultimately show ?thesis using al r(1) by simp
    qed
  qed
qed

definition bc_inv_except :: "nat \<Rightarrow> bcache \<Rightarrow> bool" where
  "bc_inv_except i c \<longleftrightarrow> index_ok c \<and> dev_wf (disk c) \<and> (\<forall>j < BCACHE_N_BLOCKS. j \<noteq> i \<longrightarrow> buf_ok (pool c ! j) (disk c))"

lemma bcache_get_spec:
  assumes inv: "bc_inv c" and g: "bcache_get blk c = (r, c')"
  shows "case r of None \<Rightarrow> bc_inv c' \<and> cached_view c' = cached_view c
    | Some i \<Rightarrow> bc_inv_except i c' \<and> holds c' i blk \<and> (\<forall>k. k \<noteq> blk \<longrightarrow> cached_view c' k = cached_view c k)"
proof (cases "hash_find blk c")
  case (Some i)
  then have "holds c i blk" using hash_find_iff [OF bc_invD(1) [OF inv]] by blast
  note hit = cache_hit_spec [OF inv this]
  have "r = Some i" "c' = cache_hit i c" using g Some by (simp_all add: bcache_get_def)
  then show ?thesis using hit by (simp add: bc_inv_def bc_inv_except_def)
next
  case None
  then have none: "\<not> holds c j blk" for j using hash_find_None [OF bc_invD(1) [OF inv]] by blast
  obtain q c1 where a: "alloc_entry_locked (c\<lparr>stat_miss := u64 (stat_miss c + 1)\<rparr>) = (q, c1)" by fastforce
  have "bc_inv (c\<lparr>stat_miss := u64 (stat_miss c + 1)\<rparr>)" using inv by simp
  note al = alloc_entry_spec [OF this a, simplified]
  show ?thesis
  proof (cases q)
    case None
    then show ?thesis using g a al \<open>hash_find blk c = None\<close> by (auto simp: bcache_get_def)
  next
    case (Some i)
    have inv1: "bc_inv c1" and i: "i < BCACHE_N_BLOCKS" "\<not> valid (pool c1 ! i)" using al Some by blast+
    note ix1 = bc_invD(1) [OF inv1]
    have nl: "i \<notin> set (lru c1)" using index_okD(3) [OF ix1, of i] i by simp
    define b where "b = (pool c1 ! i)\<lparr>block_num := blk, refcount := 1, dirty := False, valid := True\<rparr>"
    have r: "r = Some i" "c' = lru_push_front i (hash_insert i (set_buf i b c1))"
      using g a Some None by (auto simp: bcache_get_def b_def)
    have nh: "\<not> holds c1 j blk" for j using al none by blast
    have bb: "block_num b = blk" "valid b" by (simp_all add: b_def)
    have f: "pool c' = (pool c1)[i := b]" "lru c' = i # lru c1" "disk c' = disk c1"
      "hash_table c' = (hash_table c1)(bhash (block_num b) := i # hash_table c1 (bhash (block_num b)))"
      using push_fields [OF nl, of b] i index_okD(1) [OF ix1] by (simp_all add: r)
    note ins = insert_entry [OF inv1 i, of b c', unfolded bb(1), OF nh bb(2) f(1-3) f(4) [unfolded bb(1)]]
    have "bc_inv_except i c'"
      using ins(1) inv1 f index_okD(1) [OF ix1] i by (auto simp: bc_inv_except_def bc_inv_def)
    then show ?thesis using ins(2,3) al r(1) by simp
  qed
qed

lemma finish_write:
  assumes inv: "bc_inv_except i c" and h: "holds c i blk" and dev: "dev_block blk" and len: "length bs = 4096"
  shows "bc_inv (bcache_release i (bcache_mark_dirty i (set_data i bs c)))
    \<and> cached_view (bcache_release i (bcache_mark_dirty i (set_data i bs c))) = (cached_view c)(blk := bs)"
proof -
  define c' where "c' = bcache_release i (bcache_mark_dirty i (set_data i bs c))"
  have ix: "index_ok c" using inv by (simp add: bc_inv_except_def)
  have i: "i < BCACHE_N_BLOCKS" "valid (pool c ! i)" "block_num (pool c ! i) = blk" using h by (auto simp: holds_def)
  note l = index_okD(1) [OF ix]
  define b where "b = (pool c ! i)\<lparr>data := bs, dirty := True, refcount := refcount (pool c ! i) - 1\<rparr>"
  have c': "c' = set_buf i b c"
    using i l unfolding c'_def b_def bcache_release_def bcache_mark_dirty_def set_data_def set_buf_def Let_def
    by (auto intro!: bcache.equality arg_cong [where f = "list_update (pool c) i"] block_buffer.equality)
  have ix': "index_ok c'" unfolding c' using i by (intro index_ok_set_buf [OF ix]) (simp_all add: b_def)
  have p: "pool c' ! j = (if j = i then b else pool c ! j)" for j using nth_upd [OF l i(1)] by (simp add: c')
  have hh: "holds c' j k = holds c j k" for j k unfolding c' using i by (intro holds_set_buf) (simp_all add: b_def)
  have "bc_inv c'"
    using inv ix' dev len i by (auto simp: bc_inv_def bc_inv_except_def p c' buf_ok_def b_def nth_upd [OF l i(1)])
  moreover have "cached_view c' k = ((cached_view c)(blk := bs)) k" for k
  proof (cases "\<exists>j. holds c j k")
    case True
    then obtain j where j: "holds c j k" by blast
    then have "j = i \<longleftrightarrow> k = blk" using h index_okD(6) [OF ix] i(3) by (auto simp: holds_def)
    then show ?thesis using j view_hit [OF ix j] view_hit [OF ix', of j k] hh by (auto simp: p b_def)
  next
    case False
    then have "k \<noteq> blk" using h by blast
    then show ?thesis using False view_miss [OF ix] view_miss [OF ix', of k] hh by (simp add: c')
  qed
  ultimately show ?thesis unfolding c'_def by blast
qed

lemma release_spec:
  assumes "bc_inv c"
  shows "bc_inv (bcache_release i c) \<and> cached_view (bcache_release i c) = cached_view c"
proof (cases "i < BCACHE_N_BLOCKS")
  case True
  then show ?thesis
    using assms bc_inv_buf [OF assms True] bc_invD(1) [OF assms]
    by (auto simp: bcache_release_def Let_def buf_ok_def intro!: bc_inv_set_buf view_set_buf)
next
  case False
  then have "bcache_release i c = c"
    using index_okD(1) [OF bc_invD(1) [OF assms]] by (simp add: bcache_release_def Let_def set_buf_def list_update_beyond)
  then show ?thesis using assms by simp
qed

section \<open>The block store interface\<close>

locale block_store =
  fixes peek :: "nat \<Rightarrow> 's \<Rightarrow> byte list option \<times> 's"
    and upd :: "(byte list \<Rightarrow> byte list) \<Rightarrow> nat \<Rightarrow> 's \<Rightarrow> bool \<times> 's"
    and fill :: "byte list \<Rightarrow> nat \<Rightarrow> 's \<Rightarrow> bool \<times> 's"
    and inv :: "'s \<Rightarrow> bool"
    and view :: "'s \<Rightarrow> nat \<Rightarrow> byte list"
    and blockno :: "nat \<Rightarrow> bool"
  assumes view_length: "inv s \<Longrightarrow> blockno b \<Longrightarrow> length (view s b) = 4096"
    and peek_law: "inv s \<Longrightarrow> blockno b \<Longrightarrow> peek b s = (r, s') \<Longrightarrow>
      inv s' \<and> view s' = view s \<and> (r = None \<or> r = Some (view s b))"
    and upd_law: "inv s \<Longrightarrow> blockno b \<Longrightarrow> (\<And>x. length x = 4096 \<Longrightarrow> length (f x) = 4096) \<Longrightarrow> upd f b s = (ok, s') \<Longrightarrow>
      inv s' \<and> view s' = (if ok then (view s)(b := f (view s b)) else view s)"
    and fill_law: "inv s \<Longrightarrow> blockno b \<Longrightarrow> length bs = 4096 \<Longrightarrow> fill bs b s = (ok, s') \<Longrightarrow>
      inv s' \<and> view s' = (if ok then (view s)(b := bs) else view s)"
begin

lemma peek_after_upd:
  assumes "inv s" and "blockno b" and "\<And>x. length x = 4096 \<Longrightarrow> length (f x) = 4096"
    and "upd f b s = (True, s1)" and "peek b' s1 = (Some bs, s2)" and "blockno b'"
  shows "bs = (if b' = b then f (view s b) else view s b')"
  using upd_law [OF assms(1-4)] peek_law [OF _ assms(6,5)] by auto

lemma peek_after_fill:
  assumes "inv s" and "blockno b" and "length d = 4096"
    and "fill d b s = (True, s1)" and "peek b' s1 = (Some bs, s2)" and "blockno b'"
  shows "bs = (if b' = b then d else view s b')"
  using fill_law [OF assms(1-4)] peek_law [OF _ assms(6,5)] by auto

end

lemma blk_peek_spec:
  assumes "bc_inv c" and "dev_block b" and "blk_peek b c = (r, c')"
  shows "bc_inv c' \<and> cached_view c' = cached_view c \<and> (r = None \<or> r = Some (cached_view c b))"
proof -
  obtain q c1 where rd: "bcache_read b c = (q, c1)" by fastforce
  note sp = bcache_read_spec [OF assms(1,2) rd]
  show ?thesis
  proof (cases q)
    case None
    then show ?thesis using sp rd assms(3) by (auto simp: blk_peek_def)
  next
    case (Some i)
    then have h: "holds c1 i b" and inv1: "bc_inv c1" using sp by auto
    have "data (pool c1 ! i) = cached_view c b" using view_hit [OF bc_invD(1) [OF inv1] h] sp by simp
    then show ?thesis using sp rd assms(3) Some release_spec [OF inv1, of i] by (auto simp: blk_peek_def)
  qed
qed

lemma bc_inv_exceptI: "bc_inv c \<Longrightarrow> bc_inv_except i c"
  by (simp add: bc_inv_def bc_inv_except_def)

lemma view_length_cached: "bc_inv c \<Longrightarrow> length (cached_view c b) = 4096"
proof (cases "\<exists>i. holds c i b")
  case True
  assume inv: "bc_inv c"
  from True obtain i where h: "holds c i b" by blast
  then show ?thesis using view_hit [OF bc_invD(1) [OF inv] h] bc_inv_buf [OF inv, of i] by (simp add: holds_def buf_ok_def)
next
  case False
  assume inv: "bc_inv c"
  then show ?thesis using view_miss [OF bc_invD(1) [OF inv], of b] False bc_invD(2) [OF inv] by simp
qed

lemma blk_update_spec:
  assumes "bc_inv c" and "dev_block b" and "\<And>x. length x = 4096 \<Longrightarrow> length (f x) = 4096" and "blk_update f b c = (ok, c')"
  shows "bc_inv c' \<and> cached_view c' = (if ok then (cached_view c)(b := f (cached_view c b)) else cached_view c)"
proof -
  obtain q c1 where rd: "bcache_read b c = (q, c1)" by fastforce
  note sp = bcache_read_spec [OF assms(1,2) rd]
  show ?thesis
  proof (cases q)
    case None
    then show ?thesis using sp rd assms(4) by (auto simp: blk_update_def)
  next
    case (Some i)
    then have h: "holds c1 i b" and inv1: "bc_inv c1" using sp by auto
    have d: "data (pool c1 ! i) = cached_view c b" using view_hit [OF bc_invD(1) [OF inv1] h] sp by simp
    have "length (f (cached_view c b)) = 4096" using assms(3) view_length_cached [OF assms(1)] by blast
    then show ?thesis
      using finish_write [OF bc_inv_exceptI [OF inv1] h assms(2)] sp rd assms(4) Some d by (auto simp: blk_update_def)
  qed
qed

lemma blk_fill_spec:
  assumes "bc_inv c" and "dev_block b" and "length bs = 4096" and "blk_fill bs b c = (ok, c')"
  shows "bc_inv c' \<and> cached_view c' = (if ok then (cached_view c)(b := bs) else cached_view c)"
proof -
  obtain q c1 where g: "bcache_get b c = (q, c1)" by fastforce
  note sp = bcache_get_spec [OF assms(1) g]
  show ?thesis
  proof (cases q)
    case None
    then show ?thesis using sp g assms(4) by (auto simp: blk_fill_def)
  next
    case (Some i)
    then have "(cached_view c1)(b := bs) = (cached_view c)(b := bs)" using sp by (auto simp: fun_eq_iff)
    then show ?thesis
      using finish_write [of i c1 b bs] sp g assms(2-4) Some by (auto simp: blk_fill_def)
  qed
qed

interpretation bstore: block_store blk_peek blk_update blk_fill bc_inv cached_view dev_block
  by (unfold_locales; (rule view_length_cached blk_peek_spec blk_update_spec blk_fill_spec; assumption?))

section \<open>Flushing\<close>

lemma flush_list_spec:
  assumes "bc_inv c" and "set is \<subseteq> set (lru c)"
  shows "bc_inv (flush_list is c) \<and> cached_view (flush_list is c) = cached_view c
    \<and> (\<forall>j k. holds (flush_list is c) j k \<longleftrightarrow> holds c j k)
    \<and> (dev_writes_ok (disk c) \<longrightarrow> (\<forall>j. dirty (pool (flush_list is c) ! j) \<longrightarrow> dirty (pool c ! j) \<and> j \<notin> set is))"
  using assms
proof (induction "is" arbitrary: c)
  case Nil
  then show ?case by simp
next
  case (Cons i "is")
  note inv = Cons.prems(1)
  note ix = bc_invD(1) [OF inv]
  have i: "i < BCACHE_N_BLOCKS" using Cons.prems(2) index_okD(3) [OF ix, of i] by auto
  show ?case
  proof (cases "dirty (pool c ! i)")
    case False
    then show ?thesis using Cons.IH [OF inv] Cons.prems(2) by (auto simp: Let_def)
  next
    case True
    obtain rc d' where w: "ata_write_block4k (block_num (pool c ! i)) (data (pool c ! i)) (disk c) = (rc, d')" by fastforce
    note wb = write_back [OF inv i True w]
    define c1 where "c1 = (if rc = 0 then set_buf i ((pool c ! i)\<lparr>dirty := False\<rparr>) (c\<lparr>disk := d'\<rparr>) else c\<lparr>disk := d'\<rparr>)"
    have f: "flush_list (i # is) c = flush_list is c1" using True w by (simp add: Let_def c1_def)
    have inv1: "bc_inv c1" "cached_view c1 = cached_view c" "lru c1 = lru c" "disk c1 = d'" using wb by (simp_all add: c1_def)
    have h1: "holds c1 j k = holds c j k" for j k
      using holds_set_buf [of "(pool c ! i)\<lparr>dirty := False\<rparr>" "c\<lparr>disk := d'\<rparr>" i j k] by (simp add: c1_def)
    have "dev_writes_ok (disk c) \<Longrightarrow> rc = 0 \<and> dev_writes_ok d'"
      using ata_write_good [of "disk c" "block_num (pool c ! i)" "data (pool c ! i)"] w by simp
    moreover have "rc = 0 \<Longrightarrow> dirty (pool c1 ! j) \<longleftrightarrow> dirty (pool c ! j) \<and> j \<noteq> i" for j
      using nth_upd [OF index_okD(1) [OF ix] i] by (auto simp: c1_def)
    ultimately show ?thesis using Cons.IH [OF inv1(1)] Cons.prems(2) inv1 h1 unfolding f by auto
  qed
qed

section \<open>Properties\<close>

text \<open>C6 (refinement). The cache is transparent: reading a block through it, whatever was cached, evicted or
  written back on the way, either fails or returns the block's current content, and no access changes the content
  any user sees.\<close>

theorem bcache_read_transparent:
  assumes "bc_inv c" and "dev_block b" and "bcache_read b c = (r, c')"
  shows "bc_inv c' \<and> cached_view c' = cached_view c
    \<and> (case r of None \<Rightarrow> True | Some i \<Rightarrow> valid (pool c' ! i) \<and> block_num (pool c' ! i) = b \<and> data (pool c' ! i) = cached_view c b)"
proof -
  note sp = bcache_read_spec [OF assms]
  then show ?thesis
    using view_hit [OF bc_invD(1), of c' _ b] by (auto simp: holds_def split: option.splits)
qed

text \<open>Changing a block in place and overwriting a whole block, as the file system does them,
  change exactly that block's content; when no buffer can be had they change nothing.\<close>

theorem bcache_write_exact:
  assumes "bc_inv c" and "dev_block b" and "length bs = 4096"
  shows "(case blk_fill bs b c of (ok, c') \<Rightarrow> bc_inv c' \<and> cached_view c' = (if ok then (cached_view c)(b := bs) else cached_view c))
    \<and> (case blk_update (\<lambda>_. bs) b c of (ok, c') \<Rightarrow>
         bc_inv c' \<and> cached_view c' = (if ok then (cached_view c)(b := bs) else cached_view c))"
  using bstore.fill_law [OF assms] bstore.upd_law [OF assms(1,2), of "\<lambda>_. bs"] assms(3) by (auto split: prod.splits)

text \<open>C28 (safety). Flushing makes every cached write durable: on a device whose writes complete, each block on
  the disk afterwards is the content its users see.\<close>

theorem bcache_flush_all_durable:
  assumes "bc_inv c" and "dev_writes_ok (disk c)"
  shows "disk_block (disk (bcache_flush_all c)) = cached_view c"
proof
  fix b
  define c' where "c' = bcache_flush_all c"
  have sp: "bc_inv c'" "cached_view c' = cached_view c" "\<forall>j. dirty (pool c' ! j) \<longrightarrow> dirty (pool c ! j) \<and> j \<notin> set (lru c)"
    "\<forall>j k. holds c' j k \<longleftrightarrow> holds c j k"
    using flush_list_spec [OF assms(1), of "lru c"] assms(2) by (simp_all add: c'_def bcache_flush_all_def)
  note ix = bc_invD(1) [OF sp(1)]
  have "cached_view c' b = disk_block (disk c') b"
  proof (cases "\<exists>i. holds c' i b")
    case True
    then obtain i where i: "holds c' i b" by blast
    then have "i \<in> set (lru c)" using sp(4) index_okD(3) [OF bc_invD(1) [OF assms(1)], of i] by (auto simp: holds_def)
    then have "\<not> dirty (pool c' ! i)" using sp(3) by blast
    then show ?thesis using i view_hit [OF ix i] bc_inv_buf [OF sp(1), of i] by (auto simp: holds_def buf_ok_def)
  next
    case False
    then show ?thesis using view_miss [OF ix] by blast
  qed
  then show "disk_block (disk (bcache_flush_all c)) b = cached_view c b" using sp(2) by (simp add: c'_def)
qed

section \<open>Witnesses\<close>

definition fresh_cache :: bcache where
  "fresh_cache = snd (bcache_init True \<lparr>pool = [], hash_table = \<lambda>_. [], lru = [], stat_hit = 0, stat_miss = 0, disk = good_disk\<rparr>)"

lemma fresh_cache_inv: "bc_inv fresh_cache" "disk fresh_cache = good_disk"
proof -
  have f: "pool fresh_cache = replicate BCACHE_N_BLOCKS zero_buffer" "lru fresh_cache = []" "hash_table fresh_cache = (\<lambda>_. [])"
    "disk fresh_cache = good_disk" by (simp_all add: fresh_cache_def bcache_init_def)
  show "disk fresh_cache = good_disk" by (rule f)
  have v: "i < BCACHE_N_BLOCKS \<Longrightarrow> \<not> valid (pool fresh_cache ! i)" for i by (simp add: f zero_buffer_def)
  have "index_ok fresh_cache" by (rule index_okI) (use v in \<open>auto simp: f holds_def\<close>)
  then show "bc_inv fresh_cache"
    by (simp add: bc_inv_def f good_disk_ok buf_ok_def zero_buffer_def BCACHE_BLOCK_SIZE_def)
qed

theorem bcache_read_transparent_witness:
  "\<exists>r c'. bcache_read 7 fresh_cache = (r, c') \<and> bc_inv c' \<and> cached_view c' = cached_view fresh_cache"
proof -
  obtain r c' where "bcache_read 7 fresh_cache = (r, c')" by fastforce
  then show ?thesis using bcache_read_transparent [OF fresh_cache_inv(1), of 7 r c'] by (auto simp: dev_block_def)
qed

theorem bcache_write_exact_witness:
  "\<exists>ok c'. blk_fill (replicate 4096 1) 9 fresh_cache = (ok, c') \<and> bc_inv c'
     \<and> cached_view c' = (if ok then (cached_view fresh_cache)(9 := replicate 4096 1) else cached_view fresh_cache)"
  using bcache_write_exact [OF fresh_cache_inv(1), of 9 "replicate 4096 1"] by (auto simp: dev_block_def split: prod.splits)

theorem bcache_flush_all_durable_witness:
  "disk_block (disk (bcache_flush_all fresh_cache)) = cached_view fresh_cache"
  using bcache_flush_all_durable [OF fresh_cache_inv(1)] good_disk_ok(2) by (simp add: fresh_cache_inv)

end
