(* ===== verification/Kfs_State.thy ===== *)
theory Kfs_State
  imports Bcache
begin

text \<open>
  Data and state of KyuzenFS V4: the on-disk structures of \<^verbatim>\<open>include/kyuzenfs_v4.h\<close>, the inode cache
  types of \<^verbatim>\<open>kernel/fs/kfs_internal.h\<close> and the global state of \<^verbatim>\<open>kernel/fs/kfs_super.c\<close>.

  A packed structure is a record together with its byte encoding at the offsets of the header; the
  decoders are proved to invert the encoders on values that fit their fields.  A pointer to a cached
  inode is its index in \<open>ino_pool\<close>, a hash chain the list of the indices on it.
\<close>

section \<open>Constants\<close>

definition KZFS_MAGIC :: nat where "KZFS_MAGIC = 1397119563"
definition KZFS_VERSION :: nat where "KZFS_VERSION = 262144"
definition KZFS_BLOCK_SIZE :: nat where "KZFS_BLOCK_SIZE = 4096"
definition KZFS_INODE_SIZE :: nat where "KZFS_INODE_SIZE = 128"
definition KZFS_INODES_PER_BLOCK :: nat where "KZFS_INODES_PER_BLOCK = 32"
definition KZFS_NAME_MAX :: nat where "KZFS_NAME_MAX = 255"
definition KZFS_NUM_DIRECT_EXTENTS :: nat where "KZFS_NUM_DIRECT_EXTENTS = 4"
definition KZFS_EXTS_PER_IND_BLOCK :: nat where "KZFS_EXTS_PER_IND_BLOCK = 341"
definition KZFS_MAX_EXTENTS :: nat where "KZFS_MAX_EXTENTS = 345"
definition KZFS_INODE_FLAG_FILE :: nat where "KZFS_INODE_FLAG_FILE = 1"
definition KZFS_INODE_FLAG_DIR :: nat where "KZFS_INODE_FLAG_DIR = 2"
definition INO_HASH_SIZE :: nat where "INO_HASH_SIZE = 128"
definition INO_CACHE_MAX :: nat where "INO_CACHE_MAX = 64"

text \<open>Error codes.\<close>

datatype kzfs_err = EOK | ENOENT | EIO | ENOSPC | EINVAL | EEXIST | ENOTDIR | EISDIR | ENOMEM | ENAMETOOLONG | EBADF

section \<open>On-disk structures\<close>

record kzfs_superblock =
  magic :: nat
  version :: nat
  block_size :: nat
  pad0 :: nat
  total_blocks :: nat
  free_blocks :: nat
  total_inodes :: nat
  free_inodes :: nat
  block_bitmap_start :: nat
  block_bitmap_blocks :: nat
  pad1 :: nat
  inode_bitmap_start :: nat
  inode_bitmap_blocks :: nat
  pad2 :: nat
  inode_table_start :: nat
  inode_table_blocks :: nat
  pad3 :: nat
  data_blocks_start :: nat
  root_inode :: nat
  pad4 :: nat
  reserved :: "byte list"

definition sb_bytes :: "kzfs_superblock \<Rightarrow> byte list" where
  "sb_bytes s =
     le_bytes 4 (magic s) @ le_bytes 4 (version s) @ le_bytes 4 (block_size s) @ le_bytes 4 (pad0 s)
     @ le_bytes 8 (total_blocks s) @ le_bytes 8 (free_blocks s) @ le_bytes 4 (total_inodes s) @ le_bytes 4 (free_inodes s)
     @ le_bytes 8 (block_bitmap_start s) @ le_bytes 4 (block_bitmap_blocks s) @ le_bytes 4 (pad1 s)
     @ le_bytes 8 (inode_bitmap_start s) @ le_bytes 4 (inode_bitmap_blocks s) @ le_bytes 4 (pad2 s)
     @ le_bytes 8 (inode_table_start s) @ le_bytes 4 (inode_table_blocks s) @ le_bytes 4 (pad3 s)
     @ le_bytes 8 (data_blocks_start s) @ le_bytes 4 (root_inode s) @ le_bytes 4 (pad4 s) @ reserved s"

definition le_at :: "nat \<Rightarrow> nat \<Rightarrow> byte list \<Rightarrow> nat" where
  "le_at off n bs = le_val (bslice off n bs)"

definition sb_of_bytes :: "byte list \<Rightarrow> kzfs_superblock" where
  "sb_of_bytes d =
     \<lparr>magic = le_at 0 4 d, version = le_at 4 4 d, block_size = le_at 8 4 d, pad0 = le_at 12 4 d,
      total_blocks = le_at 16 8 d, free_blocks = le_at 24 8 d, total_inodes = le_at 32 4 d, free_inodes = le_at 36 4 d,
      block_bitmap_start = le_at 40 8 d, block_bitmap_blocks = le_at 48 4 d, pad1 = le_at 52 4 d,
      inode_bitmap_start = le_at 56 8 d, inode_bitmap_blocks = le_at 64 4 d, pad2 = le_at 68 4 d,
      inode_table_start = le_at 72 8 d, inode_table_blocks = le_at 80 4 d, pad3 = le_at 84 4 d,
      data_blocks_start = le_at 88 8 d, root_inode = le_at 96 4 d, pad4 = le_at 100 4 d, reserved = bslice 104 3992 d\<rparr>"

record kzfs_extent =
  start_block :: nat
  block_count :: nat

definition no_extent :: kzfs_extent where
  "no_extent = \<lparr>start_block = 0, block_count = 0\<rparr>"

definition extent_bytes :: "kzfs_extent \<Rightarrow> byte list" where
  "extent_bytes e = le_bytes 8 (start_block e) @ le_bytes 4 (block_count e)"

definition extent_of_bytes :: "byte list \<Rightarrow> kzfs_extent" where
  "extent_of_bytes d = \<lparr>start_block = le_at 0 8 d, block_count = le_at 8 4 d\<rparr>"

record kzfs_inode =
  d_mode :: nat
  d_uid :: nat
  d_gid :: nat
  d_links :: nat
  d_size :: nat
  d_blocks :: nat
  d_atime :: nat
  d_mtime :: nat
  d_ctime :: nat
  d_direct :: "kzfs_extent list"
  d_indirect :: nat

definition inode_bytes :: "kzfs_inode \<Rightarrow> byte list" where
  "inode_bytes d =
     le_bytes 2 (d_mode d) @ le_bytes 2 (d_uid d) @ le_bytes 2 (d_gid d) @ le_bytes 2 (d_links d)
     @ le_bytes 8 (d_size d) @ le_bytes 8 (d_blocks d) @ le_bytes 8 (d_atime d) @ le_bytes 8 (d_mtime d) @ le_bytes 8 (d_ctime d)
     @ concat (map extent_bytes (d_direct d)) @ le_bytes 8 (d_indirect d) @ replicate 24 0"

definition inode_of_bytes :: "byte list \<Rightarrow> kzfs_inode" where
  "inode_of_bytes b =
     \<lparr>d_mode = le_at 0 2 b, d_uid = le_at 2 2 b, d_gid = le_at 4 2 b, d_links = le_at 6 2 b,
      d_size = le_at 8 8 b, d_blocks = le_at 16 8 b, d_atime = le_at 24 8 b, d_mtime = le_at 32 8 b, d_ctime = le_at 40 8 b,
      d_direct = map (\<lambda>i. extent_of_bytes (bslice (48 + 12 * i) 12 b)) [0..<4], d_indirect = le_at 96 8 b\<rparr>"

section \<open>Runtime inodes and the global state\<close>

record kzfs_inode_mem =
  i_ino :: nat
  i_mode :: nat
  i_links :: nat
  i_size :: nat
  i_blocks :: nat
  i_direct :: "kzfs_extent list"
  i_indirect :: nat
  i_dirty :: bool
  i_refcount :: int

record ino_entry =
  e_ino :: kzfs_inode_mem
  e_used :: bool
  e_dead :: bool

record kfs =
  sb_cache :: kzfs_superblock
  fs_mounted :: bool
  bm_mem :: "byte list"
  bm_blocks :: nat
  bm_dirty :: bool
  ibm_mem :: "byte list"
  ibm_blocks :: nat
  ibm_dirty :: bool
  it_block0 :: nat
  root_ino :: nat
  data_start :: nat
  ino_pool :: "ino_entry list"
  ino_hash :: "nat \<Rightarrow> nat list"
  bc :: bcache
  heap_future :: "(nat \<Rightarrow> byte) option list"

text \<open>
  The kernel heap as the file system sees it.  \<open>heap_future\<close> lists the outcomes of the coming calls of
  \<^verbatim>\<open>kmalloc\<close>: failure, or a buffer with some initial content; when the list is used up allocations succeed with
  cleared memory.  \<^verbatim>\<open>kfree\<close> has no effect the file system can observe.
\<close>

definition kmalloc_fs :: "nat \<Rightarrow> kfs \<Rightarrow> byte list option \<times> kfs" where
  "kmalloc_fs n s =
     (case heap_future s of
        [] \<Rightarrow> (Some (replicate n 0), s)
      | f # fs \<Rightarrow> (map_option (\<lambda>g. map g [0..<n]) f, s\<lparr>heap_future := fs\<rparr>))"

text \<open>The three ways the file system touches a block, on the whole state.\<close>

definition peek_block :: "nat \<Rightarrow> kfs \<Rightarrow> byte list option \<times> kfs" where
  "peek_block b s = (let (r, c) = blk_peek b (bc s) in (r, s\<lparr>bc := c\<rparr>))"

definition update_block :: "(byte list \<Rightarrow> byte list) \<Rightarrow> nat \<Rightarrow> kfs \<Rightarrow> bool \<times> kfs" where
  "update_block f b s = (let (ok, c) = blk_update f b (bc s) in (ok, s\<lparr>bc := c\<rparr>))"

definition fill_block :: "byte list \<Rightarrow> nat \<Rightarrow> kfs \<Rightarrow> bool \<times> kfs" where
  "fill_block d b s = (let (ok, c) = blk_fill d b (bc s) in (ok, s\<lparr>bc := c\<rparr>))"

section \<open>The inode cache index\<close>

definition ino_hash_fn :: "nat \<Rightarrow> nat" where
  "ino_hash_fn n = n mod INO_HASH_SIZE"

definition ino_cache_find :: "nat \<Rightarrow> kfs \<Rightarrow> nat option" where
  "ino_cache_find n s =
     find (\<lambda>i. e_used (ino_pool s ! i) \<and> \<not> e_dead (ino_pool s ! i) \<and> i_ino (e_ino (ino_pool s ! i)) = n)
       (ino_hash s (ino_hash_fn n))"

definition set_entry :: "nat \<Rightarrow> ino_entry \<Rightarrow> kfs \<Rightarrow> kfs" where
  "set_entry i e s = s\<lparr>ino_pool := (ino_pool s)[i := e]\<rparr>"

definition ino_cache_unlink :: "nat \<Rightarrow> kfs \<Rightarrow> kfs" where
  "ino_cache_unlink i s =
     (let e = ino_pool s ! i; h = ino_hash_fn (i_ino (e_ino e)) in
      set_entry i (e\<lparr>e_used := False\<rparr>) (s\<lparr>ino_hash := (ino_hash s)(h := remove1 i (ino_hash s h))\<rparr>))"

definition ino_cache_reset :: "kfs \<Rightarrow> kfs" where
  "ino_cache_reset s =
     s\<lparr>ino_hash := (\<lambda>_. []),
       ino_pool := map (\<lambda>e. e\<lparr>e_used := False, e_dead := False, e_ino := (e_ino e)\<lparr>i_refcount := 0\<rparr>\<rparr>) (ino_pool s)\<rparr>"

definition ino_cache_insert_nolock :: "nat \<Rightarrow> kfs \<Rightarrow> kfs" where
  "ino_cache_insert_nolock i s =
     (let e = (ino_pool s ! i)\<lparr>e_used := True, e_dead := False\<rparr>; h = ino_hash_fn (i_ino (e_ino e)) in
      (set_entry i e s)\<lparr>ino_hash := (ino_hash s)(h := i # ino_hash s h)\<rparr>)"

section \<open>Encodings invert\<close>

lemma bslice_here: "length xs = n \<Longrightarrow> bslice 0 n (xs @ ys) = xs"
  by (simp add: bslice_def)

lemma bslice_skip: "length xs \<le> off \<Longrightarrow> bslice off n (xs @ ys) = bslice (off - length xs) n ys"
  by (simp add: bslice_def)

lemmas field_simps_le = le_at_def bslice_here bslice_skip le_val_le_bytes

definition extent_fits :: "kzfs_extent \<Rightarrow> bool" where
  "extent_fits e \<longleftrightarrow> start_block e < 2 ^ 64 \<and> block_count e < 2 ^ 32"

lemma length_extent_bytes [simp]: "length (extent_bytes e) = 12"
  by (simp add: extent_bytes_def)

lemma extent_roundtrip: "extent_fits e \<Longrightarrow> extent_of_bytes (extent_bytes e) = e"
  by (simp add: extent_of_bytes_def extent_bytes_def extent_fits_def field_simps_le bslice_def)

lemma extent_of_bytes_fits: "extent_fits (extent_of_bytes (bslice off 12 d))" if "off + 12 \<le> length d"
proof -
  have "length (bslice 0 8 (bslice off 12 d)) = 8" "length (bslice 8 4 (bslice off 12 d)) = 4"
    using that by (simp_all add: bslice_def)
  then show ?thesis
    using le_val_less [of "bslice 0 8 (bslice off 12 d)"] le_val_less [of "bslice 8 4 (bslice off 12 d)"]
    by (simp add: extent_fits_def extent_of_bytes_def le_at_def)
qed

section \<open>The block store seen by the file system\<close>

definition kinv :: "kfs \<Rightarrow> bool" where
  "kinv s = bc_inv (bc s)"

definition kview :: "kfs \<Rightarrow> nat \<Rightarrow> byte list" where
  "kview s = cached_view (bc s)"

interpretation kst: block_store peek_block update_block fill_block kinv kview dev_block
proof
  fix s s' b r
  assume "kinv s" "dev_block b" "peek_block b s = (r, s')"
  then show "kinv s' \<and> kview s' = kview s \<and> (r = None \<or> r = Some (kview s b))"
    using bstore.peek_law [of "bc s" b r "bc s'"] by (auto simp: peek_block_def kinv_def kview_def split: prod.splits)
next
  fix s s' b ok f
  assume "kinv s" "dev_block b" "\<And>x. length x = 4096 \<Longrightarrow> length (f x) = 4096" "update_block f b s = (ok, s')"
  then show "kinv s' \<and> kview s' = (if ok then (kview s)(b := f (kview s b)) else kview s)"
    using bstore.upd_law [of "bc s" b f ok "bc s'"] by (auto simp: update_block_def kinv_def kview_def split: prod.splits)
next
  fix s s' b ok bs
  assume "kinv s" "dev_block b" "length bs = 4096" "fill_block bs b s = (ok, s')"
  then show "kinv s' \<and> kview s' = (if ok then (kview s)(b := bs) else kview s)"
    using bstore.fill_law [of "bc s" b bs ok "bc s'"] by (auto simp: fill_block_def kinv_def kview_def split: prod.splits)
qed (simp add: kinv_def kview_def view_length_cached)

text \<open>Block accesses change nothing but the cache.\<close>

lemma block_frame:
  "peek_block b s = (r, s') \<Longrightarrow> s' = s\<lparr>bc := bc s'\<rparr>" "update_block f b s = (ok, s') \<Longrightarrow> s' = s\<lparr>bc := bc s'\<rparr>"
  "fill_block d b s = (ok, s') \<Longrightarrow> s' = s\<lparr>bc := bc s'\<rparr>"
  by (auto simp: peek_block_def update_block_def fill_block_def split: prod.splits)

end
