(* ===== verification/Kfs_Balloc.thy ===== *)
theory Kfs_Balloc
  imports Kfs_State
begin

text \<open>
  Block and inode allocation, \<^verbatim>\<open>kernel/fs/kfs_balloc.c\<close>.

  The bit helpers interpret the \<open>bitmap\<close> interface.  The run allocator is shown to return a run of
  free blocks of the data area, of the wanted length whenever such a run exists and of maximal length
  otherwise, and the free-block counter stays the exact number of clear bits.
\<close>

section \<open>Bitmap helpers\<close>

definition bm_test :: "byte list \<Rightarrow> nat \<Rightarrow> bool" where
  "bm_test m b \<longleftrightarrow> drop_bit (b mod 8) (m ! (b div 8)) AND 1 = 1"

definition bm_set :: "byte list \<Rightarrow> nat \<Rightarrow> byte list" where
  "bm_set m b = m[b div 8 := m ! (b div 8) OR push_bit (b mod 8) 1]"

definition bm_clear :: "byte list \<Rightarrow> nat \<Rightarrow> byte list" where
  "bm_clear m b = m[b div 8 := m ! (b div 8) AND NOT (push_bit (b mod 8) 1)]"

definition bm_alloc_bit :: "byte list \<Rightarrow> nat \<Rightarrow> nat \<Rightarrow> nat option \<times> byte list" where
  "bm_alloc_bit m total_bits start =
     (case first_clear (bm_test m) start total_bits of None \<Rightarrow> (None, m) | Some b \<Rightarrow> (Some b, bm_set m b))"

section \<open>Inode numbers\<close>

definition ino_alloc_nolock :: "kfs \<Rightarrow> nat option \<times> kfs" where
  "ino_alloc_nolock s =
     (case bm_alloc_bit (ibm_mem s) (total_inodes (sb_cache s)) 1 of
        (None, m) \<Rightarrow> (None, s)
      | (Some b, m) \<Rightarrow>
          (Some b, s\<lparr>ibm_mem := m, ibm_dirty := True,
                     sb_cache := (sb_cache s)\<lparr>free_inodes := sub32 (free_inodes (sb_cache s)) 1\<rparr>\<rparr>))"

definition mark_dead :: "nat \<Rightarrow> kfs \<Rightarrow> kfs" where
  "mark_dead i s =
     (let e = ino_pool s ! i;
          s1 = set_entry i (e\<lparr>e_dead := True, e_ino := (e_ino e)\<lparr>i_dirty := False\<rparr>\<rparr>) s
      in if i_refcount (e_ino e) = 0 then ino_cache_unlink i s1 else s1)"

definition ino_free_nolock :: "nat \<Rightarrow> kfs \<Rightarrow> kfs" where
  "ino_free_nolock n s =
     (if n = 0 \<or> n > total_inodes (sb_cache s) then s
      else if \<not> bm_test (ibm_mem s) n then s
      else
        let s1 = (case ino_cache_find n s of None \<Rightarrow> s | Some i \<Rightarrow> mark_dead i s)
        in s1\<lparr>ibm_mem := bm_clear (ibm_mem s1) n, ibm_dirty := True,
              sb_cache := (sb_cache s1)\<lparr>free_inodes := u32 (free_inodes (sb_cache s1) + 1)\<rparr>\<rparr>)"

section \<open>Block runs\<close>

text \<open>The scan for a run: \<open>rs\<close>, \<open>rl\<close> the current run, \<open>bs\<close>, \<open>bl\<close> the best one.\<close>

function run_scan :: "(nat \<Rightarrow> bool) \<Rightarrow> nat \<Rightarrow> nat \<Rightarrow> nat \<Rightarrow> nat \<Rightarrow> nat \<Rightarrow> nat \<Rightarrow> nat \<Rightarrow> nat \<times> nat" where
  "run_scan t tot want b rs rl bs bl =
     (if b < tot then
        if \<not> t b then
          let rs' = (if rl = 0 then b else rs);
              rl' = rl + 1;
              (bs', bl') = (if u32 rl' > bl then (rs', u32 rl') else (bs, bl))
          in if rl' \<ge> want then (bs', bl') else run_scan t tot want (b + 1) rs' rl' bs' bl'
        else run_scan t tot want (b + 1) rs 0 bs bl
      else (bs, bl))"
  by pat_completeness auto
termination
  by (relation "measure (\<lambda>(t, tot, want, b, rs, rl, bs, bl). tot - b)") auto

declare run_scan.simps [simp del]

definition blk_alloc_run_nolock :: "nat \<Rightarrow> kfs \<Rightarrow> nat \<times> nat \<times> kfs" where
  "blk_alloc_run_nolock want s =
     (if want = 0 then (0, 0, s)
      else
        let (best_start, best_len) = run_scan (bm_test (bm_mem s)) (total_blocks (sb_cache s)) want (data_start s) 0 0 0 0
        in if best_len = 0 then (0, 0, s)
           else let n = (if best_len \<ge> want then want else best_len)
                in (best_start, n,
                    s\<lparr>bm_mem := fold (\<lambda>b m. bm_set m b) [best_start..<best_start + n] (bm_mem s), bm_dirty := True,
                      sb_cache := (sb_cache s)\<lparr>free_blocks := sub64 (free_blocks (sb_cache s)) n\<rparr>\<rparr>))"

fun free_bits :: "nat list \<Rightarrow> byte list \<Rightarrow> nat \<Rightarrow> byte list \<times> nat" where
  "free_bits [] m k = (m, k)"
| "free_bits (b # bs) m k = (if bm_test m b then free_bits bs (bm_clear m b) (u64 (k + 1)) else free_bits bs m k)"

definition blk_free_run_nolock :: "nat \<Rightarrow> nat \<Rightarrow> kfs \<Rightarrow> kfs" where
  "blk_free_run_nolock start count s =
     (let (m, k) = free_bits [start..<min (u64 (start + count)) (total_blocks (sb_cache s))] (bm_mem s) (free_blocks (sb_cache s))
      in s\<lparr>bm_mem := m, bm_dirty := True, sb_cache := (sb_cache s)\<lparr>free_blocks := k\<rparr>\<rparr>)"

section \<open>The bit helpers implement the bitmap interface\<close>

lemma bm_test_bit: "bm_test m b \<longleftrightarrow> bit (m ! (b div 8)) (b mod 8)"
  by (simp add: bm_test_def shifted_low_bit_iff)

interpretation bm: bitmap bm_test bm_set bm_clear
proof
  fix m b b'
  show "length (bm_set m b) = length m" and "length (bm_clear m b) = length m"
    by (simp_all add: bm_set_def bm_clear_def)
  assume "b < 8 * length m"
  then have in_range: "b div 8 < length m" by (rule bitpos_div_less)
  show "bm_test (bm_set m b) b' \<longleftrightarrow> b' = b \<or> bm_test m b'"
    using in_range bitpos_eq_iff [of b' b]
    by (cases "b' div 8 = b div 8") (auto simp: bm_test_bit bm_set_def bit_byte_set)
  show "bm_test (bm_clear m b) b' \<longleftrightarrow> b' \<noteq> b \<and> bm_test m b'"
    using in_range bitpos_eq_iff [of b' b]
    by (cases "b' div 8 = b div 8") (auto simp: bm_test_bit bm_clear_def bit_byte_clear)
qed

section \<open>Runs of free blocks\<close>

definition free_run :: "(nat \<Rightarrow> bool) \<Rightarrow> nat \<Rightarrow> nat \<Rightarrow> nat \<Rightarrow> nat \<Rightarrow> bool" where
  "free_run t lo hi st n \<longleftrightarrow> lo \<le> st \<and> st + n \<le> hi \<and> (\<forall>k. st \<le> k \<and> k < st + n \<longrightarrow> \<not> t k)"

text \<open>The loop invariant at block \<open>b\<close>.\<close>

definition scan_inv :: "(nat \<Rightarrow> bool) \<Rightarrow> nat \<Rightarrow> nat \<Rightarrow> nat \<Rightarrow> nat \<Rightarrow> nat \<Rightarrow> nat \<Rightarrow> nat \<Rightarrow> bool" where
  "scan_inv t lo want b rs rl bs bl \<longleftrightarrow>
     lo \<le> b \<and> (rl > 0 \<longrightarrow> rs + rl = b \<and> free_run t lo b rs rl) \<and> rl \<le> bl \<and> bl < want
     \<and> (bl > 0 \<longrightarrow> free_run t lo b bs bl)
     \<and> (\<forall>st n. free_run t lo b st n \<longrightarrow> n \<le> bl) \<and> (\<forall>st n. free_run t lo b st n \<and> st + n = b \<longrightarrow> n \<le> rl)"

lemma free_run_mono: "free_run t lo b st n \<Longrightarrow> b \<le> hi \<Longrightarrow> free_run t lo hi st n"
  by (auto simp: free_run_def)

lemma free_run_Suc:
  assumes "free_run t lo (Suc b) st n"
  shows "free_run t lo b st n \<or> (\<not> t b \<and> n > 0 \<and> st + n = Suc b \<and> free_run t lo b st (n - 1)) \<or> n = 0"
  using assms unfolding free_run_def by (cases "st + n = Suc b") auto

lemma scan_inv_used:
  assumes "scan_inv t lo want b rs rl bs bl" and "t b"
  shows "scan_inv t lo want (Suc b) rs 0 bs bl"
proof -
  have "n \<le> bl" if "free_run t lo (Suc b) st n" for st n
    using free_run_Suc [OF that] assms by (auto simp: scan_inv_def)
  moreover have "n = 0" if "free_run t lo (Suc b) st n" "st + n = Suc b" for st n
    using that assms(2) by (cases n) (auto simp: free_run_def)
  ultimately show ?thesis
    using assms(1) free_run_mono [of t lo b bs bl "Suc b"] by (auto simp: scan_inv_def)
qed

lemma scan_inv_free:
  assumes inv: "scan_inv t lo want b rs rl bs bl" and "\<not> t b"
    and "rs' = (if rl = 0 then b else rs)" and "(bs', bl') = (if rl + 1 > bl then (rs', rl + 1) else (bs, bl))"
  shows "free_run t lo (Suc b) rs' (rl + 1)" and "bl' > 0 \<longrightarrow> free_run t lo (Suc b) bs' bl'"
    and "\<And>st n. free_run t lo (Suc b) st n \<Longrightarrow> n \<le> bl'" and "\<And>st n. free_run t lo (Suc b) st n \<Longrightarrow> st + n = Suc b \<Longrightarrow> n \<le> rl + 1"
    and "rl + 1 \<le> bl'" and "rs' + (rl + 1) = Suc b"
proof -
  show cur: "free_run t lo (Suc b) rs' (rl + 1)" and sum: "rs' + (rl + 1) = Suc b"
    using assms by (auto simp: scan_inv_def free_run_def less_Suc_eq)
  show le: "rl + 1 \<le> bl'" using assms(4) by (auto split: if_splits)
  show "bl' > 0 \<longrightarrow> free_run t lo (Suc b) bs' bl'"
    using cur assms(4) inv free_run_mono [of t lo b bs bl "Suc b"] by (auto simp: scan_inv_def split: if_splits)
  show last: "n \<le> rl + 1" if "free_run t lo (Suc b) st n" "st + n = Suc b" for st n
  proof (cases n)
    case (Suc k)
    then have "free_run t lo b st k" "st + k = b" using that by (auto simp: free_run_def)
    then show ?thesis using inv Suc by (auto simp: scan_inv_def)
  qed simp
  show "n \<le> bl'" if "free_run t lo (Suc b) st n" for st n
  proof (cases "st + n = Suc b")
    case True
    then show ?thesis using last [OF that] le by simp
  next
    case False
    then have "free_run t lo b st n" using that by (auto simp: free_run_def)
    then have "n \<le> bl" using inv by (auto simp: scan_inv_def)
    then show ?thesis using assms(4) by (auto split: if_splits)
  qed
qed

lemma run_scan_spec:
  assumes "scan_inv t lo want b rs rl bs bl" and "b \<le> tot" and "tot < 4294967296"
    and "run_scan t tot want b rs rl bs bl = (st, n)"
  shows "(n > 0 \<longrightarrow> free_run t lo tot st n) \<and> (n < want \<longrightarrow> (\<forall>st' n'. free_run t lo tot st' n' \<longrightarrow> n' \<le> n)) \<and> n \<le> want"
  using assms
proof (induction "tot - b" arbitrary: b rs rl bs bl rule: less_induct)
  case less
  show ?case
  proof (cases "b < tot")
    case False
    then have "(st, n) = (bs, bl)" "b = tot" using less.prems by (simp_all add: run_scan.simps [of t tot want b] run_scan.simps [of t tot want tot])
    then show ?thesis using less.prems(1) by (auto simp: scan_inv_def)
  next
    case in_range: True
    have dec: "tot - (b + 1) < tot - b" "b + 1 \<le> tot" using in_range by simp_all
    show ?thesis
    proof (cases "t b")
      case True
      then have "run_scan t tot want (b + 1) rs 0 bs bl = (st, n)"
        using less.prems(4) in_range by (simp add: run_scan.simps [of t tot want b])
      then show ?thesis
        using less.hyps [OF dec(1) _ dec(2) less.prems(3)] scan_inv_used [OF less.prems(1) True] by simp
    next
      case False
      define rs' where "rs' = (if rl = 0 then b else rs)"
      obtain bs' bl' where best: "(bs', bl') = (if rl + 1 > bl then (rs', rl + 1) else (bs, bl))" by (metis surj_pair)
      note f = scan_inv_free [OF less.prems(1) False rs'_def best]
      have u: "u32 (rl + 1) = rl + 1"
        using f(1,6) in_range less.prems(3) by (intro u32_id) (simp add: free_run_def)
      have eq: "run_scan t tot want b rs rl bs bl = (if rl + 1 \<ge> want then (bs', bl') else run_scan t tot want (b + 1) rs' (rl + 1) bs' bl')"
        unfolding run_scan.simps [of t tot want b] Let_def rs'_def [symmetric] u best [symmetric] using in_range False by simp
      show ?thesis
      proof (cases "rl + 1 \<ge> want")
        case True
        have "bl' = want" using True f(5) best less.prems(1) by (auto simp: scan_inv_def split: if_splits)
        then show ?thesis
          using eq True less.prems(4) f(2) free_run_mono [of t lo "Suc b" bs' bl' tot] in_range by auto
      next
        case more: False
        have "scan_inv t lo want (b + 1) rs' (rl + 1) bs' bl'"
          using f more best less.prems(1) by (auto simp: scan_inv_def split: if_splits)
        moreover have "run_scan t tot want (b + 1) rs' (rl + 1) bs' bl' = (st, n)" using eq more less.prems(4) by simp
        ultimately show ?thesis using less.hyps [OF dec(1) _ dec(2) less.prems(3)] by simp
      qed
    qed
  qed
qed

section \<open>Invariant and effect of the allocators\<close>

text \<open>The bitmaps cover the disk, the metadata area is never free, and the free counter is exact.\<close>

definition bal_wf :: "kfs \<Rightarrow> bool" where
  "bal_wf s \<longleftrightarrow> total_blocks (sb_cache s) \<le> 8 * length (bm_mem s) \<and> total_blocks (sb_cache s) < 4294967296
     \<and> 0 < data_start s \<and> data_start s \<le> total_blocks (sb_cache s)
     \<and> (\<forall>b < data_start s. bm_test (bm_mem s) b)
     \<and> free_blocks (sb_cache s) + count_set (bm_test (bm_mem s)) (total_blocks (sb_cache s)) = total_blocks (sb_cache s)
     \<and> total_inodes (sb_cache s) < 8 * length (ibm_mem s)"

definition free_blks :: "kfs \<Rightarrow> nat set" where
  "free_blks s = {b. b < total_blocks (sb_cache s) \<and> \<not> bm_test (bm_mem s) b}"

lemma scan_inv_start: "0 < want \<Longrightarrow> scan_inv t lo want lo 0 0 0 0"
  by (auto simp: scan_inv_def free_run_def)

lemma blk_alloc_run_cases:
  assumes wf: "bal_wf s" and a: "blk_alloc_run_nolock want s = (st, n, s')" and w: "0 < want"
  shows "(n = 0 \<and> st = 0 \<and> s' = s \<and> free_blks s = {}) \<or>
    (0 < n \<and> n \<le> want \<and> data_start s \<le> st \<and> {st..<st + n} \<subseteq> free_blks s \<and> bal_wf s'
     \<and> free_blks s' = free_blks s - {st..<st + n}
     \<and> free_blocks (sb_cache s) = free_blocks (sb_cache s') + n
     \<and> s' = s\<lparr>bm_mem := bm_mem s', bm_dirty := True, sb_cache := (sb_cache s)\<lparr>free_blocks := free_blocks (sb_cache s')\<rparr>\<rparr>
     \<and> (n < want \<longrightarrow> (\<forall>st' n'. {st'..<st' + n'} \<subseteq> free_blks s \<longrightarrow> n' \<le> n)))"
proof -
  define t tot where "t = bm_test (bm_mem s)" and "tot = total_blocks (sb_cache s)"
  obtain bs bl where sc: "run_scan t tot want (data_start s) 0 0 0 0 = (bs, bl)" by fastforce
  have len: "tot \<le> 8 * length (bm_mem s)" "tot < 4294967296" "data_start s \<le> tot" "\<forall>b < data_start s. t b"
    "free_blocks (sb_cache s) + count_set t tot = tot" "0 < data_start s"
    using wf by (simp_all add: bal_wf_def t_def tot_def)
  note sp = run_scan_spec [OF scan_inv_start [OF w] len(3,2) sc]
  have frun: "free_run t (data_start s) tot st' n'" if "{st'..<st' + n'} \<subseteq> free_blks s" "0 < n'" for st' n'
  proof -
    have free: "k < tot \<and> \<not> t k" if "st' \<le> k" "k < st' + n'" for k
      using \<open>{st'..<st' + n'} \<subseteq> free_blks s\<close> that by (auto simp: free_blks_def t_def tot_def)
    have "data_start s \<le> st'" using free [of st'] len(4) that(2) by (meson le_refl less_add_same_cancel1 not_le)
    moreover have "st' + (n' - 1) < tot" using free [of "st' + (n' - 1)"] that(2) by simp
    then have "st' + n' \<le> tot" using that(2) by linarith
    ultimately show ?thesis using free by (simp add: free_run_def)
  qed
  show ?thesis
  proof (cases "bl = 0")
    case True
    then have "(st, n, s') = (0, 0, s)" using a w sc by (simp add: blk_alloc_run_nolock_def t_def tot_def Let_def)
    moreover have "free_blks s = {}"
    proof (rule ccontr)
      assume "free_blks s \<noteq> {}"
      then obtain b where "b \<in> free_blks s" by blast
      then have "free_run t (data_start s) tot b 1" by (intro frun) auto
      then show False using sp True w by fastforce
    qed
    ultimately show ?thesis by simp
  next
    case False
    have n: "n = bl" "st = bs" "s' = s\<lparr>bm_mem := fold (\<lambda>b m. bm_set m b) [st..<st + n] (bm_mem s), bm_dirty := True,
        sb_cache := (sb_cache s)\<lparr>free_blocks := sub64 (free_blocks (sb_cache s)) n\<rparr>\<rparr>"
      using a w sc sp False by (auto simp: blk_alloc_run_nolock_def t_def tot_def Let_def split: if_splits)
    have run: "free_run t (data_start s) tot st n" using sp False n by simp
    have sub: "{st..<st + n} \<subseteq> free_blks s" using run by (auto simp: free_run_def free_blks_def t_def tot_def)
    have inb: "b < 8 * length (bm_mem s) \<and> b < tot \<and> \<not> t b" if "b \<in> set [st..<st + n]" for b
      using run that len(1) by (auto simp: free_run_def)
    have test: "bm_test (bm_mem s') b \<longleftrightarrow> b \<in> {st..<st + n} \<or> t b" for b
      using bm.test_mark_all [of "[st..<st + n]" "bm_mem s" b] inb by (simp add: n(3) t_def)
    have cnt: "count_set (bm_test (bm_mem s')) tot = count_set t tot + n"
      using bm.count_mark_all [of "[st..<st + n]" "bm_mem s" tot] inb by (simp add: n(3) t_def)
    have le: "count_set t tot + n \<le> tot" using cnt count_set_le [of "bm_test (bm_mem s')" tot] by simp
    have fb: "sub64 (free_blocks (sb_cache s)) n = free_blocks (sb_cache s) - n"
      using len(2,5) le by (intro sub64_id) simp_all
    have s': "sb_cache s' = (sb_cache s)\<lparr>free_blocks := free_blocks (sb_cache s) - n\<rparr>" "data_start s' = data_start s"
      "ibm_mem s' = ibm_mem s" "length (bm_mem s') = length (bm_mem s)"
      by (simp_all add: n(3) fb bm.length_mark_all)
    have free': "free_blks s' = free_blks s - {st..<st + n}"
      unfolding free_blks_def test s' t_def by auto
    have "bal_wf s'"
      using wf cnt le len(5) unfolding bal_wf_def s' test tot_def t_def by simp
    moreover have "\<forall>st' n'. {st'..<st' + n'} \<subseteq> free_blks s \<longrightarrow> n' \<le> n" if "n < want"
      using sp that frun n(1) by (metis bot_nat_0.not_eq_extremum le0)
    moreover have "data_start s \<le> st" "0 < n" "n \<le> want" using run False sp n(1) by (simp_all add: free_run_def)
    moreover have "free_blocks (sb_cache s) = free_blocks (sb_cache s') + n" using s'(1) len(5) le by simp
    moreover have "s' = s\<lparr>bm_mem := bm_mem s', bm_dirty := True, sb_cache := (sb_cache s)\<lparr>free_blocks := free_blocks (sb_cache s')\<rparr>\<rparr>"
      by (simp add: n(3))
    ultimately show ?thesis using sub free' by blast
  qed
qed

lemma free_bits_spec:
  assumes "\<And>b. b \<in> set bs \<Longrightarrow> b < 8 * length m \<and> b < n" and "k + count_set (bm_test m) n = n" and "n < 4294967296"
    and "free_bits bs m k = (m', k')"
  shows "length m' = length m \<and> k' + count_set (bm_test m') n = n \<and> (\<forall>b. bm_test m' b \<longleftrightarrow> bm_test m b \<and> b \<notin> set bs)"
  using assms
proof (induction bs arbitrary: m k)
  case Nil
  then show ?case by simp
next
  case (Cons b bs)
  have b: "b < 8 * length m" "b < n" using Cons.prems(1) by auto
  show ?case
  proof (cases "bm_test m b")
    case True
    note cl = bm.count_clear [OF b True]
    have "u64 (k + 1) = k + 1" using Cons.prems(2,3) cl by (intro u64_id) simp
    then have f: "free_bits bs (bm_clear m b) (k + 1) = (m', k')" using Cons.prems(4) True by simp
    have c: "k + 1 + count_set (bm_test (bm_clear m b)) n = n" using Cons.prems(2) cl by simp
    have l: "\<And>x. x \<in> set bs \<Longrightarrow> x < 8 * length (bm_clear m b) \<and> x < n"
      using Cons.prems(1) by (simp add: bm.length_clear)
    have ih: "length m' = length (bm_clear m b)" "k' + count_set (bm_test m') n = n"
      "\<forall>x. bm_test m' x = (bm_test (bm_clear m b) x \<and> x \<notin> set bs)"
      using Cons.IH [OF l c Cons.prems(3) f] by blast+
    have "bm_test m' x = (bm_test m x \<and> x \<notin> set (b # bs))" for x
      using ih(3) bm.test_clear [OF b(1), of x] by auto
    then show ?thesis using ih(1,2) bm.length_clear [of m b] by metis
  next
    case False
    then have "free_bits bs m k = (m', k')" using Cons.prems(4) by simp
    with Cons.IH [OF _ Cons.prems(2,3)] Cons.prems(1)
    have ih: "length m' = length m" "k' + count_set (bm_test m') n = n" "\<forall>x. bm_test m' x = (bm_test m x \<and> x \<notin> set bs)" by simp_all
    have "bm_test m' x = (bm_test m x \<and> x \<notin> set (b # bs))" for x using ih(3) False by auto
    then show ?thesis using ih(1,2) by blast
  qed
qed

lemma blk_free_run_spec:
  assumes wf: "bal_wf s" and r: "data_start s \<le> st" "st + n < 18446744073709551616"
  shows "bal_wf (blk_free_run_nolock st n s)"
    and "free_blks (blk_free_run_nolock st n s) = free_blks s \<union> {b. st \<le> b \<and> b < st + n \<and> b < total_blocks (sb_cache s)}"
    and "\<exists>m k. blk_free_run_nolock st n s = s\<lparr>bm_mem := m, bm_dirty := True, sb_cache := (sb_cache s)\<lparr>free_blocks := k\<rparr>\<rparr>"
proof -
  define tot where "tot = total_blocks (sb_cache s)"
  obtain m k where f: "free_bits [st..<min (u64 (st + n)) tot] (bm_mem s) (free_blocks (sb_cache s)) = (m, k)" by fastforce
  have u: "u64 (st + n) = st + n" using r by (intro u64_id)
  have e: "blk_free_run_nolock st n s = s\<lparr>bm_mem := m, bm_dirty := True, sb_cache := (sb_cache s)\<lparr>free_blocks := k\<rparr>\<rparr>"
    using f by (simp add: blk_free_run_nolock_def tot_def)
  have sp: "length m = length (bm_mem s) \<and> k + count_set (bm_test m) tot = tot
      \<and> (\<forall>b. bm_test m b \<longleftrightarrow> bm_test (bm_mem s) b \<and> b \<notin> set [st..<min (u64 (st + n)) tot])"
    using wf by (intro free_bits_spec [OF _ _ _ f]) (auto simp: bal_wf_def tot_def)
  show "bal_wf (blk_free_run_nolock st n s)" using wf sp r by (auto simp: e bal_wf_def tot_def)
  show "free_blks (blk_free_run_nolock st n s) = free_blks s \<union> {b. st \<le> b \<and> b < st + n \<and> b < total_blocks (sb_cache s)}"
    using sp u by (auto simp: e free_blks_def tot_def)
  show "\<exists>m k. blk_free_run_nolock st n s = s\<lparr>bm_mem := m, bm_dirty := True, sb_cache := (sb_cache s)\<lparr>free_blocks := k\<rparr>\<rparr>"
    using e by blast
qed

section \<open>Inode numbers: effect\<close>

lemma ino_alloc_cases:
  assumes wf: "bal_wf s" and a: "ino_alloc_nolock s = (r, s')"
  shows "case r of None \<Rightarrow> s' = s \<and> (\<forall>n. 1 \<le> n \<and> n < total_inodes (sb_cache s) \<longrightarrow> bm_test (ibm_mem s) n)
    | Some n \<Rightarrow> 1 \<le> n \<and> n < total_inodes (sb_cache s) \<and> \<not> bm_test (ibm_mem s) n
        \<and> (\<forall>k. bm_test (ibm_mem s') k \<longleftrightarrow> k = n \<or> bm_test (ibm_mem s) k)
        \<and> (\<exists>m. length m = length (ibm_mem s) \<and> s' = s\<lparr>ibm_mem := m, ibm_dirty := True,
                 sb_cache := (sb_cache s)\<lparr>free_inodes := sub32 (free_inodes (sb_cache s)) 1\<rparr>\<rparr>)"
proof (cases "first_clear (bm_test (ibm_mem s)) 1 (total_inodes (sb_cache s))")
  case None
  then have "r = None" "s' = s" using a by (simp_all add: ino_alloc_nolock_def bm_alloc_bit_def)
  then show ?thesis using None first_clear_None_iff by simp
next
  case (Some n)
  then have r: "r = Some n" "s' = s\<lparr>ibm_mem := bm_set (ibm_mem s) n, ibm_dirty := True,
      sb_cache := (sb_cache s)\<lparr>free_inodes := sub32 (free_inodes (sb_cache s)) 1\<rparr>\<rparr>"
    using a by (simp_all add: ino_alloc_nolock_def bm_alloc_bit_def)
  have n: "1 \<le> n" "n < total_inodes (sb_cache s)" "\<not> bm_test (ibm_mem s) n"
    using first_clear_SomeD [OF Some] by auto
  have l: "n < 8 * length (ibm_mem s)" using n wf by (simp add: bal_wf_def)
  have "bm_test (ibm_mem s') k \<longleftrightarrow> k = n \<or> bm_test (ibm_mem s) k" for k
    using bm.test_mark [OF l] by (simp add: r)
  then show ?thesis using n bm.length_mark [of "ibm_mem s" n] by (auto simp: r)
qed

lemma ino_unlink_fields:
  "ibm_mem (ino_cache_unlink i s) = ibm_mem s" "sb_cache (ino_cache_unlink i s) = sb_cache s"
  "bm_mem (ino_cache_unlink i s) = bm_mem s" "data_start (ino_cache_unlink i s) = data_start s" "bc (ino_cache_unlink i s) = bc s"
  by (simp_all add: ino_cache_unlink_def set_entry_def Let_def)

lemma mark_dead_fields:
  "ibm_mem (mark_dead i s) = ibm_mem s" "sb_cache (mark_dead i s) = sb_cache s" "bm_mem (mark_dead i s) = bm_mem s"
  "data_start (mark_dead i s) = data_start s" "bc (mark_dead i s) = bc s"
  by (simp_all add: mark_dead_def Let_def ino_unlink_fields) (simp_all add: set_entry_def)

lemma ino_free_fields:
  "bm_mem (ino_free_nolock n s) = bm_mem s" "data_start (ino_free_nolock n s) = data_start s" "bc (ino_free_nolock n s) = bc s"
  "total_inodes (sb_cache (ino_free_nolock n s)) = total_inodes (sb_cache s)"
  "total_blocks (sb_cache (ino_free_nolock n s)) = total_blocks (sb_cache s)"
  "free_blocks (sb_cache (ino_free_nolock n s)) = free_blocks (sb_cache s)"
  by (simp_all add: ino_free_nolock_def Let_def mark_dead_fields split: option.splits)

lemma ino_free_bit:
  assumes "n \<noteq> 0" and "n \<le> total_inodes (sb_cache s)" and "bm_test (ibm_mem s) n" and "n < 8 * length (ibm_mem s)"
  shows "bm_test (ibm_mem (ino_free_nolock n s)) k \<longleftrightarrow> k \<noteq> n \<and> bm_test (ibm_mem s) k"
    and "free_inodes (sb_cache (ino_free_nolock n s)) = u32 (free_inodes (sb_cache s) + 1)"
    and "length (ibm_mem (ino_free_nolock n s)) = length (ibm_mem s)"
  using assms bm.test_clear [OF assms(4)]
  by (simp_all add: ino_free_nolock_def Let_def mark_dead_fields bm.length_clear split: option.splits)

text \<open>The free counter is the number of free blocks.\<close>

lemma free_blocks_card: "bal_wf s \<Longrightarrow> free_blocks (sb_cache s) = card (free_blks s)"
proof -
  assume wf: "bal_wf s"
  define t tot where "t = bm_test (bm_mem s)" and "tot = total_blocks (sb_cache s)"
  have "free_blks s = {..<tot} - set_bits_below t tot"
    by (auto simp: free_blks_def set_bits_below_def t_def tot_def)
  moreover have "set_bits_below t tot \<subseteq> {..<tot}" by (auto simp: set_bits_below_def)
  ultimately have "card (free_blks s) = tot - count_set t tot"
    by (simp add: count_set_card card_Diff_subset)
  then show ?thesis using wf unfolding bal_wf_def t_def tot_def by linarith
qed

section \<open>Properties\<close>

text \<open>The run allocator fails only when no block is free.  Otherwise it takes a run of free blocks
  of the data area, no longer than asked for, removes exactly these blocks from the free set, lowers the free counter by
  their number and keeps the invariant; a run shorter than asked for is a longest one.\<close>

theorem blk_alloc_run_takes_best_run:
  assumes "bal_wf s" and "0 < want" and "blk_alloc_run_nolock want s = (st, n, s')"
  shows "if free_blks s = {} then st = 0 \<and> n = 0 \<and> s' = s
    else 0 < n \<and> n \<le> want \<and> data_start s \<le> st \<and> {st..<st + n} \<subseteq> free_blks s
      \<and> free_blks s' = free_blks s - {st..<st + n} \<and> bal_wf s'
      \<and> free_blocks (sb_cache s) = free_blocks (sb_cache s') + n
      \<and> (n < want \<longrightarrow> (\<forall>st' n'. {st'..<st' + n'} \<subseteq> free_blks s \<longrightarrow> n' \<le> n))"
  using blk_alloc_run_cases [OF assms(1,3,2)] by (auto split: if_splits)

text \<open>Releasing a run that was just allocated gives the free set and the free counter back, and
  releasing a run twice counts it once.\<close>

theorem blk_free_undoes_alloc:
  assumes "bal_wf s" and "0 < want" and "blk_alloc_run_nolock want s = (st, n, s')" and "n \<noteq> 0"
  shows "free_blks (blk_free_run_nolock st n s') = free_blks s
    \<and> free_blocks (sb_cache (blk_free_run_nolock st n s')) = free_blocks (sb_cache s)
    \<and> free_blks (blk_free_run_nolock st n (blk_free_run_nolock st n s')) = free_blks s
    \<and> free_blocks (sb_cache (blk_free_run_nolock st n (blk_free_run_nolock st n s'))) = free_blocks (sb_cache s)"
proof -
  have run: "data_start s \<le> st" "{st..<st + n} \<subseteq> free_blks s" "bal_wf s'" "free_blks s' = free_blks s - {st..<st + n}"
    "s' = s\<lparr>bm_mem := bm_mem s', bm_dirty := True, sb_cache := (sb_cache s)\<lparr>free_blocks := free_blocks (sb_cache s')\<rparr>\<rparr>"
    using blk_alloc_run_cases [OF assms(1,3,2)] assms(4) by blast+
  have f: "data_start s' = data_start s" "total_blocks (sb_cache s') = total_blocks (sb_cache s)"
    by (subst run(5), simp)+
  have "st + (n - 1) \<in> free_blks s" using run(2) assms(4) by auto
  then have "st + (n - 1) < total_blocks (sb_cache s)" by (simp add: free_blks_def)
  then have lim: "st + n \<le> total_blocks (sb_cache s)" using assms(4) by linarith
  then have r: "data_start s' \<le> st" "st + n < 18446744073709551616"
    using run(1) f assms(1) by (simp_all add: bal_wf_def)
  note f1 = blk_free_run_spec [OF run(3) r]
  have d1: "data_start (blk_free_run_nolock st n s') = data_start s'"
    "total_blocks (sb_cache (blk_free_run_nolock st n s')) = total_blocks (sb_cache s)"
    using f1(3) f by auto
  have r1: "data_start (blk_free_run_nolock st n s') \<le> st" using r d1 by simp
  note f2 = blk_free_run_spec [OF f1(1) r1 r(2)]
  have e1: "free_blks (blk_free_run_nolock st n s') = free_blks s"
    unfolding f1(2) run(4) f using run(2) lim by auto
  have e2: "free_blks (blk_free_run_nolock st n (blk_free_run_nolock st n s')) = free_blks s"
    unfolding f2(2) e1 d1 using run(2) lim by auto
  show ?thesis
    using e1 e2 free_blocks_card [OF f1(1)] free_blocks_card [OF f2(1)] free_blocks_card [OF assms(1)] by simp
qed

text \<open>Allocating an inode number returns one that was free, between 1 and the number of inodes,
  and marks exactly it; it fails only when all are taken.  Releasing it makes it free again, and a second release changes
  nothing.\<close>

theorem ino_alloc_free_exact:
  assumes "bal_wf s" and "ino_alloc_nolock s = (r, s')"
  shows "case r of None \<Rightarrow> s' = s \<and> (\<forall>n. 1 \<le> n \<and> n < total_inodes (sb_cache s) \<longrightarrow> bm_test (ibm_mem s) n)
    | Some n \<Rightarrow> 1 \<le> n \<and> n < total_inodes (sb_cache s) \<and> \<not> bm_test (ibm_mem s) n
        \<and> (\<forall>k. bm_test (ibm_mem s') k \<longleftrightarrow> k = n \<or> bm_test (ibm_mem s) k)
        \<and> (\<forall>k. bm_test (ibm_mem (ino_free_nolock n s')) k \<longleftrightarrow> bm_test (ibm_mem s) k)
        \<and> ino_free_nolock n (ino_free_nolock n s') = ino_free_nolock n s'"
proof (cases r)
  case None
  then show ?thesis using ino_alloc_cases [OF assms] by simp
next
  case (Some n)
  note al = ino_alloc_cases [OF assms, unfolded Some option.case]
  then obtain m where m: "length m = length (ibm_mem s)" "s' = s\<lparr>ibm_mem := m, ibm_dirty := True,
      sb_cache := (sb_cache s)\<lparr>free_inodes := sub32 (free_inodes (sb_cache s)) 1\<rparr>\<rparr>" by blast
  have n: "n \<noteq> 0" "n \<le> total_inodes (sb_cache s')" "bm_test (ibm_mem s') n" "n < 8 * length (ibm_mem s')"
    using al m assms(1) by (simp_all add: bal_wf_def)
  note fr = ino_free_bit [OF n]
  have "\<forall>k. bm_test (ibm_mem (ino_free_nolock n s')) k \<longleftrightarrow> bm_test (ibm_mem s) k" using fr(1) al by blast
  moreover have "ino_free_nolock n (ino_free_nolock n s') = ino_free_nolock n s'"
    using fr(1) [of n] by (subst ino_free_nolock_def) simp
  ultimately show ?thesis using al Some by simp
qed

section \<open>Witnesses\<close>

text \<open>A small mounted file system: 64 blocks of which the first 8 hold metadata, 16 inode numbers.\<close>

definition zero_sb :: kzfs_superblock where
  "zero_sb = sb_of_bytes (replicate 4096 0)"

definition small_fs :: kfs where
  "small_fs = \<lparr>sb_cache = zero_sb\<lparr>magic := KZFS_MAGIC, total_blocks := 64, free_blocks := 56, total_inodes := 16, free_inodes := 15\<rparr>,
     fs_mounted = True, bm_mem = 255 # replicate 7 0, bm_blocks = 1, bm_dirty = False, ibm_mem = replicate 4 0, ibm_blocks = 1,
     ibm_dirty = False, it_block0 = 4, root_ino = 1, data_start = 8, ino_pool = [], ino_hash = (\<lambda>_. []), bc = fresh_cache, heap_future = []\<rparr>"

lemma small_fs_test: "b < 64 \<Longrightarrow> bm_test (bm_mem small_fs) b \<longleftrightarrow> b < 8"
proof -
  have "list_all (\<lambda>b. bm_test (255 # replicate 7 0) b \<longleftrightarrow> b < 8) [0..<64]" by code_simp
  then show "b < 64 \<Longrightarrow> ?thesis" by (simp add: list_all_iff small_fs_def)
qed

lemma small_fs_wf: "bal_wf small_fs"
proof -
  have "count_set (bm_test (bm_mem small_fs)) 64 = count_set (\<lambda>b. b < 8) 64"
    by (intro count_set_cong) (simp add: small_fs_test)
  also have "\<dots> = 8" unfolding count_set_def by code_simp
  finally show ?thesis using small_fs_test by (simp add: bal_wf_def) (simp add: small_fs_def)
qed

lemma small_fs_free: "free_blks small_fs = {8..<64}"
  using small_fs_test by (auto simp: free_blks_def) (auto simp: small_fs_def)

lemma small_fs_alloc: "\<exists>st n s'. blk_alloc_run_nolock 3 small_fs = (st, n, s') \<and> n \<noteq> 0"
proof -
  obtain st n s' where a: "blk_alloc_run_nolock 3 small_fs = (st, n, s')" using prod_cases3 by blast
  then have "n \<noteq> 0" using blk_alloc_run_cases [OF small_fs_wf a] small_fs_free by auto
  then show ?thesis using a by blast
qed

theorem blk_alloc_run_takes_best_run_witness:
  "\<exists>st n s'. blk_alloc_run_nolock 3 small_fs = (st, n, s') \<and> 0 < n \<and> {st..<st + n} \<subseteq> free_blks small_fs \<and> bal_wf s'"
proof -
  obtain st n s' where a: "blk_alloc_run_nolock 3 small_fs = (st, n, s')" using prod_cases3 by blast
  have "free_blks small_fs \<noteq> {}" using small_fs_free by simp
  then have "0 < n \<and> {st..<st + n} \<subseteq> free_blks small_fs \<and> bal_wf s'"
    using blk_alloc_run_takes_best_run [OF small_fs_wf _ a] by simp
  with a show ?thesis by blast
qed

theorem blk_free_undoes_alloc_witness:
  "\<exists>st n s'. blk_alloc_run_nolock 3 small_fs = (st, n, s') \<and> free_blks (blk_free_run_nolock st n s') = {8..<64}"
  using small_fs_alloc blk_free_undoes_alloc [OF small_fs_wf, of 3] small_fs_free by fastforce

theorem ino_alloc_free_exact_witness:
  "\<exists>n s'. ino_alloc_nolock small_fs = (Some n, s') \<and> 1 \<le> n \<and> n < 16
     \<and> ino_free_nolock n (ino_free_nolock n s') = ino_free_nolock n s'"
proof -
  have "\<not> bm_test (ibm_mem small_fs) 1" by (simp add: small_fs_def bm_test_def)
  moreover obtain r s' where a: "ino_alloc_nolock small_fs = (r, s')" by fastforce
  ultimately obtain n where "r = Some n"
    using ino_alloc_cases [OF small_fs_wf a] by (cases r) (auto simp: small_fs_def)
  then show ?thesis using ino_alloc_free_exact [OF small_fs_wf a] a by (auto simp: small_fs_def)
qed

end
