(* ===== verification/Kfs_Inode.thy ===== *)
theory Kfs_Inode
  imports Kfs_Balloc
begin

text \<open>
  Inodes on disk and in the inode cache, \<^verbatim>\<open>kernel/fs/kfs_inode.c\<close>.

  A cached inode is canonical: the cache holds at most one live entry for an inode number
  (\<open>ic_inv\<close>), whatever sequence of gets, puts, evictions and deletions led there.  Writing an inode back
  replaces its 128 bytes of the inode table and no others, and reading it returns what was written.
\<close>

section \<open>Conversion and disk I/O\<close>

definition inode_block :: "nat \<Rightarrow> kfs \<Rightarrow> nat" where
  "inode_block n s = it_block0 s + (n - 1) div KZFS_INODES_PER_BLOCK"

definition inode_offset :: "nat \<Rightarrow> nat" where
  "inode_offset n = ((n - 1) mod KZFS_INODES_PER_BLOCK) * KZFS_INODE_SIZE"

definition ino_disk_read :: "nat \<Rightarrow> kfs \<Rightarrow> kzfs_inode option \<times> kfs" where
  "ino_disk_read n s =
     (let (r, s') = peek_block (inode_block n s) s in
      case r of None \<Rightarrow> (None, s')
      | Some d \<Rightarrow> (Some (inode_of_bytes (bslice (inode_offset n) KZFS_INODE_SIZE d)), s'))"

definition ino_disk_write :: "nat \<Rightarrow> kzfs_inode \<Rightarrow> kfs \<Rightarrow> kzfs_err \<times> kfs" where
  "ino_disk_write n di s =
     (let (ok, s') = update_block (bsplice (inode_offset n) (inode_bytes di)) (inode_block n s) s
      in (if ok then EOK else EIO, s'))"

definition ino_to_disk :: "kzfs_inode_mem \<Rightarrow> kzfs_inode" where
  "ino_to_disk i =
     \<lparr>d_mode = i_mode i, d_uid = 0, d_gid = 0, d_links = i_links i, d_size = i_size i, d_blocks = i_blocks i,
      d_atime = 0, d_mtime = 0, d_ctime = 0, d_direct = i_direct i, d_indirect = i_indirect i\<rparr>"

definition ino_from_disk :: "nat \<Rightarrow> kzfs_inode \<Rightarrow> kzfs_inode_mem" where
  "ino_from_disk n d =
     \<lparr>i_ino = n, i_mode = d_mode d, i_links = d_links d, i_size = d_size d, i_blocks = d_blocks d,
      i_direct = d_direct d, i_indirect = d_indirect d, i_dirty = False, i_refcount = 0\<rparr>"

definition ino_sync_nolock :: "kzfs_inode_mem \<Rightarrow> kfs \<Rightarrow> kzfs_err \<times> kfs" where
  "ino_sync_nolock i s = ino_disk_write (i_ino i) (ino_to_disk i) s"

section \<open>The inode cache\<close>

definition find_slot :: "(ino_entry \<Rightarrow> bool) \<Rightarrow> kfs \<Rightarrow> nat option" where
  "find_slot p s = find (\<lambda>i. p (ino_pool s ! i)) [0..<INO_CACHE_MAX]"

definition clear_dirty :: "nat \<Rightarrow> kfs \<Rightarrow> kfs" where
  "clear_dirty i s = set_entry i ((ino_pool s ! i)\<lparr>e_ino := (e_ino (ino_pool s ! i))\<lparr>i_dirty := False\<rparr>\<rparr>) s"

text \<open>Write a dirty cached inode back and mark it clean (the result of the write is ignored).\<close>

definition sync_entry :: "nat \<Rightarrow> kfs \<Rightarrow> kfs" where
  "sync_entry i s =
     (if i_dirty (e_ino (ino_pool s ! i)) then
        let (_, s1) = ino_sync_nolock (e_ino (ino_pool s ! i)) s in clear_dirty i s1
      else s)"

definition ino_cache_slot :: "kfs \<Rightarrow> nat option \<times> kfs" where
  "ino_cache_slot s =
     (let (r, s1) =
        (case find_slot (\<lambda>e. \<not> e_used e) s of
           Some i \<Rightarrow> (Some i, s)
         | None \<Rightarrow>
             (case find_slot (\<lambda>e. e_used e \<and> e_dead e \<and> i_refcount (e_ino e) = 0) s of
                Some i \<Rightarrow> (Some i, ino_cache_unlink i s)
              | None \<Rightarrow>
                  (case find_slot (\<lambda>e. e_used e \<and> i_refcount (e_ino e) = 0) s of
                     Some i \<Rightarrow> (Some i, ino_cache_unlink i (sync_entry i s))
                   | None \<Rightarrow> (None, s))))
      in case r of None \<Rightarrow> (None, s1)
         | Some i \<Rightarrow> (Some i, set_entry i ((ino_pool s1 ! i)\<lparr>e_dead := False\<rparr>) s1))"

definition ino_get_nolock :: "nat \<Rightarrow> kfs \<Rightarrow> (kzfs_err + nat) \<times> kfs" where
  "ino_get_nolock n s =
     (if n = 0 \<or> (total_inodes (sb_cache s) \<noteq> 0 \<and> n > total_inodes (sb_cache s)) then (Inl EINVAL, s)
      else case ino_cache_find n s of
        Some i \<Rightarrow>
          let e = ino_pool s ! i
          in (Inr i, set_entry i (e\<lparr>e_ino := (e_ino e)\<lparr>i_refcount := i_refcount (e_ino e) + 1\<rparr>\<rparr>) s)
      | None \<Rightarrow>
          let (q, s1) = ino_cache_slot s in
          case q of None \<Rightarrow> (Inl ENOMEM, s1)
          | Some i \<Rightarrow>
              let (d, s2) = ino_disk_read n s1 in
              case d of None \<Rightarrow> (Inl EIO, s2)
              | Some di \<Rightarrow>
                  (Inr i, ino_cache_insert_nolock i
                     (set_entry i ((ino_pool s2 ! i)\<lparr>e_ino := (ino_from_disk n di)\<lparr>i_refcount := 1\<rparr>\<rparr>) s2)))"

definition ino_put_nolock :: "nat option \<Rightarrow> kfs \<Rightarrow> kfs" where
  "ino_put_nolock p s =
     (case p of None \<Rightarrow> s
      | Some i \<Rightarrow>
          let e = ino_pool s ! i;
              s1 = (if i_refcount (e_ino e) > 0
                    then set_entry i (e\<lparr>e_ino := (e_ino e)\<lparr>i_refcount := i_refcount (e_ino e) - 1\<rparr>\<rparr>) s else s)
          in if i_refcount (e_ino (ino_pool s1 ! i)) \<noteq> 0 then s1
             else if e_dead (ino_pool s1 ! i) then ino_cache_unlink i s1
             else sync_entry i s1)"

definition ino_is_dead :: "nat \<Rightarrow> kfs \<Rightarrow> bool" where
  "ino_is_dead i s = e_dead (ino_pool s ! i)"

section \<open>Encoding\<close>

definition inode_fits :: "kzfs_inode \<Rightarrow> bool" where
  "inode_fits d \<longleftrightarrow> d_mode d < 2 ^ 16 \<and> d_uid d < 2 ^ 16 \<and> d_gid d < 2 ^ 16 \<and> d_links d < 2 ^ 16
     \<and> d_size d < 2 ^ 64 \<and> d_blocks d < 2 ^ 64 \<and> d_atime d < 2 ^ 64 \<and> d_mtime d < 2 ^ 64 \<and> d_ctime d < 2 ^ 64
     \<and> length (d_direct d) = 4 \<and> list_all extent_fits (d_direct d) \<and> d_indirect d < 2 ^ 64"

lemma four_list: "length xs = 4 \<Longrightarrow> \<exists>a b c d. xs = [a, b, c, d]"
  by (auto simp: numeral_eq_Suc length_Suc_conv)

lemma length_inode_bytes: "length (d_direct d) = 4 \<Longrightarrow> length (inode_bytes d) = 128"
  using four_list [of "d_direct d"] by (auto simp: inode_bytes_def)

lemma inode_roundtrip:
  assumes "inode_fits d"
  shows "inode_of_bytes (inode_bytes d) = d"
proof -
  obtain e0 e1 e2 e3 where e: "d_direct d = [e0, e1, e2, e3]"
    using four_list [of "d_direct d"] assms by (auto simp: inode_fits_def)
  have x: "extent_of_bytes (extent_bytes e0) = e0" "extent_of_bytes (extent_bytes e1) = e1"
    "extent_of_bytes (extent_bytes e2) = e2" "extent_of_bytes (extent_bytes e3) = e3"
    using assms e by (simp_all add: inode_fits_def extent_roundtrip)
  have u: "[0..<4] = [0, 1, 2, 3 :: nat]" by (simp add: upt_rec)
  show ?thesis
    using assms x
    by (intro kzfs_inode.equality) (simp_all add: inode_of_bytes_def inode_bytes_def e u inode_fits_def field_simps_le)
qed

section \<open>Inodes in the inode table\<close>

definition inode_at :: "kfs \<Rightarrow> nat \<Rightarrow> kzfs_inode" where
  "inode_at s n = inode_of_bytes (bslice (inode_offset n) KZFS_INODE_SIZE (kview s (inode_block n s)))"

lemma inode_offset_bound: "inode_offset n + 128 \<le> 4096"
proof -
  have "(n - 1) mod 32 < 32" by simp
  then have "(n - 1) mod 32 * 128 + 128 \<le> 32 * 128" by linarith
  then show ?thesis by (simp add: inode_offset_def KZFS_INODES_PER_BLOCK_def KZFS_INODE_SIZE_def)
qed

lemma inode_slots_disjoint:
  assumes "1 \<le> n" and "1 \<le> n'" and "n \<noteq> n'" and "inode_block n s = inode_block n' s"
  shows "inode_offset n + 128 \<le> inode_offset n' \<or> inode_offset n' + 128 \<le> inode_offset n"
proof -
  define a b where "a = n - 1" and "b = n' - 1"
  have "a \<noteq> b" "a div 32 = b div 32"
    using assms by (auto simp: a_def b_def inode_block_def KZFS_INODES_PER_BLOCK_def)
  then have "a mod 32 \<noteq> b mod 32" by (metis div_mod_decomp)
  then have "a mod 32 + 1 \<le> b mod 32 \<or> b mod 32 + 1 \<le> a mod 32" by linarith
  then have "a mod 32 * 128 + 128 \<le> b mod 32 * 128 \<or> b mod 32 * 128 + 128 \<le> a mod 32 * 128" by linarith
  then show ?thesis by (simp add: inode_offset_def a_def b_def KZFS_INODES_PER_BLOCK_def KZFS_INODE_SIZE_def)
qed

lemma ino_disk_write_spec:
  assumes inv: "kinv s" and dev: "dev_block (inode_block n s)" and len: "length (d_direct di) = 4"
    and w: "ino_disk_write n di s = (rc, s')"
  shows "kinv s' \<and> s' = s\<lparr>bc := bc s'\<rparr> \<and> (rc = EOK \<or> rc = EIO)
    \<and> kview s' = (if rc = EOK then (kview s)(inode_block n s := bsplice (inode_offset n) (inode_bytes di) (kview s (inode_block n s))) else kview s)"
proof -
  obtain ok where u: "update_block (bsplice (inode_offset n) (inode_bytes di)) (inode_block n s) s = (ok, s')"
    and rc: "rc = (if ok then EOK else EIO)"
    using w by (auto simp: ino_disk_write_def split: prod.splits)
  have "length (bsplice (inode_offset n) (inode_bytes di) x) = 4096" if "length x = 4096" for x
    using that inode_offset_bound [of n] by (simp add: length_inode_bytes [OF len])
  then show ?thesis using kst.upd_law [OF inv dev _ u] block_frame(2) [OF u] rc by auto
qed

section \<open>The cache holds one live entry per inode\<close>

definition live :: "kfs \<Rightarrow> nat \<Rightarrow> nat \<Rightarrow> bool" where
  "live s i n \<longleftrightarrow> i < INO_CACHE_MAX \<and> e_used (ino_pool s ! i) \<and> \<not> e_dead (ino_pool s ! i) \<and> i_ino (e_ino (ino_pool s ! i)) = n"

definition ic_inv :: "kfs \<Rightarrow> bool" where
  "ic_inv s \<longleftrightarrow> length (ino_pool s) = INO_CACHE_MAX \<and> (\<forall>h. distinct (ino_hash s h))
     \<and> (\<forall>h i. i \<in> set (ino_hash s h) \<longleftrightarrow>
            i < INO_CACHE_MAX \<and> e_used (ino_pool s ! i) \<and> ino_hash_fn (i_ino (e_ino (ino_pool s ! i))) = h)
     \<and> (\<forall>i j n. live s i n \<longrightarrow> live s j n \<longrightarrow> i = j)"

lemma ic_invD:
  assumes "ic_inv s"
  shows "length (ino_pool s) = INO_CACHE_MAX" and "distinct (ino_hash s h)"
    and "i \<in> set (ino_hash s h) \<longleftrightarrow> i < INO_CACHE_MAX \<and> e_used (ino_pool s ! i) \<and> ino_hash_fn (i_ino (e_ino (ino_pool s ! i))) = h"
    and "live s i n \<Longrightarrow> live s j n \<Longrightarrow> i = j"
  using assms unfolding ic_inv_def by blast+

lemma ic_invI:
  assumes "length (ino_pool s) = INO_CACHE_MAX" and "\<And>h. distinct (ino_hash s h)"
    and "\<And>h i. i \<in> set (ino_hash s h) \<longleftrightarrow>
      i < INO_CACHE_MAX \<and> e_used (ino_pool s ! i) \<and> ino_hash_fn (i_ino (e_ino (ino_pool s ! i))) = h"
    and "\<And>i j n. live s i n \<Longrightarrow> live s j n \<Longrightarrow> i = j"
  shows "ic_inv s"
  unfolding ic_inv_def using assms by (intro conjI allI impI)

lemma ino_cache_find_iff:
  assumes inv: "ic_inv s"
  shows "ino_cache_find n s = Some i \<longleftrightarrow> live s i n"
proof -
  have sound: "live s j n" if "ino_cache_find n s = Some j" for j
    using that ic_invD(3) [OF inv, of j "ino_hash_fn n"] unfolding ino_cache_find_def live_def
    by (auto dest!: find_SomeD)
  have "ino_cache_find n s \<noteq> None" if "live s i n"
    using that ic_invD(3) [OF inv, of i "ino_hash_fn n"] unfolding ino_cache_find_def find_None_iff live_def by blast
  then show ?thesis using sound ic_invD(4) [OF inv] by (metis not_None_eq)
qed

text \<open>Changing an entry without touching its identity.\<close>

lemma ic_inv_set_entry:
  assumes inv: "ic_inv s" and "e_used e = e_used (ino_pool s ! i)" and "i_ino (e_ino e) = i_ino (e_ino (ino_pool s ! i))"
    and "e_used e \<Longrightarrow> e_dead (ino_pool s ! i) \<Longrightarrow> e_dead e"
  shows "ic_inv (set_entry i e s)"
proof (cases "i < INO_CACHE_MAX")
  case True
  note pn = nth_upd [OF ic_invD(1) [OF inv] True]
  have l: "live (set_entry i e s) j n \<Longrightarrow> live s j n" for j n
    using assms(2-4) by (auto simp: live_def set_entry_def pn split: if_splits)
  have h: "(e_used ((ino_pool s)[i := e] ! j) \<and> ino_hash_fn (i_ino (e_ino ((ino_pool s)[i := e] ! j))) = k)
      = (e_used (ino_pool s ! j) \<and> ino_hash_fn (i_ino (e_ino (ino_pool s ! j))) = k)" for j k
    using assms(2,3) by (simp add: pn)
  show ?thesis
  proof (rule ic_invI)
    show "live (set_entry i e s) j n \<Longrightarrow> live (set_entry i e s) k n \<Longrightarrow> j = k" for j k n
      using l ic_invD(4) [OF inv] by blast
  qed (use ic_invD [OF inv] h in \<open>simp_all add: set_entry_def\<close>)
next
  case False
  then have "set_entry i e s = s" using ic_invD(1) [OF inv] by (simp add: set_entry_def list_update_beyond)
  then show ?thesis using inv by simp
qed

lemma ic_inv_frame: "s' = s\<lparr>bc := c\<rparr> \<Longrightarrow> ic_inv s' = ic_inv s"
  by (simp add: ic_inv_def live_def)

lemma live_frame: "live (s\<lparr>bc := c\<rparr>) = live s"
  by (simp add: live_def fun_eq_iff)

lemma ic_inv_unlink:
  assumes inv: "ic_inv s" and i: "i < INO_CACHE_MAX"
  shows "ic_inv (ino_cache_unlink i s)" and "live (ino_cache_unlink i s) j n \<longleftrightarrow> live s j n \<and> j \<noteq> i"
    and "\<not> e_used (ino_pool (ino_cache_unlink i s) ! i)"
proof -
  define s' where "s' = ino_cache_unlink i s"
  note pn = nth_upd [OF ic_invD(1) [OF inv] i]
  define h0 where "h0 = ino_hash_fn (i_ino (e_ino (ino_pool s ! i)))"
  have f: "ino_pool s' = (ino_pool s)[i := (ino_pool s ! i)\<lparr>e_used := False\<rparr>]"
    "ino_hash s' = (ino_hash s)(h0 := remove1 i (ino_hash s h0))"
    by (simp_all add: s'_def ino_cache_unlink_def set_entry_def Let_def h0_def)
  have l: "live s' j n \<longleftrightarrow> live s j n \<and> j \<noteq> i" for j n by (auto simp: live_def f pn)
  then show "live (ino_cache_unlink i s) j n \<longleftrightarrow> live s j n \<and> j \<noteq> i" by (simp add: s'_def)
  show "\<not> e_used (ino_pool (ino_cache_unlink i s) ! i)" by (simp add: s'_def [symmetric] f pn)
  have "j \<in> set (ino_hash s' h) \<longleftrightarrow> j < INO_CACHE_MAX \<and> e_used (ino_pool s' ! j) \<and> ino_hash_fn (i_ino (e_ino (ino_pool s' ! j))) = h" for h j
    using ic_invD(2) [OF inv, of h0] ic_invD(3) [OF inv, of j h] by (auto simp: f pn h0_def)
  moreover have "distinct (ino_hash s' h)" for h using ic_invD(2) [OF inv] by (simp add: f)
  moreover have "length (ino_pool s') = INO_CACHE_MAX" using ic_invD(1) [OF inv] by (simp add: f)
  moreover have "live s' j n \<Longrightarrow> live s' k n \<Longrightarrow> j = k" for j k n unfolding l using ic_invD(4) [OF inv] by blast
  ultimately have "ic_inv s'" by (intro ic_invI)
  then show "ic_inv (ino_cache_unlink i s)" by (simp add: s'_def)
qed

lemma set_entry_live:
  assumes "ic_inv s" and "e_used e = e_used (ino_pool s ! i)" and "i_ino (e_ino e) = i_ino (e_ino (ino_pool s ! i))"
    and "e_dead e = e_dead (ino_pool s ! i)"
  shows "live (set_entry i e s) j n = live s j n"
  using assms ic_invD(1) [OF assms(1)]
  by (cases "i < INO_CACHE_MAX") (auto simp: live_def set_entry_def nth_upd list_update_beyond)

lemma ino_sync_frame: "ino_sync_nolock i s = (rc, s') \<Longrightarrow> s' = s\<lparr>bc := bc s'\<rparr>"
  by (auto simp: ino_sync_nolock_def ino_disk_write_def split: prod.splits dest: block_frame(2))

lemma sync_entry_ic:
  assumes inv: "ic_inv s"
  shows "ic_inv (sync_entry i s)" and "live (sync_entry i s) j n = live s j n"
    and "e_used (ino_pool (sync_entry i s) ! k) = e_used (ino_pool s ! k)"
proof -
  have "ic_inv (sync_entry i s) \<and> live (sync_entry i s) j n = live s j n
    \<and> e_used (ino_pool (sync_entry i s) ! k) = e_used (ino_pool s ! k)"
  proof (cases "i_dirty (e_ino (ino_pool s ! i))")
    case False
    then show ?thesis using inv by (simp add: sync_entry_def)
  next
    case True
    obtain rc s1 where sy: "ino_sync_nolock (e_ino (ino_pool s ! i)) s = (rc, s1)" by fastforce
    note fr = ino_sync_frame [OF sy]
    have inv1: "ic_inv s1" using ic_inv_frame [OF fr] inv by simp
    have l1: "live s1 j n = live s j n" by (subst fr) (simp add: live_frame)
    have p1: "ino_pool s1 = ino_pool s" by (subst fr) simp
    have e: "sync_entry i s = clear_dirty i s1" using True sy by (simp add: sync_entry_def)
    have "ic_inv (clear_dirty i s1)" unfolding clear_dirty_def by (intro ic_inv_set_entry [OF inv1]) simp_all
    moreover have "live (clear_dirty i s1) j n = live s1 j n"
      unfolding clear_dirty_def by (intro set_entry_live [OF inv1]) simp_all
    moreover have "e_used (ino_pool (clear_dirty i s1) ! k) = e_used (ino_pool s ! k)"
      unfolding clear_dirty_def set_entry_def p1 [symmetric]
      by (cases "i < length (ino_pool s1)") (auto simp: nth_list_update list_update_beyond)
    ultimately show ?thesis unfolding e using l1 by blast
  qed
  then show "ic_inv (sync_entry i s)" "live (sync_entry i s) j n = live s j n"
    "e_used (ino_pool (sync_entry i s) ! k) = e_used (ino_pool s ! k)" by blast+
qed

lemma find_slotD: "find_slot p s = Some i \<Longrightarrow> i < INO_CACHE_MAX \<and> p (ino_pool s ! i)"
  unfolding find_slot_def find_Some_iff by auto

lemma ino_cache_slot_spec:
  assumes inv: "ic_inv s" and sl: "ino_cache_slot s = (q, s')"
  shows "ic_inv s' \<and> (\<forall>j n. live s' j n \<longrightarrow> live s j n) \<and> (\<forall>i. q = Some i \<longrightarrow> i < INO_CACHE_MAX \<and> \<not> e_used (ino_pool s' ! i))"
proof -
  have fin: "ic_inv t' \<and> (\<forall>j n. live t' j n \<longrightarrow> live s j n) \<and> i < INO_CACHE_MAX \<and> \<not> e_used (ino_pool t' ! i)"
    if t: "ic_inv t" "\<forall>j n. live t j n \<longrightarrow> live s j n" "i < INO_CACHE_MAX" "\<not> e_used (ino_pool t ! i)"
      and t': "t' = set_entry i ((ino_pool t ! i)\<lparr>e_dead := False\<rparr>) t" for t t' i
  proof -
    note pn = nth_upd [OF ic_invD(1) [OF t(1)] t(3)]
    have "ic_inv t'" unfolding t' using t(4) by (intro ic_inv_set_entry [OF t(1)]) simp_all
    moreover have "live t' j n \<longrightarrow> live t j n" for j n
      using t(4) by (auto simp: t' live_def set_entry_def pn)
    ultimately show ?thesis using t by (auto simp: t' set_entry_def pn)
  qed
  have unl: "ic_inv (ino_cache_unlink i t) \<and> (\<forall>j n. live (ino_cache_unlink i t) j n \<longrightarrow> live s j n) \<and> \<not> e_used (ino_pool (ino_cache_unlink i t) ! i)"
    if "ic_inv t" "\<forall>j n. live t j n \<longrightarrow> live s j n" "i < INO_CACHE_MAX" for t i
    using ic_inv_unlink [OF that(1,3)] that(2) by blast
  have wrap: "ic_inv s' \<and> (\<forall>j n. live s' j n \<longrightarrow> live s j n) \<and> (\<forall>i. q = Some i \<longrightarrow> i < INO_CACHE_MAX \<and> \<not> e_used (ino_pool s' ! i))"
    if "q = Some i" "s' = set_entry i ((ino_pool t ! i)\<lparr>e_dead := False\<rparr>) t" "ic_inv t" "\<forall>j n. live t j n \<longrightarrow> live s j n"
      "i < INO_CACHE_MAX" "\<not> e_used (ino_pool t ! i)" for i t
    using fin [OF that(3-6,2)] that(1) by simp
  show ?thesis
  proof (cases "find_slot (\<lambda>e. \<not> e_used e) s")
    case (Some i)
    show ?thesis
      by (rule wrap [of i s]) (use sl Some inv find_slotD [OF Some] in \<open>simp_all add: ino_cache_slot_def\<close>)
  next
    case n1: None
    show ?thesis
    proof (cases "find_slot (\<lambda>e. e_used e \<and> e_dead e \<and> i_refcount (e_ino e) = 0) s")
      case (Some i)
      then have i: "i < INO_CACHE_MAX" using find_slotD by blast
      show ?thesis
        by (rule wrap [of i "ino_cache_unlink i s"]) (use sl n1 Some i unl [OF inv _ i] in \<open>simp_all add: ino_cache_slot_def\<close>)
    next
      case n2: None
      show ?thesis
      proof (cases "find_slot (\<lambda>e. e_used e \<and> i_refcount (e_ino e) = 0) s")
        case (Some i)
        then have i: "i < INO_CACHE_MAX" using find_slotD by blast
        show ?thesis
          by (rule wrap [of i "ino_cache_unlink i (sync_entry i s)"])
            (use sl n1 n2 Some i unl [OF sync_entry_ic(1) [OF inv] _ i] sync_entry_ic(2) [OF inv] in \<open>simp_all add: ino_cache_slot_def\<close>)
      next
        case None
        then show ?thesis using sl n1 n2 inv by (simp add: ino_cache_slot_def)
      qed
    qed
  qed
qed

text \<open>Entering an inode into an unused slot.\<close>

lemma ic_inv_insert:
  assumes inv: "ic_inv s" and i: "i < INO_CACHE_MAX" "\<not> e_used (ino_pool s ! i)" and n: "\<And>j. \<not> live s j (i_ino m)"
  defines "s' \<equiv> ino_cache_insert_nolock i (set_entry i ((ino_pool s ! i)\<lparr>e_ino := m\<rparr>) s)"
  shows "ic_inv s'" and "live s' j k \<longleftrightarrow> (if j = i then k = i_ino m else live s j k)" and "e_ino (ino_pool s' ! i) = m"
proof -
  note pn = nth_upd [OF ic_invD(1) [OF inv] i(1)]
  define e where "e = (ino_pool s ! i)\<lparr>e_ino := m, e_used := True, e_dead := False\<rparr>"
  have f: "ino_pool s' = (ino_pool s)[i := e]"
    "ino_hash s' = (ino_hash s)(ino_hash_fn (i_ino m) := i # ino_hash s (ino_hash_fn (i_ino m)))"
    using pn ic_invD(1) [OF inv] i by (simp_all add: s'_def ino_cache_insert_nolock_def set_entry_def e_def Let_def)
  have l: "live s' j k \<longleftrightarrow> (if j = i then k = i_ino m else live s j k)" for j k
    using i by (auto simp: live_def f pn e_def)
  then show "live s' j k \<longleftrightarrow> (if j = i then k = i_ino m else live s j k)" .
  show "e_ino (ino_pool s' ! i) = m" by (simp add: f pn e_def)
  have nh: "i \<notin> set (ino_hash s h)" for h using ic_invD(3) [OF inv, of i h] i by simp
  show "ic_inv s'"
  proof (rule ic_invI)
    show "j \<in> set (ino_hash s' h) \<longleftrightarrow> j < INO_CACHE_MAX \<and> e_used (ino_pool s' ! j) \<and> ino_hash_fn (i_ino (e_ino (ino_pool s' ! j))) = h" for j h
      using ic_invD(3) [OF inv, of j h] nh i by (auto simp: f pn e_def)
    show "live s' j k \<Longrightarrow> live s' l k \<Longrightarrow> j = l" for j k l
      unfolding l using ic_invD(4) [OF inv] n by (metis (full_types))
    show "distinct (ino_hash s' h)" for h using ic_invD(2) [OF inv] nh by (simp add: f)
  qed (use ic_invD(1) [OF inv] in \<open>simp add: f\<close>)
qed

lemma ino_disk_read_frame: "ino_disk_read n s = (d, s') \<Longrightarrow> s' = s\<lparr>bc := bc s'\<rparr>"
  by (auto simp: ino_disk_read_def split: prod.splits option.splits dest: block_frame(1))

lemma ino_get_spec:
  assumes inv: "ic_inv s" and g: "ino_get_nolock n s = (r, s')"
  shows "ic_inv s' \<and> (\<forall>i. r = Inr i \<longrightarrow> live s' i n \<and> i_refcount (e_ino (ino_pool s' ! i)) =
    (case ino_cache_find n s of None \<Rightarrow> 1 | Some k \<Rightarrow> i_refcount (e_ino (ino_pool s ! k)) + 1))"
proof (cases "n = 0 \<or> (total_inodes (sb_cache s) \<noteq> 0 \<and> n > total_inodes (sb_cache s))")
  case True
  then show ?thesis using g inv by (auto simp: ino_get_nolock_def)
next
  case ok: False
  note g' = g [unfolded ino_get_nolock_def if_not_P [OF ok]]
  show ?thesis
  proof (cases "ino_cache_find n s")
    case (Some i)
    define e where "e = (ino_pool s ! i)\<lparr>e_ino := (e_ino (ino_pool s ! i))\<lparr>i_refcount := i_refcount (e_ino (ino_pool s ! i)) + 1\<rparr>\<rparr>"
    have r: "r = Inr i" "s' = set_entry i e s" using g' Some by (simp_all add: Let_def e_def)
    have l: "live s i n" using Some ino_cache_find_iff [OF inv] by blast
    then have "i < length (ino_pool s)" using ic_invD(1) [OF inv] by (simp add: live_def)
    then show ?thesis
      using l r Some ic_inv_set_entry [OF inv, of e i] set_entry_live [OF inv, of e i i n]
      by (simp add: e_def) (simp add: set_entry_def)
  next
    case None
    then have none: "\<not> live s j n" for j using ino_cache_find_iff [OF inv, of n j] by auto
    obtain q s1 where sl: "ino_cache_slot s = (q, s1)" by fastforce
    note sp = ino_cache_slot_spec [OF inv sl]
    show ?thesis
    proof (cases q)
      case None
      then show ?thesis using g' sl sp \<open>ino_cache_find n s = None\<close> by auto
    next
      case (Some i)
      obtain d s2 where rd: "ino_disk_read n s1 = (d, s2)" by fastforce
      note fr = ino_disk_read_frame [OF rd]
      have inv2: "ic_inv s2" using ic_inv_frame [OF fr] sp by simp
      have l2: "live s2 j k = live s1 j k" for j k by (subst fr) (simp add: live_frame)
      have p2: "ino_pool s2 = ino_pool s1" by (subst fr) simp
      show ?thesis
      proof (cases d)
        case None
        then have "r = Inl EIO" "s' = s2"
          using g' sl Some rd \<open>ino_cache_find n s = None\<close> by simp_all
        then show ?thesis using inv2 by simp
      next
        case (Some di)
        define m where "m = (ino_from_disk n di)\<lparr>i_refcount := 1\<rparr>"
        have r: "r = Inr i" "s' = ino_cache_insert_nolock i (set_entry i ((ino_pool s2 ! i)\<lparr>e_ino := m\<rparr>) s2)"
          using g' sl \<open>q = Some i\<close> rd Some \<open>ino_cache_find n s = None\<close> by (simp_all add: m_def)
        have i: "i < INO_CACHE_MAX" "\<not> e_used (ino_pool s2 ! i)" using sp \<open>q = Some i\<close> p2 by auto
        have m: "i_ino m = n" "i_refcount m = 1" by (simp_all add: m_def ino_from_disk_def)
        have "\<not> live s2 j (i_ino m)" for j using l2 sp none m by blast
        note ins = ic_inv_insert [OF inv2 i this, folded r(2)]
        then show ?thesis using r m \<open>ino_cache_find n s = None\<close> by simp
      qed
    qed
  qed
qed

lemma ino_put_spec:
  assumes inv: "ic_inv s" and i: "i < INO_CACHE_MAX"
  shows "ic_inv (ino_put_nolock (Some i) s)"
proof -
  define e where "e = ino_pool s ! i"
  define s1 where "s1 = (if i_refcount (e_ino e) > 0
    then set_entry i (e\<lparr>e_ino := (e_ino e)\<lparr>i_refcount := i_refcount (e_ino e) - 1\<rparr>\<rparr>) s else s)"
  have inv1: "ic_inv s1" unfolding s1_def using inv by (auto intro!: ic_inv_set_entry simp: e_def)
  have "ino_put_nolock (Some i) s = (if i_refcount (e_ino (ino_pool s1 ! i)) \<noteq> 0 then s1
      else if e_dead (ino_pool s1 ! i) then ino_cache_unlink i s1 else sync_entry i s1)"
    by (simp add: ino_put_nolock_def Let_def e_def s1_def)
  then show ?thesis using inv1 ic_inv_unlink(1) [OF inv1 i] sync_entry_ic(1) [OF inv1] by simp
qed

lemma mark_dead_ic:
  assumes inv: "ic_inv s" and l: "live s i n"
  shows "ic_inv (mark_dead i s)" and "\<not> live (mark_dead i s) j n"
proof -
  define e where "e = (ino_pool s ! i)\<lparr>e_dead := True, e_ino := (e_ino (ino_pool s ! i))\<lparr>i_dirty := False\<rparr>\<rparr>"
  have i: "i < INO_CACHE_MAX" using l by (simp add: live_def)
  note pn = nth_upd [OF ic_invD(1) [OF inv] i]
  have inv1: "ic_inv (set_entry i e s)" by (intro ic_inv_set_entry [OF inv]) (simp_all add: e_def)
  have l1: "\<not> live (set_entry i e s) j n" for j
    using ic_invD(4) [OF inv l] by (auto simp: live_def set_entry_def pn e_def)
  have md: "mark_dead i s = (if i_refcount (e_ino (ino_pool s ! i)) = 0 then ino_cache_unlink i (set_entry i e s) else set_entry i e s)"
    by (simp add: mark_dead_def Let_def e_def)
  show "ic_inv (mark_dead i s)" "\<not> live (mark_dead i s) j n"
    using inv1 l1 ic_inv_unlink [OF inv1 i] by (simp_all add: md)
qed

lemma ino_free_ic:
  assumes inv: "ic_inv s"
  shows "ic_inv (ino_free_nolock n s)"
proof (cases "ino_cache_find n s")
  case None
  then show ?thesis using inv by (simp add: ino_free_nolock_def Let_def ic_inv_def live_def)
next
  case (Some i)
  then have "live s i n" using ino_cache_find_iff [OF inv] by blast
  then have "ic_inv (mark_dead i s)" by (rule mark_dead_ic [OF inv])
  then show ?thesis using inv Some by (simp add: ino_free_nolock_def Let_def ic_inv_def live_def)
qed

section \<open>Properties\<close>

text \<open>C31 (invariant). The inode cache is canonical.  Looking an inode up, dropping a reference and deleting an inode all
  keep the index consistent with at most one live entry per inode number, and a successful lookup returns that
  entry with one more reference (or one, when it was loaded).\<close>

theorem ino_cache_canonical:
  assumes "ic_inv s" and "ino_get_nolock n s = (r, s')" and "i < INO_CACHE_MAX"
  shows "ic_inv s' \<and> ic_inv (ino_put_nolock (Some i) s) \<and> ic_inv (ino_free_nolock n s)
    \<and> (case r of Inl _ \<Rightarrow> True
       | Inr k \<Rightarrow> ino_cache_find n s' = Some k
           \<and> i_refcount (e_ino (ino_pool s' ! k)) =
               (case ino_cache_find n s of None \<Rightarrow> 1 | Some j \<Rightarrow> i_refcount (e_ino (ino_pool s ! j)) + 1))"
  using ino_get_spec [OF assms(1,2)] ino_put_spec [OF assms(1,3)] ino_free_ic [OF assms(1)] ino_cache_find_iff [of s' n]
  by (auto split: sum.splits)

text \<open>Writing an inode back stores exactly its persistent fields in its slot of the inode table: reading
  the slot gives them back, and every other slot and every other block is as before.\<close>

theorem ino_sync_exact:
  assumes "kinv s" and "1 \<le> i_ino i" and "dev_block (inode_block (i_ino i) s)" and "inode_fits (ino_to_disk i)"
    and "ino_sync_nolock i s = (EOK, s')"
  shows "inode_at s' (i_ino i) = ino_to_disk i
    \<and> (\<forall>n. 1 \<le> n \<and> n \<noteq> i_ino i \<longrightarrow> inode_at s' n = inode_at s n)
    \<and> (\<forall>b. b \<noteq> inode_block (i_ino i) s \<longrightarrow> kview s' b = kview s b)"
proof -
  define n d where "n = i_ino i" and "d = ino_to_disk i"
  have len: "length (d_direct d) = 4" using assms(4) by (simp add: inode_fits_def d_def)
  have w: "ino_disk_write n d s = (EOK, s')" using assms(5) by (simp add: ino_sync_nolock_def n_def d_def)
  note sp = ino_disk_write_spec [OF assms(1) assms(3) [folded n_def] len w]
  define b where "b = inode_block n s"
  have v: "kview s' = (kview s)(b := bsplice (inode_offset n) (inode_bytes d) (kview s b))" using sp by (simp add: b_def)
  have blk: "inode_block k s' = inode_block k s" for k
    unfolding inode_block_def by (subst ino_sync_frame [OF assms(5)]) simp
  have vl: "length (kview s b) = 4096" using kst.view_length [OF assms(1)] assms(3) by (simp add: b_def n_def)
  note off = inode_offset_bound [of n]
  note lb = length_inode_bytes [OF len]
  have "bslice (inode_offset n) 128 (bsplice (inode_offset n) (inode_bytes d) (kview s b)) = inode_bytes d"
    using bslice_bsplice_same [of "inode_offset n" "inode_bytes d" "kview s b"] off lb vl by simp
  then have own: "inode_at s' n = d"
    using inode_roundtrip assms(4) by (simp add: inode_at_def blk v b_def [symmetric] KZFS_INODE_SIZE_def d_def)
  have "inode_at s' k = inode_at s k" if k: "1 \<le> k" "k \<noteq> n" for k
  proof (cases "inode_block k s = b")
    case True
    have "inode_offset k + 128 \<le> inode_offset n \<or> inode_offset n + 128 \<le> inode_offset k"
      using inode_slots_disjoint [OF k(1) _ k(2), of s] assms(2) True by (simp add: b_def n_def)
    then have "bslice (inode_offset k) 128 (bsplice (inode_offset n) (inode_bytes d) (kview s b)) = bslice (inode_offset k) 128 (kview s b)"
      using off lb vl by (elim disjE) (simp_all add: bslice_bsplice_before bslice_bsplice_after)
    then show ?thesis using True by (simp add: inode_at_def blk v KZFS_INODE_SIZE_def)
  next
    case False
    then show ?thesis by (simp add: inode_at_def blk v)
  qed
  then show ?thesis using own v by (auto simp: n_def d_def b_def)
qed

section \<open>Witnesses\<close>

definition blank_entry :: ino_entry where
  "blank_entry = \<lparr>e_ino = ino_from_disk 0 (inode_of_bytes (replicate 128 0)), e_used = False, e_dead = False\<rparr>"

definition cached_fs :: kfs where
  "cached_fs = small_fs\<lparr>ino_pool := replicate INO_CACHE_MAX blank_entry\<rparr>"

lemma cached_fs_ic: "ic_inv cached_fs"
  by (rule ic_invI) (auto simp: cached_fs_def small_fs_def blank_entry_def live_def)

lemma cached_fs_kinv: "kinv cached_fs"
  using fresh_cache_inv by (simp add: kinv_def cached_fs_def small_fs_def)

theorem ino_cache_canonical_witness:
  "\<exists>r s'. ino_get_nolock 1 cached_fs = (r, s') \<and> ic_inv s' \<and> ic_inv (ino_put_nolock (Some 0) cached_fs)"
proof -
  obtain r s' where "ino_get_nolock 1 cached_fs = (r, s')" by fastforce
  then show ?thesis using ino_cache_canonical [OF cached_fs_ic, of 1 r s' 0] by (auto simp: INO_CACHE_MAX_def)
qed

text \<open>On a working disk with an empty cache an update goes through.\<close>

lemma fresh_update:
  assumes dev: "dev_block b"
  shows "fst (blk_update f b fresh_cache)"
proof -
  have h: "hash_find b fresh_cache = None" by (simp add: hash_find_def fresh_cache_def bcache_init_def)
  have "free_slot (fresh_cache\<lparr>stat_miss := k\<rparr>) = Some 0" for k
    by (simp add: free_slot_def fresh_cache_def bcache_init_def BCACHE_N_BLOCKS_def upt_rec zero_buffer_def)
  then have a: "alloc_entry_locked (fresh_cache\<lparr>stat_miss := k\<rparr>) = (Some 0, fresh_cache\<lparr>stat_miss := k\<rparr>)" for k
    by (simp add: alloc_entry_locked_def)
  have d: "disk (lru_push_front i (hash_insert i (set_buf i x (fresh_cache\<lparr>stat_miss := k\<rparr>)))) = good_disk" for i x k
    by (simp add: lru_push_front_def hash_insert_def Let_def lru_unlink_def fresh_cache_inv)
  obtain bs where r: "ata_read_block4k b good_disk = (0, bs)"
    using ata_read_good [OF good_disk_ok(3) dev] by (cases "ata_read_block4k b good_disk") auto
  have "\<exists>c. load_entry b 0 (fresh_cache\<lparr>stat_miss := k\<rparr>) = (Some 0, c)" for k
    by (simp add: load_entry_def Let_def d r)
  then obtain c where "bcache_read b fresh_cache = (Some 0, c)"
    unfolding bcache_read_def h option.case a Let_def prod.case by blast
  then show ?thesis by (simp add: blk_update_def)
qed

definition sample_inode :: kzfs_inode_mem where
  "sample_inode = \<lparr>i_ino = 3, i_mode = 1, i_links = 1, i_size = 5000, i_blocks = 2,
     i_direct = [\<lparr>start_block = 9, block_count = 2\<rparr>, no_extent, no_extent, no_extent], i_indirect = 0, i_dirty = True, i_refcount = 1\<rparr>"

theorem ino_sync_exact_witness:
  "\<exists>s'. ino_sync_nolock sample_inode cached_fs = (EOK, s') \<and> inode_at s' 3 = ino_to_disk sample_inode"
proof -
  have b: "dev_block (inode_block 3 cached_fs)"
    by (simp add: inode_block_def cached_fs_def small_fs_def KZFS_INODES_PER_BLOCK_def dev_block_def)
  have f: "inode_fits (ino_to_disk sample_inode)"
    by (simp add: inode_fits_def ino_to_disk_def sample_inode_def extent_fits_def no_extent_def)
  have "bc cached_fs = fresh_cache" by (simp add: cached_fs_def small_fs_def)
  then have "fst (ino_sync_nolock sample_inode cached_fs) = EOK"
    using fresh_update [OF b, of "bsplice (inode_offset 3) (inode_bytes (ino_to_disk sample_inode))"]
    by (cases "blk_update (bsplice (inode_offset 3) (inode_bytes (ino_to_disk sample_inode))) (inode_block 3 cached_fs) fresh_cache")
      (simp add: ino_sync_nolock_def ino_disk_write_def update_block_def, simp add: sample_inode_def)
  then obtain s' where "ino_sync_nolock sample_inode cached_fs = (EOK, s')"
    by (cases "ino_sync_nolock sample_inode cached_fs") auto
  then show ?thesis
    using ino_sync_exact [OF cached_fs_kinv, of sample_inode s'] b f by (auto simp: sample_inode_def)
qed

end
