(* ===== verification/Kfs_Extent.thy ===== *)
theory Kfs_Extent
  imports Kfs_Inode
begin

text \<open>
  Files as extents, \<^verbatim>\<open>kernel/fs/kfs_extent.c\<close>: the extent list of an inode, the translation of logical to
  physical blocks, growth, byte-level reads and writes, truncation.

  An inode argument is passed by value and returned updated (the source updates it through its pointer
  and no callee reaches it another way).  Loops over extent indices are recursions over the list of the
  indices; the growth loop terminates because every successful allocation is non-empty.
\<close>

section \<open>Extent entries\<close>

definition ext_get_nolock :: "kzfs_inode_mem \<Rightarrow> nat \<Rightarrow> kfs \<Rightarrow> (kzfs_err + kzfs_extent) \<times> kfs" where
  "ext_get_nolock i n s =
     (if n < KZFS_NUM_DIRECT_EXTENTS then (Inr (i_direct i ! n), s)
      else
        let k = n - KZFS_NUM_DIRECT_EXTENTS in
        if k \<ge> KZFS_EXTS_PER_IND_BLOCK then (Inl EINVAL, s)
        else if i_indirect i = 0 then (Inr no_extent, s)
        else
          let (r, s') = peek_block (i_indirect i) s in
          case r of None \<Rightarrow> (Inl EIO, s')
          | Some d \<Rightarrow> (Inr (extent_of_bytes (bslice (k * 12) 12 d)), s'))"

text \<open>Allocating and clearing the indirect block when it is first needed.\<close>

definition need_indirect :: "kzfs_inode_mem \<Rightarrow> kfs \<Rightarrow> kzfs_err \<times> kzfs_inode_mem \<times> kfs" where
  "need_indirect i s =
     (if i_indirect i = 0 then
        let (start, got, s1) = blk_alloc_run_nolock 1 s in
        if start = 0 then (ENOSPC, i, s1)
        else
          let i1 = i\<lparr>i_indirect := start, i_blocks := u64 (i_blocks i + 1), i_dirty := True\<rparr>;
              (ok, s2) = fill_block (replicate KZFS_BLOCK_SIZE 0) start s1
          in (if ok then EOK else EIO, i1, s2)
      else (EOK, i, s))"

definition ext_set_nolock :: "kzfs_inode_mem \<Rightarrow> nat \<Rightarrow> kzfs_extent \<Rightarrow> kfs \<Rightarrow> kzfs_err \<times> kzfs_inode_mem \<times> kfs" where
  "ext_set_nolock i n e s =
     (if n < KZFS_NUM_DIRECT_EXTENTS then (EOK, i\<lparr>i_direct := (i_direct i)[n := e], i_dirty := True\<rparr>, s)
      else
        let k = n - KZFS_NUM_DIRECT_EXTENTS in
        if k \<ge> KZFS_EXTS_PER_IND_BLOCK then (EINVAL, i, s)
        else
          let (rc, i1, s1) = need_indirect i s in
          if rc \<noteq> EOK then (rc, i1, s1)
          else
            let (ok, s2) = update_block (bsplice (k * 12) (extent_bytes e)) (i_indirect i1) s1
            in (if ok then EOK else EIO, i1, s2))"

section \<open>Translation\<close>

fun phys_scan :: "nat list \<Rightarrow> kzfs_inode_mem \<Rightarrow> nat \<Rightarrow> nat \<Rightarrow> kfs \<Rightarrow> nat option \<times> kfs" where
  "phys_scan [] i lb cursor s = (None, s)"
| "phys_scan (n # ns) i lb cursor s =
     (case ext_get_nolock i n s of
        (Inl _, s') \<Rightarrow> (None, s')
      | (Inr e, s') \<Rightarrow>
          if block_count e = 0 then
            (if n < KZFS_NUM_DIRECT_EXTENTS then phys_scan ns i lb cursor s' else (None, s'))
          else if lb < cursor + block_count e then (Some (u64 (start_block e + (lb - cursor))), s')
          else phys_scan ns i lb (cursor + block_count e) s')"

definition kzfs_get_phys_block :: "kzfs_inode_mem \<Rightarrow> nat \<Rightarrow> kfs \<Rightarrow> nat option \<times> kfs" where
  "kzfs_get_phys_block i lb s = phys_scan [0..<KZFS_MAX_EXTENTS] i lb 0 s"

section \<open>Appending and growing\<close>

fun append_scan :: "nat list \<Rightarrow> kzfs_inode_mem \<Rightarrow> nat \<Rightarrow> nat \<Rightarrow> kfs \<Rightarrow> kzfs_err \<times> kzfs_inode_mem \<times> kfs" where
  "append_scan [] i start count s = (EINVAL, i, s)"
| "append_scan (n # ns) i start count s =
     (case ext_get_nolock i n s of
        (Inl _, s') \<Rightarrow> (EIO, i, s')
      | (Inr e, s') \<Rightarrow>
          if block_count e = 0 then ext_set_nolock i n \<lparr>start_block = start, block_count = count\<rparr> s'
          else if u64 (start_block e + block_count e) = start
            then ext_set_nolock i n (e\<lparr>block_count := u32 (block_count e + count)\<rparr>) s'
          else append_scan ns i start count s')"

definition ext_append_nolock :: "kzfs_inode_mem \<Rightarrow> nat \<Rightarrow> nat \<Rightarrow> kfs \<Rightarrow> kzfs_err \<times> kzfs_inode_mem \<times> kfs" where
  "ext_append_nolock i start count s = append_scan [0..<KZFS_MAX_EXTENTS] i start count s"

fun cover_scan :: "nat list \<Rightarrow> kzfs_inode_mem \<Rightarrow> nat \<Rightarrow> kfs \<Rightarrow> (kzfs_err + nat) \<times> kfs" where
  "cover_scan [] i cursor s = (Inr cursor, s)"
| "cover_scan (n # ns) i cursor s =
     (case ext_get_nolock i n s of
        (Inl _, s') \<Rightarrow> (Inl EIO, s')
      | (Inr e, s') \<Rightarrow>
          if block_count e = 0 then (Inr cursor, s') else cover_scan ns i (cursor + block_count e) s')"

lemma alloc_run_nonempty: "blk_alloc_run_nolock want s = (st, n, s') \<Longrightarrow> st \<noteq> 0 \<Longrightarrow> 0 < n"
  by (auto simp: blk_alloc_run_nolock_def Let_def split: if_splits prod.splits)

function grow_loop :: "kzfs_inode_mem \<Rightarrow> nat \<Rightarrow> nat \<Rightarrow> kfs \<Rightarrow> kzfs_err \<times> kzfs_inode_mem \<times> kfs" where
  "grow_loop i lb cursor s =
     (if lb \<ge> cursor then
        let need = lb - cursor + 1;
            want = (if need > 64 then 64 else need);
            (start, got, s1) = blk_alloc_run_nolock want s
        in if start = 0 then (ENOSPC, i, s1)
           else
             let (rc, i1, s2) = ext_append_nolock i start got s1 in
             if rc \<noteq> EOK then (rc, i1, blk_free_run_nolock start got s2)
             else grow_loop (i1\<lparr>i_blocks := u64 (i_blocks i1 + got), i_dirty := True\<rparr>) lb (cursor + got) s2
      else (EOK, i, s))"
  by pat_completeness auto
termination
  by (relation "measure (\<lambda>(i, lb, cursor, s). lb + 1 - cursor)")
    (auto dest!: alloc_run_nonempty [OF sym])

declare grow_loop.simps [simp del]

definition grow_to_nolock :: "kzfs_inode_mem \<Rightarrow> nat \<Rightarrow> kfs \<Rightarrow> kzfs_err \<times> kzfs_inode_mem \<times> kfs" where
  "grow_to_nolock i lb s =
     (case cover_scan [0..<KZFS_MAX_EXTENTS] i 0 s of
        (Inl e, s') \<Rightarrow> (e, i, s')
      | (Inr cursor, s') \<Rightarrow> if lb < cursor then (EOK, i, s') else grow_loop i lb cursor s')"

section \<open>Bytes\<close>

function read_loop :: "kzfs_inode_mem \<Rightarrow> nat \<Rightarrow> nat \<Rightarrow> byte list \<Rightarrow> kfs \<Rightarrow> kzfs_err \<times> byte list \<times> kfs" where
  "read_loop i off count acc s =
     (if count > 0 then
        let lb = off div KZFS_BLOCK_SIZE;
            boff = off mod KZFS_BLOCK_SIZE;
            chunk = min (KZFS_BLOCK_SIZE - boff) count;
            (p, s1) = kzfs_get_phys_block i lb s
        in case p of
             None \<Rightarrow> read_loop i (off + chunk) (count - chunk) (acc @ replicate chunk 0) s1
           | Some phys \<Rightarrow>
               let (r, s2) = peek_block phys s1 in
               case r of None \<Rightarrow> (EIO, acc, s2)
               | Some d \<Rightarrow> read_loop i (off + chunk) (count - chunk) (acc @ bslice boff chunk d) s2
      else (EOK, acc, s))"
  by pat_completeness auto
termination
  by (relation "measure (\<lambda>(i, off, count, acc, s). count)") (auto simp: KZFS_BLOCK_SIZE_def)

declare read_loop.simps [simp del]

definition blk_read_file :: "kzfs_inode_mem \<Rightarrow> nat \<Rightarrow> nat \<Rightarrow> kfs \<Rightarrow> kzfs_err \<times> byte list \<times> kfs" where
  "blk_read_file i off count s =
     (if off \<ge> i_size i then (EOK, [], s)
      else read_loop i off (if count > i_size i - off then u32 (i_size i - off) else count) [] s)"

text \<open>Finding the block of a write, growing the file when it is not mapped.\<close>

definition map_for_write :: "kzfs_inode_mem \<Rightarrow> nat \<Rightarrow> kfs \<Rightarrow> (kzfs_err + nat) \<times> kzfs_inode_mem \<times> kfs" where
  "map_for_write i lb s =
     (case kzfs_get_phys_block i lb s of
        (Some p, s1) \<Rightarrow> (Inr p, i, s1)
      | (None, s1) \<Rightarrow>
          let (rc, i2, s2) = grow_to_nolock i lb s1 in
          if rc \<noteq> EOK then (Inl rc, i2, s2)
          else case kzfs_get_phys_block i2 lb s2 of
            (Some p, s3) \<Rightarrow> (Inr p, i2, s3)
          | (None, s3) \<Rightarrow> (Inl EIO, i2, s3))"

definition put_chunk :: "nat \<Rightarrow> nat \<Rightarrow> byte list \<Rightarrow> kfs \<Rightarrow> bool \<times> kfs" where
  "put_chunk phys boff bs s =
     (if boff = 0 \<and> length bs = KZFS_BLOCK_SIZE then fill_block bs phys s else update_block (bsplice boff bs) phys s)"

function write_loop_file :: "kzfs_inode_mem \<Rightarrow> nat \<Rightarrow> byte list \<Rightarrow> nat \<Rightarrow> kfs \<Rightarrow> kzfs_err \<times> nat \<times> kzfs_inode_mem \<times> kfs" where
  "write_loop_file i off buf nw s =
     (if length buf > 0 then
        let lb = off div KZFS_BLOCK_SIZE;
            boff = off mod KZFS_BLOCK_SIZE;
            chunk = min (KZFS_BLOCK_SIZE - boff) (length buf);
            (m, i1, s1) = map_for_write i lb s
        in case m of
             Inl e \<Rightarrow> (e, nw, i1, s1)
           | Inr phys \<Rightarrow>
               let (ok, s2) = put_chunk phys boff (take chunk buf) s1 in
               if \<not> ok then (EIO, nw, i1, s2)
               else write_loop_file (i1\<lparr>i_size := max (i_size i1) (off + chunk), i_dirty := True\<rparr>) (off + chunk)
                      (drop chunk buf) (nw + chunk) s2
      else (EOK, nw, i, s))"
  by pat_completeness auto
termination
  by (relation "measure (\<lambda>(i, off, buf, d, s). length buf)") (auto simp: KZFS_BLOCK_SIZE_def)

declare write_loop_file.simps [simp del]

definition blk_write_file :: "kzfs_inode_mem \<Rightarrow> nat \<Rightarrow> byte list \<Rightarrow> kfs \<Rightarrow> kzfs_err \<times> nat \<times> kzfs_inode_mem \<times> kfs" where
  "blk_write_file i off buf s = write_loop_file i off buf 0 s"

section \<open>Truncation and release\<close>

fun trunc_scan :: "nat list \<Rightarrow> kzfs_inode_mem \<Rightarrow> nat \<Rightarrow> nat \<Rightarrow> kfs \<Rightarrow> kzfs_err \<times> kzfs_inode_mem \<times> kfs" where
  "trunc_scan [] i new_lb cursor s = (EOK, i, s)"
| "trunc_scan (n # ns) i new_lb cursor s =
     (case ext_get_nolock i n s of
        (Inl _, s1) \<Rightarrow> (EIO, i, s1)
      | (Inr e, s1) \<Rightarrow>
          if block_count e = 0 then (EOK, i, s1)
          else if new_lb \<le> cursor then
            let s2 = blk_free_run_nolock (start_block e) (block_count e) s1;
                (_, i2, s3) = ext_set_nolock (i\<lparr>i_blocks := sub64 (i_blocks i) (block_count e)\<rparr>) n no_extent s2
            in trunc_scan ns i2 new_lb (cursor + block_count e) s3
          else if new_lb < cursor + block_count e then
            let keep = u32 (new_lb - cursor);
                s2 = blk_free_run_nolock (u64 (start_block e + keep)) (block_count e - keep) s1;
                (_, i2, s3) = ext_set_nolock (i\<lparr>i_blocks := sub64 (i_blocks i) (block_count e - keep)\<rparr>) n
                                (e\<lparr>block_count := keep\<rparr>) s2
            in trunc_scan ns i2 new_lb (cursor + block_count e) s3
          else trunc_scan ns i new_lb (cursor + block_count e) s1)"

fun any_indirect :: "nat list \<Rightarrow> kzfs_inode_mem \<Rightarrow> kfs \<Rightarrow> bool \<times> kfs" where
  "any_indirect [] i s = (False, s)"
| "any_indirect (k # ks) i s =
     (case ext_get_nolock i (KZFS_NUM_DIRECT_EXTENTS + k) s of
        (Inl _, s1) \<Rightarrow> (False, s1)
      | (Inr e, s1) \<Rightarrow> if block_count e \<noteq> 0 then (True, s1) else any_indirect ks i s1)"

definition drop_indirect :: "kzfs_inode_mem \<Rightarrow> kfs \<Rightarrow> kzfs_inode_mem \<times> kfs" where
  "drop_indirect i s =
     (if i_indirect i \<noteq> 0 then
        let (any, s1) = any_indirect [0..<KZFS_EXTS_PER_IND_BLOCK] i s in
        if \<not> any then
          (i\<lparr>i_blocks := sub64 (i_blocks i) 1, i_indirect := 0, i_dirty := True\<rparr>, blk_free_run_nolock (i_indirect i) 1 s1)
        else (i, s1)
      else (i, s))"

definition truncate_nolock :: "kzfs_inode_mem \<Rightarrow> nat \<Rightarrow> kfs \<Rightarrow> kzfs_err \<times> kzfs_inode_mem \<times> kfs" where
  "truncate_nolock i new_size s =
     (let new_lb = (if new_size = 0 then 0 else (new_size - 1) div KZFS_BLOCK_SIZE + 1);
          (rc, i1, s1) = trunc_scan [0..<KZFS_MAX_EXTENTS] i new_lb 0 s
      in if rc \<noteq> EOK then (rc, i1, s1)
         else let (i2, s2) = drop_indirect i1 s1
              in (EOK, i2\<lparr>i_size := new_size, i_dirty := True\<rparr>, s2))"

fun free_scan :: "nat list \<Rightarrow> kzfs_inode_mem \<Rightarrow> kfs \<Rightarrow> kzfs_inode_mem \<times> kfs" where
  "free_scan [] i s = (i, s)"
| "free_scan (n # ns) i s =
     (case ext_get_nolock i n s of
        (Inl _, s1) \<Rightarrow> (i, s1)
      | (Inr e, s1) \<Rightarrow>
          if block_count e = 0 then (if n \<ge> KZFS_NUM_DIRECT_EXTENTS then (i, s1) else free_scan ns i s1)
          else
            let s2 = blk_free_run_nolock (start_block e) (block_count e) s1;
                (_, i2, s3) = ext_set_nolock i n no_extent s2
            in free_scan ns i2 s3)"

definition inode_free_all_extents :: "kzfs_inode_mem \<Rightarrow> kfs \<Rightarrow> kzfs_inode_mem \<times> kfs" where
  "inode_free_all_extents i s =
     (let (i1, s1) = free_scan [0..<KZFS_MAX_EXTENTS] i s;
          (i2, s2) = (if i_indirect i1 \<noteq> 0 then (i1\<lparr>i_indirect := 0\<rparr>, blk_free_run_nolock (i_indirect i1) 1 s1) else (i1, s1))
      in (i2\<lparr>i_blocks := 0, i_size := 0, i_dirty := True\<rparr>, s2))"

section \<open>The blocks of a file\<close>

text \<open>
  An inode without an indirect block maps its logical blocks to the concatenation of its direct extents.
\<close>

definition extent_blocks :: "kzfs_extent \<Rightarrow> nat list" where
  "extent_blocks e = [start_block e..<start_block e + block_count e]"

definition direct_blocks :: "kzfs_inode_mem \<Rightarrow> nat list" where
  "direct_blocks i = concat (map extent_blocks (i_direct i))"

definition direct_inode :: "kzfs_inode_mem \<Rightarrow> bool" where
  "direct_inode i \<longleftrightarrow> i_indirect i = 0 \<and> length (i_direct i) = 4
     \<and> (\<forall>e \<in> set (i_direct i). start_block e + block_count e < 2 ^ 64)"

lemma ext_get_direct: "n < 4 \<Longrightarrow> ext_get_nolock i n s = (Inr (i_direct i ! n), s)"
  by (simp add: ext_get_nolock_def KZFS_NUM_DIRECT_EXTENTS_def)

lemma ext_get_no_indirect: "i_indirect i = 0 \<Longrightarrow> 4 \<le> n \<Longrightarrow> n < 345 \<Longrightarrow> ext_get_nolock i n s = (Inr no_extent, s)"
  by (simp add: ext_get_nolock_def KZFS_NUM_DIRECT_EXTENTS_def KZFS_EXTS_PER_IND_BLOCK_def Let_def)

lemma max_extents_split: "[0..<KZFS_MAX_EXTENTS] = [0, 1, 2, 3] @ 4 # [5..<KZFS_MAX_EXTENTS]"
proof -
  have "[0..<345] = [0..<4] @ [4..<345]" using upt_add_eq_append [of 0 4 341] by simp
  also have "[0..<4] = [0, 1, 2, 3 :: nat]" by (simp add: upt_rec)
  also have "[4..<345] = 4 # [5..<345 :: nat]" by (simp add: upt_conv_Cons)
  finally show ?thesis by (simp add: KZFS_MAX_EXTENTS_def)
qed

lemma nth_extent_blocks: "k < block_count e \<Longrightarrow> extent_blocks e ! k = start_block e + k"
  by (simp add: extent_blocks_def)

lemma length_extent_blocks [simp]: "length (extent_blocks e) = block_count e"
  by (simp add: extent_blocks_def)

text \<open>The scan over direct entries, ended by the first indirect index.\<close>

lemma phys_scan_direct:
  assumes "i_indirect i = 0" and "ns = map fst nes" and "\<forall>(n, e) \<in> set nes. n < 4 \<and> i_direct i ! n = e \<and> start_block e + block_count e < 2 ^ 64"
    and "cursor \<le> lb"
  shows "phys_scan (ns @ 4 # rest) i lb cursor s =
    ((let bs = concat (map (extent_blocks \<circ> snd) nes) in if lb - cursor < length bs then Some (bs ! (lb - cursor)) else None), s)"
  using assms
proof (induction nes arbitrary: ns cursor)
  case Nil
  then show ?case by (simp add: ext_get_no_indirect no_extent_def KZFS_NUM_DIRECT_EXTENTS_def)
next
  case (Cons p nes)
  obtain n e where p: "p = (n, e)" by (cases p)
  have n: "n < 4" "i_direct i ! n = e" "start_block e + block_count e < 2 ^ 64" using Cons.prems(3) p by auto
  have ns: "ns = n # map fst nes" using Cons.prems(2) p by simp
  have rest: "\<forall>(n, e) \<in> set nes. n < 4 \<and> i_direct i ! n = e \<and> start_block e + block_count e < 2 ^ 64" using Cons.prems(3) by auto
  consider (zero) "block_count e = 0" | (here) "0 < block_count e" "lb < cursor + block_count e"
    | (later) "0 < block_count e" "cursor + block_count e \<le> lb" by linarith
  then show ?case
  proof cases
    case zero
    then show ?thesis
      using Cons.IH [OF Cons.prems(1) refl rest Cons.prems(4)] n ns p
      by (simp add: ext_get_direct KZFS_NUM_DIRECT_EXTENTS_def extent_blocks_def)
  next
    case here
    have u: "u64 (start_block e + (lb - cursor)) = start_block e + (lb - cursor)"
      using n(3) here Cons.prems(4) by (intro u64_id) simp
    have "lb - cursor < block_count e" using here Cons.prems(4) by simp
    then show ?thesis using here n ns p u by (simp add: ext_get_direct nth_append nth_extent_blocks Let_def)
  next
    case later
    then have "lb - cursor - block_count e = lb - (cursor + block_count e)" "\<not> lb - cursor < block_count e" by simp_all
    then show ?thesis
      using Cons.IH [OF Cons.prems(1) refl rest, of "cursor + block_count e"] later n ns p
      by (auto simp: ext_get_direct nth_append Let_def)
  qed
qed

lemma phys_direct:
  assumes "direct_inode i"
  shows "kzfs_get_phys_block i lb s =
    (if lb < length (direct_blocks i) then Some (direct_blocks i ! lb) else None, s)"
proof -
  obtain a b c d where l: "i_direct i = [a, b, c, d]" using four_list [of "i_direct i"] assms by (auto simp: direct_inode_def)
  have nes: "\<forall>(n, e) \<in> set [(0 :: nat, a), (1, b), (2, c), (3, d)]. n < 4 \<and> i_direct i ! n = e \<and> start_block e + block_count e < 2 ^ 64"
    using assms unfolding direct_inode_def l by simp
  have "i_indirect i = 0" using assms by (simp add: direct_inode_def)
  from phys_scan_direct [OF this refl nes le0, of "[5..<KZFS_MAX_EXTENTS]" lb s]
  have "phys_scan ([0, 1, 2, 3] @ 4 # [5..<KZFS_MAX_EXTENTS]) i lb 0 s =
    ((let bs = concat (map (extent_blocks \<circ> snd) [(0 :: nat, a), (1, b), (2, c), (3, d)]) in
        if lb - 0 < length bs then Some (bs ! (lb - 0)) else None), s)" by simp
  then show ?thesis
    unfolding kzfs_get_phys_block_def max_extents_split by (simp add: direct_blocks_def l Let_def)
qed

section \<open>File contents\<close>

text \<open>Byte \<open>o\<close> of a file whose blocks are \<open>bl\<close>, in a store with content \<open>v\<close>; unmapped bytes are zero.\<close>

definition fbyte :: "nat list \<Rightarrow> (nat \<Rightarrow> byte list) \<Rightarrow> nat \<Rightarrow> byte" where
  "fbyte bl v o1 = (if o1 div 4096 < length bl then v (bl ! (o1 div 4096)) ! (o1 mod 4096) else 0)"

definition direct_file :: "kzfs_inode_mem \<Rightarrow> bool" where
  "direct_file i \<longleftrightarrow> direct_inode i \<and> distinct (direct_blocks i) \<and> (\<forall>b \<in> set (direct_blocks i). dev_block b)"

lemma same_block:
  assumes "off \<le> o1" and "o1 < off + n" and "off mod 4096 + n \<le> (4096 :: nat)"
  shows "o1 div 4096 = off div 4096" and "o1 mod 4096 = off mod 4096 + (o1 - off)"
proof -
  define q r where "q = off div 4096" and "r = off mod 4096"
  have off: "off = q * 4096 + r" by (simp add: q_def r_def)
  define j where "j = o1 - off"
  have o1: "o1 = off + j" using assms(1) by (simp add: j_def)
  then have "o1 = q * 4096 + (r + j)" using off by linarith
  moreover have "r + j < 4096" using o1 assms(2,3) unfolding r_def by linarith
  ultimately have "o1 div 4096 = q" "o1 mod 4096 = r + j" by simp_all
  then show "o1 div 4096 = off div 4096" "o1 mod 4096 = off mod 4096 + (o1 - off)" by (simp_all add: q_def r_def j_def)
qed

lemma chunk_bytes:
  assumes "off mod 4096 + n \<le> 4096" and "off div 4096 < length bl \<Longrightarrow> length (v (bl ! (off div 4096))) = 4096"
  shows "map (fbyte bl v) [off..<off + n] =
    (if off div 4096 < length bl then bslice (off mod 4096) n (v (bl ! (off div 4096))) else replicate n 0)"
proof (rule nth_equalityI)
  show "length (map (fbyte bl v) [off..<off + n]) =
      length (if off div 4096 < length bl then bslice (off mod 4096) n (v (bl ! (off div 4096))) else replicate n 0)"
    using assms by simp
  fix j assume "j < length (map (fbyte bl v) [off..<off + n])"
  then have j: "j < n" by simp
  have "(off + j) div 4096 = off div 4096" "(off + j) mod 4096 = off mod 4096 + j"
    using same_block [of off "off + j" n] j assms(1) by simp_all
  then show "map (fbyte bl v) [off..<off + n] ! j =
      (if off div 4096 < length bl then bslice (off mod 4096) n (v (bl ! (off div 4096))) else replicate n 0) ! j"
    using j assms by (simp add: fbyte_def bslice_nth)
qed

lemma chunk_write:
  assumes "distinct bl" and "off div 4096 < length bl" and "length (v (bl ! (off div 4096))) = 4096"
    and "off mod 4096 + length c \<le> 4096"
  shows "fbyte bl (v(bl ! (off div 4096) := bsplice (off mod 4096) c (v (bl ! (off div 4096))))) o1 =
    (if off \<le> o1 \<and> o1 < off + length c then c ! (o1 - off) else fbyte bl v o1)"
proof (cases "o1 div 4096 = off div 4096")
  case True
  have m: "o1 mod 4096 < 4096" by simp
  have "off \<le> o1 \<and> o1 < off + length c \<longleftrightarrow> off mod 4096 \<le> o1 mod 4096 \<and> o1 mod 4096 < off mod 4096 + length c"
    "off \<le> o1 \<Longrightarrow> o1 - off = o1 mod 4096 - off mod 4096"
    using True div_mult_mod_eq [of o1 4096] div_mult_mod_eq [of off 4096] by linarith+
  then show ?thesis using True assms(2-4) m by (auto simp: fbyte_def nth_bsplice)
next
  case False
  then have "\<not> (off \<le> o1 \<and> o1 < off + length c)" using same_block(1) [of off o1 "length c"] assms(4) by blast
  moreover have "o1 div 4096 < length bl \<Longrightarrow> bl ! (o1 div 4096) \<noteq> bl ! (off div 4096)"
    using False assms(1,2) by (simp add: nth_eq_iff_index_eq)
  ultimately show ?thesis by (auto simp: fbyte_def)
qed

lemma read_loop_spec:
  assumes "direct_file i" and "kinv s" and "read_loop i off count acc s = (EOK, bs, s')"
  shows "bs = acc @ map (fbyte (direct_blocks i) (kview s)) [off..<off + count] \<and> kinv s' \<and> kview s' = kview s"
  using assms
proof (induction count arbitrary: off acc s rule: less_induct)
  case (less count)
  define bl where "bl = direct_blocks i"
  have di: "direct_inode i" "\<forall>b \<in> set bl. dev_block b" using less.prems(1) by (simp_all add: direct_file_def bl_def)
  show ?case
  proof (cases "count = 0")
    case True
    then show ?thesis using less.prems by (simp add: read_loop.simps [of i off 0])
  next
    case False
    define chunk where "chunk = min (KZFS_BLOCK_SIZE - off mod KZFS_BLOCK_SIZE) count"
    have ch: "0 < chunk" "chunk \<le> count" "off mod 4096 + chunk \<le> 4096"
      using False by (auto simp: chunk_def KZFS_BLOCK_SIZE_def)
    have dec: "count - chunk < count" using ch by simp
    have split: "[off..<off + count] = [off..<off + chunk] @ [off + chunk..<off + chunk + (count - chunk)]"
      using ch(2) upt_add_eq_append [of off "off + chunk" "count - chunk"] by simp
    have len: "off div 4096 < length bl \<Longrightarrow> length (kview s (bl ! (off div 4096))) = 4096"
      using di(2) by (intro kst.view_length [OF less.prems(2)]) simp
    note cb = chunk_bytes [OF ch(3), of bl "kview s", OF len]
    note ph = phys_direct [OF di(1), folded bl_def]
    show ?thesis
    proof (cases "off div 4096 < length bl")
      case False
      then have "read_loop i (off + chunk) (count - chunk) (acc @ replicate chunk 0) s = (EOK, bs, s')"
        using less.prems(3) \<open>count \<noteq> 0\<close> ph
        by (subst (asm) read_loop.simps) (simp add: Let_def chunk_def KZFS_BLOCK_SIZE_def)
      from less.IH [OF dec less.prems(1,2) this] show ?thesis using cb False by (simp add: split bl_def)
    next
      case True
      define p where "p = bl ! (off div 4096)"
      obtain r s2 where pk: "peek_block p s = (r, s2)" by fastforce
      have "dev_block p" using di(2) True by (simp add: p_def)
      note pl = kst.peek_law [OF less.prems(2) this pk]
      have e: "read_loop i off count acc s = (case r of None \<Rightarrow> (EIO, acc, s2)
          | Some d \<Rightarrow> read_loop i (off + chunk) (count - chunk) (acc @ bslice (off mod 4096) chunk d) s2)"
        unfolding chunk_def KZFS_BLOCK_SIZE_def using \<open>count \<noteq> 0\<close> ph True pk
        by (subst read_loop.simps) (simp add: Let_def KZFS_BLOCK_SIZE_def p_def)
      then have r: "r = Some (kview s p)" using less.prems(3) pl by (cases r) auto
      then have "read_loop i (off + chunk) (count - chunk) (acc @ bslice (off mod 4096) chunk (kview s p)) s2 = (EOK, bs, s')"
        using e less.prems(3) by simp
      from less.IH [OF dec less.prems(1) conjunct1 [OF pl] this] show ?thesis
        using pl cb True by (simp add: split bl_def p_def)
    qed
  qed
qed

lemma put_chunk_spec:
  assumes "kinv s" and "dev_block p" and "boff + length c \<le> 4096" and "put_chunk p boff c s = (ok, s')"
  shows "kinv s' \<and> kview s' = (if ok then (kview s)(p := bsplice boff c (kview s p)) else kview s)"
proof (cases "boff = 0 \<and> length c = KZFS_BLOCK_SIZE")
  case True
  have l: "length (kview s p) = 4096" using kst.view_length [OF assms(1,2)] .
  then have "bsplice boff c (kview s p) = c" using True by (simp add: bsplice_def KZFS_BLOCK_SIZE_def)
  then show ?thesis
    using True assms(4) kst.fill_law [OF assms(1,2), of c ok s'] by (simp add: put_chunk_def KZFS_BLOCK_SIZE_def)
next
  case False
  then have "update_block (bsplice boff c) p s = (ok, s')" using assms(4) by (auto simp: put_chunk_def)
  moreover have "length (bsplice boff c x) = 4096" if "length x = 4096" for x using that assms(3) by simp
  ultimately show ?thesis using kst.upd_law [OF assms(1,2)] by blast
qed

lemma direct_blocks_fields [simp]: "direct_blocks (i\<lparr>i_size := z, i_dirty := b\<rparr>) = direct_blocks i"
  "direct_file (i\<lparr>i_size := z, i_dirty := b\<rparr>) = direct_file i"
  by (simp_all add: direct_blocks_def direct_file_def direct_inode_def)

lemma write_loop_file_spec:
  assumes "direct_file i" and "kinv s" and "off + length buf \<le> 4096 * length (direct_blocks i)"
    and "write_loop_file i off buf nw s = (EOK, n, i', s')"
  shows "n = nw + length buf \<and> kinv s' \<and> direct_blocks i' = direct_blocks i \<and> direct_file i'
    \<and> i_size i' = (if buf = [] then i_size i else max (i_size i) (off + length buf))
    \<and> (\<forall>k. fbyte (direct_blocks i) (kview s') k =
          (if off \<le> k \<and> k < off + length buf then buf ! (k - off) else fbyte (direct_blocks i) (kview s) k))"
  using assms
proof (induction "length buf" arbitrary: i off buf nw s rule: less_induct)
  case less
  define bl where "bl = direct_blocks i"
  have di: "direct_inode i" "distinct bl" "\<forall>b \<in> set bl. dev_block b"
    using less.prems(1) by (simp_all add: direct_file_def bl_def)
  show ?case
  proof (cases "buf = []")
    case True
    then show ?thesis using less.prems by (auto simp: write_loop_file.simps [of i off "[]"])
  next
    case False
    define chunk where "chunk = min (KZFS_BLOCK_SIZE - off mod KZFS_BLOCK_SIZE) (length buf)"
    define c where "c = take chunk buf"
    have ch: "0 < chunk" "chunk \<le> length buf" "off mod 4096 + chunk \<le> 4096" "length c = chunk"
      using False by (auto simp: chunk_def KZFS_BLOCK_SIZE_def c_def)
    have "off < 4096 * length bl" using less.prems(3) False by (cases buf) (simp_all add: bl_def)
    then have lb: "off div 4096 < length bl" by (simp add: less_mult_imp_div_less mult.commute)
    define p where "p = bl ! (off div 4096)"
    have p: "dev_block p" using di(3) lb by (simp add: p_def)
    have m: "map_for_write i (off div 4096) s = (Inr p, i, s)"
      using phys_direct [OF di(1), folded bl_def] lb by (simp add: map_for_write_def p_def)
    obtain ok s2 where pc: "put_chunk p (off mod 4096) c s = (ok, s2)" by fastforce
    note ps = put_chunk_spec [OF less.prems(2) p _ pc]
    define i1 where "i1 = i\<lparr>i_size := max (i_size i) (off + chunk), i_dirty := True\<rparr>"
    have e: "write_loop_file i off buf nw s =
        (if \<not> ok then (EIO, nw, i, s2) else write_loop_file i1 (off + chunk) (drop chunk buf) (nw + chunk) s2)"
      unfolding i1_def chunk_def KZFS_BLOCK_SIZE_def using False m pc
      by (subst write_loop_file.simps) (simp add: Let_def KZFS_BLOCK_SIZE_def c_def chunk_def)
    then have ok: "ok" using less.prems(4) by (auto split: if_splits)
    have w: "write_loop_file i1 (off + chunk) (drop chunk buf) (nw + chunk) s2 = (EOK, n, i', s')"
      using e ok less.prems(4) by simp
    have v2: "kinv s2" "kview s2 = (kview s)(p := bsplice (off mod 4096) c (kview s p))" using ps ok ch by simp_all
    have i1: "direct_file i1" "direct_blocks i1 = bl" "i_size i1 = max (i_size i) (off + chunk)"
      using less.prems(1) by (simp_all add: i1_def bl_def)
    have dec: "length (drop chunk buf) < length buf" using ch by simp
    have bound: "off + chunk + length (drop chunk buf) \<le> 4096 * length (direct_blocks i1)"
      using less.prems(3) ch i1(2) by (simp add: bl_def)
    note ih = less.hyps [OF dec i1(1) v2(1) bound w, unfolded i1(2,3)]
    have "length (kview s p) = 4096" using kst.view_length [OF less.prems(2) p] .
    then have cw: "fbyte bl (kview s2) k = (if off \<le> k \<and> k < off + chunk then c ! (k - off) else fbyte bl (kview s) k)" for k
      using chunk_write [OF di(2) lb, of "kview s" c k] ch unfolding v2(2) p_def by simp
    have fk: "fbyte bl (kview s') k = (if off \<le> k \<and> k < off + length buf then buf ! (k - off) else fbyte bl (kview s) k)" for k
    proof (cases "off + chunk \<le> k \<and> k < off + length buf")
      case True
      then have "k - (off + chunk) + chunk = k - off" by simp
      then show ?thesis using ih True ch by (simp add: add.commute)
    next
      case False
      then show ?thesis using ih ch cw [of k] by (auto simp: c_def)
    qed
    have sz: "i_size i' = max (i_size i) (off + length buf)"
      using ih ch by (cases "drop chunk buf = []") (simp_all add: max_def)
    have "n = nw + length buf \<and> kinv s' \<and> direct_blocks i' = bl \<and> direct_file i'" using ih ch by simp
    then show ?thesis using fk sz False unfolding bl_def [symmetric] by simp
  qed
qed

section \<open>Appending to the extent list\<close>

text \<open>Entries that are in use and do not end where the new run starts are passed over.\<close>

lemma append_scan_skip:
  assumes "\<forall>n \<in> set ns. n < 4 \<and> block_count (i_direct i ! n) \<noteq> 0
      \<and> u64 (start_block (i_direct i ! n) + block_count (i_direct i ! n)) \<noteq> st"
  shows "append_scan (ns @ rest) i st c s = append_scan rest i st c s"
  using assms by (induction ns) (simp_all add: ext_get_direct)

lemma indices_at: "n < 4 \<Longrightarrow> [0..<KZFS_MAX_EXTENTS] = [0..<n] @ n # [Suc n..<KZFS_MAX_EXTENTS]"
  using upt_add_eq_append [of 0 n "KZFS_MAX_EXTENTS - n"] by (simp add: KZFS_MAX_EXTENTS_def upt_conv_Cons)

lemma concat_extents_update:
  assumes "i_direct i = es @ e # zs" and "\<forall>z \<in> set zs. block_count z = 0"
  shows "direct_blocks (i\<lparr>i_direct := (i_direct i)[length es := e'], i_dirty := b\<rparr>) = concat (map extent_blocks es) @ extent_blocks e'"
    and "direct_blocks i = concat (map extent_blocks es) @ extent_blocks e"
proof -
  have "concat (map extent_blocks zs) = []" using assms(2) by (auto simp: extent_blocks_def)
  then show "direct_blocks (i\<lparr>i_direct := (i_direct i)[length es := e'], i_dirty := b\<rparr>) = concat (map extent_blocks es) @ extent_blocks e'"
    "direct_blocks i = concat (map extent_blocks es) @ extent_blocks e"
    using assms(1) by (simp_all add: direct_blocks_def)
qed

lemma append_scan_at:
  assumes "i_direct i = es @ e # zs" and "length es < 4"
    and "\<forall>x \<in> set es. block_count x \<noteq> 0 \<and> u64 (start_block x + block_count x) \<noteq> st"
  shows "ext_append_nolock i st c s = append_scan (length es # [Suc (length es)..<KZFS_MAX_EXTENTS]) i st c s"
  unfolding ext_append_nolock_def indices_at [OF assms(2)]
  using assms by (intro append_scan_skip) (simp add: nth_append)

text \<open>Appending a run to the extents of a file puts its blocks after the blocks the file has: a run that
  follows the last extent on disk is merged into it, any other run takes the first free direct slot.  The hypothesis that
  no earlier extent ends where the run starts is necessary: see \<open>ext_append_merges_middle\<close>.\<close>

theorem ext_append_extends:
  assumes "i_direct i = es @ e # zs" and "length es < 4" and "\<forall>z \<in> set zs. block_count z = 0"
    and "\<forall>x \<in> set es. block_count x \<noteq> 0 \<and> u64 (start_block x + block_count x) \<noteq> st"
    and "block_count e = 0 \<or> start_block e + block_count e = st" and "st < 2 ^ 64" and "block_count e + c < 2 ^ 32"
  shows "\<exists>i'. ext_append_nolock i st c s = (EOK, i', s) \<and> direct_blocks i' = direct_blocks i @ [st..<st + c]
    \<and> i_indirect i' = i_indirect i \<and> i_dirty i'"
proof -
  define e' where "e' = (if block_count e = 0 then \<lparr>start_block = st, block_count = c\<rparr> else e\<lparr>block_count := u32 (block_count e + c)\<rparr>)"
  define i' where "i' = i\<lparr>i_direct := (i_direct i)[length es := e'], i_dirty := True\<rparr>"
  have n: "i_direct i ! length es = e" "length es < KZFS_NUM_DIRECT_EXTENTS"
    using assms(1,2) by (simp_all add: KZFS_NUM_DIRECT_EXTENTS_def)
  have "u64 (start_block e + block_count e) = st" if "block_count e \<noteq> 0"
    using that assms(5,6) by (simp add: u64_id)
  then have "ext_append_nolock i st c s = (EOK, i', s)"
    using n assms(2) unfolding append_scan_at [OF assms(1,2,4)]
    by (auto simp: ext_get_direct ext_set_nolock_def i'_def e'_def)
  moreover have "extent_blocks e @ [st..<st + c] = extent_blocks e'"
  proof (cases "block_count e = 0")
    case False
    then have "u32 (block_count e + c) = block_count e + c" using assms(7) by (simp add: u32_id)
    then have "extent_blocks e' = [start_block e..<st + c]" "extent_blocks e = [start_block e..<st]"
      using False assms(5) by (auto simp: e'_def extent_blocks_def add.assoc [symmetric])
    then show ?thesis using False assms(5) upt_add_eq_append [of "start_block e" st c] by auto
  qed (simp add: e'_def extent_blocks_def)
  ultimately show ?thesis
    using concat_extents_update [OF assms(1,3)] by (auto simp: i'_def)
qed

definition two_extent_inode :: kzfs_inode_mem where
  "two_extent_inode = sample_inode\<lparr>i_direct := [\<lparr>start_block = 10, block_count = 2\<rparr>, \<lparr>start_block = 20, block_count = 1\<rparr>, no_extent, no_extent]\<rparr>"

theorem ext_append_extends_witness:
  "\<exists>i'. ext_append_nolock two_extent_inode 21 3 cached_fs = (EOK, i', cached_fs) \<and> direct_blocks i' = [10, 11, 20, 21, 22, 23]"
proof -
  have "direct_blocks two_extent_inode = [10, 11, 20]" by code_simp
  then show ?thesis
    using ext_append_extends [of two_extent_inode "[\<lparr>start_block = 10, block_count = 2\<rparr>]" "\<lparr>start_block = 20, block_count = 1\<rparr>"
      "[no_extent, no_extent]" 21 3 cached_fs] by (auto simp: two_extent_inode_def no_extent_def upt_rec u64_def)
qed

text \<open>The merge test looks at every extent, not only the last: a run that happens to follow an earlier extent is spliced
  into the middle of the file, and the blocks behind it get other logical numbers.\<close>

lemma ext_append_merges_middle:
  "\<exists>i'. ext_append_nolock two_extent_inode 12 1 cached_fs = (EOK, i', cached_fs)
     \<and> direct_blocks two_extent_inode = [10, 11, 20] \<and> direct_blocks i' = [10, 11, 12, 20]"
proof -
  define i' where "i' = two_extent_inode\<lparr>i_direct := (i_direct two_extent_inode)[0 := \<lparr>start_block = 10, block_count = 3\<rparr>], i_dirty := True\<rparr>"
  have "ext_append_nolock two_extent_inode 12 1 cached_fs = (EOK, i', cached_fs)"
    unfolding ext_append_nolock_def max_extents_split
    by (simp add: ext_get_direct two_extent_inode_def ext_set_nolock_def KZFS_NUM_DIRECT_EXTENTS_def i'_def u64_def u32_def)
  moreover have "direct_blocks two_extent_inode = [10, 11, 20]" "direct_blocks i' = [10, 11, 12, 20]"
    unfolding i'_def by code_simp+
  ultimately show ?thesis by blast
qed

section \<open>Reading back what was written\<close>


lemma sample_blocks: "direct_blocks sample_inode = [9, 10]"
  by code_simp


section \<open>Releasing a file\<close>

lemma ext_set_direct:
  "n < 4 \<Longrightarrow> ext_set_nolock i n e s = (EOK, i\<lparr>i_direct := (i_direct i)[n := e], i_dirty := True\<rparr>, s)"
  by (simp add: ext_set_nolock_def KZFS_NUM_DIRECT_EXTENTS_def)

definition in_data_area :: "kfs \<Rightarrow> kzfs_extent \<Rightarrow> bool" where
  "in_data_area s e \<longleftrightarrow> block_count e = 0 \<or> data_start s \<le> start_block e \<and> start_block e + block_count e \<le> total_blocks (sb_cache s)"

lemma free_scan_direct:
  assumes "i_indirect i = 0" and "length (i_direct i) = 4" and "set ns \<subseteq> {..<4}" and "bal_wf s"
    and "\<forall>n < 4. in_data_area s (i_direct i ! n)"
    and "free_scan (ns @ 4 # rest) i s = (i', s')"
  shows "i_indirect i' = 0 \<and> length (i_direct i') = 4 \<and> bal_wf s'
    \<and> (\<forall>n < 4. block_count (i_direct i' ! n) = (if n \<in> set ns then 0 else block_count (i_direct i ! n)))
    \<and> free_blks s' = free_blks s \<union> (\<Union>n \<in> set ns. set (extent_blocks (i_direct i ! n)))"
  using assms
proof (induction ns arbitrary: i s)
  case Nil
  then show ?case by (auto simp: ext_get_no_indirect no_extent_def KZFS_NUM_DIRECT_EXTENTS_def)
next
  case (Cons n ns)
  define e where "e = i_direct i ! n"
  have n: "n < 4" using Cons.prems(3) by simp
  show ?case
  proof (cases "block_count e = 0")
    case True
    then have "free_scan (ns @ 4 # rest) i s = (i', s')"
      using Cons.prems(6) n by (simp add: ext_get_direct e_def KZFS_NUM_DIRECT_EXTENTS_def)
    from Cons.IH [OF Cons.prems(1,2) _ Cons.prems(4,5) this] show ?thesis
      using Cons.prems(3) True by (auto simp: e_def extent_blocks_def)
  next
    case False
    define s1 where "s1 = blk_free_run_nolock (start_block e) (block_count e) s"
    define i1 where "i1 = i\<lparr>i_direct := (i_direct i)[n := no_extent], i_dirty := True\<rparr>"
    have f: "free_scan (ns @ 4 # rest) i1 s1 = (i', s')"
      using Cons.prems(6) n False by (simp add: ext_get_direct ext_set_direct e_def [symmetric] s1_def i1_def)
    have a: "data_start s \<le> start_block e" "start_block e + block_count e \<le> total_blocks (sb_cache s)"
      using Cons.prems(5) n False by (auto simp: e_def in_data_area_def)
    moreover have "total_blocks (sb_cache s) < 4294967296" using Cons.prems(4) by (simp add: bal_wf_def)
    ultimately have lim: "start_block e + block_count e < 18446744073709551616" by linarith
    note fr = blk_free_run_spec [OF Cons.prems(4) a(1) lim, folded s1_def]
    have k: "data_start s1 = data_start s" "total_blocks (sb_cache s1) = total_blocks (sb_cache s)" using fr(3) by auto
    have new: "set (extent_blocks e) = {b. start_block e \<le> b \<and> b < start_block e + block_count e \<and> b < total_blocks (sb_cache s)}"
      using a(2) by (auto simp: extent_blocks_def)
    have i1: "i_direct i1 ! m = (if m = n then no_extent else i_direct i ! m)" if "m < 4" for m
      using that Cons.prems(2) by (simp add: i1_def nth_list_update)
    have "i_indirect i1 = 0" "length (i_direct i1) = 4" using Cons.prems(1,2) by (simp_all add: i1_def)
    moreover have "\<forall>m < 4. in_data_area s1 (i_direct i1 ! m)"
      using Cons.prems(5) k by (simp add: i1 in_data_area_def no_extent_def)
    ultimately have ih: "i_indirect i' = 0 \<and> length (i_direct i') = 4 \<and> bal_wf s'
        \<and> (\<forall>m < 4. block_count (i_direct i' ! m) = (if m \<in> set ns then 0 else block_count (i_direct i1 ! m)))
        \<and> free_blks s' = free_blks s1 \<union> (\<Union>m \<in> set ns. set (extent_blocks (i_direct i1 ! m)))"
      using Cons.prems(3) fr(1) by (intro Cons.IH [OF _ _ _ _ _ f]) auto
    have u: "(\<Union>m \<in> set (n # ns). set (extent_blocks (i_direct i ! m)))
        = set (extent_blocks e) \<union> (\<Union>m \<in> set ns. set (extent_blocks (i_direct i1 ! m)))"
    proof -
      have "m < 4" if "m \<in> set ns" for m using that Cons.prems(3) by auto
      then show ?thesis by (force simp: i1 e_def extent_blocks_def no_extent_def split: if_splits)
    qed
    have "free_blks s' = free_blks s1 \<union> (\<Union>m \<in> set ns. set (extent_blocks (i_direct i1 ! m)))" using ih by simp
    then have "free_blks s' = free_blks s \<union> (\<Union>m \<in> set (n # ns). set (extent_blocks (i_direct i ! m)))"
      unfolding u fr(2) new [symmetric] by (simp only: Un_assoc)
    moreover have "\<forall>m < 4. block_count (i_direct i' ! m) = (if m \<in> set (n # ns) then 0 else block_count (i_direct i ! m))"
      using ih by (simp add: i1 no_extent_def)
    ultimately show ?thesis using ih by blast
  qed
qed

lemma direct_blocks_set:
  assumes "length (i_direct i) = 4"
  shows "set (direct_blocks i) = (\<Union>n \<in> set [0, 1, 2, 3]. set (extent_blocks (i_direct i ! n)))"
  using four_list [OF assms] by (auto simp: direct_blocks_def)

text \<open>Deleting a file returns exactly its blocks to the allocator: they become free, no other block does,
  the free counter stays exact and the inode is left without extents, blocks or bytes.\<close>

theorem inode_free_all_releases:
  assumes "i_indirect i = 0" and "length (i_direct i) = 4" and "bal_wf s"
    and "\<forall>n < 4. in_data_area s (i_direct i ! n)" and "inode_free_all_extents i s = (i', s')"
  shows "free_blks s' = free_blks s \<union> set (direct_blocks i) \<and> bal_wf s' \<and> direct_blocks i' = []
    \<and> i_size i' = 0 \<and> i_blocks i' = 0 \<and> i_indirect i' = 0"
proof -
  obtain i1 s1 where f: "free_scan ([0, 1, 2, 3] @ 4 # [5..<KZFS_MAX_EXTENTS]) i s = (i1, s1)" by fastforce
  have "set [0, 1, 2, 3 :: nat] \<subseteq> {..<4}" by simp
  note sp = free_scan_direct [OF assms(1,2) this assms(3,4) f]
  then have e: "i' = i1\<lparr>i_blocks := 0, i_size := 0, i_dirty := True\<rparr>" "s' = s1"
    using assms(5) f by (simp_all add: inode_free_all_extents_def max_extents_split)
  have "set (direct_blocks i1) = {}"
    using sp direct_blocks_set [of i1] by (auto simp: extent_blocks_def)
  moreover have "direct_blocks i' = direct_blocks i1" by (simp add: e direct_blocks_def)
  ultimately show ?thesis using sp direct_blocks_set [OF assms(2)] by (simp add: e)
qed

theorem inode_free_all_releases_witness:
  "9 \<in> free_blks (snd (inode_free_all_extents sample_inode small_fs))"
proof -
  have "\<forall>n < 4. in_data_area small_fs (i_direct sample_inode ! n)"
    by (auto simp: in_data_area_def sample_inode_def small_fs_def no_extent_def less_Suc_eq numeral_eq_Suc)
  then show ?thesis
    using inode_free_all_releases [of sample_inode small_fs, OF _ _ small_fs_wf]
    by (cases "inode_free_all_extents sample_inode small_fs") (auto simp: sample_blocks, simp_all add: sample_inode_def)
qed

end
