(* ===== verification/Kfs_Dir.thy ===== *)
theory Kfs_Dir
  imports Kfs_Extent
begin

text \<open>
  Directories, \<^verbatim>\<open>kernel/fs/kfs_dir.c\<close> up to the creation of a child: a directory is a file of variable-length
  records (inode number, record length, name length, type, name), scanned block by block.

  Names and paths are byte lists without the terminating zero, so the length of a name is its \<^verbatim>\<open>strlen\<close>.  The
  scan buffer is threaded through the block loop: a read overwrites its front and leaves what was behind it.
  A comparison that would run past the end of the buffer is taken as unequal.
\<close>

section \<open>Records\<close>

definition KZFS_DIRENT_MIN_REC :: nat where "KZFS_DIRENT_MIN_REC = 12"
definition KZFS_DIRENT_MAX_REC :: nat where "KZFS_DIRENT_MAX_REC = 263"

definition dirent_rec_len :: "nat \<Rightarrow> nat" where
  "dirent_rec_len nl = u16 ((8 + nl + 3) div 4 * 4)"

definition dirent_bytes :: "nat \<Rightarrow> nat \<Rightarrow> nat \<Rightarrow> byte \<Rightarrow> byte list \<Rightarrow> byte list" where
  "dirent_bytes target rl nl ftype name = le_bytes 4 target @ le_bytes 2 rl @ [word_of_nat nl, ftype] @ name"

text \<open>The record written into a free slot of \<open>e_rec\<close> bytes; what is left of the slot becomes a free record of its own.\<close>

definition slot_use :: "nat \<Rightarrow> nat \<Rightarrow> nat" where
  "slot_use rec_len e_rec = (if e_rec - rec_len < KZFS_DIRENT_MIN_REC then e_rec else rec_len)"

definition slot_bytes :: "nat \<Rightarrow> byte \<Rightarrow> byte list \<Rightarrow> nat \<Rightarrow> nat \<Rightarrow> byte list" where
  "slot_bytes target ftype name rec_len e_rec =
     (let use = slot_use rec_len e_rec;
          r = bsplice 0 (dirent_bytes target use (length name) ftype name) (replicate e_rec 0)
      in if use < e_rec then bsplice use (le_bytes 4 0 @ le_bytes 2 (e_rec - use)) r else r)"

section \<open>Scanning one block\<close>

function free_slot_scan :: "byte list \<Rightarrow> nat \<Rightarrow> nat \<Rightarrow> nat \<Rightarrow> (kzfs_err + nat \<times> nat) option" where
  "free_slot_scan tmp chunk rec_len pos =
     (if pos + 8 \<le> chunk then
        let e_ino = le_at pos 4 tmp; e_rec = le_at (pos + 4) 2 tmp in
        if e_rec < KZFS_DIRENT_MIN_REC \<or> e_rec > chunk - pos then Some (Inl EIO)
        else if e_ino = 0 \<and> e_rec \<ge> rec_len then Some (Inr (pos, e_rec))
        else free_slot_scan tmp chunk rec_len (pos + e_rec)
      else None)"
  by pat_completeness auto
termination
  by (relation "measure (\<lambda>(tmp, chunk, rec_len, pos). chunk - pos)") (auto simp: KZFS_DIRENT_MIN_REC_def)

declare free_slot_scan.simps [simp del]

function name_scan :: "byte list \<Rightarrow> nat \<Rightarrow> byte list \<Rightarrow> nat \<Rightarrow> (kzfs_err + nat) option" where
  "name_scan tmp chunk name pos =
     (if pos + 8 \<le> chunk then
        let e_ino = le_at pos 4 tmp; e_rec = le_at (pos + 4) 2 tmp; e_nlen = unat (tmp ! (pos + 6)) in
        if e_rec < KZFS_DIRENT_MIN_REC then Some (Inl EIO)
        else if e_ino \<noteq> 0 \<and> e_nlen = length name \<and> bslice (pos + 8) (length name) tmp = name then Some (Inr pos)
        else name_scan tmp chunk name (pos + e_rec)
      else None)"
  by pat_completeness auto
termination
  by (relation "measure (\<lambda>(tmp, chunk, name, pos). chunk - pos)") (auto simp: KZFS_DIRENT_MIN_REC_def)

declare name_scan.simps [simp del]

text \<open>The scan for the entry with a given index also counts the entries it has passed.\<close>

function index_scan :: "byte list \<Rightarrow> nat \<Rightarrow> nat \<Rightarrow> nat \<Rightarrow> nat \<Rightarrow> nat \<Rightarrow> (kzfs_err + byte list \<times> byte) option \<times> nat" where
  "index_scan tmp chunk index cap seen pos =
     (if pos + 8 \<le> chunk then
        let e_ino = le_at pos 4 tmp; e_rec = le_at (pos + 4) 2 tmp;
            e_nlen = unat (tmp ! (pos + 6)); e_ftype = tmp ! (pos + 7) in
        if e_rec < KZFS_DIRENT_MIN_REC then (Some (Inl EIO), seen)
        else if e_ino \<noteq> 0 then
          (if seen = index then
             (if e_nlen + 1 > cap then (Some (Inl ENAMETOOLONG), seen)
              else (Some (Inr (bslice (pos + 8) e_nlen tmp, e_ftype)), seen))
           else index_scan tmp chunk index cap (u32 (seen + 1)) (pos + e_rec))
        else index_scan tmp chunk index cap seen (pos + e_rec)
      else (None, seen))"
  by pat_completeness auto
termination
  by (relation "measure (\<lambda>(tmp, chunk, index, cap, seen, pos). chunk - pos)") (auto simp: KZFS_DIRENT_MIN_REC_def)

declare index_scan.simps [simp del]

section \<open>Operations on a directory\<close>

definition chunk_at :: "kzfs_inode_mem \<Rightarrow> nat \<Rightarrow> nat" where
  "chunk_at dir off = (if off + KZFS_BLOCK_SIZE > i_size dir then i_size dir - off else KZFS_BLOCK_SIZE)"

text \<open>A read into the scan buffer.\<close>

definition read_chunk :: "kzfs_inode_mem \<Rightarrow> nat \<Rightarrow> nat \<Rightarrow> byte list \<Rightarrow> kfs \<Rightarrow> kzfs_err \<times> nat \<times> byte list \<times> kfs" where
  "read_chunk dir off n tmp s =
     (let (rc, bs, s') = blk_read_file dir off n s in (rc, length bs, bs @ drop (length bs) tmp, s'))"

definition dir_append :: "kzfs_inode_mem \<Rightarrow> byte list \<Rightarrow> nat \<Rightarrow> byte \<Rightarrow> kfs \<Rightarrow> kzfs_err \<times> kzfs_inode_mem \<times> kfs" where
  "dir_append dir name target ftype s =
     (let rl = dirent_rec_len (length name);
          r = bsplice 0 (dirent_bytes target rl (length name) ftype name) (replicate rl 0);
          (rc, w, dir', s') = blk_write_file dir (i_size dir) r s
      in (rc, dir', s'))"

definition dir_reuse :: "kzfs_inode_mem \<Rightarrow> nat \<Rightarrow> byte list \<Rightarrow> nat \<Rightarrow> byte \<Rightarrow> nat \<Rightarrow> kfs \<Rightarrow> kzfs_err \<times> kzfs_inode_mem \<times> kfs" where
  "dir_reuse dir at name target ftype e_rec s =
     (let (m, s1) = kmalloc_fs e_rec s in
      case m of None \<Rightarrow> (ENOMEM, dir, s1)
      | Some _ \<Rightarrow>
          let (rc, w, dir', s2) = blk_write_file dir at (slot_bytes target ftype name (dirent_rec_len (length name)) e_rec) s1
          in (rc, dir', s2))"

function add_blocks :: "kzfs_inode_mem \<Rightarrow> byte list \<Rightarrow> nat \<Rightarrow> byte \<Rightarrow> nat \<Rightarrow> byte list \<Rightarrow> kfs \<Rightarrow> kzfs_err \<times> kzfs_inode_mem \<times> kfs" where
  "add_blocks dir name target ftype off tmp s =
     (if off < i_size dir then
        let chunk = chunk_at dir off;
            (rc, got, tmp1, s1) = read_chunk dir off chunk tmp s
        in if rc \<noteq> EOK \<or> got \<noteq> chunk then (EIO, dir, s1)
           else case free_slot_scan tmp1 chunk (dirent_rec_len (length name)) 0 of
                  Some (Inl e) \<Rightarrow> (e, dir, s1)
                | Some (Inr (pos, e_rec)) \<Rightarrow> dir_reuse dir (off + pos) name target ftype e_rec s1
                | None \<Rightarrow> add_blocks dir name target ftype (off + KZFS_BLOCK_SIZE) tmp1 s1
      else dir_append dir name target ftype s)"
  by pat_completeness auto
termination
  by (relation "measure (\<lambda>(dir, name, target, ftype, off, tmp, s). i_size dir - off)") (auto simp: KZFS_BLOCK_SIZE_def)

declare add_blocks.simps [simp del]

definition dir_add_entry :: "kzfs_inode_mem \<Rightarrow> byte list \<Rightarrow> nat \<Rightarrow> byte \<Rightarrow> kfs \<Rightarrow> kzfs_err \<times> kzfs_inode_mem \<times> kfs" where
  "dir_add_entry dir name target ftype s =
     (if name = [] \<or> length name > KZFS_NAME_MAX then (ENAMETOOLONG, dir, s)
      else
        let (m, s1) = kmalloc_fs KZFS_BLOCK_SIZE s in
        case m of None \<Rightarrow> (ENOMEM, dir, s1)
        | Some tmp \<Rightarrow> add_blocks dir name target ftype 0 tmp s1)"

text \<open>Finding the record of a name: its file offset, with the buffer that holds it.\<close>

function lookup_blocks :: "kzfs_inode_mem \<Rightarrow> byte list \<Rightarrow> nat \<Rightarrow> byte list \<Rightarrow> kfs \<Rightarrow> (kzfs_err + nat \<times> nat \<times> byte list) \<times> kfs" where
  "lookup_blocks dir name off tmp s =
     (if off < i_size dir then
        let chunk = chunk_at dir off;
            (rc, got, tmp1, s1) = read_chunk dir off chunk tmp s
        in if rc \<noteq> EOK then (Inl EIO, s1)
           else case name_scan tmp1 chunk name 0 of
                  Some (Inl e) \<Rightarrow> (Inl e, s1)
                | Some (Inr pos) \<Rightarrow> (Inr (off, pos, tmp1), s1)
                | None \<Rightarrow> lookup_blocks dir name (off + KZFS_BLOCK_SIZE) tmp1 s1
      else (Inl ENOENT, s))"
  by pat_completeness auto
termination
  by (relation "measure (\<lambda>(dir, name, off, tmp, s). i_size dir - off)") (auto simp: KZFS_BLOCK_SIZE_def)

declare lookup_blocks.simps [simp del]

definition find_record :: "kzfs_inode_mem \<Rightarrow> byte list \<Rightarrow> kfs \<Rightarrow> (kzfs_err + nat \<times> nat \<times> byte list) \<times> kfs" where
  "find_record dir name s =
     (if length name > KZFS_NAME_MAX then (Inl ENAMETOOLONG, s)
      else
        let (m, s1) = kmalloc_fs KZFS_BLOCK_SIZE s in
        case m of None \<Rightarrow> (Inl ENOMEM, s1) | Some tmp \<Rightarrow> lookup_blocks dir name 0 tmp s1)"

definition dir_lookup_entry :: "kzfs_inode_mem \<Rightarrow> byte list \<Rightarrow> kfs \<Rightarrow> (kzfs_err + nat \<times> byte) \<times> kfs" where
  "dir_lookup_entry dir name s =
     (case find_record dir name s of
        (Inl e, s1) \<Rightarrow> (Inl e, s1)
      | (Inr (off, pos, tmp), s1) \<Rightarrow> (Inr (le_at pos 4 tmp, tmp ! (pos + 7)), s1))"

text \<open>Removing an entry keeps the length of its record and clears the rest.\<close>

definition dir_remove_entry :: "kzfs_inode_mem \<Rightarrow> byte list \<Rightarrow> kfs \<Rightarrow> kzfs_err \<times> kzfs_inode_mem \<times> kfs" where
  "dir_remove_entry dir name s =
     (case find_record dir name s of
        (Inl e, s1) \<Rightarrow> (e, dir, s1)
      | (Inr (off, pos, tmp), s1) \<Rightarrow>
          let e_rec = le_at (pos + 4) 2 tmp;
              (rc, w, dir', s2) = blk_write_file dir (off + pos) (le_bytes 4 0 @ le_bytes 2 e_rec @ replicate (e_rec - 6) 0) s1
          in (rc, dir', s2))"

function index_blocks :: "kzfs_inode_mem \<Rightarrow> nat \<Rightarrow> nat \<Rightarrow> nat \<Rightarrow> nat \<Rightarrow> byte list \<Rightarrow> kfs \<Rightarrow> (kzfs_err + byte list \<times> byte) \<times> kfs" where
  "index_blocks dir index cap seen off tmp s =
     (if off < i_size dir then
        let chunk = chunk_at dir off;
            (rc, got, tmp1, s1) = read_chunk dir off chunk tmp s
        in if rc \<noteq> EOK then (Inl EIO, s1)
           else case index_scan tmp1 chunk index cap seen 0 of
                  (Some r, seen1) \<Rightarrow> (r, s1)
                | (None, seen1) \<Rightarrow> index_blocks dir index cap seen1 (off + KZFS_BLOCK_SIZE) tmp1 s1
      else (Inl ENOENT, s))"
  by pat_completeness auto
termination
  by (relation "measure (\<lambda>(dir, index, cap, seen, off, tmp, s). i_size dir - off)") (auto simp: KZFS_BLOCK_SIZE_def)

declare index_blocks.simps [simp del]

definition dir_read_index :: "kzfs_inode_mem \<Rightarrow> nat \<Rightarrow> nat \<Rightarrow> kfs \<Rightarrow> (kzfs_err + byte list \<times> byte) \<times> kfs" where
  "dir_read_index dir index cap s =
     (let (m, s1) = kmalloc_fs KZFS_BLOCK_SIZE s in
      case m of None \<Rightarrow> (Inl ENOMEM, s1) | Some tmp \<Rightarrow> index_blocks dir index cap 0 0 tmp s1)"

definition dir_is_dot :: "byte list \<Rightarrow> bool" where
  "dir_is_dot nm \<longleftrightarrow> nm = [46] \<or> nm = [46, 46]"

section \<open>The dot entries\<close>

definition dir_set_dotdot :: "kzfs_inode_mem \<Rightarrow> nat \<Rightarrow> kfs \<Rightarrow> kzfs_err \<times> kzfs_inode_mem \<times> kfs" where
  "dir_set_dotdot dir parent s =
     (let (m, s1) = kmalloc_fs KZFS_BLOCK_SIZE s in
      case m of None \<Rightarrow> (ENOMEM, dir, s1)
      | Some buf \<Rightarrow>
          let (rc, got, blk, s2) = read_chunk dir 0 KZFS_BLOCK_SIZE buf s1 in
          if rc \<noteq> EOK \<or> got < KZFS_DIRENT_MIN_REC then (EIO, dir, s2)
          else
            let dot_rec = le_at 4 2 blk in
            if dot_rec < KZFS_DIRENT_MIN_REC \<or> dot_rec + KZFS_DIRENT_MIN_REC > KZFS_BLOCK_SIZE then (EIO, dir, s2)
            else
              let dd = bslice dot_rec 10 blk in
              if unat (dd ! 6) \<noteq> 2 \<or> dd ! 8 \<noteq> 46 \<or> dd ! 9 \<noteq> 46 then (EIO, dir, s2)
              else
                let (rc2, w, dir', s3) = blk_write_file dir dot_rec (bsplice 0 (le_bytes 4 parent) dd) s2
                in (rc2, dir', s3))"

definition dots_block :: "nat \<Rightarrow> nat \<Rightarrow> byte list" where
  "dots_block self parent =
     (let dot_rec = dirent_rec_len 1;
          b = bsplice 0 (dirent_bytes self dot_rec 1 2 [46]) (replicate KZFS_BLOCK_SIZE 0)
      in bsplice dot_rec (dirent_bytes parent (KZFS_BLOCK_SIZE - dot_rec) 2 2 [46, 46]) b)"

definition dir_init_dots :: "kzfs_inode_mem \<Rightarrow> nat \<Rightarrow> kfs \<Rightarrow> kzfs_err \<times> kzfs_inode_mem \<times> kfs" where
  "dir_init_dots dir parent s =
     (let (m, s1) = kmalloc_fs KZFS_BLOCK_SIZE s in
      case m of None \<Rightarrow> (ENOMEM, dir, s1)
      | Some _ \<Rightarrow>
          let (rc, w, dir', s2) = blk_write_file dir 0 (dots_block (i_ino dir) parent) s1
          in (rc, if rc = EOK then dir'\<lparr>i_links := 2, i_dirty := True\<rparr> else dir', s2))"

section \<open>Creating a child\<close>

text \<open>
  Operations on an inode apply to the entry of the cache it lives in: the entry is updated with the inode the
  operation returns.  None of the operations above looks into the cache of inodes itself.
\<close>

definition ino_at :: "nat \<Rightarrow> kfs \<Rightarrow> kzfs_inode_mem" where
  "ino_at k s = e_ino (ino_pool s ! k)"

definition set_ino :: "nat \<Rightarrow> kzfs_inode_mem \<Rightarrow> kfs \<Rightarrow> kfs" where
  "set_ino k i s = set_entry k ((ino_pool s ! k)\<lparr>e_ino := i\<rparr>) s"

definition on_ino :: "nat \<Rightarrow> (kzfs_inode_mem \<Rightarrow> kfs \<Rightarrow> 'r \<times> kzfs_inode_mem \<times> kfs) \<Rightarrow> kfs \<Rightarrow> 'r \<times> kfs" where
  "on_ino k f s = (let (r, i, s') = f (ino_at k s) s in (r, set_ino k i s'))"

definition new_inode :: "nat \<Rightarrow> nat \<Rightarrow> kzfs_inode_mem" where
  "new_inode n mode =
     \<lparr>i_ino = n, i_mode = mode, i_links = 1, i_size = 0, i_blocks = 0, i_direct = replicate KZFS_NUM_DIRECT_EXTENTS no_extent,
      i_indirect = 0, i_dirty = True, i_refcount = 1\<rparr>"

text \<open>Undoing a creation that failed half way.\<close>

definition create_rollback :: "nat \<Rightarrow> nat \<Rightarrow> nat \<Rightarrow> nat \<Rightarrow> kfs \<Rightarrow> kfs" where
  "create_rollback pk ck n mode s =
     (let s1 = (if mode = KZFS_INODE_FLAG_DIR then set_ino pk ((ino_at pk s)\<lparr>i_links := sub16 (i_links (ino_at pk s)) 1\<rparr>) s else s);
          s2 = snd (on_ino ck (\<lambda>i s. ((), inode_free_all_extents i s)) s1);
          s3 = set_ino ck ((ino_at ck s2)\<lparr>i_dirty := False, i_refcount := 0\<rparr>) s2;
          s4 = ino_free_nolock n s3
      in set_ino pk ((ino_at pk s4)\<lparr>i_dirty := True\<rparr>) s4)"

definition create_commit :: "nat \<Rightarrow> nat \<Rightarrow> kfs \<Rightarrow> kfs" where
  "create_commit pk ck s =
     (let s1 = snd (ino_sync_nolock (ino_at ck s) s);
          s2 = set_ino ck ((ino_at ck s1)\<lparr>i_dirty := False\<rparr>) s1;
          s3 = set_ino pk ((ino_at pk s2)\<lparr>i_dirty := True\<rparr>) s2
      in snd (ino_sync_nolock (ino_at pk s3) s3))"

text \<open>Filling the new entry: the dot entries of a folder, then the record in the parent.\<close>

definition create_fill :: "nat \<Rightarrow> nat \<Rightarrow> byte list \<Rightarrow> nat \<Rightarrow> nat \<Rightarrow> kfs \<Rightarrow> kzfs_err \<times> kfs" where
  "create_fill pk ck name n mode s =
     (let (rc, s1) =
            (if mode = KZFS_INODE_FLAG_DIR then
               let (rc, s1) = on_ino ck (\<lambda>i. dir_init_dots i (i_ino (ino_at pk s))) s
               in (rc, if rc = EOK then set_ino pk ((ino_at pk s1)\<lparr>i_links := u16 (i_links (ino_at pk s1) + 1)\<rparr>) s1 else s1)
             else (EOK, s))
      in if rc = EOK
         then on_ino pk (\<lambda>i. dir_add_entry i name n (if mode = KZFS_INODE_FLAG_DIR then 2 else 1)) s1
         else (rc, s1))"

definition create_child :: "nat \<Rightarrow> byte list \<Rightarrow> nat \<Rightarrow> kfs \<Rightarrow> (kzfs_err + nat) \<times> kfs" where
  "create_child pk name mode s =
     (if i_mode (ino_at pk s) \<noteq> KZFS_INODE_FLAG_DIR then (Inl ENOTDIR, s)
      else if name = [] then (Inl EINVAL, s)
      else if length name > KZFS_NAME_MAX then (Inl ENAMETOOLONG, s)
      else
        let (r, s1) = dir_lookup_entry (ino_at pk s) name s in
        case r of Inr _ \<Rightarrow> (Inl EEXIST, s1)
        | Inl _ \<Rightarrow>
          (case ino_alloc_nolock s1 of
             (None, s2) \<Rightarrow> (Inl ENOSPC, s2)
           | (Some n, s2) \<Rightarrow>
               (case ino_cache_slot s2 of
                  (None, s3) \<Rightarrow> (Inl ENOMEM, ino_free_nolock n s3)
                | (Some ck, s3) \<Rightarrow>
                    let s4 = ino_cache_insert_nolock ck (set_ino ck (new_inode n mode) s3);
                        (rc, s5) = create_fill pk ck name n mode s4
                    in if rc \<noteq> EOK then (Inl rc, create_rollback pk ck n mode s5)
                       else (Inr ck, create_commit pk ck s5))))"

end
