(* ===== verification/Kfs_Super.thy ===== *)
theory Kfs_Super
  imports Kfs_Dir
begin

text \<open>
  The superblock, the layout of the disk, mounting, formatting and synchronisation, \<^verbatim>\<open>kernel/fs/kfs_super.c\<close>.

  Every function runs under the one lock of the file system, so an operation is one state transformer; the lock
  itself only shows in \<open>kfs_sync_all_try\<close>, which gives up when it is taken.  Console messages are left out.
\<close>

section \<open>Superblock\<close>

definition sb_load :: "kfs \<Rightarrow> kzfs_err \<times> kfs" where
  "sb_load s =
     (case peek_block 0 s of
        (None, s1) \<Rightarrow> (EIO, s1)
      | (Some d, s1) \<Rightarrow>
          let s2 = s1\<lparr>sb_cache := sb_of_bytes d\<rparr>
          in (if magic (sb_cache s2) \<noteq> KZFS_MAGIC then EINVAL else EOK, s2))"

definition sb_save :: "kfs \<Rightarrow> kzfs_err \<times> kfs" where
  "sb_save s = (let (ok, s1) = fill_block (sb_bytes (sb_cache s)) 0 s in (if ok then EOK else EIO, s1))"

section \<open>Layout\<close>

definition inode_goal :: "nat \<Rightarrow> nat" where
  "inode_goal tb =
     (let n = tb div 16;
          n1 = (if n > 262144 then 262144 else n);
          n2 = (if n1 < 512 then 512 else n1);
          cap = u64 (tb * (KZFS_BLOCK_SIZE div KZFS_INODE_SIZE)) div 2
      in if n2 > cap then cap else n2)"

definition bitmap_blocks_for :: "nat \<Rightarrow> nat" where
  "bitmap_blocks_for n = u32 (((n + 7) div 8 + KZFS_BLOCK_SIZE - 1) div KZFS_BLOCK_SIZE)"

definition layout_compute :: "nat \<Rightarrow> kfs \<Rightarrow> kfs" where
  "layout_compute tb s =
     (let ti = inode_goal tb;
          bmb = bitmap_blocks_for tb;
          ibs = u64 (1 + bmb);
          ibb = bitmap_blocks_for ti;
          its = u64 (ibs + ibb);
          itb = u32 ((ti + KZFS_INODES_PER_BLOCK - 1) div KZFS_INODES_PER_BLOCK);
          ds = u64 (its + itb)
      in s\<lparr>sb_cache := (sb_cache s)\<lparr>
            magic := KZFS_MAGIC, version := KZFS_VERSION, block_size := KZFS_BLOCK_SIZE,
            total_blocks := tb, total_inodes := u32 ti,
            block_bitmap_start := 1, block_bitmap_blocks := bmb,
            inode_bitmap_start := ibs, inode_bitmap_blocks := ibb,
            inode_table_start := its, inode_table_blocks := itb,
            data_blocks_start := ds, free_blocks := sub64 tb ds,
            free_inodes := sub32 (u32 ti) 1, root_inode := 1\<rparr>\<rparr>)"

definition layout_globals_load :: "kfs \<Rightarrow> kfs" where
  "layout_globals_load s =
     s\<lparr>bm_blocks := block_bitmap_blocks (sb_cache s), ibm_blocks := inode_bitmap_blocks (sb_cache s),
       it_block0 := inode_table_start (sb_cache s), data_start := data_blocks_start (sb_cache s),
       root_ino := (if root_inode (sb_cache s) \<noteq> 0 then root_inode (sb_cache s) else 1)\<rparr>"

section \<open>Bitmaps on disk\<close>

text \<open>Reading \<open>n\<close> consecutive blocks into a buffer, and writing them from one.\<close>

fun load_blocks :: "nat list \<Rightarrow> nat \<Rightarrow> byte list \<Rightarrow> kfs \<Rightarrow> bool \<times> byte list \<times> kfs" where
  "load_blocks [] start m s = (True, m, s)"
| "load_blocks (i # is) start m s =
     (case peek_block (start + i) s of
        (None, s1) \<Rightarrow> (False, m, s1)
      | (Some d, s1) \<Rightarrow> load_blocks is start (bsplice (i * KZFS_BLOCK_SIZE) d m) s1)"

fun store_blocks :: "nat list \<Rightarrow> nat \<Rightarrow> byte list \<Rightarrow> kfs \<Rightarrow> bool \<times> kfs" where
  "store_blocks [] start m s = (True, s)"
| "store_blocks (i # is) start m s =
     (case fill_block (bslice (i * KZFS_BLOCK_SIZE) KZFS_BLOCK_SIZE m) (start + i) s of
        (False, s1) \<Rightarrow> (False, s1)
      | (True, s1) \<Rightarrow> store_blocks is start m s1)"

text \<open>The two bitmap buffers are replaced; a failed allocation leaves no buffer.\<close>

definition alloc_bitmaps :: "kfs \<Rightarrow> bool \<times> kfs" where
  "alloc_bitmaps s =
     (let (m1, s1) = kmalloc_fs (u32 (bm_blocks s * KZFS_BLOCK_SIZE)) s;
          (m2, s2) = kmalloc_fs (u32 (ibm_blocks s * KZFS_BLOCK_SIZE)) s1
      in (m1 \<noteq> None \<and> m2 \<noteq> None,
          s2\<lparr>bm_mem := (case m1 of None \<Rightarrow> [] | Some b \<Rightarrow> b), ibm_mem := (case m2 of None \<Rightarrow> [] | Some b \<Rightarrow> b)\<rparr>))"

definition mount_load_bitmaps :: "kfs \<Rightarrow> kzfs_err \<times> kfs" where
  "mount_load_bitmaps s =
     (let s1 = layout_globals_load s;
          (ok, s2) = alloc_bitmaps s1
      in if \<not> ok then (ENOMEM, s2)
         else
           let (ok3, m3, s3) = load_blocks [0..<bm_blocks s2] (block_bitmap_start (sb_cache s2)) (bm_mem s2) s2;
               s3 = s3\<lparr>bm_mem := m3\<rparr>
           in if \<not> ok3 then (EIO, s3)
              else
                let (ok4, m4, s4) = load_blocks [0..<ibm_blocks s3] (inode_bitmap_start (sb_cache s3)) (ibm_mem s3) s3;
                    s4 = s4\<lparr>ibm_mem := m4\<rparr>
                in if \<not> ok4 then (EIO, s4)
                   else (EOK, s4\<lparr>bm_dirty := False, ibm_dirty := False, fs_mounted := True\<rparr>))"

definition bm_flush :: "kfs \<Rightarrow> kzfs_err \<times> kfs" where
  "bm_flush s =
     (if \<not> bm_dirty s then (EOK, s)
      else case store_blocks [0..<bm_blocks s] (block_bitmap_start (sb_cache s)) (bm_mem s) s of
             (False, s1) \<Rightarrow> (EIO, s1)
           | (True, s1) \<Rightarrow> (EOK, s1\<lparr>bm_dirty := False\<rparr>))"

definition ibm_flush :: "kfs \<Rightarrow> kzfs_err \<times> kfs" where
  "ibm_flush s =
     (if \<not> ibm_dirty s then (EOK, s)
      else case store_blocks [0..<ibm_blocks s] (inode_bitmap_start (sb_cache s)) (ibm_mem s) s of
             (False, s1) \<Rightarrow> (EIO, s1)
           | (True, s1) \<Rightarrow> (EOK, s1\<lparr>ibm_dirty := False\<rparr>))"

section \<open>Formatting and mounting\<close>

definition format_total_blocks :: "kfs \<Rightarrow> nat" where
  "format_total_blocks s =
     (let ts = ata_get_total_sectors (disk (bc s));
          ts1 = (if ts = 0 then 204800 else ts);
          ts2 = (if ts1 > 8 then ts1 - 8 else ts1)
      in ts2 div KZFS_BLOCK_SECTORS)"

text \<open>Fresh bitmaps: the blocks of the layout and the root inode are in use.\<close>

definition format_bitmaps :: "kfs \<Rightarrow> kfs" where
  "format_bitmaps s =
     s\<lparr>bm_mem := fold (\<lambda>b m. bm_set m b) [0..<data_blocks_start (sb_cache s)]
                  (replicate (block_bitmap_blocks (sb_cache s) * KZFS_BLOCK_SIZE) 0),
       ibm_mem := bm_set (replicate (inode_bitmap_blocks (sb_cache s) * KZFS_BLOCK_SIZE) 0) 1,
       bm_dirty := True, ibm_dirty := True, fs_mounted := True\<rparr>"

definition root_block :: "nat \<Rightarrow> byte list" where
  "root_block apps =
     (let dot_rec = dirent_rec_len 1; dd_rec = dirent_rec_len 2;
          b = bsplice 0 (dirent_bytes 1 dot_rec 1 2 [46]) (replicate KZFS_BLOCK_SIZE 0);
          b1 = bsplice dot_rec (dirent_bytes 1 dd_rec 2 2 [46, 46]) b
      in bsplice (dot_rec + dd_rec)
           (dirent_bytes apps (KZFS_BLOCK_SIZE - dot_rec - dd_rec) 4 2 [97, 112, 112, 115]) b1)"

definition root_inode_value :: kzfs_inode_mem where
  "root_inode_value =
     \<lparr>i_ino = 1, i_mode = KZFS_INODE_FLAG_DIR, i_links = 3, i_size = 0, i_blocks = 0,
      i_direct = replicate KZFS_NUM_DIRECT_EXTENTS no_extent, i_indirect = 0, i_dirty = False, i_refcount = 1\<rparr>"

text \<open>Releasing the root entry when formatting fails after it was made.\<close>

definition format_give_up :: "nat \<Rightarrow> kfs \<Rightarrow> kfs" where
  "format_give_up rk s = ino_cache_unlink rk (set_ino rk ((ino_at rk s)\<lparr>i_refcount := 0\<rparr>) s)"

definition format_finish :: "nat \<Rightarrow> nat \<Rightarrow> kfs \<Rightarrow> kfs" where
  "format_finish rk ak s =
     (let (_, s1) = on_ino rk (\<lambda>i s. let (rc, w, i', s') = blk_write_file i 0 (root_block (i_ino (ino_at ak s))) s in ((), i', s')) s;
          (_, s2) = ino_sync_nolock (ino_at rk s1) s1;
          s3 = set_ino rk ((ino_at rk s2)\<lparr>i_refcount := 0, i_dirty := False\<rparr>) s2;
          s4 = set_ino ak ((ino_at ak s3)\<lparr>i_refcount := 0, i_dirty := False\<rparr>) s3;
          (_, s5) = bm_flush s4;
          (_, s6) = ibm_flush s5;
          (_, s7) = sb_save s6
      in s7\<lparr>bc := bcache_flush_all (bc s7)\<rparr>)"

definition kfs_format_locked :: "kfs \<Rightarrow> kzfs_err \<times> kfs" where
  "kfs_format_locked s =
     (let s1 = layout_globals_load (layout_compute (format_total_blocks s) s);
          (ok, s2) = alloc_bitmaps s1
      in if \<not> ok then (ENOMEM, s2)
         else
           case ino_cache_slot (ino_cache_reset (format_bitmaps s2)) of
             (None, s3) \<Rightarrow> (ENOMEM, s3)
           | (Some rk, s3) \<Rightarrow>
               let s4 = ino_cache_insert_nolock rk (set_ino rk root_inode_value s3);
                   (_, s5) = ino_sync_nolock (ino_at rk s4) s4
               in case create_child rk [97, 112, 112, 115] KZFS_INODE_FLAG_DIR s5 of
                    (Inl e, s6) \<Rightarrow> (e, format_give_up rk s6)
                  | (Inr ak, s6) \<Rightarrow>
                      (case kmalloc_fs KZFS_BLOCK_SIZE s6 of
                         (None, s7) \<Rightarrow> (ENOMEM, format_give_up rk s7)
                       | (Some _, s7) \<Rightarrow> (EOK, format_finish rk ak s7)))"

definition kfs_init :: "kfs \<Rightarrow> kzfs_err \<times> kfs" where
  "kfs_init s =
     (let (m, s0) = (if pool (bc s) = [] then kmalloc_fs BCACHE_N_BLOCKS s else (Some [], s));
          (r, c) = bcache_init (m \<noteq> None) (bc s0);
          s1 = s0\<lparr>bc := c\<rparr>
      in if r \<noteq> 0 then (ENOMEM, s1)
         else
           let (rc, s2) = sb_load (ino_cache_reset s1) in
           if rc = EINVAL then kfs_format_locked s2
           else if rc \<noteq> EOK then (rc, s2)
           else mount_load_bitmaps s2)"

definition kfs_format :: "kfs \<Rightarrow> kzfs_err \<times> kfs" where
  "kfs_format s = kfs_format_locked (s\<lparr>fs_mounted := False, sb_cache := (sb_cache s)\<lparr>magic := 0\<rparr>\<rparr>)"

section \<open>Statistics and synchronisation\<close>

definition kfs_v4_is_mounted :: "kfs \<Rightarrow> bool" where
  "kfs_v4_is_mounted s = fs_mounted s"

definition kfs_v4_get_stats :: "kfs \<Rightarrow> nat \<times> nat \<times> nat \<times> nat" where
  "kfs_v4_get_stats s =
     (total_blocks (sb_cache s), free_blocks (sb_cache s), total_inodes (sb_cache s), free_inodes (sb_cache s))"

definition flush_metadata :: "kfs \<Rightarrow> kfs" where
  "flush_metadata s = (let (_, s1) = bm_flush s; (_, s2) = ibm_flush s1; (_, s3) = sb_save s2 in s3)"

definition kfs_sync_all :: "kfs \<Rightarrow> kfs" where
  "kfs_sync_all s =
     (if \<not> fs_mounted s then s
      else let s1 = flush_metadata s in s1\<lparr>bc := bcache_flush_all (bc s1)\<rparr>)"

definition kfs_sync_all_try :: "bool \<Rightarrow> bool \<Rightarrow> kfs \<Rightarrow> int \<times> kfs" where
  "kfs_sync_all_try fs_free cache_free s =
     (if \<not> fs_mounted s then (0, s)
      else if \<not> fs_free then (0, s)
      else let s1 = flush_metadata s; (r, c) = bcache_flush_all_try cache_free (bc s1) in (r, s1\<lparr>bc := c\<rparr>))"

end
