(* ===== verification/Kfs_Vnode.thy ===== *)
theory Kfs_Vnode
  imports Kfs_Super
begin

text \<open>
  The vnode layer of the file system: the operations of \<^verbatim>\<open>kernel/fs/kfs_vnode.c\<close>, path resolution and
  rename of \<^verbatim>\<open>kernel/fs/kfs_dir.c\<close>, and the path-based interface of \<^verbatim>\<open>kernel/fs/kfs_shim.c\<close>.

  A vnode is a value that names the entry of the inode cache it refers to; the operations that change a vnode
  return it.  Pointer arguments are never null in the model, so the null checks of the source have no branch.
  A directory is listed by asking for entry 0, 1, 2, ... until there is none; the loops that do this take fuel,
  and \<open>listing_terminates\<close> shows that the fuel they are given is enough for every directory content.
\<close>

section \<open>Vnodes\<close>

datatype vnode_type = V_REG | V_DIR | V_DEV

record vnode =
  v_type :: vnode_type
  v_refcount :: nat
  v_size :: nat
  v_inode_num :: nat
  v_ino :: nat

definition vnode_wrap_locked :: "nat \<Rightarrow> kfs \<Rightarrow> (kzfs_err + vnode) \<times> kfs" where
  "vnode_wrap_locked k s =
     (case kmalloc_fs 48 s of
        (None, s1) \<Rightarrow> (Inl ENOMEM, s1)
      | (Some _, s1) \<Rightarrow>
          (Inr \<lparr>v_type = (if i_mode (ino_at k s) = KZFS_INODE_FLAG_DIR then V_DIR else V_REG), v_refcount = 1,
                v_size = i_size (ino_at k s), v_inode_num = i_ino (ino_at k s), v_ino = k\<rparr>, s1))"

definition IO_CHUNK :: nat where "IO_CHUNK = 1048576"

function read_pieces :: "kzfs_inode_mem \<Rightarrow> nat \<Rightarrow> nat \<Rightarrow> byte list \<Rightarrow> kfs \<Rightarrow> kzfs_err \<times> byte list \<times> kfs" where
  "read_pieces i offset count acc s =
     (if length acc < count then
        let remain = count - length acc;
            piece = (if remain > IO_CHUNK then IO_CHUNK else remain);
            (rc, bs, s1) = blk_read_file i (u64 (offset + length acc)) piece s
        in if length bs < piece \<or> rc \<noteq> EOK then (rc, acc @ bs, s1)
           else read_pieces i offset count (acc @ bs) s1
      else (EOK, acc, s))"
  by pat_completeness auto
termination
  by (relation "measure (\<lambda>(i, offset, count, acc, s). count - length acc)") (auto simp: IO_CHUNK_def split: if_splits)

declare read_pieces.simps [simp del]

definition v4_read :: "vnode \<Rightarrow> nat \<Rightarrow> nat \<Rightarrow> kfs \<Rightarrow> kzfs_err \<times> byte list \<times> kfs" where
  "v4_read n offset count s =
     (if v_type n = V_DIR then (EISDIR, [], s) else read_pieces (ino_at (v_ino n) s) offset count [] s)"

function write_pieces :: "nat \<Rightarrow> nat \<Rightarrow> byte list \<Rightarrow> nat \<Rightarrow> kfs \<Rightarrow> kzfs_err \<times> nat \<times> kfs" where
  "write_pieces k offset buf wt s =
     (if wt < length buf then
        let remain = length buf - wt;
            piece = (if remain > IO_CHUNK then IO_CHUNK else remain);
            ((rc, w), s1) = on_ino k (\<lambda>i s. let (rc, w, i', s') = blk_write_file i (u64 (offset + wt)) (bslice wt piece buf) s
                                           in ((rc, w), i', s')) s
        in if w < piece \<or> rc \<noteq> EOK then (rc, wt + w, s1)
           else write_pieces k offset buf (wt + w) s1
      else (EOK, wt, s))"
  by pat_completeness auto
termination
  by (relation "measure (\<lambda>(k, offset, buf, wt, s). length buf - wt)") (auto simp: IO_CHUNK_def split: if_splits)

declare write_pieces.simps [simp del]

definition sync_after_write :: "nat \<Rightarrow> kfs \<Rightarrow> kfs" where
  "sync_after_write k s =
     (let (_, s1) = ino_sync_nolock (ino_at k s) s; (_, s2) = bm_flush s1; (_, s3) = sb_save s2 in s3)"

definition v4_write :: "vnode \<Rightarrow> nat \<Rightarrow> byte list \<Rightarrow> kfs \<Rightarrow> kzfs_err \<times> nat \<times> vnode \<times> kfs" where
  "v4_write n offset buf s =
     (if v_type n = V_DIR then (EISDIR, 0, n, s)
      else
        let (rc, wt, s1) = write_pieces (v_ino n) offset buf 0 s;
            s2 = (if rc = EOK \<and> wt > 0 then sync_after_write (v_ino n) s1 else s1)
        in (rc, wt, n\<lparr>v_size := i_size (ino_at (v_ino n) s2)\<rparr>, s2))"

definition v4_truncate :: "vnode \<Rightarrow> nat \<Rightarrow> kfs \<Rightarrow> kzfs_err \<times> vnode \<times> kfs" where
  "v4_truncate n new_size s =
     (let (rc, s1) = on_ino (v_ino n) (\<lambda>i. truncate_nolock i new_size) s in
      if rc = EOK then
        let s2 = sync_after_write (v_ino n) s1 in (rc, n\<lparr>v_size := i_size (ino_at (v_ino n) s2)\<rparr>, s2)
      else (rc, n, s1))"

definition v4_lookup :: "vnode \<Rightarrow> byte list \<Rightarrow> kfs \<Rightarrow> (kzfs_err + vnode) \<times> kfs" where
  "v4_lookup dir name s =
     (if v_type dir \<noteq> V_DIR then (Inl ENOTDIR, s)
      else if name = [] \<or> dir_is_dot name then (Inl EINVAL, s)
      else case dir_lookup_entry (ino_at (v_ino dir) s) name s of
             (Inl e, s1) \<Rightarrow> (Inl e, s1)
           | (Inr (n, ft), s1) \<Rightarrow>
               (case ino_get_nolock n s1 of
                  (Inl e, s2) \<Rightarrow> (Inl e, s2)
                | (Inr k, s2) \<Rightarrow> vnode_wrap_locked k s2))"

definition v4_create :: "vnode \<Rightarrow> byte list \<Rightarrow> kfs \<Rightarrow> (kzfs_err + vnode) \<times> kfs" where
  "v4_create dir name s =
     (if v_type dir \<noteq> V_DIR then (Inl ENOTDIR, s)
      else case create_child (v_ino dir) name KZFS_INODE_FLAG_FILE s of
             (Inl e, s1) \<Rightarrow> (Inl e, s1)
           | (Inr k, s1) \<Rightarrow> vnode_wrap_locked k s1)"

definition v4_mkdir :: "vnode \<Rightarrow> byte list \<Rightarrow> kfs \<Rightarrow> kzfs_err \<times> kfs" where
  "v4_mkdir dir name s =
     (if v_type dir \<noteq> V_DIR then (ENOTDIR, s)
      else case create_child (v_ino dir) name KZFS_INODE_FLAG_DIR s of
             (Inl e, s1) \<Rightarrow> (e, s1)
           | (Inr k, s1) \<Rightarrow> (EOK, ino_put_nolock (Some k) s1))"

text \<open>A name buffer read as a C string ends at its first zero byte.\<close>

definition c_str :: "byte list \<Rightarrow> byte list" where
  "c_str b = takeWhile (\<lambda>c. c \<noteq> 0) b"

text \<open>Counting the entries of a folder other than the dot entries.\<close>

fun count_live :: "nat \<Rightarrow> kzfs_inode_mem \<Rightarrow> nat \<Rightarrow> nat \<Rightarrow> kfs \<Rightarrow> (nat \<times> kfs) option" where
  "count_live 0 dir i cnt s = None"
| "count_live (Suc fuel) dir i cnt s =
     (case dir_read_index dir i (KZFS_NAME_MAX + 2) s of
        (Inl _, s1) \<Rightarrow> Some (cnt, s1)
      | (Inr (nm, ty), s1) \<Rightarrow> count_live fuel dir (u32 (i + 1)) (if dir_is_dot (c_str nm) then cnt else u32 (cnt + 1)) s1)"

definition unlink_victim :: "nat \<Rightarrow> nat \<Rightarrow> byte list \<Rightarrow> kfs \<Rightarrow> kzfs_err \<times> kfs" where
  "unlink_victim dk vk name s =
     (let (rc, s1) = on_ino dk (\<lambda>d. dir_remove_entry d name) s in
      if rc \<noteq> EOK then (rc, s1)
      else
        let (_, s2) = on_ino vk (\<lambda>i s. ((), inode_free_all_extents i s)) s1;
            s3 = set_ino vk ((ino_at vk s2)\<lparr>i_links := 0, i_dirty := False\<rparr>) s2;
            s4 = ino_free_nolock (i_ino (ino_at vk s3)) s3;
            (_, s5) = ino_sync_nolock (ino_at dk s4) s4
        in (EOK, flush_metadata s5))"

definition v4_unlink :: "vnode \<Rightarrow> byte list \<Rightarrow> kfs \<Rightarrow> kzfs_err \<times> kfs" where
  "v4_unlink dir name s =
     (if v_type dir \<noteq> V_DIR then (ENOTDIR, s)
      else if name = [] \<or> dir_is_dot name then (EINVAL, s)
      else case dir_lookup_entry (ino_at (v_ino dir) s) name s of
             (Inl e, s1) \<Rightarrow> (e, s1)
           | (Inr (n, ft), s1) \<Rightarrow>
               if n = root_ino s1 then (EINVAL, s1)
               else (case ino_get_nolock n s1 of
                       (Inl e, s2) \<Rightarrow> (e, s2)
                     | (Inr vk, s2) \<Rightarrow>
                         if i_mode (ino_at vk s2) = KZFS_INODE_FLAG_DIR then
                           let (cnt, s3) = the (count_live (Suc (i_size (ino_at vk s2))) (ino_at vk s2) 0 0 s2) in
                           if cnt \<noteq> 0 then (EEXIST, ino_put_nolock (Some vk) s3)
                           else
                             let s4 = set_ino (v_ino dir) ((ino_at (v_ino dir) s3)\<lparr>i_links := sub16 (i_links (ino_at (v_ino dir) s3)) 1\<rparr>) s3;
                                 (rc, s5) = unlink_victim (v_ino dir) vk name s4
                             in (rc, ino_put_nolock (Some vk) s5)
                         else
                           let (rc, s3) = unlink_victim (v_ino dir) vk name s2
                           in (rc, ino_put_nolock (Some vk) s3)))"

definition v4_readdir :: "vnode \<Rightarrow> nat \<Rightarrow> nat \<Rightarrow> kfs \<Rightarrow> (kzfs_err + byte list \<times> byte) \<times> kfs" where
  "v4_readdir dir index cap s =
     (if v_type dir \<noteq> V_DIR then (Inl ENOTDIR, s) else dir_read_index (ino_at (v_ino dir) s) index cap s)"

definition v4_sync :: "vnode \<Rightarrow> kfs \<Rightarrow> kzfs_err \<times> kfs" where
  "v4_sync n s =
     (let (rc, s1) = ino_sync_nolock (ino_at (v_ino n) s) s;
          s2 = (if rc = EOK then flush_metadata s1 else s1)
      in (rc, s2\<lparr>bc := bcache_flush_all (bc s2)\<rparr>))"

text \<open>Dropping a reference; the last one releases the inode and frees the vnode.\<close>

definition v4_release :: "vnode \<Rightarrow> kfs \<Rightarrow> vnode option \<times> kfs" where
  "v4_release n s =
     (if v_refcount n > 1 then (Some (n\<lparr>v_refcount := v_refcount n - 1\<rparr>), s)
      else (None, ino_put_nolock (Some (v_ino n)) s))"

section \<open>Path resolution\<close>

definition KZFS_PATH_MAX_DEPTH :: nat where "KZFS_PATH_MAX_DEPTH = 32"

definition release_all :: "vnode list \<Rightarrow> kfs \<Rightarrow> kfs" where
  "release_all vs s = fold (\<lambda>v s. snd (v4_release v s)) vs s"

text \<open>
  The vnodes from the root to the current one are kept on a stack, here with the current one first.  A loop
  iteration skips slashes and takes one component.
\<close>

lemma component_shorter:
  fixes p :: "byte list"
  assumes "dropWhile (\<lambda>c. c = 47) p \<noteq> []"
  shows "length (dropWhile (\<lambda>c. c \<noteq> 47) (dropWhile (\<lambda>c. c = 47) p)) < length p"
proof -
  define q where "q = dropWhile (\<lambda>c. c = 47) p"
  have "hd q \<noteq> 47" using assms hd_dropWhile unfolding q_def by blast
  then have "length (dropWhile (\<lambda>c. c \<noteq> 47) q) < length q"
    using assms by (cases q) (simp_all add: q_def [symmetric] le_imp_less_Suc length_dropWhile_le)
  then show ?thesis using length_dropWhile_le [of "\<lambda>c. c = 47" p] by (simp add: q_def)
qed

function walk_loop :: "byte list \<Rightarrow> vnode list \<Rightarrow> kfs \<Rightarrow> kzfs_err \<times> vnode list \<times> kfs" where
  "walk_loop p stack s =
     (let p1 = dropWhile (\<lambda>c. c = 47) p in
      if p1 = [] then (EOK, stack, s)
      else
        let comp = takeWhile (\<lambda>c. c \<noteq> 47) p1; rest = dropWhile (\<lambda>c. c \<noteq> 47) p1 in
        if length comp > KZFS_NAME_MAX then (ENAMETOOLONG, stack, s)
        else if comp = [46] then walk_loop rest stack s
        else if comp = [46, 46] then
          (if length stack > 1 then walk_loop rest (tl stack) (snd (v4_release (hd stack) s)) else walk_loop rest stack s)
        else if length stack > KZFS_PATH_MAX_DEPTH then (EINVAL, stack, s)
        else if v_type (hd stack) \<noteq> V_DIR then (ENOTDIR, stack, s)
        else
          let (r, s1) = v4_lookup (hd stack) comp s in
          case r of Inl e \<Rightarrow> (e, stack, s1) | Inr next \<Rightarrow> walk_loop rest (next # stack) s1)"
  by pat_completeness auto
termination
  by (relation "measure (\<lambda>(p, stack, s). length p)") (simp_all add: component_shorter)

declare walk_loop.simps [simp del]

definition kfs_walk_path :: "byte list \<Rightarrow> kfs \<Rightarrow> (kzfs_err + vnode) \<times> kfs" where
  "kfs_walk_path path s =
     (if \<not> fs_mounted s then (Inl EIO, s)
      else case ino_get_nolock (root_ino s) s of
             (Inl _, s1) \<Rightarrow> (Inl ENOENT, s1)
           | (Inr rk, s1) \<Rightarrow>
               (case vnode_wrap_locked rk s1 of
                  (Inl _, s2) \<Rightarrow> (Inl ENOMEM, ino_put_nolock (Some rk) s2)
                | (Inr cur, s2) \<Rightarrow>
                    let (rc, stack, s3) = walk_loop path [cur] s2 in
                    if rc \<noteq> EOK then (Inl rc, release_all (rev stack) s3)
                    else (Inr (hd stack), release_all (rev (tl stack)) s3)))"

text \<open>Splitting a path into its parent and its last component.\<close>

definition trim_slashes :: "byte list \<Rightarrow> byte list" where
  "trim_slashes path =
     (let body = rev (dropWhile (\<lambda>c. c = 47) (rev path)) in if body = [] then take 1 path else body)"

definition kfs_walk_parent :: "byte list \<Rightarrow> nat \<Rightarrow> kfs \<Rightarrow> (kzfs_err + byte list \<times> vnode) \<times> kfs" where
  "kfs_walk_parent path name_cap s =
     (let body = trim_slashes path;
          name = rev (takeWhile (\<lambda>c. c \<noteq> 47) (rev body));
          start = length body - length name
      in if name_cap = 0 \<or> body = [] \<or> name = [] \<or> name = [46] \<or> name = [46, 46] then (Inl EINVAL, s)
         else if length name + 1 > name_cap then (Inl ENAMETOOLONG, s)
         else if start > 0 \<and> start \<ge> 512 then (Inl ENAMETOOLONG, s)
         else case kfs_walk_path (if start = 0 then [47] else take start path) s of
                (Inl e, s1) \<Rightarrow> (Inl e, s1)
              | (Inr parent, s1) \<Rightarrow> (Inr (name, parent), s1))"

section \<open>Rename\<close>

definition dir_parent_ino :: "kzfs_inode_mem \<Rightarrow> kfs \<Rightarrow> nat \<times> kfs" where
  "dir_parent_ino dir s =
     (case dir_lookup_entry dir [46, 46] s of (Inl _, s1) \<Rightarrow> (0, s1) | (Inr (p, ft), s1) \<Rightarrow> (p, s1))"

text \<open>
  Walking from the target folder up to the root, to see whether the folder being moved is on the way.  The
  number of steps still allowed bounds the recursion.
\<close>

fun subtree_walk :: "nat \<Rightarrow> nat \<Rightarrow> nat \<Rightarrow> nat option \<Rightarrow> kfs \<Rightarrow> kzfs_err \<times> nat option \<times> kfs" where
  "subtree_walk steps oino walk held s =
     (if i_ino (ino_at walk s) = oino then (EINVAL, held, s)
      else
        let (p, s1) = dir_parent_ino (ino_at walk s) s in
        if p = 0 \<or> p = i_ino (ino_at walk s1) then (EOK, held, s1)
        else case steps of
               0 \<Rightarrow> (EINVAL, held, s1)
             | Suc steps' \<Rightarrow>
                 (case ino_get_nolock p (ino_put_nolock held s1) of
                    (Inl _, s2) \<Rightarrow> (EINVAL, None, s2)
                  | (Inr k, s2) \<Rightarrow> subtree_walk steps' oino k (Some k) s2))"

declare subtree_walk.simps [simp del]

definition check_not_inside :: "nat \<Rightarrow> nat \<Rightarrow> kfs \<Rightarrow> kzfs_err \<times> kfs" where
  "check_not_inside oino nk s =
     (let (rc, held, s1) = subtree_walk (KZFS_PATH_MAX_DEPTH + 1) oino nk None s in (rc, ino_put_nolock held s1))"

definition add_links :: "nat \<Rightarrow> nat \<Rightarrow> kfs \<Rightarrow> kfs" where
  "add_links up down s =
     (let s1 = set_ino up ((ino_at up s)\<lparr>i_links := u16 (i_links (ino_at up s) + 1)\<rparr>) s;
          s2 = set_ino down ((ino_at down s1)\<lparr>i_links := sub16 (i_links (ino_at down s1)) 1\<rparr>) s1;
          s3 = set_ino up ((ino_at up s2)\<lparr>i_dirty := True\<rparr>) s2
      in set_ino down ((ino_at down s3)\<lparr>i_dirty := True\<rparr>) s3)"

text \<open>Moving the record: the new one is added before the old one is removed, and both failures are undone.\<close>

definition move_record :: "nat \<Rightarrow> nat \<Rightarrow> nat \<Rightarrow> byte list \<Rightarrow> byte list \<Rightarrow> nat \<Rightarrow> byte \<Rightarrow> bool \<Rightarrow> kfs \<Rightarrow> kzfs_err \<times> kfs" where
  "move_record ok nk vk oname nname oino oft is_dir s =
     (let same_dir = (i_ino (ino_at nk s) = i_ino (ino_at ok s));
          (rc, s1) = on_ino nk (\<lambda>d. dir_add_entry d nname oino oft) s
      in if rc \<noteq> EOK then (rc, s1)
         else
           let (rc2, s2) =
                 (if is_dir then
                    let (r, t) = on_ino vk (\<lambda>i. dir_set_dotdot i (i_ino (ino_at nk s1))) s1 in
                    if r \<noteq> EOK then (r, snd (on_ino nk (\<lambda>d. dir_remove_entry d nname) t))
                    else (EOK, if same_dir then t else add_links nk ok t)
                  else (EOK, s1))
           in if rc2 \<noteq> EOK then (rc2, s2)
              else
                let (rc3, s3) = on_ino ok (\<lambda>d. dir_remove_entry d oname) s2 in
                if rc3 \<noteq> EOK then
                  let s4 = (if is_dir \<and> \<not> same_dir
                            then add_links ok nk (snd (on_ino vk (\<lambda>i. dir_set_dotdot i (i_ino (ino_at ok s3))) s3)) else s3)
                  in (rc3, snd (on_ino nk (\<lambda>d. dir_remove_entry d nname) s4))
                else
                  let s4 = set_ino vk ((ino_at vk s3)\<lparr>i_dirty := True\<rparr>) s3;
                      s5 = set_ino ok ((ino_at ok s4)\<lparr>i_dirty := True\<rparr>) s4;
                      s6 = set_ino nk ((ino_at nk s5)\<lparr>i_dirty := True\<rparr>) s5;
                      (_, s7) = ino_sync_nolock (ino_at vk s6) s6;
                      (_, s8) = ino_sync_nolock (ino_at ok s7) s7;
                      s9 = (if same_dir then s8 else snd (ino_sync_nolock (ino_at nk s8) s8))
                  in (EOK, flush_metadata s9))"

definition rename_locked :: "nat \<Rightarrow> nat \<Rightarrow> byte list \<Rightarrow> byte list \<Rightarrow> kfs \<Rightarrow> kzfs_err \<times> kfs" where
  "rename_locked ok nk oname nname s =
     (case dir_lookup_entry (ino_at ok s) oname s of
        (Inl e, s1) \<Rightarrow> (e, s1)
      | (Inr (oino, oft), s1) \<Rightarrow>
          if oino = root_ino s1 then (EINVAL, s1)
          else case dir_lookup_entry (ino_at nk s1) nname s1 of
                 (Inr (nino, nft), s2) \<Rightarrow> (if nino = oino then EOK else EEXIST, s2)
               | (Inl tex, s2) \<Rightarrow>
                   if tex \<noteq> ENOENT then (tex, s2)
                   else if i_mode (ino_at nk s2) \<noteq> KZFS_INODE_FLAG_DIR then (ENOTDIR, s2)
                   else case ino_get_nolock oino s2 of
                          (Inl e, s3) \<Rightarrow> (e, s3)
                        | (Inr vk, s3) \<Rightarrow>
                            let is_dir = (i_mode (ino_at vk s3) = KZFS_INODE_FLAG_DIR);
                                (rc, s4) = (if is_dir then check_not_inside oino nk s3 else (EOK, s3));
                                (rc5, s5) = (if rc \<noteq> EOK then (rc, s4) else move_record ok nk vk oname nname oino oft is_dir s4)
                            in (rc5, ino_put_nolock (Some vk) s5))"

definition kfs_rename_path :: "byte list \<Rightarrow> byte list \<Rightarrow> kfs \<Rightarrow> kzfs_err \<times> kfs" where
  "kfs_rename_path old_path new_path s =
     (case kfs_walk_parent old_path (KZFS_NAME_MAX + 1) s of
        (Inl e, s1) \<Rightarrow> (e, s1)
      | (Inr (oname, odir), s1) \<Rightarrow>
          (case kfs_walk_parent new_path (KZFS_NAME_MAX + 1) s1 of
             (Inl e, s2) \<Rightarrow> (e, snd (v4_release odir s2))
           | (Inr (nname, ndir), s2) \<Rightarrow>
               let (rc, s3) = rename_locked (v_ino odir) (v_ino ndir) oname nname s2
               in (rc, snd (v4_release odir (snd (v4_release ndir s3))))))"

section \<open>The path interface\<close>

definition shim_stat :: "byte list \<Rightarrow> kfs \<Rightarrow> (kzfs_inode_mem \<times> bool) option \<times> kfs" where
  "shim_stat path s =
     (case kfs_walk_path path s of
        (Inl _, s1) \<Rightarrow> (None, s1)
      | (Inr vn, s1) \<Rightarrow> (Some (ino_at (v_ino vn) s1, v_type vn = V_DIR), snd (v4_release vn s1)))"

definition kfs_v4_stat :: "byte list \<Rightarrow> kfs \<Rightarrow> (kzfs_err + nat \<times> bool) \<times> kfs" where
  "kfs_v4_stat path s =
     (case kfs_walk_path path s of
        (Inl e, s1) \<Rightarrow> (Inl e, s1)
      | (Inr vn, s1) \<Rightarrow> (Inr (u32 (v_size vn), v_type vn = V_DIR), snd (v4_release vn s1)))"

definition kfs_exists :: "byte list \<Rightarrow> kfs \<Rightarrow> bool \<times> kfs" where
  "kfs_exists path s =
     (if \<not> fs_mounted s then (False, s) else let (r, s1) = shim_stat path s in (r \<noteq> None, s1))"

definition kfs_get_file_size :: "byte list \<Rightarrow> kfs \<Rightarrow> nat \<times> kfs" where
  "kfs_get_file_size path s =
     (case shim_stat path s of (None, s1) \<Rightarrow> (0, s1) | (Some (i, d), s1) \<Rightarrow> (u32 (i_size i), s1))"

definition kfs_create_file :: "byte list \<Rightarrow> byte list \<Rightarrow> kfs \<Rightarrow> bool \<times> kfs" where
  "kfs_create_file path content s =
     (case kfs_walk_parent path (KZFS_NAME_MAX + 1) s of
        (Inl _, s1) \<Rightarrow> (False, s1)
      | (Inr (name, parent), s1) \<Rightarrow>
          let (rc, s2) =
            (case v4_create parent name s1 of
               (Inl _, s2) \<Rightarrow> (False, s2)
             | (Inr vn, s2) \<Rightarrow>
                 if content \<noteq> [] then
                   let (e, w, vn1, s3) = v4_write vn 0 content s2 in
                   if e \<noteq> EOK \<or> w \<noteq> length content then
                     let (_, vn2, s4) = v4_truncate vn1 0 s3;
                         (_, s5) = v4_release vn2 s4;
                         (_, s6) = v4_unlink parent name s5
                     in (False, s6)
                   else (True, snd (v4_release vn1 s3))
                 else (True, snd (v4_release vn s2)))
          in (rc, snd (v4_release parent s2)))"

definition kfs_create_folder :: "byte list \<Rightarrow> kfs \<Rightarrow> bool \<times> kfs" where
  "kfs_create_folder path s =
     (case kfs_walk_parent path (KZFS_NAME_MAX + 1) s of
        (Inl _, s1) \<Rightarrow> (False, s1)
      | (Inr (name, parent), s1) \<Rightarrow>
          let (rc, s2) = v4_mkdir parent name s1 in (rc = EOK, snd (v4_release parent s2)))"

definition kfs_read_to_buffer :: "byte list \<Rightarrow> nat \<Rightarrow> kfs \<Rightarrow> byte list option \<times> kfs" where
  "kfs_read_to_buffer path capacity s =
     (case shim_stat path s of
        (None, s1) \<Rightarrow> (None, s1)
      | (Some (i, is_dir), s1) \<Rightarrow>
          if is_dir then (None, s1)
          else if i_size i > capacity then (None, s1)
          else case kfs_walk_path path s1 of
                 (Inl _, s2) \<Rightarrow> (None, s2)
               | (Inr vn, s2) \<Rightarrow>
                   let (e, bs, s3) = v4_read vn 0 (i_size i) s2
                   in (if e = EOK \<and> length bs = i_size i then Some bs else None, snd (v4_release vn s3)))"

definition kfs_delete_file :: "byte list \<Rightarrow> kfs \<Rightarrow> kzfs_err \<times> kfs" where
  "kfs_delete_file path s =
     (case kfs_walk_parent path (KZFS_NAME_MAX + 1) s of
        (Inl e, s1) \<Rightarrow> (e, s1)
      | (Inr (name, parent), s1) \<Rightarrow>
          let (rc, s2) = v4_unlink parent name s1 in (rc, snd (v4_release parent s2)))"

definition kfs_resolve_dir :: "byte list \<Rightarrow> kfs \<Rightarrow> nat option \<times> kfs" where
  "kfs_resolve_dir path s =
     (case shim_stat path s of
        (None, s1) \<Rightarrow> (None, s1)
      | (Some (i, is_dir), s1) \<Rightarrow> (if is_dir then Some (i_ino i) else None, s1))"

text \<open>Listing a folder: names cut to 22 bytes, with the size of every file.\<close>

fun list_loop :: "nat \<Rightarrow> vnode \<Rightarrow> nat \<Rightarrow> nat \<Rightarrow> (byte list \<times> nat \<times> bool) list \<Rightarrow> kfs
    \<Rightarrow> ((byte list \<times> nat \<times> bool) list \<times> kfs) option" where
  "list_loop 0 dir i room acc s = None"
| "list_loop (Suc fuel) dir i room acc s =
     (if length acc < room then
        (case v4_readdir dir i (KZFS_NAME_MAX + 2) s of
           (Inl _, s1) \<Rightarrow> Some (acc, s1)
         | (Inr (nm, ty), s1) \<Rightarrow>
             if dir_is_dot (c_str nm) then list_loop fuel dir (u32 (i + 1)) room acc s1
             else
               let (size, s2) =
                     (if ty \<noteq> 2 then
                        (case v4_lookup dir (c_str nm) s1 of
                           (Inl _, s2) \<Rightarrow> (0, s2)
                         | (Inr child, s2) \<Rightarrow> (u32 (v_size child), snd (v4_release child s2)))
                      else (0, s1))
               in list_loop fuel dir (u32 (i + 1)) room (acc @ [(take 22 (c_str nm), size, ty = 2)]) s2)
      else Some (acc, s))"

definition kfs_get_file_list :: "byte list \<Rightarrow> nat \<Rightarrow> kfs \<Rightarrow> (byte list \<times> nat \<times> bool) list \<times> kfs" where
  "kfs_get_file_list path max_entries s =
     (if max_entries = 0 then ([], s)
      else case kfs_walk_path path s of
             (Inl _, s1) \<Rightarrow> ([], s1)
           | (Inr dir, s1) \<Rightarrow>
               if v_type dir \<noteq> V_DIR then ([], snd (v4_release dir s1))
               else
                 let (l, s2) = the (list_loop (Suc (i_size (ino_at (v_ino dir) s1))) dir 0 max_entries [] s1)
                 in (l, snd (v4_release dir s2)))"

definition kfs_get_total_space :: "kfs \<Rightarrow> nat" where
  "kfs_get_total_space s = (let (tb, _) = kfs_v4_get_stats s in u32 (u64 (tb * KZFS_BLOCK_SIZE)))"

definition kfs_get_used_space :: "kfs \<Rightarrow> nat" where
  "kfs_get_used_space s = (let (tb, fb, _) = kfs_v4_get_stats s in u32 (u64 (sub64 tb fb * KZFS_BLOCK_SIZE)))"

definition kfs_v4_root_vnode :: "kfs \<Rightarrow> vnode option \<times> kfs" where
  "kfs_v4_root_vnode s =
     (if \<not> fs_mounted s then (None, s)
      else case ino_get_nolock (root_ino s) s of
             (Inl _, s1) \<Rightarrow> (None, s1)
           | (Inr rk, s1) \<Rightarrow>
               (case vnode_wrap_locked rk s1 of
                  (Inl _, s2) \<Rightarrow> (None, ino_put_nolock (Some rk) s2)
                | (Inr v, s2) \<Rightarrow> (Some v, s2)))"

end
