(* ===== verification/Kfs_Refs.thy ===== *)
theory Kfs_Refs
  imports Kfs_Vnode
begin

text \<open>
  Reference counts across the layers: reading a directory leaves the inode cache alone, getting an inode adds
  one reference and putting it takes one away, and path resolution is balanced on every branch.  The loops that
  list a folder end.
\<close>

section \<open>Operations that only read\<close>

text \<open>Nothing but the block cache and the supply of memory changes, and memory is not used up when it is unlimited.\<close>

definition quiet :: "kfs \<Rightarrow> kfs \<Rightarrow> bool" where
  "quiet s s' \<longleftrightarrow> s' = s\<lparr>bc := bc s', heap_future := heap_future s'\<rparr> \<and> (heap_future s = [] \<longrightarrow> heap_future s' = [])"

named_theorems quiet

lemma quiet_refl [quiet, simp]: "quiet s s"
  by (simp add: quiet_def)

lemma quiet_trans [trans]: "quiet s t \<Longrightarrow> quiet t u \<Longrightarrow> quiet s u"
  by (cases s, cases t, cases u) (auto simp: quiet_def)

lemma quietD:
  assumes "quiet s s'"
  shows "ino_pool s' = ino_pool s" "ino_hash s' = ino_hash s" "root_ino s' = root_ino s" "sb_cache s' = sb_cache s"
    "fs_mounted s' = fs_mounted s" "heap_future s = [] \<Longrightarrow> heap_future s' = []"
  using assms by (cases s, cases s', auto simp: quiet_def)+

lemma peek_quiet [quiet]: "peek_block b s = (r, s') \<Longrightarrow> quiet s s'"
  by (auto simp: quiet_def peek_block_def split: prod.splits)

lemma kmalloc_quiet [quiet]: "kmalloc_fs n s = (r, s') \<Longrightarrow> quiet s s'"
  by (auto simp: quiet_def kmalloc_fs_def split: list.splits)

lemma ext_get_quiet [quiet]: "ext_get_nolock i n s = (r, s') \<Longrightarrow> quiet s s'"
  by (auto simp: ext_get_nolock_def Let_def split: if_splits prod.splits option.splits dest: peek_quiet)

lemma phys_scan_quiet: "phys_scan ns i lb c s = (r, s') \<Longrightarrow> quiet s s'"
proof (induction ns arbitrary: c s)
  case (Cons n ns)
  obtain x s1 where e: "ext_get_nolock i n s = (x, s1)" by fastforce
  have "quiet s1 s'" using Cons e by (auto split: sum.splits if_splits)
  with ext_get_quiet [OF e] show ?case by (rule quiet_trans)
qed simp

lemma phys_block_quiet [quiet]: "kzfs_get_phys_block i lb s = (r, s') \<Longrightarrow> quiet s s'"
  by (simp add: kzfs_get_phys_block_def phys_scan_quiet)

lemma read_loop_quiet: "read_loop i off count acc s = (rc, bs, s') \<Longrightarrow> quiet s s'"
proof (induction count arbitrary: off acc s rule: less_induct)
  case (less count)
  define chunk where "chunk = min (KZFS_BLOCK_SIZE - off mod KZFS_BLOCK_SIZE) count"
  obtain p s1 where p: "kzfs_get_phys_block i (off div KZFS_BLOCK_SIZE) s = (p, s1)" by fastforce
  show ?case
  proof (cases "count > 0")
    case False
    then show ?thesis using less.prems by (simp add: read_loop.simps [of i off 0])
  next
    case True
    have dec: "count - chunk < count" using True by (simp add: chunk_def KZFS_BLOCK_SIZE_def)
    have q1: "quiet s s1" using p by (rule phys_block_quiet)
    have "quiet s1 s'"
    proof (cases p)
      case None
      then have "read_loop i (off + chunk) (count - chunk) (acc @ replicate chunk 0) s1 = (rc, bs, s')"
        using less.prems True p by (subst (asm) read_loop.simps) (simp add: Let_def chunk_def)
      then show ?thesis by (rule less.IH [OF dec])
    next
      case (Some b)
      obtain r s2 where r: "peek_block b s1 = (r, s2)" by fastforce
      have "(case r of None \<Rightarrow> (EIO, acc, s2) | Some d \<Rightarrow> read_loop i (off + chunk) (count - chunk)
          (acc @ bslice (off mod KZFS_BLOCK_SIZE) chunk d) s2) = (rc, bs, s')"
        using less.prems True p Some r unfolding chunk_def by (subst (asm) read_loop.simps) (simp add: Let_def)
      then have "quiet s2 s'" using less.IH [OF dec] by (auto split: option.splits)
      with peek_quiet [OF r] show ?thesis by (rule quiet_trans)
    qed
    with q1 show ?thesis by (rule quiet_trans)
  qed
qed

lemma read_file_quiet [quiet]: "blk_read_file i off n s = (rc, bs, s') \<Longrightarrow> quiet s s'"
  by (auto simp: blk_read_file_def split: if_splits dest: read_loop_quiet)

lemma read_chunk_quiet [quiet]: "read_chunk d off n tmp s = (rc, got, tmp', s') \<Longrightarrow> quiet s s'"
  by (auto simp: read_chunk_def Let_def split: prod.splits dest: read_file_quiet)

lemma lookup_blocks_quiet: "lookup_blocks dir name off tmp s = (r, s') \<Longrightarrow> quiet s s'"
proof (induction "i_size dir - off" arbitrary: off tmp s rule: less_induct)
  case less
  show ?case
  proof (cases "off < i_size dir")
    case False
    then show ?thesis using less.prems by (simp add: lookup_blocks.simps [of dir name off])
  next
    case True
    obtain rc got t s1 where c: "read_chunk dir off (chunk_at dir off) tmp s = (rc, got, t, s1)" using prod_cases4 by blast
    have dec: "i_size dir - (off + KZFS_BLOCK_SIZE) < i_size dir - off" using True by (simp add: KZFS_BLOCK_SIZE_def)
    have "quiet s1 s'"
      using less.prems True c less.hyps [OF dec]
      by (subst (asm) lookup_blocks.simps) (auto simp: Let_def split: if_splits option.splits sum.splits)
    with read_chunk_quiet [OF c] show ?thesis by (rule quiet_trans)
  qed
qed

lemma find_record_quiet: "find_record dir name s = (r, s') \<Longrightarrow> quiet s s'"
  by (auto simp: find_record_def Let_def split: if_splits prod.splits option.splits
      dest: kmalloc_quiet lookup_blocks_quiet intro: quiet_trans)

lemma dir_lookup_quiet [quiet]: "dir_lookup_entry dir name s = (r, s') \<Longrightarrow> quiet s s'"
  by (auto simp: dir_lookup_entry_def split: prod.splits sum.splits dest: find_record_quiet)

section \<open>Reference counts\<close>

definition refs :: "kfs \<Rightarrow> nat \<Rightarrow> int" where
  "refs s k = (if k < INO_CACHE_MAX \<and> e_used (ino_pool s ! k) then i_refcount (e_ino (ino_pool s ! k)) else 0)"

lemma refs_pool: "ino_pool s' = ino_pool s \<Longrightarrow> refs s' = refs s"
  by (simp add: refs_def fun_eq_iff)

lemma refs_quiet: "quiet s s' \<Longrightarrow> refs s' = refs s"
  by (intro refs_pool quietD)

lemma ic_inv_quiet: "quiet s s' \<Longrightarrow> ic_inv s' = ic_inv s"
  by (simp add: ic_inv_def live_def quietD)

lemma refs_set_entry:
  assumes "length (ino_pool s) = INO_CACHE_MAX" and "k < INO_CACHE_MAX"
  shows "refs (set_entry k e s) = (refs s)(k := if e_used e then i_refcount (e_ino e) else 0)"
  using assms by (auto simp: refs_def fun_eq_iff set_entry_def nth_upd)

lemma refs_same_entry:
  assumes "length (ino_pool s) = INO_CACHE_MAX" and "e_used e = e_used (ino_pool s ! k)"
    and "i_refcount (e_ino e) = i_refcount (e_ino (ino_pool s ! k))"
  shows "refs (set_entry k e s) = refs s"
proof (cases "k < INO_CACHE_MAX")
  case True
  then show ?thesis using assms by (auto simp: refs_set_entry refs_def fun_eq_iff)
next
  case False
  then show ?thesis using assms(1) by (simp add: set_entry_def list_update_beyond)
qed

lemma refs_unlink:
  assumes "length (ino_pool s) = INO_CACHE_MAX" and "k < INO_CACHE_MAX"
  shows "refs (ino_cache_unlink k s) = (refs s)(k := 0)"
proof -
  define t where "t = s\<lparr>ino_hash := (ino_hash s)(ino_hash_fn (i_ino (e_ino (ino_pool s ! k))) :=
      remove1 k (ino_hash s (ino_hash_fn (i_ino (e_ino (ino_pool s ! k))))))\<rparr>"
  have "ino_pool t = ino_pool s" by (simp add: t_def)
  then show ?thesis
    using refs_set_entry [of t k "(ino_pool s ! k)\<lparr>e_used := False\<rparr>"] refs_pool [of t s] assms
    by (simp add: ino_cache_unlink_def Let_def t_def)
qed

lemma sync_entry_pool:
  assumes "length (ino_pool s) = INO_CACHE_MAX"
  shows "length (ino_pool (sync_entry k s)) = INO_CACHE_MAX" and "refs (sync_entry k s) = refs s"
    and "i_refcount (e_ino (ino_pool (sync_entry k s) ! k)) = i_refcount (e_ino (ino_pool s ! k))"
proof -
  obtain rc s1 where sy: "ino_sync_nolock (e_ino (ino_pool s ! k)) s = (rc, s1)" by fastforce
  have p: "ino_pool s1 = ino_pool s" by (subst ino_sync_frame [OF sy]) simp
  have e: "sync_entry k s = (if i_dirty (e_ino (ino_pool s ! k)) then clear_dirty k s1 else s)"
    using sy by (simp add: sync_entry_def)
  have r: "refs (clear_dirty k s1) = refs s1" unfolding clear_dirty_def by (intro refs_same_entry) (simp_all add: p assms)
  show "length (ino_pool (sync_entry k s)) = INO_CACHE_MAX" using assms by (simp add: e clear_dirty_def set_entry_def p)
  show "refs (sync_entry k s) = refs s" using r refs_pool [OF p] by (simp add: e)
  show "i_refcount (e_ino (ino_pool (sync_entry k s) ! k)) = i_refcount (e_ino (ino_pool s ! k))"
    by (cases "k < length (ino_pool s)") (simp_all add: e clear_dirty_def set_entry_def p list_update_beyond)
qed

lemma slot_refs:
  assumes inv: "ic_inv s" and sl: "ino_cache_slot s = (q, s')"
  shows "refs s' = refs s"
proof -
  note len = ic_invD(1) [OF inv]
  have dead: "refs (set_entry i ((ino_pool t ! i)\<lparr>e_dead := False\<rparr>) t) = refs t"
    if "length (ino_pool t) = INO_CACHE_MAX" for t i
    using that by (intro refs_same_entry) simp_all
  have zero: "(refs t)(i := 0) = refs t" if "i_refcount (e_ino (ino_pool t ! i)) = 0" for t i
    using that by (simp add: refs_def fun_eq_iff)
  have unl: "refs (ino_cache_unlink i t) = refs t" "length (ino_pool (ino_cache_unlink i t)) = INO_CACHE_MAX"
    if "length (ino_pool t) = INO_CACHE_MAX" "i < INO_CACHE_MAX" "i_refcount (e_ino (ino_pool t ! i)) = 0" for t i
    using refs_unlink [OF that(1,2)] zero [OF that(3)] that(1) by (simp_all add: ino_cache_unlink_def Let_def set_entry_def)
  have fin: "refs s' = refs s" if "s' = set_entry i ((ino_pool t ! i)\<lparr>e_dead := False\<rparr>) t" "length (ino_pool t) = INO_CACHE_MAX"
      "refs t = refs s" for t i
    using dead [OF that(2)] that(1,3) by simp
  show ?thesis
  proof (cases "find_slot (\<lambda>e. \<not> e_used e) s")
    case (Some i)
    then show ?thesis using sl len by (intro fin [of i s]) (auto simp: ino_cache_slot_def)
  next
    case None
    note n1 = this
    show ?thesis
    proof (cases "find_slot (\<lambda>e. e_used e \<and> e_dead e \<and> i_refcount (e_ino e) = 0) s")
      case (Some i)
      have "s' = set_entry i ((ino_pool (ino_cache_unlink i s) ! i)\<lparr>e_dead := False\<rparr>) (ino_cache_unlink i s)"
        using sl n1 Some by (auto simp: ino_cache_slot_def)
      then show ?thesis using unl [OF len, of i] find_slotD [OF Some] by (intro fin [of i "ino_cache_unlink i s"]) simp_all
    next
      case None
      note n2 = this
      show ?thesis
      proof (cases "find_slot (\<lambda>e. e_used e \<and> i_refcount (e_ino e) = 0) s")
        case None
        then show ?thesis using sl n1 n2 by (auto simp: ino_cache_slot_def)
      next
        case (Some i)
        define t where "t = sync_entry i s"
        have t: "length (ino_pool t) = INO_CACHE_MAX" "refs t = refs s" "i < INO_CACHE_MAX" "i_refcount (e_ino (ino_pool t ! i)) = 0"
          using sync_entry_pool [OF len] find_slotD [OF Some] by (simp_all add: t_def)
        have "s' = set_entry i ((ino_pool (ino_cache_unlink i t) ! i)\<lparr>e_dead := False\<rparr>) (ino_cache_unlink i t)"
          using sl n1 n2 Some by (auto simp: ino_cache_slot_def t_def)
        then show ?thesis using unl [OF t(1,3,4)] t(2) by (intro fin [of i "ino_cache_unlink i t"]) simp_all
      qed
    qed
  qed
qed

lemma get_refs:
  assumes inv: "ic_inv s" and g: "ino_get_nolock n s = (r, s')"
  shows "case r of Inl _ \<Rightarrow> refs s' = refs s
    | Inr k \<Rightarrow> k < INO_CACHE_MAX \<and> e_used (ino_pool s' ! k) \<and> refs s' = (refs s)(k := refs s k + 1)"
proof (cases "n = 0 \<or> (total_inodes (sb_cache s) \<noteq> 0 \<and> n > total_inodes (sb_cache s))")
  case True
  then show ?thesis using g by (auto simp: ino_get_nolock_def)
next
  case valid: False
  note len = ic_invD(1) [OF inv]
  show ?thesis
  proof (cases "ino_cache_find n s")
    case (Some k)
    then have l: "live s k n" using ino_cache_find_iff [OF inv] by blast
    then have k: "k < INO_CACHE_MAX" "e_used (ino_pool s ! k)" by (simp_all add: live_def)
    define e where "e = (ino_pool s ! k)\<lparr>e_ino := (e_ino (ino_pool s ! k))\<lparr>i_refcount := i_refcount (e_ino (ino_pool s ! k)) + 1\<rparr>\<rparr>"
    have "r = Inr k" "s' = set_entry k e s" using g valid Some by (auto simp: ino_get_nolock_def e_def Let_def)
    moreover have "refs s k = i_refcount (e_ino (ino_pool s ! k))" using k by (simp add: refs_def)
    ultimately show ?thesis
      using k len refs_set_entry [OF len k(1), of e] by (simp add: e_def set_entry_def)
  next
    case None
    obtain q s1 where sl: "ino_cache_slot s = (q, s1)" by fastforce
    have r1: "refs s1 = refs s" by (rule slot_refs [OF inv sl])
    note sp = ino_cache_slot_spec [OF inv sl]
    show ?thesis
    proof (cases q)
      case None': None
      then show ?thesis using g valid None sl r1 by (auto simp: ino_get_nolock_def)
    next
      case (Some k)
      obtain d s2 where rd: "ino_disk_read n s1 = (d, s2)" by fastforce
      have p2: "ino_pool s2 = ino_pool s1" by (subst ino_disk_read_frame [OF rd]) simp
      have k: "k < INO_CACHE_MAX" "\<not> e_used (ino_pool s1 ! k)" "length (ino_pool s1) = INO_CACHE_MAX"
        using sp Some ic_invD(1) [of s1] by simp_all
      show ?thesis
      proof (cases d)
        case None'': None
        then show ?thesis using g valid None sl Some rd r1 refs_pool [OF p2] by (auto simp: ino_get_nolock_def)
      next
        case di: (Some di)
        define e where "e = (ino_pool s2 ! k)\<lparr>e_ino := (ino_from_disk n di)\<lparr>i_refcount := 1\<rparr>\<rparr>"
        have "r = Inr k" "s' = ino_cache_insert_nolock k (set_entry k e s2)"
          using g valid None sl Some rd di by (auto simp: ino_get_nolock_def e_def)
        moreover have "ino_pool (ino_cache_insert_nolock k (set_entry k e s2)) = (ino_pool s1)[k := e\<lparr>e_used := True, e_dead := False\<rparr>]"
          using k by (simp add: ino_cache_insert_nolock_def Let_def set_entry_def p2)
        moreover have "refs s1 k = 0" using k by (simp add: refs_def)
        then have "refs s k = 0" using r1 by simp
        ultimately show ?thesis
          using k r1 refs_set_entry [OF k(3,1), of "e\<lparr>e_used := True, e_dead := False\<rparr>"]
            refs_pool [of s' "set_entry k (e\<lparr>e_used := True, e_dead := False\<rparr>) s1"]
          by (simp add: set_entry_def e_def)
      qed
    qed
  qed
qed

lemma put_refs:
  assumes inv: "ic_inv s" and pos: "0 < refs s k"
  shows "refs (ino_put_nolock (Some k) s) = (refs s)(k := refs s k - 1)"
proof -
  note len = ic_invD(1) [OF inv]
  have k: "k < INO_CACHE_MAX" "e_used (ino_pool s ! k)" "refs s k = i_refcount (e_ino (ino_pool s ! k))" "0 < i_refcount (e_ino (ino_pool s ! k))"
    using pos by (auto simp: refs_def split: if_splits)
  define e where "e = (ino_pool s ! k)\<lparr>e_ino := (e_ino (ino_pool s ! k))\<lparr>i_refcount := i_refcount (e_ino (ino_pool s ! k)) - 1\<rparr>\<rparr>"
  define s1 where "s1 = set_entry k e s"
  have r1: "refs s1 = (refs s)(k := refs s k - 1)"
    using refs_set_entry [OF len k(1), of e] k by (simp add: s1_def e_def)
  have l1: "length (ino_pool s1) = INO_CACHE_MAX" "ino_pool s1 ! k = e" using len k(1) by (simp_all add: s1_def set_entry_def)
  have "ino_put_nolock (Some k) s = (if i_refcount (e_ino (ino_pool s1 ! k)) \<noteq> 0 then s1
      else if e_dead (ino_pool s1 ! k) then ino_cache_unlink k s1 else sync_entry k s1)"
    using k(4) by (simp add: ino_put_nolock_def Let_def e_def s1_def)
  moreover have "refs (ino_cache_unlink k s1) = refs s1" if "i_refcount (e_ino (ino_pool s1 ! k)) = 0"
    using refs_unlink [OF l1(1) k(1)] that by (simp add: refs_def fun_eq_iff)
  ultimately show ?thesis using r1 sync_entry_pool(2) [OF l1(1)] by simp
qed

section \<open>Path resolution is balanced\<close>

lemma heap_frames [simp]:
  "heap_future (set_entry k e s) = heap_future s" "heap_future (ino_cache_unlink k s) = heap_future s"
  "heap_future (ino_cache_insert_nolock k s) = heap_future s" "heap_future (sync_entry k s) = heap_future s"
proof -
  show "heap_future (sync_entry k s) = heap_future s"
  proof (cases "ino_sync_nolock (e_ino (ino_pool s ! k)) s")
    case (Pair rc s1)
    have "heap_future s1 = heap_future s" by (subst ino_sync_frame [OF Pair]) simp
    then show ?thesis using Pair by (simp add: sync_entry_def clear_dirty_def set_entry_def)
  qed
qed (simp_all add: set_entry_def ino_cache_unlink_def ino_cache_insert_nolock_def Let_def)

lemma slot_heap: "ino_cache_slot s = (q, s') \<Longrightarrow> heap_future s' = heap_future s"
  by (auto simp: ino_cache_slot_def Let_def split: option.splits)

lemma get_heap:
  assumes "ino_get_nolock n s = (r, s')"
  shows "heap_future s' = heap_future s"
proof -
  have d: "heap_future t' = heap_future t" if "ino_disk_read n t = (x, t')" for t t' x
    by (subst ino_disk_read_frame [OF that]) simp
  show ?thesis
    using assms by (auto simp: ino_get_nolock_def Let_def split: if_splits option.splits prod.splits dest!: slot_heap d)
qed

lemma put_heap [simp]: "heap_future (ino_put_nolock p s) = heap_future s"
  by (auto simp: ino_put_nolock_def Let_def split: option.splits)

text \<open>
  The references a list of vnodes holds on top of those somebody else holds: one per vnode on the entry it names.
\<close>

definition held :: "(nat \<Rightarrow> int) \<Rightarrow> vnode list \<Rightarrow> kfs \<Rightarrow> bool" where
  "held base vs s \<longleftrightarrow> ic_inv s \<and> heap_future s = [] \<and> (\<forall>v \<in> set vs. v_refcount v = 1 \<and> v_ino v < INO_CACHE_MAX)
     \<and> refs s = (\<lambda>k. base k + int (count_list (map v_ino vs) k))"

lemma held_rev: "held base (rev vs @ ws) s = held base (vs @ ws) s"
  by (simp add: held_def rev_map [symmetric])

lemma held_quiet:
  assumes "held base vs s" and "quiet s s'"
  shows "held base vs s'"
  using assms ic_inv_quiet [OF assms(2)] refs_quiet [OF assms(2)] quietD(6) [OF assms(2)] by (simp add: held_def)

lemma release_held:
  assumes "held base (v # vs) s" and base: "\<And>k. 0 \<le> base k"
  shows "held base vs (snd (v4_release v s))"
proof -
  have r: "refs s = (\<lambda>k. base k + int (count_list (map v_ino (v # vs)) k))" and inv: "ic_inv s" and v: "v_refcount v = 1" "v_ino v < INO_CACHE_MAX"
    using assms(1) by (simp_all add: held_def)
  have "0 < refs s (v_ino v)" using r base [of "v_ino v"] by simp
  note p = put_refs [OF inv this]
  have "refs (ino_put_nolock (Some (v_ino v)) s) = (\<lambda>k. base k + int (count_list (map v_ino vs) k))"
    unfolding p unfolding r by (simp add: fun_eq_iff)
  then show ?thesis using assms(1) v ino_put_spec [OF inv v(2)] by (simp add: v4_release_def held_def)
qed

lemma release_all_held:
  assumes "held base (vs @ ws) s" and "\<And>k. 0 \<le> base k"
  shows "held base ws (release_all vs s)"
  using assms(1)
proof (induction vs arbitrary: s)
  case (Cons v vs)
  then show ?case using Cons.IH [OF release_held [of base v "vs @ ws" s]] assms(2) by (simp add: release_all_def)
qed (simp add: release_all_def)

lemma wrap_held:
  assumes inv: "ic_inv s" and heap: "heap_future s = []" and k: "k < INO_CACHE_MAX"
    and r: "refs s = (\<lambda>j. (base j + int (count_list (map v_ino vs) j)) + (if j = k then 1 else 0))"
    and vs: "\<forall>v \<in> set vs. v_refcount v = 1 \<and> v_ino v < INO_CACHE_MAX"
  shows "\<exists>v. vnode_wrap_locked k s = (Inr v, s) \<and> v_ino v = k \<and> held base (v # vs) s"
proof -
  define v where "v = \<lparr>v_type = (if i_mode (ino_at k s) = KZFS_INODE_FLAG_DIR then V_DIR else V_REG), v_refcount = 1,
    v_size = i_size (ino_at k s), v_inode_num = i_ino (ino_at k s), v_ino = k\<rparr>"
  have "vnode_wrap_locked k s = (Inr v, s)" using heap by (simp add: vnode_wrap_locked_def kmalloc_fs_def v_def)
  moreover have "held base (v # vs) s" using assms by (auto simp: held_def v_def fun_eq_iff)
  ultimately show ?thesis by (auto simp: v_def)
qed

lemma get_wrap_held:
  assumes h: "held base vs s" and g: "ino_get_nolock n s = (Inr k, s1)"
  shows "\<exists>v. vnode_wrap_locked k s1 = (Inr v, s1) \<and> v_ino v = k \<and> held base (v # vs) s1"
proof -
  have inv: "ic_inv s" using h by (simp add: held_def)
  have "k < INO_CACHE_MAX" "refs s1 = (refs s)(k := refs s k + 1)" using get_refs [OF inv g] by simp_all
  moreover have "ic_inv s1" using ino_get_spec [OF inv g] by simp
  moreover have "heap_future s1 = []" using get_heap [OF g] h by (simp add: held_def)
  ultimately show ?thesis using h by (intro wrap_held) (auto simp: held_def fun_eq_iff)
qed

lemma get_fail_held: "held base vs s \<Longrightarrow> ino_get_nolock n s = (Inl e, s1) \<Longrightarrow> held base vs s1"
  using get_refs [of s n "Inl e" s1] ino_get_spec [of s n "Inl e" s1] get_heap [of n s "Inl e" s1] by (simp add: held_def)

lemma lookup_held:
  assumes h: "held base vs s" and l: "v4_lookup dir name s = (r, s')"
  shows "held base (case r of Inl _ \<Rightarrow> vs | Inr v \<Rightarrow> v # vs) s'"
proof (cases "v_type dir \<noteq> V_DIR \<or> name = [] \<or> dir_is_dot name")
  case True
  then show ?thesis using h l by (auto simp: v4_lookup_def split: if_splits)
next
  case False
  obtain x s1 where d: "dir_lookup_entry (ino_at (v_ino dir) s) name s = (x, s1)" by fastforce
  have h1: "held base vs s1" by (rule held_quiet [OF h dir_lookup_quiet [OF d]])
  show ?thesis
  proof (cases x)
    case (Inl e)
    then show ?thesis using False l d h1 by (auto simp: v4_lookup_def)
  next
    case (Inr nf)
    obtain n ft where nf: "nf = (n, ft)" by (cases nf)
    obtain y s2 where g: "ino_get_nolock n s1 = (y, s2)" by fastforce
    show ?thesis
    proof (cases y)
      case (Inl e)
      then show ?thesis using False l d g nf \<open>x = Inr nf\<close> get_fail_held [OF h1] by (auto simp: v4_lookup_def)
    next
      case k: (Inr k)
      then show ?thesis using False l d g nf \<open>x = Inr nf\<close> get_wrap_held [OF h1, of n k s2] by (auto simp: v4_lookup_def)
    qed
  qed
qed

lemma walk_loop_held:
  assumes "held base stack s" and "stack \<noteq> []" and base: "\<And>k. 0 \<le> base k" and "walk_loop p stack s = (rc, stack', s')"
  shows "held base stack' s' \<and> stack' \<noteq> []"
  using assms(1,2,4)
proof (induction "length p" arbitrary: p stack s rule: less_induct)
  case less
  define p1 where "p1 = dropWhile (\<lambda>c. c = 47) p"
  define comp where "comp = takeWhile (\<lambda>c. c \<noteq> 47) p1"
  define rest where "rest = dropWhile (\<lambda>c. c \<noteq> 47) p1"
  have w: "walk_loop p stack s =
      (if p1 = [] then (EOK, stack, s)
       else if length comp > KZFS_NAME_MAX then (ENAMETOOLONG, stack, s)
       else if comp = [46] then walk_loop rest stack s
       else if comp = [46, 46] then
         (if length stack > 1 then walk_loop rest (tl stack) (snd (v4_release (hd stack) s)) else walk_loop rest stack s)
       else if length stack > KZFS_PATH_MAX_DEPTH then (EINVAL, stack, s)
       else if v_type (hd stack) \<noteq> V_DIR then (ENOTDIR, stack, s)
       else let (r, s1) = v4_lookup (hd stack) comp s in
         case r of Inl e \<Rightarrow> (e, stack, s1) | Inr next \<Rightarrow> walk_loop rest (next # stack) s1)"
    unfolding p1_def comp_def rest_def by (subst walk_loop.simps) (simp only: Let_def)
  have dec: "length rest < length p" if "p1 \<noteq> []" using component_shorter that by (simp add: rest_def p1_def)
  obtain v vs where st: "stack = v # vs" using less.prems(2) by (cases stack) auto
  have up: "held base (tl stack) (snd (v4_release (hd stack) s))"
    using release_held [OF less.prems(1) [unfolded st] base] by (simp add: st)
  obtain r s1 where l: "v4_lookup (hd stack) comp s = (r, s1)" by fastforce
  note lk = lookup_held [OF less.prems(1) l]
  consider (stop) "(stack', s') = (stack, s)"
    | (same) "p1 \<noteq> []" "walk_loop rest stack s = (rc, stack', s')"
    | (up) "p1 \<noteq> []" "tl stack \<noteq> []" "walk_loop rest (tl stack) (snd (v4_release (hd stack) s)) = (rc, stack', s')"
    | (fail) e where "r = Inl e" "(stack', s') = (stack, s1)"
    | (down) nx where "p1 \<noteq> []" "r = Inr nx" "walk_loop rest (nx # stack) s1 = (rc, stack', s')"
    using less.prems(3) unfolding w l by (cases r) (auto simp: st split: if_splits)
  then show ?case
  proof cases
    case stop
    then show ?thesis using less.prems by simp
  next
    case same
    from less.hyps [OF dec [OF same(1)] less.prems(1,2) same(2)] show ?thesis .
  next
    case up': up
    from less.hyps [OF dec [OF up'(1)] up up'(2,3)] show ?thesis .
  next
    case fail
    then show ?thesis using lk less.prems(2) by simp
  next
    case down
    have "held base (nx # stack) s1" using lk down(2) by simp
    from less.hyps [OF dec [OF down(1)] this _ down(3)] show ?thesis by simp
  qed
qed

lemma refs_nonneg:
  assumes "\<And>k. k < INO_CACHE_MAX \<Longrightarrow> 0 \<le> i_refcount (e_ino (ino_pool s ! k))"
  shows "0 \<le> refs s k"
  using assms by (simp add: refs_def)



section \<open>Listing a folder ends\<close>

text \<open>Every counted record takes at least eight bytes, so an entry is only found at an index the size allows.\<close>

lemma index_scan_bound:
  assumes "index_scan tmp chunk index cap seen pos = (r, seen')" and "8 * seen \<le> base + min pos chunk" and "base + chunk < 2 ^ 35"
  shows "(\<forall>x. r = Some (Inr x) \<longrightarrow> 8 * index + 8 \<le> base + chunk) \<and> 8 * seen' \<le> base + chunk"
  using assms(1,2)
proof (induction "chunk - pos" arbitrary: seen pos rule: less_induct)
  case less
  show ?case
  proof (cases "pos + 8 \<le> chunk")
    case False
    then have "r = None" "seen' = seen" using less.prems(1) by (simp_all add: index_scan.simps [of tmp chunk index cap seen pos])
    then show ?thesis using less.prems(2) by (auto simp: min_def split: if_splits)
  next
    case True
    define rl where "rl = le_at (pos + 4) 2 tmp"
    have e: "index_scan tmp chunk index cap seen pos =
       (if rl < KZFS_DIRENT_MIN_REC then (Some (Inl EIO), seen)
        else if le_at pos 4 tmp \<noteq> 0 then
          (if seen = index then
             (if unat (tmp ! (pos + 6)) + 1 > cap then (Some (Inl ENAMETOOLONG), seen)
              else (Some (Inr (bslice (pos + 8) (unat (tmp ! (pos + 6))) tmp, tmp ! (pos + 7))), seen))
           else index_scan tmp chunk index cap (u32 (seen + 1)) (pos + rl))
        else index_scan tmp chunk index cap seen (pos + rl))"
      using True by (subst index_scan.simps) (simp add: Let_def rl_def)
    have here: "8 * seen + 8 \<le> base + chunk" using less.prems(2) True by simp
    then have u: "u32 (seen + 1) = seen + 1" using assms(3) by (intro u32_id) simp
    consider (stop) "seen' = seen" "\<forall>x. r = Some (Inr x) \<longrightarrow> seen = index"
      | (one) "12 \<le> rl" "index_scan tmp chunk index cap (seen + 1) (pos + rl) = (r, seen')"
      | (skip) "12 \<le> rl" "index_scan tmp chunk index cap seen (pos + rl) = (r, seen')"
      using less.prems(1) unfolding e u KZFS_DIRENT_MIN_REC_def by (auto split: if_splits)
    then show ?thesis
    proof cases
      case stop
      then show ?thesis using here by auto
    next
      case one
      have "chunk - (pos + rl) < chunk - pos" "8 * (seen + 1) \<le> base + min (pos + rl) chunk"
        using one(1) True less.prems(2) by (auto simp: min_def split: if_splits)
      from less.hyps [OF this(1) one(2) this(2)] show ?thesis .
    next
      case skip
      have "chunk - (pos + rl) < chunk - pos" "8 * seen \<le> base + min (pos + rl) chunk"
        using skip(1) True less.prems(2) by (auto simp: min_def split: if_splits)
      from less.hyps [OF this(1) skip(2) this(2)] show ?thesis .
    qed
  qed
qed

lemma index_blocks_bound:
  assumes "index_blocks dir index cap seen off tmp s = (Inr x, s')" and "8 * seen \<le> off" and "i_size dir < 2 ^ 35"
  shows "8 * index + 8 \<le> i_size dir"
  using assms(1,2)
proof (induction "i_size dir - off" arbitrary: seen off tmp s rule: less_induct)
  case less
  show ?case
  proof (cases "off < i_size dir")
    case False
    then show ?thesis using less.prems(1) by (simp add: index_blocks.simps [of dir index cap seen off])
  next
    case True
    define chunk where "chunk = chunk_at dir off"
    have c: "off + chunk \<le> i_size dir" "off + KZFS_BLOCK_SIZE \<le> i_size dir \<longrightarrow> chunk = KZFS_BLOCK_SIZE"
      using True by (auto simp: chunk_def chunk_at_def)
    obtain rc got t s1 where rd: "read_chunk dir off chunk tmp s = (rc, got, t, s1)" using prod_cases4 by blast
    obtain q seen1 where sc: "index_scan t chunk index cap seen 0 = (q, seen1)" by fastforce
    have b: "(\<forall>x. q = Some (Inr x) \<longrightarrow> 8 * index + 8 \<le> off + chunk) \<and> 8 * seen1 \<le> off + chunk"
      using c(1) assms(3) less.prems(2) by (intro index_scan_bound [OF sc]) simp_all
    have e: "index_blocks dir index cap seen off tmp s = (if rc \<noteq> EOK then (Inl EIO, s1)
        else case q of Some r \<Rightarrow> (r, s1) | None \<Rightarrow> index_blocks dir index cap seen1 (off + KZFS_BLOCK_SIZE) t s1)"
      using True rd sc unfolding chunk_def by (subst index_blocks.simps) (simp add: Let_def split: option.splits)
    show ?thesis
    proof (cases q)
      case (Some r)
      then show ?thesis using less.prems(1) b c(1) unfolding e by (auto split: if_splits)
    next
      case None
      then have next1: "index_blocks dir index cap seen1 (off + KZFS_BLOCK_SIZE) t s1 = (Inr x, s')"
        using less.prems(1) unfolding e by (auto split: if_splits)
      show ?thesis
      proof (cases "off + KZFS_BLOCK_SIZE \<le> i_size dir")
        case True
        have "i_size dir - (off + KZFS_BLOCK_SIZE) < i_size dir - off" using \<open>off < i_size dir\<close> by (simp add: KZFS_BLOCK_SIZE_def)
        from less.hyps [OF this next1] b c(2) True show ?thesis by simp
      next
        case False
        then show ?thesis using next1 by (simp add: index_blocks.simps [of dir index cap seen1 "off + KZFS_BLOCK_SIZE"])
      qed
    qed
  qed
qed

lemma read_index_bound:
  assumes "dir_read_index dir index cap s = (Inr x, s')" and "i_size dir < 2 ^ 35"
  shows "8 * index + 8 \<le> i_size dir"
  using assms index_blocks_bound [of dir index cap 0 0]
  by (auto simp: dir_read_index_def Let_def split: prod.splits option.splits)



end
