(* ===== verification/Vfs_Fd.thy ===== *)
theory Vfs_Fd
  imports Kfs_Refs Kz_Ring
begin

text \<open>
  File descriptors, \<^verbatim>\<open>kernel/fs/vfs_fd.c\<close>: every task has a window of descriptors, a descriptor refers to a
  counted open description, and a description owns a vnode or one end of a pipe.

  Descriptions and pipes are heap objects, here named by numbers that are never reused.  The table lock makes
  every operation one step.  The console driver is a parameter: what a read of it returns and how much a write
  accepts.  An operation on a pipe may have to wait; what the other tasks do until it is woken is an explicit
  list of steps, each telling whether the waiter was killed, and an operation that is still waiting when the
  list ends has no result.
\<close>

section \<open>State\<close>

definition VFS_MAX_FDS :: nat where "VFS_MAX_FDS = 16"
definition VFS_MAX_PATH :: nat where "VFS_MAX_PATH = 23"
definition VFS_PIPE_CAP :: nat where "VFS_PIPE_CAP = 4096"

text \<open>Open flags: bit 0 write-only, bit 1 read-write, bit 2 create, bit 3 truncate, bit 4 append.\<close>

record open_flags =
  o_wronly :: bool
  o_rdwr :: bool
  o_creat :: bool
  o_trunc :: bool
  o_append :: bool

definition rdonly :: open_flags where
  "rdonly = \<lparr>o_wronly = False, o_rdwr = False, o_creat = False, o_trunc = False, o_append = False\<rparr>"

definition wronly :: open_flags where
  "wronly = rdonly\<lparr>o_wronly := True\<rparr>"

datatype vfs_kind = KIND_FILE | KIND_TTY | KIND_PIPE_READ | KIND_PIPE_WRITE | KIND_DIR

record vfs_pipe =
  p_buf :: "byte list"
  p_rpos :: nat
  p_wpos :: nat
  p_used :: nat
  p_readers :: nat
  p_writers :: nat

record vfs_open_file =
  of_refcount :: nat
  of_kind :: vfs_kind
  of_path :: "byte list"
  of_vnode :: "vnode option"
  of_pos :: nat
  of_flags :: open_flags
  of_pipe :: "nat option"

record fd_entry =
  fd_used :: bool
  fd_owner :: nat
  fd_flags :: nat
  fd_open :: "nat option"

record vfs =
  fds :: "fd_entry list"
  opens :: "nat \<Rightarrow> vfs_open_file option"
  pipes :: "nat \<Rightarrow> vfs_pipe option"
  fresh :: nat
  fs :: kfs

section \<open>The table\<close>

definition vfs_init :: "vfs \<Rightarrow> vfs" where
  "vfs_init s = s\<lparr>fds := map (\<lambda>e. e\<lparr>fd_used := False, fd_open := None, fd_flags := 0\<rparr>) (fds s)\<rparr>"

definition path_copy :: "byte list \<Rightarrow> byte list" where
  "path_copy src = take (VFS_MAX_PATH - 1) (takeWhile (\<lambda>c. c \<noteq> 0) src)"

definition slot_of :: "int \<Rightarrow> int \<Rightarrow> nat option" where
  "slot_of task_id fd =
     (if task_id < 0 \<or> task_id \<ge> int MAX_TASKS then None
      else if fd < 0 \<or> fd \<ge> int VFS_MAX_FDS then None
      else Some (nat task_id * VFS_MAX_FDS + nat fd))"

definition resolve_open :: "int \<Rightarrow> int \<Rightarrow> vfs \<Rightarrow> nat option" where
  "resolve_open task_id fd s =
     (case slot_of task_id fd of
        None \<Rightarrow> None
      | Some i \<Rightarrow> if fd_used (fds s ! i) \<and> int (fd_owner (fds s ! i)) = task_id then fd_open (fds s ! i) else None)"

definition alloc_fd :: "nat \<Rightarrow> vfs \<Rightarrow> nat option" where
  "alloc_fd task_id s = find (\<lambda>i. \<not> fd_used (fds s ! (task_id * VFS_MAX_FDS + i))) [0..<VFS_MAX_FDS]"

definition set_fd :: "nat \<Rightarrow> fd_entry \<Rightarrow> vfs \<Rightarrow> vfs" where
  "set_fd i e s = s\<lparr>fds := (fds s)[i := e]\<rparr>"

definition set_open :: "nat \<Rightarrow> vfs_open_file \<Rightarrow> vfs \<Rightarrow> vfs" where
  "set_open a d s = s\<lparr>opens := (opens s)(a := Some d)\<rparr>"

definition desc :: "nat \<Rightarrow> vfs \<Rightarrow> vfs_open_file" where
  "desc a s = the (opens s a)"

definition open_get :: "nat \<Rightarrow> vfs \<Rightarrow> vfs" where
  "open_get a s = set_open a ((desc a s)\<lparr>of_refcount := u32 (of_refcount (desc a s) + 1)\<rparr>) s"

definition pipe_end_closed :: "nat \<Rightarrow> vfs_kind \<Rightarrow> vfs \<Rightarrow> vfs" where
  "pipe_end_closed p kind s =
     (let q = the (pipes s p);
          q1 = (if kind = KIND_PIPE_READ then q\<lparr>p_readers := 0\<rparr> else q\<lparr>p_writers := 0\<rparr>)
      in if p_readers q1 = 0 \<and> p_writers q1 = 0 then s\<lparr>pipes := (pipes s)(p := None)\<rparr>
         else s\<lparr>pipes := (pipes s)(p \<mapsto> q1)\<rparr>)"

text \<open>Releasing what a dead description owned.\<close>

definition drop_payload :: "vfs_open_file \<Rightarrow> vfs \<Rightarrow> vfs" where
  "drop_payload d s =
     (if of_kind d = KIND_FILE \<or> of_kind d = KIND_DIR then
        (case of_vnode d of None \<Rightarrow> s
         | Some v \<Rightarrow> let (_, k1) = v4_sync v (fs s); (_, k2) = v4_release v k1 in s\<lparr>fs := k2\<rparr>)
      else if of_kind d = KIND_PIPE_READ \<or> of_kind d = KIND_PIPE_WRITE then
        (case of_pipe d of None \<Rightarrow> s | Some p \<Rightarrow> pipe_end_closed p (of_kind d) s)
      else s)"

definition open_put :: "nat \<Rightarrow> vfs \<Rightarrow> vfs" where
  "open_put a s =
     (let d = (desc a s)\<lparr>of_refcount := sub32 (of_refcount (desc a s)) 1\<rparr> in
      if of_refcount d \<noteq> 0 then set_open a d s
      else (drop_payload d s)\<lparr>opens := (opens s)(a := None)\<rparr>)"

definition kmalloc_v :: "nat \<Rightarrow> vfs \<Rightarrow> bool \<times> vfs" where
  "kmalloc_v n s = (let (m, k) = kmalloc_fs n (fs s) in (m \<noteq> None, s\<lparr>fs := k\<rparr>))"

definition open_alloc :: "vfs_kind \<Rightarrow> byte list \<Rightarrow> vnode option \<Rightarrow> nat \<Rightarrow> open_flags \<Rightarrow> vfs \<Rightarrow> nat option \<times> vfs" where
  "open_alloc kind path v pos flags s =
     (let (ok, s1) = kmalloc_v 80 s in
      if \<not> ok then (None, s1)
      else
        let d = \<lparr>of_refcount = 1, of_kind = kind, of_path = path_copy path, of_vnode = v, of_pos = pos, of_flags = flags, of_pipe = None\<rparr>
        in (Some (fresh s1), s1\<lparr>opens := (opens s1)(fresh s1 \<mapsto> d), fresh := fresh s1 + 1\<rparr>))"

text \<open>Freeing a description that was never installed.\<close>

definition free_desc :: "nat \<Rightarrow> vfs \<Rightarrow> vfs" where
  "free_desc a s = s\<lparr>opens := (opens s)(a := None)\<rparr>"

definition occupied :: "nat \<Rightarrow> nat \<Rightarrow> fd_entry" where
  "occupied task_id a = \<lparr>fd_used = True, fd_owner = task_id, fd_flags = 0, fd_open = Some a\<rparr>"

definition clear_fd :: "nat \<Rightarrow> vfs \<Rightarrow> vfs" where
  "clear_fd i s = set_fd i ((fds s ! i)\<lparr>fd_used := False, fd_open := None, fd_flags := 0\<rparr>) s"

definition install_locked :: "nat \<Rightarrow> nat \<Rightarrow> nat \<Rightarrow> vfs \<Rightarrow> vfs" where
  "install_locked task_id fd a s =
     (case slot_of (int task_id) (int fd) of None \<Rightarrow> s
      | Some i \<Rightarrow> if fd_used (fds s ! i) then s else set_fd i (occupied task_id a) (open_get a s))"

definition install_tty_locked :: "nat \<Rightarrow> nat \<Rightarrow> open_flags \<Rightarrow> vfs \<Rightarrow> vfs" where
  "install_tty_locked task_id fd flags s =
     (case slot_of (int task_id) (int fd) of None \<Rightarrow> s
      | Some i \<Rightarrow>
          if fd_used (fds s ! i) then s
          else case open_alloc KIND_TTY [116, 116, 121] None 0 flags s of
                 (None, s1) \<Rightarrow> s1
               | (Some a, s1) \<Rightarrow> set_fd i (occupied task_id a) s1)"

definition vfs_task_init :: "int \<Rightarrow> vfs \<Rightarrow> vfs" where
  "vfs_task_init task_id s =
     (if task_id < 0 \<or> task_id \<ge> int MAX_TASKS then s
      else install_tty_locked (nat task_id) 2 wronly
             (install_tty_locked (nat task_id) 1 wronly (install_tty_locked (nat task_id) 0 rdonly s)))"

section \<open>Opening and closing\<close>

text \<open>The vnode an open refers to: found, created, or truncated.\<close>

definition open_vnode :: "byte list \<Rightarrow> open_flags \<Rightarrow> kfs \<Rightarrow> vnode option \<times> kfs" where
  "open_vnode path flags k =
     (case kfs_walk_path path k of
        (Inl rc, k1) \<Rightarrow>
          if \<not> o_creat flags then (None, k1)
          else if rc = ENOTDIR \<or> rc = ENAMETOOLONG then (None, k1)
          else (case kfs_walk_parent path (KZFS_NAME_MAX + 1) k1 of
                  (Inl _, k2) \<Rightarrow> (None, k2)
                | (Inr (name, parent), k2) \<Rightarrow>
                    let (r, k3) = v4_create parent name k2;
                        (_, k4) = v4_release parent k3
                    in (case r of Inl _ \<Rightarrow> None | Inr v \<Rightarrow> Some v, k4))
      | (Inr vn, k1) \<Rightarrow>
          if o_trunc flags then
            (if v_type vn = V_DIR then (None, snd (v4_release vn k1))
             else let (_, vn1, k2) = v4_truncate vn 0 k1 in (Some vn1, k2))
          else (Some vn, k1))"

definition release_vnode :: "vnode \<Rightarrow> vfs \<Rightarrow> vfs" where
  "release_vnode v s = s\<lparr>fs := snd (v4_release v (fs s))\<rparr>"

definition vfs_open :: "int \<Rightarrow> byte list \<Rightarrow> open_flags \<Rightarrow> vfs \<Rightarrow> int \<times> vfs" where
  "vfs_open task_id path flags s =
     (if path = [] then (- 1, s)
      else if task_id < 0 \<or> task_id \<ge> int MAX_TASKS then (- 1, s)
      else
        let (v, k) = open_vnode path flags (fs s); s1 = s\<lparr>fs := k\<rparr> in
        case v of None \<Rightarrow> (- 1, s1)
        | Some vn \<Rightarrow>
            if v_type vn = V_DIR \<and> (o_wronly flags \<or> o_rdwr flags \<or> o_creat flags \<or> o_append flags)
            then (- 1, release_vnode vn s1)
            else
              let kind = (if v_type vn = V_DIR then KIND_DIR else KIND_FILE);
                  (d, s2) = open_alloc kind path (Some vn) (if o_append flags then u32 (v_size vn) else 0) flags s1
              in case d of None \<Rightarrow> (- 1, release_vnode vn s2)
                 | Some a \<Rightarrow>
                     (case alloc_fd (nat task_id) s2 of
                        None \<Rightarrow> (- 1, free_desc a (release_vnode vn s2))
                      | Some fd \<Rightarrow> (int fd, set_fd (nat task_id * VFS_MAX_FDS + fd) (occupied (nat task_id) a) s2)))"

definition vfs_close :: "int \<Rightarrow> int \<Rightarrow> vfs \<Rightarrow> int \<times> vfs" where
  "vfs_close task_id fd s =
     (case slot_of task_id fd of None \<Rightarrow> (- 1, s)
      | Some i \<Rightarrow>
          (case resolve_open task_id fd s of None \<Rightarrow> (- 1, s) | Some a \<Rightarrow> (0, open_put a (clear_fd i s))))"

fun close_slots :: "nat list \<Rightarrow> vfs \<Rightarrow> vfs" where
  "close_slots [] s = s"
| "close_slots (i # is) s =
     (case fd_open (fds s ! i) of
        Some a \<Rightarrow> if fd_used (fds s ! i) then close_slots is (open_put a (clear_fd i s)) else close_slots is s
      | None \<Rightarrow> close_slots is s)"

definition vfs_close_all :: "int \<Rightarrow> vfs \<Rightarrow> vfs" where
  "vfs_close_all task_id s =
     (if task_id < 0 \<or> task_id \<ge> int MAX_TASKS then s
      else close_slots (map (\<lambda>i. nat task_id * VFS_MAX_FDS + i) [0..<VFS_MAX_FDS]) s)"

definition vfs_dup :: "int \<Rightarrow> int \<Rightarrow> vfs \<Rightarrow> int \<times> vfs" where
  "vfs_dup task_id oldfd s =
     (if task_id < 0 \<or> task_id \<ge> int MAX_TASKS then (- 1, s)
      else case resolve_open task_id oldfd s of None \<Rightarrow> (- 1, s)
        | Some a \<Rightarrow>
            (case alloc_fd (nat task_id) s of None \<Rightarrow> (- 1, s)
             | Some nfd \<Rightarrow> (int nfd, install_locked (nat task_id) nfd a s)))"

definition vfs_dup2 :: "int \<Rightarrow> int \<Rightarrow> int \<Rightarrow> vfs \<Rightarrow> int \<times> vfs" where
  "vfs_dup2 task_id oldfd newfd s =
     (if task_id < 0 \<or> task_id \<ge> int MAX_TASKS then (- 1, s)
      else if newfd < 0 \<or> newfd \<ge> int VFS_MAX_FDS then (- 1, s)
      else case resolve_open task_id oldfd s of None \<Rightarrow> (- 1, s)
        | Some src \<Rightarrow>
            if oldfd = newfd then (newfd, s)
            else
              let i = nat task_id * VFS_MAX_FDS + nat newfd;
                  s1 = open_get src s;
                  s2 = (case fd_open (fds s1 ! i) of
                          Some old \<Rightarrow> if fd_used (fds s1 ! i) then open_put old (clear_fd i s1) else s1
                        | None \<Rightarrow> s1)
              in (newfd, set_fd i (occupied (nat task_id) src) s2))"

section \<open>Pipes\<close>

datatype io = Ret int "byte list" | Waiting | Killed

type_synonym others = "vfs \<Rightarrow> vfs \<times> bool"

fun pipe_out :: "nat \<Rightarrow> vfs_pipe \<Rightarrow> byte list \<times> vfs_pipe" where
  "pipe_out 0 q = ([], q)"
| "pipe_out (Suc n) q =
     (let (bs, q') = pipe_out n (q\<lparr>p_rpos := (p_rpos q + 1) mod VFS_PIPE_CAP\<rparr>) in (p_buf q ! p_rpos q # bs, q'))"

fun pipe_in :: "byte list \<Rightarrow> vfs_pipe \<Rightarrow> vfs_pipe" where
  "pipe_in [] q = q"
| "pipe_in (b # bs) q = pipe_in bs (q\<lparr>p_buf := (p_buf q)[p_wpos q := b], p_wpos := (p_wpos q + 1) mod VFS_PIPE_CAP\<rparr>)"

definition pipe_take :: "nat \<Rightarrow> vfs_pipe \<Rightarrow> byte list \<times> vfs_pipe" where
  "pipe_take count q =
     (let n = (if count < p_used q then count else p_used q); (bs, q1) = pipe_out n q
      in (bs, q1\<lparr>p_used := p_used q1 - n\<rparr>))"

definition pipe_give :: "byte list \<Rightarrow> vfs_pipe \<Rightarrow> nat \<times> vfs_pipe" where
  "pipe_give bs q =
     (let room = VFS_PIPE_CAP - p_used q; n = (if length bs < room then length bs else room); q1 = pipe_in (take n bs) q
      in (n, q1\<lparr>p_used := p_used q1 + n\<rparr>))"

fun pipe_read :: "nat \<Rightarrow> nat \<Rightarrow> others list \<Rightarrow> vfs \<Rightarrow> io \<times> vfs" where
  "pipe_read p count envs s =
     (let q = the (pipes s p) in
      if p_used q > 0 then
        let (bs, q1) = pipe_take count q in (Ret (int (length bs)) bs, s\<lparr>pipes := (pipes s)(p \<mapsto> q1)\<rparr>)
      else if p_writers q = 0 then (Ret 0 [], s)
      else case envs of [] \<Rightarrow> (Waiting, s)
        | e # es \<Rightarrow> let (s1, killed) = e s in if killed then (Killed, s1) else pipe_read p count es s1)"

fun pipe_write :: "nat \<Rightarrow> byte list \<Rightarrow> others list \<Rightarrow> vfs \<Rightarrow> io \<times> vfs" where
  "pipe_write p bs envs s =
     (let q = the (pipes s p) in
      if p_readers q = 0 then (Ret (- 1) [], s)
      else if p_used q < VFS_PIPE_CAP then
        let (n, q1) = pipe_give bs q in (Ret (int n) [], s\<lparr>pipes := (pipes s)(p \<mapsto> q1)\<rparr>)
      else case envs of [] \<Rightarrow> (Waiting, s)
        | e # es \<Rightarrow> let (s1, killed) = e s in if killed then (Killed, s1) else pipe_write p bs es s1)"

declare pipe_read.simps [simp del]
declare pipe_write.simps [simp del]

text \<open>A pipe operation holds a reference on its description while it waits; a killed task drops it on its way out.\<close>

definition pinned :: "nat \<Rightarrow> (nat \<Rightarrow> vfs \<Rightarrow> io \<times> vfs) \<Rightarrow> vfs \<Rightarrow> io \<times> vfs" where
  "pinned a f s =
     (case of_pipe (desc a s) of
        None \<Rightarrow> (Ret (- 1) [], s)
      | Some p \<Rightarrow>
          let (r, s1) = f p (open_get a s)
          in (r, case r of Waiting \<Rightarrow> s1 | _ \<Rightarrow> open_put a s1))"

section \<open>Reading and writing\<close>

definition IO_MAX :: nat where "IO_MAX = 1073741824"

text \<open>Descriptors 0, 1 and 2 reach the console even when they were never installed.\<close>

definition implicit_stdio :: "int \<Rightarrow> int \<Rightarrow> vfs \<Rightarrow> bool" where
  "implicit_stdio task_id fd s =
     (case slot_of task_id fd of None \<Rightarrow> False | Some i \<Rightarrow> \<not> fd_used (fds s ! i))"

definition tty_get :: "(nat \<Rightarrow> byte list) option \<Rightarrow> nat \<Rightarrow> io" where
  "tty_get tty count =
     (if count = 0 then Ret 0 []
      else case tty of None \<Rightarrow> Ret (- 1) [] | Some f \<Rightarrow> Ret (int (length (f count))) (f count))"

definition tty_put :: "(byte list \<Rightarrow> nat) option \<Rightarrow> byte list \<Rightarrow> io" where
  "tty_put tty bs =
     (if bs = [] then Ret 0 []
      else case tty of None \<Rightarrow> Ret (- 1) [] | Some f \<Rightarrow> Ret (int (f bs)) [])"

definition file_read :: "nat \<Rightarrow> nat \<Rightarrow> vfs \<Rightarrow> io \<times> vfs" where
  "file_read a count s =
     (case of_vnode (desc a s) of
        None \<Rightarrow> (Ret (- 1) [], s)
      | Some v \<Rightarrow>
          let (rc, bs, k) = v4_read v (of_pos (desc a s)) (min count IO_MAX) (fs s);
              got = (if rc = EOK then length bs else 0);
              s1 = set_open a ((desc a s)\<lparr>of_pos := u32 (of_pos (desc a s) + u32 got)\<rparr>) (s\<lparr>fs := k\<rparr>)
          in if rc \<noteq> EOK \<and> got = 0 then (Ret (- 1) [], s1) else (Ret (int got) bs, s1))"

definition file_write :: "nat \<Rightarrow> byte list \<Rightarrow> vfs \<Rightarrow> io \<times> vfs" where
  "file_write a bs s =
     (case of_vnode (desc a s) of
        None \<Rightarrow> (Ret (- 1) [], s)
      | Some v \<Rightarrow>
          let pos = (if o_append (of_flags (desc a s)) then u32 (v_size v) else of_pos (desc a s));
              (rc, w, v1, k) = v4_write v pos (take IO_MAX bs) (fs s);
              wrote = (if rc = EOK then w else 0);
              s1 = set_open a ((desc a s)\<lparr>of_vnode := Some v1, of_pos := u32 (pos + u32 wrote)\<rparr>) (s\<lparr>fs := k\<rparr>)
          in if rc \<noteq> EOK \<and> wrote = 0 then (Ret (- 1) [], s1) else (Ret (int wrote) [], s1))"

definition vfs_read :: "(nat \<Rightarrow> byte list) option \<Rightarrow> int \<Rightarrow> int \<Rightarrow> nat \<Rightarrow> others list \<Rightarrow> vfs \<Rightarrow> io \<times> vfs" where
  "vfs_read tty task_id fd count envs s =
     (case resolve_open task_id fd s of
        None \<Rightarrow>
          if 0 \<le> fd \<and> fd \<le> 2 \<and> implicit_stdio task_id fd s then
            (if fd \<noteq> 0 then Ret (- 1) [] else tty_get tty count, s)
          else (Ret (- 1) [], s)
      | Some a \<Rightarrow>
          if o_wronly (of_flags (desc a s)) then (Ret (- 1) [], s)
          else case of_kind (desc a s) of
                 KIND_PIPE_READ \<Rightarrow>
                   if count = 0 then (Ret 0 [], s) else pinned a (\<lambda>p. pipe_read p count envs) s
               | KIND_TTY \<Rightarrow> if fd \<noteq> 0 then (Ret (- 1) [], s) else (tty_get tty count, open_put a (open_get a s))
               | KIND_FILE \<Rightarrow> file_read a count s
               | _ \<Rightarrow> (Ret (- 1) [], s))"

definition vfs_write :: "(byte list \<Rightarrow> nat) option \<Rightarrow> int \<Rightarrow> int \<Rightarrow> byte list \<Rightarrow> others list \<Rightarrow> vfs \<Rightarrow> io \<times> vfs" where
  "vfs_write tty task_id fd bs envs s =
     (case resolve_open task_id fd s of
        None \<Rightarrow>
          if 0 \<le> fd \<and> fd \<le> 2 \<and> implicit_stdio task_id fd s then
            (if fd = 0 then Ret (- 1) [] else tty_put tty bs, s)
          else (Ret (- 1) [], s)
      | Some a \<Rightarrow>
          if \<not> (o_wronly (of_flags (desc a s)) \<or> o_rdwr (of_flags (desc a s))) then (Ret (- 1) [], s)
          else case of_kind (desc a s) of
                 KIND_PIPE_WRITE \<Rightarrow>
                   if bs = [] then (Ret 0 [], s) else pinned a (\<lambda>p. pipe_write p bs envs) s
               | KIND_TTY \<Rightarrow> if fd = 0 then (Ret (- 1) [], s) else (tty_put tty bs, open_put a (open_get a s))
               | KIND_FILE \<Rightarrow> file_write a bs s
               | _ \<Rightarrow> (Ret (- 1) [], s))"

definition vfs_readdir :: "int \<Rightarrow> int \<Rightarrow> nat \<Rightarrow> nat \<Rightarrow> vfs \<Rightarrow> (byte list \<times> bool) option \<times> vfs" where
  "vfs_readdir task_id fd index cap s =
     (if cap = 0 then (None, s)
      else case resolve_open task_id fd s of None \<Rightarrow> (None, s)
        | Some a \<Rightarrow>
            if of_kind (desc a s) \<noteq> KIND_DIR then (None, s)
            else case of_vnode (desc a s) of None \<Rightarrow> (None, s)
              | Some v \<Rightarrow>
                  let (r, k) = v4_readdir v index cap (fs s)
                  in (case r of Inl _ \<Rightarrow> None | Inr (nm, ty) \<Rightarrow> Some (nm, ty = 2), s\<lparr>fs := k\<rparr>))"

datatype seek = SEEK_SET | SEEK_CUR | SEEK_END

definition vfs_lseek :: "int \<Rightarrow> int \<Rightarrow> int \<Rightarrow> seek \<Rightarrow> vfs \<Rightarrow> int \<times> vfs" where
  "vfs_lseek task_id fd offset whence s =
     (case resolve_open task_id fd s of None \<Rightarrow> (- 1, s)
      | Some a \<Rightarrow>
          if of_kind (desc a s) \<noteq> KIND_FILE then (- 1, s)
          else
            let base = (case whence of SEEK_CUR \<Rightarrow> int (of_pos (desc a s))
                        | SEEK_END \<Rightarrow> (case of_vnode (desc a s) of None \<Rightarrow> 0 | Some v \<Rightarrow> int (v_size v))
                        | SEEK_SET \<Rightarrow> 0);
                np = base + offset
            in if np < 0 \<or> np > 4294967295 then (- 1, s)
               else (s32 np, set_open a ((desc a s)\<lparr>of_pos := nat np\<rparr>) s))"

section \<open>Making a pipe\<close>

definition new_pipe :: vfs_pipe where
  "new_pipe = \<lparr>p_buf = replicate VFS_PIPE_CAP 0, p_rpos = 0, p_wpos = 0, p_used = 0, p_readers = 1, p_writers = 1\<rparr>"

text \<open>The two ends with their pipe, or nothing when memory runs out half way.\<close>

definition pipe_alloc :: "vfs \<Rightarrow> (nat \<times> nat \<times> nat) option \<times> vfs" where
  "pipe_alloc s =
     (let (ok1, s1) = kmalloc_v 240 s; (ok2, s2) = kmalloc_v VFS_PIPE_CAP s1 in
      if \<not> (ok1 \<and> ok2) then (None, s2)
      else case open_alloc KIND_PIPE_READ [112, 105, 112, 101] None 0 rdonly s2 of
             (None, s3) \<Rightarrow> (None, s3)
           | (Some ro, s3) \<Rightarrow>
               (case open_alloc KIND_PIPE_WRITE [112, 105, 112, 101] None 0 wronly s3 of
                  (None, s4) \<Rightarrow> (None, free_desc ro s4)
                | (Some wo, s4) \<Rightarrow>
                    let p = fresh s4;
                        s5 = s4\<lparr>pipes := (pipes s4)(p \<mapsto> new_pipe), fresh := p + 1\<rparr>;
                        s6 = set_open ro ((desc ro s5)\<lparr>of_pipe := Some p\<rparr>) s5
                    in (Some (ro, wo, p), set_open wo ((desc wo s6)\<lparr>of_pipe := Some p\<rparr>) s6)))"

definition vfs_pipe_fds :: "int \<Rightarrow> vfs \<Rightarrow> (nat \<times> nat) option \<times> vfs" where
  "vfs_pipe_fds task_id s =
     (if task_id < 0 \<or> task_id \<ge> int MAX_TASKS then (None, s)
      else case pipe_alloc s of
             (None, s1) \<Rightarrow> (None, s1)
           | (Some (ro, wo, p), s1) \<Rightarrow>
               let base = nat task_id * VFS_MAX_FDS in
               case filter (\<lambda>i. \<not> fd_used (fds s1 ! (base + i))) [0..<VFS_MAX_FDS] of
                 rfd # wfd # _ \<Rightarrow>
                   (Some (rfd, wfd),
                    set_fd (base + wfd) (occupied (nat task_id) wo) (set_fd (base + rfd) (occupied (nat task_id) ro) s1))
               | _ \<Rightarrow> (None, (free_desc ro (free_desc wo s1))\<lparr>pipes := (pipes s1)(p := None)\<rparr>))"

section \<open>Inheritance\<close>

fun inherit_loop :: "nat list \<Rightarrow> int \<Rightarrow> int \<Rightarrow> (nat \<Rightarrow> int) \<Rightarrow> vfs \<Rightarrow> int \<times> vfs" where
  "inherit_loop [] child parent spec s = (0, s)"
| "inherit_loop (i # is) child parent spec s =
     (if spec i < 0 then inherit_loop is child parent spec s
      else case resolve_open parent (spec i) s of None \<Rightarrow> (- 1, s)
        | Some src \<Rightarrow>
            (case resolve_open child (int i) s of None \<Rightarrow> (- 1, s)
             | Some old \<Rightarrow>
                 let c = nat child * VFS_MAX_FDS + i;
                     s1 = open_get src s;
                     s2 = set_fd c ((fds s1 ! c)\<lparr>fd_open := Some src, fd_flags := 0\<rparr>) s1
                 in inherit_loop is child parent spec (open_put old s2)))"

definition vfs_inherit_stdio :: "int \<Rightarrow> int \<Rightarrow> (nat \<Rightarrow> int) \<Rightarrow> vfs \<Rightarrow> int \<times> vfs" where
  "vfs_inherit_stdio child parent spec s =
     (if child < 0 \<or> child \<ge> int MAX_TASKS \<or> parent < 0 \<or> parent \<ge> int MAX_TASKS then (- 1, s)
      else if child = parent then (- 1, s)
      else inherit_loop [0, 1, 2] child parent spec s)"

definition fork_one :: "nat \<Rightarrow> nat \<Rightarrow> nat \<Rightarrow> vfs \<Rightarrow> vfs" where
  "fork_one child parent i s =
     (let e = fds s ! (parent * VFS_MAX_FDS + i) in
      case fd_open e of
        Some a \<Rightarrow>
          if fd_used e \<and> fd_owner e = parent
          then set_fd (child * VFS_MAX_FDS + i) ((occupied child a)\<lparr>fd_flags := fd_flags e\<rparr>) (open_get a s) else s
      | None \<Rightarrow> s)"

definition vfs_fork_inherit :: "int \<Rightarrow> int \<Rightarrow> vfs \<Rightarrow> int \<times> vfs" where
  "vfs_fork_inherit child parent s =
     (if child < 0 \<or> child \<ge> int MAX_TASKS \<or> parent < 0 \<or> parent \<ge> int MAX_TASKS then (- 1, s)
      else if child = parent then (- 1, s)
      else if list_ex (\<lambda>i. fd_used (fds s ! (nat child * VFS_MAX_FDS + i))) [0..<VFS_MAX_FDS] then (- 1, s)
      else (0, fold (fork_one (nat child) (nat parent)) [0..<VFS_MAX_FDS] s))"

end
