(* ===== verification/Vfs_Inv.thy ===== *)
theory Vfs_Inv
  imports Vfs_Fd
begin

text \<open>
  Invariants of the descriptor table: reference counts are exact, descriptions are well typed, and pipes are
  first-in-first-out.

  The proofs account for references held outside the table with a function \<open>pins\<close>: taking a reference adds a
  pin, installing a descriptor turns a pin into an entry, clearing an entry turns it back, and dropping a
  reference removes a pin.  Every operation is a sequence of these moves.
\<close>

section \<open>Exact reference counts\<close>

definition refers :: "nat \<Rightarrow> fd_entry \<Rightarrow> bool" where
  "refers a e \<longleftrightarrow> fd_used e \<and> fd_open e = Some a"

definition fdrefs :: "vfs \<Rightarrow> nat \<Rightarrow> nat" where
  "fdrefs s a = length (filter (refers a) (fds s))"

definition table_ok :: "vfs \<Rightarrow> bool" where
  "table_ok s \<longleftrightarrow> length (fds s) = MAX_TASKS * VFS_MAX_FDS
     \<and> (\<forall>i < length (fds s). fd_used (fds s ! i) \<longrightarrow> fd_owner (fds s ! i) = i div VFS_MAX_FDS \<and> fd_open (fds s ! i) \<noteq> None)"

definition counts_ok :: "(nat \<Rightarrow> nat) \<Rightarrow> vfs \<Rightarrow> bool" where
  "counts_ok pins s \<longleftrightarrow> (\<forall>a. case opens s a of None \<Rightarrow> fdrefs s a = 0 \<and> pins a = 0
     | Some d \<Rightarrow> of_refcount d = fdrefs s a + pins a \<and> 0 < of_refcount d)"

lemma filter_update:
  assumes "i < length xs"
  shows "length (filter P (xs[i := x])) + (if P (xs ! i) then 1 else 0) = length (filter P xs) + (if P x then 1 else 0)"
  using assms
proof (induction xs arbitrary: i)
  case (Cons y ys)
  then show ?case by (cases i) auto
qed simp

lemma fdrefs_set_fd:
  assumes "i < length (fds s)"
  shows "fdrefs (set_fd i e s) a + (if refers a (fds s ! i) then 1 else 0) = fdrefs s a + (if refers a e then 1 else 0)"
  using filter_update [OF assms, of "refers a" e] by (simp add: fdrefs_def set_fd_def)

lemma fdrefs_frame [simp]:
  "fdrefs (s\<lparr>opens := x\<rparr>) = fdrefs s" "fdrefs (s\<lparr>pipes := y\<rparr>) = fdrefs s" "fdrefs (s\<lparr>fs := k\<rparr>) = fdrefs s"
  "fdrefs (s\<lparr>fresh := n\<rparr>) = fdrefs s"
  by (simp_all add: fdrefs_def fun_eq_iff)

lemma fdrefs_bound: "table_ok s \<Longrightarrow> fdrefs s a \<le> 256"
  using length_filter_le [of "refers a" "fds s"] by (simp add: fdrefs_def table_ok_def MAX_TASKS_def VFS_MAX_FDS_def)

lemma table_frame [simp]:
  "table_ok (s\<lparr>opens := x\<rparr>) = table_ok s" "table_ok (s\<lparr>pipes := y\<rparr>) = table_ok s" "table_ok (s\<lparr>fs := k\<rparr>) = table_ok s"
  "table_ok (s\<lparr>fresh := n\<rparr>) = table_ok s"
  by (simp_all add: table_ok_def)

lemma counts_frame [simp]: "counts_ok pins (s\<lparr>pipes := y\<rparr>) = counts_ok pins s" "counts_ok pins (s\<lparr>fs := k\<rparr>) = counts_ok pins s"
  "counts_ok pins (s\<lparr>fresh := n\<rparr>) = counts_ok pins s"
  by (simp_all add: counts_ok_def cong: option.case_cong)

lemma table_set_fd:
  assumes "table_ok s" and "fd_used e \<Longrightarrow> fd_owner e = i div VFS_MAX_FDS \<and> fd_open e \<noteq> None"
  shows "table_ok (set_fd i e s)"
  unfolding table_ok_def
proof (intro conjI allI impI)
  show "length (fds (set_fd i e s)) = MAX_TASKS * VFS_MAX_FDS" using assms(1) by (simp add: table_ok_def set_fd_def)
next
  fix j assume j: "j < length (fds (set_fd i e s))" "fd_used (fds (set_fd i e s) ! j)"
  then show "fd_owner (fds (set_fd i e s) ! j) = j div VFS_MAX_FDS" and "fd_open (fds (set_fd i e s) ! j) \<noteq> None"
    using assms by (cases "i = j"; simp add: table_ok_def set_fd_def)+
qed

lemma slot_of_less: "slot_of t fd = Some i \<Longrightarrow> i < MAX_TASKS * VFS_MAX_FDS \<and> i div VFS_MAX_FDS = nat t"
  by (auto simp: slot_of_def MAX_TASKS_def VFS_MAX_FDS_def split: if_splits)

section \<open>Pipe buffers\<close>

definition pipe_wf :: "vfs_pipe \<Rightarrow> bool" where
  "pipe_wf q \<longleftrightarrow> length (p_buf q) = VFS_PIPE_CAP \<and> p_rpos q < VFS_PIPE_CAP \<and> p_used q \<le> VFS_PIPE_CAP
     \<and> p_wpos q = (p_rpos q + p_used q) mod VFS_PIPE_CAP"

definition pipe_bytes :: "vfs_pipe \<Rightarrow> byte list" where
  "pipe_bytes q = ring_items (p_buf q) (p_rpos q) (p_used q)"

lemma pipe_out_frame: "pipe_out n q = (bs, q1) \<Longrightarrow> p_readers q1 = p_readers q \<and> p_writers q1 = p_writers q \<and> p_used q1 = p_used q \<and> p_wpos q1 = p_wpos q \<and> p_buf q1 = p_buf q"
  by (induction n arbitrary: q bs q1) (fastforce simp: Let_def split: prod.splits)+

lemma pipe_in_frame: "p_readers (pipe_in bs q) = p_readers q \<and> p_writers (pipe_in bs q) = p_writers q \<and> p_used (pipe_in bs q) = p_used q \<and> p_rpos (pipe_in bs q) = p_rpos q"
  by (induction bs arbitrary: q) simp_all

lemma pipe_out_ring:
  assumes "pipe_out n q = (bs, q1)" "length (p_buf q) = VFS_PIPE_CAP" "p_rpos q < VFS_PIPE_CAP"
  shows "ring_items (p_buf q) (p_rpos q) (n + m) = bs @ ring_items (p_buf q) (p_rpos q1) m \<and> length bs = n
    \<and> p_rpos q1 = (p_rpos q + n) mod VFS_PIPE_CAP"
  using assms
proof (induction n arbitrary: q bs q1)
  case (Suc n)
  obtain cs q2 where o: "pipe_out n (q\<lparr>p_rpos := (p_rpos q + 1) mod VFS_PIPE_CAP\<rparr>) = (cs, q2)" using prod.exhaust by blast
  then have bs: "bs = p_buf q ! p_rpos q # cs" "q1 = q2" using Suc.prems(1) by simp_all
  show ?case using Suc.IH [OF o] Suc.prems(2,3) bs ring_get [of "p_buf q" "p_rpos q" "n + m"]
    by (simp add: VFS_PIPE_CAP_def mod_simps)
qed simp

lemma pipe_in_ring:
  assumes "length (p_buf q) = VFS_PIPE_CAP" "p_wpos q = (p_rpos q + n) mod VFS_PIPE_CAP" "n + length bs \<le> VFS_PIPE_CAP"
  shows "ring_items (p_buf (pipe_in bs q)) (p_rpos q) (n + length bs) = ring_items (p_buf q) (p_rpos q) n @ bs
    \<and> length (p_buf (pipe_in bs q)) = VFS_PIPE_CAP \<and> p_wpos (pipe_in bs q) = (p_rpos q + (n + length bs)) mod VFS_PIPE_CAP"
  using assms
proof (induction bs arbitrary: q n)
  case (Cons b bs)
  define q1 where "q1 = q\<lparr>p_buf := (p_buf q)[p_wpos q := b], p_wpos := (p_wpos q + 1) mod VFS_PIPE_CAP\<rparr>"
  have "ring_items (p_buf q1) (p_rpos q) (Suc n) = ring_items (p_buf q) (p_rpos q) n @ [b]"
    using ring_put [of n "p_buf q" "p_rpos q" b] Cons.prems by (simp add: q1_def)
  moreover have "length (p_buf q1) = VFS_PIPE_CAP" "p_wpos q1 = (p_rpos q1 + Suc n) mod VFS_PIPE_CAP" "p_rpos q1 = p_rpos q"
    using Cons.prems by (simp_all add: q1_def mod_simps)
  moreover have "pipe_in (b # bs) q = pipe_in bs q1" by (simp add: q1_def)
  ultimately show ?case using Cons.IH [of q1 "Suc n"] Cons.prems(3) by simp
qed simp

lemma pipe_take_spec:
  assumes q: "pipe_wf q" and t: "pipe_take n q = (bs, q1)"
  shows "bs = take n (pipe_bytes q)" "pipe_bytes q1 = drop n (pipe_bytes q)" "pipe_wf q1"
    "p_readers q1 = p_readers q" "p_writers q1 = p_writers q"
proof -
  define m where "m = min n (p_used q)"
  obtain cs q2 where o: "pipe_out m q = (cs, q2)" using prod.exhaust by blast
  then have e: "bs = cs" "q1 = q2\<lparr>p_used := p_used q - m\<rparr>"
    using t pipe_out_frame [OF o] by (auto simp: pipe_take_def m_def min_def Let_def split: prod.splits if_splits)
  note f = pipe_out_frame [OF o]
  have r: "pipe_bytes q = bs @ pipe_bytes q1" "length bs = m" "p_rpos q1 = (p_rpos q + m) mod VFS_PIPE_CAP"
    using pipe_out_ring [OF o, of "p_used q - m"] q f by (simp_all add: e pipe_bytes_def pipe_wf_def m_def)
  have len: "length (pipe_bytes q) = p_used q" by (simp add: pipe_bytes_def)
  have "take n (pipe_bytes q) = take m (pipe_bytes q)" "drop n (pipe_bytes q) = drop m (pipe_bytes q)"
    using len by (simp_all add: m_def min_def)
  then show "bs = take n (pipe_bytes q)" "pipe_bytes q1 = drop n (pipe_bytes q)" using r(1,2) by simp_all
  have "m \<le> p_used q" by (simp add: m_def)
  moreover have "((p_rpos q + m) mod VFS_PIPE_CAP + (p_used q - m)) mod VFS_PIPE_CAP = (p_rpos q + m + (p_used q - m)) mod VFS_PIPE_CAP"
    by (simp only: mod_simps)
  ultimately show "pipe_wf q1" using q f r(3) by (auto simp: pipe_wf_def e VFS_PIPE_CAP_def)
  show "p_readers q1 = p_readers q" "p_writers q1 = p_writers q" using f by (simp_all add: e)
qed

lemma pipe_give_spec:
  assumes q: "pipe_wf q" and t: "pipe_give bs q = (n, q1)"
  shows "n = min (length bs) (VFS_PIPE_CAP - length (pipe_bytes q))" "pipe_bytes q1 = pipe_bytes q @ take n bs" "pipe_wf q1"
    "p_readers q1 = p_readers q" "p_writers q1 = p_writers q"
proof -
  have n: "n = min (length bs) (VFS_PIPE_CAP - p_used q)" "q1 = (pipe_in (take n bs) q)\<lparr>p_used := p_used q + n\<rparr>"
    using t pipe_in_frame [of "take n bs" q] by (auto simp: pipe_give_def Let_def min_def split: if_splits)
  have l: "length (take n bs) = n" "p_used q + n \<le> VFS_PIPE_CAP" using n(1) q unfolding pipe_wf_def by auto
  note r = pipe_in_ring [of q "p_used q" "take n bs"] pipe_in_frame [of "take n bs" q]
  show "n = min (length bs) (VFS_PIPE_CAP - length (pipe_bytes q))" using n by (simp add: pipe_bytes_def)
  show "pipe_bytes q1 = pipe_bytes q @ take n bs" "pipe_wf q1" using r q l by (simp_all add: n(2) pipe_bytes_def pipe_wf_def)
  show "p_readers q1 = p_readers q" "p_writers q1 = p_writers q" using r by (simp_all add: n(2))
qed

section \<open>Well-typed descriptions\<close>

text \<open>The payload of a description fits its kind; a pipe end sees its pipe with its own side open.\<close>

definition desc_ok :: "(nat \<Rightarrow> vfs_pipe option) \<Rightarrow> vfs_open_file \<Rightarrow> bool" where
  "desc_ok ps d =
     (case of_kind d of
        KIND_FILE \<Rightarrow> of_pipe d = None \<and> (\<exists>v. of_vnode d = Some v \<and> v_type v \<noteq> V_DIR)
      | KIND_DIR \<Rightarrow> of_pipe d = None \<and> (\<exists>v. of_vnode d = Some v \<and> v_type v = V_DIR)
      | KIND_TTY \<Rightarrow> of_pipe d = None \<and> of_vnode d = None
      | KIND_PIPE_READ \<Rightarrow> of_vnode d = None \<and> of_flags d = rdonly
          \<and> (\<exists>p q. of_pipe d = Some p \<and> ps p = Some q \<and> p_readers q = 1)
      | KIND_PIPE_WRITE \<Rightarrow> of_vnode d = None \<and> of_flags d = wronly
          \<and> (\<exists>p q. of_pipe d = Some p \<and> ps p = Some q \<and> p_writers q = 1))"

definition typed :: "vfs \<Rightarrow> bool" where
  "typed s \<longleftrightarrow> (\<forall>a d. opens s a = Some d \<longrightarrow> desc_ok (pipes s) d)
     \<and> (\<forall>a b d e p. opens s a = Some d \<longrightarrow> opens s b = Some e \<longrightarrow> of_pipe d = Some p \<longrightarrow> of_pipe e = Some p
          \<longrightarrow> of_kind d = of_kind e \<longrightarrow> a = b)
     \<and> (\<forall>a \<ge> fresh s. opens s a = None \<and> pipes s a = None)
     \<and> (\<forall>p q. pipes s p = Some q \<longrightarrow> pipe_wf q)"

definition vfs_inv :: "(nat \<Rightarrow> nat) \<Rightarrow> vfs \<Rightarrow> bool" where
  "vfs_inv pins s \<longleftrightarrow> table_ok s \<and> counts_ok pins s \<and> typed s"

lemma typedD:
  assumes "typed s"
  shows "opens s a = Some d \<Longrightarrow> desc_ok (pipes s) d"
    and "opens s a = Some d \<Longrightarrow> opens s b = Some e \<Longrightarrow> of_pipe d = Some p \<Longrightarrow> of_pipe e = Some p \<Longrightarrow> of_kind d = of_kind e \<Longrightarrow> a = b"
    and "fresh s \<le> a \<Longrightarrow> opens s a = None" "fresh s \<le> a \<Longrightarrow> pipes s a = None"
    and "pipes s p = Some q \<Longrightarrow> pipe_wf q"
  using assms unfolding typed_def by blast+

lemma typedI:
  assumes "\<And>a d. opens s a = Some d \<Longrightarrow> desc_ok (pipes s) d"
    and "\<And>a b d e p. opens s a = Some d \<Longrightarrow> opens s b = Some e \<Longrightarrow> of_pipe d = Some p \<Longrightarrow> of_pipe e = Some p \<Longrightarrow> of_kind d = of_kind e \<Longrightarrow> a = b"
    and "\<And>a. fresh s \<le> a \<Longrightarrow> opens s a = None \<and> pipes s a = None"
    and "\<And>p q. pipes s p = Some q \<Longrightarrow> pipe_wf q"
  shows "typed s"
  unfolding typed_def using assms by blast

lemma typed_frame [simp]: "typed (s\<lparr>fs := k\<rparr>) = typed s" "typed (set_fd i e s) = typed s"
  by (simp_all add: typed_def set_fd_def)

lemma desc_ok_fields [simp]:
  "desc_ok ps (d\<lparr>of_refcount := n\<rparr>) = desc_ok ps d" "desc_ok ps (d\<lparr>of_pos := m\<rparr>) = desc_ok ps d"
  by (simp_all add: desc_ok_def split: vfs_kind.splits)

text \<open>Changing a description without its identity.\<close>

lemma typed_set_open:
  assumes t: "typed s" and d: "opens s a = Some d" and e: "desc_ok (pipes s) e" "of_pipe e = of_pipe d" "of_kind e = of_kind d"
  shows "typed (set_open a e s)"
proof (rule typedI)
  fix x y assume "opens (set_open a e s) x = Some y"
  then show "desc_ok (pipes (set_open a e s)) y"
    using typedD(1) [OF t] e(1) by (auto simp: set_open_def split: if_splits)
next
  fix x y f g p
  assume "opens (set_open a e s) x = Some f" "opens (set_open a e s) y = Some g" "of_pipe f = Some p" "of_pipe g = Some p"
    "of_kind f = of_kind g"
  moreover define old where "old z h = (if z = a then d else h)" for z h
  ultimately have "opens s x = Some (old x f)" "opens s y = Some (old y g)" "of_pipe (old x f) = Some p"
    "of_pipe (old y g) = Some p" "of_kind (old x f) = of_kind (old y g)"
    using d e(2,3) by (auto simp: set_open_def split: if_splits)
  then show "x = y" by (rule typedD(2) [OF t])
next
  fix x assume "fresh (set_open a e s) \<le> x"
  then have "fresh s \<le> x" by (simp add: set_open_def)
  then show "opens (set_open a e s) x = None \<and> pipes (set_open a e s) x = None"
    using typedD(3,4) [OF t] d by (auto simp: set_open_def)
qed (use typedD(5) [OF t] in \<open>simp add: set_open_def\<close>)


section \<open>Moving references\<close>

definition pin :: "nat \<Rightarrow> (nat \<Rightarrow> nat) \<Rightarrow> nat \<Rightarrow> nat" where
  "pin a pins = pins(a := pins a + 1)"

lemma pin_simps [simp]: "pin a pins a = pins a + 1" "b \<noteq> a \<Longrightarrow> pin a pins b = pins b"
  by (simp_all add: pin_def)

lemma pin_commute: "pin a (pin b pins) = pin b (pin a pins)"
  by (simp add: pin_def fun_eq_iff)

lemma countsD:
  assumes "counts_ok pins s"
  shows "opens s a = Some d \<Longrightarrow> of_refcount d = fdrefs s a + pins a"
    and "opens s a = Some d \<Longrightarrow> 0 < of_refcount d"
    and "opens s a = None \<Longrightarrow> fdrefs s a = 0" "opens s a = None \<Longrightarrow> pins a = 0"
  using assms [unfolded counts_ok_def, rule_format, of a] by auto

lemma countsI:
  assumes "\<And>a d. opens s a = Some d \<Longrightarrow> of_refcount d = fdrefs s a + pins a \<and> 0 < of_refcount d"
    and "\<And>a. opens s a = None \<Longrightarrow> fdrefs s a = 0 \<and> pins a = 0"
  shows "counts_ok pins s"
  unfolding counts_ok_def
proof
  fix a show "case opens s a of None \<Rightarrow> fdrefs s a = 0 \<and> pins a = 0
      | Some d \<Rightarrow> of_refcount d = fdrefs s a + pins a \<and> 0 < of_refcount d"
    using assms(1) [of a] assms(2) [of a] by (cases "opens s a") auto
qed

lemma inv_open_pinned: "vfs_inv (pin a pins) s \<Longrightarrow> \<exists>d. opens s a = Some d"
  using countsD(4) [of "pin a pins" s a] by (cases "opens s a") (simp_all add: vfs_inv_def)

lemma inv_entry_open:
  assumes "vfs_inv pins s" "i < MAX_TASKS * VFS_MAX_FDS" "fd_used (fds s ! i)" "fd_open (fds s ! i) = Some a"
  shows "\<exists>d. opens s a = Some d"
proof (cases "opens s a")
  case None
  then have "filter (refers a) (fds s) = []" using assms(1) countsD(3) [of pins s a] by (simp add: vfs_inv_def fdrefs_def)
  moreover have "fds s ! i \<in> set (fds s)" using assms(1,2) by (simp add: vfs_inv_def table_ok_def)
  ultimately show ?thesis using assms(3,4) by (auto simp: filter_empty_conv refers_def)
qed simp

lemma resolve_open_entry:
  assumes "resolve_open t fd s = Some a"
  obtains i where "slot_of t fd = Some i" "i < MAX_TASKS * VFS_MAX_FDS" "fd_used (fds s ! i)" "fd_open (fds s ! i) = Some a"
    "i div VFS_MAX_FDS = nat t" "0 \<le> t" "t < int MAX_TASKS"
  using assms slot_of_less [of t fd]
  by (auto simp: resolve_open_def slot_of_def split: option.splits if_splits)

lemma inv_resolved:
  assumes "vfs_inv pins s" "resolve_open t fd s = Some a"
  shows "\<exists>d. opens s a = Some d"
  using assms resolve_open_entry inv_entry_open by metis

lemma set_open_refcount:
  assumes inv: "vfs_inv pins s" and d: "opens s a = Some d" and n: "n = fdrefs s a + pins' a" "0 < n"
    and others: "\<And>b. b \<noteq> a \<Longrightarrow> pins' b = pins b"
  shows "vfs_inv pins' (set_open a (d\<lparr>of_refcount := n\<rparr>) s)"
proof -
  have t: "table_ok s" and c: "counts_ok pins s" and y: "typed s" using inv by (simp_all add: vfs_inv_def)
  have f: "fdrefs (set_open a e s) = fdrefs s" for e by (simp add: set_open_def)
  have "counts_ok pins' (set_open a (d\<lparr>of_refcount := n\<rparr>) s)"
  proof (rule countsI)
    fix b e assume "opens (set_open a (d\<lparr>of_refcount := n\<rparr>) s) b = Some e"
    then show "of_refcount e = fdrefs (set_open a (d\<lparr>of_refcount := n\<rparr>) s) b + pins' b \<and> 0 < of_refcount e"
      unfolding f using n others countsD(1,2) [OF c, of b] by (auto simp: set_open_def split: if_splits)
  next
    fix b assume "opens (set_open a (d\<lparr>of_refcount := n\<rparr>) s) b = None"
    then show "fdrefs (set_open a (d\<lparr>of_refcount := n\<rparr>) s) b = 0 \<and> pins' b = 0"
      unfolding f using others countsD(3,4) [OF c, of b] by (auto simp: set_open_def split: if_splits)
  qed
  moreover have "typed (set_open a (d\<lparr>of_refcount := n\<rparr>) s)"
    by (rule typed_set_open [OF y d]) (use typedD(1) [OF y d] in simp_all)
  ultimately show ?thesis using t by (simp add: vfs_inv_def set_open_def)
qed

lemma inv_get:
  assumes inv: "vfs_inv pins s" and d: "opens s a = Some d" and b: "pins a \<le> 1000"
  shows "vfs_inv (pin a pins) (open_get a s)"
proof -
  have "of_refcount d = fdrefs s a + pins a" and "fdrefs s a \<le> 256"
    using inv countsD(1) [of pins s a d] fdrefs_bound d by (simp_all add: vfs_inv_def)
  then have "u32 (of_refcount d + 1) = fdrefs s a + pin a pins a" using b by (simp add: u32_def)
  then show ?thesis unfolding open_get_def desc_def d option.sel
    by (rule set_open_refcount [OF inv d]) (use \<open>u32 _ = _\<close> in simp_all)
qed

lemma inv_install:
  assumes inv: "vfs_inv (pin a pins) s" and i: "i < MAX_TASKS * VFS_MAX_FDS" and free: "\<not> fd_used (fds s ! i)"
    and e: "fd_used e" "fd_owner e = i div VFS_MAX_FDS" "fd_open e = Some a"
  shows "vfs_inv pins (set_fd i e s)"
proof -
  have t: "table_ok s" and c: "counts_ok (pin a pins) s" and y: "typed s" using inv by (simp_all add: vfs_inv_def)
  have f: "fdrefs (set_fd i e s) b + pins b = fdrefs s b + pin a pins b" for b
    using fdrefs_set_fd [of i s e b] i t free e by (cases "b = a") (auto simp: table_ok_def refers_def)
  have o: "opens (set_fd i e s) = opens s" by (simp add: set_fd_def)
  have "counts_ok pins (set_fd i e s)"
    by (rule countsI; unfold o f) (use countsD [OF c] f in \<open>simp_all, (metis add_is_0)?\<close>)
  then show ?thesis using table_set_fd [OF t, of e i] e y by (simp add: vfs_inv_def)
qed

lemma inv_uninstall:
  assumes inv: "vfs_inv pins s" and i: "i < MAX_TASKS * VFS_MAX_FDS" and used: "fd_used (fds s ! i)" "fd_open (fds s ! i) = Some a"
    and e: "\<not> fd_used e"
  shows "vfs_inv (pin a pins) (set_fd i e s)"
proof -
  have t: "table_ok s" and c: "counts_ok pins s" and y: "typed s" using inv by (simp_all add: vfs_inv_def)
  have f: "fdrefs (set_fd i e s) b + pin a pins b = fdrefs s b + pins b" for b
    using fdrefs_set_fd [of i s e b] i t used e by (cases "b = a") (auto simp: table_ok_def refers_def)
  have o: "opens (set_fd i e s) = opens s" by (simp add: set_fd_def)
  have "counts_ok (pin a pins) (set_fd i e s)"
    by (rule countsI; unfold o f) (use countsD [OF c] f in \<open>simp_all, (metis add_is_0)?\<close>)
  then show ?thesis using table_set_fd [OF t, of e i] e y by (simp add: vfs_inv_def)
qed

lemma inv_clear:
  assumes "vfs_inv pins s" "i < MAX_TASKS * VFS_MAX_FDS" "fd_used (fds s ! i)" "fd_open (fds s ! i) = Some a"
  shows "vfs_inv (pin a pins) (clear_fd i s)"
  unfolding clear_fd_def by (rule inv_uninstall [OF assms]) simp

text \<open>Dropping the last reference.\<close>

lemma drop_payload_frame [simp]:
  "fds (drop_payload d s) = fds s" "opens (drop_payload d s) = opens s" "fresh (drop_payload d s) = fresh s"
  by (simp_all add: drop_payload_def pipe_end_closed_def Let_def split: option.split prod.split)

lemma drop_payload_refcount [simp]: "drop_payload (d\<lparr>of_refcount := n\<rparr>) s = drop_payload d s"
  by (simp add: drop_payload_def cong: option.case_cong)

lemma desc_ok_pipes:
  assumes "desc_ok ps e" and "\<And>p. of_pipe e = Some p \<Longrightarrow> ps' p = ps p"
  shows "desc_ok ps' e"
  using assms by (cases "of_kind e") (auto simp: desc_ok_def)

lemma drop_payload_pipes:
  assumes "typed s" "opens s a = Some d"
  shows "of_pipe d \<noteq> Some p \<Longrightarrow> pipes (drop_payload d s) p = pipes s p"
    and "\<And>q. pipes s p = Some q \<Longrightarrow> of_kind d = KIND_PIPE_READ \<Longrightarrow> p_writers q = 1 \<Longrightarrow> \<exists>r. pipes (drop_payload d s) p = Some r \<and> p_writers r = 1"
    and "\<And>q. pipes s p = Some q \<Longrightarrow> of_kind d = KIND_PIPE_WRITE \<Longrightarrow> p_readers q = 1 \<Longrightarrow> \<exists>r. pipes (drop_payload d s) p = Some r \<and> p_readers r = 1"
    and "pipes s p = None \<Longrightarrow> pipes (drop_payload d s) p = None"
    and "\<And>q. pipes (drop_payload d s) p = Some q \<Longrightarrow> pipe_wf q"
  using typedD(1) [OF assms] typedD(5) [OF assms(1)]
  by (auto simp: drop_payload_def pipe_end_closed_def Let_def desc_ok_def pipe_wf_def split: option.splits prod.splits if_splits)

lemma desc_ok_pipe_kind: "desc_ok ps e \<Longrightarrow> of_pipe e = Some p \<Longrightarrow> of_kind e = KIND_PIPE_READ \<or> of_kind e = KIND_PIPE_WRITE"
  by (cases "of_kind e") (simp_all add: desc_ok_def)

lemma typed_drop:
  assumes t: "typed s" and d: "opens s a = Some d"
  shows "typed ((drop_payload d s)\<lparr>opens := (opens s)(a := None)\<rparr>)"
proof (rule typedI)
  fix b e assume "opens ((drop_payload d s)\<lparr>opens := (opens s)(a := None)\<rparr>) b = Some e"
  then have e: "b \<noteq> a" "opens s b = Some e" by (auto split: if_splits)
  note ok = typedD(1) [OF t e(2)]
  have "desc_ok (pipes (drop_payload d s)) e"
  proof (cases "\<exists>p. of_pipe e = Some p \<and> of_pipe d = Some p")
    case True
    then obtain p where p: "of_pipe e = Some p" "of_pipe d = Some p" by blast
    have "of_kind e \<noteq> of_kind d" using typedD(2) [OF t e(2) d p] e(1) by blast
    then consider "of_kind d = KIND_PIPE_READ" "of_kind e = KIND_PIPE_WRITE" | "of_kind d = KIND_PIPE_WRITE" "of_kind e = KIND_PIPE_READ"
      using desc_ok_pipe_kind [OF ok p(1)] desc_ok_pipe_kind [OF typedD(1) [OF t d] p(2)] by metis
    then show ?thesis
      using ok drop_payload_pipes(2,3) [OF t d, of p] p by cases (auto simp: desc_ok_def)
  next
    case False
    then show ?thesis by (intro desc_ok_pipes [OF ok] drop_payload_pipes(1) [OF t d]) auto
  qed
  then show "desc_ok (pipes ((drop_payload d s)\<lparr>opens := (opens s)(a := None)\<rparr>)) e" by simp
next
  fix b c e f p
  assume "opens ((drop_payload d s)\<lparr>opens := (opens s)(a := None)\<rparr>) b = Some e" "opens ((drop_payload d s)\<lparr>opens := (opens s)(a := None)\<rparr>) c = Some f"
    "of_pipe e = Some p" "of_pipe f = Some p" "of_kind e = of_kind f"
  then show "b = c" using typedD(2) [OF t, of b e c f p] by (auto split: if_splits)
next
  fix b assume "fresh ((drop_payload d s)\<lparr>opens := (opens s)(a := None)\<rparr>) \<le> b"
  then show "opens ((drop_payload d s)\<lparr>opens := (opens s)(a := None)\<rparr>) b = None \<and> pipes ((drop_payload d s)\<lparr>opens := (opens s)(a := None)\<rparr>) b = None"
    using typedD(3,4) [OF t, of b] drop_payload_pipes(4) [OF t d] by simp
qed (use drop_payload_pipes(5) [OF t d] in simp)

lemma counts_remove:
  assumes c: "counts_ok (pin a pins) s" and z: "fdrefs s a = 0" "pins a = 0" and s': "fds s' = fds s" "opens s' = (opens s)(a := None)"
  shows "counts_ok pins s'"
proof -
  have f: "fdrefs s' = fdrefs s" using s'(1) by (simp add: fdrefs_def fun_eq_iff)
  show ?thesis
  proof (rule countsI)
    fix b e assume "opens s' b = Some e"
    then have "b \<noteq> a" "opens s b = Some e" using s'(2) by (auto split: if_splits)
    then show "of_refcount e = fdrefs s' b + pins b \<and> 0 < of_refcount e"
      using countsD(1,2) [OF c, of b e] f by simp
  next
    fix b assume "opens s' b = None"
    then show "fdrefs s' b = 0 \<and> pins b = 0"
      using countsD(3,4) [OF c, of b] f z s'(2) by (cases "b = a") simp_all
  qed
qed

lemma inv_put:
  assumes inv: "vfs_inv (pin a pins) s" and b: "pins a \<le> 1000"
  shows "vfs_inv pins (open_put a s)"
proof -
  obtain d where d: "opens s a = Some d" using inv_open_pinned [OF inv] by blast
  have t: "table_ok s" and c: "counts_ok (pin a pins) s" and y: "typed s" using inv by (simp_all add: vfs_inv_def)
  have "of_refcount d = fdrefs s a + pins a + 1" and "fdrefs s a \<le> 256"
    using countsD(1) [OF c d] fdrefs_bound [OF t] by simp_all
  then have n: "sub32 (of_refcount d) 1 = fdrefs s a + pins a" using b sub32_id [of 1 "of_refcount d"] by simp
  show ?thesis
  proof (cases "fdrefs s a + pins a = 0")
    case True
    then have "open_put a s = (drop_payload d s)\<lparr>opens := (opens s)(a := None)\<rparr>"
      using n d by (simp add: open_put_def desc_def)
    moreover have "counts_ok pins ((drop_payload d s)\<lparr>opens := (opens s)(a := None)\<rparr>)"
      by (rule counts_remove [OF c]) (use True in simp_all)
    ultimately show ?thesis using t typed_drop [OF y d] by (simp add: vfs_inv_def table_ok_def)
  next
    case False
    then have "open_put a s = set_open a (d\<lparr>of_refcount := fdrefs s a + pins a\<rparr>) s"
      using n d by (simp add: open_put_def desc_def Let_def)
    then show ?thesis using set_open_refcount [OF inv d, of "fdrefs s a + pins a" pins] False by simp
  qed
qed

text \<open>A new description starts with one pinned reference; one that was never installed can be thrown away.\<close>

lemma inv_fs [simp]: "vfs_inv pins (s\<lparr>fs := k\<rparr>) = vfs_inv pins s"
  by (simp add: vfs_inv_def)

lemma kmalloc_v_shape: "kmalloc_v n s = (ok, s') \<Longrightarrow> \<exists>k. s' = s\<lparr>fs := k\<rparr>"
  by (auto simp: kmalloc_v_def split: prod.splits)

lemma open_alloc_none: "open_alloc kind path v pos flags s = (None, s') \<Longrightarrow> \<exists>k. s' = s\<lparr>fs := k\<rparr>"
  using kmalloc_v_shape by (fastforce simp: open_alloc_def Let_def split: prod.splits if_splits)

lemma open_alloc_some:
  assumes "open_alloc kind path v pos flags s = (Some a, s')"
  shows "\<exists>k. a = fresh s \<and> s' = s\<lparr>fs := k, opens := (opens s)(a \<mapsto> \<lparr>of_refcount = 1, of_kind = kind, of_path = path_copy path,
           of_vnode = v, of_pos = pos, of_flags = flags, of_pipe = None\<rparr>), fresh := fresh s + 1\<rparr>"
proof -
  obtain ok s1 where k: "kmalloc_v 80 s = (ok, s1)" using prod.exhaust by blast
  then obtain k where "s1 = s\<lparr>fs := k\<rparr>" using kmalloc_v_shape by blast
  then show ?thesis using assms k by (auto simp: open_alloc_def Let_def split: if_splits)
qed

lemma counts_add:
  assumes c: "counts_ok pins s" and new: "opens s a = None" and s': "fds s' = fds s" "opens s' = (opens s)(a \<mapsto> d)" and d: "of_refcount d = 1"
  shows "counts_ok (pin a pins) s'"
proof -
  have f: "fdrefs s' = fdrefs s" using s'(1) by (simp add: fdrefs_def fun_eq_iff)
  show ?thesis
  proof (rule countsI)
    fix b e assume "opens s' b = Some e"
    then show "of_refcount e = fdrefs s' b + pin a pins b \<and> 0 < of_refcount e"
      using countsD(1,2) [OF c, of b e] countsD(3,4) [OF c new] s'(2) f d by (cases "b = a") auto
  next
    fix b assume "opens s' b = None"
    then show "fdrefs s' b = 0 \<and> pin a pins b = 0"
      using countsD(3,4) [OF c, of b] f s'(2) by (cases "b = a") simp_all
  qed
qed

lemma typed_add:
  assumes t: "typed s" and d: "desc_ok (pipes s) d" "of_pipe d = None"
  shows "typed (s\<lparr>fs := k, opens := (opens s)(fresh s \<mapsto> d), fresh := fresh s + 1\<rparr>)" (is "typed ?s")
proof (rule typedI)
  fix b e assume "opens ?s b = Some e"
  then show "desc_ok (pipes ?s) e" using typedD(1) [OF t] d by (auto split: if_splits)
next
  fix b c e f p assume "opens ?s b = Some e" "opens ?s c = Some f" "of_pipe e = Some p" "of_pipe f = Some p" "of_kind e = of_kind f"
  then show "b = c" using typedD(2) [OF t, of b e c f p] d(2) by (auto split: if_splits)
next
  fix b assume "fresh ?s \<le> b"
  then show "opens ?s b = None \<and> pipes ?s b = None" using typedD(3,4) [OF t, of b] by simp
qed (use typedD(5) [OF t] in simp)

lemma inv_alloc:
  assumes inv: "vfs_inv pins s" and a: "open_alloc kind path v pos flags s = (Some a, s')"
    and ok: "desc_ok (pipes s) \<lparr>of_refcount = 1, of_kind = kind, of_path = path_copy path, of_vnode = v, of_pos = pos, of_flags = flags, of_pipe = None\<rparr>"
  shows "vfs_inv (pin a pins) s'" and "fds s' = fds s" and "pins a = 0" and "fdrefs s' a = 0"
proof -
  obtain k where s': "a = fresh s" "s' = s\<lparr>fs := k, opens := (opens s)(a \<mapsto> \<lparr>of_refcount = 1, of_kind = kind, of_path = path_copy path,
      of_vnode = v, of_pos = pos, of_flags = flags, of_pipe = None\<rparr>), fresh := fresh s + 1\<rparr>" using open_alloc_some [OF a] by blast
  have t: "table_ok s" "typed s" "counts_ok pins s" using inv by (simp_all add: vfs_inv_def)
  have none: "opens s a = None" using typedD(3) [OF t(2), of a] s'(1) by simp
  show "vfs_inv (pin a pins) s'" unfolding vfs_inv_def s'
    using t(1) typed_add [OF t(2) ok] counts_add [OF t(3) none] s'(1) by simp
  show "fds s' = fds s" using s' by simp
  show "pins a = 0" "fdrefs s' a = 0" using countsD(3,4) [OF t(3) none] s' by simp_all
qed

lemma inv_free:
  assumes inv: "vfs_inv (pin a pins) s" and z: "fdrefs s a = 0" "pins a = 0"
  shows "vfs_inv pins (free_desc a s)"
proof -
  have t: "table_ok s" "typed s" "counts_ok (pin a pins) s" using inv by (simp_all add: vfs_inv_def)
  have "typed (free_desc a s)"
    using t(2) unfolding typed_def free_desc_def by (simp split: if_splits)
  then show ?thesis using t counts_remove [OF t(3) z, of "free_desc a s"] by (simp add: vfs_inv_def free_desc_def)
qed

section \<open>The operations keep the invariant\<close>

lemma slot_arith:
  assumes "t < MAX_TASKS" "fd < VFS_MAX_FDS"
  shows "t * VFS_MAX_FDS + fd < MAX_TASKS * VFS_MAX_FDS" "(t * VFS_MAX_FDS + fd) div VFS_MAX_FDS = t"
    "slot_of (int t) (int fd) = Some (t * VFS_MAX_FDS + fd)"
  using assms by (simp_all add: MAX_TASKS_def VFS_MAX_FDS_def slot_of_def)

lemma find_upt_some: "find P [0..<n] = Some i \<Longrightarrow> i < n \<and> P i"
  by (auto simp: find_Some_iff)

lemma alloc_fd_some:
  assumes "alloc_fd t s = Some fd"
  shows "fd < VFS_MAX_FDS" "\<not> fd_used (fds s ! (t * VFS_MAX_FDS + fd))"
  using find_upt_some [OF assms [unfolded alloc_fd_def]] by simp_all

lemma occupied_simps [simp]: "fd_used (occupied t a)" "fd_owner (occupied t a) = t" "fd_open (occupied t a) = Some a"
  by (simp_all add: occupied_def)

lemma inv_occupy:
  assumes "vfs_inv (pin a pins) s" "t < MAX_TASKS" "fd < VFS_MAX_FDS" "\<not> fd_used (fds s ! (t * VFS_MAX_FDS + fd))"
  shows "vfs_inv pins (set_fd (t * VFS_MAX_FDS + fd) (occupied t a) s)"
  by (rule inv_install [OF assms(1) slot_arith(1) [OF assms(2,3)] assms(4)]) (use slot_arith(2) [OF assms(2,3)] in simp_all)

lemma get_fds [simp]: "fds (open_get a s) = fds s" "fds (set_open a d s) = fds s"
  by (simp_all add: open_get_def set_open_def)

lemma inv_install_locked:
  assumes inv: "vfs_inv pins s" and d: "opens s a = Some d" and b: "pins a \<le> 1000"
  shows "vfs_inv pins (install_locked t fd a s)"
proof (cases "slot_of (int t) (int fd)")
  case (Some i)
  then have "t < MAX_TASKS" "fd < VFS_MAX_FDS" "i = t * VFS_MAX_FDS + fd" by (auto simp: slot_of_def split: if_splits)
  then show ?thesis
    using Some inv inv_occupy [OF inv_get [OF inv d b]] by (simp add: install_locked_def)
qed (simp add: install_locked_def inv)

lemma inv_install_tty:
  assumes inv: "vfs_inv pins s"
  shows "vfs_inv pins (install_tty_locked t fd flags s)"
proof (cases "slot_of (int t) (int fd)")
  case (Some i)
  then have i: "t < MAX_TASKS" "fd < VFS_MAX_FDS" "i = t * VFS_MAX_FDS + fd" by (auto simp: slot_of_def split: if_splits)
  obtain r s1 where a: "open_alloc KIND_TTY [116, 116, 121] None 0 flags s = (r, s1)" using prod.exhaust by blast
  show ?thesis
  proof (cases r)
    case None
    then obtain k where "s1 = s\<lparr>fs := k\<rparr>" using a open_alloc_none by blast
    then show ?thesis using Some a None inv by (simp add: install_tty_locked_def)
  next
    case (Some a')
    note al = inv_alloc [OF inv a [unfolded Some]]
    show ?thesis
      using Some \<open>slot_of _ _ = _\<close> a inv al inv_occupy [OF _ i(1,2), of a' pins s1] i(3)
      by (simp add: install_tty_locked_def desc_ok_def)
  qed
qed (simp add: install_tty_locked_def inv)

lemma inv_task_init: "vfs_inv pins s \<Longrightarrow> vfs_inv pins (vfs_task_init t s)"
  by (simp add: vfs_task_init_def inv_install_tty)

lemma inv_release_vnode [simp]: "vfs_inv pins (release_vnode v s) = vfs_inv pins s"
  "fdrefs (release_vnode v s) = fdrefs s"
  by (simp_all add: release_vnode_def)

lemma inv_open_alloc_or_not:
  assumes inv: "vfs_inv pins s" and a: "open_alloc kind path (Some vn) pos flags s = (None, s2)"
  shows "vfs_inv pins s2"
  using open_alloc_none [OF a] inv by auto

lemma inv_open:
  assumes inv: "vfs_inv pins s" and r: "vfs_open t path flags s = (r, s')"
  shows "vfs_inv pins s'"
proof (cases "path = [] \<or> t < 0 \<or> t \<ge> int MAX_TASKS")
  case True
  then have "s' = s" using r by (elim disjE) (simp_all add: vfs_open_def split: if_splits)
  then show ?thesis using inv by simp
next
  case False
  obtain v k where v: "open_vnode path flags (fs s) = (v, k)" using prod.exhaust by blast
  note eq = r [unfolded vfs_open_def Let_def v prod.case]
  show ?thesis
  proof (cases v)
    case None
    then show ?thesis using eq False inv by auto
  next
    case (Some vn)
    define kind where "kind = (if v_type vn = V_DIR then KIND_DIR else KIND_FILE)"
    define pos where "pos = (if o_append flags then u32 (v_size vn) else 0)"
    obtain d s2 where a: "open_alloc kind path (Some vn) pos flags (s\<lparr>fs := k\<rparr>) = (d, s2)" using prod.exhaust by blast
    have ok: "desc_ok ps \<lparr>of_refcount = 1, of_kind = kind, of_path = path_copy path, of_vnode = Some vn, of_pos = pos,
        of_flags = flags, of_pipe = None\<rparr>" for ps by (simp add: desc_ok_def kind_def)
    have inv1: "vfs_inv pins (s\<lparr>fs := k\<rparr>)" using inv by simp
    show ?thesis
    proof (cases d)
      case None
      then show ?thesis using eq False inv a \<open>v = _\<close> inv_open_alloc_or_not [OF inv1 a [unfolded None]]
        by (auto simp: kind_def [symmetric] pos_def [symmetric] split: if_splits)
    next
      case (Some x)
      note al = inv_alloc [OF inv1 a [unfolded Some] ok]
      show ?thesis
        using eq False inv a \<open>v = _\<close> Some al inv_occupy [OF al(1), of "nat t"] alloc_fd_some [of "nat t" s2] inv_free [of x pins]
        by (auto simp: kind_def [symmetric] pos_def [symmetric] split: if_splits option.splits)
    qed
  qed
qed

lemma inv_close:
  assumes inv: "vfs_inv pins s" and b: "\<And>a. pins a \<le> 1000" and r: "vfs_close t fd s = (r, s')"
  shows "vfs_inv pins s'"
proof (cases "resolve_open t fd s")
  case None
  then show ?thesis using r inv by (auto simp: vfs_close_def split: option.splits)
next
  case (Some a)
  then obtain i where i: "slot_of t fd = Some i" "i < MAX_TASKS * VFS_MAX_FDS" "fd_used (fds s ! i)" "fd_open (fds s ! i) = Some a"
    using resolve_open_entry by metis
  have "vfs_inv pins (open_put a (clear_fd i s))" using inv_put [OF inv_clear [OF inv i(2,3,4)] b] .
  then show ?thesis using r Some i(1) by (auto simp: vfs_close_def)
qed

lemma inv_close_slots:
  assumes "vfs_inv pins s" "\<And>a. pins a \<le> 1000" "\<forall>i\<in>set is. i < MAX_TASKS * VFS_MAX_FDS"
  shows "vfs_inv pins (close_slots is s)"
  using assms
proof (induction "is" arbitrary: s)
  case (Cons i "is")
  show ?case
  proof (cases "fd_open (fds s ! i)")
    case (Some a)
    then show ?thesis using Cons inv_put [OF inv_clear [OF Cons.prems(1)], of i a] by simp
  qed (use Cons in simp)
qed simp

lemma inv_close_all:
  assumes "vfs_inv pins s" "\<And>a. pins a \<le> 1000"
  shows "vfs_inv pins (vfs_close_all t s)"
proof (cases "t < 0 \<or> t \<ge> int MAX_TASKS")
  case False
  then have "nat t < MAX_TASKS" by (simp add: nat_less_iff)
  then have "\<forall>i\<in>set (map (\<lambda>i. nat t * VFS_MAX_FDS + i) [0..<VFS_MAX_FDS]). i < MAX_TASKS * VFS_MAX_FDS"
    by (simp add: MAX_TASKS_def VFS_MAX_FDS_def)
  then show ?thesis using inv_close_slots [OF assms] False by (simp add: vfs_close_all_def)
qed (use assms(1) in \<open>auto simp: vfs_close_all_def\<close>)

lemma inv_dup:
  assumes inv: "vfs_inv pins s" and b: "\<And>a. pins a \<le> 1000" and r: "vfs_dup t fd s = (r, s')"
  shows "vfs_inv pins s'"
proof (cases "resolve_open t fd s")
  case None
  then show ?thesis using r inv by (auto simp: vfs_dup_def split: if_splits)
next
  case (Some a)
  then obtain d where "opens s a = Some d" using inv_resolved [OF inv] by blast
  then show ?thesis using r inv Some inv_install_locked [OF inv _ b, of a d]
    by (auto simp: vfs_dup_def split: if_splits option.splits)
qed

lemma put_fds [simp]: "fds (open_put a s) = fds s"
  by (simp add: open_put_def Let_def set_open_def)

lemma clear_fd_entry: "i < length (fds s) \<Longrightarrow> fds (clear_fd i s) ! i = (fds s ! i)\<lparr>fd_used := False, fd_open := None, fd_flags := 0\<rparr>"
  by (simp add: clear_fd_def set_fd_def)

text \<open>Emptying a slot, whether it was in use or not.\<close>

definition vacate :: "nat \<Rightarrow> vfs \<Rightarrow> vfs" where
  "vacate i s = (case fd_open (fds s ! i) of Some old \<Rightarrow> if fd_used (fds s ! i) then open_put old (clear_fd i s) else s | None \<Rightarrow> s)"

lemma inv_vacate:
  assumes inv: "vfs_inv pins s" and b: "\<And>a. pins a \<le> 1000" and i: "i < MAX_TASKS * VFS_MAX_FDS"
  shows "vfs_inv pins (vacate i s)" "\<not> fd_used (fds (vacate i s) ! i)"
proof -
  have len: "i < length (fds s)" using inv i by (simp add: vfs_inv_def table_ok_def)
  have o: "fd_used (fds s ! i) \<Longrightarrow> fd_open (fds s ! i) \<noteq> None" using inv len by (simp add: vfs_inv_def table_ok_def)
  show "vfs_inv pins (vacate i s)"
    using inv inv_put [OF inv_clear [OF inv i], of "the (fd_open (fds s ! i))"] b by (auto simp: vacate_def split: option.split)
  show "\<not> fd_used (fds (vacate i s) ! i)"
    using o clear_fd_entry [OF len] by (auto simp: vacate_def split: option.split)
qed

lemma inv_dup2:
  assumes inv: "vfs_inv pins s" and b: "\<And>a. pins a \<le> 100" and r: "vfs_dup2 t oldfd newfd s = (r, s')"
  shows "vfs_inv pins s'"
proof (cases "t < 0 \<or> t \<ge> int MAX_TASKS \<or> newfd < 0 \<or> newfd \<ge> int VFS_MAX_FDS \<or> resolve_open t oldfd s = None \<or> oldfd = newfd")
  case True
  then have "s' = s" using r by (auto simp: vfs_dup2_def split: if_splits option.splits)
  then show ?thesis using inv by simp
next
  case False
  then obtain src where src: "resolve_open t oldfd s = Some src" by auto
  obtain d where d: "opens s src = Some d" using inv_resolved [OF inv src] by blast
  have b1: "pin src pins a \<le> 1000" for a using b [of a] by (cases "a = src") simp_all
  have ts: "nat t < MAX_TASKS" "nat newfd < VFS_MAX_FDS" using False by (simp_all add: nat_less_iff)
  define i where "i = nat t * VFS_MAX_FDS + nat newfd"
  have s': "s' = set_fd i (occupied (nat t) src) (vacate i (open_get src s))"
    using r False src by (auto simp: vfs_dup2_def Let_def vacate_def i_def)
  have inv1: "vfs_inv (pin src pins) (open_get src s)" by (rule inv_get [OF inv d]) (use b [of src] in simp)
  note v = inv_vacate [OF inv1 b1 slot_arith(1) [OF ts], folded i_def]
  show ?thesis unfolding s' i_def using inv_occupy [OF v(1) ts] v(2) by (simp add: i_def)
qed

text \<open>Replacing the description of an open descriptor.\<close>

lemma inv_replace:
  assumes inv: "vfs_inv (pin src pins) s" and i: "i < MAX_TASKS * VFS_MAX_FDS" and used: "fd_used (fds s ! i)" "fd_open (fds s ! i) = Some old"
    and e: "fd_used e" "fd_owner e = fd_owner (fds s ! i)" "fd_open e = Some src"
  shows "vfs_inv (pin old pins) (set_fd i e s)"
proof -
  define e0 where "e0 = (fds s ! i)\<lparr>fd_used := False\<rparr>"
  have len: "i < length (fds s)" using inv i by (simp add: vfs_inv_def table_ok_def)
  have owner: "fd_owner e = i div VFS_MAX_FDS" using inv len used(1) e(2) by (simp add: vfs_inv_def table_ok_def)
  have "vfs_inv (pin src (pin old pins)) (set_fd i e0 s)"
    using inv_uninstall [OF inv i used, of e0] by (simp add: e0_def pin_commute)
  then have "vfs_inv (pin old pins) (set_fd i e (set_fd i e0 s))"
    by (rule inv_install [OF _ i _ e(1) owner e(3)]) (use len in \<open>simp add: set_fd_def e0_def\<close>)
  then show ?thesis by (simp add: set_fd_def)
qed

lemma inv_inherit_loop:
  assumes "vfs_inv pins s" "\<And>a. pins a \<le> 100" "inherit_loop is child parent spec s = (r, s')" "\<forall>i\<in>set is. i < VFS_MAX_FDS"
  shows "vfs_inv pins s'"
  using assms
proof (induction "is" arbitrary: s)
  case (Cons i "is")
  show ?case
  proof (cases "spec i < 0 \<or> resolve_open parent (spec i) s = None \<or> resolve_open child (int i) s = None")
    case True
    then show ?thesis using Cons by (auto split: if_splits option.splits)
  next
    case False
    then obtain src old where r: "resolve_open parent (spec i) s = Some src" "resolve_open child (int i) s = Some old" by auto
    obtain d where d: "opens s src = Some d" using inv_resolved [OF Cons.prems(1) r(1)] by blast
    obtain c where c: "slot_of child (int i) = Some c" "c < MAX_TASKS * VFS_MAX_FDS" "fd_used (fds s ! c)" "fd_open (fds s ! c) = Some old"
      "0 \<le> child" using resolve_open_entry [OF r(2)] by metis
    have ce: "c = nat child * VFS_MAX_FDS + i" using c(1) by (auto simp: slot_of_def split: if_splits)
    have le: "pins a \<le> 1000" for a using Cons.prems(2) [of a] by simp
    have "vfs_inv (pin old pins) (set_fd c ((fds s ! c)\<lparr>fd_open := Some src, fd_flags := 0\<rparr>) (open_get src s))"
      by (rule inv_replace [OF inv_get [OF Cons.prems(1) d le] c(2)]) (use c(3,4) in simp_all)
    then have "vfs_inv pins (open_put old (set_fd c ((fds s ! c)\<lparr>fd_open := Some src, fd_flags := 0\<rparr>) (open_get src s)))"
      using inv_put [of old pins] le by blast
    then show ?thesis using Cons r False ce by (simp add: Let_def)
  qed
qed simp

lemma inv_inherit:
  assumes "vfs_inv pins s" "\<And>a. pins a \<le> 100" "vfs_inherit_stdio child parent spec s = (r, s')"
  shows "vfs_inv pins s'"
  using assms inv_inherit_loop [OF assms(1,2), of "[0, 1, 2]" child parent spec r s']
  by (auto simp: vfs_inherit_stdio_def VFS_MAX_FDS_def split: if_splits)

lemma inv_fork_one:
  assumes inv: "vfs_inv pins s" and b: "\<And>a. pins a \<le> 1000" and c: "child < MAX_TASKS" "parent < MAX_TASKS" "i < VFS_MAX_FDS"
    and free: "\<not> fd_used (fds s ! (child * VFS_MAX_FDS + i))"
  shows "vfs_inv pins (fork_one child parent i s)"
proof (cases "fd_used (fds s ! (parent * VFS_MAX_FDS + i)) \<and> fd_owner (fds s ! (parent * VFS_MAX_FDS + i)) = parent
    \<and> fd_open (fds s ! (parent * VFS_MAX_FDS + i)) \<noteq> None")
  case True
  then obtain a where a: "fd_open (fds s ! (parent * VFS_MAX_FDS + i)) = Some a" by auto
  obtain d where d: "opens s a = Some d" using inv_entry_open [OF inv slot_arith(1) [OF c(2,3)] _ a] True by blast
  have "vfs_inv pins (set_fd (child * VFS_MAX_FDS + i)
      ((occupied child a)\<lparr>fd_flags := fd_flags (fds s ! (parent * VFS_MAX_FDS + i))\<rparr>) (open_get a s))"
    by (rule inv_install [OF inv_get [OF inv d b] slot_arith(1) [OF c(1,3)]]) (use free slot_arith(2) [OF c(1,3)] in simp_all)
  then show ?thesis using True a by (simp add: fork_one_def Let_def)
next
  case False
  then show ?thesis using inv by (auto simp: fork_one_def Let_def split: option.split)
qed

lemma fork_one_fds: "j \<noteq> child * VFS_MAX_FDS + i \<Longrightarrow> fds (fork_one child parent i s) ! j = fds s ! j"
  by (simp add: fork_one_def Let_def set_fd_def split: option.split)

lemma inv_fork_fold:
  assumes "vfs_inv pins s" "\<And>a. pins a \<le> 1000" "child < MAX_TASKS" "parent < MAX_TASKS" "distinct is"
    "\<forall>i\<in>set is. i < VFS_MAX_FDS \<and> \<not> fd_used (fds s ! (child * VFS_MAX_FDS + i))"
  shows "vfs_inv pins (fold (fork_one child parent) is s)"
  using assms
proof (induction "is" arbitrary: s)
  case (Cons i "is")
  have "vfs_inv pins (fork_one child parent i s)" by (rule inv_fork_one) (use Cons.prems in simp_all)
  moreover have "\<forall>j\<in>set is. j < VFS_MAX_FDS \<and> \<not> fd_used (fds (fork_one child parent i s) ! (child * VFS_MAX_FDS + j))"
  proof
    fix j assume "j \<in> set is"
    then have "child * VFS_MAX_FDS + j \<noteq> child * VFS_MAX_FDS + i" using Cons.prems(5) by auto
    then show "j < VFS_MAX_FDS \<and> \<not> fd_used (fds (fork_one child parent i s) ! (child * VFS_MAX_FDS + j))"
      using fork_one_fds Cons.prems(6) \<open>j \<in> set is\<close> by simp
  qed
  ultimately show ?case using Cons by simp
qed simp

lemma inv_fork:
  assumes "vfs_inv pins s" "\<And>a. pins a \<le> 1000" "vfs_fork_inherit child parent s = (r, s')"
  shows "vfs_inv pins s'"
proof (cases "r = 0")
  case True
  then have c: "nat child < MAX_TASKS" "nat parent < MAX_TASKS" "s' = fold (fork_one (nat child) (nat parent)) [0..<VFS_MAX_FDS] s"
    "\<forall>i\<in>set [0..<VFS_MAX_FDS]. i < VFS_MAX_FDS \<and> \<not> fd_used (fds s ! (nat child * VFS_MAX_FDS + i))"
    using assms(3) by (auto simp: vfs_fork_inherit_def list_ex_iff nat_less_iff split: if_splits)
  show ?thesis unfolding c(3) by (rule inv_fork_fold [OF assms(1,2) c(1,2) distinct_upt c(4)])
next
  case False
  then show ?thesis using assms by (auto simp: vfs_fork_inherit_def split: if_splits)
qed

subsection \<open>Pipes\<close>

definition pipe_desc :: "vfs_kind \<Rightarrow> open_flags \<Rightarrow> nat \<Rightarrow> vfs_open_file" where
  "pipe_desc kind flags p = \<lparr>of_refcount = 1, of_kind = kind, of_path = path_copy [112, 105, 112, 101], of_vnode = None, of_pos = 0,
     of_flags = flags, of_pipe = Some p\<rparr>"

lemma inv_fresh:
  assumes "vfs_inv pins s" "fresh s \<le> n"
  shows "vfs_inv pins (s\<lparr>fresh := n\<rparr>)"
proof -
  have "typed (s\<lparr>fresh := n\<rparr>)" using assms by (auto simp: vfs_inv_def typed_def)
  then show ?thesis using assms by (simp add: vfs_inv_def)
qed

lemma pipe_alloc_none:
  assumes inv: "vfs_inv pins s" and r: "pipe_alloc s = (None, s')"
  shows "vfs_inv pins s'"
proof -
  obtain ok1 s1 ok2 s2 where k: "kmalloc_v 240 s = (ok1, s1)" "kmalloc_v VFS_PIPE_CAP s1 = (ok2, s2)" using prod.exhaust by metis
  obtain k2 where s2: "s2 = s\<lparr>fs := k2\<rparr>" using kmalloc_v_shape [OF k(1)] kmalloc_v_shape [OF k(2)] by auto
  obtain a s3 where a: "open_alloc KIND_PIPE_READ [112, 105, 112, 101] None 0 rdonly s2 = (a, s3)" using prod.exhaust by blast
  note eq = r [unfolded pipe_alloc_def Let_def k prod.case a]
  show ?thesis
  proof (cases "ok1 \<and> ok2 \<and> a \<noteq> None")
    case False
    then have "s' = s2 \<or> a = None \<and> s' = s3" using eq by (auto split: if_splits)
    then show ?thesis using s2 inv a by (auto dest!: open_alloc_none)
  next
    case True
    then obtain ro where ro: "a = Some ro" by auto
    obtain k3 where s3: "ro = fresh s" "fds s3 = fds s" "opens s3 = (opens s)(ro \<mapsto> (pipe_desc KIND_PIPE_READ rdonly 0)\<lparr>of_pipe := None\<rparr>)"
      "s3 = s2\<lparr>fs := k3, opens := opens s3, fresh := fresh s + 1\<rparr>"
      using open_alloc_some [OF a [unfolded ro]] s2 by (auto simp: pipe_desc_def)
    obtain w s4 where w: "open_alloc KIND_PIPE_WRITE [112, 105, 112, 101] None 0 wronly s3 = (w, s4)" using prod.exhaust by blast
    then have "w = None" "s' = free_desc ro s4" using eq True ro by (auto simp: Let_def split: option.splits)
    then obtain k4 where "s4 = s3\<lparr>fs := k4\<rparr>" using w open_alloc_none by blast
    moreover have none: "opens s ro = None" using inv typedD(3) [of s] s3(1) by (simp add: vfs_inv_def)
    ultimately have "s' = s\<lparr>fs := k4, fresh := fresh s + 1\<rparr>"
      using \<open>s' = _\<close> s3 s2 by (simp add: free_desc_def fun_upd_idem)
    then show ?thesis using inv_fresh [of pins "s\<lparr>fs := k4\<rparr>" "fresh s + 1"] inv by simp
  qed
qed

lemma pipe_alloc_some:
  assumes r: "pipe_alloc s = (Some (ro, wo, p), s')"
  shows "\<exists>k. ro = fresh s \<and> wo = fresh s + 1 \<and> p = fresh s + 2
    \<and> s' = s\<lparr>fs := k, opens := (opens s)(ro \<mapsto> pipe_desc KIND_PIPE_READ rdonly p, wo \<mapsto> pipe_desc KIND_PIPE_WRITE wronly p),
           pipes := (pipes s)(p \<mapsto> new_pipe), fresh := fresh s + 3\<rparr>"
proof -
  obtain ok1 s1 ok2 s2 where k: "kmalloc_v 240 s = (ok1, s1)" "kmalloc_v VFS_PIPE_CAP s1 = (ok2, s2)" using prod.exhaust by metis
  obtain k2 where s2: "s2 = s\<lparr>fs := k2\<rparr>" using kmalloc_v_shape [OF k(1)] kmalloc_v_shape [OF k(2)] by auto
  obtain a s3 where a: "open_alloc KIND_PIPE_READ [112, 105, 112, 101] None 0 rdonly s2 = (a, s3)" using prod.exhaust by blast
  obtain w s4 where w: "open_alloc KIND_PIPE_WRITE [112, 105, 112, 101] None 0 wronly s3 = (w, s4)" using prod.exhaust by blast
  note eq = r [unfolded pipe_alloc_def Let_def k prod.case a]
  have aw: "a = Some ro" "w = Some wo" "p = fresh s4"
    using eq w by (auto simp: Let_def split: if_splits option.splits)
  obtain k3 where s3: "ro = fresh s" "s3 = s\<lparr>fs := k3, opens := (opens s)(ro \<mapsto> (pipe_desc KIND_PIPE_READ rdonly 0)\<lparr>of_pipe := None\<rparr>),
      fresh := fresh s + 1\<rparr>"
    using open_alloc_some [OF a [unfolded aw]] s2 by (auto simp: pipe_desc_def)
  obtain k4 where s4: "wo = fresh s + 1" "s4 = s3\<lparr>fs := k4, opens := (opens s3)(wo \<mapsto> (pipe_desc KIND_PIPE_WRITE wronly 0)\<lparr>of_pipe := None\<rparr>),
      fresh := fresh s + 2\<rparr>"
    using open_alloc_some [OF w [unfolded aw]] s3 by (auto simp: pipe_desc_def)
  define s5 where "s5 = s4\<lparr>pipes := (pipes s4)(p \<mapsto> new_pipe), fresh := p + 1\<rparr>"
  define s6 where "s6 = set_open ro ((desc ro s5)\<lparr>of_pipe := Some p\<rparr>) s5"
  have "s' = set_open wo ((desc wo s6)\<lparr>of_pipe := Some p\<rparr>) s6"
    using eq w aw by (auto simp: s5_def s6_def split: if_splits)
  moreover have "s6 = s\<lparr>fs := k4, opens := (opens s)(ro \<mapsto> pipe_desc KIND_PIPE_READ rdonly p, wo \<mapsto> (pipe_desc KIND_PIPE_WRITE wronly 0)\<lparr>of_pipe := None\<rparr>),
      pipes := (pipes s)(p \<mapsto> new_pipe), fresh := fresh s + 3\<rparr>"
    using s3 s4 aw(3) by (simp add: s6_def s5_def set_open_def desc_def pipe_desc_def fun_upd_twist)
  ultimately show ?thesis
    using s3(1) s4 aw(3) by (intro exI [of _ k4]) (simp add: set_open_def desc_def pipe_desc_def)
qed


lemma typed_pipe:
  assumes t: "typed s" and p: "p = fresh s + 2" "ro = fresh s" "wo = fresh s + 1"
  shows "typed (s\<lparr>fs := k, opens := (opens s)(ro \<mapsto> pipe_desc KIND_PIPE_READ rdonly p, wo \<mapsto> pipe_desc KIND_PIPE_WRITE wronly p),
           pipes := (pipes s)(p \<mapsto> new_pipe), fresh := fresh s + 3\<rparr>)" (is "typed ?s")
proof (rule typedI)
  have old: "desc_ok (pipes ?s) e" if "opens s b = Some e" for b e
  proof (rule desc_ok_pipes [OF typedD(1) [OF t that]])
    fix q assume "of_pipe e = Some q"
    then have "pipes s q \<noteq> None" using typedD(1) [OF t that] by (cases "of_kind e") (auto simp: desc_ok_def)
    then show "pipes ?s q = pipes s q" using typedD(4) [OF t, of q] p(1) by auto
  qed
  fix b e assume "opens ?s b = Some e"
  then show "desc_ok (pipes ?s) e"
    using old by (auto simp: pipe_desc_def desc_ok_def new_pipe_def split: if_splits)
next
  have old: "of_pipe e \<noteq> Some p" if "opens s b = Some e" for b e
    using typedD(1) [OF t that] typedD(4) [OF t, of p] p(1) by (cases "of_kind e") (auto simp: desc_ok_def)
  fix b c e f q assume h: "opens ?s b = Some e" "opens ?s c = Some f" "of_pipe e = Some q" "of_pipe f = Some q" "of_kind e = of_kind f"
  show "b = c"
  proof (cases "q = p")
    case True
    then show ?thesis using h old by (auto simp: pipe_desc_def split: if_splits)
  next
    case False
    then show ?thesis using h typedD(2) [OF t, of b e c f q] by (auto simp: pipe_desc_def split: if_splits)
  qed
next
  fix b assume "fresh ?s \<le> b"
  then show "opens ?s b = None \<and> pipes ?s b = None" using typedD(3,4) [OF t, of b] p by simp
qed (use typedD(5) [OF t] in \<open>auto simp: new_pipe_def pipe_wf_def VFS_PIPE_CAP_def split: if_splits\<close>)

lemma inv_pipe_alloc:
  assumes inv: "vfs_inv pins s" and r: "pipe_alloc s = (Some (ro, wo, p), s')"
  shows "vfs_inv (pin wo (pin ro pins)) s'" "fds s' = fds s"
    "(free_desc ro (free_desc wo s'))\<lparr>pipes := (pipes s')(p := None)\<rparr> = s\<lparr>fs := fs s', fresh := fresh s + 3\<rparr>"
proof -
  obtain k where s': "ro = fresh s" "wo = fresh s + 1" "p = fresh s + 2"
    "s' = s\<lparr>fs := k, opens := (opens s)(ro \<mapsto> pipe_desc KIND_PIPE_READ rdonly p, wo \<mapsto> pipe_desc KIND_PIPE_WRITE wronly p),
           pipes := (pipes s)(p \<mapsto> new_pipe), fresh := fresh s + 3\<rparr>" using pipe_alloc_some [OF r] by blast
  have t: "table_ok s" "counts_ok pins s" "typed s" using inv by (simp_all add: vfs_inv_def)
  have new: "opens s ro = None" "opens s wo = None" "pipes s p = None" "wo \<noteq> ro" using typedD(3,4) [OF t(3)] s' by simp_all
  have "counts_ok (pin ro pins) (s\<lparr>opens := (opens s)(ro \<mapsto> pipe_desc KIND_PIPE_READ rdonly p)\<rparr>)"
    by (rule counts_add [OF t(2) new(1), where d = "pipe_desc KIND_PIPE_READ rdonly p"]) (simp_all add: pipe_desc_def)
  then have "counts_ok (pin wo (pin ro pins)) s'"
    by (rule counts_add [where d = "pipe_desc KIND_PIPE_WRITE wronly p"]) (use new s'(4) in \<open>simp_all add: pipe_desc_def\<close>)
  then show "vfs_inv (pin wo (pin ro pins)) s'"
    using typed_pipe [OF t(3) s'(3,1,2)] t(1) unfolding vfs_inv_def s'(4) by simp
  show "fds s' = fds s" using s'(4) by simp
  show "(free_desc ro (free_desc wo s'))\<lparr>pipes := (pipes s')(p := None)\<rparr> = s\<lparr>fs := fs s', fresh := fresh s + 3\<rparr>"
    using s'(4) new by (simp add: free_desc_def fun_upd_idem fun_upd_twist)
qed

lemma filter_two:
  assumes "filter P [0..<n] = a # b # xs"
  shows "a < n" "b < n" "P a" "P b" "a \<noteq> b"
proof -
  have "distinct (filter P [0..<n])" and "set (a # b # xs) \<subseteq> {x. x < n \<and> P x}" unfolding assms [symmetric] by auto
  then show "a < n" "b < n" "P a" "P b" "a \<noteq> b" using assms by auto
qed

lemma inv_pipe:
  assumes inv: "vfs_inv pins s" and r: "vfs_pipe_fds t s = (r, s')"
  shows "vfs_inv pins s'"
proof (cases "t < 0 \<or> t \<ge> int MAX_TASKS")
  case True
  then show ?thesis using r inv by (auto simp: vfs_pipe_fds_def)
next
  case False
  then have t: "nat t < MAX_TASKS" by (simp add: nat_less_iff)
  obtain a s1 where a: "pipe_alloc s = (a, s1)" using prod.exhaust by blast
  show ?thesis
  proof (cases a)
    case None
    then show ?thesis using r a pipe_alloc_none [OF inv] False by (simp add: vfs_pipe_fds_def)
  next
    case (Some x)
    then obtain ro wo p where x: "a = Some (ro, wo, p)" using prod_cases3 by metis
    note al = inv_pipe_alloc [OF inv a [unfolded x]]
    let ?l = "filter (\<lambda>i. \<not> fd_used (fds s1 ! (nat t * VFS_MAX_FDS + i))) [0..<VFS_MAX_FDS]"
    show ?thesis
    proof (cases "\<exists>rfd wfd rest. ?l = rfd # wfd # rest")
      case True
      then obtain rfd wfd rest where l: "?l = rfd # wfd # rest" by blast
      note two = filter_two [OF l]
      have i: "nat t * VFS_MAX_FDS + wfd \<noteq> nat t * VFS_MAX_FDS + rfd" using two(5) by simp
      have "vfs_inv (pin ro pins) (set_fd (nat t * VFS_MAX_FDS + wfd) (occupied (nat t) wo) s1)"
        by (rule inv_occupy [OF al(1) t two(2,4)])
      then have "vfs_inv pins (set_fd (nat t * VFS_MAX_FDS + rfd) (occupied (nat t) ro) (set_fd (nat t * VFS_MAX_FDS + wfd) (occupied (nat t) wo) s1))"
        by (rule inv_occupy [OF _ t two(1)]) (use two(3) i in \<open>simp add: set_fd_def\<close>)
      then show ?thesis using r a x l False i by (simp add: vfs_pipe_fds_def Let_def set_fd_def list_update_swap)
    next
      case no: False
      then have "s' = s\<lparr>fs := fs s1, fresh := fresh s + 3\<rparr>"
        using r a x al(3) False by (auto simp: vfs_pipe_fds_def Let_def split: list.splits)
      then show ?thesis using inv_fresh [of pins "s\<lparr>fs := fs s1\<rparr>" "fresh s + 3"] inv by simp
    qed
  qed
qed


subsection \<open>Reading, writing and seeking\<close>

lemma inv_set_open:
  assumes inv: "vfs_inv pins s" and d: "opens s a = Some d"
    and e: "desc_ok (pipes s) e" "of_pipe e = of_pipe d" "of_kind e = of_kind d" "of_refcount e = of_refcount d"
  shows "vfs_inv pins (set_open a e s)"
proof -
  have t: "table_ok s" "counts_ok pins s" "typed s" using inv by (simp_all add: vfs_inv_def)
  have f: "fdrefs (set_open a e s) = fdrefs s" by (simp add: set_open_def)
  have "counts_ok pins (set_open a e s)"
  proof (rule countsI)
    fix b x assume "opens (set_open a e s) b = Some x"
    then show "of_refcount x = fdrefs (set_open a e s) b + pins b \<and> 0 < of_refcount x"
      unfolding f using countsD(1,2) [OF t(2), of b] d e(4) by (cases "b = a") (auto simp: set_open_def)
  next
    fix b assume "opens (set_open a e s) b = None"
    then show "fdrefs (set_open a e s) b = 0 \<and> pins b = 0"
      unfolding f using countsD(3,4) [OF t(2), of b] by (cases "b = a") (auto simp: set_open_def)
  qed
  then show ?thesis using t(1) typed_set_open [OF t(3) d e(1,2,3)] by (simp add: vfs_inv_def set_open_def)
qed

lemma inv_lseek:
  assumes inv: "vfs_inv pins s" and r: "vfs_lseek t fd off wh s = (r, s')"
  shows "vfs_inv pins s'"
proof (cases "resolve_open t fd s")
  case (Some a)
  then obtain d where d: "opens s a = Some d" using inv_resolved [OF inv] by blast
  have "desc_ok (pipes s) d" using inv typedD(1) [OF _ d] by (simp add: vfs_inv_def)
  then have "vfs_inv pins (set_open a (d\<lparr>of_pos := n\<rparr>) s)" for n by (intro inv_set_open [OF inv d]) simp_all
  then show ?thesis using r Some inv d by (auto simp: vfs_lseek_def Let_def desc_def split: if_splits)
qed (use r inv in \<open>simp add: vfs_lseek_def\<close>)

lemma inv_file_read:
  assumes inv: "vfs_inv pins s" and d: "opens s a = Some d" and r: "file_read a n s = (r, s')"
  shows "vfs_inv pins s'"
proof (cases "of_vnode d")
  case None
  then show ?thesis using r inv d by (simp add: file_read_def desc_def)
next
  case (Some v)
  obtain rc bs k where v: "v4_read v (of_pos d) (min n IO_MAX) (fs s) = (rc, bs, k)" using prod_cases3 by blast
  have "desc_ok (pipes s) d" using inv typedD(1) [OF _ d] by (simp add: vfs_inv_def)
  then have "vfs_inv pins (set_open a (d\<lparr>of_pos := m\<rparr>) (s\<lparr>fs := k\<rparr>))" for m
    using inv d by (intro inv_set_open) simp_all
  then show ?thesis using r Some d v by (auto simp: file_read_def Let_def desc_def split: if_splits)
qed

lemma v4_write_type: "v4_write v pos bs k = (rc, w, v1, k1) \<Longrightarrow> v_type v1 = v_type v"
  unfolding v4_write_def by (auto simp: Let_def split: prod.splits if_splits option.splits)

lemma desc_ok_vnode:
  assumes "desc_ok ps d" "of_vnode d = Some v" "v_type v1 = v_type v"
  shows "desc_ok ps (d\<lparr>of_vnode := Some v1, of_pos := n\<rparr>)"
  using assms by (cases "of_kind d") (simp_all add: desc_ok_def)

lemma inv_file_write:
  assumes inv: "vfs_inv pins s" and d: "opens s a = Some d" and r: "file_write a bs s = (r, s')"
  shows "vfs_inv pins s'"
proof (cases "of_vnode d")
  case None
  then show ?thesis using r inv d by (simp add: file_write_def desc_def)
next
  case (Some v)
  define pos where "pos = (if o_append (of_flags d) then u32 (v_size v) else of_pos d)"
  obtain rc w v1 k where v: "v4_write v pos (take IO_MAX bs) (fs s) = (rc, w, v1, k)" using prod_cases4 by blast
  have "desc_ok (pipes s) d" using inv typedD(1) [OF _ d] by (simp add: vfs_inv_def)
  then have "desc_ok (pipes s) (d\<lparr>of_vnode := Some v1, of_pos := m\<rparr>)" for m
    by (rule desc_ok_vnode [OF _ Some v4_write_type [OF v]])
  then have "vfs_inv pins (set_open a (d\<lparr>of_vnode := Some v1, of_pos := m\<rparr>) (s\<lparr>fs := k\<rparr>))" for m
    using inv d by (intro inv_set_open) simp_all
  then show ?thesis
    using r [unfolded file_write_def desc_def d option.sel Some option.case Let_def pos_def [symmetric] v prod.case] by (auto split: if_splits)
qed

lemma inv_pipe_content:
  assumes inv: "vfs_inv pins s" and q: "pipes s p = Some q" "p_readers q1 = p_readers q" "p_writers q1 = p_writers q" "pipe_wf q1"
  shows "vfs_inv pins (s\<lparr>pipes := (pipes s)(p \<mapsto> q1)\<rparr>)" (is "vfs_inv pins ?s")
proof -
  have t: "table_ok s" "counts_ok pins s" "typed s" using inv by (simp_all add: vfs_inv_def)
  have "typed ?s"
  proof (rule typedI)
    fix b e assume "opens ?s b = Some e"
    then have "desc_ok (pipes s) e" using typedD(1) [OF t(3)] by simp
    then show "desc_ok (pipes ?s) e" using q by (cases "of_kind e") (auto simp: desc_ok_def)
  next
    fix b c e f x assume "opens ?s b = Some e" "opens ?s c = Some f" "of_pipe e = Some x" "of_pipe f = Some x" "of_kind e = of_kind f"
    then show "b = c" using typedD(2) [OF t(3)] by simp
  next
    fix b assume "fresh ?s \<le> b"
    then show "opens ?s b = None \<and> pipes ?s b = None" using typedD(3,4) [OF t(3), of b] q(1) by auto
  qed (use typedD(5) [OF t(3)] q(4) in \<open>auto split: if_splits\<close>)
  then show ?thesis using t by (simp add: vfs_inv_def)
qed

lemma inv_pipe_read:
  assumes inv: "vfs_inv pins s" and q: "pipes s p = Some q" and r: "pipe_read p n [] s = (r, s')"
  shows "vfs_inv pins s'"
proof -
  obtain bs q1 where t: "pipe_take n q = (bs, q1)" using prod.exhaust by blast
  have "pipe_wf q" using inv typedD(5) [of s p q] q by (simp add: vfs_inv_def)
  note sp = pipe_take_spec [OF this t]
  show ?thesis using r q t inv inv_pipe_content [OF inv q sp(4,5,3)] by (auto simp: pipe_read.simps split: if_splits)
qed

lemma inv_pipe_write:
  assumes inv: "vfs_inv pins s" and q: "pipes s p = Some q" and r: "pipe_write p bs [] s = (r, s')"
  shows "vfs_inv pins s'"
proof -
  obtain n q1 where t: "pipe_give bs q = (n, q1)" using prod.exhaust by blast
  have "pipe_wf q" using inv typedD(5) [of s p q] q by (simp add: vfs_inv_def)
  note sp = pipe_give_spec [OF this t]
  show ?thesis using r q t inv inv_pipe_content [OF inv q sp(4,5,3)] by (auto simp: pipe_write.simps split: if_splits)
qed

section \<open>All interleavings\<close>

text \<open>
  A step of the descriptor layer: a task runs one operation, which may leave it blocked in a pipe, or a blocked
  task is resumed or killed.  \<open>bl ! t\<close> is the description task \<open>t\<close> is blocked on; the reference it holds there is the pin.
\<close>

definition waiting_on :: "nat option list \<Rightarrow> nat \<Rightarrow> nat" where
  "waiting_on bl a = length (filter (\<lambda>x. x = Some a) bl)"

inductive vfs_step :: "nat option list \<times> vfs \<Rightarrow> nat option list \<times> vfs \<Rightarrow> bool" where
  st_init: "vfs_step (bl, s) (bl, vfs_task_init t s)"
| st_open: "vfs_open t path flags s = (r, s') \<Longrightarrow> vfs_step (bl, s) (bl, s')"
| st_close: "vfs_close t fd s = (r, s') \<Longrightarrow> vfs_step (bl, s) (bl, s')"
| st_close_all: "vfs_step (bl, s) (bl, vfs_close_all t s)"
| st_dup: "vfs_dup t fd s = (r, s') \<Longrightarrow> vfs_step (bl, s) (bl, s')"
| st_dup2: "vfs_dup2 t fd newfd s = (r, s') \<Longrightarrow> vfs_step (bl, s) (bl, s')"
| st_pipe: "vfs_pipe_fds t s = (p, s') \<Longrightarrow> vfs_step (bl, s) (bl, s')"
| st_inherit: "vfs_inherit_stdio child parent spec s = (r, s') \<Longrightarrow> vfs_step (bl, s) (bl, s')"
| st_fork: "vfs_fork_inherit child parent s = (r, s') \<Longrightarrow> vfs_step (bl, s) (bl, s')"
| st_lseek: "vfs_lseek t fd off wh s = (r, s') \<Longrightarrow> vfs_step (bl, s) (bl, s')"
| st_readdir: "vfs_readdir t fd idx cap s = (e, s') \<Longrightarrow> vfs_step (bl, s) (bl, s')"
| st_read: "vfs_read tty t fd n [] s = (io, s') \<Longrightarrow> io \<noteq> Waiting \<Longrightarrow> vfs_step (bl, s) (bl, s')"
| st_read_blocks: "vfs_read tty t fd n [] s = (Waiting, s') \<Longrightarrow> resolve_open t fd s = Some a \<Longrightarrow> nat t < length bl \<Longrightarrow> bl ! nat t = None
    \<Longrightarrow> vfs_step (bl, s) (bl[nat t := Some a], s')"
| st_write: "vfs_write tty' t fd bs [] s = (io, s') \<Longrightarrow> io \<noteq> Waiting \<Longrightarrow> vfs_step (bl, s) (bl, s')"
| st_write_blocks: "vfs_write tty' t fd bs [] s = (Waiting, s') \<Longrightarrow> resolve_open t fd s = Some a \<Longrightarrow> nat t < length bl \<Longrightarrow> bl ! nat t = None
    \<Longrightarrow> vfs_step (bl, s) (bl[nat t := Some a], s')"
| st_resume_read: "i < length bl \<Longrightarrow> bl ! i = Some a \<Longrightarrow> of_pipe (desc a s) = Some p \<Longrightarrow> pipe_read p n [] s = (io, s') \<Longrightarrow> io \<noteq> Waiting
    \<Longrightarrow> vfs_step (bl, s) (bl[i := None], open_put a s')"
| st_resume_write: "i < length bl \<Longrightarrow> bl ! i = Some a \<Longrightarrow> of_pipe (desc a s) = Some p \<Longrightarrow> pipe_write p bs [] s = (io, s') \<Longrightarrow> io \<noteq> Waiting
    \<Longrightarrow> vfs_step (bl, s) (bl[i := None], open_put a s')"
| st_killed: "i < length bl \<Longrightarrow> bl ! i = Some a \<Longrightarrow> vfs_step (bl, s) (bl[i := None], open_put a s)"

inductive_cases vfs_stepE: "vfs_step x y"

lemma waiting_bound: "waiting_on bl a \<le> length bl"
  by (simp add: waiting_on_def)

lemma waiting_block:
  assumes "i < length bl" "bl ! i = None"
  shows "waiting_on (bl[i := Some a]) = pin a (waiting_on bl)"
proof
  fix b show "waiting_on (bl[i := Some a]) b = pin a (waiting_on bl) b"
    using filter_update [OF assms(1), of "\<lambda>x. x = Some b" "Some a"] assms(2) by (cases "b = a") (simp_all add: waiting_on_def)
qed

lemma waiting_resume:
  assumes "i < length bl" "bl ! i = Some a"
  shows "waiting_on bl = pin a (waiting_on (bl[i := None]))"
  using waiting_block [of i "bl[i := None]" a] assms list_update_id [of bl i] by simp

lemma typed_pipe_live:
  assumes inv: "vfs_inv pins s" and d: "opens s a = Some d" "of_pipe d = Some p"
  shows "\<exists>q. pipes s p = Some q"
proof -
  have "desc_ok (pipes s) d" using inv typedD(1) [OF _ d(1)] by (simp add: vfs_inv_def)
  then show ?thesis using d(2) by (cases "of_kind d") (auto simp: desc_ok_def)
qed

lemma inv_pinned:
  assumes inv: "vfs_inv pins s" and d: "opens s a = Some d" and b: "\<And>a. pins a \<le> 100" and r: "pinned a f s = (io, s')"
    and f: "\<And>p q s1 io s2. vfs_inv (pin a pins) s1 \<Longrightarrow> pipes s1 p = Some q \<Longrightarrow> f p s1 = (io, s2) \<Longrightarrow> vfs_inv (pin a pins) s2"
  shows "vfs_inv (if io = Waiting then pin a pins else pins) s'"
proof (cases "of_pipe d")
  case None
  then show ?thesis using r inv d by (auto simp: pinned_def desc_def)
next
  case (Some p)
  obtain io1 s1 where o: "f p (open_get a s) = (io1, s1)" using prod.exhaust by blast
  have b1: "pins a \<le> 1000" using b [of a] by simp
  have i1: "vfs_inv (pin a pins) (open_get a s)" by (rule inv_get [OF inv d b1])
  obtain q where "pipes (open_get a s) p = Some q"
    using typed_pipe_live [OF inv d Some] by (auto simp: open_get_def set_open_def)
  then have "vfs_inv (pin a pins) s1" using f [OF i1 _ o] by blast
  then show ?thesis using r Some o d inv_put [of a pins s1] b1
    by (cases io1) (auto simp: pinned_def desc_def)
qed


lemma inv_get_put:
  assumes "vfs_inv pins s" "opens s a = Some d" "pins a \<le> 1000"
  shows "vfs_inv pins (open_put a (open_get a s))"
  by (rule inv_put [OF inv_get [OF assms] assms(3)])

lemma inv_read:
  assumes inv: "vfs_inv pins s" and b: "\<And>a. pins a \<le> 100" and r: "vfs_read tty t fd n [] s = (io, s')"
  shows "io \<noteq> Waiting \<Longrightarrow> vfs_inv pins s'" and "io = Waiting \<Longrightarrow> resolve_open t fd s = Some a \<Longrightarrow> vfs_inv (pin a pins) s'"
proof -
  have "vfs_inv (if io = Waiting then pin (the (resolve_open t fd s)) pins else pins) s'"
  proof (cases "resolve_open t fd s")
    case None
    then show ?thesis using r inv by (auto simp: vfs_read_def tty_get_def split: if_splits option.splits)
  next
    case (Some x)
    then obtain d where d: "opens s x = Some d" using inv_resolved [OF inv] by blast
    have b1: "pins x \<le> 1000" using b [of x] by simp
    have pr: "vfs_inv (pin x pins) s2" if "vfs_inv (pin x pins) s1" "pipes s1 p = Some q" "pipe_read p n [] s1 = (io1, s2)" for p q s1 io1 s2
      using that by (rule inv_pipe_read)
    note io = inv_pinned [OF inv d b, of "\<lambda>p. pipe_read p n []" io s', OF _ pr] inv_file_read [OF inv d, of n io s'] inv_get_put [OF inv d b1]
    have fr: "file_read x n s = (io, s') \<Longrightarrow> io \<noteq> Waiting"
      by (auto simp: file_read_def Let_def split: option.splits prod.splits if_splits)
    show ?thesis using r Some inv io fr
      by (auto simp: vfs_read_def tty_get_def split: if_splits option.splits vfs_kind.splits)
  qed
  then show "io \<noteq> Waiting \<Longrightarrow> vfs_inv pins s'" and "io = Waiting \<Longrightarrow> resolve_open t fd s = Some a \<Longrightarrow> vfs_inv (pin a pins) s'"
    by simp_all
qed

lemma inv_write:
  assumes inv: "vfs_inv pins s" and b: "\<And>a. pins a \<le> 100" and r: "vfs_write tty t fd bs [] s = (io, s')"
  shows "io \<noteq> Waiting \<Longrightarrow> vfs_inv pins s'" and "io = Waiting \<Longrightarrow> resolve_open t fd s = Some a \<Longrightarrow> vfs_inv (pin a pins) s'"
proof -
  have "vfs_inv (if io = Waiting then pin (the (resolve_open t fd s)) pins else pins) s'"
  proof (cases "resolve_open t fd s")
    case None
    then show ?thesis using r inv by (auto simp: vfs_write_def tty_put_def split: if_splits option.splits)
  next
    case (Some x)
    then obtain d where d: "opens s x = Some d" using inv_resolved [OF inv] by blast
    have b1: "pins x \<le> 1000" using b [of x] by simp
    have pr: "vfs_inv (pin x pins) s2" if "vfs_inv (pin x pins) s1" "pipes s1 p = Some q" "pipe_write p bs [] s1 = (io1, s2)" for p q s1 io1 s2
      using that by (rule inv_pipe_write)
    note io = inv_pinned [OF inv d b, of "\<lambda>p. pipe_write p bs []" io s', OF _ pr] inv_file_write [OF inv d, of bs io s'] inv_get_put [OF inv d b1]
    have fr: "file_write x bs s = (io, s') \<Longrightarrow> io \<noteq> Waiting"
      by (auto simp: file_write_def Let_def split: option.splits prod.splits if_splits)
    show ?thesis using r Some inv io fr
      by (auto simp: vfs_write_def tty_put_def split: if_splits option.splits vfs_kind.splits)
  qed
  then show "io \<noteq> Waiting \<Longrightarrow> vfs_inv pins s'" and "io = Waiting \<Longrightarrow> resolve_open t fd s = Some a \<Longrightarrow> vfs_inv (pin a pins) s'"
    by simp_all
qed

lemma inv_readdir:
  assumes "vfs_inv pins s" "vfs_readdir t fd idx cap s = (e, s')"
  shows "vfs_inv pins s'"
  using assms by (auto simp: vfs_readdir_def Let_def split: if_splits option.splits prod.splits)

lemma inv_resume:
  assumes inv: "vfs_inv (waiting_on bl) s" and i: "i < length bl" "bl ! i = Some a" and bl: "length bl \<le> 100"
    and s': "\<And>q. of_pipe (desc a s) = Some p \<Longrightarrow> pipes s p = Some q \<Longrightarrow> vfs_inv (waiting_on bl) s'" and p: "of_pipe (desc a s) = Some p"
  shows "vfs_inv (waiting_on (bl[i := None])) (open_put a s')"
proof -
  have le: "waiting_on (bl[i := None]) a \<le> 1000" using waiting_bound [of "bl[i := None]" a] bl by simp
  obtain d where d: "opens s a = Some d" using inv_open_pinned inv [unfolded waiting_resume [OF i]] by blast
  obtain q where "pipes s p = Some q" using typed_pipe_live [OF inv d] p d by (auto simp: desc_def)
  then have "vfs_inv (pin a (waiting_on (bl[i := None]))) s'" using s' p waiting_resume [OF i] by simp
  then show ?thesis by (rule inv_put) (rule le)
qed

lemma inv_killed:
  assumes inv: "vfs_inv (waiting_on bl) s" and i: "i < length bl" "bl ! i = Some a" and bl: "length bl \<le> 100"
  shows "vfs_inv (waiting_on (bl[i := None])) (open_put a s)"
  by (rule inv_put) (use inv waiting_resume [OF i] waiting_bound [of "bl[i := None]" a] bl in simp_all)

lemma vfs_step_inv:
  assumes "vfs_step x y" "length (fst x) = MAX_TASKS" "vfs_inv (waiting_on (fst x)) (snd x)"
  shows "length (fst y) = MAX_TASKS \<and> vfs_inv (waiting_on (fst y)) (snd y)"
proof -
  have b: "waiting_on (fst x) a \<le> 100" for a using waiting_bound [of "fst x" a] assms(2) by (simp add: MAX_TASKS_def)
  have b': "waiting_on (fst x) a \<le> 1000" for a using b [of a] by simp
  have bl: "length (fst x) \<le> 100" using assms(2) by (simp add: MAX_TASKS_def)
  note inv = assms(3)
  show ?thesis
    using assms(1)
  proof cases
    case (st_read_blocks tty t fd n s s' a bl)
    then show ?thesis using inv_read(2) [OF inv b] waiting_block [of "nat t" bl a] assms(2) by simp
  next
    case (st_write_blocks tty t fd bs s s' a bl)
    then show ?thesis using inv_write(2) [OF inv b] waiting_block [of "nat t" bl a] assms(2) by simp
  next
    case (st_resume_read i bl a s p n io s')
    then show ?thesis using inv_resume [of bl s i a p s'] inv_pipe_read [of _ s p] inv bl assms(2) by auto
  next
    case (st_resume_write i bl a s p bs io s')
    then show ?thesis using inv_resume [of bl s i a p s'] inv_pipe_write [of _ s p] inv bl assms(2) by auto
  next
    case (st_killed i bl a s)
    then show ?thesis using inv_killed [of bl s i a] inv bl assms(2) by simp
  qed (use assms(2) inv inv_task_init inv_open [OF inv] inv_close [OF inv b'] inv_close_all [OF inv b'] inv_dup [OF inv b'] inv_dup2 [OF inv b]
      inv_pipe [OF inv] inv_inherit [OF inv b] inv_fork [OF inv b'] inv_lseek [OF inv] inv_readdir [OF inv] inv_read(1) [OF inv b] inv_write(1) [OF inv b] in simp_all)
qed


text \<open>Boot: the table is all zeroes and nothing is open.\<close>

definition vfs_boot :: "kfs \<Rightarrow> vfs" where
  "vfs_boot k = vfs_init \<lparr>fds = replicate (MAX_TASKS * VFS_MAX_FDS) \<lparr>fd_used = False, fd_owner = 0, fd_flags = 0, fd_open = None\<rparr>,
     opens = (\<lambda>_. None), pipes = (\<lambda>_. None), fresh = 0, fs = k\<rparr>"

definition idle :: "nat option list" where
  "idle = replicate MAX_TASKS None"

lemma vfs_boot_inv: "vfs_inv (waiting_on idle) (vfs_boot k)"
proof -
  have "fdrefs (vfs_boot k) a = 0" for a
    by (simp add: fdrefs_def vfs_boot_def vfs_init_def refers_def)
  then have "counts_ok (waiting_on idle) (vfs_boot k)"
    by (intro countsI) (simp_all add: waiting_on_def idle_def vfs_boot_def vfs_init_def)
  then show ?thesis by (simp add: vfs_inv_def table_ok_def typed_def vfs_boot_def vfs_init_def)
qed

lemma vfs_reach_inv:
  assumes "vfs_step\<^sup>*\<^sup>* (idle, vfs_boot k) (bl, s)"
  shows "vfs_inv (waiting_on bl) s"
proof -
  have "length (fst y) = MAX_TASKS \<and> vfs_inv (waiting_on (fst y)) (snd y)" if "vfs_step\<^sup>*\<^sup>* (idle, vfs_boot k) y" for y
    using that
  proof (induction rule: rtranclp_induct)
    case base
    show ?case using vfs_boot_inv by (simp add: idle_def)
  next
    case (step y z)
    show ?case by (rule vfs_step_inv [OF step.hyps(2)]) (use step.IH in simp_all)
  qed
  from this [OF assms] show ?thesis by simp
qed


text \<open>Task 3 makes a pipe and blocks reading it.\<close>

definition piped :: vfs where
  "piped = snd (vfs_pipe_fds 3 (vfs_boot small_fs))"

definition blocked_reader :: vfs where
  "blocked_reader = snd (vfs_read None 3 0 10 [] piped)"

lemma kmalloc_v_small: "heap_future (fs s) = [] \<Longrightarrow> kmalloc_v n s = (True, s)"
  by (simp add: kmalloc_v_def kmalloc_fs_def)

lemma pipe_alloc_boot:
  "pipe_alloc (vfs_boot small_fs) = (Some (0, 1, 2), (vfs_boot small_fs)\<lparr>opens := [0 \<mapsto> pipe_desc KIND_PIPE_READ rdonly 2, 1 \<mapsto> pipe_desc KIND_PIPE_WRITE wronly 2],
     pipes := [2 \<mapsto> new_pipe], fresh := 3\<rparr>)"
proof -
  have h: "heap_future (fs (vfs_boot small_fs)) = []" "fresh (vfs_boot small_fs) = 0" "opens (vfs_boot small_fs) = (\<lambda>_. None)"
    "pipes (vfs_boot small_fs) = (\<lambda>_. None)"
    by (simp_all add: vfs_boot_def vfs_init_def small_fs_def)
  show ?thesis
    by (simp add: pipe_alloc_def kmalloc_v_small h open_alloc_def Let_def set_open_def desc_def pipe_desc_def fun_upd_twist numeral_2_eq_2 numeral_3_eq_3)
qed

lemma piped_state:
  "vfs_pipe_fds 3 (vfs_boot small_fs) = (Some (0, 1), piped)"
  "opens piped = [0 \<mapsto> pipe_desc KIND_PIPE_READ rdonly 2, 1 \<mapsto> pipe_desc KIND_PIPE_WRITE wronly 2]"
  "pipes piped = [2 \<mapsto> new_pipe]" "resolve_open 3 0 piped = Some 0"
proof -
  have l: "length (fds (vfs_boot small_fs)) = 256" "i < 256 \<Longrightarrow> fds (vfs_boot small_fs) ! i = \<lparr>fd_used = False, fd_owner = 0, fd_flags = 0, fd_open = None\<rparr>" for i
    by (simp_all add: vfs_boot_def vfs_init_def MAX_TASKS_def VFS_MAX_FDS_def)
  have "\<not> fd_used (fds (vfs_boot small_fs) ! (nat 3 * VFS_MAX_FDS + i))" if "i < VFS_MAX_FDS" for i
    using that by (simp add: l VFS_MAX_FDS_def)
  then have "filter (\<lambda>i. \<not> fd_used (fds (vfs_boot small_fs) ! (nat 3 * VFS_MAX_FDS + i))) [0..<VFS_MAX_FDS] = [0..<VFS_MAX_FDS]"
    by (intro filter_True) simp
  moreover have "[0..<VFS_MAX_FDS] = 0 # 1 # [2..<VFS_MAX_FDS]"
    using upt_conv_Cons [of 0 VFS_MAX_FDS] upt_conv_Cons [of 1 VFS_MAX_FDS] by (simp add: VFS_MAX_FDS_def numeral_2_eq_2)
  ultimately have f: "filter (\<lambda>i. \<not> fd_used (fds (vfs_boot small_fs) ! (nat 3 * VFS_MAX_FDS + i))) [0..<VFS_MAX_FDS] = 0 # 1 # [2..<VFS_MAX_FDS]"
    by (rule trans)
  have r: "vfs_pipe_fds 3 (vfs_boot small_fs) = (Some (0, 1), set_fd 49 (occupied 3 1) (set_fd 48 (occupied 3 0)
      ((vfs_boot small_fs)\<lparr>opens := [0 \<mapsto> pipe_desc KIND_PIPE_READ rdonly 2, 1 \<mapsto> pipe_desc KIND_PIPE_WRITE wronly 2], pipes := [2 \<mapsto> new_pipe], fresh := 3\<rparr>)))"
    unfolding vfs_pipe_fds_def pipe_alloc_boot using f by (simp add: MAX_TASKS_def VFS_MAX_FDS_def del: upt.simps)
  then have p: "piped = set_fd 49 (occupied 3 1) (set_fd 48 (occupied 3 0)
      ((vfs_boot small_fs)\<lparr>opens := [0 \<mapsto> pipe_desc KIND_PIPE_READ rdonly 2, 1 \<mapsto> pipe_desc KIND_PIPE_WRITE wronly 2], pipes := [2 \<mapsto> new_pipe], fresh := 3\<rparr>))"
    by (simp add: piped_def)
  show "vfs_pipe_fds 3 (vfs_boot small_fs) = (Some (0, 1), piped)" using r p by simp
  show "opens piped = [0 \<mapsto> pipe_desc KIND_PIPE_READ rdonly 2, 1 \<mapsto> pipe_desc KIND_PIPE_WRITE wronly 2]"
    "pipes piped = [2 \<mapsto> new_pipe]" by (simp_all add: p set_fd_def)
  show "resolve_open 3 0 piped = Some 0"
    by (simp add: resolve_open_def slot_of_def MAX_TASKS_def VFS_MAX_FDS_def p set_fd_def l nth_list_update occupied_def)
qed

lemma blocked_reader_state:
  "vfs_read None 3 0 10 [] piped = (Waiting, blocked_reader)" "blocked_reader = open_get 0 piped"
proof -
  have "vfs_read None 3 0 10 [] piped = (Waiting, open_get 0 piped)"
    by (simp add: vfs_read_def piped_state desc_def pipe_desc_def rdonly_def pinned_def pipe_read.simps open_get_def set_open_def new_pipe_def)
  then show "vfs_read None 3 0 10 [] piped = (Waiting, blocked_reader)" "blocked_reader = open_get 0 piped"
    by (simp_all add: blocked_reader_def)
qed

lemma blocked_reader_reached: "vfs_step\<^sup>*\<^sup>* (idle, vfs_boot small_fs) (idle[3 := Some 0], blocked_reader)"
proof -
  have "vfs_step (idle, vfs_boot small_fs) (idle, piped)" by (rule st_pipe [OF piped_state(1)])
  moreover have "vfs_step (idle, piped) (idle[nat 3 := Some 0], blocked_reader)"
    by (rule st_read_blocks [OF blocked_reader_state(1) piped_state(4)]) (simp_all add: idle_def MAX_TASKS_def)
  ultimately show ?thesis by (simp add: converse_rtranclp_into_rtranclp)
qed


text \<open>C4 (type). Descriptions stay well typed under every interleaving: a descriptor of a task resolves to a live description
  whose payload fits its kind.  A file or directory descriptor has a vnode of that type and no pipe, a console
  descriptor has neither, and a pipe end has a live pipe with its own side still open and the access mode of its side.\<close>

theorem vfs_descriptions_typed:
  assumes "vfs_step\<^sup>*\<^sup>* (idle, vfs_boot k) (bl, s)" and "resolve_open t fd s = Some a"
  shows "\<exists>d. opens s a = Some d \<and> desc_ok (pipes s) d"
proof -
  note inv = vfs_reach_inv [OF assms(1)]
  obtain d where d: "opens s a = Some d" using inv_resolved [OF inv assms(2)] by blast
  then show ?thesis using typedD(1) [of s a d] inv by (simp add: vfs_inv_def)
qed

theorem vfs_descriptions_typed_witness:
  "vfs_step\<^sup>*\<^sup>* (idle, vfs_boot small_fs) (idle, piped) \<and> resolve_open 3 0 piped = Some 0
   \<and> (\<exists>d. opens piped 0 = Some d \<and> desc_ok (pipes piped) d)"
proof -
  have r: "vfs_step\<^sup>*\<^sup>* (idle, vfs_boot small_fs) (idle, piped)" using st_pipe [OF piped_state(1)] by blast
  then show ?thesis using vfs_descriptions_typed [OF r piped_state(4)] piped_state(4) by blast
qed


section \<open>A pipe is a byte stream\<close>

text \<open>The contract: a bounded list of bytes, with end of file when no writer is left and refusal when no reader is.\<close>

datatype pipe_op = PRead nat | PWrite "byte list"

fun stream_op :: "bool \<Rightarrow> bool \<Rightarrow> pipe_op \<Rightarrow> byte list \<Rightarrow> io \<times> byte list" where
  "stream_op reader writer (PRead n) xs =
     (if xs \<noteq> [] then (Ret (int (length (take n xs))) (take n xs), drop n xs)
      else if \<not> writer then (Ret 0 [], xs) else (Waiting, xs))"
| "stream_op reader writer (PWrite bs) xs =
     (if \<not> reader then (Ret (- 1) [], xs)
      else if length xs < 4096 then (Ret (int (min (length bs) (4096 - length xs))) [], xs @ take (4096 - length xs) bs)
      else (Waiting, xs))"

fun stream_run :: "bool \<Rightarrow> bool \<Rightarrow> pipe_op list \<Rightarrow> byte list \<Rightarrow> io list \<times> byte list" where
  "stream_run rd wr [] xs = ([], xs)"
| "stream_run rd wr (op # ops) xs =
     (let (r, ys) = stream_op rd wr op xs; (rs, zs) = stream_run rd wr ops ys in (r # rs, zs))"

definition pipe_op_step :: "nat \<Rightarrow> pipe_op \<Rightarrow> vfs \<Rightarrow> io \<times> vfs" where
  "pipe_op_step p op s = (case op of PRead n \<Rightarrow> pipe_read p n [] s | PWrite bs \<Rightarrow> pipe_write p bs [] s)"

fun pipe_run :: "nat \<Rightarrow> pipe_op list \<Rightarrow> vfs \<Rightarrow> io list \<times> vfs" where
  "pipe_run p [] s = ([], s)"
| "pipe_run p (op # ops) s =
     (let (r, s1) = pipe_op_step p op s; (rs, s2) = pipe_run p ops s1 in (r # rs, s2))"

lemma pipe_op_refines:
  assumes q: "pipes s p = Some q" "pipe_wf q" and r: "pipe_op_step p op s = (r, s')"
  shows "\<exists>q1. pipes s' p = Some q1 \<and> pipe_wf q1 \<and> p_readers q1 = p_readers q \<and> p_writers q1 = p_writers q
    \<and> stream_op (p_readers q \<noteq> 0) (p_writers q \<noteq> 0) op (pipe_bytes q) = (r, pipe_bytes q1)"
proof -
  have len: "length (pipe_bytes q) = p_used q" by (simp add: pipe_bytes_def)
  then have e: "p_used q > 0 \<longleftrightarrow> pipe_bytes q \<noteq> []" by (metis length_greater_0_conv)
  show ?thesis
  proof (cases op)
    case (PRead n)
    obtain bs q1 where t: "pipe_take n q = (bs, q1)" using prod.exhaust by blast
    show ?thesis using pipe_take_spec [OF q(2) t] r q PRead t e
      by (auto simp: pipe_op_step_def pipe_read.simps split: if_splits)
  next
    case (PWrite bs)
    obtain n q1 where t: "pipe_give bs q = (n, q1)" using prod.exhaust by blast
    note sp = pipe_give_spec [OF q(2) t]
    have "take n bs = take (4096 - p_used q) bs" using sp(1) len by (simp add: VFS_PIPE_CAP_def min_def)
    then show ?thesis using sp r q PWrite t len
      by (auto simp: pipe_op_step_def pipe_write.simps VFS_PIPE_CAP_def split: if_splits)
  qed
qed

text \<open>C7 (refinement). A pipe implements a byte stream of at most 4096 bytes.  In every state the descriptor layer can
  reach, any sequence of reads and writes on a live pipe gives the results of the stream: bytes come out once, in the
  order they went in, across every wrap of the circular buffer; a write takes as much as fits; an empty pipe blocks
  while a writer is left and reports end of file after that; a write without a reader fails.\<close>

theorem pipe_refines_stream:
  assumes "vfs_step\<^sup>*\<^sup>* (idle, vfs_boot k) (bl, s)" and "pipes s p = Some q" and "pipe_run p ops s = (rs, s')"
  shows "\<exists>q1. pipes s' p = Some q1 \<and> stream_run (p_readers q \<noteq> 0) (p_writers q \<noteq> 0) ops (pipe_bytes q) = (rs, pipe_bytes q1)"
proof -
  have "pipe_wf q" using vfs_reach_inv [OF assms(1)] typedD(5) [of s p q] assms(2) by (simp add: vfs_inv_def)
  with assms(2,3) show ?thesis
  proof (induction ops arbitrary: s q rs)
    case (Cons op ops)
    obtain r s1 where o: "pipe_op_step p op s = (r, s1)" using prod.exhaust by blast
    obtain rs1 s2 where run: "pipe_run p ops s1 = (rs1, s2)" using prod.exhaust by blast
    have eq: "rs = r # rs1" "s' = s2" using Cons.prems(2) o run by simp_all
    obtain q1 where q1: "pipes s1 p = Some q1" "pipe_wf q1" "p_readers q1 = p_readers q" "p_writers q1 = p_writers q"
      "stream_op (p_readers q \<noteq> 0) (p_writers q \<noteq> 0) op (pipe_bytes q) = (r, pipe_bytes q1)"
      using pipe_op_refines [OF Cons.prems(1,3) o] by blast
    show ?case using Cons.IH [OF q1(1) run [folded eq(2)] q1(2)] q1 eq by auto
  qed simp
qed

theorem pipe_refines_stream_witness:
  "vfs_step\<^sup>*\<^sup>* (idle, vfs_boot small_fs) (idle, piped) \<and> pipes piped 2 = Some new_pipe
   \<and> (\<exists>rs s' q1. pipe_run 2 [PWrite [1, 2, 3], PRead 2, PRead 5, PRead 1] piped = (rs, s') \<and> pipes s' 2 = Some q1
        \<and> rs = [Ret 3 [], Ret 2 [1, 2], Ret 1 [3], Waiting] \<and> pipe_bytes q1 = [])"
proof -
  have r: "vfs_step\<^sup>*\<^sup>* (idle, vfs_boot small_fs) (idle, piped)" using st_pipe [OF piped_state(1)] by blast
  have p: "pipes piped 2 = Some new_pipe" by (simp add: piped_state(3))
  obtain rs s' where run: "pipe_run 2 [PWrite [1, 2, 3], PRead 2, PRead 5, PRead 1] piped = (rs, s')" using prod.exhaust by blast
  have "\<exists>q1. pipes s' 2 = Some q1 \<and> rs = [Ret 3 [], Ret 2 [1, 2], Ret 1 [3], Waiting] \<and> pipe_bytes q1 = []"
    using pipe_refines_stream [OF r p run] by (auto simp: new_pipe_def pipe_bytes_def)
  then show ?thesis using run r p by blast
qed

end
