(* ===== verification/Sched.thy ===== *)
theory Sched
  imports Kz_Base
begin

text \<open>
  The scheduler: per-CPU run queues with aging and work stealing (\<^verbatim>\<open>kernel/sched/runqueue.c\<close>), blocking and
  sleeping (\<^verbatim>\<open>kernel/sched/block.c\<close>), the switch itself (\<^verbatim>\<open>kernel/sched/core.c\<close>), and the birth of tasks
  (\<^verbatim>\<open>kernel/sched/lifecycle.c\<close>).

  Task ids, CPU numbers and times are numbers, \<open>cpu_current_task\<close> is \<open>None\<close> where the code has -1.  Each
  function is one step under the scheduler lock; where the code drops the lock between making a task ready and
  putting it on a queue, the model has two functions, so that other CPUs may act in between.  The hardware side
  of a switch (stack pointer of the next privilege change, floating-point registers, page table base) is not
  part of the state.
\<close>

section \<open>Tasks\<close>

definition SMP_MAX_CPUS :: nat where "SMP_MAX_CPUS = 16"
definition TASK_STACK_SIZE :: nat where "TASK_STACK_SIZE = 16384"

datatype task_state = TASK_READY | TASK_RUNNING | TASK_SLEEPING | TASK_DEAD | TASK_BLOCKED | TASK_ZOMBIE

datatype task_kind = TASK_KIND_KERNEL | TASK_KIND_SPAWNED

record cred =
  uid :: nat
  gid :: nat

record task =
  tk_id :: nat
  tk_rsp :: nat
  tk_stack_base :: nat
  tk_state :: task_state
  tk_name :: "byte list"
  tk_pml4 :: nat
  tk_cookie :: nat
  tk_wake_at :: nat
  tk_priority :: nat
  tk_enqueue :: nat
  tk_kind :: task_kind
  tk_cred :: cred
  tk_parent :: "nat option"
  tk_exit_code :: int
  tk_argc :: int
  tk_exit_reason :: nat
  tk_kill_pending :: bool

record sched =
  tasks :: "nat \<Rightarrow> task"
  task_count :: nat
  cpu_cur :: "nat \<Rightarrow> nat option"
  runqs :: "nat \<Rightarrow> nat list"
  now :: nat
  online :: nat

definition st_of :: "sched \<Rightarrow> nat \<Rightarrow> task_state" where
  "st_of s t = tk_state (tasks s t)"

definition upd_task :: "nat \<Rightarrow> (task \<Rightarrow> task) \<Rightarrow> sched \<Rightarrow> sched" where
  "upd_task t f s = s\<lparr>tasks := (tasks s)(t := f (tasks s t))\<rparr>"

definition set_state :: "nat \<Rightarrow> task_state \<Rightarrow> sched \<Rightarrow> sched" where
  "set_state t st s = upd_task t (\<lambda>k. k\<lparr>tk_state := st\<rparr>) s"

definition set_runq :: "nat \<Rightarrow> nat list \<Rightarrow> sched \<Rightarrow> sched" where
  "set_runq c es s = s\<lparr>runqs := (runqs s)(c := es)\<rparr>"

section \<open>Run queues\<close>

definition RUNQ_CAPACITY :: nat where "RUNQ_CAPACITY = MAX_TASKS"
definition AGE_STEP_MS :: nat where "AGE_STEP_MS = 100"
definition AGE_MAX_BONUS :: nat where "AGE_MAX_BONUS = 8"

definition effective_prio :: "sched \<Rightarrow> nat \<Rightarrow> nat" where
  "effective_prio s t =
     (let base = tk_priority (tasks s t);
          enq = tk_enqueue (tasks s t);
          waited = (if now s > enq then now s - enq else 0);
          bonus = u32 (waited div AGE_STEP_MS);
          bonus1 = (if bonus > AGE_MAX_BONUS then AGE_MAX_BONUS else bonus)
      in u32 (base + bonus1))"

definition runq_init :: "sched \<Rightarrow> sched" where
  "runq_init s = s\<lparr>runqs := (\<lambda>c. if c < SMP_MAX_CPUS then [] else runqs s c)\<rparr>"

definition runq_len :: "nat \<Rightarrow> sched \<Rightarrow> nat" where
  "runq_len c s = (if c \<ge> SMP_MAX_CPUS then 0 else length (runqs s c))"

definition runq_push :: "nat \<Rightarrow> nat \<Rightarrow> sched \<Rightarrow> bool \<times> sched" where
  "runq_push c t s =
     (if length (runqs s c) \<ge> RUNQ_CAPACITY then (False, s)
      else (True, set_runq c (runqs s c @ [t]) (upd_task t (\<lambda>k. k\<lparr>tk_enqueue := now s\<rparr>) s)))"

fun best_scan :: "sched \<Rightarrow> nat list \<Rightarrow> nat list \<Rightarrow> nat \<Rightarrow> nat \<Rightarrow> nat" where
  "best_scan s es [] best_i best_prio = best_i"
| "best_scan s es (i # is) best_i best_prio =
     (let p = effective_prio s (es ! i) in
      if p > best_prio \<or> (p = best_prio \<and> tk_enqueue (tasks s (es ! i)) < tk_enqueue (tasks s (es ! best_i)))
      then best_scan s es is i p else best_scan s es is best_i best_prio)"

text \<open>The gap left by an entry is filled with the last one.\<close>

definition compact :: "nat list \<Rightarrow> nat \<Rightarrow> nat list" where
  "compact es i = butlast (es[i := last es])"

definition runq_pop :: "nat \<Rightarrow> sched \<Rightarrow> nat option \<times> sched" where
  "runq_pop c s =
     (let es = runqs s c in
      if es = [] then (None, s)
      else let b = best_scan s es [1..<length es] 0 (effective_prio s (es ! 0))
           in (Some (es ! b), set_runq c (compact es b) s))"

function remove_loop :: "nat \<Rightarrow> nat \<Rightarrow> nat list \<Rightarrow> nat list" where
  "remove_loop t i es =
     (if i < length es then
        (if es ! i = t then remove_loop t i (compact es i) else remove_loop t (i + 1) es)
      else es)"
  by pat_completeness auto
termination
  by (relation "measure (\<lambda>(t, i, es). length es - i)") (auto simp: compact_def)

declare remove_loop.simps [simp del]

definition runq_remove :: "nat \<Rightarrow> nat \<Rightarrow> sched \<Rightarrow> bool \<times> sched" where
  "runq_remove c t s =
     (if c \<ge> SMP_MAX_CPUS then (False, s)
      else (t \<in> set (runqs s c), set_runq c (remove_loop t 0 (runqs s c)) s))"

fun pick_loop :: "sched \<Rightarrow> nat list \<Rightarrow> nat \<Rightarrow> nat \<Rightarrow> nat" where
  "pick_loop s [] best_cpu best_load = best_cpu"
| "pick_loop s (i # is) best_cpu best_load =
     (if cpu_cur s i = None \<and> runqs s i = [] then i
      else
        let load = length (runqs s i) + (if cpu_cur s i \<noteq> None then 1 else 0) in
        if load < best_load then pick_loop s is i load else pick_loop s is best_cpu best_load)"

definition pick_target_cpu :: "sched \<Rightarrow> nat" where
  "pick_target_cpu s =
     (let n = (if online s > SMP_MAX_CPUS then SMP_MAX_CPUS else online s) in
      if n = 0 then 0 else pick_loop s [0..<n] 0 4294967295)"

fun victim_scan :: "sched \<Rightarrow> nat \<Rightarrow> nat list \<Rightarrow> nat option \<Rightarrow> nat \<Rightarrow> nat option" where
  "victim_scan s self_cpu [] victim best = victim"
| "victim_scan s self_cpu (i # is) victim best =
     (if i = self_cpu then victim_scan s self_cpu is victim best
      else if length (runqs s i) > best then victim_scan s self_cpu is (Some i) (length (runqs s i))
      else victim_scan s self_cpu is victim best)"

definition steal_task :: "nat \<Rightarrow> sched \<Rightarrow> nat option \<times> sched" where
  "steal_task self_cpu s =
     (let n = (if online s > SMP_MAX_CPUS then SMP_MAX_CPUS else online s) in
      case victim_scan s self_cpu [0..<n] None 0 of
        None \<Rightarrow> (None, s)
      | Some v \<Rightarrow> runq_pop v s)"

definition scheduler_remove_task :: "nat \<Rightarrow> sched \<Rightarrow> sched" where
  "scheduler_remove_task t s =
     (if t \<ge> MAX_TASKS then s else fold (\<lambda>c s. snd (runq_remove c t s)) [0..<SMP_MAX_CPUS] s)"

section \<open>Blocking\<close>

definition block_prepare :: "nat \<Rightarrow> task_state \<Rightarrow> sched \<Rightarrow> nat option \<times> sched" where
  "block_prepare cpu new_state s =
     (if new_state \<noteq> TASK_SLEEPING \<and> new_state \<noteq> TASK_BLOCKED then (None, s)
      else case (if cpu < SMP_MAX_CPUS then cpu_cur s cpu else None) of
             None \<Rightarrow> (None, s)
           | Some self \<Rightarrow>
               if self \<ge> task_count s then (None, s)
               else if st_of s self \<noteq> TASK_RUNNING then (None, s)
               else (Some self, set_state self new_state s))"

text \<open>Waking a task: the part under the lock, which says whether the task has yet to be queued, and the queueing.\<close>

definition on_cpu :: "nat \<Rightarrow> sched \<Rightarrow> nat option" where
  "on_cpu t s = find (\<lambda>c. cpu_cur s c = Some t) [0..<SMP_MAX_CPUS]"

definition unblock_locked :: "nat \<Rightarrow> sched \<Rightarrow> bool \<times> sched" where
  "unblock_locked t s =
     (if t \<ge> MAX_TASKS then (False, s)
      else if st_of s t \<noteq> TASK_SLEEPING \<and> st_of s t \<noteq> TASK_BLOCKED then (False, s)
      else
        let s1 = upd_task t (\<lambda>k. k\<lparr>tk_wake_at := 0\<rparr>) s in
        if on_cpu t s1 \<noteq> None then (False, set_state t TASK_RUNNING s1)
        else (True, set_state t TASK_READY s1))"

definition unblock_enqueue :: "nat \<Rightarrow> sched \<Rightarrow> sched" where
  "unblock_enqueue t s =
     (case runq_push (pick_target_cpu s) t s of
        (True, s1) \<Rightarrow> s1
      | (False, s1) \<Rightarrow> if st_of s1 t = TASK_READY then set_state t TASK_BLOCKED s1 else s1)"

definition unblock_task :: "nat \<Rightarrow> sched \<Rightarrow> sched" where
  "unblock_task t s = (let (queue, s1) = unblock_locked t s in if queue then unblock_enqueue t s1 else s1)"

definition sleep_prepare :: "nat \<Rightarrow> nat \<Rightarrow> sched \<Rightarrow> nat option \<times> sched" where
  "sleep_prepare cpu ms s =
     (case (if cpu < SMP_MAX_CPUS then cpu_cur s cpu else None) of
        None \<Rightarrow> (None, s)
      | Some self \<Rightarrow>
          if self \<ge> task_count s then (None, s)
          else block_prepare cpu TASK_SLEEPING (upd_task self (\<lambda>k. k\<lparr>tk_wake_at := u64 (now s + ms)\<rparr>) s))"

definition due_sleepers :: "sched \<Rightarrow> nat list" where
  "due_sleepers s =
     filter (\<lambda>i. st_of s i = TASK_SLEEPING \<and> tk_wake_at (tasks s i) \<noteq> 0 \<and> now s \<ge> tk_wake_at (tasks s i))
       [0..<min MAX_TASKS (task_count s)]"

definition sleepq_check_wakeups :: "sched \<Rightarrow> sched" where
  "sleepq_check_wakeups s = fold unblock_task (due_sleepers s) s"

section \<open>Switching\<close>

definition pop_or_steal :: "nat \<Rightarrow> sched \<Rightarrow> nat option \<times> sched" where
  "pop_or_steal c s = (case runq_pop c s of (Some t, s1) \<Rightarrow> (Some t, s1) | (None, s1) \<Rightarrow> steal_task c s1)"

text \<open>\<open>frame\<close> is the saved context of whatever the CPU was running; the result is the context it resumes.\<close>

definition switch_to :: "nat \<Rightarrow> nat \<Rightarrow> sched \<Rightarrow> nat \<times> sched" where
  "switch_to c t s =
     (let s1 = set_state t TASK_RUNNING s; s2 = s1\<lparr>cpu_cur := (cpu_cur s1)(c \<mapsto> t)\<rparr> in (tk_rsp (tasks s2 t), s2))"

definition schedule_on_cpu :: "nat \<Rightarrow> nat \<Rightarrow> sched \<Rightarrow> nat \<times> sched" where
  "schedule_on_cpu c frame s =
     (if c \<ge> SMP_MAX_CPUS \<or> frame = 0 then (frame, s)
      else if task_count s = 0 then (frame, s)
      else
        let live = (case cpu_cur s c of Some t \<Rightarrow> t < task_count s | None \<Rightarrow> False);
            cur = the (cpu_cur s c);
            cur_running = (live \<and> st_of s cur = TASK_RUNNING);
            cur_blocked = (live \<and> (st_of s cur = TASK_SLEEPING \<or> st_of s cur = TASK_BLOCKED));
            s1 = (if \<not> cur_running \<and> \<not> cur_blocked then s\<lparr>cpu_cur := (cpu_cur s)(c := None)\<rparr> else s)
        in case pop_or_steal c s1 of
             (None, s2) \<Rightarrow> (frame, if cur_blocked then upd_task cur (\<lambda>k. k\<lparr>tk_rsp := frame\<rparr>) s2 else s2)
           | (Some t, s2) \<Rightarrow>
               if t \<ge> task_count s2 \<or> st_of s2 t \<noteq> TASK_READY \<or> tk_rsp (tasks s2 t) = 0 then (frame, s2)
               else if cur_running then
                 let s3 = upd_task cur (\<lambda>k. k\<lparr>tk_rsp := frame, tk_state := TASK_READY\<rparr>) s2 in
                 (case runq_push c cur s3 of
                    (False, s4) \<Rightarrow> (frame, snd (runq_push c t (set_state cur TASK_RUNNING s4)))
                  | (True, s4) \<Rightarrow> switch_to c t s4)
               else switch_to c t (if cur_blocked then upd_task cur (\<lambda>k. k\<lparr>tk_rsp := frame\<rparr>) s2 else s2))"

definition smp_current_task_id :: "nat \<Rightarrow> sched \<Rightarrow> nat option" where
  "smp_current_task_id cpu s = (if cpu \<ge> SMP_MAX_CPUS then None else cpu_cur s cpu)"

end
