(* ===== verification/Proc.thy ===== *)
theory Proc
  imports Sched
begin

text \<open>
  The life of a task: slots and initial frames (\<^verbatim>\<open>kernel/sched/lifecycle.c\<close>, \<^verbatim>\<open>kernel/sched/task_stack.c\<close>,
  \<^verbatim>\<open>kernel/sched/context_validate.c\<close>), and exit, kill, wait and argument passing (\<^verbatim>\<open>kernel/proc/proc.c\<close>).

  A task is made in two steps, as in the code: its slot is filled and marked ready under the scheduler lock, and
  it is queued after the lock was dropped.  A kill of a ready task is also two steps: the purge from the queues,
  and the transition after the cleanup of its other resources.  Those other resources (descriptors, events,
  windows, address space, user heap) belong to other components.
\<close>

section \<open>Stacks and first frames\<close>

definition STACK_GUARD :: nat where "STACK_GUARD = 4096"
definition KZ_FAKE_FRAME_PAD :: nat where "KZ_FAKE_FRAME_PAD = 8"
definition KZ_REGISTERS_SIZE :: nat where "KZ_REGISTERS_SIZE = 176"

definition task_stack_top :: "nat \<Rightarrow> nat" where
  "task_stack_top base = (if base = 0 then 0 else u64 (base + STACK_GUARD + TASK_STACK_SIZE))"

definition task_stack_guard_addr :: "nat \<Rightarrow> nat" where
  "task_stack_guard_addr base = base"

definition fake_frame_top :: "nat \<Rightarrow> nat" where
  "fake_frame_top stack_top = sub64 stack_top KZ_FAKE_FRAME_PAD"

record registers =
  r15 :: nat
  r14 :: nat
  r13 :: nat
  r12 :: nat
  r11 :: nat
  r10 :: nat
  r9 :: nat
  r8 :: nat
  rdi :: nat
  rsi :: nat
  rbp :: nat
  rdx :: nat
  rcx :: nat
  rbx :: nat
  rax :: nat
  int_num :: nat
  error_code :: nat
  rip :: nat
  cs :: nat
  rflags :: nat
  rsp :: nat
  ss :: nat

definition zero_regs :: registers where
  "zero_regs = \<lparr>r15 = 0, r14 = 0, r13 = 0, r12 = 0, r11 = 0, r10 = 0, r9 = 0, r8 = 0, rdi = 0, rsi = 0, rbp = 0, rdx = 0,
     rcx = 0, rbx = 0, rax = 0, int_num = 0, error_code = 0, rip = 0, cs = 0, rflags = 0, rsp = 0, ss = 0\<rparr>"

text \<open>Twenty-two words pushed downwards from \<open>fake_frame_top\<close>; the task starts from the address of the last one.\<close>

definition frame_addr :: "nat \<Rightarrow> nat" where
  "frame_addr stack_top = sub64 (fake_frame_top stack_top) KZ_REGISTERS_SIZE"

definition kernel_frame :: "nat \<Rightarrow> nat \<Rightarrow> nat \<Rightarrow> registers" where
  "kernel_frame stack_top trampoline func =
     zero_regs\<lparr>ss := 16, rsp := fake_frame_top stack_top, rflags := 514, cs := 8, rip := trampoline, rdi := func\<rparr>"

definition user_frame :: "nat \<Rightarrow> nat \<Rightarrow> nat \<Rightarrow> nat \<Rightarrow> registers" where
  "user_frame entry_rip user_rsp argc argv =
     zero_regs\<lparr>ss := 35, rsp := user_rsp, rflags := 514, cs := 27, rip := entry_rip, rsi := argv, rdi := argc\<rparr>"

definition fork_frame_addr :: "nat \<Rightarrow> nat" where
  "fork_frame_addr stack = sub64 (u64 (stack + TASK_STACK_SIZE)) KZ_REGISTERS_SIZE"

definition fork_frame :: "registers \<Rightarrow> registers" where
  "fork_frame parent = parent\<lparr>rax := 0, int_num := 128, error_code := 0\<rparr>"

definition kz_is_canonical :: "nat \<Rightarrow> bool" where
  "kz_is_canonical a \<longleftrightarrow> a < 0x0000800000000000 \<or> a \<ge> 0xFFFF800000000000"

definition context_rsp_is_valid :: "nat \<Rightarrow> bool" where
  "context_rsp_is_valid a =
     (if \<not> kz_is_canonical a then False
      else if a < 0xFFFF800000000000 then False
      else if a mod 8 \<noteq> 0 then False
      else if a > 18446744073709551615 - 256 then False
      else True)"

section \<open>Slots\<close>

definition PRIO_NORMAL :: nat where "PRIO_NORMAL = 1"

definition task_strncpy :: "byte list \<Rightarrow> nat \<Rightarrow> byte list" where
  "task_strncpy src n = take (n - 1) (takeWhile (\<lambda>c. c \<noteq> 0) src)"

definition dead_task :: task where
  "dead_task = \<lparr>tk_id = 0, tk_rsp = 0, tk_stack_base = 0, tk_state = TASK_DEAD, tk_name = [], tk_pml4 = 0, tk_cookie = 0, tk_wake_at = 0,
     tk_priority = PRIO_NORMAL, tk_enqueue = 0, tk_kind = TASK_KIND_KERNEL, tk_cred = \<lparr>uid = 0, gid = 0\<rparr>, tk_parent = None,
     tk_exit_code = 0, tk_argc = 0, tk_exit_reason = 0, tk_kill_pending = False\<rparr>"

definition tasking_init :: "nat \<Rightarrow> nat \<Rightarrow> sched" where
  "tasking_init cpus t0 =
     \<lparr>tasks = (\<lambda>_. dead_task)(0 := dead_task\<lparr>tk_state := TASK_RUNNING, tk_name := [107, 109, 97, 105, 110]\<rparr>),
      task_count = 1, cpu_cur = [0 \<mapsto> 0], runqs = (\<lambda>_. []), now = t0, online = cpus\<rparr>"

definition alloc_slot :: "sched \<Rightarrow> nat option \<times> sched" where
  "alloc_slot s =
     (case find (\<lambda>i. st_of s i = TASK_DEAD) [1..<task_count s] of
        Some i \<Rightarrow> (Some i, s)
      | None \<Rightarrow> if task_count s < MAX_TASKS then (Some (task_count s), s\<lparr>task_count := task_count s + 1\<rparr>) else (None, s))"

definition creator_of :: "nat \<Rightarrow> sched \<Rightarrow> nat option" where
  "creator_of cpu s = (case smp_current_task_id cpu s of Some p \<Rightarrow> if p < task_count s then Some p else None | None \<Rightarrow> None)"

definition fill_slot :: "nat \<Rightarrow> task \<Rightarrow> sched \<Rightarrow> sched" where
  "fill_slot slot k s = upd_task slot (\<lambda>old. k\<lparr>tk_id := slot, tk_state := TASK_READY, tk_wake_at := 0, tk_exit_code := 0,
     tk_exit_reason := 0, tk_kill_pending := False, tk_enqueue := tk_enqueue old\<rparr>) s"

text \<open>The locked part of the three ways to make a task; \<open>stack\<close> comes from the stack allocator.\<close>

definition create_task_locked :: "nat \<Rightarrow> nat \<Rightarrow> byte list \<Rightarrow> nat \<Rightarrow> sched \<Rightarrow> nat option \<times> sched" where
  "create_task_locked cpu stack name priority s =
     (case alloc_slot s of
        (None, s1) \<Rightarrow> (None, s1)
      | (Some slot, s1) \<Rightarrow>
          let c = creator_of cpu s1;
              k = dead_task\<lparr>tk_rsp := frame_addr (task_stack_top stack), tk_stack_base := stack, tk_priority := priority,
                    tk_kind := TASK_KIND_KERNEL, tk_parent := c,
                    tk_cred := (case c of Some p \<Rightarrow> tk_cred (tasks s1 p) | None \<Rightarrow> \<lparr>uid = 0, gid = 0\<rparr>),
                    tk_name := task_strncpy name 16\<rparr>
          in (Some slot, fill_slot slot k s1))"

definition create_user_locked :: "nat \<Rightarrow> nat \<Rightarrow> nat \<Rightarrow> nat \<Rightarrow> byte list \<Rightarrow> int \<Rightarrow> sched \<Rightarrow> nat option \<times> sched" where
  "create_user_locked cpu stack pml4 cookie name argc s =
     (case alloc_slot s of
        (None, s1) \<Rightarrow> (None, s1)
      | (Some slot, s1) \<Rightarrow>
          (case creator_of cpu s1 of
             None \<Rightarrow> (None, s1)
           | Some p \<Rightarrow>
               let k = dead_task\<lparr>tk_rsp := frame_addr (task_stack_top stack), tk_stack_base := stack, tk_pml4 := pml4, tk_cookie := cookie,
                         tk_kind := TASK_KIND_SPAWNED, tk_argc := argc, tk_cred := tk_cred (tasks s1 p), tk_parent := Some p,
                         tk_name := task_strncpy name 16\<rparr>
               in (Some slot, fill_slot slot k s1)))"

text \<open>The child of a fork is ready before its frame exists; the saved stack pointer is set once the lock was dropped.\<close>

definition fork_locked :: "nat \<Rightarrow> nat \<Rightarrow> nat \<Rightarrow> nat \<Rightarrow> sched \<Rightarrow> nat option \<times> sched" where
  "fork_locked parent stack child_as cookie s =
     (case alloc_slot s of
        (None, s1) \<Rightarrow> (None, s1)
      | (Some slot, s1) \<Rightarrow>
          let pt = tasks s1 parent;
              k = dead_task\<lparr>tk_stack_base := stack, tk_pml4 := child_as, tk_cookie := cookie, tk_kind := TASK_KIND_SPAWNED,
                    tk_argc := tk_argc pt, tk_cred := tk_cred pt, tk_parent := Some parent, tk_name := tk_name pt\<rparr>
          in (Some slot, fill_slot slot k s1))"

definition fork_set_frame :: "nat \<Rightarrow> nat \<Rightarrow> sched \<Rightarrow> sched" where
  "fork_set_frame slot stack s = upd_task slot (\<lambda>k. k\<lparr>tk_rsp := fork_frame_addr stack\<rparr>) s"

text \<open>Giving up after the slot was filled.\<close>

definition discard_slot :: "bool \<Rightarrow> nat \<Rightarrow> sched \<Rightarrow> sched" where
  "discard_slot clear_stack slot s =
     upd_task slot (\<lambda>k. k\<lparr>tk_state := TASK_DEAD, tk_rsp := 0, tk_stack_base := (if clear_stack then 0 else tk_stack_base k)\<rparr>) s"

definition publish_task :: "bool \<Rightarrow> nat \<Rightarrow> sched \<Rightarrow> bool \<times> sched" where
  "publish_task clear_stack slot s =
     (case runq_push (pick_target_cpu s) slot s of
        (True, s1) \<Rightarrow> (True, s1)
      | (False, s1) \<Rightarrow> (False, discard_slot clear_stack slot s1))"

section \<open>Exit\<close>

definition PROC_KILL_EXIT_CODE :: int where "PROC_KILL_EXIT_CODE = 125"
definition PROC_EXIT_NORMAL :: nat where "PROC_EXIT_NORMAL = 0"
definition PROC_EXIT_KILLED :: nat where "PROC_EXIT_KILLED = 1"

definition task_limit :: "sched \<Rightarrow> nat" where
  "task_limit s = (if task_count s < MAX_TASKS then task_count s else MAX_TASKS)"

definition reparent :: "nat \<Rightarrow> sched \<Rightarrow> sched" where
  "reparent d s =
     s\<lparr>tasks := (\<lambda>i. if i < task_limit s \<and> st_of s i \<noteq> TASK_DEAD \<and> tk_parent (tasks s i) = Some d
                     then (tasks s i)\<lparr>tk_parent := if d \<noteq> 0 then Some 0 else None\<rparr> else tasks s i)\<rparr>"

definition parent_alive :: "nat option \<Rightarrow> sched \<Rightarrow> bool" where
  "parent_alive p s =
     (case p of None \<Rightarrow> False
      | Some q \<Rightarrow> q > 0 \<and> q < task_count s \<and> st_of s q \<noteq> TASK_DEAD \<and> st_of s q \<noteq> TASK_ZOMBIE)"

text \<open>The result is the stack and the address space the caller has to free, or nothing when the task was gone already.\<close>

definition proc_transition_locked :: "nat \<Rightarrow> int \<Rightarrow> nat \<Rightarrow> sched \<Rightarrow> (nat \<times> nat) option \<times> sched" where
  "proc_transition_locked d code reason s =
     (if d \<ge> task_count s then (None, s)
      else if st_of s d = TASK_ZOMBIE \<or> st_of s d = TASK_DEAD then (None, s)
      else
        let s1 = reparent d s;
            zombie = parent_alive (tk_parent (tasks s1 d)) s1;
            k = (tasks s1 d)\<lparr>tk_stack_base := 0, tk_pml4 := 0, tk_rsp := 0, tk_wake_at := 0, tk_kill_pending := False,
                  tk_exit_code := code, tk_exit_reason := reason\<rparr>;
            k1 = (if zombie then k\<lparr>tk_state := TASK_ZOMBIE\<rparr> else k\<lparr>tk_state := TASK_DEAD, tk_parent := None\<rparr>)
        in (Some (tk_stack_base (tasks s1 d), tk_pml4 (tasks s1 d)), s1\<lparr>tasks := (tasks s1)(d := k1)\<rparr>))"

definition proc_exit_locked :: "nat \<Rightarrow> int \<Rightarrow> nat \<Rightarrow> sched \<Rightarrow> (nat \<times> nat) option \<times> sched" where
  "proc_exit_locked cpu code reason s =
     (case (if cpu < SMP_MAX_CPUS then cpu_cur s cpu else None) of
        None \<Rightarrow> (None, s)
      | Some self \<Rightarrow>
          if self \<ge> task_count s then (None, s)
          else (case proc_transition_locked self code reason s of
                  (None, s1) \<Rightarrow> (None, s1)
                | (Some r, s1) \<Rightarrow> (Some r, s1\<lparr>cpu_cur := (cpu_cur s1)(cpu := None)\<rparr>)))"

text \<open>A running user task with a pending kill is caught when its CPU reschedules.\<close>

definition proc_observe_kill_sched :: "nat \<Rightarrow> registers \<Rightarrow> sched \<Rightarrow> bool" where
  "proc_observe_kill_sched cpu regs s =
     (if cs regs mod 4 \<noteq> 3 then False
      else case (if cpu < SMP_MAX_CPUS then cpu_cur s cpu else None) of
             None \<Rightarrow> False
           | Some self \<Rightarrow> self < MAX_TASKS \<and> st_of s self = TASK_RUNNING \<and> tk_kind (tasks s self) = TASK_KIND_SPAWNED
               \<and> tk_kill_pending (tasks s self))"

section \<open>Kill\<close>

definition parent_num :: "nat option \<Rightarrow> int" where
  "parent_num p = (case p of None \<Rightarrow> - 1 | Some q \<Rightarrow> int q)"

definition proc_can_kill :: "bool \<Rightarrow> int \<Rightarrow> int \<Rightarrow> int \<Rightarrow> bool \<Rightarrow> bool \<Rightarrow> bool" where
  "proc_can_kill root caller target_parent target spawned alive =
     (if \<not> alive \<or> \<not> spawned then False
      else if target < 0 then False
      else if target = caller then True
      else if root then True
      else if caller < 0 then False
      else target_parent = caller)"

definition kill_allowed :: "bool \<Rightarrow> int \<Rightarrow> nat \<Rightarrow> sched \<Rightarrow> bool" where
  "kill_allowed root self pid s =
     (pid < task_count s
      \<and> proc_can_kill root self (parent_num (tk_parent (tasks s pid))) (int pid) (tk_kind (tasks s pid) = TASK_KIND_SPAWNED)
          (st_of s pid \<noteq> TASK_DEAD \<and> st_of s pid \<noteq> TASK_ZOMBIE))"

datatype kill_result = KillDenied | KillSelf | KillOutstanding | KillPurged | KillFlagged

definition proc_kill_locked :: "bool \<Rightarrow> int \<Rightarrow> nat \<Rightarrow> sched \<Rightarrow> kill_result \<times> sched" where
  "proc_kill_locked root self pid s =
     (if pid \<ge> MAX_TASKS then (KillDenied, s)
      else if \<not> kill_allowed root self pid s then (KillDenied, s)
      else if int pid = self then (KillSelf, s)
      else if tk_kill_pending (tasks s pid) then (KillOutstanding, s)
      else if st_of s pid = TASK_READY then (KillPurged, scheduler_remove_task pid s)
      else (KillFlagged, upd_task pid (\<lambda>k. k\<lparr>tk_kill_pending := True\<rparr>) s))"

text \<open>After the purge and the cleanup: the transition, if the task is still ready.\<close>

definition proc_kill_finish :: "nat \<Rightarrow> sched \<Rightarrow> (nat \<times> nat) option \<times> bool \<times> sched" where
  "proc_kill_finish pid s =
     (if pid \<ge> task_count s \<or> st_of s pid = TASK_ZOMBIE \<or> st_of s pid = TASK_DEAD then (None, False, s)
      else if st_of s pid \<noteq> TASK_READY then (None, True, upd_task pid (\<lambda>k. k\<lparr>tk_kill_pending := True\<rparr>) s)
      else let (r, s1) = proc_transition_locked pid PROC_KILL_EXIT_CODE PROC_EXIT_KILLED s in (r, False, s1))"

section \<open>Wait\<close>

datatype wait_result = WaitNoChild | WaitReaped nat int | WaitNone | WaitBlocks

definition my_child :: "nat \<Rightarrow> nat \<Rightarrow> sched \<Rightarrow> bool" where
  "my_child self i s \<longleftrightarrow> st_of s i \<noteq> TASK_DEAD \<and> tk_parent (tasks s i) = Some self"

definition reap :: "nat \<Rightarrow> sched \<Rightarrow> sched" where
  "reap t s = upd_task t (\<lambda>k. k\<lparr>tk_state := TASK_DEAD, tk_parent := None, tk_rsp := 0, tk_argc := 0,
     tk_exit_reason := PROC_EXIT_NORMAL, tk_kill_pending := False\<rparr>) s"

text \<open>One pass of the loop of \<open>proc_waitpid\<close>; \<open>None\<close> as the pid stands for any child.\<close>

definition proc_waitpid_pass :: "nat \<Rightarrow> nat option \<Rightarrow> bool \<Rightarrow> sched \<Rightarrow> wait_result \<times> sched" where
  "proc_waitpid_pass self pid nohang s =
     (let lim = task_limit s;
          have_child = (case pid of None \<Rightarrow> list_ex (\<lambda>i. my_child self i s) [0..<lim] | Some p \<Rightarrow> p < lim \<and> my_child self p s);
          zombie = (case pid of None \<Rightarrow> find (\<lambda>i. my_child self i s \<and> st_of s i = TASK_ZOMBIE) [0..<lim]
                    | Some p \<Rightarrow> if st_of s p = TASK_ZOMBIE then Some p else None)
      in if \<not> have_child then (WaitNoChild, s)
         else case zombie of
                Some t \<Rightarrow> (WaitReaped t (tk_exit_code (tasks s t)), reap t s)
              | None \<Rightarrow> (if nohang then WaitNone else WaitBlocks, s))"

record proc_info =
  pi_pid :: nat
  pi_ppid :: "nat option"
  pi_state :: task_state
  pi_exit_reason :: nat
  pi_uid :: nat
  pi_gid :: nat
  pi_exit_code :: int
  pi_name :: "byte list"

definition info_of :: "task \<Rightarrow> proc_info" where
  "info_of k = \<lparr>pi_pid = tk_id k, pi_ppid = tk_parent k, pi_state = tk_state k, pi_exit_reason = tk_exit_reason k,
     pi_uid = uid (tk_cred k), pi_gid = gid (tk_cred k), pi_exit_code = tk_exit_code k, pi_name = tk_name k\<rparr>"

definition proc_fill_list :: "nat \<Rightarrow> sched \<Rightarrow> proc_info list" where
  "proc_fill_list mx s = take mx (map (\<lambda>i. info_of (tasks s i)) (filter (\<lambda>i. st_of s i \<noteq> TASK_DEAD) [0..<task_limit s]))"

definition proc_getppid :: "nat \<Rightarrow> sched \<Rightarrow> int" where
  "proc_getppid cpu s = (case creator_of cpu s of None \<Rightarrow> - 1 | Some p \<Rightarrow> parent_num (tk_parent (tasks s p)))"

definition cred_current_uid :: "nat \<Rightarrow> sched \<Rightarrow> nat" where
  "cred_current_uid cpu s = (case creator_of cpu s of None \<Rightarrow> 0 | Some p \<Rightarrow> uid (tk_cred (tasks s p)))"

definition cred_current_gid :: "nat \<Rightarrow> sched \<Rightarrow> nat" where
  "cred_current_gid cpu s = (case creator_of cpu s of None \<Rightarrow> 0 | Some p \<Rightarrow> gid (tk_cred (tasks s p)))"

definition cred_current_is_root :: "nat \<Rightarrow> sched \<Rightarrow> bool" where
  "cred_current_is_root cpu s \<longleftrightarrow> cred_current_uid cpu s = 0"

end
