(* ===== verification/Sched_Inv.thy ===== *)
theory Sched_Inv
  imports Proc "HOL-Library.Multiset"
begin

text \<open>
  Invariants of the scheduler.  A ready task is in exactly one place: on one run queue, or in the hands of the
  code that is about to queue or to kill it.  A running task is on exactly one CPU and nowhere else.

  The proofs account for the tasks in hand with a multiset \<open>X\<close>: popping and purging move a task from the queues
  into it, pushing moves it back, becoming ready adds to it and ceasing to be ready takes away from it.
\<close>

section \<open>Accounting for ready tasks\<close>

definition queued :: "sched \<Rightarrow> nat \<Rightarrow> nat" where
  "queued s t = (\<Sum>c<SMP_MAX_CPUS. count (mset (runqs s c)) t)"

definition placed :: "nat multiset \<Rightarrow> sched \<Rightarrow> bool" where
  "placed X s \<longleftrightarrow> (\<forall>t. queued s t + count X t = (if st_of s t = TASK_READY then 1 else 0))
     \<and> (\<forall>c \<ge> SMP_MAX_CPUS. runqs s c = [])"

lemma queued_set_runq:
  assumes "c < SMP_MAX_CPUS"
  shows "queued (set_runq c es s) t + count (mset (runqs s c)) t = queued s t + count (mset es) t"
proof -
  have "(\<Sum>d\<in>{..<SMP_MAX_CPUS} - {c}. count (mset (runqs (set_runq c es s) d)) t) = (\<Sum>d\<in>{..<SMP_MAX_CPUS} - {c}. count (mset (runqs s d)) t)"
    by (intro sum.cong) (auto simp: set_runq_def)
  then show ?thesis
    using sum.remove [of "{..<SMP_MAX_CPUS}" c "\<lambda>d. count (mset (runqs s d)) t"]
      sum.remove [of "{..<SMP_MAX_CPUS}" c "\<lambda>d. count (mset (runqs (set_runq c es s) d)) t"] assms
    by (simp add: queued_def) (simp add: set_runq_def)
qed

lemma queued_frame: "runqs s' = runqs s \<Longrightarrow> queued s' = queued s"
  by (simp add: queued_def fun_eq_iff)

lemma upd_task_frame [simp]:
  "runqs (upd_task t f s) = runqs s" "cpu_cur (upd_task t f s) = cpu_cur s" "task_count (upd_task t f s) = task_count s"
  "now (upd_task t f s) = now s" "online (upd_task t f s) = online s"
  by (simp_all add: upd_task_def)

lemma set_state_frame [simp]:
  "runqs (set_state t st s) = runqs s" "cpu_cur (set_state t st s) = cpu_cur s" "task_count (set_state t st s) = task_count s"
  by (simp_all add: set_state_def)

lemma set_runq_frame [simp]:
  "tasks (set_runq c es s) = tasks s" "cpu_cur (set_runq c es s) = cpu_cur s" "task_count (set_runq c es s) = task_count s"
  "st_of (set_runq c es s) = st_of s"
  by (simp_all add: set_runq_def st_of_def fun_eq_iff)

lemma st_of_upd: "st_of (upd_task t f s) u = (if u = t then tk_state (f (tasks s t)) else st_of s u)"
  by (simp add: st_of_def upd_task_def)

lemma st_of_set [simp]: "st_of (set_state t st s) u = (if u = t then st else st_of s u)"
  by (simp add: set_state_def st_of_upd)

lemma rsp_upd: "tk_rsp (tasks (upd_task t f s) u) = (if u = t then tk_rsp (f (tasks s t)) else tk_rsp (tasks s u))"
  by (simp add: upd_task_def)

lemma rsp_set [simp]: "tk_rsp (tasks (set_state t st s) u) = tk_rsp (tasks s u)"
  by (simp add: set_state_def upd_task_def)

lemma st_of_upd_same: "tk_state (f (tasks s t)) = tk_state (tasks s t) \<Longrightarrow> st_of (upd_task t f s) = st_of s"
  by (simp add: fun_eq_iff st_of_def upd_task_def)

lemma st_of_frame: "tasks s' = tasks s \<Longrightarrow> st_of s' = st_of s"
  by (simp add: st_of_def fun_eq_iff)

lemma placed_frame:
  assumes "runqs s' = runqs s" and "\<And>t. st_of s' t = TASK_READY \<longleftrightarrow> st_of s t = TASK_READY"
  shows "placed X s' = placed X s"
  using assms queued_frame [OF assms(1)] by (simp add: placed_def)

lemma placedD: "placed X s \<Longrightarrow> queued s t + count X t = (if st_of s t = TASK_READY then 1 else 0)"
  by (simp add: placed_def)

text \<open>The moves.\<close>

lemma placed_becomes_ready:
  assumes "placed X s" "st_of s t \<noteq> TASK_READY" "runqs s' = runqs s" "st_of s' = (st_of s)(t := TASK_READY)"
  shows "placed (add_mset t X) s'"
  unfolding placed_def
proof (intro conjI allI impI)
  fix u show "queued s' u + count (add_mset t X) u = (if st_of s' u = TASK_READY then 1 else 0)"
    using placedD [OF assms(1), of u] assms(2,4) queued_frame [OF assms(3)] by (cases "u = t") auto
next
  fix c assume "SMP_MAX_CPUS \<le> c"
  then show "runqs s' c = []" using assms by (simp add: placed_def)
qed

lemma placed_leaves_ready:
  assumes "placed (add_mset t X) s" "runqs s' = runqs s" "\<And>u. u \<noteq> t \<Longrightarrow> st_of s' u = TASK_READY \<longleftrightarrow> st_of s u = TASK_READY"
    "st_of s' t \<noteq> TASK_READY"
  shows "placed X s'"
  unfolding placed_def
proof (intro conjI allI impI)
  fix u show "queued s' u + count X u = (if st_of s' u = TASK_READY then 1 else 0)"
    using placedD [OF assms(1), of u] assms(3) [of u] assms(4) queued_frame [OF assms(2)] by (cases "u = t") (auto split: if_splits)
next
  fix c assume "SMP_MAX_CPUS \<le> c"
  then show "runqs s' c = []" using assms by (simp add: placed_def)
qed

lemma placed_in_hand: "placed (add_mset t X) s \<Longrightarrow> st_of s t = TASK_READY \<and> t \<notin># X \<and> queued s t = 0"
  using placedD [of "add_mset t X" s t] by (simp add: not_in_iff split: if_splits)

text \<open>Room: with at most \<open>MAX_TASKS\<close> tasks no queue overflows.\<close>

lemma queue_le_queued:
  assumes "c < SMP_MAX_CPUS"
  shows "count (mset (runqs s c)) t \<le> queued s t"
  unfolding queued_def using assms member_le_sum [of c "{..<SMP_MAX_CPUS}" "\<lambda>d. count (mset (runqs s d)) t"] by simp

lemma queue_set:
  assumes p: "placed X s" and c: "c < SMP_MAX_CPUS"
  shows "distinct (runqs s c)" "t \<in> set (runqs s c) \<Longrightarrow> st_of s t = TASK_READY \<and> t \<notin># X"
proof -
  have one: "count (mset (runqs s c)) u \<le> 1" for u
  proof -
    have "queued s u \<le> 1" using placedD [OF p, of u] by (cases "st_of s u = TASK_READY") simp_all
    then show ?thesis using queue_le_queued [OF c, of s u] by (rule order_trans [rotated])
  qed
  have pos: "0 < count (mset (runqs s c)) u" if "u \<in> set (runqs s c)" for u
    using that by (simp only: count_greater_zero_iff set_mset_mset)
  show "distinct (runqs s c)"
    unfolding distinct_count_atmost_1
  proof
    fix u show "count (mset (runqs s c)) u = (if u \<in> set (runqs s c) then 1 else 0)"
    proof (cases "u \<in> set (runqs s c)")
      case True
      then have "count (mset (runqs s c)) u = 1" using one [of u] pos [OF True] by linarith
      then show ?thesis using True by simp
    qed (simp add: count_eq_zero_iff)
  qed
  assume "t \<in> set (runqs s c)"
  then have "0 < queued s t" using pos queue_le_queued [OF c, of s t] order_less_le_trans by blast
  then show "st_of s t = TASK_READY \<and> t \<notin># X" using placedD [OF p, of t] by (auto simp: not_in_iff split: if_splits)
qed

lemma queue_room:
  assumes p: "placed X s" and c: "c < SMP_MAX_CPUS" and bound: "\<And>u. st_of s u = TASK_READY \<Longrightarrow> u < MAX_TASKS"
  shows "length (runqs s c) \<le> MAX_TASKS" "t < MAX_TASKS \<Longrightarrow> t \<notin> set (runqs s c) \<Longrightarrow> length (runqs s c) < MAX_TASKS"
proof -
  have "set (runqs s c) \<subseteq> {..<MAX_TASKS}" using queue_set(2) [OF p c] bound by blast
  then have sub: "card (set (runqs s c)) \<le> MAX_TASKS" "t \<notin> set (runqs s c) \<Longrightarrow> card (set (runqs s c)) \<le> card ({..<MAX_TASKS} - {t})"
    using card_mono [of "{..<MAX_TASKS}"] card_mono [of "{..<MAX_TASKS} - {t}" "set (runqs s c)"] by (fastforce, blast)
  then show "length (runqs s c) \<le> MAX_TASKS" using queue_set(1) [OF p c] by (simp add: distinct_card)
  assume "t < MAX_TASKS" "t \<notin> set (runqs s c)"
  then show "length (runqs s c) < MAX_TASKS" using sub(2) queue_set(1) [OF p c] by (simp add: distinct_card MAX_TASKS_def)
qed

lemma placed_push:
  assumes p: "placed (add_mset t X) s" and c: "c < SMP_MAX_CPUS" and bound: "\<And>u. st_of s u = TASK_READY \<Longrightarrow> u < MAX_TASKS"
    and r: "runq_push c t s = (ok, s')"
  shows "ok" "placed X s'" "s' = set_runq c (runqs s c @ [t]) (upd_task t (\<lambda>k. k\<lparr>tk_enqueue := now s\<rparr>) s)"
proof -
  note hand = placed_in_hand [OF p]
  have "t \<notin> set (runqs s c)" using hand queue_le_queued [OF c, of s t] by (simp add: count_eq_zero_iff)
  then have "length (runqs s c) < MAX_TASKS" using queue_room(2) [OF p c bound] hand bound by blast
  then have e: "ok" "s' = set_runq c (runqs s c @ [t]) (upd_task t (\<lambda>k. k\<lparr>tk_enqueue := now s\<rparr>) s)"
    using r by (simp_all add: runq_push_def RUNQ_CAPACITY_def)
  show "ok" "s' = set_runq c (runqs s c @ [t]) (upd_task t (\<lambda>k. k\<lparr>tk_enqueue := now s\<rparr>) s)" using e .
  define s1 where "s1 = upd_task t (\<lambda>k. k\<lparr>tk_enqueue := now s\<rparr>) s"
  have s1: "queued s1 = queued s" "st_of s1 = st_of s" "runqs s1 = runqs s"
    by (rule queued_frame, simp add: s1_def, simp add: s1_def fun_eq_iff st_of_upd, simp add: st_of_def) (simp add: s1_def)
  show "placed X s'" unfolding placed_def e(2) s1_def [symmetric]
  proof (intro conjI allI impI)
    fix u
    show "queued (set_runq c (runqs s c @ [t]) s1) u + count X u = (if st_of (set_runq c (runqs s c @ [t]) s1) u = TASK_READY then 1 else 0)"
      using queued_set_runq [OF c, of "runqs s c @ [t]" s1 u] placedD [OF p, of u] s1 by (cases "u = t") simp_all
  next
    fix d assume "SMP_MAX_CPUS \<le> d"
    then show "runqs (set_runq c (runqs s c @ [t]) s1) d = []" using p c s1 by (simp add: placed_def set_runq_def)
  qed
qed

lemma best_scan_bound:
  assumes "b < length es" "\<forall>i\<in>set is. i < length es"
  shows "best_scan s es is b p < length es"
  using assms by (induction "is" arbitrary: b p) (simp_all add: Let_def)

lemma mset_butlast_last: "es \<noteq> [] \<Longrightarrow> mset es = add_mset (last es) (mset (butlast es))"
  by (induction es rule: rev_induct) simp_all

lemma mset_compact:
  assumes "i < length es"
  shows "add_mset (es ! i) (mset (compact es i)) = mset es"
proof (cases "i = length es - 1")
  case True
  then have l: "es ! i = last es" using assms last_conv_nth [of es] by (cases es) auto
  then have "es[i := last es] = es" using list_update_id [of es i] by simp
  then have "compact es i = butlast es" "es ! i = last es" using l by (simp_all add: compact_def)
  moreover have "mset es = add_mset (last es) (mset (butlast es))"
    using assms by (intro mset_butlast_last) auto
  ultimately show ?thesis by simp
next
  case False
  then have i: "i < length (butlast es)" using assms by simp
  have ne: "es \<noteq> []" using assms by auto
  have "compact es i = (butlast es)[i := last es]" using i by (simp add: compact_def butlast_list_update)
  then have "mset (compact es i) = add_mset (last es) (mset (butlast es) - {#butlast es ! i#})" using mset_update [OF i] by simp
  moreover have "butlast es ! i = es ! i" using i by (simp add: nth_butlast)
  moreover have "mset es = add_mset (last es) (mset (butlast es))"
    by (rule mset_butlast_last [OF ne])
  moreover have "es ! i \<in># mset (butlast es)" using nth_mem [OF i] \<open>butlast es ! i = es ! i\<close> by simp
  ultimately show ?thesis by (simp add: add_mset_commute)
qed

lemma runq_pop_some:
  assumes "runq_pop c s = (Some t, s')"
  shows "\<exists>b < length (runqs s c). t = runqs s c ! b \<and> s' = set_runq c (compact (runqs s c) b) s"
proof -
  define b where "b = best_scan s (runqs s c) [1..<length (runqs s c)] 0 (effective_prio s (runqs s c ! 0))"
  have ne: "runqs s c \<noteq> []" using assms by (auto simp: runq_pop_def)
  then have "b < length (runqs s c)" unfolding b_def by (intro best_scan_bound) auto
  moreover have "t = runqs s c ! b" "s' = set_runq c (compact (runqs s c) b) s"
    using assms ne unfolding b_def by (simp_all add: runq_pop_def Let_def)
  ultimately show ?thesis by blast
qed

lemma runq_pop_none: "runq_pop c s = (None, s') \<Longrightarrow> s' = s \<and> runqs s c = []"
  by (auto simp: runq_pop_def Let_def split: if_splits)

lemma placed_pop:
  assumes p: "placed X s" and r: "runq_pop c s = (Some t, s')"
  shows "placed (add_mset t X) s'" "tasks s' = tasks s" "cpu_cur s' = cpu_cur s" "task_count s' = task_count s"
proof -
  obtain b where b: "b < length (runqs s c)" "t = runqs s c ! b" "s' = set_runq c (compact (runqs s c) b) s"
    using runq_pop_some [OF r] by blast
  show "tasks s' = tasks s" "cpu_cur s' = cpu_cur s" "task_count s' = task_count s" by (simp_all add: b(3))
  have c: "c < SMP_MAX_CPUS" using p b(1) by (cases "c < SMP_MAX_CPUS") (simp_all add: placed_def not_less)
  show "placed (add_mset t X) s'" unfolding placed_def
  proof (intro conjI allI impI)
    fix u
    have "count (mset (runqs s c)) u = count (mset (compact (runqs s c) b)) u + (if u = t then 1 else 0)"
      using arg_cong [OF mset_compact [OF b(1)], of "\<lambda>m. count m u"] b(2) by (simp split: if_splits)
    then show "queued s' u + count (add_mset t X) u = (if st_of s' u = TASK_READY then 1 else 0)"
      using queued_set_runq [OF c, of "compact (runqs s c) b" s u] placedD [OF p, of u] by (cases "u = t"; simp add: b(3) split: if_splits)
  next
    fix d assume "SMP_MAX_CPUS \<le> d"
    then show "runqs s' d = []" using p c by (simp add: placed_def b(3) set_runq_def)
  qed
qed


text \<open>Purging a task from every queue.\<close>

lemma remove_loop_mset:
  assumes "\<forall>j < i. j < length es \<longrightarrow> es ! j \<noteq> t"
  shows "mset (remove_loop t i es) = filter_mset (\<lambda>x. x \<noteq> t) (mset es)"
  using assms
proof (induction t i es rule: remove_loop.induct)
  case (1 t i es)
  show ?case
  proof (cases "i < length es")
    case False
    have "x \<noteq> t" if "x \<in> set es" for x
    proof -
      obtain j where "j < length es" "x = es ! j" using \<open>x \<in> set es\<close> by (auto simp: in_set_conv_nth)
      then show ?thesis using "1.prems" False by auto
    qed
    then have "filter_mset (\<lambda>x. x \<noteq> t) (mset es) = mset es" by (auto simp: filter_mset_eq_conv)
    then show ?thesis using False by (simp add: remove_loop.simps [of t i es])
  next
    case True
    show ?thesis
    proof (cases "es ! i = t")
      case eq: True
      have m: "mset es = add_mset t (mset (compact es i))" using mset_compact [OF True] eq by simp
      have "\<forall>j<i. j < length (compact es i) \<longrightarrow> compact es i ! j \<noteq> t"
        using "1.prems" True by (auto simp: compact_def nth_butlast)
      then show ?thesis using "1.IH"(1) [OF True eq] True eq m by (simp add: remove_loop.simps [of t i es])
    next
      case neq: False
      then have "\<forall>j<i + 1. j < length es \<longrightarrow> es ! j \<noteq> t" using "1.prems" by (auto simp: less_Suc_eq)
      then show ?thesis using "1.IH"(2) [OF True neq] True neq by (simp add: remove_loop.simps [of t i es])
    qed
  qed
qed

lemma scheduler_remove_frame:
  "tasks (scheduler_remove_task t s) = tasks s" "cpu_cur (scheduler_remove_task t s) = cpu_cur s"
  "task_count (scheduler_remove_task t s) = task_count s"
proof -
  have r: "tasks (snd (runq_remove c t s)) = tasks s" "cpu_cur (snd (runq_remove c t s)) = cpu_cur s"
    "task_count (snd (runq_remove c t s)) = task_count s" for c s by (simp_all add: runq_remove_def)
  have "tasks (fold (\<lambda>c s. snd (runq_remove c t s)) cl s) = tasks s \<and> cpu_cur (fold (\<lambda>c s. snd (runq_remove c t s)) cl s) = cpu_cur s
    \<and> task_count (fold (\<lambda>c s. snd (runq_remove c t s)) cl s) = task_count s" for cl
    by (induction cl arbitrary: s) (simp_all add: r)
  then show "tasks (scheduler_remove_task t s) = tasks s" "cpu_cur (scheduler_remove_task t s) = cpu_cur s"
    "task_count (scheduler_remove_task t s) = task_count s" by (simp_all add: scheduler_remove_task_def)
qed

lemma remove_fold_runqs:
  "n \<le> SMP_MAX_CPUS \<Longrightarrow> runqs (fold (\<lambda>c s. snd (runq_remove c t s)) [0..<n] s) c = (if c < n then remove_loop t 0 (runqs s c) else runqs s c)"
  by (induction n) (auto simp: runq_remove_def set_runq_def less_Suc_eq)

lemma placed_purge:
  assumes p: "placed X s" and t: "t < MAX_TASKS" "st_of s t = TASK_READY" "t \<notin># X"
  shows "placed (add_mset t X) (scheduler_remove_task t s)"
proof -
  define s' where "s' = scheduler_remove_task t s"
  have rq: "runqs s' c = (if c < SMP_MAX_CPUS then remove_loop t 0 (runqs s c) else runqs s c)" for c
    using t(1) remove_fold_runqs [of SMP_MAX_CPUS t s c] by (simp add: s'_def scheduler_remove_task_def)
  have st: "st_of s' = st_of s" using scheduler_remove_frame(1) by (simp add: s'_def st_of_def fun_eq_iff)
  have q: "queued s' u = (if u = t then 0 else queued s u)" for u
    unfolding queued_def by (auto simp: rq remove_loop_mset intro!: sum.cong)
  have one: "queued s t = 1" using placedD [OF p, of t] t by (simp add: not_in_iff)
  show ?thesis unfolding s'_def [symmetric] placed_def
  proof (intro conjI allI impI)
    fix u show "queued s' u + count (add_mset t X) u = (if st_of s' u = TASK_READY then 1 else 0)"
      using placedD [OF p, of u] one q st t by (cases "u = t") (simp_all add: not_in_iff)
  next
    fix c assume "SMP_MAX_CPUS \<le> c"
    then show "runqs s' c = []" using p rq by (simp add: placed_def)
  qed
qed

lemma pick_loop_bound: "b < n \<Longrightarrow> \<forall>i\<in>set is. i < n \<Longrightarrow> pick_loop s is b l < n"
  by (induction "is" arbitrary: b l) (simp_all add: Let_def)

lemma pick_target_bound: "pick_target_cpu s < SMP_MAX_CPUS"
proof -
  define n where "n = (if online s > SMP_MAX_CPUS then SMP_MAX_CPUS else online s)"
  have "n \<le> SMP_MAX_CPUS" by (simp add: n_def)
  moreover have "pick_loop s [0..<n] 0 4294967295 < n" if "n \<noteq> 0" using that by (intro pick_loop_bound) auto
  moreover have "pick_target_cpu s = (if n = 0 then 0 else pick_loop s [0..<n] 0 4294967295)"
    by (simp add: pick_target_cpu_def n_def Let_def)
  ultimately show ?thesis by (auto simp: SMP_MAX_CPUS_def)
qed

lemma victim_scan_bound: "\<forall>v. w = Some v \<longrightarrow> v < n \<Longrightarrow> \<forall>i\<in>set is. i < n \<Longrightarrow> victim_scan s c is w l = Some v \<Longrightarrow> v < n"
  by (induction "is" arbitrary: w l) (auto split: if_splits)

section \<open>CPUs\<close>

definition cpu_ok :: "sched \<Rightarrow> bool" where
  "cpu_ok s \<longleftrightarrow> (\<forall>c t. cpu_cur s c = Some t \<longrightarrow> c < SMP_MAX_CPUS \<and> t < task_count s
         \<and> (st_of s t = TASK_RUNNING \<or> st_of s t = TASK_SLEEPING \<or> st_of s t = TASK_BLOCKED))
     \<and> (\<forall>c d t. cpu_cur s c = Some t \<longrightarrow> cpu_cur s d = Some t \<longrightarrow> c = d)
     \<and> (\<forall>t. st_of s t = TASK_RUNNING \<longrightarrow> (\<exists>c. cpu_cur s c = Some t))
     \<and> 0 < task_count s \<and> task_count s \<le> MAX_TASKS \<and> (\<forall>t \<ge> task_count s. st_of s t = TASK_DEAD)"

lemma cpu_okD:
  assumes "cpu_ok s"
  shows "cpu_cur s c = Some t \<Longrightarrow> c < SMP_MAX_CPUS" "cpu_cur s c = Some t \<Longrightarrow> t < task_count s"
    "cpu_cur s c = Some t \<Longrightarrow> st_of s t = TASK_RUNNING \<or> st_of s t = TASK_SLEEPING \<or> st_of s t = TASK_BLOCKED"
    "cpu_cur s c = Some t \<Longrightarrow> cpu_cur s d = Some t \<Longrightarrow> c = d"
    "st_of s t = TASK_RUNNING \<Longrightarrow> \<exists>c. cpu_cur s c = Some t"
    "0 < task_count s" "task_count s \<le> MAX_TASKS" "task_count s \<le> t \<Longrightarrow> st_of s t = TASK_DEAD"
  using assms unfolding cpu_ok_def by blast+

lemma cpu_okI:
  assumes "\<And>c t. cpu_cur s c = Some t \<Longrightarrow> c < SMP_MAX_CPUS \<and> t < task_count s
         \<and> (st_of s t = TASK_RUNNING \<or> st_of s t = TASK_SLEEPING \<or> st_of s t = TASK_BLOCKED)"
    and "\<And>c d t. cpu_cur s c = Some t \<Longrightarrow> cpu_cur s d = Some t \<Longrightarrow> c = d"
    and "\<And>t. st_of s t = TASK_RUNNING \<Longrightarrow> \<exists>c. cpu_cur s c = Some t"
    and "0 < task_count s" "task_count s \<le> MAX_TASKS" "\<And>t. t \<ge> task_count s \<Longrightarrow> st_of s t = TASK_DEAD"
  shows "cpu_ok s"
  unfolding cpu_ok_def using assms by blast

lemma cpu_ok_frame:
  assumes "cpu_ok s" "cpu_cur s' = cpu_cur s" "task_count s' = task_count s" "st_of s' = st_of s"
  shows "cpu_ok s'"
  using assms by (simp add: cpu_ok_def)

lemma ready_bound: "cpu_ok s \<Longrightarrow> st_of s u \<noteq> TASK_DEAD \<Longrightarrow> u < task_count s \<and> u < MAX_TASKS"
  using cpu_okD(7) [of s] cpu_okD(8) [of s u] by (metis less_le_trans not_less)

text \<open>A task that is on no CPU may change between states other than running.\<close>

lemma cpu_ok_off_cpu:
  assumes ok: "cpu_ok s" and off: "\<And>c. cpu_cur s c \<noteq> Some t" and s': "cpu_cur s' = cpu_cur s" "st_of s' = (st_of s)(t := st)"
    and st: "st \<noteq> TASK_RUNNING" and n: "task_count s' \<le> MAX_TASKS" "task_count s \<le> task_count s'" "t < task_count s'" 
    "\<forall>u. task_count s \<le> u \<longrightarrow> u < task_count s' \<longrightarrow> u = t"
  shows "cpu_ok s'"
proof (rule cpu_okI)
  fix c u assume c: "cpu_cur s' c = Some u"
  then have "u \<noteq> t" using off s'(1) by auto
  then show "c < SMP_MAX_CPUS \<and> u < task_count s' \<and> (st_of s' u = TASK_RUNNING \<or> st_of s' u = TASK_SLEEPING \<or> st_of s' u = TASK_BLOCKED)"
    using cpu_okD(1,2,3) [OF ok, of c u] c s' n by auto
next
  fix c d u assume "cpu_cur s' c = Some u" "cpu_cur s' d = Some u"
  then show "c = d" using cpu_okD(4) [OF ok] s'(1) by simp
next
  fix u assume "st_of s' u = TASK_RUNNING"
  then show "\<exists>c. cpu_cur s' c = Some u" using cpu_okD(5) [OF ok, of u] s' st by (cases "u = t") simp_all
next
  show "0 < task_count s'" "task_count s' \<le> MAX_TASKS" using cpu_okD(6) [OF ok] n by simp_all
next
  fix u assume "task_count s' \<le> u"
  then show "st_of s' u = TASK_DEAD" using cpu_okD(8) [OF ok, of u] s'(2) n by auto
qed


lemma cpu_ok_switch:
  assumes ok: "cpu_ok s" and c: "c < SMP_MAX_CPUS" and t: "st_of s t = TASK_READY" and s': "cpu_cur s' = (cpu_cur s)(c \<mapsto> t)"
    "task_count s' = task_count s" "st_of s' t = TASK_RUNNING"
    and rest: "\<And>u. u \<noteq> t \<Longrightarrow> st_of s' u = (if cpu_cur s c = Some u \<and> st_of s u = TASK_RUNNING then TASK_READY else st_of s u)"
  shows "cpu_ok s'"
proof (rule cpu_okI)
  have off: "cpu_cur s d \<noteq> Some t" for d using cpu_okD(3) [OF ok, of d t] t by auto
  have tc: "t < task_count s" using ready_bound [OF ok, of t] t by simp
  fix d u assume d: "cpu_cur s' d = Some u"
  show "d < SMP_MAX_CPUS \<and> u < task_count s' \<and> (st_of s' u = TASK_RUNNING \<or> st_of s' u = TASK_SLEEPING \<or> st_of s' u = TASK_BLOCKED)"
  proof (cases "d = c")
    case True
    then show ?thesis using d s' c tc by simp
  next
    case False
    then have du: "cpu_cur s d = Some u" using d s'(1) by simp
    then have "u \<noteq> t" "cpu_cur s c \<noteq> Some u" using off cpu_okD(4) [OF ok, of d u c] False by auto
    then show ?thesis using cpu_okD(1,2,3) [OF ok du] rest [of u] s'(2) by simp
  qed
  fix e assume e: "cpu_cur s' e = Some u"
  show "d = e" using d e off cpu_okD(4) [OF ok, of d u e] s'(1) by (auto split: if_splits)
next
  fix u assume u: "st_of s' u = TASK_RUNNING"
  show "\<exists>d. cpu_cur s' d = Some u"
  proof (cases "u = t")
    case False
    then have "st_of s u = TASK_RUNNING" "cpu_cur s c \<noteq> Some u" using u rest [of u] by (auto split: if_splits)
    then obtain d where "cpu_cur s d = Some u" "d \<noteq> c" using cpu_okD(5) [OF ok, of u] by auto
    then show ?thesis using s'(1) by auto
  qed (use s'(1) in auto)
next
  show "0 < task_count s'" "task_count s' \<le> MAX_TASKS" using cpu_okD(6,7) [OF ok] s'(2) by simp_all
next
  fix u assume u: "task_count s' \<le> u"
  then have d: "st_of s u = TASK_DEAD" using cpu_okD(8) [OF ok, of u] s'(2) by simp
  then have "u \<noteq> t" using t by auto
  then show "st_of s' u = TASK_DEAD" using rest [of u] d by simp
qed

section \<open>Saved contexts\<close>

text \<open>A task that can be resumed from memory has a saved context, unless it is a fork whose frame is still to be written.\<close>

definition frames_ok :: "nat set \<Rightarrow> sched \<Rightarrow> bool" where
  "frames_ok F s \<longleftrightarrow> (\<forall>t. (st_of s t = TASK_READY \<and> t \<notin> F)
     \<or> ((st_of s t = TASK_SLEEPING \<or> st_of s t = TASK_BLOCKED) \<and> (\<forall>c. cpu_cur s c \<noteq> Some t)) \<longrightarrow> tk_rsp (tasks s t) \<noteq> 0)"

lemma frames_okD:
  assumes "frames_ok F s"
  shows "st_of s t = TASK_READY \<Longrightarrow> t \<notin> F \<Longrightarrow> tk_rsp (tasks s t) \<noteq> 0"
    and "st_of s t = TASK_SLEEPING \<or> st_of s t = TASK_BLOCKED \<Longrightarrow> \<forall>c. cpu_cur s c \<noteq> Some t \<Longrightarrow> tk_rsp (tasks s t) \<noteq> 0"
  using assms unfolding frames_ok_def by blast+

lemma frames_okI:
  assumes "\<And>t. st_of s t = TASK_READY \<Longrightarrow> t \<notin> F \<Longrightarrow> tk_rsp (tasks s t) \<noteq> 0"
    and "\<And>t. st_of s t = TASK_SLEEPING \<or> st_of s t = TASK_BLOCKED \<Longrightarrow> \<forall>c. cpu_cur s c \<noteq> Some t \<Longrightarrow> tk_rsp (tasks s t) \<noteq> 0"
  shows "frames_ok F s"
  unfolding frames_ok_def using assms by blast

definition sched_inv :: "nat multiset \<Rightarrow> nat set \<Rightarrow> sched \<Rightarrow> bool" where
  "sched_inv X F s \<longleftrightarrow> placed X s \<and> cpu_ok s \<and> frames_ok F s \<and> F \<subseteq> set_mset X"

lemma sched_invD:
  assumes "sched_inv X F s"
  shows "placed X s" "cpu_ok s" "frames_ok F s" "F \<subseteq> set_mset X"
  using assms by (simp_all add: sched_inv_def)

section \<open>The scheduler keeps the invariant\<close>

lemma pop_or_steal_none: "pop_or_steal c s = (None, s') \<Longrightarrow> s' = s"
  by (auto simp: pop_or_steal_def steal_task_def Let_def dest!: runq_pop_none split: option.splits prod.splits)

lemma pop_or_steal_some:
  assumes "pop_or_steal c s = (Some t, s')"
  shows "\<exists>d. runq_pop d s = (Some t, s')"
proof (cases "fst (runq_pop c s)")
  case None
  then have "runq_pop c s = (None, s)" using runq_pop_none [of c s "snd (runq_pop c s)"] by (cases "runq_pop c s") auto
  then show ?thesis using assms by (auto simp: pop_or_steal_def steal_task_def Let_def split: option.splits)
next
  case (Some u)
  then show ?thesis using assms by (cases "runq_pop c s") (auto simp: pop_or_steal_def)
qed

lemma placed_pop_or_steal:
  assumes "placed X s" "pop_or_steal c s = (Some t, s')"
  shows "placed (add_mset t X) s'" "tasks s' = tasks s" "cpu_cur s' = cpu_cur s" "task_count s' = task_count s"
  using pop_or_steal_some [OF assms(2)] placed_pop [OF assms(1)] by blast+

lemma switch_to_frame:
  assumes "switch_to c t s = (r, s')"
  shows "runqs s' = runqs s" "cpu_cur s' = (cpu_cur s)(c \<mapsto> t)" "task_count s' = task_count s"
    "st_of s' = (st_of s)(t := TASK_RUNNING)" "tk_rsp (tasks s' u) = tk_rsp (tasks s u)"
  using assms by (auto simp: switch_to_def Let_def st_of_def set_state_def upd_task_def)

text \<open>The final step of a switch, with the outgoing task already put away.\<close>

lemma switch_keeps:
  assumes ok: "cpu_ok s" and fr: "frames_ok F s" and c: "c < SMP_MAX_CPUS" and frame: "frame \<noteq> 0" and t: "st_of s t = TASK_READY"
    and p: "placed (add_mset t X) s4" and s4: "cpu_cur s4 = cpu_cur s" "task_count s4 = task_count s"
    and st: "\<And>u. st_of s4 u = (if cpu_cur s c = Some u \<and> st_of s u = TASK_RUNNING then TASK_READY else st_of s u)"
    and rs: "\<And>u. tk_rsp (tasks s4 u) = (if cpu_cur s c = Some u then frame else tk_rsp (tasks s u))"
    and sw: "switch_to c t s4 = (r, s')"
  shows "placed X s' \<and> cpu_ok s' \<and> frames_ok F s'"
proof -
  note f = switch_to_frame [OF sw]
  have "placed X s'" by (rule placed_leaves_ready [OF p f(1)]) (simp_all add: f(4))
  moreover have "cpu_ok s'" by (rule cpu_ok_switch [OF ok c t]) (auto simp: f(2,3,4) s4 st)
  moreover have "frames_ok F s'"
  proof (rule frames_okI)
    fix u assume "st_of s' u = TASK_READY" "u \<notin> F"
    then show "tk_rsp (tasks s' u) \<noteq> 0"
      using frames_okD(1) [OF fr, of u] frame by (auto simp: f(4,5) st rs split: if_splits)
  next
    fix u assume "st_of s' u = TASK_SLEEPING \<or> st_of s' u = TASK_BLOCKED" "\<forall>d. cpu_cur s' d \<noteq> Some u"
    then have u: "st_of s u = TASK_SLEEPING \<or> st_of s u = TASK_BLOCKED" "\<And>d. d \<noteq> c \<Longrightarrow> cpu_cur s d \<noteq> Some u"
      by (auto simp: f(2,4) s4 st split: if_splits)
    show "tk_rsp (tasks s' u) \<noteq> 0"
    proof (cases "cpu_cur s c = Some u")
      case False
      then have "\<forall>d. cpu_cur s d \<noteq> Some u" using u(2) by metis
      then show ?thesis using frames_okD(2) [OF fr u(1)] False by (simp add: f(5) rs)
    qed (use frame in \<open>simp add: f(5) rs\<close>)
  qed
  ultimately show ?thesis by simp
qed

text \<open>What the scheduler does, by what the CPU was running.\<close>

definition stale :: "nat \<Rightarrow> sched \<Rightarrow> bool" where
  "stale t s \<longleftrightarrow> t \<ge> task_count s \<or> st_of s t \<noteq> TASK_READY \<or> tk_rsp (tasks s t) = 0"

lemma schedule_idle:
  assumes "cpu_ok s" "c < SMP_MAX_CPUS" "frame \<noteq> 0" "cpu_cur s c = None"
  shows "schedule_on_cpu c frame s = (case pop_or_steal c s of (None, s2) \<Rightarrow> (frame, s2)
    | (Some t, s2) \<Rightarrow> if stale t s2 then (frame, s2) else switch_to c t s2)"
proof -
  have "s\<lparr>cpu_cur := (cpu_cur s)(c := None)\<rparr> = s" using assms(4) by (simp add: fun_upd_idem)
  then show ?thesis
    unfolding schedule_on_cpu_def Let_def assms(4) stale_def option.sel option.case using assms cpu_okD(6) [OF assms(1)]
    by (cases "pop_or_steal c s"; cases "fst (pop_or_steal c s)"; simp add: not_le)
qed

lemma schedule_running:
  assumes "cpu_ok s" "c < SMP_MAX_CPUS" "frame \<noteq> 0" "cpu_cur s c = Some cur" "st_of s cur = TASK_RUNNING"
  shows "schedule_on_cpu c frame s = (case pop_or_steal c s of (None, s2) \<Rightarrow> (frame, s2)
    | (Some t, s2) \<Rightarrow> if stale t s2 then (frame, s2)
        else case runq_push c cur (upd_task cur (\<lambda>k. k\<lparr>tk_rsp := frame, tk_state := TASK_READY\<rparr>) s2) of
               (False, s4) \<Rightarrow> (frame, snd (runq_push c t (set_state cur TASK_RUNNING s4)))
             | (True, s4) \<Rightarrow> switch_to c t s4)"
  unfolding schedule_on_cpu_def Let_def assms(4) stale_def option.sel option.case using assms cpu_okD(2) [OF assms(1,4)] cpu_okD(6) [OF assms(1)]
  by (cases "pop_or_steal c s"; cases "fst (pop_or_steal c s)"; simp add: not_le)

lemma schedule_blocked:
  assumes "cpu_ok s" "c < SMP_MAX_CPUS" "frame \<noteq> 0" "cpu_cur s c = Some cur" "st_of s cur \<noteq> TASK_RUNNING"
  shows "schedule_on_cpu c frame s = (case pop_or_steal c s of (None, s2) \<Rightarrow> (frame, upd_task cur (\<lambda>k. k\<lparr>tk_rsp := frame\<rparr>) s2)
    | (Some t, s2) \<Rightarrow> if stale t s2 then (frame, s2) else switch_to c t (upd_task cur (\<lambda>k. k\<lparr>tk_rsp := frame\<rparr>) s2))"
proof -
  have "st_of s cur = TASK_SLEEPING \<or> st_of s cur = TASK_BLOCKED" using cpu_okD(3) [OF assms(1,4)] assms(5) by simp
  then show ?thesis
    unfolding schedule_on_cpu_def Let_def assms(4) stale_def option.sel option.case using assms cpu_okD(2) [OF assms(1,4)] cpu_okD(6) [OF assms(1)]
    by (cases "pop_or_steal c s"; cases "fst (pop_or_steal c s)"; auto simp: not_le)
qed

lemma inv_set_rsp:
  assumes inv: "sched_inv X F s" and frame: "frame \<noteq> 0"
  shows "sched_inv X F (upd_task cur (\<lambda>k. k\<lparr>tk_rsp := frame\<rparr>) s)"
proof -
  let ?s = "upd_task cur (\<lambda>k. k\<lparr>tk_rsp := frame\<rparr>) s"
  have st: "st_of ?s = st_of s" by (simp add: fun_eq_iff st_of_upd) (simp add: st_of_def)
  have "placed X ?s" using placed_frame [of ?s s X] sched_invD(1) [OF inv] st by simp
  moreover have "cpu_ok ?s" by (rule cpu_ok_frame [OF sched_invD(2) [OF inv]]) (simp_all add: st)
  moreover have "frames_ok F ?s"
    using frames_okD [OF sched_invD(3) [OF inv]] frame by (intro frames_okI) (simp_all add: st, simp_all add: upd_task_def)
  ultimately show ?thesis using sched_invD(4) [OF inv] by (simp add: sched_inv_def)
qed

lemma popped_not_stale:
  assumes inv: "sched_inv X F s" and q: "pop_or_steal c s = (Some t, s2)"
  shows "\<not> stale t s2" "st_of s t = TASK_READY"
proof -
  note p = placed_pop_or_steal [OF sched_invD(1) [OF inv] q]
  have st: "st_of s2 = st_of s" by (rule st_of_frame [OF p(2)])
  have h: "st_of s t = TASK_READY" "t \<notin># X" using placed_in_hand [OF p(1)] st by simp_all
  then show "st_of s t = TASK_READY" by simp
  have "t < task_count s" using ready_bound [OF sched_invD(2) [OF inv], of t] h by simp
  moreover have "tk_rsp (tasks s t) \<noteq> 0" using frames_okD(1) [OF sched_invD(3) [OF inv] h(1)] sched_invD(4) [OF inv] h(2) by blast
  ultimately show "\<not> stale t s2" using h p st by (simp add: stale_def)
qed

lemma inv_schedule:
  assumes inv: "sched_inv X F s" and r: "schedule_on_cpu c frame s = (r, s')"
  shows "sched_inv X F s'"
proof (cases "c < SMP_MAX_CPUS \<and> frame \<noteq> 0")
  case False
  then have "s' = s" using r by (auto simp: schedule_on_cpu_def not_less)
  then show ?thesis using inv by simp
next
  case True
  then have c: "c < SMP_MAX_CPUS" "frame \<noteq> 0" by simp_all
  note ok = sched_invD(2) [OF inv]
  obtain q s2 where q: "pop_or_steal c s = (q, s2)" using prod.exhaust by blast
  show ?thesis
  proof (cases q)
    case None
    then have "s2 = s" using pop_or_steal_none q by blast
    moreover have "s' = s2 \<or> (\<exists>cur. s' = upd_task cur (\<lambda>k. k\<lparr>tk_rsp := frame\<rparr>) s2)"
    proof (cases "cpu_cur s c")
      case none: None
      then show ?thesis using r q None schedule_idle [OF ok c none] by simp
    next
      case (Some cur)
      then show ?thesis using r q None schedule_running [OF ok c Some] schedule_blocked [OF ok c Some]
        by (cases "st_of s cur = TASK_RUNNING") auto
    qed
    ultimately show ?thesis using inv inv_set_rsp [OF inv c(2)] by auto
  next
    case (Some t)
    note q1 = q [unfolded Some]
    note p = placed_pop_or_steal [OF sched_invD(1) [OF inv] q1]
    note ns = popped_not_stale [OF inv q1]
    note keep = switch_keeps [OF ok sched_invD(3) [OF inv] c ns(2)]
    have st: "st_of s2 = st_of s" by (rule st_of_frame [OF p(2)])
    have "placed X s' \<and> cpu_ok s' \<and> frames_ok F s'"
    proof (cases "cpu_cur s c")
      case none: None
      then have "switch_to c t s2 = (r, s')" using r q1 ns schedule_idle [OF ok c none] by simp
      then show ?thesis by (rule keep [OF p(1,3,4), rotated -1]) (simp_all add: none st p(2))
    next
      case cur: (Some cur)
      show ?thesis
      proof (cases "st_of s cur = TASK_RUNNING")
        case False
        define s4 where "s4 = upd_task cur (\<lambda>k. k\<lparr>tk_rsp := frame\<rparr>) s2"
        have st4: "st_of s4 = st_of s" using st by (simp add: s4_def fun_eq_iff st_of_upd) (simp add: st_of_def)
        have sw: "switch_to c t s4 = (r, s')" using r q1 ns schedule_blocked [OF ok c cur False] by (simp add: s4_def)
        have p4: "placed (add_mset t X) s4" using p(1) placed_frame [of s4 s2] st4 st by (simp add: s4_def)
        show ?thesis by (rule keep [OF p4 _ _ _ _ sw]) (use cur False p st4 in \<open>auto simp: s4_def upd_task_def\<close>)
      next
        case True
        define s3 where "s3 = upd_task cur (\<lambda>k. k\<lparr>tk_rsp := frame, tk_state := TASK_READY\<rparr>) s2"
        obtain b s4 where push: "runq_push c cur s3 = (b, s4)" using prod.exhaust by blast
        have st3: "st_of s3 = (st_of s)(cur := TASK_READY)" using st by (simp add: s3_def fun_eq_iff st_of_upd)
        have p3: "placed (add_mset cur (add_mset t X)) s3"
          by (rule placed_becomes_ready [OF p(1)]) (simp_all add: True st st3, simp add: s3_def)
        have bound: "u < MAX_TASKS" if "st_of s3 u = TASK_READY" for u
          using that ready_bound [OF ok, of u] True by (cases "u = cur") (simp_all add: st3)
        have pp: "b" "placed (add_mset t X) s4" "s4 = set_runq c (runqs s3 c @ [cur]) (upd_task cur (\<lambda>k. k\<lparr>tk_enqueue := now s3\<rparr>) s3)"
          using placed_push [OF p3 c(1) _ push] bound by blast+
        have "st_of s4 u = st_of s3 u" for u unfolding pp(3) by (simp add: st_of_upd) (simp add: st_of_def)
        then have st4: "st_of s4 = (st_of s)(cur := TASK_READY)" using st3 by (simp add: fun_eq_iff)
        have sw: "switch_to c t s4 = (r, s')" using r q1 ns schedule_running [OF ok c cur True] push pp(1) by (simp add: s3_def)
        show ?thesis by (rule keep [OF pp(2) _ _ _ _ sw]) (use cur True p st4 in \<open>auto simp: pp(3) s3_def set_runq_def upd_task_def\<close>)
      qed
    qed
    then show ?thesis using sched_invD(4) [OF inv] by (simp add: sched_inv_def)
  qed
qed


section \<open>Blocking and waking\<close>

lemma inv_frame:
  assumes inv: "sched_inv X F s" and s': "runqs s' = runqs s" "cpu_cur s' = cpu_cur s" "task_count s' = task_count s" "st_of s' = st_of s"
    "\<And>t. tk_rsp (tasks s' t) = tk_rsp (tasks s t)"
  shows "sched_inv X F s'"
proof -
  have "placed X s'" using placed_frame [OF s'(1), of X] s'(4) sched_invD(1) [OF inv] by simp
  moreover have "cpu_ok s'" by (rule cpu_ok_frame [OF sched_invD(2) [OF inv] s'(2-4)])
  moreover have "frames_ok F s'" using sched_invD(3) [OF inv] s' by (simp add: frames_ok_def)
  ultimately show ?thesis using sched_invD(4) [OF inv] by (simp add: sched_inv_def)
qed

text \<open>A task on a CPU changes between running and blocked.\<close>

lemma inv_on_cpu:
  assumes inv: "sched_inv X F s" and c: "cpu_cur s c = Some t"
    and st: "st = TASK_RUNNING \<or> st = TASK_SLEEPING \<or> st = TASK_BLOCKED"
  shows "sched_inv X F (set_state t st s)"
proof -
  note ok = sched_invD(2) [OF inv]
  have nr: "st_of s t \<noteq> TASK_READY" using cpu_okD(3) [OF ok c] by auto
  have "placed X (set_state t st s)" using placed_frame [of "set_state t st s" s X] sched_invD(1) [OF inv] nr st by auto
  moreover have "cpu_ok (set_state t st s)"
  proof (rule cpu_okI)
    fix d u assume d: "cpu_cur (set_state t st s) d = Some u"
    then show "d < SMP_MAX_CPUS \<and> u < task_count (set_state t st s)
        \<and> (st_of (set_state t st s) u = TASK_RUNNING \<or> st_of (set_state t st s) u = TASK_SLEEPING \<or> st_of (set_state t st s) u = TASK_BLOCKED)"
      using cpu_okD(1,2,3) [OF ok, of d u] st by simp
    fix e assume "cpu_cur (set_state t st s) e = Some u"
    then show "d = e" using d cpu_okD(4) [OF ok] by simp
  next
    fix u assume "st_of (set_state t st s) u = TASK_RUNNING"
    then show "\<exists>d. cpu_cur (set_state t st s) d = Some u" using cpu_okD(5) [OF ok, of u] c by (cases "u = t") auto
  next
    show "0 < task_count (set_state t st s)" "task_count (set_state t st s) \<le> MAX_TASKS" using cpu_okD(6,7) [OF ok] by simp_all
  next
    fix u assume "task_count (set_state t st s) \<le> u"
    then show "st_of (set_state t st s) u = TASK_DEAD" using cpu_okD(8) [OF ok, of u] cpu_okD(2) [OF ok c] by auto
  qed
  moreover have "frames_ok F (set_state t st s)"
  proof (rule frames_okI)
    fix u assume "st_of (set_state t st s) u = TASK_READY" "u \<notin> F"
    then show "tk_rsp (tasks (set_state t st s) u) \<noteq> 0"
      using frames_okD(1) [OF sched_invD(3) [OF inv], of u] st by (auto split: if_splits)
  next
    fix u assume "st_of (set_state t st s) u = TASK_SLEEPING \<or> st_of (set_state t st s) u = TASK_BLOCKED"
      and off: "\<forall>d. cpu_cur (set_state t st s) d \<noteq> Some u"
    moreover have "u \<noteq> t" using off c by auto
    ultimately show "tk_rsp (tasks (set_state t st s) u) \<noteq> 0"
      using frames_okD(2) [OF sched_invD(3) [OF inv], of u] by simp
  qed
  ultimately show ?thesis using sched_invD(4) [OF inv] by (simp add: sched_inv_def)
qed

lemma inv_block:
  assumes "sched_inv X F s" "block_prepare c st s = (r, s')"
  shows "sched_inv X F s'"
  using assms inv_on_cpu [OF assms(1), of c _ st] by (auto simp: block_prepare_def split: if_splits option.splits)

lemma inv_wake_at: "sched_inv X F s \<Longrightarrow> sched_inv X F (upd_task t (\<lambda>k. k\<lparr>tk_wake_at := n\<rparr>) s)"
  by (rule inv_frame, assumption) (simp_all add: st_of_upd_same rsp_upd)

lemma inv_sleep:
  assumes "sched_inv X F s" "sleep_prepare c ms s = (r, s')"
  shows "sched_inv X F s'"
  using assms inv_block [OF inv_wake_at [OF assms(1)]] by (auto simp: sleep_prepare_def split: if_splits option.splits)

text \<open>A task on no CPU becomes ready and is in hand, or stops being ready.\<close>

lemma inv_becomes_ready:
  assumes inv: "sched_inv X F s" and t: "st_of s t \<noteq> TASK_READY" "\<And>c. cpu_cur s c \<noteq> Some t" and s': "runqs s' = runqs s" "cpu_cur s' = cpu_cur s"
    "st_of s' = (st_of s)(t := TASK_READY)" and rsp: "\<And>u. u \<noteq> t \<Longrightarrow> tk_rsp (tasks s' u) = tk_rsp (tasks s u)"
    and n: "task_count s' \<le> MAX_TASKS" "task_count s \<le> task_count s'" "t < task_count s'" "\<forall>u. task_count s \<le> u \<longrightarrow> u < task_count s' \<longrightarrow> u = t"
    and F: "F' = F \<and> tk_rsp (tasks s' t) \<noteq> 0 \<or> F' = insert t F"
  shows "sched_inv (add_mset t X) F' s'"
proof -
  have "placed (add_mset t X) s'" by (rule placed_becomes_ready [OF sched_invD(1) [OF inv] t(1) s'(1,3)])
  moreover have "cpu_ok s'" by (rule cpu_ok_off_cpu [OF sched_invD(2) [OF inv] t(2) s'(2,3) _ n]) simp
  moreover have "frames_ok F' s'"
  proof (rule frames_okI)
    fix u assume "st_of s' u = TASK_READY" "u \<notin> F'"
    then show "tk_rsp (tasks s' u) \<noteq> 0"
      using frames_okD(1) [OF sched_invD(3) [OF inv], of u] rsp [of u] F by (cases "u = t") (auto simp: s'(3))
  next
    fix u assume "st_of s' u = TASK_SLEEPING \<or> st_of s' u = TASK_BLOCKED" "\<forall>c. cpu_cur s' c \<noteq> Some u"
    then show "tk_rsp (tasks s' u) \<noteq> 0"
      using frames_okD(2) [OF sched_invD(3) [OF inv], of u] rsp [of u] s' by (cases "u = t") simp_all
  qed
  ultimately show ?thesis using sched_invD(4) [OF inv] F by (auto simp: sched_inv_def)
qed

lemma inv_stops_ready:
  assumes inv: "sched_inv (add_mset t X) F s" and s': "runqs s' = runqs s" "cpu_cur s' = cpu_cur s" "task_count s' = task_count s"
    "st_of s' = (st_of s)(t := st)" and st: "st = TASK_DEAD \<or> st = TASK_ZOMBIE"
    and rsp: "\<And>u. u \<noteq> t \<Longrightarrow> tk_rsp (tasks s' u) = tk_rsp (tasks s u)"
  shows "sched_inv X (F - {t}) s'"
proof -
  have h: "st_of s t = TASK_READY" using placed_in_hand [OF sched_invD(1) [OF inv]] by simp
  note ok = sched_invD(2) [OF inv]
  have off: "cpu_cur s c \<noteq> Some t" for c using cpu_okD(3) [OF ok, of c t] h by auto
  have tn: "t < task_count s" using ready_bound [OF ok, of t] h by simp
  have "placed X s'" by (rule placed_leaves_ready [OF sched_invD(1) [OF inv] s'(1)]) (use s'(4) st in auto)
  moreover have "cpu_ok s'"
    by (rule cpu_ok_off_cpu [OF ok off s'(2,4)]) (use st s'(3) tn cpu_okD(7) [OF ok] in auto)
  moreover have "frames_ok (F - {t}) s'"
  proof (rule frames_okI)
    fix u assume "st_of s' u = TASK_READY" "u \<notin> F - {t}"
    then show "tk_rsp (tasks s' u) \<noteq> 0"
      using frames_okD(1) [OF sched_invD(3) [OF inv], of u] rsp [of u] s'(4) st by (cases "u = t") auto
  next
    fix u assume "st_of s' u = TASK_SLEEPING \<or> st_of s' u = TASK_BLOCKED" "\<forall>c. cpu_cur s' c \<noteq> Some u"
    then show "tk_rsp (tasks s' u) \<noteq> 0"
      using frames_okD(2) [OF sched_invD(3) [OF inv], of u] rsp [of u] s' st by (cases "u = t") auto
  qed
  ultimately show ?thesis using sched_invD(4) [OF inv] by (auto simp: sched_inv_def)
qed

lemma on_cpu_none: "cpu_ok s \<Longrightarrow> on_cpu t s = None \<Longrightarrow> cpu_cur s c \<noteq> Some t"
  using cpu_okD(1) [of s c t] by (auto simp: on_cpu_def find_None_iff)

lemma inv_unblock_locked:
  assumes inv: "sched_inv X F s" and r: "unblock_locked t s = (q, s')"
  shows "sched_inv (if q then add_mset t X else X) F s'"
proof (cases "t \<ge> MAX_TASKS \<or> (st_of s t \<noteq> TASK_SLEEPING \<and> st_of s t \<noteq> TASK_BLOCKED)")
  case True
  then have "q = False" "s' = s" using r by (auto simp: unblock_locked_def split: if_splits)
  then show ?thesis using inv by simp
next
  case False
  define s1 where "s1 = upd_task t (\<lambda>k. k\<lparr>tk_wake_at := 0\<rparr>) s"
  have inv1: "sched_inv X F s1" unfolding s1_def by (rule inv_wake_at [OF inv])
  note ok = sched_invD(2) [OF inv1]
  have st1: "st_of s1 t = TASK_SLEEPING \<or> st_of s1 t = TASK_BLOCKED" using False by (auto simp: s1_def st_of_upd_same)
  have eq: "(q, s') = (if on_cpu t s1 \<noteq> None then (False, set_state t TASK_RUNNING s1) else (True, set_state t TASK_READY s1))"
    using r False by (auto simp: unblock_locked_def s1_def Let_def)
  show ?thesis
  proof (cases "on_cpu t s1")
    case None
    then have off: "cpu_cur s1 c \<noteq> Some t" for c by (rule on_cpu_none [OF ok])
    have "sched_inv (add_mset t X) F (set_state t TASK_READY s1)"
    proof (rule inv_becomes_ready [OF inv1 _ off])
      show "F = F \<and> tk_rsp (tasks (set_state t TASK_READY s1) t) \<noteq> 0 \<or> F = insert t F"
        using frames_okD(2) [OF sched_invD(3) [OF inv1] st1] off by simp
    qed (use st1 ready_bound [OF ok, of t] cpu_okD(7) [OF ok] in \<open>auto simp: fun_eq_iff\<close>)
    then show ?thesis using eq None by simp
  next
    case (Some c)
    then have "cpu_cur s1 c = Some t" by (auto simp: on_cpu_def find_Some_iff)
    then show ?thesis using eq Some inv_on_cpu [OF inv1] by simp
  qed
qed


lemma inv_push:
  assumes inv: "sched_inv (add_mset t X) F s" and t: "t \<notin> F" and r: "runq_push (pick_target_cpu s) t s = (ok, s')"
  shows "ok" "sched_inv X F s'"
proof -
  note i = sched_invD [OF inv]
  have bound: "u < MAX_TASKS" if "st_of s u = TASK_READY" for u using that ready_bound [OF i(2), of u] by simp
  have p: "ok" "placed X s'" "s' = set_runq (pick_target_cpu s) (runqs s (pick_target_cpu s) @ [t]) (upd_task t (\<lambda>k. k\<lparr>tk_enqueue := now s\<rparr>) s)"
    using placed_push [OF i(1) pick_target_bound _ r] bound by blast+
  show "ok" by (rule p(1))
  have st: "st_of s' = st_of s" unfolding p(3) by (simp add: st_of_upd_same)
  have "cpu_ok s'" by (rule cpu_ok_frame [OF i(2)]) (simp_all add: st, simp_all add: p(3))
  moreover have "frames_ok F s'"
  proof -
    have "cpu_cur s' = cpu_cur s" "\<And>u. tk_rsp (tasks s' u) = tk_rsp (tasks s u)" unfolding p(3) by (simp_all add: rsp_upd)
    then show ?thesis using i(3) st by (simp add: frames_ok_def)
  qed
  ultimately show "sched_inv X F s'" using i(4) t p(2) by (auto simp: sched_inv_def)
qed

lemma inv_unblock_enqueue:
  assumes "sched_inv (add_mset t X) F s" "t \<notin> F"
  shows "sched_inv X F (unblock_enqueue t s)"
proof -
  obtain ok s1 where r: "runq_push (pick_target_cpu s) t s = (ok, s1)" using prod.exhaust by blast
  show ?thesis using inv_push [OF assms r] r by (simp add: unblock_enqueue_def)
qed

section \<open>Birth and death\<close>

lemma alloc_slot_some:
  assumes ok: "cpu_ok s" and r: "alloc_slot s = (Some slot, s1)"
  shows "st_of s slot = TASK_DEAD" "slot < task_count s1" "task_count s1 \<le> MAX_TASKS" "task_count s \<le> task_count s1"
    "\<forall>u. task_count s \<le> u \<longrightarrow> u < task_count s1 \<longrightarrow> u = slot" "tasks s1 = tasks s" "runqs s1 = runqs s" "cpu_cur s1 = cpu_cur s"
proof -
  have "(find (\<lambda>i. st_of s i = TASK_DEAD) [1..<task_count s] = Some slot \<and> s1 = s)
      \<or> (task_count s < MAX_TASKS \<and> slot = task_count s \<and> s1 = s\<lparr>task_count := task_count s + 1\<rparr>)"
    using r by (auto simp: alloc_slot_def split: option.splits if_splits)
  then show "st_of s slot = TASK_DEAD" "slot < task_count s1" "task_count s1 \<le> MAX_TASKS" "task_count s \<le> task_count s1"
    "\<forall>u. task_count s \<le> u \<longrightarrow> u < task_count s1 \<longrightarrow> u = slot" "tasks s1 = tasks s" "runqs s1 = runqs s" "cpu_cur s1 = cpu_cur s"
    using cpu_okD(7) [OF ok] cpu_okD(8) [OF ok, of slot] by (auto simp: find_Some_iff)
qed

lemma alloc_slot_none: "alloc_slot s = (None, s1) \<Longrightarrow> s1 = s"
  by (auto simp: alloc_slot_def split: option.splits if_splits)

lemma inv_fill_slot:
  assumes inv: "sched_inv X F s" and r: "alloc_slot s = (Some slot, s1)" and F: "F' = F \<and> tk_rsp k \<noteq> 0 \<or> F' = insert slot F"
  shows "sched_inv (add_mset slot X) F' (fill_slot slot k s1)"
proof -
  note ok = sched_invD(2) [OF inv]
  note a = alloc_slot_some [OF ok r]
  have off: "cpu_cur s c \<noteq> Some slot" for c using cpu_okD(3) [OF ok, of c slot] a(1) by auto
  have st: "st_of (fill_slot slot k s1) = (st_of s)(slot := TASK_READY)"
    using a(6) by (simp add: fun_eq_iff fill_slot_def st_of_upd) (simp add: st_of_def)
  show ?thesis
    by (rule inv_becomes_ready [OF inv _ off _ _ st _ _ _ _ _ ]) (use a F in \<open>simp_all add: fill_slot_def rsp_upd\<close>)
qed

text \<open>Growing the table without filling the slot.\<close>

lemma inv_alloc_only:
  assumes inv: "sched_inv X F s" and r: "alloc_slot s = (Some slot, s1)"
  shows "sched_inv X F s1"
proof -
  note ok = sched_invD(2) [OF inv]
  note a = alloc_slot_some [OF ok r]
  have st: "st_of s1 = st_of s" by (rule st_of_frame [OF a(6)])
  have off: "cpu_cur s c \<noteq> Some slot" for c using cpu_okD(3) [OF ok, of c slot] a(1) by auto
  have "st_of s1 = (st_of s)(slot := TASK_DEAD)" using st a(1) by (simp add: fun_eq_iff)
  then have "cpu_ok s1" by (rule cpu_ok_off_cpu [OF ok off a(8) _ _ a(3,4,2,5)]) simp
  moreover have "placed X s1" using placed_frame [OF a(7), of X] st sched_invD(1) [OF inv] by simp
  moreover have "frames_ok F s1" using sched_invD(3) [OF inv] st a by (simp add: frames_ok_def)
  ultimately show ?thesis using sched_invD(4) [OF inv] by (simp add: sched_inv_def)
qed

definition stack_ok :: "nat \<Rightarrow> bool" where
  "stack_ok stack \<longleftrightarrow> 0 < stack \<and> stack mod 4096 = 0 \<and> stack + 20480 < 18446744073709551616"

lemma stack_top_eq: "stack_ok stack \<Longrightarrow> task_stack_top stack = stack + 20480"
  by (simp add: stack_ok_def task_stack_top_def STACK_GUARD_def TASK_STACK_SIZE_def u64_def)

lemma frame_addr_eq: "stack_ok stack \<Longrightarrow> frame_addr (task_stack_top stack) = stack + 20296"
proof -
  assume s: "stack_ok stack"
  then have "fake_frame_top (task_stack_top stack) = stack + 20472"
    using sub64_id [of 8 "stack + 20480"] by (simp add: stack_top_eq fake_frame_top_def KZ_FAKE_FRAME_PAD_def stack_ok_def)
  then show ?thesis using sub64_id [of 176 "stack + 20472"] s by (simp add: frame_addr_def KZ_REGISTERS_SIZE_def stack_ok_def)
qed

lemma fork_frame_addr_eq: "stack_ok stack \<Longrightarrow> fork_frame_addr stack = stack + 16208"
  using sub64_id [of 176 "stack + 16384"] by (simp add: fork_frame_addr_def stack_ok_def TASK_STACK_SIZE_def KZ_REGISTERS_SIZE_def u64_def)

lemma inv_create_task:
  assumes inv: "sched_inv X F s" and k: "stack_ok stack" and r: "create_task_locked cpu stack name prio s = (slot, s')"
  shows "case slot of None \<Rightarrow> sched_inv X F s' | Some t \<Rightarrow> sched_inv (add_mset t X) F s'"
proof -
  obtain a s1 where a: "alloc_slot s = (a, s1)" using prod.exhaust by blast
  show ?thesis
  proof (cases a)
    case None
    then show ?thesis using r a alloc_slot_none inv by (auto simp: create_task_locked_def)
  next
    case (Some t)
    then show ?thesis using r a inv_fill_slot [OF inv a [unfolded Some], of F] frame_addr_eq [OF k] by (auto simp: create_task_locked_def Let_def)
  qed
qed

lemma inv_create_user:
  assumes inv: "sched_inv X F s" and k: "stack_ok stack" and r: "create_user_locked cpu stack pml4 cookie name argc s = (slot, s')"
  shows "case slot of None \<Rightarrow> sched_inv X F s' | Some t \<Rightarrow> sched_inv (add_mset t X) F s'"
proof -
  obtain a s1 where a: "alloc_slot s = (a, s1)" using prod.exhaust by blast
  show ?thesis
  proof (cases a)
    case None
    then show ?thesis using r a alloc_slot_none inv by (auto simp: create_user_locked_def)
  next
    case (Some t)
    then show ?thesis using r a inv_fill_slot [OF inv a [unfolded Some], of F] inv_alloc_only [OF inv a [unfolded Some]] frame_addr_eq [OF k]
      by (auto simp: create_user_locked_def Let_def split: option.splits)
  qed
qed

lemma inv_fork_locked:
  assumes inv: "sched_inv X F s" and r: "fork_locked parent stack as cookie s = (slot, s')"
  shows "case slot of None \<Rightarrow> sched_inv X F s' | Some t \<Rightarrow> sched_inv (add_mset t X) (insert t F) s'"
proof -
  obtain a s1 where a: "alloc_slot s = (a, s1)" using prod.exhaust by blast
  show ?thesis
  proof (cases a)
    case None
    then show ?thesis using r a alloc_slot_none inv by (auto simp: fork_locked_def)
  next
    case (Some t)
    then show ?thesis using r a inv_fill_slot [OF inv a [unfolded Some], of "insert t F"] by (auto simp: fork_locked_def Let_def)
  qed
qed

lemma inv_fork_frame:
  assumes inv: "sched_inv X F s" and k: "stack_ok stack"
  shows "sched_inv X (F - {t}) (fork_set_frame t stack s)"
proof -
  have i: "sched_inv X F (fork_set_frame t stack s)"
    unfolding fork_set_frame_def by (rule inv_set_rsp [OF inv]) (simp add: fork_frame_addr_eq [OF k])
  have "frames_ok (F - {t}) (fork_set_frame t stack s)"
  proof (rule frames_okI)
    fix u assume "st_of (fork_set_frame t stack s) u = TASK_READY" "u \<notin> F - {t}"
    then show "tk_rsp (tasks (fork_set_frame t stack s) u) \<noteq> 0"
      using frames_okD(1) [OF sched_invD(3) [OF i], of u] by (cases "u = t") (simp_all add: fork_set_frame_def rsp_upd fork_frame_addr_eq [OF k])
  qed (rule frames_okD(2) [OF sched_invD(3) [OF i]])
  then show ?thesis using i by (auto simp: sched_inv_def)
qed

lemma inv_discard:
  assumes "sched_inv (add_mset t X) F s" "t \<notin> F"
  shows "sched_inv X F (discard_slot b t s)"
proof -
  have "sched_inv X (F - {t}) (discard_slot b t s)"
    by (rule inv_stops_ready [OF assms(1), where st = TASK_DEAD]) (simp_all add: discard_slot_def fun_eq_iff st_of_upd rsp_upd)
  then show ?thesis using assms(2) by simp
qed

lemma inv_publish:
  assumes "sched_inv (add_mset t X) F s" "t \<notin> F" "publish_task b t s = (ok, s')"
  shows "ok" "sched_inv X F s'"
proof -
  obtain ok1 s1 where r: "runq_push (pick_target_cpu s) t s = (ok1, s1)" using prod.exhaust by blast
  show "ok" "sched_inv X F s'" using inv_push [OF assms(1,2) r] r assms(3) by (simp_all add: publish_task_def)
qed


lemma transition_frame:
  assumes r: "proc_transition_locked d code reason s = (q, s')"
  shows "runqs s' = runqs s" "cpu_cur s' = cpu_cur s" "task_count s' = task_count s" "u \<noteq> d \<Longrightarrow> tk_rsp (tasks s' u) = tk_rsp (tasks s u)"
    "q = None \<Longrightarrow> s' = s"
    "q \<noteq> None \<Longrightarrow> \<exists>st. (st = TASK_DEAD \<or> st = TASK_ZOMBIE) \<and> st_of s' = (st_of s)(d := st)"
proof -
  have rp: "runqs (reparent d s) = runqs s" "cpu_cur (reparent d s) = cpu_cur s" "task_count (reparent d s) = task_count s"
    "tk_rsp (tasks (reparent d s) u) = tk_rsp (tasks s u)" "tk_state (tasks (reparent d s) u) = tk_state (tasks s u)" for u
    by (simp_all add: reparent_def)
  show "q = None \<Longrightarrow> s' = s" using r by (auto simp: proc_transition_locked_def Let_def split: if_splits)
  show "runqs s' = runqs s" "cpu_cur s' = cpu_cur s" "task_count s' = task_count s" "u \<noteq> d \<Longrightarrow> tk_rsp (tasks s' u) = tk_rsp (tasks s u)"
    using r rp by (auto simp: proc_transition_locked_def Let_def split: if_splits)
  assume "q \<noteq> None"
  then show "\<exists>st. (st = TASK_DEAD \<or> st = TASK_ZOMBIE) \<and> st_of s' = (st_of s)(d := st)"
    using r rp(5) by (intro exI [of _ "st_of s' d"]) (auto simp: proc_transition_locked_def Let_def st_of_def fun_eq_iff split: if_splits)
qed

lemma inv_exit:
  assumes inv: "sched_inv X F s" and r: "proc_exit_locked cpu code reason s = (q, s')"
  shows "sched_inv X F s'"
proof (cases "\<exists>self. cpu < SMP_MAX_CPUS \<and> cpu_cur s cpu = Some self \<and> self < task_count s")
  case False
  then have "s' = s" using r by (auto simp: proc_exit_locked_def split: option.splits if_splits)
  then show ?thesis using inv by simp
next
  case True
  then obtain self where self: "cpu < SMP_MAX_CPUS" "cpu_cur s cpu = Some self" "self < task_count s" by blast
  obtain q1 s1 where t: "proc_transition_locked self code reason s = (q1, s1)" using prod.exhaust by blast
  note f = transition_frame [OF t] and ok = sched_invD(2) [OF inv]
  show ?thesis
  proof (cases q1)
    case None
    then have "s' = s1" using r t self by (simp add: proc_exit_locked_def)
    then show ?thesis using f(5) None inv by simp
  next
    case (Some x)
    then have s': "s' = s1\<lparr>cpu_cur := (cpu_cur s1)(cpu := None)\<rparr>" using r t self by (simp add: proc_exit_locked_def)
    obtain st where st: "st = TASK_DEAD \<or> st = TASK_ZOMBIE" "st_of s1 = (st_of s)(self := st)" using f(6) Some by blast
    have st': "st_of s' = (st_of s)(self := st)" using st(2) by (simp add: s' st_of_def fun_eq_iff)
    have fr: "task_count s' = task_count s" "runqs s' = runqs s" "\<And>u. u \<noteq> self \<Longrightarrow> tk_rsp (tasks s' u) = tk_rsp (tasks s u)"
      using f(1,3,4) by (simp_all add: s')
    have nr: "st_of s self \<noteq> TASK_READY" using cpu_okD(3) [OF ok self(2)] by auto
    have on: "cpu_cur s' c = Some u \<longleftrightarrow> c \<noteq> cpu \<and> cpu_cur s c = Some u" for c u using f(2) by (simp add: s')
    have only: "cpu_cur s c = Some self \<Longrightarrow> c = cpu" for c using cpu_okD(4) [OF ok _ self(2)] .
    have "placed X s'" using placed_frame [OF fr(2), of X] st st' nr sched_invD(1) [OF inv] by auto
    moreover have "cpu_ok s'"
    proof (rule cpu_okI)
      fix c u assume c: "cpu_cur s' c = Some u"
      then show "c < SMP_MAX_CPUS \<and> u < task_count s' \<and> (st_of s' u = TASK_RUNNING \<or> st_of s' u = TASK_SLEEPING \<or> st_of s' u = TASK_BLOCKED)"
        using cpu_okD(1,2,3) [OF ok, of c u] fr(1) on only by (auto simp: st')
      fix e assume "cpu_cur s' e = Some u"
      then show "c = e" using c on cpu_okD(4) [OF ok, of c u e] by simp
    next
      fix u assume "st_of s' u = TASK_RUNNING"
      then have "u \<noteq> self" "st_of s u = TASK_RUNNING" using st st' by (auto split: if_splits)
      then obtain c where "cpu_cur s c = Some u" using cpu_okD(5) [OF ok] by blast
      then show "\<exists>c. cpu_cur s' c = Some u" using on self(2) \<open>u \<noteq> self\<close> by (metis option.inject)
    next
      show "0 < task_count s'" "task_count s' \<le> MAX_TASKS" using cpu_okD(6,7) [OF ok] fr(1) by simp_all
    next
      fix u assume "task_count s' \<le> u"
      then show "st_of s' u = TASK_DEAD" using cpu_okD(8) [OF ok, of u] fr(1) self(3) st' by auto
    qed
    moreover have "frames_ok F s'"
    proof (rule frames_okI)
      fix u assume "st_of s' u = TASK_READY" "u \<notin> F"
      then show "tk_rsp (tasks s' u) \<noteq> 0" using frames_okD(1) [OF sched_invD(3) [OF inv], of u] fr(3) [of u] st st' by (cases "u = self") auto
    next
      fix u assume b: "st_of s' u = TASK_SLEEPING \<or> st_of s' u = TASK_BLOCKED" "\<forall>c. cpu_cur s' c \<noteq> Some u"
      then have u: "u \<noteq> self" using st st' by auto
      then have "\<forall>c. cpu_cur s c \<noteq> Some u" using b(2) on self(2) by (metis option.inject)
      then show "tk_rsp (tasks s' u) \<noteq> 0" using frames_okD(2) [OF sched_invD(3) [OF inv], of u] fr(3) [OF u] b(1) u st' by simp
    qed
    ultimately show ?thesis using sched_invD(4) [OF inv] by (simp add: sched_inv_def)
  qed
qed

lemma inv_purge:
  assumes inv: "sched_inv X F s" and h: "pid \<notin># X" and r: "proc_kill_locked root self pid s = (KillPurged, s')"
  shows "sched_inv (add_mset pid X) F s'"
proof -
  have k: "pid < MAX_TASKS" "st_of s pid = TASK_READY" "s' = scheduler_remove_task pid s"
    using r by (auto simp: proc_kill_locked_def split: if_splits)
  have st: "st_of s' = st_of s" using scheduler_remove_frame(1) by (simp add: k(3) st_of_def fun_eq_iff)
  have "placed (add_mset pid X) s'" unfolding k(3) by (rule placed_purge [OF sched_invD(1) [OF inv] k(1,2) h])
  moreover have "cpu_ok s'" by (rule cpu_ok_frame [OF sched_invD(2) [OF inv]]) (simp_all add: st, simp_all add: k(3) scheduler_remove_frame)
  moreover have "frames_ok F s'" using sched_invD(3) [OF inv] st by (simp add: frames_ok_def) (simp add: k(3) scheduler_remove_frame)
  ultimately show ?thesis using sched_invD(4) [OF inv] by (auto simp: sched_inv_def)
qed

lemma inv_kill_finish:
  assumes inv: "sched_inv (add_mset pid X) F s" and F: "pid \<notin> F" and r: "proc_kill_finish pid s = (q, later, s')"
  shows "sched_inv X F s'"
proof -
  have st: "st_of s pid = TASK_READY" using placed_in_hand [OF sched_invD(1) [OF inv]] by simp
  then have n: "pid < task_count s" using ready_bound [OF sched_invD(2) [OF inv], of pid] by simp
  then have t: "proc_transition_locked pid PROC_KILL_EXIT_CODE PROC_EXIT_KILLED s = (q, s')"
    using r st by (auto simp: proc_kill_finish_def split: prod.splits)
  note f = transition_frame [OF t]
  have "q \<noteq> None" using t st n by (auto simp: proc_transition_locked_def Let_def)
  then obtain st' where s': "st' = TASK_DEAD \<or> st' = TASK_ZOMBIE" "st_of s' = (st_of s)(pid := st')" using f(6) by blast
  have "sched_inv X (F - {pid}) s'" by (rule inv_stops_ready [OF inv f(1-3) s'(2,1)]) (rule f(4))
  then show ?thesis using F by simp
qed

lemma inv_kill_flag:
  assumes "sched_inv X F s" "proc_kill_locked root self pid s = (KillFlagged, s')"
  shows "sched_inv X F s'"
proof -
  have "s' = upd_task pid (\<lambda>k. k\<lparr>tk_kill_pending := True\<rparr>) s" using assms(2) by (auto simp: proc_kill_locked_def split: if_splits)
  then show ?thesis using inv_frame [OF assms(1), of s'] by (simp add: st_of_upd_same rsp_upd)
qed

lemma inv_reap:
  assumes inv: "sched_inv X F s" and r: "proc_waitpid_pass self pid nohang s = (w, s')"
  shows "sched_inv X F s'"
proof (cases "s' = s")
  case False
  then obtain t where t: "s' = reap t s" "st_of s t = TASK_ZOMBIE"
    using r by (auto simp: proc_waitpid_pass_def Let_def find_Some_iff split: if_splits option.splits)
  note ok = sched_invD(2) [OF inv]
  have off: "cpu_cur s c \<noteq> Some t" for c using cpu_okD(3) [OF ok, of c t] t(2) by auto
  have st: "st_of s' = (st_of s)(t := TASK_DEAD)" by (simp add: t(1) reap_def fun_eq_iff st_of_upd)
  have "cpu_ok s'" by (rule cpu_ok_off_cpu [OF ok off _ st]) (use t ready_bound [OF ok, of t] cpu_okD(7) [OF ok] in \<open>auto simp: reap_def\<close>)
  moreover have "placed X s'" using placed_frame [of s' s X] sched_invD(1) [OF inv] st t(2) by (auto simp: t(1) reap_def)
  moreover have "frames_ok F s'"
  proof (rule frames_okI)
    fix u assume "st_of s' u = TASK_READY" "u \<notin> F"
    then show "tk_rsp (tasks s' u) \<noteq> 0"
      using frames_okD(1) [OF sched_invD(3) [OF inv], of u] by (cases "u = t") (simp_all add: st, simp add: t(1) reap_def rsp_upd)
  next
    fix u assume "st_of s' u = TASK_SLEEPING \<or> st_of s' u = TASK_BLOCKED" "\<forall>c. cpu_cur s' c \<noteq> Some u"
    then show "tk_rsp (tasks s' u) \<noteq> 0"
      using frames_okD(2) [OF sched_invD(3) [OF inv], of u] by (cases "u = t") (simp_all add: st, simp_all add: t(1) reap_def rsp_upd)
  qed
  ultimately show ?thesis using sched_invD(4) [OF inv] by (simp add: sched_inv_def)
qed (use inv in simp)


section \<open>All interleavings\<close>

text \<open>
  A configuration: the scheduler, the ready tasks that some CPU is about to queue (woken, made, or forked with the
  stack its frame will be written to), and the ready tasks some CPU has purged in order to kill.  The kill of a task
  that is being made, or that another CPU is already killing, is left out.
\<close>

datatype inflight = Woken | Made bool | Forked nat

record conf =
  pend :: "(nat \<times> inflight) list"
  purged :: "nat list"
  sc :: sched

definition drop_pend :: "nat \<times> inflight \<Rightarrow> conf \<Rightarrow> (nat \<times> inflight) list" where
  "drop_pend x cf = remove1 x (pend cf)"

inductive sched_step :: "conf \<Rightarrow> conf \<Rightarrow> bool" where
  ss_time: "now (sc cf) \<le> n \<Longrightarrow> sched_step cf (cf\<lparr>sc := (sc cf)\<lparr>now := n\<rparr>\<rparr>)"
| ss_online: "sched_step cf (cf\<lparr>sc := (sc cf)\<lparr>online := n\<rparr>\<rparr>)"
| ss_schedule: "schedule_on_cpu c frame (sc cf) = (r, s') \<Longrightarrow> sched_step cf (cf\<lparr>sc := s'\<rparr>)"
| ss_block: "block_prepare c st (sc cf) = (r, s') \<Longrightarrow> sched_step cf (cf\<lparr>sc := s'\<rparr>)"
| ss_sleep: "sleep_prepare c ms (sc cf) = (r, s') \<Longrightarrow> sched_step cf (cf\<lparr>sc := s'\<rparr>)"
| ss_wake: "unblock_locked t (sc cf) = (q, s') \<Longrightarrow> sched_step cf (cf\<lparr>sc := s', pend := if q then (t, Woken) # pend cf else pend cf\<rparr>)"
| ss_enqueue: "(t, Woken) \<in> set (pend cf) \<Longrightarrow> sched_step cf (cf\<lparr>sc := unblock_enqueue t (sc cf), pend := drop_pend (t, Woken) cf\<rparr>)"
| ss_create: "stack_ok stack \<Longrightarrow> create_task_locked cpu stack name prio (sc cf) = (Some t, s')
    \<Longrightarrow> sched_step cf (cf\<lparr>sc := s', pend := (t, Made False) # pend cf\<rparr>)"
| ss_create_fails: "stack_ok stack \<Longrightarrow> create_task_locked cpu stack name prio (sc cf) = (None, s') \<Longrightarrow> sched_step cf (cf\<lparr>sc := s'\<rparr>)"
| ss_spawn: "stack_ok stack \<Longrightarrow> create_user_locked cpu stack pml4 cookie name argc (sc cf) = (Some t, s')
    \<Longrightarrow> sched_step cf (cf\<lparr>sc := s', pend := (t, Made True) # pend cf\<rparr>)"
| ss_spawn_fails: "stack_ok stack \<Longrightarrow> create_user_locked cpu stack pml4 cookie name argc (sc cf) = (None, s') \<Longrightarrow> sched_step cf (cf\<lparr>sc := s'\<rparr>)"
| ss_fork: "stack_ok stack \<Longrightarrow> fork_locked parent stack aspace cookie (sc cf) = (Some t, s')
    \<Longrightarrow> sched_step cf (cf\<lparr>sc := s', pend := (t, Forked stack) # pend cf\<rparr>)"
| ss_fork_fails: "stack_ok stack \<Longrightarrow> fork_locked parent stack aspace cookie (sc cf) = (None, s') \<Longrightarrow> sched_step cf (cf\<lparr>sc := s'\<rparr>)"
| ss_fork_frame: "(t, Forked stack) \<in> set (pend cf)
    \<Longrightarrow> sched_step cf (cf\<lparr>sc := fork_set_frame t stack (sc cf), pend := (t, Made True) # drop_pend (t, Forked stack) cf\<rparr>)"
| ss_give_up: "(t, Made True) \<in> set (pend cf) \<Longrightarrow> sched_step cf (cf\<lparr>sc := discard_slot True t (sc cf), pend := drop_pend (t, Made True) cf\<rparr>)"
| ss_publish: "(t, Made b) \<in> set (pend cf) \<Longrightarrow> publish_task b t (sc cf) = (ok, s')
    \<Longrightarrow> sched_step cf (cf\<lparr>sc := s', pend := drop_pend (t, Made b) cf\<rparr>)"
| ss_exit: "proc_exit_locked cpu code reason (sc cf) = (q, s') \<Longrightarrow> sched_step cf (cf\<lparr>sc := s'\<rparr>)"
| ss_wait: "proc_waitpid_pass self pid nohang (sc cf) = (w, s') \<Longrightarrow> sched_step cf (cf\<lparr>sc := s'\<rparr>)"
| ss_flag: "proc_kill_locked root caller pid' (sc cf) = (KillFlagged, s') \<Longrightarrow> sched_step cf (cf\<lparr>sc := s'\<rparr>)"
| ss_purge: "proc_kill_locked root caller pid' (sc cf) = (KillPurged, s') \<Longrightarrow> pid' \<notin> fst ` set (pend cf) \<Longrightarrow> pid' \<notin> set (purged cf)
    \<Longrightarrow> sched_step cf (cf\<lparr>sc := s', purged := pid' # purged cf\<rparr>)"
| ss_kill: "pid' \<in> set (purged cf) \<Longrightarrow> proc_kill_finish pid' (sc cf) = (q', later, s')
    \<Longrightarrow> sched_step cf (cf\<lparr>sc := s', purged := remove1 pid' (purged cf)\<rparr>)"

inductive_cases sched_stepE: "sched_step cf cf'"

definition in_hand :: "conf \<Rightarrow> nat multiset" where
  "in_hand cf = mset (map fst (pend cf)) + mset (purged cf)"

definition forks :: "conf \<Rightarrow> nat set" where
  "forks cf = {t. \<exists>k. (t, Forked k) \<in> set (pend cf)}"

definition conf_inv :: "conf \<Rightarrow> bool" where
  "conf_inv cf \<longleftrightarrow> sched_inv (in_hand cf) (forks cf) (sc cf) \<and> (\<forall>t k. (t, Forked k) \<in> set (pend cf) \<longrightarrow> stack_ok k)"

text \<open>A task in flight is there once.\<close>

lemma pend_once:
  assumes inv: "conf_inv cf" and x: "(t, x) \<in> set (pend cf)"
  shows "in_hand cf = add_mset t (mset (map fst (drop_pend (t, x) cf)) + mset (purged cf))"
    and "t \<notin> fst ` set (drop_pend (t, x) cf)" and "t \<notin> set (purged cf)"
    and "forks (cf\<lparr>pend := drop_pend (t, x) cf\<rparr>) = forks cf - {t}" and "(\<And>k. x \<noteq> Forked k) \<Longrightarrow> t \<notin> forks cf"
proof -
  have m: "mset (pend cf) = add_mset (t, x) (mset (drop_pend (t, x) cf))" using x by (simp add: drop_pend_def)
  show h: "in_hand cf = add_mset t (mset (map fst (drop_pend (t, x) cf)) + mset (purged cf))"
    using arg_cong [OF m, of "image_mset fst"] by (simp add: in_hand_def mset_map)
  have "placed (in_hand cf) (sc cf)" using inv sched_invD(1) [of "in_hand cf" "forks cf" "sc cf"] by (simp add: conf_inv_def)
  then have n: "t \<notin># mset (map fst (drop_pend (t, x) cf)) + mset (purged cf)" using placed_in_hand unfolding h by blast
  then show t: "t \<notin> fst ` set (drop_pend (t, x) cf)" and "t \<notin> set (purged cf)" by auto
  have s: "set (pend cf) = insert (t, x) (set (drop_pend (t, x) cf))" using arg_cong [OF m, of set_mset] by simp
  show "forks (cf\<lparr>pend := drop_pend (t, x) cf\<rparr>) = forks cf - {t}" using t s by (auto simp: forks_def) force+
  show "(\<And>k. x \<noteq> Forked k) \<Longrightarrow> t \<notin> forks cf" using t s by (auto simp: forks_def) force
qed


lemma conf_sc:
  assumes "conf_inv cf" "sched_inv (in_hand cf) (forks cf) s'"
  shows "conf_inv (cf\<lparr>sc := s'\<rparr>)"
  using assms by (simp add: conf_inv_def in_hand_def forks_def)

lemma conf_add:
  assumes "conf_inv cf" "sched_inv (add_mset t (in_hand cf)) (case x of Forked k \<Rightarrow> insert t (forks cf) | _ \<Rightarrow> forks cf) s'"
    "\<And>k. x = Forked k \<Longrightarrow> stack_ok k"
  shows "conf_inv (cf\<lparr>sc := s', pend := (t, x) # pend cf\<rparr>)"
proof -
  have "forks (cf\<lparr>sc := s', pend := (t, x) # pend cf\<rparr>) = (case x of Forked k \<Rightarrow> insert t (forks cf) | _ \<Rightarrow> forks cf)"
    by (cases x) (auto simp: forks_def)
  moreover have "in_hand (cf\<lparr>sc := s', pend := (t, x) # pend cf\<rparr>) = add_mset t (in_hand cf)" by (simp add: in_hand_def)
  ultimately show ?thesis using assms by (auto simp: conf_inv_def)
qed

lemma conf_drop:
  assumes inv: "conf_inv cf" and x: "(t, x) \<in> set (pend cf)"
    and s': "sched_inv (mset (map fst (drop_pend (t, x) cf)) + mset (purged cf)) (forks cf - {t}) s'"
  shows "conf_inv (cf\<lparr>sc := s', pend := drop_pend (t, x) cf\<rparr>)"
proof -
  have "forks (cf\<lparr>sc := s', pend := drop_pend (t, x) cf\<rparr>) = forks cf - {t}"
    using pend_once(4) [OF inv x] by (simp add: forks_def)
  moreover have "in_hand (cf\<lparr>sc := s', pend := drop_pend (t, x) cf\<rparr>) = mset (map fst (drop_pend (t, x) cf)) + mset (purged cf)"
    by (simp add: in_hand_def)
  moreover have "stack_ok k" if "(u, Forked k) \<in> set (drop_pend (t, x) cf)" for u k
    using that inv notin_set_remove1 [of "(u, Forked k)" "pend cf" "(t, x)"] by (auto simp: conf_inv_def drop_pend_def)
  ultimately show ?thesis using s' by (simp add: conf_inv_def)
qed

lemma conf_inv_sched: "conf_inv cf \<Longrightarrow> sched_inv (in_hand cf) (forks cf) (sc cf)"
  by (simp add: conf_inv_def)

lemma conf_pend_sched:
  assumes "conf_inv cf" "(t, x) \<in> set (pend cf)" "\<And>k. x \<noteq> Forked k"
  shows "sched_inv (add_mset t (mset (map fst (drop_pend (t, x) cf)) + mset (purged cf))) (forks cf - {t}) (sc cf)" "t \<notin> forks cf - {t}"
  using conf_inv_sched [OF assms(1)] pend_once(1,5) [OF assms(1,2)] assms(3) by simp_all

lemma conf_purge:
  assumes inv: "conf_inv cf" and p: "pid \<notin> fst ` set (pend cf)" "pid \<notin> set (purged cf)" and s': "sched_inv (add_mset pid (in_hand cf)) (forks cf) s'"
  shows "conf_inv (cf\<lparr>sc := s', purged := pid # purged cf\<rparr>)"
  using inv s' by (simp add: conf_inv_def in_hand_def forks_def)

lemma conf_kill:
  assumes inv: "conf_inv cf" and p: "pid \<in> set (purged cf)" and r: "proc_kill_finish pid (sc cf) = (q, later, s')"
  shows "conf_inv (cf\<lparr>sc := s', purged := remove1 pid (purged cf)\<rparr>)"
proof -
  have h: "in_hand cf = add_mset pid (in_hand (cf\<lparr>purged := remove1 pid (purged cf)\<rparr>))" using p by (simp add: in_hand_def)
  note i = conf_inv_sched [OF inv]
  have "pid \<notin> forks cf"
    using placed_in_hand [OF sched_invD(1) [OF i [unfolded h]]] by (auto simp: forks_def in_hand_def) force
  then have "sched_inv (in_hand (cf\<lparr>purged := remove1 pid (purged cf)\<rparr>)) (forks cf) s'"
    using inv_kill_finish [OF i [unfolded h] _ r] by blast
  then show ?thesis using inv by (simp add: conf_inv_def in_hand_def forks_def)
qed

lemma inv_time: "sched_inv X F s \<Longrightarrow> sched_inv X F (s\<lparr>now := n\<rparr>)" "sched_inv X F s \<Longrightarrow> sched_inv X F (s\<lparr>online := n\<rparr>)"
  by (rule inv_frame; simp add: st_of_def fun_eq_iff)+

lemma sched_step_inv:
  assumes "sched_step cf cf'" and inv: "conf_inv cf"
  shows "conf_inv cf'"
proof -
  note i = conf_inv_sched [OF inv]
  show ?thesis using assms(1)
  proof cases
    case (ss_wake t q s')
    show ?thesis
    proof (cases q)
      case True
      then show ?thesis using ss_wake(1) conf_add [OF inv, of t Woken s'] inv_unblock_locked [OF i ss_wake(2)] by simp
    next
      case False
      then show ?thesis using ss_wake(1) conf_sc [OF inv, of s'] inv_unblock_locked [OF i ss_wake(2)] by simp
    qed
  next
    case (ss_enqueue t)
    then show ?thesis using conf_drop [OF inv ss_enqueue(2)] inv_unblock_enqueue [OF conf_pend_sched [OF inv ss_enqueue(2)]] by simp
  next
    case (ss_create stack cpu name prio t s')
    then show ?thesis using conf_add [OF inv, of t "Made False" s'] inv_create_task [OF i ss_create(2,3)] by simp
  next
    case (ss_spawn stack cpu pml4 cookie name argc t s')
    then show ?thesis using conf_add [OF inv, of t "Made True" s'] inv_create_user [OF i ss_spawn(2,3)] by simp
  next
    case (ss_fork stack parent aspace cookie t s')
    then show ?thesis using conf_add [OF inv, of t "Forked stack" s'] inv_fork_locked [OF i ss_fork(3)] by simp
  next
    case (ss_fork_frame t stack)
    have k: "stack_ok stack" using inv ss_fork_frame(2) by (auto simp: conf_inv_def)
    have m: "mset (map fst ((t, Made True) # drop_pend (t, Forked stack) cf)) + mset (purged cf) = in_hand cf"
      using pend_once(1) [OF inv ss_fork_frame(2)] by simp
    have "forks cf' = forks cf - {t}" using pend_once(4) [OF inv ss_fork_frame(2)] by (auto simp: ss_fork_frame(1) forks_def)
    moreover have "in_hand cf' = in_hand cf" using m by (simp add: ss_fork_frame(1) in_hand_def)
    moreover have "stack_ok j" if "(u, Forked j) \<in> set (pend cf')" for u j
      using that inv notin_set_remove1 [of "(u, Forked j)" "pend cf" "(t, Forked stack)"] by (auto simp: conf_inv_def drop_pend_def ss_fork_frame(1))
    ultimately show ?thesis using inv_fork_frame [OF i k, of t] by (simp add: conf_inv_def) (simp add: ss_fork_frame(1))
  next
    case (ss_give_up t)
    then show ?thesis using conf_drop [OF inv ss_give_up(2)] inv_discard [OF conf_pend_sched [OF inv ss_give_up(2)]] by simp
  next
    case (ss_publish t b ok s')
    then show ?thesis using conf_drop [OF inv ss_publish(2)] inv_publish(2) [OF conf_pend_sched [OF inv ss_publish(2)] ss_publish(3)] by simp
  next
    case (ss_purge root caller pid s')
    have "pid \<notin># in_hand cf" using ss_purge(3,4) by (auto simp: in_hand_def)
    then show ?thesis using ss_purge(1) conf_purge [OF inv ss_purge(3,4)] inv_purge [OF i _ ss_purge(2)] by simp
  next
    case (ss_kill pid q later s')
    then show ?thesis using conf_kill [OF inv] by simp
  next
    case (ss_create_fails stack cpu name prio s')
    then show ?thesis using conf_sc [OF inv, of s'] inv_create_task [OF i ss_create_fails(2,3)] by simp
  next
    case (ss_spawn_fails stack cpu pml4 cookie name argc s')
    then show ?thesis using conf_sc [OF inv, of s'] inv_create_user [OF i ss_spawn_fails(2,3)] by simp
  next
    case (ss_fork_fails stack parent aspace cookie s')
    then show ?thesis using conf_sc [OF inv, of s'] inv_fork_locked [OF i ss_fork_fails(3)] by simp
  qed (use conf_sc [OF inv] i inv_time inv_schedule [OF i] inv_block [OF i] inv_sleep [OF i] inv_exit [OF i] inv_reap [OF i] inv_kill_flag [OF i] in simp_all)
qed


definition boot_conf :: "nat \<Rightarrow> nat \<Rightarrow> conf" where
  "boot_conf cpus t0 = \<lparr>pend = [], purged = [], sc = tasking_init cpus t0\<rparr>"

lemma boot_conf_inv: "conf_inv (boot_conf cpus t0)"
proof -
  let ?s = "tasking_init cpus t0"
  have st: "st_of ?s t = (if t = 0 then TASK_RUNNING else TASK_DEAD)" for t
    by (simp add: st_of_def tasking_init_def dead_task_def)
  have "placed {#} ?s" by (simp add: placed_def queued_def st) (simp add: tasking_init_def)
  moreover have "cpu_ok ?s"
    by (rule cpu_okI) (auto simp: st, auto simp: tasking_init_def SMP_MAX_CPUS_def MAX_TASKS_def split: if_splits)
  moreover have "frames_ok {} ?s" by (rule frames_okI) (simp_all add: st split: if_splits)
  ultimately show ?thesis by (simp add: conf_inv_def sched_inv_def boot_conf_def in_hand_def forks_def)
qed

lemma sched_reach_inv: "sched_step\<^sup>*\<^sup>* (boot_conf cpus t0) cf \<Longrightarrow> conf_inv cf"
  by (induction rule: rtranclp_induct) (auto intro: boot_conf_inv sched_step_inv)



text \<open>A run: the kernel makes a task, queues it, and a second CPU picks it up.\<close>

definition made :: sched where
  "made = snd (create_task_locked 0 4096 [116] 1 (tasking_init 2 5))"

lemma made_eq:
  "create_task_locked 0 4096 [116] 1 (tasking_init 2 5) = (Some 1, made)"
  "runqs made = (\<lambda>_. [])" "cpu_cur made = [0 \<mapsto> 0]" "task_count made = 2" "online made = 2" "now made = 5"
  "tasks made 1 = dead_task\<lparr>tk_id := 1, tk_state := TASK_READY, tk_rsp := 24392, tk_stack_base := 4096, tk_priority := 1, tk_parent := Some 0, tk_name := [116]\<rparr>"
proof -
  have k: "frame_addr (task_stack_top 4096) = 24392" using frame_addr_eq [of 4096] by (simp add: stack_ok_def)
  have r: "create_task_locked 0 4096 [116] 1 (tasking_init 2 5) = (Some 1, fill_slot 1 (dead_task\<lparr>tk_rsp := 24392, tk_stack_base := 4096, tk_priority := 1, tk_parent := Some 0, tk_name := [116]\<rparr>)
      ((tasking_init 2 5)\<lparr>task_count := 2\<rparr>))"
    by (simp add: create_task_locked_def alloc_slot_def tasking_init_def MAX_TASKS_def creator_of_def smp_current_task_id_def SMP_MAX_CPUS_def k task_strncpy_def Let_def)
      (simp add: dead_task_def numeral_2_eq_2)
  then show "create_task_locked 0 4096 [116] 1 (tasking_init 2 5) = (Some 1, made)" by (simp add: made_def)
  show "runqs made = (\<lambda>_. [])" "cpu_cur made = [0 \<mapsto> 0]" "task_count made = 2" "online made = 2" "now made = 5"
    "tasks made 1 = dead_task\<lparr>tk_id := 1, tk_state := TASK_READY, tk_rsp := 24392, tk_stack_base := 4096, tk_priority := 1, tk_parent := Some 0, tk_name := [116]\<rparr>"
    using r by (simp_all add: made_def fill_slot_def upd_task_def tasking_init_def dead_task_def)
qed


definition published :: sched where
  "published = set_runq 1 [1] (upd_task 1 (\<lambda>k. k\<lparr>tk_enqueue := 5\<rparr>) made)"

definition picked :: sched where
  "picked = snd (schedule_on_cpu 1 777 published)"

lemma published_eq:
  "publish_task False 1 made = (True, published)" "runqs published = (\<lambda>_. [])(1 := [1])" "cpu_cur published = [0 \<mapsto> 0]" "task_count published = 2"
  "tasks published 1 = (tasks made 1)\<lparr>tk_enqueue := 5\<rparr>"
proof -
  have "pick_target_cpu made = 1" by (simp add: pick_target_cpu_def Let_def made_eq SMP_MAX_CPUS_def upt_rec)
  then show "publish_task False 1 made = (True, published)"
    by (simp add: publish_task_def runq_push_def made_eq RUNQ_CAPACITY_def MAX_TASKS_def published_def)
  show "runqs published = (\<lambda>_. [])(1 := [1])" "cpu_cur published = [0 \<mapsto> 0]" "task_count published = 2"
    "tasks published 1 = (tasks made 1)\<lparr>tk_enqueue := 5\<rparr>"
    by (simp_all add: published_def made_eq set_runq_def upd_task_def)
qed

lemma published_reached: "sched_step\<^sup>*\<^sup>* (boot_conf 2 5) \<lparr>pend = [], purged = [], sc = published\<rparr>"
proof -
  let ?a = "\<lparr>pend = [(1, Made False)], purged = [], sc = made\<rparr>"
  have "sched_step (boot_conf 2 5) ?a"
    using ss_create [of 4096 0 "[116]" 1 "boot_conf 2 5" 1 made] made_eq(1) by (simp add: boot_conf_def stack_ok_def)
  moreover have b: "sched_step ?a \<lparr>pend = [], purged = [], sc = published\<rparr>"
    using ss_publish [of 1 False ?a True published] published_eq(1) by (simp add: drop_pend_def)
  ultimately show ?thesis by (meson converse_rtranclp_into_rtranclp r_into_rtranclp)
qed

lemma picked_eq: "schedule_on_cpu 1 777 published = (24392, picked)" "cpu_cur picked = [0 \<mapsto> 0, 1 \<mapsto> 1]"
proof -
  have ok: "cpu_ok published" using sched_reach_inv [OF published_reached] by (simp add: conf_inv_def sched_inv_def)
  have pop: "pop_or_steal 1 published = (Some 1, set_runq 1 [] published)"
    by (simp add: pop_or_steal_def runq_pop_def published_eq compact_def Let_def)
  have live: "\<not> stale 1 (set_runq 1 [] published)" "tk_rsp (tasks published 1) = 24392"
    by (simp_all add: stale_def st_of_def published_eq made_eq(7) del: One_nat_def)
  have "schedule_on_cpu 1 777 published = switch_to 1 1 (set_runq 1 [] published)"
    using schedule_idle [OF ok, of 1 777] pop live published_eq(3) by (simp add: SMP_MAX_CPUS_def)
  then show "schedule_on_cpu 1 777 published = (24392, picked)" "cpu_cur picked = [0 \<mapsto> 0, 1 \<mapsto> 1]"
    using live(2) published_eq(3) by (simp_all add: picked_def switch_to_def Let_def)
qed

lemma picked_reached: "sched_step\<^sup>*\<^sup>* (boot_conf 2 5) \<lparr>pend = [], purged = [], sc = picked\<rparr>"
  using rtranclp.rtrancl_into_rtrancl [OF published_reached ss_schedule [of 1 777 _ 24392 picked]] picked_eq(1) by simp



end
