(* ===== verification/Sched_Aging.thy ===== *)
theory Sched_Aging
  imports Sched_Inv
begin

text \<open>
  Aging in the run queues: \<open>effective_prio\<close> and \<open>runq_pop\<close> of \<^verbatim>\<open>kernel/sched/runqueue.c\<close> give a task that has
  waited long enough its turn.
\<close>

section \<open>Aging\<close>

text \<open>What a pop prefers: a higher effective priority, then an earlier enqueue time.\<close>

definition beats :: "sched \<Rightarrow> nat \<Rightarrow> nat \<Rightarrow> bool" where
  "beats s u t \<longleftrightarrow> effective_prio s u > effective_prio s t
     \<or> (effective_prio s u = effective_prio s t \<and> tk_enqueue (tasks s u) < tk_enqueue (tasks s t))"

lemma best_scan_best:
  assumes "\<forall>i\<in>set is. i < length es" "b < length es" "\<forall>i\<in>seen. \<not> beats s (es ! i) (es ! b)"
  shows "\<forall>i\<in>seen \<union> set is. \<not> beats s (es ! i) (es ! best_scan s es is b (effective_prio s (es ! b)))"
  using assms
proof (induction "is" arbitrary: b seen)
  case (Cons i "is")
  define b' where "b' = (if beats s (es ! i) (es ! b) then i else b)"
  have step: "best_scan s es (i # is) b (effective_prio s (es ! b)) = best_scan s es is b' (effective_prio s (es ! b'))"
    by (auto simp: Let_def b'_def beats_def)
  have "b' < length es" using Cons.prems by (simp add: b'_def)
  moreover have "\<forall>j\<in>insert i seen. \<not> beats s (es ! j) (es ! b')"
    using Cons.prems(3) by (auto simp: b'_def beats_def)
  ultimately have "\<forall>j\<in>insert i seen \<union> set is. \<not> beats s (es ! j) (es ! best_scan s es is b' (effective_prio s (es ! b')))"
    using Cons.prems(1) by (intro Cons.IH) simp_all
  then show ?case unfolding step by simp
qed simp

lemma pop_best:
  assumes r: "runq_pop c s = (Some u, s')" and t: "t \<in> set (runqs s c)"
  shows "\<not> beats s t u"
proof -
  define es where "es = runqs s c"
  have ne: "es \<noteq> []" using t by (auto simp: es_def)
  define b where "b = best_scan s es [1..<length es] 0 (effective_prio s (es ! 0))"
  have u: "u = es ! b" using r ne by (simp add: runq_pop_def Let_def b_def es_def)
  have "\<forall>i\<in>{0} \<union> set [1..<length es]. \<not> beats s (es ! i) (es ! b)"
    unfolding b_def by (rule best_scan_best) (use ne in \<open>auto simp: beats_def\<close>)
  moreover obtain i where "i < length es" "t = es ! i" using t by (auto simp: es_def in_set_conv_nth)
  moreover have "i \<in> {0} \<union> set [1..<length es]" if "i < length es" for i using that by (cases i) auto
  ultimately show ?thesis using u by blast
qed

text \<open>
  With priorities up to \<open>PRIO_MAX\<close>, a task that has waited 800 ms is not overtaken by one that has waited less than
  500 ms; the times stay below the point where the 32-bit count of aging steps would wrap.
\<close>

lemma old_beats_new:
  assumes prio: "tk_priority (tasks s u) \<le> 3" "tk_priority (tasks s t) \<le> 3" and old: "tk_enqueue (tasks s t) + 800 \<le> now s"
    and new: "now s < tk_enqueue (tasks s u) + 500" and wrap: "now s < 429496729600"
  shows "beats s t u"
proof -
  have "u32 ((now s - tk_enqueue (tasks s t)) div 100) = (now s - tk_enqueue (tasks s t)) div 100"
    using wrap by (simp add: u32_def)
  moreover have "8 \<le> (now s - tk_enqueue (tasks s t)) div 100" using old by simp
  ultimately have "effective_prio s t = tk_priority (tasks s t) + 8"
    using prio(2) old by (simp add: effective_prio_def Let_def AGE_STEP_MS_def AGE_MAX_BONUS_def) (simp add: u32_def)
  moreover have "effective_prio s u \<le> 7"
  proof -
    define w where "w = (if now s > tk_enqueue (tasks s u) then now s - tk_enqueue (tasks s u) else 0)"
    have w: "w div 100 \<le> 4" using new by (auto simp: w_def)
    then have "u32 (w div 100) = w div 100" by (simp add: u32_def)
    then have "effective_prio s u = tk_priority (tasks s u) + w div 100"
      using w prio(1) by (simp add: effective_prio_def Let_def AGE_STEP_MS_def AGE_MAX_BONUS_def w_def [symmetric]) (simp add: u32_def)
    then show ?thesis using w prio(1) by simp
  qed
  ultimately show ?thesis by (simp add: beats_def)
qed

text \<open>What happens to one queue: time passes, tasks are queued, and CPUs take tasks from it.\<close>

datatype rq_event = Passes nat | Queues nat | Takes

fun rq_run :: "nat \<Rightarrow> rq_event list \<Rightarrow> sched \<Rightarrow> nat list \<times> sched" where
  "rq_run c [] s = ([], s)"
| "rq_run c (Passes n # es) s = rq_run c es (s\<lparr>now := now s + n\<rparr>)"
| "rq_run c (Queues u # es) s = rq_run c es (snd (runq_push c u s))"
| "rq_run c (Takes # es) s =
     (case runq_pop c s of
        (None, s1) \<Rightarrow> rq_run c es s1
      | (Some u, s1) \<Rightarrow> let (us, s2) = rq_run c es s1 in (u # us, s2))"

fun rq_fair :: "nat \<Rightarrow> rq_event list \<Rightarrow> sched \<Rightarrow> bool" where
  "rq_fair c [] s = True"
| "rq_fair c (Passes n # es) s = rq_fair c es (s\<lparr>now := now s + n\<rparr>)"
| "rq_fair c (Queues u # es) s = (u \<notin> set (runqs s c) \<and> rq_fair c es (snd (runq_push c u s)))"
| "rq_fair c (Takes # es) s = rq_fair c es (snd (runq_pop c s))"

fun rq_time :: "rq_event list \<Rightarrow> nat" where
  "rq_time [] = 0"
| "rq_time (Passes n # es) = n + rq_time es"
| "rq_time (_ # es) = rq_time es"

fun rq_takes :: "rq_event list \<Rightarrow> nat" where
  "rq_takes [] = 0"
| "rq_takes (Takes # es) = Suc (rq_takes es)"
| "rq_takes (_ # es) = rq_takes es"

definition elders :: "nat \<Rightarrow> nat \<Rightarrow> sched \<Rightarrow> nat list" where
  "elders T c s = filter (\<lambda>u. tk_enqueue (tasks s u) < T) (runqs s c)"

lemma rq_run_takes:
  assumes "t \<in> set (runqs s c)" "distinct (runqs s c)" "\<forall>u. tk_priority (tasks s u) \<le> 3" "tk_enqueue (tasks s t) + 800 \<le> T"
    "T \<le> now s" "now s + rq_time es < T + 500" "T + 500 \<le> 429496729600" "rq_fair c es s"
    "length (elders T c s) \<le> rq_takes es" "rq_run c es s = (us, s')"
  shows "t \<in> set us"
  using assms
proof (induction es arbitrary: s us s')
  case Nil
  then have "elders T c s = []" by simp
  then show ?case using Nil.prems by (auto simp: elders_def filter_empty_conv)
next
  case (Cons e es)
  show ?case
  proof (cases e)
    case (Passes n)
    have el: "elders T c (s\<lparr>now := now s + n\<rparr>) = elders T c s" by (simp add: elders_def)
    show ?thesis using Cons.prems Passes el by (intro Cons.IH [of "s\<lparr>now := now s + n\<rparr>" us s']) simp_all
  next
    case (Queues u)
    define s1 where "s1 = snd (runq_push c u s)"
    have nu: "u \<notin> set (runqs s c)" using Cons.prems(8) Queues by simp
    then have "u \<noteq> t" using Cons.prems(1) by auto
    have s1: "s1 = s \<or> s1 = set_runq c (runqs s c @ [u]) (upd_task u (\<lambda>k. k\<lparr>tk_enqueue := now s\<rparr>) s)"
      by (auto simp: s1_def runq_push_def)
    then have f: "t \<in> set (runqs s1 c)" "distinct (runqs s1 c)" "\<forall>v. tk_priority (tasks s1 v) \<le> 3" "tk_enqueue (tasks s1 t) = tk_enqueue (tasks s t)"
      "now s1 = now s"
      using Cons.prems(1-3) nu \<open>u \<noteq> t\<close> by (auto simp: set_runq_def upd_task_def)
    have "filter (\<lambda>v. tk_enqueue (tasks (upd_task u (\<lambda>k. k\<lparr>tk_enqueue := now s\<rparr>) s) v) < T) (runqs s c) = elders T c s"
      unfolding elders_def using nu by (intro filter_cong) (auto simp: upd_task_def)
    then have "elders T c s1 = elders T c s" using s1 Cons.prems(5) by (auto simp: elders_def set_runq_def) (simp add: upd_task_def)
    then show ?thesis using Cons.prems Queues f by (intro Cons.IH [of s1 us s']) (simp_all add: s1_def [symmetric])
  next
    case Takes
    obtain u s1 where pop: "runq_pop c s = (Some u, s1)"
      using Cons.prems(1) by (cases "runq_pop c s"; cases "fst (runq_pop c s)") (auto dest: runq_pop_none)
    obtain vs s2 where run: "rq_run c es s1 = (vs, s2)" using prod.exhaust by blast
    have us: "us = u # vs" using Cons.prems(10) Takes pop run by simp
    obtain b where b: "b < length (runqs s c)" "u = runqs s c ! b" "s1 = set_runq c (compact (runqs s c) b) s"
      using runq_pop_some [OF pop] by blast
    have m: "mset (runqs s c) = add_mset u (mset (runqs s1 c))" using mset_compact [OF b(1)] b(2,3) by (simp add: set_runq_def)
    show ?thesis
    proof (cases "u = t")
      case False
      have old: "tk_enqueue (tasks s u) < T"
      proof (rule ccontr)
        assume "\<not> tk_enqueue (tasks s u) < T"
        then have "beats s t u" using Cons.prems(3-7) by (intro old_beats_new) auto
        then show False using pop_best [OF pop Cons.prems(1)] by simp
      qed
      have "mset (elders T c s) = add_mset u (mset (elders T c s1))"
        using arg_cong [OF m, of "filter_mset (\<lambda>u. tk_enqueue (tasks s u) < T)"] old b(3) by (simp add: elders_def mset_filter)
      then have len: "length (elders T c s) = Suc (length (elders T c s1))" by (metis size_add_mset size_mset)
      have "set (runqs s c) = insert u (set (runqs s1 c))" using arg_cong [OF m, of set_mset] by simp
      moreover have "distinct (u # runqs s1 c)" using mset_eq_imp_distinct_iff [of "runqs s c" "u # runqs s1 c"] m Cons.prems(2) by simp
      ultimately have q: "t \<in> set (runqs s1 c)" "distinct (runqs s1 c)" using False Cons.prems(1) by auto
      have "t \<in> set vs"
        using Cons.prems Takes pop len q run b(3) by (intro Cons.IH [of s1 vs s2]) (simp_all add: set_runq_def)
      then show ?thesis by (simp add: us)
    qed (simp add: us)
  qed
qed


text \<open>C32 (liveness). Aging prevents starvation.  Take a task that has waited 800 ms on a run queue.  Whatever is queued meanwhile,
  if CPUs take as many tasks from that queue as it held, within less than 500 ms, then the task is among those taken.
  Sixteen tasks at one per 20 ms tick are taken in 320 ms.\<close>

theorem aged_task_is_taken:
  assumes "t \<in> set (runqs s c)" and "distinct (runqs s c)" and "\<forall>u. tk_priority (tasks s u) \<le> 3"
    and "tk_enqueue (tasks s t) + 800 \<le> now s" and "now s + 500 \<le> 429496729600"
    and "rq_time es < 500" and "rq_fair c es s" and "length (runqs s c) \<le> rq_takes es"
  shows "t \<in> set (fst (rq_run c es s))"
proof -
  obtain us s' where r: "rq_run c es s = (us, s')" using prod.exhaust by blast
  have "length (elders (now s) c s) \<le> rq_takes es"
    unfolding elders_def by (rule order_trans [OF length_filter_le assms(8)])
  then have "t \<in> set us" using assms r by (intro rq_run_takes [where T = "now s" and s = s and c = c and es = es and us = us and s' = s']) simp_all
  then show ?thesis using r by simp
qed

text \<open>A low-priority task behind a high-priority one that is queued again at once.\<close>

definition aging_start :: sched where
  "aging_start = (tasking_init 1 1000)\<lparr>runqs := (\<lambda>_. [])(0 := [2, 1]),
     tasks := (\<lambda>_. dead_task)(1 := dead_task\<lparr>tk_priority := 0, tk_enqueue := 100\<rparr>, 2 := dead_task\<lparr>tk_priority := 3, tk_enqueue := 90\<rparr>)\<rparr>"

lemma aging_fair: "rq_fair 0 [Takes, Passes 20, Queues 2, Takes] aging_start"
  by (simp add: aging_start_def tasking_init_def dead_task_def runq_pop_def Let_def effective_prio_def compact_def set_runq_def
      AGE_STEP_MS_def AGE_MAX_BONUS_def u32_def upt_rec runq_push_def RUNQ_CAPACITY_def MAX_TASKS_def upd_task_def)

theorem aged_task_is_taken_witness:
  "1 \<in> set (runqs aging_start 0) \<and> 1 \<in> set (fst (rq_run 0 [Takes, Passes 20, Queues 2, Takes] aging_start))"
proof -
  have "\<forall>u. tk_priority (tasks aging_start u) \<le> 3" by (simp add: aging_start_def dead_task_def PRIO_NORMAL_def)
  moreover have q: "1 \<in> set (runqs aging_start 0)" "distinct (runqs aging_start 0)" "length (runqs aging_start 0) = 2"
    "tk_enqueue (tasks aging_start 1) = 100" "now aging_start = 1000"
    by (simp_all add: aging_start_def tasking_init_def dead_task_def)
  ultimately have "1 \<in> set (fst (rq_run 0 [Takes, Passes 20, Queues 2, Takes] aging_start))"
    using aged_task_is_taken [of 1 aging_start 0 "[Takes, Passes 20, Queues 2, Takes]"] aging_fair by simp
  then show ?thesis using q(1) by blast
qed

end
