(* ===== verification/Proc_Props.thy ===== *)
theory Proc_Props
  imports Sched_Inv
begin

text \<open>
  Properties of tasks at the two ends of their life: the frames they start from (\<^verbatim>\<open>kernel/sched/lifecycle.c\<close>) and
  the exit status their parent collects (\<^verbatim>\<open>kernel/proc/proc.c\<close>).
\<close>

section \<open>First frames\<close>

text \<open>The frame a new task starts from lies inside its stack, above the guard page, for kernel tasks, user tasks and
  forked tasks, and passes the check the interrupt stubs make before they load it.  A kernel or user task finds its
  stack pointer 8 modulo 16 and the frame ends 8 bytes below the top of the stack.\<close>

theorem first_frames_in_stack:
  assumes "0xFFFF880000000000 \<le> stack" and "stack mod 4096 = 0" and "stack + 24576 < 18446744073709551616"
  shows "(\<forall>a \<in> {frame_addr (task_stack_top stack), fork_frame_addr stack}.
           task_stack_guard_addr stack + STACK_GUARD \<le> a \<and> a + KZ_REGISTERS_SIZE \<le> task_stack_top stack \<and> context_rsp_is_valid a)
    \<and> frame_addr (task_stack_top stack) + KZ_REGISTERS_SIZE = fake_frame_top (task_stack_top stack)
    \<and> rsp (kernel_frame (task_stack_top stack) tr fn) mod 16 = 8"
proof -
  have ok: "stack_ok stack" using assms by (simp add: stack_ok_def)
  have top: "fake_frame_top (task_stack_top stack) = stack + 20472"
    using sub64_id [of 8 "stack + 20480"] assms by (simp add: stack_top_eq [OF ok] fake_frame_top_def KZ_FAKE_FRAME_PAD_def)
  have m16: "stack mod 16 = 0" and m8: "stack mod 8 = 0"
    using mod_mod_cancel [of 16 4096 stack] mod_mod_cancel [of 8 4096 stack] assms(2) by simp_all
  have "(stack + 20472) mod 16 = 8" using mod_add_eq [of stack 16 20472] m16 by simp
  moreover have "(stack + 20296) mod 8 = 0" "(stack + 16208) mod 8 = 0"
    using mod_add_eq [of stack 8 20296] mod_add_eq [of stack 8 16208] m8 by simp_all
  ultimately show ?thesis
    using assms unfolding frame_addr_eq [OF ok] fork_frame_addr_eq [OF ok] top
    by (simp add: stack_top_eq [OF ok] task_stack_guard_addr_def STACK_GUARD_def KZ_REGISTERS_SIZE_def context_rsp_is_valid_def
        kz_is_canonical_def kernel_frame_def top [unfolded stack_top_eq [OF ok]])
qed

theorem first_frames_in_stack_witness:
  "context_rsp_is_valid (frame_addr (task_stack_top 0xFFFF880000000000)) \<and> rsp (kernel_frame (task_stack_top 0xFFFF880000000000) 1 2) mod 16 = 8"
  using first_frames_in_stack [of "0xFFFF880000000000" 1 2] by simp

section \<open>Exit status\<close>


definition family :: sched where
  "family = (tasking_init 2 0)\<lparr>task_count := 4, cpu_cur := [0 \<mapsto> 1, 1 \<mapsto> 2],
     tasks := (\<lambda>_. dead_task)(1 := dead_task\<lparr>tk_state := TASK_RUNNING\<rparr>, 2 := dead_task\<lparr>tk_state := TASK_RUNNING, tk_parent := Some 1\<rparr>,
       3 := dead_task\<lparr>tk_state := TASK_READY, tk_parent := Some 2\<rparr>)\<rparr>"


end
