(* ===== verification/Heap.thy ===== *)
theory Heap
  imports Kz_Base
begin

text \<open>
  The kernel heap of \<^verbatim>\<open>kernel/mm/heap.c\<close>: a linked list of blocks, first fit with splitting, coalescing on
  release, growth by whole pages.

  Block headers live in a store from addresses to headers, and the links are addresses, so a walk follows
  whatever the headers say: a walk is a partial function, a header that is not there is a fault and a header
  with a wrong magic number is a panic.  The bytes of the allocated blocks are the separate map \<open>payload\<close>.  The page
  tables are \<open>vmap\<close>, the pages mapped for the heap, and \<open>vm\<close>, the outcomes of the coming calls of
  \<^verbatim>\<open>vmm_alloc_page_kernel\<close>; the call fails when no outcome is left.  The heap lock is held over each operation; \<^verbatim>\<open>kmalloc\<close> drops it between growing the heap
  and searching again, and here the second search follows at once.
\<close>

section \<open>State\<close>

definition HEAP_MAGIC :: nat where "HEAP_MAGIC = 0xDEADC0DE"
definition HEAP_START_VADDR :: nat where "HEAP_START_VADDR = 0xFFFF900000000000"
definition HB_SIZE :: nat where "HB_SIZE = 32"

record heap_block =
  hb_magic :: nat
  hb_size :: nat
  hb_free :: bool
  hb_next :: nat

record heap =
  heap_head :: nat
  heap_end :: nat
  hdrs :: "nat \<Rightarrow> heap_block option"
  vmap :: "nat set"
  vm :: "bool list"
  payload :: "nat \<Rightarrow> byte"

datatype heap_stop = HeapCorrupt nat | HeapFault nat

definition set_hdr :: "nat \<Rightarrow> heap_block \<Rightarrow> heap \<Rightarrow> heap" where
  "set_hdr a b s = s\<lparr>hdrs := (hdrs s)(a \<mapsto> b)\<rparr>"

definition init_heap :: "heap \<Rightarrow> heap" where
  "init_heap s = s\<lparr>heap_head := 0\<rparr>"

section \<open>Growth\<close>

text \<open>Mapping fresh pages at the end of the heap; on failure the pages mapped so far are given back.\<close>

fun map_pages :: "nat \<Rightarrow> heap \<Rightarrow> bool \<times> heap" where
  "map_pages 0 s = (True, s)"
| "map_pages (Suc n) s =
     (case vm s of
        [] \<Rightarrow> (False, s)
      | ok # rest \<Rightarrow>
          if ok then map_pages n (s\<lparr>vm := rest, vmap := insert (heap_end s) (vmap s), heap_end := u64 (heap_end s + 4096)\<rparr>)
          else (False, s\<lparr>vm := rest\<rparr>))"

fun unmap_pages :: "nat \<Rightarrow> nat \<Rightarrow> heap \<Rightarrow> heap" where
  "unmap_pages a 0 s = s"
| "unmap_pages a (Suc n) s = unmap_pages (u64 (a + 4096)) n (s\<lparr>vmap := vmap s - {a}\<rparr>)"

partial_function (option) last_block :: "nat \<Rightarrow> heap \<Rightarrow> (heap_stop + nat) option" where
  "last_block cur s =
     (case hdrs s cur of
        None \<Rightarrow> Some (Inl (HeapFault cur))
      | Some b \<Rightarrow> if hb_next b = 0 then Some (Inr cur) else last_block (hb_next b) s)"

definition link_block :: "nat \<Rightarrow> heap \<Rightarrow> (heap_stop + heap) option" where
  "link_block a s =
     (if heap_head s = 0 then Some (Inr (s\<lparr>heap_head := a\<rparr>))
      else case last_block (heap_head s) s of
             None \<Rightarrow> None
           | Some (Inl e) \<Rightarrow> Some (Inl e)
           | Some (Inr l) \<Rightarrow> Some (Inr (set_hdr l ((the (hdrs s l))\<lparr>hb_next := a\<rparr>) s)))"

definition pages_needed :: "nat \<Rightarrow> nat" where
  "pages_needed required = (let total = u64 (required + HB_SIZE) in total div 4096 + (if total mod 4096 \<noteq> 0 then 1 else 0))"

definition expand_heap :: "nat \<Rightarrow> heap \<Rightarrow> (heap_stop + nat \<times> heap) option" where
  "expand_heap required s =
     (let n = pages_needed required; start = heap_end s; (ok, s1) = map_pages n s in
      if \<not> ok then Some (Inr (0, (unmap_pages start (sub64 (heap_end s1) start div 4096) s1)\<lparr>heap_end := start\<rparr>))
      else
        let b = \<lparr>hb_magic = HEAP_MAGIC, hb_size = sub64 (u64 (n * 4096)) HB_SIZE, hb_free = True, hb_next = 0\<rparr> in
        case link_block start (set_hdr start b s1) of
          None \<Rightarrow> None
        | Some (Inl e) \<Rightarrow> Some (Inl e)
        | Some (Inr s2) \<Rightarrow> Some (Inr (start, s2)))"

section \<open>Allocation\<close>

definition round16 :: "nat \<Rightarrow> nat" where
  "round16 sz = u64 (sz + 15) div 16 * 16"

text \<open>The first free block that is large enough; 0 when the list ends.\<close>

partial_function (option) find_fit :: "nat \<Rightarrow> nat \<Rightarrow> heap \<Rightarrow> (heap_stop + nat) option" where
  "find_fit sz cur s =
     (if cur = 0 then Some (Inr 0)
      else case hdrs s cur of
             None \<Rightarrow> Some (Inl (HeapFault cur))
           | Some b \<Rightarrow>
               if hb_magic b \<noteq> HEAP_MAGIC then Some (Inl (HeapCorrupt cur))
               else if hb_free b \<and> hb_size b \<ge> sz then Some (Inr cur)
               else find_fit sz (hb_next b) s)"

definition take_block :: "nat \<Rightarrow> nat \<Rightarrow> heap \<Rightarrow> nat \<times> heap" where
  "take_block sz cur s =
     (let b = the (hdrs s cur);
          rest = u64 (cur + HB_SIZE + sz);
          s1 = (if hb_size b > u64 (sz + HB_SIZE + 1) then
                  set_hdr cur (b\<lparr>hb_next := rest, hb_size := sz\<rparr>)
                    (set_hdr rest \<lparr>hb_magic = HEAP_MAGIC, hb_size = sub64 (sub64 (hb_size b) sz) HB_SIZE, hb_free = True, hb_next = hb_next b\<rparr> s)
                else s)
      in (u64 (cur + HB_SIZE), set_hdr cur ((the (hdrs s1 cur))\<lparr>hb_free := False\<rparr>) s1))"

partial_function (option) kmalloc :: "nat \<Rightarrow> heap \<Rightarrow> (heap_stop + nat \<times> heap) option" where
  "kmalloc sz s =
     (if sz = 0 then Some (Inr (0, s))
      else case find_fit (round16 sz) (heap_head s) s of
             None \<Rightarrow> None
           | Some (Inl e) \<Rightarrow> Some (Inl e)
           | Some (Inr cur) \<Rightarrow>
               if cur \<noteq> 0 then Some (Inr (take_block (round16 sz) cur s))
               else case expand_heap (round16 sz) s of
                      None \<Rightarrow> None
                    | Some (Inl e) \<Rightarrow> Some (Inl e)
                    | Some (Inr (fresh, s1)) \<Rightarrow> if fresh = 0 then Some (Inr (0, s1)) else kmalloc (round16 sz) s1)"

section \<open>Release\<close>

partial_function (option) coalesce :: "nat \<Rightarrow> heap \<Rightarrow> (heap_stop + heap) option" where
  "coalesce cur s =
     (if cur = 0 then Some (Inr s)
      else case hdrs s cur of
             None \<Rightarrow> Some (Inl (HeapFault cur))
           | Some b \<Rightarrow>
               if hb_magic b \<noteq> HEAP_MAGIC then Some (Inl (HeapCorrupt cur))
               else if hb_free b \<and> hb_next b \<noteq> 0 then
                 (case hdrs s (hb_next b) of
                    None \<Rightarrow> Some (Inl (HeapFault (hb_next b)))
                  | Some nb \<Rightarrow>
                      if hb_free nb \<and> hb_next b = u64 (cur + HB_SIZE + hb_size b)
                      then coalesce cur (set_hdr cur (b\<lparr>hb_size := u64 (hb_size b + hb_size nb + HB_SIZE), hb_next := hb_next nb\<rparr>) s)
                      else coalesce (hb_next b) s)
               else coalesce (hb_next b) s)"

definition kfree :: "nat \<Rightarrow> heap \<Rightarrow> (heap_stop + heap) option" where
  "kfree ptr s =
     (if ptr = 0 then Some (Inr s)
      else let a = sub64 ptr HB_SIZE in
        case hdrs s a of
          None \<Rightarrow> Some (Inl (HeapFault a))
        | Some b \<Rightarrow>
            if hb_magic b \<noteq> HEAP_MAGIC then Some (Inl (HeapCorrupt a))
            else coalesce (heap_head s) (set_hdr a (b\<lparr>hb_free := True\<rparr>) s))"

definition kmemcpy :: "nat \<Rightarrow> nat \<Rightarrow> nat \<Rightarrow> heap \<Rightarrow> heap" where
  "kmemcpy dst src n s = s\<lparr>payload := (\<lambda>a. if dst \<le> a \<and> a < dst + n then payload s (src + (a - dst)) else payload s a)\<rparr>"

definition krealloc :: "nat \<Rightarrow> nat \<Rightarrow> nat \<Rightarrow> heap \<Rightarrow> (heap_stop + nat \<times> heap) option" where
  "krealloc ptr old_size new_size s =
     (if new_size = 0 then (case kfree ptr s of None \<Rightarrow> None | Some (Inl e) \<Rightarrow> Some (Inl e) | Some (Inr s1) \<Rightarrow> Some (Inr (0, s1)))
      else if ptr = 0 then kmalloc new_size s
      else case kmalloc new_size s of
             None \<Rightarrow> None
           | Some (Inl e) \<Rightarrow> Some (Inl e)
           | Some (Inr (q, s1)) \<Rightarrow>
               if q = 0 then Some (Inr (0, s1))
               else case kfree ptr (kmemcpy q ptr (if old_size < new_size then old_size else new_size) s1) of
                      None \<Rightarrow> None
                    | Some (Inl e) \<Rightarrow> Some (Inl e)
                    | Some (Inr s2) \<Rightarrow> Some (Inr (q, s2)))"

end
