(* ===== verification/Heap_Inv.thy ===== *)
theory Heap_Inv
  imports Heap "HOL-Library.Multiset"
begin

text \<open>
  Correctness of the kernel heap.  The headers form a chain that tiles the heap from its first to its last address;
  the walks follow the chain to its end, allocation splits or extends it, and release merges it.
\<close>

section \<open>The chain of headers\<close>

abbreviation hdr :: "nat \<Rightarrow> bool \<Rightarrow> nat \<Rightarrow> heap_block" where
  "hdr n f nx \<equiv> \<lparr>hb_magic = HEAP_MAGIC, hb_size = n, hb_free = f, hb_next = nx\<rparr>"

text \<open>Blocks as pairs of size and free flag, in address order.\<close>

type_synonym blocks = "(nat \<times> bool) list"

fun span :: "blocks \<Rightarrow> nat" where
  "span [] = 0"
| "span ((n, f) # bs) = 32 + n + span bs"

fun chain :: "(nat \<Rightarrow> heap_block option) \<Rightarrow> nat \<Rightarrow> blocks \<Rightarrow> nat \<Rightarrow> bool" where
  "chain h a [] nx \<longleftrightarrow> True"
| "chain h a ((n, f) # bs) nx \<longleftrightarrow> h a = Some (hdr n f (if bs = [] then nx else a + 32 + n)) \<and> chain h (a + 32 + n) bs nx"

fun allocs :: "nat \<Rightarrow> blocks \<Rightarrow> (nat \<times> nat) list" where
  "allocs a [] = []"
| "allocs a ((n, f) # bs) = (if f then [] else [(a + 32, n)]) @ allocs (a + 32 + n) bs"

lemma span_append [simp]: "span (xs @ ys) = span xs + span ys"
  by (induction xs rule: span.induct) auto

lemma allocs_append [simp]: "allocs a (xs @ ys) = allocs a xs @ allocs (a + span xs) ys"
  by (induction xs arbitrary: a rule: span.induct) (auto simp: add.assoc)

lemma chain_append:
  "chain h a (xs @ ys) nx \<longleftrightarrow> chain h a xs (if ys = [] then nx else a + span xs) \<and> chain h (a + span xs) ys nx"
  by (induction xs arbitrary: a rule: span.induct) (auto simp: add.assoc)

lemma chain_frame:
  "chain h a bs nx \<Longrightarrow> (\<And>x. a \<le> x \<Longrightarrow> x < a + span bs \<Longrightarrow> h' x = h x) \<Longrightarrow> chain h' a bs nx"
  by (induction bs arbitrary: a rule: span.induct) auto

lemma chain_upd_below: "chain h a bs nx \<Longrightarrow> x < a \<Longrightarrow> chain (h(x := v)) a bs nx"
  by (erule chain_frame) simp

lemma chain_upd_above: "chain h a bs nx \<Longrightarrow> a + span bs \<le> x \<Longrightarrow> chain (h(x := v)) a bs nx"
  by (erule chain_frame) simp

text \<open>Allocated regions lie between the ends of the chain, one after the other.\<close>

lemma allocs_bounds: "(p, n) \<in> set (allocs a bs) \<Longrightarrow> a + 32 \<le> p \<and> p + n \<le> a + span bs"
  by (induction bs arbitrary: a rule: span.induct) (fastforce split: if_splits)+

lemma allocs_sorted: "sorted_wrt (\<lambda>(p, n) (q, m). p + n < q) (allocs a bs)"
  by (induction bs arbitrary: a rule: span.induct) (auto dest!: allocs_bounds)

lemma allocs_split:
  "(p, n) \<in> set (allocs a bs) \<Longrightarrow> \<exists>xs ys. bs = xs @ (n, False) # ys \<and> p = a + span xs + 32"
proof (induction bs arbitrary: a rule: span.induct)
  case (2 k f bs)
  show ?case
  proof (cases "(p, n) \<in> set (allocs (a + 32 + k) bs)")
    case True
    then obtain xs ys where "bs = xs @ (n, False) # ys" "p = a + 32 + k + span xs + 32" using "2.IH" by blast
    then show ?thesis by (intro exI [of _ "(k, f) # xs"] exI [of _ ys]) simp
  next
    case False
    then have "\<not> f" "k = n" "p = a + 32" using "2.prems" by (auto split: if_splits)
    then show ?thesis by (intro exI [of _ "[]"] exI [of _ bs]) simp
  qed
qed simp

lemma allocs_middle: "(a + span xs + 32, n) \<in> set (allocs a (xs @ (n, False) # ys))"
  by simp

section \<open>The invariant\<close>

text \<open>No walk, growth or release can run past the address space: the heap and all pages still to come fit below it.\<close>

definition HEAP_LIMIT :: nat where "HEAP_LIMIT = 2 ^ 64 - 8192"

definition heap_inv :: "blocks \<Rightarrow> heap \<Rightarrow> bool" where
  "heap_inv bs s \<longleftrightarrow>
     heap_head s = (if bs = [] then 0 else HEAP_START_VADDR)
     \<and> chain (hdrs s) HEAP_START_VADDR bs 0
     \<and> heap_end s = HEAP_START_VADDR + span bs
     \<and> heap_end s mod 4096 = 0
     \<and> heap_end s + 4096 * length (vm s) \<le> HEAP_LIMIT
     \<and> (\<forall>(n, f) \<in> set bs. n mod 16 = 0)
     \<and> vmap s = {a. HEAP_START_VADDR \<le> a \<and> a < heap_end s \<and> a mod 4096 = 0}"

lemma heap_invD:
  assumes "heap_inv bs s"
  shows "heap_head s = (if bs = [] then 0 else HEAP_START_VADDR)" "chain (hdrs s) HEAP_START_VADDR bs 0"
    "heap_end s = HEAP_START_VADDR + span bs" "heap_end s mod 4096 = 0" "heap_end s + 4096 * length (vm s) \<le> HEAP_LIMIT"
    "\<And>n f. (n, f) \<in> set bs \<Longrightarrow> n mod 16 = 0" "vmap s = {a. HEAP_START_VADDR \<le> a \<and> a < heap_end s \<and> a mod 4096 = 0}"
  using assms by (auto simp: heap_inv_def)

lemma heap_span_bound: "heap_inv bs s \<Longrightarrow> HEAP_START_VADDR + span bs \<le> HEAP_LIMIT"
  using heap_invD(3,5) [of bs s] by linarith

text \<open>Exchanging blocks for others of the same extent.\<close>

lemma heap_inv_blocks:
  assumes "heap_inv bs s" and "chain h HEAP_START_VADDR bs' 0" and "span bs' = span bs" and "bs' \<noteq> []" and "bs \<noteq> []"
    and "\<forall>(n, f) \<in> set bs'. n mod 16 = 0"
  shows "heap_inv bs' (s\<lparr>hdrs := h\<rparr>)"
proof -
  note d = heap_invD [OF assms(1)]
  show ?thesis using assms(2-) d(1,3,5,7) d(4) [unfolded d(3)] by (simp add: heap_inv_def)
qed

lemma heap_inv_vm:
  assumes "heap_inv bs s" and "length v \<le> length (vm s)"
  shows "heap_inv bs (s\<lparr>vm := v\<rparr>)"
proof -
  note d = heap_invD [OF assms(1)]
  show ?thesis using assms(2) d(1,2,3,5,6,7) d(4) [unfolded d(3)] by (auto simp: heap_inv_def)
qed

lemma mod16_span: "(\<forall>(n, f) \<in> set bs. n mod 16 = 0) \<Longrightarrow> span bs mod 16 = 0"
  by (induction bs rule: span.induct) auto

section \<open>Walks\<close>

lemma last_block_chain:
  "chain (hdrs s) a bs 0 \<Longrightarrow> bs \<noteq> [] \<Longrightarrow> \<exists>xs x. bs = xs @ [x] \<and> last_block a s = Some (Inr (a + span xs))"
proof (induction bs arbitrary: a rule: span.induct)
  case (2 n f bs)
  show ?case
  proof (cases "bs = []")
    case True
    then show ?thesis using "2.prems" by (intro exI [of _ "[]"] exI [of _ "(n, f)"]) (simp add: last_block.simps)
  next
    case False
    obtain xs x where "bs = xs @ [x]" "last_block (a + 32 + n) s = Some (Inr (a + 32 + n + span xs))"
      using "2.IH" [of "a + 32 + n"] "2.prems" False by auto
    then show ?thesis using "2.prems" False
      by (intro exI [of _ "(n, f) # xs"] exI [of _ x]) (simp add: last_block.simps [of a] add.assoc)
  qed
qed simp

definition fits :: "nat \<Rightarrow> nat \<times> bool \<Rightarrow> bool" where
  "fits sz b \<longleftrightarrow> snd b \<and> sz \<le> fst b"

text \<open>The search ends: at the first block that fits, or at the end of the list when none does.\<close>

lemma find_fit_chain:
  assumes "chain (hdrs s) a bs 0" and "0 < a"
  shows "(\<exists>xs n ys. bs = xs @ (n, True) # ys \<and> sz \<le> n \<and> (\<forall>b \<in> set xs. \<not> fits sz b) \<and> find_fit sz a s = Some (Inr (a + span xs)))
    \<or> (\<forall>b \<in> set bs. \<not> fits sz b) \<and> find_fit sz (if bs = [] then 0 else a) s = Some (Inr 0)"
  using assms
proof (induction bs arbitrary: a rule: span.induct)
  case 1
  then show ?case by (simp add: find_fit.simps [of sz 0])
next
  case (2 n f bs)
  let ?b = "a + 32 + n"
  show ?case
  proof (cases "fits sz (n, f)")
    case True
    then show ?thesis using "2.prems"
      by (intro disjI1 exI [of _ "[]"] exI [of _ n] exI [of _ bs]) (simp add: fits_def find_fit.simps [of sz a])
  next
    case False
    have step: "find_fit sz a s = find_fit sz (if bs = [] then 0 else ?b) s"
      using "2.prems" False by (cases f) (simp_all add: find_fit.simps [of sz a] fits_def)
    have rest: "chain (hdrs s) ?b bs 0" "0 < ?b" using "2.prems" by simp_all
    show ?thesis using "2.IH" [OF rest]
    proof (elim disjE exE conjE)
      fix xs m ys assume "bs = xs @ (m, True) # ys" "sz \<le> m" "\<forall>b \<in> set xs. \<not> fits sz b" "find_fit sz ?b s = Some (Inr (?b + span xs))"
      then show ?thesis using step False
        by (intro disjI1 exI [of _ "(n, f) # xs"] exI [of _ m] exI [of _ ys]) (simp add: add.assoc)
    next
      assume "\<forall>b \<in> set bs. \<not> fits sz b" "find_fit sz (if bs = [] then 0 else ?b) s = Some (Inr 0)"
      then show ?thesis using step False by (intro disjI2) simp
    qed
  qed
qed

section \<open>Taking a block\<close>

lemmas heap_const = HEAP_START_VADDR_def HEAP_LIMIT_def HB_SIZE_def

lemma chain_middle:
  "chain h a (xs @ (n, f) # ys) nx \<longleftrightarrow>
     chain h a xs (a + span xs) \<and> h (a + span xs) = Some (hdr n f (if ys = [] then nx else a + span xs + 32 + n))
     \<and> chain h (a + span xs + 32 + n) ys nx"
  by (simp add: chain_append)

text \<open>Changing the flag of one block, and cutting one block in two.\<close>

lemma chain_set_flag:
  assumes "chain h a (xs @ (n, f) # ys) nx"
  shows "chain (h(a + span xs \<mapsto> hdr n g (if ys = [] then nx else a + span xs + 32 + n))) a (xs @ (n, g) # ys) nx"
  using assms unfolding chain_middle by (auto intro: chain_upd_above chain_upd_below)

lemma chain_cut:
  assumes "chain h a (xs @ (n, f) # ys) nx" and "m + 32 \<le> n"
  shows "chain (h(a + span xs + 32 + m \<mapsto> hdr (n - m - 32) True (if ys = [] then nx else a + span xs + 32 + n),
                 a + span xs \<mapsto> hdr m g (a + span xs + 32 + m))) a (xs @ (m, g) # (n - m - 32, True) # ys) nx"
    (is "chain ?h _ _ _")
proof -
  have e: "a + span xs + 32 + m + 32 + (n - m - 32) = a + span xs + 32 + n" using assms(2) by simp
  have "chain h a xs (a + span xs)" "chain h (a + span xs + 32 + n) ys nx" using assms(1) unfolding chain_middle by simp_all
  then have "chain ?h a xs (a + span xs)" "chain ?h (a + span xs + 32 + n) ys nx"
    using assms(2) by (auto elim!: chain_frame)
  then show ?thesis using assms(2) unfolding chain_middle chain.simps e by simp
qed

lemma take_block_spec:
  assumes inv: "heap_inv bs s" and bs: "bs = xs @ (n, True) # ys" and fit: "sz \<le> n" "0 < sz" "sz mod 16 = 0"
    and res: "take_block sz (HEAP_START_VADDR + span xs) s = (p, s')"
  shows "\<exists>m zs. sz \<le> m \<and> p = HEAP_START_VADDR + span xs + 32 \<and> heap_inv (xs @ (m, False) # zs @ ys) s' \<and> (zs = [] \<and> m = n \<or> (\<exists>k. zs = [(k, True)]))
     \<and> m + span zs = n \<and> vm s' = vm s \<and> payload s' = payload s"
proof -
  let ?c = "HEAP_START_VADDR + span xs" and ?nx = "if ys = [] then 0 else HEAP_START_VADDR + span xs + 32 + n"
  note d = heap_invD [OF inv]
  have ch: "chain (hdrs s) HEAP_START_VADDR (xs @ (n, True) # ys) 0" using d(2) bs by simp
  then have h: "hdrs s ?c = Some (hdr n True ?nx)" unfolding chain_middle by simp
  have lim: "?c + 32 + n \<le> HEAP_LIMIT" using heap_span_bound [OF inv] bs by simp
  have n16: "n mod 16 = 0" using d(6) [of n True] bs by simp
  have u: "u64 (?c + 32 + sz) = ?c + 32 + sz" "u64 (?c + 32) = ?c + 32" "u64 (sz + HB_SIZE + 1) = sz + 33"
    using lim fit by (simp_all add: u64_id heap_const)
  show ?thesis
  proof (cases "n > sz + 33")
    case True
    have k: "sub64 (sub64 n sz) 32 = n - sz - 32" using True lim by (simp add: sub64_id heap_const)
    have s': "s' = s\<lparr>hdrs := (hdrs s)(?c + 32 + sz \<mapsto> hdr (n - sz - 32) True ?nx, ?c \<mapsto> hdr sz False (?c + 32 + sz))\<rparr>" and p: "p = ?c + 32"
      using res True h u k unfolding take_block_def u(3) by (auto simp: Let_def set_hdr_def HB_SIZE_def)
    have "(n - sz - 32) mod 16 = 0" using n16 fit(3) True by presburger
    then have "heap_inv (xs @ (sz, False) # [(n - sz - 32, True)] @ ys) s'"
      unfolding s' using d(6) bs True chain_cut [OF ch, of sz False] fit(3) by (intro heap_inv_blocks [OF inv]) auto
    then show ?thesis using True p s' by (intro exI [of _ sz] exI [of _ "[(n - sz - 32, True)]"]) simp
  next
    case False
    have s': "s' = s\<lparr>hdrs := (hdrs s)(?c \<mapsto> hdr n False ?nx)\<rparr>" and p: "p = ?c + 32"
      using res False h u unfolding take_block_def u(3) by (auto simp: Let_def set_hdr_def HB_SIZE_def)
    have "heap_inv (xs @ (n, False) # [] @ ys) s'"
      unfolding s' using d(6) bs chain_set_flag [OF ch, of False] by (intro heap_inv_blocks [OF inv]) auto
    then show ?thesis using p fit s' by (intro exI [of _ n] exI [of _ "[]"]) simp
  qed
qed

section \<open>Growth\<close>

definition pages_from :: "nat \<Rightarrow> nat \<Rightarrow> nat set" where
  "pages_from a k = (\<lambda>i. a + 4096 * i) ` {..<k}"

lemma pages_from_0 [simp]: "pages_from a 0 = {}"
  by (simp add: pages_from_def)

lemma pages_from_Suc: "pages_from a (Suc k) = insert a (pages_from (a + 4096) k)"
  by (simp add: pages_from_def lessThan_Suc_eq_insert_0 image_image add.assoc)

lemma pages_from_above: "x \<in> pages_from a k \<Longrightarrow> a \<le> x"
  by (auto simp: pages_from_def)

lemma pages_from_mem: "x \<in> pages_from a k \<longleftrightarrow> a \<le> x \<and> x < a + 4096 * k \<and> (x - a) mod 4096 = 0"
proof
  assume x: "a \<le> x \<and> x < a + 4096 * k \<and> (x - a) mod 4096 = 0"
  then have "x = a + 4096 * ((x - a) div 4096)" by auto
  moreover have "(x - a) div 4096 < k" using x by auto
  ultimately show "x \<in> pages_from a k" unfolding pages_from_def by blast
qed (auto simp: pages_from_def)

lemma map_pages_spec:
  assumes "heap_end s + 4096 * length (vm s) \<le> HEAP_LIMIT" and "map_pages n s = (ok, s')"
  shows "\<exists>k v. s' = s\<lparr>vm := v, vmap := vmap s \<union> pages_from (heap_end s) k, heap_end := heap_end s + 4096 * k\<rparr>
      \<and> (ok \<longleftrightarrow> take n (vm s) = replicate n True) \<and> (ok \<longrightarrow> k = n) \<and> k + length v \<le> length (vm s)"
  using assms
proof (induction n arbitrary: s)
  case 0
  then show ?case by (intro exI [of _ 0] exI [of _ "vm s"]) simp
next
  case (Suc n)
  show ?case
  proof (cases "vm s")
    case Nil
    then show ?thesis using Suc.prems by (intro exI [of _ 0] exI [of _ "[]"]) simp
  next
    case (Cons b v)
    let ?t = "s\<lparr>vm := v, vmap := insert (heap_end s) (vmap s), heap_end := heap_end s + 4096\<rparr>"
    show ?thesis
    proof (cases b)
      case False
      then show ?thesis using Suc.prems Cons by (intro exI [of _ 0] exI [of _ v]) auto
    next
      case True
      have "u64 (heap_end s + 4096) = heap_end s + 4096" using Suc.prems(1) Cons by (simp add: u64_id HEAP_LIMIT_def)
      then have m: "map_pages n ?t = (ok, s')" using Suc.prems(2) Cons True by simp
      have l: "heap_end ?t + 4096 * length (vm ?t) \<le> HEAP_LIMIT" using Suc.prems(1) Cons by simp
      obtain k w where "s' = ?t\<lparr>vm := w, vmap := vmap ?t \<union> pages_from (heap_end ?t) k, heap_end := heap_end ?t + 4096 * k\<rparr>"
        "ok \<longleftrightarrow> take n v = replicate n True" "ok \<longrightarrow> k = n" "k + length w \<le> length v"
        using Suc.IH [OF l m] by auto
      then show ?thesis using Cons True
        by (intro exI [of _ "Suc k"] exI [of _ w]) (simp add: pages_from_Suc insert_commute)
    qed
  qed
qed

lemma unmap_pages_spec:
  "a + 4096 * k < 2 ^ 64 \<Longrightarrow> unmap_pages a k s = s\<lparr>vmap := vmap s - pages_from a k\<rparr>"
proof (induction k arbitrary: a s)
  case (Suc k)
  have "u64 (a + 4096) = a + 4096" using Suc.prems by (simp add: u64_id)
  then have "unmap_pages a (Suc k) s = unmap_pages (a + 4096) k (s\<lparr>vmap := vmap s - {a}\<rparr>)" by simp
  also have "\<dots> = s\<lparr>vmap := vmap s - {a} - pages_from (a + 4096) k\<rparr>"
    using Suc.prems by (subst Suc.IH) simp_all
  also have "vmap s - {a} - pages_from (a + 4096) k = vmap s - pages_from a (Suc k)" by (auto simp: pages_from_Suc)
  finally show ?case .
qed simp

lemma pages_needed_bounds:
  assumes "r + 32 < 2 ^ 64"
  shows "r + 32 \<le> 4096 * pages_needed r \<and> 0 < pages_needed r"
proof -
  define q m where "q = (r + 32) div 4096" and "m = (r + 32) mod 4096"
  have e: "r + 32 = 4096 * q + m" "m < 4096" by (simp_all add: q_def m_def)
  have "pages_needed r = q + (if m \<noteq> 0 then 1 else 0)"
    using assms by (simp add: pages_needed_def Let_def HB_SIZE_def u64_id q_def m_def)
  then show ?thesis using e by auto
qed

lemma chain_snoc:
  assumes "chain h a (xs @ [(n, f)]) 0" and "e = a + span xs + 32 + n"
  shows "chain (h(e \<mapsto> hdr m True 0, a + span xs \<mapsto> hdr n f e)) a (xs @ [(n, f), (m, True)]) 0"
proof -
  have "chain h a xs (a + span xs)" using assms(1) by (simp add: chain_append)
  then have "chain (h(e \<mapsto> hdr m True 0, a + span xs \<mapsto> hdr n f e)) a xs (a + span xs)"
    using assms(2) by (auto elim!: chain_frame)
  then show ?thesis using assms(2) by (simp add: chain_append)
qed

text \<open>Linking the new block at the end of the chain.\<close>

lemma link_block_spec:
  assumes "chain (hdrs s) HEAP_START_VADDR bs 0" and "heap_head s = (if bs = [] then 0 else HEAP_START_VADDR)"
    and "e = HEAP_START_VADDR + span bs"
  shows "\<exists>h. link_block e (set_hdr e (hdr m True 0) s) = Some (Inr (s\<lparr>hdrs := h, heap_head := HEAP_START_VADDR\<rparr>))
    \<and> chain h HEAP_START_VADDR (bs @ [(m, True)]) 0"
proof (cases "bs = []")
  case True
  then show ?thesis using assms by (auto simp: link_block_def set_hdr_def)
next
  case False
  let ?t = "set_hdr e (hdr m True 0) s"
  have h0: "heap_head ?t = HEAP_START_VADDR" "HEAP_START_VADDR \<noteq> 0" using assms(2) False by (simp_all add: set_hdr_def HEAP_START_VADDR_def)
  have c: "chain (hdrs ?t) HEAP_START_VADDR bs 0" using assms(1,3) by (auto simp: set_hdr_def intro: chain_upd_above)
  obtain xs n f where bs: "bs = xs @ [(n, f)]" and l: "last_block HEAP_START_VADDR ?t = Some (Inr (HEAP_START_VADDR + span xs))"
    using last_block_chain [OF c False] by auto
  have hx: "hdrs ?t (HEAP_START_VADDR + span xs) = Some (hdr n f 0)" using c bs by (simp add: chain_append)
  have "link_block e ?t = Some (Inr (s\<lparr>hdrs := (hdrs s)(e \<mapsto> hdr m True 0, HEAP_START_VADDR + span xs \<mapsto> hdr n f e)\<rparr>))"
    using h0 l hx by (simp add: link_block_def) (simp add: set_hdr_def)
  moreover have "s\<lparr>hdrs := h\<rparr> = s\<lparr>hdrs := h, heap_head := HEAP_START_VADDR\<rparr>" for h using h0(1) by (simp add: set_hdr_def)
  ultimately show ?thesis using chain_snoc [of "hdrs s" HEAP_START_VADDR xs n f e m] assms(1,3) bs by auto
qed

lemma pages_extend:
  assumes "e mod 4096 = (0::nat)" and "b \<le> e"
  shows "{a. b \<le> a \<and> a < e \<and> a mod 4096 = 0} \<union> pages_from e n = {a. b \<le> a \<and> a < e + 4096 * n \<and> a mod 4096 = 0}"
proof -
  have m: "(x - e) mod 4096 = x mod 4096" if "e \<le> x" for x
    using mod_add_eq [of e 4096 "x - e"] assms(1) that by simp
  have "x \<in> pages_from e n \<longleftrightarrow> e \<le> x \<and> x < e + 4096 * n \<and> x mod 4096 = 0" for x
    unfolding pages_from_mem using m [of x] by (cases "e \<le> x") simp_all
  then show ?thesis using assms(2) by (intro set_eqI) (simp, linarith)
qed

text \<open>Growth either leaves the heap as it was, or adds one free block of whole pages at its end.\<close>

lemma expand_heap_spec:
  assumes inv: "heap_inv bs s" and r: "r + 32 < 2 ^ 64"
  shows "\<exists>a s'. expand_heap r s = Some (Inr (a, s')) \<and> payload s' = payload s \<and>
    (if take (pages_needed r) (vm s) = replicate (pages_needed r) True
     then a \<noteq> 0 \<and> heap_inv (bs @ [(4096 * pages_needed r - 32, True)]) s' else a = 0 \<and> heap_inv bs s')"
proof -
  note d = heap_invD [OF inv]
  define n where "n = pages_needed r"
  define e where "e = heap_end s"
  have n: "0 < n" using pages_needed_bounds [OF r] by (simp add: n_def)
  obtain ok s1 where m: "map_pages n s = (ok, s1)" by (cases "map_pages n s")
  obtain k v where s1: "s1 = s\<lparr>vm := v, vmap := vmap s \<union> pages_from e k, heap_end := e + 4096 * k\<rparr>"
    and ok: "ok \<longleftrightarrow> take n (vm s) = replicate n True" and kn: "ok \<longrightarrow> k = n" and kv: "k + length v \<le> length (vm s)"
    using map_pages_spec [OF d(5) m] unfolding e_def by blast
  have lim: "e + 4096 * k + 4096 * length v \<le> HEAP_LIMIT" using d(5) kv by (simp add: e_def)
  show ?thesis
  proof (cases ok)
    case False
    have "sub64 (e + 4096 * k) e = 4096 * k" using lim by (simp add: sub64_id HEAP_LIMIT_def)
    moreover have "unmap_pages e k s1 = s1\<lparr>vmap := vmap s1 - pages_from e k\<rparr>"
      using lim by (intro unmap_pages_spec) (simp add: HEAP_LIMIT_def)
    moreover have "vmap s \<union> pages_from e k - pages_from e k = vmap s"
      using d(7) pages_from_above [of _ e k] by (fastforce simp: e_def)
    ultimately have "expand_heap r s = Some (Inr (0, s\<lparr>vm := v\<rparr>))"
      using m False by (simp add: expand_heap_def n_def [symmetric] e_def [symmetric] s1)
    moreover have "heap_inv bs (s\<lparr>vm := v\<rparr>)" using kv d by (intro heap_inv_vm [OF inv]) simp
    ultimately show ?thesis using False ok by (simp add: n_def)
  next
    case True
    have k: "k = n" using True kn by simp
    have "sub64 (u64 (n * 4096)) HB_SIZE = 4096 * n - 32"
      using lim k n by (simp add: sub64_id u64_id HEAP_LIMIT_def HB_SIZE_def mult.commute)
    moreover obtain h where h: "link_block e (set_hdr e (hdr (4096 * n - 32) True 0) s1) = Some (Inr (s1\<lparr>hdrs := h, heap_head := HEAP_START_VADDR\<rparr>))"
      "chain h HEAP_START_VADDR (bs @ [(4096 * n - 32, True)]) 0"
      using link_block_spec [of s1 bs e "4096 * n - 32"] d(1,2,3) by (auto simp: s1 e_def)
    ultimately have x: "expand_heap r s = Some (Inr (e, s1\<lparr>hdrs := h, heap_head := HEAP_START_VADDR\<rparr>))"
      using m True by (simp add: expand_heap_def n_def [symmetric] e_def [symmetric])
    have "(4096 * n - 32) mod 16 = 0" by (rule mod_nat_eqI) (use n in auto)
    moreover have "(e + 4096 * n) mod 4096 = 0" using d(4) by (simp add: e_def)
    moreover have "HEAP_START_VADDR \<le> e" "span bs + (32 + (4096 * n - 32)) = span bs + 4096 * n" using d(3) n by (simp_all add: e_def)
    moreover have "vmap s \<union> pages_from e n = {a. HEAP_START_VADDR \<le> a \<and> a < e + 4096 * n \<and> a mod 4096 = 0}"
      using pages_extend [of e HEAP_START_VADDR n] d(3,4,7) by (simp add: e_def)
    ultimately have "heap_inv (bs @ [(4096 * n - 32, True)]) (s1\<lparr>hdrs := h, heap_head := HEAP_START_VADDR\<rparr>)"
      using h(2) lim d(3,6) by (auto simp: heap_inv_def s1 k e_def)
    moreover have "e \<noteq> 0" using d(3) by (simp add: e_def HEAP_START_VADDR_def)
    ultimately show ?thesis using x True ok by (simp add: n_def [symmetric]) (simp add: s1)
  qed
qed

section \<open>Allocation\<close>

lemma round16_bounds:
  assumes "sz \<le> 2 ^ 64 - 48"
  shows "sz \<le> round16 sz" "round16 sz mod 16 = 0" "round16 sz \<le> 2 ^ 64 - 48" "round16 (round16 sz) = round16 sz" "0 < sz \<Longrightarrow> 0 < round16 sz"
proof -
  define q where "q = (sz + 15) div 16"
  have u: "u64 (sz + 15) = sz + 15" using assms by (simp add: u64_id)
  have q: "sz + 15 = 16 * q + (sz + 15) mod 16" "(sz + 15) mod 16 < 16" by (simp_all add: q_def)
  have r: "round16 sz = 16 * q" by (simp add: round16_def u q_def)
  then show "sz \<le> round16 sz" "round16 sz mod 16 = 0" "0 < sz \<Longrightarrow> 0 < round16 sz" using q by simp_all
  have "16 * q < 18446744073709551584" using q assms by simp
  then show "round16 sz \<le> 2 ^ 64 - 48" using r by simp
  have "u64 (16 * q + 15) = 16 * q + 15" using q assms by (simp add: u64_id)
  then show "round16 (round16 sz) = round16 sz" unfolding r by (simp add: round16_def)
qed

lemma allocs_free: "\<forall>b \<in> set bs. snd b \<Longrightarrow> allocs a bs = []"
  by (induction bs arbitrary: a rule: span.induct) auto

text \<open>What an allocation of at least \<open>sz\<close> bytes at \<open>p\<close> is: one more region, apart from all others.\<close>

definition gains :: "blocks \<Rightarrow> blocks \<Rightarrow> nat \<Rightarrow> nat \<Rightarrow> bool" where
  "gains bs bs' p m \<longleftrightarrow> (\<exists>A B. allocs HEAP_START_VADDR bs = A @ B \<and> allocs HEAP_START_VADDR bs' = A @ (p, m) # B)"

lemma kmalloc_fit:
  assumes inv: "heap_inv bs s" and sz: "0 < sz" "sz \<le> 2 ^ 64 - 48" and fit: "\<exists>b \<in> set bs. fits (round16 sz) b"
  shows "\<exists>p s' bs' m. kmalloc sz s = Some (Inr (p, s')) \<and> p \<noteq> 0 \<and> p mod 16 = 0 \<and> sz \<le> m \<and> heap_inv bs' s' \<and> gains bs bs' p m
    \<and> payload s' = payload s"
proof -
  let ?r = "round16 sz" and ?S = HEAP_START_VADDR
  note r = round16_bounds [OF sz(2)] and d = heap_invD [OF inv]
  have S: "0 < ?S" "?S mod 16 = 0" by (simp_all add: HEAP_START_VADDR_def)
  obtain xs n ys where bs: "bs = xs @ (n, True) # ys" and n: "?r \<le> n" and f: "find_fit ?r ?S s = Some (Inr (?S + span xs))"
    using find_fit_chain [OF d(2) S(1), of ?r] fit by auto
  obtain p s' where t: "take_block ?r (?S + span xs) s = (p, s')" by (cases "take_block ?r (?S + span xs) s")
  obtain m zs where tb: "?r \<le> m" "p = ?S + span xs + 32" "heap_inv (xs @ (m, False) # zs @ ys) s'"
    "zs = [] \<and> m = n \<or> (\<exists>k. zs = [(k, True)])" "m + span zs = n" "payload s' = payload s"
    using take_block_spec [OF inv bs n r(5) [OF sz(1)] r(2) t] by blast
  have "kmalloc sz s = Some (Inr (p, s'))"
    using sz f t d(1) bs S(1) by (simp add: kmalloc.simps [of sz s])
  moreover have "p \<noteq> 0" "p mod 16 = 0"
    using tb(2) S mod16_span [of xs] d(6) bs mod_add_eq [of "?S" 16 "span xs + 32"] by (auto simp: add.assoc mod_add_eq [symmetric])
  moreover have "gains bs (xs @ (m, False) # zs @ ys) p m"
  proof -
    have "allocs a zs = []" for a using tb(4) by (intro allocs_free) auto
    moreover have "?S + span xs + 32 + m + span zs = ?S + span xs + 32 + n" using tb(5) by simp
    ultimately show ?thesis unfolding gains_def bs by (auto simp: tb(2) add.assoc)
  qed
  moreover have "sz \<le> m" using tb(1) r(1) by simp
  ultimately show ?thesis using tb(3,6)
    by (intro exI [of _ p] exI [of _ s'] exI [of _ "xs @ (m, False) # zs @ ys"] exI [of _ m]) simp
qed

text \<open>The allocator returns for every request: it finds a block, or grows by as many pages as needed and finds the new
  block, or fails because a page could not be mapped, and then nothing has changed.\<close>

lemma kmalloc_spec:
  assumes inv: "heap_inv bs s" and sz: "0 < sz" "sz \<le> 2 ^ 64 - 48"
  shows "(\<exists>p s' bs' m. kmalloc sz s = Some (Inr (p, s')) \<and> p \<noteq> 0 \<and> p mod 16 = 0 \<and> sz \<le> m \<and> heap_inv bs' s' \<and> gains bs bs' p m
      \<and> payload s' = payload s)
    \<or> (\<exists>s'. kmalloc sz s = Some (Inr (0, s')) \<and> heap_inv bs s' \<and> payload s' = payload s \<and> (\<forall>b \<in> set bs. \<not> fits (round16 sz) b)
      \<and> take (pages_needed (round16 sz)) (vm s) \<noteq> replicate (pages_needed (round16 sz)) True)"
proof (cases "\<exists>b \<in> set bs. fits (round16 sz) b")
  case True
  then show ?thesis using kmalloc_fit [OF assms True] by blast
next
  case False
  let ?r = "round16 sz" and ?n = "pages_needed (round16 sz)" and ?S = HEAP_START_VADDR
  note r = round16_bounds [OF sz(2)] and d = heap_invD [OF inv]
  have S: "0 < ?S" by (simp add: HEAP_START_VADDR_def)
  have r32: "?r + 32 < 2 ^ 64" using r(3) by simp
  have nf: "find_fit ?r (heap_head s) s = Some (Inr 0)"
    using find_fit_chain [OF d(2) S, of ?r] False d(1) by (auto simp: fits_def)
  obtain a s1 where x: "expand_heap ?r s = Some (Inr (a, s1))" "payload s1 = payload s"
    "if take ?n (vm s) = replicate ?n True then a \<noteq> 0 \<and> heap_inv (bs @ [(4096 * ?n - 32, True)]) s1 else a = 0 \<and> heap_inv bs s1"
    using expand_heap_spec [OF inv r32] by blast
  have k: "kmalloc sz s = (if a = 0 then Some (Inr (0, s1)) else kmalloc ?r s1)"
    using sz nf x(1) by (simp add: kmalloc.simps [of sz s])
  show ?thesis
  proof (cases "take ?n (vm s) = replicate ?n True")
    case True
    then have i1: "heap_inv (bs @ [(4096 * ?n - 32, True)]) s1" and a: "a \<noteq> 0" using x(3) by simp_all
    have "fits (round16 ?r) (4096 * ?n - 32, True)" using pages_needed_bounds [OF r32] by (simp add: fits_def r(4)) linarith
    then have ex: "\<exists>b \<in> set (bs @ [(4096 * ?n - 32, True)]). fits (round16 ?r) b" by simp
    obtain p s' bs' m where m: "kmalloc ?r s1 = Some (Inr (p, s'))" "p \<noteq> 0" "p mod 16 = 0" "?r \<le> m" "heap_inv bs' s'"
      "gains (bs @ [(4096 * ?n - 32, True)]) bs' p m" "payload s' = payload s1"
      using kmalloc_fit [OF i1 r(5) [OF sz(1)] r(3) ex] by (elim exE conjE) (rule that)
    then have "gains bs bs' p m" by (simp add: gains_def)
    moreover have "sz \<le> m" using m(4) r(1) by simp
    ultimately show ?thesis using k a m x(2) by (intro disjI1 exI [of _ p] exI [of _ s'] exI [of _ bs'] exI [of _ m]) simp
  next
    case nt: False
    then show ?thesis using k x False by simp
  qed
qed

section \<open>Release\<close>

text \<open>What coalescing makes of the blocks.\<close>

fun merged :: "blocks \<Rightarrow> blocks" where
  "merged [] = []"
| "merged [b] = [b]"
| "merged ((n, f) # (k, g) # bs) = (if f \<and> g then merged ((n + 32 + k, True) # bs) else (n, f) # merged ((k, g) # bs))"

definition coalesced :: "blocks \<Rightarrow> bool" where
  "coalesced bs \<longleftrightarrow> successively (\<lambda>x y. \<not> (snd x \<and> snd y)) bs"

lemma merged_Nil_iff [simp]: "merged bs = [] \<longleftrightarrow> bs = []"
  by (induction bs rule: merged.induct) simp_all

lemma span_merged [simp]: "span (merged bs) = span bs"
  by (induction bs rule: merged.induct) auto

lemma allocs_merged [simp]: "allocs a (merged bs) = allocs a bs"
  by (induction bs arbitrary: a rule: merged.induct) (auto simp: add.assoc)

lemma merged_mod16: "\<forall>(n, f) \<in> set bs. n mod 16 = 0 \<Longrightarrow> \<forall>(n, f) \<in> set (merged bs). n mod 16 = 0"
  by (induction bs rule: merged.induct) auto

lemma merged_hd: "bs \<noteq> [] \<Longrightarrow> snd (hd (merged bs)) = snd (hd bs)"
  by (induction bs rule: merged.induct) auto

lemma merged_coalesced: "coalesced (merged bs)"
proof (induction bs rule: merged.induct)
  case (3 n f k g bs)
  then show ?case using merged_hd [of "(k, g) # bs"] by (auto simp: coalesced_def successively_Cons)
qed (simp_all add: coalesced_def)

text \<open>The merging walk ends and leaves the merged chain.\<close>

lemma coalesce_chain:
  "chain (hdrs s) a bs 0 \<Longrightarrow> 0 < a \<Longrightarrow> a + span bs \<le> HEAP_LIMIT \<Longrightarrow>
   \<exists>h. coalesce (if bs = [] then 0 else a) s = Some (Inr (s\<lparr>hdrs := h\<rparr>)) \<and> chain h a (merged bs) 0 \<and> (\<forall>x<a. h x = hdrs s x)"
proof (induction bs arbitrary: a s rule: merged.induct)
  case 1
  show ?case by (intro exI [of _ "hdrs s"]) (simp add: coalesce.simps [of 0])
next
  case (2 b)
  then show ?case by (cases b; intro exI [of _ "hdrs s"]) (simp add: coalesce.simps [of a] coalesce.simps [of 0])
next
  case (3 n f k g bs)
  let ?b = "a + 32 + n" and ?nx = "if bs = [] then 0 else a + 32 + n + 32 + k"
  have h: "hdrs s a = Some (hdr n f ?b)" "hdrs s ?b = Some (hdr k g ?nx)" and rest: "chain (hdrs s) (?b + 32 + k) bs 0"
    using "3.prems"(1) by simp_all
  have u: "u64 (a + HB_SIZE + n) = ?b" "u64 (n + k + HB_SIZE) = n + 32 + k"
    using "3.prems"(3) by (simp_all add: u64_id heap_const)
  show ?case
  proof (cases "f \<and> g")
    case True
    let ?t = "set_hdr a (hdr (n + 32 + k) True ?nx) s"
    have c: "coalesce a s = coalesce a ?t" using h u True "3.prems"(2) by (subst coalesce.simps) simp
    have "chain (hdrs ?t) a ((n + 32 + k, True) # bs) 0" using chain_upd_below [OF rest, of a] by (simp add: set_hdr_def add.assoc)
    then obtain h' where "coalesce a ?t = Some (Inr (?t\<lparr>hdrs := h'\<rparr>))" "chain h' a (merged ((n + 32 + k, True) # bs)) 0" "\<forall>x<a. h' x = hdrs ?t x"
      using "3.IH"(1) [OF True, of ?t a] "3.prems" by auto
    then show ?thesis using c True by (intro exI [of _ h']) (simp add: set_hdr_def)
  next
    case False
    have c: "coalesce a s = coalesce ?b s" using h u False "3.prems"(2) by (subst coalesce.simps) auto
    obtain h' where h': "coalesce ?b s = Some (Inr (s\<lparr>hdrs := h'\<rparr>))" "chain h' ?b (merged ((k, g) # bs)) 0" "\<forall>x<?b. h' x = hdrs s x"
      using "3.IH"(2) [OF False, of s ?b] "3.prems" h rest by auto
    then show ?thesis using c False h by (intro exI [of _ h']) auto
  qed
qed

lemma kfree_spec:
  assumes inv: "heap_inv bs s" and p: "(p, n) \<in> set (allocs HEAP_START_VADDR bs)"
  shows "\<exists>h bs'. kfree p s = Some (Inr (s\<lparr>hdrs := h\<rparr>)) \<and> heap_inv bs' (s\<lparr>hdrs := h\<rparr>) \<and> gains bs' bs p n \<and> coalesced bs'"
proof -
  note d = heap_invD [OF inv]
  let ?S = HEAP_START_VADDR
  obtain xs ys where bs: "bs = xs @ (n, False) # ys" and pe: "p = ?S + span xs + 32" using allocs_split [OF p] by blast
  let ?a = "?S + span xs" and ?nx = "if ys = [] then 0 else ?S + span xs + 32 + n" and ?bs = "xs @ (n, True) # ys"
  let ?t = "set_hdr ?a (hdr n True ?nx) s"
  have ch: "chain (hdrs s) ?S (xs @ (n, False) # ys) 0" using d(2) bs by simp
  then have h: "hdrs s ?a = Some (hdr n False ?nx)" unfolding chain_middle by simp
  have lim: "?S + span bs \<le> HEAP_LIMIT" by (rule heap_span_bound [OF inv])
  have a: "sub64 p HB_SIZE = ?a" using lim bs pe by (simp add: sub64_id heap_const)
  have "chain (hdrs ?t) ?S ?bs 0" using chain_set_flag [OF ch, of True] by (simp add: set_hdr_def)
  then obtain h' where h': "coalesce ?S ?t = Some (Inr (?t\<lparr>hdrs := h'\<rparr>))" "chain h' ?S (merged ?bs) 0"
    using coalesce_chain [of ?t ?S ?bs] lim bs by (auto simp: HEAP_START_VADDR_def)
  have k: "kfree p s = Some (Inr (s\<lparr>hdrs := h'\<rparr>))"
    using h' a h pe d(1) bs by (simp add: kfree_def Let_def) (simp add: set_hdr_def)
  have "\<forall>(m, f) \<in> set ?bs. m mod 16 = 0" using d(6) bs by auto
  then have "heap_inv (merged ?bs) (s\<lparr>hdrs := h'\<rparr>)"
    using bs by (intro heap_inv_blocks [OF inv h'(2)] merged_mod16) simp_all
  moreover have "gains (merged ?bs) bs p n" unfolding gains_def allocs_merged bs pe by auto
  ultimately show ?thesis using k merged_coalesced by blast
qed

section \<open>Clients\<close>

lemma allocs_apart:
  assumes "(p, n) \<in> set (allocs a bs)" and "(q, m) \<in> set (allocs a bs)" and "(p, n) \<noteq> (q, m)"
  shows "p + n < q \<or> q + m < p"
proof -
  obtain i where i: "i < length (allocs a bs)" "allocs a bs ! i = (p, n)" using assms(1) by (meson in_set_conv_nth)
  obtain j where j: "j < length (allocs a bs)" "allocs a bs ! j = (q, m)" using assms(2) by (meson in_set_conv_nth)
  have "i \<noteq> j" using i j assms(3) by auto
  note R = sorted_wrt_nth_less [OF allocs_sorted [of a bs]]
  show ?thesis using R [of i j] R [of j i] i j \<open>i \<noteq> j\<close> by (cases "i < j") simp_all
qed

lemma allocs_distinct: "distinct (map fst (allocs a bs))"
proof -
  have "sorted_wrt (<) (map fst (allocs a bs))"
    unfolding sorted_wrt_map by (rule sorted_wrt_mono_rel [OF _ allocs_sorted [of a bs]]) auto
  then show ?thesis by (simp add: strict_sorted_iff)
qed

lemma gains_mset: "gains bs bs' p m \<Longrightarrow> mset (allocs HEAP_START_VADDR bs') = add_mset (p, m) (mset (allocs HEAP_START_VADDR bs))"
  by (auto simp: gains_def)

lemma gains_set: "gains bs bs' p m \<Longrightarrow> set (allocs HEAP_START_VADDR bs') = insert (p, m) (set (allocs HEAP_START_VADDR bs))"
  by (auto simp: gains_def)

lemma gains_fresh:
  assumes "gains bs bs' p m" and "(q, k) \<in> set (allocs HEAP_START_VADDR bs)"
  shows "p + m < q \<or> q + k < p"
proof -
  have "distinct (map fst (allocs HEAP_START_VADDR bs'))" by (rule allocs_distinct)
  then have "p \<noteq> q" using assms unfolding gains_def by force
  then show ?thesis using allocs_apart [of p m HEAP_START_VADDR bs' q k] gains_set [OF assms(1)] assms(2) by simp
qed

lemma heap_inv_payload [simp]: "heap_inv bs (s\<lparr>payload := f\<rparr>) = heap_inv bs s"
  by (simp add: heap_inv_def)

lemma region_mapped:
  assumes "heap_inv bs s" and "(p, n) \<in> set (allocs HEAP_START_VADDR bs)" and "p \<le> a" and "a < p + n"
  shows "a - a mod 4096 \<in> vmap s"
proof -
  note d = heap_invD [OF assms(1)] and b = allocs_bounds [OF assms(2)]
  have S: "HEAP_START_VADDR mod 4096 = 0" by (simp add: HEAP_START_VADDR_def)
  have "HEAP_START_VADDR div 4096 \<le> a div 4096" using b assms(3) by (intro div_le_mono) simp
  then have "HEAP_START_VADDR \<le> a - a mod 4096" using S by (simp add: minus_mod_eq_mult_div) (metis S mult_div_mod_eq add_0_right mult_le_mono2)
  moreover have "a - a mod 4096 < heap_end s" using b assms(4) d(3) diff_le_self [of a "a mod 4096"] by linarith
  moreover have "(a - a mod 4096) mod 4096 = 0" by (simp add: minus_mod_eq_mult_div)
  ultimately show ?thesis by (simp add: d(7))
qed

text \<open>Resizing.\<close>

lemma krealloc_spec:
  assumes inv: "heap_inv bs s" and p: "(p, n) \<in> set (allocs HEAP_START_VADDR bs)" and sz: "0 < new" "new \<le> 2 ^ 64 - 48"
  shows "(\<exists>q s' bs1 bs' m. krealloc p old new s = Some (Inr (q, s')) \<and> q \<noteq> 0 \<and> new \<le> m \<and> heap_inv bs' s' \<and> gains bs bs1 q m \<and> gains bs' bs1 p n
      \<and> payload s' = payload (kmemcpy q p (min old new) s))
    \<or> (\<exists>s'. krealloc p old new s = Some (Inr (0, s')) \<and> heap_inv bs s' \<and> payload s' = payload s)"
proof -
  have p0: "p \<noteq> 0" using allocs_bounds [OF p] by simp
  consider q s1 bs1 m where "kmalloc new s = Some (Inr (q, s1))" "q \<noteq> 0" "new \<le> m" "heap_inv bs1 s1" "gains bs bs1 q m" "payload s1 = payload s"
    | s1 where "kmalloc new s = Some (Inr (0, s1))" "heap_inv bs s1" "payload s1 = payload s"
    using kmalloc_spec [OF inv sz] by blast
  then show ?thesis
  proof cases
    case 1
    let ?t = "kmemcpy q p (min old new) s1"
    have "heap_inv bs1 ?t" using 1(4) by (simp add: kmemcpy_def)
    moreover have "(p, n) \<in> set (allocs HEAP_START_VADDR bs1)" using gains_set [OF 1(5)] p by simp
    ultimately obtain h bs' where k: "kfree p ?t = Some (Inr (?t\<lparr>hdrs := h\<rparr>))" "heap_inv bs' (?t\<lparr>hdrs := h\<rparr>)" "gains bs' bs1 p n"
      using kfree_spec by blast
    have "(if old < new then old else new) = min old new" by simp
    then have "krealloc p old new s = Some (Inr (q, ?t\<lparr>hdrs := h\<rparr>))"
      using 1(1,2) k(1) p0 sz(1) by (simp add: krealloc_def)
    moreover have "payload (?t\<lparr>hdrs := h\<rparr>) = payload (kmemcpy q p (min old new) s)" by (simp add: kmemcpy_def 1(6) cong: if_cong)
    ultimately show ?thesis using 1 k by blast
  next
    case 2
    then show ?thesis using p0 sz(1) by (simp add: krealloc_def)
  qed
qed

text \<open>The clients of the heap: what they hold, with the size they asked for, and the heap.  A client writes only to what it holds.\<close>

record hconf =
  held :: "(nat \<times> nat) list"
  hp :: heap

inductive heap_step :: "hconf \<Rightarrow> hconf \<Rightarrow> bool" where
  hs_malloc: "\<lbrakk>0 < sz; sz \<le> 2 ^ 64 - 48; kmalloc sz (hp c) = Some (Inr (p, s'))\<rbrakk>
    \<Longrightarrow> heap_step c \<lparr>held = (if p = 0 then held c else (p, sz) # held c), hp = s'\<rparr>"
| hs_free: "\<lbrakk>(p, n) \<in> set (held c); kfree p (hp c) = Some (Inr s')\<rbrakk>
    \<Longrightarrow> heap_step c \<lparr>held = remove1 (p, n) (held c), hp = s'\<rparr>"
| hs_realloc: "\<lbrakk>(p, n) \<in> set (held c); 0 < new; new \<le> 2 ^ 64 - 48; krealloc p n new (hp c) = Some (Inr (q, s'))\<rbrakk>
    \<Longrightarrow> heap_step c \<lparr>held = (if q = 0 then held c else (q, new) # remove1 (p, n) (held c)), hp = s'\<rparr>"
| hs_write: "\<lbrakk>(p, n) \<in> set (held c); p \<le> a; a < p + n\<rbrakk>
    \<Longrightarrow> heap_step c (c\<lparr>hp := (hp c)\<lparr>payload := (payload (hp c))(a := b)\<rparr>\<rparr>)"

text \<open>Every region held is an allocated block that is large enough, and every allocated block is held.\<close>

definition covered :: "(nat \<times> nat) list \<Rightarrow> (nat \<times> nat) list \<Rightarrow> bool" where
  "covered hs as \<longleftrightarrow> (\<exists>as'. mset as' = mset as \<and> list_all2 (\<lambda>(p, n) (q, m). p = q \<and> n \<le> m) hs as')"

definition hconf_inv :: "hconf \<Rightarrow> bool" where
  "hconf_inv c \<longleftrightarrow> (\<exists>bs. heap_inv bs (hp c) \<and> covered (held c) (allocs HEAP_START_VADDR bs))"

lemma covered_add: "covered hs as \<Longrightarrow> mset as1 = add_mset (p, m) (mset as) \<Longrightarrow> n \<le> m \<Longrightarrow> covered ((p, n) # hs) as1"
proof -
  assume "covered hs as" and a: "mset as1 = add_mset (p, m) (mset as)" "n \<le> m"
  then obtain as' where "mset as' = mset as" "list_all2 (\<lambda>(p, n) (q, m). p = q \<and> n \<le> m) hs as'" by (auto simp: covered_def)
  then show ?thesis using a unfolding covered_def by (intro exI [of _ "(p, m) # as'"]) simp
qed

lemma covered_remove:
  assumes "covered hs as" and "(p, n) \<in> set hs" and "distinct (map fst as)"
  obtains m where "(p, m) \<in> set as" "n \<le> m" "\<And>as1. mset as = add_mset (p, m) (mset as1) \<Longrightarrow> covered (remove1 (p, n) hs) as1"
proof -
  obtain as' where as': "mset as' = mset as" "list_all2 (\<lambda>(p, n) (q, m). p = q \<and> n \<le> m) hs as'" using assms(1) by (auto simp: covered_def)
  obtain h1 h2 where h: "hs = h1 @ (p, n) # h2" "(p, n) \<notin> set h1" using split_list_first [OF assms(2)] by blast
  obtain a1 m a2 where a: "as' = a1 @ (p, m) # a2" "n \<le> m" "list_all2 (\<lambda>(p, n) (q, m). p = q \<and> n \<le> m) h1 a1" "list_all2 (\<lambda>(p, n) (q, m). p = q \<and> n \<le> m) h2 a2"
    using as'(2) unfolding h(1) list_all2_append1 list_all2_Cons1 by auto
  have "covered (remove1 (p, n) hs) as1" if "mset as = add_mset (p, m) (mset as1)" for as1
  proof -
    have "mset (a1 @ a2) = mset as1" using that as'(1) a(1) by simp
    moreover have "remove1 (p, n) hs = h1 @ h2" using h by (simp add: remove1_append)
    ultimately show ?thesis unfolding covered_def using list_all2_appendI [OF a(3,4)] by metis
  qed
  moreover have "(p, m) \<in> set as" using a(1) as'(1) by (metis in_set_conv_decomp mset_eq_setD)
  ultimately show ?thesis using that a(2) by blast
qed

lemma mset_exchange:
  assumes "add_mset a M = add_mset b M'" and "a \<in># M'"
  shows "M = add_mset b (M' - {#a#})"
proof -
  obtain N where N: "M' = add_mset a N" using multi_member_split [OF assms(2)] by blast
  then show ?thesis using assms(1) by (simp add: add_mset_commute [of b a])
qed

lemma heap_step_inv:
  assumes "heap_step c c'" and "hconf_inv c"
  shows "hconf_inv c'"
proof -
  obtain bs where i: "heap_inv bs (hp c)" and cv: "covered (held c) (allocs HEAP_START_VADDR bs)" using assms(2) by (auto simp: hconf_inv_def)
  note take = covered_remove [OF cv _ allocs_distinct]
  show ?thesis using assms(1)
  proof (cases rule: heap_step.cases)
    case (hs_malloc sz p s')
    consider bs' m where "p \<noteq> 0" "sz \<le> m" "heap_inv bs' s'" "gains bs bs' p m" | "p = 0" "heap_inv bs s'"
      using kmalloc_spec [OF i hs_malloc(2,3)] hs_malloc(4) by auto
    then show ?thesis using cv covered_add [OF cv gains_mset] hs_malloc(1) by cases (auto simp: hconf_inv_def)
  next
    case (hs_free p n s')
    obtain m where m: "(p, m) \<in> set (allocs HEAP_START_VADDR bs)" "\<And>as1. mset (allocs HEAP_START_VADDR bs) = add_mset (p, m) (mset as1) \<Longrightarrow> covered (remove1 (p, n) (held c)) as1"
      using take [of p n] hs_free(2) by blast
    obtain bs' where "heap_inv bs' s'" "gains bs' bs p m" using kfree_spec [OF i m(1)] hs_free(3) by auto
    then show ?thesis using m(2) [OF gains_mset] hs_free(1) by (auto simp: hconf_inv_def)
  next
    case (hs_realloc p n new q s')
    obtain m where m: "(p, m) \<in> set (allocs HEAP_START_VADDR bs)" "\<And>as1. mset (allocs HEAP_START_VADDR bs) = add_mset (p, m) (mset as1) \<Longrightarrow> covered (remove1 (p, n) (held c)) as1"
      using take [of p n] hs_realloc(2) by blast
    consider bs1 bs' k where "q \<noteq> 0" "new \<le> k" "heap_inv bs' s'" "gains bs bs1 q k" "gains bs' bs1 p m" | "q = 0" "heap_inv bs s'"
      using krealloc_spec [OF i m(1) hs_realloc(3,4), of n] hs_realloc(5) by auto
    then show ?thesis
    proof cases
      case A: 1
      have q: "(q, k) \<in># mset (allocs HEAP_START_VADDR bs')"
        using gains_mset [OF A(4)] gains_mset [OF A(5)] gains_fresh [OF A(4) m(1)] by (metis add_eq_conv_diff insert_noteq_member less_irrefl multi_member_this not_add_less1 prod.inject)
      have "mset (allocs HEAP_START_VADDR bs) = add_mset (p, m) (mset (allocs HEAP_START_VADDR bs') - {#(q, k)#})"
        using gains_mset [OF A(4)] gains_mset [OF A(5)] q by (intro mset_exchange) simp_all
      then have "covered (remove1 (p, n) (held c)) (remove1 (q, k) (allocs HEAP_START_VADDR bs'))" by (intro m(2)) simp
      then have "covered ((q, new) # remove1 (p, n) (held c)) (allocs HEAP_START_VADDR bs')"
        by (rule covered_add [OF _ _ A(2)]) (use q in simp)
      then show ?thesis using A hs_realloc(1) by (auto simp: hconf_inv_def)
    next
      case 2
      then show ?thesis using cv hs_realloc(1) by (auto simp: hconf_inv_def)
    qed
  next
    case (hs_write p n a b)
    then show ?thesis using i cv by (auto simp: hconf_inv_def)
  qed
qed

section \<open>Properties\<close>

text \<open>The heap before its first use; \<open>v\<close> says which pages can be mapped.\<close>

definition boot_heap :: "bool list \<Rightarrow> heap" where
  "boot_heap v = init_heap \<lparr>heap_head = 0, heap_end = HEAP_START_VADDR, hdrs = (\<lambda>_. None), vmap = {}, vm = v, payload = (\<lambda>_. 0)\<rparr>"

lemma boot_heap_inv: "length v \<le> 2 ^ 34 \<Longrightarrow> heap_inv [] (boot_heap v)"
  by (simp add: heap_inv_def boot_heap_def init_heap_def HEAP_START_VADDR_def HEAP_LIMIT_def)

lemma heap_reach_inv:
  "heap_step\<^sup>*\<^sup>* \<lparr>held = [], hp = boot_heap v\<rparr> c \<Longrightarrow> length v \<le> 2 ^ 34 \<Longrightarrow> hconf_inv c"
proof (induction rule: rtranclp_induct)
  case base
  then show ?case using boot_heap_inv [of v] by (auto simp: hconf_inv_def covered_def)
qed (simp add: heap_step_inv)

lemma covered_mem:
  assumes "covered hs as" and "i < length hs" and "hs ! i = (p, n)" and "j < length hs" and "hs ! j = (q, k)" and "i \<noteq> j"
    and "distinct (map fst as)"
  shows "\<exists>m l. (p, m) \<in> set as \<and> (q, l) \<in> set as \<and> n \<le> m \<and> k \<le> l \<and> p \<noteq> q"
proof -
  obtain as' where as': "mset as' = mset as" "list_all2 (\<lambda>(p, n) (q, m). p = q \<and> n \<le> m) hs as'" using assms(1) by (auto simp: covered_def)
  have l: "length as' = length hs" using list_all2_lengthD [OF as'(2)] by simp
  have d: "distinct (map fst as')" using as'(1) assms(7) by (metis mset_eq_imp_distinct_iff mset_map)
  obtain m where m: "as' ! i = (p, m)" "n \<le> m" using list_all2_nthD [OF as'(2) assms(2)] assms(3) by (cases "as' ! i") auto
  obtain u where u: "as' ! j = (q, u)" "k \<le> u" using list_all2_nthD [OF as'(2) assms(4)] assms(5) by (cases "as' ! j") auto
  have "p \<noteq> q"
    using nth_eq_iff_index_eq [OF d, of i j] assms(2,4,6) m(1) u(1) l by auto
  moreover have "set as' = set as" using as'(1) by (rule mset_eq_setD)
  ultimately show ?thesis using m u assms(2,4) l by (metis nth_mem)
qed


text \<open>Two allocations on a heap of one page.\<close>

definition heap1 :: heap where
  "heap1 = \<lparr>heap_head = HEAP_START_VADDR, heap_end = HEAP_START_VADDR + 4096,
     hdrs = [HEAP_START_VADDR + 144 \<mapsto> hdr 3920 True 0, HEAP_START_VADDR \<mapsto> hdr 112 False (HEAP_START_VADDR + 144)],
     vmap = {HEAP_START_VADDR}, vm = [], payload = (\<lambda>_. 0)\<rparr>"

lemma heap1_eq: "kmalloc 100 (boot_heap [True]) = Some (Inr (HEAP_START_VADDR + 32, heap1))"
proof -
  define s1 where "s1 = (boot_heap [True])\<lparr>heap_head := HEAP_START_VADDR, heap_end := HEAP_START_VADDR + 4096, vm := [], vmap := {HEAP_START_VADDR},
    hdrs := [HEAP_START_VADDR \<mapsto> hdr 4064 True 0]\<rparr>"
  have r: "round16 100 = 112" "round16 112 = 112" "pages_needed 112 = Suc 0"
    by (simp_all add: round16_def pages_needed_def HB_SIZE_def u64_def)
  have "expand_heap 112 (boot_heap [True]) = Some (Inr (HEAP_START_VADDR, s1))"
    by (simp add: expand_heap_def r boot_heap_def init_heap_def link_block_def set_hdr_def s1_def HEAP_START_VADDR_def HB_SIZE_def u64_def sub64_id)
  moreover have "find_fit 112 (heap_head (boot_heap [True])) (boot_heap [True]) = Some (Inr 0)"
    by (simp add: boot_heap_def init_heap_def find_fit.simps)
  ultimately have "kmalloc 100 (boot_heap [True]) = kmalloc 112 s1"
    by (simp add: kmalloc.simps [of 100] r HEAP_START_VADDR_def)
  also have "\<dots> = Some (Inr (take_block 112 HEAP_START_VADDR s1))"
    by (simp add: kmalloc.simps [of 112] r s1_def find_fit.simps HEAP_START_VADDR_def)
  also have "take_block 112 HEAP_START_VADDR s1 = (HEAP_START_VADDR + 32, heap1)"
    by (simp add: take_block_def Let_def s1_def heap1_def set_hdr_def HEAP_START_VADDR_def HB_SIZE_def u64_def sub64_id boot_heap_def init_heap_def fun_upd_twist)
  finally show ?thesis .
qed

lemma heap1_step: "heap_step\<^sup>*\<^sup>* \<lparr>held = [], hp = boot_heap [True]\<rparr> \<lparr>held = [(HEAP_START_VADDR + 32, 100)], hp = heap1\<rparr>"
  using hs_malloc [of 100 "\<lparr>held = [], hp = boot_heap [True]\<rparr>", simplified, OF heap1_eq] by (simp add: HEAP_START_VADDR_def r_into_rtranclp)

definition heap2 :: heap where
  "heap2 = heap1\<lparr>hdrs := (hdrs heap1)(HEAP_START_VADDR + 384 \<mapsto> hdr 3680 True 0, HEAP_START_VADDR + 144 \<mapsto> hdr 208 False (HEAP_START_VADDR + 384))\<rparr>"

lemma heap2_eq: "kmalloc 200 heap1 = Some (Inr (HEAP_START_VADDR + 176, heap2))"
proof -
  have r: "round16 200 = 208" by (simp add: round16_def u64_def)
  have "find_fit 208 (heap_head heap1) heap1 = Some (Inr (HEAP_START_VADDR + 144))"
    by (simp add: heap1_def find_fit.simps HEAP_START_VADDR_def)
  then have "kmalloc 200 heap1 = Some (Inr (take_block 208 (HEAP_START_VADDR + 144) heap1))" by (simp add: kmalloc.simps [of 200] r)
  also have "take_block 208 (HEAP_START_VADDR + 144) heap1 = (HEAP_START_VADDR + 176, heap2)"
    by (simp add: take_block_def Let_def heap1_def heap2_def set_hdr_def HEAP_START_VADDR_def HB_SIZE_def u64_def sub64_id fun_upd_twist)
  finally show ?thesis .
qed

lemma heap2_step:
  "heap_step\<^sup>*\<^sup>* \<lparr>held = [], hp = boot_heap [True]\<rparr> \<lparr>held = [(HEAP_START_VADDR + 176, 200), (HEAP_START_VADDR + 32, 100)], hp = heap2\<rparr>"
  using hs_malloc [of 200 "\<lparr>held = [(HEAP_START_VADDR + 32, 100)], hp = heap1\<rparr>", simplified, OF heap2_eq] heap1_step
  by (simp add: HEAP_START_VADDR_def rtranclp.rtrancl_into_rtrancl)


text \<open>C38 (functional). Resizing keeps the contents.  For an allocated region the call returns.  If it fails, the region is still
  allocated and nothing has changed.  Otherwise the new region holds the first bytes of the old one, as many as both
  sizes allow, it takes the place of the old region among the allocated ones, and no other allocated region has changed.\<close>

theorem krealloc_keeps_contents:
  assumes "heap_inv bs s" and "(p, n) \<in> set (allocs HEAP_START_VADDR bs)" and "old \<le> n" and "0 < new" and "new \<le> 2 ^ 64 - 48"
  shows "\<exists>q s' bs'. krealloc p old new s = Some (Inr (q, s')) \<and> heap_inv bs' s'
    \<and> (q = 0 \<longrightarrow> bs' = bs \<and> payload s' = payload s)
    \<and> (q \<noteq> 0 \<longrightarrow> (\<exists>m \<ge> new. set (allocs HEAP_START_VADDR bs') = insert (q, m) (set (allocs HEAP_START_VADDR bs) - {(p, n)}))
         \<and> (\<forall>i < min old new. payload s' (q + i) = payload s (p + i))
         \<and> (\<forall>(r, k) \<in> set (allocs HEAP_START_VADDR bs). \<forall>a. r \<le> a \<and> a < r + k \<longrightarrow> payload s' a = payload s a))"
  using krealloc_spec [OF assms(1,2,4,5), of old]
proof (elim disjE exE conjE)
  fix q s' bs1 bs' m
  assume r: "krealloc p old new s = Some (Inr (q, s'))" "q \<noteq> 0" "new \<le> m" "heap_inv bs' s'" "gains bs bs1 q m" "gains bs' bs1 p n"
    "payload s' = payload (kmemcpy q p (min old new) s)"
  have fresh: "q + m < r \<or> r + k < q" if "(r, k) \<in> set (allocs HEAP_START_VADDR bs)" for r k by (rule gains_fresh [OF r(5) that])
  have "(p, n) \<notin> set (allocs HEAP_START_VADDR bs')" using gains_fresh [OF r(6), of p n] by auto
  then have "set (allocs HEAP_START_VADDR bs') = insert (q, m) (set (allocs HEAP_START_VADDR bs) - {(p, n)})"
    using gains_set [OF r(5)] gains_set [OF r(6)] fresh [OF assms(2)] by auto
  moreover have "payload s' a = payload s a" if "(r, k) \<in> set (allocs HEAP_START_VADDR bs)" "r \<le> a" "a < r + k" for r k a
    using fresh [OF that(1)] that(2,3) r(3,7) by (auto simp: kmemcpy_def)
  moreover have "payload s' (q + i) = payload s (p + i)" if "i < min old new" for i using that r(7) by (simp add: kmemcpy_def)
  ultimately show ?thesis using r(1-4) by (intro exI [of _ q] exI [of _ s'] exI [of _ bs']) auto
qed blast

theorem krealloc_keeps_contents_witness:
  "\<exists>q s'. krealloc (HEAP_START_VADDR + 32) 100 50 heap1 = Some (Inr (q, s')) \<and> heap_inv [(112, False), (3920, True)] heap1"
proof -
  have i: "heap_inv [(112, False), (3920, True)] heap1"
    by (auto simp: heap_inv_def heap1_def HEAP_START_VADDR_def HEAP_LIMIT_def)
  show ?thesis using krealloc_keeps_contents [OF i, of "HEAP_START_VADDR + 32" 112 100 50] i by fastforce
qed

text \<open>Sizes within 32 bytes of the largest wrap around: nothing is mapped, and the header is written to an unmapped address.\<close>

lemma kmalloc_size_wraps: "pages_needed (round16 (2 ^ 64 - 32)) = 0"
  by (simp add: pages_needed_def round16_def u64_def HB_SIZE_def)

end
