(* ===== verification/Wait.thy ===== *)
theory Wait
  imports Sched
begin

text \<open>
  Wait queues, \<^verbatim>\<open>kernel/sync/wait.c\<close>, and the mutexes, semaphores and condition variables over them, \<^verbatim>\<open>kernel/sync/sync.c\<close>.

  Every operation here is what happens between taking and dropping the spinlock of one wait queue.  A task that has to
  wait leaves its operation in the middle: \<open>wait_block_enter\<close> is the part up to the point where the task parks and
  \<open>wait_block_leave\<close> the part after it was woken and has the lock again.
\<close>

section \<open>Wait queues\<close>

definition WAIT_QUEUE_CAPACITY :: nat where "WAIT_QUEUE_CAPACITY = MAX_TASKS"

type_synonym wait_queue = "nat list"

definition wait_queue_init :: wait_queue where
  "wait_queue_init = []"

definition wait_enqueue :: "nat \<Rightarrow> wait_queue \<Rightarrow> bool \<times> wait_queue" where
  "wait_enqueue t wq = (if length wq \<ge> WAIT_QUEUE_CAPACITY then (False, wq) else (True, wq @ [t]))"

definition wait_dequeue :: "wait_queue \<Rightarrow> nat option \<times> wait_queue" where
  "wait_dequeue wq = (case wq of [] \<Rightarrow> (None, []) | t # rest \<Rightarrow> (Some t, rest))"

definition wait_remove :: "nat \<Rightarrow> wait_queue \<Rightarrow> bool \<times> wait_queue" where
  "wait_remove t wq = (t \<in> set wq, remove1 t wq)"

text \<open>How the attempt to wait ends: the lock is still held and the caller looks again, the task was told to die, or it parks.\<close>

datatype block_result = StillLocked | KilledBeforePark nat | Parks nat

definition wait_block_enter :: "nat \<Rightarrow> wait_queue \<Rightarrow> sched \<Rightarrow> block_result \<times> wait_queue \<times> sched" where
  "wait_block_enter cpu wq s =
     (case block_prepare cpu TASK_BLOCKED s of
        (None, s1) \<Rightarrow> (StillLocked, wq, s1)
      | (Some self, s1) \<Rightarrow>
          (case wait_enqueue self wq of
             (False, wq1) \<Rightarrow> (StillLocked, wq1, unblock_task self s1)
           | (True, wq1) \<Rightarrow>
               if tk_kill_pending (tasks s1 self) then (KilledBeforePark self, snd (wait_remove self wq1), s1)
               else (Parks self, wq1, s1)))"

text \<open>The caller that reports the kill itself goes on running.\<close>

definition wait_block_enter_killable :: "nat \<Rightarrow> wait_queue \<Rightarrow> sched \<Rightarrow> block_result \<times> wait_queue \<times> sched" where
  "wait_block_enter_killable cpu wq s =
     (case wait_block_enter cpu wq s of
        (KilledBeforePark self, wq1, s1) \<Rightarrow> (KilledBeforePark self, wq1, unblock_task self s1)
      | r \<Rightarrow> r)"

definition wait_block_leave :: "nat \<Rightarrow> wait_queue \<Rightarrow> sched \<Rightarrow> bool \<times> wait_queue" where
  "wait_block_leave self wq s =
     (if tk_kill_pending (tasks s self) then (True, snd (wait_remove self wq)) else (False, wq))"

definition wait_wake_one :: "wait_queue \<Rightarrow> sched \<Rightarrow> wait_queue \<times> sched" where
  "wait_wake_one wq s = (case wait_dequeue wq of (None, wq1) \<Rightarrow> (wq1, s) | (Some t, wq1) \<Rightarrow> (wq1, unblock_task t s))"

fun wait_wake_all :: "wait_queue \<Rightarrow> sched \<Rightarrow> wait_queue \<times> sched" where
  "wait_wake_all [] s = ([], s)"
| "wait_wake_all (t # wq) s = wait_wake_all wq (unblock_task t s)"

definition wait_abort :: "nat \<Rightarrow> wait_queue \<Rightarrow> sched \<Rightarrow> wait_queue \<times> sched" where
  "wait_abort t wq s = (snd (wait_remove t wq), unblock_task t s)"

section \<open>Objects\<close>

text \<open>One pass of a waiting loop: the object was acquired, or the task parks, or it dies, or the loop goes round again
  with the lock still held.\<close>

datatype pass = Acquired | Waits nat | Dies nat | Again

definition pass_of :: "block_result \<Rightarrow> pass" where
  "pass_of r = (case r of StillLocked \<Rightarrow> Again | KilledBeforePark t \<Rightarrow> Dies t | Parks t \<Rightarrow> Waits t)"

subsection \<open>Mutexes\<close>

record mutex =
  m_wq :: wait_queue
  m_owner :: "nat option"
  m_locked :: bool

definition mutex_init :: mutex where
  "mutex_init = \<lparr>m_wq = wait_queue_init, m_owner = None, m_locked = False\<rparr>"

definition mutex_lock :: "nat \<Rightarrow> mutex \<Rightarrow> sched \<Rightarrow> pass \<times> mutex \<times> sched" where
  "mutex_lock cpu m s =
     (if m_locked m then
        (case wait_block_enter cpu (m_wq m) s of (r, wq, s1) \<Rightarrow> (pass_of r, m\<lparr>m_wq := wq\<rparr>, s1))
      else (Acquired, m\<lparr>m_locked := True, m_owner := smp_current_task_id cpu s\<rparr>, s))"

definition mutex_lock_woken :: "nat \<Rightarrow> nat \<Rightarrow> mutex \<Rightarrow> sched \<Rightarrow> pass \<times> mutex \<times> sched" where
  "mutex_lock_woken cpu self m s =
     (case wait_block_leave self (m_wq m) s of
        (True, wq) \<Rightarrow> (Dies self, m\<lparr>m_wq := wq\<rparr>, s)
      | (False, wq) \<Rightarrow> mutex_lock cpu (m\<lparr>m_wq := wq\<rparr>) s)"

definition mutex_trylock :: "nat \<Rightarrow> mutex \<Rightarrow> sched \<Rightarrow> bool \<times> mutex" where
  "mutex_trylock cpu m s =
     (if \<not> m_locked m then (True, m\<lparr>m_locked := True, m_owner := smp_current_task_id cpu s\<rparr>) else (False, m))"

definition mutex_unlock :: "mutex \<Rightarrow> sched \<Rightarrow> mutex \<times> sched" where
  "mutex_unlock m s =
     (case wait_wake_one (m_wq m) s of (wq, s1) \<Rightarrow> (m\<lparr>m_locked := False, m_owner := None, m_wq := wq\<rparr>, s1))"

subsection \<open>Semaphores\<close>

record semaphore =
  s_wq :: wait_queue
  s_count :: int

definition semaphore_init :: "int \<Rightarrow> semaphore" where
  "semaphore_init n = \<lparr>s_wq = wait_queue_init, s_count = n\<rparr>"

definition semaphore_wait :: "nat \<Rightarrow> semaphore \<Rightarrow> sched \<Rightarrow> pass \<times> semaphore \<times> sched" where
  "semaphore_wait cpu sm s =
     (if s_count sm \<le> 0 then
        (case wait_block_enter cpu (s_wq sm) s of (r, wq, s1) \<Rightarrow> (pass_of r, sm\<lparr>s_wq := wq\<rparr>, s1))
      else (Acquired, sm\<lparr>s_count := s32 (s_count sm - 1)\<rparr>, s))"

definition semaphore_wait_woken :: "nat \<Rightarrow> nat \<Rightarrow> semaphore \<Rightarrow> sched \<Rightarrow> pass \<times> semaphore \<times> sched" where
  "semaphore_wait_woken cpu self sm s =
     (case wait_block_leave self (s_wq sm) s of
        (True, wq) \<Rightarrow> (Dies self, sm\<lparr>s_wq := wq\<rparr>, s)
      | (False, wq) \<Rightarrow> semaphore_wait cpu (sm\<lparr>s_wq := wq\<rparr>) s)"

definition semaphore_trywait :: "semaphore \<Rightarrow> bool \<times> semaphore" where
  "semaphore_trywait sm = (if s_count sm > 0 then (True, sm\<lparr>s_count := s32 (s_count sm - 1)\<rparr>) else (False, sm))"

definition semaphore_post :: "semaphore \<Rightarrow> sched \<Rightarrow> semaphore \<times> sched" where
  "semaphore_post sm s =
     (case wait_wake_one (s_wq sm) s of (wq, s1) \<Rightarrow> (sm\<lparr>s_count := s32 (s_count sm + 1), s_wq := wq\<rparr>, s1))"

subsection \<open>Condition variables\<close>

text \<open>The mutex is released under the lock of the condition variable; afterwards the task locks the mutex again.\<close>

definition condvar_wait :: "nat \<Rightarrow> wait_queue \<Rightarrow> mutex \<Rightarrow> sched \<Rightarrow> pass \<times> wait_queue \<times> mutex \<times> sched" where
  "condvar_wait cpu cv m s =
     (case mutex_unlock m s of
        (m1, s1) \<Rightarrow> (case wait_block_enter cpu cv s1 of (r, cv1, s2) \<Rightarrow> (pass_of r, cv1, m1, s2)))"

definition condvar_wait_woken :: "nat \<Rightarrow> wait_queue \<Rightarrow> sched \<Rightarrow> bool \<times> wait_queue" where
  "condvar_wait_woken self cv s = wait_block_leave self cv s"

definition condvar_signal :: "wait_queue \<Rightarrow> sched \<Rightarrow> wait_queue \<times> sched" where
  "condvar_signal cv s = wait_wake_one cv s"

definition condvar_broadcast :: "wait_queue \<Rightarrow> sched \<Rightarrow> wait_queue \<times> sched" where
  "condvar_broadcast cv s = wait_wake_all cv s"

end
