(* ===== verification/Wait_Inv.thy ===== *)
theory Wait_Inv
  imports Wait Sched_Inv
begin

text \<open>
  Mutexes and semaphores under every interleaving of tasks.  Both are monitors: an object with a number of permits and a
  wait queue.  The interface \<open>monitor\<close> states what their operations promise; the invariant is proved once from it and
  used for both.  The scheduler below is that of \<open>Sched\<close>, with the invariant of \<open>Sched_Inv\<close>: it is what makes a
  woken task runnable.
\<close>

section \<open>The scheduler under a monitor\<close>

definition kill_of :: "sched \<Rightarrow> nat \<Rightarrow> bool" where
  "kill_of s t = tk_kill_pending (tasks s t)"

definition runnable :: "sched \<Rightarrow> nat \<Rightarrow> bool" where
  "runnable s t \<longleftrightarrow> st_of s t = TASK_RUNNING \<or> st_of s t = TASK_READY"

lemma kill_of_set [simp]: "kill_of (set_state t st s) = kill_of s"
  by (simp add: fun_eq_iff kill_of_def set_state_def upd_task_def)

lemma kill_of_runq [simp]: "kill_of (set_runq c es s) = kill_of s"
  by (simp add: fun_eq_iff kill_of_def)

lemma kill_of_upd: "tk_kill_pending (f (tasks s t)) = tk_kill_pending (tasks s t) \<Longrightarrow> kill_of (upd_task t f s) = kill_of s"
  by (simp add: fun_eq_iff kill_of_def upd_task_def)

text \<open>Waking a blocked task makes it runnable, on its CPU or on a run queue, which has room for it.\<close>

lemma unblock_blocked:
  assumes inv: "sched_inv X F s" and b: "st_of s t = TASK_BLOCKED"
  shows "sched_inv X F (unblock_task t s) \<and> runnable (unblock_task t s) t \<and> (\<forall>u. u \<noteq> t \<longrightarrow> st_of (unblock_task t s) u = st_of s u)
    \<and> kill_of (unblock_task t s) = kill_of s"
proof -
  note i = sched_invD [OF inv]
  have "t < task_count s" using cpu_okD(8) [OF i(2), of t] b by (cases "t < task_count s") simp_all
  then have t: "t < MAX_TASKS" using cpu_okD(7) [OF i(2)] by simp
  define s1 where "s1 = upd_task t (\<lambda>k. k\<lparr>tk_wake_at := 0\<rparr>) s"
  have s1: "st_of s1 = st_of s" "kill_of s1 = kill_of s" by (simp_all add: s1_def st_of_upd_same) (simp add: fun_eq_iff kill_of_def upd_task_def)
  have u: "unblock_locked t s = (if on_cpu t s1 \<noteq> None then (False, set_state t TASK_RUNNING s1) else (True, set_state t TASK_READY s1))"
    using t b by (simp add: unblock_locked_def Let_def s1_def)
  show ?thesis
  proof (cases "on_cpu t s1 = None")
    case False
    then show ?thesis using inv_unblock_locked [OF inv, of t False "set_state t TASK_RUNNING s1"] s1 u by (simp add: unblock_task_def runnable_def)
  next
    case True
    let ?r = "set_state t TASK_READY s1"
    have r: "sched_inv (add_mset t X) F ?r" using inv_unblock_locked [OF inv, of t True ?r] u True by simp
    have "t \<notin># X" using placed_in_hand [OF sched_invD(1) [OF r]] by simp
    then have tF: "t \<notin> F" using i(4) by blast
    obtain ok s2 where p: "runq_push (pick_target_cpu ?r) t ?r = (ok, s2)" using prod.exhaust by blast
    have ok: ok and inv2: "sched_inv X F s2" using inv_push [OF r tF p] by simp_all
    have s2: "st_of s2 = st_of ?r" "kill_of s2 = kill_of ?r"
      using p ok by (auto simp: runq_push_def st_of_upd_same kill_of_upd split: if_splits)
    have "unblock_task t s = s2" using u True p ok by (simp add: unblock_task_def unblock_enqueue_def)
    then show ?thesis using inv2 s2 s1 by (simp add: runnable_def)
  qed
qed

section \<open>Monitors\<close>

lemma card_minus_one: "card (A - B) \<le> card (A - {t} - B) + 1"
proof -
  have "A - {t} - B = (A - B) - {t}" by blast
  then show ?thesis using diff_card_le_card_Diff [of "{t}" "A - B"] by simp
qed

text \<open>A system with one monitor: the object, the scheduler, the tasks inside the waiting loop, the holders of a permit, and the
  number of permits added from outside.\<close>

record 'o mon_ops =
  o_lock :: "nat \<Rightarrow> 'o \<Rightarrow> sched \<Rightarrow> pass \<times> 'o \<times> sched"
  o_woken :: "nat \<Rightarrow> nat \<Rightarrow> 'o \<Rightarrow> sched \<Rightarrow> pass \<times> 'o \<times> sched"
  o_try :: "nat \<Rightarrow> 'o \<Rightarrow> sched \<Rightarrow> bool \<times> 'o"
  o_give :: "'o \<Rightarrow> sched \<Rightarrow> 'o \<times> sched"
  o_room :: "'o \<Rightarrow> bool"
  o_ext :: bool

record 'o mon =
  obj :: 'o
  sd :: sched
  waiting :: "nat set"
  holders :: "nat list"
  posts :: nat

text \<open>What the rest of the kernel may do meanwhile: it keeps the scheduler consistent, wakes no waiter and kills none,
  and a waiter that has been woken stays runnable.\<close>

definition env_ok :: "nat set \<Rightarrow> sched \<Rightarrow> sched \<Rightarrow> bool" where
  "env_ok W s s' \<longleftrightarrow> (\<exists>X F. sched_inv X F s')
     \<and> (\<forall>t \<in> W. (if st_of s t = TASK_BLOCKED then st_of s' t = TASK_BLOCKED else runnable s' t) \<and> \<not> kill_of s' t)"

definition after_pass :: "nat \<Rightarrow> pass \<Rightarrow> 'o \<Rightarrow> sched \<Rightarrow> 'o mon \<Rightarrow> 'o mon" where
  "after_pass t r x s m = m\<lparr>obj := x, sd := s, holders := (if r = Acquired then t # holders m else holders m),
     waiting := (if r = Waits t then insert t (waiting m) else waiting m - {t})\<rparr>"

inductive mon_step :: "'o mon_ops \<Rightarrow> 'o mon \<Rightarrow> 'o mon \<Rightarrow> bool" for ops where
  mn_lock: "\<lbrakk>cpu_cur (sd m) c = Some t; st_of (sd m) t = TASK_RUNNING; t \<notin> waiting m; \<not> kill_of (sd m) t; o_lock ops c (obj m) (sd m) = (r, x, s)\<rbrakk>
    \<Longrightarrow> mon_step ops m (after_pass t r x s m)"
| mn_woken: "\<lbrakk>cpu_cur (sd m) c = Some t; st_of (sd m) t = TASK_RUNNING; t \<in> waiting m; o_woken ops c t (obj m) (sd m) = (r, x, s)\<rbrakk>
    \<Longrightarrow> mon_step ops m (after_pass t r x s m)"
| mn_try: "\<lbrakk>cpu_cur (sd m) c = Some t; t \<notin> waiting m; o_try ops c (obj m) (sd m) = (ok, x)\<rbrakk>
    \<Longrightarrow> mon_step ops m (m\<lparr>obj := x, holders := (if ok then t # holders m else holders m)\<rparr>)"
| mn_give: "\<lbrakk>t \<in> set (holders m); o_room ops (obj m); o_give ops (obj m) (sd m) = (x, s)\<rbrakk>
    \<Longrightarrow> mon_step ops m (m\<lparr>obj := x, sd := s, holders := remove1 t (holders m)\<rparr>)"
| mn_post: "\<lbrakk>o_ext ops; o_room ops (obj m); o_give ops (obj m) (sd m) = (x, s)\<rbrakk>
    \<Longrightarrow> mon_step ops m (m\<lparr>obj := x, sd := s, posts := posts m + 1\<rparr>)"
| mn_env: "env_ok (waiting m) (sd m) s \<Longrightarrow> mon_step ops m (m\<lparr>sd := s\<rparr>)"

text \<open>What the operations of a monitor promise.  \<open>avail\<close> is the number of permits that can be taken, \<open>cap\<close> bounds them.\<close>

locale monitor =
  fixes wq_of :: "'o \<Rightarrow> nat list" and avail :: "'o \<Rightarrow> int" and cap :: int and ops :: "'o mon_ops"
  assumes lock_free: "0 < avail x \<Longrightarrow> avail x \<le> cap \<Longrightarrow> \<exists>x'. o_lock ops c x s = (Acquired, x', s) \<and> avail x' = avail x - 1 \<and> wq_of x' = wq_of x"
    and lock_busy: "avail x \<le> 0 \<Longrightarrow> wait_block_enter c (wq_of x) s = (r, wq, s')
      \<Longrightarrow> \<exists>x'. o_lock ops c x s = (pass_of r, x', s') \<and> avail x' = avail x \<and> wq_of x' = wq"
    and woken: "\<not> kill_of s t \<Longrightarrow> o_woken ops c t x s = o_lock ops c x s"
    and try_free: "0 < avail x \<Longrightarrow> avail x \<le> cap \<Longrightarrow> \<exists>x'. o_try ops c x s = (True, x') \<and> avail x' = avail x - 1 \<and> wq_of x' = wq_of x"
    and try_busy: "avail x \<le> 0 \<Longrightarrow> o_try ops c x s = (False, x)"
    and give: "0 \<le> avail x \<Longrightarrow> o_room ops x \<Longrightarrow> wait_wake_one (wq_of x) s = (wq, s')
      \<Longrightarrow> \<exists>x'. o_give ops x s = (x', s') \<and> avail x' = avail x + 1 \<and> wq_of x' = wq"
    and room_cap: "o_room ops x \<Longrightarrow> avail x < cap"
begin

definition mon_inv :: "int \<Rightarrow> 'o mon \<Rightarrow> bool" where
  "mon_inv n m \<longleftrightarrow>
     0 \<le> avail (obj m) \<and> avail (obj m) \<le> cap \<and> avail (obj m) + int (length (holders m)) = n + int (posts m) \<and> (\<not> o_ext ops \<longrightarrow> posts m = 0)
     \<and> distinct (wq_of (obj m)) \<and> set (wq_of (obj m)) \<subseteq> waiting m \<and> waiting m \<subseteq> {..<MAX_TASKS}
     \<and> (\<forall>t \<in> waiting m. (if t \<in> set (wq_of (obj m)) then st_of (sd m) t = TASK_BLOCKED else runnable (sd m) t) \<and> \<not> kill_of (sd m) t)
     \<and> (wq_of (obj m) \<noteq> [] \<longrightarrow> avail (obj m) \<le> int (card (waiting m - set (wq_of (obj m)))))
     \<and> (\<exists>X F. sched_inv X F (sd m))"

lemma mon_invD:
  assumes "mon_inv n m"
  shows "0 \<le> avail (obj m)" "avail (obj m) \<le> cap" "avail (obj m) + int (length (holders m)) = n + int (posts m)" "\<not> o_ext ops \<longrightarrow> posts m = 0"
    "distinct (wq_of (obj m))" "set (wq_of (obj m)) \<subseteq> waiting m" "waiting m \<subseteq> {..<MAX_TASKS}"
    "t \<in> set (wq_of (obj m)) \<Longrightarrow> st_of (sd m) t = TASK_BLOCKED" "t \<in> waiting m \<Longrightarrow> t \<notin> set (wq_of (obj m)) \<Longrightarrow> runnable (sd m) t"
    "t \<in> waiting m \<Longrightarrow> \<not> kill_of (sd m) t"
    "wq_of (obj m) \<noteq> [] \<Longrightarrow> avail (obj m) \<le> int (card (waiting m - set (wq_of (obj m))))" "\<exists>X F. sched_inv X F (sd m)"
  using assms by (auto simp: mon_inv_def split: if_splits)

lemma mon_invI:
  assumes "0 \<le> avail (obj m)" "avail (obj m) \<le> cap" "avail (obj m) + int (length (holders m)) = n + int (posts m)" "\<not> o_ext ops \<longrightarrow> posts m = 0"
    "distinct (wq_of (obj m))" "set (wq_of (obj m)) \<subseteq> waiting m" "waiting m \<subseteq> {..<MAX_TASKS}"
    "\<And>t. t \<in> set (wq_of (obj m)) \<Longrightarrow> st_of (sd m) t = TASK_BLOCKED" "\<And>t. t \<in> waiting m \<Longrightarrow> t \<notin> set (wq_of (obj m)) \<Longrightarrow> runnable (sd m) t"
    "\<And>t. t \<in> waiting m \<Longrightarrow> \<not> kill_of (sd m) t"
    "wq_of (obj m) \<noteq> [] \<Longrightarrow> avail (obj m) \<le> int (card (waiting m - set (wq_of (obj m))))" "sched_inv X F (sd m)"
  shows "mon_inv n m"
  unfolding mon_inv_def using assms by auto

text \<open>Giving a permit: the head of the queue, if there is one, becomes a woken waiter.\<close>

lemma give_step:
  assumes inv: "mon_inv n m" and room: "o_room ops (obj m)" and r: "o_give ops (obj m) (sd m) = (x, s)"
    and c: "int (length hs) = int (length (holders m)) - 1 \<and> p = posts m \<or> hs = holders m \<and> p = posts m + 1 \<and> o_ext ops"
  shows "mon_inv n (m\<lparr>obj := x, sd := s, holders := hs, posts := p\<rparr>)"
proof -
  note d = mon_invD [OF inv]
  obtain X F where si: "sched_inv X F (sd m)" using d(12) by blast
  obtain wq s1 where w: "wait_wake_one (wq_of (obj m)) (sd m) = (wq, s1)" by (cases "wait_wake_one (wq_of (obj m)) (sd m)")
  have x: "s = s1" "avail x = avail (obj m) + 1" "wq_of x = wq" using give [OF d(1) room w] r by auto
  have av: "avail x + int (length hs) = n + int p" "0 \<le> avail x" "avail x \<le> cap" "\<not> o_ext ops \<longrightarrow> p = 0"
    using d(1,3,4) x(2) c room_cap [OF room] by auto
  have fin: "finite (waiting m)" using d(7) finite_subset by blast
  show ?thesis
  proof (cases "wq_of (obj m)")
    case Nil
    then have "wq = []" "s = sd m" using w x(1) by (simp_all add: wait_wake_one_def wait_dequeue_def)
    then show ?thesis using av d(7,9,10) si x(3) Nil by (intro mon_invI [of _ n X F]) simp_all
  next
    case (Cons t rest)
    then have wq: "wq = rest" and s: "s = unblock_task t (sd m)" using w x(1) by (simp_all add: wait_wake_one_def wait_dequeue_def)
    have u: "sched_inv X F s" "runnable s t" "\<And>v. v \<noteq> t \<Longrightarrow> st_of s v = st_of (sd m) v" "kill_of s = kill_of (sd m)"
      using unblock_blocked [OF si d(8) [of t]] Cons s by simp_all
    have eq: "waiting m - set rest = insert t (waiting m - set (wq_of (obj m)))" using d(5,6) Cons by auto
    have "t \<notin> waiting m - set (wq_of (obj m))" using Cons by simp
    then have card: "card (waiting m - set rest) = card (waiting m - set (wq_of (obj m))) + 1"
      unfolding eq using fin by (subst card_insert_disjoint) simp_all
    have "runnable s v" if "v \<in> waiting m" "v \<notin> set rest" for v
      using u(2,3) d(9) [OF that(1)] that(2) Cons by (cases "v = t") (simp_all add: runnable_def)
    moreover have "st_of s v = TASK_BLOCKED" if "v \<in> set rest" for v using u(3) [of v] d(5) d(8) [of v] that Cons by auto
    moreover have "distinct rest" "set rest \<subseteq> waiting m" using d(5,6) Cons by simp_all
    moreover have "wq_of (obj m) \<noteq> []" using Cons by simp
    then have "avail x \<le> int (card (waiting m - set rest))" using d(11) x(2) card by simp
    ultimately show ?thesis using av d(7,10) x(3) u(1,4) wq by (intro mon_invI [of _ n X F]) simp_all
  qed
qed

text \<open>One pass of the waiting loop, of a newcomer or of a woken waiter.\<close>

lemma pass_step:
  assumes inv: "mon_inv n m" and c: "cpu_cur (sd m) c = Some t" "st_of (sd m) t = TASK_RUNNING" and k: "\<not> kill_of (sd m) t"
    and r: "o_lock ops c (obj m) (sd m) = (r, x, s)"
  shows "mon_inv n (after_pass t r x s m)"
proof -
  note d = mon_invD [OF inv]
  obtain X F where si: "sched_inv X F (sd m)" using d(12) by blast
  note ok = sched_invD(2) [OF si]
  have fin: "finite (waiting m)" using d(7) finite_subset by blast
  have nq: "t \<notin> set (wq_of (obj m))" using d(8) [of t] c(2) by auto
  show ?thesis
  proof (cases "0 < avail (obj m)")
    case True
    then have x: "r = Acquired" "s = sd m" "avail x = avail (obj m) - 1" "wq_of x = wq_of (obj m)" using lock_free [OF _ d(2), of c "sd m"] r by auto
    have "avail (obj m) - 1 \<le> int (card (waiting m - {t} - set (wq_of (obj m))))" if "wq_of (obj m) \<noteq> []"
      using d(11) [OF that] card_minus_one [of "waiting m" "set (wq_of (obj m))" t] by linarith
    moreover have "set (wq_of (obj m)) \<subseteq> waiting m - {t}" "waiting m - {t} \<subseteq> {..<MAX_TASKS}" using d(6,7) nq by auto
    ultimately show ?thesis using True d(2,3,4,5,8,9,10) x si by (intro mon_invI [of _ n X F]) (simp_all add: after_pass_def)
  next
    case False
    have "c < SMP_MAX_CPUS" "t < task_count (sd m)" using cpu_okD(1,2) [OF ok c(1)] by simp_all
    then have b: "block_prepare c TASK_BLOCKED (sd m) = (Some t, set_state t TASK_BLOCKED (sd m))" and t: "t < MAX_TASKS"
      using c cpu_okD(7) [OF ok] by (simp_all add: block_prepare_def)
    have "length (wq_of (obj m)) < MAX_TASKS"
    proof -
      have "insert t (set (wq_of (obj m))) \<subseteq> {..<MAX_TASKS}" using d(6,7) t by auto
      then have "card (insert t (set (wq_of (obj m)))) \<le> MAX_TASKS" using card_mono [of "{..<MAX_TASKS}"] by fastforce
      then show ?thesis using nq distinct_card [OF d(5)] by simp
    qed
    then have "wait_block_enter c (wq_of (obj m)) (sd m) = (Parks t, wq_of (obj m) @ [t], set_state t TASK_BLOCKED (sd m))"
      using b k by (simp add: wait_block_enter_def wait_enqueue_def WAIT_QUEUE_CAPACITY_def) (simp add: kill_of_def set_state_def upd_task_def)
    then have x: "r = Waits t" "s = set_state t TASK_BLOCKED (sd m)" "avail x = avail (obj m)" "wq_of x = wq_of (obj m) @ [t]"
      using lock_busy [of "obj m" c "sd m"] False r by (auto simp: pass_of_def)
    have "sched_inv X F s" using inv_block [OF si b] x(2) by simp
    moreover have "runnable s u" if "u \<in> waiting m" "u \<notin> set (wq_of (obj m))" "u \<noteq> t" for u
      using d(9) [OF that(1,2)] that(3) x(2) by (simp add: runnable_def)
    moreover have "set (wq_of (obj m)) \<subseteq> insert t (waiting m)" "avail (obj m) = 0" using d(1,6) False by auto
    ultimately show ?thesis using d(2,3,4,5,7,8,10) x nq t k
      by (intro mon_invI [of _ n X F]) (auto simp: after_pass_def)
  qed
qed

lemma try_step:
  assumes inv: "mon_inv n m" and r: "o_try ops c (obj m) (sd m) = (ok, x)"
  shows "mon_inv n (m\<lparr>obj := x, holders := (if ok then t # holders m else holders m)\<rparr>)"
proof -
  note d = mon_invD [OF inv]
  obtain X F where si: "sched_inv X F (sd m)" using d(12) by blast
  show ?thesis
  proof (cases "0 < avail (obj m)")
    case True
    then have "ok" "avail x = avail (obj m) - 1" "wq_of x = wq_of (obj m)" using try_free [OF _ d(2), of c "sd m"] r by auto
    moreover have "avail (obj m) - 1 \<le> int (card (waiting m - set (wq_of (obj m))))" if "wq_of (obj m) \<noteq> []"
      using d(11) [OF that] by linarith
    ultimately show ?thesis using True d(1-10) si by (intro mon_invI [of _ n X F]) simp_all
  next
    case False
    then have "\<not> ok" "x = obj m" using try_busy [of "obj m" c "sd m"] r by simp_all
    then show ?thesis using d si by (intro mon_invI [of _ n X F]) simp_all
  qed
qed

lemma mon_step_inv:
  assumes "mon_step ops m m'" and inv: "mon_inv n m"
  shows "mon_inv n m'"
  using assms(1)
proof cases
  case (mn_lock c t r x s)
  then show ?thesis using pass_step [OF inv] by simp
next
  case (mn_woken c t r x s)
  then have k: "\<not> kill_of (sd m) t" using mon_invD(10) [OF inv] by simp
  then show ?thesis using pass_step [OF inv] woken [OF k] mn_woken by simp
next
  case (mn_try c t ok x)
  then show ?thesis using try_step [OF inv] by simp
next
  case (mn_give t x s)
  then have "length (holders m) > 0" by auto
  then have "int (length (remove1 t (holders m))) = int (length (holders m)) - 1" using mn_give(2) by (simp add: length_remove1 of_nat_diff Suc_leI)
  then show ?thesis using give_step [OF inv mn_give(3,4), of "remove1 t (holders m)" "posts m"] mn_give(1) by simp
next
  case (mn_post x s)
  then show ?thesis using give_step [OF inv mn_post(3,4), of "holders m" "posts m + 1"] by simp
next
  case (mn_env s)
  note d = mon_invD [OF inv]
  obtain X F where "sched_inv X F s" using mn_env(2) by (auto simp: env_ok_def)
  moreover have "st_of s t = TASK_BLOCKED" if "t \<in> set (wq_of (obj m))" for t
    using mn_env(2) that d(6) d(8) [OF that] by (auto simp: env_ok_def)
  moreover have "runnable s t" if "t \<in> waiting m" "t \<notin> set (wq_of (obj m))" for t
    using mn_env(2) that d(9) [OF that] by (auto simp: env_ok_def runnable_def)
  ultimately show ?thesis using mn_env d by (intro mon_invI [of _ n X F]) (auto simp: env_ok_def)
qed

lemma mon_reach_inv: "(mon_step ops)\<^sup>*\<^sup>* m m' \<Longrightarrow> mon_inv n m \<Longrightarrow> mon_inv n m'"
  by (induction rule: rtranclp_induct) (auto intro: mon_step_inv)

text \<open>No wake-up is lost: while a permit can be taken and tasks are queued, at least as many woken tasks are on their way.\<close>

lemma woken_on_the_way:
  assumes "mon_inv n m" and "wq_of (obj m) \<noteq> []"
  shows "avail (obj m) \<le> int (card {t \<in> waiting m. runnable (sd m) t})"
proof -
  note d = mon_invD [OF assms(1)]
  have "finite {t \<in> waiting m. runnable (sd m) t}" using d(7) finite_subset by fastforce
  then have "card (waiting m - set (wq_of (obj m))) \<le> card {t \<in> waiting m. runnable (sd m) t}" using d(9) by (intro card_mono) auto
  then show ?thesis using d(11) [OF assms(2)] by linarith
qed

end

section \<open>Mutexes and semaphores are monitors\<close>

definition mutex_ops :: "mutex mon_ops" where
  "mutex_ops = \<lparr>o_lock = mutex_lock, o_woken = mutex_lock_woken, o_try = mutex_trylock, o_give = mutex_unlock, o_room = m_locked, o_ext = False\<rparr>"

definition semaphore_ops :: "semaphore mon_ops" where
  "semaphore_ops = \<lparr>o_lock = semaphore_wait, o_woken = semaphore_wait_woken, o_try = (\<lambda>c x s. semaphore_trywait x),
     o_give = semaphore_post, o_room = (\<lambda>x. s_count x < 2147483647), o_ext = True\<rparr>"

definition mutex_avail :: "mutex \<Rightarrow> int" where
  "mutex_avail m = (if m_locked m then 0 else 1)"

interpretation mx: monitor m_wq mutex_avail 1 mutex_ops
  by unfold_locales
    (auto simp: mutex_ops_def mutex_avail_def mutex_lock_def mutex_lock_woken_def mutex_trylock_def mutex_unlock_def
      wait_block_leave_def kill_of_def split: if_splits)

lemma s32_pred: "0 < x \<Longrightarrow> x \<le> 2147483647 \<Longrightarrow> s32 (x - 1) = x - 1"
  by (rule s32_id) simp_all

lemma s32_succ: "0 \<le> x \<Longrightarrow> x < 2147483647 \<Longrightarrow> s32 (x + 1) = x + 1"
  by (rule s32_id) simp_all

interpretation sem: monitor s_wq s_count 2147483647 semaphore_ops
  by unfold_locales
    (auto simp: semaphore_ops_def semaphore_wait_def semaphore_wait_woken_def semaphore_trywait_def semaphore_post_def
      wait_block_leave_def kill_of_def s32_pred s32_succ split: if_splits)

definition mon_start :: "'o \<Rightarrow> sched \<Rightarrow> 'o mon" where
  "mon_start x s = \<lparr>obj = x, sd = s, waiting = {}, holders = [], posts = 0\<rparr>"

text \<open>C23 (safety). Mutexes exclude and lose no wake-up.  Start from any state the scheduler reaches and let tasks lock, try, wait and
  unlock in any order while the scheduler runs.  At most one task holds the mutex, it is locked exactly when one does, and
  the tasks in the wait queue are the waiting tasks that are blocked.  When the mutex is free and the queue is not empty, some waiting task has been
  woken and is runnable.  Waiters are not killed meanwhile.\<close>

theorem mutex_excludes_and_wakes:
  assumes "sched_step\<^sup>*\<^sup>* (boot_conf cpus t0) cf" and "(mon_step mutex_ops)\<^sup>*\<^sup>* (mon_start mutex_init (sc cf)) m"
  shows "length (holders m) \<le> 1 \<and> (m_locked (obj m) \<longleftrightarrow> holders m \<noteq> [])
    \<and> set (m_wq (obj m)) = {t \<in> waiting m. st_of (sd m) t = TASK_BLOCKED}
    \<and> (\<not> m_locked (obj m) \<and> m_wq (obj m) \<noteq> [] \<longrightarrow> (\<exists>t \<in> waiting m. runnable (sd m) t))"
proof -
  have "\<exists>X F. sched_inv X F (sc cf)" using sched_reach_inv [OF assms(1)] by (auto simp: conf_inv_def)
  then have "mx.mon_inv 1 (mon_start mutex_init (sc cf))"
    by (simp add: mx.mon_inv_def mon_start_def mutex_init_def wait_queue_init_def mutex_avail_def)
  then have inv: "mx.mon_inv 1 m" by (rule mx.mon_reach_inv [OF assms(2)])
  note d = mx.mon_invD [OF inv]
  have "posts m = 0" using d(4) by (simp add: mutex_ops_def)
  then have l: "length (holders m) = (if m_locked (obj m) then 1 else 0)" using d(3) by (simp add: mutex_avail_def split: if_splits)
  moreover have "set (m_wq (obj m)) = {t \<in> waiting m. st_of (sd m) t = TASK_BLOCKED}"
    using d(6,8,9) by (fastforce simp: runnable_def)
  moreover have "\<exists>t \<in> waiting m. runnable (sd m) t" if "\<not> m_locked (obj m)" "m_wq (obj m) \<noteq> []"
  proof -
    have "0 < card {t \<in> waiting m. runnable (sd m) t}" using mx.woken_on_the_way [OF inv that(2)] that(1) by (simp add: mutex_avail_def)
    then show ?thesis by (auto simp: card_gt_0_iff)
  qed
  ultimately show ?thesis by (auto split: if_splits)
qed

text \<open>Semaphores count.  Under the same conditions, with posts from anywhere, the count is never negative, count plus
  permits held is the initial count plus the posts, and while tasks are queued at least as many woken waiters are runnable as there are permits.\<close>

theorem semaphore_counts_and_wakes:
  assumes "sched_step\<^sup>*\<^sup>* (boot_conf cpus t0) cf" and "0 \<le> n" and "n \<le> 2147483647"
    and "(mon_step semaphore_ops)\<^sup>*\<^sup>* (mon_start (semaphore_init n) (sc cf)) m"
  shows "0 \<le> s_count (obj m) \<and> s_count (obj m) + int (length (holders m)) = n + int (posts m)
    \<and> set (s_wq (obj m)) = {t \<in> waiting m. st_of (sd m) t = TASK_BLOCKED}
    \<and> (s_wq (obj m) \<noteq> [] \<longrightarrow> s_count (obj m) \<le> int (card {t \<in> waiting m. runnable (sd m) t}))"
proof -
  have "\<exists>X F. sched_inv X F (sc cf)" using sched_reach_inv [OF assms(1)] by (auto simp: conf_inv_def)
  then have "sem.mon_inv n (mon_start (semaphore_init n) (sc cf))"
    using assms(2,3) by (simp add: sem.mon_inv_def mon_start_def semaphore_init_def wait_queue_init_def)
  then have inv: "sem.mon_inv n m" by (rule sem.mon_reach_inv [OF assms(4)])
  note d = sem.mon_invD [OF inv]
  have "set (s_wq (obj m)) = {t \<in> waiting m. st_of (sd m) t = TASK_BLOCKED}" using d(6,8,9) by (fastforce simp: runnable_def)
  then show ?thesis using d(1,3) sem.woken_on_the_way [OF inv] by blast
qed

text \<open>The scheduler is such an environment: a switch only exchanges running and ready tasks.\<close>

lemma pop_frame: "pop_or_steal c s = (r, s') \<Longrightarrow> tasks s' = tasks s"
  by (auto simp: pop_or_steal_def steal_task_def runq_pop_def Let_def set_runq_def split: option.splits prod.splits if_splits)

lemma push_frame:
  assumes "runq_push c t s = (ok, s')"
  shows "st_of s' = st_of s" "kill_of s' = kill_of s"
  using assms by (auto simp: runq_push_def st_of_upd_same kill_of_upd split: if_splits)

lemma switch_env: "switch_to c t s = (r, s') \<Longrightarrow> st_of s' = (st_of s)(t := TASK_RUNNING) \<and> kill_of s' = kill_of s"
  by (auto simp: switch_to_def Let_def fun_eq_iff st_of_def kill_of_def set_state_def upd_task_def split: if_splits)

lemma schedule_env:
  assumes inv: "sched_inv X F s" and r: "schedule_on_cpu c frame s = (r, s')" and W: "\<forall>t \<in> W. \<not> kill_of s t \<and> (st_of s t = TASK_BLOCKED \<or> runnable s t)"
  shows "env_ok W s s'"
proof -
  have only: "(st_of s' t = st_of s t \<or> runnable s t \<and> runnable s' t) \<and> kill_of s' t = kill_of s t" for t
  proof (cases "c < SMP_MAX_CPUS \<and> frame \<noteq> 0")
    case False
    then show ?thesis using r by (auto simp: schedule_on_cpu_def not_less)
  next
    case True
    then have c: "c < SMP_MAX_CPUS" "frame \<noteq> 0" by simp_all
    note ok = sched_invD(2) [OF inv]
    obtain q s2 where q: "pop_or_steal c s = (q, s2)" by (cases "pop_or_steal c s")
    have st2: "st_of s2 = st_of s" "kill_of s2 = kill_of s" using pop_frame [OF q] by (simp_all add: fun_eq_iff st_of_def kill_of_def)
    have next_ready: "st_of s u = TASK_READY" if "q = Some u" for u using popped_not_stale(2) [OF inv] q that by simp
    show ?thesis
    proof (cases "cpu_cur s c")
      case None
      then show ?thesis using r q st2 next_ready
        by (auto simp: schedule_idle [OF ok c] runnable_def dest!: switch_env split: option.splits if_splits)
    next
      case (Some cur)
      show ?thesis
      proof (cases "st_of s cur = TASK_RUNNING")
        case True
        let ?u = "upd_task cur (\<lambda>k. k\<lparr>tk_rsp := frame, tk_state := TASK_READY\<rparr>) s2"
        have u: "st_of ?u = (st_of s)(cur := TASK_READY)" "kill_of ?u = kill_of s"
          using st2 by (simp_all add: fun_eq_iff st_of_upd kill_of_upd)
        obtain ok4 s4 where p: "runq_push c cur ?u = (ok4, s4)" by (cases "runq_push c cur ?u")
        note f = push_frame [OF p]
        show ?thesis
        proof (cases q)
          case None
          then show ?thesis using r q st2 by (simp add: schedule_running [OF ok c Some True])
        next
          case (Some v)
          obtain ok5 s5 where p5: "runq_push c v (set_state cur TASK_RUNNING s4) = (ok5, s5)" by (cases "runq_push c v (set_state cur TASK_RUNNING s4)")
          obtain r6 s6 where s6: "switch_to c v s4 = (r6, s6)" by (cases "switch_to c v s4")
          have e: "s' = s2 \<or> ok4 \<and> s' = s6 \<or> \<not> ok4 \<and> s' = s5"
            using r q p p5 s6 Some by (cases ok4) (auto simp: schedule_running [OF ok c \<open>cpu_cur s c = Some cur\<close> True] split: if_splits)
          then show ?thesis using st2 u f push_frame [OF p5] switch_env [OF s6] next_ready [OF Some] True by (auto simp: runnable_def split: if_splits)
        qed
      next
        case False
        then show ?thesis using r q st2 next_ready
          by (auto simp: schedule_blocked [OF ok c Some] runnable_def st_of_upd_same kill_of_upd dest!: switch_env split: option.splits if_splits)
      qed
    qed
  qed
  have "runnable s' t" if "runnable s t" for t using only [of t] that by (auto simp: runnable_def)
  moreover have "st_of s' t = TASK_BLOCKED" if "st_of s t = TASK_BLOCKED" for t using only [of t] that by (auto simp: runnable_def)
  ultimately show ?thesis using inv_schedule [OF inv r] W only unfolding env_ok_def by (auto simp: runnable_def)
qed

section \<open>Concrete runs\<close>

text \<open>Two CPUs run tasks 0 and 1.\<close>

lemma picked_state:
  "cpu_cur picked 0 = Some 0" "cpu_cur picked 1 = Some 1" "task_count picked = 2" "st_of picked 0 = TASK_RUNNING" "st_of picked 1 = TASK_RUNNING"
  "\<not> kill_of picked 0" "\<not> kill_of picked 1"
proof -
  have p: "picked = set_state 1 TASK_RUNNING (set_runq 1 [] published)\<lparr>cpu_cur := (cpu_cur published)(1 \<mapsto> 1)\<rparr>"
  proof -
    have ok: "cpu_ok published" using sched_reach_inv [OF published_reached] by (simp add: conf_inv_def sched_inv_def)
    have "pop_or_steal 1 published = (Some 1, set_runq 1 [] published)"
      by (simp add: pop_or_steal_def runq_pop_def published_eq compact_def Let_def)
    moreover have "\<not> stale 1 (set_runq 1 [] published)" by (simp add: stale_def st_of_def published_eq made_eq(7) del: One_nat_def)
    ultimately have "schedule_on_cpu 1 777 published = switch_to 1 1 (set_runq 1 [] published)"
      using schedule_idle [OF ok, of 1 777] published_eq(3) by (simp add: SMP_MAX_CPUS_def)
    then show ?thesis by (simp add: picked_def switch_to_def Let_def)
  qed
  have t0: "tasks published 0 = tasks made 0" by (simp add: published_def upd_task_def set_runq_def)
  have m0: "tk_state (tasks made 0) = TASK_RUNNING" "\<not> tk_kill_pending (tasks made 0)"
    by (simp_all add: made_def create_task_locked_def alloc_slot_def tasking_init_def MAX_TASKS_def creator_of_def smp_current_task_id_def
        SMP_MAX_CPUS_def Let_def fill_slot_def upd_task_def dead_task_def)
  show "cpu_cur picked 0 = Some 0" "cpu_cur picked 1 = Some 1" by (simp_all add: picked_eq(2))
  show "task_count picked = 2" by (simp add: p published_eq)
  show "st_of picked 0 = TASK_RUNNING" "st_of picked 1 = TASK_RUNNING" "\<not> kill_of picked 0" "\<not> kill_of picked 1"
    using t0 m0 by (simp_all add: p st_of_def kill_of_def set_state_def upd_task_def published_eq(5) made_eq(7) del: One_nat_def)
      (simp_all add: dead_task_def)
qed

lemma block_picked: "wait_block_enter 1 [] picked = (Parks 1, [1], set_state 1 TASK_BLOCKED picked)"
proof -
  have "tk_kill_pending (tasks (set_state 1 TASK_BLOCKED picked) 1) = tk_kill_pending (tasks picked 1)" by (simp add: set_state_def upd_task_def)
  then show ?thesis
    using picked_state by (simp add: wait_block_enter_def block_prepare_def SMP_MAX_CPUS_def wait_enqueue_def WAIT_QUEUE_CAPACITY_def MAX_TASKS_def kill_of_def
        del: One_nat_def)
qed

text \<open>Task 0 takes the only permit, task 1 has to wait for it.\<close>

definition contended :: "'o \<Rightarrow> 'o mon" where
  "contended x = \<lparr>obj = x, sd = set_state 1 TASK_BLOCKED picked, waiting = {1}, holders = [0], posts = 0\<rparr>"

lemma mutex_contended:
  "(mon_step mutex_ops)\<^sup>*\<^sup>* (mon_start mutex_init picked) (contended \<lparr>m_wq = [1], m_owner = Some 0, m_locked = True\<rparr>)"
proof -
  let ?m1 = "\<lparr>obj = \<lparr>m_wq = [], m_owner = Some 0, m_locked = True\<rparr>, sd = picked, waiting = {}, holders = [0], posts = 0\<rparr>"
  have "mutex_lock 0 mutex_init picked = (Acquired, \<lparr>m_wq = [], m_owner = Some 0, m_locked = True\<rparr>, picked)"
    using picked_state(1) by (simp add: mutex_lock_def mutex_init_def wait_queue_init_def smp_current_task_id_def SMP_MAX_CPUS_def)
  then have "mon_step mutex_ops (mon_start mutex_init picked) ?m1"
    using mn_lock [of "mon_start mutex_init picked" 0 0 mutex_ops] picked_state(1,4,6) by (simp add: mon_start_def mutex_ops_def after_pass_def)
  moreover have "mon_step mutex_ops ?m1 (contended \<lparr>m_wq = [1], m_owner = Some 0, m_locked = True\<rparr>)"
    using mn_lock [of ?m1 1 1 mutex_ops] picked_state(2,5,7) block_picked
    by (simp add: mutex_ops_def mutex_lock_def pass_of_def after_pass_def contended_def del: One_nat_def)
  ultimately show ?thesis by (meson converse_rtranclp_into_rtranclp r_into_rtranclp)
qed

theorem mutex_excludes_and_wakes_witness:
  "(mon_step mutex_ops)\<^sup>*\<^sup>* (mon_start mutex_init picked) (contended \<lparr>m_wq = [1], m_owner = Some 0, m_locked = True\<rparr>)
   \<and> {t \<in> {1}. st_of (set_state 1 TASK_BLOCKED picked) t = TASK_BLOCKED} = {1}"
  using mutex_excludes_and_wakes [OF picked_reached, of "contended \<lparr>m_wq = [1], m_owner = Some 0, m_locked = True\<rparr>"] mutex_contended
  by (simp add: contended_def)

lemma semaphore_contended: "(mon_step semaphore_ops)\<^sup>*\<^sup>* (mon_start (semaphore_init 1) picked) (contended \<lparr>s_wq = [1], s_count = 0\<rparr>)"
proof -
  let ?m1 = "\<lparr>obj = \<lparr>s_wq = [], s_count = 0\<rparr>, sd = picked, waiting = {}, holders = [0], posts = 0\<rparr>"
  have "semaphore_wait 0 (semaphore_init 1) picked = (Acquired, \<lparr>s_wq = [], s_count = 0\<rparr>, picked)"
    by (simp add: semaphore_wait_def semaphore_init_def wait_queue_init_def s32_id)
  then have "mon_step semaphore_ops (mon_start (semaphore_init 1) picked) ?m1"
    using mn_lock [of "mon_start (semaphore_init 1) picked" 0 0 semaphore_ops] picked_state(1,4,6) by (simp add: mon_start_def semaphore_ops_def after_pass_def)
  moreover have "mon_step semaphore_ops ?m1 (contended \<lparr>s_wq = [1], s_count = 0\<rparr>)"
    using mn_lock [of ?m1 1 1 semaphore_ops] picked_state(2,5,7) block_picked
    by (simp add: semaphore_ops_def semaphore_wait_def pass_of_def after_pass_def contended_def del: One_nat_def)
  ultimately show ?thesis by (meson converse_rtranclp_into_rtranclp r_into_rtranclp)
qed

theorem semaphore_counts_and_wakes_witness:
  "(mon_step semaphore_ops)\<^sup>*\<^sup>* (mon_start (semaphore_init 1) picked) (contended \<lparr>s_wq = [1], s_count = 0\<rparr>) \<and> holders (contended \<lparr>s_wq = [1], s_count = 0\<rparr>) = [0]"
  using semaphore_counts_and_wakes [OF picked_reached, of 1 "contended \<lparr>s_wq = [1], s_count = 0\<rparr>"] semaphore_contended
  by (simp add: contended_def)

end
