(* ===== verification/Paging.thy ===== *)
theory Paging
  imports Pmm
begin

text \<open>
  The virtual memory manager: \<open>kernel/mm/paging.c\<close> and the entry helpers of \<open>include/paging.h\<close>.

  Physical memory is the field \<open>phys\<close>: a frame is 512 words of 64 bits, whether it holds a page table or the data
  of a program, so that a write to one is a write to the other when they coincide. The source reaches a frame
  through the direct map (\<open>PHYS_TO_VIRT\<close>, \<open>VIRT_TO_PHYS\<close>); the two conversions undo each other and a
  table is named by its physical address here. \<open>current_pml4\<close> is a null pointer before \<open>init_paging\<close>.
  Each operation runs under \<open>paging_lock\<close>. The address translation cache of the CPU is not modelled.
\<close>

section \<open>Entries\<close>

type_synonym pte = "64 word"

definition PAGING_PRESENT :: pte where
  "PAGING_PRESENT = 1"

definition PAGING_WRITABLE :: pte where
  "PAGING_WRITABLE = 2"

definition PAGING_USER :: pte where
  "PAGING_USER = 4"

definition PAGING_NX :: pte where
  "PAGING_NX = 0x8000000000000000"

definition PAGE_MASK :: pte where
  "PAGE_MASK = 0xFFFFFFFFFFFFF000"

definition pte_frame :: "pte \<Rightarrow> nat" where
  "pte_frame e = unat ((e AND PAGE_MASK) AND NOT PAGING_NX)"

definition pte_flags :: "pte \<Rightarrow> pte" where
  "pte_flags e = (e AND NOT PAGE_MASK) OR (e AND PAGING_NX)"

text \<open>The address of the next table, as \<open>entry & PAGE_MASK\<close> everywhere in the walks.\<close>

definition table_of :: "pte \<Rightarrow> nat" where
  "table_of e = unat (e AND PAGE_MASK)"

definition present :: "pte \<Rightarrow> bool" where
  "present e \<longleftrightarrow> bit e 0"

definition huge :: "pte \<Rightarrow> bool" where
  "huge e \<longleftrightarrow> bit e 7"

definition PML4_IDX :: "nat \<Rightarrow> nat" where
  "PML4_IDX va = va div 2 ^ 39 mod 512"

definition PDPT_IDX :: "nat \<Rightarrow> nat" where
  "PDPT_IDX va = va div 2 ^ 30 mod 512"

definition PD_IDX :: "nat \<Rightarrow> nat" where
  "PD_IDX va = va div 2 ^ 21 mod 512"

definition PT_IDX :: "nat \<Rightarrow> nat" where
  "PT_IDX va = va div 2 ^ 12 mod 512"

text \<open>\<open>(p4 << 39) | (p3 << 30) | (p2 << 21) | (p1 << 12)\<close>: the fields do not overlap.\<close>

definition va_of :: "nat \<Rightarrow> nat \<Rightarrow> nat \<Rightarrow> nat \<Rightarrow> nat" where
  "va_of p4 p3 p2 p1 = p4 * 2 ^ 39 + p3 * 2 ^ 30 + p2 * 2 ^ 21 + p1 * 2 ^ 12"

definition KZ_SHM_BASE :: nat where
  "KZ_SHM_BASE = 0x50000000"

definition KZ_SHM_SLOT_SIZE :: nat where
  "KZ_SHM_SLOT_SIZE = 0x800000"

definition KZ_SHM_MAX_RES :: nat where
  "KZ_SHM_MAX_RES = 16"

definition KZ_SHM_END :: nat where
  "KZ_SHM_END = KZ_SHM_BASE + KZ_SHM_MAX_RES * KZ_SHM_SLOT_SIZE"

definition kz_shm_va_excluded :: "nat \<Rightarrow> bool" where
  "kz_shm_va_excluded va \<longleftrightarrow> KZ_SHM_BASE \<le> va \<and> va < KZ_SHM_END"

section \<open>State\<close>

record vm =
  vm_pmm :: pmm
  phys :: "nat \<Rightarrow> nat \<Rightarrow> pte"
  current_pml4 :: "nat option"
  kernel_pml4_phys :: nat
  current_cr3 :: "nat \<Rightarrow> nat"
  g_nx_enabled :: bool

definition paging_nx_flag :: "vm \<Rightarrow> pte" where
  "paging_nx_flag s = (if g_nx_enabled s then PAGING_NX else 0)"

definition paging_user_rw_nx :: "vm \<Rightarrow> pte" where
  "paging_user_rw_nx s = PAGING_PRESENT OR PAGING_WRITABLE OR PAGING_USER OR paging_nx_flag s"

definition store_pte :: "nat \<Rightarrow> nat \<Rightarrow> pte \<Rightarrow> vm \<Rightarrow> vm" where
  "store_pte t i e s = s\<lparr>phys := (phys s)(t := (phys s t)(i := e))\<rparr>"

definition set_frame :: "nat \<Rightarrow> (nat \<Rightarrow> pte) \<Rightarrow> vm \<Rightarrow> vm" where
  "set_frame f c s = s\<lparr>phys := (phys s)(f := c)\<rparr>"

definition vm_alloc :: "vm \<Rightarrow> nat \<times> vm" where
  "vm_alloc s = (let (a, m) = pmm_alloc_page (vm_pmm s) in (a, s\<lparr>vm_pmm := m\<rparr>))"

definition vm_free :: "nat \<Rightarrow> vm \<Rightarrow> vm" where
  "vm_free a s = s\<lparr>vm_pmm := pmm_free_page a (vm_pmm s)\<rparr>"

definition alloc_page_virt :: "vm \<Rightarrow> nat option \<times> vm" where
  "alloc_page_virt s =
    (let (a, s1) = vm_alloc s
     in if a = PHYS_NULL then (None, s1) else (Some a, set_frame a (\<lambda>_. 0) s1))"

section \<open>Start-up\<close>

text \<open>\<open>None\<close> is the kernel panic for lack of memory; the argument is the boot loader's \<open>cr3\<close>.\<close>

fun prepopulate :: "nat \<Rightarrow> nat list \<Rightarrow> vm \<Rightarrow> vm option" where
  "prepopulate k [] s = Some s"
| "prepopulate k (i # is) s =
    (if present (phys s k i) then prepopulate k is s
     else case alloc_page_virt s of
        (None, s1) \<Rightarrow> None
      | (Some p, s1) \<Rightarrow> prepopulate k is (store_pte k i (of_nat p OR 7) s1))"

definition init_paging :: "nat \<Rightarrow> vm \<Rightarrow> vm option" where
  "init_paging cr3 s =
    (let k = cr3 div 4096 * 4096
     in prepopulate k [256..<512] (s\<lparr>current_pml4 := Some k, kernel_pml4_phys := k\<rparr>))"

section \<open>Mapping\<close>

text \<open>
  One level of the walk that creates missing tables, written out three times in the source; \<open>None\<close> is the
  early return for lack of memory.
\<close>

definition next_table :: "nat \<Rightarrow> nat \<Rightarrow> vm \<Rightarrow> nat option \<times> vm" where
  "next_table t i s =
    (if \<not> present (phys s t i)
     then (case alloc_page_virt s of
        (None, s1) \<Rightarrow> (None, s1)
      | (Some p, s1) \<Rightarrow>
          (let s2 = store_pte t i (of_nat p OR 7) s1 in (Some (table_of (phys s2 t i)), s2)))
     else (Some (table_of (phys s t i)), s))"

text \<open>The part of \<open>vmm_map_page_into\<close> and \<open>vmm_map_page\<close> under the lock.\<close>

definition map_walk :: "nat \<Rightarrow> nat \<Rightarrow> nat \<Rightarrow> pte \<Rightarrow> vm \<Rightarrow> bool \<times> vm" where
  "map_walk pml4 va pa flags s =
    (case next_table pml4 (PML4_IDX va) s of
       (None, s1) \<Rightarrow> (False, s1)
     | (Some pdpt, s1) \<Rightarrow>
         if huge (phys s1 pdpt (PDPT_IDX va)) then (False, s1)
         else (case next_table pdpt (PDPT_IDX va) s1 of
            (None, s2) \<Rightarrow> (False, s2)
          | (Some pd, s2) \<Rightarrow>
              if huge (phys s2 pd (PD_IDX va)) then (False, s2)
              else (case next_table pd (PD_IDX va) s2 of
                 (None, s3) \<Rightarrow> (False, s3)
               | (Some pt, s3) \<Rightarrow> (True, store_pte pt (PT_IDX va) ((of_nat pa AND PAGE_MASK) OR flags) s3))))"

definition vmm_map_page_into :: "nat \<Rightarrow> nat \<Rightarrow> pte \<Rightarrow> nat \<Rightarrow> vm \<Rightarrow> bool \<times> vm" where
  "vmm_map_page_into va pa flags target s =
    (if target = PHYS_NULL then (False, s) else map_walk target va pa flags s)"

definition vmm_map_page :: "nat \<Rightarrow> nat \<Rightarrow> pte \<Rightarrow> vm \<Rightarrow> bool \<times> vm" where
  "vmm_map_page va pa flags s =
    (case current_pml4 s of None \<Rightarrow> (False, s) | Some k \<Rightarrow> map_walk k va pa flags s)"

section \<open>Walking without creating\<close>

text \<open>The walk of the unmapping, protecting and clearing operations down to the last table.\<close>

definition find_pt :: "nat \<Rightarrow> nat \<Rightarrow> vm \<Rightarrow> nat option" where
  "find_pt pml4 va s =
    (let e4 = phys s pml4 (PML4_IDX va)
     in if \<not> present e4 then None
        else let e3 = phys s (table_of e4) (PDPT_IDX va)
             in if \<not> present e3 \<or> huge e3 then None
                else let e2 = phys s (table_of e3) (PD_IDX va)
                     in if \<not> present e2 \<or> huge e2 then None
                        else if \<not> present (phys s (table_of e2) (PT_IDX va)) then None
                        else Some (table_of e2))"

text \<open>\<open>target == PHYS_NULL\<close> selects the kernel's tables; the result is a null pointer before start-up.\<close>

definition pml4_or_kernel :: "nat \<Rightarrow> vm \<Rightarrow> nat option" where
  "pml4_or_kernel target s = (if target \<noteq> PHYS_NULL then Some target else current_pml4 s)"

definition vmm_unmap_page :: "nat \<Rightarrow> vm \<Rightarrow> bool \<times> vm" where
  "vmm_unmap_page va s =
    (case current_pml4 s of None \<Rightarrow> (False, s)
     | Some k \<Rightarrow> (case find_pt k va s of None \<Rightarrow> (False, s)
        | Some pt \<Rightarrow> (True, store_pte pt (PT_IDX va) 0 s)))"

definition vmm_protect_page_into :: "nat \<Rightarrow> pte \<Rightarrow> nat \<Rightarrow> vm \<Rightarrow> bool \<times> vm" where
  "vmm_protect_page_into va new_flags target s =
    (case pml4_or_kernel target s of None \<Rightarrow> (False, s)
     | Some k \<Rightarrow> (case find_pt k va s of None \<Rightarrow> (False, s)
        | Some pt \<Rightarrow> (True, store_pte pt (PT_IDX va) ((phys s pt (PT_IDX va) AND PAGE_MASK) OR new_flags) s)))"

definition vmm_unmap_page_from :: "nat \<Rightarrow> nat \<Rightarrow> vm \<Rightarrow> nat \<times> vm" where
  "vmm_unmap_page_from va target s =
    (case pml4_or_kernel target s of None \<Rightarrow> (PHYS_NULL, s)
     | Some k \<Rightarrow> (case find_pt k va s of None \<Rightarrow> (PHYS_NULL, s)
        | Some pt \<Rightarrow> (pte_frame (phys s pt (PT_IDX va)), store_pte pt (PT_IDX va) 0 s)))"

definition vmm_alloc_page_into :: "nat \<Rightarrow> pte \<Rightarrow> nat \<Rightarrow> vm \<Rightarrow> bool \<times> vm" where
  "vmm_alloc_page_into va flags target s =
    (let (pa, s1) = vm_alloc s
     in if pa = PHYS_NULL then (False, s1)
        else let (ok, s2) = (if target \<noteq> PHYS_NULL then vmm_map_page_into va pa flags target s1
                             else vmm_map_page va pa flags s1)
             in if \<not> ok then (False, vm_free pa s2) else (True, s2))"

definition vmm_alloc_page :: "nat \<Rightarrow> pte \<Rightarrow> vm \<Rightarrow> bool \<times> vm" where
  "vmm_alloc_page va flags s = vmm_alloc_page_into va flags PHYS_NULL s"

definition paging_map_region :: "nat \<Rightarrow> vm \<Rightarrow> bool \<times> vm" where
  "paging_map_region va s = vmm_alloc_page va 7 s"

definition walk_is_mapped :: "nat option \<Rightarrow> nat \<Rightarrow> vm \<Rightarrow> bool" where
  "walk_is_mapped pml4 va s =
    (case pml4 of None \<Rightarrow> False
     | Some t \<Rightarrow>
        (let e4 = phys s t (PML4_IDX va)
         in if \<not> present e4 then False
            else let e3 = phys s (table_of e4) (PDPT_IDX va)
                 in if \<not> present e3 then False else if huge e3 then True
                    else let e2 = phys s (table_of e3) (PD_IDX va)
                         in if \<not> present e2 then False else if huge e2 then True
                            else present (phys s (table_of e2) (PT_IDX va))))"

definition paging_is_mapped_into :: "nat \<Rightarrow> nat \<Rightarrow> vm \<Rightarrow> bool" where
  "paging_is_mapped_into va target s = walk_is_mapped (pml4_or_kernel target s) va s"

definition paging_is_mapped :: "nat \<Rightarrow> vm \<Rightarrow> bool" where
  "paging_is_mapped va s = paging_is_mapped_into va PHYS_NULL s"

definition paging_is_mapped_nolock :: "nat \<Rightarrow> vm \<Rightarrow> bool" where
  "paging_is_mapped_nolock va s = walk_is_mapped (current_pml4 s) va s"

section \<open>Address spaces\<close>

definition copy_entries :: "nat \<Rightarrow> nat \<Rightarrow> nat list \<Rightarrow> vm \<Rightarrow> vm" where
  "copy_entries dst src is s = fold (\<lambda>i s. store_pte dst i (phys s src i) s) is s"

definition vmm_create_address_space :: "vm \<Rightarrow> nat \<times> vm" where
  "vmm_create_address_space s =
    (case current_pml4 s of None \<Rightarrow> (PHYS_NULL, s)
     | Some k \<Rightarrow> (case alloc_page_virt s of
          (None, s1) \<Rightarrow> (PHYS_NULL, s1)
        | (Some p, s1) \<Rightarrow> (p, copy_entries p k [256..<512] s1)))"

text \<open>
  The four nested loops of \<open>vmm_destroy_address_space\<close>, from the inside out. Each stands for one iteration over
  one entry; \<open>fold\<close> is the loop.
\<close>

definition free_owned :: "nat \<Rightarrow> vm \<Rightarrow> vm" where
  "free_owned a s = (if pmm_owns_page a (vm_pmm s) then vm_free a s else s)"

definition destroy_pt :: "nat \<Rightarrow> nat \<Rightarrow> nat \<Rightarrow> nat \<Rightarrow> nat \<Rightarrow> vm \<Rightarrow> vm" where
  "destroy_pt p4 p3 p2 pt p1 s =
    (let e = phys s pt p1
     in if \<not> present e then s
        else if kz_shm_va_excluded (va_of p4 p3 p2 p1) then store_pte pt p1 0 s
        else store_pte pt p1 0 (free_owned (pte_frame e) s))"

definition destroy_pd :: "nat \<Rightarrow> nat \<Rightarrow> nat \<Rightarrow> nat \<Rightarrow> vm \<Rightarrow> vm" where
  "destroy_pd p4 p3 pd p2 s =
    (let e = phys s pd p2
     in if \<not> present e then s
        else if huge e then store_pte pd p2 0 s
        else store_pte pd p2 0 (free_owned (table_of e) (fold (destroy_pt p4 p3 p2 (table_of e)) [0..<512] s)))"

definition destroy_pdpt :: "nat \<Rightarrow> nat \<Rightarrow> nat \<Rightarrow> vm \<Rightarrow> vm" where
  "destroy_pdpt p4 pdpt p3 s =
    (let e = phys s pdpt p3
     in if \<not> present e then s
        else if huge e then store_pte pdpt p3 0 s
        else store_pte pdpt p3 0 (free_owned (table_of e) (fold (destroy_pd p4 p3 (table_of e)) [0..<512] s)))"

definition destroy_pml4 :: "nat \<Rightarrow> nat \<Rightarrow> vm \<Rightarrow> vm" where
  "destroy_pml4 pml4 p4 s =
    (let e = phys s pml4 p4
     in if \<not> present e then s
        else if huge e then store_pte pml4 p4 0 s
        else store_pte pml4 p4 0 (free_owned (table_of e) (fold (destroy_pdpt p4 (table_of e)) [0..<512] s)))"

definition vmm_destroy_address_space :: "nat \<Rightarrow> bool \<Rightarrow> vm \<Rightarrow> vm" where
  "vmm_destroy_address_space pml4 free_pml4 s =
    (if pml4 = PHYS_NULL then s
     else let s1 = fold (destroy_pml4 pml4) [0..<256] s
          in if free_pml4 then free_owned pml4 s1 else s1)"

text \<open>The nested loops of \<open>vmm_clone_user_as\<close>; \<open>False\<close> is the jump to \<open>oom\<close>.\<close>

fun while_ok :: "(nat \<Rightarrow> vm \<Rightarrow> bool \<times> vm) \<Rightarrow> nat list \<Rightarrow> vm \<Rightarrow> bool \<times> vm" where
  "while_ok body [] s = (True, s)"
| "while_ok body (i # is) s = (case body i s of (ok, s1) \<Rightarrow> if ok then while_ok body is s1 else (False, s1))"

definition clone_pt :: "nat \<Rightarrow> nat \<Rightarrow> nat \<Rightarrow> nat \<Rightarrow> nat \<Rightarrow> nat \<Rightarrow> vm \<Rightarrow> bool \<times> vm" where
  "clone_pt child p4 p3 p2 pt p1 s =
    (let e = phys s pt p1; va = va_of p4 p3 p2 p1
     in if \<not> present e then (True, s)
        else if kz_shm_va_excluded va then (True, s)
        else let (dst, s1) = vm_alloc s
             in if dst = PHYS_NULL then (False, s1)
                else let s2 = set_frame dst (phys s1 (pte_frame e)) s1;
                         (ok, s3) = vmm_map_page_into va dst (pte_flags e) child s2
                     in if \<not> ok then (False, vm_free dst s3) else (True, s3))"

definition clone_pd :: "nat \<Rightarrow> nat \<Rightarrow> nat \<Rightarrow> nat \<Rightarrow> nat \<Rightarrow> vm \<Rightarrow> bool \<times> vm" where
  "clone_pd child p4 p3 pd p2 s =
    (let e = phys s pd p2
     in if \<not> present e \<or> huge e then (True, s)
        else while_ok (clone_pt child p4 p3 p2 (table_of e)) [0..<512] s)"

definition clone_pdpt :: "nat \<Rightarrow> nat \<Rightarrow> nat \<Rightarrow> nat \<Rightarrow> vm \<Rightarrow> bool \<times> vm" where
  "clone_pdpt child p4 pdpt p3 s =
    (let e = phys s pdpt p3
     in if \<not> present e \<or> huge e then (True, s)
        else while_ok (clone_pd child p4 p3 (table_of e)) [0..<512] s)"

definition clone_pml4 :: "nat \<Rightarrow> nat \<Rightarrow> nat \<Rightarrow> vm \<Rightarrow> bool \<times> vm" where
  "clone_pml4 child pml4 p4 s =
    (let e = phys s pml4 p4
     in if \<not> present e \<or> huge e then (True, s)
        else while_ok (clone_pdpt child p4 (table_of e)) [0..<512] s)"

definition vmm_clone_user_as :: "nat \<Rightarrow> vm \<Rightarrow> nat \<times> vm" where
  "vmm_clone_user_as parent s =
    (if parent = PHYS_NULL \<or> current_pml4 s = None then (PHYS_NULL, s)
     else let (child, s1) = vmm_create_address_space s
          in if child = PHYS_NULL then (PHYS_NULL, s1)
             else let (ok, s2) = while_ok (clone_pml4 child parent) [0..<256] s1
                  in if ok then (child, s2) else (PHYS_NULL, vmm_destroy_address_space child True s2))"

section \<open>Switching and the kernel's own pages\<close>

definition vmm_switch_pml4 :: "nat \<Rightarrow> nat \<Rightarrow> vm \<Rightarrow> vm" where
  "vmm_switch_pml4 cpu pml4 s =
    (if pml4 = PHYS_NULL then s else s\<lparr>current_cr3 := (current_cr3 s)(cpu := pml4)\<rparr>)"

definition vmm_switch_to_kernel_as :: "nat \<Rightarrow> vm \<Rightarrow> vm" where
  "vmm_switch_to_kernel_as cpu s =
    (if kernel_pml4_phys s = PHYS_NULL then s
     else s\<lparr>current_cr3 := (current_cr3 s)(cpu := kernel_pml4_phys s)\<rparr>)"

definition vmm_get_kernel_pml4_phys :: "vm \<Rightarrow> nat" where
  "vmm_get_kernel_pml4_phys s = kernel_pml4_phys s"

definition vmm_destroy_task_as :: "nat \<Rightarrow> nat \<Rightarrow> vm \<Rightarrow> vm" where
  "vmm_destroy_task_as cpu pml4 s =
    (if pml4 = PHYS_NULL then s
     else vmm_destroy_address_space pml4 True (vmm_switch_to_kernel_as cpu s))"

definition vmm_map_page_kernel :: "nat \<Rightarrow> nat \<Rightarrow> pte \<Rightarrow> vm \<Rightarrow> bool \<times> vm" where
  "vmm_map_page_kernel va pa flags s = vmm_map_page_into va pa flags (kernel_pml4_phys s) s"

definition vmm_alloc_page_kernel :: "nat \<Rightarrow> pte \<Rightarrow> vm \<Rightarrow> bool \<times> vm" where
  "vmm_alloc_page_kernel va flags s =
    (let (pa, s1) = vm_alloc s
     in if pa = PHYS_NULL then (False, s1)
        else let (ok, s2) = vmm_map_page_kernel va pa flags s1
             in if \<not> ok then (False, vm_free pa s2) else (True, s2))"

end
