(* ===== verification/Paging_Tree.thy ===== *)
theory Paging_Tree
  imports Paging "HOL-Library.Sublist"
begin

text \<open>
  Page tables as trees. A table or data frame is named by its path of indices from the root (\<open>node\<close>); the
  invariant \<open>vm_ok\<close> says that no frame is reached by two paths, neither within one address space nor
  from two of them nor from the tables of the kernel, and that no frame in use is available to the allocator. The
  lemmas say what one store into a table does to the nodes.
\<close>

section \<open>Bits of an entry\<close>

lemma PAGE_MASK_bit: "bit PAGE_MASK n \<longleftrightarrow> 12 \<le> n \<and> n < 64"
proof -
  have m: "PAGE_MASK = push_bit 12 (mask 52)"
    by (simp add: PAGE_MASK_def mask_eq_exp_minus_1 push_bit_eq_mult)
  show ?thesis unfolding m bit_push_bit_iff bit_mask_iff by auto
qed

lemma PAGING_NX_bit: "bit PAGING_NX n \<longleftrightarrow> n = 63"
proof -
  have m: "PAGING_NX = push_bit 63 1"
    by (simp add: PAGING_NX_def push_bit_eq_mult)
  show ?thesis unfolding m bit_push_bit_iff bit_1_iff by auto
qed

lemma bit_seven: "bit (7 :: pte) n \<longleftrightarrow> n < 3"
proof -
  have m: "(7 :: pte) = mask 3" by (simp add: mask_eq_exp_minus_1)
  show ?thesis unfolding m bit_mask_iff by auto
qed

lemma pte_bit_bound: "bit (e :: pte) n \<Longrightarrow> n < 64"
  using bit_imp_le_length by force

lemmas pte_bits = PAGE_MASK_bit PAGING_NX_bit bit_seven bit_and_iff bit_or_iff bit_not_iff

text \<open>A frame address: page aligned and within the 52 bits the architecture has for physical addresses.\<close>

definition is_frame :: "nat \<Rightarrow> bool" where
  "is_frame a \<longleftrightarrow> 4096 dvd a \<and> a < 2 ^ 52"

lemma is_frame_bit: "is_frame a \<Longrightarrow> bit (of_nat a :: pte) n \<Longrightarrow> 12 \<le> n \<and> n < 52"
proof -
  assume a: "is_frame a" and b: "bit (of_nat a :: pte) n"
  then have n: "bit a n" by (simp add: bit_of_nat_iff)
  have "\<not> n < 12"
  proof
    assume "n < 12"
    from a obtain q where q: "a = push_bit 12 q" by (auto simp: is_frame_def push_bit_eq_mult mult.commute elim!: dvdE)
    show False using n \<open>n < 12\<close> unfolding q by (simp add: bit_push_bit_iff)
  qed
  moreover have "n < 52"
  proof (rule ccontr)
    assume "\<not> n < 52"
    moreover have "take_bit 52 a = a" using a by (simp add: is_frame_def take_bit_nat_eq_self)
    ultimately show False using n by (metis bit_take_bit_iff)
  qed
  ultimately show ?thesis by simp
qed

lemma is_frame_unat: "is_frame a \<Longrightarrow> unat (of_nat a :: pte) = a"
  by (simp add: is_frame_def unat_of_nat take_bit_nat_eq_self)

text \<open>Flags as the callers build them: present, the low control bits, no-execute.\<close>

definition flags_ok :: "pte \<Rightarrow> bool" where
  "flags_ok fl \<longleftrightarrow> bit fl 0 \<and> fl AND NOT (PAGING_NX OR 127) = 0"

lemma bit_low7: "bit (127 :: pte) n \<longleftrightarrow> n < 7"
proof -
  have m: "(127 :: pte) = mask 7" by (simp add: mask_eq_exp_minus_1)
  show ?thesis unfolding m bit_mask_iff by auto
qed

lemma flags_okD: "flags_ok fl \<Longrightarrow> bit fl n \<Longrightarrow> n < 7 \<or> n = 63"
proof -
  assume f: "flags_ok fl" and n: "bit fl n"
  have "\<not> bit (fl AND NOT (PAGING_NX OR 127)) n" using f unfolding flags_ok_def by simp
  then show ?thesis using n pte_bit_bound [OF n] unfolding pte_bits bit_low7 by auto
qed

definition mk_pte :: "nat \<Rightarrow> pte \<Rightarrow> pte" where
  "mk_pte pa flags = (of_nat pa AND PAGE_MASK) OR flags"

lemma mk_pte_present [simp]: "flags_ok fl \<Longrightarrow> present (mk_pte a fl)"
  by (simp add: mk_pte_def present_def flags_ok_def pte_bits)

lemma mk_pte_not_huge [simp]: "flags_ok fl \<Longrightarrow> \<not> huge (mk_pte a fl)"
  using flags_okD [of fl 7] by (auto simp: mk_pte_def huge_def pte_bits)

lemma mk_pte_frame [simp]: "is_frame a \<Longrightarrow> flags_ok fl \<Longrightarrow> pte_frame (mk_pte a fl) = a"
proof -
  assume a: "is_frame a" and fl: "flags_ok fl"
  have "(mk_pte a fl AND PAGE_MASK) AND NOT PAGING_NX = of_nat a"
    using is_frame_bit [OF a] flags_okD [OF fl]
    by (intro bit_word_eqI) (fastforce simp: mk_pte_def pte_bits)
  then show ?thesis by (simp add: pte_frame_def is_frame_unat [OF a])
qed

lemma mk_pte_flags [simp]: "is_frame a \<Longrightarrow> flags_ok fl \<Longrightarrow> pte_flags (mk_pte a fl) = fl"
  using is_frame_bit [of a] flags_okD [of fl]
  by (intro bit_word_eqI) (fastforce simp: mk_pte_def pte_flags_def pte_bits)

lemma flags_ok_not_huge: "flags_ok (pte_flags e) \<Longrightarrow> \<not> huge e"
  using flags_okD [of "pte_flags e" 7] by (auto simp: huge_def pte_flags_def pte_bits)

lemma pte_split: "(e AND PAGE_MASK AND NOT PAGING_NX) OR pte_flags e = e"
  by (intro bit_word_eqI) (auto simp: pte_flags_def pte_bits)

lemma table_of_frame: "\<not> bit e 63 \<Longrightarrow> table_of e = pte_frame e"
proof -
  assume "\<not> bit e 63"
  then have "e AND PAGE_MASK = (e AND PAGE_MASK) AND NOT PAGING_NX"
    by (intro bit_word_eqI) (auto simp: pte_bits)
  then show ?thesis by (simp add: table_of_def pte_frame_def)
qed

lemma table_entry:
  assumes "is_frame a"
  shows "present (of_nat a OR 7)" and "\<not> huge (of_nat a OR 7)" and "\<not> bit (of_nat a OR 7 :: pte) 63"
    and "pte_frame (of_nat a OR 7) = a" and "table_of (of_nat a OR 7) = a"
proof -
  have e: "(of_nat a :: pte) OR 7 = mk_pte a 7"
    using is_frame_bit [OF assms] by (intro bit_word_eqI) (fastforce simp: mk_pte_def pte_bits)
  have f: "flags_ok 7"
    by (simp add: flags_ok_def PAGING_NX_def)
  show "present (of_nat a OR 7)" "\<not> huge (of_nat a OR 7)" "pte_frame (of_nat a OR 7) = a"
    unfolding e using assms f by simp_all
  show n: "\<not> bit (of_nat a OR 7 :: pte) 63"
    using is_frame_bit [OF assms, of 63] by (auto simp: pte_bits)
  show "table_of (of_nat a OR 7) = a"
    unfolding table_of_frame [OF n] unfolding e using assms f by simp
qed

section \<open>Nodes\<close>

definition child :: "pte \<Rightarrow> nat option" where
  "child e = (if present e \<and> \<not> huge e then Some (pte_frame e) else None)"

definition node :: "vm \<Rightarrow> nat \<Rightarrow> nat list \<Rightarrow> nat option" where
  "node s r p = foldl (\<lambda>u i. Option.bind u (\<lambda>t. child (phys s t i))) (Some r) p"

lemma node_Nil [simp]: "node s r [] = Some r"
  by (simp add: node_def)

lemma node_snoc: "node s r (p @ [i]) = Option.bind (node s r p) (\<lambda>t. child (phys s t i))"
  by (simp add: node_def)

lemma node_snocI: "node s r p = Some t \<Longrightarrow> node s r (p @ [i]) = child (phys s t i)"
  by (simp add: node_snoc)

lemma node_snocE:
  assumes "node s r (p @ [i]) = Some f"
  obtains t where "node s r p = Some t" and "child (phys s t i) = Some f"
  using assms by (auto simp: node_snoc bind_eq_Some_conv)

lemma node_prefix_None: "node s r p = None \<Longrightarrow> node s r (p @ q) = None"
  by (induction q rule: rev_induct) (simp_all add: node_snoc flip: append_assoc)

lemma node_phys: "phys s' = phys s \<Longrightarrow> node s' r p = node s r p"
  by (simp add: node_def)

definition va_path :: "nat list \<Rightarrow> nat" where
  "va_path p = va_of (p ! 0) (p ! 1) (p ! 2) (p ! 3)"

text \<open>
  Paths of a user address space: tables and data frames of the lower half, without the shared-memory window
  whose frames belong to the store of shared memory. Paths of the kernel: tables of the upper half.
\<close>

definition upaths :: "nat list set" where
  "upaths = {p. length p \<le> 4 \<and> (\<forall>i\<in>set p. i < 512) \<and> (p \<noteq> [] \<longrightarrow> hd p < 256)
    \<and> (length p = 4 \<longrightarrow> \<not> kz_shm_va_excluded (va_path p))}"

definition kpaths :: "nat list set" where
  "kpaths = {p. length p \<le> 3 \<and> (\<forall>i\<in>set p. i < 512) \<and> (p \<noteq> [] \<longrightarrow> 256 \<le> hd p)}"

definition trees :: "nat \<Rightarrow> nat set \<Rightarrow> (nat \<times> nat list) set" where
  "trees k R = {k} \<times> kpaths \<union> R \<times> upaths"

lemma upaths_prefix: "p @ [i] \<in> upaths \<Longrightarrow> p \<in> upaths"
  by (cases p) (auto simp: upaths_def)

lemma kpaths_prefix: "p @ [i] \<in> kpaths \<Longrightarrow> p \<in> kpaths"
  by (cases p) (auto simp: kpaths_def)

lemma trees_prefix: "(r, p @ [i]) \<in> trees k R \<Longrightarrow> (r, p) \<in> trees k R"
  by (auto simp: trees_def dest: upaths_prefix kpaths_prefix)

lemma Nil_paths [simp]: "[] \<in> upaths" "[] \<in> kpaths"
  by (simp_all add: upaths_def kpaths_def)

lemma trees_root [simp]: "(k, []) \<in> trees k R" "r \<in> R \<Longrightarrow> (r, []) \<in> trees k R"
  by (simp_all add: trees_def)

section \<open>The invariant\<close>

abbreviation av :: "vm \<Rightarrow> nat set" where
  "av s \<equiv> avail_addrs (vm_pmm s)"

definition vm_base :: "nat \<Rightarrow> vm \<Rightarrow> bool" where
  "vm_base k s \<longleftrightarrow> current_pml4 s = Some k \<and> kernel_pml4_phys s = k \<and> k \<noteq> 0
    \<and> pmm_wf (vm_pmm s) \<and> bitmap_pages (vm_pmm s) \<le> 2 ^ 40"

definition pt_held :: "nat \<Rightarrow> vm \<Rightarrow> nat set \<Rightarrow> bool" where
  "pt_held k s R \<longleftrightarrow> (\<forall>r p f. (r, p) \<in> trees k R \<longrightarrow> node s r p = Some f \<longrightarrow>
    f \<notin> av s \<and> (r \<in> R \<longrightarrow> managed (vm_pmm s) f))"

definition pt_sep :: "nat \<Rightarrow> vm \<Rightarrow> nat set \<Rightarrow> bool" where
  "pt_sep k s R \<longleftrightarrow> (\<forall>r p r' p' f. (r, p) \<in> trees k R \<longrightarrow> (r', p') \<in> trees k R \<longrightarrow>
    node s r p = Some f \<longrightarrow> node s r' p' = Some f \<longrightarrow> r' = r \<and> p' = p)"

definition plain :: "bool \<Rightarrow> nat list \<Rightarrow> pte \<Rightarrow> bool" where
  "plain user p e \<longleftrightarrow> (user \<or> p = [] \<longrightarrow> \<not> huge e) \<and>
    (present e \<longrightarrow> (length p < 3 \<longrightarrow> \<not> bit e 63) \<and> (length p = 3 \<longrightarrow> flags_ok (pte_flags e)))"

lemma plain_zero [simp]: "plain user p 0"
  by (simp add: plain_def present_def huge_def)

definition pt_plain :: "nat \<Rightarrow> vm \<Rightarrow> nat set \<Rightarrow> bool" where
  "pt_plain k s R \<longleftrightarrow> (\<forall>r p t i. (r, p @ [i]) \<in> trees k R \<longrightarrow> node s r p = Some t \<longrightarrow>
    plain (r \<in> R) p (phys s t i))"

definition pt_share :: "nat \<Rightarrow> vm \<Rightarrow> nat set \<Rightarrow> bool" where
  "pt_share k s R \<longleftrightarrow> (\<forall>i. 256 \<le> i \<longrightarrow> i < 512 \<longrightarrow> present (phys s k i) \<and>
    (\<forall>r\<in>R. present (phys s r i) \<and> table_of (phys s r i) = table_of (phys s k i)))"

definition vm_ok :: "nat \<Rightarrow> vm \<Rightarrow> nat set \<Rightarrow> bool" where
  "vm_ok k s R \<longleftrightarrow> vm_base k s \<and> k \<notin> R \<and> pt_held k s R \<and> pt_sep k s R \<and> pt_plain k s R \<and> pt_share k s R"

lemma vm_okE:
  assumes "vm_ok k s R"
  obtains "vm_base k s" "k \<notin> R" "pt_held k s R" "pt_sep k s R" "pt_plain k s R" "pt_share k s R"
  using assms by (simp add: vm_ok_def)

lemma pt_heldD: "pt_held k s R \<Longrightarrow> (r, p) \<in> trees k R \<Longrightarrow> node s r p = Some f \<Longrightarrow> f \<notin> av s"
  by (auto simp: pt_held_def)

lemma pt_sepD:
  "pt_sep k s R \<Longrightarrow> (r, p) \<in> trees k R \<Longrightarrow> (r', p') \<in> trees k R \<Longrightarrow> node s r p = Some f \<Longrightarrow> node s r' p' = Some f
    \<Longrightarrow> r' = r \<and> p' = p"
  unfolding pt_sep_def by blast

lemma pt_plainD:
  "pt_plain k s R \<Longrightarrow> (r, p @ [i]) \<in> trees k R \<Longrightarrow> node s r p = Some t \<Longrightarrow> plain (r \<in> R) p (phys s t i)"
  unfolding pt_plain_def by blast

lemma vm_ok_held:
  "vm_ok k s R \<Longrightarrow> (r, p) \<in> trees k R \<Longrightarrow> node s r p = Some f \<Longrightarrow> f \<notin> av s"
  "vm_ok k s R \<Longrightarrow> r \<in> R \<Longrightarrow> p \<in> upaths \<Longrightarrow> node s r p = Some f \<Longrightarrow> managed (vm_pmm s) f"
  by (auto simp: vm_ok_def pt_held_def trees_def)

lemma vm_ok_sep:
  "vm_ok k s R \<Longrightarrow> (r, p) \<in> trees k R \<Longrightarrow> (r', p') \<in> trees k R \<Longrightarrow> node s r p = Some f \<Longrightarrow> node s r' p' = Some f
    \<Longrightarrow> r' = r \<and> p' = p"
  unfolding vm_ok_def pt_sep_def by blast

lemma vm_ok_plain:
  "vm_ok k s R \<Longrightarrow> (r, p @ [i]) \<in> trees k R \<Longrightarrow> node s r p = Some t \<Longrightarrow> plain (r \<in> R) p (phys s t i)"
  unfolding vm_ok_def pt_plain_def by blast

lemma managed_frame: "managed m a \<Longrightarrow> bitmap_pages m \<le> 2 ^ 40 \<Longrightarrow> is_frame a"
proof -
  assume m: "managed m a" and b: "bitmap_pages m \<le> 2 ^ 40"
  have a: "a div 4096 * 4096 = a" using managed_addr_eq [OF m] by (simp add: PAGE_SIZE_def)
  have "a div 4096 < 2 ^ 40" using m b by (simp add: managed_def PAGE_SIZE_def)
  then have "a div 4096 * 4096 < 2 ^ 40 * 4096" by (rule mult_less_mono1) simp
  then have "a < 2 ^ 52" using a by simp
  moreover have "4096 dvd a" using a by (metis dvd_triv_right)
  ultimately show ?thesis by (simp add: is_frame_def)
qed

lemma avail_frame: "vm_base k s \<Longrightarrow> a \<in> av s \<Longrightarrow> managed (vm_pmm s) a \<and> is_frame a \<and> a \<noteq> 0"
  using frames.avail_frame frames.frame_nonzero managed_frame unfolding vm_base_def by blast

section \<open>Stores and nodes\<close>

lemma node_cong:
  assumes "\<And>r p i t. (r, p @ [i]) \<in> trees k R \<Longrightarrow> node s r p = Some t \<Longrightarrow> child (phys s' t i) = child (phys s t i)"
    and "(r, p) \<in> trees k R"
  shows "node s' r p = node s r p"
  using assms(2)
proof (induction p rule: rev_induct)
  case (snoc i p)
  then have "node s' r p = node s r p" by (blast dest: trees_prefix)
  then show ?case using assms(1) [OF snoc.prems] by (cases "node s r p") (simp_all add: node_snoc)
qed simp

lemma node_store_pte_other:
  assumes sep: "pt_sep k s R" and rp: "(r, p) \<in> trees k R" "node s r p = Some t"
    and ph: "phys s' = (phys s)(t := (phys s t)(i := e))"
    and x: "(r', p') \<in> trees k R" "\<not> (r' = r \<and> prefix (p @ [i]) p')"
  shows "node s' r' p' = node s r' p'"
  using x
proof (induction p' rule: rev_induct)
  case (snoc j q)
  have q: "(r', q) \<in> trees k R" using snoc.prems(1) by (rule trees_prefix)
  have "\<not> (r' = r \<and> prefix (p @ [i]) q)" using snoc.prems(2) by auto
  then have IH: "node s' r' q = node s r' q" by (rule snoc.IH [OF q])
  show ?case
  proof (cases "node s r' q")
    case None
    then show ?thesis using IH by (simp add: node_snoc)
  next
    case (Some u)
    have "\<not> (u = t \<and> j = i)"
    proof
      assume u: "u = t \<and> j = i"
      then have "r' = r \<and> q = p" using sep rp q Some unfolding pt_sep_def by blast
      then show False using snoc.prems(2) u by simp
    qed
    then have "phys s' u j = phys s u j" using ph by auto
    then show ?thesis using IH Some by (simp add: node_snoc)
  qed
qed simp

text \<open>The node at the end of the stored entry, and nothing below it when it is a fresh table of zeros.\<close>

lemma node_below_None:
  assumes "\<And>j. \<not> present (phys s f j)" and "node s r p = Some f" and "q \<noteq> []"
  shows "node s r (p @ q) = None"
proof (cases q)
  case (Cons j q')
  have "node s r (p @ [j]) = None" using assms(1,2) by (simp add: node_snoc child_def)
  then show ?thesis using node_prefix_None [of s r "p @ [j]" q'] Cons by simp
qed (use assms(3) in simp)

lemma node_upd_held_sep:
  assumes held: "pt_held k s R" and sep: "pt_sep k s R" and man: "managed (vm_pmm s') = managed (vm_pmm s)"
    and nd: "\<And>r p. (r, p) \<in> trees k R \<Longrightarrow> node s' r p = (if r = r0 \<and> p = P then v else node s r p)"
    and v: "\<And>f. v = Some f \<Longrightarrow> node s r0 P \<noteq> Some f \<Longrightarrow> (\<forall>r p. (r, p) \<in> trees k R \<longrightarrow> node s r p \<noteq> Some f) \<and>
        f \<notin> av s' \<and> managed (vm_pmm s) f"
    and av: "\<And>r p f. (r, p) \<in> trees k R \<Longrightarrow> node s r p = Some f \<Longrightarrow> (r, p) \<noteq> (r0, P) \<or> v = Some f \<Longrightarrow> f \<notin> av s'"
  shows "pt_held k s' R" and "pt_sep k s' R"
proof -
  show "pt_held k s' R" unfolding pt_held_def
  proof (intro allI impI)
    fix r p f assume x: "(r, p) \<in> trees k R" "node s' r p = Some f"
    show "f \<notin> av s' \<and> (r \<in> R \<longrightarrow> managed (vm_pmm s') f)"
    proof (cases "node s r p = Some f")
      case True
      then have "(r, p) \<noteq> (r0, P) \<or> v = Some f" using nd [OF x(1)] x(2) by auto
      then show ?thesis using av [OF x(1) True] True held x(1) man unfolding pt_held_def by auto
    next
      case False
      then have "r = r0 \<and> p = P \<and> v = Some f" using nd [OF x(1)] x(2) by (simp split: if_splits)
      then show ?thesis using v [of f] False man by auto
    qed
  qed
  show "pt_sep k s' R" unfolding pt_sep_def
  proof (intro allI impI)
    fix r p r' p' f
    assume x: "(r, p) \<in> trees k R" "(r', p') \<in> trees k R" "node s' r p = Some f" "node s' r' p' = Some f"
    have *: "node s a q = Some f \<or> (a = r0 \<and> q = P \<and> v = Some f \<and> (\<forall>r p. (r, p) \<in> trees k R \<longrightarrow> node s r p \<noteq> Some f))"
      if "(a, q) \<in> trees k R" "node s' a q = Some f" for a q
      using nd [OF that(1)] that(2) v [of f] by (auto split: if_splits)
    show "r' = r \<and> p' = p"
      using * [OF x(1,3)] * [OF x(2,4)] pt_sepD [OF sep x(1,2)] x(1,2) by blast
  qed
qed

lemma vm_ok_node_upd:
  assumes ok: "vm_ok k s R" and base: "vm_base k s'" and man: "managed (vm_pmm s') = managed (vm_pmm s)"
    and nd: "\<And>r p. (r, p) \<in> trees k R \<Longrightarrow> node s' r p = (if r = r0 \<and> p = P then v else node s r p)"
    and v: "\<And>f. v = Some f \<Longrightarrow> node s r0 P \<noteq> Some f \<Longrightarrow> (\<forall>r p. (r, p) \<in> trees k R \<longrightarrow> node s r p \<noteq> Some f) \<and>
        f \<notin> av s' \<and> managed (vm_pmm s) f"
    and av: "\<And>r p f. (r, p) \<in> trees k R \<Longrightarrow> node s r p = Some f \<Longrightarrow> (r, p) \<noteq> (r0, P) \<or> v = Some f \<Longrightarrow> f \<notin> av s'"
    and pl: "pt_plain k s' R" and sh: "pt_share k s' R"
  shows "vm_ok k s' R"
proof -
  have "pt_held k s R" "pt_sep k s R" using ok by (simp_all add: vm_ok_def)
  note node_upd_held_sep [OF this man nd v av]
  then show ?thesis using ok base pl sh by (simp add: vm_ok_def)
qed

end
