(* ===== verification/Paging_Map.thy ===== *)
theory Paging_Map
  imports Paging_Tree
begin

text \<open>
  Mapping, unmapping and protecting single pages. \<open>extends\<close> is what creating missing tables does: it only
  takes frames from the allocator and hangs them, empty, below the tables of one address space. The operations are then
  a walk that extends the tree and one store into the last table.
\<close>

section \<open>The allocator seen through the state\<close>

lemma vm_alloc_cases:
  assumes "vm_base k s" and "vm_alloc s = (a, s')"
  shows "a = 0 \<and> s' = s \<and> av s = {} \<or> a \<in> av s \<and> phys s' = phys s \<and> vm_base k s' \<and> av s' = av s - {a}
    \<and> managed (vm_pmm s') = managed (vm_pmm s) \<and> a \<noteq> 0"
proof -
  obtain m where m: "pmm_alloc_page (vm_pmm s) = (a, m)" and s': "s' = s\<lparr>vm_pmm := m\<rparr>"
    using assms(2) by (auto simp: vm_alloc_def split: prod.splits)
  have wf: "pmm_wf (vm_pmm s)" using assms(1) by (simp add: vm_base_def)
  show ?thesis
  proof (cases "a = 0")
    case True
    then show ?thesis using frames.alloc_null [OF wf] m s' by auto
  next
    case False
    note al = frames.alloc_some [OF wf m False]
    have "bitmap_pages m = bitmap_pages (vm_pmm s)"
      using pmm_alloc_page_spec [OF wf] m False by (auto simp: PHYS_NULL_def)
    then show ?thesis using al s' False assms(1) by (simp add: vm_base_def)
  qed
qed

lemma vm_free_spec:
  assumes "vm_base k s"
  shows "vm_base k (vm_free a s)" and "phys (vm_free a s) = phys s"
    and "managed (vm_pmm (vm_free a s)) = managed (vm_pmm s)"
    and "av (vm_free a s) = (if managed (vm_pmm s) a then insert a (av s) else av s)"
proof -
  have wf: "pmm_wf (vm_pmm s)" using assms by (simp add: vm_base_def)
  have "bitmap_pages (pmm_free_page a (vm_pmm s)) = bitmap_pages (vm_pmm s)"
    using pmm_free_page_spec [OF wf, of a] by simp
  then show "vm_base k (vm_free a s)" and "phys (vm_free a s) = phys s"
    and "managed (vm_pmm (vm_free a s)) = managed (vm_pmm s)"
    and "av (vm_free a s) = (if managed (vm_pmm s) a then insert a (av s) else av s)"
    using frames.release_law [OF wf, of a] assms by (simp_all add: vm_free_def vm_base_def)
qed

lemma vm_ok_same_phys:
  assumes ok: "vm_ok k s R" and "phys s' = phys s" and "vm_base k s'" and "managed (vm_pmm s') = managed (vm_pmm s)"
    and "\<And>r p f. (r, p) \<in> trees k R \<Longrightarrow> node s r p = Some f \<Longrightarrow> f \<notin> av s'"
  shows "vm_ok k s' R"
  using assms node_phys [OF assms(2)]
  by (simp add: vm_ok_def pt_held_def pt_sep_def pt_plain_def pt_share_def)

lemma vm_ok_alloc:
  assumes "vm_ok k s R" and "vm_alloc s = (a, s')"
  shows "vm_ok k s' R"
proof -
  have b: "vm_base k s" using assms(1) by (simp add: vm_ok_def)
  from vm_alloc_cases [OF b assms(2)] show ?thesis
  proof
    assume "a \<in> av s \<and> phys s' = phys s \<and> vm_base k s' \<and> av s' = av s - {a} \<and> managed (vm_pmm s') = managed (vm_pmm s) \<and> a \<noteq> 0"
    then show ?thesis using vm_ok_held(1) [OF assms(1)] by (intro vm_ok_same_phys [OF assms(1)]) auto
  qed (use assms(1) in simp)
qed

lemma vm_ok_free:
  assumes "vm_ok k s R" and "\<And>r p. (r, p) \<in> trees k R \<Longrightarrow> node s r p \<noteq> Some a"
  shows "vm_ok k (vm_free a s) R"
proof -
  have b: "vm_base k s" using assms(1) by (simp add: vm_ok_def)
  show ?thesis
    using vm_free_spec [OF b, of a] vm_ok_held(1) [OF assms(1)] assms(2)
    by (intro vm_ok_same_phys [OF assms(1)]) (auto split: if_splits)
qed

section \<open>Creating missing tables\<close>

definition leaf :: "vm \<Rightarrow> nat \<Rightarrow> nat list \<Rightarrow> nat \<Rightarrow> pte option" where
  "leaf s r p i = (case node s r p of None \<Rightarrow> None
     | Some t \<Rightarrow> if present (phys s t i) then Some (phys s t i) else None)"

definition extends :: "nat \<Rightarrow> nat set \<Rightarrow> nat \<Rightarrow> vm \<Rightarrow> vm \<Rightarrow> bool" where
  "extends k R r0 s s' \<longleftrightarrow>
    managed (vm_pmm s') = managed (vm_pmm s) \<and> av s' \<subseteq> av s
    \<and> (\<forall>r p f. (r, p) \<in> trees k R \<longrightarrow> node s r p = Some f \<longrightarrow> node s' r p = Some f)
    \<and> (\<forall>r p f. (r, p) \<in> trees k R \<longrightarrow> node s' r p = Some f \<longrightarrow>
        node s r p = Some f \<or> r = r0 \<and> length p \<le> 3 \<and> f \<in> av s \<and> f \<notin> av s')
    \<and> (\<forall>f. f \<in> av s \<longrightarrow> f \<notin> av s' \<longrightarrow> (\<exists>p. (r0, p) \<in> trees k R \<and> node s' r0 p = Some f))
    \<and> (\<forall>r p i. (r, p) \<in> trees k R \<longrightarrow> length p = 3 \<longrightarrow> leaf s' r p i = leaf s r p i)
    \<and> (\<forall>f. f \<notin> av s \<longrightarrow> (\<forall>p. (r0, p) \<in> trees k R \<longrightarrow> length p < 3 \<longrightarrow> node s r0 p \<noteq> Some f) \<longrightarrow> phys s' f = phys s f)
    \<and> (\<forall>f i. f \<notin> av s \<longrightarrow> present (phys s f i) \<longrightarrow> phys s' f i = phys s f i)"

lemma extends_refl [simp]: "extends k R r0 s s"
  by (simp add: extends_def)

lemma extendsD:
  assumes "extends k R r0 s s'"
  shows "managed (vm_pmm s') = managed (vm_pmm s)" and "av s' \<subseteq> av s"
    and "\<And>r p f. (r, p) \<in> trees k R \<Longrightarrow> node s r p = Some f \<Longrightarrow> node s' r p = Some f"
    and "\<And>r p f. (r, p) \<in> trees k R \<Longrightarrow> node s' r p = Some f \<Longrightarrow>
        node s r p = Some f \<or> r = r0 \<and> length p \<le> 3 \<and> f \<in> av s \<and> f \<notin> av s'"
    and "\<And>f. f \<in> av s \<Longrightarrow> f \<notin> av s' \<Longrightarrow> \<exists>p. (r0, p) \<in> trees k R \<and> node s' r0 p = Some f"
    and "\<And>r p i. (r, p) \<in> trees k R \<Longrightarrow> length p = 3 \<Longrightarrow> leaf s' r p i = leaf s r p i"
    and "\<And>f. f \<notin> av s \<Longrightarrow> (\<And>p. (r0, p) \<in> trees k R \<Longrightarrow> length p < 3 \<Longrightarrow> node s r0 p \<noteq> Some f) \<Longrightarrow> phys s' f = phys s f"
    and "\<And>f i. f \<notin> av s \<Longrightarrow> present (phys s f i) \<Longrightarrow> phys s' f i = phys s f i"
  using assms unfolding extends_def by blast+

lemma extends_trans:
  assumes "extends k R r0 s s1" and "extends k R r0 s1 s2"
  shows "extends k R r0 s s2"
proof -
  note a = extendsD [OF assms(1)] and b = extendsD [OF assms(2)]
  show ?thesis unfolding extends_def
  proof (intro conjI allI impI)
    fix r p f assume "(r, p) \<in> trees k R" "node s2 r p = Some f"
    then show "node s r p = Some f \<or> r = r0 \<and> length p \<le> 3 \<and> f \<in> av s \<and> f \<notin> av s2"
      using a(2,4) b(2,4) by blast
  next
    fix f assume "f \<in> av s" "f \<notin> av s2"
    then show "\<exists>p. (r0, p) \<in> trees k R \<and> node s2 r0 p = Some f" using a(5) b(3,5) by blast
  next
    fix f
    assume f: "f \<notin> av s" "\<forall>p. (r0, p) \<in> trees k R \<longrightarrow> length p < 3 \<longrightarrow> node s r0 p \<noteq> Some f"
    then have "node s1 r0 p \<noteq> Some f" if "(r0, p) \<in> trees k R" "length p < 3" for p using a(4) that by blast
    then show "phys s2 f = phys s f" using a(2,7) b(7) f by (metis subsetD)
  next
    fix f i assume f: "f \<notin> av s" "present (phys s f i)"
    then have "phys s1 f i = phys s f i" by (rule a(8))
    then show "phys s2 f i = phys s f i" using b(8) [of f i] f a(2) by auto
  qed (use a b in auto)
qed

lemma upper_entry_kept:
  assumes ok: "vm_ok k s R" and x: "(r, p @ [i]) \<in> trees k R" "node s r p = Some t" "\<not> present (phys s t i)"
    and u: "u \<in> insert k R" and j: "256 \<le> j" "j < 512"
  shows "\<not> (u = t \<and> j = i)"
proof
  assume a: "u = t \<and> j = i"
  have "(u, []) \<in> trees k R" using u by auto
  then have "u = r \<and> [] = p" using vm_ok_sep [OF ok trees_prefix [OF x(1)] _ x(2), of u "[]"] a by simp
  moreover have "r \<noteq> k"
    using x(3) ok a j calculation unfolding vm_ok_def pt_share_def by auto
  ultimately have "[i] \<in> upaths" using x(1) by (auto simp: trees_def)
  then show False using a j by (simp add: upaths_def)
qed

lemma attach_node:
  assumes held: "pt_held k s R" and sep: "pt_sep k s R" and fr: "is_frame a" and x: "(r, p @ [i]) \<in> trees k R" "node s r p = Some t" "\<not> present (phys s t i)"
    and a: "a \<in> av s" and ph: "phys s' = (phys s)(a := \<lambda>_. 0, t := (phys s t)(i := of_nat a OR 7))"
    and y: "(r', p') \<in> trees k R"
  shows "node s' r' p' = (if r' = r \<and> p' = p @ [i] then Some a else node s r' p')"
proof -
  define s1 where "s1 = set_frame a (\<lambda>_. 0) s"
  have rp: "(r, p) \<in> trees k R" using x(1) by (rule trees_prefix)
  have at: "a \<noteq> t" using pt_heldD [OF held rp x(2)] a by blast
  have n1: "node s1 r' p' = node s r' p'" if "(r', p') \<in> trees k R" for r' p'
  proof (rule node_cong [OF _ that])
    fix r2 p2 j u assume "(r2, p2 @ [j]) \<in> trees k R" "node s r2 p2 = Some u"
    then have "u \<noteq> a" using pt_heldD [OF held trees_prefix] a by blast
    then show "child (phys s1 u j) = child (phys s u j)" by (simp add: s1_def set_frame_def)
  qed
  have sep1: "pt_sep k s1 R" using sep n1 unfolding pt_sep_def by metis
  have ph1: "phys s' = (phys s1)(t := (phys s1 t)(i := of_nat a OR 7))"
    using ph at by (simp add: s1_def set_frame_def fun_upd_twist)
  note other = node_store_pte_other [OF sep1 rp _ ph1, unfolded n1 [OF rp], OF x(2)]
  have t': "node s' r p = Some t"
    using other [OF rp] n1 [OF rp] x(2) by (auto dest: prefix_length_le)
  have new: "node s' r (p @ [i]) = Some a"
    using t' ph table_entry [OF fr] by (simp add: node_snoc child_def)
  show ?thesis
  proof (cases "r' = r \<and> prefix (p @ [i]) p'")
    case True
    then obtain q where q: "p' = (p @ [i]) @ q" by (auto elim: prefixE)
    have "node s r (p @ [i]) = None" using x(2,3) by (simp add: node_snoc child_def)
    then have "node s r p' = None" unfolding q by (rule node_prefix_None)
    moreover have "node s' r p' = None" if "q \<noteq> []"
      unfolding q using ph at new that by (intro node_below_None) (simp_all add: present_def)
    ultimately show ?thesis using new True q by (cases "q = []") auto
  next
    case False
    then show ?thesis using other [OF y False] n1 [OF y] by auto
  qed
qed

lemma attach_plain:
  assumes held: "pt_held k s R" and sep: "pt_sep k s R" and plain: "pt_plain k s R" and fr: "is_frame a"
    and x: "(r, p @ [i]) \<in> trees k R" "node s r p = Some t" "\<not> present (phys s t i)"
    and len: "length p < 3" and a: "a \<in> av s"
    and ph: "phys s' = (phys s)(a := \<lambda>_. 0, t := (phys s t)(i := of_nat a OR 7))"
  shows "pt_plain k s' R"
  unfolding pt_plain_def
proof (intro allI impI)
  note nd = attach_node [OF held sep fr x a ph]
  have rp: "(r, p) \<in> trees k R" using x(1) by (rule trees_prefix)
  have na: "node s r' p' \<noteq> Some a" if "(r', p') \<in> trees k R" for r' p'
    using pt_heldD [OF held that] a by blast
  fix r' p' u j assume y: "(r', p' @ [j]) \<in> trees k R" "node s' r' p' = Some u"
  show "plain (r' \<in> R) p' (phys s' u j)"
  proof (cases "u = a")
    case True
    then have "phys s' u j = 0" using ph na [OF rp] x(2) by auto
    then show ?thesis by simp
  next
    case False
    then have u: "node s r' p' = Some u" using y nd [OF trees_prefix [OF y(1)]] by (auto split: if_splits)
    show ?thesis
    proof (cases "u = t \<and> j = i")
      case True
      then have "p' = p" using pt_sepD [OF sep rp trees_prefix [OF y(1)] x(2)] u by blast
      then show ?thesis using True ph table_entry [OF fr] len by (simp add: plain_def)
    next
      case False
      then have "phys s' u j = phys s u j" using ph \<open>u \<noteq> a\<close> by auto
      then show ?thesis using pt_plainD [OF plain y(1) u] by simp
    qed
  qed
qed

lemma attach_ok:
  assumes ok: "vm_ok k s R" and x: "(r, p @ [i]) \<in> trees k R" "node s r p = Some t" "\<not> present (phys s t i)"
    and len: "length p < 3" and a: "a \<in> av s"
    and ph: "phys s' = (phys s)(a := \<lambda>_. 0, t := (phys s t)(i := of_nat a OR 7))"
    and s': "vm_base k s'" "av s' = av s - {a}" "managed (vm_pmm s') = managed (vm_pmm s)"
  shows "vm_ok k s' R"
proof -
  have hd: "pt_held k s R" "pt_sep k s R" "is_frame a" and pl: "pt_plain k s R"
    using ok avail_frame [OF _ a, of k] by (auto simp: vm_ok_def)
  note nd = attach_node [OF hd x a ph]
  have fr: "managed (vm_pmm s) a" "is_frame a" using avail_frame a ok by (auto simp: vm_ok_def)
  have na: "node s r' p' \<noteq> Some a" if "(r', p') \<in> trees k R" for r' p'
    using vm_ok_held(1) [OF ok that] a by blast
  have none: "node s r (p @ [i]) = None" using x(2,3) by (simp add: node_snoc child_def)
  have "pt_share k s' R" unfolding pt_share_def
  proof (intro allI impI)
    fix j :: nat assume j: "256 \<le> j" "j < 512"
    have "phys s' u j = phys s u j" if "u \<in> insert k R" for u
      using upper_entry_kept [OF ok x that j] na [of u "[]"] that ph by auto
    then show "present (phys s' k j) \<and> (\<forall>r\<in>R. present (phys s' r j) \<and> table_of (phys s' r j) = table_of (phys s' k j))"
      using ok j unfolding vm_ok_def pt_share_def by auto
  qed
  then show ?thesis
    using attach_plain [OF hd(1,2) pl hd(3) x len a ph] na fr s' nd vm_ok_held(1) [OF ok] none
    by (intro vm_ok_node_upd [OF ok s'(1,3), of r "p @ [i]" "Some a"]) auto
qed

lemma attach_extends:
  assumes ok: "vm_ok k s R" and x: "(r, p @ [i]) \<in> trees k R" "node s r p = Some t" "\<not> present (phys s t i)"
    and len: "length p < 3" and a: "a \<in> av s"
    and ph: "phys s' = (phys s)(a := \<lambda>_. 0, t := (phys s t)(i := of_nat a OR 7))"
    and s': "vm_base k s'" "av s' = av s - {a}" "managed (vm_pmm s') = managed (vm_pmm s)"
  shows "extends k R r s s'"
proof -
  have hd: "pt_held k s R" "pt_sep k s R" "is_frame a" and pl: "pt_plain k s R"
    using ok avail_frame [OF _ a, of k] by (auto simp: vm_ok_def)
  note nd = attach_node [OF hd x a ph]
  have rp: "(r, p) \<in> trees k R" using x(1) by (rule trees_prefix)
  have na: "node s r' p' \<noteq> Some a" if "(r', p') \<in> trees k R" for r' p'
    using vm_ok_held(1) [OF ok that] a by blast
  have none: "node s r (p @ [i]) = None" using x(2,3) by (simp add: node_snoc child_def)
  show ?thesis unfolding extends_def
  proof (intro conjI allI impI)
    fix r' p' j assume y: "(r', p') \<in> trees k R" "length p' = 3"
    show "leaf s' r' p' j = leaf s r' p' j"
    proof (cases "r' = r \<and> p' = p @ [i]")
      case True
      then show ?thesis using nd [OF y(1)] none ph na [OF rp] x(2) by (auto simp: leaf_def present_def)
    next
      case False
      then have n: "node s' r' p' = node s r' p'" using nd [OF y(1)] by auto
      have "phys s' u = phys s u" if "node s r' p' = Some u" for u
        using that na [OF y(1)] vm_ok_sep [OF ok rp y(1) x(2)] y(2) len ph by auto
      then show ?thesis using n by (auto simp: leaf_def split: option.splits)
    qed
  next
    fix f j assume "f \<notin> av s" "present (phys s f j)"
    then show "phys s' f j = phys s f j" using ph a x(3) by auto
  next
    fix f assume "f \<notin> av s" "\<forall>p. (r, p) \<in> trees k R \<longrightarrow> length p < 3 \<longrightarrow> node s r p \<noteq> Some f"
    then show "phys s' f = phys s f" using ph a rp len x(2) by auto
  next
    fix f assume "f \<in> av s" "f \<notin> av s'"
    then show "\<exists>p. (r, p) \<in> trees k R \<and> node s' r p = Some f" using s'(2) nd [OF x(1)] x(1) by auto
  qed (use s' nd none len a in \<open>auto split: if_splits\<close>)
qed

lemma next_table_spec:
  assumes ok: "vm_ok k s R" and x: "(r, p @ [i]) \<in> trees k R" "node s r p = Some t" "length p < 3"
    and nh: "p \<noteq> [] \<Longrightarrow> \<not> huge (phys s t i)" and eq: "next_table t i s = (u, s')"
  shows "vm_ok k s' R" and "extends k R r s s'" and "u = None \<Longrightarrow> s' = s \<and> av s = {}"
    and "u = Some f \<Longrightarrow> node s' r (p @ [i]) = Some f"
proof -
  have b: "vm_base k s" using ok by (simp add: vm_ok_def)
  note pl = vm_ok_plain [OF ok x(1,2)]
  have "vm_ok k s' R \<and> extends k R r s s' \<and> (u = None \<longrightarrow> s' = s \<and> av s = {}) \<and> (u = Some f \<longrightarrow> node s' r (p @ [i]) = Some f)" for f
  proof (cases "present (phys s t i)")
    case True
    have "u = Some (table_of (phys s t i))" "s' = s" using eq True by (auto simp: next_table_def)
    moreover have "node s r (p @ [i]) = Some (table_of (phys s t i))"
      using True pl nh x(2,3) table_of_frame by (auto simp: plain_def node_snoc child_def)
    ultimately show ?thesis using ok by simp
  next
    case False
    obtain a s1 where al: "vm_alloc s = (a, s1)" by (cases "vm_alloc s")
    from vm_alloc_cases [OF b al] show ?thesis
    proof (elim disjE conjE)
      assume "a = 0" "s1 = s" "av s = {}"
      then show ?thesis using eq False al ok by (auto simp: next_table_def alloc_page_virt_def PHYS_NULL_def)
    next
      assume a: "a \<in> av s" "phys s1 = phys s" "vm_base k s1" "av s1 = av s - {a}"
        "managed (vm_pmm s1) = managed (vm_pmm s)" "a \<noteq> 0"
      have at: "a \<noteq> t" using vm_ok_held(1) [OF ok trees_prefix [OF x(1)] x(2)] a(1) by blast
      have s': "s' = store_pte t i (of_nat a OR 7) (set_frame a (\<lambda>_. 0) s1)" and u: "u = Some (table_of (of_nat a OR 7))"
        using eq False al a(6) by (auto simp: next_table_def alloc_page_virt_def PHYS_NULL_def store_pte_def Let_def)
      have ph: "phys s' = (phys s)(a := \<lambda>_. 0, t := (phys s t)(i := of_nat a OR 7))"
        using at by (simp add: s' store_pte_def set_frame_def a(2))
      have w: "vm_base k s'" "av s' = av s - {a}" "managed (vm_pmm s') = managed (vm_pmm s)"
        using a by (simp_all add: s' store_pte_def set_frame_def vm_base_def)
      have hd: "pt_held k s R" "pt_sep k s R" "is_frame a" using ok avail_frame [OF b a(1)] by (auto simp: vm_ok_def)
      have "u = Some a" using u table_entry(5) avail_frame [OF b a(1)] by simp
      then show ?thesis
        using attach_ok [OF ok x(1,2) False x(3) a(1) ph w] attach_extends [OF ok x(1,2) False x(3) a(1) ph w]
          attach_node [OF hd x(1,2) False a(1) ph x(1)] by simp
    qed
  qed
  then show "vm_ok k s' R" and "extends k R r s s'" and "u = None \<Longrightarrow> s' = s \<and> av s = {}"
    and "u = Some f \<Longrightarrow> node s' r (p @ [i]) = Some f" by blast+
qed

section \<open>The walk to the last table\<close>

definition path3 :: "nat \<Rightarrow> nat list" where
  "path3 va = [PML4_IDX va, PDPT_IDX va, PD_IDX va]"

text \<open>Addresses the operations are used for: any of the upper half in the kernel's tables, any of the lower half in a
  user address space.\<close>

definition in_tree :: "nat \<Rightarrow> nat set \<Rightarrow> nat \<Rightarrow> nat \<Rightarrow> bool" where
  "in_tree k R r va \<longleftrightarrow> r = k \<and> 256 \<le> PML4_IDX va \<or> r \<in> R \<and> va < 2 ^ 47"

lemma IDX_less [simp]: "PML4_IDX va < 512" "PDPT_IDX va < 512" "PD_IDX va < 512" "PT_IDX va < 512"
  by (simp_all add: PML4_IDX_def PDPT_IDX_def PD_IDX_def PT_IDX_def)

lemma user_PML4_IDX: "va < 2 ^ 47 \<Longrightarrow> PML4_IDX va < 256"
  by (simp add: PML4_IDX_def)

lemma in_tree_paths:
  assumes "in_tree k R r va"
  shows "(r, [] @ [PML4_IDX va]) \<in> trees k R" and "(r, [PML4_IDX va] @ [PDPT_IDX va]) \<in> trees k R"
    and "(r, [PML4_IDX va, PDPT_IDX va] @ [PD_IDX va]) \<in> trees k R" and "(r, path3 va) \<in> trees k R"
  using assms user_PML4_IDX [of va] by (auto simp: in_tree_def trees_def upaths_def kpaths_def path3_def)

text \<open>One level of the walk with its check for a huge page.\<close>

definition down :: "nat \<Rightarrow> nat \<Rightarrow> vm \<Rightarrow> nat option \<times> vm" where
  "down t i s = (if huge (phys s t i) then (None, s) else next_table t i s)"

lemma down_spec:
  assumes ok: "vm_ok k s R" and x: "(r, p @ [i]) \<in> trees k R" "node s r p = Some t" "length p < 3"
    and eq: "down t i s = (u, s')"
  shows "vm_ok k s' R" and "extends k R r s s'" and "u = None \<Longrightarrow> s' = s \<and> (r \<in> R \<longrightarrow> av s = {})"
    and "u = Some f \<Longrightarrow> node s' r (p @ [i]) = Some f"
  using next_table_spec [OF ok x] vm_ok_plain [OF ok x(1,2)] eq ok
  by (auto simp: down_def plain_def split: if_splits)

lemma map_walk_down:
  assumes "\<not> huge (phys s r (PML4_IDX va))"
  shows "map_walk r va pa fl s =
    (case down r (PML4_IDX va) s of (None, s1) \<Rightarrow> (False, s1)
     | (Some pdpt, s1) \<Rightarrow> (case down pdpt (PDPT_IDX va) s1 of (None, s2) \<Rightarrow> (False, s2)
        | (Some pd, s2) \<Rightarrow> (case down pd (PD_IDX va) s2 of (None, s3) \<Rightarrow> (False, s3)
           | (Some pt, s3) \<Rightarrow> (True, store_pte pt (PT_IDX va) (mk_pte pa fl) s3))))"
  using assms unfolding map_walk_def mk_pte_def down_def
  by (auto split: prod.splits option.splits)

lemma map_walk_spec:
  assumes ok: "vm_ok k s R" and x: "in_tree k R r va" and eq: "map_walk r va pa fl s = (b, s')"
  obtains s1 pt where "vm_ok k s1 R" and "extends k R r s s1"
    and "if b then node s1 r (path3 va) = Some pt \<and> s' = store_pte pt (PT_IDX va) (mk_pte pa fl) s1
         else s' = s1 \<and> (r \<in> R \<longrightarrow> av s1 = {})"
proof -
  note P = in_tree_paths [OF x]
  have nh: "\<not> huge (phys s r (PML4_IDX va))" using vm_ok_plain [OF ok P(1) node_Nil] by (simp add: plain_def)
  note eq' = eq [unfolded map_walk_down [OF nh]]
  obtain u1 s1 where e1: "down r (PML4_IDX va) s = (u1, s1)" by (cases "down r (PML4_IDX va) s")
  note n1 = down_spec [OF ok P(1) node_Nil _ e1]
  have k1: "vm_ok k s1 R" and x1: "extends k R r s s1" using n1(1,2) by simp_all
  show ?thesis
  proof (cases u1)
    case None
    then show ?thesis using eq' e1 n1(3) by (intro that [OF k1 x1]) auto
  next
    case (Some t1)
    have t1: "node s1 r [PML4_IDX va] = Some t1" using n1(4) [OF _ Some] by simp
    obtain u2 s2 where e2: "down t1 (PDPT_IDX va) s1 = (u2, s2)" by (cases "down t1 (PDPT_IDX va) s1")
    note n2 = down_spec [OF k1 P(2) t1 _ e2]
    have k2: "vm_ok k s2 R" and x2: "extends k R r s s2" using n2(1,2) extends_trans [OF x1] by simp_all
    show ?thesis
    proof (cases u2)
      case None
      then show ?thesis using eq' e1 e2 Some n2(3) by (intro that [OF k2 x2]) auto
    next
      case t: (Some t2)
      have t2: "node s2 r [PML4_IDX va, PDPT_IDX va] = Some t2" using n2(4) [OF _ t] by simp
      obtain u3 s3 where e3: "down t2 (PD_IDX va) s2 = (u3, s3)" by (cases "down t2 (PD_IDX va) s2")
      note n3 = down_spec [OF k2 P(3) t2 _ e3]
      have k3: "vm_ok k s3 R" and x3: "extends k R r s s3" using n3(1,2) extends_trans [OF x2] by simp_all
      show ?thesis
      proof (cases u3)
        case None
        then show ?thesis using eq' e1 e2 e3 Some t n3(3) by (intro that [OF k3 x3]) auto
      next
        case u: (Some t3)
        then show ?thesis using eq' e1 e2 e3 Some t n3(4) [OF _ u]
          by (intro that [OF k3 x3, of t3]) (auto simp: path3_def)
      qed
    qed
  qed
qed

text \<open>A walk in a user address space takes one frame for each missing table, so it fails only with fewer than three
  frames at hand.\<close>

lemma down_few:
  assumes "vm_base k s" and "down t i s = (u, s')"
  shows "\<exists>f. av s \<subseteq> insert f (av s')"
proof -
  obtain a s1 where al: "vm_alloc s = (a, s1)" by (cases "vm_alloc s")
  have "av s \<subseteq> insert a (av s1)" using vm_alloc_cases [OF assms(1) al] by auto
  moreover have "av s' = av s1 \<or> s' = s" using assms(2) al
    by (cases "a = 0") (auto simp: down_def next_table_def alloc_page_virt_def PHYS_NULL_def store_pte_def set_frame_def Let_def
        split: if_splits)
  ultimately show ?thesis by blast
qed

lemma map_walk_fail_few:
  assumes ok: "vm_ok k s R" and x: "in_tree k R r va" and r: "r \<in> R" and eq: "map_walk r va pa fl s = (False, s')"
  shows "card (av s) \<le> 2"
proof -
  note P = in_tree_paths [OF x]
  have nh: "\<not> huge (phys s r (PML4_IDX va))" using vm_ok_plain [OF ok P(1) node_Nil] by (simp add: plain_def)
  note eq' = eq [unfolded map_walk_down [OF nh]]
  have few: "card A \<le> 2" if "A \<subseteq> {f, g}" for A :: "nat set" and f g
    using card_mono [OF _ that] card_insert_le_m1 [of 2 "{g}" f] by simp
  obtain u1 s1 where e1: "down r (PML4_IDX va) s = (u1, s1)" by (cases "down r (PML4_IDX va) s")
  note n1 = down_spec [OF ok P(1) node_Nil _ e1]
  have k1: "vm_ok k s1 R" using n1(1) by simp
  obtain f where f: "av s \<subseteq> insert f (av s1)" using down_few [OF _ e1, of k] ok by (auto simp: vm_ok_def)
  show ?thesis
  proof (cases u1)
    case None
    then show ?thesis using n1(3) r by simp
  next
    case (Some t1)
    have t1: "node s1 r [PML4_IDX va] = Some t1" using n1(4) [OF _ Some] by simp
    obtain u2 s2 where e2: "down t1 (PDPT_IDX va) s1 = (u2, s2)" by (cases "down t1 (PDPT_IDX va) s1")
    note n2 = down_spec [OF k1 P(2) t1 _ e2]
    have k2: "vm_ok k s2 R" using n2(1) by simp
    obtain g where g: "av s1 \<subseteq> insert g (av s2)" using down_few [OF _ e2, of k] k1 by (auto simp: vm_ok_def)
    show ?thesis
    proof (cases u2)
      case None
      then show ?thesis using n2(3) r f by (intro few [of _ f f]) auto
    next
      case t: (Some t2)
      have t2: "node s2 r [PML4_IDX va, PDPT_IDX va] = Some t2" using n2(4) [OF _ t] by simp
      obtain u3 s3 where e3: "down t2 (PD_IDX va) s2 = (u3, s3)" by (cases "down t2 (PD_IDX va) s2")
      note n3 = down_spec [OF k2 P(3) t2 _ e3]
      have "u3 = None" using eq' e1 e2 e3 Some t by (cases u3) auto
      then have "av s2 = {}" using n3(3) r by simp
      then show ?thesis using f g by (intro few [of _ f g]) auto
    qed
  qed
qed

section \<open>Stores into the last table\<close>

lemma store_leaf_nodes:
  assumes ok: "vm_ok k s R" and x: "(r, p) \<in> trees k R" "length p = 3" "node s r p = Some t"
    and y: "(r', p') \<in> trees k R"
  shows "node (store_pte t i e s) r' p' = (if r' = r \<and> p' = p @ [i] then child e else node s r' p')"
proof -
  have sep: "pt_sep k s R" using ok by (simp add: vm_ok_def)
  have ph: "phys (store_pte t i e s) = (phys s)(t := (phys s t)(i := e))" by (simp add: store_pte_def)
  note other = node_store_pte_other [OF sep x(1,3) ph]
  have t': "node (store_pte t i e s) r p = Some t" using other [OF x(1)] x(3) by (auto dest: prefix_length_le)
  have "p' = p @ [i]" if "prefix (p @ [i]) p'"
  proof -
    have "length p' \<le> 4" using y by (auto simp: trees_def upaths_def kpaths_def)
    then show ?thesis using that x(2) by (auto elim!: prefixE)
  qed
  then show ?thesis using other [OF y] node_snocI [OF t', of i] ph by auto
qed

lemma store_leaf_leaf:
  assumes ok: "vm_ok k s R" and x: "(r, p) \<in> trees k R" "length p = 3" "node s r p = Some t"
    and y: "(r', p') \<in> trees k R" "length p' = 3"
  shows "leaf (store_pte t i e s) r' p' j =
    (if r' = r \<and> p' = p \<and> j = i then (if present e then Some e else None) else leaf s r' p' j)"
proof -
  have n: "node (store_pte t i e s) r' p' = node s r' p'"
    using store_leaf_nodes [OF ok x y(1)] y(2) x(2) by auto
  have "phys (store_pte t i e s) u j = (if r' = r \<and> p' = p \<and> j = i then e else phys s u j)" if "node s r' p' = Some u" for u
    using that x(3) vm_ok_sep [OF ok x(1) y(1) x(3)] by (auto simp: store_pte_def)
  then show ?thesis using n x(3) by (auto simp: leaf_def split: option.splits)
qed

lemma store_leaf_ok:
  assumes ok: "vm_ok k s R" and x: "(r, p) \<in> trees k R" "length p = 3" "node s r p = Some t"
    and e: "(r, p @ [i]) \<in> trees k R \<Longrightarrow> plain (r \<in> R) p e"
    and f: "\<And>f. (r, p @ [i]) \<in> trees k R \<Longrightarrow> child e = Some f \<Longrightarrow> node s r (p @ [i]) \<noteq> Some f \<Longrightarrow>
        (\<forall>r p. (r, p) \<in> trees k R \<longrightarrow> node s r p \<noteq> Some f) \<and> f \<notin> av s \<and> managed (vm_pmm s) f"
  shows "vm_ok k (store_pte t i e s) R"
proof -
  let ?s = "store_pte t i e s" and ?v = "if (r, p @ [i]) \<in> trees k R then child e else node s r (p @ [i])"
  note nd = store_leaf_nodes [OF ok x]
  have b: "vm_base k ?s" "managed (vm_pmm ?s) = managed (vm_pmm s)" "av ?s = av s"
    using ok by (simp_all add: store_pte_def vm_ok_def vm_base_def)
  have ne: "phys ?s u j = phys s u j" if "(r', p') \<in> trees k R" "node s r' p' = Some u" "(r', p') \<noteq> (r, p) \<or> j \<noteq> i" for r' p' u j
    using that vm_ok_sep [OF ok x(1) that(1) x(3)] by (auto simp: store_pte_def)
  have "pt_plain k ?s R" unfolding pt_plain_def
  proof (intro allI impI)
    fix r' p' u j assume y: "(r', p' @ [j]) \<in> trees k R" "node ?s r' p' = Some u"
    have "length p' \<le> 3" using y(1) by (auto simp: trees_def upaths_def kpaths_def)
    then have u: "node s r' p' = Some u" using nd [OF trees_prefix [OF y(1)]] y(2) x(2) by (auto split: if_splits)
    show "plain (r' \<in> R) p' (phys ?s u j)"
    proof (cases "(r', p') = (r, p) \<and> j = i")
      case True
      then show ?thesis using e y(1) u x(3) by (auto simp: store_pte_def)
    next
      case False
      then show ?thesis using ne [OF trees_prefix [OF y(1)] u] vm_ok_plain [OF ok y(1) u] by auto
    qed
  qed
  moreover have "pt_share k ?s R" unfolding pt_share_def
  proof (intro allI impI)
    fix j :: nat assume j: "256 \<le> j" "j < 512"
    have "p \<noteq> []" using x(2) by auto
    then have "phys ?s u j = phys s u j" if "u \<in> insert k R" for u using ne [of u "[]" u j] that by auto
    then show "present (phys ?s k j) \<and> (\<forall>r\<in>R. present (phys ?s r j) \<and> table_of (phys ?s r j) = table_of (phys ?s k j))"
      using ok j unfolding vm_ok_def pt_share_def by auto
  qed
  ultimately show ?thesis
    using nd b f vm_ok_held(1) [OF ok]
    by (intro vm_ok_node_upd [OF ok b(1,2), of r "p @ [i]" ?v]) (auto split: if_splits)
qed

section \<open>What an address is mapped to\<close>

text \<open>The entry of a 4 KiB page, as the walks of the source find it.\<close>

definition lookup :: "vm \<Rightarrow> nat \<Rightarrow> nat \<Rightarrow> pte option" where
  "lookup s r va = (case find_pt r va s of None \<Rightarrow> None | Some pt \<Rightarrow> Some (phys s pt (PT_IDX va)))"

definition same_page :: "nat \<Rightarrow> nat \<Rightarrow> bool" where
  "same_page va va' \<longleftrightarrow> va div 4096 mod 2 ^ 36 = va' div 4096 mod 2 ^ 36"

lemma digit_eq: "a + 512 * b = a' + 512 * b' \<Longrightarrow> a < 512 \<Longrightarrow> a' < 512 \<Longrightarrow> a = a' \<and> b = (b' :: nat)"
proof -
  assume e: "a + 512 * b = a' + 512 * b'" "a < 512" "a' < 512"
  have "(a + 512 * b) mod 512 = (a' + 512 * b') mod 512" by (simp only: e(1))
  then have "a = a'" using e(2,3) by simp
  then show ?thesis using e(1) by simp
qed

lemma page_digits:
  "v div 4096 mod 2 ^ 36 = PT_IDX v + 512 * (PD_IDX v + 512 * (PDPT_IDX v + 512 * PML4_IDX v))"
proof -
  define w where "w = v div 4096"
  have i: "PML4_IDX v = w div 512 div 512 div 512 mod 512" "PDPT_IDX v = w div 512 div 512 mod 512"
    "PD_IDX v = w div 512 mod 512" "PT_IDX v = w mod 512"
    by (simp_all add: PML4_IDX_def PDPT_IDX_def PD_IDX_def PT_IDX_def w_def div_mult2_eq [symmetric])
  have "(2 :: nat) ^ 36 = 512 * (512 * (512 * 512))" by simp
  then have "w mod 2 ^ 36 = 512 * (w div 512 mod (512 * (512 * 512))) + w mod 512"
    using mod_mult2_eq [of w 512 "512 * (512 * 512)"] by presburger
  also have "w div 512 mod (512 * (512 * 512)) = 512 * (w div 512 div 512 mod (512 * 512)) + w div 512 mod 512"
    by (rule mod_mult2_eq)
  also have "w div 512 div 512 mod (512 * 512) = 512 * (w div 512 div 512 div 512 mod 512) + w div 512 div 512 mod 512"
    by (rule mod_mult2_eq)
  finally show ?thesis unfolding i w_def [symmetric] by (simp only: add.commute)
qed

lemma same_page_path: "same_page va va' \<longleftrightarrow> path3 va = path3 va' \<and> PT_IDX va = PT_IDX va'"
proof
  assume "same_page va va'"
  then have "PT_IDX va + 512 * (PD_IDX va + 512 * (PDPT_IDX va + 512 * PML4_IDX va)) =
      PT_IDX va' + 512 * (PD_IDX va' + 512 * (PDPT_IDX va' + 512 * PML4_IDX va'))"
    unfolding same_page_def page_digits .
  then have 1: "PT_IDX va = PT_IDX va' \<and> PD_IDX va + 512 * (PDPT_IDX va + 512 * PML4_IDX va) =
      PD_IDX va' + 512 * (PDPT_IDX va' + 512 * PML4_IDX va')" by (rule digit_eq) simp_all
  then have 2: "PD_IDX va = PD_IDX va' \<and> PDPT_IDX va + 512 * PML4_IDX va = PDPT_IDX va' + 512 * PML4_IDX va'"
    by (intro digit_eq) simp_all
  then have "PDPT_IDX va = PDPT_IDX va' \<and> PML4_IDX va = PML4_IDX va'" by (intro digit_eq) simp_all
  then show "path3 va = path3 va' \<and> PT_IDX va = PT_IDX va'" using 1 2 by (simp add: path3_def)
next
  assume "path3 va = path3 va' \<and> PT_IDX va = PT_IDX va'"
  then show "same_page va va'" unfolding same_page_def page_digits by (simp add: path3_def)
qed

lemma find_pt_node:
  assumes ok: "vm_ok k s R" and x: "in_tree k R r va"
  shows "find_pt r va s = (case node s r (path3 va) of None \<Rightarrow> None
    | Some pt \<Rightarrow> if present (phys s pt (PT_IDX va)) then Some pt else None)"
proof -
  note P = in_tree_paths [OF x]
  have step: "node s r (p @ [i]) = (if present (phys s t i) \<and> \<not> huge (phys s t i) then Some (table_of (phys s t i)) else None)"
    if "(r, p @ [i]) \<in> trees k R" "node s r p = Some t" "length p < 3" for p i t
    using vm_ok_plain [OF ok that(1,2)] that(2,3) table_of_frame by (auto simp: node_snoc child_def plain_def)
  have "\<not> huge (phys s r (PML4_IDX va))" using vm_ok_plain [OF ok P(1) node_Nil] by (simp add: plain_def)
  then have n1: "node s r [PML4_IDX va] =
      (if present (phys s r (PML4_IDX va)) then Some (table_of (phys s r (PML4_IDX va))) else None)"
    using step [OF P(1) node_Nil] by simp
  show ?thesis
    using n1 step [OF P(2)] step [OF P(3)] node_prefix_None [of s r "[PML4_IDX va]" "[PDPT_IDX va, PD_IDX va]"]
      node_prefix_None [of s r "[PML4_IDX va, PDPT_IDX va]" "[PD_IDX va]"]
    by (auto simp: find_pt_def Let_def path3_def)
qed

lemma lookup_leaf: "vm_ok k s R \<Longrightarrow> in_tree k R r va \<Longrightarrow> lookup s r va = leaf s r (path3 va) (PT_IDX va)"
  by (simp add: lookup_def leaf_def find_pt_node split: option.splits)

lemma extends_lookup:
  "vm_ok k s R \<Longrightarrow> vm_ok k s' R \<Longrightarrow> extends k R r0 s s' \<Longrightarrow> in_tree k R r va \<Longrightarrow> lookup s' r va = lookup s r va"
  using extendsD(6) [of k R r0 s s' r "path3 va" "PT_IDX va"] by (simp add: lookup_leaf in_tree_paths(4)) (simp add: path3_def)

lemma store_leaf_lookup:
  assumes "vm_ok k s R" and "vm_ok k (store_pte t (PT_IDX va) e s) R"
    and "in_tree k R r va" and "node s r (path3 va) = Some t" and "in_tree k R r' va'"
  shows "lookup (store_pte t (PT_IDX va) e s) r' va' =
    (if r' = r \<and> same_page va va' then (if present e then Some e else None) else lookup s r' va')"
  using store_leaf_leaf [OF assms(1) in_tree_paths(4) [OF assms(3)] _ assms(4) in_tree_paths(4) [OF assms(5)]]
  by (auto simp: lookup_leaf [OF assms(1,5)] lookup_leaf [OF assms(2,5)] same_page_path path3_def)

end
