(* ===== verification/Paging_Ops.thy ===== *)
theory Paging_Ops
  imports Paging_Map
begin

text \<open>
  The operations on single pages keep the invariant of the page tables and change what exactly one page of one address
  space is mapped to; frames are neither lost nor used twice on any path, the failing ones included.
\<close>

section \<open>The shared-memory window\<close>

lemma user_page:
  assumes "va < 2 ^ 47"
  shows "va_path (path3 va @ [PT_IDX va]) = va div 4096 * 4096"
proof -
  have "va_path (path3 va @ [PT_IDX va]) = (va div 4096 mod 2 ^ 36) * 4096"
    unfolding page_digits by (simp add: va_path_def path3_def va_of_def)
  moreover have "va div 4096 < 2 ^ 36" using assms by simp
  ultimately show ?thesis by simp
qed

lemma shm_page: "kz_shm_va_excluded (va div 4096 * 4096) \<longleftrightarrow> kz_shm_va_excluded va"
  unfolding kz_shm_va_excluded_def KZ_SHM_BASE_def KZ_SHM_END_def KZ_SHM_MAX_RES_def KZ_SHM_SLOT_SIZE_def
  by simp linarith

lemma user_leaf_path:
  assumes "va < 2 ^ 47"
  shows "path3 va @ [PT_IDX va] \<in> upaths \<longleftrightarrow> \<not> kz_shm_va_excluded va"
  unfolding upaths_def using user_page [OF assms] shm_page [of va] user_PML4_IDX [OF assms]
  by (simp add: path3_def)

section \<open>Frames in use\<close>

definition owned :: "nat \<Rightarrow> vm \<Rightarrow> nat set \<Rightarrow> nat set" where
  "owned k s R = {f. \<exists>r p. (r, p) \<in> trees k R \<and> node s r p = Some f}"

definition fresh :: "nat \<Rightarrow> vm \<Rightarrow> nat set \<Rightarrow> nat \<Rightarrow> bool" where
  "fresh k s R f \<longleftrightarrow> managed (vm_pmm s) f \<and> f \<notin> av s \<and> f \<notin> owned k s R"

definition pages_kept :: "nat set \<Rightarrow> vm \<Rightarrow> vm \<Rightarrow> bool" where
  "pages_kept R s s' \<longleftrightarrow> (\<forall>r\<in>R. \<forall>p\<in>upaths. \<forall>f. length p = 4 \<longrightarrow> node s r p = Some f \<longrightarrow> phys s' f = phys s f)"

lemma ownedI: "(r, p) \<in> trees k R \<Longrightarrow> node s r p = Some f \<Longrightarrow> f \<in> owned k s R"
  by (auto simp: owned_def)

lemma extends_owned:
  assumes "extends k R r0 s s'"
  shows "owned k s' R = owned k s R \<union> (av s - av s')"
proof (intro subset_antisym subsetI)
  fix f assume "f \<in> owned k s' R"
  then obtain r p where rp: "(r, p) \<in> trees k R" "node s' r p = Some f" by (auto simp: owned_def)
  show "f \<in> owned k s R \<union> (av s - av s')" using extendsD(4) [OF assms rp] ownedI [OF rp(1)] by blast
next
  fix f assume "f \<in> owned k s R \<union> (av s - av s')"
  then show "f \<in> owned k s' R"
  proof
    assume "f \<in> owned k s R"
    then obtain r p where rp: "(r, p) \<in> trees k R" "node s r p = Some f" by (auto simp: owned_def)
    show ?thesis by (rule ownedI [OF rp(1) extendsD(3) [OF assms rp]])
  next
    assume "f \<in> av s - av s'"
    then obtain p where "(r0, p) \<in> trees k R" "node s' r0 p = Some f" using extendsD(5) [OF assms, of f] by auto
    then show ?thesis by (rule ownedI)
  qed
qed

lemma extends_fresh:
  assumes "extends k R r0 s s'" and "fresh k s R f"
  shows "fresh k s' R f"
  using extends_owned [OF assms(1)] extendsD(1,2) [OF assms(1)] assms(2) by (auto simp: fresh_def)

lemma avail_not_owned: "vm_ok k s R \<Longrightarrow> f \<in> av s \<Longrightarrow> f \<notin> owned k s R"
  using vm_ok_held(1) by (auto simp: owned_def)

lemma extends_pages:
  assumes ok: "vm_ok k s R" and x: "extends k R r0 s s'"
  shows "pages_kept R s s'"
  unfolding pages_kept_def
proof (intro ballI allI impI)
  fix r p f assume r: "r \<in> R" "p \<in> upaths" "length p = 4" "node s r p = Some f"
  have t: "(r, p) \<in> trees k R" using r by (simp add: trees_def)
  have "node s r0 q \<noteq> Some f" if "(r0, q) \<in> trees k R" "length q < 3" for q
    using vm_ok_sep [OF ok t that(1) r(4)] that(2) r(3) by auto
  then show "phys s' f = phys s f" using extendsD(7) [OF x vm_ok_held(1) [OF ok t r(4)]] by simp
qed

lemma store_leaf_pages:
  assumes ok: "vm_ok k s R" and x: "(r, p) \<in> trees k R" "length p = 3" "node s r p = Some t"
  shows "pages_kept R s (store_pte t i e s)"
  unfolding pages_kept_def
proof (intro ballI allI impI)
  fix r' p' f assume r: "r' \<in> R" "p' \<in> upaths" "length p' = 4" "node s r' p' = Some f"
  have "(r', p') \<in> trees k R" using r by (simp add: trees_def)
  then have "f \<noteq> t" using vm_ok_sep [OF ok x(1) _ x(3)] r x(2) by force
  then show "phys (store_pte t i e s) f = phys s f" by (simp add: store_pte_def)
qed

section \<open>Mapping\<close>

definition may_map :: "nat \<Rightarrow> vm \<Rightarrow> nat set \<Rightarrow> nat \<Rightarrow> nat \<Rightarrow> nat \<Rightarrow> bool" where
  "may_map k s R r va pa \<longleftrightarrow> is_frame pa \<and> (r \<in> R \<longrightarrow> \<not> kz_shm_va_excluded va \<longrightarrow> fresh k s R pa)"

lemma in_tree_leaf:
  assumes "in_tree k R r va" and "k \<notin> R"
  shows "(r, path3 va @ [PT_IDX va]) \<in> trees k R \<longleftrightarrow> r \<in> R \<and> \<not> kz_shm_va_excluded va"
  using assms user_leaf_path [of va] by (auto simp: in_tree_def trees_def kpaths_def path3_def)

lemma map_store_ok:
  assumes ok: "vm_ok k s R" and x: "in_tree k R r va" and pt: "node s r (path3 va) = Some pt"
    and pa: "may_map k s R r va pa" and fl: "flags_ok fl"
  shows "vm_ok k (store_pte pt (PT_IDX va) (mk_pte pa fl) s) R"
proof (rule store_leaf_ok [OF ok in_tree_paths(4) [OF x] _ pt])
  have k: "k \<notin> R" using ok by (simp add: vm_ok_def)
  have fr: "is_frame pa" using pa by (simp add: may_map_def)
  show "plain (r \<in> R) (path3 va) (mk_pte pa fl)" using fl fr by (simp add: plain_def path3_def)
  fix f assume l: "(r, path3 va @ [PT_IDX va]) \<in> trees k R" and c: "child (mk_pte pa fl) = Some f"
  have "f = pa" using c fl fr by (simp add: child_def)
  moreover have "fresh k s R pa" using l in_tree_leaf [OF x k] pa by (simp add: may_map_def)
  ultimately show "(\<forall>r p. (r, p) \<in> trees k R \<longrightarrow> node s r p \<noteq> Some f) \<and> f \<notin> av s \<and> managed (vm_pmm s) f"
    by (auto simp: fresh_def owned_def)
qed (simp add: path3_def)

lemma map_walk_ok:
  assumes ok: "vm_ok k s R" and x: "in_tree k R r va" and pa: "may_map k s R r va pa" and fl: "flags_ok fl"
    and eq: "map_walk r va pa fl s = (b, s')"
  shows "vm_ok k s' R" and "pages_kept R s s'" and "\<not> b \<Longrightarrow> r \<in> R \<Longrightarrow> av s' = {}"
    and "in_tree k R r' va' \<Longrightarrow> lookup s' r' va' =
      (if b \<and> r' = r \<and> same_page va va' then Some (mk_pte pa fl) else lookup s r' va')"
proof -
  obtain s1 pt where s1: "vm_ok k s1 R" and e: "extends k R r s s1"
    and c: "if b then node s1 r (path3 va) = Some pt \<and> s' = store_pte pt (PT_IDX va) (mk_pte pa fl) s1
         else s' = s1 \<and> (r \<in> R \<longrightarrow> av s1 = {})" by (rule map_walk_spec [OF ok x eq])
  have pa1: "may_map k s1 R r va pa" using pa extends_fresh [OF e] by (auto simp: may_map_def)
  have "vm_ok k s' R \<and> pages_kept R s s' \<and> (in_tree k R r' va' \<longrightarrow> lookup s' r' va' =
      (if b \<and> r' = r \<and> same_page va va' then Some (mk_pte pa fl) else lookup s r' va'))"
  proof (cases b)
    case True
    then have pt: "node s1 r (path3 va) = Some pt" and s': "s' = store_pte pt (PT_IDX va) (mk_pte pa fl) s1"
      using c by auto
    have ok': "vm_ok k s' R" unfolding s' by (rule map_store_ok [OF s1 x pt pa1 fl])
    have "pages_kept R s1 s'" unfolding s'
      by (rule store_leaf_pages [OF s1 in_tree_paths(4) [OF x] _ pt]) (simp add: path3_def)
    then have "pages_kept R s s'"
      using extends_pages [OF ok e] extendsD(3) [OF e] unfolding pages_kept_def trees_def by fastforce
    then show ?thesis
      using True ok' store_leaf_lookup [OF s1 ok' [unfolded s'] x pt] extends_lookup [OF ok s1 e] fl
      unfolding s' by (auto simp: mk_pte_present)
  next
    case False
    then show ?thesis using c s1 extends_pages [OF ok e] extends_lookup [OF ok s1 e] by auto
  qed
  then show "vm_ok k s' R" and "pages_kept R s s'" and "in_tree k R r' va' \<Longrightarrow> lookup s' r' va' =
      (if b \<and> r' = r \<and> same_page va va' then Some (mk_pte pa fl) else lookup s r' va')" by blast+
  show "\<not> b \<Longrightarrow> r \<in> R \<Longrightarrow> av s' = {}" using c by auto
qed

lemma store_leaf_owned:
  assumes ok: "vm_ok k s R" and x: "(r, p) \<in> trees k R" "length p = 3" "node s r p = Some t"
  shows "owned k (store_pte t i e s) R = (if (r, p @ [i]) \<in> trees k R
    then owned k s R - set_option (node s r (p @ [i])) \<union> set_option (child e) else owned k s R)" (is "?L = ?R")
proof -
  let ?s = "store_pte t i e s"
  note nd = store_leaf_nodes [OF ok x]
  show ?thesis
  proof (intro subset_antisym subsetI)
    fix f assume "f \<in> ?L"
    then obtain r' p' where f: "(r', p') \<in> trees k R" "node ?s r' p' = Some f" by (auto simp: owned_def)
    show "f \<in> ?R"
    proof (cases "r' = r \<and> p' = p @ [i]")
      case True
      then show ?thesis using f nd [OF f(1)] by simp
    next
      case False
      then have n: "node s r' p' = Some f" using f nd [OF f(1)] by auto
      have "node s r (p @ [i]) \<noteq> Some f" if "(r, p @ [i]) \<in> trees k R"
        using vm_ok_sep [OF ok f(1) that n] False by auto
      then show ?thesis using ownedI [OF f(1) n] by auto
    qed
  next
    fix f assume f: "f \<in> ?R"
    show "f \<in> ?L"
    proof (cases "(r, p @ [i]) \<in> trees k R \<and> child e = Some f")
      case True
      then show ?thesis using nd [of r "p @ [i]"] by (auto intro: ownedI)
    next
      case False
      then have "f \<in> owned k s R" and d: "(r, p @ [i]) \<in> trees k R \<Longrightarrow> node s r (p @ [i]) \<noteq> Some f"
        using f by (auto split: if_splits)
      then obtain r' p' where q: "(r', p') \<in> trees k R" "node s r' p' = Some f" by (auto simp: owned_def)
      then have "node ?s r' p' = Some f" using nd [OF q(1)] d by auto
      then show ?thesis by (rule ownedI [OF q(1)])
    qed
  qed
qed

lemma leaf_node:
  assumes ok: "vm_ok k s R" and x: "in_tree k R r va" and l: "(r, path3 va @ [PT_IDX va]) \<in> trees k R"
  shows "node s r (path3 va @ [PT_IDX va]) = map_option pte_frame (lookup s r va)"
proof -
  have "r \<in> R" using in_tree_leaf [OF x] l ok by (simp add: vm_ok_def)
  then have "\<not> huge (phys s t (PT_IDX va))" if "node s r (path3 va) = Some t" for t
    using vm_ok_plain [OF ok l that] by (simp add: plain_def)
  then show ?thesis using lookup_leaf [OF ok x] by (auto simp: leaf_def node_snoc child_def split: option.splits)
qed

lemma map_walk_owned:
  assumes ok: "vm_ok k s R" and x: "in_tree k R r va" and pa: "may_map k s R r va pa" and fl: "flags_ok fl"
    and eq: "map_walk r va pa fl s = (b, s')" and new: "lookup s r va = None"
  shows "av s' \<subseteq> av s" and "managed (vm_pmm s') = managed (vm_pmm s)"
    and "av s' \<union> owned k s' R = av s \<union> owned k s R \<union> (if b \<and> r \<in> R \<and> \<not> kz_shm_va_excluded va then {pa} else {})"
proof -
  obtain s1 pt where s1: "vm_ok k s1 R" and e: "extends k R r s s1"
    and c: "if b then node s1 r (path3 va) = Some pt \<and> s' = store_pte pt (PT_IDX va) (mk_pte pa fl) s1
         else s' = s1 \<and> (r \<in> R \<longrightarrow> av s1 = {})" by (rule map_walk_spec [OF ok x eq])
  have a: "av s' = av s1" "managed (vm_pmm s') = managed (vm_pmm s1)" using c by (auto simp: store_pte_def split: if_splits)
  then show "av s' \<subseteq> av s" "managed (vm_pmm s') = managed (vm_pmm s)" using extendsD(1,2) [OF e] by simp_all
  have ext: "av s1 \<union> owned k s1 R = av s \<union> owned k s R" using extends_owned [OF e] extendsD(2) [OF e] by blast
  have k: "k \<notin> R" using ok by (simp add: vm_ok_def)
  have fr: "is_frame pa" using pa by (simp add: may_map_def)
  show "av s' \<union> owned k s' R = av s \<union> owned k s R \<union> (if b \<and> r \<in> R \<and> \<not> kz_shm_va_excluded va then {pa} else {})"
  proof (cases b)
    case True
    then have pt: "node s1 r (path3 va) = Some pt" and s': "s' = store_pte pt (PT_IDX va) (mk_pte pa fl) s1"
      using c by auto
    have l3: "length (path3 va) = 3" by (simp add: path3_def)
    have new1: "lookup s1 r va = None" using extends_lookup [OF ok s1 e x] new by simp
    show ?thesis
      using store_leaf_owned [OF s1 in_tree_paths(4) [OF x] l3 pt, of "PT_IDX va" "mk_pte pa fl"] ext a True
        in_tree_leaf [OF x k] leaf_node [OF s1 x] new1 fl fr
      by (auto simp: s' child_def)
  next
    case False
    then show ?thesis using c ext by simp
  qed
qed

text \<open>Only available or already used frames become part of a tree: the failing walk as well loses nothing.\<close>

lemma root_nonzero:
  assumes "vm_ok k s R" and "in_tree k R r va"
  shows "r \<noteq> PHYS_NULL"
proof -
  have "k \<noteq> 0" using assms(1) by (simp add: vm_ok_def vm_base_def)
  moreover have "managed (vm_pmm s) r" if "r \<in> R" using vm_ok_held(2) [OF assms(1) that Nil_paths(1)] by simp
  ultimately show ?thesis using assms(2) managed_not_null by (auto simp: in_tree_def PHYS_NULL_def)
qed

lemma map_into_walk: "vm_ok k s R \<Longrightarrow> in_tree k R r va \<Longrightarrow> vmm_map_page_into va pa fl r s = map_walk r va pa fl s"
  by (simp add: vmm_map_page_into_def root_nonzero)

lemma map_kernel_walk:
  assumes "vm_ok k s R"
  shows "vmm_map_page va pa fl s = map_walk k va pa fl s" and "vmm_map_page_kernel va pa fl s = map_walk k va pa fl s"
  using assms by (simp_all add: vmm_map_page_def vmm_map_page_kernel_def vmm_map_page_into_def vm_ok_def vm_base_def PHYS_NULL_def)

section \<open>Unmapping and protecting\<close>

lemma unmap_from_find:
  assumes ok: "vm_ok k s R" and x: "in_tree k R r va"
  shows "vmm_unmap_page_from va r s = (case find_pt r va s of None \<Rightarrow> (PHYS_NULL, s)
    | Some pt \<Rightarrow> (pte_frame (phys s pt (PT_IDX va)), store_pte pt (PT_IDX va) 0 s))"
  using root_nonzero [OF assms] by (simp add: vmm_unmap_page_from_def pml4_or_kernel_def)

lemma find_ptE:
  assumes "vm_ok k s R" and "in_tree k R r va" and "find_pt r va s = Some pt"
  shows "node s r (path3 va) = Some pt" and "present (phys s pt (PT_IDX va))"
  using assms by (auto simp: find_pt_node split: option.splits if_splits)

lemma clear_leaf_ok:
  assumes ok: "vm_ok k s R" and x: "in_tree k R r va" and pt: "node s r (path3 va) = Some pt"
  shows "vm_ok k (store_pte pt (PT_IDX va) 0 s) R"
  by (rule store_leaf_ok [OF ok in_tree_paths(4) [OF x] _ pt]) (auto simp: path3_def child_def present_def)

lemma unmap_from_ok:
  assumes ok: "vm_ok k s R" and x: "in_tree k R r va" and eq: "vmm_unmap_page_from va r s = (f, s')"
  shows "vm_ok k s' R" and "pages_kept R s s'" and "av s' = av s"
    and "in_tree k R r' va' \<Longrightarrow> lookup s' r' va' = (if r' = r \<and> same_page va va' then None else lookup s r' va')"
    and "f = (case lookup s r va of None \<Rightarrow> 0 | Some e \<Rightarrow> pte_frame e)"
    and "owned k s' R = owned k s R - (if r \<in> R \<and> \<not> kz_shm_va_excluded va then set_option (map_option pte_frame (lookup s r va)) else {})"
proof -
  have k: "k \<notin> R" using ok by (simp add: vm_ok_def)
  have lf: "lookup s r va = (case find_pt r va s of None \<Rightarrow> None | Some pt \<Rightarrow> Some (phys s pt (PT_IDX va)))"
    by (simp add: lookup_def)
  have "vm_ok k s' R \<and> pages_kept R s s' \<and> av s' = av s \<and> f = (case lookup s r va of None \<Rightarrow> 0 | Some e \<Rightarrow> pte_frame e)
    \<and> (in_tree k R r' va' \<longrightarrow> lookup s' r' va' = (if r' = r \<and> same_page va va' then None else lookup s r' va'))
    \<and> owned k s' R = owned k s R - (if r \<in> R \<and> \<not> kz_shm_va_excluded va then set_option (map_option pte_frame (lookup s r va)) else {})"
  proof (cases "find_pt r va s")
    case None
    have "lookup s r' va' = None" if "r' = r" "same_page va va'" "in_tree k R r' va'"
      using that None lookup_leaf [OF ok x] lookup_leaf [OF ok that(3)] by (simp add: lf same_page_path)
    moreover have "lookup s r va = None" using lf None by simp
    moreover have "s' = s" "f = 0" using None eq by (simp_all add: unmap_from_find [OF ok x] PHYS_NULL_def)
    ultimately show ?thesis using ok by (auto simp: pages_kept_def)
  next
    case (Some pt)
    note P = find_ptE [OF ok x Some]
    have s': "s' = store_pte pt (PT_IDX va) 0 s" and f: "f = pte_frame (phys s pt (PT_IDX va))"
      using eq Some by (simp_all add: unmap_from_find [OF ok x])
    have ok': "vm_ok k s' R" unfolding s' by (rule clear_leaf_ok [OF ok x P(1)])
    have l3: "length (path3 va) = 3" by (simp add: path3_def)
    have "owned k s' R = owned k s R - (if r \<in> R \<and> \<not> kz_shm_va_excluded va then set_option (map_option pte_frame (lookup s r va)) else {})"
      using store_leaf_owned [OF ok in_tree_paths(4) [OF x] l3 P(1), of "PT_IDX va" 0] in_tree_leaf [OF x k]
        leaf_node [OF ok x] Some f by (simp add: s' lf child_def present_def)
    then show ?thesis
      using ok' store_leaf_pages [OF ok in_tree_paths(4) [OF x] l3 P(1), of "PT_IDX va" 0] Some f
        store_leaf_lookup [OF ok ok' [unfolded s'] x P(1)]
      by (simp add: s' lf present_def) (simp add: store_pte_def)
  qed
  then show "vm_ok k s' R" and "pages_kept R s s'" and "av s' = av s"
    and "in_tree k R r' va' \<Longrightarrow> lookup s' r' va' = (if r' = r \<and> same_page va va' then None else lookup s r' va')"
    and "f = (case lookup s r va of None \<Rightarrow> 0 | Some e \<Rightarrow> pte_frame e)"
    and "owned k s' R = owned k s R - (if r \<in> R \<and> \<not> kz_shm_va_excluded va then set_option (map_option pte_frame (lookup s r va)) else {})"
    by blast+
qed

lemma unmap_then_free_ok:
  assumes ok: "vm_ok k s R" and r: "r \<in> R" and va: "va < 2 ^ 47" "\<not> kz_shm_va_excluded va"
    and eq: "vmm_unmap_page_from va r s = (f, s1)" and f: "f \<noteq> 0"
  shows "vm_ok k (vm_free f s1) R" and "av (vm_free f s1) = insert f (av s)" and "f \<notin> av s"
proof -
  have x: "in_tree k R r va" using r va by (simp add: in_tree_def)
  note u = unmap_from_ok [OF ok x eq]
  have k: "k \<notin> R" using ok by (simp add: vm_ok_def)
  have l: "(r, path3 va @ [PT_IDX va]) \<in> trees k R" using in_tree_leaf [OF x k] r va by simp
  have n: "node s r (path3 va @ [PT_IDX va]) = Some f"
    using u(5) f leaf_node [OF ok x l] by (auto split: option.splits)
  have "f \<notin> owned k s1 R" using u(5,6) f r va by (auto split: option.splits)
  then show "vm_ok k (vm_free f s1) R" using u(1) by (intro vm_ok_free) (auto simp: owned_def)
  show "f \<notin> av s" using vm_ok_held(1) [OF ok l n] .
  have "path3 va @ [PT_IDX va] \<in> upaths" using user_leaf_path [OF va(1)] va(2) by simp
  then have m: "managed (vm_pmm s) f" using vm_ok_held(2) [OF ok r _ n] by simp
  have b: "vm_base k s1" using u(1) by (simp add: vm_ok_def)
  have "vm_pmm s1 = vm_pmm s"
    using eq by (auto simp: unmap_from_find [OF ok x] store_pte_def split: option.splits)
  then show "av (vm_free f s1) = insert f (av s)" using vm_free_spec(4) [OF b, of f] m u(3) by simp
qed

lemma protect_entry:
  assumes "flags_ok fl"
  shows "pte_frame ((e AND PAGE_MASK) OR fl) = pte_frame e"
    and "pte_flags ((e AND PAGE_MASK) OR fl) = fl OR (e AND PAGING_NX)"
    and "present ((e AND PAGE_MASK) OR fl)" and "\<not> huge ((e AND PAGE_MASK) OR fl)"
    and "flags_ok (fl OR (e AND PAGING_NX))"
proof -
  have n: "\<not> bit fl n" if "\<not> n < 7" "n \<noteq> 63" for n using flags_okD [OF assms, of n] that by blast
  have "(((e AND PAGE_MASK) OR fl) AND PAGE_MASK) AND NOT PAGING_NX = (e AND PAGE_MASK) AND NOT PAGING_NX"
    using n by (intro bit_word_eqI) (auto simp: pte_bits)
  then show "pte_frame ((e AND PAGE_MASK) OR fl) = pte_frame e" by (simp only: pte_frame_def)
  show "pte_flags ((e AND PAGE_MASK) OR fl) = fl OR (e AND PAGING_NX)"
    using n by (intro bit_word_eqI) (auto simp: pte_flags_def pte_bits)
  show "present ((e AND PAGE_MASK) OR fl)" "\<not> huge ((e AND PAGE_MASK) OR fl)"
    using assms n by (auto simp: present_def huge_def flags_ok_def pte_bits)
  show "flags_ok (fl OR (e AND PAGING_NX))" unfolding flags_ok_def
  proof (intro conjI bit_word_eqI)
    show "bit (fl OR e AND PAGING_NX) 0" using assms by (simp add: flags_ok_def bit_or_iff)
    fix m assume "m < LENGTH(64)"
    then show "bit ((fl OR e AND PAGING_NX) AND NOT (PAGING_NX OR 127)) m = bit (0 :: pte) m"
      using n [of m] unfolding pte_bits bit_low7 by auto
  qed
qed

lemma protect_ok:
  assumes ok: "vm_ok k s R" and x: "in_tree k R r va" and fl: "flags_ok fl"
    and eq: "vmm_protect_page_into va fl r s = (b, s')"
  shows "vm_ok k s' R" and "pages_kept R s s'" and "av s' = av s" and "b \<longleftrightarrow> lookup s r va \<noteq> None"
    and "in_tree k R r' va' \<Longrightarrow> lookup s' r' va' =
      (if r' = r \<and> same_page va va' then map_option (\<lambda>e. (e AND PAGE_MASK) OR fl) (lookup s r va) else lookup s r' va')"
proof -
  have k: "k \<notin> R" using ok by (simp add: vm_ok_def)
  have l3: "length (path3 va) = 3" by (simp add: path3_def)
  have pr: "vmm_protect_page_into va fl r s = (case find_pt r va s of None \<Rightarrow> (False, s)
      | Some pt \<Rightarrow> (True, store_pte pt (PT_IDX va) ((phys s pt (PT_IDX va) AND PAGE_MASK) OR fl) s))"
    using root_nonzero [OF ok x] by (simp add: vmm_protect_page_into_def pml4_or_kernel_def)
  have "vm_ok k s' R \<and> pages_kept R s s' \<and> av s' = av s \<and> (b \<longleftrightarrow> lookup s r va \<noteq> None) \<and> (in_tree k R r' va' \<longrightarrow> lookup s' r' va' =
      (if r' = r \<and> same_page va va' then map_option (\<lambda>e. (e AND PAGE_MASK) OR fl) (lookup s r va) else lookup s r' va'))"
  proof (cases "find_pt r va s")
    case None
    have "lookup s r' va' = None" if "r' = r" "same_page va va'" "in_tree k R r' va'"
      using that None lookup_leaf [OF ok x] lookup_leaf [OF ok that(3)] by (simp add: lookup_def same_page_path)
    then show ?thesis using eq pr None ok by (auto simp: pages_kept_def lookup_def)
  next
    case (Some pt)
    note P = find_ptE [OF ok x Some]
    define e where "e = (phys s pt (PT_IDX va) AND PAGE_MASK) OR fl"
    note pe = protect_entry [OF fl, of "phys s pt (PT_IDX va)", folded e_def]
    have s': "s' = store_pte pt (PT_IDX va) e s" and b using eq pr Some by (simp_all add: e_def)
    have ok': "vm_ok k s' R" unfolding s'
    proof (rule store_leaf_ok [OF ok in_tree_paths(4) [OF x] l3 P(1)])
      show "plain (r \<in> R) (path3 va) e" using pe l3 by (simp add: plain_def)
      fix f assume l: "(r, path3 va @ [PT_IDX va]) \<in> trees k R" "child e = Some f" "node s r (path3 va @ [PT_IDX va]) \<noteq> Some f"
      have "r \<in> R" using in_tree_leaf [OF x k] l(1) by simp
      then have "\<not> huge (phys s pt (PT_IDX va))" using vm_ok_plain [OF ok l(1) P(1)] by (simp add: plain_def)
      then have "node s r (path3 va @ [PT_IDX va]) = Some f" using l(2) P pe by (simp add: node_snoc child_def)
      then show "(\<forall>r p. (r, p) \<in> trees k R \<longrightarrow> node s r p \<noteq> Some f) \<and> f \<notin> av s \<and> managed (vm_pmm s) f" using l(3) by simp
    qed
    show ?thesis
      using ok' \<open>b\<close> store_leaf_pages [OF ok in_tree_paths(4) [OF x] l3 P(1), of "PT_IDX va" e] pe Some
        store_leaf_lookup [OF ok ok' [unfolded s'] x P(1)]
      by (simp add: s' lookup_def e_def) (simp add: store_pte_def)
  qed
  then show "vm_ok k s' R" and "pages_kept R s s'" and "av s' = av s" and "b \<longleftrightarrow> lookup s r va \<noteq> None"
    and "in_tree k R r' va' \<Longrightarrow> lookup s' r' va' =
      (if r' = r \<and> same_page va va' then map_option (\<lambda>e. (e AND PAGE_MASK) OR fl) (lookup s r va) else lookup s r' va')"
    by blast+
qed

section \<open>Allocating and mapping\<close>

lemma map_walk_fail_fresh:
  assumes ok: "vm_ok k s R" and x: "in_tree k R r va" and eq: "map_walk r va pa fl s = (False, s')" and f: "fresh k s R f"
  shows "fresh k s' R f"
proof -
  obtain s1 pt where "extends k R r s s1" and "s' = s1" by (rule map_walk_spec [OF ok x eq]) auto
  then show ?thesis using extends_fresh f by blast
qed

lemma alloc_fresh:
  assumes ok: "vm_ok k s R" and al: "vm_alloc s = (a, s')" and a: "a \<noteq> 0"
  shows "vm_ok k s' R" and "fresh k s' R a" and "a \<in> av s" and "av s' = av s - {a}" and "owned k s' R = owned k s R"
    and "phys s' = phys s" and "lookup s' = lookup s" and "is_frame a"
proof -
  have b: "vm_base k s" using ok by (simp add: vm_ok_def)
  have c: "a \<in> av s \<and> phys s' = phys s \<and> av s' = av s - {a} \<and> managed (vm_pmm s') = managed (vm_pmm s)"
    using vm_alloc_cases [OF b al] a by auto
  then show "a \<in> av s" "av s' = av s - {a}" and ph: "phys s' = phys s" by auto
  show "vm_ok k s' R" by (rule vm_ok_alloc [OF ok al])
  show o: "owned k s' R = owned k s R" using node_phys [OF ph] by (simp add: owned_def)
  show "is_frame a" using avail_frame [OF b] c by blast
  show "fresh k s' R a" using avail_not_owned [OF ok] avail_frame [OF b] c o by (auto simp: fresh_def)
  show "lookup s' = lookup s" using ph by (intro ext) (simp add: lookup_def find_pt_def Let_def)
qed

lemma free_fresh:
  assumes ok: "vm_ok k s R" and f: "fresh k s R a"
  shows "vm_ok k (vm_free a s) R" and "av (vm_free a s) = insert a (av s)" and "owned k (vm_free a s) R = owned k s R"
    and "lookup (vm_free a s) = lookup s"
proof -
  have b: "vm_base k s" using ok by (simp add: vm_ok_def)
  note fs = vm_free_spec [OF b, of a]
  show "vm_ok k (vm_free a s) R" using f by (intro vm_ok_free [OF ok]) (auto simp: fresh_def owned_def)
  show "av (vm_free a s) = insert a (av s)" using fs(4) f by (simp add: fresh_def)
  show "owned k (vm_free a s) R = owned k s R" using node_phys [OF fs(2)] by (simp add: owned_def)
  show "lookup (vm_free a s) = lookup s" using fs(2) by (intro ext) (simp add: lookup_def find_pt_def Let_def)
qed

definition alloc_map :: "nat \<Rightarrow> nat \<Rightarrow> pte \<Rightarrow> vm \<Rightarrow> bool \<times> vm" where
  "alloc_map r va fl s = (case vm_alloc s of (a, s0) \<Rightarrow> if a = 0 then (False, s0) else
     case map_walk r va a fl s0 of (b, s1) \<Rightarrow> if b then (True, s1) else (False, vm_free a s1))"

lemma alloc_into_map:
  assumes "vm_ok k s R" and "r \<in> R" and "va < 2 ^ 47"
  shows "vmm_alloc_page_into va fl r s = alloc_map r va fl s"
proof -
  have x: "in_tree k R r va" using assms by (simp add: in_tree_def)
  have "r \<noteq> PHYS_NULL" by (rule root_nonzero [OF assms(1) x])
  moreover have "vmm_map_page_into va a fl r s0 = map_walk r va a fl s0" for a s0
    using calculation by (simp add: vmm_map_page_into_def)
  ultimately show ?thesis
    by (auto simp: vmm_alloc_page_into_def alloc_map_def PHYS_NULL_def split: prod.splits)
qed

lemma alloc_kernel_map:
  assumes "vm_ok k s R"
  shows "vmm_alloc_page_kernel va fl s = alloc_map k va fl s" and "vmm_alloc_page va fl s = alloc_map k va fl s"
proof -
  have k: "vm_base k s0" if "vm_alloc s = (a, s0)" for a s0
    using vm_ok_alloc [OF assms that] by (simp add: vm_ok_def)
  show "vmm_alloc_page_kernel va fl s = alloc_map k va fl s" and "vmm_alloc_page va fl s = alloc_map k va fl s"
    using k by (auto simp: vmm_alloc_page_kernel_def vmm_alloc_page_def vmm_alloc_page_into_def alloc_map_def PHYS_NULL_def
        vmm_map_page_kernel_def vmm_map_page_def vmm_map_page_into_def vm_base_def split: prod.splits option.splits)
qed

lemma alloc_map_cases:
  assumes ok: "vm_ok k s R" and x: "in_tree k R r va" and eq: "alloc_map r va fl s = (b, s')" and fl: "flags_ok fl"
  obtains (oom) "av s = {}" "\<not> b" "s' = s"
  | (walk) a s0 s1 where "a \<noteq> 0" "vm_alloc s = (a, s0)" "map_walk r va a fl s0 = (b, s1)"
      "s' = (if b then s1 else vm_free a s1)" "may_map k s0 R r va a"
proof (cases "vm_alloc s")
  case (Pair a s0)
  obtain c s1 where m: "map_walk r va a fl s0 = (c, s1)" by (cases "map_walk r va a fl s0")
  show ?thesis
  proof (cases "a = 0")
    case True
    then show ?thesis using Pair eq vm_alloc_cases [of k s a s0] ok oom by (auto simp: alloc_map_def vm_ok_def)
  next
    case False
    note al = alloc_fresh [OF ok Pair False]
    have "may_map k s0 R r va a" using al(2,8) by (simp add: may_map_def)
    then show ?thesis using walk [OF False Pair] m eq Pair False by (auto simp: alloc_map_def split: if_splits)
  qed
qed

lemma alloc_map_ok:
  assumes ok: "vm_ok k s R" and x: "in_tree k R r va" and eq: "alloc_map r va fl s = (b, s')" and fl: "flags_ok fl"
  shows "vm_ok k s' R \<and> pages_kept R s s' \<and> (\<not> b \<longrightarrow> r \<in> R \<longrightarrow> card (av s) \<le> 3)"
  using ok x eq fl
proof (cases rule: alloc_map_cases)
  case (walk a s0 s1)
  note al = alloc_fresh [OF ok walk(2,1)]
  note m = map_walk_ok [OF al(1) x walk(5) fl walk(3)]
  have p: "pages_kept R s s1" using m(2) node_phys [OF al(6)] al(6) by (simp add: pages_kept_def)
  have f: "fresh k s1 R a" if "\<not> b" using map_walk_fail_fresh [OF al(1) x _ al(2)] walk(3) that by auto
  have b1: "vm_base k s1" using m(1) by (simp add: vm_ok_def)
  have "vm_ok k s' R" using m(1) free_fresh(1) [OF m(1) f] walk(4) by simp
  moreover have "pages_kept R s s'" using p vm_free_spec(2) [OF b1] walk(4) by (simp add: pages_kept_def)
  moreover have "card (av s) \<le> 3" if "\<not> b" "r \<in> R"
  proof -
    have "card (av s0) \<le> 2" using map_walk_fail_few [OF al(1) x that(2)] walk(3) that(1) by simp
    then show ?thesis using al(4) card_Diff_singleton [OF al(3)] by simp
  qed
  ultimately show ?thesis by blast
qed (use ok in \<open>auto simp: pages_kept_def\<close>)

lemma alloc_map_lookup:
  assumes ok: "vm_ok k s R" and x: "in_tree k R r va" and eq: "alloc_map r va fl s = (b, s')" and fl: "flags_ok fl"
  shows "\<exists>a. (b \<longrightarrow> a \<in> av s \<and> is_frame a) \<and> (\<forall>r' va'. in_tree k R r' va' \<longrightarrow> lookup s' r' va' =
    (if b \<and> r' = r \<and> same_page va va' then Some (mk_pte a fl) else lookup s r' va'))"
  using ok x eq fl
proof (cases rule: alloc_map_cases)
  case (walk a s0 s1)
  note al = alloc_fresh [OF ok walk(2,1)]
  note m = map_walk_ok [OF al(1) x walk(5) fl walk(3)]
  have f: "lookup s' = lookup s1"
    using map_walk_fail_fresh [OF al(1) x _ al(2)] walk(3,4) free_fresh(4) [OF m(1)] by (cases b) auto
  show ?thesis using al(3,7,8) m(4) f by (intro exI [of _ a]) simp
qed auto

lemma alloc_map_conserves:
  assumes ok: "vm_ok k s R" and x: "in_tree k R r va" and eq: "alloc_map r va fl s = (b, s')" and fl: "flags_ok fl"
    and new: "lookup s r va = None" and u: "r \<in> R" "\<not> kz_shm_va_excluded va"
  shows "av s' \<union> owned k s' R = av s \<union> owned k s R"
  using ok x eq fl
proof (cases rule: alloc_map_cases)
  case (walk a s0 s1)
  note al = alloc_fresh [OF ok walk(2,1)]
  note m = map_walk_ok [OF al(1) x walk(5) fl walk(3)]
  have new0: "lookup s0 r va = None" using new al(7) by simp
  note c = map_walk_owned [OF al(1) x walk(5) fl walk(3) new0]
  have f: "fresh k s1 R a" if "\<not> b" using map_walk_fail_fresh [OF al(1) x _ al(2)] walk(3) that by auto
  show ?thesis
    using c(3) al(3,4,5) free_fresh(2,3) [OF m(1) f] walk(4) u by (cases b) auto
qed auto

end
