(* ===== verification/Paging_Space.thy ===== *)
theory Paging_Space
  imports Paging_Ops
begin

text \<open>
  Whole address spaces. Destroying one removes its tree from the leaves up: \<open>pruned\<close> describes the state after
  part of the tree is gone, and the four nested loops of \<open>vmm_destroy_address_space\<close> are compositions of it.
  Every frame of the tree is given back exactly once, and nothing else changes.
\<close>

section \<open>Removing part of a tree\<close>

definition below :: "nat list \<Rightarrow> nat list set" where
  "below P = {p \<in> upaths. prefix P p}"

definition pruned :: "nat \<Rightarrow> nat set \<Rightarrow> nat \<Rightarrow> nat list set \<Rightarrow> vm \<Rightarrow> vm \<Rightarrow> bool" where
  "pruned k R r Q s s' \<longleftrightarrow>
    vm_base k s' \<and> managed (vm_pmm s') = managed (vm_pmm s)
    \<and> (\<forall>r' p'. (r', p') \<in> trees k R \<longrightarrow> node s' r' p' = (if r' = r \<and> p' \<in> Q then None else node s r' p'))
    \<and> av s' = av s \<union> {f. \<exists>p\<in>Q. node s r p = Some f}
    \<and> (\<forall>f. (\<forall>p\<in>upaths. length p \<le> 3 \<longrightarrow> node s r p \<noteq> Some f) \<longrightarrow> phys s' f = phys s f)
    \<and> (\<forall>p\<in>upaths. \<forall>t i. p \<notin> Q \<longrightarrow> length p \<le> 3 \<longrightarrow> node s r p = Some t \<longrightarrow> phys s' t i = phys s t i \<or>
        phys s' t i = 0 \<and> (p @ [i] \<in> Q \<or> length p = 3))"

lemma prunedD:
  assumes "pruned k R r Q s s'"
  shows "vm_base k s'" and "managed (vm_pmm s') = managed (vm_pmm s)"
    and "\<And>r' p'. (r', p') \<in> trees k R \<Longrightarrow> node s' r' p' = (if r' = r \<and> p' \<in> Q then None else node s r' p')"
    and "av s' = av s \<union> {f. \<exists>p\<in>Q. node s r p = Some f}"
    and "\<And>f. (\<And>p. p \<in> upaths \<Longrightarrow> length p \<le> 3 \<Longrightarrow> node s r p \<noteq> Some f) \<Longrightarrow> phys s' f = phys s f"
    and "\<And>p t i. p \<in> upaths \<Longrightarrow> p \<notin> Q \<Longrightarrow> length p \<le> 3 \<Longrightarrow> node s r p = Some t \<Longrightarrow> phys s' t i = phys s t i \<or>
        phys s' t i = 0 \<and> (p @ [i] \<in> Q \<or> length p = 3)"
  using assms unfolding pruned_def by blast+

lemma pruned_none:
  assumes "vm_base k s" and "\<And>p. p \<in> Q \<Longrightarrow> node s r p = None"
  shows "pruned k R r Q s s"
  using assms by (auto simp: pruned_def)

lemma pruned_trans:
  assumes r: "r \<in> R" and Q: "Q1 \<subseteq> upaths" "Q2 \<subseteq> upaths"
    and 1: "pruned k R r Q1 s s1" and 2: "pruned k R r Q2 s1 s2"
  shows "pruned k R r (Q1 \<union> Q2) s s2"
proof -
  note a = prunedD [OF 1] and b = prunedD [OF 2]
  have n1: "node s1 r p = (if p \<in> Q1 then None else node s r p)" if "p \<in> upaths" for p
    using a(3) [of r p] that r by (simp add: trees_def)
  show ?thesis unfolding pruned_def
  proof (intro conjI allI impI ballI)
    show "av s2 = av s \<union> {f. \<exists>p\<in>Q1 \<union> Q2. node s r p = Some f}"
      unfolding a(4) b(4) using n1 Q by (auto simp: subset_eq)
  next
    fix f assume f: "\<forall>p\<in>upaths. length p \<le> 3 \<longrightarrow> node s r p \<noteq> Some f"
    then have "phys s1 f = phys s f" by (intro a(5)) auto
    moreover have "phys s2 f = phys s1 f" using f n1 by (intro b(5)) (auto split: if_splits)
    ultimately show "phys s2 f = phys s f" by simp
  next
    fix p t i assume p: "p \<in> upaths" "p \<notin> Q1 \<union> Q2" "length p \<le> 3" "node s r p = Some t"
    then show "phys s2 t i = phys s t i \<or> phys s2 t i = 0 \<and> (p @ [i] \<in> Q1 \<union> Q2 \<or> length p = 3)"
      using a(6) [OF p(1) _ p(3,4), of i] b(6) [OF p(1) _ p(3), of t i] n1 [OF p(1)] by auto
  qed (use a b in auto)
qed

lemma pruned_ok:
  assumes ok: "vm_ok k s R" and r: "r \<in> R" and Q: "Q \<subseteq> upaths" "[] \<notin> Q" and p: "pruned k R r Q s s'"
  shows "vm_ok k s' R"
proof -
  note a = prunedD [OF p]
  have k: "k \<notin> R" and hd: "pt_held k s R" using ok by (simp_all add: vm_ok_def)
  have sub: "node s r' p' = Some f \<and> \<not> (r' = r \<and> p' \<in> Q)" if "(r', p') \<in> trees k R" "node s' r' p' = Some f" for r' p' f
    using a(3) [OF that(1)] that(2) by (auto split: if_splits)
  have other: "phys s' f = phys s f" if "(r', p') \<in> trees k R" "node s r' p' = Some f" "r' \<noteq> r" for r' p' f
    using vm_ok_sep [OF ok that(1) _ that(2)] that(3) r by (intro a(5)) (auto simp: trees_def)
  have "pt_held k s' R" unfolding pt_held_def
  proof (intro allI impI)
    fix r' p' f assume x: "(r', p') \<in> trees k R" "node s' r' p' = Some f"
    note y = sub [OF x]
    have "\<not> (\<exists>q\<in>Q. node s r q = Some f)"
      using vm_ok_sep [OF ok x(1), of r _ f] y Q r by (auto simp: trees_def)
    then show "f \<notin> av s' \<and> (r' \<in> R \<longrightarrow> managed (vm_pmm s') f)"
      using hd x(1) y a(2,4) unfolding pt_held_def by auto
  qed
  moreover have "pt_sep k s' R" unfolding pt_sep_def using sub vm_ok_sep [OF ok] by metis
  moreover have "pt_plain k s' R" unfolding pt_plain_def
  proof (intro allI impI)
    fix r' p' t i assume x: "(r', p' @ [i]) \<in> trees k R" "node s' r' p' = Some t"
    note y = sub [OF trees_prefix [OF x(1)] x(2)]
    have "phys s' t i = phys s t i \<or> phys s' t i = 0"
    proof (cases "r' = r")
      case True
      have "p' @ [i] \<in> upaths" using x(1) True r k by (auto simp: trees_def)
      then have "p' \<in> upaths" "length p' \<le> 3" by (auto simp: upaths_def dest: upaths_prefix)
      then show ?thesis using a(6) [of p' t i] y True by auto
    next
      case False
      then show ?thesis using other [OF trees_prefix [OF x(1)]] y by simp
    qed
    then show "plain (r' \<in> R) p' (phys s' t i)" using vm_ok_plain [OF ok x(1)] y by auto
  qed
  moreover have "pt_share k s' R" unfolding pt_share_def
  proof (intro allI impI)
    fix j :: nat assume j: "256 \<le> j" "j < 512"
    have "[j] \<notin> Q" using Q(1) j by (auto simp: upaths_def)
    then have "phys s' u j = phys s u j" if "u \<in> insert k R" for u
      using that other [of u "[]" u] a(6) [of "[]" u j] Q(2) by (cases "u = r") auto
    then show "present (phys s' k j) \<and> (\<forall>r\<in>R. present (phys s' r j) \<and> table_of (phys s' r j) = table_of (phys s' k j))"
      using ok j unfolding vm_ok_def pt_share_def by auto
  qed
  ultimately show ?thesis using a(1) k by (simp add: vm_ok_def)
qed

lemma owns_allocated:
  assumes "pmm_wf m" and "managed m a" and "a \<notin> avail_addrs m"
  shows "pmm_owns_page a m"
proof -
  obtain bm where bm: "pmm_bitmap m = Some bm" and t: "total_pages m = bitmap_pages m"
    and fp: "free_pages m = {i. i < total_pages m \<and> \<not> bitmap_test bm i}" using assms(1) by (rule pmm_wfE)
  have "a div PAGE_SIZE \<notin> free_pages m"
    using assms(3) managed_addr_eq [OF assms(2)] by (force simp: avail_addrs_def)
  then show ?thesis using assms(2) bm t fp managed_not_null [OF assms(2)]
    by (simp add: pmm_owns_page_def managed_def Let_def)
qed

lemma free_owned_eq:
  assumes "vm_ok k s R" and "r \<in> R" and "p \<in> upaths" and "node s r p = Some f"
  shows "free_owned f s = vm_free f s"
proof -
  have "(r, p) \<in> trees k R" using assms by (simp add: trees_def)
  then have "f \<notin> av s" using vm_ok_held(1) [OF assms(1)] assms(4) by blast
  then show ?thesis
    using vm_ok_held(2) [OF assms] assms(1) by (simp add: free_owned_def owns_allocated vm_ok_def vm_base_def)
qed

text \<open>Giving back one frame below which nothing is left, and clearing the entry that leads to it.\<close>

lemma cut_entry:
  assumes ok: "vm_ok k s R" and r: "r \<in> R" and P: "p @ [i] \<in> upaths" and t: "node s r p = Some t"
    and f: "node s r (p @ [i]) = Some f" and n: "\<And>q. q \<in> below (p @ [i]) \<Longrightarrow> q \<noteq> p @ [i] \<Longrightarrow> node s r q = None"
  shows "pruned k R r (below (p @ [i])) s (store_pte t i 0 (free_owned f s))"
proof -
  let ?s = "store_pte t i 0 (free_owned f s)"
  have b: "vm_base k s" and sep: "pt_sep k s R" and k: "k \<notin> R" using ok by (simp_all add: vm_ok_def)
  have p: "p \<in> upaths" "length p \<le> 3" using P by (auto simp: upaths_def dest: upaths_prefix)
  have rp: "(r, p) \<in> trees k R" using p r by (simp add: trees_def)
  note fs = vm_free_spec [OF b, of f]
  have m: "managed (vm_pmm s) f" by (rule vm_ok_held(2) [OF ok r P f])
  have fo: "free_owned f s = vm_free f s" by (rule free_owned_eq [OF ok r P f])
  have ph: "phys ?s = (phys s)(t := (phys s t)(i := 0))" using fs(2) by (simp add: fo store_pte_def)
  note other = node_store_pte_other [OF sep rp t ph]
  have "node ?s r p = Some t" using other [OF rp] t by (auto dest: prefix_length_le)
  then have z: "node ?s r (p @ [i]) = None" using ph by (simp add: node_snoc child_def present_def)
  have below: "prefix (p @ [i]) q \<longleftrightarrow> q \<in> below (p @ [i])" if "(r, q) \<in> trees k R" for q
    using that k r by (auto simp: below_def trees_def)
  have nd: "node ?s r' p' = (if r' = r \<and> p' \<in> below (p @ [i]) then None else node s r' p')" if "(r', p') \<in> trees k R" for r' p'
  proof (cases "r' = r \<and> prefix (p @ [i]) p'")
    case True
    then obtain q where q: "p' = (p @ [i]) @ q" by (auto elim: prefixE)
    have "node ?s r p' = None" unfolding q by (rule node_prefix_None [OF z])
    then show ?thesis using True below that by simp
  next
    case False
    then show ?thesis using other [OF that False] below that by auto
  qed
  have "{g. \<exists>q\<in>below (p @ [i]). node s r q = Some g} = {f}"
    using n f P by (auto simp: below_def) (metis option.distinct(1) option.inject)+
  moreover have "av ?s = insert f (av s)" using fs(4) m by (simp add: fo store_pte_def)
  moreover have "vm_base k ?s" "managed (vm_pmm ?s) = managed (vm_pmm s)"
    using fs(1,3) by (simp_all add: fo store_pte_def vm_base_def)
  moreover have "phys ?s u j = phys s u j \<or> phys ?s u j = 0 \<and> (q @ [j] \<in> below (p @ [i]) \<or> length q = 3)"
    if "q \<in> upaths" "node s r q = Some u" for q u j
  proof (cases "u = t \<and> j = i")
    case True
    then have "q = p" using vm_ok_sep [OF ok rp _ t, of r q] that r by (simp add: trees_def)
    then show ?thesis using True ph P by (simp add: below_def)
  qed (use ph in auto)
  moreover have "phys ?s g = phys s g" if "\<forall>q\<in>upaths. length q \<le> 3 \<longrightarrow> node s r q \<noteq> Some g" for g
    using that p t ph by auto
  ultimately show ?thesis using nd unfolding pruned_def by auto
qed

lemma prune_child:
  assumes ok: "vm_ok k s R" and r: "r \<in> R" and P: "p @ [i] \<in> upaths" and t: "node s r p = Some t"
    and f: "node s r (p @ [i]) = Some f" and pr: "pruned k R r (below (p @ [i]) - {p @ [i]}) s s1"
  shows "pruned k R r (below (p @ [i])) s (store_pte t i 0 (free_owned f s1))"
proof -
  let ?Q = "below (p @ [i]) - {p @ [i]}"
  have p: "p \<in> upaths" using P by (rule upaths_prefix)
  have Q: "?Q \<subseteq> upaths" "[] \<notin> ?Q" "p \<notin> ?Q" by (auto simp: below_def dest: prefix_length_le)
  have ok1: "vm_ok k s1 R" by (rule pruned_ok [OF ok r Q(1,2) pr])
  have n1: "node s1 r q = (if q \<in> ?Q then None else node s r q)" if "q \<in> upaths" for q
    using prunedD(3) [OF pr, of r q] that r by (simp add: trees_def)
  have "pruned k R r (below (p @ [i])) s1 (store_pte t i 0 (free_owned f s1))"
    using n1 [OF p] n1 [OF P] t f Q(3) by (intro cut_entry [OF ok1 r P]) (auto simp: below_def n1)
  moreover have "below (p @ [i]) \<subseteq> upaths" "?Q \<union> below (p @ [i]) = below (p @ [i])" by (auto simp: below_def)
  ultimately show ?thesis using pruned_trans [OF r Q(1) _ pr] by metis
qed

lemma prune_loop:
  assumes ok: "vm_ok k s R" and r: "r \<in> R" and t: "node s r p = Some t" and p: "p \<in> upaths"
    and body: "\<And>i s. i < n \<Longrightarrow> vm_ok k s R \<Longrightarrow> node s r p = Some t \<Longrightarrow> pruned k R r (below (p @ [i])) s (B i s)"
  shows "pruned k R r (\<Union>i<n. below (p @ [i])) s (fold B [0..<n] s)"
  using body
proof (induction n)
  case 0
  then show ?case using ok by (auto intro!: pruned_none simp: vm_ok_def)
next
  case (Suc n)
  let ?Q = "\<Union>i<n. below (p @ [i])"
  have 1: "pruned k R r ?Q s (fold B [0..<n] s)" using Suc by simp
  have Q: "?Q \<subseteq> upaths" "[] \<notin> ?Q" "p \<notin> ?Q" by (auto simp: below_def dest: prefix_length_le)
  have ok1: "vm_ok k (fold B [0..<n] s) R" by (rule pruned_ok [OF ok r Q(1,2) 1])
  have "node (fold B [0..<n] s) r p = Some t"
    using prunedD(3) [OF 1, of r p] p r t Q(3) by (simp add: trees_def)
  then have "pruned k R r (below (p @ [n])) (fold B [0..<n] s) (B n (fold B [0..<n] s))"
    by (intro Suc.prems ok1) simp_all
  from pruned_trans [OF r Q(1) _ 1 this] show ?case
    by (simp add: below_def lessThan_Suc Un_commute subset_eq)
qed

lemma below_children:
  assumes "P \<noteq> [] \<Longrightarrow> n = 512" and "P = [] \<Longrightarrow> n = 256"
  shows "(\<Union>j<n. below (P @ [j])) = below P - {P}"
proof (intro subset_antisym subsetI)
  fix q assume "q \<in> (\<Union>j<n. below (P @ [j]))"
  then show "q \<in> below P - {P}" by (auto simp: below_def prefix_def)
next
  fix q assume q: "q \<in> below P - {P}"
  then obtain w where w: "q = P @ w" "w \<noteq> []" by (auto simp: below_def prefix_def)
  then obtain j v where j: "w = j # v" by (cases w) auto
  have "j < n" using q w j assms by (cases "P = []") (auto simp: below_def upaths_def)
  then show "q \<in> (\<Union>j<n. below (P @ [j]))" using q w j by (auto simp: below_def)
qed

lemma pruned_absent:
  assumes "vm_ok k s R" and "node s r (p @ [i]) = None"
  shows "pruned k R r (below (p @ [i])) s s"
  using assms node_prefix_None [OF assms(2)] by (intro pruned_none) (auto simp: vm_ok_def below_def elim!: prefixE)

text \<open>An entry of the shared-memory window is cleared without giving its frame back.\<close>

lemma clear_shared_pruned:
  assumes ok: "vm_ok k s R" and r: "r \<in> R" and p: "p \<in> upaths" "length p = 3" and t: "node s r p = Some pt"
    and q: "p @ [i] \<notin> upaths"
  shows "pruned k R r (below (p @ [i])) s (store_pte pt i 0 s)"
proof -
  have rp: "(r, p) \<in> trees k R" using p r by (simp add: trees_def)
  have e: "below (p @ [i]) = {}"
  proof (rule equals0I)
    fix q assume "q \<in> below (p @ [i])"
    then obtain w where "q = (p @ [i]) @ w" "length q \<le> 4" "q \<in> upaths" by (auto simp: below_def upaths_def prefix_def)
    then show False using \<open>p @ [i] \<notin> upaths\<close> p(2) by simp
  qed
  have k: "k \<notin> R" using ok by (simp add: vm_ok_def)
  have nd: "node (store_pte pt i 0 s) r' p' = node s r' p'" if "(r', p') \<in> trees k R" for r' p'
    using store_leaf_nodes [OF ok rp p(2) t that, of i 0] that q r k by (auto simp: trees_def)
  have "phys (store_pte pt i 0 s) u j = phys s u j \<or> phys (store_pte pt i 0 s) u j = 0 \<and> length q = 3"
    if "q \<in> upaths" "node s r q = Some u" for q u j
  proof (cases "u = pt")
    case True
    then have "q = p" using vm_ok_sep [OF ok rp _ t, of r q] that r by (auto simp: trees_def)
    then show ?thesis using p(2) by (simp add: store_pte_def)
  qed (simp add: store_pte_def)
  moreover have "phys (store_pte pt i 0 s) g = phys s g" if "\<forall>q\<in>upaths. length q \<le> 3 \<longrightarrow> node s r q \<noteq> Some g" for g
    using that p t by (auto simp: store_pte_def)
  moreover have "vm_base k s" using ok by (simp add: vm_ok_def)
  ultimately show ?thesis unfolding e
    using nd unfolding pruned_def by (auto simp: vm_base_def) (simp_all add: store_pte_def)
qed

lemma destroy_pt_pruned:
  assumes ok: "vm_ok k s R" and r: "r \<in> R" and p: "[p4, p3, p2] \<in> upaths" and t: "node s r [p4, p3, p2] = Some pt" and i: "i < 512"
  shows "pruned k R r (below ([p4, p3, p2] @ [i])) s (destroy_pt p4 p3 p2 pt i s)"
proof -
  have up: "[p4, p3, p2] @ [i] \<in> upaths \<longleftrightarrow> \<not> kz_shm_va_excluded (va_of p4 p3 p2 i)"
    using p i by (auto simp: upaths_def va_path_def)
  have rp: "(r, [p4, p3, p2]) \<in> trees k R" using p r by (simp add: trees_def)
  consider "\<not> present (phys s pt i)" | "present (phys s pt i)" "kz_shm_va_excluded (va_of p4 p3 p2 i)"
    | "present (phys s pt i)" "\<not> kz_shm_va_excluded (va_of p4 p3 p2 i)" by blast
  then show ?thesis
  proof cases
    case 1
    then have "node s r ([p4, p3, p2] @ [i]) = None" using t by (simp only: node_snoc) (simp add: child_def)
    then have "pruned k R r (below ([p4, p3, p2] @ [i])) s s" by (rule pruned_absent [OF ok])
    then show ?thesis using 1 by (simp add: destroy_pt_def)
  next
    case 2
    have "[p4, p3, p2] @ [i] \<notin> upaths" using up 2 by simp
    then show ?thesis using clear_shared_pruned [OF ok r p _ t, of i] 2 by (auto simp add: destroy_pt_def)
  next
    case 3
    have P: "[p4, p3, p2] @ [i] \<in> upaths" using up 3 by simp
    have x: "(r, [p4, p3, p2] @ [i]) \<in> trees k R" using P r by (simp add: trees_def)
    have "\<not> huge (phys s pt i)" using vm_ok_plain [OF ok x t] r by (simp add: plain_def)
    then have f: "node s r ([p4, p3, p2] @ [i]) = Some (pte_frame (phys s pt i))"
      using node_snocI [OF t, of i] 3 by (simp add: child_def)
    have "q = [p4, p3, p2] @ [i]" if "q \<in> below ([p4, p3, p2] @ [i])" for q
      using that by (auto simp: below_def upaths_def prefix_def)
    then show ?thesis using cut_entry [OF ok r P t f] 3 by (auto simp: destroy_pt_def)
  qed
qed

lemma prune_table:
  assumes ok: "vm_ok k s R" and r: "r \<in> R" and P: "p @ [i] \<in> upaths" and len: "length p < 3" and t: "node s r p = Some t"
    and inner: "\<And>f j s. j < 512 \<Longrightarrow> vm_ok k s R \<Longrightarrow> node s r (p @ [i]) = Some f \<Longrightarrow>
        pruned k R r (below ((p @ [i]) @ [j])) s (B f j s)"
  shows "pruned k R r (below (p @ [i])) s
    (let e = phys s t i in if \<not> present e then s else if huge e then store_pte t i 0 s
     else store_pte t i 0 (free_owned (table_of e) (fold (B (table_of e)) [0..<512] s)))"
proof (cases "present (phys s t i)")
  case False
  then have "node s r (p @ [i]) = None" using t by (simp add: node_snoc child_def)
  then show ?thesis using pruned_absent [OF ok] False by simp
next
  case True
  let ?f = "table_of (phys s t i)"
  have x: "(r, p @ [i]) \<in> trees k R" using P r by (simp add: trees_def)
  have e: "\<not> huge (phys s t i)" "\<not> bit (phys s t i) 63" using vm_ok_plain [OF ok x t] r len True by (auto simp: plain_def)
  then have f: "node s r (p @ [i]) = Some ?f" using node_snocI [OF t, of i] True by (simp add: child_def table_of_frame)
  have "pruned k R r (\<Union>j<512. below ((p @ [i]) @ [j])) s (fold (B ?f) [0..<512] s)"
    by (rule prune_loop [OF ok r f P inner])
  then have "pruned k R r (below (p @ [i]) - {p @ [i]}) s (fold (B ?f) [0..<512] s)"
    using below_children [of "p @ [i]" 512] by simp
  then show ?thesis using prune_child [OF ok r P t f] True e(1) by (simp add: Let_def)
qed

lemma destroy_pd_pruned:
  assumes ok: "vm_ok k s R" and r: "r \<in> R" and p: "[p4, p3] \<in> upaths" and t: "node s r [p4, p3] = Some pd" and i: "i < 512"
  shows "pruned k R r (below ([p4, p3] @ [i])) s (destroy_pd p4 p3 pd i s)"
proof -
  have P: "[p4, p3] @ [i] \<in> upaths" using p i by (simp add: upaths_def)
  show ?thesis unfolding destroy_pd_def
    by (rule prune_table [OF ok r P _ t]) (use P destroy_pt_pruned [OF _ r] in auto)
qed

lemma destroy_pdpt_pruned:
  assumes ok: "vm_ok k s R" and r: "r \<in> R" and p: "[p4] \<in> upaths" and t: "node s r [p4] = Some pdpt" and i: "i < 512"
  shows "pruned k R r (below ([p4] @ [i])) s (destroy_pdpt p4 pdpt i s)"
proof -
  have P: "[p4] @ [i] \<in> upaths" using p i by (simp add: upaths_def)
  show ?thesis unfolding destroy_pdpt_def
    by (rule prune_table [OF ok r P _ t]) (use P destroy_pd_pruned [OF _ r] in auto)
qed

lemma destroy_pml4_pruned:
  assumes ok: "vm_ok k s R" and r: "r \<in> R" and i: "i < 256"
  shows "pruned k R r (below ([] @ [i])) s (destroy_pml4 r i s)"
proof -
  have P: "[] @ [i] \<in> upaths" using i by (simp add: upaths_def)
  show ?thesis unfolding destroy_pml4_def
    by (rule prune_table [OF ok r P _ node_Nil]) (use P destroy_pdpt_pruned [OF _ r] in auto)
qed

section \<open>Destroying an address space\<close>

definition owned_by :: "vm \<Rightarrow> nat \<Rightarrow> nat set" where
  "owned_by s r = {f. \<exists>p\<in>upaths. node s r p = Some f}"

lemma owned_split: "owned k s (insert r R) = owned k s R \<union> owned_by s r"
  by (auto simp: owned_def owned_by_def trees_def)

lemma vm_ok_mono:
  assumes ok: "vm_ok k s R" and "R' \<subseteq> R"
  shows "vm_ok k s R'"
proof -
  have k: "k \<notin> R" using ok by (simp add: vm_ok_def)
  have t: "(r, p) \<in> trees k R" "r \<in> R' \<longleftrightarrow> r \<in> R" if "(r, p) \<in> trees k R'" for r p
    using that assms(2) k by (auto simp: trees_def)
  have "pt_held k s R'" using ok t unfolding vm_ok_def pt_held_def by blast
  moreover have "pt_sep k s R'" unfolding pt_sep_def using vm_ok_sep [OF ok] t(1) by metis
  moreover have "pt_plain k s R'" unfolding pt_plain_def using vm_ok_plain [OF ok] t by simp
  moreover have "pt_share k s R'" using ok assms(2) unfolding vm_ok_def pt_share_def by blast
  ultimately show ?thesis using ok assms(2) by (auto simp: vm_ok_def)
qed

lemma owned_by_other:
  assumes "vm_ok k s R" and "r \<in> R" and "f \<in> owned_by s r" and "(r', p') \<in> trees k (R - {r})"
  shows "node s r' p' \<noteq> Some f"
proof
  assume n: "node s r' p' = Some f"
  obtain p where p: "p \<in> upaths" "node s r p = Some f" using assms(3) by (auto simp: owned_by_def)
  have "(r, p) \<in> trees k R" "(r', p') \<in> trees k R" using assms(2,4) p by (auto simp: trees_def)
  then have "r' = r" using vm_ok_sep [OF assms(1) _ _ p(2) n] by blast
  then show False using assms(1,2,4) by (auto simp: trees_def vm_ok_def)
qed

lemma destroy_space:
  assumes ok: "vm_ok k s R" and r: "r \<in> R" and s': "s' = vmm_destroy_address_space r True s"
  shows "vm_ok k s' (R - {r})" and "av s' = av s \<union> owned_by s r"
    and "\<And>r' p'. (r', p') \<in> trees k (R - {r}) \<Longrightarrow> node s' r' p' = node s r' p'"
    and "\<And>f. f \<notin> owned_by s r \<Longrightarrow> phys s' f = phys s f"
proof -
  let ?Q = "upaths - {[]}" and ?s1 = "fold (destroy_pml4 r) [0..<256] s"
  have k: "k \<notin> R" using ok by (simp add: vm_ok_def)
  have "below [] = upaths" by (simp add: below_def)
  then have Q: "(\<Union>i<256. below ([] @ [i])) = ?Q" using below_children [of "[]" 256] by simp
  have "pruned k R r (\<Union>i<256. below ([] @ [i])) s ?s1"
    by (rule prune_loop [OF ok r node_Nil Nil_paths(1)]) (rule destroy_pml4_pruned [OF _ r])
  then have pr: "pruned k R r ?Q s ?s1" unfolding Q .
  have ok1: "vm_ok k ?s1 R" by (rule pruned_ok [OF ok r _ _ pr]) auto
  have b1: "vm_base k ?s1" using ok1 by (simp add: vm_ok_def)
  have root: "node ?s1 r [] = Some r" by simp
  have nz: "r \<noteq> PHYS_NULL" using root_nonzero [OF ok, of r 0] r by (simp add: in_tree_def)
  have eq: "s' = vm_free r ?s1"
    unfolding s' vmm_destroy_address_space_def using nz free_owned_eq [OF ok1 r Nil_paths(1) root] by simp
  note fs = vm_free_spec [OF b1, of r]
  have m: "managed (vm_pmm ?s1) r" by (rule vm_ok_held(2) [OF ok1 r Nil_paths(1) root])
  have "r \<in> owned_by ?s1 r" unfolding owned_by_def using root Nil_paths(1) by blast
  then have "node ?s1 r' p' \<noteq> Some r" if "(r', p') \<in> trees k (R - {r})" for r' p'
    by (rule owned_by_other [OF ok1 r _ that])
  then show "vm_ok k s' (R - {r})" unfolding eq by (intro vm_ok_free vm_ok_mono [OF ok1]) auto
  have "f = r \<or> (\<exists>p\<in>?Q. node s r p = Some f)" if "p \<in> upaths" "node s r p = Some f" for p f
    using that by (cases "p = []") auto
  moreover have "node s r [] = Some r" by simp
  ultimately have "{f. \<exists>p\<in>?Q. node s r p = Some f} \<union> {r} = owned_by s r"
    unfolding owned_by_def using Nil_paths(1) by blast
  then show "av s' = av s \<union> owned_by s r" unfolding eq fs(4) prunedD(4) [OF pr] using m by auto
  show "node s' r' p' = node s r' p'" if x: "(r', p') \<in> trees k (R - {r})" for r' p'
  proof -
    have "(r', p') \<in> trees k R" "r' \<noteq> r" using x k r by (auto simp: trees_def)
    then show ?thesis unfolding eq using node_phys [OF fs(2)] prunedD(3) [OF pr, of r' p'] by simp
  qed
  show "phys s' f = phys s f" if "f \<notin> owned_by s r" for f
    unfolding eq fs(2) by (rule prunedD(5) [OF pr]) (use that in \<open>auto simp: owned_by_def\<close>)
qed

section \<open>Creating an address space\<close>

lemma copy_entries_phys:
  assumes "dst \<noteq> src" and "distinct is"
  shows "phys (copy_entries dst src is s) = (phys s)(dst := \<lambda>i. if i \<in> set is then phys s src i else phys s dst i)"
    and "vm_pmm (copy_entries dst src is s) = vm_pmm s" and "current_pml4 (copy_entries dst src is s) = current_pml4 s"
    and "kernel_pml4_phys (copy_entries dst src is s) = kernel_pml4_phys s"
proof -
  have "phys (copy_entries dst src is s) = (phys s)(dst := \<lambda>i. if i \<in> set is then phys s src i else phys s dst i)
    \<and> vm_pmm (copy_entries dst src is s) = vm_pmm s \<and> current_pml4 (copy_entries dst src is s) = current_pml4 s
    \<and> kernel_pml4_phys (copy_entries dst src is s) = kernel_pml4_phys s"
    using assms
  proof (induction "is" arbitrary: s)
    case (Cons i "is")
    let ?s = "store_pte dst i (phys s src i) s"
    have "copy_entries dst src (i # is) s = copy_entries dst src is ?s" by (simp add: copy_entries_def)
    moreover have "phys ?s = (phys s)(dst := (phys s dst)(i := phys s src i))" by (simp add: store_pte_def)
    ultimately show ?case using Cons.IH [of ?s] Cons.prems by (auto simp: fun_eq_iff store_pte_def)
  qed (simp add: copy_entries_def)
  then show "phys (copy_entries dst src is s) = (phys s)(dst := \<lambda>i. if i \<in> set is then phys s src i else phys s dst i)"
    and "vm_pmm (copy_entries dst src is s) = vm_pmm s" and "current_pml4 (copy_entries dst src is s) = current_pml4 s"
    and "kernel_pml4_phys (copy_entries dst src is s) = kernel_pml4_phys s" by blast+
qed

lemma new_root_ok:
  assumes ok: "vm_ok k s R" and c: "c \<in> av s"
    and ph: "phys s' = (phys s)(c := \<lambda>i. if 256 \<le> i \<and> i < 512 then phys s k i else 0)"
    and s': "vm_base k s'" "av s' = av s - {c}" "managed (vm_pmm s') = managed (vm_pmm s)"
  shows "vm_ok k s' (insert c R)"
    and "\<And>r p. (r, p) \<in> trees k R \<Longrightarrow> node s' r p = node s r p"
    and "\<And>p. p \<in> upaths \<Longrightarrow> p \<noteq> [] \<Longrightarrow> node s' c p = None"
proof -
  have b: "vm_base k s" using ok by (simp add: vm_ok_def)
  have na: "node s r p \<noteq> Some c" if "(r, p) \<in> trees k R" for r p using vm_ok_held(1) [OF ok that] c by blast
  have kc: "k \<noteq> c" and cR: "c \<notin> R" using na [of k "[]"] na [of c "[]"] by auto
  show old: "node s' r p = node s r p" if "(r, p) \<in> trees k R" for r p
    by (rule node_cong [OF _ that]) (use na ph in \<open>auto dest!: trees_prefix\<close>)
  show new: "node s' c p = None" if p: "p \<in> upaths" "p \<noteq> []" for p
  proof -
    obtain i q where i: "p = [i] @ q" "i < 256" using p by (cases p) (auto simp: upaths_def)
    have "node s' c [i] = None" using ph i(2) node_snocI [of s' c "[]" c i] by (simp add: child_def present_def)
    then show ?thesis unfolding i(1) by (rule node_prefix_None)
  qed
  have tr: "(r, p) \<in> trees k (insert c R) \<longleftrightarrow> (r, p) \<in> trees k R \<or> r = c \<and> p \<in> upaths" for r p
    by (auto simp: trees_def)
  have nodes: "(r, p) \<in> trees k R \<and> node s r p = Some f \<and> f \<noteq> c \<or> r = c \<and> p = [] \<and> f = c"
    if "(r, p) \<in> trees k (insert c R)" "node s' r p = Some f" for r p f
    using that old [of r p] new [of p] na [of r p] tr [of r p] by (cases "p = []") auto
  have rc: "r \<noteq> c" if "(r, p) \<in> trees k R" for r p using that kc cR by (auto simp: trees_def)
  have "pt_held k s' (insert c R)" unfolding pt_held_def
    using nodes vm_ok_held(1) [OF ok] ok avail_frame [OF b c] rc unfolding vm_ok_def pt_held_def s' by fastforce
  moreover have "pt_sep k s' (insert c R)" unfolding pt_sep_def using nodes vm_ok_sep [OF ok] by metis
  moreover have "pt_plain k s' (insert c R)" unfolding pt_plain_def
  proof (intro allI impI)
    fix r p t i assume x: "(r, p @ [i]) \<in> trees k (insert c R)" "node s' r p = Some t"
    from nodes [OF trees_prefix [OF x(1)] x(2)] show "plain (r \<in> insert c R) p (phys s' t i)"
    proof (elim disjE conjE)
      assume y: "(r, p) \<in> trees k R" "node s r p = Some t" "t \<noteq> c"
      have z: "(r, p @ [i]) \<in> trees k R" using x(1) rc [OF y(1)] tr by auto
      then show ?thesis using vm_ok_plain [OF ok z y(2)] y(3) rc [OF y(1)] ph by simp
    next
      assume y: "r = c" "p = []" "t = c"
      then have "i < 256" using x(1) kc by (auto simp: trees_def upaths_def)
      then show ?thesis using y ph by simp
    qed
  qed
  moreover have "pt_share k s' (insert c R)"
    using ok ph kc cR unfolding vm_ok_def pt_share_def by auto
  ultimately show "vm_ok k s' (insert c R)" using s'(1) ok kc by (simp add: vm_ok_def)
qed

lemma create_space:
  assumes ok: "vm_ok k s R" and eq: "vmm_create_address_space s = (c, s')"
  shows "c = 0 \<and> s' = s \<and> av s = {} \<or> c \<noteq> 0 \<and> c \<in> av s \<and> vm_base k s' \<and> av s' = av s - {c}
    \<and> managed (vm_pmm s') = managed (vm_pmm s)
    \<and> phys s' = (phys s)(c := \<lambda>i. if 256 \<le> i \<and> i < 512 then phys s k i else 0)"
proof -
  have b: "vm_base k s" using ok by (simp add: vm_ok_def)
  then have cur: "current_pml4 s = Some k" by (simp add: vm_base_def)
  obtain a s1 where al: "vm_alloc s = (a, s1)" by (cases "vm_alloc s")
  show ?thesis
  proof (cases "a = 0")
    case True
    then show ?thesis using vm_alloc_cases [OF b al] eq al cur
      by (auto simp: vmm_create_address_space_def alloc_page_virt_def PHYS_NULL_def)
  next
    case False
    then have a: "a \<in> av s" "phys s1 = phys s" "vm_base k s1" "av s1 = av s - {a}" "managed (vm_pmm s1) = managed (vm_pmm s)"
      using vm_alloc_cases [OF b al] by auto
    then have "a \<noteq> k" using vm_ok_held(1) [OF ok trees_root(1) node_Nil] by blast
    define js :: "nat list" where "js = [256..<512]"
    have js: "distinct js" "\<And>i. i \<in> set js \<longleftrightarrow> 256 \<le> i \<and> i < 512" unfolding js_def set_upt by (simp_all del: upt_rec_numeral)
    note cp = copy_entries_phys [OF \<open>a \<noteq> k\<close> js(1), of "set_frame a (\<lambda>_. 0) s1"]
    have c: "c = a" and s': "s' = copy_entries a k js (set_frame a (\<lambda>_. 0) s1)"
      using eq [unfolded vmm_create_address_space_def, folded js_def] al cur False
      by (auto simp: alloc_page_virt_def PHYS_NULL_def)
    show ?thesis using a False cp \<open>a \<noteq> k\<close> unfolding c s'
      by (auto simp: set_frame_def vm_base_def fun_eq_iff js(2))
  qed
qed

end
