(* ===== verification/Paging_Clone.thy ===== *)
theory Paging_Clone
  imports Paging_Space
begin

text \<open>
  Copying a user address space for \<open>fork\<close>. The loops of \<open>vmm_clone_user_as\<close> visit the pages of the parent in
  increasing order; \<open>clone_view\<close> says that the pages below a bound are copied with their flags and contents and
  the others are absent in the child, \<open>clone_core\<close> that nothing outside the child has changed.
\<close>

lemma owned_cong: "(\<And>r p. (r, p) \<in> trees k R \<Longrightarrow> node s' r p = node s r p) \<Longrightarrow> owned k s' R = owned k s R"
  unfolding owned_def by (intro Collect_cong iff_exI) auto

section \<open>Writing to frames outside the trees\<close>

lemma trees_table: "(r, p @ [i]) \<in> trees k R \<Longrightarrow> length p \<le> 3"
  by (auto simp: trees_def upaths_def kpaths_def)

lemma vm_ok_same_nodes:
  assumes ok: "vm_ok k s R" and s': "vm_base k s'" "managed (vm_pmm s') = managed (vm_pmm s)" "av s' = av s"
    and n: "\<And>r p. (r, p) \<in> trees k R \<Longrightarrow> node s' r p = node s r p" and pl: "pt_plain k s' R" and sh: "pt_share k s' R"
  shows "vm_ok k s' R"
  using n s'(3) vm_ok_held(1) [OF ok] pl sh
  by (intro vm_ok_node_upd [OF ok s'(1,2), of k "[]" "Some k"]) (auto split: if_splits)

lemma write_data_ok:
  assumes ok: "vm_ok k s R" and f: "\<And>r p. (r, p) \<in> trees k R \<Longrightarrow> length p \<le> 3 \<Longrightarrow> node s r p \<noteq> Some f"
  shows "vm_ok k (set_frame f c s) R" and "\<And>r p. (r, p) \<in> trees k R \<Longrightarrow> node (set_frame f c s) r p = node s r p"
    and "\<And>r va. in_tree k R r va \<Longrightarrow> lookup (set_frame f c s) r va = lookup s r va"
proof -
  let ?s = "set_frame f c s"
  have ne: "t \<noteq> f" if "(r, p) \<in> trees k R" "length p \<le> 3" "node s r p = Some t" for r p t using that f by auto
  show n: "node ?s r p = node s r p" if "(r, p) \<in> trees k R" for r p
  proof (rule node_cong [OF _ that])
    fix r p i t assume x: "(r, p @ [i]) \<in> trees k R" "node s r p = Some t"
    have "t \<noteq> f" by (rule ne [OF trees_prefix [OF x(1)] trees_table [OF x(1)] x(2)])
    then show "child (phys ?s t i) = child (phys s t i)" by (simp add: set_frame_def)
  qed
  have b: "vm_base k ?s" "managed (vm_pmm ?s) = managed (vm_pmm s)" "av ?s = av s"
    using ok by (simp_all add: set_frame_def vm_ok_def vm_base_def)
  have "pt_plain k ?s R" unfolding pt_plain_def
  proof (intro allI impI)
    fix r p t i assume x: "(r, p @ [i]) \<in> trees k R" "node ?s r p = Some t"
    have t: "node s r p = Some t" using x n [OF trees_prefix [OF x(1)]] by simp
    then have "t \<noteq> f" using ne [OF trees_prefix [OF x(1)] trees_table [OF x(1)]] by simp
    then show "plain (r \<in> R) p (phys ?s t i)" using vm_ok_plain [OF ok x(1) t] by (simp add: set_frame_def)
  qed
  moreover have "pt_share k ?s R" using ok ne [of k "[]"] ne [of _ "[]"]
    unfolding vm_ok_def pt_share_def by (auto simp: set_frame_def)
  ultimately show ok': "vm_ok k ?s R" using n by (intro vm_ok_same_nodes [OF ok b]) simp_all
  show "lookup ?s r va = lookup s r va" if x: "in_tree k R r va" for r va
    using lookup_leaf [OF ok' x] lookup_leaf [OF ok x] n [OF in_tree_paths(4) [OF x]] ne [OF in_tree_paths(4) [OF x]]
    by (auto simp: leaf_def set_frame_def path3_def split: option.splits)
qed

lemma write_unowned_ok:
  assumes ok: "vm_ok k s R" and f: "f \<notin> owned k s R"
  shows "vm_ok k (set_frame f c s) R" and "\<And>r p. (r, p) \<in> trees k R \<Longrightarrow> node (set_frame f c s) r p = node s r p"
    and "\<And>r va. in_tree k R r va \<Longrightarrow> lookup (set_frame f c s) r va = lookup s r va"
proof -
  have "node s r p \<noteq> Some f" if "(r, p) \<in> trees k R" for r p using ownedI [OF that, of s f] f by auto
  note w = write_data_ok [OF ok this]
  then show "vm_ok k (set_frame f c s) R" and "\<And>r p. (r, p) \<in> trees k R \<Longrightarrow> node (set_frame f c s) r p = node s r p"
    and "\<And>r va. in_tree k R r va \<Longrightarrow> lookup (set_frame f c s) r va = lookup s r va" by simp_all
qed

lemma map_walk_frames:
  assumes ok: "vm_ok k s R" and x: "in_tree k R r va" and eq: "map_walk r va pa fl s = (b, s')"
    and f: "f \<notin> av s" "\<And>p. (r, p) \<in> trees k R \<Longrightarrow> length p \<le> 3 \<Longrightarrow> node s r p \<noteq> Some f"
  shows "phys s' f = phys s f"
proof -
  obtain s1 pt where s1: "vm_ok k s1 R" and e: "extends k R r s s1"
    and c: "if b then node s1 r (path3 va) = Some pt \<and> s' = store_pte pt (PT_IDX va) (mk_pte pa fl) s1
         else s' = s1 \<and> (r \<in> R \<longrightarrow> av s1 = {})" by (rule map_walk_spec [OF ok x eq])
  have "phys s1 f = phys s f" using f by (intro extendsD(7) [OF e]) auto
  moreover have "pt \<noteq> f" if b
    using c that f extendsD(4) [OF e in_tree_paths(4) [OF x], of pt] in_tree_paths(4) [OF x] by (auto simp: path3_def)
  ultimately show ?thesis using c by (cases b) (auto simp: store_pte_def)
qed

section \<open>Page numbers\<close>

definition page_no :: "nat \<Rightarrow> nat \<Rightarrow> nat \<Rightarrow> nat \<Rightarrow> nat" where
  "page_no p4 p3 p2 p1 = ((p4 * 512 + p3) * 512 + p2) * 512 + p1"

lemma va_of_page: "va_of p4 p3 p2 p1 = page_no p4 p3 p2 p1 * 4096"
  by (simp add: va_of_def page_no_def algebra_simps)

lemma va_of_bound:
  assumes "p4 < 256" "p3 < 512" "p2 < 512" "p1 < 512"
  shows "va_of p4 p3 p2 p1 < 2 ^ 47"
  using assms by (simp add: va_of_def)

lemma IDX_by_page:
  "PML4_IDX va = va div 4096 div 512 div 512 div 512 mod 512" "PDPT_IDX va = va div 4096 div 512 div 512 mod 512"
  "PD_IDX va = va div 4096 div 512 mod 512" "PT_IDX va = va div 4096 mod 512"
  by (simp_all add: PML4_IDX_def PDPT_IDX_def PD_IDX_def PT_IDX_def div_mult2_eq [symmetric])

lemma block_div: "n * m \<le> w \<Longrightarrow> w < n * m + m \<Longrightarrow> w div m = (n :: nat)"
  by (metis add.commute div_nat_eqI mult.commute mult_Suc_right)

lemma digit_split: "a < 512 \<Longrightarrow> (x * 512 + a) div 512 = x" "a < 512 \<Longrightarrow> (x * 512 + a) mod 512 = (a :: nat)"
  by simp_all

text \<open>The addresses whose walk starts with given indices are a block of page numbers.\<close>

lemma block_path1:
  assumes "p4 < 512" and "page_no p4 0 0 0 \<le> va div 4096" and "va div 4096 < page_no p4 0 0 0 + 512 * (512 * 512)"
  shows "prefix ([] @ [p4]) (path3 va)"
proof -
  have "va div 4096 div (512 * (512 * 512)) = p4" using assms(2,3) by (intro block_div) (simp_all add: page_no_def)
  then have "va div 4096 div 512 div 512 div 512 = p4" by (simp only: div_mult2_eq)
  then show ?thesis using assms(1) by (simp add: path3_def IDX_by_page)
qed

lemma block_path2:
  assumes "p4 < 512" "p3 < 512" and "page_no p4 p3 0 0 \<le> va div 4096" and "va div 4096 < page_no p4 p3 0 0 + 512 * 512"
  shows "prefix ([p4] @ [p3]) (path3 va)"
proof -
  have "va div 4096 div (512 * 512) = p4 * 512 + p3" using assms(3,4) by (intro block_div) (simp_all add: page_no_def)
  then have "va div 4096 div 512 div 512 = p4 * 512 + p3" by (simp only: div_mult2_eq)
  then show ?thesis using assms(1,2) by (simp add: path3_def IDX_by_page)
qed

lemma block_path3:
  assumes "p4 < 512" "p3 < 512" "p2 < 512" and "page_no p4 p3 p2 0 \<le> va div 4096" and "va div 4096 < page_no p4 p3 p2 0 + 512"
  shows "prefix ([p4, p3] @ [p2]) (path3 va)"
proof -
  have "va div 4096 div 512 = (p4 * 512 + p3) * 512 + p2" using assms(4,5) by (intro block_div) (simp_all add: page_no_def)
  then have "PML4_IDX va = p4" "PDPT_IDX va = p3" "PD_IDX va = p2"
    using assms(1-3) by (simp_all only: IDX_by_page digit_split mod_less)
  then show ?thesis by (simp add: path3_def)
qed

lemma va_of_IDX:
  assumes "p4 < 512" "p3 < 512" "p2 < 512" "p1 < 512"
  shows "path3 (va_of p4 p3 p2 p1) = [p4, p3, p2]" and "PT_IDX (va_of p4 p3 p2 p1) = p1"
proof -
  have w: "va_of p4 p3 p2 p1 div 4096 = ((p4 * 512 + p3) * 512 + p2) * 512 + p1" by (simp add: va_of_page page_no_def)
  show "PT_IDX (va_of p4 p3 p2 p1) = p1" using assms by (simp only: IDX_by_page w digit_split)
  have "PML4_IDX (va_of p4 p3 p2 p1) = p4" "PDPT_IDX (va_of p4 p3 p2 p1) = p3" "PD_IDX (va_of p4 p3 p2 p1) = p2"
    using assms by (simp_all only: IDX_by_page w digit_split mod_less)
  then show "path3 (va_of p4 p3 p2 p1) = [p4, p3, p2]" by (simp add: path3_def)
qed

lemma user_same_page: "va < 2 ^ 47 \<Longrightarrow> va' < 2 ^ 47 \<Longrightarrow> same_page va va' \<longleftrightarrow> va div 4096 = va' div 4096"
  by (simp add: same_page_def)

section \<open>The state while cloning\<close>

definition clone_start :: "nat \<Rightarrow> nat set \<Rightarrow> nat \<Rightarrow> vm \<Rightarrow> bool" where
  "clone_start k R c s0 \<longleftrightarrow> vm_ok k s0 (insert c R) \<and> c \<notin> R \<and> owned_by s0 c = {c}"

definition clone_core :: "nat \<Rightarrow> nat set \<Rightarrow> nat \<Rightarrow> vm \<Rightarrow> vm \<Rightarrow> bool" where
  "clone_core k R c s0 s \<longleftrightarrow> vm_ok k s (insert c R) \<and> av s \<subseteq> av s0
    \<and> (\<forall>f. f \<notin> av s0 \<longrightarrow> f \<noteq> c \<longrightarrow> phys s f = phys s0 f)
    \<and> av s \<union> owned k s (insert c R) = av s0 \<union> owned k s0 (insert c R)"

definition copied :: "vm \<Rightarrow> nat \<Rightarrow> nat \<Rightarrow> nat \<Rightarrow> pte option" where
  "copied s0 r n va = (if va div 4096 < n \<and> \<not> kz_shm_va_excluded va then lookup s0 r va else None)"

definition clone_view :: "nat \<Rightarrow> nat \<Rightarrow> vm \<Rightarrow> nat \<Rightarrow> vm \<Rightarrow> bool" where
  "clone_view r c s0 n s \<longleftrightarrow> (\<forall>va < 2 ^ 47. case copied s0 r n va of None \<Rightarrow> lookup s c va = None
    | Some e \<Rightarrow> (\<exists>e'. lookup s c va = Some e' \<and> pte_flags e' = pte_flags e \<and> phys s (pte_frame e') = phys s0 (pte_frame e)))"

lemma clone_coreD:
  assumes "clone_core k R c s0 s"
  shows "vm_ok k s (insert c R)" and "av s \<subseteq> av s0" and "\<And>f. f \<notin> av s0 \<Longrightarrow> f \<noteq> c \<Longrightarrow> phys s f = phys s0 f"
    and "av s \<union> owned k s (insert c R) = av s0 \<union> owned k s0 (insert c R)"
  using assms unfolding clone_core_def by blast+

lemma parent_frame:
  assumes st: "clone_start k R c s0" and co: "clone_core k R c s0 s" and x: "(r, p) \<in> trees k R" "node s0 r p = Some t"
  shows "t \<notin> av s0" and "t \<noteq> c" and "phys s t = phys s0 t"
proof -
  have ok: "vm_ok k s0 (insert c R)" and c: "c \<notin> R" "k \<noteq> c" using st by (auto simp: clone_start_def vm_ok_def)
  have x': "(r, p) \<in> trees k (insert c R)" using x(1) by (auto simp: trees_def)
  show 1: "t \<notin> av s0" by (rule vm_ok_held(1) [OF ok x' x(2)])
  show 2: "t \<noteq> c"
  proof
    assume "t = c"
    then have "r = c" using vm_ok_sep [OF ok _ x', of c "[]" c] x(2) by simp
    then show False using x(1) c by (auto simp: trees_def)
  qed
  show "phys s t = phys s0 t" by (rule clone_coreD(3) [OF co 1 2])
qed

lemma parent_node:
  assumes st: "clone_start k R c s0" and co: "clone_core k R c s0 s" and x: "(r, p) \<in> trees k R"
  shows "node s r p = node s0 r p"
  by (rule node_cong [OF _ x]) (use parent_frame(3) [OF st co trees_prefix] in simp)

lemma parent_lookup:
  assumes st: "clone_start k R c s0" and co: "clone_core k R c s0 s" and x: "in_tree k R r va"
  shows "lookup s r va = lookup s0 r va"
proof -
  have i: "in_tree k (insert c R) r va" using x by (auto simp: in_tree_def)
  have "vm_ok k s0 (insert c R)" using st by (simp add: clone_start_def)
  then show ?thesis
    using lookup_leaf [OF _ i, of s0] lookup_leaf [OF clone_coreD(1) [OF co] i] parent_node [OF st co in_tree_paths(4) [OF x]]
      parent_frame(3) [OF st co in_tree_paths(4) [OF x]] by (simp add: leaf_def split: option.splits)
qed

lemma child_frames:
  assumes st: "clone_start k R c s0" and co: "clone_core k R c s0 s" and f: "f \<in> owned_by s c"
  shows "f = c \<or> f \<in> av s0"
proof -
  have "f \<notin> owned k s0 R"
  proof
    assume "f \<in> owned k s0 R"
    then obtain r p where rp: "(r, p) \<in> trees k R" "node s0 r p = Some f" by (auto simp: owned_def)
    have c: "insert c R - {c} = R" using st by (auto simp: clone_start_def)
    show False using owned_by_other [OF clone_coreD(1) [OF co] _ f, of r p] rp parent_node [OF st co rp(1)] c by simp
  qed
  moreover have "f \<in> av s0 \<union> owned k s0 (insert c R)" using clone_coreD(4) [OF co] f by (auto simp: owned_split)
  ultimately show ?thesis using st by (auto simp: owned_split clone_start_def)
qed

lemma lookup_private:
  assumes ok: "vm_ok k s R" and r: "r \<in> R" and va: "va < 2 ^ 47" "\<not> kz_shm_va_excluded va" and e: "lookup s r va = Some e"
  shows "flags_ok (pte_flags e)" and "node s r (path3 va @ [PT_IDX va]) = Some (pte_frame e)"
    and "path3 va @ [PT_IDX va] \<in> upaths"
proof -
  have x: "in_tree k R r va" using r va by (simp add: in_tree_def)
  show u: "path3 va @ [PT_IDX va] \<in> upaths" using user_leaf_path [OF va(1)] va(2) by simp
  then have t: "(r, path3 va @ [PT_IDX va]) \<in> trees k R" using r by (simp add: trees_def)
  show "node s r (path3 va @ [PT_IDX va]) = Some (pte_frame e)" using leaf_node [OF ok x t] e by simp
  obtain pt where "node s r (path3 va) = Some pt" "phys s pt (PT_IDX va) = e" "present e"
    using e lookup_leaf [OF ok x] by (auto simp: leaf_def split: option.splits if_splits)
  then show "flags_ok (pte_flags e)" using vm_ok_plain [OF ok t] by (auto simp: plain_def path3_def)
qed

lemma lookup_same_page:
  assumes "vm_ok k s R" and "in_tree k R r va" and "in_tree k R r va'" and "same_page va va'"
  shows "lookup s r va' = lookup s r va"
  using lookup_leaf [OF assms(1,2)] lookup_leaf [OF assms(1,3)] assms(4) by (simp add: same_page_path)

lemma shm_same_page: "va div 4096 = va' div 4096 \<Longrightarrow> kz_shm_va_excluded va \<longleftrightarrow> kz_shm_va_excluded va'"
  using shm_page [of va] shm_page [of va'] by simp

section \<open>One page\<close>

lemma alloc_write:
  assumes ok: "vm_ok k s R" and al: "vm_alloc s = (dst, s1)" "dst \<noteq> 0" and s2: "s2 = set_frame dst ct s1"
  shows "vm_ok k s2 R" and "av s2 = av s - {dst}" and "dst \<in> av s" and "phys s2 = (phys s)(dst := ct)"
    and "\<And>r p. (r, p) \<in> trees k R \<Longrightarrow> node s2 r p = node s r p" and "owned k s2 R = owned k s R"
    and "fresh k s2 R dst" and "is_frame dst" and "\<And>r va. in_tree k R r va \<Longrightarrow> lookup s2 r va = lookup s r va"
proof -
  note a = alloc_fresh [OF ok al]
  have no: "dst \<notin> owned k s1 R" using a(2) by (simp add: fresh_def)
  note w = write_unowned_ok [OF a(1) no, where c = ct, folded s2]
  show "vm_ok k s2 R" by (rule w(1))
  show "av s2 = av s - {dst}" "phys s2 = (phys s)(dst := ct)" using a(4,6) by (simp_all add: s2 set_frame_def)
  show "dst \<in> av s" "is_frame dst" using a by simp_all
  show n2: "node s2 r p = node s r p" if "(r, p) \<in> trees k R" for r p using w(2) [OF that] node_phys [OF a(6)] by simp
  show o2: "owned k s2 R = owned k s R" by (rule owned_cong [OF n2])
  show "fresh k s2 R dst" using a(2,5) o2 by (simp add: fresh_def s2 set_frame_def)
  show "lookup s2 r va = lookup s r va" if "in_tree k R r va" for r va using w(3) [OF that] a(7) by simp
qed

lemma clone_page_core:
  assumes st: "clone_start k R c s0" and co: "clone_core k R c s0 s"
    and va: "va < 2 ^ 47" "\<not> kz_shm_va_excluded va" and none: "lookup s c va = None"
    and al: "vm_alloc s = (dst, s1)" "dst \<noteq> 0" and s2: "s2 = set_frame dst ct s1" and fl: "flags_ok fl"
    and m: "map_walk c va dst fl s2 = (b, s3)"
  shows "if b then clone_core k R c s0 s3 else clone_core k R c s0 (vm_free dst s3)"
proof -
  let ?R = "insert c R"
  note cD = clone_coreD [OF co] and w = alloc_write [OF clone_coreD(1) [OF co] al s2]
  have x: "in_tree k ?R c va" using va by (simp add: in_tree_def)
  have mm: "may_map k s2 ?R c va dst" using w(7,8) by (simp add: may_map_def)
  have none2: "lookup s2 c va = None" using w(9) [OF x] none by simp
  note mo = map_walk_ok [OF w(1) x mm fl m] and mw = map_walk_owned [OF w(1) x mm fl m none2]
  have ph3: "phys s3 f = phys s0 f" if f: "f \<notin> av s0" "f \<noteq> c" for f
  proof -
    have nt: "node s2 c p \<noteq> Some f" if p: "(c, p) \<in> trees k ?R" for p
    proof -
      have "k \<noteq> c" using cD(1) by (auto simp: vm_ok_def)
      then have "p \<in> upaths" using p(1) st by (auto simp: trees_def clone_start_def)
      then show ?thesis using w(5) [OF p(1)] child_frames [OF st co, of f] f by (auto simp: owned_by_def)
    qed
    have "f \<notin> av s2" "f \<noteq> dst" using f(1) w(2,3) cD(2) by auto
    then show ?thesis using map_walk_frames [OF w(1) x m _ nt] w(4) cD(3) [OF f] by simp
  qed
  have tot: "av s2 \<union> owned k s2 ?R \<union> {dst} = av s0 \<union> owned k s0 ?R" using w(2,3,6) cD(4) by auto
  have av3: "av s3 \<subseteq> av s0" "dst \<in> av s0" using mw(1) w(2,3) cD(2) by auto
  show ?thesis
  proof (cases b)
    case True
    then show ?thesis unfolding clone_core_def using mo(1) mw(3) av3 ph3 tot va(2) by auto
  next
    case False
    have b3: "vm_base k s3" using mo(1) by (simp add: vm_ok_def)
    have f3: "fresh k s3 ?R dst" using map_walk_fail_fresh [OF w(1) x _ w(7)] m False by auto
    note ff = free_fresh(1-3) [OF mo(1) f3]
    have "insert dst (av s3) \<union> owned k s3 ?R = av s0 \<union> owned k s0 ?R" using mw(3) tot False by auto
    then show ?thesis unfolding clone_core_def using ff av3 ph3 False vm_free_spec(2) [OF b3, of dst] by auto
  qed
qed

lemma clone_page_view:
  assumes st: "clone_start k R c s0" and co: "clone_core k R c s0 s"
    and va: "va < 2 ^ 47" "\<not> kz_shm_va_excluded va"
    and al: "vm_alloc s = (dst, s1)" "dst \<noteq> 0" and s2: "s2 = set_frame dst ct s1" and fl: "flags_ok fl"
    and m: "map_walk c va dst fl s2 = (True, s3)"
  shows "phys s3 dst = ct"
    and "va' < 2 ^ 47 \<Longrightarrow> lookup s3 c va' = (if same_page va va' then Some (mk_pte dst fl) else lookup s c va')"
    and "p \<in> upaths \<Longrightarrow> length p = 4 \<Longrightarrow> node s c p = Some f \<Longrightarrow> phys s3 f = phys s f"
    and "is_frame dst"
proof -
  let ?R = "insert c R"
  note cD = clone_coreD [OF co] and w = alloc_write [OF clone_coreD(1) [OF co] al s2]
  have x: "in_tree k ?R c v" if "v < 2 ^ 47" for v using that by (simp add: in_tree_def)
  have mm: "may_map k s2 ?R c va dst" using w(7,8) by (simp add: may_map_def)
  note mo = map_walk_ok [OF w(1) x [OF va(1)] mm fl m]
  have "dst \<notin> av s2" "dst \<notin> owned k s2 ?R" using w(7) by (auto simp: fresh_def)
  then show "phys s3 dst = ct" using map_walk_frames [OF w(1) x [OF va(1)] m, of dst] w(4) by (auto simp: owned_def)
  show "is_frame dst" by (rule w(8))
  show "lookup s3 c va' = (if same_page va va' then Some (mk_pte dst fl) else lookup s c va')" if "va' < 2 ^ 47"
    using mo(4) [OF x [OF that]] w(9) [OF x [OF that]] by simp
  show "phys s3 f = phys s f" if p: "p \<in> upaths" "length p = 4" "node s c p = Some f"
  proof -
    have t: "(c, p) \<in> trees k ?R" using p(1) by (simp add: trees_def)
    have "f \<noteq> dst" using vm_ok_held(1) [OF cD(1) t p(3)] w(3) by auto
    then show ?thesis using mo(2) w(5) [OF t] p w(4) by (auto simp: pages_kept_def)
  qed
qed

lemma view_same: "clone_view r c s0 n s \<Longrightarrow> (\<And>va. va < 2 ^ 47 \<Longrightarrow> copied s0 r m va = copied s0 r n va) \<Longrightarrow> clone_view r c s0 m s"
  by (simp add: clone_view_def)

lemma clone_page_step:
  assumes st: "clone_start k R c s0" and co: "clone_core k R c s0 s" and vw: "clone_view r c s0 n s" and r: "r \<in> R"
    and va: "va < 2 ^ 47" "\<not> kz_shm_va_excluded va" "va div 4096 = n" and e: "lookup s0 r va = Some e"
    and al: "vm_alloc s = (dst, s1)" "dst \<noteq> 0" and s2: "s2 = set_frame dst (phys s (pte_frame e)) s1"
    and m: "map_walk c va dst (pte_flags e) s2 = (b, s3)"
  shows "if b then clone_core k R c s0 s3 \<and> clone_view r c s0 (Suc n) s3 else clone_core k R c s0 (vm_free dst s3)"
proof -
  have ok0: "vm_ok k s0 R" using st vm_ok_mono [of k s0 "insert c R" R] by (auto simp: clone_start_def)
  note ep = lookup_private [OF ok0 r va(1,2) e]
  have "lookup s c va = None" using vw va by (auto simp: clone_view_def copied_def)
  note core = clone_page_core [OF st co va(1,2) this al s2 ep(1) m]
  have "clone_view r c s0 (Suc n) s3" if b
    unfolding clone_view_def
  proof (intro allI impI)
    fix v :: nat assume v: "v < 2 ^ 47"
    note pv = clone_page_view [OF st co va(1,2) al s2 ep(1) m [unfolded eq_True [THEN iffD2, OF that]]]
    have ct: "phys s (pte_frame e) = phys s0 (pte_frame e)"
      by (rule parent_frame(3) [OF st co _ ep(2)]) (use ep(3) r in \<open>simp add: trees_def\<close>)
    show "case copied s0 r (Suc n) v of None \<Rightarrow> lookup s3 c v = None
      | Some e \<Rightarrow> (\<exists>e'. lookup s3 c v = Some e' \<and> pte_flags e' = pte_flags e \<and> phys s3 (pte_frame e') = phys s0 (pte_frame e))"
    proof (cases "v div 4096 = n")
      case True
      have sp: "same_page va v" using user_same_page [OF va(1) v] True va(3) by simp
      have "copied s0 r (Suc n) v = Some e"
        using True va lookup_same_page [OF ok0 _ _ sp, of r] r v e shm_same_page [of v va] by (simp add: copied_def in_tree_def)
      then show ?thesis using pv(1,2,4) v sp ct ep(1) by simp
    next
      case False
      have "\<not> same_page va v" using user_same_page [OF va(1) v] False va(3) by simp
      then have l: "lookup s3 c v = lookup s c v" using pv(2) [OF v] by simp
      have cp: "copied s0 r (Suc n) v = copied s0 r n v" using False by (auto simp: copied_def)
      have "phys s3 (pte_frame e') = phys s (pte_frame e')" if "lookup s c v = Some e'" "\<not> kz_shm_va_excluded v" for e'
        using lookup_private [OF clone_coreD(1) [OF co] _ v that(2,1)] by (intro pv(3)) (simp_all add: path3_def)
      moreover note vw [unfolded clone_view_def, rule_format, OF v]
      moreover have "\<not> kz_shm_va_excluded v" if "copied s0 r n v = Some x" for x using that by (auto simp: copied_def split: if_splits)
      ultimately show ?thesis unfolding l cp by (cases "copied s0 r n v") auto
    qed
  qed
  then show ?thesis using core by simp
qed

section \<open>The loops\<close>

definition clone_to :: "nat \<Rightarrow> nat set \<Rightarrow> nat \<Rightarrow> nat \<Rightarrow> vm \<Rightarrow> nat \<Rightarrow> bool \<times> vm \<Rightarrow> bool" where
  "clone_to k R r c s0 n x \<longleftrightarrow> clone_core k R c s0 (snd x) \<and> (fst x \<longrightarrow> clone_view r c s0 n (snd x))"

lemma while_ok_clone:
  assumes body: "\<And>i s. i < N \<Longrightarrow> clone_to k R r c s0 (n0 + i * st) (True, s) \<Longrightarrow> clone_to k R r c s0 (n0 + Suc i * st) (B i s)"
    and "m \<le> N" and "clone_to k R r c s0 (n0 + m * st) (True, s)"
  shows "clone_to k R r c s0 (n0 + N * st) (while_ok B [m..<N] s)"
  using assms(2,3)
proof (induction "N - m" arbitrary: m s)
  case 0
  then show ?case by simp
next
  case (Suc d)
  then have m: "m < N" by simp
  obtain b s1 where B: "B m s = (b, s1)" by (cases "B m s")
  have 1: "clone_to k R r c s0 (n0 + Suc m * st) (b, s1)" using body [OF m Suc.prems(2)] B by simp
  show ?case
  proof (cases b)
    case True
    then show ?thesis using Suc.hyps(1) [of "Suc m" s1] Suc.hyps(2) 1 m B by (simp add: upt_conv_Cons)
  next
    case False
    then show ?thesis using 1 m B by (simp add: upt_conv_Cons clone_to_def)
  qed
qed

lemma clone_pt_step:
  assumes st: "clone_start k R c s0" and r: "r \<in> R" and p: "p4 < 256" "p3 < 512" "p2 < 512" "p1 < 512"
    and t: "node s0 r [p4, p3, p2] = Some pt" and cl: "clone_to k R r c s0 (page_no p4 p3 p2 p1) (True, s)"
  shows "clone_to k R r c s0 (Suc (page_no p4 p3 p2 p1)) (clone_pt c p4 p3 p2 pt p1 s)"
proof -
  let ?n = "page_no p4 p3 p2 p1" and ?va = "va_of p4 p3 p2 p1" and ?e = "phys s0 pt p1"
  have co: "clone_core k R c s0 s" and vw: "clone_view r c s0 ?n s" using cl by (auto simp: clone_to_def)
  have ok0: "vm_ok k s0 R" using st vm_ok_mono [of k s0 "insert c R" R] by (auto simp: clone_start_def)
  have va: "?va < 2 ^ 47" "?va div 4096 = ?n" using va_of_bound [OF p] by (simp_all add: va_of_page)
  have p4: "p4 < 512" using p(1) by simp
  note I = va_of_IDX [OF p4 p(2-4)]
  have x: "in_tree k R r ?va" "in_tree k (insert c R) c ?va" using r va by (simp_all add: in_tree_def)
  have tr: "(r, [p4, p3, p2]) \<in> trees k R" using r p by (simp add: trees_def upaths_def)
  have e: "phys s pt p1 = ?e" using parent_frame(3) [OF st co tr t] by simp
  have look: "lookup s0 r ?va = (if present ?e then Some ?e else None)"
    using lookup_leaf [OF ok0 x(1)] I t by (simp add: leaf_def)
  have adv: "clone_view r c s0 (Suc ?n) s" if "\<not> present ?e \<or> kz_shm_va_excluded ?va"
  proof (rule view_same [OF vw])
    fix v :: nat assume v: "v < 2 ^ 47"
    have "kz_shm_va_excluded v \<or> lookup s0 r v = None" if n: "v div 4096 = ?n"
    proof -
      have sp: "same_page ?va v" using user_same_page [OF va(1) v] va(2) n by simp
      have "lookup s0 r v = lookup s0 r ?va" by (rule lookup_same_page [OF ok0 x(1) _ sp]) (use r v in \<open>simp add: in_tree_def\<close>)
      then show ?thesis using look \<open>\<not> present ?e \<or> kz_shm_va_excluded ?va\<close> shm_same_page [of v ?va] n va(2) by auto
    qed
    then show "copied s0 r (Suc ?n) v = copied s0 r ?n v" by (auto simp: copied_def less_Suc_eq)
  qed
  show ?thesis
  proof (cases "\<not> present ?e \<or> kz_shm_va_excluded ?va")
    case True
    then show ?thesis using adv co e by (auto simp: clone_pt_def clone_to_def Let_def)
  next
    case False
    obtain dst s1 where al: "vm_alloc s = (dst, s1)" by (cases "vm_alloc s")
    have ph1: "phys s1 = phys s" using al by (auto simp: vm_alloc_def split: prod.splits)
    define s2 where "s2 = set_frame dst (phys s (pte_frame ?e)) s1"
    obtain b s3 where m: "map_walk c ?va dst (pte_flags ?e) s2 = (b, s3)" by (cases "map_walk c ?va dst (pte_flags ?e) s2")
    have c0: "c \<noteq> PHYS_NULL" by (rule root_nonzero [OF clone_coreD(1) [OF co] x(2)])
    show ?thesis
    proof (cases "dst = 0")
      case True
      have "s1 = s" using vm_alloc_cases [OF _ al, of k] True clone_coreD(1) [OF co] by (auto simp: vm_ok_def)
      then show ?thesis using True False e al co by (simp add: clone_pt_def clone_to_def Let_def PHYS_NULL_def)
    next
      case d: False
      have "clone_pt c p4 p3 p2 pt p1 s = (if b then (True, s3) else (False, vm_free dst s3))"
        using False d e al m c0 ph1 by (simp add: clone_pt_def Let_def PHYS_NULL_def vmm_map_page_into_def s2_def)
      then show ?thesis
        using clone_page_step [OF st co vw r va(1) _ va(2) _ al d s2_def m] look False by (auto simp: clone_to_def)
    qed
  qed
qed

lemma clone_level:
  assumes st: "clone_start k R c s0" and r: "r \<in> R" and P: "p @ [i] \<in> upaths" "length p < 3" and t: "node s0 r p = Some t"
    and blk: "\<And>va. va < 2 ^ 47 \<Longrightarrow> n \<le> va div 4096 \<Longrightarrow> va div 4096 < n + 512 * st' \<Longrightarrow> prefix (p @ [i]) (path3 va)"
    and inner: "\<And>f j s. node s0 r (p @ [i]) = Some f \<Longrightarrow> j < 512 \<Longrightarrow> clone_to k R r c s0 (n + j * st') (True, s) \<Longrightarrow>
        clone_to k R r c s0 (n + Suc j * st') (B f j s)"
    and cl: "clone_to k R r c s0 n (True, s)"
  shows "clone_to k R r c s0 (n + 512 * st') (let e = phys s t i in if \<not> present e \<or> huge e then (True, s)
    else while_ok (B (table_of e)) [0..<512] s)"
proof -
  have co: "clone_core k R c s0 s" and vw: "clone_view r c s0 n s" using cl by (auto simp: clone_to_def)
  have ok0: "vm_ok k s0 R" using st vm_ok_mono [of k s0 "insert c R" R] by (auto simp: clone_start_def)
  have x: "(r, p @ [i]) \<in> trees k R" using P r by (simp add: trees_def)
  have e: "phys s t i = phys s0 t i" using parent_frame(3) [OF st co trees_prefix [OF x] t] by simp
  note pl = vm_ok_plain [OF ok0 x t]
  show ?thesis
  proof (cases "present (phys s0 t i) \<and> \<not> huge (phys s0 t i)")
    case True
    then have f: "node s0 r (p @ [i]) = Some (table_of (phys s0 t i))"
      using node_snocI [OF t, of i] pl P(2) by (simp add: child_def plain_def table_of_frame)
    have "clone_to k R r c s0 (n + 512 * st') (while_ok (B (table_of (phys s0 t i))) [0..<512] s)"
      by (rule while_ok_clone [OF inner [OF f]]) (use cl in simp_all)
    then show ?thesis using True by (simp add: e)
  next
    case False
    have none: "node s0 r (p @ [i]) = None" using node_snocI [OF t, of i] False by (simp add: child_def)
    have "copied s0 r (n + 512 * st') va = copied s0 r n va" if va: "va < 2 ^ 47" for va
    proof (cases "n \<le> va div 4096 \<and> va div 4096 < n + 512 * st'")
      case True
      then obtain q where q: "path3 va = (p @ [i]) @ q" using blk [OF va] by (auto elim: prefixE)
      have "node s0 r (path3 va) = None" unfolding q by (rule node_prefix_None [OF none])
      then have "lookup s0 r va = None" using lookup_leaf [OF ok0, of r va] r va by (simp add: in_tree_def leaf_def)
      then show ?thesis by (simp add: copied_def)
    qed (auto simp: copied_def)
    then have "clone_view r c s0 (n + 512 * st') s" by (rule view_same [OF vw])
    then show ?thesis using False co by (auto simp: e clone_to_def)
  qed
qed

lemma clone_pd_step:
  assumes st: "clone_start k R c s0" and r: "r \<in> R" and p: "p4 < 256" "p3 < 512" "p2 < 512"
    and t: "node s0 r [p4, p3] = Some pd" and cl: "clone_to k R r c s0 (page_no p4 p3 p2 0) (True, s)"
  shows "clone_to k R r c s0 (page_no p4 p3 p2 0 + 512 * 1) (clone_pd c p4 p3 pd p2 s)"
  unfolding clone_pd_def
proof (rule clone_level [OF st r _ _ t])
  show "[p4, p3] @ [p2] \<in> upaths" "length [p4, p3] < 3" using p by (simp_all add: upaths_def)
  show "prefix ([p4, p3] @ [p2]) (path3 va)" if "page_no p4 p3 p2 0 \<le> va div 4096" "va div 4096 < page_no p4 p3 p2 0 + 512 * 1" for va
    using block_path3 [of p4 p3 p2 va] p that by simp
  show "clone_to k R r c s0 (page_no p4 p3 p2 0 + Suc j * 1) (clone_pt c p4 p3 p2 f j s)"
    if "node s0 r ([p4, p3] @ [p2]) = Some f" "j < 512" "clone_to k R r c s0 (page_no p4 p3 p2 0 + j * 1) (True, s)" for f j s
    using clone_pt_step [OF st r p that(2), of f s] that by (simp add: page_no_def)
qed (rule cl)

lemma clone_pdpt_step:
  assumes st: "clone_start k R c s0" and r: "r \<in> R" and p: "p4 < 256" "p3 < 512"
    and t: "node s0 r [p4] = Some pdpt" and cl: "clone_to k R r c s0 (page_no p4 p3 0 0) (True, s)"
  shows "clone_to k R r c s0 (page_no p4 p3 0 0 + 512 * 512) (clone_pdpt c p4 pdpt p3 s)"
  unfolding clone_pdpt_def
proof (rule clone_level [OF st r _ _ t])
  show "[p4] @ [p3] \<in> upaths" "length [p4] < 3" using p by (simp_all add: upaths_def)
  show "prefix ([p4] @ [p3]) (path3 va)" if "page_no p4 p3 0 0 \<le> va div 4096" "va div 4096 < page_no p4 p3 0 0 + 512 * 512" for va
    using block_path2 [of p4 p3 va] p that by simp
  have pn: "page_no p4 p3 0 0 + j * 512 = page_no p4 p3 j 0" for j by (simp add: page_no_def)
  show "clone_to k R r c s0 (page_no p4 p3 0 0 + Suc j * 512) (clone_pd c p4 p3 f j s)"
    if "node s0 r ([p4] @ [p3]) = Some f" "j < 512" "clone_to k R r c s0 (page_no p4 p3 0 0 + j * 512) (True, s)" for f j s
    using clone_pd_step [OF st r p that(2), of f s] that unfolding pn by (simp add: page_no_def add.commute)
qed (rule cl)

lemma clone_pml4_step:
  assumes st: "clone_start k R c s0" and r: "r \<in> R" and p: "p4 < 256"
    and cl: "clone_to k R r c s0 (page_no p4 0 0 0) (True, s)"
  shows "clone_to k R r c s0 (page_no p4 0 0 0 + 512 * (512 * 512)) (clone_pml4 c r p4 s)"
  unfolding clone_pml4_def
proof (rule clone_level [OF st r _ _ node_Nil])
  show "[] @ [p4] \<in> upaths" using p by (simp add: upaths_def)
  show "prefix ([] @ [p4]) (path3 va)" if "page_no p4 0 0 0 \<le> va div 4096" "va div 4096 < page_no p4 0 0 0 + 512 * (512 * 512)" for va
    using block_path1 [of p4 va] p that by simp
  have pn: "page_no p4 0 0 0 + j * (512 * 512) = page_no p4 j 0 0" for j by (simp add: page_no_def)
  show "clone_to k R r c s0 (page_no p4 0 0 0 + Suc j * (512 * 512)) (clone_pdpt c p4 f j s)"
    if "node s0 r ([] @ [p4]) = Some f" "j < 512" "clone_to k R r c s0 (page_no p4 0 0 0 + j * (512 * 512)) (True, s)" for f j s
    using clone_pdpt_step [OF st r p that(2), of f s] that unfolding pn by (simp add: page_no_def add.commute)
qed (simp_all add: cl)

lemma clone_loops:
  assumes st: "clone_start k R c s0" and r: "r \<in> R" and cl: "clone_to k R r c s0 0 (True, s)"
  shows "clone_to k R r c s0 (2 ^ 35) (while_ok (clone_pml4 c r) [0..<256] s)"
proof -
  have pn: "page_no i 0 0 0 = 0 + i * (512 * (512 * 512))" for i by (simp add: page_no_def)
  have "clone_to k R r c s0 (0 + 256 * (512 * (512 * 512))) (while_ok (clone_pml4 c r) [0..<256] s)"
  proof (rule while_ok_clone)
    fix i s assume i: "i < 256" "clone_to k R r c s0 (0 + i * (512 * (512 * 512))) (True, s)"
    from clone_pml4_step [OF st r i(1) i(2) [folded pn]]
    show "clone_to k R r c s0 (0 + Suc i * (512 * (512 * 512))) (clone_pml4 c r i s)" unfolding pn by (simp add: add.commute)
  qed (use cl in simp_all)
  then show ?thesis by simp
qed

section \<open>Cloning\<close>

lemma lookup_empty:
  assumes "vm_ok k s R" and "c \<in> R" and "\<And>p. p \<in> upaths \<Longrightarrow> p \<noteq> [] \<Longrightarrow> node s c p = None" and "va < 2 ^ 47"
  shows "lookup s c va = None"
proof -
  have "path3 va \<in> upaths" using user_PML4_IDX [OF assms(4)] by (simp add: path3_def upaths_def)
  then have "node s c (path3 va) = None" by (intro assms(3)) (simp_all add: path3_def)
  then show ?thesis using lookup_leaf [OF assms(1), of c va] assms(2,4) by (simp add: in_tree_def leaf_def)
qed

lemma clone_begin:
  assumes ok: "vm_ok k s R" and eq: "vmm_create_address_space s = (c, s1)" and c: "c \<noteq> 0"
  shows "clone_start k R c s1" and "clone_to k R r c s1 0 (True, s1)" and "av s1 = av s - {c}" and "c \<in> av s"
    and "\<And>f. f \<noteq> c \<Longrightarrow> phys s1 f = phys s f" and "\<And>r p. (r, p) \<in> trees k R \<Longrightarrow> node s1 r p = node s r p"
proof -
  from create_space [OF ok eq] c have cr: "c \<in> av s" "vm_base k s1" "av s1 = av s - {c}"
    "managed (vm_pmm s1) = managed (vm_pmm s)" and ph: "phys s1 = (phys s)(c := \<lambda>i. if 256 \<le> i \<and> i < 512 then phys s k i else 0)"
    by auto
  note nr = new_root_ok [OF ok cr(1) ph cr(2-4)]
  have cR: "c \<notin> R" using vm_ok_held(1) [OF ok trees_root(2), of c c] cr(1) by auto
  have "owned_by s1 c = {c}"
  proof (intro subset_antisym subsetI)
    fix f assume "f \<in> owned_by s1 c"
    then obtain p where "p \<in> upaths" "node s1 c p = Some f" by (auto simp: owned_by_def)
    then show "f \<in> {c}" using nr(3) [of p] by (cases "p = []") auto
  next
    fix f assume "f \<in> {c}"
    then show "f \<in> owned_by s1 c" unfolding owned_by_def using node_Nil [of s1 c] Nil_paths(1) by blast
  qed
  then show st: "clone_start k R c s1" using nr(1) cR by (simp add: clone_start_def)
  have "lookup s1 c va = None" if "va < 2 ^ 47" for va using lookup_empty [OF nr(1) _ nr(3) that] by simp
  then show "clone_to k R r c s1 0 (True, s1)"
    using nr(1) by (simp add: clone_to_def clone_core_def clone_view_def copied_def)
  show "av s1 = av s - {c}" "c \<in> av s" "\<And>f. f \<noteq> c \<Longrightarrow> phys s1 f = phys s f" using cr ph by simp_all
  show "node s1 r p = node s r p" if "(r, p) \<in> trees k R" for r p by (rule nr(2) [OF that])
qed

lemma clone_ok:
  assumes ok: "vm_ok k s R" and r: "r \<in> R" and eq: "vmm_clone_user_as r s = (c, s')" and c: "c \<noteq> 0"
  shows "vm_ok k s' (insert c R)" and "c \<in> av s" and "c \<notin> R"
    and "clone_view r c s (2 ^ 35) s'" and "\<And>f. f \<notin> av s \<Longrightarrow> phys s' f = phys s f"
    and "\<And>r' va. in_tree k R r' va \<Longrightarrow> lookup s' r' va = lookup s r' va"
    and "\<And>f. f \<in> owned_by s' c \<Longrightarrow> f \<in> av s"
proof -
  have cur: "current_pml4 s = Some k" using ok by (simp add: vm_ok_def vm_base_def)
  obtain d s1 where cr: "vmm_create_address_space s = (d, s1)" by (cases "vmm_create_address_space s")
  obtain b s2 where w: "while_ok (clone_pml4 d r) [0..<256] s1 = (b, s2)" by (cases "while_ok (clone_pml4 d r) [0..<256] s1")
  have e: "d \<noteq> 0" "d = c" "s' = s2" b
    using eq cr w cur c unfolding vmm_clone_user_as_def PHYS_NULL_def by (auto split: if_splits)
  note bg = clone_begin [OF ok cr e(1)]
  have st: "clone_start k R c s1" using bg(1) e(2) by simp
  have "clone_to k R r c s1 (2 ^ 35) (b, s2)"
    using clone_loops [OF bg(1) r bg(2)] w e(2) by simp
  then have co: "clone_core k R c s1 s'" and vw: "clone_view r c s1 (2 ^ 35) s'" using e by (auto simp: clone_to_def)
  note cD = clone_coreD [OF co]
  have ph: "phys s' f = phys s f" if "f \<notin> av s" for f
    using cD(3) [of f] bg(3-5) e(2) that by auto
  show "vm_ok k s' (insert c R)" by (rule cD(1))
  show "c \<in> av s" "c \<notin> R" using bg(4) e(2) st by (auto simp: clone_start_def)
  show "phys s' f = phys s f" if "f \<notin> av s" for f by (rule ph [OF that])
  have ok1: "vm_ok k s1 R" using st vm_ok_mono [of k s1 "insert c R" R] by (auto simp: clone_start_def)
  have ph1: "phys s1 t = phys s t" if "t \<notin> av s" for t by (rule bg(5)) (use bg(4) that in auto)
  have l1: "lookup s1 r' va = lookup s r' va" if x: "in_tree k R r' va" for r' va
    using lookup_leaf [OF ok x] lookup_leaf [OF ok1 x] bg(6) [OF in_tree_paths(4) [OF x]]
      vm_ok_held(1) [OF ok in_tree_paths(4) [OF x]] by (auto simp: leaf_def ph1 split: option.splits)
  then show "lookup s' r' va = lookup s r' va" if "in_tree k R r' va" for r' va using parent_lookup [OF st co that] that by simp
  have cp: "copied s1 r (2 ^ 35) va = copied s r (2 ^ 35) va" if "va < 2 ^ 47" for va
    using l1 [of r va] r that by (simp add: copied_def in_tree_def)
  have pf: "phys s1 (pte_frame x) = phys s (pte_frame x)" if "va < 2 ^ 47" "copied s r (2 ^ 35) va = Some x" for va x
  proof -
    have "\<not> kz_shm_va_excluded va" "lookup s r va = Some x" using that(2) by (auto simp: copied_def split: if_splits)
    note lp = lookup_private [OF ok r that(1) this]
    have "(r, path3 va @ [PT_IDX va]) \<in> trees k R" using lp(3) r by (simp add: trees_def)
    then have "pte_frame x \<notin> av s" using vm_ok_held(1) [OF ok _ lp(2)] by simp
    then show ?thesis by (rule ph1)
  qed
  show "clone_view r c s (2 ^ 35) s'" unfolding clone_view_def
  proof (intro allI impI)
    fix va :: nat assume va: "va < 2 ^ 47"
    note v = vw [unfolded clone_view_def, rule_format, OF va, unfolded cp [OF va]]
    show "case copied s r (2 ^ 35) va of None \<Rightarrow> lookup s' c va = None
      | Some e \<Rightarrow> \<exists>e'. lookup s' c va = Some e' \<and> pte_flags e' = pte_flags e \<and> phys s' (pte_frame e') = phys s (pte_frame e)"
      using v pf [OF va] by (cases "copied s r (2 ^ 35) va") auto
  qed
  show "f \<in> av s" if "f \<in> owned_by s' c" for f using child_frames [OF st co that] bg(3,4) e(2) by auto
qed

lemma clone_failed:
  assumes ok: "vm_ok k s R" and r: "r \<in> R" and eq: "vmm_clone_user_as r s = (0, s')"
  shows "vm_ok k s' R" and "av s' = av s" and "\<And>f. f \<notin> av s \<Longrightarrow> phys s' f = phys s f"
proof -
  have cur: "current_pml4 s = Some k" using ok by (simp add: vm_ok_def vm_base_def)
  have r0: "r \<noteq> 0" using root_nonzero [OF ok, of r 0] r by (simp add: in_tree_def PHYS_NULL_def)
  obtain c s1 where cr: "vmm_create_address_space s = (c, s1)" by (cases "vmm_create_address_space s")
  obtain b s2 where w: "while_ok (clone_pml4 c r) [0..<256] s1 = (b, s2)" by (cases "while_ok (clone_pml4 c r) [0..<256] s1")
  have "vm_ok k s' R \<and> av s' = av s \<and> (\<forall>f. f \<notin> av s \<longrightarrow> phys s' f = phys s f)"
  proof (cases "c = 0")
    case True
    then have "s' = s" using eq cr cur r0 create_space [OF ok cr] by (auto simp: vmm_clone_user_as_def PHYS_NULL_def)
    then show ?thesis using ok by simp
  next
    case False
    have s': "s' = vmm_destroy_address_space c True s2" and "\<not> b"
      using eq cr cur w False r0 unfolding vmm_clone_user_as_def PHYS_NULL_def by (auto split: if_splits)
    note bg = clone_begin [OF ok cr False]
    have co: "clone_core k R c s1 s2" using clone_loops [OF bg(1) r bg(2)] w by (simp add: clone_to_def)
    note cD = clone_coreD [OF co] and ds = destroy_space [OF clone_coreD(1) [OF co] insertI1 s']
    have R: "insert c R - {c} = R" using bg(1) by (auto simp: clone_start_def)
    have ob: "owned k s2 R = owned k s1 R" by (rule owned_cong [OF parent_node [OF bg(1) co]])
    have "av s2 \<union> owned_by s2 c = av s1 \<union> {c}"
    proof (intro subset_antisym subsetI)
      fix f assume "f \<in> av s2 \<union> owned_by s2 c"
      then show "f \<in> av s1 \<union> {c}" using cD(2) child_frames [OF bg(1) co, of f] by auto
    next
      fix f assume f: "f \<in> av s1 \<union> {c}"
      have ok1: "vm_ok k s1 (insert c R)" and oc: "owned_by s1 c = {c}" using bg(1) by (auto simp: clone_start_def)
      have "f \<notin> owned k s1 R"
        using f avail_not_owned [OF ok1] owned_by_other [OF ok1 insertI1, of c] oc R by (auto simp: owned_split) (auto simp: owned_def)
      moreover have "f \<in> av s2 \<union> owned k s2 (insert c R)" using cD(4) f oc by (auto simp: owned_split)
      ultimately show "f \<in> av s2 \<union> owned_by s2 c" using ob by (auto simp: owned_split)
    qed
    then have "av s' = av s" using ds(2) bg(3,4) by auto
    moreover have "phys s' f = phys s f" if "f \<notin> av s" for f
    proof -
      have f: "f \<notin> av s1" "f \<noteq> c" using that bg(3,4) by auto
      then show ?thesis using ds(4) [of f] child_frames [OF bg(1) co, of f] cD(3) [OF f] bg(5) by auto
    qed
    ultimately show ?thesis using ds(1) R by simp
  qed
  then show "vm_ok k s' R" and "av s' = av s" and "\<And>f. f \<notin> av s \<Longrightarrow> phys s' f = phys s f" by blast+
qed

end
