(* ===== verification/Paging_Props.thy ===== *)
theory Paging_Props
  imports Paging_Clone
begin

text \<open>
  The virtual memory manager in operation: start-up establishes the invariant, every operation in every order keeps
  it (\<open>vm_run\<close>), and the properties of mapping, protection, isolation, fork and release that rest on it.
\<close>

section \<open>Start-up\<close>

text \<open>
  What the boot loader hands over: the tables of the upper half are a tree in memory the allocator does not give out,
  without the no-execute bit on the way to the last table.
\<close>

definition boot_ok :: "nat \<Rightarrow> vm \<Rightarrow> bool" where
  "boot_ok k s \<longleftrightarrow> pmm_wf (vm_pmm s) \<and> bitmap_pages (vm_pmm s) \<le> 2 ^ 40 \<and> k \<noteq> 0 \<and> 4096 dvd k
    \<and> pt_held k s {} \<and> pt_sep k s {} \<and> pt_plain k s {}"

lemma prepopulate_ok:
  assumes "vm_base k s" "pt_held k s {}" "pt_sep k s {}" "pt_plain k s {}" and "set is \<subseteq> {256..<512}"
    and "prepopulate k is s = Some s'"
  shows "vm_base k s' \<and> pt_held k s' {} \<and> pt_sep k s' {} \<and> pt_plain k s' {}
    \<and> (\<forall>i. present (phys s k i) \<or> i \<in> set is \<longrightarrow> present (phys s' k i))"
  using assms
proof (induction "is" arbitrary: s)
  case (Cons i "is")
  note b = Cons.prems(1) and held = Cons.prems(2) and sep = Cons.prems(3) and pl = Cons.prems(4)
  show ?case
  proof (cases "present (phys s k i)")
    case True
    then show ?thesis using Cons.IH [OF b held sep pl] Cons.prems(5,6) by auto
  next
    case False
    obtain a s1 where al: "vm_alloc s = (a, s1)" by (cases "vm_alloc s")
    have a0: "a \<noteq> 0" using Cons.prems(6) False al by (cases "a = 0") (auto simp: alloc_page_virt_def PHYS_NULL_def)
    have a: "a \<in> av s" "phys s1 = phys s" "vm_base k s1" "av s1 = av s - {a}" "managed (vm_pmm s1) = managed (vm_pmm s)"
      using vm_alloc_cases [OF b al] a0 by auto
    note fr = avail_frame [OF b a(1)]
    let ?s = "store_pte k i (of_nat a OR 7) (set_frame a (\<lambda>_. 0) s1)"
    have ak: "a \<noteq> k" using pt_heldD [OF held trees_root(1) node_Nil] a(1) by blast
    have ph: "phys ?s = (phys s)(a := \<lambda>_. 0, k := (phys s k)(i := of_nat a OR 7))"
      using ak a(2) by (simp add: store_pte_def set_frame_def)
    have w: "vm_base k ?s" "av ?s = av s - {a}" "managed (vm_pmm ?s) = managed (vm_pmm s)"
      using a by (simp_all add: store_pte_def set_frame_def vm_base_def)
    have x: "(k, [] @ [i]) \<in> trees k {}" using Cons.prems(5) by (auto simp: trees_def kpaths_def)
    note nd = attach_node [OF held sep _ x node_Nil False a(1) ph]
    have hs: "pt_held k ?s {}" "pt_sep k ?s {}"
      by (rule node_upd_held_sep [OF held sep w(3), of k "[] @ [i]" "Some a"];
          use nd fr w pt_heldD [OF held] a(1) in \<open>force split: if_splits\<close>)+
    have p: "pt_plain k ?s {}" using attach_plain [OF held sep pl _ x node_Nil False _ a(1) ph] fr by simp
    have "prepopulate k is ?s = Some s'" using Cons.prems(6) False al a0 by (simp add: alloc_page_virt_def PHYS_NULL_def)
    from Cons.IH [OF w(1) hs p _ this] Cons.prems(5) have
      r: "vm_base k s' \<and> pt_held k s' {} \<and> pt_sep k s' {} \<and> pt_plain k s' {}
        \<and> (\<forall>j. present (phys ?s k j) \<or> j \<in> set is \<longrightarrow> present (phys s' k j))" by auto
    have "present (phys ?s k j)" if "present (phys s k j) \<or> j = i" for j
      using that table_entry(1) [of a] fr ph ak by auto
    then show ?thesis using r by auto
  qed
qed simp

lemma init_paging_ok:
  assumes "boot_ok k s" and "init_paging k s = Some s'"
  shows "vm_ok k s' {}"
proof -
  let ?s = "s\<lparr>current_pml4 := Some k, kernel_pml4_phys := k\<rparr>"
  have k: "k div 4096 * 4096 = k" using assms(1) by (auto simp: boot_ok_def)
  have n: "node ?s = node s" by (intro ext) (simp add: node_def)
  have b: "vm_base k ?s" "pt_held k ?s {}" "pt_sep k ?s {}" "pt_plain k ?s {}"
    using assms(1) by (simp_all add: boot_ok_def vm_base_def pt_held_def pt_sep_def pt_plain_def n)
  have "prepopulate k [256..<512] ?s = Some s'" using assms(2) by (simp add: init_paging_def k Let_def del: upt_rec_numeral)
  from prepopulate_ok [OF b _ this] show ?thesis
    unfolding vm_ok_def pt_share_def set_upt by (simp del: upt_rec_numeral)
qed

section \<open>Accessed and dirty bits\<close>

lemma bit_5_6: "bit (32 :: pte) n \<longleftrightarrow> n = 5" "bit (64 :: pte) n \<longleftrightarrow> n = 6"
proof -
  have m: "(32 :: pte) = push_bit 5 1" "(64 :: pte) = push_bit 6 1" by simp_all
  show "bit (32 :: pte) n \<longleftrightarrow> n = 5" unfolding m(1) bit_push_bit_iff bit_1_iff by auto
  show "bit (64 :: pte) n \<longleftrightarrow> n = 6" unfolding m(2) bit_push_bit_iff bit_1_iff by auto
qed

lemma touch_bits: "bit (e OR (32 OR d)) n \<longleftrightarrow> bit e n \<or> n = 5 \<or> d = 64 \<and> n = 6" if "d = 0 \<or> d = (64 :: pte)"
proof -
  have "(0 :: pte) \<noteq> 64" by simp
  then show ?thesis using that by (auto simp only: bit_or_iff bit_5_6 bit_0_eq bot_apply bot_bool_def)
qed

lemma touch_entry:
  assumes "d = 0 \<or> d = (64 :: pte)"
  shows "child (e OR (32 OR d)) = child e" and "table_of (e OR (32 OR d)) = table_of e"
    and "present (e OR (32 OR d)) = present e" and "plain u p e \<Longrightarrow> plain u p (e OR (32 OR d))"
proof -
  define e' where "e' = e OR (32 OR d)"
  have t: "bit e' n \<longleftrightarrow> bit e n \<or> n = 5 \<or> d = 64 \<and> n = 6" for n unfolding e'_def by (rule touch_bits [OF assms])
  have "e' AND PAGE_MASK = e AND PAGE_MASK"
    by (intro bit_word_eqI) (auto simp only: bit_and_iff t PAGE_MASK_bit)
  then have f: "pte_frame e' = pte_frame e" and "table_of e' = table_of e"
    by (simp_all only: pte_frame_def table_of_def)
  then show "table_of (e OR (32 OR d)) = table_of e" by (simp add: e'_def)
  have b: "present e' = present e" "huge e' = huge e"
    by (auto simp only: present_def huge_def t)
  then show "present (e OR (32 OR d)) = present e" and "child (e OR (32 OR d)) = child e"
    using f unfolding e'_def [symmetric] by (simp_all add: child_def)
  have fl: "flags_ok (pte_flags e')" if "flags_ok (pte_flags e)" unfolding flags_ok_def
  proof (intro conjI bit_word_eqI)
    show "bit (pte_flags e') 0" using that unfolding flags_ok_def pte_flags_def pte_bits t by auto
    fix m assume "m < LENGTH(64)"
    show "bit (pte_flags e' AND NOT (PAGING_NX OR 127)) m = bit (0 :: pte) m"
      using flags_okD [OF that, of m] unfolding pte_flags_def pte_bits bit_low7 t by auto
  qed
  have "\<not> bit e' 63" if "\<not> bit e 63" using that by (auto simp only: t)
  then show "plain u p (e OR (32 OR d))" if "plain u p e" using that b fl unfolding e'_def [symmetric] by (auto simp: plain_def)
qed

lemma touch_ok:
  assumes ok: "vm_ok k s R" and x: "(r, p) \<in> trees k R" "length p \<le> 3" "node s r p = Some t" and d: "d = 0 \<or> d = 64"
  shows "vm_ok k (store_pte t i (phys s t i OR (32 OR d)) s) R"
proof -
  let ?s = "store_pte t i (phys s t i OR (32 OR d)) s"
  have e: "phys ?s u j = phys s u j \<or> phys ?s u j = phys s u j OR (32 OR d)" for u j by (auto simp: store_pte_def)
  have n: "node ?s r p = node s r p" if "(r, p) \<in> trees k R" for r p
    by (rule node_cong [OF _ that]) (metis e touch_entry(1) [OF d])
  have b: "vm_base k ?s" "managed (vm_pmm ?s) = managed (vm_pmm s)" "av ?s = av s"
    using ok by (simp_all add: store_pte_def vm_ok_def vm_base_def)
  have "pt_plain k ?s R" unfolding pt_plain_def
    using vm_ok_plain [OF ok] n trees_prefix e touch_entry(4) [OF d] by metis
  moreover have "present (phys ?s u j) = present (phys s u j)" "table_of (phys ?s u j) = table_of (phys s u j)" for u j
    using e [of u j] touch_entry(2,3) [OF d, of "phys s u j"] by auto
  then have "pt_share k ?s R" using ok by (simp add: vm_ok_def pt_share_def)
  ultimately show ?thesis using n by (intro vm_ok_same_nodes [OF ok b]) simp_all
qed

section \<open>Every sequence of operations\<close>

definition page_tables :: "nat \<Rightarrow> vm \<Rightarrow> nat set \<Rightarrow> nat set" where
  "page_tables k s R = {f. \<exists>r p. (r, p) \<in> trees k R \<and> length p \<le> 3 \<and> node s r p = Some f}"

text \<open>
  The states that occur: start-up, the operations with the addresses their callers use them for, writes of programs and
  of the kernel to frames that are not page tables, other users of the allocator taking and returning frames of their
  own, and the processor setting accessed and dirty bits. \<open>R\<close> is the set of address spaces alive.
\<close>

inductive vm_run :: "nat \<Rightarrow> vm \<Rightarrow> nat set \<Rightarrow> bool" for k where
  start: "boot_ok k s \<Longrightarrow> init_paging k s = Some s' \<Longrightarrow> vm_run k s' {}"
| map_current: "vm_run k s R \<Longrightarrow> 256 \<le> PML4_IDX va \<Longrightarrow> is_frame pa \<Longrightarrow> flags_ok fl \<Longrightarrow>
    vmm_map_page va pa fl s = (b, s') \<Longrightarrow> vm_run k s' R"
| map_kernel: "vm_run k s R \<Longrightarrow> 256 \<le> PML4_IDX va \<Longrightarrow> is_frame pa \<Longrightarrow> flags_ok fl \<Longrightarrow>
    vmm_map_page_kernel va pa fl s = (b, s') \<Longrightarrow> vm_run k s' R"
| alloc_kernel: "vm_run k s R \<Longrightarrow> 256 \<le> PML4_IDX va \<Longrightarrow> flags_ok fl \<Longrightarrow>
    vmm_alloc_page_kernel va fl s = (b, s') \<Longrightarrow> vm_run k s' R"
| unmap_kernel: "vm_run k s R \<Longrightarrow> 256 \<le> PML4_IDX va \<Longrightarrow> vmm_unmap_page va s = (b, s') \<Longrightarrow> vm_run k s' R"
| alloc_user: "vm_run k s R \<Longrightarrow> r \<in> R \<Longrightarrow> va < 2 ^ 47 \<Longrightarrow> \<not> kz_shm_va_excluded va \<Longrightarrow> flags_ok fl \<Longrightarrow>
    vmm_alloc_page_into va fl r s = (b, s') \<Longrightarrow> vm_run k s' R"
| map_shared: "vm_run k s R \<Longrightarrow> r \<in> R \<Longrightarrow> kz_shm_va_excluded va \<Longrightarrow> is_frame pa \<Longrightarrow> flags_ok fl \<Longrightarrow>
    vmm_map_page_into va pa fl r s = (b, s') \<Longrightarrow> vm_run k s' R"
| unmap_shared: "vm_run k s R \<Longrightarrow> r \<in> R \<Longrightarrow> kz_shm_va_excluded va \<Longrightarrow> vmm_unmap_page_from va r s = (f, s') \<Longrightarrow> vm_run k s' R"
| free_user: "vm_run k s R \<Longrightarrow> r \<in> R \<Longrightarrow> va < 2 ^ 47 \<Longrightarrow> \<not> kz_shm_va_excluded va \<Longrightarrow>
    vmm_unmap_page_from va r s = (f, s') \<Longrightarrow> vm_run k (if f = PHYS_NULL then s' else vm_free f s') R"
| protect: "vm_run k s R \<Longrightarrow> r \<in> R \<Longrightarrow> va < 2 ^ 47 \<Longrightarrow> flags_ok fl \<Longrightarrow>
    vmm_protect_page_into va fl r s = (b, s') \<Longrightarrow> vm_run k s' R"
| create: "vm_run k s R \<Longrightarrow> vmm_create_address_space s = (c, s') \<Longrightarrow> vm_run k s' (if c = PHYS_NULL then R else insert c R)"
| clone: "vm_run k s R \<Longrightarrow> r \<in> R \<Longrightarrow> vmm_clone_user_as r s = (c, s') \<Longrightarrow> vm_run k s' (if c = PHYS_NULL then R else insert c R)"
| destroy: "vm_run k s R \<Longrightarrow> r \<in> R \<Longrightarrow> vm_run k (vmm_destroy_task_as cpu r s) (R - {r})"
| switch: "vm_run k s R \<Longrightarrow> vm_run k (vmm_switch_pml4 cpu r s) R"
| data: "vm_run k s R \<Longrightarrow> f \<notin> page_tables k s R \<Longrightarrow> vm_run k (set_frame f ct s) R"
| others: "vm_run k s R \<Longrightarrow> pmm_wf m \<Longrightarrow> bitmap_pages m = bitmap_pages (vm_pmm s) \<Longrightarrow>
    avail_addrs m \<inter> owned k s R = {} \<Longrightarrow> vm_run k (s\<lparr>vm_pmm := m\<rparr>) R"
| touched: "vm_run k s R \<Longrightarrow> t \<in> page_tables k s R \<Longrightarrow> d = 0 \<or> d = 64 \<Longrightarrow>
    vm_run k (store_pte t i (phys s t i OR (32 OR d)) s) R"

lemma vm_ok_same:
  assumes "vm_ok k s R" and "phys s' = phys s" and "vm_pmm s' = vm_pmm s" and "current_pml4 s' = current_pml4 s"
    and "kernel_pml4_phys s' = kernel_pml4_phys s"
  shows "vm_ok k s' R"
  by (rule vm_ok_same_phys [OF assms(1,2)])
    (use assms vm_ok_held(1) [OF assms(1)] in \<open>auto simp: vm_ok_def vm_base_def\<close>)

lemma shm_user: "kz_shm_va_excluded va \<Longrightarrow> va < 2 ^ 47"
  by (simp add: kz_shm_va_excluded_def KZ_SHM_END_def KZ_SHM_BASE_def KZ_SHM_MAX_RES_def KZ_SHM_SLOT_SIZE_def)

lemma unmap_kernel_from:
  assumes "vm_ok k s R" and "vmm_unmap_page va s = (b, s')"
  obtains f where "vmm_unmap_page_from va k s = (f, s')"
  using assms that
  by (auto simp: vmm_unmap_page_def vmm_unmap_page_from_def pml4_or_kernel_def vm_ok_def vm_base_def PHYS_NULL_def
      split: option.splits)

lemma create_ok:
  assumes ok: "vm_ok k s R" and eq: "vmm_create_address_space s = (c, s')"
  shows "vm_ok k s' (if c = PHYS_NULL then R else insert c R)"
  using create_space [OF ok eq]
proof (elim disjE conjE)
  assume "c \<noteq> 0" "c \<in> av s" "phys s' = (phys s)(c := \<lambda>i. if 256 \<le> i \<and> i < 512 then phys s k i else 0)" "vm_base k s'"
    "av s' = av s - {c}" "managed (vm_pmm s') = managed (vm_pmm s)"
  then show ?thesis using new_root_ok(1) [OF ok] by (simp add: PHYS_NULL_def)
qed (use ok in \<open>simp add: PHYS_NULL_def\<close>)

lemma destroy_task_space:
  assumes "vm_ok k s R" and "r \<in> R"
  shows "vmm_destroy_task_as cpu r s = vmm_destroy_address_space r True (s\<lparr>current_cr3 := (current_cr3 s)(cpu := k)\<rparr>)"
    and "vm_ok k (s\<lparr>current_cr3 := (current_cr3 s)(cpu := k)\<rparr>) R"
proof -
  have "r \<noteq> PHYS_NULL" using root_nonzero [OF assms(1), of r 0] assms(2) by (simp add: in_tree_def)
  then show "vmm_destroy_task_as cpu r s = vmm_destroy_address_space r True (s\<lparr>current_cr3 := (current_cr3 s)(cpu := k)\<rparr>)"
    using assms(1) by (simp add: vmm_destroy_task_as_def vmm_switch_to_kernel_as_def vm_ok_def vm_base_def PHYS_NULL_def)
  show "vm_ok k (s\<lparr>current_cr3 := (current_cr3 s)(cpu := k)\<rparr>) R" by (rule vm_ok_same [OF assms(1)]) simp_all
qed

lemma vm_run_ok: "vm_run k s R \<Longrightarrow> vm_ok k s R"
proof (induction rule: vm_run.induct)
  case (start s s')
  then show ?case by (rule init_paging_ok)
next
  case (map_current s R va pa fl b s')
  have x: "in_tree k R k va" "may_map k s R k va pa" using map_current vm_okE by (auto simp: in_tree_def may_map_def vm_ok_def)
  show ?case using map_walk_ok(1) [OF map_current.IH x map_current(4)] map_kernel_walk [OF map_current.IH] map_current(5) by simp
next
  case (map_kernel s R va pa fl b s')
  have x: "in_tree k R k va" "may_map k s R k va pa" using map_kernel vm_okE by (auto simp: in_tree_def may_map_def vm_ok_def)
  show ?case using map_walk_ok(1) [OF map_kernel.IH x map_kernel(4)] map_kernel_walk [OF map_kernel.IH] map_kernel(5) by simp
next
  case (alloc_kernel s R va fl b s')
  have "in_tree k R k va" using alloc_kernel by (simp add: in_tree_def)
  then show ?case using alloc_map_ok [OF alloc_kernel.IH] alloc_kernel_map [OF alloc_kernel.IH] alloc_kernel(3,4) by metis
next
  case (unmap_kernel s R va b s')
  have "in_tree k R k va" using unmap_kernel by (simp add: in_tree_def)
  then show ?case using unmap_kernel_from [OF unmap_kernel.IH unmap_kernel(3)] unmap_from_ok(1) [OF unmap_kernel.IH] by metis
next
  case (alloc_user s R r va fl b s')
  have "in_tree k R r va" using alloc_user by (simp add: in_tree_def)
  then show ?case using alloc_map_ok [OF alloc_user.IH] alloc_into_map [OF alloc_user.IH alloc_user(2,3)] alloc_user(5,6) by metis
next
  case (map_shared s R r va pa fl b s')
  have x: "in_tree k R r va" "may_map k s R r va pa" using map_shared shm_user by (auto simp: in_tree_def may_map_def)
  show ?case using map_walk_ok(1) [OF map_shared.IH x map_shared(5)] map_into_walk [OF map_shared.IH x(1)] map_shared(6) by simp
next
  case (unmap_shared s R r va f s')
  have "in_tree k R r va" using unmap_shared shm_user by (simp add: in_tree_def)
  then show ?case using unmap_from_ok(1) [OF unmap_shared.IH _ unmap_shared(4)] by blast
next
  case (free_user s R r va f s')
  have "in_tree k R r va" using free_user by (simp add: in_tree_def)
  then show ?case
    using unmap_from_ok(1) [OF free_user.IH _ free_user(5)] unmap_then_free_ok(1) [OF free_user.IH free_user(2-5)]
    by (auto simp: PHYS_NULL_def)
next
  case (protect s R r va fl b s')
  have "in_tree k R r va" using protect by (simp add: in_tree_def)
  then show ?case using protect_ok(1) [OF protect.IH _ protect(4,5)] by blast
next
  case (create s R c s')
  then show ?case using create_ok by blast
next
  case (clone s R r c s')
  then show ?case using clone_ok(1) [OF clone.IH clone(2,3)] clone_failed(1) [OF clone.IH clone(2)] by (auto simp: PHYS_NULL_def)
next
  case (destroy s R r cpu)
  note d = destroy_task_space [OF destroy.IH destroy(2), of cpu]
  show ?case unfolding d(1) by (rule destroy_space(1) [OF d(2) destroy(2) refl])
next
  case (switch s R cpu r)
  then show ?case by (intro vm_ok_same [OF switch.IH]) (auto simp: vmm_switch_pml4_def)
next
  case (data s R f ct)
  then show ?case by (intro write_data_ok(1)) (auto simp: page_tables_def)
next
  case (others s R m)
  have "managed m = managed (vm_pmm s)" using others(3) by (intro managed_cong) simp
  then show ?case using others vm_ok_def by (intro vm_ok_same_phys [OF others.IH]) (auto simp: vm_ok_def vm_base_def owned_def)
next
  case (touched s R t d i)
  obtain r p where "(r, p) \<in> trees k R" "length p \<le> 3" "node s r p = Some t" using touched(2) by (auto simp: page_tables_def)
  then show ?case by (rule touch_ok [OF touched.IH _ _ _ touched(3)])
qed

section \<open>Properties\<close>

lemma private_frame:
  assumes "vm_run k s R" and "r \<in> R" and "va < 2 ^ 47" "\<not> kz_shm_va_excluded va" and "lookup s r va = Some e"
  shows "(r, path3 va @ [PT_IDX va]) \<in> trees k R" and "node s r (path3 va @ [PT_IDX va]) = Some (pte_frame e)"
  using lookup_private(2,3) [OF vm_run_ok [OF assms(1)] assms(2-5)] assms(2) by (auto simp: trees_def)

text \<open>C5 (safety). In every reachable state, for any two private pages of any two address spaces: they lie in the same
  frame only if they are the same page of the same address space, and the frame they lie in is neither available to the
  allocator nor a page table, of the kernel or of any address space.\<close>

theorem address_spaces_isolated:
  assumes "vm_run k s R"
    and "r \<in> R" "va < 2 ^ 47" "\<not> kz_shm_va_excluded va" "lookup s r va = Some e"
    and "r' \<in> R" "va' < 2 ^ 47" "\<not> kz_shm_va_excluded va'" "lookup s r' va' = Some e'"
  shows "(pte_frame e = pte_frame e' \<longrightarrow> r = r' \<and> va div 4096 = va' div 4096)
    \<and> pte_frame e \<notin> avail_addrs (vm_pmm s) \<and> pte_frame e \<notin> page_tables k s R"
proof -
  have ok: "vm_ok k s R" by (rule vm_run_ok [OF assms(1)])
  note a = private_frame [OF assms(1-5)] and b = private_frame [OF assms(1,6-9)]
  have "r' = r \<and> va' div 4096 = va div 4096" if "pte_frame e = pte_frame e'"
    using vm_ok_sep [OF ok a(1) b(1) a(2)] b(2) that user_same_page [OF assms(3,7)] same_page_path [of va va'] by auto
  moreover have "pte_frame e \<notin> avail_addrs (vm_pmm s)" by (rule vm_ok_held(1) [OF ok a])
  moreover have "pte_frame e \<notin> page_tables k s R"
  proof
    assume "pte_frame e \<in> page_tables k s R"
    then obtain q p where "(q, p) \<in> trees k R" "length p \<le> 3" "node s q p = Some (pte_frame e)"
      by (auto simp: page_tables_def)
    then show False using vm_ok_sep [OF ok a(1) _ a(2), of q p] by (simp add: path3_def)
  qed
  ultimately show ?thesis by auto
qed

text \<open>C20 (refinement). \<open>vmm_map_page_into\<close> on a reachable state updates the map from addresses to pages at one point:
  on success exactly the page of the address is mapped to the frame with the flags, in that address space only; on failure
  no address of any address space or of the kernel changes, and a user address space fails only when no frame is free. The contents of
  all private pages stay.\<close>

theorem vmm_map_page_into_exact:
  assumes "vm_run k s R" and "in_tree k R r va" and "may_map k s R r va pa" and "flags_ok fl"
    and "vmm_map_page_into va pa fl r s = (ok, s')"
  shows "(\<forall>r' va'. in_tree k R r' va' \<longrightarrow> lookup s' r' va' =
      (if ok \<and> r' = r \<and> same_page va va' then Some ((of_nat pa AND PAGE_MASK) OR fl) else lookup s r' va'))
    \<and> (\<not> ok \<longrightarrow> r \<in> R \<longrightarrow> avail_addrs (vm_pmm s') = {}) \<and> pages_kept R s s'"
proof -
  have ok: "vm_ok k s R" by (rule vm_run_ok [OF assms(1)])
  have "map_walk r va pa fl s = (ok, s')" using map_into_walk [OF ok assms(2)] assms(5) by simp
  note m = map_walk_ok [OF ok assms(2-4) this]
  then show ?thesis by (simp add: mk_pte_def)
qed

text \<open>C12 (functional). \<open>vmm_clone_user_as\<close> on a reachable state: on success the child is a new address space in which
  every private page of the parent is mapped with the same flags to a frame that was free and now holds the same contents, and
  nothing else is mapped; on failure every frame taken on the way is free again. In both cases no frame in use, and so
  neither the parent nor any other address space, changes.\<close>

theorem fork_copies_address_space:
  assumes "vm_run k s R" and "r \<in> R" and "vmm_clone_user_as r s = (c, s')"
  shows "(c = PHYS_NULL \<longrightarrow> avail_addrs (vm_pmm s') = avail_addrs (vm_pmm s))
    \<and> (c \<noteq> PHYS_NULL \<longrightarrow> c \<notin> R \<and> (\<forall>va < 2 ^ 47. case (if kz_shm_va_excluded va then None else lookup s r va) of
        None \<Rightarrow> lookup s' c va = None
      | Some e \<Rightarrow> (\<exists>e'. lookup s' c va = Some e' \<and> pte_flags e' = pte_flags e \<and> phys s' (pte_frame e') = phys s (pte_frame e)
          \<and> pte_frame e' \<in> avail_addrs (vm_pmm s))))
    \<and> (\<forall>f. f \<notin> avail_addrs (vm_pmm s) \<longrightarrow> phys s' f = phys s f)"
proof (intro conjI)
  have ok: "vm_ok k s R" by (rule vm_run_ok [OF assms(1)])
  show "c = PHYS_NULL \<longrightarrow> avail_addrs (vm_pmm s') = avail_addrs (vm_pmm s)"
    using clone_failed(2) [OF ok assms(2)] assms(3) by (auto simp: PHYS_NULL_def)
  show "\<forall>f. f \<notin> avail_addrs (vm_pmm s) \<longrightarrow> phys s' f = phys s f"
    using clone_failed(3) [OF ok assms(2)] clone_ok(5) [OF ok assms(2,3)] assms(3) by (cases "c = 0") auto
  show "c \<noteq> PHYS_NULL \<longrightarrow> c \<notin> R \<and> (\<forall>va < 2 ^ 47. case (if kz_shm_va_excluded va then None else lookup s r va) of
        None \<Rightarrow> lookup s' c va = None
      | Some e \<Rightarrow> (\<exists>e'. lookup s' c va = Some e' \<and> pte_flags e' = pte_flags e \<and> phys s' (pte_frame e') = phys s (pte_frame e)
          \<and> pte_frame e' \<in> avail_addrs (vm_pmm s)))"
  proof (intro impI conjI allI)
    assume "c \<noteq> PHYS_NULL"
    then have c: "c \<noteq> 0" by (simp add: PHYS_NULL_def)
    note cl = clone_ok [OF ok assms(2,3) c]
    show "c \<notin> R" by (rule cl(3))
    fix va :: nat assume va: "va < 2 ^ 47"
    have cp: "copied s r (2 ^ 35) va = (if kz_shm_va_excluded va then None else lookup s r va)"
      using less_mult_imp_div_less [of va "2 ^ 35" 4096] va by (simp add: copied_def)
    have own: "pte_frame e' \<in> av s" if "lookup s' c va = Some e'" "\<not> kz_shm_va_excluded va" for e'
      using lookup_private [OF cl(1) _ va that(2,1)] by (intro cl(7)) (auto simp: owned_by_def)
    show "case (if kz_shm_va_excluded va then None else lookup s r va) of None \<Rightarrow> lookup s' c va = None
      | Some e \<Rightarrow> (\<exists>e'. lookup s' c va = Some e' \<and> pte_flags e' = pte_flags e \<and> phys s' (pte_frame e') = phys s (pte_frame e)
          \<and> pte_frame e' \<in> avail_addrs (vm_pmm s))"
      using cl(4) [unfolded clone_view_def, rule_format, OF va, unfolded cp] own
      by (cases "kz_shm_va_excluded va"; cases "lookup s r va") auto
  qed
qed

text \<open>C21 (safety). Destroying the address space of a task gives back exactly its frames (its pages, its page tables and the
  top table, none of which was free), switches the CPU to the kernel's tables first, and changes no mapping of the kernel or of another
  address space and no frame outside the destroyed one.\<close>

theorem destroy_returns_every_frame:
  assumes "vm_run k s R" and "r \<in> R" and "s' = vmm_destroy_task_as cpu r s"
  shows "avail_addrs (vm_pmm s') = avail_addrs (vm_pmm s) \<union> owned_by s r \<and> avail_addrs (vm_pmm s) \<inter> owned_by s r = {}
    \<and> (\<forall>r' va. in_tree k (R - {r}) r' va \<longrightarrow> lookup s' r' va = lookup s r' va)
    \<and> (\<forall>f. f \<notin> owned_by s r \<longrightarrow> phys s' f = phys s f)"
proof (intro conjI)
  have ok: "vm_ok k s R" by (rule vm_run_ok [OF assms(1)])
  let ?s = "s\<lparr>current_cr3 := (current_cr3 s)(cpu := k)\<rparr>"
  note d = destroy_task_space [OF ok assms(2), of cpu]
  have n: "node ?s = node s" by (intro ext) (simp add: node_def)
  have ob: "owned_by ?s r = owned_by s r" by (simp add: owned_by_def n)
  note ds = destroy_space [OF d(2) assms(2) assms(3) [unfolded d(1)], unfolded ob n]
  show "avail_addrs (vm_pmm s') = avail_addrs (vm_pmm s) \<union> owned_by s r" using ds(2) by simp
  show "avail_addrs (vm_pmm s) \<inter> owned_by s r = {}"
    using vm_ok_held(1) [OF ok] assms(2) by (auto simp: owned_by_def trees_def)
  show "\<forall>f. f \<notin> owned_by s r \<longrightarrow> phys s' f = phys s f" using ds(4) by simp
  show "\<forall>r' va. in_tree k (R - {r}) r' va \<longrightarrow> lookup s' r' va = lookup s r' va"
  proof (intro allI impI)
    fix r' va assume x: "in_tree k (R - {r}) r' va"
    note P = in_tree_paths(4) [OF x]
    have "phys s' t = phys s t" if "node s r' (path3 va) = Some t" for t
      using owned_by_other [OF ok assms(2) _ P, of t] that ds(4) [of t] by auto
    then show "lookup s' r' va = lookup s r' va"
      using lookup_leaf [OF ds(1) x] lookup_leaf [OF vm_ok_mono [OF ok Diff_subset] x] ds(3) [OF P]
      by (auto simp: leaf_def split: option.splits)
  qed
qed

text \<open>The upper half is one for all: in every reachable state an address of the upper half is mapped by the
  same page in every address space as in the kernel's tables, whatever was mapped and unmapped there since the address space
  was created, and the mapped-checks agree.\<close>

theorem kernel_half_shared:
  assumes "vm_run k s R" and "r \<in> R" and "256 \<le> PML4_IDX va"
  shows "lookup s r va = lookup s k va \<and> paging_is_mapped_into va r s = paging_is_mapped va s"
proof -
  have ok: "vm_ok k s R" by (rule vm_run_ok [OF assms(1)])
  have k: "k \<noteq> PHYS_NULL" "current_pml4 s = Some k" using ok by (auto simp: vm_ok_def vm_base_def PHYS_NULL_def)
  have r: "r \<noteq> PHYS_NULL" using root_nonzero [OF ok, of r 0] assms(2) by (simp add: in_tree_def)
  have e: "present (phys s k (PML4_IDX va))" "present (phys s r (PML4_IDX va))"
    "table_of (phys s r (PML4_IDX va)) = table_of (phys s k (PML4_IDX va))"
    using ok assms(2,3) unfolding vm_ok_def pt_share_def by auto
  have "find_pt r va s = find_pt k va s" using e by (simp add: find_pt_def Let_def)
  moreover have "walk_is_mapped (Some r) va s = walk_is_mapped (Some k) va s" using e by (simp add: walk_is_mapped_def Let_def)
  ultimately show ?thesis
    using k r by (simp add: lookup_def paging_is_mapped_into_def paging_is_mapped_def pml4_or_kernel_def)
qed

text \<open>\<open>vmm_alloc_page_into\<close> of an unmapped private page neither leaks nor shares a frame on any path: available
  frames and frames in use together stay the same set and stay disjoint. On success the page is mapped with the flags to a frame that was
  available; it fails only with at most three frames
  available (three tables and the page may be needed), and then no mapping changes. Nothing else is remapped.\<close>

theorem vmm_alloc_page_into_no_leak:
  assumes "vm_run k s R" and "r \<in> R" "va < 2 ^ 47" "\<not> kz_shm_va_excluded va" and "flags_ok fl" and "lookup s r va = None"
    and "vmm_alloc_page_into va fl r s = (ok, s')"
  shows "avail_addrs (vm_pmm s') \<union> owned k s' R = avail_addrs (vm_pmm s) \<union> owned k s R
    \<and> avail_addrs (vm_pmm s') \<inter> owned k s' R = {}
    \<and> (\<exists>f. (ok \<longrightarrow> f \<in> avail_addrs (vm_pmm s)) \<and> (\<forall>r' va'. in_tree k R r' va' \<longrightarrow> lookup s' r' va' =
        (if ok \<and> r' = r \<and> same_page va va' then Some ((of_nat f AND PAGE_MASK) OR fl) else lookup s r' va')))
    \<and> (\<not> ok \<longrightarrow> card (avail_addrs (vm_pmm s)) \<le> 3)"
proof -
  have ok: "vm_ok k s R" by (rule vm_run_ok [OF assms(1)])
  have x: "in_tree k R r va" using assms by (simp add: in_tree_def)
  have eq: "alloc_map r va fl s = (ok, s')" using alloc_into_map [OF ok assms(2,3)] assms(7) by simp
  have s': "vm_ok k s' R" "\<not> ok \<longrightarrow> card (av s) \<le> 3" using alloc_map_ok [OF ok x eq assms(5)] assms(2) by auto
  have "av s' \<inter> owned k s' R = {}" using avail_not_owned [OF s'(1)] by blast
  moreover have "av s' \<union> owned k s' R = av s \<union> owned k s R" by (rule alloc_map_conserves [OF ok x eq assms(5,6,2,4)])
  ultimately show ?thesis using alloc_map_lookup [OF ok x eq assms(5)] s'(2) unfolding mk_pte_def by blast
qed

text \<open>\<open>vmm_protect_page_into\<close> succeeds exactly on mapped pages; it keeps the frame and every other mapping, and
  the new flags of the page are the requested ones together with the old no-execute bit: a page once mapped
  no-execute stays no-execute.\<close>

theorem vmm_protect_page_into_exact:
  assumes "vm_run k s R" and "in_tree k R r va" and "flags_ok fl" and "vmm_protect_page_into va fl r s = (ok, s')"
  shows "(ok \<longleftrightarrow> lookup s r va \<noteq> None)
    \<and> (case lookup s r va of None \<Rightarrow> True | Some e \<Rightarrow> \<exists>e'. lookup s' r va = Some e' \<and> pte_frame e' = pte_frame e
        \<and> pte_flags e' = fl OR (e AND PAGING_NX))
    \<and> (\<forall>r' va'. in_tree k R r' va' \<longrightarrow> \<not> (r' = r \<and> same_page va va') \<longrightarrow> lookup s' r' va' = lookup s r' va')"
proof -
  have ok: "vm_ok k s R" by (rule vm_run_ok [OF assms(1)])
  note p = protect_ok [OF ok assms(2-4)]
  have "same_page va va" by (simp add: same_page_def)
  then show ?thesis using p(4,5) assms(2) protect_entry(1,2) [OF assms(3)] by (auto split: option.splits)
qed

section \<open>Witnesses\<close>

text \<open>A machine whose boot loader left one table for each entry of the upper half, in low memory.\<close>

definition demo :: "pmm \<Rightarrow> vm" where
  "demo m = \<lparr>vm_pmm = m, phys = (\<lambda>f i. if f = 4096 \<and> 256 \<le> i \<and> i < 512 then of_nat (8192 + 4096 * i) OR 7 else 0),
     current_pml4 = None, kernel_pml4_phys = 0, current_cr3 = (\<lambda>_. 0), g_nx_enabled = True\<rparr>"

lemma demo_frame: "i < 512 \<Longrightarrow> is_frame (8192 + 4096 * i)"
  by (simp add: is_frame_def)

lemma demo_node:
  assumes "(r, p) \<in> trees 4096 {}" and "node (demo m) r p = Some f"
  shows "r = 4096 \<and> (p = [] \<and> f = 4096 \<or> (\<exists>i. p = [i] \<and> f = 8192 + 4096 * i \<and> i < 512))"
proof -
  have r: "r = 4096" and p: "p \<in> kpaths" using assms(1) by (auto simp: trees_def)
  show ?thesis
  proof (cases p)
    case Nil
    then show ?thesis using assms(2) r by simp
  next
    case (Cons i q)
    have i: "256 \<le> i" "i < 512" using p Cons by (auto simp: kpaths_def)
    have n: "node (demo m) r [i] = Some (8192 + 4096 * i)"
      using node_snocI [of "demo m" r "[]" r i] r i table_entry [OF demo_frame [OF i(2)]] by (simp add: demo_def child_def)
    moreover have "node (demo m) r ([i] @ q) = None" if "q \<noteq> []"
      by (rule node_below_None [OF _ n that]) (simp add: demo_def present_def)
    ultimately show ?thesis using assms(2) Cons r i by (cases "q = []") auto
  qed
qed

lemma demo_boot:
  assumes "pmm_wf m" and "bitmap_pages m \<le> 2 ^ 40"
  shows "boot_ok 4096 (demo m)"
proof -
  have low: "f \<notin> avail_addrs m" if "f < PMM_KERNEL_ZONE_END" for f
    using frames.avail_frame [OF assms(1), of f] that by (auto simp: managed_def)
  have "pt_held 4096 (demo m) {}" unfolding pt_held_def
  proof (intro allI impI)
    fix r p f assume x: "(r, p) \<in> trees 4096 {}" "node (demo m) r p = Some f"
    have "f < 8192 + 4096 * 512" using demo_node [OF x] by auto
    then have "f \<notin> avail_addrs m" by (intro low) (simp add: PMM_KERNEL_ZONE_END_def)
    then show "f \<notin> avail_addrs (vm_pmm (demo m)) \<and> (r \<in> {} \<longrightarrow> managed (vm_pmm (demo m)) f)" by (simp add: demo_def)
  qed
  moreover have "pt_sep 4096 (demo m) {}" unfolding pt_sep_def
  proof (intro allI impI)
    fix r p r' p' f
    assume x: "(r, p) \<in> trees 4096 {}" "(r', p') \<in> trees 4096 {}" "node (demo m) r p = Some f" "node (demo m) r' p' = Some f"
    show "r' = r \<and> p' = p" using demo_node [OF x(1,3)] demo_node [OF x(2,4)] by auto
  qed
  moreover have "pt_plain 4096 (demo m) {}" unfolding pt_plain_def
  proof (intro allI impI)
    fix r p t i assume x: "(r, p @ [i]) \<in> trees 4096 {}" "node (demo m) r p = Some t"
    show "plain (r \<in> {}) p (phys (demo m) t i)"
      using demo_node [OF trees_prefix [OF x(1)] x(2)] table_entry [OF demo_frame, of i]
      by (auto simp: demo_def plain_def present_def huge_def)
  qed
  ultimately show ?thesis using assms by (simp add: boot_ok_def demo_def)
qed

lemma prepopulate_present: "(\<forall>i\<in>set is. present (phys s k i)) \<Longrightarrow> prepopulate k is s = Some s"
  by (induction "is") auto

lemma demo_run:
  obtains s where "vm_run 4096 s {}" and "card (avail_addrs (vm_pmm s)) \<ge> 2000" and "finite (avail_addrs (vm_pmm s))"
proof -
  obtain m where m: "pmm_wf m" "bitmap_pages m = 20480" "{18433..<20480} \<subseteq> free_pages m" using ram80_free by blast
  let ?s = "(demo m)\<lparr>current_pml4 := Some 4096, kernel_pml4_phys := 4096\<rparr>"
  define js :: "nat list" where "js = [256..<512]"
  have "\<forall>i\<in>set js. present (phys ?s 4096 i)"
    unfolding js_def set_upt using table_entry(1) [OF demo_frame] by (simp add: demo_def del: upt_rec_numeral)
  then have i: "init_paging 4096 (demo m) = Some ?s"
    unfolding init_paging_def Let_def js_def [symmetric] using prepopulate_present [of js ?s 4096] by simp
  have run: "vm_run 4096 ?s {}" by (rule vm_run.start [OF demo_boot i]) (use m in simp_all)
  have "free_pages m \<subseteq> {..<bitmap_pages m}" using m(1) by (auto elim!: pmm_wfE)
  then have fin: "finite (avail_addrs m)" unfolding avail_addrs_def using finite_subset [OF _ finite_lessThan] by blast
  have "inj (\<lambda>i. i * PAGE_SIZE)" by (rule injI) (simp add: PAGE_SIZE_def)
  then have "card ((\<lambda>i. i * PAGE_SIZE) ` {18433..<20480}) = 2047" by (subst card_image) (auto intro: inj_on_subset)
  moreover have "(\<lambda>i. i * PAGE_SIZE) ` {18433..<20480} \<subseteq> avail_addrs m" using m(3) by (auto simp: avail_addrs_def)
  ultimately have "2047 \<le> card (avail_addrs m)" using card_mono [OF fin] by metis
  then show ?thesis using run fin by (intro that [of ?s]) (simp_all add: demo_def)
qed

text \<open>One address space, then one page in it.\<close>

lemma demo_space:
  obtains s c where "vm_run 4096 s {c}" and "card (avail_addrs (vm_pmm s)) \<ge> 1999" and "\<forall>va. va < 2 ^ 47 \<longrightarrow> lookup s c va = None"
    and "\<forall>i<256. phys s c i = 0"
proof -
  obtain s where s: "vm_run 4096 s {}" "card (av s) \<ge> 2000" "finite (av s)" by (rule demo_run)
  obtain c s' where cr: "vmm_create_address_space s = (c, s')" by (cases "vmm_create_address_space s")
  have ok: "vm_ok 4096 s {}" by (rule vm_run_ok [OF s(1)])
  have "av s \<noteq> {}" using s(2) by auto
  then have c: "c \<noteq> 0" "c \<in> av s" "av s' = av s - {c}" "\<forall>i<256. phys s' c i = 0" using create_space [OF ok cr] by auto
  have run: "vm_run 4096 s' {c}" using vm_run.create [OF s(1) cr] c(1) by (simp add: PHYS_NULL_def)
  have "card (av s') \<ge> 1999" using c s(2,3) by (simp add: card_Diff_singleton)
  moreover have "lookup s' c va = None" if "va < 2 ^ 47" for va
    using clone_begin(2) [OF ok cr c(1), where r = 0] that by (auto simp: clone_to_def clone_view_def copied_def)
  ultimately show ?thesis using run c(4) by (intro that) auto
qed

lemma demo_page:
  obtains s c e where "vm_run 4096 s {c}" and "lookup s c 0x10000000 = Some e"
proof -
  obtain s c where s: "vm_run 4096 s {c}" "card (av s) \<ge> 1999" by (rule demo_space)
  obtain b s' where al: "vmm_alloc_page_into 0x10000000 7 c s = (b, s')" by (cases "vmm_alloc_page_into 0x10000000 7 c s")
  have ok: "vm_ok 4096 s {c}" by (rule vm_run_ok [OF s(1)])
  have fl: "flags_ok 7" by (simp add: flags_ok_def PAGING_NX_def)
  have shm: "\<not> kz_shm_va_excluded 0x10000000" by (simp add: kz_shm_va_excluded_def KZ_SHM_BASE_def)
  have x: "in_tree 4096 {c} c 0x10000000" by (simp add: in_tree_def)
  have am: "alloc_map c 0x10000000 7 s = (b, s')" using alloc_into_map [OF ok, of c "0x10000000" 7] al by simp
  have b using alloc_map_ok [OF ok x am fl] s(2) by auto
  then have "\<exists>e. lookup s' c 0x10000000 = Some e" using alloc_map_lookup [OF ok x am fl] x by (auto simp: same_page_def)
  then show ?thesis using vm_run.alloc_user [OF s(1) _ _ shm fl al] that by auto
qed

theorem address_spaces_isolated_witness:
  "\<exists>s c e. vm_run 4096 s {c} \<and> lookup s c 0x10000000 = Some e \<and> pte_frame e \<notin> avail_addrs (vm_pmm s)
    \<and> pte_frame e \<notin> page_tables 4096 s {c}"
proof -
  obtain s c e where s: "vm_run 4096 s {c}" "lookup s c 0x10000000 = Some e" by (rule demo_page)
  have shm: "\<not> kz_shm_va_excluded 0x10000000" by (simp add: kz_shm_va_excluded_def KZ_SHM_BASE_def)
  from address_spaces_isolated [OF s(1) _ _ shm s(2) _ _ shm s(2)] s show ?thesis by auto
qed

theorem vmm_map_page_into_exact_witness:
  "\<exists>s c ok s'. vm_run 4096 s {c} \<and> vmm_map_page_into KZ_SHM_BASE 8192 7 c s = (ok, s') \<and> pages_kept {c} s s'"
proof -
  obtain s c where s: "vm_run 4096 s {c}" by (rule demo_space)
  obtain ok s' where eq: "vmm_map_page_into KZ_SHM_BASE 8192 7 c s = (ok, s')" by (cases "vmm_map_page_into KZ_SHM_BASE 8192 7 c s")
  have "in_tree 4096 {c} c KZ_SHM_BASE" "may_map 4096 s {c} c KZ_SHM_BASE 8192" "flags_ok 7"
    by (simp_all add: in_tree_def may_map_def is_frame_def kz_shm_va_excluded_def KZ_SHM_BASE_def KZ_SHM_END_def KZ_SHM_MAX_RES_def
        KZ_SHM_SLOT_SIZE_def flags_ok_def PAGING_NX_def)
  from vmm_map_page_into_exact [OF s this eq] s eq show ?thesis by blast
qed

theorem fork_copies_address_space_witness:
  "\<exists>s c d s'. vm_run 4096 s {c} \<and> vmm_clone_user_as c s = (d, s') \<and> phys s' 4096 = phys s 4096"
proof -
  obtain s c where s: "vm_run 4096 s {c}" by (rule demo_space)
  obtain d s' where eq: "vmm_clone_user_as c s = (d, s')" by (cases "vmm_clone_user_as c s")
  have "4096 \<notin> avail_addrs (vm_pmm s)"
    using vm_ok_held(1) [OF vm_run_ok [OF s] trees_root(1) node_Nil] by simp
  then have "phys s' 4096 = phys s 4096" using fork_copies_address_space [OF s singletonI eq] by blast
  then show ?thesis using s eq by blast
qed

theorem destroy_returns_every_frame_witness:
  "\<exists>s c. vm_run 4096 s {c} \<and>
    avail_addrs (vm_pmm (vmm_destroy_task_as 0 c s)) = avail_addrs (vm_pmm s) \<union> owned_by s c"
proof -
  obtain s c where s: "vm_run 4096 s {c}" by (rule demo_space)
  have "avail_addrs (vm_pmm (vmm_destroy_task_as 0 c s)) = avail_addrs (vm_pmm s) \<union> owned_by s c"
    using destroy_returns_every_frame [OF s singletonI refl, of 0] by blast
  then show ?thesis using s by blast
qed

theorem kernel_half_shared_witness:
  "\<exists>s c. vm_run 4096 s {c} \<and> lookup s c 0xFFFF900000000000 = lookup s 4096 0xFFFF900000000000"
proof -
  obtain s c where s: "vm_run 4096 s {c}" by (rule demo_space)
  have "256 \<le> PML4_IDX 0xFFFF900000000000" by (simp add: PML4_IDX_def)
  from kernel_half_shared [OF s singletonI this] s show ?thesis by blast
qed

theorem vmm_alloc_page_into_no_leak_witness:
  "\<exists>s c s'. vm_run 4096 s {c} \<and> vmm_alloc_page_into 0x10000000 7 c s = (True, s') \<and>
    avail_addrs (vm_pmm s') \<union> owned 4096 s' {c} = avail_addrs (vm_pmm s) \<union> owned 4096 s {c}"
proof -
  obtain s c where s: "vm_run 4096 s {c}" "card (avail_addrs (vm_pmm s)) \<ge> 1999" "\<forall>va. va < 2 ^ 47 \<longrightarrow> lookup s c va = None"
    by (rule demo_space)
  obtain ok s' where eq: "vmm_alloc_page_into 0x10000000 7 c s = (ok, s')" by (cases "vmm_alloc_page_into 0x10000000 7 c s")
  have h: "\<not> kz_shm_va_excluded 0x10000000" "flags_ok 7" "lookup s c 0x10000000 = None"
    using s(3) [rule_format, of "0x10000000"] by (simp_all add: kz_shm_va_excluded_def KZ_SHM_BASE_def flags_ok_def PAGING_NX_def)
  note t = vmm_alloc_page_into_no_leak [OF s(1) singletonI _ h eq]
  have ok using t s(2) by auto
  then show ?thesis using t s(1) eq by (intro exI [of _ s] exI [of _ c] exI [of _ s']) auto
qed

theorem vmm_protect_page_into_exact_witness:
  "\<exists>s c ok s'. vm_run 4096 s {c} \<and> vmm_protect_page_into 0x10000000 5 c s = (ok, s') \<and> ok"
proof -
  obtain s c e where s: "vm_run 4096 s {c}" "lookup s c 0x10000000 = Some e" by (rule demo_page)
  obtain ok s' where eq: "vmm_protect_page_into 0x10000000 5 c s = (ok, s')" by (cases "vmm_protect_page_into 0x10000000 5 c s")
  have "in_tree 4096 {c} c 0x10000000" "flags_ok 5" by (simp_all add: in_tree_def flags_ok_def PAGING_NX_def)
  from vmm_protect_page_into_exact [OF s(1) this eq] s eq show ?thesis by auto
qed

end
