(* ===== verification/Usercopy.thy ===== *)
theory Usercopy
  imports Paging_Props
begin

text \<open>
  Copies between the kernel and the memory of programs: \<open>kernel/proc/usercopy.c\<close>.

  A pointer of a program is checked against its address space before it is used. The check works on the page tables of
  \<open>Paging\<close>; the accesses after it go through the processor's translation, which is a parameter of the copying
  functions (\<open>rd\<close>, \<open>wr\<close>: \<open>None\<close> is a page fault in the kernel, which ends in a panic). It is instantiated with
  \<open>load\<close> and \<open>store\<close>, the translation by the caller's tables with write protection in force for the kernel
  (the setting \<open>kernel/mm/paging.c\<close> relies on in \<open>vmm_protect_page_into\<close>). The window around an access that opens
  user pages to the kernel (\<open>user_access_begin\<close>) is not modelled.
\<close>

section \<open>Model\<close>

definition UC_USER_VA_MAX :: nat where
  "UC_USER_VA_MAX = 0x0000800000000000"

definition UC_MAX_RANGE :: nat where
  "UC_MAX_RANGE = 64 * 1024 * 1024"

record ucopy_ctx =
  from_user :: bool
  uc_pml4 :: nat

text \<open>\<open>task\<close> is the address space of the current task when its number is valid.\<close>

definition ucopy_ctx_init :: "nat \<Rightarrow> nat option \<Rightarrow> ucopy_ctx" where
  "ucopy_ctx_init cs task = \<lparr>from_user = (cs mod 4 = 3), uc_pml4 = (case task of None \<Rightarrow> PHYS_NULL | Some p \<Rightarrow> p)\<rparr>"

text \<open>The page loop; \<open>n\<close> counts the pages after \<open>p\<close>, so that \<open>p == last\<close> is \<open>n = 0\<close>.\<close>

fun pages_mapped :: "ucopy_ctx \<Rightarrow> nat \<Rightarrow> nat \<Rightarrow> vm \<Rightarrow> bool" where
  "pages_mapped ctx p n s =
    (if \<not> paging_is_mapped_into p (uc_pml4 ctx) s then False
     else case n of 0 \<Rightarrow> True | Suc n' \<Rightarrow> pages_mapped ctx (u64 (p + 0x1000)) n' s)"

definition user_range_ok :: "ucopy_ctx \<Rightarrow> nat \<Rightarrow> nat \<Rightarrow> vm \<Rightarrow> bool" where
  "user_range_ok ctx uaddr len s =
    (if uaddr = 0 then False
     else if len = 0 then True
     else if UC_MAX_RANGE < len then False
     else if u64 (uaddr + len) < uaddr then False
     else if \<not> from_user ctx then True
     else if UC_USER_VA_MAX \<le> uaddr \<or> UC_USER_VA_MAX - uaddr < len then False
     else let first = uaddr div 4096 * 4096; last = (uaddr + len - 1) div 4096 * 4096
          in pages_mapped ctx first ((last - first) div 4096) s)"

datatype 'a access = Fault | Done 'a

fun read_bytes :: "(nat \<Rightarrow> byte option) \<Rightarrow> nat \<Rightarrow> nat \<Rightarrow> byte list access" where
  "read_bytes rd a 0 = Done []"
| "read_bytes rd a (Suc n) = (case rd a of None \<Rightarrow> Fault
     | Some b \<Rightarrow> (case read_bytes rd (Suc a) n of Fault \<Rightarrow> Fault | Done bs \<Rightarrow> Done (b # bs)))"

fun write_bytes :: "(nat \<Rightarrow> byte \<Rightarrow> 'm \<Rightarrow> 'm option) \<Rightarrow> nat \<Rightarrow> byte list \<Rightarrow> 'm \<Rightarrow> 'm access" where
  "write_bytes wr a [] m = Done m"
| "write_bytes wr a (b # bs) m = (case wr a b m of None \<Rightarrow> Fault | Some m' \<Rightarrow> write_bytes wr (Suc a) bs m')"

text \<open>\<open>None\<close> is the result -1, with nothing copied.\<close>

definition copy_from_user :: "ucopy_ctx \<Rightarrow> (nat \<Rightarrow> byte option) \<Rightarrow> nat \<Rightarrow> nat \<Rightarrow> vm \<Rightarrow> byte list option access" where
  "copy_from_user ctx rd usrc len s =
    (if \<not> user_range_ok ctx usrc len s then Done None
     else case read_bytes rd usrc len of Fault \<Rightarrow> Fault | Done bs \<Rightarrow> Done (Some bs))"

definition copy_to_user ::
  "ucopy_ctx \<Rightarrow> (nat \<Rightarrow> byte \<Rightarrow> vm \<Rightarrow> vm option) \<Rightarrow> nat \<Rightarrow> byte list \<Rightarrow> vm \<Rightarrow> (bool \<times> vm) access" where
  "copy_to_user ctx wr udst src s =
    (if \<not> user_range_ok ctx udst (length src) s then Done (False, s)
     else case write_bytes wr udst src s of Fault \<Rightarrow> Fault | Done s' \<Rightarrow> Done (True, s'))"

text \<open>The loop for a caller in the kernel, and the one for a program; the list is what was copied so far.\<close>

function kstr_loop :: "(nat \<Rightarrow> byte option) \<Rightarrow> nat \<Rightarrow> nat \<Rightarrow> byte list \<Rightarrow> byte list access" where
  "kstr_loop rd usrc cap bs =
    (if length bs < cap - 1 then
       (case rd (u64 (usrc + length bs)) of None \<Rightarrow> Fault
        | Some c \<Rightarrow> if c = 0 then Done bs else kstr_loop rd usrc cap (bs @ [c]))
     else Done bs)"
  by pat_completeness auto
termination
  by (relation "measure (\<lambda>(rd, usrc, cap, bs). cap - length bs)") auto

function ustr_loop :: "ucopy_ctx \<Rightarrow> (nat \<Rightarrow> byte option) \<Rightarrow> nat \<Rightarrow> nat \<Rightarrow> nat \<Rightarrow> vm \<Rightarrow> byte list \<Rightarrow> byte list option access" where
  "ustr_loop ctx rd usrc cap checked s bs =
    (if length bs < cap - 1 then
       (let addr = u64 (usrc + length bs); page = addr div 4096 * 4096
        in if addr < usrc then Done None
           else if page \<noteq> checked \<and> (UC_USER_VA_MAX \<le> page \<or> \<not> paging_is_mapped_into page (uc_pml4 ctx) s) then Done None
           else (case rd addr of None \<Rightarrow> Fault
              | Some c \<Rightarrow> if c = 0 then Done (Some bs) else ustr_loop ctx rd usrc cap page s (bs @ [c])))
     else Done (Some bs))"
  by pat_completeness auto
termination
  by (relation "measure (\<lambda>(ctx, rd, usrc, cap, checked, s, bs). cap - length bs)") auto

declare pages_mapped.simps [simp del] kstr_loop.simps [simp del] ustr_loop.simps [simp del]

definition strncpy_from_user :: "ucopy_ctx \<Rightarrow> (nat \<Rightarrow> byte option) \<Rightarrow> nat \<Rightarrow> nat \<Rightarrow> vm \<Rightarrow> byte list option access" where
  "strncpy_from_user ctx rd usrc cap s =
    (if usrc = 0 \<or> cap = 0 then Done None
     else if \<not> from_user ctx then (case kstr_loop rd usrc cap [] of Fault \<Rightarrow> Fault | Done bs \<Rightarrow> Done (Some bs))
     else ustr_loop ctx rd usrc cap 1 s [])"

section \<open>The translation\<close>

definition get_byte :: "nat \<Rightarrow> pte \<Rightarrow> byte" where
  "get_byte k w = ucast (drop_bit (8 * k) w)"

definition put_byte :: "nat \<Rightarrow> byte \<Rightarrow> pte \<Rightarrow> pte" where
  "put_byte k b w = (w AND NOT (push_bit (8 * k) 0xFF)) OR push_bit (8 * k) (ucast b)"

definition load :: "vm \<Rightarrow> nat \<Rightarrow> nat \<Rightarrow> byte option" where
  "load s r va = (case lookup s r va of None \<Rightarrow> None
     | Some e \<Rightarrow> Some (get_byte (va mod 8) (phys s (pte_frame e) (va mod 4096 div 8))))"

definition poke :: "nat \<Rightarrow> nat \<Rightarrow> byte \<Rightarrow> vm \<Rightarrow> vm" where
  "poke f off b s = set_frame f ((phys s f)(off div 8 := put_byte (off mod 8) b (phys s f (off div 8)))) s"

definition store :: "nat \<Rightarrow> nat \<Rightarrow> byte \<Rightarrow> vm \<Rightarrow> vm option" where
  "store r va b s = (case lookup s r va of None \<Rightarrow> None
     | Some e \<Rightarrow> if bit e 1 then Some (poke (pte_frame e) (va mod 4096) b s) else None)"

lemma bit_FF: "bit (0xFF :: pte) n \<longleftrightarrow> n < 8"
proof -
  have m: "(0xFF :: pte) = mask 8" by (simp add: mask_eq_exp_minus_1)
  show ?thesis unfolding m bit_mask_iff by auto
qed

lemma get_put_byte:
  assumes "k < 8" "j < 8"
  shows "get_byte j (put_byte k b w) = (if j = k then b else get_byte j w)"
proof (rule bit_word_eqI)
  fix n assume "n < LENGTH(8)"
  then have n: "n < 8" by simp
  have e: "bit (get_byte j x) n \<longleftrightarrow> bit x (8 * j + n)" for x
    using n by (simp add: get_byte_def bit_ucast_iff bit_drop_bit_eq)
  have r: "8 * k \<le> 8 * j + n \<and> 8 * j + n - 8 * k < 8 \<longleftrightarrow> j = k" using n by auto
  have u: "bit (ucast b :: pte) m \<longleftrightarrow> m < 8 \<and> bit b m" for m using bit_imp_le_length [of b m] by (auto simp: bit_ucast_iff)
  have "8 * j + n < 64" using assms n by simp
  then show "bit (get_byte j (put_byte k b w)) n = bit (if j = k then b else get_byte j w) n"
    unfolding e put_byte_def bit_or_iff bit_and_iff bit_not_iff bit_push_bit_iff bit_FF u
    using r n by (auto simp: e)
qed

section \<open>The check\<close>

lemma is_mapped_lookup:
  assumes ok: "vm_ok k s R" and r: "r \<in> R" and va: "va < 2 ^ 47"
  shows "paging_is_mapped_into va r s \<longleftrightarrow> lookup s r va \<noteq> None"
proof -
  have x: "in_tree k R r va" using r va by (simp add: in_tree_def)
  note P = in_tree_paths [OF x]
  have "r \<noteq> PHYS_NULL" using root_nonzero [OF ok, of r 0] r by (simp add: in_tree_def)
  then have pk: "pml4_or_kernel r s = Some r" by (simp add: pml4_or_kernel_def)
  have step: "\<not> huge (phys s t i)" if "(r, p @ [i]) \<in> trees k R" "node s r p = Some t" "length p < 3" "present (phys s t i)" for p i t
    using vm_ok_plain [OF ok that(1,2)] that(2,3,4) r by (auto simp: plain_def)
  have down: "node s r (p @ [i]) = Some (table_of (phys s t i))"
    if "(r, p @ [i]) \<in> trees k R" "node s r p = Some t" "length p < 3" "present (phys s t i)" for p i t
    using step [OF that] vm_ok_plain [OF ok that(1,2)] that(2-4) table_of_frame by (auto simp: node_snoc child_def plain_def)
  note n1 = down [OF P(1) node_Nil] and n2 = down [OF P(2)]
  show ?thesis
    using step [OF P(2)] step [OF P(3)] n1 n2
    by (auto simp: paging_is_mapped_into_def pk walk_is_mapped_def lookup_def find_pt_def Let_def)
qed

lemma pages_mapped_all:
  assumes "p + n * 4096 < 2 ^ 64"
  shows "pages_mapped ctx p n s \<longleftrightarrow> (\<forall>j\<le>n. paging_is_mapped_into (p + j * 4096) (uc_pml4 ctx) s)"
  using assms
proof (induction n arbitrary: p)
  case 0
  then show ?case by (simp add: pages_mapped.simps [of _ _ 0])
next
  case (Suc n)
  have "u64 (p + 0x1000) = p + 4096" using Suc.prems by (simp add: u64_def)
  then have "pages_mapped ctx p (Suc n) s \<longleftrightarrow> paging_is_mapped_into p (uc_pml4 ctx) s
      \<and> (\<forall>j\<le>n. paging_is_mapped_into (p + Suc j * 4096) (uc_pml4 ctx) s)"
    using Suc.IH [of "p + 4096"] Suc.prems by (simp add: pages_mapped.simps [of _ _ "Suc n"] ac_simps)
  also have "\<dots> \<longleftrightarrow> (\<forall>j\<le>Suc n. paging_is_mapped_into (p + j * 4096) (uc_pml4 ctx) s)"
    unfolding All_less_Suc2 [of "Suc n", unfolded less_Suc_eq_le] by simp
  finally show ?case .
qed

lemma page_number: "(m * 4096 + j * 4096) div 4096 = m + (j :: nat)"
  by simp

lemma pages_bytes:
  fixes a len :: nat
  assumes "0 < len" and P: "\<And>x y. x div 4096 = y div 4096 \<Longrightarrow> P x \<longleftrightarrow> P y"
  defines "p \<equiv> a div 4096 * 4096" and "n \<equiv> ((a + len - 1) div 4096 * 4096 - a div 4096 * 4096) div 4096"
  shows "(\<forall>j\<le>n. P (p + j * 4096)) \<longleftrightarrow> (\<forall>i<len. P (a + i))"
proof -
  have n: "n = (a + len - 1) div 4096 - a div 4096" by (simp add: n_def flip: diff_mult_distrib)
  have le: "a div 4096 \<le> (a + len - 1) div 4096" using assms(1) by (intro div_le_mono) simp
  show ?thesis
  proof (intro iffI allI impI)
    fix i assume pages: "\<forall>j\<le>n. P (p + j * 4096)" and i: "i < len"
    let ?j = "(a + i) div 4096 - a div 4096"
    have d: "a div 4096 \<le> (a + i) div 4096" "(a + i) div 4096 \<le> (a + len - 1) div 4096" using i by (simp_all add: div_le_mono)
    have "?j \<le> n" unfolding n by (rule diff_le_mono [OF d(2)])
    moreover have "(p + ?j * 4096) div 4096 = (a + i) div 4096" unfolding p_def page_number by (rule le_add_diff_inverse [OF d(1)])
    ultimately show "P (a + i)" using pages P by blast
  next
    fix j assume bytes: "\<forall>i<len. P (a + i)" and j: "j \<le> n"
    let ?q = "a div 4096 + j"
    have q: "?q \<le> (a + len - 1) div 4096" using j unfolding n le_diff_conv2 [OF le] by (simp only: add.commute)
    define i where "i = (if j = 0 then 0 else ?q * 4096 - a)"
    have "i < len \<and> (a + i) div 4096 = ?q"
    proof (cases "j = 0")
      case False
      have "?q * 4096 \<le> a + len - 1" using q by (simp add: less_eq_div_iff_mult_less_eq)
      moreover have "a < ?q * 4096" using False div_mult_mod_eq [of a 4096] mod_less_divisor [of 4096 a] by (simp add: add_mult_distrib)
      ultimately show ?thesis using False assms(1) by (simp add: i_def)
    qed (use assms(1) in \<open>simp add: i_def\<close>)
    moreover have "(p + j * 4096) div 4096 = ?q" unfolding p_def by (rule page_number)
    ultimately show "P (p + j * 4096)" using bytes P [of "a + i" "p + j * 4096"] by simp
  qed
qed

lemma lookup_page:
  assumes "vm_ok k s R" and "r \<in> R" and "va div 4096 = va' div 4096"
  shows "va < 2 ^ 47 \<longleftrightarrow> va' < 2 ^ 47" and "va < 2 ^ 47 \<Longrightarrow> lookup s r va' = lookup s r va"
proof -
  have b: "x < 2 ^ 47 \<longleftrightarrow> x div 4096 < 2 ^ 35" for x :: nat by (simp add: div_less_iff_less_mult)
  show v: "va < 2 ^ 47 \<longleftrightarrow> va' < 2 ^ 47" unfolding b assms(3) ..
  show "lookup s r va' = lookup s r va" if "va < 2 ^ 47"
    using that v assms lookup_same_page [OF assms(1), of r va va'] by (simp add: in_tree_def same_page_def)
qed

text \<open>The bytes of a range as the program sees them.\<close>

definition user_bytes_mapped :: "vm \<Rightarrow> nat \<Rightarrow> nat \<Rightarrow> nat \<Rightarrow> bool" where
  "user_bytes_mapped s r a len \<longleftrightarrow> (\<forall>i<len. a + i < 2 ^ 47 \<and> lookup s r (a + i) \<noteq> None)"

lemma user_range_iff:
  assumes ok: "vm_ok k s R" and r: "r \<in> R" "ctx = \<lparr>from_user = True, uc_pml4 = r\<rparr>" and a: "uaddr < 2 ^ 64"
  shows "user_range_ok ctx uaddr len s \<longleftrightarrow>
    uaddr \<noteq> 0 \<and> (len = 0 \<or> len \<le> UC_MAX_RANGE \<and> user_bytes_mapped s r uaddr len)"
proof (cases "0 < len \<and> uaddr \<noteq> 0 \<and> len \<le> UC_MAX_RANGE")
  case True
  show ?thesis
  proof (cases "uaddr + len \<le> 2 ^ 47")
    case in_range: True
    define P where "P va \<longleftrightarrow> va < 2 ^ 47 \<and> lookup s r va \<noteq> None" for va
    have P: "P x \<longleftrightarrow> P y" if "x div 4096 = y div 4096" for x y
      unfolding P_def using lookup_page [OF ok r(1) that] by metis
    let ?p = "uaddr div 4096 * 4096" and ?q = "(uaddr + len - 1) div 4096 * 4096"
    let ?n = "(?q - ?p) div 4096"
    have q: "?q < 2 ^ 47" using in_range True by (intro le_less_trans [OF div_times_less_eq_dividend]) simp
    have le: "?p \<le> ?q" using True by (intro mult_le_mono1 div_le_mono) linarith
    have pn: "?p + j * 4096 \<le> ?q" if "j \<le> ?n" for j
    proof -
      have "j * 4096 \<le> ?q - ?p" using that by (simp add: less_eq_div_iff_mult_less_eq)
      then show ?thesis using le by (metis le_diff_conv2 add.commute)
    qed
    have "user_range_ok ctx uaddr len s = pages_mapped ctx ?p ?n s"
    proof -
      have "u64 (uaddr + len) = uaddr + len" "uaddr < UC_USER_VA_MAX" "len \<le> UC_USER_VA_MAX - uaddr"
        using True in_range unfolding u64_def UC_USER_VA_MAX_def by auto
      then show ?thesis using True unfolding user_range_ok_def Let_def r(2) by simp
    qed
    also have "\<dots> \<longleftrightarrow> (\<forall>j\<le>?n. P (?p + j * 4096))"
    proof (subst pages_mapped_all)
      show "?p + ?n * 4096 < 2 ^ 64" using pn [of ?n] q by simp
      show "(\<forall>j\<le>?n. paging_is_mapped_into (?p + j * 4096) (uc_pml4 ctx) s) \<longleftrightarrow> (\<forall>j\<le>?n. P (?p + j * 4096))"
        using is_mapped_lookup [OF ok r(1)] le_less_trans [OF pn q] by (auto simp: r(2) P_def)
    qed
    also have "\<dots> \<longleftrightarrow> (\<forall>i<len. P (uaddr + i))" using pages_bytes [where P = P and a = uaddr and len = len, OF _ P] True by blast
    finally show ?thesis using True by (auto simp: user_bytes_mapped_def P_def)
  next
    case False
    then have "\<not> user_bytes_mapped s r uaddr len"
      unfolding user_bytes_mapped_def using True by (intro notI) (auto dest!: spec [of _ "len - 1"])
    then show ?thesis using True False a by (auto simp: user_range_ok_def r(2) UC_USER_VA_MAX_def)
  qed
qed (auto simp: user_range_ok_def r(2))

section \<open>Strings\<close>

text \<open>What the program's string at an address is: the bytes up to a zero byte, or the first \<open>cap - 1\<close> of them.\<close>

definition user_string :: "vm \<Rightarrow> nat \<Rightarrow> nat \<Rightarrow> nat \<Rightarrow> byte list \<Rightarrow> bool" where
  "user_string s r a cap bs \<longleftrightarrow> length bs < cap
    \<and> (\<forall>i<length bs. a + i < 2 ^ 47 \<and> load s r (a + i) = Some (bs ! i) \<and> bs ! i \<noteq> 0)
    \<and> (length bs = cap - 1 \<or> a + length bs < 2 ^ 47 \<and> load s r (a + length bs) = Some 0)"

definition string_so_far :: "vm \<Rightarrow> nat \<Rightarrow> nat \<Rightarrow> byte list \<Rightarrow> bool" where
  "string_so_far s r a bs \<longleftrightarrow> (\<forall>i<length bs. a + i < 2 ^ 47 \<and> load s r (a + i) = Some (bs ! i) \<and> bs ! i \<noteq> 0)"

lemma user_string_longer:
  assumes "user_string s r a cap bs'" and "string_so_far s r a bs" and "length bs < cap"
  shows "length bs \<le> length bs'"
proof (rule ccontr)
  assume "\<not> length bs \<le> length bs'"
  then have "load s r (a + length bs') = Some 0" "length bs' < length bs" using assms(1,3) by (auto simp: user_string_def)
  then show False using assms(2) by (auto simp: string_so_far_def)
qed

lemma user_string_unique:
  assumes "user_string s r a cap bs" and "user_string s r a cap bs'"
  shows "bs' = bs"
proof -
  have so: "string_so_far s r a bs" "string_so_far s r a bs'" "length bs < cap" "length bs' < cap"
    using assms by (auto simp: user_string_def string_so_far_def)
  have l: "length bs' = length bs"
    using user_string_longer [OF assms(1) so(2,4)] user_string_longer [OF assms(2) so(1,3)] by simp
  have "bs' ! i = bs ! i" if "i < length bs" for i
    using so(1,2) that l by (metis option.inject string_so_far_def)
  then show ?thesis using l by (intro nth_equalityI) auto
qed

lemma user_string_next:
  assumes "user_string s r a cap bs'" and "string_so_far s r a bs" and "length bs < cap - 1"
  shows "a + length bs < 2 ^ 47" and "load s r (a + length bs) \<noteq> None"
proof -
  have "length bs \<le> length bs'" using user_string_longer [OF assms(1,2)] assms(3) by simp
  then have "length bs < length bs' \<or> length bs = length bs'" by auto
  then have "a + length bs < 2 ^ 47 \<and> load s r (a + length bs) \<noteq> None" using assms(1,3) by (auto simp: user_string_def)
  then show "a + length bs < 2 ^ 47" and "load s r (a + length bs) \<noteq> None" by auto
qed

lemma load_None: "load s r va = None \<longleftrightarrow> lookup s r va = None"
  by (simp add: load_def split: option.splits)

lemma u64_advance: "a < 2 ^ 64 \<Longrightarrow> n < 2 ^ 64 \<Longrightarrow> \<not> u64 (a + n) < a \<Longrightarrow> u64 (a + n) = a + n"
  by (auto simp: u64_def mod_if split: if_splits)

lemma page_start: "va div 4096 * 4096 div 4096 = va div (4096 :: nat)" "va div 4096 * 4096 \<noteq> (1 :: nat)"
  by (simp, metis dvd_triv_right nat_dvd_1_iff_1 numeral_eq_one_iff semiring_norm(85))

lemma string_page:
  assumes "vm_ok k s R" and "r \<in> R"
  shows "\<not> (UC_USER_VA_MAX \<le> va \<or> \<not> paging_is_mapped_into va r s) \<longleftrightarrow> va < 2 ^ 47 \<and> lookup s r va \<noteq> None"
    and "va div 4096 * 4096 < 2 ^ 47 \<and> lookup s r (va div 4096 * 4096) \<noteq> None \<longleftrightarrow> va < 2 ^ 47 \<and> load s r va \<noteq> None"
proof -
  show "\<not> (UC_USER_VA_MAX \<le> va \<or> \<not> paging_is_mapped_into va r s) \<longleftrightarrow> va < 2 ^ 47 \<and> lookup s r va \<noteq> None"
    using is_mapped_lookup [OF assms, of va] by (auto simp: UC_USER_VA_MAX_def)
  show "va div 4096 * 4096 < 2 ^ 47 \<and> lookup s r (va div 4096 * 4096) \<noteq> None \<longleftrightarrow> va < 2 ^ 47 \<and> load s r va \<noteq> None"
    using lookup_page [OF assms page_start(1), of va] unfolding load_None by metis
qed

lemma ustr_loop_exact:
  assumes ok: "vm_ok k s R" and r: "r \<in> R" "uc_pml4 ctx = r" and a: "usrc < 2 ^ 64" "cap < 2 ^ 64"
    and "string_so_far s r usrc bs" and "length bs < cap" and "checked = 1 \<or> checked < 2 ^ 47 \<and> lookup s r checked \<noteq> None"
  shows "\<exists>res. ustr_loop ctx (load s r) usrc cap checked s bs = Done res \<and> (\<forall>bs'. res = Some bs' \<longleftrightarrow> user_string s r usrc cap bs')"
  using assms(6-8)
proof (induction "cap - length bs" arbitrary: bs checked rule: less_induct)
  case less
  note so = less.prems(1) and lt = less.prems(2)
  let ?page = "u64 (usrc + length bs) div 4096 * 4096"
  let ?stop = "u64 (usrc + length bs) < usrc \<or> ?page \<noteq> checked \<and> (UC_USER_VA_MAX \<le> ?page \<or> \<not> paging_is_mapped_into ?page r s)"
  note unf = ustr_loop.simps [of ctx "load s r" usrc cap checked s bs, unfolded Let_def r(2)]
  consider (full) "length bs = cap - 1" | (stop) "length bs < cap - 1" ?stop | (go) "length bs < cap - 1" "\<not> ?stop" using lt by linarith
  then show ?case
  proof cases
    case full
    then have "user_string s r usrc cap bs" using so lt by (auto simp: user_string_def string_so_far_def)
    then have "\<forall>bs'. Some bs = Some bs' \<longleftrightarrow> user_string s r usrc cap bs'" using user_string_unique by blast
    moreover have "ustr_loop ctx (load s r) usrc cap checked s bs = Done (Some bs)" using full unf by simp
    ultimately show ?thesis by blast
  next
    case stop
    have "\<not> user_string s r usrc cap bs'" for bs'
    proof
      assume us: "user_string s r usrc cap bs'"
      note nx = user_string_next [OF us so stop(1)]
      have e: "u64 (usrc + length bs) = usrc + length bs" using nx(1) by (simp add: u64_def)
      show False using stop(2) nx string_page [OF ok r(1)] unfolding e by (metis not_add_less1)
    qed
    moreover have "ustr_loop ctx (load s r) usrc cap checked s bs = Done None" using stop by (subst unf) auto
    ultimately show ?thesis by auto
  next
    case go
    have e: "u64 (usrc + length bs) = usrc + length bs" using go lt a by (intro u64_advance) auto
    have pv: "?page < 2 ^ 47 \<and> lookup s r ?page \<noteq> None"
      using less.prems(3) page_start(2) go(2) string_page(1) [OF ok r(1)] by metis
    then obtain c where c: "load s r (usrc + length bs) = Some c" and v: "usrc + length bs < 2 ^ 47"
      using string_page(2) [OF ok r(1)] unfolding e by blast
    show ?thesis
    proof (cases "c = 0")
      case True
      then have "user_string s r usrc cap bs" using so lt c v by (auto simp: user_string_def string_so_far_def)
      then have "\<forall>bs'. Some bs = Some bs' \<longleftrightarrow> user_string s r usrc cap bs'" using user_string_unique by blast
      moreover have "ustr_loop ctx (load s r) usrc cap checked s bs = Done (Some bs)"
        using go c True e by (subst unf) auto
      ultimately show ?thesis by blast
    next
      case False
      have "ustr_loop ctx (load s r) usrc cap checked s bs = ustr_loop ctx (load s r) usrc cap ?page s (bs @ [c])"
        using go c False e by (subst unf) auto
      moreover have "string_so_far s r usrc (bs @ [c])"
        using so c v False by (auto simp: string_so_far_def nth_append less_Suc_eq)
      ultimately show ?thesis using less.hyps [of "bs @ [c]" ?page] go(1) pv by simp
    qed
  qed
qed

section \<open>Copies\<close>

lemma read_bytes_Done:
  "(\<And>i. i < n \<Longrightarrow> rd (a + i) \<noteq> None) \<Longrightarrow> read_bytes rd a n = Done (map (\<lambda>i. the (rd (a + i))) [0..<n])"
proof (induction n arbitrary: a)
  case (Suc n)
  have "rd (Suc a + i) \<noteq> None" if "i < n" for i using Suc.prems [of "Suc i"] that by simp
  from Suc.IH [OF this] Suc.prems [of 0] show ?case
    by (auto simp: upt_conv_Cons map_Suc_upt [symmetric] simp del: upt_Suc)
qed simp

text \<open>A byte of a private page that the program may write.\<close>

definition writable_byte :: "vm \<Rightarrow> nat \<Rightarrow> nat \<Rightarrow> bool" where
  "writable_byte s r va \<longleftrightarrow> va < 2 ^ 47 \<and> \<not> kz_shm_va_excluded va \<and> (\<exists>e. lookup s r va = Some e \<and> bit e 1)"

lemma byte_position:
  fixes va va' :: nat
  assumes "va div 4096 = va' div 4096" and "va mod 4096 div 8 = va' mod 4096 div 8" and "va mod 8 = va' mod 8"
  shows "va = va'"
proof -
  have m: "x mod 4096 mod 8 = x mod 8" for x :: nat by (rule mod_mod_cancel) simp
  have "va mod 4096 = va' mod 4096"
    using assms(2,3) div_mult_mod_eq [of "va mod 4096" 8] div_mult_mod_eq [of "va' mod 4096" 8] unfolding m by metis
  then show ?thesis using assms(1) div_mult_mod_eq [of va 4096] div_mult_mod_eq [of va' 4096] by metis
qed

lemma load_poke:
  assumes "lookup s q x = Some e'" and "lookup (poke f (va mod 4096) b s) q x = Some e'"
    and same: "pte_frame e' = f \<Longrightarrow> x div 4096 = va div 4096"
  shows "load (poke f (va mod 4096) b s) q x = (if pte_frame e' = f \<and> x = va then Some b else load s q x)"
proof -
  let ?s = "poke f (va mod 4096) b s" and ?j = "x mod 4096 div 8"
  have m: "x mod 4096 mod 8 = x mod 8" for x :: nat by (rule mod_mod_cancel) simp
  have ph: "phys ?s g j = (if g = f \<and> j = va mod 4096 div 8 then put_byte (va mod 8) b (phys s g j) else phys s g j)" for g j
    by (simp add: poke_def set_frame_def m)
  have ld: "load ?s q x = Some (get_byte (x mod 8) (phys ?s (pte_frame e') ?j))"
    "load s q x = Some (get_byte (x mod 8) (phys s (pte_frame e') ?j))" using assms(1,2) by (simp_all add: load_def)
  show ?thesis
  proof (cases "pte_frame e' = f \<and> ?j = va mod 4096 div 8")
    case True
    have "x mod 8 = va mod 8 \<longleftrightarrow> x = va" using byte_position [of x va] same True by blast
    then show ?thesis using get_put_byte [of "va mod 8" "x mod 8" b] True unfolding ld ph by simp
  next
    case False
    then have "\<not> (pte_frame e' = f \<and> x = va)" by auto
    then show ?thesis using False unfolding ld ph by auto
  qed
qed

lemma store_byte:
  assumes run: "vm_run k s R" and r: "r \<in> R" and w: "writable_byte s r va"
  obtains s' where "store r va b s = Some s'" and "vm_run k s' R" and "av s' = av s" "owned k s' R = owned k s R"
    and "\<And>q x. in_tree k R q x \<Longrightarrow> lookup s' q x = lookup s q x"
    and "\<And>q x. q \<in> R \<Longrightarrow> x < 2 ^ 47 \<Longrightarrow> \<not> kz_shm_va_excluded x \<Longrightarrow>
      load s' q x = (if q = r \<and> x = va then Some b else load s q x)"
proof -
  have ok: "vm_ok k s R" by (rule vm_run_ok [OF run])
  obtain e where e: "va < 2 ^ 47" "\<not> kz_shm_va_excluded va" "lookup s r va = Some e" "bit e 1"
    using w by (auto simp: writable_byte_def)
  let ?f = "pte_frame e" and ?s = "poke (pte_frame e) (va mod 4096) b s"
  note pf = private_frame [OF run r e(1-3)]
  have nt: "node s q p \<noteq> Some ?f" if "(q, p) \<in> trees k R" "length p \<le> 3" for q p
    using vm_ok_sep [OF ok pf(1) that(1) pf(2)] that(2) by (auto simp: path3_def)
  have "?f \<notin> page_tables k s R" using nt by (auto simp: page_tables_def)
  then have run': "vm_run k ?s R" unfolding poke_def by (rule vm_run.data [OF run])
  have lk: "lookup ?s q x = lookup s q x" if "in_tree k R q x" for q x
    unfolding poke_def by (rule write_data_ok(3) [OF ok nt that])
  have "load ?s q x = (if q = r \<and> x = va then Some b else load s q x)"
    if x: "q \<in> R" "x < 2 ^ 47" "\<not> kz_shm_va_excluded x" for q x
  proof (cases "lookup s q x")
    case None
    then show ?thesis using lk [of q x] x e by (auto simp: load_def in_tree_def)
  next
    case (Some e')
    have l': "lookup ?s q x = Some e'" using lk [of q x] Some x by (simp add: in_tree_def)
    have same: "q = r \<and> x div 4096 = va div 4096" if "pte_frame e' = ?f"
      using vm_ok_sep [OF ok pf(1) private_frame(1) [OF run x Some] pf(2)] private_frame(2) [OF run x Some] that
        user_same_page [OF e(1) x(2)] same_page_path [of va x] by auto
    have "pte_frame e' = ?f \<and> x = va \<longleftrightarrow> q = r \<and> x = va" using same Some e(3) by auto
    then show ?thesis using load_poke [OF Some l'] same by simp
  qed
  moreover have "store r va b s = Some ?s" using e by (simp add: store_def)
  moreover have "av ?s = av s" by (simp add: poke_def set_frame_def)
  moreover have "owned k ?s R = owned k s R"
    using write_data_ok(2) [OF ok nt] unfolding poke_def owned_def by (intro Collect_cong) metis
  ultimately show thesis using that run' lk by blast
qed

lemma write_bytes_Done:
  assumes "vm_run k s R" and "r \<in> R" and "\<And>i. i < length bs \<Longrightarrow> writable_byte s r (a + i)"
  obtains s' where "write_bytes (store r) a bs s = Done s'" and "vm_run k s' R" and "av s' = av s" "owned k s' R = owned k s R"
    and "\<And>q x. in_tree k R q x \<Longrightarrow> lookup s' q x = lookup s q x"
    and "\<And>q x. q \<in> R \<Longrightarrow> x < 2 ^ 47 \<Longrightarrow> \<not> kz_shm_va_excluded x \<Longrightarrow>
      load s' q x = (if q = r \<and> a \<le> x \<and> x < a + length bs then Some (bs ! (x - a)) else load s q x)"
  using assms
proof (induction bs arbitrary: a s thesis)
  case Nil
  show ?case by (rule Nil.prems(1) [of s]) (use Nil.prems(2) in auto)
next
  case (Cons b bs)
  have "writable_byte s r a" using Cons.prems(4) [of 0] by simp
  from store_byte [OF Cons.prems(2,3) this] obtain s1 where s1: "store r a b s = Some s1" "vm_run k s1 R"
    "av s1 = av s" "owned k s1 R = owned k s R" "\<And>q x. in_tree k R q x \<Longrightarrow> lookup s1 q x = lookup s q x"
    "\<And>q x. q \<in> R \<Longrightarrow> x < 2 ^ 47 \<Longrightarrow> \<not> kz_shm_va_excluded x \<Longrightarrow> load s1 q x = (if q = r \<and> x = a then Some b else load s q x)"
    by metis
  have w: "writable_byte s1 r (Suc a + i)" if "i < length bs" for i
    using Cons.prems(4) [of "Suc i"] that s1(5) [of r "Suc a + i"] Cons.prems(3) by (auto simp: writable_byte_def in_tree_def)
  from Cons.IH [OF _ s1(2) Cons.prems(3) w] obtain s' where s': "write_bytes (store r) (Suc a) bs s1 = Done s'" "vm_run k s' R"
    "av s' = av s1" "owned k s' R = owned k s1 R"
    "\<And>q x. in_tree k R q x \<Longrightarrow> lookup s' q x = lookup s1 q x"
    "\<And>q x. q \<in> R \<Longrightarrow> x < 2 ^ 47 \<Longrightarrow> \<not> kz_shm_va_excluded x \<Longrightarrow>
      load s' q x = (if q = r \<and> Suc a \<le> x \<and> x < Suc a + length bs then Some (bs ! (x - Suc a)) else load s1 q x)"
    by metis
  have "load s' q x = (if q = r \<and> a \<le> x \<and> x < a + length (b # bs) then Some ((b # bs) ! (x - a)) else load s q x)"
    if "q \<in> R" "x < 2 ^ 47" "\<not> kz_shm_va_excluded x" for q x
    using s'(6) [OF that] s1(6) [OF that] by (cases "x = a") (auto simp: nth_Cons')
  then show ?case using Cons.prems(1) s' s1(1,3-5) by simp
qed

lemma write_bytes_Fault:
  assumes "vm_run k s R" and "r \<in> R" and "\<And>i. i < length bs \<Longrightarrow> a + i < 2 ^ 47 \<and> \<not> kz_shm_va_excluded (a + i)"
    and "i < length bs" "\<not> writable_byte s r (a + i)"
  shows "write_bytes (store r) a bs s = Fault"
  using assms
proof (induction bs arbitrary: a s i)
  case (Cons b bs)
  show ?case
  proof (cases "writable_byte s r a")
    case True
    from store_byte [OF Cons.prems(1,2) True] obtain s1 where s1: "store r a b s = Some s1" "vm_run k s1 R"
      "\<And>q x. in_tree k R q x \<Longrightarrow> lookup s1 q x = lookup s q x" by metis
    obtain j where i: "i = Suc j" using True Cons.prems(5) by (cases i) auto
    have "a + i < 2 ^ 47" using Cons.prems(3,4) by blast
    then have "\<not> writable_byte s1 r (Suc a + j)"
      using Cons.prems(2,5) s1(3) [of r "a + i"] by (simp add: writable_byte_def in_tree_def i)
    then have "write_bytes (store r) (Suc a) bs s1 = Fault"
      using Cons.IH [OF s1(2) Cons.prems(2), of "Suc a" j] Cons.prems(3) [of "Suc _"] Cons.prems(4) i by simp
    then show ?thesis using s1(1) by simp
  next
    case False
    then have "store r a b s = None" using Cons.prems(3) [of 0] by (auto simp: writable_byte_def store_def split: option.splits)
    then show ?thesis by simp
  qed
qed simp

section \<open>Properties\<close>

text \<open>C13 (safety). The check of a pointer range of a program is exact: it accepts exactly the ranges that do not start at the null
  address and are empty, or at most \<open>UC_MAX_RANGE\<close> bytes of which every single one is a user address mapped in the caller's
  address space. No wrap-around of the address arithmetic is accepted.\<close>

theorem user_range_ok_exact:
  assumes "vm_run k s R" and "r \<in> R" "ctx = \<lparr>from_user = True, uc_pml4 = r\<rparr>" and "uaddr < 2 ^ 64"
  shows "user_range_ok ctx uaddr len s \<longleftrightarrow> uaddr \<noteq> 0 \<and> (len = 0 \<or> len \<le> UC_MAX_RANGE
    \<and> (\<forall>i<len. uaddr + i < 2 ^ 47 \<and> lookup s r (uaddr + i) \<noteq> None))"
  using user_range_iff [OF vm_run_ok [OF assms(1)] assms(2-4)] by (simp add: user_bytes_mapped_def)

text \<open>Reading a string of a program never faults, whatever the pointer: it returns the bytes before the
  first zero byte, or the first \<open>cap - 1\<close> of them, when all bytes up to there are mapped user memory, and -1 otherwise.\<close>

theorem strncpy_from_user_exact:
  assumes "vm_run k s R" and "r \<in> R" "ctx = \<lparr>from_user = True, uc_pml4 = r\<rparr>" and "usrc < 2 ^ 64" "cap < 2 ^ 64"
  shows "\<exists>res. strncpy_from_user ctx (load s r) usrc cap s = Done res
    \<and> (\<forall>bs. res = Some bs \<longleftrightarrow> usrc \<noteq> 0 \<and> user_string s r usrc cap bs)"
proof (cases "usrc = 0 \<or> cap = 0")
  case True
  then show ?thesis by (auto simp: strncpy_from_user_def user_string_def)
next
  case False
  have "string_so_far s r usrc []" by (simp add: string_so_far_def)
  then show ?thesis
    using ustr_loop_exact [OF vm_run_ok [OF assms(1)] assms(2) _ assms(4,5), of ctx "[]" 1] False assms(3)
    by (auto simp: strncpy_from_user_def)
qed

text \<open>C22 (roundtrip). Copying to private writable pages of a program succeeds, leaves a state of \<open>vm_run\<close> in which
  reading the range back returns the bytes, and changes no other byte of this or any other address space.\<close>

theorem copy_to_user_roundtrip:
  assumes run: "vm_run k s R" and r: "r \<in> R" "ctx = \<lparr>from_user = True, uc_pml4 = r\<rparr>"
    and a: "udst \<noteq> 0" "length src \<le> UC_MAX_RANGE" and w: "\<forall>i<length src. writable_byte s r (udst + i)" "udst < 2 ^ 64"
  shows "\<exists>s'. copy_to_user ctx (store r) udst src s = Done (True, s') \<and> vm_run k s' R
    \<and> copy_from_user ctx (load s' r) udst (length src) s' = Done (Some src)
    \<and> (\<forall>q\<in>R. \<forall>x<2 ^ 47. \<not> kz_shm_va_excluded x \<longrightarrow> \<not> (q = r \<and> udst \<le> x \<and> x < udst + length src) \<longrightarrow> load s' q x = load s q x)"
proof -
  obtain s' where s': "write_bytes (store r) udst src s = Done s'" "vm_run k s' R"
    "\<And>q x. in_tree k R q x \<Longrightarrow> lookup s' q x = lookup s q x"
    "\<And>q x. q \<in> R \<Longrightarrow> x < 2 ^ 47 \<Longrightarrow> \<not> kz_shm_va_excluded x \<Longrightarrow>
      load s' q x = (if q = r \<and> udst \<le> x \<and> x < udst + length src then Some (src ! (x - udst)) else load s q x)"
    using write_bytes_Done [OF run r(1), of src udst] w by metis
  have m: "user_bytes_mapped s r udst (length src)" "user_bytes_mapped s' r udst (length src)"
    using w(1) r(1) s'(3) [of r] by (auto simp: user_bytes_mapped_def writable_byte_def in_tree_def)
  have "user_range_ok ctx udst (length src) t" if "t = s \<or> t = s'" for t
    using that m a w(2) user_range_iff [OF vm_run_ok [OF run] r w(2)] user_range_iff [OF vm_run_ok [OF s'(2)] r w(2)] by blast
  then have ok: "user_range_ok ctx udst (length src) s" "user_range_ok ctx udst (length src) s'" by simp_all
  have ld: "load s' r (udst + i) = Some (src ! i)" if "i < length src" for i
    using s'(4) [OF r(1), of "udst + i"] w(1) that by (simp add: writable_byte_def)
  then have "read_bytes (load s' r) udst (length src) = Done (map (\<lambda>i. the (load s' r (udst + i))) [0..<length src])"
    by (intro read_bytes_Done) simp
  also have "map (\<lambda>i. the (load s' r (udst + i))) [0..<length src] = src"
    using ld by (intro nth_equalityI) auto
  finally have "copy_from_user ctx (load s' r) udst (length src) s' = Done (Some src)"
    using ok by (simp add: copy_from_user_def)
  then show ?thesis using s' ok by (intro exI [of _ s']) (auto simp: copy_to_user_def)
qed

text \<open>C39 (error). The check looks at the presence of pages only: a program that passes a range in which one byte lies on a
  page it may read but not write makes \<open>copy_to_user\<close> fault in the kernel.\<close>

theorem copy_to_user_readonly_faults:
  assumes "vm_run k s R" and "r \<in> R" "ctx = \<lparr>from_user = True, uc_pml4 = r\<rparr>" and "udst < 2 ^ 64"
    and "\<forall>i<length src. \<not> kz_shm_va_excluded (udst + i)" and "user_range_ok ctx udst (length src) s"
    and "i < length src" "lookup s r (udst + i) = Some e" "\<not> bit e 1"
  shows "copy_to_user ctx (store r) udst src s = Fault"
proof -
  have "user_bytes_mapped s r udst (length src)"
    using user_range_iff [OF vm_run_ok [OF assms(1)] assms(2-4)] assms(6,7) by auto
  then have "write_bytes (store r) udst src s = Fault"
    using assms(5,8,9) by (intro write_bytes_Fault [OF assms(1,2) _ assms(7)]) (auto simp: user_bytes_mapped_def writable_byte_def)
  then show ?thesis using assms(6) by (simp add: copy_to_user_def)
qed

section \<open>Witnesses\<close>

lemma bit_1_numerals: "bit (7 :: pte) 1" "\<not> bit (5 :: pte) 1" "\<not> bit PAGING_NX 1"
  by (simp_all add: PAGING_NX_def bit_iff_odd)

lemma demo_shm: "x < 4096 \<Longrightarrow> \<not> kz_shm_va_excluded (0x10000000 + x)"
  by (simp add: kz_shm_va_excluded_def KZ_SHM_BASE_def)

text \<open>The page at \<open>0x10000000\<close> with the flags of a data page, and then of a code page.\<close>

lemma demo_pages:
  obtains s c e s' e' where "vm_run 4096 s {c}" and "\<And>i. i < 4096 \<Longrightarrow> lookup s c (0x10000000 + i) = Some e" and "bit e 1"
    and "vm_run 4096 s' {c}" and "\<And>i. i < 4096 \<Longrightarrow> lookup s' c (0x10000000 + i) = Some e'" and "\<not> bit e' 1"
proof -
  obtain s0 c where s: "vm_run 4096 s0 {c}" "card (av s0) \<ge> 1999" by (rule demo_space)
  obtain b s where al: "vmm_alloc_page_into 0x10000000 7 c s0 = (b, s)" by (cases "vmm_alloc_page_into 0x10000000 7 c s0")
  obtain b' s' where pr: "vmm_protect_page_into 0x10000000 5 c s = (b', s')" by (cases "vmm_protect_page_into 0x10000000 5 c s")
  have ok: "vm_ok 4096 s0 {c}" by (rule vm_run_ok [OF s(1)])
  have fl: "flags_ok 7" "flags_ok 5" by (simp_all add: flags_ok_def PAGING_NX_def)
  have x: "in_tree 4096 {c} c (0x10000000 + i)" "same_page 0x10000000 (0x10000000 + i)" if "i < 4096" for i
    using that by (simp_all add: in_tree_def same_page_def)
  have x0: "in_tree 4096 {c} c 0x10000000" using x [of 0] by simp
  have am: "alloc_map c 0x10000000 7 s0 = (b, s)" using alloc_into_map [OF ok, of c "0x10000000" 7] al by simp
  have b using alloc_map_ok [OF ok x0 am fl(1)] s(2) by auto
  then obtain f where f: "\<And>i. i < 4096 \<Longrightarrow> lookup s c (0x10000000 + i) = Some (mk_pte f 7)"
    using alloc_map_lookup [OF ok x0 am fl(1)] x by metis
  have shm: "\<not> kz_shm_va_excluded 0x10000000" using demo_shm [of 0] by simp
  have run: "vm_run 4096 s {c}" by (rule vm_run.alloc_user [OF s(1) _ _ shm fl(1) al]) simp_all
  have run': "vm_run 4096 s' {c}" by (rule vm_run.protect [OF run _ _ fl(2) pr]) simp_all
  have f': "lookup s' c (0x10000000 + i) = Some ((mk_pte f 7 AND PAGE_MASK) OR 5)" if "i < 4096" for i
    using protect_ok(5) [OF vm_run_ok [OF run] x0 fl(2) pr x(1) [OF that]] x(2) [OF that] f [of 0] by simp
  have b: "bit (mk_pte f 7) 1" "\<not> bit ((mk_pte f 7 AND PAGE_MASK) OR 5) 1"
    unfolding mk_pte_def bit_or_iff bit_and_iff PAGE_MASK_bit using bit_1_numerals by auto
  show thesis by (rule that [OF run f b(1) run' f' b(2)]) simp_all
qed

theorem user_range_ok_exact_witness:
  "\<exists>s c. vm_run 4096 s {c} \<and> user_range_ok \<lparr>from_user = True, uc_pml4 = c\<rparr> 0x10000FF0 16 s"
proof -
  obtain s c e where s: "vm_run 4096 s {c}" "\<And>i. i < 4096 \<Longrightarrow> lookup s c (0x10000000 + i) = Some e" by (rule demo_pages) blast
  have "lookup s c (0x10000FF0 + i) = Some e" if "i < 16" for i using s(2) [of "0xFF0 + i"] that by (simp add: add.assoc)
  then have "user_range_ok \<lparr>from_user = True, uc_pml4 = c\<rparr> 0x10000FF0 16 s"
    using user_range_ok_exact [OF s(1) singletonI refl, of "0x10000FF0" 16] by (simp add: UC_MAX_RANGE_def)
  then show ?thesis using s(1) by blast
qed

theorem strncpy_from_user_exact_witness:
  "\<exists>s c res. vm_run 4096 s {c} \<and> strncpy_from_user \<lparr>from_user = True, uc_pml4 = c\<rparr> (load s c) 0x10000FF0 64 s = Done res"
proof -
  obtain s c where s: "vm_run 4096 s {c}" by (rule demo_space)
  from strncpy_from_user_exact [OF s singletonI refl, of "0x10000FF0" 64] s show ?thesis by auto
qed

theorem copy_to_user_roundtrip_witness:
  "\<exists>s c s'. vm_run 4096 s {c} \<and> copy_to_user \<lparr>from_user = True, uc_pml4 = c\<rparr> (store c) 0x10000FFE [1, 2] s = Done (True, s')
    \<and> copy_from_user \<lparr>from_user = True, uc_pml4 = c\<rparr> (load s' c) 0x10000FFE 2 s' = Done (Some [1, 2])"
proof -
  obtain s c e where s: "vm_run 4096 s {c}" "\<And>i. i < 4096 \<Longrightarrow> lookup s c (0x10000000 + i) = Some e" "bit e 1" by (rule demo_pages) blast
  have "writable_byte s c (0x10000FFE + i)" if "i < 2" for i
    using s(2) [of "0xFFE + i"] s(3) demo_shm [of "0xFFE + i"] that by (simp add: writable_byte_def add.assoc)
  then have w: "\<forall>i<length [1, 2 :: byte]. writable_byte s c (0x10000FFE + i)" by simp
  have l: "length [1, 2 :: byte] = 2" "length [1, 2 :: byte] \<le> UC_MAX_RANGE" by (simp_all add: UC_MAX_RANGE_def)
  from copy_to_user_roundtrip [OF s(1) singletonI refl _ l(2) w, unfolded l(1)] s(1) show ?thesis by auto
qed

theorem copy_to_user_readonly_faults_witness:
  "\<exists>s c. vm_run 4096 s {c} \<and> copy_to_user \<lparr>from_user = True, uc_pml4 = c\<rparr> (store c) 0x10000000 [1] s = Fault"
proof -
  obtain s c e where s: "vm_run 4096 s {c}" "\<And>i. i < 4096 \<Longrightarrow> lookup s c (0x10000000 + i) = Some e" "\<not> bit e 1" by (rule demo_pages) blast
  have l: "lookup s c (0x10000000 + 0) = Some e" using s(2) [of 0] by simp
  have "user_range_ok \<lparr>from_user = True, uc_pml4 = c\<rparr> 0x10000000 (length [1 :: byte]) s"
    using user_range_iff [OF vm_run_ok [OF s(1)] singletonI refl] l by (simp add: user_bytes_mapped_def UC_MAX_RANGE_def)
  then have "copy_to_user \<lparr>from_user = True, uc_pml4 = c\<rparr> (store c) 0x10000000 [1] s = Fault"
    using demo_shm [of 0] by (intro copy_to_user_readonly_faults [OF s(1) singletonI refl _ _ _ _ l s(3)]) simp_all
  then show ?thesis using s(1) by blast
qed

end
