(* ===== verification/Uheap.thy ===== *)
theory Uheap
  imports Usercopy
begin

text \<open>
  The heap of a program: \<open>kernel/mm/uheap.c\<close>, the pages behind \<open>sys_alloc\<close>, \<open>sys_free\<close> and \<open>sys_realloc\<close>.

  A task has a list of regions between \<open>UHEAP_BASE\<close> and \<open>UHEAP_END\<close>, newest first, and the address of the next one.
  The operations work on the task's record and on the memory of \<open>Paging\<close>. The records of the regions live in the
  kernel heap (theory \<open>Heap\<close>); here the outcome of their allocation is an input. The copy in
  \<open>uheap_realloc\<close> goes through the caller's translation (\<open>load\<close>, \<open>store\<close> of \<open>Usercopy\<close>), so it may fault.
\<close>

section \<open>Model\<close>

definition UHEAP_BASE :: nat where
  "UHEAP_BASE = 0x10000000"

definition UHEAP_END :: nat where
  "UHEAP_END = 0x40000000"

definition UHEAP_MAX_ALLOC :: nat where
  "UHEAP_MAX_ALLOC = 64 * 1024 * 1024"

record uheap_region =
  rg_base :: nat
  rg_size :: nat
  rg_pages :: nat

record uheap_task =
  pml4_phys :: nat
  uheap_brk :: nat
  uheap_regions :: "uheap_region list"

definition uheap_unmap_page :: "nat \<Rightarrow> nat \<Rightarrow> vm \<Rightarrow> vm" where
  "uheap_unmap_page r va s =
    (let (pa, s1) = vmm_unmap_page_from va r s
     in if pa \<noteq> PHYS_NULL \<and> pmm_owns_page pa (vm_pmm s1) then vm_free pa s1 else s1)"

definition uheap_unmap_range :: "nat \<Rightarrow> nat \<Rightarrow> nat \<Rightarrow> vm \<Rightarrow> vm" where
  "uheap_unmap_range r a pages s = fold (\<lambda>i. uheap_unmap_page r (a + i * 4096)) [0..<pages] s"

text \<open>One page of \<open>uheap_alloc\<close>: taken, mapped and cleared, or given back.\<close>

definition uheap_map_page :: "nat \<Rightarrow> nat \<Rightarrow> vm \<Rightarrow> bool \<times> vm" where
  "uheap_map_page r va s =
    (let (pa, s1) = vm_alloc s
     in if pa = PHYS_NULL then (False, s1)
        else let (ok, s2) = vmm_map_page_into va pa 7 r s1
             in if \<not> ok then (False, vm_free pa s2) else (True, set_frame pa (\<lambda>_. 0) s2))"

text \<open>The loop over the pages: \<open>i\<close> are mapped, \<open>n\<close> are left.\<close>

fun uheap_map_pages :: "nat \<Rightarrow> nat \<Rightarrow> nat \<Rightarrow> nat \<Rightarrow> vm \<Rightarrow> bool \<times> vm" where
  "uheap_map_pages r a i 0 s = (True, s)"
| "uheap_map_pages r a i (Suc n) s =
    (case uheap_map_page r (a + i * 4096) s of
       (False, s') \<Rightarrow> (False, uheap_unmap_range r a i s')
     | (True, s') \<Rightarrow> uheap_map_pages r a (Suc i) n s')"

definition cur_brk :: "uheap_task \<Rightarrow> nat" where
  "cur_brk t = (if uheap_brk t \<noteq> 0 then uheap_brk t else UHEAP_BASE)"

definition uheap_alloc :: "bool \<Rightarrow> uheap_task \<Rightarrow> nat \<Rightarrow> vm \<Rightarrow> nat \<times> uheap_task \<times> vm" where
  "uheap_alloc kn t sz s =
    (if pml4_phys t = PHYS_NULL then (0, t, s)
     else if sz = 0 \<or> UHEAP_MAX_ALLOC < sz then (0, t, s)
     else let brk = cur_brk t; pages = (sz + 4095) div 4096
          in if UHEAP_END < brk + pages * 4096 + 4096 then (0, t, s)
             else if \<not> kn then (0, t, s)
             else case uheap_map_pages (pml4_phys t) brk 0 pages s of
                (False, s') \<Rightarrow> (0, t, s')
              | (True, s') \<Rightarrow> (brk, t\<lparr>uheap_regions := \<lparr>rg_base = brk, rg_size = sz, rg_pages = pages\<rparr> # uheap_regions t,
                    uheap_brk := brk + pages * 4096 + 4096\<rparr>, s'))"

text \<open>The walk along the links: the region and the list without it.\<close>

fun unlink_region :: "nat \<Rightarrow> uheap_region list \<Rightarrow> (uheap_region \<times> uheap_region list) option" where
  "unlink_region a [] = None"
| "unlink_region a (n # ns) =
    (if rg_base n \<noteq> a then map_option (\<lambda>(g, gs). (g, n # gs)) (unlink_region a ns) else Some (n, ns))"

definition uheap_free :: "uheap_task \<Rightarrow> nat \<Rightarrow> vm \<Rightarrow> bool \<times> uheap_task \<times> vm" where
  "uheap_free t uaddr s =
    (if uaddr = 0 then (False, t, s)
     else case unlink_region uaddr (uheap_regions t) of
        None \<Rightarrow> (False, t, s)
      | Some (n, ns) \<Rightarrow> (True, t\<lparr>uheap_regions := ns\<rparr>, uheap_unmap_range (pml4_phys t) (rg_base n) (rg_pages n) s))"

fun resize_region :: "nat \<Rightarrow> nat \<Rightarrow> uheap_region list \<Rightarrow> uheap_region list" where
  "resize_region a sz [] = []"
| "resize_region a sz (n # ns) = (if rg_base n \<noteq> a then n # resize_region a sz ns else n\<lparr>rg_size := sz\<rparr> # ns)"

definition uheap_realloc :: "bool \<Rightarrow> uheap_task \<Rightarrow> nat \<Rightarrow> nat \<Rightarrow> vm \<Rightarrow> (nat \<times> uheap_task \<times> vm) access" where
  "uheap_realloc kn t uaddr new_size s =
    (if uaddr = 0 then Done (uheap_alloc kn t new_size s)
     else if new_size = 0 then (case uheap_free t uaddr s of (_, t', s') \<Rightarrow> Done (0, t', s'))
     else if UHEAP_MAX_ALLOC < new_size then Done (0, t, s)
     else case find (\<lambda>g. rg_base g = uaddr) (uheap_regions t) of
        None \<Rightarrow> Done (0, t, s)
      | Some n \<Rightarrow>
          if new_size \<le> rg_pages n * 4096
          then Done (rg_base n, t\<lparr>uheap_regions := resize_region uaddr new_size (uheap_regions t)\<rparr>, s)
          else case uheap_alloc kn t new_size s of (new_base, t1, s1) \<Rightarrow>
            if new_base = 0 then Done (0, t1, s1)
            else let copy = (if rg_size n < new_size then rg_size n else new_size)
                 in case read_bytes (load s1 (pml4_phys t)) uaddr copy of Fault \<Rightarrow> Fault
                  | Done bs \<Rightarrow> (case write_bytes (store (pml4_phys t)) new_base bs s1 of Fault \<Rightarrow> Fault
                     | Done s2 \<Rightarrow> (case uheap_free t1 uaddr s2 of (_, t3, s3) \<Rightarrow> Done (new_base, t3, s3))))"

definition uheap_reset :: "uheap_task \<Rightarrow> uheap_task" where
  "uheap_reset t = t\<lparr>uheap_regions := [], uheap_brk := UHEAP_BASE\<rparr>"

text \<open>\<open>kn i\<close>: whether the \<open>i\<close>-th allocation of a record succeeds; \<open>None\<close> when one does not.\<close>

fun clone_nodes :: "(nat \<Rightarrow> bool) \<Rightarrow> nat \<Rightarrow> uheap_region list \<Rightarrow> uheap_region list option" where
  "clone_nodes kn i [] = Some []"
| "clone_nodes kn i (n # ns) = (if kn i then map_option ((#) n) (clone_nodes kn (Suc i) ns) else None)"

definition uheap_clone :: "(nat \<Rightarrow> bool) \<Rightarrow> uheap_task \<Rightarrow> uheap_task \<Rightarrow> bool \<times> uheap_task" where
  "uheap_clone kn dst src =
    (case clone_nodes kn 0 (uheap_regions src) of
       None \<Rightarrow> (False, uheap_reset dst)
     | Some ns \<Rightarrow> (True, dst\<lparr>uheap_brk := uheap_brk src, uheap_regions := ns\<rparr>))"

section \<open>Changes confined to a set of addresses\<close>

text \<open>
  \<open>s'\<close> is a state of \<open>vm_run\<close> that differs from \<open>s\<close> at most in the addresses \<open>P\<close> of one address space, and has the same
  frames free or in use.
\<close>

definition confined :: "nat \<Rightarrow> nat set \<Rightarrow> nat \<Rightarrow> nat set \<Rightarrow> vm \<Rightarrow> vm \<Rightarrow> bool" where
  "confined k R r P s s' \<longleftrightarrow> vm_run k s' R
    \<and> (\<forall>q x. in_tree k R q x \<longrightarrow> \<not> (q = r \<and> x \<in> P) \<longrightarrow> lookup s' q x = lookup s q x)
    \<and> (\<forall>q x. q \<in> R \<longrightarrow> x < 2 ^ 47 \<longrightarrow> \<not> kz_shm_va_excluded x \<longrightarrow> \<not> (q = r \<and> x \<in> P) \<longrightarrow> load s' q x = load s q x)
    \<and> av s' \<union> owned k s' R = av s \<union> owned k s R"

lemma confinedD:
  assumes "confined k R r P s s'"
  shows "vm_run k s' R" and "\<And>q x. in_tree k R q x \<Longrightarrow> \<not> (q = r \<and> x \<in> P) \<Longrightarrow> lookup s' q x = lookup s q x"
    and "\<And>q x. q \<in> R \<Longrightarrow> x < 2 ^ 47 \<Longrightarrow> \<not> kz_shm_va_excluded x \<Longrightarrow> \<not> (q = r \<and> x \<in> P) \<Longrightarrow> load s' q x = load s q x"
    and "av s' \<union> owned k s' R = av s \<union> owned k s R"
  using assms unfolding confined_def by blast+

lemma confined_refl: "vm_run k s R \<Longrightarrow> confined k R r P s s"
  by (simp add: confined_def)

lemma confined_trans: "confined k R r P s s1 \<Longrightarrow> confined k R r P s1 s2 \<Longrightarrow> confined k R r P s s2"
  by (simp add: confined_def)

lemma confined_mono: "confined k R r P s s' \<Longrightarrow> P \<subseteq> Q \<Longrightarrow> confined k R r Q s s'"
  unfolding confined_def by blast

abbreviation page_bytes :: "nat \<Rightarrow> nat set" where
  "page_bytes va \<equiv> {x. x div 4096 = va div 4096}"

lemma loads_kept:
  assumes "vm_ok k s R" and "pages_kept R s s'" and "q \<in> R" "x < 2 ^ 47" "\<not> kz_shm_va_excluded x" and "lookup s' q x = lookup s q x"
  shows "load s' q x = load s q x"
proof (cases "lookup s q x")
  case (Some e)
  note lp = lookup_private [OF assms(1,3-5) Some]
  have "phys s' (pte_frame e) = phys s (pte_frame e)"
    using assms(2,3) lp(2,3) by (simp add: pages_kept_def path3_def)
  then show ?thesis using assms(6) Some by (simp add: load_def)
qed (use assms(6) in \<open>simp add: load_def\<close>)

lemma other_page:
  assumes "r \<in> R" "va < 2 ^ 47" and "vm_ok k s R" and "in_tree k R q x"
  shows "q = r \<and> same_page va x \<longleftrightarrow> q = r \<and> x \<in> page_bytes va"
proof -
  have "k \<notin> R" using assms(3) by (simp add: vm_ok_def)
  then have "x < 2 ^ 47" if "q = r" using assms(1,4) that by (auto simp: in_tree_def)
  then show ?thesis using user_same_page [OF assms(2), of x] by auto
qed

lemma uheap_unmap_page_eq:
  assumes ok: "vm_ok k s R" and r: "r \<in> R" and va: "va < 2 ^ 47" "\<not> kz_shm_va_excluded va"
    and u: "vmm_unmap_page_from va r s = (f, s1)"
  shows "uheap_unmap_page r va s = (if f = 0 then s1 else vm_free f s1)" and "f = 0 \<longleftrightarrow> lookup s r va = None"
proof -
  have x: "in_tree k R r va" using r va by (simp add: in_tree_def)
  note uo = unmap_from_ok [OF ok x u]
  have pm: "vm_pmm s1 = vm_pmm s" using u by (auto simp: vmm_unmap_page_from_def store_pte_def split: option.splits)
  have fr: "f \<noteq> 0 \<and> pmm_owns_page f (vm_pmm s)" if "lookup s r va = Some e" for e
  proof -
    note lp = lookup_private [OF ok r va that]
    have f: "f = pte_frame e" using uo(5) that by simp
    have "managed (vm_pmm s) f" using vm_ok_held(2) [OF ok r lp(3,2)] f by simp
    then have "f \<noteq> 0" using managed_not_null by (auto simp: PHYS_NULL_def)
    moreover have "vm_free f s \<noteq> s"
    proof
      assume "vm_free f s = s"
      moreover have "(r, path3 va @ [PT_IDX va]) \<in> trees k R" using r lp(3) by (simp add: trees_def)
      then have "f \<notin> av s" using vm_ok_held(1) [OF ok _ lp(2)] f by simp
      moreover have "av (vm_free f s) = insert f (av s)"
        using vm_free_spec(4) [of k s f] ok \<open>managed (vm_pmm s) f\<close> by (simp add: vm_ok_def)
      ultimately show False by auto
    qed
    moreover have "free_owned f s = vm_free f s" using free_owned_eq [OF ok r lp(3,2)] f by simp
    ultimately show ?thesis by (auto simp: free_owned_def split: if_splits)
  qed
  show "f = 0 \<longleftrightarrow> lookup s r va = None" using fr uo(5) by (cases "lookup s r va") auto
  then show "uheap_unmap_page r va s = (if f = 0 then s1 else vm_free f s1)"
    using u fr pm by (cases "lookup s r va") (auto simp: uheap_unmap_page_def PHYS_NULL_def)
qed

lemma uheap_unmap_page_ok:
  assumes run: "vm_run k s R" and r: "r \<in> R" and va: "va < 2 ^ 47" "\<not> kz_shm_va_excluded va"
  defines "s' \<equiv> uheap_unmap_page r va s"
  shows "confined k R r (page_bytes va) s s'" and "\<And>x. x < 2 ^ 47 \<Longrightarrow> x \<in> page_bytes va \<Longrightarrow> lookup s' r x = None"
    and "av s' = av s \<union> set_option (map_option pte_frame (lookup s r va))"
proof -
  have ok: "vm_ok k s R" by (rule vm_run_ok [OF run])
  obtain f s1 where u: "vmm_unmap_page_from va r s = (f, s1)" by (cases "vmm_unmap_page_from va r s")
  have x: "in_tree k R r va" using r va by (simp add: in_tree_def)
  note uo = unmap_from_ok [OF ok x u] and e = uheap_unmap_page_eq [OF ok r va u]
  have ph: "phys s' = phys s1" by (simp add: s'_def e(1) vm_free_def)
  have run': "vm_run k s' R" using vm_run.free_user [OF run r va u] by (simp add: s'_def e(1) PHYS_NULL_def)
  have lk: "lookup s' = lookup s1" by (intro ext) (unfold lookup_def find_pt_def ph, rule refl)
  have l: "lookup s' q y = lookup s q y" if "in_tree k R q y" "\<not> (q = r \<and> y \<in> page_bytes va)" for q y
    using uo(4) [OF that(1)] other_page [OF r va(1) ok that(1)] that(2) unfolding lk by metis
  have pk: "pages_kept R s s'" using uo(2) ph by (simp add: pages_kept_def)
  show av: "av s' = av s \<union> set_option (map_option pte_frame (lookup s r va))"
    using unmap_then_free_ok(2) [OF ok r va u] uo(3,5) e(2) by (cases "lookup s r va") (auto simp: s'_def e(1))
  have ow: "owned k s' R = owned k s1 R" using node_phys [OF ph] by (simp add: owned_def)
  have "set_option (map_option pte_frame (lookup s r va)) \<subseteq> owned k s R"
    using lookup_private(2,3) [OF ok r va] r by (cases "lookup s r va") (auto simp: owned_def trees_def)
  then have "av s' \<union> owned k s' R = av s \<union> owned k s R" unfolding av ow uo(6) using r va(2) by auto
  then show "confined k R r (page_bytes va) s s'" unfolding confined_def
    using run' l loads_kept [OF ok pk] by (auto simp: in_tree_def)
  show "lookup s' r y = None" if "y < 2 ^ 47" "y \<in> page_bytes va" for y
    using uo(4) [of r y] r that user_same_page [OF va(1) that(1)] unfolding lk by (simp add: in_tree_def)
qed

lemma uheap_map_page_eq:
  assumes "vm_ok k s R" and "r \<in> R" "va < 2 ^ 47" and "alloc_map r va 7 s = (b, s1)"
  shows "uheap_map_page r va s = (b, if b then set_frame (fst (vm_alloc s)) (\<lambda>_. 0) s1 else s1)"
proof -
  have "r \<noteq> PHYS_NULL" using root_nonzero [OF assms(1), of r va] assms(2,3) by (simp add: in_tree_def)
  then have "vmm_map_page_into va a 7 r s0 = map_walk r va a 7 s0" for a s0 by (simp add: vmm_map_page_into_def)
  then show ?thesis
    using assms(4) by (auto simp: uheap_map_page_def alloc_map_def PHYS_NULL_def split: prod.splits if_splits)
qed

lemma zero_page_ok:
  assumes run: "vm_run k s R" and r: "r \<in> R" and va: "va < 2 ^ 47" "\<not> kz_shm_va_excluded va" and e: "lookup s r va = Some e"
  defines "s' \<equiv> set_frame (pte_frame e) (\<lambda>_. 0) s"
  shows "confined k R r (page_bytes va) s s'" and "av s' = av s" and "\<And>q x. in_tree k R q x \<Longrightarrow> lookup s' q x = lookup s q x"
    and "\<And>x. x < 2 ^ 47 \<Longrightarrow> x \<in> page_bytes va \<Longrightarrow> load s' r x = Some 0"
proof -
  have ok: "vm_ok k s R" by (rule vm_run_ok [OF run])
  note pf = private_frame [OF run r va e]
  have nt: "Paging_Tree.node s q p \<noteq> Some (pte_frame e)" if "(q, p) \<in> trees k R" "length p \<le> 3" for q p
    using vm_ok_sep [OF ok pf(1) that(1) pf(2)] that(2) by (auto simp: path3_def)
  have run': "vm_run k s' R" unfolding s'_def using nt by (intro vm_run.data [OF run]) (auto simp: page_tables_def)
  show lk: "lookup s' q x = lookup s q x" if "in_tree k R q x" for q x
    unfolding s'_def by (rule write_data_ok(3) [OF ok nt that])
  show av: "av s' = av s" by (simp add: s'_def set_frame_def)
  have ow: "owned k s' R = owned k s R"
    using write_data_ok(2) [OF ok nt] unfolding s'_def owned_def by (intro Collect_cong) metis
  have ph: "phys s' f = (if f = pte_frame e then \<lambda>_. 0 else phys s f)" for f by (simp add: s'_def set_frame_def)
  have "load s' q x = load s q x" if x: "q \<in> R" "x < 2 ^ 47" "\<not> kz_shm_va_excluded x" "\<not> (q = r \<and> x \<in> page_bytes va)" for q x
  proof (cases "lookup s q x")
    case None
    then show ?thesis using lk [of q x] x by (simp add: load_def in_tree_def)
  next
    case (Some e')
    have "pte_frame e' \<noteq> pte_frame e"
      using vm_ok_sep [OF ok pf(1) private_frame(1) [OF run x(1-3) Some] pf(2)] private_frame(2) [OF run x(1-3) Some] x(4)
        user_same_page [OF va(1) x(2)] same_page_path [of va x] by auto
    then show ?thesis using lk [of q x] x Some by (simp add: load_def in_tree_def ph)
  qed
  then show "confined k R r (page_bytes va) s s'" using run' lk av ow by (simp add: confined_def)
  show "load s' r x = Some 0" if x: "x < 2 ^ 47" "x \<in> page_bytes va" for x
  proof -
    have "lookup s r x = Some e" using lookup_page(2) [OF ok r, of va x] x va(1) e by simp
    then show ?thesis using lk [of r x] r x(1) by (simp add: load_def in_tree_def ph get_byte_def)
  qed
qed

lemma writable_page:
  assumes "vm_ok k s R" and "r \<in> R" and "writable_byte s r va" and "x \<in> page_bytes va"
  shows "writable_byte s r x"
  using assms lookup_page [OF assms(1,2), of va x] shm_same_page [of va x] by (auto simp: writable_byte_def)

lemma alloc_map_fails:
  assumes ok: "vm_ok k s R" and r: "r \<in> R" "va < 2 ^ 47" and eq: "alloc_map r va fl s = (False, s')" and fl: "flags_ok fl"
  shows "av s' \<subseteq> {fst (vm_alloc s)}"
proof -
  have x: "in_tree k R r va" using r by (simp add: in_tree_def)
  show ?thesis using ok x eq fl
  proof (cases rule: alloc_map_cases)
    case (walk a s0 s1)
    note al = alloc_fresh [OF ok walk(2,1)]
    note m = map_walk_ok [OF al(1) x walk(5) fl walk(3)]
    have "fresh k s1 R a" using map_walk_fail_fresh [OF al(1) x _ al(2)] walk(3) by auto
    then show ?thesis using m(3) r(1) walk(2,4) free_fresh(2) [OF m(1)] by auto
  qed auto
qed

lemma uheap_map_page_ok:
  assumes run: "vm_run k s R" and r: "r \<in> R" and va: "va < 2 ^ 47" "\<not> kz_shm_va_excluded va" and new: "lookup s r va = None"
    and eq: "uheap_map_page r va s = (b, s')"
  shows "confined k R r (if b then page_bytes va else {}) s s'"
    and "b \<Longrightarrow> x < 2 ^ 47 \<Longrightarrow> x \<in> page_bytes va \<Longrightarrow> writable_byte s' r x \<and> load s' r x = Some 0"
    and "\<not> b \<Longrightarrow> av s' \<subseteq> {fst (vm_alloc s)}"
proof -
  have ok: "vm_ok k s R" by (rule vm_run_ok [OF run])
  have x: "in_tree k R r va" using r va by (simp add: in_tree_def)
  have fl: "flags_ok 7" by (simp add: flags_ok_def PAGING_NX_def)
  obtain c s1 where am: "alloc_map r va 7 s = (c, s1)" by (cases "alloc_map r va 7 s")
  have e: "c = b" "s' = (if b then set_frame (fst (vm_alloc s)) (\<lambda>_. 0) s1 else s1)"
    using uheap_map_page_eq [OF ok r va(1) am] eq by auto
  have run1: "vm_run k s1 R" by (rule vm_run.alloc_user [OF run r va fl]) (simp add: alloc_into_map [OF ok r va(1)] am)
  have pk: "pages_kept R s s1" using alloc_map_ok [OF ok x am fl] by blast
  have cons: "av s1 \<union> owned k s1 R = av s \<union> owned k s R" by (rule alloc_map_conserves [OF ok x am fl new r va(2)])
  obtain a where a: "b \<longrightarrow> is_frame a"
    "\<And>q y. in_tree k R q y \<Longrightarrow> lookup s1 q y = (if b \<and> q = r \<and> same_page va y then Some (mk_pte a 7) else lookup s q y)"
    using alloc_map_lookup [OF ok x am fl] e(1) by auto
  have l1: "lookup s1 q y = lookup s q y" if "in_tree k R q y" "\<not> (b \<and> q = r \<and> y \<in> page_bytes va)" for q y
    using a(2) [OF that(1)] other_page [OF r va(1) ok that(1)] that(2) by metis
  have c1: "confined k R r (if b then page_bytes va else {}) s s1"
    unfolding confined_def using run1 cons l1 loads_kept [OF ok pk] by (auto simp: in_tree_def split: if_splits)
  have "confined k R r (if b then page_bytes va else {}) s s' \<and>
    (b \<longrightarrow> x < 2 ^ 47 \<longrightarrow> x \<in> page_bytes va \<longrightarrow> writable_byte s' r x \<and> load s' r x = Some 0)"
  proof (cases b)
    case True
    have l: "lookup s1 r va = Some (mk_pte a 7)" using a(2) [OF x] True by (simp add: same_page_def)
    have "fst (vm_alloc s) = pte_frame (mk_pte a 7)" using ok x am fl
    proof (cases rule: alloc_map_cases)
      case (walk a' s0 s2)
      note al = alloc_fresh [OF ok walk(2,1)]
      have "lookup s1 r va = Some (mk_pte a' 7)"
        using map_walk_ok(4) [OF al(1) x walk(5) fl walk(3) x] walk(4) True e(1) by (simp add: same_page_def)
      then show ?thesis using l walk(2) al(8) fl by simp
    qed (use True e(1) in simp)
    then have s': "s' = set_frame (pte_frame (mk_pte a 7)) (\<lambda>_. 0) s1" using e(2) True by simp
    note z = zero_page_ok [OF run1 r va l, folded s']
    have "bit (mk_pte a 7) 1" unfolding mk_pte_def bit_or_iff using bit_1_numerals(1) by blast
    then have "writable_byte s' r va" using z(3) [OF x] l va by (simp add: writable_byte_def)
    then show ?thesis
      using confined_trans [OF c1, of s'] z(1,4) True writable_page [OF vm_run_ok [OF confinedD(1) [OF z(1)]] r] by auto
  qed (use c1 e(2) in simp)
  then show "confined k R r (if b then page_bytes va else {}) s s'"
    and "b \<Longrightarrow> x < 2 ^ 47 \<Longrightarrow> x \<in> page_bytes va \<Longrightarrow> writable_byte s' r x \<and> load s' r x = Some 0" by blast+
  show "\<not> b \<Longrightarrow> av s' \<subseteq> {fst (vm_alloc s)}" using alloc_map_fails [OF ok r va(1) _ fl] am e by auto
qed

section \<open>Ranges of pages\<close>

lemma heap_private: "x < UHEAP_END \<Longrightarrow> x < 2 ^ 47 \<and> \<not> kz_shm_va_excluded x"
  by (simp add: UHEAP_END_def kz_shm_va_excluded_def KZ_SHM_BASE_def)

lemma page_bytes_range:
  assumes "4096 dvd a"
  shows "page_bytes (a + i * 4096) = {a + i * 4096..<a + Suc i * 4096}"
proof -
  obtain m where a: "a = 4096 * m" using assms by blast
  have d: "x div 4096 = m + i \<longleftrightarrow> (m + i) * 4096 \<le> x \<and> x < Suc (m + i) * 4096" for x
    using div_nat_eqI [of "m + i" 4096 x] div_times_less_eq_dividend [of x 4096] dividend_less_div_times [of 4096 x]
    by (auto simp: mult.commute)
  have e: "(a + i * 4096) div 4096 = m + i" unfolding a by simp
  have q: "a + i * 4096 = (m + i) * 4096" "a + Suc i * 4096 = Suc (m + i) * 4096" unfolding a by simp_all
  show ?thesis unfolding e unfolding q by (simp only: d set_eq_iff mem_Collect_eq atLeastLessThan_iff simp_thms)
qed

lemma confined_undone:
  assumes "confined k R r P s s'" and "\<And>x. x \<in> P \<Longrightarrow> lookup s r x = None" and "\<And>x. x \<in> P \<Longrightarrow> lookup s' r x = None"
  shows "confined k R r {} s s'"
proof -
  have "lookup s' q x = lookup s q x" if "in_tree k R q x" for q x
    using confinedD(2) [OF assms(1) that] assms(2,3) by (cases "q = r \<and> x \<in> P") auto
  moreover have "load s' q x = load s q x" if "q \<in> R" "x < 2 ^ 47" "\<not> kz_shm_va_excluded x" for q x
    using confinedD(3) [OF assms(1) that] assms(2,3) by (cases "q = r \<and> x \<in> P") (auto simp: load_def)
  ultimately show ?thesis using confinedD(1,4) [OF assms(1)] by (simp add: confined_def)
qed

definition frames_at :: "vm \<Rightarrow> nat \<Rightarrow> nat \<Rightarrow> nat \<Rightarrow> nat set" where
  "frames_at s r a n = (\<Union>i<n. set_option (map_option pte_frame (lookup s r (a + i * 4096))))"

lemma frames_at_card: "finite (frames_at s r a n) \<and> card (frames_at s r a n) \<le> n"
proof -
  have o: "finite (set_option x) \<and> card (set_option x) \<le> 1" for x :: "nat option" by (cases x) auto
  have "card (frames_at s r a n) \<le> (\<Sum>i<n. card (set_option (map_option pte_frame (lookup s r (a + i * 4096)))))"
    unfolding frames_at_def by (rule card_UN_le) simp
  also have "\<dots> \<le> (\<Sum>i<n. 1)" using o by (intro sum_mono) blast
  finally show ?thesis using o by (simp add: frames_at_def)
qed

lemma uheap_unmap_range_ok:
  assumes run: "vm_run k s R" and r: "r \<in> R" and a: "4096 dvd a" "a + n * 4096 \<le> UHEAP_END"
  shows "confined k R r {a..<a + n * 4096} s (uheap_unmap_range r a n s)
    \<and> (\<forall>x\<in>{a..<a + n * 4096}. lookup (uheap_unmap_range r a n s) r x = None)
    \<and> av (uheap_unmap_range r a n s) = av s \<union> frames_at s r a n"
  using a(2)
proof (induction n)
  case 0
  then show ?case using confined_refl [OF run] by (simp add: uheap_unmap_range_def frames_at_def)
next
  case (Suc n)
  define t where "t = uheap_unmap_range r a n s"
  have un: "uheap_unmap_range r a (Suc n) s = uheap_unmap_page r (a + n * 4096) t" by (simp add: uheap_unmap_range_def t_def)
  have ih: "confined k R r {a..<a + n * 4096} s t" "\<forall>x\<in>{a..<a + n * 4096}. lookup t r x = None" "av t = av s \<union> frames_at s r a n"
    using Suc by (auto simp: t_def)
  have p: "a + n * 4096 < 2 ^ 47" "\<not> kz_shm_va_excluded (a + n * 4096)" using heap_private [of "a + n * 4096"] Suc.prems by auto
  note u = uheap_unmap_page_ok [OF confinedD(1) [OF ih(1)] r p]
  have sub: "{a..<a + n * 4096} \<subseteq> {a..<a + Suc n * 4096}" "page_bytes (a + n * 4096) \<subseteq> {a..<a + Suc n * 4096}"
    unfolding page_bytes_range [OF a(1)] by auto
  have l: "lookup t r (a + n * 4096) = lookup s r (a + n * 4096)"
    using r p by (intro confinedD(2) [OF ih(1)]) (auto simp: in_tree_def)
  have "lookup (uheap_unmap_page r (a + n * 4096) t) r x = None" if x: "x \<in> {a..<a + Suc n * 4096}" for x
  proof (cases "x \<in> page_bytes (a + n * 4096)")
    case True
    then show ?thesis using u(2) heap_private [of x] x Suc.prems by auto
  next
    case False
    then have "x \<in> {a..<a + n * 4096}" using x unfolding page_bytes_range [OF a(1)] by auto
    moreover have "in_tree k R r x" using heap_private [of x] x Suc.prems r by (auto simp: in_tree_def)
    ultimately show ?thesis using confinedD(2) [OF u(1)] False ih(2) by auto
  qed
  moreover have "frames_at s r a (Suc n) = frames_at s r a n \<union> set_option (map_option pte_frame (lookup s r (a + n * 4096)))"
    unfolding frames_at_def lessThan_Suc by auto
  ultimately show ?case
    unfolding un using confined_trans [OF confined_mono [OF ih(1) sub(1)] confined_mono [OF u(1) sub(2)]] u(3) ih(3) l by auto
qed

lemma mapped_one_more:
  assumes r: "r \<in> R" and a: "4096 dvd a" "a + Suc i * 4096 \<le> UHEAP_END"
    and st: "confined k R r {a..<a + i * 4096} s0 s" "\<forall>x\<in>{a..<a + i * 4096}. writable_byte s r x \<and> load s r x = Some 0"
    and new: "lookup s r (a + i * 4096) = None" and m: "uheap_map_page r (a + i * 4096) s = (True, s1)"
  shows "confined k R r {a..<a + Suc i * 4096} s0 s1"
    and "\<forall>x\<in>{a..<a + Suc i * 4096}. writable_byte s1 r x \<and> load s1 r x = Some 0"
proof -
  let ?va = "a + i * 4096"
  have p: "?va < 2 ^ 47" "\<not> kz_shm_va_excluded ?va" using heap_private [of ?va] a(2) by auto
  note mp = uheap_map_page_ok [OF confinedD(1) [OF st(1)] r p new m]
  have pb: "page_bytes ?va = {?va..<a + Suc i * 4096}" by (rule page_bytes_range [OF a(1)])
  have sub: "{a..<?va} \<subseteq> {a..<a + Suc i * 4096}" "page_bytes ?va \<subseteq> {a..<a + Suc i * 4096}" unfolding pb by auto
  show "confined k R r {a..<a + Suc i * 4096} s0 s1"
    using confined_trans [OF confined_mono [OF st(1) sub(1)] confined_mono [OF _ sub(2)]] mp(1) by simp
  show "\<forall>x\<in>{a..<a + Suc i * 4096}. writable_byte s1 r x \<and> load s1 r x = Some 0"
  proof
    fix x assume x: "x \<in> {a..<a + Suc i * 4096}"
    have priv: "x < 2 ^ 47 \<and> \<not> kz_shm_va_excluded x" using x a(2) by (intro heap_private) simp
    show "writable_byte s1 r x \<and> load s1 r x = Some 0"
    proof (cases "x \<in> page_bytes ?va")
      case False
      then have "x \<in> {a..<?va}" using x unfolding pb by auto
      moreover have "lookup s1 r x = lookup s r x" "load s1 r x = load s r x"
        using confinedD(2,3) [OF mp(1), of r x] False r priv by (auto simp: in_tree_def)
      ultimately show ?thesis using st(2) by (auto simp: writable_byte_def)
    qed (use mp(2) priv in auto)
  qed
qed

lemma uheap_map_pages_ok:
  assumes r: "r \<in> R" and a: "4096 dvd a" "a + (i + n) * 4096 \<le> UHEAP_END"
    and new: "\<forall>x\<in>{a..<a + (i + n) * 4096}. lookup s0 r x = None"
    and st: "confined k R r {a..<a + i * 4096} s0 s" "\<forall>x\<in>{a..<a + i * 4096}. writable_byte s r x \<and> load s r x = Some 0"
    and eq: "uheap_map_pages r a i n s = (b, s')"
  shows "if b then confined k R r {a..<a + (i + n) * 4096} s0 s'
      \<and> (\<forall>x\<in>{a..<a + (i + n) * 4096}. writable_byte s' r x \<and> load s' r x = Some 0)
    else confined k R r {} s0 s' \<and> card (av s') \<le> i + n"
  using a(2) new st eq
proof (induction n arbitrary: i s)
  case (Suc n)
  note le = Suc.prems(1) and new = Suc.prems(2) and st = Suc.prems(3,4)
  let ?va = "a + i * 4096"
  obtain c s1 where m: "uheap_map_page r ?va s = (c, s1)" by (cases "uheap_map_page r ?va s")
  have p: "?va < 2 ^ 47" "\<not> kz_shm_va_excluded ?va" using heap_private [of ?va] le by auto
  have "lookup s r ?va = lookup s0 r ?va" using r p by (intro confinedD(2) [OF st(1)]) (auto simp: in_tree_def)
  then have "lookup s r ?va = None" using new by auto
  note mp = uheap_map_page_ok [OF confinedD(1) [OF st(1)] r p this m]
  show ?case
  proof (cases c)
    case True
    have "a + Suc i * 4096 \<le> UHEAP_END" using le by simp
    note more = mapped_one_more [OF r a(1) this st \<open>lookup s r ?va = None\<close> m [unfolded eqTrueI [OF True]]]
    have sh: "i + Suc n = Suc i + n" by simp
    have "uheap_map_pages r a (Suc i) n s1 = (b, s')" using Suc.prems(5) m True by simp
    from Suc.IH [OF le [unfolded sh] new [unfolded sh] more this] show ?thesis unfolding sh .
  next
    case False
    have e: "b = False" "s' = uheap_unmap_range r a i s1" using Suc.prems(5) m False by auto
    have c1: "confined k R r {a..<?va} s0 s1" using confined_trans [OF st(1) confined_mono [OF mp(1)]] False by simp
    have "a + i * 4096 \<le> UHEAP_END" using le by simp
    note u = uheap_unmap_range_ok [OF confinedD(1) [OF c1] r a(1) this, folded e(2)]
    have "confined k R r {} s0 s'" using u new by (intro confined_undone [OF confined_trans [OF c1]]) auto
    moreover have "card (av s') \<le> Suc 0 + i"
    proof -
      have "av s' \<subseteq> insert (fst (vm_alloc s)) (frames_at s1 r a i)" using u mp(3) [OF False] by auto
      then have "card (av s') \<le> card (insert (fst (vm_alloc s)) (frames_at s1 r a i))"
        using frames_at_card by (intro card_mono) auto
      also have "\<dots> \<le> Suc (card (frames_at s1 r a i))" by (rule card_insert_le_m1) simp_all
      finally show ?thesis using frames_at_card [of s1 r a i] by simp
    qed
    ultimately show ?thesis using e(1) by simp
  qed
qed simp

section \<open>Flags of entries\<close>

lemma bit_low_flags: "bit (1 :: pte) n \<longleftrightarrow> n = 0" "bit (2 :: pte) n \<longleftrightarrow> n = 1" "bit (4 :: pte) n \<longleftrightarrow> n = 2"
proof -
  have m: "(2 :: pte) = push_bit 1 1" "(4 :: pte) = push_bit 2 1" by simp_all
  show "bit (1 :: pte) n \<longleftrightarrow> n = 0" by (simp add: bit_1_iff)
  show "bit (2 :: pte) n \<longleftrightarrow> n = 1" unfolding m(1) bit_push_bit_iff bit_1_iff by auto
  show "bit (4 :: pte) n \<longleftrightarrow> n = 2" unfolding m(2) bit_push_bit_iff bit_1_iff by auto
qed

lemma flags_okI:
  assumes "bit fl 0" and "\<And>n. bit fl n \<Longrightarrow> n < 7 \<or> n = 63"
  shows "flags_ok fl"
  unfolding flags_ok_def
proof (intro conjI bit_word_eqI)
  fix n assume "n < LENGTH(64)"
  show "bit (fl AND NOT (PAGING_NX OR 127)) n = bit (0 :: pte) n" unfolding pte_bits bit_low7 using assms(2) [of n] by auto
qed (rule assms(1))

end
