(* ===== verification/Uheap_Inv.thy ===== *)
theory Uheap_Inv
  imports Uheap
begin

text \<open>
  The invariant of a program's heap: the regions lie apart with a page between them, and inside the window of the heap
  a page is mapped, writable, exactly if it belongs to a region. Every operation keeps it (\<open>uheap_run\<close>), the properties
  of allocation, release and reallocation rest on it.
\<close>

section \<open>Regions\<close>

definition region_end :: "uheap_region \<Rightarrow> nat" where
  "region_end g = rg_base g + rg_pages g * 4096"

definition region_bytes :: "uheap_region \<Rightarrow> nat set" where
  "region_bytes g = {rg_base g..<region_end g}"

text \<open>Newest first, each below the bound \<open>b\<close> with a guard page in between.\<close>

fun regions_ok :: "nat \<Rightarrow> uheap_region list \<Rightarrow> bool" where
  "regions_ok b [] \<longleftrightarrow> True"
| "regions_ok b (g # gs) \<longleftrightarrow> region_end g + 4096 \<le> b \<and> UHEAP_BASE \<le> rg_base g \<and> 4096 dvd rg_base g \<and> 0 < rg_size g
    \<and> rg_size g \<le> rg_pages g * 4096 \<and> regions_ok (rg_base g) gs"

definition uheap_ok :: "vm \<Rightarrow> uheap_task \<Rightarrow> bool" where
  "uheap_ok s t \<longleftrightarrow> 4096 dvd cur_brk t \<and> UHEAP_BASE \<le> cur_brk t \<and> cur_brk t \<le> UHEAP_END \<and> regions_ok (cur_brk t) (uheap_regions t)
    \<and> (\<forall>x. UHEAP_BASE \<le> x \<longrightarrow> x < UHEAP_END \<longrightarrow>
        (if \<exists>g\<in>set (uheap_regions t). x \<in> region_bytes g then writable_byte s (pml4_phys t) x else lookup s (pml4_phys t) x = None))"

lemma regions_ok_mono: "regions_ok b gs \<Longrightarrow> b \<le> b' \<Longrightarrow> regions_ok b' gs"
  by (cases gs) auto

lemma regions_ok_below:
  "regions_ok b gs \<Longrightarrow> g \<in> set gs \<Longrightarrow> region_end g + 4096 \<le> b \<and> UHEAP_BASE \<le> rg_base g \<and> 4096 dvd rg_base g \<and> 0 < rg_size g
    \<and> rg_size g \<le> rg_pages g * 4096"
proof (induction gs arbitrary: b)
  case (Cons h gs)
  have "rg_base h \<le> b" using Cons.prems(1) by (simp add: region_end_def)
  then show ?case using Cons.IH [of "rg_base h"] Cons.prems by fastforce
qed simp

lemma regions_ok_remove:
  "regions_ok b (xs @ g # ys) \<Longrightarrow> regions_ok b (xs @ ys)"
proof (induction xs arbitrary: b)
  case Nil
  then have "regions_ok (rg_base g) ys" "rg_base g \<le> b" by (simp_all add: region_end_def)
  then show ?case using regions_ok_mono by simp
qed simp

lemma regions_ok_apart:
  "regions_ok b (xs @ g # ys) \<Longrightarrow> h \<in> set (xs @ ys) \<Longrightarrow> region_end h + 4096 \<le> rg_base g \<or> region_end g + 4096 \<le> rg_base h"
proof (induction xs arbitrary: b)
  case Nil
  then show ?case using regions_ok_below [of "rg_base g" ys h] by simp
next
  case (Cons a xs)
  then show ?case using regions_ok_below [of "rg_base a" "xs @ g # ys" g] by (cases "h = a") auto
qed

lemma regions_ok_disjoint:
  assumes "regions_ok b (xs @ g # ys)" and "x \<in> region_bytes g"
  shows "\<not> (\<exists>h\<in>set (xs @ ys). x \<in> region_bytes h)"
  using regions_ok_apart [OF assms(1)] assms(2) unfolding region_bytes_def by fastforce

lemma unlink_region_None: "unlink_region a gs = None \<longleftrightarrow> (\<forall>g\<in>set gs. rg_base g \<noteq> a)"
  by (induction gs) (auto split: option.splits)

lemma unlink_region_Some:
  "unlink_region a gs = Some (g, gs') \<Longrightarrow> \<exists>xs ys. gs = xs @ g # ys \<and> gs' = xs @ ys \<and> rg_base g = a"
proof (induction gs arbitrary: gs')
  case (Cons h gs)
  show ?case
  proof (cases "rg_base h = a")
    case True
    then show ?thesis using Cons.prems by (intro exI [of _ "[]"] exI [of _ gs]) simp
  next
    case False
    then obtain hs where u: "unlink_region a gs = Some (g, hs)" and gs': "gs' = h # hs"
      using Cons.prems by (cases "unlink_region a gs") auto
    from Cons.IH [OF u] obtain xs ys where "gs = xs @ g # ys" "hs = xs @ ys" "rg_base g = a" by blast
    then show ?thesis using gs' by (intro exI [of _ "h # xs"] exI [of _ ys]) simp
  qed
qed simp

lemma uheap_okD:
  assumes "uheap_ok s t"
  shows "4096 dvd cur_brk t" and "UHEAP_BASE \<le> cur_brk t" and "cur_brk t \<le> UHEAP_END" and "regions_ok (cur_brk t) (uheap_regions t)"
    and "\<And>x g. g \<in> set (uheap_regions t) \<Longrightarrow> x \<in> region_bytes g \<Longrightarrow> writable_byte s (pml4_phys t) x"
    and "\<And>x. UHEAP_BASE \<le> x \<Longrightarrow> x < UHEAP_END \<Longrightarrow> \<not> (\<exists>g\<in>set (uheap_regions t). x \<in> region_bytes g) \<Longrightarrow>
      lookup s (pml4_phys t) x = None"
proof -
  show 1: "4096 dvd cur_brk t" "UHEAP_BASE \<le> cur_brk t" "cur_brk t \<le> UHEAP_END" "regions_ok (cur_brk t) (uheap_regions t)"
    using assms by (simp_all add: uheap_ok_def)
  have win: "if \<exists>g\<in>set (uheap_regions t). x \<in> region_bytes g then writable_byte s (pml4_phys t) x else lookup s (pml4_phys t) x = None"
    if "UHEAP_BASE \<le> x" "x < UHEAP_END" for x using assms that by (simp add: uheap_ok_def)
  show "writable_byte s (pml4_phys t) x" if "g \<in> set (uheap_regions t)" "x \<in> region_bytes g" for x g
  proof -
    have "UHEAP_BASE \<le> x" "x < UHEAP_END" using regions_ok_below [OF 1(4) that(1)] that(2) 1(3) by (auto simp: region_bytes_def)
    from win [OF this] that show ?thesis by (auto split: if_splits)
  qed
  show "lookup s (pml4_phys t) x = None" if "UHEAP_BASE \<le> x" "x < UHEAP_END" "\<not> (\<exists>g\<in>set (uheap_regions t). x \<in> region_bytes g)" for x
    using win [OF that(1,2)] that(3) by simp
qed

text \<open>A change outside the regions and back to nothing mapped.\<close>

lemma uheap_ok_confined:
  assumes "uheap_ok s t" and "pml4_phys t \<in> R" and "confined k R (pml4_phys t) P s s'"
    and "pml4_phys t' = pml4_phys t" "4096 dvd cur_brk t'" "UHEAP_BASE \<le> cur_brk t'" "cur_brk t' \<le> UHEAP_END"
      "regions_ok (cur_brk t') (uheap_regions t')"
    and "\<And>x. x \<notin> P \<Longrightarrow> (\<exists>g\<in>set (uheap_regions t'). x \<in> region_bytes g) \<longleftrightarrow> (\<exists>g\<in>set (uheap_regions t). x \<in> region_bytes g)"
    and "\<And>x. x \<in> P \<Longrightarrow> x < UHEAP_END \<Longrightarrow> if \<exists>g\<in>set (uheap_regions t'). x \<in> region_bytes g then writable_byte s' (pml4_phys t) x
      else lookup s' (pml4_phys t) x = None"
  shows "uheap_ok s' t'"
proof -
  have "lookup s' (pml4_phys t) x = lookup s (pml4_phys t) x" if "x < UHEAP_END" "x \<notin> P" for x
    using confinedD(2) [OF assms(3)] heap_private [OF that(1)] that(2) assms(2) by (auto simp: in_tree_def)
  then have w: "writable_byte s' (pml4_phys t) x = writable_byte s (pml4_phys t) x"
    "lookup s' (pml4_phys t) x = lookup s (pml4_phys t) x" if "x < UHEAP_END" "x \<notin> P" for x
    using that by (auto simp: writable_byte_def)
  have "if \<exists>g\<in>set (uheap_regions t'). x \<in> region_bytes g then writable_byte s' (pml4_phys t) x else lookup s' (pml4_phys t) x = None"
    if x: "UHEAP_BASE \<le> x" "x < UHEAP_END" for x
    using uheap_okD(5) [OF assms(1)] uheap_okD(6) [OF assms(1) x] x w [OF x(2)] assms(9) [of x] assms(10) [of x]
    by (cases "x \<in> P") auto
  then show ?thesis using assms(4-8) by (simp add: uheap_ok_def)
qed

section \<open>Operations\<close>

lemma uheap_free_cases:
  assumes run: "vm_run k s R" and r: "pml4_phys t \<in> R" and ok: "uheap_ok s t" and eq: "uheap_free t a s = (b, t', s')"
  obtains (no) "\<not> b" "t' = t" "s' = s" "\<forall>g\<in>set (uheap_regions t). rg_base g \<noteq> a"
  | (yes) g xs ys where "b" "uheap_regions t = xs @ g # ys" "rg_base g = a" "t' = t\<lparr>uheap_regions := xs @ ys\<rparr>"
      "confined k R (pml4_phys t) (region_bytes g) s s'" "av s' = av s \<union> frames_at s (pml4_phys t) a (rg_pages g)"
      "\<forall>x\<in>region_bytes g. lookup s' (pml4_phys t) x = None" "uheap_ok s' t'"
proof -
  have base: "rg_base g \<noteq> 0" if "g \<in> set (uheap_regions t)" for g
    using regions_ok_below [OF uheap_okD(4) [OF ok] that] by (simp add: UHEAP_BASE_def)
  show thesis
  proof (cases "a = 0 \<or> unlink_region a (uheap_regions t) = None")
    case True
    then have "\<forall>g\<in>set (uheap_regions t). rg_base g \<noteq> a" using base unlink_region_None by metis
    moreover have "\<not> b \<and> t' = t \<and> s' = s" using True eq by (auto simp: uheap_free_def split: if_splits)
    ultimately show ?thesis using no by blast
  next
    case False
    then obtain g gs where u: "unlink_region a (uheap_regions t) = Some (g, gs)" by auto
    obtain xs ys where g: "uheap_regions t = xs @ g # ys" "gs = xs @ ys" "rg_base g = a" using unlink_region_Some [OF u] by blast
    have e: "b" "t' = t\<lparr>uheap_regions := xs @ ys\<rparr>" "s' = uheap_unmap_range (pml4_phys t) a (rg_pages g) s"
      using eq u False g by (auto simp: uheap_free_def)
    note rk = uheap_okD(4) [OF ok, unfolded g(1)]
    have brk: "cur_brk t' = cur_brk t" "uheap_regions t' = xs @ ys" "pml4_phys t' = pml4_phys t" using e(2) by (simp_all add: cur_brk_def)
    have gb: "4096 dvd a" "a + rg_pages g * 4096 \<le> UHEAP_END"
      using regions_ok_below [OF rk, of g] uheap_okD(3) [OF ok] g(3) by (auto simp: region_end_def)
    have rb: "{a..<a + rg_pages g * 4096} = region_bytes g" using g(3) by (simp add: region_bytes_def region_end_def)
    note um = uheap_unmap_range_ok [OF run r gb, folded e(3), unfolded rb]
    have "uheap_ok s' t'"
    proof (rule uheap_ok_confined [OF ok r, of k "region_bytes g"])
      show "confined k R (pml4_phys t) (region_bytes g) s s'" using um by blast
      show "regions_ok (cur_brk t') (uheap_regions t')" unfolding brk by (rule regions_ok_remove [OF rk])
      show "if \<exists>h\<in>set (uheap_regions t'). x \<in> region_bytes h then writable_byte s' (pml4_phys t) x else lookup s' (pml4_phys t) x = None"
        if "x \<in> region_bytes g" for x using regions_ok_disjoint [OF rk that] um that brk(2) by simp
    qed (use uheap_okD(1-3) [OF ok] g(1) in \<open>auto simp: brk\<close>)
    then show ?thesis using yes e um g by blast
  qed
qed

abbreviation pages_for :: "nat \<Rightarrow> nat" where
  "pages_for sz \<equiv> (sz + 4095) div 4096"

lemma pages_for_bounds: "0 < sz \<Longrightarrow> 0 < pages_for sz \<and> sz \<le> pages_for sz * 4096"
  by (simp add: div_greater_zero_iff)

lemma uheap_alloc_cases:
  assumes run: "vm_run k s R" and r: "pml4_phys t \<in> R" and ok: "uheap_ok s t" and eq: "uheap_alloc kn t sz s = (a, t', s')"
  obtains (no) "a = 0" "t' = t" "confined k R (pml4_phys t) {} s s'" "uheap_ok s' t"
      "sz = 0 \<or> UHEAP_MAX_ALLOC < sz \<or> UHEAP_END < cur_brk t + pages_for sz * 4096 + 4096 \<or> \<not> kn \<or> card (av s') \<le> pages_for sz"
  | (yes) "a = cur_brk t" "0 < sz" "sz \<le> UHEAP_MAX_ALLOC" "a + pages_for sz * 4096 + 4096 \<le> UHEAP_END"
      "t' = t\<lparr>uheap_regions := \<lparr>rg_base = a, rg_size = sz, rg_pages = pages_for sz\<rparr> # uheap_regions t, uheap_brk := a + pages_for sz * 4096 + 4096\<rparr>"
      "confined k R (pml4_phys t) {a..<a + pages_for sz * 4096} s s'"
      "\<forall>x\<in>{a..<a + pages_for sz * 4096}. lookup s (pml4_phys t) x = None \<and> writable_byte s' (pml4_phys t) x \<and> load s' (pml4_phys t) x = Some 0"
      "uheap_ok s' t'"
proof -
  define n where "n = pages_for sz"
  have r0: "pml4_phys t \<noteq> PHYS_NULL" using root_nonzero [OF vm_run_ok [OF run], of "pml4_phys t" 0] r by (simp add: in_tree_def)
  show thesis
  proof (cases "sz = 0 \<or> UHEAP_MAX_ALLOC < sz \<or> UHEAP_END < cur_brk t + n * 4096 + 4096 \<or> \<not> kn")
    case True
    then have "a = 0 \<and> t' = t \<and> s' = s" using eq r0 by (auto simp: uheap_alloc_def Let_def n_def split: if_splits)
    then show ?thesis using no confined_refl [OF run] ok True unfolding n_def by blast
  next
    case False
    let ?b = "cur_brk t"
    obtain c s1 where m: "uheap_map_pages (pml4_phys t) ?b 0 n s = (c, s1)" by (cases "uheap_map_pages (pml4_phys t) ?b 0 n s")
    have s1: "s' = s1" "a = (if c then ?b else 0)"
      "t' = (if c then t\<lparr>uheap_regions := \<lparr>rg_base = ?b, rg_size = sz, rg_pages = n\<rparr> # uheap_regions t, uheap_brk := ?b + n * 4096 + 4096\<rparr> else t)"
      using eq r0 False m by (auto simp: uheap_alloc_def Let_def n_def split: bool.splits if_splits)
    have fit: "?b + n * 4096 + 4096 \<le> UHEAP_END" using False by simp
    have new: "\<forall>x\<in>{?b..<?b + n * 4096}. lookup s (pml4_phys t) x = None"
    proof
      fix x assume x: "x \<in> {?b..<?b + n * 4096}"
      have "x \<notin> region_bytes g" if "g \<in> set (uheap_regions t)" for g
        using regions_ok_below [OF uheap_okD(4) [OF ok] that] x by (auto simp: region_bytes_def)
      then show "lookup s (pml4_phys t) x = None" using uheap_okD(2) [OF ok] x fit by (intro uheap_okD(6) [OF ok]) auto
    qed
    have c0: "confined k R (pml4_phys t) {?b..<?b + 0 * 4096} s s" by (rule confined_refl [OF run])
    have "?b + (0 + n) * 4096 \<le> UHEAP_END" using fit by simp
    note mp = uheap_map_pages_ok [OF r uheap_okD(1) [OF ok] this _ c0 _ m, unfolded add_0, OF new]
    show ?thesis
    proof (cases c)
      case True
      have mp: "confined k R (pml4_phys t) {?b..<?b + n * 4096} s s'"
        "\<forall>x\<in>{?b..<?b + n * 4096}. writable_byte s' (pml4_phys t) x \<and> load s' (pml4_phys t) x = Some 0"
        using mp True s1(1) by auto
      have t': "cur_brk t' = ?b + n * 4096 + 4096" "uheap_regions t' = \<lparr>rg_base = ?b, rg_size = sz, rg_pages = n\<rparr> # uheap_regions t"
        "pml4_phys t' = pml4_phys t" using s1(3) True by (simp_all add: cur_brk_def)
      have nb: "region_bytes \<lparr>rg_base = ?b, rg_size = sz, rg_pages = n\<rparr> = {?b..<?b + n * 4096}"
        by (simp add: region_bytes_def region_end_def)
      have "uheap_ok s' t'"
      proof (rule uheap_ok_confined [OF ok r mp(1)])
        show "regions_ok (cur_brk t') (uheap_regions t')"
          unfolding t' using uheap_okD(1,2,4) [OF ok] pages_for_bounds [of sz] False by (simp add: region_end_def n_def)
      qed (use uheap_okD(1-3) [OF ok] fit mp(2) in \<open>auto simp: t' nb\<close>)
      then show ?thesis using yes mp new s1 True False fit unfolding n_def by auto
    next
      case f: False
      have cf: "confined k R (pml4_phys t) {} s s'" "card (av s') \<le> n" using mp f s1(1) by auto
      have "uheap_ok s' t" by (rule uheap_ok_confined [OF ok r cf(1)]) (use uheap_okD(1-4) [OF ok] in auto)
      then show ?thesis using no cf s1 f unfolding n_def by simp
    qed
  qed
qed

lemma uheap_ok_lookup:
  assumes "uheap_ok s t" and "\<And>x. x < UHEAP_END \<Longrightarrow> lookup s' (pml4_phys t) x = lookup s (pml4_phys t) x"
  shows "uheap_ok s' t"
proof -
  have "writable_byte s' (pml4_phys t) x = writable_byte s (pml4_phys t) x" if "x < UHEAP_END" for x
    using assms(2) [OF that] by (simp add: writable_byte_def)
  then show ?thesis using assms unfolding uheap_ok_def by auto
qed

lemma write_bytes_confined:
  assumes "vm_run k s R" and "r \<in> R" and "\<And>i. i < length bs \<Longrightarrow> writable_byte s r (a + i)"
  obtains s' where "write_bytes (store r) a bs s = Done s'" and "confined k R r {a..<a + length bs} s s'"
    and "\<And>q x. in_tree k R q x \<Longrightarrow> lookup s' q x = lookup s q x" and "\<And>i. i < length bs \<Longrightarrow> load s' r (a + i) = Some (bs ! i)"
proof -
  obtain s' where s': "write_bytes (store r) a bs s = Done s'" "vm_run k s' R" "av s' = av s" "owned k s' R = owned k s R"
    "\<And>q x. in_tree k R q x \<Longrightarrow> lookup s' q x = lookup s q x"
    "\<And>q x. q \<in> R \<Longrightarrow> x < 2 ^ 47 \<Longrightarrow> \<not> kz_shm_va_excluded x \<Longrightarrow>
      load s' q x = (if q = r \<and> a \<le> x \<and> x < a + length bs then Some (bs ! (x - a)) else load s q x)"
    using write_bytes_Done [OF assms] by metis
  have "confined k R r {a..<a + length bs} s s'" using s'(2-6) by (auto simp: confined_def)
  moreover have "load s' r (a + i) = Some (bs ! i)" if "i < length bs" for i
    using s'(6) [OF assms(2), of "a + i"] assms(3) [OF that] that by (simp add: writable_byte_def)
  ultimately show thesis using that s'(1,5) by blast
qed

lemma regions_ok_unique:
  assumes "regions_ok b gs" and "g \<in> set gs" "h \<in> set gs" "rg_base g = rg_base h"
  shows "g = h"
proof (rule ccontr)
  assume "g \<noteq> h"
  obtain xs ys where gs: "gs = xs @ g # ys" using assms(2) by (meson split_list)
  then have "h \<in> set (xs @ ys)" using assms(3) \<open>g \<noteq> h\<close> by auto
  then show False using regions_ok_apart [OF assms(1) [unfolded gs]] assms(4) by (force simp: region_end_def)
qed

lemma resize_regions:
  assumes "regions_ok b gs" and "g \<in> set gs" "rg_base g = a" and "0 < sz" "sz \<le> rg_pages g * 4096"
  shows "regions_ok b (resize_region a sz gs)" and "\<exists>h\<in>set (resize_region a sz gs). rg_base h = a \<and> rg_size h = sz"
    and "region_bytes ` set (resize_region a sz gs) = region_bytes ` set gs"
proof -
  have "regions_ok b (resize_region a sz gs) \<and> (\<exists>h\<in>set (resize_region a sz gs). rg_base h = a \<and> rg_size h = sz)
    \<and> region_bytes ` set (resize_region a sz gs) = region_bytes ` set gs"
    using assms
  proof (induction gs arbitrary: b)
    case (Cons h gs)
    show ?case
    proof (cases "rg_base h = a")
      case True
      then have "g = h" using regions_ok_unique [OF Cons.prems(1,2), of h] Cons.prems(3) by simp
      then show ?thesis using Cons.prems True by (simp add: region_end_def region_bytes_def)
    next
      case False
      then show ?thesis using Cons.IH [of "rg_base h"] Cons.prems by auto
    qed
  qed simp
  then show "regions_ok b (resize_region a sz gs)" and "\<exists>h\<in>set (resize_region a sz gs). rg_base h = a \<and> rg_size h = sz"
    and "region_bytes ` set (resize_region a sz gs) = region_bytes ` set gs" by blast+
qed

lemma resize_ok:
  assumes "uheap_ok s t" and "g \<in> set (uheap_regions t)" "rg_base g = a" and "0 < sz" "sz \<le> rg_pages g * 4096"
  shows "uheap_ok s (t\<lparr>uheap_regions := resize_region a sz (uheap_regions t)\<rparr>)"
proof -
  note rr = resize_regions [OF uheap_okD(4) [OF assms(1)] assms(2-5)]
  have b: "(\<exists>h\<in>set (resize_region a sz (uheap_regions t)). x \<in> region_bytes h) \<longleftrightarrow> (\<exists>h\<in>set (uheap_regions t). x \<in> region_bytes h)" for x
    using rr(3) by (metis (no_types, lifting) image_iff)
  have c: "cur_brk (t\<lparr>uheap_regions := resize_region a sz (uheap_regions t)\<rparr>) = cur_brk t" by (simp add: cur_brk_def)
  show ?thesis using assms(1) rr(1) unfolding uheap_ok_def c by (simp add: b)
qed

lemma copied_bytes:
  assumes run: "vm_run k s R" and r: "r \<in> R" and w: "\<And>i. i < n \<Longrightarrow> writable_byte s r (a + i)" "\<And>i. i < n \<Longrightarrow> writable_byte s r (p + i)"
  obtains bs s' where "read_bytes (load s r) a n = Done bs" and "write_bytes (store r) p bs s = Done s'"
    and "confined k R r {p..<p + n} s s'" and "\<And>q x. in_tree k R q x \<Longrightarrow> lookup s' q x = lookup s q x"
    and "\<And>i. i < n \<Longrightarrow> load s' r (p + i) = load s r (a + i)"
proof -
  let ?bs = "map (\<lambda>i. the (load s r (a + i))) [0..<n]"
  have l: "load s r (a + i) \<noteq> None" if "i < n" for i using w(1) [OF that] by (auto simp: writable_byte_def load_def)
  have rb: "read_bytes (load s r) a n = Done ?bs" by (rule read_bytes_Done) (rule l)
  have len: "length ?bs = n" by simp
  obtain s' where s': "write_bytes (store r) p ?bs s = Done s'" "confined k R r {p..<p + n} s s'"
    "\<And>q x. in_tree k R q x \<Longrightarrow> lookup s' q x = lookup s q x" "\<And>i. i < n \<Longrightarrow> load s' r (p + i) = Some (?bs ! i)"
    using write_bytes_confined [OF run r, of ?bs p, unfolded len] w(2) by metis
  have "load s' r (p + i) = load s r (a + i)" if "i < n" for i using s'(4) [OF that] l [OF that] that by auto
  then show thesis using that rb s'(1-3) by blast
qed

lemma realloc_move:
  assumes run: "vm_run k s R" and r: "pml4_phys t \<in> R" and ok: "uheap_ok s t" and g: "g \<in> set (uheap_regions t)" "rg_base g = a"
    and al: "uheap_alloc kn t sz s = (p, t1, s1)" "p \<noteq> 0" and n: "n \<le> rg_size g" "n \<le> sz"
  obtains bs s2 t3 s3 where "read_bytes (load s1 (pml4_phys t)) a n = Done bs" and "write_bytes (store (pml4_phys t)) p bs s1 = Done s2"
    and "uheap_free t1 a s2 = (True, t3, s3)" and "confined k R (pml4_phys t) (region_bytes g \<union> {p..<p + pages_for sz * 4096}) s s3"
    and "uheap_ok s3 t3" and "pml4_phys t3 = pml4_phys t" and "\<forall>i<n. load s3 (pml4_phys t) (p + i) = load s (pml4_phys t) (a + i)"
    and "\<exists>h\<in>set (uheap_regions t3). rg_base h = p \<and> rg_size h = sz"
  using run r ok al(1)
proof (cases rule: uheap_alloc_cases)
  case yes
  let ?r = "pml4_phys t" and ?new = "\<lparr>rg_base = p, rg_size = sz, rg_pages = pages_for sz\<rparr>"
  have t1: "uheap_regions t1 = ?new # uheap_regions t" "pml4_phys t1 = ?r" using yes(5) by simp_all
  have nb: "region_bytes ?new = {p..<p + pages_for sz * 4096}" by (simp add: region_bytes_def region_end_def)
  have gb: "region_end g + 4096 \<le> p" "rg_size g \<le> rg_pages g * 4096" using regions_ok_below [OF uheap_okD(4) [OF ok] g(1)] yes(1) by auto
  have ga: "a + i \<in> region_bytes g" if "i < n" for i using that n(1) gb(2) g(2) by (auto simp: region_bytes_def region_end_def)
  have pa: "p + i \<in> region_bytes ?new" if "i < n" for i using that n(2) pages_for_bounds [OF yes(2)] nb by auto
  have w: "writable_byte s1 ?r (a + i)" "writable_byte s1 ?r (p + i)" if "i < n" for i
    using uheap_okD(5) [OF yes(8), unfolded t1] g(1) ga [OF that] pa [OF that] by auto
  obtain bs s2 where cp: "read_bytes (load s1 ?r) a n = Done bs" "write_bytes (store ?r) p bs s1 = Done s2"
    "confined k R ?r {p..<p + n} s1 s2" "\<And>q x. in_tree k R q x \<Longrightarrow> lookup s2 q x = lookup s1 q x"
    "\<And>i. i < n \<Longrightarrow> load s2 ?r (p + i) = load s1 ?r (a + i)"
    by (rule copied_bytes [OF confinedD(1) [OF yes(6)] r w]) blast+
  have ok2: "uheap_ok s2 t1" using cp(4) heap_private r by (intro uheap_ok_lookup [OF yes(8)]) (auto simp: in_tree_def t1(2))
  have sub: "{p..<p + n} \<subseteq> {p..<p + pages_for sz * 4096}" using n(2) pages_for_bounds [OF yes(2)] by auto
  have c2: "confined k R ?r {p..<p + pages_for sz * 4096} s s2" by (rule confined_trans [OF yes(6) confined_mono [OF cp(3) sub]])
  obtain b t3 s3 where f: "uheap_free t1 a s2 = (b, t3, s3)" by (cases "uheap_free t1 a s2")
  have r1: "pml4_phys t1 \<in> R" using r t1(2) by simp
  show thesis using confinedD(1) [OF c2] r1 ok2 f
  proof (cases rule: uheap_free_cases)
    case no
    then show ?thesis using g t1(1) by simp
  next
    case (yes h xs ys)
    have "h \<in> set (uheap_regions t1)" unfolding yes(2) by simp
    moreover have "g \<in> set (uheap_regions t1)" unfolding t1(1) using g(1) by simp
    ultimately have hg: "h = g" using regions_ok_unique [OF uheap_okD(4) [OF ok2]] yes(3) g(2) by simp
    have new: "?new \<in> set (xs @ ys)"
    proof -
      have "?new \<in> set (xs @ h # ys)" using yes(2) t1(1) by (metis list.set_intros(1))
      moreover have "rg_base h \<noteq> p" using gb(1) g(2) yes(3) by (auto simp: region_end_def)
      ultimately show ?thesis by auto
    qed
    have c3: "confined k R ?r (region_bytes g) s2 s3" using yes(5) t1(2) hg by simp
    have "load s3 ?r (p + i) = load s ?r (a + i)" if i: "i < n" for i
    proof -
      have "p + i \<notin> region_bytes h" using regions_ok_apart [OF uheap_okD(4) [OF ok2, unfolded yes(2)] new] pa [OF i]
        unfolding region_bytes_def by auto
      then have "load s3 ?r (p + i) = load s2 ?r (p + i)"
        using confinedD(3) [OF c3 r, of "p + i"] w(2) [OF i] hg by (simp add: writable_byte_def)
      moreover have "load s1 ?r (a + i) = load s ?r (a + i)"
        using confinedD(3) [OF \<open>confined k R ?r {p..<p + pages_for sz * 4096} s s1\<close> r, of "a + i"] w(1) [OF i] ga [OF i] gb(1)
        by (auto simp: writable_byte_def region_bytes_def)
      ultimately show ?thesis using cp(5) [OF i] by simp
    qed
    moreover have "confined k R ?r (region_bytes g \<union> {p..<p + pages_for sz * 4096}) s s3"
      by (rule confined_trans [OF confined_mono [OF c2] confined_mono [OF c3]]) auto
    moreover have "\<exists>h\<in>set (uheap_regions t3). rg_base h = p \<and> rg_size h = sz" using new yes(4) by (intro bexI [of _ ?new]) simp_all
    ultimately show ?thesis using that cp(1,2) f yes(1,4,8) t1(2) by simp
  qed
qed (use al(2) in simp)

lemma uheap_realloc_spec:
  assumes run: "vm_run k s R" and r: "pml4_phys t \<in> R" and ok: "uheap_ok s t"
  obtains p t' s' where "uheap_realloc kn t a sz s = Done (p, t', s')" and "vm_run k s' R" and "pml4_phys t' = pml4_phys t"
    and "uheap_ok s' t'" and "a \<noteq> 0 \<Longrightarrow> sz \<noteq> 0 \<Longrightarrow> p = 0 \<Longrightarrow> t' = t \<and> confined k R (pml4_phys t) {} s s'"
    and "a \<noteq> 0 \<Longrightarrow> p \<noteq> 0 \<Longrightarrow> \<exists>g\<in>set (uheap_regions t). rg_base g = a
      \<and> (\<forall>i<min (rg_size g) sz. load s' (pml4_phys t) (p + i) = load s (pml4_phys t) (a + i))
      \<and> (\<exists>h\<in>set (uheap_regions t'). rg_base h = p \<and> rg_size h = sz)
      \<and> confined k R (pml4_phys t) (region_bytes g \<union> {p..<p + pages_for sz * 4096}) s s'"
proof (cases "a = 0 \<or> sz = 0 \<or> UHEAP_MAX_ALLOC < sz \<or> (\<forall>g\<in>set (uheap_regions t). rg_base g \<noteq> a)")
  case True
  obtain p1 t1 s1 where al: "uheap_alloc kn t sz s = (p1, t1, s1)" by (cases "uheap_alloc kn t sz s")
  obtain b2 t2 s2 where fr: "uheap_free t a s = (b2, t2, s2)" by (cases "uheap_free t a s")
  have a1: "vm_run k s1 R \<and> pml4_phys t1 = pml4_phys t \<and> uheap_ok s1 t1" using run r ok al
    by (cases rule: uheap_alloc_cases) (auto dest: confinedD(1))
  have f1: "vm_run k s2 R \<and> pml4_phys t2 = pml4_phys t \<and> uheap_ok s2 t2" using run r ok fr
    by (cases rule: uheap_free_cases) (use run ok in \<open>auto dest: confinedD(1)\<close>)
  define F where "F \<longleftrightarrow> find (\<lambda>g. rg_base g = a) (uheap_regions t) = None"
  have none: "(\<forall>g\<in>set (uheap_regions t). rg_base g \<noteq> a) = F" by (auto simp: F_def find_None_iff)
  consider (zero) "a = 0" | (free) "a \<noteq> 0" "sz = 0"
    | (refused) "a \<noteq> 0" "sz \<noteq> 0" "UHEAP_MAX_ALLOC < sz \<or> F" using True [unfolded none] by blast
  then show thesis
  proof cases
    case zero
    then have "uheap_realloc kn t a sz s = Done (p1, t1, s1)" using al by (simp add: uheap_realloc_def)
    then show ?thesis using that a1 zero by blast
  next
    case free
    then have "uheap_realloc kn t a sz s = Done (0, t2, s2)" using fr by (simp add: uheap_realloc_def)
    then show ?thesis using that f1 free by blast
  next
    case refused
    then have "uheap_realloc kn t a sz s = Done (0, t, s)" by (auto simp: uheap_realloc_def F_def)
    then show ?thesis using that run ok confined_refl [OF run] by blast
  qed
next
  case False
  then have "find (\<lambda>g. rg_base g = a) (uheap_regions t) \<noteq> None" by (auto simp: find_None_iff)
  then obtain g where f: "find (\<lambda>g. rg_base g = a) (uheap_regions t) = Some g" by blast
  have g: "g \<in> set (uheap_regions t)" "rg_base g = a" using f by (auto simp: find_Some_iff)
  note rk = uheap_okD(4) [OF ok]
  show thesis
  proof (cases "sz \<le> rg_pages g * 4096")
    case True
    then have "uheap_realloc kn t a sz s = Done (a, t\<lparr>uheap_regions := resize_region a sz (uheap_regions t)\<rparr>, s)"
      using False f g(2) by (simp add: uheap_realloc_def)
    moreover have "uheap_ok s (t\<lparr>uheap_regions := resize_region a sz (uheap_regions t)\<rparr>)" using True False by (intro resize_ok [OF ok g]) auto
    moreover have "\<exists>h\<in>set (resize_region a sz (uheap_regions t)). rg_base h = a \<and> rg_size h = sz"
      using True False by (intro resize_regions(2) [OF rk g]) auto
    ultimately show ?thesis using run g False confined_refl [OF run] by (intro that) auto
  next
    case big: False
    obtain p t1 s1 where al: "uheap_alloc kn t sz s = (p, t1, s1)" by (cases "uheap_alloc kn t sz s")
    let ?n = "if rg_size g < sz then rg_size g else sz"
    have re: "uheap_realloc kn t a sz s = (if p = 0 then Done (0, t1, s1) else
        case read_bytes (load s1 (pml4_phys t)) a ?n of Fault \<Rightarrow> Fault
        | Done bs \<Rightarrow> (case write_bytes (store (pml4_phys t)) p bs s1 of Fault \<Rightarrow> Fault
           | Done s2 \<Rightarrow> (case uheap_free t1 a s2 of (_, t3, s3) \<Rightarrow> Done (p, t3, s3))))"
      using False f big al by (simp add: uheap_realloc_def Let_def)
    show ?thesis
    proof (cases "p = 0")
      case True
      have "t1 = t \<and> confined k R (pml4_phys t) {} s s1 \<and> uheap_ok s1 t" using run r ok al
      proof (cases rule: uheap_alloc_cases)
        case yes
        then show ?thesis using True uheap_okD(2) [OF ok] by (simp add: UHEAP_BASE_def)
      qed simp
      then show ?thesis using re True by (intro that) (auto dest: confinedD(1))
    next
      case p: False
      obtain bs s2 t3 s3 where m: "read_bytes (load s1 (pml4_phys t)) a ?n = Done bs" "write_bytes (store (pml4_phys t)) p bs s1 = Done s2"
        "uheap_free t1 a s2 = (True, t3, s3)" "confined k R (pml4_phys t) (region_bytes g \<union> {p..<p + pages_for sz * 4096}) s s3"
        "uheap_ok s3 t3" "pml4_phys t3 = pml4_phys t" "\<forall>i<?n. load s3 (pml4_phys t) (p + i) = load s (pml4_phys t) (a + i)"
        "\<exists>h\<in>set (uheap_regions t3). rg_base h = p \<and> rg_size h = sz"
        by (rule realloc_move [OF run r ok g al p, of ?n]) auto
      have "?n = min (rg_size g) sz" by simp
      then show ?thesis using re m p g confinedD(1) [OF m(4)] by (intro that) auto
    qed
  qed
qed

lemma clone_nodes_eq: "clone_nodes kn i gs = (if \<forall>j<length gs. kn (i + j) then Some gs else None)"
proof (induction gs arbitrary: i)
  case (Cons g gs)
  have "(\<forall>j<length (g # gs). kn (i + j)) \<longleftrightarrow> kn i \<and> (\<forall>j<length gs. kn (Suc i + j))" by (simp add: All_less_Suc2)
  then show ?case using Cons.IH [of "Suc i"] by auto
qed simp

text \<open>The heap of the child of a fork.\<close>

lemma fork_heap:
  assumes run: "vm_run k s R" and r: "pml4_phys t \<in> R" and ok: "uheap_ok s t"
    and cl: "vmm_clone_user_as (pml4_phys t) s = (c, s')" "c \<noteq> PHYS_NULL" and d: "uheap_clone kn d t = (True, t')" "pml4_phys d = c"
  shows "vm_run k s' (insert c R)" and "pml4_phys t' = c" and "uheap_regions t' = uheap_regions t" and "uheap_ok s' t'"
    and "\<And>x. UHEAP_BASE \<le> x \<Longrightarrow> x < UHEAP_END \<Longrightarrow> load s' c x = load s (pml4_phys t) x"
proof -
  note co = clone_ok [OF vm_run_ok [OF run] r cl(1) cl(2) [unfolded PHYS_NULL_def]]
  show "vm_run k s' (insert c R)" using vm_run.clone [OF run r cl(1)] cl(2) by simp
  have t': "t' = d\<lparr>uheap_brk := uheap_brk t, uheap_regions := uheap_regions t\<rparr>"
    using d(1) by (auto simp: uheap_clone_def clone_nodes_eq split: if_splits)
  then show p: "pml4_phys t' = c" and g: "uheap_regions t' = uheap_regions t" using d(2) by simp_all
  have view: "case lookup s (pml4_phys t) x of None \<Rightarrow> lookup s' c x = None
    | Some e \<Rightarrow> (\<exists>e'. lookup s' c x = Some e' \<and> pte_flags e' = pte_flags e \<and> phys s' (pte_frame e') = phys s (pte_frame e))"
    if "x < UHEAP_END" for x
  proof -
    have x: "x < 2 ^ 47" "\<not> kz_shm_va_excluded x" using heap_private [OF that] by auto
    have "copied s (pml4_phys t) (2 ^ 35) x = lookup s (pml4_phys t) x"
      using x less_mult_imp_div_less [of x "2 ^ 35" 4096] by (simp add: copied_def)
    then show ?thesis using co(4) x(1) unfolding clone_view_def by auto
  qed
  have bit1: "bit e 1 \<longleftrightarrow> bit (pte_flags e) 1" for e unfolding pte_flags_def pte_bits by auto
  have same1: "bit e' 1 = bit e 1" if "pte_flags e' = pte_flags e" for e e' using bit1 [of e] bit1 [of e'] that by simp
  have "writable_byte s' c x = writable_byte s (pml4_phys t) x \<and> (lookup s' c x = None \<longleftrightarrow> lookup s (pml4_phys t) x = None)"
    if "x < UHEAP_END" for x
    using view [OF that] by (cases "lookup s (pml4_phys t) x") (auto simp: writable_byte_def dest: same1)
  moreover have "cur_brk t' = cur_brk t" by (simp add: t' cur_brk_def)
  ultimately show "uheap_ok s' t'" using ok unfolding uheap_ok_def p g by auto
  show "load s' c x = load s (pml4_phys t) x" if "UHEAP_BASE \<le> x" "x < UHEAP_END" for x
    using view [OF that(2)] by (auto simp: load_def split: option.splits)
qed

section \<open>Every sequence of operations\<close>

text \<open>
  A program starts with nothing mapped in the window of the heap. Then come, in any order, its own calls, forks, from which
  the parent and the child go on, and steps of the rest of the system, which leave the pages of the window mapped and
  writable as they are.
\<close>

inductive uheap_run :: "nat \<Rightarrow> vm \<Rightarrow> nat set \<Rightarrow> uheap_task \<Rightarrow> bool" for k where
  fresh: "vm_run k s R \<Longrightarrow> pml4_phys t \<in> R \<Longrightarrow> uheap_brk t = 0 \<Longrightarrow> uheap_regions t = [] \<Longrightarrow>
    \<forall>x. UHEAP_BASE \<le> x \<longrightarrow> x < UHEAP_END \<longrightarrow> lookup s (pml4_phys t) x = None \<Longrightarrow> uheap_run k s R t"
| alloc: "uheap_run k s R t \<Longrightarrow> uheap_alloc kn t sz s = (a, t', s') \<Longrightarrow> uheap_run k s' R t'"
| free: "uheap_run k s R t \<Longrightarrow> uheap_free t a s = (b, t', s') \<Longrightarrow> uheap_run k s' R t'"
| realloc: "uheap_run k s R t \<Longrightarrow> uheap_realloc kr t a sz s = Done (p, t', s') \<Longrightarrow> uheap_run k s' R t'"
| child: "uheap_run k s R t \<Longrightarrow> vmm_clone_user_as (pml4_phys t) s = (c, s') \<Longrightarrow> c \<noteq> PHYS_NULL \<Longrightarrow> pml4_phys d = c \<Longrightarrow>
    uheap_clone kc d t = (True, t') \<Longrightarrow> uheap_run k s' (insert c R) t'"
| rest: "uheap_run k s R t \<Longrightarrow> vm_run k s' R' \<Longrightarrow> pml4_phys t \<in> R' \<Longrightarrow>
    \<forall>x. UHEAP_BASE \<le> x \<longrightarrow> x < UHEAP_END \<longrightarrow> (lookup s' (pml4_phys t) x = None \<longleftrightarrow> lookup s (pml4_phys t) x = None)
      \<and> (writable_byte s' (pml4_phys t) x \<longleftrightarrow> writable_byte s (pml4_phys t) x) \<Longrightarrow> uheap_run k s' R' t"

lemma uheap_run_ok: "uheap_run k s R t \<Longrightarrow> vm_run k s R \<and> pml4_phys t \<in> R \<and> uheap_ok s t"
proof (induction rule: uheap_run.induct)
  case (fresh s R t)
  have "4096 dvd UHEAP_BASE" "UHEAP_BASE \<le> UHEAP_END" by (simp_all add: UHEAP_BASE_def UHEAP_END_def)
  then show ?case using fresh by (simp add: uheap_ok_def cur_brk_def)
next
  case (alloc s R t kn sz a t' s')
  then have h: "vm_run k s R" "pml4_phys t \<in> R" "uheap_ok s t" by auto
  show ?case using h alloc(2) by (cases rule: uheap_alloc_cases) (use h in \<open>auto dest: confinedD(1)\<close>)
next
  case (free s R t a b t' s')
  then have h: "vm_run k s R" "pml4_phys t \<in> R" "uheap_ok s t" by auto
  show ?case using h free(2) by (cases rule: uheap_free_cases) (use h in \<open>auto dest: confinedD(1)\<close>)
next
  case (realloc s R t kr a sz p t' s')
  then have h: "vm_run k s R" "pml4_phys t \<in> R" "uheap_ok s t" by auto
  show ?case using uheap_realloc_spec [OF h, of kr a sz] realloc(2) h(2) by (metis access.inject prod.inject)
next
  case (child s R t c s' d kc t')
  then show ?case using fork_heap [of k s R t c s' kc d t'] by auto
next
  case (rest s R t s' R')
  then show ?case unfolding uheap_ok_def by simp
qed

section \<open>Properties\<close>

text \<open>C14 (invariant). Whatever a program calls and however it forks: inside the window of its heap exactly the pages of its regions are
  mapped, all of them writable; two regions never touch, at least one unmapped page lies behind each; and the window is never left.\<close>

theorem uheap_regions_exact:
  assumes "uheap_run k s R t"
  shows "(\<forall>x. UHEAP_BASE \<le> x \<longrightarrow> x < UHEAP_END \<longrightarrow>
      (lookup s (pml4_phys t) x \<noteq> None \<longleftrightarrow> (\<exists>g\<in>set (uheap_regions t). x \<in> region_bytes g))
      \<and> (lookup s (pml4_phys t) x \<noteq> None \<longrightarrow> writable_byte s (pml4_phys t) x))
    \<and> (\<forall>g\<in>set (uheap_regions t). UHEAP_BASE \<le> rg_base g \<and> region_end g + 4096 \<le> UHEAP_END \<and> rg_size g \<le> rg_pages g * 4096)
    \<and> (\<forall>xs g ys. uheap_regions t = xs @ g # ys \<longrightarrow>
        (\<forall>h\<in>set (xs @ ys). region_end h + 4096 \<le> rg_base g \<or> region_end g + 4096 \<le> rg_base h))"
proof (intro conjI)
  have ok: "uheap_ok s t" using uheap_run_ok [OF assms] by blast
  note rk = uheap_okD(4) [OF ok]
  have "(lookup s (pml4_phys t) x \<noteq> None \<longleftrightarrow> (\<exists>g\<in>set (uheap_regions t). x \<in> region_bytes g))
      \<and> (lookup s (pml4_phys t) x \<noteq> None \<longrightarrow> writable_byte s (pml4_phys t) x)" if "UHEAP_BASE \<le> x" "x < UHEAP_END" for x
    using uheap_okD(5) [OF ok] uheap_okD(6) [OF ok that] by (fastforce simp: writable_byte_def)
  then show "\<forall>x. UHEAP_BASE \<le> x \<longrightarrow> x < UHEAP_END \<longrightarrow>
      (lookup s (pml4_phys t) x \<noteq> None \<longleftrightarrow> (\<exists>g\<in>set (uheap_regions t). x \<in> region_bytes g))
      \<and> (lookup s (pml4_phys t) x \<noteq> None \<longrightarrow> writable_byte s (pml4_phys t) x)" by blast
  show "\<forall>g\<in>set (uheap_regions t). UHEAP_BASE \<le> rg_base g \<and> region_end g + 4096 \<le> UHEAP_END \<and> rg_size g \<le> rg_pages g * 4096"
    using regions_ok_below [OF rk] uheap_okD(3) [OF ok] by fastforce
  show "\<forall>xs g ys. uheap_regions t = xs @ g # ys \<longrightarrow>
      (\<forall>h\<in>set (xs @ ys). region_end h + 4096 \<le> rg_base g \<or> region_end g + 4096 \<le> rg_base h)"
    using regions_ok_apart rk by metis
qed

text \<open>C24 (functional). \<open>uheap_alloc\<close> on success returns the start of memory that was unmapped before and now is writable and zero for
  all its bytes; on failure the task, every mapping and all contents are as before. Either way nothing outside the new region
  changes in any address space and no frame is lost. It fails only for a bad size, an exhausted window, a missing
  record, or with no more frames left than the request has pages.\<close>

theorem uheap_alloc_exact:
  assumes "uheap_run k s R t" and "uheap_alloc kn t sz s = (a, t', s')"
  shows "(a \<noteq> 0 \<longrightarrow> (\<forall>i < sz. lookup s (pml4_phys t) (a + i) = None \<and> writable_byte s' (pml4_phys t) (a + i) \<and> load s' (pml4_phys t) (a + i) = Some 0)
      \<and> confined k R (pml4_phys t) {a..<a + pages_for sz * 4096} s s')
    \<and> (a = 0 \<longrightarrow> t' = t \<and> confined k R (pml4_phys t) {} s s'
      \<and> (sz = 0 \<or> UHEAP_MAX_ALLOC < sz \<or> UHEAP_END < cur_brk t + pages_for sz * 4096 + 4096 \<or> \<not> kn \<or> card (av s') \<le> pages_for sz))"
proof -
  have h: "vm_run k s R" "pml4_phys t \<in> R" "uheap_ok s t" using uheap_run_ok [OF assms(1)] by auto
  show ?thesis using h assms(2)
  proof (cases rule: uheap_alloc_cases)
    case yes
    have "a \<noteq> 0" using yes(1) uheap_okD(2) [OF h(3)] by (simp add: UHEAP_BASE_def)
    moreover have "a + i \<in> {a..<a + pages_for sz * 4096}" if "i < sz" for i using that pages_for_bounds [OF yes(2)] by auto
    ultimately show ?thesis using yes(6,7) by auto
  qed blast
qed

text \<open>C25 (functional). \<open>uheap_realloc\<close> of a region never faults. On success the result is a region of the new size that starts with the
  bytes of the old one, as many as fit, and nothing outside the two changes; a failed call leaves everything as it was.\<close>

theorem uheap_realloc_keeps_bytes:
  assumes "uheap_run k s R t" and "a \<noteq> 0" "sz \<noteq> 0"
  shows "\<exists>p t' s'. uheap_realloc kn t a sz s = Done (p, t', s') \<and> (p = 0 \<longrightarrow> t' = t \<and> confined k R (pml4_phys t) {} s s')
    \<and> (p \<noteq> 0 \<longrightarrow> (\<exists>g\<in>set (uheap_regions t). rg_base g = a
      \<and> (\<forall>i<min (rg_size g) sz. load s' (pml4_phys t) (p + i) = load s (pml4_phys t) (a + i))
      \<and> (\<exists>h\<in>set (uheap_regions t'). rg_base h = p \<and> rg_size h = sz)
      \<and> confined k R (pml4_phys t) (region_bytes g \<union> {p..<p + pages_for sz * 4096}) s s'))"
proof -
  have h: "vm_run k s R" "pml4_phys t \<in> R" "uheap_ok s t" using uheap_run_ok [OF assms(1)] by auto
  show ?thesis using uheap_realloc_spec [OF h, of kn a sz] assms(2,3) by metis
qed


section \<open>Witnesses\<close>

lemma demo_heap:
  obtains s c t where "uheap_run 4096 s {c} t" and "pml4_phys t = c" and "uheap_brk t = 0" and "card (avail_addrs (vm_pmm s)) \<ge> 1999"
    and "uheap_regions t = []" and "\<forall>i<256. phys s c i = 0"
proof -
  obtain s c where s: "vm_run 4096 s {c}" "card (av s) \<ge> 1999" "\<forall>va. va < 2 ^ 47 \<longrightarrow> lookup s c va = None"
    "\<forall>i<256. phys s c i = 0" by (rule demo_space)
  let ?t = "\<lparr>pml4_phys = c, uheap_brk = 0, uheap_regions = []\<rparr>"
  have "uheap_run 4096 s {c} ?t" using s(1,3) heap_private by (intro uheap_run.fresh) auto
  then show thesis using that [of s c ?t] s(2,4) by simp
qed

lemma demo_alloc:
  obtains s c t t' s' where "uheap_run 4096 s {c} t" and "pml4_phys t = c" and "uheap_alloc True t 100 s = (0x10000000, t', s')"
    and "uheap_regions t' = [\<lparr>rg_base = 0x10000000, rg_size = 100, rg_pages = 1\<rparr>]" and "pml4_phys t' = c"
proof -
  obtain s c t where s: "uheap_run 4096 s {c} t" "pml4_phys t = c" "uheap_brk t = 0" "card (av s) \<ge> 1999" "uheap_regions t = []"
    by (rule demo_heap)
  have ok: "vm_ok 4096 s {c}" using uheap_run_ok [OF s(1)] vm_run_ok by blast
  obtain b s1 where am: "alloc_map c 0x10000000 7 s = (b, s1)" by (cases "alloc_map c 0x10000000 7 s")
  have fl: "flags_ok 7" by (simp add: flags_ok_def PAGING_NX_def)
  have x: "in_tree 4096 {c} c 0x10000000" by (simp add: in_tree_def)
  have b using alloc_map_ok [OF ok x am fl] s(4) by auto
  then obtain s' where m: "uheap_map_page c 0x10000000 s = (True, s')" using uheap_map_page_eq [OF ok _ _ am] by simp
  have "c \<noteq> PHYS_NULL" using root_nonzero [OF ok x] .
  then have al: "uheap_alloc True t 100 s =
      (0x10000000, t\<lparr>uheap_regions := [\<lparr>rg_base = 0x10000000, rg_size = 100, rg_pages = 1\<rparr>], uheap_brk := 0x10002000\<rparr>, s')"
    using m s(2,3,5) by (simp add: uheap_alloc_def UHEAP_MAX_ALLOC_def UHEAP_END_def cur_brk_def UHEAP_BASE_def numeral_1_eq_Suc_0)
  show thesis using that [OF s(1,2) al] s(2) by simp
qed

lemma demo_region:
  obtains s c t where "uheap_run 4096 s {c} t" and "pml4_phys t = c"
    and "uheap_regions t = [\<lparr>rg_base = 0x10000000, rg_size = 100, rg_pages = 1\<rparr>]"
  by (rule demo_alloc) (use uheap_run.alloc in blast)

theorem uheap_regions_exact_witness:
  "\<exists>s c t. uheap_run 4096 s {c} t \<and> lookup s c 0x10000000 \<noteq> None \<and> lookup s c 0x10001000 = None"
proof -
  obtain s c t where s: "uheap_run 4096 s {c} t" "pml4_phys t = c"
    "uheap_regions t = [\<lparr>rg_base = 0x10000000, rg_size = 100, rg_pages = 1\<rparr>]" by (rule demo_region)
  have "lookup s c x \<noteq> None \<longleftrightarrow> 0x10000000 \<le> x \<and> x < 0x10001000" if "UHEAP_BASE \<le> x" "x < UHEAP_END" for x
    using uheap_regions_exact [OF s(1)] that s(2,3) by (simp add: region_bytes_def region_end_def)
  from this [of "0x10000000"] this [of "0x10001000"] s(1) show ?thesis by (auto simp: UHEAP_BASE_def UHEAP_END_def)
qed

theorem uheap_alloc_exact_witness:
  "\<exists>s c t a t' s'. uheap_run 4096 s {c} t \<and> uheap_alloc True t 100 s = (a, t', s') \<and> a \<noteq> 0 \<and> load s' c (a + 99) = Some 0"
proof -
  obtain s c t t' s' where s: "uheap_run 4096 s {c} t" "pml4_phys t = c" "uheap_alloc True t 100 s = (0x10000000, t', s')"
    by (rule demo_alloc)
  have "load s' c (0x10000000 + i) = Some 0" if "i < 100" for i using uheap_alloc_exact [OF s(1,3)] s(2) that by simp
  from this [of 99] have "load s' c (0x10000000 + 99) = Some 0" by simp
  then show ?thesis using s by (intro exI [of _ s] exI [of _ c] exI [of _ t] exI [of _ "0x10000000"] exI [of _ t'] exI [of _ s']) simp
qed

theorem uheap_realloc_keeps_bytes_witness:
  "\<exists>s c t p t' s'. uheap_run 4096 s {c} t \<and> uheap_realloc True t 0x10000000 200 s = Done (p, t', s') \<and> p \<noteq> 0
    \<and> load s' c (p + 99) = load s c 0x10000063"
proof -
  obtain s c t where s: "uheap_run 4096 s {c} t" "pml4_phys t = c"
    "uheap_regions t = [\<lparr>rg_base = 0x10000000, rg_size = 100, rg_pages = 1\<rparr>]" by (rule demo_region)
  have "\<exists>t'. uheap_realloc True t 0x10000000 200 s = Done (0x10000000, t', s)"
    using s(3) by (simp add: uheap_realloc_def UHEAP_MAX_ALLOC_def)
  then obtain t' where re: "uheap_realloc True t 0x10000000 200 s = Done (0x10000000, t', s)" by blast
  from uheap_realloc_keeps_bytes [OF s(1), of "0x10000000" 200 True] obtain p u s' where
    p: "uheap_realloc True t 0x10000000 200 s = Done (p, u, s')" "p \<noteq> 0 \<longrightarrow> (\<exists>g\<in>set (uheap_regions t). rg_base g = 0x10000000
      \<and> (\<forall>i<min (rg_size g) 200. load s' (pml4_phys t) (p + i) = load s (pml4_phys t) (0x10000000 + i)))" by auto
  have "p \<noteq> 0" using p(1) re by simp
  then have "load s' c (p + 99) = load s c (0x10000000 + 99)" using p(2) s(2,3) by auto
  then show ?thesis using s(1) p(1) \<open>p \<noteq> 0\<close> by (intro exI [of _ s] exI [of _ c] exI [of _ t] exI [of _ p] exI [of _ u] exI [of _ s']) simp
qed

lemma clone_empty:
  assumes "set is \<subseteq> {..<256}" and "\<forall>i<256. phys s r i = 0"
  shows "while_ok (clone_pml4 c r) is s = (True, s)"
  using assms by (induction "is") (auto simp: clone_pml4_def present_def)

lemma demo_fork:
  obtains s c t d s' where "uheap_run 4096 s {c} t" and "pml4_phys t = c" and "vmm_clone_user_as c s = (d, s')" and "d \<noteq> PHYS_NULL"
proof -
  obtain s c t where s: "uheap_run 4096 s {c} t" "pml4_phys t = c" "card (av s) \<ge> 1999" "\<forall>i<256. phys s c i = 0" by (rule demo_heap)
  have ok: "vm_ok 4096 s {c}" using uheap_run_ok [OF s(1)] vm_run_ok by blast
  obtain d s' where cr: "vmm_create_address_space s = (d, s')" by (cases "vmm_create_address_space s")
  have "av s \<noteq> {}" using s(3) by auto
  then have d: "d \<noteq> 0" "d \<in> av s" "phys s' = (phys s)(d := \<lambda>i. if 256 \<le> i \<and> i < 512 then phys s 4096 i else 0)"
    using create_space [OF ok cr] by auto
  have "d \<noteq> c" using d(2) vm_ok_held(1) [OF ok, of c "[]" c] by (auto simp: trees_def upaths_def)
  then have p: "\<forall>i<256. phys s' c i = 0" using d(3) s(4) by simp
  define js :: "nat list" where "js = [0..<256]"
  have "while_ok (clone_pml4 d c) js s' = (True, s')" using p by (intro clone_empty) (auto simp: js_def)
  moreover have "current_pml4 s = Some 4096" "c \<noteq> 0" using ok root_nonzero [OF ok, of c 0] by (auto simp: vm_ok_def vm_base_def in_tree_def PHYS_NULL_def)
  ultimately have "vmm_clone_user_as c s = (d, s')"
    using cr d(1) unfolding vmm_clone_user_as_def PHYS_NULL_def js_def [symmetric] by simp
  then show thesis using that s(1,2) d(1) by (simp add: PHYS_NULL_def)
qed


end
