(* ===== verification/Shm.thy ===== *)
theory Shm
  imports Uheap "HOL-Library.Multiset"
begin

text \<open>
  Shared surfaces: \<open>kernel/mm/kz_shm.c\<close> and \<open>include/kz_shm.h\<close>, with the size check of \<open>include/kz_surface.h\<close>.

  The table has sixteen slots. A slot in use has its frames (\<open>sl_pages\<close>; the null pointer is the empty list), the tasks that have it
  mapped and the consumers that hold a reference. Creating, mapping and unmapping work in two parts, one under the
  table's lock and one on the caller's address space without it. Each part is a definition of its own
  (\<open>shm_reserve\<close>, \<open>shm_fill\<close>, \<open>shm_commit\<close>, \<open>shm_map_begin\<close>, \<open>shm_map_pages\<close>, \<open>shm_unmap_begin\<close>, \<open>shm_unmap_pages\<close>), so that
  other tasks can run in between. The outcome of allocating the array of frames (\<open>kmalloc\<close>) is an input. Flushing the translation
  caches of other processors is left out.
\<close>

section \<open>Constants and handles\<close>

definition KZ_OK :: int where "KZ_OK = 0"
definition KZ_EINVAL :: int where "KZ_EINVAL = - 1"
definition KZ_ENOMEM :: int where "KZ_ENOMEM = - 2"
definition KZ_EBUSY :: int where "KZ_EBUSY = - 4"
definition KZ_ERANGE :: int where "KZ_ERANGE = - 5"
definition KZ_ESTALE :: int where "KZ_ESTALE = - 6"
definition KZ_EACCES :: int where "KZ_EACCES = - 8"
definition KZ_SHM_MAX_PAGES :: nat where "KZ_SHM_MAX_PAGES = 2048"
definition KZ_SHM_MAX_MAPS :: nat where "KZ_SHM_MAX_MAPS = 32"
definition KZ_SHM_MAX_REFS :: nat where "KZ_SHM_MAX_REFS = 32"
definition KZ_SURFACE_MAX_DIM :: nat where "KZ_SURFACE_MAX_DIM = 8192"
definition KZ_SURFACE_MAX_BYTES :: nat where "KZ_SURFACE_MAX_BYTES = 256 * 1024 * 1024"

definition kz_shm_handle :: "nat \<Rightarrow> nat \<Rightarrow> nat" where
  "kz_shm_handle gen idx = gen * 2 ^ 32 + idx"

definition kz_shm_idx :: "nat \<Rightarrow> nat" where
  "kz_shm_idx h = h mod 2 ^ 32"

definition kz_shm_gen :: "nat \<Rightarrow> nat" where
  "kz_shm_gen h = h div 2 ^ 32 mod 2 ^ 32"

definition kz_shm_slot_va :: "nat \<Rightarrow> nat" where
  "kz_shm_slot_va idx = KZ_SHM_BASE + idx * KZ_SHM_SLOT_SIZE"

definition to_int64 :: "nat \<Rightarrow> int" where
  "to_int64 v = (if v mod 2 ^ 64 < 2 ^ 63 then int (v mod 2 ^ 64) else int (v mod 2 ^ 64) - 2 ^ 64)"

section \<open>Surfaces\<close>

record kz_surface_desc =
  sd_width :: nat
  sd_height :: nat
  sd_stride_px :: nat
  sd_format :: nat
  sd_size_bytes :: nat
  sd_usage :: nat

definition kz_surface_bytes :: "nat \<Rightarrow> nat \<Rightarrow> nat" where
  "kz_surface_bytes w h =
    (let px = u64 (w * h)
     in if w \<noteq> 0 \<and> px div w \<noteq> h then 0
        else let bytes = u64 (px * 4) in if px \<noteq> 0 \<and> bytes div px \<noteq> 4 then 0 else bytes)"

definition kz_surface_validate :: "kz_surface_desc \<Rightarrow> int" where
  "kz_surface_validate d =
    (if sd_width d = 0 \<or> sd_height d = 0 then KZ_EINVAL
     else if KZ_SURFACE_MAX_DIM < sd_width d \<or> KZ_SURFACE_MAX_DIM < sd_height d then KZ_EINVAL
     else if sd_format d \<noteq> 0 \<and> sd_format d \<noteq> 1 then KZ_EINVAL
     else if sd_usage d = 0 then KZ_EINVAL
     else if sd_stride_px d < sd_width d then KZ_EINVAL
     else if KZ_SURFACE_MAX_DIM * 2 < sd_stride_px d then KZ_EINVAL
     else let need = u64 (u64 (sd_stride_px d * sd_height d) * 4)
          in if sd_height d \<noteq> 0 \<and> need div sd_height d div 4 \<noteq> sd_stride_px d then KZ_ERANGE
             else if KZ_SURFACE_MAX_BYTES < need then KZ_EINVAL
             else if sd_size_bytes d < need then KZ_EINVAL
             else KZ_OK)"

section \<open>Slots\<close>

record kz_shm_slot =
  sl_used :: bool
  sl_published :: bool
  sl_destroyed :: bool
  sl_creating :: bool
  sl_generation :: nat
  sl_owner :: int
  sl_width :: nat
  sl_height :: nat
  sl_stride :: nat
  sl_format :: nat
  sl_pages :: "nat list"
  sl_maps :: "int list"
  sl_refs :: "int list"
  sl_damage :: "int \<times> int \<times> int \<times> int"

record shm =
  g_shm :: "kz_shm_slot list"
  g_shm_gen :: nat

definition shm_flags :: "bool \<Rightarrow> pte" where
  "shm_flags write = PAGING_PRESENT OR PAGING_USER OR PAGING_NX OR (if write then PAGING_WRITABLE else 0)"

text \<open>The arrays \<open>maps\<close> and \<open>refs\<close>: removing an entry moves the last one into its place.\<close>

definition drop_first :: "int \<Rightarrow> int list \<Rightarrow> int list" where
  "drop_first t xs = (case find (\<lambda>i. xs ! i = t) [0..<length xs] of None \<Rightarrow> xs | Some i \<Rightarrow> butlast (xs[i := last xs]))"

definition has_map :: "kz_shm_slot \<Rightarrow> int \<Rightarrow> bool" where
  "has_map sl t \<longleftrightarrow> t \<in> set (sl_maps sl)"

definition add_map :: "kz_shm_slot \<Rightarrow> int \<Rightarrow> kz_shm_slot option" where
  "add_map sl t = (if KZ_SHM_MAX_MAPS \<le> length (sl_maps sl) then None else Some (sl\<lparr>sl_maps := sl_maps sl @ [t]\<rparr>))"

definition del_map :: "kz_shm_slot \<Rightarrow> int \<Rightarrow> kz_shm_slot" where
  "del_map sl t = sl\<lparr>sl_maps := drop_first t (sl_maps sl)\<rparr>"

definition add_ref :: "kz_shm_slot \<Rightarrow> int \<Rightarrow> kz_shm_slot option" where
  "add_ref sl t = (if KZ_SHM_MAX_REFS \<le> length (sl_refs sl) then None else Some (sl\<lparr>sl_refs := sl_refs sl @ [t]\<rparr>))"

definition has_ref :: "kz_shm_slot \<Rightarrow> int \<Rightarrow> bool" where
  "has_ref sl t \<longleftrightarrow> t \<in> set (sl_refs sl)"

definition del_ref :: "kz_shm_slot \<Rightarrow> int \<Rightarrow> kz_shm_slot" where
  "del_ref sl t = sl\<lparr>sl_refs := drop_first t (sl_refs sl)\<rparr>"

definition free_list :: "nat list \<Rightarrow> vm \<Rightarrow> vm" where
  "free_list ps s = fold vm_free ps s"

definition shm_free_pages :: "kz_shm_slot \<Rightarrow> vm \<Rightarrow> kz_shm_slot \<times> vm" where
  "shm_free_pages sl s = (sl\<lparr>sl_pages := []\<rparr>, free_list (filter (\<lambda>p. p \<noteq> 0) (sl_pages sl)) s)"

definition maybe_free :: "kz_shm_slot \<Rightarrow> vm \<Rightarrow> kz_shm_slot \<times> vm" where
  "maybe_free sl s =
    (if sl_destroyed sl \<and> sl_maps sl = [] \<and> sl_refs sl = [] \<and> \<not> sl_creating sl
     then let (sl1, s1) = shm_free_pages sl s; g = u32 (sl_generation sl + 1)
          in (sl1\<lparr>sl_used := False, sl_published := False, sl_destroyed := False, sl_generation := if g = 0 then 1 else g\<rparr>, s1)
     else (sl, s))"

definition set_slot :: "nat \<Rightarrow> kz_shm_slot \<Rightarrow> shm \<Rightarrow> shm" where
  "set_slot i sl st = st\<lparr>g_shm := (g_shm st)[i := sl]\<rparr>"

text \<open>\<open>Inl\<close> is the error.\<close>

definition shm_lookup :: "nat \<Rightarrow> shm \<Rightarrow> int + nat" where
  "shm_lookup h st =
    (let i = kz_shm_idx h; g = kz_shm_gen h
     in if g = 0 \<or> KZ_SHM_MAX_RES \<le> i then Inl KZ_EINVAL
        else if \<not> sl_used (g_shm st ! i) \<or> sl_generation (g_shm st ! i) \<noteq> g then Inl KZ_ESTALE
        else if sl_destroyed (g_shm st ! i) then Inl KZ_ESTALE
        else Inr i)"

definition lookup_unmap :: "nat \<Rightarrow> shm \<Rightarrow> int + nat" where
  "lookup_unmap h st =
    (let i = kz_shm_idx h; g = kz_shm_gen h
     in if g = 0 \<or> KZ_SHM_MAX_RES \<le> i then Inl KZ_EINVAL
        else if \<not> sl_used (g_shm st ! i) \<or> sl_generation (g_shm st ! i) \<noteq> g then Inl KZ_ESTALE
        else Inr i)"

section \<open>Creating\<close>

text \<open>Without memory the frames taken so far are given back.\<close>

fun shm_take_pages :: "nat \<Rightarrow> nat list \<Rightarrow> vm \<Rightarrow> nat list option \<times> vm" where
  "shm_take_pages 0 got s = (Some got, s)"
| "shm_take_pages (Suc n) got s =
    (case vm_alloc s of (p, s1) \<Rightarrow>
       if p = PHYS_NULL then (None, free_list got s1) else shm_take_pages n (got @ [p]) (set_frame p (\<lambda>_. 0) s1))"

definition shm_unmap_pages :: "nat \<Rightarrow> nat \<Rightarrow> nat \<Rightarrow> vm \<Rightarrow> vm" where
  "shm_unmap_pages va n pml4 s = fold (\<lambda>i s. snd (vmm_unmap_page_from (va + i * 4096) pml4 s)) [0..<n] s"

text \<open>The pages from the \<open>i\<close>-th on; a failure unmaps the ones before.\<close>

fun shm_map_pages :: "nat \<Rightarrow> nat \<Rightarrow> nat list \<Rightarrow> pte \<Rightarrow> nat \<Rightarrow> vm \<Rightarrow> bool \<times> vm" where
  "shm_map_pages va i [] fl pml4 s = (True, s)"
| "shm_map_pages va i (p # ps) fl pml4 s =
    (case vmm_map_page_into (va + i * 4096) p fl pml4 s of
       (False, s') \<Rightarrow> (False, shm_unmap_pages va i pml4 s')
     | (True, s') \<Rightarrow> shm_map_pages va (Suc i) ps fl pml4 s')"

text \<open>Under the lock: a free slot and a generation. \<open>None\<close> when no slot is free.\<close>

definition shm_reserve :: "int \<Rightarrow> shm \<Rightarrow> (nat \<times> nat \<times> shm) option" where
  "shm_reserve task st =
    (case find (\<lambda>i. \<not> sl_used (g_shm st ! i)) [0..<KZ_SHM_MAX_RES] of None \<Rightarrow> None
     | Some idx \<Rightarrow>
         let gen = (if g_shm_gen st = 0 then 1 else g_shm_gen st); nxt = u32 (gen + 1)
         in Some (idx, gen, set_slot idx ((g_shm st ! idx)\<lparr>sl_used := True, sl_creating := True, sl_published := False,
                sl_destroyed := False, sl_generation := gen, sl_owner := task, sl_maps := [], sl_refs := []\<rparr>)
              (st\<lparr>g_shm_gen := if nxt = 0 then 1 else nxt\<rparr>)))"

text \<open>Without the lock: the frames, cleared and mapped for the owner.\<close>

definition shm_fill :: "bool \<Rightarrow> nat \<Rightarrow> nat \<Rightarrow> nat \<Rightarrow> vm \<Rightarrow> nat list option \<times> vm" where
  "shm_fill kn idx npages pml4 s =
    (if \<not> kn then (None, s)
     else case shm_take_pages npages [] s of
        (None, s1) \<Rightarrow> (None, s1)
      | (Some ps, s1) \<Rightarrow> (case shm_map_pages (kz_shm_slot_va idx) 0 ps (shm_flags True) pml4 s1 of
           (True, s2) \<Rightarrow> (Some ps, s2)
         | (False, s2) \<Rightarrow> (None, free_list ps s2)))"

definition shm_commit :: "nat \<Rightarrow> int \<Rightarrow> nat \<Rightarrow> nat \<Rightarrow> nat \<Rightarrow> nat list \<Rightarrow> shm \<Rightarrow> shm" where
  "shm_commit idx task w h format ps st =
    set_slot idx ((g_shm st ! idx)\<lparr>sl_pages := ps, sl_width := w, sl_height := h, sl_stride := w, sl_format := format,
      sl_creating := False, sl_maps := [task]\<rparr>) st"

definition shm_abort :: "nat \<Rightarrow> shm \<Rightarrow> shm" where
  "shm_abort idx st = set_slot idx ((g_shm st ! idx)\<lparr>sl_used := False, sl_creating := False\<rparr>) st"

definition shm_npages :: "nat \<Rightarrow> nat \<Rightarrow> nat \<Rightarrow> nat option" where
  "shm_npages w h format =
    (if format \<noteq> 0 \<and> format \<noteq> 1 then None
     else let d = \<lparr>sd_width = w, sd_height = h, sd_stride_px = w, sd_format = format, sd_size_bytes = kz_surface_bytes w h, sd_usage = 3\<rparr>
          in if kz_surface_validate d \<noteq> KZ_OK then None
             else let npages = u32 ((sd_size_bytes d + 4096 - 1) div 4096)
                  in if npages = 0 \<or> KZ_SHM_MAX_PAGES < npages then None else Some npages)"

definition kz_shm_create :: "bool \<Rightarrow> int \<Rightarrow> nat \<Rightarrow> nat \<Rightarrow> nat \<Rightarrow> nat \<Rightarrow> shm \<Rightarrow> vm \<Rightarrow> int \<times> shm \<times> vm" where
  "kz_shm_create kn task pml4 w h format st s =
    (if task < 0 \<or> pml4 = PHYS_NULL then (KZ_EINVAL, st, s)
     else case shm_npages w h format of None \<Rightarrow> (KZ_EINVAL, st, s)
      | Some npages \<Rightarrow> (case shm_reserve task st of None \<Rightarrow> (KZ_EBUSY, st, s)
         | Some (idx, gen, st1) \<Rightarrow> (case shm_fill kn idx npages pml4 s of
              (None, s1) \<Rightarrow> (KZ_ENOMEM, shm_abort idx st1, s1)
            | (Some ps, s1) \<Rightarrow> (to_int64 (kz_shm_handle gen idx), shm_commit idx task w h format ps st1, s1))))"

section \<open>Mapping and unmapping\<close>

datatype map_answer = Refused | Mapped nat | Recorded nat

definition shm_map_begin :: "int \<Rightarrow> nat \<Rightarrow> bool \<Rightarrow> shm \<Rightarrow> map_answer \<times> shm" where
  "shm_map_begin task h write st =
    (case shm_lookup h st of Inl _ \<Rightarrow> (Refused, st)
     | Inr idx \<Rightarrow> let sl = g_shm st ! idx
         in if sl_creating sl then (Refused, st)
            else if has_map sl task then (Mapped (kz_shm_slot_va idx), st)
            else if task \<noteq> sl_owner sl \<and> (\<not> sl_published sl \<or> write) then (Refused, st)
            else (case add_map sl task of None \<Rightarrow> (Refused, st) | Some sl1 \<Rightarrow> (Recorded idx, set_slot idx sl1 st)))"

definition shm_map_undo :: "nat \<Rightarrow> int \<Rightarrow> shm \<Rightarrow> vm \<Rightarrow> shm \<times> vm" where
  "shm_map_undo idx task st s =
    (let (sl, s1) = maybe_free (del_map (g_shm st ! idx) task) s in (set_slot idx sl st, s1))"

text \<open>The loop without the lock over the frames of the recorded slot.\<close>

definition shm_map_finish :: "nat \<Rightarrow> int \<Rightarrow> bool \<Rightarrow> nat \<Rightarrow> shm \<Rightarrow> vm \<Rightarrow> nat \<times> shm \<times> vm" where
  "shm_map_finish idx task write pml4 st s =
    (case shm_map_pages (kz_shm_slot_va idx) 0 (sl_pages (g_shm st ! idx)) (shm_flags (task = sl_owner (g_shm st ! idx) \<and> write)) pml4 s of
       (True, s1) \<Rightarrow> (kz_shm_slot_va idx, st, s1)
     | (False, s1) \<Rightarrow> (case shm_map_undo idx task st s1 of (st2, s2) \<Rightarrow> (0, st2, s2)))"

definition kz_shm_map :: "int \<Rightarrow> nat \<Rightarrow> nat \<Rightarrow> nat \<Rightarrow> shm \<Rightarrow> vm \<Rightarrow> nat \<times> shm \<times> vm" where
  "kz_shm_map task pml4 h flags st s =
    (if task < 0 \<or> pml4 = PHYS_NULL then (0, st, s)
     else let write = odd flags
          in case shm_map_begin task h write st of
             (Refused, st1) \<Rightarrow> (0, st1, s)
           | (Mapped va, st1) \<Rightarrow> (va, st1, s)
           | (Recorded idx, st1) \<Rightarrow> shm_map_finish idx task write pml4 st1 s)"

text \<open>The slot and the number of pages to unmap; \<open>None\<close> is \<open>KZ_EINVAL\<close>.\<close>

definition shm_unmap_begin :: "int \<Rightarrow> nat \<Rightarrow> shm \<Rightarrow> vm \<Rightarrow> (nat \<times> nat) option \<times> shm \<times> vm" where
  "shm_unmap_begin task va st s =
    (if va < KZ_SHM_BASE \<or> KZ_SHM_END \<le> va then (None, st, s)
     else if (va - KZ_SHM_BASE) mod KZ_SHM_SLOT_SIZE \<noteq> 0 then (None, st, s)
     else let idx = u32 ((va - KZ_SHM_BASE) div KZ_SHM_SLOT_SIZE)
          in if KZ_SHM_MAX_RES \<le> idx then (None, st, s)
             else case lookup_unmap (kz_shm_handle (sl_generation (g_shm st ! idx)) idx) st of
                Inl _ \<Rightarrow> (None, st, s)
              | Inr i \<Rightarrow> if \<not> has_map (g_shm st ! i) task then (None, st, s)
                  else let n = length (sl_pages (g_shm st ! i)); (sl, s1) = maybe_free (del_map (g_shm st ! i) task) s
                       in (Some (i, n), set_slot i sl st, s1))"

definition kz_shm_unmap :: "int \<Rightarrow> nat \<Rightarrow> nat \<Rightarrow> shm \<Rightarrow> vm \<Rightarrow> int \<times> shm \<times> vm" where
  "kz_shm_unmap task pml4 va st s =
    (if task < 0 \<or> pml4 = PHYS_NULL then (KZ_EINVAL, st, s)
     else case shm_unmap_begin task va st s of
        (None, st1, s1) \<Rightarrow> (KZ_EINVAL, st1, s1)
      | (Some (_, n), st1, s1) \<Rightarrow> (KZ_OK, st1, shm_unmap_pages va n pml4 s1))"

section \<open>The other operations\<close>

definition kz_shm_publish :: "int \<Rightarrow> nat \<Rightarrow> int \<Rightarrow> int \<Rightarrow> int \<Rightarrow> int \<Rightarrow> shm \<Rightarrow> int \<times> shm" where
  "kz_shm_publish task h x y w hh st =
    (case shm_lookup h st of Inl e \<Rightarrow> (e, st)
     | Inr idx \<Rightarrow> let sl = g_shm st ! idx
         in if task \<noteq> sl_owner sl then (KZ_EACCES, st)
            else if w < 0 \<or> hh < 0 \<or> x < 0 \<or> y < 0 then (KZ_EINVAL, st)
            else if int (sl_width sl) < x + w \<or> int (sl_height sl) < y + hh then (KZ_EINVAL, st)
            else (KZ_OK, set_slot idx (sl\<lparr>sl_published := True, sl_damage := (x, y, w, hh)\<rparr>) st))"

definition kz_shm_destroy :: "int \<Rightarrow> nat \<Rightarrow> shm \<Rightarrow> vm \<Rightarrow> int \<times> shm \<times> vm" where
  "kz_shm_destroy task h st s =
    (case shm_lookup h st of Inl e \<Rightarrow> (e, st, s)
     | Inr idx \<Rightarrow> let sl = g_shm st ! idx
         in if task \<noteq> sl_owner sl then (KZ_EACCES, st, s)
            else let (sl1, s1) = maybe_free (sl\<lparr>sl_destroyed := True\<rparr>) s in (KZ_OK, set_slot idx sl1 st, s1))"

lemma drop_first_mset: "mset (drop_first t xs) = mset xs - {#t#}"
proof (cases "find (\<lambda>i. xs ! i = t) [0..<length xs]")
  case None
  then have "t \<notin> set xs" by (auto simp: find_None_iff in_set_conv_nth)
  then show ?thesis using None by (simp add: drop_first_def)
next
  case (Some i)
  then have i: "i < length xs" "xs ! i = t" by (auto simp: find_Some_iff)
  let ?ys = "xs[i := last xs]"
  have ne: "xs \<noteq> []" "?ys \<noteq> []" using i by auto
  have "last ?ys = last xs" using ne by (cases "i = length xs - 1") (simp_all add: last_conv_nth)
  then have "mset ?ys = add_mset (last xs) (mset (butlast ?ys))" using append_butlast_last_id [OF ne(2)]
    by (metis mset.simps(2) mset_append mset_single_iff_right union_mset_add_mset_right add.right_neutral mset.simps(1))
  moreover have "mset ?ys = add_mset (last xs) (mset xs - {#t#})" using i by (simp add: mset_update)
  ultimately show ?thesis using Some by (simp add: drop_first_def)
qed

lemma drop_first_shorter: "t \<in> set xs \<Longrightarrow> length (drop_first t xs) < length xs"
  using arg_cong [OF drop_first_mset [of t xs], of size] by (cases xs) (auto simp: size_Diff_singleton)

lemma drop_first_distinct: "distinct xs \<Longrightarrow> distinct (drop_first t xs) \<and> set (drop_first t xs) = set xs - {t}"
  using drop_first_mset [of t xs] by (metis (no_types) distinct_count_atmost_1 mset_eq_imp_distinct_iff mset_remove1 set_mset_mset
      distinct_remove1 set_remove1_eq)

function drop_refs :: "kz_shm_slot \<Rightarrow> int \<Rightarrow> kz_shm_slot" where
  "drop_refs sl t = (if has_ref sl t then drop_refs (del_ref sl t) t else sl)"
  by pat_completeness auto
termination
  by (relation "measure (\<lambda>(sl, t). length (sl_refs sl))") (auto simp: has_ref_def del_ref_def drop_first_shorter)

declare drop_refs.simps [simp del]

definition shm_exit_slot :: "int \<Rightarrow> nat \<Rightarrow> shm \<times> vm \<Rightarrow> shm \<times> vm" where
  "shm_exit_slot task i = (\<lambda>(st, s).
    let sl = g_shm st ! i
    in if \<not> sl_used sl then (st, s)
       else let sl1 = (if has_map sl task then del_map sl task else sl);
                sl2 = drop_refs sl1 task;
                sl3 = (if sl_owner sl2 = task \<and> \<not> sl_destroyed sl2 then sl2\<lparr>sl_destroyed := True\<rparr> else sl2);
                (sl4, s1) = maybe_free sl3 s
            in (set_slot i sl4 st, s1))"

definition kz_shm_task_exit :: "int \<Rightarrow> shm \<Rightarrow> vm \<Rightarrow> shm \<times> vm" where
  "kz_shm_task_exit task st s = (if task < 0 then (st, s) else fold (shm_exit_slot task) [0..<KZ_SHM_MAX_RES] (st, s))"

record kz_shm_stat_t =
  st_width :: nat
  st_height :: nat
  st_stride :: nat
  st_format :: nat
  st_size_bytes :: nat
  st_generation :: nat
  st_owner :: nat
  st_rights :: nat
  st_state :: nat
  st_npages :: nat

definition kz_shm_stat :: "int \<Rightarrow> nat \<Rightarrow> shm \<Rightarrow> int + kz_shm_stat_t" where
  "kz_shm_stat task h st =
    (case shm_lookup h st of Inl e \<Rightarrow> Inl e
     | Inr idx \<Rightarrow> let sl = g_shm st ! idx
         in if task \<noteq> sl_owner sl \<and> \<not> sl_published sl then Inl KZ_EACCES
            else Inr \<lparr>st_width = sl_width sl, st_height = sl_height sl, st_stride = sl_stride sl, st_format = sl_format sl,
              st_size_bytes = u64 (sl_stride sl * sl_height sl * 4), st_generation = sl_generation sl,
              st_owner = nat (sl_owner sl mod 2 ^ 32), st_rights = (if task = sl_owner sl then 3 else 1),
              st_state = (if sl_published sl then 2 else 1), st_npages = length (sl_pages sl)\<rparr>)"

definition shm_take_ref :: "int \<Rightarrow> nat \<Rightarrow> shm \<Rightarrow> (int + nat) \<times> shm" where
  "shm_take_ref task h st =
    (case shm_lookup h st of Inl e \<Rightarrow> (Inl e, st)
     | Inr idx \<Rightarrow> let sl = g_shm st ! idx
         in if task \<noteq> sl_owner sl \<and> \<not> sl_published sl then (Inl KZ_EACCES, st)
            else (case add_ref sl task of None \<Rightarrow> (Inl KZ_EBUSY, st) | Some sl1 \<Rightarrow> (Inr idx, set_slot idx sl1 st)))"

definition kz_shm_acquire :: "int \<Rightarrow> nat \<Rightarrow> shm \<Rightarrow> int \<times> shm" where
  "kz_shm_acquire task h st = (case shm_take_ref task h st of (Inl e, st1) \<Rightarrow> (e, st1) | (Inr _, st1) \<Rightarrow> (KZ_OK, st1))"

definition kz_shm_release :: "int \<Rightarrow> nat \<Rightarrow> shm \<Rightarrow> vm \<Rightarrow> int \<times> shm \<times> vm" where
  "kz_shm_release task h st s =
    (case lookup_unmap h st of Inl e \<Rightarrow> (e, st, s)
     | Inr idx \<Rightarrow> let sl = g_shm st ! idx
         in if \<not> has_ref sl task then (KZ_EINVAL, st, s)
            else let (sl1, s1) = maybe_free (del_ref sl task) s in (KZ_OK, set_slot idx sl1 st, s1))"

text \<open>The borrowed frames with stride, width, height and format.\<close>

definition kz_shm_consume :: "int \<Rightarrow> nat \<Rightarrow> shm \<Rightarrow> (int + nat list \<times> nat \<times> nat \<times> nat \<times> nat) \<times> shm" where
  "kz_shm_consume task h st =
    (case shm_take_ref task h st of (Inl e, st1) \<Rightarrow> (Inl e, st1)
     | (Inr idx, st1) \<Rightarrow> let sl = g_shm st1 ! idx in (Inr (sl_pages sl, sl_stride sl, sl_width sl, sl_height sl, sl_format sl), st1))"

end
