(* ===== verification/Shm_Mem.thy ===== *)
theory Shm_Mem
  imports Shm
begin

text \<open>
  What the parts of the shared-surface operations that run without the lock do to memory: taking and giving back frames,
  mapping and unmapping the pages of a slot in one address space.
\<close>

section \<open>Frames\<close>

text \<open>\<open>s'\<close> is a state of \<open>vm_run\<close> with the mappings and the private memory of \<open>s\<close>; frames may have changed hands.\<close>

definition same_view :: "nat \<Rightarrow> nat set \<Rightarrow> vm \<Rightarrow> vm \<Rightarrow> bool" where
  "same_view k R s s' \<longleftrightarrow> vm_run k s' R \<and> managed (vm_pmm s') = managed (vm_pmm s) \<and> owned k s' R = owned k s R
    \<and> (\<forall>q x. in_tree k R q x \<longrightarrow> lookup s' q x = lookup s q x)"

lemma same_viewD:
  assumes "same_view k R s s'"
  shows "vm_run k s' R" and "managed (vm_pmm s') = managed (vm_pmm s)" and "owned k s' R = owned k s R"
    and "\<And>q x. in_tree k R q x \<Longrightarrow> lookup s' q x = lookup s q x"
  using assms by (auto simp: same_view_def)

lemma same_view_refl: "vm_run k s R \<Longrightarrow> same_view k R s s"
  by (simp add: same_view_def)

lemma same_view_trans: "same_view k R s s1 \<Longrightarrow> same_view k R s1 s2 \<Longrightarrow> same_view k R s s2"
  by (simp add: same_view_def)

lemma lookup_phys: "phys s' = phys s \<Longrightarrow> lookup s' = lookup s"
  by (intro ext) (unfold lookup_def find_pt_def, erule ssubst, rule refl)

lemma owned_phys: "phys s' = phys s \<Longrightarrow> owned k s' R = owned k s R"
  using node_phys [of s' s] by (simp add: owned_def)

lemma vm_alloc_same:
  assumes run: "vm_run k s R" and al: "vm_alloc s = (a, s')" and a: "a \<noteq> 0"
  shows "same_view k R s s'" and "a \<in> av s" and "av s' = av s - {a}" and "fresh k s' R a" and "is_frame a"
proof -
  have ok: "vm_ok k s R" by (rule vm_run_ok [OF run])
  note f = alloc_fresh [OF ok al a]
  show "a \<in> av s" "av s' = av s - {a}" "fresh k s' R a" "is_frame a" using f by auto
  have b: "vm_base k s" "vm_base k s'" using ok f(1) by (simp_all add: vm_ok_def)
  obtain m where pm: "pmm_alloc_page (vm_pmm s) = (a, m)" and s': "s' = s\<lparr>vm_pmm := m\<rparr>"
    using al by (auto simp: vm_alloc_def split: prod.splits)
  have wf: "pmm_wf (vm_pmm s)" "pmm_wf m" using b s' by (simp_all add: vm_base_def)
  have mg: "managed (vm_pmm s') = managed (vm_pmm s)" using vm_alloc_cases [OF b(1) al] a by auto
  have bp: "bitmap_pages m = bitmap_pages (vm_pmm s)" using pmm_alloc_page_spec [OF wf(1)] pm by auto
  have "avail_addrs m \<inter> owned k s R = {}" using f(4) s' avail_not_owned [OF ok] by auto
  then have "vm_run k s' R" unfolding s' by (rule vm_run.others [OF run wf(2) bp])
  then show "same_view k R s s'" using mg f(5,7) by (simp add: same_view_def)
qed

lemma vm_free_same:
  assumes run: "vm_run k s R" and f: "fresh k s R a"
  shows "same_view k R s (vm_free a s)" and "av (vm_free a s) = insert a (av s)"
proof -
  have ok: "vm_ok k s R" by (rule vm_run_ok [OF run])
  have b: "vm_base k s" using ok by (simp add: vm_ok_def)
  note ff = free_fresh [OF ok f] and fs = vm_free_spec [OF b, of a]
  show av: "av (vm_free a s) = insert a (av s)" by (rule ff(2))
  have wf: "pmm_wf (vm_pmm s)" using b by (simp add: vm_base_def)
  have "avail_addrs (pmm_free_page a (vm_pmm s)) \<inter> owned k s R = {}"
    using av avail_not_owned [OF ok] f by (auto simp: vm_free_def fresh_def)
  then have "vm_run k (vm_free a s) R" unfolding vm_free_def
    using pmm_free_page_spec [OF wf, of a] by (intro vm_run.others [OF run]) auto
  then show "same_view k R s (vm_free a s)" using ff(3,4) fs(3) by (simp add: same_view_def)
qed

lemma fresh_same: "same_view k R s s' \<Longrightarrow> av s' \<subseteq> av s \<union> A \<Longrightarrow> p \<notin> A \<Longrightarrow> fresh k s R p \<Longrightarrow> fresh k s' R p"
  by (auto simp: same_view_def fresh_def)

lemma free_list_same:
  assumes "vm_run k s R" and "distinct ps" and "\<forall>p\<in>set ps. fresh k s R p"
  shows "same_view k R s (free_list ps s) \<and> av (free_list ps s) = av s \<union> set ps"
  using assms
proof (induction ps arbitrary: s)
  case Nil
  then show ?case using same_view_refl by (simp add: free_list_def)
next
  case (Cons p ps)
  note f = vm_free_same [OF Cons.prems(1), of p]
  have v: "same_view k R s (vm_free p s)" "av (vm_free p s) = insert p (av s)" using f Cons.prems(3) by auto
  have "fresh k (vm_free p s) R q" if "q \<in> set ps" for q
    using v(2) Cons.prems(2,3) that by (intro fresh_same [OF v(1), of "{p}"]) auto
  then have fr: "\<forall>q\<in>set ps. fresh k (vm_free p s) R q" by blast
  have "same_view k R (vm_free p s) (free_list ps (vm_free p s)) \<and> av (free_list ps (vm_free p s)) = av (vm_free p s) \<union> set ps"
    using Cons.prems(2) by (intro Cons.IH [OF same_viewD(1) [OF v(1)] _ fr]) simp
  then show ?case using same_view_trans [OF v(1)] v(2) by (auto simp: free_list_def)
qed

lemma zero_same:
  assumes run: "vm_run k s R" and f: "a \<notin> owned k s R"
  shows "same_view k R s (set_frame a c s)" and "av (set_frame a c s) = av s"
proof -
  have ok: "vm_ok k s R" by (rule vm_run_ok [OF run])
  note w = write_unowned_ok [OF ok f]
  have "a \<notin> page_tables k s R" using f by (auto simp: page_tables_def owned_def)
  then have "vm_run k (set_frame a c s) R" by (rule vm_run.data [OF run])
  moreover have "owned k (set_frame a c s) R = owned k s R" using w(2) unfolding owned_def by (intro Collect_cong) metis
  ultimately show "same_view k R s (set_frame a c s)" using w(3) by (simp add: same_view_def set_frame_def)
  show "av (set_frame a c s) = av s" by (simp add: set_frame_def)
qed

lemma shm_take_pages_ok:
  assumes "vm_run k s R" and "distinct got" and "\<forall>p\<in>set got. fresh k s R p \<and> is_frame p" and "shm_take_pages n got s = (res, s')"
  shows "same_view k R s s' \<and> (case res of None \<Rightarrow> av s' = av s \<union> set got
    | Some ps \<Rightarrow> distinct ps \<and> length ps = length got + n \<and> (\<forall>p\<in>set ps. fresh k s' R p \<and> is_frame p) \<and> av s' \<union> set ps = av s \<union> set got)"
  using assms
proof (induction n arbitrary: got s)
  case 0
  then show ?case using same_view_refl by auto
next
  case (Suc n)
  obtain a s1 where al: "vm_alloc s = (a, s1)" by (cases "vm_alloc s")
  show ?case
  proof (cases "a = 0")
    case True
    have "vm_base k s" using vm_run_ok [OF Suc.prems(1)] by (simp add: vm_ok_def)
    then have "s1 = s" using vm_alloc_cases [OF _ al] True by auto
    then have "res = None" "s' = free_list got s" using Suc.prems(4) al True by (auto simp: PHYS_NULL_def)
    then show ?thesis using free_list_same [OF Suc.prems(1,2)] Suc.prems(3) by auto
  next
    case False
    note f = vm_alloc_same [OF Suc.prems(1) al False]
    let ?s = "set_frame a (\<lambda>_. 0) s1"
    have z: "same_view k R s1 ?s" "av ?s = av s1" using zero_same [OF same_viewD(1) [OF f(1)]] f(4) by (auto simp: fresh_def)
    have v: "same_view k R s ?s" by (rule same_view_trans [OF f(1) z(1)])
    have "a \<notin> set got" using f(2) Suc.prems(3) by (auto simp: fresh_def)
    moreover have "fresh k ?s R p" if "fresh k s R p" for p using fresh_same [OF v, of "{}"] that z(2) f(3) by auto
    moreover have "fresh k ?s R a" using fresh_same [OF z(1), of "{}"] z(2) f(4) by auto
    moreover have "shm_take_pages n (got @ [a]) ?s = (res, s')" using Suc.prems(4) al False by (simp add: PHYS_NULL_def)
    ultimately have "same_view k R ?s s' \<and> (case res of None \<Rightarrow> av s' = av ?s \<union> set (got @ [a])
      | Some ps \<Rightarrow> distinct ps \<and> length ps = length (got @ [a]) + n \<and> (\<forall>p\<in>set ps. fresh k s' R p \<and> is_frame p)
        \<and> av s' \<union> set ps = av ?s \<union> set (got @ [a]))"
      using Suc.prems(2,3) f(5) by (intro Suc.IH [OF same_viewD(1) [OF v]]) auto
    then show ?thesis using same_view_trans [OF v] z(2) f(2,3) by (auto split: option.splits)
  qed
qed

section \<open>Pages of a slot\<close>

text \<open>The entry of the \<open>j\<close>-th page of slot \<open>i\<close>.\<close>

abbreviation cell :: "vm \<Rightarrow> nat \<Rightarrow> nat \<Rightarrow> nat \<Rightarrow> pte option" where
  "cell s r i j \<equiv> lookup s r (kz_shm_slot_va i + j * 4096)"

definition window :: "nat \<Rightarrow> nat set" where
  "window i = {kz_shm_slot_va i..<kz_shm_slot_va i + KZ_SHM_SLOT_SIZE}"

text \<open>\<open>s'\<close> differs from \<open>s\<close> only in the pages of slot \<open>i\<close> in one address space; frames are neither lost nor gained.\<close>

definition slot_step :: "nat \<Rightarrow> nat set \<Rightarrow> nat \<Rightarrow> nat \<Rightarrow> vm \<Rightarrow> vm \<Rightarrow> bool" where
  "slot_step k R r i s s' \<longleftrightarrow> vm_run k s' R \<and> managed (vm_pmm s') = managed (vm_pmm s)
    \<and> av s' \<subseteq> av s \<and> av s' \<union> owned k s' R = av s \<union> owned k s R
    \<and> (\<forall>q x. in_tree k R q x \<longrightarrow> \<not> (q = r \<and> x \<in> window i) \<longrightarrow> lookup s' q x = lookup s q x)"

lemma slot_stepD:
  assumes "slot_step k R r i s s'"
  shows "vm_run k s' R" and "managed (vm_pmm s') = managed (vm_pmm s)" and "av s' \<subseteq> av s"
    and "av s' \<union> owned k s' R = av s \<union> owned k s R"
    and "\<And>q x. in_tree k R q x \<Longrightarrow> \<not> (q = r \<and> x \<in> window i) \<Longrightarrow> lookup s' q x = lookup s q x"
  using assms unfolding slot_step_def by blast+

lemma slot_step_refl: "vm_run k s R \<Longrightarrow> slot_step k R r i s s"
  by (simp add: slot_step_def)

lemma slot_step_trans: "slot_step k R r i s s1 \<Longrightarrow> slot_step k R r i s1 s2 \<Longrightarrow> slot_step k R r i s s2"
  unfolding slot_step_def by auto

lemma fresh_slot_step: "slot_step k R r i s s' \<Longrightarrow> fresh k s R p \<Longrightarrow> fresh k s' R p"
  unfolding slot_step_def fresh_def by auto

lemma slot_page: "(kz_shm_slot_va i + j * 4096) div 4096 = 0x50000 + i * 2048 + j"
  by (simp add: kz_shm_slot_va_def KZ_SHM_BASE_def KZ_SHM_SLOT_SIZE_def)

lemma slot_va_ok:
  assumes "i < KZ_SHM_MAX_RES" and "j < 2048"
  shows "kz_shm_va_excluded (kz_shm_slot_va i + j * 4096)" and "kz_shm_slot_va i + j * 4096 \<in> window i"
  using assms by (auto simp: kz_shm_va_excluded_def kz_shm_slot_va_def KZ_SHM_BASE_def KZ_SHM_END_def KZ_SHM_MAX_RES_def
      KZ_SHM_SLOT_SIZE_def window_def)

lemma window_page:
  assumes "x div 4096 = (kz_shm_slot_va i + j * 4096) div 4096" and "j < 2048"
  shows "x \<in> window i"
  using assms unfolding slot_page window_def kz_shm_slot_va_def KZ_SHM_BASE_def KZ_SHM_SLOT_SIZE_def by auto

lemma shm_map_one:
  assumes run: "vm_run k s R" and r: "r \<in> R" and ij: "i < KZ_SHM_MAX_RES" "j < 2048" and p: "is_frame p" "flags_ok fl"
    and new: "cell s r i j = None" and eq: "vmm_map_page_into (kz_shm_slot_va i + j * 4096) p fl r s = (b, s')"
  shows "slot_step k R r i s s'" and "\<forall>j'<2048. cell s' r i j' = (if b \<and> j' = j then Some (mk_pte p fl) else cell s r i j')"
proof -
  let ?va = "kz_shm_slot_va i + j * 4096"
  have ok: "vm_ok k s R" by (rule vm_run_ok [OF run])
  note ex = slot_va_ok(1) [OF ij]
  have va: "?va < 2 ^ 47" by (rule shm_user [OF ex])
  have x: "in_tree k R r ?va" using r va by (simp add: in_tree_def)
  have may: "may_map k s R r ?va p" using p(1) ex by (simp add: may_map_def)
  have m: "map_walk r ?va p fl s = (b, s')" using map_into_walk [OF ok x] eq by simp
  note mo = map_walk_ok(4) [OF ok x may p(2) m] and ow = map_walk_owned [OF ok x may p(2) m new]
  have lk: "lookup s' q y = lookup s q y" if "in_tree k R q y" "\<not> (q = r \<and> y \<in> window i)" for q y
    using mo [OF that(1)] other_page [OF r va ok that(1)] window_page [OF _ ij(2), of y i] that(2) by auto
  have "vm_run k s' R" by (rule vm_run.map_shared [OF run r ex p eq])
  moreover have "av s' \<union> owned k s' R = av s \<union> owned k s R" using ow(3) ex by simp
  ultimately show "slot_step k R r i s s'" using ow(1,2) lk by (simp add: slot_step_def)
  show "\<forall>j'<2048. cell s' r i j' = (if b \<and> j' = j then Some (mk_pte p fl) else cell s r i j')"
  proof (intro allI impI)
    fix j' :: nat assume j': "j' < 2048"
    have y: "kz_shm_slot_va i + j' * 4096 < 2 ^ 47" by (rule shm_user [OF slot_va_ok(1) [OF ij(1) j']])
    have "same_page ?va (kz_shm_slot_va i + j' * 4096) \<longleftrightarrow> j' = j" unfolding user_same_page [OF va y] slot_page by auto
    then show "cell s' r i j' = (if b \<and> j' = j then Some (mk_pte p fl) else cell s r i j')"
      using mo [of r "kz_shm_slot_va i + j' * 4096"] r y by (simp add: in_tree_def)
  qed
qed

lemma shm_unmap_one:
  assumes run: "vm_run k s R" and r: "r \<in> R" and ij: "i < KZ_SHM_MAX_RES" "j < 2048"
    and s': "s' = snd (vmm_unmap_page_from (kz_shm_slot_va i + j * 4096) r s)"
  shows "slot_step k R r i s s'" and "av s' = av s" and "\<forall>j'<2048. cell s' r i j' = (if j' = j then None else cell s r i j')"
proof -
  let ?va = "kz_shm_slot_va i + j * 4096"
  have ok: "vm_ok k s R" by (rule vm_run_ok [OF run])
  note ex = slot_va_ok(1) [OF ij]
  have va: "?va < 2 ^ 47" by (rule shm_user [OF ex])
  have x: "in_tree k R r ?va" using r va by (simp add: in_tree_def)
  obtain f where u: "vmm_unmap_page_from ?va r s = (f, s')" using s' by (cases "vmm_unmap_page_from ?va r s") simp
  note uo = unmap_from_ok [OF ok x u]
  have pm: "vm_pmm s' = vm_pmm s" using u by (auto simp: vmm_unmap_page_from_def store_pte_def split: option.splits)
  have lk: "lookup s' q y = lookup s q y" if "in_tree k R q y" "\<not> (q = r \<and> y \<in> window i)" for q y
    using uo(4) [OF that(1)] other_page [OF r va ok that(1)] window_page [OF _ ij(2), of y i] that(2) by auto
  have "vm_run k s' R" by (rule vm_run.unmap_shared [OF run r ex u])
  then show "slot_step k R r i s s'" using pm uo(3,6) ex lk by (simp add: slot_step_def)
  show "av s' = av s" by (rule uo(3))
  show "\<forall>j'<2048. cell s' r i j' = (if j' = j then None else cell s r i j')"
  proof (intro allI impI)
    fix j' :: nat assume j': "j' < 2048"
    have y: "kz_shm_slot_va i + j' * 4096 < 2 ^ 47" by (rule shm_user [OF slot_va_ok(1) [OF ij(1) j']])
    have "same_page ?va (kz_shm_slot_va i + j' * 4096) \<longleftrightarrow> j' = j" unfolding user_same_page [OF va y] slot_page by auto
    then show "cell s' r i j' = (if j' = j then None else cell s r i j')"
      using uo(4) [of r "kz_shm_slot_va i + j' * 4096"] r y by (simp add: in_tree_def)
  qed
qed

lemma shm_unmap_pages_ok:
  assumes run: "vm_run k s R" and r: "r \<in> R" and i: "i < KZ_SHM_MAX_RES" and n: "n \<le> 2048"
  shows "slot_step k R r i s (shm_unmap_pages (kz_shm_slot_va i) n r s)
    \<and> (\<forall>j<2048. cell (shm_unmap_pages (kz_shm_slot_va i) n r s) r i j = (if j < n then None else cell s r i j))"
  using n
proof (induction n)
  case 0
  then show ?case using slot_step_refl [OF run] by (simp add: shm_unmap_pages_def)
next
  case (Suc n)
  define t where "t = shm_unmap_pages (kz_shm_slot_va i) n r s"
  have un: "shm_unmap_pages (kz_shm_slot_va i) (Suc n) r s = snd (vmm_unmap_page_from (kz_shm_slot_va i + n * 4096) r t)"
    by (simp add: shm_unmap_pages_def t_def)
  have ih: "slot_step k R r i s t" "\<forall>j<2048. cell t r i j = (if j < n then None else cell s r i j)" using Suc by (auto simp: t_def)
  have n: "n < 2048" using Suc.prems by simp
  note u = shm_unmap_one [OF slot_stepD(1) [OF ih(1)] r i n refl]
  show ?case unfolding un using slot_step_trans [OF ih(1) u(1)] u(3) ih(2) by (auto simp: less_Suc_eq)
qed

lemma shm_map_pages_ok:
  assumes r: "r \<in> R" and i: "i < KZ_SHM_MAX_RES" and fl: "flags_ok fl"
    and "slot_step k R r i s0 s" and "j + length ps \<le> 2048" and "\<forall>p\<in>set ps. is_frame p"
    and "\<forall>j'<2048. j \<le> j' \<longrightarrow> cell s r i j' = None" and "shm_map_pages (kz_shm_slot_va i) j ps fl r s = (b, s')"
  shows "slot_step k R r i s0 s' \<and> (\<forall>j'<2048. cell s' r i j' = (if \<not> b then None
      else if j' < j then cell s r i j' else if j' < j + length ps then Some (mk_pte (ps ! (j' - j)) fl) else None))"
  using assms(4-8)
proof (induction ps arbitrary: j s)
  case Nil
  then show ?case by auto
next
  case (Cons p ps)
  let ?va = "kz_shm_slot_va i + j * 4096"
  have j: "j < 2048" using Cons.prems(2) by simp
  obtain c s1 where m: "vmm_map_page_into ?va p fl r s = (c, s1)" by (cases "vmm_map_page_into ?va p fl r s")
  have "is_frame p" "cell s r i j = None" using Cons.prems(3,4) j by auto
  note mo = shm_map_one [OF slot_stepD(1) [OF Cons.prems(1)] r i j this(1) fl this(2) m]
  have st: "slot_step k R r i s0 s1" by (rule slot_step_trans [OF Cons.prems(1) mo(1)])
  show ?case
  proof (cases c)
    case False
    then have e: "b = False" "s' = shm_unmap_pages (kz_shm_slot_va i) j r s1" using Cons.prems(5) m by auto
    have "j \<le> 2048" using j by simp
    note u = shm_unmap_pages_ok [OF slot_stepD(1) [OF st] r i this, folded e(2)]
    then show ?thesis using slot_step_trans [OF st] e(1) mo(2) Cons.prems(4) False by auto
  next
    case True
    then have eq: "shm_map_pages (kz_shm_slot_va i) (Suc j) ps fl r s1 = (b, s')" using Cons.prems(5) m by simp
    have c1: "\<forall>j'<2048. cell s1 r i j' = (if j' = j then Some (mk_pte p fl) else cell s r i j')" using mo(2) True by simp
    have "slot_step k R r i s0 s' \<and> (\<forall>j'<2048. cell s' r i j' = (if \<not> b then None
      else if j' < Suc j then cell s1 r i j' else if j' < Suc j + length ps then Some (mk_pte (ps ! (j' - Suc j)) fl) else None))"
      using Cons.prems(2,3,4) c1 by (intro Cons.IH [OF st _ _ _ eq]) auto
    moreover have "(if j' < Suc j then cell s1 r i j' else if j' < Suc j + length ps then Some (mk_pte (ps ! (j' - Suc j)) fl) else None)
        = (if j' < j then cell s r i j' else if j' < j + length (p # ps) then Some (mk_pte ((p # ps) ! (j' - j)) fl) else None)"
      if "j' < 2048" for j' using c1 that by (auto simp: nth_Cons' less_Suc_eq)
    ultimately show ?thesis by auto
  qed
qed

lemma shm_flags_bit: "bit (shm_flags w) n \<longleftrightarrow> n = 0 \<or> n = 2 \<or> n = 63 \<or> w \<and> n = 1"
proof -
  have "bit PAGING_NX n \<longleftrightarrow> n = 63" by (simp only: pte_bits)
  moreover have "bit (if w then (2 :: pte) else 0) n \<longleftrightarrow> w \<and> n = 1"
    by (cases w) (simp_all only: if_True if_False bit_low_flags bit_0_eq bot_apply bot_bool_def simp_thms)
  ultimately show ?thesis
    unfolding shm_flags_def bit_or_iff PAGING_PRESENT_def PAGING_USER_def PAGING_WRITABLE_def bit_low_flags by blast
qed

lemma shm_flags_ok: "flags_ok (shm_flags w)"
  by (rule flags_okI) (auto simp: shm_flags_bit)

lemma shm_pte: "is_frame p \<Longrightarrow> pte_frame (mk_pte p (shm_flags w)) = p \<and> (bit (mk_pte p (shm_flags w)) 1 \<longleftrightarrow> w)"
  using mk_pte_frame [OF _ shm_flags_ok, of p w]
  by (auto simp only: mk_pte_def bit_or_iff bit_and_iff PAGE_MASK_bit shm_flags_bit)

text \<open>The part of \<open>kz_shm_create\<close> without the lock.\<close>

lemma shm_fill_ok:
  assumes run: "vm_run k s R" and r: "r \<in> R" and i: "i < KZ_SHM_MAX_RES" "n \<le> 2048"
    and new: "\<forall>j<2048. cell s r i j = None" and eq: "shm_fill kn i n r s = (res, s')"
  shows "vm_run k s' R" and "managed (vm_pmm s') = managed (vm_pmm s)" and "av s' \<subseteq> av s"
    and "\<And>q x. in_tree k R q x \<Longrightarrow> \<not> (q = r \<and> x \<in> window i) \<Longrightarrow> lookup s' q x = lookup s q x"
    and "case res of None \<Rightarrow> av s' \<union> owned k s' R = av s \<union> owned k s R \<and> (\<forall>j<2048. cell s' r i j = None)
      | Some ps \<Rightarrow> distinct ps \<and> length ps = n \<and> (\<forall>p\<in>set ps. fresh k s' R p \<and> is_frame p \<and> p \<in> av s)
        \<and> av s' \<union> owned k s' R \<union> set ps = av s \<union> owned k s R
        \<and> (\<forall>j<2048. cell s' r i j = (if j < n then Some (mk_pte (ps ! j) (shm_flags True)) else None))"
proof -
  have "vm_run k s' R \<and> managed (vm_pmm s') = managed (vm_pmm s) \<and> av s' \<subseteq> av s
    \<and> (\<forall>q x. in_tree k R q x \<longrightarrow> \<not> (q = r \<and> x \<in> window i) \<longrightarrow> lookup s' q x = lookup s q x)
    \<and> (case res of None \<Rightarrow> av s' \<union> owned k s' R = av s \<union> owned k s R \<and> (\<forall>j<2048. cell s' r i j = None)
      | Some ps \<Rightarrow> distinct ps \<and> length ps = n \<and> (\<forall>p\<in>set ps. fresh k s' R p \<and> is_frame p \<and> p \<in> av s)
        \<and> av s' \<union> owned k s' R \<union> set ps = av s \<union> owned k s R
        \<and> (\<forall>j<2048. cell s' r i j = (if j < n then Some (mk_pte (ps ! j) (shm_flags True)) else None)))"
  proof (cases kn)
    case False
    then show ?thesis using eq run new by (auto simp: shm_fill_def)
  next
    case True
    obtain res1 s1 where tk: "shm_take_pages n [] s = (res1, s1)" by (cases "shm_take_pages n [] s")
    have t: "same_view k R s s1 \<and> (case res1 of None \<Rightarrow> av s1 = av s
      | Some ps \<Rightarrow> distinct ps \<and> length ps = n \<and> (\<forall>p\<in>set ps. fresh k s1 R p \<and> is_frame p) \<and> av s1 \<union> set ps = av s)"
      using shm_take_pages_ok [OF run _ _ tk] by (auto split: option.splits)
    have v: "same_view k R s s1" using t by blast
    have c1: "cell s1 r i j = None" if "j < 2048" for j
      using same_viewD(4) [OF v, of r] r shm_user [OF slot_va_ok(1) [OF i(1) that]] new that by (simp add: in_tree_def)
    show ?thesis
    proof (cases res1)
      case None
      then have "res = None" "s' = s1" using eq True tk by (auto simp: shm_fill_def)
      then show ?thesis using t None same_viewD [OF v] c1 by auto
    next
      case (Some ps)
      have ps: "distinct ps" "length ps = n" "\<forall>p\<in>set ps. fresh k s1 R p \<and> is_frame p" "av s1 \<union> set ps = av s" using t Some by auto
      obtain b s2 where m: "shm_map_pages (kz_shm_slot_va i) 0 ps (shm_flags True) r s1 = (b, s2)"
        by (cases "shm_map_pages (kz_shm_slot_va i) 0 ps (shm_flags True) r s1")
      have mp: "slot_step k R r i s1 s2" "\<forall>j<2048. cell s2 r i j = (if \<not> b then None
          else if j < n then Some (mk_pte (ps ! j) (shm_flags True)) else None)"
        using shm_map_pages_ok [OF r i(1) shm_flags_ok slot_step_refl [OF same_viewD(1) [OF v]], of 0 ps True b s2] ps c1 i(2) m by auto
      note sd = slot_stepD [OF mp(1)] and sv = same_viewD [OF v]
      have fr: "\<forall>p\<in>set ps. fresh k s2 R p" using fresh_slot_step [OF mp(1)] ps(3) by blast
      show ?thesis
      proof (cases b)
        case True
        then have e: "res = Some ps" "s' = s2" using eq \<open>kn\<close> tk Some m by (auto simp: shm_fill_def)
        have "av s2 \<union> owned k s2 R \<union> set ps = av s \<union> owned k s R" using sd(4) sv(3) ps(4) by auto
        then show ?thesis using e sd sv fr ps mp(2) True by auto
      next
        case False
        then have e: "res = None" "s' = free_list ps s2" using eq \<open>kn\<close> tk Some m by (auto simp: shm_fill_def)
        have fl: "same_view k R s2 s'" "av s' = av s2 \<union> set ps" using free_list_same [OF sd(1) ps(1) fr] e(2) by auto
        note fv = same_viewD [OF fl(1)]
        have "cell s' r i j = None" if "j < 2048" for j
          using fv(4) [of r] r shm_user [OF slot_va_ok(1) [OF i(1) that]] mp(2) that False by (simp add: in_tree_def)
        moreover have "av s' \<union> owned k s' R = av s \<union> owned k s R" using sd(4) sv(3) fv(3) fl(2) ps(4) by auto
        ultimately show ?thesis using e sd(2,3,5) sv(2,4) fv(1,2,4) fl(2) ps(4) by auto
      qed
    qed
  qed
  then show "vm_run k s' R" and "managed (vm_pmm s') = managed (vm_pmm s)" and "av s' \<subseteq> av s"
    and "\<And>q x. in_tree k R q x \<Longrightarrow> \<not> (q = r \<and> x \<in> window i) \<Longrightarrow> lookup s' q x = lookup s q x"
    and "case res of None \<Rightarrow> av s' \<union> owned k s' R = av s \<union> owned k s R \<and> (\<forall>j<2048. cell s' r i j = None)
      | Some ps \<Rightarrow> distinct ps \<and> length ps = n \<and> (\<forall>p\<in>set ps. fresh k s' R p \<and> is_frame p \<and> p \<in> av s)
        \<and> av s' \<union> owned k s' R \<union> set ps = av s \<union> owned k s R
        \<and> (\<forall>j<2048. cell s' r i j = (if j < n then Some (mk_pte (ps ! j) (shm_flags True)) else None))"
    by blast+
qed

end
