(* ===== verification/Shm_Inv.thy ===== *)
theory Shm_Inv
  imports Shm_Mem
begin

text \<open>
  The shared surfaces under concurrent tasks. The invariant says which frames belong to which slot, which task sees which
  of them and with which rights, also while calls are between their two parts; every part of every call keeps it.
\<close>

section \<open>Invariant\<close>

text \<open>Where a task stands: outside, between the parts of creating (with the arguments of the call), of mapping or of unmapping.\<close>

datatype phase = Idle | Filling nat nat nat nat nat | Mapping nat bool | Dropping nat nat

definition about :: "nat \<Rightarrow> phase \<Rightarrow> bool" where
  "about i ph \<longleftrightarrow> (case ph of Idle \<Rightarrow> True | Filling j _ _ _ _ \<Rightarrow> j = i | Mapping j _ \<Rightarrow> j = i | Dropping j _ \<Rightarrow> j = i)"

definition slot_ok :: "int set \<Rightarrow> (int \<Rightarrow> phase) \<Rightarrow> nat \<Rightarrow> kz_shm_slot \<Rightarrow> bool" where
  "slot_ok A P i sl \<longleftrightarrow>
    (\<not> sl_used sl \<longrightarrow> sl_pages sl = [] \<and> sl_maps sl = [] \<and> sl_refs sl = [] \<and> \<not> sl_creating sl)
    \<and> (sl_creating sl \<longrightarrow> sl_used sl \<and> sl_pages sl = [] \<and> sl_maps sl = [] \<and> sl_refs sl = [] \<and> \<not> sl_destroyed sl \<and> \<not> sl_published sl
        \<and> (\<exists>n w h f. P (sl_owner sl) = Filling i n w h f))
    \<and> (sl_used sl \<longrightarrow> \<not> sl_creating sl \<longrightarrow> sl_pages sl \<noteq> [] \<and> length (sl_pages sl) \<le> 2048
        \<and> (sl_destroyed sl \<longrightarrow> sl_maps sl \<noteq> [] \<or> sl_refs sl \<noteq> []))
    \<and> (sl_used sl \<longrightarrow> \<not> sl_destroyed sl \<longrightarrow> sl_owner sl \<in> A)
    \<and> distinct (sl_maps sl) \<and> (\<forall>u\<in>set (sl_maps sl). u \<in> A \<and> (u = sl_owner sl \<or> sl_published sl))
    \<and> (\<forall>u n w h f. P u = Filling i n w h f \<longrightarrow> sl_creating sl \<and> sl_owner sl = u \<and> 0 < n \<and> n \<le> 2048)
    \<and> (\<forall>u w. P u = Mapping i w \<longrightarrow> u \<in> set (sl_maps sl))
    \<and> (\<forall>u n. P u = Dropping i n \<longrightarrow> u \<notin> set (sl_maps sl) \<and> n \<le> 2048)"

lemma slot_okD:
  assumes "slot_ok A P i sl"
  shows "\<not> sl_used sl \<Longrightarrow> sl_pages sl = [] \<and> sl_maps sl = [] \<and> sl_refs sl = [] \<and> \<not> sl_creating sl"
    and "sl_creating sl \<Longrightarrow> sl_used sl \<and> sl_pages sl = [] \<and> sl_maps sl = [] \<and> sl_refs sl = [] \<and> \<not> sl_destroyed sl \<and> \<not> sl_published sl"
    and "sl_creating sl \<Longrightarrow> \<exists>n w h f. P (sl_owner sl) = Filling i n w h f"
    and "sl_used sl \<Longrightarrow> \<not> sl_creating sl \<Longrightarrow> sl_pages sl \<noteq> [] \<and> length (sl_pages sl) \<le> 2048"
    and "sl_used sl \<Longrightarrow> \<not> sl_creating sl \<Longrightarrow> sl_destroyed sl \<Longrightarrow> sl_maps sl \<noteq> [] \<or> sl_refs sl \<noteq> []"
    and "sl_used sl \<Longrightarrow> \<not> sl_destroyed sl \<Longrightarrow> sl_owner sl \<in> A" and "distinct (sl_maps sl)"
    and "\<And>u. u \<in> set (sl_maps sl) \<Longrightarrow> u \<in> A \<and> (u = sl_owner sl \<or> sl_published sl)"
    and "\<And>u n w h f. P u = Filling i n w h f \<Longrightarrow> sl_creating sl \<and> sl_owner sl = u \<and> 0 < n \<and> n \<le> 2048"
    and "\<And>u w. P u = Mapping i w \<Longrightarrow> u \<in> set (sl_maps sl)"
    and "\<And>u n. P u = Dropping i n \<Longrightarrow> u \<notin> set (sl_maps sl) \<and> n \<le> 2048"
  using assms unfolding slot_ok_def by (simp, simp, simp, simp, simp, simp, simp, simp, blast, blast, blast)

text \<open>The pages of slot \<open>i\<close> in the address space \<open>r\<close>: exactly the frames, writable at most for the owner.\<close>

definition shows_slot :: "vm \<Rightarrow> nat \<Rightarrow> nat \<Rightarrow> nat list \<Rightarrow> bool \<Rightarrow> bool" where
  "shows_slot s r i ps w \<longleftrightarrow> (\<forall>j<2048. case cell s r i j of None \<Rightarrow> length ps \<le> j
     | Some e \<Rightarrow> j < length ps \<and> pte_frame e = ps ! j \<and> (bit e 1 \<longrightarrow> w))"

definition win_ok :: "vm \<Rightarrow> nat \<Rightarrow> nat \<Rightarrow> kz_shm_slot \<Rightarrow> int \<Rightarrow> phase \<Rightarrow> bool" where
  "win_ok s r i sl t ph \<longleftrightarrow>
    (if t \<in> set (sl_maps sl) \<and> (\<forall>w. ph \<noteq> Mapping i w) then shows_slot s r i (sl_pages sl) (t = sl_owner sl)
     else \<forall>j<2048. cell s r i j \<noteq> None \<longrightarrow> (\<exists>n. ph = Dropping i n \<and> j < n))"

definition slot_frames_ok :: "nat \<Rightarrow> vm \<Rightarrow> nat set \<Rightarrow> kz_shm_slot list \<Rightarrow> bool" where
  "slot_frames_ok k s R sls \<longleftrightarrow> (\<forall>i<length sls. distinct (sl_pages (sls ! i)) \<and> (\<forall>p\<in>set (sl_pages (sls ! i)). fresh k s R p \<and> is_frame p))
    \<and> (\<forall>i<length sls. \<forall>j<length sls. i \<noteq> j \<longrightarrow> set (sl_pages (sls ! i)) \<inter> set (sl_pages (sls ! j)) = {})"

text \<open>\<open>T\<close> gives the address space of a task, \<open>P\<close> where it stands; \<open>X\<close> are tasks about to leave.\<close>

definition shm_inv :: "nat \<Rightarrow> shm \<Rightarrow> vm \<Rightarrow> nat set \<Rightarrow> (int \<Rightarrow> nat option) \<Rightarrow> (int \<Rightarrow> phase) \<Rightarrow> int set \<Rightarrow> bool" where
  "shm_inv k st s R T P X \<longleftrightarrow> vm_run k s R \<and> length (g_shm st) = KZ_SHM_MAX_RES
    \<and> (\<forall>t r. T t = Some r \<longrightarrow> r \<in> R) \<and> (\<forall>t u r. T t = Some r \<longrightarrow> T u = Some r \<longrightarrow> t = u)
    \<and> (\<forall>t. P t \<noteq> Idle \<longrightarrow> T t \<noteq> None) \<and> slot_frames_ok k s R (g_shm st)
    \<and> (\<forall>i<KZ_SHM_MAX_RES. slot_ok (dom T \<union> X) P i (g_shm st ! i))
    \<and> (\<forall>t r i. T t = Some r \<longrightarrow> i < KZ_SHM_MAX_RES \<longrightarrow> win_ok s r i (g_shm st ! i) t (P t))"

lemma shm_invD:
  assumes "shm_inv k st s R T P X"
  shows "vm_run k s R" and "length (g_shm st) = KZ_SHM_MAX_RES" and "\<And>t r. T t = Some r \<Longrightarrow> r \<in> R"
    and "\<And>t u r. T t = Some r \<Longrightarrow> T u = Some r \<Longrightarrow> t = u" and "\<And>t. P t \<noteq> Idle \<Longrightarrow> T t \<noteq> None"
    and "slot_frames_ok k s R (g_shm st)" and "\<And>i. i < KZ_SHM_MAX_RES \<Longrightarrow> slot_ok (dom T \<union> X) P i (g_shm st ! i)"
    and "\<And>t r i. T t = Some r \<Longrightarrow> i < KZ_SHM_MAX_RES \<Longrightarrow> win_ok s r i (g_shm st ! i) t (P t)"
  using assms unfolding shm_inv_def by blast+

lemma slot_frames_okD:
  assumes "slot_frames_ok k s R sls" and "i < length sls"
  shows "distinct (sl_pages (sls ! i))" and "\<And>p. p \<in> set (sl_pages (sls ! i)) \<Longrightarrow> fresh k s R p \<and> is_frame p"
    and "\<And>j p. j < length sls \<Longrightarrow> i \<noteq> j \<Longrightarrow> p \<in> set (sl_pages (sls ! i)) \<Longrightarrow> p \<notin> set (sl_pages (sls ! j))"
  using assms unfolding slot_frames_ok_def by blast+

lemma slot_ok_other:
  assumes "slot_ok A P j sl" and "about i (P t)" "about i ph" "i \<noteq> j"
  shows "slot_ok A (P(t := ph)) j sl"
proof -
  have f: "(P(t := ph)) u = Filling j n w h f \<longleftrightarrow> P u = Filling j n w h f" for u n w h f
    using assms(2-4) by (cases "u = t") (auto simp: about_def)
  moreover have "(P(t := ph)) u = Mapping j w \<longleftrightarrow> P u = Mapping j w" for u w using assms(2-4) by (cases "u = t") (auto simp: about_def)
  moreover have "(P(t := ph)) u = Dropping j n \<longleftrightarrow> P u = Dropping j n" for u n using assms(2-4) by (cases "u = t") (auto simp: about_def)
  ultimately show ?thesis using assms(1) unfolding slot_ok_def by presburger
qed

lemma win_ok_cells:
  assumes "win_ok s r j sl u ph" and "\<And>x. x < 2048 \<Longrightarrow> cell s' r j x = cell s r j x"
    and "u \<in> set (sl_maps sl') \<longleftrightarrow> u \<in> set (sl_maps sl)" and "u \<in> set (sl_maps sl) \<Longrightarrow> sl_pages sl' = sl_pages sl \<and> sl_owner sl' = sl_owner sl"
    and "\<And>w. ph' = Mapping j w \<longleftrightarrow> ph = Mapping j w" "\<And>n. ph' = Dropping j n \<longleftrightarrow> ph = Dropping j n"
  shows "win_ok s' r j sl' u ph'"
proof -
  have "shows_slot s' r j ps w = shows_slot s r j ps w" for ps w by (simp add: shows_slot_def assms(2))
  moreover define c where "c \<longleftrightarrow> u \<in> set (sl_maps sl) \<and> (\<forall>w. ph \<noteq> Mapping j w)"
  moreover have "c \<Longrightarrow> u \<in> set (sl_maps sl)" by (simp add: c_def)
  ultimately show ?thesis
    using assms(1,2,4) unfolding win_ok_def assms(3,5,6) c_def [symmetric] by (cases c) simp_all
qed

lemma windows_apart: "i \<noteq> j \<Longrightarrow> x < 2048 \<Longrightarrow> kz_shm_slot_va j + x * 4096 \<notin> window i"
  by (auto simp: window_def kz_shm_slot_va_def KZ_SHM_SLOT_SIZE_def dest!: nat_neq_iff [THEN iffD1])

lemma cell_user: "r \<in> R \<Longrightarrow> j < KZ_SHM_MAX_RES \<Longrightarrow> x < 2048 \<Longrightarrow> in_tree k R r (kz_shm_slot_va j + x * 4096)"
  using shm_user [OF slot_va_ok(1)] by (simp add: in_tree_def)

section \<open>One slot changes\<close>

lemma shm_update:
  assumes inv: "shm_inv k st s R T P X" and i: "i < KZ_SHM_MAX_RES" and st': "g_shm st' = (g_shm st)[i := sl']"
    and run: "vm_run k s' R" and ph: "about i (P t)" "about i ph" "ph \<noteq> Idle \<longrightarrow> T t \<noteq> None"
    and slot: "slot_ok (dom T \<union> X) (P(t := ph)) i sl'"
    and fr: "\<And>p. fresh k s R p \<Longrightarrow> p \<notin> set (sl_pages (g_shm st ! i)) \<Longrightarrow> fresh k s' R p"
    and pg: "distinct (sl_pages sl')" "\<forall>p\<in>set (sl_pages sl'). fresh k s' R p \<and> is_frame p \<and> (p \<in> set (sl_pages (g_shm st ! i)) \<or> p \<in> av s)"
    and lk: "\<And>q x. in_tree k R q x \<Longrightarrow> \<not> (T t = Some q \<and> x \<in> window i) \<Longrightarrow> lookup s' q x = lookup s q x"
    and oth: "\<And>u. u \<noteq> t \<Longrightarrow> u \<in> set (sl_maps sl') \<longleftrightarrow> u \<in> set (sl_maps (g_shm st ! i))"
      "\<And>u. u \<noteq> t \<Longrightarrow> u \<in> set (sl_maps (g_shm st ! i)) \<Longrightarrow> sl_pages sl' = sl_pages (g_shm st ! i) \<and> sl_owner sl' = sl_owner (g_shm st ! i)"
    and own: "\<And>r. T t = Some r \<Longrightarrow> win_ok s' r i sl' t ph"
  shows "shm_inv k st' s' R T (P(t := ph)) X"
proof -
  note I = shm_invD [OF inv]
  have len: "length (g_shm st') = KZ_SHM_MAX_RES" using I(2) st' by simp
  have nth: "g_shm st' ! j = (if j = i then sl' else g_shm st ! j)" if "j < KZ_SHM_MAX_RES" for j using I(2) st' that i by simp
  have F: "slot_frames_ok k s' R (g_shm st')" unfolding slot_frames_ok_def len
  proof (intro conjI allI impI)
    fix j assume j: "j < KZ_SHM_MAX_RES"
    note fo = slot_frames_okD [OF I(6), unfolded I(2)]
    show "distinct (sl_pages (g_shm st' ! j))" using fo(1) [OF j] pg(1) by (simp add: nth [OF j])
    show "\<forall>p\<in>set (sl_pages (g_shm st' ! j)). fresh k s' R p \<and> is_frame p"
      using fo(2,3) [OF j] pg(2) fr i by (auto simp: nth [OF j])
    fix l assume l: "l < KZ_SHM_MAX_RES" "j \<noteq> l"
    have "p \<notin> set (sl_pages (g_shm st ! x))" if "p \<in> set (sl_pages sl')" "x < KZ_SHM_MAX_RES" "x \<noteq> i" for p x
      using pg(2) that fo(2) [OF that(2), of p] fo(3) [OF i that(2), of p] by (auto simp: fresh_def)
    then show "set (sl_pages (g_shm st' ! j)) \<inter> set (sl_pages (g_shm st' ! l)) = {}"
      using fo(3) [OF j l(1)] l j by (auto simp: nth)
  qed
  have S: "slot_ok (dom T \<union> X) (P(t := ph)) j (g_shm st' ! j)" if "j < KZ_SHM_MAX_RES" for j
    using slot slot_ok_other [OF I(7) [OF that] ph(1,2)] nth [OF that] by (cases "j = i") simp_all
  have W: "win_ok s' r j (g_shm st' ! j) u ((P(t := ph)) u)" if u: "T u = Some r" and j: "j < KZ_SHM_MAX_RES" for u r j
  proof (cases "j = i \<and> u = t")
    case True
    then show ?thesis using own u nth [OF j] by simp
  next
    case False
    have "cell s' r j x = cell s r j x" if "x < 2048" for x
    proof (rule lk [OF cell_user [OF I(3) [OF u] j that]])
      show "\<not> (T t = Some r \<and> kz_shm_slot_va j + x * 4096 \<in> window i)"
        using False I(4) [OF u] windows_apart [of i j x] that by auto
    qed
    moreover have "(P(t := ph)) u = Mapping j w \<longleftrightarrow> P u = Mapping j w" for w using False ph(1,2) by (cases "u = t") (auto simp: about_def)
    moreover have "(P(t := ph)) u = Dropping j n \<longleftrightarrow> P u = Dropping j n" for n using False ph(1,2) by (cases "u = t") (auto simp: about_def)
    moreover have "u \<in> set (sl_maps (g_shm st' ! j)) \<longleftrightarrow> u \<in> set (sl_maps (g_shm st ! j))"
      using False oth(1) [of u] nth [OF j] by auto
    moreover have "sl_pages (g_shm st' ! j) = sl_pages (g_shm st ! j) \<and> sl_owner (g_shm st' ! j) = sl_owner (g_shm st ! j)"
      if "u \<in> set (sl_maps (g_shm st ! j))" using False oth(2) [of u] that nth [OF j] by (cases "j = i") auto
    ultimately show ?thesis by (intro win_ok_cells [OF I(8) [OF u j]]) auto
  qed
  have "\<forall>u. (P(t := ph)) u \<noteq> Idle \<longrightarrow> T u \<noteq> None" using I(5) ph(3) by (simp add: fun_upd_def)
  then show ?thesis unfolding shm_inv_def using run len I(3,4) F S W by blast
qed

text \<open>Frames free, in use by address spaces, or held by slots.\<close>

definition shm_total :: "nat \<Rightarrow> shm \<Rightarrow> vm \<Rightarrow> nat set \<Rightarrow> nat set" where
  "shm_total k st s R = av s \<union> owned k s R \<union> (\<Union>i<KZ_SHM_MAX_RES. set (sl_pages (g_shm st ! i)))"

lemma total_update:
  assumes "i < KZ_SHM_MAX_RES" "length (g_shm st) = KZ_SHM_MAX_RES" and "g_shm st' = (g_shm st)[i := sl']"
    and "av s' \<union> owned k s' R \<union> set (sl_pages sl') = av s \<union> owned k s R \<union> set (sl_pages (g_shm st ! i))"
  shows "shm_total k st' s' R = shm_total k st s R"
proof -
  let ?rest = "\<Union>j\<in>{..<KZ_SHM_MAX_RES} - {i}. set (sl_pages (g_shm st ! j))"
  have old: "(\<Union>j<KZ_SHM_MAX_RES. set (sl_pages (g_shm st ! j))) = ?rest \<union> set (sl_pages (g_shm st ! i))" using assms(1) by blast
  have new: "(\<Union>j<KZ_SHM_MAX_RES. set (sl_pages (g_shm st' ! j))) = ?rest \<union> set (sl_pages sl')"
  proof -
    have "g_shm st' ! j = (if j = i then sl' else g_shm st ! j)" if "j < KZ_SHM_MAX_RES" for j using assms(1-3) that by simp
    then show ?thesis using assms(1) by (auto split: if_splits)
  qed
  have "A \<union> (?rest \<union> B) = (A \<union> B) \<union> ?rest" for A B :: "nat set" by (simp only: Un_ac)
  then show ?thesis unfolding shm_total_def old new using assms(4) by simp
qed

lemma maybe_free_cases:
  assumes "maybe_free sl s = (sl', s')"
  obtains (keep) "sl' = sl" "s' = s" "sl_destroyed sl \<Longrightarrow> \<not> sl_creating sl \<Longrightarrow> sl_maps sl \<noteq> [] \<or> sl_refs sl \<noteq> []"
  | (free) g where "sl_destroyed sl" "sl_maps sl = []" "sl_refs sl = []" "\<not> sl_creating sl"
      "s' = free_list (filter (\<lambda>p. p \<noteq> 0) (sl_pages sl)) s"
      "sl' = sl\<lparr>sl_pages := [], sl_used := False, sl_published := False, sl_destroyed := False, sl_generation := g\<rparr>"
proof (cases "sl_destroyed sl \<and> sl_maps sl = [] \<and> sl_refs sl = [] \<and> \<not> sl_creating sl")
  case True
  define g where "g = (if u32 (sl_generation sl + 1) = 0 then 1 else u32 (sl_generation sl + 1))"
  have "maybe_free sl s = (sl\<lparr>sl_pages := [], sl_used := False, sl_published := False, sl_destroyed := False, sl_generation := g\<rparr>,
      free_list (filter (\<lambda>p. p \<noteq> 0) (sl_pages sl)) s)"
    using True by (simp add: maybe_free_def shm_free_pages_def Let_def g_def)
  then show thesis using True assms by (intro free [of g]) simp_all
next
  case False
  then have "sl' = sl" "s' = s" using assms by (simp_all only: maybe_free_def if_False prod.inject)
  then show thesis using False by (intro keep) auto
qed

lemma fresh_not_null: "fresh k s R p \<Longrightarrow> p \<noteq> 0"
  using managed_not_null by (auto simp: fresh_def PHYS_NULL_def)

lemma maybe_free_memory:
  assumes inv: "shm_inv k st s R T P X" and i: "i < KZ_SHM_MAX_RES" and pg: "sl_pages sl = sl_pages (g_shm st ! i)"
    and mf: "maybe_free sl s = (sl', s')"
  shows "vm_run k s' R" and "\<And>q x. in_tree k R q x \<Longrightarrow> lookup s' q x = lookup s q x"
    and "\<And>p. fresh k s R p \<Longrightarrow> p \<notin> set (sl_pages (g_shm st ! i)) \<Longrightarrow> fresh k s' R p"
    and "av s' \<union> owned k s' R \<union> set (sl_pages sl') = av s \<union> owned k s R \<union> set (sl_pages (g_shm st ! i))"
    and "owned k s' R = owned k s R"
proof -
  note I = shm_invD [OF inv]
  note fo = slot_frames_okD [OF I(6), unfolded I(2), OF i]
  have "vm_run k s' R \<and> (\<forall>q x. in_tree k R q x \<longrightarrow> lookup s' q x = lookup s q x)
    \<and> (\<forall>p. fresh k s R p \<longrightarrow> p \<notin> set (sl_pages (g_shm st ! i)) \<longrightarrow> fresh k s' R p)
    \<and> av s' \<union> owned k s' R \<union> set (sl_pages sl') = av s \<union> owned k s R \<union> set (sl_pages (g_shm st ! i)) \<and> owned k s' R = owned k s R"
    using mf
  proof (cases rule: maybe_free_cases)
    case keep
    then show ?thesis using I(1) pg by simp
  next
    case (free g)
    have "filter (\<lambda>p. p \<noteq> 0) (sl_pages sl) = sl_pages sl" using fo(2) fresh_not_null pg by (intro filter_True) metis
    then have s': "s' = free_list (sl_pages sl) s" using free(5) by simp
    have "same_view k R s s' \<and> av s' = av s \<union> set (sl_pages sl)"
      unfolding s' using fo(1,2) pg by (intro free_list_same [OF I(1)]) auto
    then show ?thesis using pg free(6) fresh_same [of k R s s' "set (sl_pages sl)"] by (auto simp: same_view_def)
  qed
  then show "vm_run k s' R" and "\<And>q x. in_tree k R q x \<Longrightarrow> lookup s' q x = lookup s q x"
    and "\<And>p. fresh k s R p \<Longrightarrow> p \<notin> set (sl_pages (g_shm st ! i)) \<Longrightarrow> fresh k s' R p"
    and "av s' \<union> owned k s' R \<union> set (sl_pages sl') = av s \<union> owned k s R \<union> set (sl_pages (g_shm st ! i))"
    and "owned k s' R = owned k s R" by blast+
qed

text \<open>Removing records of one task from a slot in use and giving up the slot when nothing holds it.\<close>

lemma retire_ok:
  assumes inv: "shm_inv k st s R T P X" and i: "i < KZ_SHM_MAX_RES" and use: "sl_used (g_shm st ! i)" "\<not> sl_creating (g_shm st ! i)"
    and sl: "sl_used sl" "\<not> sl_creating sl" "sl_pages sl = sl_pages (g_shm st ! i)" "sl_owner sl = sl_owner (g_shm st ! i)"
      "sl_published sl = sl_published (g_shm st ! i)" "sl_destroyed (g_shm st ! i) \<Longrightarrow> sl_destroyed sl"
      "distinct (sl_maps sl)" "set (sl_maps sl) \<subseteq> set (sl_maps (g_shm st ! i))"
      "\<And>u. u \<noteq> t \<Longrightarrow> u \<in> set (sl_maps sl) \<longleftrightarrow> u \<in> set (sl_maps (g_shm st ! i))"
    and ph: "about i (P t)" "ph = Idle \<or> (\<exists>n\<le>2048. ph = Dropping i n \<and> t \<notin> set (sl_maps sl) \<and> T t \<noteq> None)"
    and own: "\<And>r. T t = Some r \<Longrightarrow> win_ok s r i sl t ph"
    and mf: "maybe_free sl s = (sl', s')"
  shows "shm_inv k (set_slot i sl' st) s' R T (P(t := ph)) X \<and> shm_total k (set_slot i sl' st) s' R = shm_total k st s R"
proof
  note I = shm_invD [OF inv] and so = shm_invD(7) [OF inv i]
  note mm = maybe_free_memory [OF inv i sl(3) mf]
  have st': "g_shm (set_slot i sl' st) = (g_shm st)[i := sl']" by (simp add: set_slot_def)
  show "shm_total k (set_slot i sl' st) s' R = shm_total k st s R" by (rule total_update [OF i I(2) st' mm(4)])
  define P' where "P' = P(t := ph)"
  have nf: "P' u \<noteq> Filling i n w h f" for u n w h f using so use(2) ph(2) by (auto simp: slot_ok_def P'_def)
  have mp: "u \<in> set (sl_maps sl)" if "P' u = Mapping i w" for u w
    using so that ph(2) sl(9) [of u] by (auto simp: slot_ok_def P'_def split: if_splits)
  have dr: "u \<notin> set (sl_maps sl) \<and> n \<le> 2048" if "P' u = Dropping i n" for u n
    using so that ph(2) sl(8) by (auto simp: slot_ok_def P'_def split: if_splits)
  have slot: "slot_ok (dom T \<union> X) P' i sl'" using mf
  proof (cases rule: maybe_free_cases)
    case keep
    then show ?thesis using so use sl(1-8) nf mp dr unfolding slot_ok_def by auto
  next
    case (free g)
    then show ?thesis using nf mp dr sl(2) unfolding slot_ok_def by auto
  qed
  have maps: "sl_maps sl' = sl_maps sl" "sl_owner sl' = sl_owner sl" "\<And>u. u \<in> set (sl_maps sl) \<Longrightarrow> sl_pages sl' = sl_pages sl"
    using mf by (cases rule: maybe_free_cases; simp)+
  have pg: "distinct (sl_pages sl')" "\<forall>p\<in>set (sl_pages sl'). fresh k s' R p \<and> is_frame p \<and> (p \<in> set (sl_pages (g_shm st ! i)) \<or> p \<in> av s)"
    using mf by (cases rule: maybe_free_cases; use slot_frames_okD [OF I(6), unfolded I(2), OF i] sl(3) in simp)+
  show "shm_inv k (set_slot i sl' st) s' R T (P(t := ph)) X"
  proof (rule shm_update [OF inv i st' mm(1) ph(1) _ _ slot [unfolded P'_def] mm(3) pg])
    show "about i ph" "ph \<noteq> Idle \<longrightarrow> T t \<noteq> None" using ph(2) by (auto simp: about_def)
    show "lookup s' q x = lookup s q x" if "in_tree k R q x" for q x by (rule mm(2) [OF that])
    show "u \<in> set (sl_maps sl') \<longleftrightarrow> u \<in> set (sl_maps (g_shm st ! i))" if "u \<noteq> t" for u using sl(9) [OF that] maps(1) by simp
    show "sl_pages sl' = sl_pages (g_shm st ! i) \<and> sl_owner sl' = sl_owner (g_shm st ! i)"
      if "u \<noteq> t" "u \<in> set (sl_maps (g_shm st ! i))" for u using sl(9) [OF that(1)] that(2) maps(2) maps(3) [of u] sl(3,4) by simp
    show "win_ok s' r i sl' t ph" if "T t = Some r" for r
      using mm(2) cell_user [OF I(3) [OF that] i] maps by (intro win_ok_cells [OF own [OF that]]) auto
  qed
qed

section \<open>Operations\<close>

lemma shm_lookup_Inr:
  assumes "shm_lookup h st = Inr i"
  shows "i < KZ_SHM_MAX_RES" and "sl_used (g_shm st ! i)" and "\<not> sl_destroyed (g_shm st ! i)" and "i = kz_shm_idx h"
    and "sl_generation (g_shm st ! i) = kz_shm_gen h"
  using assms by (auto simp: shm_lookup_def Let_def split: if_splits)

lemma lookup_unmap_Inr:
  assumes "lookup_unmap h st = Inr i"
  shows "i < KZ_SHM_MAX_RES" and "sl_used (g_shm st ! i)" and "i = kz_shm_idx h" and "sl_generation (g_shm st ! i) = kz_shm_gen h"
  using assms by (auto simp: lookup_unmap_def Let_def split: if_splits)

text \<open>No change of frames: a slot's records change while memory stays.\<close>

lemma record_ok:
  assumes inv: "shm_inv k st s R T P X" and i: "i < KZ_SHM_MAX_RES" and st': "g_shm st' = (g_shm st)[i := sl']"
    and ph: "about i (P t)" "about i ph" "ph \<noteq> Idle \<longrightarrow> T t \<noteq> None" and slot: "slot_ok (dom T \<union> X) (P(t := ph)) i sl'"
    and sl: "sl_pages sl' = sl_pages (g_shm st ! i)" "\<And>u. u \<noteq> t \<Longrightarrow> u \<in> set (sl_maps sl') \<longleftrightarrow> u \<in> set (sl_maps (g_shm st ! i))"
      "\<And>u. u \<noteq> t \<Longrightarrow> u \<in> set (sl_maps (g_shm st ! i)) \<Longrightarrow> sl_owner sl' = sl_owner (g_shm st ! i)"
    and own: "\<And>r. T t = Some r \<Longrightarrow> win_ok s r i sl' t ph"
  shows "shm_inv k st' s R T (P(t := ph)) X \<and> shm_total k st' s R = shm_total k st s R"
proof
  note I = shm_invD [OF inv]
  show "shm_total k st' s R = shm_total k st s R" using sl(1) by (intro total_update [OF i I(2) st']) simp
  show "shm_inv k st' s R T (P(t := ph)) X"
    by (rule shm_update [OF inv i st' I(1) ph slot]) (use slot_frames_okD [OF I(6), unfolded I(2), OF i] sl own in auto)
qed

lemma reserve_ok:
  assumes inv: "shm_inv k st s R T P X" and t: "T t \<noteq> None" "P t = Idle" and n: "0 < n" "n \<le> 2048"
    and rs: "shm_reserve t st = Some (i, g, st')"
  shows "i < KZ_SHM_MAX_RES" and "shm_inv k st' s R T (P(t := Filling i n w h f)) X \<and> shm_total k st' s R = shm_total k st s R"
proof -
  obtain st1 where i: "find (\<lambda>i. \<not> sl_used (g_shm st ! i)) [0..<KZ_SHM_MAX_RES] = Some i"
    and st': "st' = set_slot i ((g_shm st ! i)\<lparr>sl_used := True, sl_creating := True, sl_published := False,
      sl_destroyed := False, sl_generation := g, sl_owner := t, sl_maps := [], sl_refs := []\<rparr>) st1" "g_shm st1 = g_shm st"
    using rs by (auto simp: shm_reserve_def Let_def split: option.splits)
  then show i16: "i < KZ_SHM_MAX_RES" by (auto simp: find_Some_iff)
  have nu: "\<not> sl_used (g_shm st ! i)" using i by (auto simp: find_Some_iff)
  note so = shm_invD(7) [OF inv i16]
  have old: "sl_pages (g_shm st ! i) = []" "sl_maps (g_shm st ! i) = []" "\<not> sl_creating (g_shm st ! i)"
    using so nu by (auto simp: slot_ok_def)
  have none: "P u \<noteq> Filling i n' w' h' f'" "P u \<noteq> Mapping i wr" for u n' w' h' f' wr using so old by (auto simp: slot_ok_def)
  have drop: "n' \<le> 2048" if "P u = Dropping i n'" for u n' using so that by (auto simp: slot_ok_def)
  let ?sl = "(g_shm st ! i)\<lparr>sl_used := True, sl_creating := True, sl_published := False,
      sl_destroyed := False, sl_generation := g, sl_owner := t, sl_maps := [], sl_refs := []\<rparr>"
  show "shm_inv k st' s R T (P(t := Filling i n w h f)) X \<and> shm_total k st' s R = shm_total k st s R"
  proof (rule record_ok [OF inv i16, where sl' = ?sl])
    show "slot_ok (dom T \<union> X) (P(t := Filling i n w h f)) i ?sl"
      using t(1) n none drop old unfolding slot_ok_def by auto
    show "win_ok s r i ?sl t (Filling i n w h f)" if "T t = Some r" for r
      using shm_invD(8) [OF inv that i16] old t(2) by (simp add: win_ok_def)
  qed (use st' old t in \<open>auto simp: set_slot_def about_def\<close>)
qed

lemma about_self: "about i (Filling i n w h f)" "about i (Mapping i wr)" "about i (Dropping i n)" "about i Idle"
  by (simp_all add: about_def)

lemma fill_ok:
  assumes inv: "shm_inv k st s R T P X" and t: "T t = Some r" "P t = Filling i n w h f" and i: "i < KZ_SHM_MAX_RES"
    and fi: "shm_fill kn i n r s = (res, s')"
    and st': "st' = (case res of None \<Rightarrow> shm_abort i st | Some ps \<Rightarrow> shm_commit i t w h f ps st)"
  shows "shm_inv k st' s' R T (P(t := Idle)) X \<and> shm_total k st' s' R = shm_total k st s R"
proof -
  note I = shm_invD [OF inv] and so = shm_invD(7) [OF inv i]
  let ?old = "g_shm st ! i"
  have old: "sl_creating ?old" "sl_owner ?old = t" "0 < n" "n \<le> 2048" "sl_used ?old" "sl_pages ?old = []" "sl_maps ?old = []"
      "sl_refs ?old = []" "\<not> sl_destroyed ?old" "\<not> sl_published ?old"
    using so t(2) unfolding slot_ok_def by blast+
  have "\<forall>j<2048. cell s r i j = None" using I(8) [OF t(1) i] old(7) t(2) by (simp add: win_ok_def)
  note fo = shm_fill_ok [OF I(1) I(3) [OF t(1)] i old(4) this fi]
  define sl' where "sl' = (case res of None \<Rightarrow> ?old\<lparr>sl_used := False, sl_creating := False\<rparr>
    | Some ps \<Rightarrow> ?old\<lparr>sl_pages := ps, sl_width := w, sl_height := h, sl_stride := w, sl_format := f, sl_creating := False, sl_maps := [t]\<rparr>)"
  have g: "g_shm st' = (g_shm st)[i := sl']" by (cases res) (simp_all add: st' shm_abort_def shm_commit_def set_slot_def sl'_def)
  define P' where "P' = P(t := Idle)"
  have "u = t" if "P u = Filling i n' w' h' f'" for u n' w' h' f' using so old(2) that unfolding slot_ok_def by blast
  then have fill: "P' u \<noteq> Filling i n' w' h' f'" for u n' w' h' f' by (auto simp: P'_def)
  have mapg: "P' u \<noteq> Mapping i wr" for u wr using so old(7) unfolding slot_ok_def P'_def by auto
  have drop: "n' \<le> 2048 \<and> u \<noteq> t" if "P' u = Dropping i n'" for u n' using so that unfolding slot_ok_def P'_def by (auto split: if_splits)
  have dom: "t \<in> dom T \<union> X" using t(1) by auto
  have owned': "owned k s' R \<subseteq> av s \<union> owned k s R" using fo(5) by (cases res) auto
  have ps: "sl_pages sl' = (case res of None \<Rightarrow> [] | Some ps \<Rightarrow> ps)" "sl_maps sl' = (case res of None \<Rightarrow> [] | Some ps \<Rightarrow> [t])"
      "sl_owner sl' = t" using old(2,6,7) by (simp_all add: sl'_def split: option.splits)
  have slot: "slot_ok (dom T \<union> X) P' i sl'"
  proof (cases res)
    case None
    then show ?thesis using fill mapg drop old by (simp add: slot_ok_def sl'_def)
  next
    case (Some ps)
    then have "ps \<noteq> []" "length ps \<le> 2048" using fo(5) old(3,4) by auto
    then show ?thesis using fill mapg drop old dom Some by (simp add: slot_ok_def sl'_def)
  qed
  have "shm_inv k st' s' R T (P(t := Idle)) X"
  proof (rule shm_update [OF inv i g fo(1) _ _ _ slot [unfolded P'_def]])
    show "about i (P t)" "about i Idle" using t(2) about_self by simp_all
    show "fresh k s' R p" if "fresh k s R p" for p using that fo(2,3) owned' by (auto simp: fresh_def)
    show "distinct (sl_pages sl')" "\<forall>p\<in>set (sl_pages sl'). fresh k s' R p \<and> is_frame p \<and> (p \<in> set (sl_pages ?old) \<or> p \<in> av s)"
      using fo(5) ps(1) by (cases res; simp)+
    show "win_ok s' r' i sl' t Idle" if "T t = Some r'" for r'
      using fo(5) ps t(1) that shm_pte by (cases res) (auto simp: win_ok_def shows_slot_def)
  qed (use fo(4) t(1) old(7) ps(2) in \<open>auto split: option.splits\<close>)
  moreover have "shm_total k st' s' R = shm_total k st s R"
    using fo(5) ps(1) old(6) by (intro total_update [OF i I(2) g]) (cases res; simp)
  ultimately show ?thesis ..
qed

lemma slot_ok_idle:
  assumes ok: "slot_ok A P i sl" and nf: "\<And>n w h f. P t \<noteq> Filling i n w h f"
  shows "slot_ok A (P(t := Idle)) i sl"
proof -
  define P' where "P' = P(t := Idle)"
  have sub: "P' u = ph \<Longrightarrow> ph \<noteq> Idle \<Longrightarrow> P u = ph" for u ph by (auto simp: P'_def split: if_splits)
  have f: "P' u = Filling i n w h f \<Longrightarrow> P u = Filling i n w h f" for u n w h f using sub by blast
  have m: "P' u = Mapping i w \<Longrightarrow> P u = Mapping i w" for u w using sub by blast
  have d: "P' u = Dropping i n \<Longrightarrow> P u = Dropping i n" for u n using sub by blast
  have "\<exists>n w h f. P' (sl_owner sl) = Filling i n w h f" if cr: "sl_creating sl"
  proof -
    obtain n w h f where "P (sl_owner sl) = Filling i n w h f" using slot_okD(3) [OF ok cr] by auto
    then show ?thesis using nf by (auto simp: P'_def)
  qed
  moreover have "\<forall>u n w h f. P' u = Filling i n w h f \<longrightarrow> sl_creating sl \<and> sl_owner sl = u \<and> 0 < n \<and> n \<le> 2048"
    using f slot_okD(9) [OF ok] by blast
  moreover have "\<forall>u w. P' u = Mapping i w \<longrightarrow> u \<in> set (sl_maps sl)" using m slot_okD(10) [OF ok] by blast
  moreover have "\<forall>u n. P' u = Dropping i n \<longrightarrow> u \<notin> set (sl_maps sl) \<and> n \<le> 2048" using d slot_okD(11) [OF ok] by blast
  ultimately show ?thesis unfolding P'_def [symmetric] using ok unfolding slot_ok_def by presburger
qed

lemma win_phase:
  "win_ok s r i sl t (Mapping i wr) \<longleftrightarrow> (\<forall>j<2048. cell s r i j = None)"
  "win_ok s r i sl t Idle \<longleftrightarrow> (if t \<in> set (sl_maps sl) then shows_slot s r i (sl_pages sl) (t = sl_owner sl) else \<forall>j<2048. cell s r i j = None)"
  "t \<notin> set (sl_maps sl) \<Longrightarrow> win_ok s r i sl t (Dropping i n) \<longleftrightarrow> (\<forall>j<2048. cell s r i j \<noteq> None \<longrightarrow> j < n)"
proof -
  have m: "\<not> (\<forall>w. Mapping i wr \<noteq> Mapping i w)" by blast
  show "win_ok s r i sl t (Mapping i wr) \<longleftrightarrow> (\<forall>j<2048. cell s r i j = None)" unfolding win_ok_def by (simp only: m) simp
qed (simp_all add: win_ok_def)

lemma map_begin_ok:
  assumes inv: "shm_inv k st s R T P X" and t: "T t \<noteq> None" "P t = Idle" and mb: "shm_map_begin t h wr st = (Recorded i, st')"
  shows "i < KZ_SHM_MAX_RES" and "shm_inv k st' s R T (P(t := Mapping i wr)) X \<and> shm_total k st' s R = shm_total k st s R"
proof -
  let ?sl = "(g_shm st ! i)\<lparr>sl_maps := sl_maps (g_shm st ! i) @ [t]\<rparr>"
  have lk: "shm_lookup h st = Inr i" and m: "\<not> sl_creating (g_shm st ! i)" "t \<notin> set (sl_maps (g_shm st ! i))"
      "t = sl_owner (g_shm st ! i) \<or> sl_published (g_shm st ! i)" and st': "st' = set_slot i ?sl st"
    using mb by (auto simp: shm_map_begin_def has_map_def add_map_def Let_def split: sum.splits if_splits option.splits)
  show i: "i < KZ_SHM_MAX_RES" by (rule shm_lookup_Inr(1) [OF lk])
  note so = shm_invD(7) [OF inv i]
  define P' where "P' = P(t := Mapping i wr)"
  have "P' u \<noteq> Filling i n w h f" for u n w h f using so m(1) unfolding slot_ok_def P'_def by auto
  moreover have "u \<in> set (sl_maps ?sl)" if "P' u = Mapping i w" for u w using so that unfolding slot_ok_def P'_def by (auto split: if_splits)
  moreover have "u \<notin> set (sl_maps ?sl) \<and> n \<le> 2048" if "P' u = Dropping i n" for u n
    using so that unfolding slot_ok_def P'_def by (auto split: if_splits)
  moreover have "t \<in> dom T \<union> X" using t(1) by auto
  moreover have "sl_used (g_shm st ! i)" "\<not> sl_destroyed (g_shm st ! i)" using shm_lookup_Inr(2,3) [OF lk] by auto
  ultimately have slot: "slot_ok (dom T \<union> X) P' i ?sl" using so m unfolding slot_ok_def by simp
  show "shm_inv k st' s R T (P(t := Mapping i wr)) X \<and> shm_total k st' s R = shm_total k st s R"
  proof (rule record_ok [OF inv i _ _ _ _ slot [unfolded P'_def]])
    show "win_ok s r i ?sl t (Mapping i wr)" if "T t = Some r" for r
      using shm_invD(8) [OF inv that i] m(2) t(2) by (simp add: win_phase)
  qed (use st' t in \<open>auto simp: set_slot_def about_def\<close>)
qed

text \<open>Memory changes in the window of the slot the task works on.\<close>

lemma window_step_ok:
  assumes inv: "shm_inv k st s R T P X" and i: "i < KZ_SHM_MAX_RES" and t: "T t = Some r" "about i (P t)" "about i ph"
    and ss: "slot_step k R r i s s'" and slot: "slot_ok (dom T \<union> X) (P(t := ph)) i (g_shm st ! i)"
    and own: "win_ok s' r i (g_shm st ! i) t ph"
  shows "shm_inv k st s' R T (P(t := ph)) X \<and> shm_total k st s' R = shm_total k st s R"
proof
  note I = shm_invD [OF inv] and sd = slot_stepD [OF ss]
  have g: "g_shm st = (g_shm st)[i := g_shm st ! i]" by simp
  show "shm_total k st s' R = shm_total k st s R" using sd(4) by (intro total_update [OF i I(2) g]) simp
  show "shm_inv k st s' R T (P(t := ph)) X"
    by (rule shm_update [OF inv i g sd(1) t(2,3) _ slot])
      (use fresh_slot_step [OF ss] slot_frames_okD [OF I(6), unfolded I(2), OF i] t(1) own sd(5) in auto)
qed

lemma map_finish_ok:
  assumes inv: "shm_inv k st s R T P X" and t: "T t = Some r" "P t = Mapping i wr" and i: "i < KZ_SHM_MAX_RES"
    and mf: "shm_map_finish i t wr r st s = (va, st', s')"
  shows "shm_inv k st' s' R T (P(t := Idle)) X \<and> shm_total k st' s' R = shm_total k st s R"
proof -
  note I = shm_invD [OF inv] and so = shm_invD(7) [OF inv i]
  let ?sl = "g_shm st ! i"
  note fo = slot_frames_okD [OF I(6), unfolded I(2), OF i]
  have m: "t \<in> set (sl_maps ?sl)" using so t(2) unfolding slot_ok_def by blast
  have us: "sl_used ?sl" "\<not> sl_creating ?sl" "length (sl_pages ?sl) \<le> 2048" using so m unfolding slot_ok_def by auto
  have none: "\<forall>j<2048. cell s r i j = None" using I(8) [OF t(1) i] t(2) by (simp add: win_phase)
  obtain b s1 where mp: "shm_map_pages (kz_shm_slot_va i) 0 (sl_pages ?sl) (shm_flags (t = sl_owner ?sl \<and> wr)) r s = (b, s1)"
    by (cases "shm_map_pages (kz_shm_slot_va i) 0 (sl_pages ?sl) (shm_flags (t = sl_owner ?sl \<and> wr)) r s")
  have c: "slot_step k R r i s s1" "\<forall>j<2048. cell s1 r i j = (if \<not> b then None
      else if j < length (sl_pages ?sl) then Some (mk_pte (sl_pages ?sl ! j) (shm_flags (t = sl_owner ?sl \<and> wr))) else None)"
    using shm_map_pages_ok [OF I(3) [OF t(1)] i shm_flags_ok slot_step_refl [OF I(1)], of 0 "sl_pages ?sl" _ b s1] fo(2) us(3) none mp by auto
  show ?thesis
  proof (cases b)
    case True
    then have e: "st' = st" "s' = s1" using mf mp by (auto simp: shm_map_finish_def)
    have "slot_ok (dom T \<union> X) (P(t := Idle)) i ?sl" by (rule slot_ok_idle [OF so]) (simp add: t(2))
    moreover have "win_ok s1 r i ?sl t Idle" using c(2) True m shm_pte fo(2) by (auto simp: win_phase shows_slot_def)
    ultimately show ?thesis unfolding e using t(2) about_self by (intro window_step_ok [OF inv i t(1) _ _ c(1)]) simp_all
  next
    case False
    obtain sl2 s2 where fr: "maybe_free (del_map ?sl t) s1 = (sl2, s2)" by (cases "maybe_free (del_map ?sl t) s1")
    have e: "st' = set_slot i sl2 st" "s' = s2" using mf mp False fr by (auto simp: shm_map_finish_def shm_map_undo_def)
    have "win_ok s1 r i ?sl t (P t)" using c(2) False t(2) by (simp add: win_phase)
    moreover have "about i (P t)" using t(2) about_self by simp
    ultimately have w: "shm_inv k st s1 R T P X \<and> shm_total k st s1 R = shm_total k st s R"
      using window_step_ok [OF inv i t(1) _ _ c(1), of "P t", unfolded fun_upd_triv] so by blast
    then have inv1: "shm_inv k st s1 R T P X" by blast
    have d: "distinct (sl_maps ?sl)" using so unfolding slot_ok_def by blast
    note dd = drop_first_distinct [OF d, of t]
    have "shm_inv k (set_slot i sl2 st) s2 R T (P(t := Idle)) X \<and> shm_total k (set_slot i sl2 st) s2 R = shm_total k st s1 R"
      by (rule retire_ok [OF inv1 i us(1,2) _ _ _ _ _ _ _ _ _ _ _ _ fr])
        (use us dd t c(2) False about_self in \<open>auto simp: del_map_def win_phase\<close>)
    then show ?thesis using w e by simp
  qed
qed

lemma unmap_begin_ok:
  assumes inv: "shm_inv k st s R T P X" and t: "T t \<noteq> None" "P t = Idle"
    and ub: "shm_unmap_begin t va st s = (Some (i, n), st', s')"
  shows "i < KZ_SHM_MAX_RES" and "shm_inv k st' s' R T (P(t := Dropping i n)) X \<and> shm_total k st' s' R = shm_total k st s R"
proof -
  obtain h sl1 where lk: "lookup_unmap h st = Inr i" and m: "t \<in> set (sl_maps (g_shm st ! i))"
    and n: "n = length (sl_pages (g_shm st ! i))" and fr: "maybe_free (del_map (g_shm st ! i) t) s = (sl1, s')" and st': "st' = set_slot i sl1 st"
    using ub by (auto simp: shm_unmap_begin_def has_map_def Let_def split: sum.splits if_splits prod.splits)
  show i: "i < KZ_SHM_MAX_RES" by (rule lookup_unmap_Inr(1) [OF lk])
  note so = shm_invD(7) [OF inv i]
  have us: "sl_used (g_shm st ! i)" "\<not> sl_creating (g_shm st ! i)" "n \<le> 2048" using so m n unfolding slot_ok_def by auto
  have d: "distinct (sl_maps (g_shm st ! i))" using so unfolding slot_ok_def by blast
  note dd = drop_first_distinct [OF d, of t]
  have w: "win_ok s r i (del_map (g_shm st ! i) t) t (Dropping i n)" if "T t = Some r" for r
    using shm_invD(8) [OF inv that i] m t(2) dd n by (auto simp: win_phase shows_slot_def del_map_def split: option.splits)
  show "shm_inv k st' s' R T (P(t := Dropping i n)) X \<and> shm_total k st' s' R = shm_total k st s R"
    unfolding st' by (rule retire_ok [OF inv i us(1,2) _ _ _ _ _ _ _ _ _ _ _ w fr]) (use us dd t about_self in \<open>auto simp: del_map_def\<close>)
qed

lemma unmap_finish_ok:
  assumes inv: "shm_inv k st s R T P X" and t: "T t = Some r" "P t = Dropping i n" and i: "i < KZ_SHM_MAX_RES"
  shows "shm_inv k st (shm_unmap_pages (kz_shm_slot_va i) n r s) R T (P(t := Idle)) X
    \<and> shm_total k st (shm_unmap_pages (kz_shm_slot_va i) n r s) R = shm_total k st s R"
proof -
  note I = shm_invD [OF inv] and so = shm_invD(7) [OF inv i]
  have d: "t \<notin> set (sl_maps (g_shm st ! i))" "n \<le> 2048" using so t(2) unfolding slot_ok_def by auto
  note u = shm_unmap_pages_ok [OF I(1) I(3) [OF t(1)] i d(2)]
  have "win_ok (shm_unmap_pages (kz_shm_slot_va i) n r s) r i (g_shm st ! i) t Idle"
    using u I(8) [OF t(1) i] d(1) t(2) by (auto simp: win_phase)
  moreover have "slot_ok (dom T \<union> X) (P(t := Idle)) i (g_shm st ! i)"
    by (rule slot_ok_idle [OF so]) (simp add: t(2))
  ultimately show ?thesis using u t(2) about_self by (intro window_step_ok [OF inv i t(1)]) simp_all
qed

end
