(* ===== verification/Shm_Props.thy ===== *)
theory Shm_Props
  imports Shm_Inv
begin

text \<open>
  The remaining operations on shared surfaces, runs of many tasks whose calls interleave, and what holds along every run:
  which pages a task sees, that frames are never lost, that stale handles stay stale, and the order of freeing and unmapping.
\<close>

section \<open>Operations under the lock\<close>

lemma idle_not_creating:
  assumes "shm_inv k st s R T P X" and "i < KZ_SHM_MAX_RES" and "P (sl_owner (g_shm st ! i)) = Idle"
  shows "\<not> sl_creating (g_shm st ! i)"
  using slot_okD(3) [OF shm_invD(7) [OF assms(1,2)]] assms(3) by auto

lemma publish_ok:
  assumes inv: "shm_inv k st s R T P X" and t: "P t = Idle" and pb: "kz_shm_publish t h x y w hh st = (e, st')"
  shows "shm_inv k st' s R T P X \<and> shm_total k st' s R = shm_total k st s R"
proof (cases "st' = st")
  case False
  then obtain i where lk: "shm_lookup h st = Inr i" and o: "sl_owner (g_shm st ! i) = t"
    and st': "st' = set_slot i ((g_shm st ! i)\<lparr>sl_published := True, sl_damage := (x, y, w, hh)\<rparr>) st"
    using pb by (auto simp: kz_shm_publish_def Let_def split: sum.splits if_splits)
  note i = shm_lookup_Inr(1) [OF lk]
  note so = slot_okD [OF shm_invD(7) [OF inv i]] and nc = idle_not_creating [OF inv i] o t
  let ?sl = "(g_shm st ! i)\<lparr>sl_published := True, sl_damage := (x, y, w, hh)\<rparr>"
  have "slot_ok (dom T \<union> X) P i ?sl"
    using shm_invD(7) [OF inv i] nc unfolding slot_ok_def by simp
  then have slot: "slot_ok (dom T \<union> X) (P(t := Idle)) i ?sl" using t by (simp add: fun_upd_idem)
  have w: "win_ok s r i ?sl t Idle" if "T t = Some r" for r using shm_invD(8) [OF inv that i] t by (simp add: win_phase)
  have "shm_inv k st' s R T (P(t := Idle)) X \<and> shm_total k st' s R = shm_total k st s R"
    by (rule record_ok [OF inv i _ _ _ _ slot]) (use st' t w in \<open>auto simp: set_slot_def about_def\<close>)
  then show ?thesis using t by (simp add: fun_upd_idem)
qed (use inv in simp)

lemma take_ref_ok:
  assumes inv: "shm_inv k st s R T P X" and t: "P t = Idle" and tr: "shm_take_ref t h st = (a, st')"
  shows "shm_inv k st' s R T P X \<and> shm_total k st' s R = shm_total k st s R"
proof (cases "st' = st")
  case False
  then obtain i where lk: "shm_lookup h st = Inr i" and o: "sl_owner (g_shm st ! i) = t \<or> sl_published (g_shm st ! i)"
    and st': "st' = set_slot i ((g_shm st ! i)\<lparr>sl_refs := sl_refs (g_shm st ! i) @ [t]\<rparr>) st"
    using tr by (auto simp: shm_take_ref_def add_ref_def Let_def split: sum.splits if_splits option.splits)
  note i = shm_lookup_Inr(1) [OF lk]
  have nc: "\<not> sl_creating (g_shm st ! i)"
    using o idle_not_creating [OF inv i] t slot_okD(2) [OF shm_invD(7) [OF inv i]] by auto
  let ?sl = "(g_shm st ! i)\<lparr>sl_refs := sl_refs (g_shm st ! i) @ [t]\<rparr>"
  have "slot_ok (dom T \<union> X) P i ?sl"
    using shm_invD(7) [OF inv i] nc shm_lookup_Inr(2) [OF lk] unfolding slot_ok_def by simp
  then have slot: "slot_ok (dom T \<union> X) (P(t := Idle)) i ?sl" using t by (simp add: fun_upd_idem)
  have w: "win_ok s r i ?sl t Idle" if "T t = Some r" for r using shm_invD(8) [OF inv that i] t by (simp add: win_phase)
  have "shm_inv k st' s R T (P(t := Idle)) X \<and> shm_total k st' s R = shm_total k st s R"
    by (rule record_ok [OF inv i _ _ _ _ slot]) (use st' t w in \<open>auto simp: set_slot_def about_def\<close>)
  then show ?thesis using t by (simp add: fun_upd_idem)
qed (use inv in simp)

text \<open>Dropping references or marking the surface destroyed, then freeing it when nothing holds it.\<close>

lemma retire_idle:
  assumes inv: "shm_inv k st s R T P X" and i: "i < KZ_SHM_MAX_RES" and use: "sl_used (g_shm st ! i)" "\<not> sl_creating (g_shm st ! i)"
    and t: "P t = Idle" and sl: "sl = (g_shm st ! i)\<lparr>sl_refs := rs, sl_destroyed := d\<rparr>" "sl_destroyed (g_shm st ! i) \<longrightarrow> d"
    and mf: "maybe_free sl s = (sl', s')"
  shows "shm_inv k (set_slot i sl' st) s' R T P X \<and> shm_total k (set_slot i sl' st) s' R = shm_total k st s R"
proof -
  have w: "win_ok s r i sl t Idle" if "T t = Some r" for r using shm_invD(8) [OF inv that i] t sl by (simp add: win_phase)
  have "shm_inv k (set_slot i sl' st) s' R T (P(t := Idle)) X \<and> shm_total k (set_slot i sl' st) s' R = shm_total k st s R"
    by (rule retire_ok [OF inv i use _ _ _ _ _ _ _ _ _ _ _ w mf])
      (use sl use t about_self slot_okD(7) [OF shm_invD(7) [OF inv i]] in auto)
  then show ?thesis using t by (simp add: fun_upd_idem)
qed

lemma destroy_ok:
  assumes inv: "shm_inv k st s R T P X" and t: "P t = Idle" and ds: "kz_shm_destroy t h st s = (e, st', s')"
  shows "shm_inv k st' s' R T P X \<and> shm_total k st' s' R = shm_total k st s R"
proof (cases "\<exists>i. shm_lookup h st = Inr i \<and> sl_owner (g_shm st ! i) = t")
  case True
  then obtain i where lk: "shm_lookup h st = Inr i" and o: "sl_owner (g_shm st ! i) = t" by blast
  obtain sl' s1 where mf: "maybe_free ((g_shm st ! i)\<lparr>sl_destroyed := True\<rparr>) s = (sl', s1)"
    by (cases "maybe_free ((g_shm st ! i)\<lparr>sl_destroyed := True\<rparr>) s")
  have e: "st' = set_slot i sl' st" "s' = s1" using ds lk o mf by (simp_all add: kz_shm_destroy_def)
  note i = shm_lookup_Inr(1) [OF lk]
  have nc: "\<not> sl_creating (g_shm st ! i)" using idle_not_creating [OF inv i] o t by simp
  show ?thesis unfolding e by (rule retire_idle [OF inv i shm_lookup_Inr(2) [OF lk] nc t _ _ mf, where rs = "sl_refs (g_shm st ! i)" and d = True]) simp_all
next
  case False
  then have "st' = st \<and> s' = s" using ds by (auto simp: kz_shm_destroy_def Let_def split: sum.splits if_splits)
  then show ?thesis using inv by simp
qed

lemma release_ok:
  assumes inv: "shm_inv k st s R T P X" and t: "P t = Idle" and rl: "kz_shm_release t h st s = (e, st', s')"
  shows "shm_inv k st' s' R T P X \<and> shm_total k st' s' R = shm_total k st s R"
proof (cases "\<exists>i. lookup_unmap h st = Inr i \<and> has_ref (g_shm st ! i) t")
  case True
  then obtain i where lk: "lookup_unmap h st = Inr i" and r: "has_ref (g_shm st ! i) t" by blast
  obtain sl' s1 where mf: "maybe_free (del_ref (g_shm st ! i) t) s = (sl', s1)" by (cases "maybe_free (del_ref (g_shm st ! i) t) s")
  have e: "st' = set_slot i sl' st" "s' = s1" using rl lk r mf by (simp_all add: kz_shm_release_def)
  note i = lookup_unmap_Inr(1) [OF lk]
  have nc: "\<not> sl_creating (g_shm st ! i)" using slot_okD(2) [OF shm_invD(7) [OF inv i]] r by (auto simp: has_ref_def)
  show ?thesis unfolding e
    by (rule retire_idle [OF inv i lookup_unmap_Inr(2) [OF lk] nc t _ _ mf, where rs = "drop_first t (sl_refs (g_shm st ! i))" and d = "sl_destroyed (g_shm st ! i)"])
      (simp_all add: del_ref_def)
next
  case False
  then have "st' = st \<and> s' = s" using rl by (auto simp: kz_shm_release_def Let_def split: sum.splits if_splits)
  then show ?thesis using inv by simp
qed

section \<open>A task leaves\<close>

lemma drop_refs_ok: "\<exists>rs. t \<notin> set rs \<and> drop_refs sl t = sl\<lparr>sl_refs := rs\<rparr>"
proof (induction sl t rule: drop_refs.induct)
  case (1 sl t)
  show ?case
  proof (cases "has_ref sl t")
    case True
    then have "drop_refs sl t = drop_refs (del_ref sl t) t" by (subst drop_refs.simps) simp
    then show ?thesis using 1 [OF True] by (simp add: del_ref_def)
  next
    case False
    then have "drop_refs sl t = sl" by (subst drop_refs.simps) simp
    then show ?thesis using False by (intro exI [of _ "sl_refs sl"]) (simp add: has_ref_def)
  qed
qed

definition left :: "int \<Rightarrow> kz_shm_slot \<Rightarrow> bool" where
  "left t sl \<longleftrightarrow> t \<notin> set (sl_maps sl) \<and> t \<notin> set (sl_refs sl) \<and> (sl_used sl \<longrightarrow> \<not> sl_destroyed sl \<longrightarrow> sl_owner sl \<noteq> t)"

lemma exit_slot_ok:
  assumes inv: "shm_inv k st s R T P X" and t: "T t = None" and i: "i < KZ_SHM_MAX_RES" and ex: "shm_exit_slot t i (st, s) = (st', s')"
  shows "shm_inv k st' s' R T P X \<and> shm_total k st' s' R = shm_total k st s R \<and> left t (g_shm st' ! i)
    \<and> (\<forall>j<KZ_SHM_MAX_RES. j \<noteq> i \<longrightarrow> g_shm st' ! j = g_shm st ! j)"
proof -
  let ?sl = "g_shm st ! i"
  note so = slot_okD [OF shm_invD(7) [OF inv i]]
  have id: "P t = Idle" using shm_invD(5) [OF inv] t by blast
  have len: "length (g_shm st) = KZ_SHM_MAX_RES" by (rule shm_invD(2) [OF inv])
  define sl1 where "sl1 = (if has_map ?sl t then del_map ?sl t else ?sl)"
  define sl3 where "sl3 = (drop_refs sl1 t)\<lparr>sl_destroyed := sl_destroyed ?sl \<or> sl_owner ?sl = t\<rparr>"
  have d: "distinct (sl_maps sl1) \<and> set (sl_maps sl1) = set (sl_maps ?sl) - {t}"
    using drop_first_distinct [OF so(7)] so(7) by (auto simp: sl1_def has_map_def del_map_def)
  have f: "sl_used sl1 = sl_used ?sl" "sl_creating sl1 = sl_creating ?sl" "sl_pages sl1 = sl_pages ?sl" "sl_owner sl1 = sl_owner ?sl"
    "sl_published sl1 = sl_published ?sl" "sl_destroyed sl1 = sl_destroyed ?sl" "sl_refs sl1 = sl_refs ?sl"
    by (simp_all add: sl1_def del_map_def)
  obtain rs where rs: "drop_refs sl1 t = sl1\<lparr>sl_refs := rs\<rparr>" "t \<notin> set rs" using drop_refs_ok [of t sl1] by blast
  consider "\<not> sl_used ?sl" | "sl_creating ?sl" | "sl_used ?sl" "\<not> sl_creating ?sl" by blast
  then show ?thesis
  proof cases
    case 1
    then have "st' = st" "s' = s" using ex by (auto simp: shm_exit_slot_def)
    then show ?thesis using inv so(1) 1 by (simp add: left_def)
  next
    case 2
    have o: "sl_owner ?sl \<noteq> t" using idle_not_creating [OF inv i] 2 id by auto
    have e: "sl_maps ?sl = []" "sl_refs ?sl = []" using so(2) [OF 2] by auto
    have "drop_refs ?sl t = ?sl" by (subst drop_refs.simps) (simp add: has_ref_def e)
    then have "shm_exit_slot t i (st, s) = (set_slot i ?sl st, s)"
      using 2 o so(2) [OF 2] by (simp add: shm_exit_slot_def has_map_def maybe_free_def Let_def)
    then have "st' = st" "s' = s" using ex by (simp_all add: set_slot_def)
    then show ?thesis using inv o e by (simp add: left_def)
  next
    case 3
    obtain sl4 s1 where mf: "maybe_free sl3 s = (sl4, s1)" by (cases "maybe_free sl3 s")
    have "(if sl_owner (drop_refs sl1 t) = t \<and> \<not> sl_destroyed (drop_refs sl1 t) then (drop_refs sl1 t)\<lparr>sl_destroyed := True\<rparr> else drop_refs sl1 t) = sl3"
      using f by (auto simp: sl3_def rs(1))
    then have e: "st' = set_slot i sl4 st" "s' = s1"
      using ex 3(1) mf by (simp_all add: shm_exit_slot_def Let_def sl1_def [symmetric])
    have "shm_inv k (set_slot i sl4 st) s1 R T (P(t := Idle)) X \<and> shm_total k (set_slot i sl4 st) s1 R = shm_total k st s R"
      by (rule retire_ok [OF inv i 3 _ _ _ _ _ _ _ _ _ _ _ _ mf]) (use d f 3 t id about_self in \<open>auto simp: sl3_def rs(1)\<close>)
    moreover have "left t sl4" using mf by (cases rule: maybe_free_cases) (use d f rs in \<open>auto simp: left_def sl3_def\<close>)
    ultimately show ?thesis using id e i len by (auto simp: fun_upd_idem set_slot_def)
  qed
qed

lemma exit_slots_ok:
  assumes "shm_inv k st s R T P X" and "T t = None" and "n \<le> KZ_SHM_MAX_RES" and "fold (shm_exit_slot t) [0..<n] (st, s) = (st', s')"
  shows "shm_inv k st' s' R T P X \<and> shm_total k st' s' R = shm_total k st s R \<and> (\<forall>i<n. left t (g_shm st' ! i))"
  using assms(3,4)
proof (induction n arbitrary: st' s')
  case 0
  then show ?case using assms(1) by simp
next
  case (Suc n)
  obtain st1 s1 where f: "fold (shm_exit_slot t) [0..<n] (st, s) = (st1, s1)" by (cases "fold (shm_exit_slot t) [0..<n] (st, s)")
  have n: "n < KZ_SHM_MAX_RES" using Suc.prems(1) by simp
  have ih: "shm_inv k st1 s1 R T P X" "shm_total k st1 s1 R = shm_total k st s R" "\<forall>i<n. left t (g_shm st1 ! i)"
    using Suc.IH [OF _ f] n by auto
  have "shm_exit_slot t n (st1, s1) = (st', s')" using Suc.prems(2) f by simp
  note e = exit_slot_ok [OF ih(1) assms(2) n this]
  then have "left t (g_shm st' ! i)" if "i < Suc n" for i using ih(3) n that by (cases "i = n") auto
  then show ?case using e ih(2) by auto
qed

lemma exit_ok:
  assumes inv: "shm_inv k st s R T P {}" and t: "T t \<noteq> None" "P t = Idle" "0 \<le> t" and ex: "kz_shm_task_exit t st s = (st', s')"
  shows "shm_inv k st' s' R (T(t := None)) P {} \<and> shm_total k st' s' R = shm_total k st s R
    \<and> (\<forall>i<KZ_SHM_MAX_RES. left t (g_shm st' ! i))"
proof -
  note I = shm_invD [OF inv]
  have dom: "dom (T(t := None)) \<union> {t} = dom T \<union> {}" using t(1) by auto
  have "shm_inv k st s R (T(t := None)) P {t}" unfolding shm_inv_def dom
    using I t(2) by (auto split: if_splits)
  then have e: "shm_inv k st' s' R (T(t := None)) P {t}" "shm_total k st' s' R = shm_total k st s R"
      "\<forall>i<KZ_SHM_MAX_RES. left t (g_shm st' ! i)"
    using exit_slots_ok [of k st s R "T(t := None)" P "{t}" t KZ_SHM_MAX_RES st' s'] ex t(3) by (auto simp: kz_shm_task_exit_def)
  have "slot_ok (dom (T(t := None)) \<union> {}) P i (g_shm st' ! i)" if i: "i < KZ_SHM_MAX_RES" for i
  proof -
    note so = shm_invD(7) [OF e(1) i]
    have l: "left t (g_shm st' ! i)" using e(3) i by blast
    have "sl_used (g_shm st' ! i) \<longrightarrow> \<not> sl_destroyed (g_shm st' ! i) \<longrightarrow> sl_owner (g_shm st' ! i) \<in> dom (T(t := None)) \<union> {}"
      using slot_okD(6) [OF so] l by (auto simp: left_def)
    moreover have "\<forall>u\<in>set (sl_maps (g_shm st' ! i)). u \<in> dom (T(t := None)) \<union> {} \<and> (u = sl_owner (g_shm st' ! i) \<or> sl_published (g_shm st' ! i))"
      using slot_okD(8) [OF so] l by (auto simp: left_def)
    ultimately show ?thesis using so unfolding slot_ok_def by simp
  qed
  then show ?thesis using e unfolding shm_inv_def by blast
qed

section \<open>Interleaved calls\<close>

text \<open>The table, memory, the address space of each running task and where each task stands.\<close>

type_synonym shm_cfg = "shm \<times> vm \<times> (int \<Rightarrow> nat option) \<times> (int \<Rightarrow> phase)"

text \<open>One part of a call of task \<open>t\<close>. The parts without the lock end the calls of creating, mapping and unmapping.\<close>

inductive shm_step :: "int \<Rightarrow> shm_cfg \<Rightarrow> shm_cfg \<Rightarrow> bool" for t where
  create: "0 \<le> t \<Longrightarrow> T t \<noteq> None \<Longrightarrow> P t = Idle \<Longrightarrow> shm_npages w h f = Some n \<Longrightarrow> shm_reserve t st = Some (i, g, st') \<Longrightarrow>
    shm_step t (st, s, T, P) (st', s, T, P(t := Filling i n w h f))"
| filled: "T t = Some r \<Longrightarrow> P t = Filling i n w h f \<Longrightarrow> shm_fill kn i n r s = (Some ps, s') \<Longrightarrow>
    shm_step t (st, s, T, P) (shm_commit i t w h f ps st, s', T, P(t := Idle))"
| failed: "T t = Some r \<Longrightarrow> P t = Filling i n w h f \<Longrightarrow> shm_fill kn i n r s = (None, s') \<Longrightarrow>
    shm_step t (st, s, T, P) (shm_abort i st, s', T, P(t := Idle))"
| map: "0 \<le> t \<Longrightarrow> T t \<noteq> None \<Longrightarrow> P t = Idle \<Longrightarrow> shm_map_begin t h wr st = (Recorded i, st') \<Longrightarrow>
    shm_step t (st, s, T, P) (st', s, T, P(t := Mapping i wr))"
| mapped: "T t = Some r \<Longrightarrow> P t = Mapping i wr \<Longrightarrow> shm_map_finish i t wr r st s = (va, st', s') \<Longrightarrow>
    shm_step t (st, s, T, P) (st', s', T, P(t := Idle))"
| unmap: "0 \<le> t \<Longrightarrow> T t \<noteq> None \<Longrightarrow> P t = Idle \<Longrightarrow> shm_unmap_begin t va st s = (Some (i, n), st', s') \<Longrightarrow>
    shm_step t (st, s, T, P) (st', s', T, P(t := Dropping i n))"
| unmapped: "T t = Some r \<Longrightarrow> P t = Dropping i n \<Longrightarrow>
    shm_step t (st, s, T, P) (st, shm_unmap_pages (kz_shm_slot_va i) n r s, T, P(t := Idle))"
| publish: "T t \<noteq> None \<Longrightarrow> P t = Idle \<Longrightarrow> kz_shm_publish t h x y w hh st = (e, st') \<Longrightarrow> shm_step t (st, s, T, P) (st', s, T, P)"
| destroy: "T t \<noteq> None \<Longrightarrow> P t = Idle \<Longrightarrow> kz_shm_destroy t h st s = (e, st', s') \<Longrightarrow> shm_step t (st, s, T, P) (st', s', T, P)"
| acquire: "T t \<noteq> None \<Longrightarrow> P t = Idle \<Longrightarrow> kz_shm_acquire t h st = (e, st') \<Longrightarrow> shm_step t (st, s, T, P) (st', s, T, P)"
| consume: "T t \<noteq> None \<Longrightarrow> P t = Idle \<Longrightarrow> kz_shm_consume t h st = (a, st') \<Longrightarrow> shm_step t (st, s, T, P) (st', s, T, P)"
| release: "T t \<noteq> None \<Longrightarrow> P t = Idle \<Longrightarrow> kz_shm_release t h st s = (e, st', s') \<Longrightarrow> shm_step t (st, s, T, P) (st', s', T, P)"
| exit: "0 \<le> t \<Longrightarrow> T t \<noteq> None \<Longrightarrow> P t = Idle \<Longrightarrow> kz_shm_task_exit t st s = (st', s') \<Longrightarrow>
    shm_step t (st, s, T, P) (st', s', T(t := None), P)"

lemma unmap_begin_va:
  assumes "shm_unmap_begin t va st s = (Some (i, n), st', s')"
  shows "va = kz_shm_slot_va i"
proof -
  define x where "x = (va - KZ_SHM_BASE) div KZ_SHM_SLOT_SIZE"
  have g: "KZ_SHM_BASE \<le> va" "va < KZ_SHM_END" "(va - KZ_SHM_BASE) mod KZ_SHM_SLOT_SIZE = 0" "i = kz_shm_idx (kz_shm_handle (sl_generation (g_shm st ! u32 x)) (u32 x))"
    using assms by (auto simp: shm_unmap_begin_def x_def Let_def dest: lookup_unmap_Inr(3) split: sum.splits if_splits prod.splits)
  have "x * KZ_SHM_SLOT_SIZE = va - KZ_SHM_BASE" using g(3) unfolding x_def by (simp add: mod_0_imp_dvd)
  moreover from this have "x < 16" using g(1,2) by (simp add: KZ_SHM_END_def KZ_SHM_MAX_RES_def KZ_SHM_SLOT_SIZE_def)
  ultimately show ?thesis using g(1,4) by (simp add: kz_shm_slot_va_def kz_shm_idx_def kz_shm_handle_def u32_def)
qed

text \<open>A whole call of a task that nothing interrupts is such a sequence of steps.\<close>

lemma calls_are_steps:
  assumes t: "0 \<le> t" "T t = Some r" "P t = Idle"
  shows "kz_shm_create kn t r w h f st s = (rc, st', s') \<Longrightarrow> (shm_step t)\<^sup>*\<^sup>* (st, s, T, P) (st', s', T, P)"
    and "kz_shm_map t r hn fl st s = (va, st', s') \<Longrightarrow> (shm_step t)\<^sup>*\<^sup>* (st, s, T, P) (st', s', T, P)"
    and "kz_shm_unmap t r va st s = (rc, st', s') \<Longrightarrow> (shm_step t)\<^sup>*\<^sup>* (st, s, T, P) (st', s', T, P)"
proof -
  have T: "T t \<noteq> None" using t(2) by simp
  have bk: "(P(t := ph))(t := Idle) = P" "(P(t := ph)) t = ph" for ph using t(3) by (simp_all add: fun_upd_idem)
  have two: "(shm_step t)\<^sup>*\<^sup>* a c" if "shm_step t a b" "shm_step t b c" for a b c
    using that by (meson converse_rtranclp_into_rtranclp rtranclp.rtrancl_refl)
  show "(shm_step t)\<^sup>*\<^sup>* (st, s, T, P) (st', s', T, P)" if c: "kz_shm_create kn t r w h f st s = (rc, st', s')"
  proof (cases "\<exists>n i g st1. shm_npages w h f = Some n \<and> shm_reserve t st = Some (i, g, st1) \<and> r \<noteq> PHYS_NULL")
    case True
    then obtain n i g st1 where n: "shm_npages w h f = Some n" and rs: "shm_reserve t st = Some (i, g, st1)" and r: "r \<noteq> PHYS_NULL" by blast
    note one = shm_step.create [of t T P, OF t(1) T t(3) n rs, of s]
    obtain res s1 where fi: "shm_fill kn i n r s = (res, s1)" by (cases "shm_fill kn i n r s")
    have e: "s' = s1" "st' = (case res of None \<Rightarrow> shm_abort i st1 | Some ps \<Rightarrow> shm_commit i t w h f ps st1)"
      using c n rs r t(1) fi by (auto simp: kz_shm_create_def split: option.splits)
    have "shm_step t (st1, s, T, P(t := Filling i n w h f)) (st', s1, T, (P(t := Filling i n w h f))(t := Idle))"
      using shm_step.filled [of T t r "P(t := Filling i n w h f)" i n w h f kn s] shm_step.failed [of T t r "P(t := Filling i n w h f)" i n w h f kn s]
        t(2) bk(2) fi e(2) by (cases res) auto
    then show ?thesis using two [OF one] e(1) bk(1) by simp
  next
    case False
    then have "st' = st" "s' = s" using c by (auto simp: kz_shm_create_def split: option.splits if_splits prod.splits)
    then show ?thesis by simp
  qed
  show "(shm_step t)\<^sup>*\<^sup>* (st, s, T, P) (st', s', T, P)" if c: "kz_shm_map t r hn fl st s = (va, st', s')"
  proof (cases "\<exists>i st1. shm_map_begin t hn (odd fl) st = (Recorded i, st1) \<and> r \<noteq> PHYS_NULL")
    case True
    then obtain i st1 where m: "shm_map_begin t hn (odd fl) st = (Recorded i, st1)" and r: "r \<noteq> PHYS_NULL" by blast
    have "shm_map_finish i t (odd fl) r st1 s = (va, st', s')" using c m r t(1) by (simp add: kz_shm_map_def)
    from two [OF shm_step.map [of t T P, OF t(1) T t(3) m] shm_step.mapped [of T t r "P(t := Mapping i (odd fl))" i "odd fl", OF t(2) bk(2) this]]
    show ?thesis unfolding bk(1) .
  next
    case False
    have "st1 = st" if "shm_map_begin t hn (odd fl) st = (a, st1)" "\<And>i. a \<noteq> Recorded i" for a st1
      using that by (auto simp: shm_map_begin_def Let_def split: sum.splits if_splits option.splits)
    then have "st' = st" "s' = s" using c False by (auto simp: kz_shm_map_def Let_def split: if_splits prod.splits map_answer.splits)
    then show ?thesis by simp
  qed
  show "(shm_step t)\<^sup>*\<^sup>* (st, s, T, P) (st', s', T, P)" if c: "kz_shm_unmap t r va st s = (rc, st', s')"
  proof (cases "\<exists>a st1 s1. shm_unmap_begin t va st s = (Some a, st1, s1) \<and> r \<noteq> PHYS_NULL")
    case True
    then obtain i n st1 s1 where u: "shm_unmap_begin t va st s = (Some (i, n), st1, s1)" and r: "r \<noteq> PHYS_NULL" by auto
    have e: "st' = st1" "s' = shm_unmap_pages (kz_shm_slot_va i) n r s1"
      using c u r t(1) unmap_begin_va [OF u] by (simp_all add: kz_shm_unmap_def)
    from two [OF shm_step.unmap [of t T P, OF t(1) T t(3) u] shm_step.unmapped [of T t r "P(t := Dropping i n)" i n, OF t(2) bk(2)]]
    show ?thesis unfolding bk(1) e .
  next
    case False
    have "st1 = st \<and> s1 = s" if "shm_unmap_begin t va st s = (None, st1, s1)" for st1 s1
      using that by (auto simp: shm_unmap_begin_def Let_def split: sum.splits if_splits prod.splits)
    then have "st' = st \<and> s' = s" using c False by (auto simp: kz_shm_unmap_def split: if_splits prod.splits option.splits)
    then show ?thesis by simp
  qed
qed

definition phase_ok :: "phase \<Rightarrow> bool" where
  "phase_ok ph \<longleftrightarrow> (case ph of Idle \<Rightarrow> True | Filling i _ _ _ _ \<Rightarrow> i < KZ_SHM_MAX_RES | Mapping i _ \<Rightarrow> i < KZ_SHM_MAX_RES
    | Dropping i _ \<Rightarrow> i < KZ_SHM_MAX_RES)"

lemma phase_okD: "phase_ok Idle" "phase_ok (Filling i n w h f) \<longleftrightarrow> i < KZ_SHM_MAX_RES" "phase_ok (Mapping i wr) \<longleftrightarrow> i < KZ_SHM_MAX_RES"
  "phase_ok (Dropping i n) \<longleftrightarrow> i < KZ_SHM_MAX_RES"
  by (simp_all add: phase_ok_def)

lemma npages_bounds: "shm_npages w h f = Some n \<Longrightarrow> 0 < n \<and> n \<le> 2048"
  by (auto simp: shm_npages_def Let_def KZ_SHM_MAX_PAGES_def split: if_splits)

lemma shm_step_ok:
  assumes "shm_step t (st, s, T, P) (st', s', T', P')" and inv: "shm_inv k st s R T P {}" and ph: "\<forall>u. phase_ok (P u)"
  shows "shm_inv k st' s' R T' P' {} \<and> shm_total k st' s' R = shm_total k st s R \<and> (\<forall>u. phase_ok (P' u))"
proof -
  have idx: "phase_ok (P t)" using ph by blast
  from assms(1) show ?thesis
  proof cases
    case (create w h f n i g)
    have "0 < n" "n \<le> 2048" using npages_bounds [OF create(7)] by auto
    then show ?thesis using reserve_ok [OF inv create(5,6) _ _ create(8)] create(1-3) ph
      by (simp add: phase_okD)
  next
    case (filled r i n w h f kn ps)
    then show ?thesis using fill_ok [OF inv filled(4,5) _ filled(6) refl] idx ph by (simp add: phase_okD)
  next
    case (failed r i n w h f kn)
    then show ?thesis using fill_ok [OF inv failed(4,5) _ failed(6) refl] idx ph by (simp add: phase_okD)
  next
    case (map h wr i)
    then show ?thesis using map_begin_ok [OF inv map(5,6,7)] ph by (simp add: phase_okD)
  next
    case (mapped r i wr va)
    then show ?thesis using map_finish_ok [OF inv mapped(3,4) _ mapped(5)] idx ph by (simp add: phase_okD)
  next
    case (unmap va i n)
    then show ?thesis using unmap_begin_ok [OF inv unmap(4,5,6)] ph by (simp add: phase_okD)
  next
    case (unmapped r i n)
    then show ?thesis using unmap_finish_ok [OF inv unmapped(5,6)] idx ph by (simp add: phase_okD)
  next
    case publish
    then show ?thesis using publish_ok [OF inv] ph by simp
  next
    case destroy
    then show ?thesis using destroy_ok [OF inv] ph by simp
  next
    case (acquire h e)
    then show ?thesis using take_ref_ok [OF inv] ph by (auto simp: kz_shm_acquire_def split: prod.splits sum.splits)
  next
    case (consume h a)
    then show ?thesis using take_ref_ok [OF inv] ph by (auto simp: kz_shm_consume_def Let_def split: prod.splits sum.splits)
  next
    case release
    then show ?thesis using release_ok [OF inv] ph by simp
  next
    case exit
    then show ?thesis using exit_ok [OF inv] ph by simp
  qed
qed

text \<open>What a step of task \<open>t\<close> can do to one slot, \<open>g\<close> being the next generation.\<close>

definition slot_moves :: "nat \<Rightarrow> int \<Rightarrow> kz_shm_slot \<Rightarrow> kz_shm_slot \<Rightarrow> bool" where
  "slot_moves g t sl sl' \<longleftrightarrow> set (sl_refs sl') \<subseteq> insert t (set (sl_refs sl))
    \<and> (sl_used sl' \<longrightarrow> sl_generation sl' = g
        \<or> sl_used sl \<and> sl_generation sl' = sl_generation sl \<and> (sl_destroyed sl \<longrightarrow> sl_destroyed sl'))"

definition table_moves :: "int \<Rightarrow> shm \<Rightarrow> shm \<Rightarrow> bool" where
  "table_moves t st st' \<longleftrightarrow> length (g_shm st') = length (g_shm st)
    \<and> (\<forall>i<length (g_shm st). slot_moves (if g_shm_gen st = 0 then 1 else g_shm_gen st) t (g_shm st ! i) (g_shm st' ! i))"

lemma slot_moves_refl: "slot_moves g t sl sl"
  by (auto simp: slot_moves_def)

lemma table_moves_refl: "table_moves t st st"
  by (simp add: table_moves_def slot_moves_refl)

lemma table_moves_slot:
  assumes "slot_moves (if g_shm_gen st = 0 then 1 else g_shm_gen st) t (g_shm st ! i) sl" and "g_shm st' = (g_shm st)[i := sl]"
  shows "table_moves t st st'"
proof -
  have "slot_moves (if g_shm_gen st = 0 then 1 else g_shm_gen st) t (g_shm st ! j) (g_shm st' ! j)" if "j < length (g_shm st)" for j
    using assms(1) slot_moves_refl that unfolding assms(2) by (cases "j = i") simp_all
  then show ?thesis using assms(2) by (simp add: table_moves_def)
qed

lemma maybe_free_moves: "maybe_free sl1 s = (sl', s') \<Longrightarrow> slot_moves g t sl sl1 \<Longrightarrow> slot_moves g t sl sl'"
  by (erule maybe_free_cases) (simp_all add: slot_moves_def)

lemma drop_first_subset: "set (drop_first t xs) \<subseteq> set xs"
  using drop_first_mset [of t xs] by (metis diff_subset_eq_self set_mset_mono set_mset_mset)

lemma exit_slot_moves:
  assumes "shm_exit_slot t i (st, s) = (st', s')"
  shows "\<exists>sl. g_shm st' = (g_shm st)[i := sl] \<and> g_shm_gen st' = g_shm_gen st \<and> slot_moves g t (g_shm st ! i) sl"
proof (cases "sl_used (g_shm st ! i)")
  case False
  then show ?thesis using assms slot_moves_refl by (intro exI [of _ "g_shm st ! i"]) (simp add: shm_exit_slot_def)
next
  case True
  define sl1 where "sl1 = (if has_map (g_shm st ! i) t then del_map (g_shm st ! i) t else g_shm st ! i)"
  obtain rs where rs: "drop_refs sl1 t = sl1\<lparr>sl_refs := rs\<rparr>" "t \<notin> set rs" using drop_refs_ok [of t sl1] by blast
  have sub: "set (sl_refs (drop_refs sl t)) \<subseteq> set (sl_refs sl)" for sl
  proof (induction sl t rule: drop_refs.induct)
    case (1 sl t)
    then show ?case using drop_first_subset [of t "sl_refs sl"] by (subst drop_refs.simps) (auto simp: del_ref_def)
  qed
  define sl2 where "sl2 = (if sl_owner (drop_refs sl1 t) = t \<and> \<not> sl_destroyed (drop_refs sl1 t) then (drop_refs sl1 t)\<lparr>sl_destroyed := True\<rparr> else drop_refs sl1 t)"
  obtain sl4 s1 where mf: "maybe_free sl2 s = (sl4, s1)" by (cases "maybe_free sl2 s")
  have st': "st' = set_slot i sl4 st" using assms True mf by (simp add: shm_exit_slot_def Let_def sl1_def [symmetric] sl2_def [symmetric])
  have "set rs \<subseteq> set (sl_refs sl1)" using sub [of sl1] rs(1) by simp
  moreover have "sl_refs sl1 = sl_refs (g_shm st ! i)" "sl_generation sl1 = sl_generation (g_shm st ! i)"
    "sl_destroyed sl1 = sl_destroyed (g_shm st ! i)" by (simp_all add: sl1_def del_map_def)
  ultimately have "slot_moves g t (g_shm st ! i) sl2" using True unfolding sl2_def rs(1) by (auto simp: slot_moves_def)
  then show ?thesis using maybe_free_moves [OF mf] st' by (intro exI [of _ sl4]) (simp add: set_slot_def)
qed

lemma exit_moves:
  assumes "fold (shm_exit_slot t) [0..<n] (st, s) = (st', s')" and "n \<le> length (g_shm st)"
  shows "table_moves t st st' \<and> g_shm_gen st' = g_shm_gen st \<and> (\<forall>i<length (g_shm st). n \<le> i \<longrightarrow> g_shm st' ! i = g_shm st ! i)"
  using assms
proof (induction n arbitrary: st' s')
  case 0
  then show ?case by (simp add: table_moves_refl)
next
  case (Suc n)
  obtain st1 s1 where f: "fold (shm_exit_slot t) [0..<n] (st, s) = (st1, s1)" by (cases "fold (shm_exit_slot t) [0..<n] (st, s)")
  let ?g = "if g_shm_gen st = 0 then 1 else g_shm_gen st"
  have ih: "table_moves t st st1" "g_shm_gen st1 = g_shm_gen st" "\<forall>i<length (g_shm st). n \<le> i \<longrightarrow> g_shm st1 ! i = g_shm st ! i"
    using Suc.IH [OF f] Suc.prems(2) by auto
  obtain sl where sl: "g_shm st' = (g_shm st1)[n := sl]" "g_shm_gen st' = g_shm_gen st1" "slot_moves ?g t (g_shm st1 ! n) sl"
    using exit_slot_moves [of t n st1 s1 st' s' ?g] Suc.prems(1) f by auto
  have "g_shm st1 ! n = g_shm st ! n" using ih(3) Suc.prems(2) by simp
  moreover have n: "n < length (g_shm st1)" using ih(1) Suc.prems(2) by (simp add: table_moves_def)
  ultimately show ?case using ih sl unfolding table_moves_def by (auto simp: nth_list_update [OF n])
qed

lemma set_slot_gen [simp]: "g_shm_gen (set_slot i sl st) = g_shm_gen st"
  by (simp add: set_slot_def)

lemma set_slot_moves: "(\<And>g. slot_moves g t (g_shm st ! i) sl) \<Longrightarrow> table_moves t st (set_slot i sl st)"
  by (rule table_moves_slot) (simp_all add: set_slot_def)

lemma slot_moves_simple:
  assumes "sl_used sl' \<longrightarrow> sl_used sl" "sl_generation sl' = sl_generation sl" "sl_destroyed sl \<longrightarrow> sl_destroyed sl'"
    and "set (sl_refs sl') \<subseteq> insert t (set (sl_refs sl))"
  shows "slot_moves g t sl sl'"
  using assms by (auto simp: slot_moves_def)

lemma take_ref_moves:
  assumes "shm_take_ref t h st = (a, st')"
  shows "table_moves t st st'" and "g_shm_gen st' = g_shm_gen st"
proof -
  obtain i where "st' = st \<or> st' = set_slot i ((g_shm st ! i)\<lparr>sl_refs := sl_refs (g_shm st ! i) @ [t]\<rparr>) st"
    using assms by (auto simp: shm_take_ref_def add_ref_def Let_def split: sum.splits if_splits option.splits)
  then show "table_moves t st st'" and "g_shm_gen st' = g_shm_gen st"
    by (auto intro!: set_slot_moves slot_moves_simple table_moves_refl)
qed

lemma shm_step_moves:
  assumes "shm_step t (st, s, T, P) (st', s', T', P')" and len: "length (g_shm st) = KZ_SHM_MAX_RES"
  shows "table_moves t st st' \<and> (g_shm_gen st' = g_shm_gen st
    \<or> g_shm_gen st' = (let n = u32 ((if g_shm_gen st = 0 then 1 else g_shm_gen st) + 1) in if n = 0 then 1 else n))"
proof -
  have "table_moves t st st' \<and> g_shm_gen st' = g_shm_gen st" if "\<And>i g. shm_reserve t st \<noteq> Some (i, g, st')"
    using assms(1)
  proof cases
    case create
    then show ?thesis using that by blast
  next
    case (filled r i n w h f kn ps)
    show ?thesis unfolding filled(1) shm_commit_def by (auto intro!: set_slot_moves simp: slot_moves_def)
  next
    case (failed r i n w h f kn)
    show ?thesis unfolding failed(1) shm_abort_def by (auto intro!: set_slot_moves simp: slot_moves_def)
  next
    case (map h wr i)
    then have "st' = set_slot i ((g_shm st ! i)\<lparr>sl_maps := sl_maps (g_shm st ! i) @ [t]\<rparr>) st"
      by (auto simp: shm_map_begin_def add_map_def Let_def split: sum.splits if_splits option.splits)
    then show ?thesis by (auto intro!: set_slot_moves slot_moves_simple)
  next
    case (mapped r i wr va)
    show ?thesis
    proof (cases "st' = st")
      case False
      then obtain s1 sl s2 where mf: "maybe_free (del_map (g_shm st ! i) t) s1 = (sl, s2)" "st' = set_slot i sl st"
        using mapped(5) by (auto simp: shm_map_finish_def shm_map_undo_def split: prod.splits bool.splits)
      then show ?thesis using maybe_free_moves [OF mf(1) slot_moves_simple] by (auto intro!: set_slot_moves simp: del_map_def)
    qed (simp add: table_moves_refl)
  next
    case (unmap va i n)
    then obtain sl where mf: "maybe_free (del_map (g_shm st ! i) t) s = (sl, s')" "st' = set_slot i sl st"
      by (auto simp: shm_unmap_begin_def Let_def split: sum.splits if_splits prod.splits)
    then show ?thesis using maybe_free_moves [OF mf(1) slot_moves_simple] by (auto intro!: set_slot_moves simp: del_map_def)
  next
    case unmapped
    then show ?thesis by (simp add: table_moves_refl)
  next
    case (publish h x y w hh e)
    then obtain i where "st' = st \<or> st' = set_slot i ((g_shm st ! i)\<lparr>sl_published := True, sl_damage := (x, y, w, hh)\<rparr>) st"
      by (auto simp: kz_shm_publish_def Let_def split: sum.splits if_splits)
    then show ?thesis by (auto intro!: set_slot_moves slot_moves_simple table_moves_refl)
  next
    case (destroy h e)
    then obtain i sl where "st' = st \<or> maybe_free ((g_shm st ! i)\<lparr>sl_destroyed := True\<rparr>) s = (sl, s') \<and> st' = set_slot i sl st"
      by (auto simp: kz_shm_destroy_def Let_def split: sum.splits if_splits prod.splits)
    then show ?thesis by (auto intro!: set_slot_moves slot_moves_simple table_moves_refl elim!: maybe_free_moves)
  next
    case (acquire h e)
    then show ?thesis by (auto simp: kz_shm_acquire_def intro: take_ref_moves split: prod.splits sum.splits)
  next
    case (consume h a)
    then show ?thesis by (auto simp: kz_shm_consume_def Let_def intro: take_ref_moves split: prod.splits sum.splits)
  next
    case (release h e)
    then obtain i sl where "st' = st \<or> maybe_free (del_ref (g_shm st ! i) t) s = (sl, s') \<and> st' = set_slot i sl st"
      by (auto simp: kz_shm_release_def Let_def split: sum.splits if_splits prod.splits)
    then show ?thesis using drop_first_subset [of t "sl_refs (g_shm st ! i)"]
      by (auto simp: del_ref_def intro!: set_slot_moves slot_moves_simple table_moves_refl elim!: maybe_free_moves)
  next
    case exit
    then show ?thesis using exit_moves [of t KZ_SHM_MAX_RES st s st' s'] len by (simp add: kz_shm_task_exit_def)
  qed
  moreover have ?thesis if "shm_reserve t st = Some (i, g, st')" for i g
  proof -
    let ?sl = "(g_shm st ! i)\<lparr>sl_used := True, sl_creating := True, sl_published := False,
      sl_destroyed := False, sl_generation := g, sl_owner := t, sl_maps := [], sl_refs := []\<rparr>"
    have e: "g_shm st' = (g_shm st)[i := ?sl]" "g = (if g_shm_gen st = 0 then 1 else g_shm_gen st)"
      "g_shm_gen st' = (let n = u32 ((if g_shm_gen st = 0 then 1 else g_shm_gen st) + 1) in if n = 0 then 1 else n)"
      using that by (auto simp: shm_reserve_def Let_def set_slot_def split: option.splits)
    have "table_moves t st st'" by (rule table_moves_slot [OF _ e(1)]) (simp add: slot_moves_def e(2))
    then show ?thesis using e(3) by simp
  qed
  ultimately show ?thesis by blast
qed

section \<open>Runs\<close>

definition empty_slot :: kz_shm_slot where
  "empty_slot = \<lparr>sl_used = False, sl_published = False, sl_destroyed = False, sl_creating = False, sl_generation = 0, sl_owner = 0,
    sl_width = 0, sl_height = 0, sl_stride = 0, sl_format = 0, sl_pages = [], sl_maps = [], sl_refs = [], sl_damage = (0, 0, 0, 0)\<rparr>"

definition shm_start :: shm where
  "shm_start = \<lparr>g_shm = replicate KZ_SHM_MAX_RES empty_slot, g_shm_gen = 1\<rparr>"

text \<open>The same page with the same right to write; the processor's accessed and dirty bits may differ.\<close>

definition same_entry :: "pte option \<Rightarrow> pte option \<Rightarrow> bool" where
  "same_entry a b \<longleftrightarrow> rel_option (\<lambda>e e'. pte_frame e' = pte_frame e \<and> (bit e' 1 \<longleftrightarrow> bit e 1)) a b"

text \<open>
  A new task starts with empty windows. \<open>rest\<close> is the work of the other parts of the kernel: it keeps
  the windows of the running tasks and takes no frame a slot holds.
\<close>

inductive shm_run :: "nat \<Rightarrow> nat set \<Rightarrow> shm_cfg \<Rightarrow> bool" for k where
  start: "vm_run k s R \<Longrightarrow> shm_run k R (shm_start, s, \<lambda>_. None, \<lambda>_. Idle)"
| spawn: "shm_run k R (st, s, T, P) \<Longrightarrow> 0 \<le> t \<Longrightarrow> T t = None \<Longrightarrow> r \<in> R \<Longrightarrow> r \<notin> ran T \<Longrightarrow>
    \<forall>i<KZ_SHM_MAX_RES. \<forall>j<2048. lookup s r (kz_shm_slot_va i + j * 4096) = None \<Longrightarrow> shm_run k R (st, s, T(t \<mapsto> r), P)"
| step: "shm_run k R c \<Longrightarrow> shm_step t c c' \<Longrightarrow> shm_run k R c'"
| rest: "shm_run k R (st, s, T, P) \<Longrightarrow> vm_run k s' R' \<Longrightarrow> ran T \<subseteq> R' \<Longrightarrow>
    \<forall>i<KZ_SHM_MAX_RES. \<forall>p\<in>set (sl_pages (g_shm st ! i)). fresh k s' R' p \<Longrightarrow>
    \<forall>r\<in>ran T. \<forall>i<KZ_SHM_MAX_RES. \<forall>j<2048.
      same_entry (lookup s r (kz_shm_slot_va i + j * 4096)) (lookup s' r (kz_shm_slot_va i + j * 4096)) \<Longrightarrow>
    shm_run k R' (st, s', T, P)"

lemma start_ok:
  assumes "vm_run k s R"
  shows "shm_inv k shm_start s R (\<lambda>_. None) (\<lambda>_. Idle) {}"
proof -
  have n: "g_shm shm_start ! i = empty_slot" if "i < KZ_SHM_MAX_RES" for i using that by (simp add: shm_start_def)
  have "slot_ok {} (\<lambda>_. Idle) i empty_slot" for i by (simp add: slot_ok_def empty_slot_def)
  moreover have "length (g_shm shm_start) = KZ_SHM_MAX_RES" by (simp add: shm_start_def)
  moreover have "slot_frames_ok k s R (g_shm shm_start)" by (simp add: slot_frames_ok_def shm_start_def empty_slot_def)
  ultimately show ?thesis using assms n by (simp add: shm_inv_def)
qed

lemma slot_ok_mono: "slot_ok A P i sl \<Longrightarrow> A \<subseteq> B \<Longrightarrow> slot_ok B P i sl"
  unfolding slot_ok_def by blast

lemma spawn_ok:
  assumes inv: "shm_inv k st s R T P {}" and t: "T t = None" "r \<in> R" "r \<notin> ran T"
    and new: "\<forall>i<KZ_SHM_MAX_RES. \<forall>j<2048. cell s r i j = None"
  shows "shm_inv k st s R (T(t \<mapsto> r)) P {}"
proof -
  note I = shm_invD [OF inv]
  have id: "P t = Idle" using I(5) t(1) by blast
  have "win_ok s r i (g_shm st ! i) t (P t)" if i: "i < KZ_SHM_MAX_RES" for i
  proof -
    have "t \<notin> set (sl_maps (g_shm st ! i))" using slot_okD(8) [OF I(7) [OF i]] t(1) by auto
    then show ?thesis using new i id by (simp add: win_phase)
  qed
  then have "win_ok s q i (g_shm st ! i) u (P u)" if "(T(t \<mapsto> r)) u = Some q" "i < KZ_SHM_MAX_RES" for u q i
    using I(8) that by (cases "u = t") auto
  moreover have "slot_ok (dom (T(t \<mapsto> r)) \<union> {}) P i (g_shm st ! i)" if "i < KZ_SHM_MAX_RES" for i
    using I(7) [OF that] by (rule slot_ok_mono) auto
  moreover have "u = v" if "(T(t \<mapsto> r)) u = Some q" "(T(t \<mapsto> r)) v = Some q" for u v q
    using I(4) t(3) that by (auto simp: ran_def split: if_splits)
  moreover have "q \<in> R" if "(T(t \<mapsto> r)) u = Some q" for u q using I(3) t(2) that by (cases "u = t") auto
  moreover have "(T(t \<mapsto> r)) u \<noteq> None" if "P u \<noteq> Idle" for u using I(5) [OF that] by (cases "u = t") auto
  ultimately show ?thesis unfolding shm_inv_def using I(1,2,6) by blast
qed

lemma win_ok_same:
  assumes "win_ok s r i sl t ph" and "\<forall>j<2048. same_entry (cell s r i j) (cell s' r i j)"
  shows "win_ok s' r i sl t ph"
proof -
  have e: "cell s' r i j = None \<longleftrightarrow> cell s r i j = None" if "j < 2048" for j
    using assms(2) that by (cases "cell s r i j"; cases "cell s' r i j") (auto simp: same_entry_def)
  have "shows_slot s' r i ps w" if sh: "shows_slot s r i ps w" for ps w unfolding shows_slot_def
  proof (intro allI impI)
    fix j :: nat assume j: "j < 2048"
    have "same_entry (cell s r i j) (cell s' r i j)" using assms(2) j by blast
    moreover have "case cell s r i j of None \<Rightarrow> length ps \<le> j | Some e \<Rightarrow> j < length ps \<and> pte_frame e = ps ! j \<and> (bit e 1 \<longrightarrow> w)"
      using sh j unfolding shows_slot_def by blast
    ultimately show "case cell s' r i j of None \<Rightarrow> length ps \<le> j | Some e \<Rightarrow> j < length ps \<and> pte_frame e = ps ! j \<and> (bit e 1 \<longrightarrow> w)"
      by (cases "cell s r i j"; cases "cell s' r i j") (auto simp: same_entry_def)
  qed
  then show ?thesis using assms(1) e unfolding win_ok_def by (simp split: if_splits)
qed

lemma rest_ok:
  assumes inv: "shm_inv k st s R T P {}" and run: "vm_run k s' R'" and T: "ran T \<subseteq> R'"
    and fr: "\<forall>i<KZ_SHM_MAX_RES. \<forall>p\<in>set (sl_pages (g_shm st ! i)). fresh k s' R' p"
    and w: "\<forall>r\<in>ran T. \<forall>i<KZ_SHM_MAX_RES. \<forall>j<2048. same_entry (cell s r i j) (cell s' r i j)"
  shows "shm_inv k st s' R' T P {}"
proof -
  note I = shm_invD [OF inv]
  have "slot_frames_ok k s' R' (g_shm st)" using I(6) fr unfolding slot_frames_ok_def I(2) by blast
  moreover have "win_ok s' r i (g_shm st ! i) t (P t)" if "T t = Some r" "i < KZ_SHM_MAX_RES" for t r i
    using w that by (intro win_ok_same [OF I(8) [OF that]]) (auto simp: ran_def)
  moreover have "r \<in> R'" if "T t = Some r" for t r using T that by (auto simp: ran_def)
  ultimately show ?thesis unfolding shm_inv_def using run I(2,4,5,7) by blast
qed

lemma shm_step_tasks:
  assumes "shm_step t (st, s, T, P) (st', s', T', P')" and inv: "shm_inv k st s R T P {}"
  shows "T t \<noteq> None \<and> (T' = T \<or> T' = T(t := None) \<and> (\<forall>i<KZ_SHM_MAX_RES. left t (g_shm st' ! i)))"
  using assms(1)
proof cases
  case exit
  then show ?thesis using exit_ok [OF inv] by simp
qed auto

lemma shm_run_ok:
  assumes "shm_run k R (st, s, T, P)"
  shows "shm_inv k st s R T P {} \<and> (\<forall>u. phase_ok (P u)) \<and> (\<forall>i<KZ_SHM_MAX_RES. set (sl_refs (g_shm st ! i)) \<subseteq> dom T)"
  using assms
proof (induction R "(st, s, T, P)" arbitrary: st s T P rule: shm_run.induct)
  case (start s R)
  then show ?case using start_ok by (auto simp: phase_okD shm_start_def empty_slot_def)
next
  case (spawn R st s T P t r)
  then show ?case using spawn_ok [of k st s R T P t r] by fastforce
next
  case (step R c t st' s' T' P')
  obtain st s T P where c: "c = (st, s, T, P)" by (cases c)
  have ih: "shm_inv k st s R T P {}" "\<forall>u. phase_ok (P u)" "\<forall>i<KZ_SHM_MAX_RES. set (sl_refs (g_shm st ! i)) \<subseteq> dom T"
    using step.hyps(2) [OF c] by auto
  have st: "shm_step t (st, s, T, P) (st', s', T', P')" using step.hyps(3) c by simp
  note len = shm_invD(2) [OF ih(1)] and tk = shm_step_tasks [OF st ih(1)]
  have "set (sl_refs (g_shm st' ! i)) \<subseteq> dom T'" if i: "i < KZ_SHM_MAX_RES" for i
  proof -
    have "set (sl_refs (g_shm st' ! i)) \<subseteq> insert t (set (sl_refs (g_shm st ! i)))"
      using shm_step_moves [OF st len] i unfolding table_moves_def slot_moves_def len by blast
    moreover have "set (sl_refs (g_shm st ! i)) \<subseteq> dom T" using ih(3) i by blast
    moreover have "t \<in> dom T" using tk by auto
    ultimately have sub: "set (sl_refs (g_shm st' ! i)) \<subseteq> dom T" by blast
    consider "T' = T" | "T' = T(t := None)" "t \<notin> set (sl_refs (g_shm st' ! i))" using tk i by (auto simp: left_def)
    then show ?thesis by cases (use sub in auto)
  qed
  then show ?case using shm_step_ok [OF st ih(1,2)] by blast
next
  case (rest R st s T P s' R')
  then show ?case using rest_ok [of k st s R T P s' R'] by simp
qed

section \<open>Properties\<close>

text \<open>C9 (safety). What a task sees of shared memory, on every run of any number of tasks. A page of the window of slot \<open>i\<close> is mapped in an
  idle task exactly when the slot records the task and has that page; the frame is the slot's, it is writable at most for the
  owner, and only after publishing does another task see it.\<close>

theorem shm_pages_exact:
  assumes "shm_run k R (st, s, T, P)" and "T t = Some r" and "P t = Idle" and "i < KZ_SHM_MAX_RES" and "j < KZ_SHM_MAX_PAGES"
    and "sl = g_shm st ! i"
  shows "case lookup s r (kz_shm_slot_va i + j * 4096) of None \<Rightarrow> \<not> (t \<in> set (sl_maps sl) \<and> j < length (sl_pages sl))
    | Some e \<Rightarrow> sl_used sl \<and> \<not> sl_creating sl \<and> t \<in> set (sl_maps sl) \<and> j < length (sl_pages sl) \<and> pte_frame e = sl_pages sl ! j
        \<and> (bit e 1 \<longrightarrow> t = sl_owner sl) \<and> (t \<noteq> sl_owner sl \<longrightarrow> sl_published sl)"
proof -
  have inv: "shm_inv k st s R T P {}" using shm_run_ok [OF assms(1)] by blast
  note so = slot_okD [OF shm_invD(7) [OF inv assms(4)], folded assms(6)]
  have w: "win_ok s r i sl t Idle" using shm_invD(8) [OF inv assms(2,4)] assms(3,6) by simp
  have j: "j < 2048" using assms(5) by (simp add: KZ_SHM_MAX_PAGES_def)
  show ?thesis
  proof (cases "t \<in> set (sl_maps sl)")
    case True
    then have "case cell s r i j of None \<Rightarrow> length (sl_pages sl) \<le> j
        | Some e \<Rightarrow> j < length (sl_pages sl) \<and> pte_frame e = sl_pages sl ! j \<and> (bit e 1 \<longrightarrow> t = sl_owner sl)"
      using w j by (simp add: win_phase shows_slot_def)
    moreover have ne: "sl_maps sl \<noteq> []" using True by auto
    moreover have "sl_used sl" "\<not> sl_creating sl" using ne so(1,2) by blast+
    moreover have "t \<noteq> sl_owner sl \<longrightarrow> sl_published sl" using so(8) [OF True] by blast
    ultimately show ?thesis using True by (simp split: option.splits)
  next
    case False
    then have "cell s r i j = None" using w j by (simp add: win_phase)
    then show ?thesis using False by simp
  qed
qed

text \<open>C27 (safety). A frame of a surface belongs to that surface alone: it is managed, not free, neither a page table nor a private page of any
  address space, and in no other slot.\<close>

theorem shm_frames_exclusive:
  assumes "shm_run k R (st, s, T, P)" and "i < KZ_SHM_MAX_RES" and "p \<in> set (sl_pages (g_shm st ! i))"
  shows "sl_used (g_shm st ! i) \<and> managed (vm_pmm s) p \<and> p \<notin> avail_addrs (vm_pmm s) \<and> p \<notin> owned k s R
    \<and> distinct (sl_pages (g_shm st ! i)) \<and> (\<forall>j<KZ_SHM_MAX_RES. p \<in> set (sl_pages (g_shm st ! j)) \<longrightarrow> j = i)"
proof -
  have inv: "shm_inv k st s R T P {}" using shm_run_ok [OF assms(1)] by blast
  note fo = slot_frames_okD [OF shm_invD(6) [OF inv], unfolded shm_invD(2) [OF inv], OF assms(2)]
  have "sl_pages (g_shm st ! i) \<noteq> []" using assms(3) by auto
  then have "sl_used (g_shm st ! i)" using slot_okD(1) [OF shm_invD(7) [OF inv assms(2)]] by blast
  then show ?thesis using fo assms(3) by (auto simp: fresh_def)
qed

text \<open>C16 (invariant). No step of any call, however it interleaves with others and whether it succeeds or fails, loses or invents a frame: the
  frames that are free, used by address spaces, or held by surfaces stay the same set.\<close>

theorem shm_step_conserves_frames:
  assumes "shm_run k R (st, s, T, P)" and "shm_step t (st, s, T, P) (st', s', T', P')"
  shows "avail_addrs (vm_pmm s') \<union> owned k s' R \<union> (\<Union>i<KZ_SHM_MAX_RES. set (sl_pages (g_shm st' ! i)))
    = avail_addrs (vm_pmm s) \<union> owned k s R \<union> (\<Union>i<KZ_SHM_MAX_RES. set (sl_pages (g_shm st ! i)))"
proof -
  have r: "shm_inv k st s R T P {}" "\<forall>u. phase_ok (P u)" using shm_run_ok [OF assms(1)] by blast+
  have "shm_total k st' s' R = shm_total k st s R" using shm_step_ok [OF assms(2) r] by blast
  then show ?thesis by (simp only: shm_total_def)
qed



text \<open>C35 (error). The last task to unmap a destroyed surface frees the frames while its pages still point to them: after the part of
  \<open>kz_shm_unmap\<close> under the lock every page of the window is mapped to a frame that is free for anyone to take.\<close>

theorem shm_unmap_frees_before_unmapping:
  assumes "shm_run k R (st, s, T, P)" and "T t = Some r" and "P t = Idle" and "shm_unmap_begin t va st s = (Some (i, n), st', s')"
    and "sl_destroyed (g_shm st ! i)" and "sl_maps (g_shm st ! i) = [t]" and "sl_refs (g_shm st ! i) = []"
  shows "0 < n \<and> (\<forall>j<n. \<exists>e. lookup s' r (kz_shm_slot_va i + j * 4096) = Some e \<and> pte_frame e \<in> avail_addrs (vm_pmm s'))"
proof -
  have inv: "shm_inv k st s R T P {}" using shm_run_ok [OF assms(1)] by blast
  have i: "i < KZ_SHM_MAX_RES" by (rule unmap_begin_ok(1) [OF inv _ assms(3,4)]) (simp add: assms(2))
  let ?sl = "g_shm st ! i"
  note so = slot_okD [OF shm_invD(7) [OF inv i]]
  have m: "t \<in> set (sl_maps ?sl)" "sl_maps ?sl \<noteq> []" using assms(6) by auto
  then have c: "sl_used ?sl" "\<not> sl_creating ?sl" using so(1,2) by blast+
  obtain sl1 where n: "n = length (sl_pages ?sl)" and fr: "maybe_free (del_map ?sl t) s = (sl1, s')"
    using assms(4) by (auto simp: shm_unmap_begin_def Let_def split: sum.splits if_splits prod.splits)
  have d: "sl_maps (del_map ?sl t) = []" using drop_first_distinct [of "[t]" t] assms(6) by (simp add: del_map_def)
  note mm = maybe_free_memory [OF inv i _ fr]
  have "sl_pages sl1 = []" using fr
    by (cases rule: maybe_free_cases) (use assms(5,7) c(2) d in \<open>auto simp: del_map_def\<close>)
  then have av: "set (sl_pages ?sl) \<subseteq> av s'" using mm(4,5) slot_frames_okD(2) [OF shm_invD(6) [OF inv], unfolded shm_invD(2) [OF inv], OF i]
    by (auto simp: del_map_def fresh_def)
  have sh: "shows_slot s r i (sl_pages ?sl) (t = sl_owner ?sl)" using shm_invD(8) [OF inv assms(2) i] assms(3) m(1) by (simp add: win_phase)
  have "\<exists>e. cell s' r i j = Some e \<and> pte_frame e \<in> av s'" if j: "j < n" for j
  proof -
    have j2: "j < 2048" "j < length (sl_pages ?sl)" using j n so(4) [OF c] by auto
    then obtain e where "cell s r i j = Some e" "pte_frame e = sl_pages ?sl ! j"
      using sh unfolding shows_slot_def by (fastforce split: option.splits)
    moreover have "cell s' r i j = cell s r i j"
      using mm(2) [OF _ cell_user [OF shm_invD(3) [OF inv assms(2)] i j2(1)]] by (simp add: del_map_def)
    ultimately show ?thesis using av j2(2) by auto
  qed
  then show ?thesis using n so(4) [OF c] by auto
qed

section \<open>Witnesses\<close>

lemma fill_one:
  assumes run: "vm_run k s R" and r: "r \<in> R" and i: "i < KZ_SHM_MAX_RES" and av: "4 \<le> card (av s)"
  obtains p s' where "shm_fill True i 1 r s = (Some [p], s')"
proof -
  obtain a s1 where al: "vm_alloc s = (a, s1)" by (cases "vm_alloc s")
  have ok: "vm_ok k s R" by (rule vm_run_ok [OF run])
  have a: "a \<noteq> 0" using vm_alloc_cases [OF _ al, of k] ok av by (auto simp: vm_ok_def)
  note f = vm_alloc_same [OF run al a]
  let ?s = "set_frame a (\<lambda>_. 0) s1"
  have z: "same_view k R s1 ?s" "av ?s = av s1" using zero_same [OF same_viewD(1) [OF f(1)]] f(4) by (auto simp: fresh_def)
  have ok2: "vm_ok k ?s R" by (rule vm_run_ok [OF same_viewD(1) [OF z(1)]])
  have x: "in_tree k R r (kz_shm_slot_va i)" using cell_user [OF r i, of 0] by simp
  obtain b s2 where m: "map_walk r (kz_shm_slot_va i) a (shm_flags True) ?s = (b, s2)" by (cases "map_walk r (kz_shm_slot_va i) a (shm_flags True) ?s")
  have "3 \<le> card (av ?s)" using av f(2,3) z(2) by (simp add: card_Diff_singleton)
  then have "card (av ?s) \<le> 2 \<Longrightarrow> False" by simp
  then have b using map_walk_fail_few [OF ok2 x r] m by (cases b) auto
  then have "vmm_map_page_into (kz_shm_slot_va i) a (shm_flags True) r ?s = (True, s2)" using map_into_walk [OF ok2 x] m by simp
  then have "shm_fill True i 1 r s = (Some [a], s2)" using al a by (simp add: shm_fill_def PHYS_NULL_def numeral_1_eq_Suc_0)
  then show thesis by (rule that)
qed

text \<open>A task with a surface of one page.\<close>

definition demo_slot :: "nat \<Rightarrow> kz_shm_slot" where
  "demo_slot p = empty_slot\<lparr>sl_used := True, sl_generation := 1, sl_owner := 5, sl_width := 8, sl_height := 8, sl_stride := 8,
    sl_pages := [p], sl_maps := [5]\<rparr>"

definition demo_table :: "kz_shm_slot \<Rightarrow> shm" where
  "demo_table sl = \<lparr>g_shm = (replicate KZ_SHM_MAX_RES empty_slot)[0 := sl], g_shm_gen = 2\<rparr>"

lemma demo_table_slot [simp]: "g_shm (demo_table sl) ! 0 = sl" "g_shm_gen (demo_table sl) = 2" "set_slot 0 sl' (demo_table sl) = demo_table sl'"
  by (simp_all add: demo_table_def KZ_SHM_MAX_RES_def set_slot_def)

lemma demo_surface:
  obtains s c p where "shm_run 4096 {c} (demo_table (demo_slot p), s, [5 \<mapsto> c], \<lambda>_. Idle)"
proof -
  obtain s c where s: "vm_run 4096 s {c}" "card (av s) \<ge> 1999" "\<forall>va. va < 2 ^ 47 \<longrightarrow> lookup s c va = None" by (rule demo_space)
  let ?st = "demo_table (empty_slot\<lparr>sl_used := True, sl_creating := True, sl_generation := 1, sl_owner := 5\<rparr>)"
  have "\<forall>i<KZ_SHM_MAX_RES. \<forall>j<2048. cell s c i j = None" using s(3) shm_user [OF slot_va_ok(1)] by simp
  then have r1: "shm_run 4096 {c} (shm_start, s, [5 \<mapsto> c], \<lambda>_. Idle)" by (intro shm_run.spawn [OF shm_run.start [OF s(1)]]) simp_all
  have n: "shm_npages 8 8 0 = Some 1"
    by (simp add: shm_npages_def kz_surface_bytes_def kz_surface_validate_def u64_def u32_def KZ_SURFACE_MAX_DIM_def KZ_SURFACE_MAX_BYTES_def
        KZ_OK_def KZ_EINVAL_def KZ_SHM_MAX_PAGES_def Let_def)
  have "find (\<lambda>i. \<not> sl_used (g_shm shm_start ! i)) [0..<KZ_SHM_MAX_RES] = Some 0"
    by (simp add: upt_conv_Cons KZ_SHM_MAX_RES_def shm_start_def empty_slot_def)
  then have rs: "shm_reserve 5 shm_start = Some (0, 1, ?st)"
    by (simp add: shm_reserve_def Let_def set_slot_def demo_table_def shm_start_def empty_slot_def u32_def KZ_SHM_MAX_RES_def)
  have "shm_step 5 (shm_start, s, [5 \<mapsto> c], \<lambda>_. Idle) (?st, s, [5 \<mapsto> c], (\<lambda>_. Idle)(5 := Filling 0 1 8 8 0))"
    using n rs by (intro shm_step.create) simp_all
  from shm_run.step [OF r1 this] have r2: "shm_run 4096 {c} (?st, s, [5 \<mapsto> c], (\<lambda>_. Idle)(5 := Filling 0 1 8 8 0))" .
  obtain p s' where fi: "shm_fill True 0 1 c s = (Some [p], s')" by (rule fill_one [OF s(1), of c 0]) (use s(2) in \<open>simp_all add: KZ_SHM_MAX_RES_def\<close>)
  have "shm_step 5 (?st, s, [5 \<mapsto> c], (\<lambda>_. Idle)(5 := Filling 0 1 8 8 0))
     (shm_commit 0 5 8 8 0 [p] ?st, s', [5 \<mapsto> c], ((\<lambda>_. Idle)(5 := Filling 0 1 8 8 0))(5 := Idle))"
    by (rule shm_step.filled [OF _ _ fi]) simp_all
  moreover have "shm_commit 0 5 8 8 0 [p] ?st = demo_table (demo_slot p)" by (simp add: shm_commit_def demo_slot_def empty_slot_def)
  moreover have "((\<lambda>_. Idle)(5 := Filling 0 1 8 8 0))(5 := Idle) = (\<lambda>_ :: int. Idle)" by auto
  ultimately have "shm_run 4096 {c} (demo_table (demo_slot p), s', [5 \<mapsto> c], \<lambda>_. Idle)" using shm_run.step [OF r2] by simp
  then show thesis by (rule that)
qed

text \<open>The same surface after its owner destroyed it.\<close>

definition demo_handle :: nat where
  "demo_handle = kz_shm_handle 1 0"

lemma demo_destroy: "kz_shm_destroy 5 demo_handle (demo_table (demo_slot p)) s = (KZ_OK, demo_table ((demo_slot p)\<lparr>sl_destroyed := True\<rparr>), s)"
  by (simp add: kz_shm_destroy_def shm_lookup_def demo_handle_def kz_shm_handle_def kz_shm_idx_def kz_shm_gen_def KZ_SHM_MAX_RES_def demo_slot_def
      empty_slot_def maybe_free_def Let_def)

lemma demo_step: "shm_step 5 (demo_table (demo_slot p), s, [5 \<mapsto> c], \<lambda>_. Idle) (demo_table ((demo_slot p)\<lparr>sl_destroyed := True\<rparr>), s, [5 \<mapsto> c], \<lambda>_. Idle)"
  by (rule shm_step.destroy [OF _ _ demo_destroy]) simp_all

lemma demo_slot_fields [simp]: "sl_maps (demo_slot p) = [5]" "sl_pages (demo_slot p) = [p]" "sl_refs (demo_slot p) = []"
  "sl_used (demo_slot p)" "\<not> sl_creating (demo_slot p)" "sl_owner (demo_slot p) = 5" "sl_generation (demo_slot p) = 1"
  by (simp_all add: demo_slot_def empty_slot_def)

theorem shm_pages_exact_witness:
  "\<exists>s c p e. shm_run 4096 {c} (demo_table (demo_slot p), s, [5 \<mapsto> c], \<lambda>_. Idle) \<and> lookup s c KZ_SHM_BASE = Some e \<and> pte_frame e = p"
proof -
  obtain s c p where r: "shm_run 4096 {c} (demo_table (demo_slot p), s, [5 \<mapsto> c], \<lambda>_. Idle)" by (rule demo_surface)
  have b: "kz_shm_slot_va 0 + 0 * 4096 = KZ_SHM_BASE" by (simp add: kz_shm_slot_va_def)
  from shm_pages_exact [OF r, of 5 c 0 0, OF _ _ _ _ refl] have "\<exists>e. lookup s c KZ_SHM_BASE = Some e \<and> pte_frame e = p"
    unfolding b by (auto simp: KZ_SHM_MAX_RES_def KZ_SHM_MAX_PAGES_def split: option.splits)
  then show ?thesis using r by blast
qed

theorem shm_frames_exclusive_witness:
  "\<exists>s c p. shm_run 4096 {c} (demo_table (demo_slot p), s, [5 \<mapsto> c], \<lambda>_. Idle) \<and> p \<notin> avail_addrs (vm_pmm s) \<and> p \<notin> owned 4096 s {c}"
proof -
  obtain s c p where r: "shm_run 4096 {c} (demo_table (demo_slot p), s, [5 \<mapsto> c], \<lambda>_. Idle)" by (rule demo_surface)
  from shm_frames_exclusive [OF r, of 0 p] have "p \<notin> avail_addrs (vm_pmm s) \<and> p \<notin> owned 4096 s {c}" by (simp add: KZ_SHM_MAX_RES_def)
  then show ?thesis using r by blast
qed

theorem shm_step_conserves_frames_witness:
  "\<exists>s c p st'. shm_run 4096 {c} (demo_table (demo_slot p), s, [5 \<mapsto> c], \<lambda>_. Idle)
    \<and> shm_step 5 (demo_table (demo_slot p), s, [5 \<mapsto> c], \<lambda>_. Idle) (st', s, [5 \<mapsto> c], \<lambda>_. Idle)
    \<and> (\<Union>i<KZ_SHM_MAX_RES. set (sl_pages (g_shm (demo_table (demo_slot p)) ! i)))
      \<subseteq> avail_addrs (vm_pmm s) \<union> owned 4096 s {c} \<union> (\<Union>i<KZ_SHM_MAX_RES. set (sl_pages (g_shm st' ! i)))"
proof -
  obtain s c p where r: "shm_run 4096 {c} (demo_table (demo_slot p), s, [5 \<mapsto> c], \<lambda>_. Idle)" by (rule demo_surface)
  note d = demo_step [of p s c]
  show ?thesis using shm_step_conserves_frames [OF r d] r d
    by (intro exI [of _ s] exI [of _ c] exI [of _ p] exI [of _ "demo_table ((demo_slot p)\<lparr>sl_destroyed := True\<rparr>)"] conjI) simp_all
qed


lemma demo_destroyed:
  obtains s c p where "shm_run 4096 {c} (demo_table ((demo_slot p)\<lparr>sl_destroyed := True\<rparr>), s, [5 \<mapsto> c], \<lambda>_. Idle)"
  by (rule demo_surface) (use shm_run.step [OF _ demo_step] in blast)


theorem shm_unmap_frees_before_unmapping_witness:
  "\<exists>s c p st' s' e. shm_run 4096 {c} (demo_table ((demo_slot p)\<lparr>sl_destroyed := True\<rparr>), s, [5 \<mapsto> c], \<lambda>_. Idle)
    \<and> shm_unmap_begin 5 KZ_SHM_BASE (demo_table ((demo_slot p)\<lparr>sl_destroyed := True\<rparr>)) s = (Some (0, 1), st', s')
    \<and> lookup s' c KZ_SHM_BASE = Some e \<and> pte_frame e \<in> avail_addrs (vm_pmm s')"
proof -
  obtain s c p where r: "shm_run 4096 {c} (demo_table ((demo_slot p)\<lparr>sl_destroyed := True\<rparr>), s, [5 \<mapsto> c], \<lambda>_. Idle)" by (rule demo_destroyed)
  let ?sl = "(demo_slot p)\<lparr>sl_destroyed := True\<rparr>"
  obtain sl' s' where mf: "maybe_free (del_map ?sl 5) s = (sl', s')" by (cases "maybe_free (del_map ?sl 5) s")
  have u: "shm_unmap_begin 5 KZ_SHM_BASE (demo_table ?sl) s = (Some (0, 1), demo_table sl', s')"
    using mf by (simp add: shm_unmap_begin_def lookup_unmap_def has_map_def kz_shm_handle_def kz_shm_idx_def kz_shm_gen_def Let_def u32_def
        KZ_SHM_END_def KZ_SHM_MAX_RES_def KZ_SHM_SLOT_SIZE_def)
  have b: "kz_shm_slot_va 0 + 0 * 4096 = KZ_SHM_BASE" by (simp add: kz_shm_slot_va_def)
  from shm_unmap_frees_before_unmapping [OF r, of 5 c, OF _ _ u] have "\<exists>e. lookup s' c KZ_SHM_BASE = Some e \<and> pte_frame e \<in> av s'"
    using b by auto
  then show ?thesis using r u by blast
qed

end
