(* ===== verification/Elf.thy ===== *)
theory Elf
  imports Uheap
begin

text \<open>
  The program loader, \<open>kernel/proc/elf.c\<close> and \<open>include/elf.h\<close>: reading the headers of a file, mapping and filling the segments, setting
  their final protection, and the stack of the program.

  The file is the list of its bytes (\<open>kfs_get_file_size\<close> and \<open>kfs_read_to_buffer\<close>), by path. Reads outside of it, like writes of the kernel to pages
  that are absent or read-only, are faults. The caller has switched to the target address space, so the loader writes through
  \<open>store r\<close>. A loop that does not end is \<open>None\<close>.
\<close>

section \<open>Headers\<close>

definition USER_STACK_SIZE :: nat where
  "USER_STACK_SIZE = 256 * 1024"

definition USER_STACK_TOP :: nat where
  "USER_STACK_TOP = 0x0C000000"

text \<open>A field of \<open>n\<close> bytes; \<open>None\<close> outside the buffer.\<close>

definition fld :: "byte list \<Rightarrow> nat \<Rightarrow> nat \<Rightarrow> nat option" where
  "fld f off n = (if off + n \<le> length f then Some (le_val (bslice off n f)) else None)"

definition fld0 :: "byte list \<Rightarrow> nat \<Rightarrow> nat \<Rightarrow> nat" where
  "fld0 f off n = le_val (bslice off n f)"

text \<open>The comparison stops at the first byte that differs.\<close>

fun elf_magic :: "byte list \<Rightarrow> byte list \<Rightarrow> bool option" where
  "elf_magic [] f = Some True"
| "elf_magic (m # ms) [] = None"
| "elf_magic (m # ms) (b # bs) = (if b \<noteq> m then Some False else elf_magic ms bs)"

record elf_phdr =
  p_type :: nat
  p_flags :: nat
  p_offset :: nat
  p_vaddr :: nat
  p_filesz :: nat
  p_memsz :: nat

definition elf64_phdr :: "byte list \<Rightarrow> nat \<Rightarrow> elf_phdr" where
  "elf64_phdr f a = \<lparr>p_type = fld0 f a 4, p_flags = fld0 f (a + 4) 4, p_offset = fld0 f (a + 8) 8, p_vaddr = fld0 f (a + 16) 8,
    p_filesz = fld0 f (a + 32) 8, p_memsz = fld0 f (a + 40) 8\<rparr>"

definition elf32_phdr :: "byte list \<Rightarrow> nat \<Rightarrow> elf_phdr" where
  "elf32_phdr f a = \<lparr>p_type = fld0 f a 4, p_flags = fld0 f (a + 24) 4, p_offset = fld0 f (a + 4) 4, p_vaddr = fld0 f (a + 8) 4,
    p_filesz = fld0 f (a + 16) 4, p_memsz = fld0 f (a + 20) 4\<rparr>"

text \<open>Names without a slash in front are looked up in \<open>/apps/\<close>; the path buffer has 72 bytes.\<close>

definition elf_path :: "string \<Rightarrow> string" where
  "elf_path name = (if name \<noteq> [] \<and> hd name = CHR ''/'' then name else ''/apps/'' @ take (71 - 6) name)"

section \<open>Segments\<close>

text \<open>A store of the kernel: addresses that are not canonical fault.\<close>

definition cpu_store :: "nat \<Rightarrow> nat \<Rightarrow> byte \<Rightarrow> vm \<Rightarrow> vm option" where
  "cpu_store r va b s = (let a = u64 va in if 2 ^ 47 \<le> a \<and> a < 2 ^ 64 - 2 ^ 47 then None else store r a b s)"

partial_function (option) map_pages :: "nat \<Rightarrow> nat \<Rightarrow> pte \<Rightarrow> nat \<Rightarrow> vm \<Rightarrow> (bool \<times> vm) option" where
  "map_pages page seg_end fl r s =
    (if \<not> page < seg_end then Some (True, s)
     else if paging_is_mapped_into page r s then map_pages (u64 (page + 4096)) seg_end fl r s
     else let (ok, s1) = vmm_alloc_page_into page fl r s
          in if \<not> ok then Some (False, s1) else map_pages (u64 (page + 4096)) seg_end fl r s1)"

partial_function (option) protect_pages :: "nat \<Rightarrow> nat \<Rightarrow> pte \<Rightarrow> nat \<Rightarrow> vm \<Rightarrow> vm option" where
  "protect_pages page seg_end fl r s =
    (if \<not> page < seg_end then Some s
     else protect_pages (u64 (page + 4096)) seg_end fl r (snd (vmm_protect_page_into page fl r s)))"

definition seg_flags :: "elf_phdr \<Rightarrow> vm \<Rightarrow> pte" where
  "seg_flags ph s = PAGING_PRESENT OR PAGING_USER OR (if bit (p_flags ph) 1 then PAGING_WRITABLE else 0)
     OR (if bit (p_flags ph) 0 then 0 else paging_nx_flag s)"

definition fill_flags :: pte where
  "fill_flags = PAGING_PRESENT OR PAGING_WRITABLE OR PAGING_USER"

text \<open>Copying the bytes of the file and clearing the rest; the sizes are cut to 32 bits.\<close>

definition fill_segment :: "byte list \<Rightarrow> elf_phdr \<Rightarrow> nat \<Rightarrow> vm \<Rightarrow> vm access" where
  "fill_segment f ph r s =
    (case write_bytes (cpu_store r) (p_vaddr ph) (bslice (p_offset ph) (u32 (p_filesz ph)) f) s of Fault \<Rightarrow> Fault
     | Done s1 \<Rightarrow> if p_filesz ph < p_memsz ph
         then write_bytes (cpu_store r) (p_vaddr ph + p_filesz ph) (replicate (u32 (p_memsz ph - p_filesz ph)) 0) s1
         else Done s1)"

text \<open>What became of a segment: the loop does not end, the kernel faults, the load is refused, or it goes on.\<close>

datatype seg_result = Loops | Faults | Refused vm | Filled vm

definition load_segment :: "byte list \<Rightarrow> nat \<Rightarrow> elf_phdr \<Rightarrow> vm \<Rightarrow> seg_result" where
  "load_segment f r ph s =
    (if p_type ph \<noteq> 1 then Filled s
     else if 2 ^ 64 - 1 - p_vaddr ph < p_memsz ph then Refused s
     else let seg_end = p_vaddr ph + p_memsz ph
     in if length f < p_offset ph \<or> length f - p_offset ph < p_filesz ph then Refused s
     else case map_pages (p_vaddr ph div 4096 * 4096) seg_end fill_flags r s of None \<Rightarrow> Loops
       | Some (False, s1) \<Rightarrow> Refused s1
       | Some (True, s1) \<Rightarrow> (case fill_segment f ph r s1 of Fault \<Rightarrow> Faults
          | Done s2 \<Rightarrow> if seg_flags ph s \<noteq> fill_flags
              then (case protect_pages (p_vaddr ph div 4096 * 4096) seg_end (seg_flags ph s) r s2 of None \<Rightarrow> Loops | Some s3 \<Rightarrow> Filled s3)
              else Filled s2))"

text \<open>The legacy format: one page for every four megabytes the segment reaches.\<close>

partial_function (option) map_blocks :: "nat \<Rightarrow> nat \<Rightarrow> nat \<Rightarrow> vm \<Rightarrow> (bool \<times> vm) option" where
  "map_blocks block seg_end r s =
    (if \<not> block < seg_end then Some (True, s)
     else let (ok, s1) = vmm_alloc_page_into block 7 r s
          in if \<not> ok then Some (False, s1) else map_blocks (u32 (block + 0x400000)) seg_end r s1)"

definition load_segment32 :: "byte list \<Rightarrow> nat \<Rightarrow> elf_phdr \<Rightarrow> vm \<Rightarrow> seg_result" where
  "load_segment32 f r ph s =
    (if p_type ph \<noteq> 1 then Filled s
     else let seg_end = u32 (p_vaddr ph + p_memsz ph)
     in if length f < p_offset ph \<or> length f - p_offset ph < p_filesz ph then Refused s
     else case map_blocks (p_vaddr ph div 0x400000 * 0x400000) seg_end r s of None \<Rightarrow> Loops
       | Some (False, s1) \<Rightarrow> Refused s1
       | Some (True, s1) \<Rightarrow> (case fill_segment f ph r s1 of Fault \<Rightarrow> Faults | Done s2 \<Rightarrow> Filled s2))"

fun load_segments :: "(elf_phdr \<Rightarrow> vm \<Rightarrow> seg_result) \<Rightarrow> elf_phdr list \<Rightarrow> vm \<Rightarrow> seg_result" where
  "load_segments ld [] s = Filled s"
| "load_segments ld (ph # phs) s = (case ld ph s of Filled s1 \<Rightarrow> load_segments ld phs s1 | res \<Rightarrow> res)"

section \<open>Stack\<close>

text \<open>One page: taken, mapped, cleared; the frame is given back when it cannot be mapped, the pages before it stay.\<close>

definition stack_page :: "pte \<Rightarrow> nat \<Rightarrow> nat \<Rightarrow> vm \<Rightarrow> bool \<times> vm" where
  "stack_page fl r va s =
    (let (pa, s1) = vm_alloc s
     in if pa = PHYS_NULL then (False, s1)
        else let (ok, s2) = vmm_map_page_into va pa fl r s1
             in if \<not> ok then (False, vm_free pa s2) else (True, set_frame pa (\<lambda>_. 0) s2))"

fun stack_pages :: "pte \<Rightarrow> nat \<Rightarrow> nat \<Rightarrow> nat \<Rightarrow> vm \<Rightarrow> bool \<times> vm" where
  "stack_pages fl r va 0 s = (True, s)"
| "stack_pages fl r va (Suc n) s =
    (case stack_page fl r va s of (False, s1) \<Rightarrow> (False, s1) | (True, s1) \<Rightarrow> stack_pages fl r (va + 4096) n s1)"

section \<open>Loading\<close>

text \<open>The entry point, 0 on failure, with the top of the stack.\<close>

datatype elf_result = Never | Crash | Answer nat nat vm

definition elf_load64 :: "byte list \<Rightarrow> bool \<Rightarrow> nat \<Rightarrow> vm \<Rightarrow> elf_result" where
  "elf_load64 f want_stack r s =
    (if r = PHYS_NULL then Answer 0 0 s
     else case fld f 32 8 of None \<Rightarrow> Crash
     | Some e_phoff \<Rightarrow> if length f < e_phoff then Answer 0 0 s
     else case fld f 56 2 of None \<Rightarrow> Crash
     | Some e_phnum \<Rightarrow> if length f - e_phoff < e_phnum * 56 then Answer 0 0 s
     else (case load_segments (load_segment f r) (map (\<lambda>i. elf64_phdr f (e_phoff + i * 56)) [0..<e_phnum]) s of
        Loops \<Rightarrow> Never | Faults \<Rightarrow> Crash | Refused s1 \<Rightarrow> Answer 0 0 s1
      | Filled s1 \<Rightarrow>
          let e_entry = fld0 f 24 8
          in if \<not> want_stack then Answer e_entry 0 s1
             else (case stack_pages (paging_user_rw_nx s1) r (USER_STACK_TOP - USER_STACK_SIZE) (USER_STACK_SIZE div 4096) s1 of
                (False, s2) \<Rightarrow> Answer 0 0 s2 | (True, s2) \<Rightarrow> Answer e_entry USER_STACK_TOP s2)))"

text \<open>The entry point is read after the buffer was given back; \<open>stale\<close> is what is found there.\<close>

definition elf_load32 :: "(nat \<Rightarrow> nat) \<Rightarrow> byte list \<Rightarrow> nat \<Rightarrow> vm \<Rightarrow> elf_result" where
  "elf_load32 stale f r s =
    (if r = PHYS_NULL then Answer 0 0 s
     else case fld f 28 4 of None \<Rightarrow> Crash
     | Some e_phoff \<Rightarrow> if length f < e_phoff then Answer 0 0 s
     else case fld f 44 2 of None \<Rightarrow> Crash
     | Some e_phnum \<Rightarrow> if length f - e_phoff < e_phnum * 32 then Answer 0 0 s
     else (case load_segments (load_segment32 f r) (map (\<lambda>i. elf32_phdr f (e_phoff + i * 32)) [0..<e_phnum]) s of
        Loops \<Rightarrow> Never | Faults \<Rightarrow> Crash | Refused s1 \<Rightarrow> Answer 0 0 s1 | Filled s1 \<Rightarrow> Answer (stale (fld0 f 24 4)) 0 s1))"

text \<open>\<open>kn\<close> is the outcome of allocating the buffer.\<close>

definition elf_load_file :: "bool \<Rightarrow> (nat \<Rightarrow> nat) \<Rightarrow> (string \<Rightarrow> byte list) \<Rightarrow> string \<Rightarrow> bool \<Rightarrow> nat \<Rightarrow> vm \<Rightarrow> elf_result" where
  "elf_load_file kn stale files name want_stack r s =
    (let f = files (elf_path name)
     in if length f = 0 then Answer 0 0 s
        else if \<not> kn then Answer 0 0 s
        else case elf_magic [0x7F, 0x45, 0x4C, 0x46] f of None \<Rightarrow> Crash
          | Some False \<Rightarrow> Answer 0 0 s
          | Some True \<Rightarrow> (case fld f 4 1 of None \<Rightarrow> Crash
             | Some cls \<Rightarrow> if cls = 2 then elf_load64 f want_stack r s
                 else if cls = 1 then elf_load32 stale f r s
                 else Answer 0 0 s))"

end
