(* ===== verification/Elf_Props.thy ===== *)
theory Elf_Props
  imports Elf
begin

text \<open>
  What the loader does with the address space of a new program: for a well-formed file it maps exactly the pages of the segments and of
  the stack, with the file's bytes, cleared memory behind them and the protection the file asks for. Files that are not well-formed
  can make the kernel fault.
\<close>

section \<open>Single pages\<close>

lemma next_table_nx: "next_table t i s = (p, s') \<Longrightarrow> g_nx_enabled s' = g_nx_enabled s"
  by (auto simp: next_table_def alloc_page_virt_def vm_alloc_def store_pte_def set_frame_def Let_def split: if_splits prod.splits option.splits)

lemma map_walk_nx: "map_walk r va pa fl s = (b, s') \<Longrightarrow> g_nx_enabled s' = g_nx_enabled s"
  by (auto simp: map_walk_def store_pte_def dest!: next_table_nx split: if_splits prod.splits option.splits)

lemma alloc_map_nx: "alloc_map r va fl s = (b, s') \<Longrightarrow> g_nx_enabled s' = g_nx_enabled s"
  by (auto simp: alloc_map_def vm_alloc_def vm_free_def dest!: map_walk_nx split: if_splits prod.splits)

lemma alloc_page_ok:
  assumes run: "vm_run k s R" and r: "r \<in> R" and va: "va < 2 ^ 47" "\<not> kz_shm_va_excluded va" and new: "lookup s r va = None"
    and fl: "flags_ok fl" and eq: "vmm_alloc_page_into va fl r s = (b, s')"
  shows "confined k R r (page_bytes va) s s'" and "b \<Longrightarrow> \<exists>a. is_frame a \<and> (\<forall>x<2 ^ 47. x \<in> page_bytes va \<longrightarrow> lookup s' r x = Some (mk_pte a fl))"
    and "\<not> b \<Longrightarrow> av s' \<subseteq> {fst (vm_alloc s)}" and "g_nx_enabled s' = g_nx_enabled s"
proof -
  have ok: "vm_ok k s R" by (rule vm_run_ok [OF run])
  have x: "in_tree k R r va" using r va by (simp add: in_tree_def)
  have am: "alloc_map r va fl s = (b, s')" using eq alloc_into_map [OF ok r va(1)] by simp
  have run1: "vm_run k s' R" by (rule vm_run.alloc_user [OF run r va fl eq])
  have pk: "pages_kept R s s'" using alloc_map_ok [OF ok x am fl] by blast
  have cons: "av s' \<union> owned k s' R = av s \<union> owned k s R" by (rule alloc_map_conserves [OF ok x am fl new r va(2)])
  obtain a where a: "b \<longrightarrow> is_frame a"
    "\<And>q y. in_tree k R q y \<Longrightarrow> lookup s' q y = (if b \<and> q = r \<and> same_page va y then Some (mk_pte a fl) else lookup s q y)"
    using alloc_map_lookup [OF ok x am fl] by auto
  have l1: "lookup s' q y = lookup s q y" if "in_tree k R q y" "\<not> (q = r \<and> y \<in> page_bytes va)" for q y
    using a(2) [OF that(1)] other_page [OF r va(1) ok that(1)] that(2) by metis
  show "confined k R r (page_bytes va) s s'"
    unfolding confined_def using run1 cons l1 loads_kept [OF ok pk] by (auto simp: in_tree_def split: if_splits)
  show "\<exists>a. is_frame a \<and> (\<forall>x<2 ^ 47. x \<in> page_bytes va \<longrightarrow> lookup s' r x = Some (mk_pte a fl))" if b
    using a that r user_same_page [OF va(1)] by (intro exI [of _ a]) (auto simp: in_tree_def)
  show "\<not> b \<Longrightarrow> av s' \<subseteq> {fst (vm_alloc s)}" using alloc_map_fails [OF ok r va(1) _ fl] am by auto
  show "g_nx_enabled s' = g_nx_enabled s" by (rule alloc_map_nx [OF am])
qed

lemma protect_owned:
  assumes ok: "vm_ok k s R" and x: "in_tree k R r va" and fl: "flags_ok fl" and eq: "vmm_protect_page_into va fl r s = (b, s')"
  shows "owned k s' R = owned k s R"
proof -
  have pr: "vmm_protect_page_into va fl r s = (case find_pt r va s of None \<Rightarrow> (False, s)
      | Some pt \<Rightarrow> (True, store_pte pt (PT_IDX va) ((phys s pt (PT_IDX va) AND PAGE_MASK) OR fl) s))"
    using root_nonzero [OF ok x] by (simp add: vmm_protect_page_into_def pml4_or_kernel_def)
  show ?thesis
  proof (cases "find_pt r va s")
    case None
    then show ?thesis using eq pr by simp
  next
    case (Some pt)
    note P = find_ptE [OF ok x Some]
    let ?e = "(phys s pt (PT_IDX va) AND PAGE_MASK) OR fl"
    have l3: "length (path3 va) = 3" by (simp add: path3_def)
    have s': "s' = store_pte pt (PT_IDX va) ?e s" using eq pr Some by simp
    have c: "child ?e = Some (pte_frame (phys s pt (PT_IDX va)))" using protect_entry [OF fl, of "phys s pt (PT_IDX va)"] by (simp add: child_def)
    have n: "node s r (path3 va @ [PT_IDX va]) = Some (pte_frame (phys s pt (PT_IDX va)))"
      if "(r, path3 va @ [PT_IDX va]) \<in> trees k R" using leaf_node [OF ok x that] Some by (simp add: lookup_def)
    show ?thesis unfolding s' store_leaf_owned [OF ok in_tree_paths(4) [OF x] l3 P(1)] c using n ownedI by auto
  qed
qed

lemma protect_page_ok:
  assumes run: "vm_run k s R" and r: "r \<in> R" and va: "va < 2 ^ 47" and fl: "flags_ok fl"
    and eq: "vmm_protect_page_into va fl r s = (b, s')"
  shows "vm_run k s' R" and "av s' = av s" and "owned k s' R = owned k s R" and "g_nx_enabled s' = g_nx_enabled s"
    and "\<And>q x. in_tree k R q x \<Longrightarrow> lookup s' q x =
      (if q = r \<and> x \<in> page_bytes va then map_option (\<lambda>e. (e AND PAGE_MASK) OR fl) (lookup s q x) else lookup s q x)"
    and "\<And>q x. q \<in> R \<Longrightarrow> x < 2 ^ 47 \<Longrightarrow> \<not> kz_shm_va_excluded x \<Longrightarrow> load s' q x = load s q x"
proof -
  have ok: "vm_ok k s R" by (rule vm_run_ok [OF run])
  have x: "in_tree k R r va" using r va by (simp add: in_tree_def)
  note p = protect_ok [OF ok x fl eq]
  show "vm_run k s' R" by (rule vm_run.protect [OF run r va fl eq])
  show "av s' = av s" "owned k s' R = owned k s R" using p(3) protect_owned [OF ok x fl eq] .
  show "g_nx_enabled s' = g_nx_enabled s" using eq by (auto simp: vmm_protect_page_into_def store_pte_def split: option.splits)
  show lk: "lookup s' q y = (if q = r \<and> y \<in> page_bytes va then map_option (\<lambda>e. (e AND PAGE_MASK) OR fl) (lookup s q y) else lookup s q y)"
    if y: "in_tree k R q y" for q y
  proof (cases "q = r \<and> y \<in> page_bytes va")
    case True
    then have "lookup s q y = lookup s r va" using lookup_page(2) [OF ok r, of va y] va by simp
    then show ?thesis using p(5) [OF y] other_page [OF r va ok y] True by simp
  next
    case False
    then show ?thesis using p(5) [OF y] other_page [OF r va ok y] by auto
  qed
  show "load s' q y = load s q y" if y: "q \<in> R" "y < 2 ^ 47" "\<not> kz_shm_va_excluded y" for q y
  proof (cases "lookup s q y")
    case None
    then have "lookup s' q y = None" using lk [of q y] y by (cases "q = r \<and> y \<in> page_bytes va") (auto simp: in_tree_def)
    then show ?thesis using None by (simp add: load_def)
  next
    case (Some e)
    note lp = lookup_private [OF ok y Some]
    have "phys s' (pte_frame e) = phys s (pte_frame e)" using p(2) y(1) lp(2,3) by (simp add: pages_kept_def path3_def)
    moreover obtain e' where "lookup s' q y = Some e'" "pte_frame e' = pte_frame e"
      using lk [of q y] y Some protect_entry(1) [OF fl] by (cases "q = r \<and> y \<in> page_bytes va") (auto simp: in_tree_def)
    ultimately show ?thesis using Some by (simp add: load_def)
  qed
qed

section \<open>Ranges of pages\<close>

lemma page_range: "4096 dvd p \<Longrightarrow> page_bytes p = {p..<p + 4096}"
  using page_bytes_range [of p 0] by simp

text \<open>A range of whole pages that programs may use.\<close>

definition user_pages :: "nat \<Rightarrow> nat \<Rightarrow> bool" where
  "user_pages p n \<longleftrightarrow> 4096 dvd p \<and> p + n * 4096 \<le> 2 ^ 47 \<and> (\<forall>x. p \<le> x \<longrightarrow> x < p + n * 4096 \<longrightarrow> \<not> kz_shm_va_excluded x)"

lemma user_pages_Suc: "user_pages p (Suc n) \<Longrightarrow> user_pages (p + 4096) n \<and> p < 2 ^ 47 \<and> \<not> kz_shm_va_excluded p"
  by (simp add: user_pages_def)

lemma page_step64: "user_pages p (Suc n) \<Longrightarrow> u64 (p + 4096) = p + 4096"
  by (simp add: user_pages_def u64_def)

lemma map_pages_ok:
  assumes "vm_run k s R" and r: "r \<in> R" and fl: "flags_ok fl" and "user_pages p n"
    and "\<forall>i<n. p + i * 4096 < seg_end" "seg_end \<le> p + n * 4096" and "\<forall>x\<in>{p..<p + n * 4096}. lookup s r x = None"
  shows "\<exists>b s'. map_pages p seg_end fl r s = Some (b, s') \<and> confined k R r {p..<p + n * 4096} s s' \<and> g_nx_enabled s' = g_nx_enabled s
    \<and> (if b then \<forall>x\<in>{p..<p + n * 4096}. \<exists>a. is_frame a \<and> lookup s' r x = Some (mk_pte a fl) else card (av s') \<le> 1)"
  using assms(1,4-7)
proof (induction n arbitrary: p s)
  case 0
  have "map_pages p seg_end fl r s = Some (True, s)" using 0(4) by (subst map_pages.simps) simp
  then show ?case using confined_refl [OF 0(1)] by auto
next
  case (Suc n)
  note u = user_pages_Suc [OF Suc.prems(2)]
  have al: "4096 dvd p" using Suc.prems(2) by (simp add: user_pages_def)
  have x: "in_tree k R r p" using r u by (simp add: in_tree_def)
  have new: "lookup s r p = None" using Suc.prems(5) by simp
  have lt: "p < seg_end" using Suc.prems(3) by (auto dest: spec [of _ 0])
  obtain b s1 where eq: "vmm_alloc_page_into p fl r s = (b, s1)" by (cases "vmm_alloc_page_into p fl r s")
  have nm: "\<not> paging_is_mapped_into p r s" using is_mapped_lookup [OF vm_run_ok [OF Suc.prems(1)] r] u new by simp
  have mp: "map_pages p seg_end fl r s = (if \<not> b then Some (False, s1) else map_pages (p + 4096) seg_end fl r s1)"
    using lt nm eq page_step64 [OF Suc.prems(2)] by (subst map_pages.simps) simp
  note ap = alloc_page_ok [OF Suc.prems(1) r _ _ new fl eq]
  have sub: "page_bytes p \<subseteq> {p..<p + Suc n * 4096}" "{p + 4096..<p + 4096 + n * 4096} \<subseteq> {p..<p + Suc n * 4096}"
    unfolding page_range [OF al] by auto
  have c1: "confined k R r (page_bytes p) s s1" using ap(1) u by blast
  show ?case
  proof (cases b)
    case False
    have "card (av s1) \<le> 1" using ap(3) u False card_mono [of "{fst (vm_alloc s)}" "av s1"] by simp
    then show ?thesis using False mp confined_mono [OF c1 sub(1)] ap(4) u by auto
  next
    case True
    have st: "\<forall>i<n. p + 4096 + i * 4096 < seg_end" using Suc.prems(3) [rule_format, of "Suc _"] by (simp add: add.assoc)
    have "lookup s1 r x = None" if "x \<in> {p + 4096..<p + 4096 + n * 4096}" for x
      using confinedD(2) [OF c1, of r x] Suc.prems(5) sub that r Suc.prems(2) unfolding page_range [OF al]
      by (auto simp: in_tree_def user_pages_def)
    then obtain b' s' where ih: "map_pages (p + 4096) seg_end fl r s1 = Some (b', s')"
        "confined k R r {p + 4096..<p + 4096 + n * 4096} s1 s'" "g_nx_enabled s' = g_nx_enabled s1"
        "if b' then \<forall>x\<in>{p + 4096..<p + 4096 + n * 4096}. \<exists>a. is_frame a \<and> lookup s' r x = Some (mk_pte a fl) else card (av s') \<le> 1"
      using Suc.IH [OF confinedD(1) [OF c1], of "p + 4096"] u st Suc.prems(4) by auto
    have c: "confined k R r {p..<p + Suc n * 4096} s s'"
      by (rule confined_trans [OF confined_mono [OF c1 sub(1)] confined_mono [OF ih(2) sub(2)]])
    obtain a where a: "is_frame a" "\<And>x. x < 2 ^ 47 \<Longrightarrow> x \<in> page_bytes p \<Longrightarrow> lookup s1 r x = Some (mk_pte a fl)" using ap(2) u True by blast
    have "\<exists>a. is_frame a \<and> lookup s' r x = Some (mk_pte a fl)" if b' "x \<in> {p..<p + Suc n * 4096}" for x
    proof (cases "x < p + 4096")
      case True
      have v: "x < 2 ^ 47" using that(2) Suc.prems(2) by (simp add: user_pages_def)
      have "x \<in> page_bytes p" unfolding page_range [OF al] using True that(2) by simp
      then have "lookup s1 r x = Some (mk_pte a fl)" using a(2) v by blast
      moreover have "lookup s' r x = lookup s1 r x" using confinedD(2) [OF ih(2), of r x] True r v by (simp add: in_tree_def)
      ultimately show ?thesis using a(1) by auto
    next
      case False
      then show ?thesis using ih(4) that by simp
    qed
    then show ?thesis using mp True ih(1,3,4) c ap(4) u by auto
  qed
qed

lemma protect_pages_ok:
  assumes "vm_run k s R" and r: "r \<in> R" and fl: "flags_ok fl" and "user_pages p n"
    and "\<forall>i<n. p + i * 4096 < seg_end" "seg_end \<le> p + n * 4096"
  shows "\<exists>s'. protect_pages p seg_end fl r s = Some s' \<and> vm_run k s' R \<and> av s' = av s \<and> owned k s' R = owned k s R
    \<and> g_nx_enabled s' = g_nx_enabled s
    \<and> (\<forall>q x. in_tree k R q x \<longrightarrow> lookup s' q x =
        (if q = r \<and> x \<in> {p..<p + n * 4096} then map_option (\<lambda>e. (e AND PAGE_MASK) OR fl) (lookup s q x) else lookup s q x))
    \<and> (\<forall>q x. q \<in> R \<longrightarrow> x < 2 ^ 47 \<longrightarrow> \<not> kz_shm_va_excluded x \<longrightarrow> load s' q x = load s q x)"
  using assms(1,4-6)
proof (induction n arbitrary: p s)
  case 0
  have "protect_pages p seg_end fl r s = Some s" using 0(4) by (subst protect_pages.simps) simp
  then show ?case using 0(1) by auto
next
  case (Suc n)
  note u = user_pages_Suc [OF Suc.prems(2)]
  have al: "4096 dvd p" using Suc.prems(2) by (simp add: user_pages_def)
  have lt: "p < seg_end" using Suc.prems(3) by (auto dest: spec [of _ 0])
  obtain b s1 where eq: "vmm_protect_page_into p fl r s = (b, s1)" by (cases "vmm_protect_page_into p fl r s")
  have pp: "protect_pages p seg_end fl r s = protect_pages (p + 4096) seg_end fl r s1"
    using lt eq page_step64 [OF Suc.prems(2)] by (subst protect_pages.simps) simp
  have v: "p < 2 ^ 47" using u by blast
  note po = protect_page_ok [OF Suc.prems(1) r v fl eq, unfolded page_range [OF al]]
  have st: "\<forall>i<n. p + 4096 + i * 4096 < seg_end" using Suc.prems(3) [rule_format, of "Suc _"] by (simp add: add.assoc)
  obtain s' where ih: "protect_pages (p + 4096) seg_end fl r s1 = Some s'" "vm_run k s' R" "av s' = av s1" "owned k s' R = owned k s1 R"
      "g_nx_enabled s' = g_nx_enabled s1"
      "\<And>q x. in_tree k R q x \<Longrightarrow> lookup s' q x =
        (if q = r \<and> x \<in> {p + 4096..<p + 4096 + n * 4096} then map_option (\<lambda>e. (e AND PAGE_MASK) OR fl) (lookup s1 q x) else lookup s1 q x)"
      "\<And>q x. q \<in> R \<Longrightarrow> x < 2 ^ 47 \<Longrightarrow> \<not> kz_shm_va_excluded x \<Longrightarrow> load s' q x = load s1 q x"
    using Suc.IH [OF po(1), of "p + 4096"] u st Suc.prems(4) by auto
  have "lookup s' q x = (if q = r \<and> x \<in> {p..<p + Suc n * 4096} then map_option (\<lambda>e. (e AND PAGE_MASK) OR fl) (lookup s q x) else lookup s q x)"
    if x: "in_tree k R q x" for q x
    using ih(6) [OF x] po(5) [OF x] by (cases "x < p + 4096") auto
  then show ?case using pp ih(1-5,7) po(2-4,6) by auto
qed

section \<open>One segment\<close>

lemma fill_flags_bit: "bit fill_flags n \<longleftrightarrow> n = 0 \<or> n = 1 \<or> n = 2"
  unfolding fill_flags_def bit_or_iff PAGING_PRESENT_def PAGING_USER_def PAGING_WRITABLE_def bit_low_flags by blast

lemma if_flag_bit: "bit (if c then a else (0 :: pte)) n \<longleftrightarrow> c \<and> bit a n" "bit (if c then (0 :: pte) else a) n \<longleftrightarrow> \<not> c \<and> bit a n"
  by simp_all

lemma nx_flag_bit: "bit (paging_nx_flag s) n \<longleftrightarrow> g_nx_enabled s \<and> n = 63"
  unfolding paging_nx_flag_def if_flag_bit by (simp only: pte_bits)

lemma seg_flags_bit: "bit (seg_flags ph s) n \<longleftrightarrow> n = 0 \<or> n = 2 \<or> n = 1 \<and> bit (p_flags ph) 1 \<or> n = 63 \<and> \<not> bit (p_flags ph) 0 \<and> g_nx_enabled s"
  unfolding seg_flags_def bit_or_iff if_flag_bit PAGING_PRESENT_def PAGING_USER_def PAGING_WRITABLE_def bit_low_flags nx_flag_bit by blast

lemma stack_flags_bit: "bit (paging_user_rw_nx s) n \<longleftrightarrow> n = 0 \<or> n = 1 \<or> n = 2 \<or> n = 63 \<and> g_nx_enabled s"
  unfolding paging_user_rw_nx_def bit_or_iff PAGING_PRESENT_def PAGING_USER_def PAGING_WRITABLE_def bit_low_flags nx_flag_bit by blast

lemma loader_flags_ok: "flags_ok fill_flags" "flags_ok (seg_flags ph s)" "flags_ok (paging_user_rw_nx s)"
  by (rule flags_okI; auto simp: fill_flags_bit seg_flags_bit stack_flags_bit)+

lemma mk_pte_bit:
  assumes "is_frame a" and "n < 12 \<or> 52 \<le> n"
  shows "bit (mk_pte a fl) n \<longleftrightarrow> bit fl n"
  using is_frame_bit [OF assms(1), of n] assms(2) by (auto simp: mk_pte_def bit_or_iff bit_and_iff)

text \<open>The whole pages a segment touches.\<close>

definition seg_page :: "elf_phdr \<Rightarrow> nat" where
  "seg_page ph = p_vaddr ph div 4096 * 4096"

definition seg_count :: "elf_phdr \<Rightarrow> nat" where
  "seg_count ph = (p_vaddr ph + p_memsz ph - seg_page ph + 4095) div 4096"

definition seg_span :: "elf_phdr \<Rightarrow> nat set" where
  "seg_span ph = {seg_page ph..<seg_page ph + seg_count ph * 4096}"

lemma seg_count_bounds:
  shows "\<forall>i < seg_count ph. seg_page ph + i * 4096 < p_vaddr ph + p_memsz ph" and "p_vaddr ph + p_memsz ph \<le> seg_page ph + seg_count ph * 4096"
    and "seg_page ph \<le> p_vaddr ph"
proof -
  show le: "seg_page ph \<le> p_vaddr ph" unfolding seg_page_def by (rule div_times_less_eq_dividend)
  define e where "e = p_vaddr ph + p_memsz ph - seg_page ph"
  have n: "seg_count ph = (e + 4095) div 4096" by (simp add: seg_count_def e_def)
  have i: "i < seg_count ph \<longleftrightarrow> i * 4096 < e" for i
    unfolding n Suc_le_eq [symmetric] less_eq_div_iff_mult_less_eq [of 4096, simplified] by auto
  show "\<forall>i < seg_count ph. seg_page ph + i * 4096 < p_vaddr ph + p_memsz ph"
  proof (intro allI impI)
    fix j assume "j < seg_count ph"
    then show "seg_page ph + j * 4096 < p_vaddr ph + p_memsz ph" using i le by (simp add: e_def)
  qed
  have "\<not> seg_count ph * 4096 < e" using i [of "seg_count ph"] by simp
  then show "p_vaddr ph + p_memsz ph \<le> seg_page ph + seg_count ph * 4096" using le by (simp add: e_def)
qed

lemma seg_bytes_span: "i < p_memsz ph \<Longrightarrow> p_vaddr ph + i \<in> seg_span ph"
  using seg_count_bounds(2,3) [of ph] by (simp add: seg_span_def)

text \<open>A segment the format and the layout of user space allow.\<close>

definition seg_ok :: "byte list \<Rightarrow> elf_phdr \<Rightarrow> bool" where
  "seg_ok f ph \<longleftrightarrow> user_pages (seg_page ph) (seg_count ph) \<and> p_filesz ph \<le> p_memsz ph \<and> p_memsz ph < 2 ^ 32
    \<and> p_offset ph + p_filesz ph \<le> length f"

text \<open>What the program then sees.\<close>

definition seg_loaded :: "byte list \<Rightarrow> elf_phdr \<Rightarrow> bool \<Rightarrow> nat \<Rightarrow> vm \<Rightarrow> bool" where
  "seg_loaded f ph nx r s \<longleftrightarrow>
    (\<forall>i<p_memsz ph. load s r (p_vaddr ph + i) = Some (if i < p_filesz ph then f ! (p_offset ph + i) else 0))
    \<and> (\<forall>x\<in>seg_span ph. \<exists>e. lookup s r x = Some e \<and> (bit e 1 \<longleftrightarrow> bit (p_flags ph) 1) \<and> (bit e 63 \<longleftrightarrow> \<not> bit (p_flags ph) 0 \<and> nx))"

lemma cpu_store_user: "a + length bs \<le> 2 ^ 47 \<Longrightarrow> write_bytes (cpu_store r) a bs s = write_bytes (store r) a bs s"
proof (induction bs arbitrary: a s)
  case (Cons b bs)
  have "u64 a = a" "a < 2 ^ 47" using Cons.prems by (simp_all add: u64_def)
  then have "cpu_store r a b s = store r a b s" by (simp add: cpu_store_def)
  then show ?case using Cons by (simp split: option.splits)
qed simp

lemma poke_nx: "write_bytes (store r) a bs s = Done s' \<Longrightarrow> g_nx_enabled s' = g_nx_enabled s"
proof (induction bs arbitrary: a s)
  case (Cons b bs)
  then obtain s1 where "store r a b s = Some s1" "write_bytes (store r) (Suc a) bs s1 = Done s'" by (auto split: option.splits)
  moreover have "g_nx_enabled s1 = g_nx_enabled s"
    using calculation(1) by (auto simp: store_def poke_def set_frame_def split: option.splits if_splits)
  ultimately show ?case using Cons.IH by simp
qed simp

lemma seg_user: "seg_ok f ph \<Longrightarrow> x \<in> seg_span ph \<Longrightarrow> x < 2 ^ 47 \<and> \<not> kz_shm_va_excluded x"
  by (auto simp: seg_ok_def user_pages_def seg_span_def)

lemma write_segment:
  assumes run: "vm_run k s R" and r: "r \<in> R" and w: "\<And>i. i < length bs \<Longrightarrow> a + i \<in> P \<and> writable_byte s r (a + i)"
    and a: "a + length bs \<le> 2 ^ 47"
  obtains s' where "write_bytes (cpu_store r) a bs s = Done s'" and "confined k R r P s s'" and "g_nx_enabled s' = g_nx_enabled s"
    and "\<And>q x. in_tree k R q x \<Longrightarrow> lookup s' q x = lookup s q x"
    and "\<And>x. x < 2 ^ 47 \<Longrightarrow> \<not> kz_shm_va_excluded x \<Longrightarrow>
      load s' r x = (if a \<le> x \<and> x < a + length bs then Some (bs ! (x - a)) else load s r x)"
proof -
  obtain s' where s': "write_bytes (store r) a bs s = Done s'" "vm_run k s' R" "av s' = av s" "owned k s' R = owned k s R"
    "\<And>q x. in_tree k R q x \<Longrightarrow> lookup s' q x = lookup s q x"
    "\<And>q x. q \<in> R \<Longrightarrow> x < 2 ^ 47 \<Longrightarrow> \<not> kz_shm_va_excluded x \<Longrightarrow>
      load s' q x = (if q = r \<and> a \<le> x \<and> x < a + length bs then Some (bs ! (x - a)) else load s q x)"
    using write_bytes_Done [OF run r, of bs a] w by metis
  have "x \<in> P" if "a \<le> x" "x < a + length bs" for x using w [of "x - a"] that by simp
  then have "confined k R r P s s'" unfolding confined_def using s' by auto
  then show thesis using that [of s'] s' cpu_store_user [OF a] poke_nx [OF s'(1)] r by simp
qed

lemma fill_segment_ok:
  assumes run: "vm_run k s R" and r: "r \<in> R" and ok: "seg_ok f ph" and w: "\<forall>x\<in>seg_span ph. writable_byte s r x"
  obtains s' where "fill_segment f ph r s = Done s'" and "confined k R r (seg_span ph) s s'" and "g_nx_enabled s' = g_nx_enabled s"
    and "\<And>q x. in_tree k R q x \<Longrightarrow> lookup s' q x = lookup s q x"
    and "\<And>i. i < p_memsz ph \<Longrightarrow> load s' r (p_vaddr ph + i) = Some (if i < p_filesz ph then f ! (p_offset ph + i) else 0)"
proof -
  let ?v = "p_vaddr ph" and ?fs = "p_filesz ph" and ?ms = "p_memsz ph"
  let ?bs = "bslice (p_offset ph) ?fs f"
  have sz: "?fs \<le> ?ms" "u32 ?fs = ?fs" "u32 (?ms - ?fs) = ?ms - ?fs" "length ?bs = ?fs"
    using ok by (auto simp: seg_ok_def u32_def)
  have top: "?v + ?ms \<le> 2 ^ 47" using seg_count_bounds(2) [of ph] ok by (simp add: seg_ok_def user_pages_def)
  have in_span: "?v + i \<in> seg_span ph \<and> writable_byte s r (?v + i)" if "i < ?ms" for i using seg_bytes_span [OF that] w by blast
  have w0: "?v + i \<in> seg_span ph \<and> writable_byte s r (?v + i)" if "i < length ?bs" for i using in_span [of i] that sz by simp
  have "?v + length ?bs \<le> 2 ^ 47" using top sz by simp
  from write_segment [OF run r w0 this] obtain s1 where s1: "write_bytes (cpu_store r) ?v ?bs s = Done s1" "confined k R r (seg_span ph) s s1" "g_nx_enabled s1 = g_nx_enabled s"
    "\<And>q x. in_tree k R q x \<Longrightarrow> lookup s1 q x = lookup s q x"
    "\<And>x. x < 2 ^ 47 \<Longrightarrow> \<not> kz_shm_va_excluded x \<Longrightarrow> load s1 r x = (if ?v \<le> x \<and> x < ?v + length ?bs then Some (?bs ! (x - ?v)) else load s r x)"
    by blast
  let ?z = "replicate (?ms - ?fs) (0 :: byte)"
  have w1: "?v + ?fs + i \<in> seg_span ph \<and> writable_byte s1 r (?v + ?fs + i)" if "i < length ?z" for i
  proof -
    have m: "?v + ?fs + i \<in> seg_span ph \<and> writable_byte s r (?v + ?fs + i)" using in_span [of "?fs + i"] that by (simp add: add.assoc)
    then show ?thesis using s1(4) [of r "?v + ?fs + i"] seg_user [OF ok] r by (auto simp: writable_byte_def in_tree_def)
  qed
  have "?v + ?fs + length ?z \<le> 2 ^ 47" using top sz by simp
  from write_segment [OF confinedD(1) [OF s1(2)] r w1 this] obtain s2 where s2: "write_bytes (cpu_store r) (?v + ?fs) ?z s1 = Done s2" "confined k R r (seg_span ph) s1 s2" "g_nx_enabled s2 = g_nx_enabled s1"
    "\<And>q x. in_tree k R q x \<Longrightarrow> lookup s2 q x = lookup s1 q x"
    "\<And>x. x < 2 ^ 47 \<Longrightarrow> \<not> kz_shm_va_excluded x \<Longrightarrow>
      load s2 r x = (if ?v + ?fs \<le> x \<and> x < ?v + ?fs + length ?z then Some (?z ! (x - (?v + ?fs))) else load s1 r x)"
    by blast
  have e: "fill_segment f ph r s = Done s2"
    using s1(1) s2(1) sz by (cases "?fs < ?ms") (simp_all add: fill_segment_def)
  have ld: "load s2 r (?v + i) = Some (if i < ?fs then f ! (p_offset ph + i) else 0)" if i: "i < ?ms" for i
  proof -
    have u: "?v + i < 2 ^ 47" "\<not> kz_shm_va_excluded (?v + i)" using seg_user [OF ok seg_bytes_span [OF i]] by auto
    have "?bs ! i = f ! (p_offset ph + i)" if "i < ?fs" using that ok by (simp add: bslice_def seg_ok_def)
    then show ?thesis using s2(5) [OF u] s1(5) [OF u] i sz(4) by (cases "i < ?fs") simp_all
  qed
  show thesis using that [OF e confined_trans [OF s1(2) s2(2)]] s1(3,4) s2(3,4) ld by simp
qed

lemma final_entry:
  assumes "is_frame a" and "n < 12 \<or> n = 63"
  shows "bit ((mk_pte a fill_flags AND PAGE_MASK) OR seg_flags ph s) n \<longleftrightarrow> bit (seg_flags ph s) n"
proof -
  have "\<not> bit (mk_pte a fill_flags) 63" using mk_pte_bit [OF assms(1), of 63] by (simp add: fill_flags_bit)
  moreover have "\<not> bit PAGE_MASK n \<or> n = 63" using assms(2) by (auto simp: PAGE_MASK_bit)
  ultimately show ?thesis by (auto simp: bit_or_iff bit_and_iff)
qed

text \<open>The protection of a segment, from pages that were mapped for filling.\<close>

lemma protect_segment_ok:
  assumes run: "vm_run k s R" and r: "r \<in> R" and ok: "seg_ok f ph" and nx: "g_nx_enabled s = g_nx_enabled s0"
    and m: "\<forall>x\<in>seg_span ph. \<exists>a. is_frame a \<and> lookup s r x = Some (mk_pte a fill_flags)"
  obtains s' where "(if seg_flags ph s0 \<noteq> fill_flags then protect_pages (seg_page ph) (p_vaddr ph + p_memsz ph) (seg_flags ph s0) r s else Some s) = Some s'"
    and "confined k R r (seg_span ph) s s'" and "g_nx_enabled s' = g_nx_enabled s"
    and "\<And>x. x < 2 ^ 47 \<Longrightarrow> \<not> kz_shm_va_excluded x \<Longrightarrow> load s' r x = load s r x"
    and "\<And>x. x \<in> seg_span ph \<Longrightarrow> \<exists>e. lookup s' r x = Some e \<and> (\<forall>n\<in>{1, 63}. bit e n \<longleftrightarrow> bit (seg_flags ph s0) n)"
proof (cases "seg_flags ph s0 = fill_flags")
  case True
  have "bit (mk_pte a fill_flags) n = bit fill_flags n" if "is_frame a" "n \<in> {1, 63}" for a n using mk_pte_bit [OF that(1), of n] that(2) by auto
  then show thesis using that [of s] True confined_refl [OF run] m by fastforce
next
  case False
  have up: "user_pages (seg_page ph) (seg_count ph)" using ok by (simp add: seg_ok_def)
  obtain s' where s': "protect_pages (seg_page ph) (p_vaddr ph + p_memsz ph) (seg_flags ph s0) r s = Some s'" "vm_run k s' R" "av s' = av s"
      "owned k s' R = owned k s R" "g_nx_enabled s' = g_nx_enabled s"
      "\<forall>q x. in_tree k R q x \<longrightarrow> lookup s' q x =
        (if q = r \<and> x \<in> seg_span ph then map_option (\<lambda>e. (e AND PAGE_MASK) OR seg_flags ph s0) (lookup s q x) else lookup s q x)"
      "\<forall>q x. q \<in> R \<longrightarrow> x < 2 ^ 47 \<longrightarrow> \<not> kz_shm_va_excluded x \<longrightarrow> load s' q x = load s q x"
    using protect_pages_ok [OF run r loader_flags_ok(2) up seg_count_bounds(1,2)] unfolding seg_span_def by blast
  have c: "confined k R r (seg_span ph) s s'" unfolding confined_def using s'(2-4,6,7) by auto
  have e: "\<exists>e. lookup s' r x = Some e \<and> (\<forall>n\<in>{1, 63}. bit e n \<longleftrightarrow> bit (seg_flags ph s0) n)" if x: "x \<in> seg_span ph" for x
  proof -
    obtain a where a: "is_frame a" "lookup s r x = Some (mk_pte a fill_flags)" using m x by blast
    have "in_tree k R r x" using seg_user [OF ok x] r by (simp add: in_tree_def)
    then have "lookup s' r x = Some ((mk_pte a fill_flags AND PAGE_MASK) OR seg_flags ph s0)" using s'(6) x a(2) by simp
    then show ?thesis using final_entry [OF a(1)] by auto
  qed
  show thesis using that [of s'] s'(1,5,7) False c e r by simp
qed

lemma load_segment_ok:
  assumes run: "vm_run k s R" and r: "r \<in> R" and ok: "seg_ok f ph" and ty: "p_type ph = 1" and new: "\<forall>x\<in>seg_span ph. lookup s r x = None"
  shows "\<exists>s'. confined k R r (seg_span ph) s s' \<and> g_nx_enabled s' = g_nx_enabled s
    \<and> (load_segment f r ph s = Filled s' \<and> seg_loaded f ph (g_nx_enabled s) r s' \<or> load_segment f r ph s = Refused s' \<and> card (av s') \<le> 1)"
proof -
  have up: "user_pages (seg_page ph) (seg_count ph)" using ok by (simp add: seg_ok_def)
  obtain b s1 where m: "map_pages (seg_page ph) (p_vaddr ph + p_memsz ph) fill_flags r s = Some (b, s1)" "confined k R r (seg_span ph) s s1"
      "g_nx_enabled s1 = g_nx_enabled s"
      "if b then \<forall>x\<in>seg_span ph. \<exists>a. is_frame a \<and> lookup s1 r x = Some (mk_pte a fill_flags) else card (av s1) \<le> 1"
    using map_pages_ok [OF run r loader_flags_ok(1) up seg_count_bounds(1,2)] new unfolding seg_span_def by blast
  have "p_vaddr ph + p_memsz ph \<le> 2 ^ 47" using seg_count_bounds(2) [of ph] ok by (simp add: seg_ok_def user_pages_def)
  then have guard: "\<not> 2 ^ 64 - 1 - p_vaddr ph < p_memsz ph" "\<not> (length f < p_offset ph \<or> length f - p_offset ph < p_filesz ph)"
    using ok by (auto simp: seg_ok_def)
  note unf = load_segment_def [of f r ph s, unfolded Let_def seg_page_def [symmetric]]
  show ?thesis
  proof (cases b)
    case False
    then have "load_segment f r ph s = Refused s1" using unf ty guard m(1) by simp
    then show ?thesis using m(2-4) False by auto
  next
    case True
    note c1 = confinedD(1) [OF m(2)]
    have mp: "\<forall>x\<in>seg_span ph. \<exists>a. is_frame a \<and> lookup s1 r x = Some (mk_pte a fill_flags)" using m(4) True by simp
    have "writable_byte s1 r x" if x: "x \<in> seg_span ph" for x
    proof -
      obtain a where "is_frame a" "lookup s1 r x = Some (mk_pte a fill_flags)" using mp x by blast
      then show ?thesis using mk_pte_bit [of a 1] seg_user [OF ok x] by (simp add: writable_byte_def fill_flags_bit)
    qed
    then obtain s2 where s2: "fill_segment f ph r s1 = Done s2" "confined k R r (seg_span ph) s1 s2" "g_nx_enabled s2 = g_nx_enabled s1"
      "\<And>q x. in_tree k R q x \<Longrightarrow> lookup s2 q x = lookup s1 q x"
      "\<And>i. i < p_memsz ph \<Longrightarrow> load s2 r (p_vaddr ph + i) = Some (if i < p_filesz ph then f ! (p_offset ph + i) else 0)"
      using fill_segment_ok [OF c1 r ok] by blast
    have mp2: "\<forall>x\<in>seg_span ph. \<exists>a. is_frame a \<and> lookup s2 r x = Some (mk_pte a fill_flags)"
      using mp s2(4) seg_user [OF ok] r by (simp add: in_tree_def)
    have nx2: "g_nx_enabled s2 = g_nx_enabled s" using s2(3) m(3) by simp
    from protect_segment_ok [OF confinedD(1) [OF s2(2)] r ok nx2 mp2] obtain s3 where
      s3: "(if seg_flags ph s \<noteq> fill_flags then protect_pages (seg_page ph) (p_vaddr ph + p_memsz ph) (seg_flags ph s) r s2 else Some s2) = Some s3"
      "confined k R r (seg_span ph) s2 s3" "g_nx_enabled s3 = g_nx_enabled s2"
      "\<And>x. x < 2 ^ 47 \<Longrightarrow> \<not> kz_shm_va_excluded x \<Longrightarrow> load s3 r x = load s2 r x"
      "\<And>x. x \<in> seg_span ph \<Longrightarrow> \<exists>e. lookup s3 r x = Some e \<and> (\<forall>n\<in>{1, 63}. bit e n \<longleftrightarrow> bit (seg_flags ph s) n)" by blast
    have res: "load_segment f r ph s = Filled s3"
      using unf ty guard m(1) True s2(1) s3(1) by (cases "seg_flags ph s = fill_flags") simp_all
    have "seg_loaded f ph (g_nx_enabled s) r s3" unfolding seg_loaded_def
    proof (intro conjI allI impI ballI)
      show "load s3 r (p_vaddr ph + i) = Some (if i < p_filesz ph then f ! (p_offset ph + i) else 0)" if "i < p_memsz ph" for i
        using s2(5) [OF that] s3(4) [of "p_vaddr ph + i"] seg_user [OF ok seg_bytes_span [OF that]] by simp
      show "\<exists>e. lookup s3 r x = Some e \<and> (bit e 1 \<longleftrightarrow> bit (p_flags ph) 1) \<and> (bit e 63 \<longleftrightarrow> \<not> bit (p_flags ph) 0 \<and> g_nx_enabled s)"
        if "x \<in> seg_span ph" for x using s3(5) [OF that] by (auto simp: seg_flags_bit)
    qed
    then show ?thesis using res confined_trans [OF confined_trans [OF m(2) s2(2)] s3(2)] s3(3) nx2 by auto
  qed
qed

section \<open>All segments\<close>

lemma seg_loaded_kept:
  assumes c: "confined k R r P s s'" and r: "r \<in> R" and ok: "seg_ok f ph" and d: "seg_span ph \<inter> P = {}" and l: "seg_loaded f ph nx r s"
  shows "seg_loaded f ph nx r s'"
proof -
  have lk: "lookup s' r x = lookup s r x" if "x \<in> seg_span ph" for x
    using confinedD(2) [OF c, of r x] seg_user [OF ok that] r d that by (auto simp: in_tree_def)
  have ld: "load s' r x = load s r x" if "x \<in> seg_span ph" for x
    using confinedD(3) [OF c r, of x] seg_user [OF ok that] d that by auto
  show ?thesis using l lk ld seg_bytes_span unfolding seg_loaded_def by simp
qed

abbreviation loads :: "elf_phdr list \<Rightarrow> elf_phdr list" where
  "loads phs \<equiv> filter (\<lambda>ph. p_type ph = 1) phs"

definition load_image :: "elf_phdr list \<Rightarrow> nat set" where
  "load_image phs = (\<Union>ph\<in>set (loads phs). seg_span ph)"

text \<open>Segments that keep to their own pages.\<close>

definition segs_ok :: "byte list \<Rightarrow> elf_phdr list \<Rightarrow> bool" where
  "segs_ok f phs \<longleftrightarrow> (\<forall>ph\<in>set (loads phs). seg_ok f ph) \<and> sorted_wrt (\<lambda>a b. seg_span a \<inter> seg_span b = {}) (loads phs)"

lemma load_segments_ok:
  assumes "vm_run k s R" and r: "r \<in> R" and "segs_ok f phs" and "\<forall>x\<in>load_image phs. lookup s r x = None"
  shows "\<exists>s'. confined k R r (load_image phs) s s' \<and> g_nx_enabled s' = g_nx_enabled s
    \<and> (load_segments (load_segment f r) phs s = Filled s' \<and> (\<forall>ph\<in>set (loads phs). seg_loaded f ph (g_nx_enabled s) r s')
      \<or> load_segments (load_segment f r) phs s = Refused s' \<and> card (av s') \<le> 1)"
  using assms(1,3,4)
proof (induction phs arbitrary: s)
  case Nil
  then show ?case using confined_refl by auto
next
  case (Cons ph phs)
  show ?case
  proof (cases "p_type ph = 1")
    case False
    then have "load_segment f r ph s = Filled s" "load_image (ph # phs) = load_image phs" "segs_ok f phs"
      using Cons.prems(2) by (simp_all add: load_segment_def load_image_def segs_ok_def)
    then show ?thesis using Cons.IH [OF Cons.prems(1)] Cons.prems(3) False by simp
  next
    case True
    have im: "load_image (ph # phs) = seg_span ph \<union> load_image phs" using True by (simp add: load_image_def)
    have ok: "seg_ok f ph" "segs_ok f phs" and dj: "seg_span ph \<inter> load_image phs = {}"
      using Cons.prems(2) True by (auto simp: segs_ok_def load_image_def)
    have "\<forall>x\<in>seg_span ph. lookup s r x = None" using Cons.prems(3) im by simp
    from load_segment_ok [OF Cons.prems(1) r ok(1) True this] obtain s1 where c1: "confined k R r (seg_span ph) s s1"
      and nx: "g_nx_enabled s1 = g_nx_enabled s"
      and res: "load_segment f r ph s = Filled s1 \<and> seg_loaded f ph (g_nx_enabled s) r s1 \<or> load_segment f r ph s = Refused s1 \<and> card (av s1) \<le> 1"
      by blast
    have c1': "confined k R r (load_image (ph # phs)) s s1" using confined_mono [OF c1] im by simp
    from res show ?thesis
    proof
      assume "load_segment f r ph s = Refused s1 \<and> card (av s1) \<le> 1"
      then show ?thesis using c1' nx by (intro exI [of _ s1]) simp
    next
      assume l: "load_segment f r ph s = Filled s1 \<and> seg_loaded f ph (g_nx_enabled s) r s1"
      have "lookup s1 r x = None" if "x \<in> load_image phs" for x
      proof -
        have "x < 2 ^ 47" using that ok(2) seg_user by (fastforce simp: load_image_def segs_ok_def)
        then show ?thesis using confinedD(2) [OF c1, of r x] dj that r Cons.prems(3) im by (auto simp: in_tree_def)
      qed
      then obtain s' where s': "confined k R r (load_image phs) s1 s'" "g_nx_enabled s' = g_nx_enabled s1"
          "load_segments (load_segment f r) phs s1 = Filled s' \<and> (\<forall>ph\<in>set (loads phs). seg_loaded f ph (g_nx_enabled s1) r s')
            \<or> load_segments (load_segment f r) phs s1 = Refused s' \<and> card (av s') \<le> 1"
        using Cons.IH [OF confinedD(1) [OF c1] ok(2)] by blast
      have c: "confined k R r (load_image (ph # phs)) s s'" using confined_trans [OF c1' confined_mono [OF s'(1)]] im by simp
      have "seg_loaded f ph (g_nx_enabled s) r s'" using seg_loaded_kept [OF s'(1) r ok(1) dj] l by blast
      then show ?thesis using s'(2,3) c l nx True by (intro exI [of _ s']) auto
    qed
  qed
qed

section \<open>Stack\<close>

lemma stack_page_ok:
  assumes run: "vm_run k s R" and r: "r \<in> R" and va: "va < 2 ^ 47" "\<not> kz_shm_va_excluded va" and new: "lookup s r va = None"
    and fl: "flags_ok fl" and eq: "stack_page fl r va s = (b, s')"
  shows "confined k R r (page_bytes va) s s'" and "g_nx_enabled s' = g_nx_enabled s"
    and "b \<Longrightarrow> x < 2 ^ 47 \<Longrightarrow> x \<in> page_bytes va \<Longrightarrow> load s' r x = Some 0 \<and> (\<exists>a. is_frame a \<and> lookup s' r x = Some (mk_pte a fl))"
    and "\<not> b \<Longrightarrow> card (av s') \<le> 1"
proof -
  have ok: "vm_ok k s R" by (rule vm_run_ok [OF run])
  have x: "in_tree k R r va" using r va by (simp add: in_tree_def)
  obtain c s1 where am: "alloc_map r va fl s = (c, s1)" by (cases "alloc_map r va fl s")
  have "vmm_map_page_into va a fl r s0 = map_walk r va a fl s0" for a s0 using root_nonzero [OF ok x] by (simp add: vmm_map_page_into_def)
  then have e: "c = b" "s' = (if b then set_frame (fst (vm_alloc s)) (\<lambda>_. 0) s1 else s1)"
    using am eq by (auto simp: stack_page_def alloc_map_def PHYS_NULL_def split: prod.splits if_splits)
  have ap: "vmm_alloc_page_into va fl r s = (b, s1)" using alloc_into_map [OF ok r va(1)] am e(1) by simp
  note p = alloc_page_ok [OF run r va new fl ap]
  have "confined k R r (page_bytes va) s s' \<and> g_nx_enabled s' = g_nx_enabled s
    \<and> (b \<longrightarrow> x < 2 ^ 47 \<longrightarrow> x \<in> page_bytes va \<longrightarrow> load s' r x = Some 0 \<and> (\<exists>a. is_frame a \<and> lookup s' r x = Some (mk_pte a fl)))"
  proof (cases b)
    case True
    obtain a where a: "is_frame a" "\<And>x. x < 2 ^ 47 \<Longrightarrow> x \<in> page_bytes va \<Longrightarrow> lookup s1 r x = Some (mk_pte a fl)" using p(2) True by blast
    have l: "lookup s1 r va = Some (mk_pte a fl)" using a(2) va(1) by simp
    have "fst (vm_alloc s) = pte_frame (mk_pte a fl)" using ok x am fl
    proof (cases rule: alloc_map_cases)
      case (walk a' s0 s2)
      note al = alloc_fresh [OF ok walk(2,1)]
      have "lookup s1 r va = Some (mk_pte a' fl)"
        using map_walk_ok(4) [OF al(1) x walk(5) fl walk(3) x] walk(4) True e(1) by (simp add: same_page_def)
      then show ?thesis using l walk(2) al(8) fl by simp
    qed (use True e(1) in simp)
    then have s': "s' = set_frame (pte_frame (mk_pte a fl)) (\<lambda>_. 0) s1" using e(2) True by simp
    note z = zero_page_ok [OF confinedD(1) [OF p(1)] r va l, folded s']
    have "g_nx_enabled s' = g_nx_enabled s1" by (simp add: s' set_frame_def)
    then show ?thesis using confined_trans [OF p(1) z(1)] z(3) [of r x] z(4) a p(4) r by (auto simp: in_tree_def)
  qed (use p(1,4) e(2) in simp)
  then show "confined k R r (page_bytes va) s s'" and "g_nx_enabled s' = g_nx_enabled s"
    and "b \<Longrightarrow> x < 2 ^ 47 \<Longrightarrow> x \<in> page_bytes va \<Longrightarrow> load s' r x = Some 0 \<and> (\<exists>a. is_frame a \<and> lookup s' r x = Some (mk_pte a fl))" by blast+
  show "card (av s') \<le> 1" if "\<not> b" using p(3) that e(2) card_mono [of "{fst (vm_alloc s)}" "av s1"] by simp
qed

lemma stack_pages_ok:
  assumes "vm_run k s R" and r: "r \<in> R" and fl: "flags_ok fl" and "user_pages p n" and "\<forall>x\<in>{p..<p + n * 4096}. lookup s r x = None"
  shows "\<exists>b s'. stack_pages fl r p n s = (b, s') \<and> confined k R r {p..<p + n * 4096} s s' \<and> g_nx_enabled s' = g_nx_enabled s
    \<and> (if b then \<forall>x\<in>{p..<p + n * 4096}. load s' r x = Some 0 \<and> (\<exists>a. is_frame a \<and> lookup s' r x = Some (mk_pte a fl)) else card (av s') \<le> 1)"
  using assms(1,4,5)
proof (induction n arbitrary: p s)
  case 0
  then show ?case using confined_refl by auto
next
  case (Suc n)
  note u = user_pages_Suc [OF Suc.prems(2)]
  have al: "4096 dvd p" using Suc.prems(2) by (simp add: user_pages_def)
  obtain b s1 where eq: "stack_page fl r p s = (b, s1)" by (cases "stack_page fl r p s")
  have sub: "page_bytes p \<subseteq> {p..<p + Suc n * 4096}" "{p + 4096..<p + 4096 + n * 4096} \<subseteq> {p..<p + Suc n * 4096}"
    unfolding page_range [OF al] by auto
  have "lookup s r p = None" using Suc.prems(3) by simp
  note sp = stack_page_ok [OF Suc.prems(1) r conjunct1 [OF conjunct2 [OF u]] conjunct2 [OF conjunct2 [OF u]] this fl eq]
  show ?case
  proof (cases b)
    case False
    then show ?thesis using eq sp(2,4) confined_mono [OF sp(1) sub(1)] by auto
  next
    case True
    have user: "x < 2 ^ 47 \<and> \<not> kz_shm_va_excluded x" if "x \<in> {p..<p + Suc n * 4096}" for x using that Suc.prems(2) by (auto simp: user_pages_def)
    have "lookup s1 r x = None" if "x \<in> {p + 4096..<p + 4096 + n * 4096}" for x
      using confinedD(2) [OF sp(1), of r x] Suc.prems(3) user [of x] sub that r unfolding page_range [OF al] by (auto simp: in_tree_def)
    then obtain b' s' where ih: "stack_pages fl r (p + 4096) n s1 = (b', s')"
        "confined k R r {p + 4096..<p + 4096 + n * 4096} s1 s'" "g_nx_enabled s' = g_nx_enabled s1"
        "if b' then \<forall>x\<in>{p + 4096..<p + 4096 + n * 4096}. load s' r x = Some 0 \<and> (\<exists>a. is_frame a \<and> lookup s' r x = Some (mk_pte a fl)) else card (av s') \<le> 1"
      using Suc.IH [OF confinedD(1) [OF sp(1)], of "p + 4096"] u by auto
    have c: "confined k R r {p..<p + Suc n * 4096} s s'"
      by (rule confined_trans [OF confined_mono [OF sp(1) sub(1)] confined_mono [OF ih(2) sub(2)]])
    have "load s' r x = Some 0 \<and> (\<exists>a. is_frame a \<and> lookup s' r x = Some (mk_pte a fl))" if b' "x \<in> {p..<p + Suc n * 4096}" for x
    proof (cases "x < p + 4096")
      case True
      have "x \<in> page_bytes p" unfolding page_range [OF al] using True that(2) by simp
      then have "load s1 r x = Some 0 \<and> (\<exists>a. is_frame a \<and> lookup s1 r x = Some (mk_pte a fl))" using sp(3) [of x] \<open>b\<close> user [OF that(2)] by blast
      moreover have "lookup s' r x = lookup s1 r x" using confinedD(2) [OF ih(2), of r x] True r user [OF that(2)] by (simp add: in_tree_def)
      moreover have "load s' r x = load s1 r x" using confinedD(3) [OF ih(2) r, of x] True user [OF that(2)] by simp
      ultimately show ?thesis by simp
    next
      case False
      then show ?thesis using ih(4) that by simp
    qed
    then show ?thesis using eq True ih(1,3,4) c sp(2) by auto
  qed
qed

definition stack_range :: "nat set" where
  "stack_range = {USER_STACK_TOP - USER_STACK_SIZE..<USER_STACK_TOP}"

lemma stack_user_pages: "user_pages (USER_STACK_TOP - USER_STACK_SIZE) (USER_STACK_SIZE div 4096)"
  "USER_STACK_TOP - USER_STACK_SIZE + USER_STACK_SIZE div 4096 * 4096 = USER_STACK_TOP"
  by (simp_all add: user_pages_def USER_STACK_TOP_def USER_STACK_SIZE_def kz_shm_va_excluded_def KZ_SHM_BASE_def KZ_SHM_END_def)

definition stack_loaded :: "bool \<Rightarrow> nat \<Rightarrow> vm \<Rightarrow> bool" where
  "stack_loaded nx r s \<longleftrightarrow> (\<forall>x\<in>stack_range. load s r x = Some 0 \<and> (\<exists>e. lookup s r x = Some e \<and> bit e 1 \<and> (bit e 63 \<longleftrightarrow> nx)))"

section \<open>Files\<close>

definition elf_phdrs :: "byte list \<Rightarrow> elf_phdr list" where
  "elf_phdrs f = map (\<lambda>i. elf64_phdr f (fld0 f 32 8 + i * 56)) [0..<fld0 f 56 2]"

text \<open>A 64-bit executable: the headers inside the file, the segments on pages of their own, apart from the stack.\<close>

definition elf_ok :: "byte list \<Rightarrow> bool" where
  "elf_ok f \<longleftrightarrow> elf_magic [0x7F, 0x45, 0x4C, 0x46] f = Some True \<and> fld f 4 1 = Some 2 \<and> 64 \<le> length f
    \<and> fld0 f 32 8 + fld0 f 56 2 * 56 \<le> length f \<and> segs_ok f (elf_phdrs f) \<and> load_image (elf_phdrs f) \<inter> stack_range = {}"

lemma elf_load64_ok:
  assumes run: "vm_run k s R" and r: "r \<in> R" and ok: "elf_ok f"
    and new: "\<forall>x \<in> load_image (elf_phdrs f) \<union> stack_range. lookup s r x = None"
  shows "\<exists>s'. confined k R r (load_image (elf_phdrs f) \<union> stack_range) s s'
    \<and> (elf_load64 f True r s = Answer (fld0 f 24 8) USER_STACK_TOP s' \<and> stack_loaded (g_nx_enabled s) r s'
        \<and> (\<forall>ph\<in>set (loads (elf_phdrs f)). seg_loaded f ph (g_nx_enabled s) r s')
      \<or> elf_load64 f True r s = Answer 0 0 s' \<and> card (av s') \<le> 1)"
proof -
  let ?I = "load_image (elf_phdrs f)"
  have r0: "r \<noteq> PHYS_NULL" using root_nonzero [OF vm_run_ok [OF run], of r 0] r by (simp add: in_tree_def)
  have h: "fld f 32 8 = Some (fld0 f 32 8)" "fld f 56 2 = Some (fld0 f 56 2)" "\<not> length f < fld0 f 32 8" "\<not> length f - fld0 f 32 8 < fld0 f 56 2 * 56"
    using ok by (auto simp: elf_ok_def fld_def fld0_def)
  have so: "segs_ok f (elf_phdrs f)" and dj: "?I \<inter> stack_range = {}" using ok by (simp_all add: elf_ok_def)
  note unf = elf_load64_def [of f True r s, folded elf_phdrs_def] h r0
  from load_segments_ok [OF run r so] new obtain s1 where s1: "confined k R r ?I s s1" "g_nx_enabled s1 = g_nx_enabled s"
    and res: "load_segments (load_segment f r) (elf_phdrs f) s = Filled s1 \<and> (\<forall>ph\<in>set (loads (elf_phdrs f)). seg_loaded f ph (g_nx_enabled s) r s1)
      \<or> load_segments (load_segment f r) (elf_phdrs f) s = Refused s1 \<and> card (av s1) \<le> 1" by blast
  have c1: "confined k R r (?I \<union> stack_range) s s1" using confined_mono [OF s1(1)] by simp
  from res show ?thesis
  proof
    assume "load_segments (load_segment f r) (elf_phdrs f) s = Refused s1 \<and> card (av s1) \<le> 1"
    then show ?thesis using c1 unf by (intro exI [of _ s1]) (simp add: elf_phdrs_def)
  next
    assume l: "load_segments (load_segment f r) (elf_phdrs f) s = Filled s1 \<and> (\<forall>ph\<in>set (loads (elf_phdrs f)). seg_loaded f ph (g_nx_enabled s) r s1)"
    have su: "x < 2 ^ 47" if "x \<in> stack_range" for x using that by (simp add: stack_range_def USER_STACK_TOP_def)
    have "lookup s1 r x = None" if x: "x \<in> stack_range" for x
      using confinedD(2) [OF s1(1), of r x] new dj su [OF x] r x by (auto simp: in_tree_def)
    then obtain b s2 where s2: "stack_pages (paging_user_rw_nx s1) r (USER_STACK_TOP - USER_STACK_SIZE) (USER_STACK_SIZE div 4096) s1 = (b, s2)"
        "confined k R r stack_range s1 s2"
        "if b then \<forall>x\<in>stack_range. load s2 r x = Some 0 \<and> (\<exists>a. is_frame a \<and> lookup s2 r x = Some (mk_pte a (paging_user_rw_nx s1))) else card (av s2) \<le> 1"
      using stack_pages_ok [OF confinedD(1) [OF s1(1)] r loader_flags_ok(3) stack_user_pages(1), unfolded stack_user_pages(2), folded stack_range_def] by blast
    have c: "confined k R r (?I \<union> stack_range) s s2" using confined_trans [OF c1 confined_mono [OF s2(2)]] by simp
    have e: "elf_load64 f True r s = (if b then Answer (fld0 f 24 8) USER_STACK_TOP s2 else Answer 0 0 s2)"
      using unf l s2(1) by (simp add: elf_phdrs_def)
    have kept: "seg_loaded f ph (g_nx_enabled s) r s2" if "ph \<in> set (loads (elf_phdrs f))" for ph
    proof (rule seg_loaded_kept [OF s2(2) r])
      show "seg_ok f ph" using so that unfolding segs_ok_def by blast
      show "seg_span ph \<inter> stack_range = {}" using dj that unfolding load_image_def by blast
      show "seg_loaded f ph (g_nx_enabled s) r s1" using l that by blast
    qed
    have "stack_loaded (g_nx_enabled s) r s2" if yes: b unfolding stack_loaded_def
    proof (intro ballI conjI)
      fix x assume x: "x \<in> stack_range"
      show "load s2 r x = Some 0" using s2(3) yes x by simp
      obtain a where a: "is_frame a" "lookup s2 r x = Some (mk_pte a (paging_user_rw_nx s1))" using s2(3) yes x by auto
      show "\<exists>e. lookup s2 r x = Some e \<and> bit e 1 \<and> (bit e 63 \<longleftrightarrow> g_nx_enabled s)"
        using a(2) mk_pte_bit [OF a(1), of 1] mk_pte_bit [OF a(1), of 63] s1(2) by (simp add: stack_flags_bit)
    qed
    then show ?thesis using c e kept s2(3) by (cases b) auto
  qed
qed

section \<open>Files that fault the kernel\<close>

lemma fill_segment_faults:
  assumes run: "vm_run k s R" and r: "r \<in> R" and bytes: "p_offset ph + p_filesz ph \<le> length f" "p_filesz ph < 2 ^ 32"
    and user: "p_vaddr ph + p_filesz ph \<le> 2 ^ 47" "\<forall>x. p_vaddr ph \<le> x \<longrightarrow> x < p_vaddr ph + p_filesz ph \<longrightarrow> \<not> kz_shm_va_excluded x"
    and x: "p_vaddr ph \<le> x" "x < p_vaddr ph + p_filesz ph" "lookup s r x = None"
  shows "fill_segment f ph r s = Fault"
proof -
  let ?bs = "bslice (p_offset ph) (u32 (p_filesz ph)) f"
  have len: "length ?bs = p_filesz ph" using bytes by (simp add: u32_def bslice_def)
  have "write_bytes (store r) (p_vaddr ph) ?bs s = Fault"
  proof (rule write_bytes_Fault [OF run r, where i = "x - p_vaddr ph"])
    show "p_vaddr ph + i < 2 ^ 47 \<and> \<not> kz_shm_va_excluded (p_vaddr ph + i)" if "i < length ?bs" for i using user that len by simp
    show "x - p_vaddr ph < length ?bs" using x len by simp
    show "\<not> writable_byte s r (p_vaddr ph + (x - p_vaddr ph))" using x by (simp add: writable_byte_def)
  qed
  then show ?thesis using cpu_store_user [of "p_vaddr ph" ?bs r s] user(1) len by (simp add: fill_segment_def)
qed

lemma block_page:
  fixes x :: nat
  assumes "0x400000 dvd p" and "4096 \<le> x mod 0x400000"
  shows "x div 4096 \<noteq> p div 4096"
proof
  assume e: "x div 4096 = p div 4096"
  obtain m where m: "p = 0x400000 * m" using assms(1) by blast
  have "x = 4096 * (x div 4096) + x mod 4096" by simp
  also have "x div 4096 = 1024 * m" using e m by simp
  finally have "x = 0x400000 * m + x mod 4096" by simp
  then have "x mod 0x400000 = x mod 4096 mod 0x400000" by (metis mod_mult_self4)
  moreover have "x mod 4096 < 4096" by simp
  then have "x mod 4096 mod 0x400000 < 4096" by (metis mod_less_eq_dividend order_le_less_trans)
  ultimately show False using assms(2) by linarith
qed

lemma map_blocks_ok:
  assumes "vm_run k s R" and r: "r \<in> R" and x: "x < 2 ^ 47" "4096 \<le> x mod 0x400000" and e: "seg_end \<le> KZ_SHM_BASE"
    and "0x400000 dvd p" and "\<forall>i<n. p + i * 0x400000 < seg_end" "seg_end \<le> p + n * 0x400000" and "lookup s r x = None"
  shows "\<exists>b s'. map_blocks p seg_end r s = Some (b, s') \<and> vm_run k s' R \<and> lookup s' r x = None \<and> (b \<or> card (av s') \<le> 1)"
  using assms(1,6-9)
proof (induction n arbitrary: p s)
  case 0
  then show ?case by (subst map_blocks.simps) auto
next
  case (Suc n)
  have lt: "p < seg_end" using Suc.prems(3) by (auto dest: spec [of _ 0])
  then have p: "p < 2 ^ 47" "\<not> kz_shm_va_excluded p" "u32 (p + 0x400000) = p + 0x400000"
    using e by (simp_all add: kz_shm_va_excluded_def KZ_SHM_BASE_def u32_def)
  have ok: "vm_ok k s R" by (rule vm_run_ok [OF Suc.prems(1)])
  have fl: "flags_ok 7" by (simp add: flags_ok_def PAGING_NX_def)
  have t: "in_tree k R r p" "in_tree k R r x" using r p x by (simp_all add: in_tree_def)
  obtain b s1 where eq: "vmm_alloc_page_into p 7 r s = (b, s1)" by (cases "vmm_alloc_page_into p 7 r s")
  have am: "alloc_map r p 7 s = (b, s1)" using eq alloc_into_map [OF ok r p(1)] by simp
  have run1: "vm_run k s1 R" by (rule vm_run.alloc_user [OF Suc.prems(1) r p(1,2) fl eq])
  have "\<not> same_page p x" using block_page [OF Suc.prems(2) x(2)] user_same_page [OF p(1) x(1)] by simp
  then have l1: "lookup s1 r x = None" using alloc_map_lookup [OF ok t(1) am fl] t(2) Suc.prems(5) by auto
  have mb: "map_blocks p seg_end r s = (if \<not> b then Some (False, s1) else map_blocks (p + 0x400000) seg_end r s1)"
    using lt eq p(3) by (subst map_blocks.simps) simp
  show ?case
  proof (cases b)
    case False
    have "av s1 \<subseteq> {fst (vm_alloc s)}" using alloc_map_fails [OF ok r p(1) _ fl] am False by simp
    then have "card (av s1) \<le> 1" using card_mono [of "{fst (vm_alloc s)}" "av s1"] by simp
    then show ?thesis using mb False run1 l1 by auto
  next
    case True
    have "\<forall>i<n. p + 0x400000 + i * 0x400000 < seg_end" using Suc.prems(3) [rule_format, of "Suc _"] by (simp add: add.assoc)
    then show ?thesis using Suc.IH [OF run1, of "p + 0x400000"] Suc.prems(2,4) l1 mb True by simp
  qed
qed

section \<open>Properties\<close>


text \<open>C26 (error). The loader does not compare the two sizes of a segment: when the bytes of the file reach past the pages of the segment
  to an address that is not mapped, the copy faults in the kernel, unless the memory runs out first.\<close>

theorem oversized_segment_faults:
  assumes "vm_run k s R" and "r \<in> R" and "p_type ph = 1" and "user_pages (seg_page ph) (seg_count ph)" and "\<forall>y\<in>seg_span ph. lookup s r y = None"
    and "p_offset ph + p_filesz ph \<le> length f" "p_filesz ph < 2 ^ 32"
    and "p_vaddr ph + p_filesz ph \<le> 2 ^ 47" "\<forall>y. p_vaddr ph \<le> y \<longrightarrow> y < p_vaddr ph + p_filesz ph \<longrightarrow> \<not> kz_shm_va_excluded y"
    and "p_vaddr ph \<le> x" "x < p_vaddr ph + p_filesz ph" "x \<notin> seg_span ph" "lookup s r x = None"
  shows "load_segment f r ph s = Faults \<or> (\<exists>s'. load_segment f r ph s = Refused s' \<and> card (av s') \<le> 1)"
proof -
  obtain b s1 where m: "map_pages (seg_page ph) (p_vaddr ph + p_memsz ph) fill_flags r s = Some (b, s1)" "confined k R r (seg_span ph) s s1"
      "if b then \<forall>x\<in>seg_span ph. \<exists>a. is_frame a \<and> lookup s1 r x = Some (mk_pte a fill_flags) else card (av s1) \<le> 1"
    using map_pages_ok [OF assms(1,2) loader_flags_ok(1) assms(4) seg_count_bounds(1,2)] assms(5) unfolding seg_span_def by blast
  have "p_vaddr ph + p_memsz ph \<le> 2 ^ 47" using seg_count_bounds(2) [of ph] assms(4) by (simp add: user_pages_def)
  then have guard: "\<not> 2 ^ 64 - 1 - p_vaddr ph < p_memsz ph" "\<not> (length f < p_offset ph \<or> length f - p_offset ph < p_filesz ph)"
    using assms(6) by auto
  note unf = load_segment_def [of f r ph s, unfolded Let_def seg_page_def [symmetric]]
  have "lookup s1 r x = None" using confinedD(2) [OF m(2), of r x] assms(2,8,11,12,13) by (simp add: in_tree_def)
  then have "fill_segment f ph r s1 = Fault" by (rule fill_segment_faults [OF confinedD(1) [OF m(2)] assms(2,6-11)])
  then show ?thesis using unf assms(3) guard m(1,3) by (cases b) simp_all
qed

text \<open>C29 (error). The legacy loader maps one page for every four megabytes: a segment with a byte of the file elsewhere, at an address that
  was not mapped before, faults in the kernel, unless the memory runs out first.\<close>

theorem elf32_segment_faults:
  assumes "vm_run k s R" and "r \<in> R" and "p_type ph = 1" and "p_filesz ph \<le> p_memsz ph" and "p_vaddr ph + p_memsz ph \<le> KZ_SHM_BASE"
    and "p_offset ph + p_filesz ph \<le> length f"
    and "p_vaddr ph \<le> x" "x < p_vaddr ph + p_filesz ph" "4096 \<le> x mod 0x400000" "lookup s r x = None"
  shows "load_segment32 f r ph s = Faults \<or> (\<exists>s'. load_segment32 f r ph s = Refused s' \<and> card (av s') \<le> 1)"
proof -
  let ?B = "0x400000 :: nat" and ?e = "p_vaddr ph + p_memsz ph"
  let ?p = "p_vaddr ph div ?B * ?B"
  let ?n = "(?e - ?p + (?B - 1)) div ?B"
  have le: "?p \<le> p_vaddr ph" by simp
  have small: "?e \<le> 0x50000000" using assms(5) by (simp add: KZ_SHM_BASE_def)
  have n: "\<forall>i<?n. ?p + i * ?B < ?e" "?e \<le> ?p + ?n * ?B" using le by (auto simp: less_eq_div_iff_mult_less_eq)
  have x: "x < 2 ^ 47" using assms(4,8) small by simp
  obtain b s1 where m: "map_blocks ?p ?e r s = Some (b, s1)" "vm_run k s1 R" "lookup s1 r x = None" "b \<or> card (av s1) \<le> 1"
    using map_blocks_ok [OF assms(1,2) x assms(9,5) _ n assms(10)] by auto
  have shm: "\<forall>y. p_vaddr ph \<le> y \<longrightarrow> y < p_vaddr ph + p_filesz ph \<longrightarrow> \<not> kz_shm_va_excluded y"
    using assms(4,5) by (simp add: kz_shm_va_excluded_def)
  have "fill_segment f ph r s1 = Fault"
    by (rule fill_segment_faults [OF m(2) assms(2,6) _ _ shm assms(7,8) m(3)]) (use assms(4) small in simp_all)
  moreover have "u32 ?e = ?e" using small by (simp add: u32_def)
  moreover have "\<not> (length f < p_offset ph \<or> length f - p_offset ph < p_filesz ph)" using assms(6) by auto
  ultimately show ?thesis using assms(3) m(1,4) by (cases b) (simp_all add: load_segment32_def)
qed

section \<open>Witnesses\<close>

text \<open>A file with one segment: three bytes of code at four megabytes, readable and executable.\<close>

definition demo_elf :: "byte list" where
  "demo_elf = [
    0x7F, 0x45, 0x4C, 0x46, 2, 0, 0, 0, 0, 0, 0, 0, 0, 0, 0, 0, 0, 0, 0, 0, 0, 0, 0, 0, 0, 0, 0x40, 0, 0, 0, 0, 0,
    0x40, 0, 0, 0, 0, 0, 0, 0, 0, 0, 0, 0, 0, 0, 0, 0, 0, 0, 0, 0, 0, 0, 0, 0, 1, 0, 0, 0, 0, 0, 0, 0,
    1, 0, 0, 0, 5, 0, 0, 0, 0x78, 0, 0, 0, 0, 0, 0, 0, 0, 0, 0x40, 0, 0, 0, 0, 0, 0, 0, 0, 0, 0, 0, 0, 0,
    3, 0, 0, 0, 0, 0, 0, 0, 0x10, 0, 0, 0, 0, 0, 0, 0, 0, 0, 0, 0, 0, 0, 0, 0, 0x90, 0x90, 0xC3]"

abbreviation demo_phdr :: elf_phdr where
  "demo_phdr \<equiv> \<lparr>p_type = 1, p_flags = 5, p_offset = 120, p_vaddr = 0x400000, p_filesz = 3, p_memsz = 16\<rparr>"

lemma demo_elf_fields:
  "length demo_elf = 123" "elf_magic [0x7F, 0x45, 0x4C, 0x46] demo_elf = Some True" "fld demo_elf 4 1 = Some 2" "fld0 demo_elf 24 8 = 0x400000"
  "fld0 demo_elf 32 8 = 64" "fld0 demo_elf 56 2 = 1" "elf64_phdr demo_elf 64 = demo_phdr" "demo_elf ! 122 = 0xC3"
  by (simp_all add: demo_elf_def fld_def fld0_def elf64_phdr_def bslice_def)

lemma demo_elf_ok: "elf_phdrs demo_elf = [demo_phdr]" "load_image (elf_phdrs demo_elf) = {0x400000..<0x401000}" "elf_ok demo_elf"
proof -
  show p: "elf_phdrs demo_elf = [demo_phdr]" by (simp add: elf_phdrs_def demo_elf_fields)
  have sp: "seg_page demo_phdr = 0x400000" "seg_count demo_phdr = 1" by (simp_all add: seg_page_def seg_count_def)
  show im: "load_image (elf_phdrs demo_elf) = {0x400000..<0x401000}" by (simp add: p load_image_def seg_span_def seg_page_def seg_count_def)
  have "seg_ok demo_elf demo_phdr"
    unfolding seg_ok_def sp user_pages_def by (simp add: demo_elf_fields kz_shm_va_excluded_def KZ_SHM_BASE_def)
  then have "segs_ok demo_elf [demo_phdr]" by (simp add: segs_ok_def)
  then show "elf_ok demo_elf" unfolding elf_ok_def unfolding im unfolding p
    using demo_elf_fields(1-3,5,6) by (auto simp: stack_range_def USER_STACK_TOP_def USER_STACK_SIZE_def)
qed


theorem oversized_segment_faults_witness:
  "\<exists>s c. vm_run 4096 s {c} \<and> load_segment [0xC3] c \<lparr>p_type = 1, p_flags = 5, p_offset = 0, p_vaddr = 0x400000, p_filesz = 1, p_memsz = 0\<rparr> s = Faults"
proof -
  let ?ph = "\<lparr>p_type = 1, p_flags = 5, p_offset = 0, p_vaddr = 0x400000, p_filesz = 1, p_memsz = 0\<rparr>"
  obtain s c where s: "vm_run 4096 s {c}" "\<forall>va. va < 2 ^ 47 \<longrightarrow> lookup s c va = None" by (rule demo_space)
  have "map_pages 0x400000 0x400000 fill_flags c s = Some (True, s)" by (subst map_pages.simps) simp
  then have "load_segment [0xC3] c ?ph s \<noteq> Refused s'" for s' by (simp add: load_segment_def split: access.splits option.splits)
  moreover have "load_segment [0xC3] c ?ph s = Faults \<or> (\<exists>s'. load_segment [0xC3] c ?ph s = Refused s' \<and> card (av s') \<le> 1)"
    by (rule oversized_segment_faults [OF s(1), where x = "0x400000"])
      (use s(2) in \<open>simp_all add: seg_span_def seg_page_def seg_count_def user_pages_def kz_shm_va_excluded_def KZ_SHM_BASE_def\<close>)
  ultimately show ?thesis using s(1) by blast
qed

theorem elf32_segment_faults_witness:
  "\<exists>s c. vm_run 4096 s {c} \<and> load_segment32 [0xC3] c \<lparr>p_type = 1, p_flags = 5, p_offset = 0, p_vaddr = 0x08048000, p_filesz = 1, p_memsz = 1\<rparr> s = Faults"
proof -
  let ?ph = "\<lparr>p_type = 1, p_flags = 5, p_offset = 0, p_vaddr = 0x08048000, p_filesz = 1, p_memsz = 1\<rparr>"
  obtain s c where s: "vm_run 4096 s {c}" "card (av s) \<ge> 1999" "\<forall>va. va < 2 ^ 47 \<longrightarrow> lookup s c va = None" by (rule demo_space)
  have ok: "vm_ok 4096 s {c}" by (rule vm_run_ok [OF s(1)])
  have fl: "flags_ok 7" by (simp add: flags_ok_def PAGING_NX_def)
  obtain b s1 where am: "alloc_map c 0x08000000 7 s = (b, s1)" by (cases "alloc_map c 0x08000000 7 s")
  have x: "in_tree 4096 {c} c 0x08000000" by (simp add: in_tree_def)
  have "b" using alloc_map_ok [OF ok x am fl] s(2) by auto
  then have al: "vmm_alloc_page_into 0x08000000 7 c s = (True, s1)" using alloc_into_map [OF ok, of c "0x08000000"] am by simp
  have "map_blocks 0x08400000 0x08048001 c s1 = Some (True, s1)" by (subst map_blocks.simps) simp
  then have "map_blocks 0x08000000 0x08048001 c s = Some (True, s1)" using al by (subst map_blocks.simps) (simp add: u32_def)
  then have "load_segment32 [0xC3] c ?ph s \<noteq> Refused s'" for s' by (simp add: load_segment32_def u32_def split: access.splits)
  moreover have "load_segment32 [0xC3] c ?ph s = Faults \<or> (\<exists>s'. load_segment32 [0xC3] c ?ph s = Refused s' \<and> card (av s') \<le> 1)"
    by (rule elf32_segment_faults [OF s(1), where x = "0x08048000"]) (use s(3) in \<open>simp_all add: KZ_SHM_BASE_def\<close>)
  ultimately show ?thesis using s(1) by blast
qed

end
