(* ===== verification/Spec2Isabelle.thy ===== *)
theory Spec2Isabelle
  imports Pmm Kz_Tz Event Vfs_Inv Sched_Aging Proc_Props Heap_Inv Wait_Inv Uheap_Inv Shm_Props Elf_Props
begin

text \<open>
  Kyuzen OS: a verification library for the kernel of the \<^verbatim>\<open>kyu\<close> repository, a 64-bit operating system for several processors
  written in C.  All paths below are relative to \<^verbatim>\<open>src/\<close>.

  \<^bold>\<open>The program.\<close>  Frames of physical memory come from one allocator.  Page tables, the kernel heap, the heaps of programs,
  shared surfaces and the program loader take them from there and give them back.  Address spaces are trees of page tables that share the
  kernel's half; system calls check and copy user memory through them.  Tasks are run by a scheduler with a run queue for every processor;
  blocking, sleeping, wait queues, mutexes, semaphores and the exit and wait protocol of processes rest on it.  Files live in KyuzenFS,
  version 4, over a write-back block cache over an ATA disk; descriptors, open descriptions and pipes lie on top.  Civil time is a library that
  the kernel and programs share.

  \<^bold>\<open>Conventions\<close> (\<open>Kz_Base\<close>).  C integers are natural numbers or integers, and wherever C wraps the model says so
  (\<open>u8\<close>, \<open>u16\<close>, \<open>u32\<close>, \<open>u64\<close>, \<open>sub64\<close>, \<open>s32\<close>); page table entries and bytes are words.  Structures are records with the
  fields of the source, linked lists are lists, tables indexed by small numbers are functions or lists.  Error codes, panics and faults of
  the kernel are values.  A definition that C runs under a spinlock is one atomic step; where C lets go of the lock in the middle of a call the model
  has a definition for each part, so that other tasks can run in between.  \<open>Kz_Base\<close> also has little-endian fields and the \<open>bitmap\<close>
  interface, interpreted for the frame bitmap and for the bitmaps of the disk.

  \<^bold>\<open>Memory.\<close>
  \<^item> \<open>Pmm\<close>, \<^verbatim>\<open>kernel/mm/pmm.c\<close>: start-up from the loader's memory map, \<open>pmm_alloc_page\<close>, \<open>pmm_free_page\<close>.  They refine taking from and
    putting into a set of free frames (\<open>frame_allocator\<close>, the interface every user of frames below relies on); no frame is handed out twice.
  \<^item> \<open>Paging\<close>, \<^verbatim>\<open>kernel/mm/paging.c\<close>: the four levels of tables on a physical memory that tables and data share, mapping, unmapping,
    protecting, creating, cloning and destroying address spaces.  \<open>Paging_Tree\<close> names tables by their path from the root and states the invariant
    \<open>vm_ok\<close>; \<open>Paging_Map\<close> and \<open>Paging_Ops\<close> are about single pages, \<open>Paging_Space\<close> and \<open>Paging_Clone\<close> about whole spaces, and \<open>Paging_Props\<close>
    about every sequence of operations (\<open>vm_run\<close>): spaces are isolated, mapping changes one page, a fork copies, destroying returns every
    frame, a failing call loses none, and the kernel's half is the same in every space.
  \<^item> \<open>Usercopy\<close>, \<^verbatim>\<open>kernel/proc/usercopy.c\<close>: the check of user ranges is exact on the tables, the copies round-trip, strings are read up to
    their end.  \<open>load\<close> and \<open>store\<close> are the processor's accesses through the tables.
  \<^item> \<open>Heap\<close> and \<open>Heap_Inv\<close>, \<^verbatim>\<open>kernel/mm/heap.c\<close>: the kernel heap on an explicit store of headers.  The walks are partial functions; the
    theorems show that they return.  Held regions stay apart, and reallocation keeps contents.
  \<^item> \<open>Uheap\<close> and \<open>Uheap_Inv\<close>, \<^verbatim>\<open>kernel/mm/uheap.c\<close>: the heap of a program.  In its window exactly the pages of the regions are mapped, with an unmapped
    page behind each; \<open>confined\<close> says that a change stays in a set of addresses of one space.
  \<^item> \<open>Shm\<close>, \<open>Shm_Mem\<close>, \<open>Shm_Inv\<close>, \<open>Shm_Props\<close>, \<^verbatim>\<open>kernel/mm/kz_shm.c\<close>: shared surfaces.  \<open>shm_step\<close> is one part of one call, \<open>shm_run\<close> any
    interleaving with new tasks and with the rest of the kernel.  A task sees exactly the surfaces recorded for it, with the right access;
    frames are conserved on all paths; stale handles stay stale; and unmapping frees before it unmaps.
  \<^item> \<open>Elf\<close> and \<open>Elf_Props\<close>, \<^verbatim>\<open>kernel/proc/elf.c\<close>: the program loader.  Its loops over pages are partial functions.  For a
    well-formed 64-bit file they return, and the program sees exactly the segments and the stack the file asks for, with their protection;
    a segment with more bytes in the file than in memory, and most 32-bit segments, make the kernel fault.

  \<^bold>\<open>Tasks.\<close>
  \<^item> \<open>Sched\<close>, \<^verbatim>\<open>kernel/sched/runqueue.c\<close>, \<^verbatim>\<open>kernel/sched/block.c\<close>, \<^verbatim>\<open>kernel/sched/core.c\<close>: run queues with aging and stealing, blocking,
    waking, the scheduling decision.  \<open>Proc\<close>, \<^verbatim>\<open>kernel/sched/lifecycle.c\<close>, \<^verbatim>\<open>kernel/proc/proc.c\<close>: creation, exit, adoption, kill, wait.
  \<^item> \<open>Sched_Inv\<close>: on every reachable state no task runs on two processors, and a ready task is in exactly one place.  \<open>Sched_Aging\<close>: a task that
    has waited long enough is taken next.  \<open>Proc_Props\<close>: exit statuses reach the parent, first frames lie in the stack.
  \<^item> \<open>Wait\<close> and \<open>Wait_Inv\<close>, \<^verbatim>\<open>kernel/sync/wait.c\<close>, \<^verbatim>\<open>kernel/sync/sync.c\<close>: wait queues, mutexes, semaphores, condition variables.  The
    interface \<open>monitor\<close> is interpreted for mutexes and semaphores; exclusion, exact counts and that no wake-up is lost follow from it.
  \<^item> \<open>Event\<close>, \<^verbatim>\<open>kernel/sync/event.c\<close>: the event queues of tasks as bounded queues that lose the oldest (\<open>Kz_Ring\<close>).

  \<^bold>\<open>Files.\<close>
  \<^item> \<open>Ata\<close>, \<^verbatim>\<open>drivers/ata.c\<close>: transfers of sectors and blocks on both paths.  \<open>Bcache\<close>, \<^verbatim>\<open>kernel/fs/bcache.c\<close>: the cache is transparent and
    flushing makes it durable; \<open>block_store\<close> is the interface the file system uses.
  \<^item> \<open>Kfs_State\<close>, \<open>Kfs_Balloc\<close>, \<open>Kfs_Inode\<close>, \<open>Kfs_Extent\<close>, \<open>Kfs_Dir\<close>, \<open>Kfs_Super\<close>, \<open>Kfs_Vnode\<close>, \<^verbatim>\<open>kernel/fs/kfs_*.c\<close>: structures on disk, allocation,
    the inode cache, extents and file data, directories, mounting and formatting, paths and rename.  File data reads back what was written, the
    inode cache has one entry for a number, allocation takes the best run.  \<open>Kfs_Refs\<close>: path walks give back every reference
    they take on every branch, and listings end.
  \<^item> \<open>Vfs_Fd\<close> and \<open>Vfs_Inv\<close>, \<^verbatim>\<open>kernel/fs/vfs_fd.c\<close>: descriptors with counted descriptions and pipes.  The counts are exact on every
    reachable state, descriptions are well typed, and a pipe is a byte stream.

  \<^bold>\<open>Time.\<close>  \<open>Kz_Civil\<close> and \<open>Kz_Tz\<close>, \<^verbatim>\<open>libs/time/src/kztime.c\<close>: the calendar, zones with daylight saving, formatting and preferences.

  \<^bold>\<open>Bounds and fuel.\<close>  Loops over fixed tables are recursion on their indices.  Loops that C bounds by data are recursion with a termination
  proof, and loops that need not end (walks of the kernel heap, the loader's page loops whose address can wrap) are partial functions with the
  outcome \<open>None\<close>, for which the theorems prove that they return.  The retries of the pipe and of waiting calls take the actions of the other tasks
  as an explicit list, so they end with the list.  Sizes of tables are those of the source.

  \<^bold>\<open>Inputs.\<close>  Outcomes of calls into parts that are modelled on their own but not composed (whether \<open>kmalloc\<close> of a record succeeds) are arguments, as
  are the console, the answers of the disk, and the contents of the file the loader reads.

  \<^bold>\<open>Not modelled.\<close>  Hardware: spinlock words, descriptor tables, interrupt controllers, translation caches and their flushing between
  processors, port input and output, timers, the FPU, network and graphics devices, start-up of the other processors.  Code with no state of its own or whose state
  is pixels: the system call dispatcher (it decodes registers and calls the modelled operations), boot, panics and dumps, the console, the
  window manager and compositor.  The network stack is third-party code.  The programs and the C++, Rust and graphical libraries of
  user space run above the system calls.  Of the modelled files, output for debugging, \<^verbatim>\<open>kfs_list_files\<close> and \<^verbatim>\<open>kfs_read_file\<close>, which only print, the
  mapping of kernel stacks and the copying of argument vectors are left out.
\<close>

end
